(* ===== verification/Prelude.thy ===== *)
theory Prelude
  imports Main "HOL-Library.Word" "HOL-Library.Monad_Syntax"
begin

unbundle bit_operations_syntax

text \<open>
  Shared by every component: the machine integers of the C code, bounds-checked array access,
  counting loops over a state that may fault, the return codes of \<^verbatim>\<open>include/frc_types.h\<close>, and the
  generic lemmas that the component proofs use.

  A C array is a list. A read or write outside it is undefined behaviour in C; the model makes it
  the value \<open>None\<close> (a fault), so that a theorem that ends in \<open>Some\<close> also shows that no access
  was out of range.
\<close>

named_theorems c_consts \<open>values of the constants of the C headers\<close>
named_theorems arr_simps \<open>bounds-checked array access\<close>

type_synonym u8 = "8 word"
type_synonym u16 = "16 word"
type_synonym u32 = "32 word"
type_synonym u64 = "64 word"

section \<open>Return codes\<close>

definition FRE_SUCCESS :: int where [c_consts]: "FRE_SUCCESS = 0"
definition FRE_FAIL :: int where [c_consts]: "FRE_FAIL = 1"
definition FRE_INIT :: int where [c_consts]: "FRE_INIT = 2"
definition FRE_MEMORY :: int where [c_consts]: "FRE_MEMORY = 3"
definition FRE_DMA :: int where [c_consts]: "FRE_DMA = 7"
definition FRE_NOSPACE :: int where [c_consts]: "FRE_NOSPACE = 8"
definition FRE_PARAM :: int where [c_consts]: "FRE_PARAM = 12"
definition FRE_EXCEED :: int where [c_consts]: "FRE_EXCEED = 14"
definition FRE_NOTFOUND :: int where [c_consts]: "FRE_NOTFOUND = 15"
definition MC_ERROR :: int where [c_consts]: "MC_ERROR = -1"
definition FRCORE_ACT_FORWARD :: int where "FRCORE_ACT_FORWARD = 2"
definition FRCORE_ACT_UNFREE :: int where "FRCORE_ACT_UNFREE = 4"

section \<open>Arrays\<close>

definition arr_get :: "'a list \<Rightarrow> nat \<Rightarrow> 'a option" where
  "arr_get xs i = (if i < length xs then Some (xs ! i) else None)"

definition arr_set :: "'a list \<Rightarrow> nat \<Rightarrow> 'a \<Rightarrow> 'a list option" where
  "arr_set xs i v = (if i < length xs then Some (xs[i := v]) else None)"

lemma arr_get_Some [arr_simps, simp]: "i < length xs \<Longrightarrow> arr_get xs i = Some (xs ! i)"
  by (simp add: arr_get_def)

lemma arr_set_Some [arr_simps, simp]: "i < length xs \<Longrightarrow> arr_set xs i v = Some (xs[i := v])"
  by (simp add: arr_set_def)

lemma arr_get_eq_Some [arr_simps]: "arr_get xs i = Some v \<longleftrightarrow> i < length xs \<and> v = xs ! i"
  by (auto simp: arr_get_def)

lemma arr_set_eq_Some [arr_simps]: "arr_set xs i v = Some ys \<longleftrightarrow> i < length xs \<and> ys = xs[i := v]"
  by (auto simp: arr_set_def)

lemma arr_get_None [simp]: "arr_get xs i = None \<longleftrightarrow> length xs \<le> i"
  by (auto simp: arr_get_def)

lemma arr_set_None [simp]: "arr_set xs i v = None \<longleftrightarrow> length xs \<le> i"
  by (auto simp: arr_set_def)

section \<open>Loops\<close>

text \<open>\<open>for_each [a..<b] f s\<close> is \<^verbatim>\<open>for (i = a; i < b; i++)\<close> with body \<open>f i\<close> on the state \<open>s\<close>.\<close>

fun for_each :: "'i list \<Rightarrow> ('i \<Rightarrow> 's \<Rightarrow> 's option) \<Rightarrow> 's \<Rightarrow> 's option" where
  "for_each [] f s = Some s"
| "for_each (i # is) f s = (case f i s of None \<Rightarrow> None | Some s' \<Rightarrow> for_each is f s')"

text \<open>The same with \<^verbatim>\<open>return\<close> in the body: a body result \<open>(True, s)\<close> leaves the loop.\<close>

fun for_ret :: "'i list \<Rightarrow> ('i \<Rightarrow> 's \<Rightarrow> (bool \<times> 's) option) \<Rightarrow> 's \<Rightarrow> (bool \<times> 's) option" where
  "for_ret [] f s = Some (False, s)"
| "for_ret (i # is) f s =
     (case f i s of None \<Rightarrow> None
      | Some (True, s') \<Rightarrow> Some (True, s')
      | Some (False, s') \<Rightarrow> for_ret is f s')"

text \<open>The first index of a list that satisfies a condition: \<^verbatim>\<open>for ... if (c) return i\<close>.\<close>

fun first_index :: "('i \<Rightarrow> bool) \<Rightarrow> 'i list \<Rightarrow> 'i option" where
  "first_index p [] = None"
| "first_index p (i # is) = (if p i then Some i else first_index p is)"

lemma unat_u8: "unat (w :: u8) < 256"
  using unsigned_less [of w] by simp

lemma unat_u16: "unat (w :: u16) < 65536"
  using unsigned_less [of w] by simp

lemma unat_u32: "unat (w :: u32) < 4294967296"
  using unsigned_less [of w] by simp

lemma unat_ucast_up [simp]:
  "LENGTH('a) \<le> LENGTH('b) \<Longrightarrow> unat (ucast (w :: 'a::len word) :: 'b::len word) = unat w"
  by transfer (simp add: take_bit_take_bit min_def)

lemma unat_ucast_mod: "unat (ucast (w :: 'a::len word) :: 'b::len word) = unat w mod 2 ^ LENGTH('b)"
  by (simp add: unsigned_ucast_eq take_bit_eq_mod)

lemma for_each_append:
  "for_each (xs @ ys) f s = (case for_each xs f s of None \<Rightarrow> None | Some s' \<Rightarrow> for_each ys f s')"
  by (induction xs arbitrary: s) (auto split: option.split)

lemma for_each_inv:
  assumes "for_each is f s = Some t" and "P 0 s"
    and "\<And>k x y. k < length is \<Longrightarrow> P k x \<Longrightarrow> f (is ! k) x = Some y \<Longrightarrow> P (Suc k) y"
  shows "P (length is) t"
  using assms
proof (induction "is" arbitrary: s P)
  case Nil
  then show ?case by simp
next
  case (Cons i "is")
  from Cons.prems(1) obtain y where y: "f i s = Some y" and rest: "for_each is f y = Some t"
    by (auto split: option.splits)
  have "P (Suc 0) y"
    using Cons.prems(3) [of 0 s y] Cons.prems(2) y by simp
  then have "(\<lambda>k. P (Suc k)) (length is) t"
    by (rule Cons.IH [OF rest, where P = "\<lambda>k. P (Suc k)"]) (use Cons.prems(3) in fastforce)
  then show ?case by simp
qed

lemma for_each_total:
  assumes "P 0 s"
    and "\<And>k x. k < length is \<Longrightarrow> P k x \<Longrightarrow> \<exists>y. f (is ! k) x = Some y \<and> P (Suc k) y"
  shows "\<exists>t. for_each is f s = Some t \<and> P (length is) t"
  using assms
proof (induction "is" arbitrary: s P)
  case Nil
  then show ?case by simp
next
  case (Cons i "is")
  obtain y where y: "f i s = Some y" "P (Suc 0) y"
    using Cons.prems(2) [of 0 s] Cons.prems(1) by auto
  have "\<exists>t. for_each is f y = Some t \<and> (\<lambda>k. P (Suc k)) (length is) t"
    by (rule Cons.IH [where P = "\<lambda>k. P (Suc k)"]) (use y Cons.prems(2) in fastforce)+
  with y show ?case by simp
qed

lemma for_each_upt_inv:
  assumes "for_each [0..<n] f s = Some t" and "P 0 s"
    and "\<And>k x y. k < n \<Longrightarrow> P k x \<Longrightarrow> f k x = Some y \<Longrightarrow> P (Suc k) y"
  shows "P n t"
  using for_each_inv [of "[0..<n]" f s t P] assms by simp

lemma for_each_upt_total:
  assumes "P 0 s" and "\<And>k x. k < n \<Longrightarrow> P k x \<Longrightarrow> \<exists>y. f k x = Some y \<and> P (Suc k) y"
  shows "\<exists>t. for_each [0..<n] f s = Some t \<and> P n t"
  using for_each_total [of P s "[0..<n]" f] assms by simp

text \<open>Two nested counting loops, with the invariant indexed by the number of inner steps done.\<close>

lemma for_each2_inv:
  assumes run: "for_each [0..<a] (\<lambda>i. for_each [0..<b] (f i)) s = Some t" and init: "P 0 s"
    and step: "\<And>i j x y. i < a \<Longrightarrow> j < b \<Longrightarrow> P (i * b + j) x \<Longrightarrow> f i j x = Some y \<Longrightarrow> P (Suc (i * b + j)) y"
  shows "P (a * b) t"
proof (rule for_each_upt_inv [OF run, where P = "\<lambda>i. P (i * b)"])
  show "P (0 * b) s" using init by simp
  fix i x y assume "i < a" "P (i * b) x" "for_each [0..<b] (f i) x = Some y"
  then have "P (i * b + b) y"
    using for_each_upt_inv [of b "f i" x y "\<lambda>j. P (i * b + j)"] step by simp
  then show "P (Suc i * b) y" by (simp add: add.commute)
qed

lemma for_each2_total:
  assumes init: "P 0 s"
    and step: "\<And>i j x. i < a \<Longrightarrow> j < b \<Longrightarrow> P (i * b + j) x \<Longrightarrow> \<exists>y. f i j x = Some y \<and> P (Suc (i * b + j)) y"
  shows "\<exists>t. for_each [0..<a] (\<lambda>i. for_each [0..<b] (f i)) s = Some t \<and> P (a * b) t"
proof (rule for_each_upt_total [where P = "\<lambda>i. P (i * b)"])
  show "P (0 * b) s" using init by simp
  fix i x assume "i < a" "P (i * b) x"
  then have "\<exists>y. for_each [0..<b] (f i) x = Some y \<and> P (i * b + b) y"
    using for_each_upt_total [of "\<lambda>j. P (i * b + j)" x b "f i"] step by simp
  then show "\<exists>y. for_each [0..<b] (f i) x = Some y \<and> P (Suc i * b) y" by (simp add: add.commute)
qed

lemma nth_index_less: "i < a \<Longrightarrow> j < b \<Longrightarrow> i * b + j < a * (b :: nat)"
proof -
  assume "i < a" "j < b"
  then have "i * b + j < Suc i * b" by simp
  also have "\<dots> \<le> a * b" using \<open>i < a\<close> by (intro mult_le_mono1) simp
  finally show ?thesis .
qed

lemma first_index_Some:
  "first_index p xs = Some x \<Longrightarrow> x \<in> set xs \<and> p x"
  by (induction xs) (auto split: if_splits)

lemma first_index_None: "first_index p xs = None \<longleftrightarrow> (\<forall>x \<in> set xs. \<not> p x)"
  by (induction xs) auto

lemma first_index_cong:
  "(\<And>x. x \<in> set xs \<Longrightarrow> p x = q x) \<Longrightarrow> first_index p xs = first_index q xs"
  by (induction xs) auto

lemma first_index_upt_shift:
  "first_index p [Suc a..<Suc b] = map_option Suc (first_index (\<lambda>i. p (Suc i)) [a..<b])"
proof -
  have "first_index p (map Suc xs) = map_option Suc (first_index (\<lambda>i. p (Suc i)) xs)" for xs
    by (induction xs) auto
  from this [of "[a..<b]"] show ?thesis by (simp add: map_Suc_upt)
qed

lemma first_index_upt_least:
  "first_index p [0..<n] = Some i \<longleftrightarrow> i < n \<and> p i \<and> (\<forall>j < i. \<not> p j)"
proof (induction n arbitrary: p i)
  case 0
  then show ?case by simp
next
  case (Suc n)
  have split: "[0..<Suc n] = 0 # [Suc 0..<Suc n]" by (simp add: upt_rec)
  show ?case
  proof (cases i)
    case 0
    then show ?thesis by (auto simp: split first_index_upt_shift simp del: upt_Suc)
  next
    case (Suc k)
    have all: "(\<forall>j < Suc k. \<not> p j) \<longleftrightarrow> \<not> p 0 \<and> (\<forall>j < k. \<not> p (Suc j))"
      by (auto simp: less_Suc_eq_0_disj)
    show ?thesis
      using Suc.IH [of "\<lambda>i. p (Suc i)" k] Suc all
      by (auto simp: split first_index_upt_shift simp del: upt_Suc)
  qed
qed

section \<open>Lists with unique keys\<close>

lemma find_append: "List.find p (xs @ ys) = (case List.find p xs of None \<Rightarrow> List.find p ys | Some x \<Rightarrow> Some x)"
  by (induction xs) auto

lemma find_key_None: "List.find (\<lambda>x. k x = t) xs = None \<longleftrightarrow> t \<notin> k ` set xs"
  by (auto simp: find_None_iff)

lemma find_key_middle:
  assumes "k x \<notin> k ` set (as @ bs)"
  shows "List.find (\<lambda>x. k x = t) (as @ x # bs) = (if t = k x then Some x else List.find (\<lambda>x. k x = t) (as @ bs))"
proof (cases "t = k x")
  case True
  then have "List.find (\<lambda>x. k x = t) as = None" using assms by (auto simp: find_key_None)
  with True show ?thesis by (simp add: find_append)
qed (auto simp: find_append split: option.split)

lemma sorted_key_middle:
  "sorted_wrt (<) (map k (as @ x # bs)) \<longleftrightarrow>
     sorted_wrt (<) (map k (as @ bs)) \<and> (\<forall>a \<in> set as. k a < k x) \<and> (\<forall>b \<in> set bs. k x < (k b :: 'k::order))"
  by (auto simp: sorted_wrt_append)

lemma sorted_key_notin:
  "sorted_wrt (<) (map k (as @ x # bs)) \<Longrightarrow> k x \<notin> k ` set (as @ bs)" for k :: "'a \<Rightarrow> 'k::order"
  by (auto simp: sorted_wrt_append)

lemma first_index_split:
  assumes "first_index (\<lambda>i. p (xs ! i)) [0..<length xs] = Some i"
  shows "i < length xs" "p (xs ! i)" "xs = take i xs @ xs ! i # drop (Suc i) xs" "\<forall>x \<in> set (take i xs). \<not> p x"
proof -
  have i: "i < length xs \<and> p (xs ! i) \<and> (\<forall>j < i. \<not> p (xs ! j))"
    using assms by (simp add: first_index_upt_least)
  then show "i < length xs" "p (xs ! i)" by simp_all
  show "xs = take i xs @ xs ! i # drop (Suc i) xs" using i by (simp add: id_take_nth_drop)
  show "\<forall>x \<in> set (take i xs). \<not> p x" using i by (auto simp: in_set_conv_nth)
qed

section \<open>Sequences of operations\<close>

text \<open>The answers and the last state of a machine that faults (\<open>None\<close>) or answers each operation, and of an
  abstract machine that always answers.\<close>

fun run_ops :: "('op \<Rightarrow> 's \<Rightarrow> ('r \<times> 's) option) \<Rightarrow> 'op list \<Rightarrow> 's \<Rightarrow> ('r list \<times> 's) option" where
  "run_ops step [] s = Some ([], s)"
| "run_ops step (x # xs) s = do { (r, s) \<leftarrow> step x s; (rs, s) \<leftarrow> run_ops step xs s; Some (r # rs, s) }"

fun run_spec :: "('op \<Rightarrow> 'a \<Rightarrow> 'r \<times> 'a) \<Rightarrow> 'op list \<Rightarrow> 'a \<Rightarrow> 'r list \<times> 'a" where
  "run_spec astep [] a = ([], a)"
| "run_spec astep (x # xs) a =
     (fst (astep x a) # fst (run_spec astep xs (snd (astep x a))), snd (run_spec astep xs (snd (astep x a))))"

text \<open>A machine that does what an abstract machine says, operation by operation, does so for every sequence
  of operations: the same answers, and related states at the end.\<close>

locale machine_refinement =
  fixes step :: "'op \<Rightarrow> 's \<Rightarrow> ('r \<times> 's) option" and astep :: "'op \<Rightarrow> 'a \<Rightarrow> 'r \<times> 'a" and rel :: "'s \<Rightarrow> 'a \<Rightarrow> bool"
  assumes step_sim: "rel s a \<Longrightarrow> \<exists>s'. step x s = Some (fst (astep x a), s') \<and> rel s' (snd (astep x a))"
begin

lemma run_sim: "rel s a \<Longrightarrow> \<exists>s'. run_ops step xs s = Some (fst (run_spec astep xs a), s') \<and> rel s' (snd (run_spec astep xs a))"
proof (induction xs arbitrary: s a)
  case (Cons x xs)
  obtain s1 where s1: "step x s = Some (fst (astep x a), s1)" "rel s1 (snd (astep x a))"
    using step_sim [OF Cons.prems] by blast
  then show ?case using Cons.IH [OF s1(2)] by auto
qed simp

text \<open>Conversely, whatever a run reached stands for what the abstract run reached.\<close>

lemma run_related: "rel s a \<Longrightarrow> run_ops step xs s = Some (rs, s') \<Longrightarrow> rs = fst (run_spec astep xs a) \<and> rel s' (snd (run_spec astep xs a))"
  using run_sim [of s a xs] by auto

end

lemma unat_u64: "unat (w :: u64) < 2 ^ 64"
  using unsigned_less [of w] by simp

end
