(* ===== verification/Rfc.thy ===== *)
theory Rfc
  imports Prelude
begin

text \<open>
  \<^verbatim>\<open>frcore/frcore_rfc.h\<close> and \<^verbatim>\<open>frcore/frcore_rfc.c\<close> (configuration \<^verbatim>\<open>RFC4_DEBUG\<close>): recursive flow
  classification. The filters of a filter set are compiled into lookup tables. Phase 0 maps each of
  the seven 16-bit header fields to an equivalence class of field values, each class carrying the
  bitmap of the filters that accept it; phases 1 to 3 combine classes by intersecting bitmaps, and
  phase 3 stores the tag of the first filter of the final bitmap.

  The theory has the data types, the bitmap operations, the list of equivalence classes, the four
  table-building functions, the interface \<open>class_store\<close> that the builders rely on, and the lemmas
  that say what each table holds.
\<close>

section \<open>Data\<close>

definition SIZE :: nat where [c_consts]: "SIZE = 64"
definition LENGTH_BITS :: nat where [c_consts]: "LENGTH_BITS = 32"
definition MPP_MAX_FILTERS :: nat where [c_consts]: "MPP_MAX_FILTERS = 2048"
definition ACL_MAX_CELL :: nat where [c_consts]: "ACL_MAX_CELL = 1000000"
definition PORT_SPACE :: nat where [c_consts]: "PORT_SPACE = 65536"
definition ACL_ENABLE :: u8 where [c_consts]: "ACL_ENABLE = 2"
definition ACL_DISABLE :: u8 where [c_consts]: "ACL_DISABLE = 1"
definition ACL_UNSET :: u8 where [c_consts]: "ACL_UNSET = 0"
definition ACL_SYNC :: u8 where [c_consts]: "ACL_SYNC = 1"
definition ACL_NOSYNC :: u8 where [c_consts]: "ACL_NOSYNC = 0"
definition ACL_OK :: int where [c_consts]: "ACL_OK = 1"
definition ACL_ERROR :: int where [c_consts]: "ACL_ERROR = -1"

record FILTER =
  fl_cost :: u32
  fl_sync :: u8
  fl_state :: u8
  fl_op :: u16
  fl_action :: u16
  fl_rule_type :: u16
  fl_rule_source :: u16
  fl_dim :: "(u32 \<times> u32) list"

record FILTSET =
  numFilters :: u32
  filtArr :: "FILTER list"
  pkt_num :: "u64 list"
  pkt_bytes :: "u64 list"

record CES =
  eqID :: u16
  cbm :: "u32 list"

record LISTEqS =
  nCES :: u16
  ces :: "CES list"

record Pnode =
  cell :: "u16 list"
  listEqs :: LISTEqS

record Pnoder =
  ncells :: nat
  rcell :: "u16 list"
  rlistEqs :: LISTEqS

section \<open>Bitmaps and the list of equivalence classes\<close>

text \<open>\<open>k\<close> is an \<^verbatim>\<open>unsigned int\<close>: for a filter number of 2048 or more it wraps and the write is
  outside the bitmap.\<close>

definition SetBmpBit :: "u32 list \<Rightarrow> u32 \<Rightarrow> bool \<Rightarrow> u32 list option" where
  "SetBmpBit tbmp i value =
     (let k = of_nat (SIZE - 1) - i div of_nat LENGTH_BITS;
          pos = i mod of_nat LENGTH_BITS;
          tempInt = push_bit (unat pos) (1 :: u32)
      in do {
        w \<leftarrow> arr_get tbmp (unat k);
        if value then arr_set tbmp (unat k) (w OR tempInt)
        else arr_set tbmp (unat k) (w AND NOT tempInt)
      })"

definition InitListEqs :: "LISTEqS \<Rightarrow> LISTEqS" where
  "InitListEqs l = l\<lparr>nCES := 0\<rparr>"

definition CompareBmp :: "u32 list \<Rightarrow> u32 list \<Rightarrow> bool" where
  "CompareBmp abmp bbmp = list_all (\<lambda>i. abmp ! i = bbmp ! i) [0..<SIZE]"

definition SearchBmp :: "LISTEqS \<Rightarrow> u32 list \<Rightarrow> int" where
  "SearchBmp l tbmp =
     (case first_index (\<lambda>i. CompareBmp (cbm (ces l ! i)) tbmp) [0..<unat (nCES l)] of
        None \<Rightarrow> -1
      | Some i \<Rightarrow> int i)"

text \<open>The copy of the \<open>SIZE\<close> words of \<open>tbmp\<close> into the new entry is the assignment of the list. The
  code has no check that the array \<^verbatim>\<open>ces[MPP_MAX_FILTERS]\<close> has room.\<close>

definition AddListEqsCES :: "LISTEqS \<Rightarrow> u32 list \<Rightarrow> (LISTEqS \<times> int) option" where
  "AddListEqsCES l tbmp =
     (if nCES l = 0 then do {
        ces' \<leftarrow> arr_set (ces l) 0 \<lparr>eqID = 0, cbm = tbmp\<rparr>;
        Some (l\<lparr>ces := ces', nCES := 1\<rparr>, 0)
      } else do {
        ces' \<leftarrow> arr_set (ces l) (unat (nCES l)) \<lparr>eqID = nCES l, cbm = tbmp\<rparr>;
        Some (l\<lparr>ces := ces', nCES := nCES l + 1\<rparr>, uint (nCES l + 1) - 1)
      })"

text \<open>The lines \<^verbatim>\<open>tempeqID = SearchBmp(...); if (-1 == tempeqID) tempeqID = AddListEqsCES(...);\<close> and
  the conversion to the \<^verbatim>\<open>unsigned short\<close> cell, which the three builders repeat.\<close>

definition find_or_add :: "LISTEqS \<Rightarrow> u32 list \<Rightarrow> (LISTEqS \<times> u16) option" where
  "find_or_add l bmp =
     (let tempeqID = SearchBmp l bmp in
      if -1 = tempeqID then do {
        (l', e) \<leftarrow> AddListEqsCES l bmp;
        Some (l', word_of_int e)
      } else Some (l, word_of_int tempeqID))"

definition GetRuleCost :: "u32 list \<Rightarrow> nat" where
  "GetRuleCost tbmp =
     (case first_index (\<lambda>(k, pos). tbmp ! k AND push_bit pos 1 \<noteq> 0)
             (List.product (rev [0..<SIZE]) [0..<LENGTH_BITS]) of
        Some (k, pos) \<Rightarrow> LENGTH_BITS * (SIZE - 1 - k) + pos
      | None \<Rightarrow> MPP_MAX_FILTERS - 1)"

section \<open>Phase 0\<close>

definition set_filt_sync :: "FILTSET \<Rightarrow> FILTSET option" where
  "set_filt_sync fs = do {
     arr \<leftarrow> for_each [0..<unat (numFilters fs)] (\<lambda>i arr. do {
       f \<leftarrow> arr_get arr i;
       arr_set arr i (f\<lparr>fl_sync := (if ACL_ENABLE \<noteq> fl_state f then ACL_NOSYNC else ACL_SYNC)\<rparr>)
     }) (filtArr fs);
     Some (fs\<lparr>filtArr := arr\<rparr>)
   }"

text \<open>The loop over the filters at one value \<open>n\<close> of field \<open>com\<close>.\<close>

definition phase0_scan :: "FILTSET \<Rightarrow> nat \<Rightarrow> nat \<Rightarrow> u32 list \<Rightarrow> u32 list option" where
  "phase0_scan fs com n = for_each [0..<unat (numFilters fs)] (\<lambda>i bmp. do {
     f \<leftarrow> arr_get (filtArr fs) i;
     if ACL_ENABLE \<noteq> fl_state f then Some bmp
     else do {
       (tempstart, tempend) \<leftarrow> arr_get (fl_dim f) com;
       bmp1 \<leftarrow> (if tempstart = of_nat n then SetBmpBit bmp (of_nat i) True else Some bmp);
       (if tempend + 1 = of_nat n then SetBmpBit bmp1 (of_nat i) False else Some bmp1)
     }
   })"

text \<open>The body of the loop over the values \<open>n\<close>: update the bitmap, find or add its class, fill the cell.\<close>

definition phase0_step ::
  "FILTSET \<Rightarrow> nat \<Rightarrow> nat \<Rightarrow> u32 list \<times> LISTEqS \<times> u16 list \<Rightarrow> (u32 list \<times> LISTEqS \<times> u16 list) option" where
  "phase0_step fs com n = (\<lambda>(bmp, l, cells). do {
     bmp' \<leftarrow> phase0_scan fs com n bmp;
     (l', e) \<leftarrow> find_or_add l bmp';
     cells' \<leftarrow> arr_set cells n e;
     Some (bmp', l', cells')
   })"

text \<open>The body of the loop over \<open>com\<close>: all 65536 values of one field.\<close>

definition phase0_node :: "FILTSET \<Rightarrow> nat \<Rightarrow> Pnode \<Rightarrow> Pnode option" where
  "phase0_node fs com p = do {
     (bmp, l, cells) \<leftarrow> for_each [0..<PORT_SPACE] (phase0_step fs com)
       (replicate SIZE 0, InitListEqs (listEqs p), cell p);
     Some (p\<lparr>cell := cells, listEqs := l\<rparr>)
   }"

definition SetPhase0_Cell :: "Pnode list \<Rightarrow> FILTSET \<Rightarrow> (int \<times> Pnode list \<times> FILTSET) option" where
  "SetPhase0_Cell nodes fs = do {
     nodes' \<leftarrow> for_each [0..<7] (\<lambda>com nodes. do {
       p \<leftarrow> arr_get nodes com;
       p' \<leftarrow> phase0_node fs com p;
       arr_set nodes com p'
     }) nodes;
     fs' \<leftarrow> set_filt_sync fs;
     Some (ACL_OK, nodes', fs')
   }"

section \<open>Phases 1, 2 and 3\<close>

definition and_bmp :: "u32 list \<Rightarrow> u32 list \<Rightarrow> u32 list" where
  "and_bmp a b = map (\<lambda>m. a ! m AND b ! m) [0..<SIZE]"

text \<open>The body of the double loop over the classes of two nodes. \<open>indx\<close> counts the cells written.\<close>

definition combine_step ::
  "LISTEqS \<Rightarrow> LISTEqS \<Rightarrow> nat \<Rightarrow> nat \<Rightarrow> LISTEqS \<times> u16 list \<times> nat \<Rightarrow> (LISTEqS \<times> u16 list \<times> nat) option" where
  "combine_step l1 l2 i j = (\<lambda>(l, cells, indx). do {
     tCES1 \<leftarrow> arr_get (ces l1) i;
     tCES2 \<leftarrow> arr_get (ces l2) j;
     (l', e) \<leftarrow> find_or_add l (and_bmp (cbm tCES1) (cbm tCES2));
     cells' \<leftarrow> arr_set cells indx e;
     Some (l', cells', indx + 1)
   })"

text \<open>One chunk of phase 1 or 2: reset the class list, check the number of cells, fill them. The
  boolean says that the function returns \<^verbatim>\<open>ACL_ERROR\<close>.\<close>

definition combine_node :: "LISTEqS \<Rightarrow> LISTEqS \<Rightarrow> Pnoder \<Rightarrow> (bool \<times> Pnoder) option" where
  "combine_node l1 l2 p =
     (let p0 = p\<lparr>rlistEqs := InitListEqs (rlistEqs p)\<rparr>;
          cellNum = unat (nCES l1) * unat (nCES l2)
      in if cellNum > ACL_MAX_CELL then Some (True, p0)
         else do {
           (l, cells, indx) \<leftarrow> 
             for_each [0..<unat (nCES l1)] (\<lambda>i. for_each [0..<unat (nCES l2)] (combine_step l1 l2 i))
               (rlistEqs p0, rcell p0, 0);
           Some (False, p0\<lparr>ncells := cellNum, rcell := cells, rlistEqs := l\<rparr>)
         })"

definition SetPhase1_Cell :: "Pnode list \<Rightarrow> Pnoder list \<Rightarrow> (int \<times> Pnoder list) option" where
  "SetPhase1_Cell phase0 phase1 = do {
     (err, phase1') \<leftarrow> for_ret [0..<3] (\<lambda>com nodes. do {
       tnode1 \<leftarrow> arr_get phase0 (2 * com);
       tnode2 \<leftarrow> arr_get phase0 (2 * com + 1);
       p \<leftarrow> arr_get nodes com;
       (err, p') \<leftarrow> combine_node (listEqs tnode1) (listEqs tnode2) p;
       nodes' \<leftarrow> arr_set nodes com p';
       Some (err, nodes')
     }) phase1;
     Some (if err then ACL_ERROR else ACL_OK, phase1')
   }"

definition SetPhase2_Cell ::
  "Pnode list \<Rightarrow> Pnoder list \<Rightarrow> Pnoder list \<Rightarrow> (int \<times> Pnoder list) option" where
  "SetPhase2_Cell phase0 phase1 phase2 = do {
     (err, phase2') \<leftarrow> for_ret [0..<2] (\<lambda>com nodes. do {
       l1 \<leftarrow> map_option rlistEqs (arr_get phase1 (if com = 0 then 0 else 2));
       l2 \<leftarrow> (if com = 0 then map_option rlistEqs (arr_get phase1 1)
              else map_option listEqs (arr_get phase0 6));
       p \<leftarrow> arr_get nodes com;
       (err, p') \<leftarrow> combine_node l1 l2 p;
       nodes' \<leftarrow> arr_set nodes com p';
       Some (err, nodes')
     }) phase2;
     Some (if err then ACL_ERROR else ACL_OK, phase2')
   }"

text \<open>\<open>tagid\<close> is \<^verbatim>\<open>acl_get_tagid_by_ruleid\<close> of the filter set being compiled.\<close>

definition phase3_step ::
  "(nat \<Rightarrow> u16 option) \<Rightarrow> LISTEqS \<Rightarrow> LISTEqS \<Rightarrow> nat \<Rightarrow> nat \<Rightarrow> u16 list \<times> nat \<Rightarrow> (u16 list \<times> nat) option" where
  "phase3_step tagid l1 l2 i j = (\<lambda>(cells, indx). do {
     tCES1 \<leftarrow> arr_get (ces l1) i;
     tCES2 \<leftarrow> arr_get (ces l2) j;
     cost \<leftarrow> tagid (GetRuleCost (and_bmp (cbm tCES1) (cbm tCES2)));
     cells' \<leftarrow> arr_set cells indx cost;
     Some (cells', indx + 1)
   })"

definition SetPhase3_Cell ::
  "(nat \<Rightarrow> u16 option) \<Rightarrow> Pnoder list \<Rightarrow> Pnoder \<Rightarrow> (int \<times> Pnoder) option" where
  "SetPhase3_Cell tagid phase2 p = do {
     tnode1 \<leftarrow> arr_get phase2 0;
     tnode2 \<leftarrow> arr_get phase2 1;
     let l1 = rlistEqs tnode1; l2 = rlistEqs tnode2;
         p0 = p\<lparr>rlistEqs := InitListEqs (rlistEqs p)\<rparr>;
         cellNum = unat (nCES l1) * unat (nCES l2)
     in if cellNum > ACL_MAX_CELL then Some (ACL_ERROR, p0)
        else do {
          (cells, indx) \<leftarrow>
            for_each [0..<unat (nCES l1)] (\<lambda>i. for_each [0..<unat (nCES l2)] (phase3_step tagid l1 l2 i))
              (rcell p0, 0);
          Some (ACL_OK, p0\<lparr>ncells := cellNum, rcell := cells\<rparr>)
        }
   }"

section \<open>Bits of a bitmap\<close>

text \<open>Filter \<open>i\<close> is bit \<open>i mod 32\<close> of word \<open>63 - i div 32\<close>.\<close>

definition bmp_bit :: "u32 list \<Rightarrow> nat \<Rightarrow> bool" where
  "bmp_bit b i = bit (b ! (SIZE - 1 - i div LENGTH_BITS)) (i mod LENGTH_BITS)"

lemma bmp_index_less: "i < MPP_MAX_FILTERS \<Longrightarrow> SIZE - 1 - i div LENGTH_BITS < SIZE"
  by (simp add: c_consts)

lemma bmp_index_unat:
  assumes "i < MPP_MAX_FILTERS"
  shows "unat (of_nat (SIZE - 1) - of_nat i div of_nat LENGTH_BITS :: u32) = SIZE - 1 - i div LENGTH_BITS"
    and "unat (of_nat i mod of_nat LENGTH_BITS :: u32) = i mod LENGTH_BITS"
proof -
  have i: "unat (of_nat i :: u32) = i"
    using assms by (simp add: unat_of_nat c_consts)
  have d: "unat (of_nat i div of_nat LENGTH_BITS :: u32) = i div LENGTH_BITS"
    by (simp add: unat_div i) (simp add: c_consts)
  show "unat (of_nat i mod of_nat LENGTH_BITS :: u32) = i mod LENGTH_BITS"
    by (simp add: unat_mod i) (simp add: c_consts)
  have s: "unat (of_nat (SIZE - 1) :: u32) = SIZE - 1"
    by (simp add: c_consts)
  have "i div LENGTH_BITS \<le> SIZE - 1"
    using assms by (simp add: c_consts)
  then have "(of_nat i div of_nat LENGTH_BITS :: u32) \<le> of_nat (SIZE - 1)"
    by (simp add: word_le_nat_alt d s del: One_nat_def)
  then show "unat (of_nat (SIZE - 1) - of_nat i div of_nat LENGTH_BITS :: u32) = SIZE - 1 - i div LENGTH_BITS"
    by (simp add: unat_sub d s del: One_nat_def)
qed

lemma bmp_index_inj:
  assumes "i < MPP_MAX_FILTERS" "j < MPP_MAX_FILTERS"
    and "SIZE - 1 - i div LENGTH_BITS = SIZE - 1 - j div LENGTH_BITS"
    and "i mod LENGTH_BITS = j mod LENGTH_BITS"
  shows "i = j"
proof -
  have "i div LENGTH_BITS = j div LENGTH_BITS"
    using assms(1-3) by (simp add: c_consts)
  then show ?thesis using assms(4) by (metis div_mult_mod_eq)
qed

lemma SetBmpBit_spec:
  assumes len: "length b = SIZE" and i: "i < MPP_MAX_FILTERS"
  shows "\<exists>b'. SetBmpBit b (of_nat i) v = Some b' \<and> length b' = SIZE \<and>
           (\<forall>j < MPP_MAX_FILTERS. bmp_bit b' j = (if j = i then v else bmp_bit b j))"
proof -
  let ?k = "SIZE - 1 - i div LENGTH_BITS"
  let ?p = "i mod LENGTH_BITS"
  let ?w = "if v then b ! ?k OR push_bit ?p 1 else b ! ?k AND NOT (push_bit ?p 1)"
  have k: "?k < length b" using bmp_index_less [OF i] len by simp
  have eq: "SetBmpBit b (of_nat i) v = Some (b[?k := ?w])"
    unfolding SetBmpBit_def Let_def bmp_index_unat [OF i] using k by simp
  have p: "j mod LENGTH_BITS < 32" for j by (simp add: c_consts)
  have "bmp_bit (b[?k := ?w]) j = (if j = i then v else bmp_bit b j)" if j: "j < MPP_MAX_FILTERS" for j
  proof (cases "SIZE - 1 - j div LENGTH_BITS = ?k")
    case True
    have "j = i \<longleftrightarrow> j mod LENGTH_BITS = ?p"
      using bmp_index_inj [OF j i True] by auto
    then show ?thesis
      using k p [of j] True
      by (auto simp: bmp_bit_def bit_simps nth_list_update)
  next
    case False
    then show ?thesis by (auto simp: bmp_bit_def)
  qed
  with eq show ?thesis by (simp add: len)
qed

lemma bmp_eqI:
  assumes "length a = SIZE" "length b = SIZE"
    and "\<And>j. j < MPP_MAX_FILTERS \<Longrightarrow> bmp_bit a j = bmp_bit b j"
  shows "a = b"
proof (rule nth_equalityI)
  show "length a = length b" using assms by simp
  fix k assume k: "k < length a"
  show "a ! k = b ! k"
  proof (rule bit_word_eqI)
    fix n assume n: "n < LENGTH(32)"
    let ?j = "LENGTH_BITS * (SIZE - 1 - k) + n"
    have j: "?j < MPP_MAX_FILTERS"
      using n k assms(1) by (simp add: c_consts)
    have "?j div LENGTH_BITS = SIZE - 1 - k" and m: "?j mod LENGTH_BITS = n"
      using n by (simp_all add: c_consts)
    then have "SIZE - 1 - ?j div LENGTH_BITS = k"
      using k assms(1) by simp
    with m assms(3) [OF j] show "bit (a ! k) n = bit (b ! k) n"
      by (simp add: bmp_bit_def)
  qed
qed

lemma CompareBmp_iff: "length a = SIZE \<Longrightarrow> length b = SIZE \<Longrightarrow> CompareBmp a b \<longleftrightarrow> a = b"
  by (auto simp: CompareBmp_def list_all_iff intro: nth_equalityI)

lemma length_and_bmp [simp]: "length (and_bmp a b) = SIZE"
  by (simp add: and_bmp_def)

lemma bmp_bit_and_bmp [simp]:
  "j < MPP_MAX_FILTERS \<Longrightarrow> bmp_bit (and_bmp a b) j \<longleftrightarrow> bmp_bit a j \<and> bmp_bit b j"
  using bmp_index_less [of j] by (simp add: bmp_bit_def and_bmp_def bit_and_iff)

lemma bmp_bit_zero [simp]: "j < MPP_MAX_FILTERS \<Longrightarrow> \<not> bmp_bit (replicate SIZE 0) j"
  using bmp_index_less [of j] by (simp add: bmp_bit_def)

subsection \<open>The first filter of a bitmap\<close>

lemma concat_blocks:
  "concat (map (\<lambda>m. map (\<lambda>p. g (n * m + p)) [0..<n]) [0..<M]) = map g [0..<n * M]"
proof (induction M)
  case 0
  then show ?case by simp
next
  case (Suc M)
  have "map (\<lambda>p. g (n * M + p)) [0..<n] = map g [n * M..<n * Suc M]"
    by (rule nth_equalityI) (simp_all add: algebra_simps)
  moreover have "[0..<n * Suc M] = [0..<n * M] @ [n * M..<n * Suc M]"
    by (metis le_add2 mult_Suc_right upt_add_eq_append zero_le add_0 add.commute)
  ultimately show ?case using Suc by simp
qed

lemma rule_positions:
  "List.product (rev [0..<SIZE]) [0..<LENGTH_BITS] =
     map (\<lambda>i. (SIZE - 1 - i div LENGTH_BITS, i mod LENGTH_BITS)) [0..<MPP_MAX_FILTERS]"
proof -
  let ?g = "\<lambda>i. (SIZE - 1 - i div LENGTH_BITS, i mod LENGTH_BITS)"
  have rev: "rev [0..<SIZE] = map (\<lambda>m. SIZE - 1 - m) [0..<SIZE]"
    by (rule nth_equalityI) (simp_all add: rev_nth)
  have "List.product (rev [0..<SIZE]) [0..<LENGTH_BITS] =
      concat (map (\<lambda>m. map (\<lambda>p. (SIZE - 1 - m, p)) [0..<LENGTH_BITS]) [0..<SIZE])"
    by (simp add: rev product_concat_map comp_def)
  also have "\<dots> = concat (map (\<lambda>m. map (\<lambda>p. ?g (LENGTH_BITS * m + p)) [0..<LENGTH_BITS]) [0..<SIZE])"
    by (intro arg_cong [where f = concat] map_cong refl) (auto simp: c_consts)
  also have "\<dots> = map ?g [0..<LENGTH_BITS * SIZE]" by (rule concat_blocks)
  also have "LENGTH_BITS * SIZE = MPP_MAX_FILTERS" by (simp add: c_consts)
  finally show ?thesis .
qed

lemma first_index_map: "first_index p (map g xs) = map_option g (first_index (p \<circ> g) xs)"
  by (induction xs) auto

lemma GetRuleCost_first:
  "GetRuleCost b = (case first_index (bmp_bit b) [0..<MPP_MAX_FILTERS] of
                      None \<Rightarrow> MPP_MAX_FILTERS - 1 | Some i \<Rightarrow> i)"
proof -
  let ?g = "\<lambda>i. (SIZE - 1 - i div LENGTH_BITS, i mod LENGTH_BITS)"
  have test: "((\<lambda>(k, pos). b ! k AND push_bit pos 1 \<noteq> 0) \<circ> ?g) = bmp_bit b"
    by (auto simp: fun_eq_iff bmp_bit_def bit_iff_and_push_bit_not_eq_0)
  have idx: "LENGTH_BITS * (SIZE - 1 - (SIZE - 1 - i div LENGTH_BITS)) + i mod LENGTH_BITS = i"
    if "i < MPP_MAX_FILTERS" for i
    using that by (simp add: c_consts)
  show ?thesis
    unfolding GetRuleCost_def rule_positions first_index_map test
    by (auto split: option.split dest!: first_index_Some simp: idx [simplified] simp del: diff_diff_cancel)
qed

section \<open>The class list as a store of named classes\<close>

text \<open>\<open>names cs e b\<close>: the 16-bit class number \<open>e\<close> stands for \<open>b\<close> in the list of classes \<open>cs\<close>.\<close>

definition names :: "'b list \<Rightarrow> u16 \<Rightarrow> 'b \<Rightarrow> bool" where
  "names cs e b \<longleftrightarrow> unat e < length cs \<and> cs ! unat e = b"

text \<open>
  What the table builders rely on: interning an element returns a number that names it, never
  renames an element, keeps the elements distinct, and does not run out of room while the elements
  come from a universe no larger than the capacity.
\<close>

locale class_store =
  fixes classes :: "'l \<Rightarrow> 'b list"
    and intern :: "'l \<Rightarrow> 'b \<Rightarrow> ('l \<times> u16) option"
    and invar :: "'l \<Rightarrow> bool"
    and elem_ok :: "'b \<Rightarrow> bool"
    and cap :: nat
  assumes intern_invar: "invar l \<Longrightarrow> elem_ok b \<Longrightarrow> intern l b = Some (l', e) \<Longrightarrow> invar l'"
    and intern_names: "invar l \<Longrightarrow> elem_ok b \<Longrightarrow> intern l b = Some (l', e) \<Longrightarrow> names (classes l') e b"
    and intern_ext: "invar l \<Longrightarrow> elem_ok b \<Longrightarrow> intern l b = Some (l', e) \<Longrightarrow>
      classes l' = classes l \<or> b \<notin> set (classes l) \<and> classes l' = classes l @ [b]"
    and invar_distinct: "invar l \<Longrightarrow> distinct (classes l)"
    and intern_room: "invar l \<Longrightarrow> elem_ok b \<Longrightarrow>
      b \<in> set (classes l) \<or> length (classes l) < cap \<Longrightarrow> \<exists>l' e. intern l b = Some (l', e)"
begin

lemma names_intern:
  assumes "invar l" "elem_ok b" "intern l b = Some (l', e)" "names (classes l) e' b'"
  shows "names (classes l') e' b'"
  using intern_ext [OF assms(1-3)] assms(4) by (auto simp: names_def nth_append)

lemma names_unique: "invar l \<Longrightarrow> names (classes l) e b \<Longrightarrow> names (classes l) e' b \<Longrightarrow> e = e'"
  using nth_eq_iff_index_eq [OF invar_distinct, of l "unat e" "unat e'"]
  by (simp add: names_def word_unat_eq_iff)

lemma intern_set:
  assumes "invar l" "elem_ok b" "intern l b = Some (l', e)"
  shows "set (classes l') \<subseteq> insert b (set (classes l))"
  using intern_ext [OF assms] by auto

lemma intern_in_universe:
  assumes "invar l" "elem_ok b" "finite U" "card U \<le> cap" "set (classes l) \<subseteq> U" "b \<in> U"
  shows "\<exists>l' e. intern l b = Some (l', e) \<and> set (classes l') \<subseteq> U"
proof -
  have "length (classes l) < cap" if "b \<notin> set (classes l)"
  proof -
    have "length (classes l) = card (set (classes l))"
      using invar_distinct [OF assms(1)] by (simp add: distinct_card)
    also have "\<dots> < card U"
      using assms that by (intro psubset_card_mono) auto
    finally show ?thesis using assms(4) by simp
  qed
  then obtain l' e where "intern l b = Some (l', e)"
    using intern_room [OF assms(1,2)] by blast
  with intern_set [OF assms(1,2) this] assms(5,6) show ?thesis by blast
qed

end

definition classes :: "LISTEqS \<Rightarrow> u32 list list" where
  "classes l = map cbm (take (unat (nCES l)) (ces l))"

definition bmp_ok :: "u32 list \<Rightarrow> bool" where
  "bmp_ok b \<longleftrightarrow> length b = SIZE"

definition list_wf :: "LISTEqS \<Rightarrow> bool" where
  "list_wf l \<longleftrightarrow> length (ces l) = MPP_MAX_FILTERS \<and> unat (nCES l) \<le> MPP_MAX_FILTERS \<and>
     distinct (classes l) \<and> (\<forall>b \<in> set (classes l). bmp_ok b)"

lemma length_classes: "list_wf l \<Longrightarrow> length (classes l) = unat (nCES l)"
  by (simp add: list_wf_def classes_def)

lemma classes_nth: "list_wf l \<Longrightarrow> i < unat (nCES l) \<Longrightarrow> classes l ! i = cbm (ces l ! i)"
  by (simp add: list_wf_def classes_def)

lemma list_wf_Init: "length (ces l) = MPP_MAX_FILTERS \<Longrightarrow> list_wf (InitListEqs l)"
  by (simp add: list_wf_def InitListEqs_def classes_def)

lemma classes_Init [simp]: "classes (InitListEqs l) = []"
  by (simp add: InitListEqs_def classes_def)

lemma SearchBmp_cases:
  assumes wf: "list_wf l" and b: "bmp_ok b"
  obtains (found) i where "SearchBmp l b = int i" "i < unat (nCES l)" "classes l ! i = b"
  | (absent) "SearchBmp l b = -1" "b \<notin> set (classes l)"
proof (cases "first_index (\<lambda>i. CompareBmp (cbm (ces l ! i)) b) [0..<unat (nCES l)]")
  case None
  have "b \<notin> set (classes l)"
  proof
    assume "b \<in> set (classes l)"
    then obtain i where i: "i < unat (nCES l)" "classes l ! i = b"
      using length_classes [OF wf] by (auto simp: in_set_conv_nth)
    then have "CompareBmp (cbm (ces l ! i)) b"
      using classes_nth [OF wf i(1)] b by (simp add: CompareBmp_iff bmp_ok_def)
    moreover have "\<not> CompareBmp (cbm (ces l ! i)) b"
      using None i(1) by (simp add: first_index_None)
    ultimately show False by simp
  qed
  with None show ?thesis by (intro absent) (simp_all add: SearchBmp_def)
next
  case (Some i)
  then have i: "i < unat (nCES l)" and cmp: "CompareBmp (cbm (ces l ! i)) b"
    by (auto dest: first_index_Some)
  have "bmp_ok (classes l ! i)"
    using wf i length_classes [OF wf] by (simp add: list_wf_def)
  with cmp b have "classes l ! i = b"
    using classes_nth [OF wf i] by (simp add: CompareBmp_iff bmp_ok_def)
  with Some i show ?thesis by (intro found) (simp_all add: SearchBmp_def)
qed

lemma AddListEqsCES_spec:
  assumes wf: "list_wf l" and room: "unat (nCES l) < MPP_MAX_FILTERS"
  obtains l' where "AddListEqsCES l b = Some (l', int (unat (nCES l)))"
    and "length (ces l') = MPP_MAX_FILTERS" and "unat (nCES l') = Suc (unat (nCES l))"
    and "classes l' = classes l @ [b]"
proof -
  let ?n = "unat (nCES l)"
  let ?l' = "l\<lparr>ces := (ces l)[?n := \<lparr>eqID = nCES l, cbm = b\<rparr>], nCES := nCES l + 1\<rparr>"
  have len: "length (ces l) = MPP_MAX_FILTERS" using wf by (simp add: list_wf_def)
  have suc: "unat (nCES l + 1) = Suc ?n"
    using room by (simp add: unat_word_ariths c_consts)
  then have ret: "uint (nCES l + 1) - 1 = int ?n"
    by (metis of_nat_Suc uint_nat add_diff_cancel_left')
  have "AddListEqsCES l b = Some (?l', int ?n)"
    using len room ret by (auto simp: AddListEqsCES_def Let_def)
  moreover have "classes ?l' = classes l @ [b]"
    using len room suc by (simp add: classes_def take_Suc_conv_app_nth)
  ultimately show ?thesis using that len suc by simp
qed

lemma AddListEqsCES_full:
  "list_wf l \<Longrightarrow> unat (nCES l) = MPP_MAX_FILTERS \<Longrightarrow> AddListEqsCES l b = None"
  by (auto simp: AddListEqsCES_def arr_set_def list_wf_def c_consts split: if_splits)

lemma find_or_add_found:
  assumes "list_wf l" "bmp_ok b" "b \<in> set (classes l)"
  obtains e where "find_or_add l b = Some (l, e)" "names (classes l) e b"
  using assms(1,2)
proof (cases rule: SearchBmp_cases)
  case (found i)
  have "unat (word_of_int (int i) :: u16) = i"
    using found(2) unat_u16 [of "nCES l"] by (simp add: unat_of_nat)
  with found show ?thesis
    by (intro that [of "word_of_int (int i)"])
       (simp_all add: find_or_add_def names_def length_classes [OF assms(1)])
qed (use assms in blast)

lemma find_or_add_new:
  assumes wf: "list_wf l" and b: "bmp_ok b" "b \<notin> set (classes l)"
    and room: "unat (nCES l) < MPP_MAX_FILTERS"
  obtains l' e where "find_or_add l b = Some (l', e)" "names (classes l') e b"
    "classes l' = classes l @ [b]" "list_wf l'"
proof -
  have s: "SearchBmp l b = -1"
    using wf b(1)
  proof (cases rule: SearchBmp_cases)
    case (found i)
    then show ?thesis using b(2) length_classes [OF wf] by (metis nth_mem)
  qed simp
  obtain l' where l': "AddListEqsCES l b = Some (l', int (unat (nCES l)))"
    "length (ces l') = MPP_MAX_FILTERS" "unat (nCES l') = Suc (unat (nCES l))"
    "classes l' = classes l @ [b]"
    using AddListEqsCES_spec [OF wf room] by blast
  have "unat (word_of_int (int (unat (nCES l))) :: u16) = unat (nCES l)" by simp
  then have "names (classes l') (word_of_int (int (unat (nCES l)))) b"
    using l'(4) by (simp add: names_def nth_append flip: length_classes [OF wf])
  moreover have "list_wf l'"
    using l' room wf b by (auto simp: list_wf_def)
  ultimately show ?thesis
    using that l' s by (simp add: find_or_add_def)
qed

lemma find_or_add_full:
  assumes wf: "list_wf l" and b: "bmp_ok b" "b \<notin> set (classes l)"
    and full: "unat (nCES l) = MPP_MAX_FILTERS"
  shows "find_or_add l b = None"
  using wf b(1)
proof (cases rule: SearchBmp_cases)
  case (found i)
  then show ?thesis using b(2) length_classes [OF wf] by (metis nth_mem)
next
  case absent
  then show ?thesis by (simp add: find_or_add_def AddListEqsCES_full [OF wf full])
qed

lemma find_or_add_cases:
  assumes wf: "list_wf l" and b: "bmp_ok b" and f: "find_or_add l b = Some (l', e)"
  shows "list_wf l' \<and> names (classes l') e b \<and>
    (classes l' = classes l \<or> b \<notin> set (classes l) \<and> classes l' = classes l @ [b])"
proof (cases "b \<in> set (classes l)")
  case True
  show ?thesis
    by (rule find_or_add_found [OF wf b True]) (use f wf in simp)
next
  case False
  have "unat (nCES l) \<noteq> MPP_MAX_FILTERS"
    using find_or_add_full [OF wf b False] f by auto
  then have "unat (nCES l) < MPP_MAX_FILTERS" using wf by (simp add: list_wf_def)
  then show ?thesis
    by (rule find_or_add_new [OF wf b False]) (use f False in simp)
qed

interpretation store: class_store classes find_or_add list_wf bmp_ok MPP_MAX_FILTERS
proof unfold_locales
  fix l b
  assume wf: "list_wf l" and b: "bmp_ok b"
    and c: "b \<in> set (classes l) \<or> length (classes l) < MPP_MAX_FILTERS"
  show "\<exists>l' e. find_or_add l b = Some (l', e)"
  proof (cases "b \<in> set (classes l)")
    case True
    then show ?thesis using find_or_add_found [OF wf b] by blast
  next
    case False
    with c have "unat (nCES l) < MPP_MAX_FILTERS" using length_classes [OF wf] by simp
    then show ?thesis using find_or_add_new [OF wf b False] by blast
  qed
next
  fix l assume "list_wf l"
  then show "distinct (classes l)" by (simp add: list_wf_def)
qed (use find_or_add_cases in blast)+

section \<open>What a filter accepts\<close>

definition covers :: "FILTSET \<Rightarrow> nat \<Rightarrow> nat \<Rightarrow> nat \<Rightarrow> bool" where
  "covers fs com v i \<longleftrightarrow> i < unat (numFilters fs) \<and> fl_state (filtArr fs ! i) = ACL_ENABLE \<and>
     unat (fst (fl_dim (filtArr fs ! i) ! com)) \<le> v \<and> v \<le> unat (snd (fl_dim (filtArr fs ! i) ! com))"

definition dims_ok :: "FILTER \<Rightarrow> bool" where
  "dims_ok f \<longleftrightarrow> length (fl_dim f) = 7 \<and>
     list_all (\<lambda>(s, e). s \<le> e \<and> unat e < PORT_SPACE) (fl_dim f)"

definition filters_ok :: "FILTSET \<Rightarrow> bool" where
  "filters_ok fs \<longleftrightarrow> length (filtArr fs) = MPP_MAX_FILTERS \<and> unat (numFilters fs) \<le> MPP_MAX_FILTERS \<and>
     list_all dims_ok (filtArr fs)"

text \<open>A bitmap represents a set of filter numbers, given as a predicate.\<close>

definition reps :: "u32 list \<Rightarrow> (nat \<Rightarrow> bool) \<Rightarrow> bool" where
  "reps b S \<longleftrightarrow> length b = SIZE \<and> (\<forall>j < MPP_MAX_FILTERS. bmp_bit b j = S j)"

lemma reps_ok: "reps b S \<Longrightarrow> bmp_ok b"
  by (simp add: reps_def bmp_ok_def)

lemma reps_unique: "reps a S \<Longrightarrow> reps b S \<Longrightarrow> a = b"
  by (auto simp: reps_def intro: bmp_eqI)

lemma reps_and: "reps a S \<Longrightarrow> reps b T \<Longrightarrow> reps (and_bmp a b) (\<lambda>i. S i \<and> T i)"
  by (simp add: reps_def)

lemma reps_zero: "reps (replicate SIZE 0) (\<lambda>_. False)"
  by (simp add: reps_def)

lemma reps_SetBmpBit:
  assumes "reps b S" "i < MPP_MAX_FILTERS"
  obtains b' where "SetBmpBit b (of_nat i) v = Some b'" "reps b' (S(i := v))"
  using SetBmpBit_spec [of b i v] assms by (auto simp: reps_def)

section \<open>Phase 0: the classes of a field\<close>

lemma filters_ok_dim:
  assumes "filters_ok fs" "i < unat (numFilters fs)" "com < 7"
  obtains s e where "arr_get (filtArr fs) i = Some (filtArr fs ! i)"
    "arr_get (fl_dim (filtArr fs ! i)) com = Some (s, e)" "fl_dim (filtArr fs ! i) ! com = (s, e)"
    "unat s \<le> unat e" "unat e < PORT_SPACE" "i < MPP_MAX_FILTERS"
proof -
  have i: "i < length (filtArr fs)" using assms by (simp add: filters_ok_def)
  then have d: "dims_ok (filtArr fs ! i)" using assms(1) by (simp add: filters_ok_def list_all_length)
  obtain s e where se: "fl_dim (filtArr fs ! i) ! com = (s, e)" by fastforce
  have "s \<le> e \<and> unat e < PORT_SPACE"
    using d se assms(3) by (fastforce simp: dims_ok_def list_all_length)
  with d i se assms that show ?thesis
    by (simp add: dims_ok_def filters_ok_def word_le_nat_alt)
qed

text \<open>The filters that accept the value before \<open>n\<close>: none before the first value.\<close>

definition covers_before :: "FILTSET \<Rightarrow> nat \<Rightarrow> nat \<Rightarrow> nat \<Rightarrow> bool" where
  "covers_before fs com n i \<longleftrightarrow> (case n of 0 \<Rightarrow> False | Suc v \<Rightarrow> covers fs com v i)"

lemma covers_step:
  assumes "i < unat (numFilters fs)" "fl_state (filtArr fs ! i) = ACL_ENABLE"
    "fl_dim (filtArr fs ! i) ! com = (s, e)" "unat s \<le> unat e"
  shows "covers fs com n i = (if Suc (unat e) = n then False else if unat s = n then True else covers_before fs com n i)"
  using assms by (auto simp: covers_def covers_before_def split: nat.splits)

lemma phase0_scan_spec:
  assumes ok: "filters_ok fs" and com: "com < 7" and n: "n < PORT_SPACE"
    and b: "reps b (covers_before fs com n)"
  shows "\<exists>b'. phase0_scan fs com n b = Some b' \<and> reps b' (covers fs com n)"
proof -
  let ?I = "\<lambda>k b. reps b (\<lambda>i. if i < k then covers fs com n i else covers_before fs com n i)"
  have "\<exists>b'. phase0_scan fs com n b = Some b' \<and> ?I (unat (numFilters fs)) b'"
    unfolding phase0_scan_def
  proof (rule for_each_upt_total)
    show "?I 0 b" using b by simp
  next
    fix k x assume k: "k < unat (numFilters fs)" and x: "?I k x"
    obtain s e where f: "arr_get (filtArr fs) k = Some (filtArr fs ! k)"
      "arr_get (fl_dim (filtArr fs ! k)) com = Some (s, e)" "fl_dim (filtArr fs ! k) ! com = (s, e)"
      "unat s \<le> unat e" "unat e < PORT_SPACE" and kM: "k < MPP_MAX_FILTERS"
      using filters_ok_dim [OF ok k com] by blast
    have eqs: "s = of_nat n \<longleftrightarrow> unat s = n" "e + 1 = of_nat n \<longleftrightarrow> Suc (unat e) = n"
      using n f(5) by (auto simp: word_unat_eq_iff unat_of_nat unat_word_ariths c_consts)
    let ?v = "if Suc (unat e) = n then False else if unat s = n then True else covers_before fs com n k"
    have upd: "reps y ((\<lambda>i. if i < k then covers fs com n i else covers_before fs com n i)(k := covers fs com n k))
        \<Longrightarrow> ?I (Suc k) y" for y
      by (auto simp: reps_def less_Suc_eq)
    have dis: "fl_state (filtArr fs ! k) \<noteq> ACL_ENABLE \<Longrightarrow> ?I (Suc k) x"
      using x by (auto simp: reps_def less_Suc_eq covers_def covers_before_def split: nat.splits)
    show "\<exists>y. (do {
       f \<leftarrow> arr_get (filtArr fs) k;
       if ACL_ENABLE \<noteq> fl_state f then Some x
       else do {
         (tempstart, tempend) \<leftarrow> arr_get (fl_dim f) com;
         bmp1 \<leftarrow> (if tempstart = of_nat n then SetBmpBit x (of_nat k) True else Some x);
         (if tempend + 1 = of_nat n then SetBmpBit bmp1 (of_nat k) False else Some bmp1)
       }
     }) = Some y \<and> ?I (Suc k) y"
    proof (cases "fl_state (filtArr fs ! k) = ACL_ENABLE")
      case True
      have cv: "covers fs com n k = ?v" by (rule covers_step [OF k True f(3,4)])
      obtain y1 where y1: "SetBmpBit x (of_nat k) True = Some y1"
        "reps y1 ((\<lambda>i. if i < k then covers fs com n i else covers_before fs com n i)(k := True))"
        using reps_SetBmpBit [OF x kM] by blast
      obtain y2 where y2: "SetBmpBit x (of_nat k) False = Some y2"
        "reps y2 ((\<lambda>i. if i < k then covers fs com n i else covers_before fs com n i)(k := False))"
        using reps_SetBmpBit [OF x kM] by blast
      have neither: "?I (Suc k) x" if "unat s \<noteq> n" "Suc (unat e) \<noteq> n"
        by (rule upd) (use x cv that in \<open>simp add: reps_def\<close>)
      show ?thesis
        using True f y1 y2 neither upd [of y1] upd [of y2] cv by (simp add: eqs)
    qed (use dis f in simp)
  qed
  then obtain b' where b': "phase0_scan fs com n b = Some b'" "?I (unat (numFilters fs)) b'" by blast
  have "reps b' (covers fs com n)"
    using b'(2) by (auto simp: reps_def covers_def covers_before_def split: nat.splits)
  with b'(1) show ?thesis by blast
qed

text \<open>The bitmaps over the first \<open>n\<close> filters: at most \<open>2 ^ n\<close> of them.\<close>

definition universe :: "nat \<Rightarrow> u32 list set" where
  "universe n = {b. bmp_ok b \<and> (\<forall>j < MPP_MAX_FILTERS. bmp_bit b j \<longrightarrow> j < n)}"

lemma universe_card: "finite (universe n) \<and> card (universe n) \<le> 2 ^ n"
proof -
  let ?g = "\<lambda>b. {j. j < MPP_MAX_FILTERS \<and> bmp_bit b j}"
  have inj: "inj_on ?g (universe n)"
    by (rule inj_onI) (auto simp: universe_def bmp_ok_def set_eq_iff intro!: bmp_eqI)
  have sub: "?g ` universe n \<subseteq> Pow {..<n}" by (auto simp: universe_def)
  have "finite (universe n)" using inj sub by (meson finite_Pow_iff finite_lessThan inj_on_finite)
  moreover have "card (universe n) \<le> card (Pow {..<n})"
    by (rule card_inj_on_le [OF inj sub]) simp
  ultimately show ?thesis by (simp add: card_Pow)
qed

lemma reps_in_universe: "reps b S \<Longrightarrow> (\<And>i. S i \<Longrightarrow> i < n) \<Longrightarrow> b \<in> universe n"
  by (auto simp: reps_def universe_def bmp_ok_def)

lemma and_bmp_in_universe: "a \<in> universe n \<Longrightarrow> and_bmp a b \<in> universe n"
  by (simp add: universe_def bmp_ok_def)

lemma covers_less: "covers fs com v i \<Longrightarrow> i < unat (numFilters fs)"
  by (simp add: covers_def)

text \<open>A table of which the first \<open>N\<close> cells are filled: cell \<open>k\<close> holds the number of the class
  of the filters \<open>S k\<close>, and all classes are sets of the first \<open>n\<close> filters.\<close>

definition table :: "nat \<Rightarrow> LISTEqS \<Rightarrow> u16 list \<Rightarrow> nat \<Rightarrow> (nat \<Rightarrow> nat \<Rightarrow> bool) \<Rightarrow> bool" where
  "table n l cells N S \<longleftrightarrow> list_wf l \<and> set (classes l) \<subseteq> universe n \<and> N \<le> length cells \<and>
     (\<forall>k < N. \<exists>b. names (classes l) (cells ! k) b \<and> reps b (S k))"

lemma table_empty: "list_wf l \<Longrightarrow> classes l = [] \<Longrightarrow> table n l cells 0 S"
  by (simp add: table_def)

lemma table_step:
  assumes t: "table n l cells N S" and b: "reps b (S N)" "b \<in> universe n" and N: "N < length cells"
    and f: "find_or_add l b = Some (l', e)"
  shows "table n l' (cells[N := e]) (Suc N) S"
proof -
  have wf: "list_wf l" and ok: "bmp_ok b" using t b by (auto simp: table_def reps_ok)
  have "set (classes l') \<subseteq> universe n"
    using store.intern_set [OF wf ok f] t b by (auto simp: table_def)
  moreover have "\<exists>c. names (classes l') (cells[N := e] ! k) c \<and> reps c (S k)" if "k < Suc N" for k
  proof (cases "k = N")
    case True
    then show ?thesis using store.intern_names [OF wf ok f] b N by auto
  next
    case False
    then obtain c where "names (classes l) (cells ! k) c" "reps c (S k)"
      using t \<open>k < Suc N\<close> by (auto simp: table_def less_Suc_eq)
    with False store.names_intern [OF wf ok f] show ?thesis by auto
  qed
  ultimately show ?thesis
    using store.intern_invar [OF wf ok f] N by (simp add: table_def)
qed

lemma table_room:
  assumes "table n l cells N S" "b \<in> universe n" "2 ^ n \<le> MPP_MAX_FILTERS"
  shows "\<exists>l' e. find_or_add l b = Some (l', e)"
  using store.intern_in_universe [of l b "universe n"] assms universe_card [of n]
  by (force simp: table_def universe_def)

subsection \<open>The table of one field\<close>

definition phase0_inv :: "FILTSET \<Rightarrow> nat \<Rightarrow> nat \<Rightarrow> u32 list \<times> LISTEqS \<times> u16 list \<Rightarrow> bool" where
  "phase0_inv fs com n = (\<lambda>(bmp, l, cells). reps bmp (covers_before fs com n) \<and>
     length cells = PORT_SPACE \<and> table (unat (numFilters fs)) l cells n (covers fs com))"

lemma phase0_step_inv:
  assumes ok: "filters_ok fs" and com: "com < 7" and n: "n < PORT_SPACE" and I: "phase0_inv fs com n x"
  shows "phase0_step fs com n x = Some y \<Longrightarrow> phase0_inv fs com (Suc n) y"
    and "2 ^ unat (numFilters fs) \<le> MPP_MAX_FILTERS \<Longrightarrow> \<exists>y. phase0_step fs com n x = Some y"
proof -
  obtain bmp l cells where x: "x = (bmp, l, cells)" by (cases x)
  obtain b where b: "phase0_scan fs com n bmp = Some b" "reps b (covers fs com n)"
    using phase0_scan_spec [OF ok com n, of bmp] I x by (auto simp: phase0_inv_def)
  have u: "b \<in> universe (unat (numFilters fs))"
    by (rule reps_in_universe [OF b(2) covers_less])
  have t: "table (unat (numFilters fs)) l cells n (covers fs com)" and len: "n < length cells"
    "length cells = PORT_SPACE"
    using I x n by (auto simp: phase0_inv_def)
  show "phase0_inv fs com (Suc n) y" if step: "phase0_step fs com n x = Some y"
  proof -
    obtain l' e where f: "find_or_add l b = Some (l', e)" "y = (b, l', cells[n := e])"
      using step b x len by (auto simp: phase0_step_def split: bind_splits)
    then show ?thesis
      using table_step [OF t b(2) u len(1) f(1)] b(2) len
      by (simp add: phase0_inv_def covers_before_def reps_def)
  qed
  show "\<exists>y. phase0_step fs com n x = Some y" if "2 ^ unat (numFilters fs) \<le> MPP_MAX_FILTERS"
    using table_room [OF t u that] b x len by (auto simp: phase0_step_def)
qed

definition node_mem :: "Pnode \<Rightarrow> bool" where
  "node_mem p \<longleftrightarrow> length (cell p) = PORT_SPACE \<and> length (ces (listEqs p)) = MPP_MAX_FILTERS"

definition node_table :: "FILTSET \<Rightarrow> nat \<Rightarrow> Pnode \<Rightarrow> bool" where
  "node_table fs com p \<longleftrightarrow> length (cell p) = PORT_SPACE \<and>
     table (unat (numFilters fs)) (listEqs p) (cell p) PORT_SPACE (covers fs com)"

lemma phase0_node_spec:
  assumes ok: "filters_ok fs" and com: "com < 7" and mem: "node_mem p"
  shows "phase0_node fs com p = Some p' \<Longrightarrow> node_table fs com p'"
    and "2 ^ unat (numFilters fs) \<le> MPP_MAX_FILTERS \<Longrightarrow> \<exists>p'. phase0_node fs com p = Some p'"
proof -
  let ?s = "(replicate SIZE 0, InitListEqs (listEqs p), cell p)"
  have init: "phase0_inv fs com 0 ?s"
    using mem reps_zero
    by (simp add: phase0_inv_def covers_before_def node_mem_def table_empty list_wf_Init reps_def)
  show "node_table fs com p'" if run: "phase0_node fs com p = Some p'"
  proof -
    obtain bmp l cells where f: "for_each [0..<PORT_SPACE] (phase0_step fs com) ?s = Some (bmp, l, cells)"
      and p': "p' = p\<lparr>cell := cells, listEqs := l\<rparr>"
      using run by (auto simp: phase0_node_def split: bind_splits)
    have "phase0_inv fs com PORT_SPACE (bmp, l, cells)"
      by (rule for_each_upt_inv [OF f, where P = "phase0_inv fs com", OF init])
         (rule phase0_step_inv [OF ok com])
    with p' show ?thesis by (simp add: phase0_inv_def node_table_def)
  qed
  show "\<exists>p'. phase0_node fs com p = Some p'" if small: "2 ^ unat (numFilters fs) \<le> MPP_MAX_FILTERS"
  proof -
    have "\<exists>t. for_each [0..<PORT_SPACE] (phase0_step fs com) ?s = Some t \<and> phase0_inv fs com PORT_SPACE t"
      by (rule for_each_upt_total [where P = "phase0_inv fs com", OF init])
         (use phase0_step_inv [OF ok com] small in blast)
    then show ?thesis by (auto simp: phase0_node_def)
  qed
qed

subsection \<open>All seven fields, and the synchronised flags\<close>

definition sync_filter :: "FILTER \<Rightarrow> FILTER" where
  "sync_filter f = f\<lparr>fl_sync := (if ACL_ENABLE \<noteq> fl_state f then ACL_NOSYNC else ACL_SYNC)\<rparr>"

definition synced :: "FILTSET \<Rightarrow> FILTSET" where
  "synced fs = fs\<lparr>filtArr := map sync_filter (take (unat (numFilters fs)) (filtArr fs)) @
                            drop (unat (numFilters fs)) (filtArr fs)\<rparr>"

lemma set_filt_sync_spec:
  assumes "unat (numFilters fs) \<le> length (filtArr fs)"
  shows "set_filt_sync fs = Some (synced fs)"
proof -
  let ?a = "filtArr fs"
  let ?n = "unat (numFilters fs)"
  let ?f = "\<lambda>i arr. do { f \<leftarrow> arr_get arr i; arr_set arr i (sync_filter f) }"
  have "\<exists>t. for_each [0..<?n] ?f ?a = Some t \<and> t = map sync_filter (take ?n ?a) @ drop ?n ?a"
  proof (rule for_each_upt_total)
    show "?a = map sync_filter (take 0 ?a) @ drop 0 ?a" by simp
    fix k x assume k: "k < ?n" and x: "x = map sync_filter (take k ?a) @ drop k ?a"
    have kl: "k < length ?a" using k assms by simp
    then have "x ! k = ?a ! k" "k < length x"
      and "x[k := sync_filter (?a ! k)] = map sync_filter (take (Suc k) ?a) @ drop (Suc k) ?a"
      by (simp_all add: x nth_append list_update_append take_Suc_conv_app_nth
           Cons_nth_drop_Suc [symmetric])
    then show "\<exists>y. ?f k x = Some y \<and> y = map sync_filter (take (Suc k) ?a) @ drop (Suc k) ?a"
      by simp
  qed
  then show ?thesis
    by (auto simp: set_filt_sync_def synced_def sync_filter_def)
qed

lemma length_synced [simp]: "length (filtArr (synced fs)) = length (filtArr fs)"
  by (simp add: synced_def)

lemma synced_nth:
  "i < length (filtArr fs) \<Longrightarrow> filtArr (synced fs) ! i =
     (if i < unat (numFilters fs) then sync_filter (filtArr fs ! i) else filtArr fs ! i)"
  by (auto simp: synced_def nth_append)

lemma numFilters_synced [simp]: "numFilters (synced fs) = numFilters fs"
  by (simp add: synced_def)

lemma synced_fields:
  "i < length (filtArr fs) \<Longrightarrow> fl_cost (filtArr (synced fs) ! i) = fl_cost (filtArr fs ! i)"
  "i < length (filtArr fs) \<Longrightarrow> fl_state (filtArr (synced fs) ! i) = fl_state (filtArr fs ! i)"
  "i < length (filtArr fs) \<Longrightarrow> fl_dim (filtArr (synced fs) ! i) = fl_dim (filtArr fs ! i)"
  by (simp_all add: synced_nth sync_filter_def)

lemma covers_synced:
  assumes "unat (numFilters fs) \<le> length (filtArr fs)"
  shows "covers (synced fs) com v i = covers fs com v i"
  using assms by (auto simp: covers_def synced_fields)

lemma SetPhase0_Cell_spec:
  assumes ok: "filters_ok fs" and mem: "length nodes = 7" "list_all node_mem nodes"
  shows "SetPhase0_Cell nodes fs = Some (r, nodes', fs') \<Longrightarrow>
           r = ACL_OK \<and> fs' = synced fs \<and> length nodes' = 7 \<and> (\<forall>com < 7. node_table fs com (nodes' ! com))"
    and "2 ^ unat (numFilters fs) \<le> MPP_MAX_FILTERS \<Longrightarrow> \<exists>r. SetPhase0_Cell nodes fs = Some r"
proof -
  let ?f = "\<lambda>com nodes. do { p \<leftarrow> arr_get nodes com; p' \<leftarrow> phase0_node fs com p; arr_set nodes com p' }"
  let ?I = "\<lambda>k ns. length ns = 7 \<and> (\<forall>i < 7. if i < k then node_table fs i (ns ! i) else node_mem (ns ! i))"
  have init: "?I 0 nodes" using mem by (simp add: list_all_length)
  have step: "?I (Suc k) y" if k: "k < 7" and I: "?I k x" and y: "?f k x = Some y" for k x y
  proof -
    obtain p' where p': "phase0_node fs k (x ! k) = Some p'" "y = x[k := p']"
      using y k I by (auto split: bind_splits)
    have "node_table fs k p'"
      using phase0_node_spec(1) [OF ok k _ p'(1)] I k by (metis less_irrefl)
    with p' I k show ?thesis by (auto simp: nth_list_update less_Suc_eq)
  qed
  have sync: "set_filt_sync fs = Some (synced fs)"
    using ok by (simp add: filters_ok_def set_filt_sync_spec)
  show "r = ACL_OK \<and> fs' = synced fs \<and> length nodes' = 7 \<and> (\<forall>com < 7. node_table fs com (nodes' ! com))"
    if run: "SetPhase0_Cell nodes fs = Some (r, nodes', fs')"
  proof -
    have f: "for_each [0..<7] ?f nodes = Some nodes'" and r: "r = ACL_OK" "fs' = synced fs"
      using run sync by (auto simp: SetPhase0_Cell_def split: bind_splits)
    have "?I 7 nodes'" by (rule for_each_upt_inv [OF f, where P = ?I, OF init step])
    with r show ?thesis by auto
  qed
  show "\<exists>r. SetPhase0_Cell nodes fs = Some r" if small: "2 ^ unat (numFilters fs) \<le> MPP_MAX_FILTERS"
  proof -
    have "\<exists>t. for_each [0..<7] ?f nodes = Some t \<and> ?I 7 t"
    proof (rule for_each_upt_total [where P = ?I, OF init])
      fix k x assume k: "k < 7" and I: "?I k x"
      then have "node_mem (x ! k)" by auto
      then obtain p' where "phase0_node fs k (x ! k) = Some p'"
        using phase0_node_spec(2) [OF ok k _ small] by blast
      then have "?f k x = Some (x[k := p'])" using k I by simp
      with step [OF k I] show "\<exists>y. ?f k x = Some y \<and> ?I (Suc k) y" by blast
    qed
    then show ?thesis using sync by (auto simp: SetPhase0_Cell_def)
  qed
qed

section \<open>Phases 1 and 2: intersecting classes\<close>

definition noder_mem :: "Pnoder \<Rightarrow> bool" where
  "noder_mem p \<longleftrightarrow> length (rcell p) = ACL_MAX_CELL \<and> length (ces (rlistEqs p)) = MPP_MAX_FILTERS"

text \<open>The filters of the pair of classes that cell \<open>k\<close> stands for.\<close>

definition pair_set :: "LISTEqS \<Rightarrow> LISTEqS \<Rightarrow> nat \<Rightarrow> nat \<Rightarrow> bool" where
  "pair_set l1 l2 k i \<longleftrightarrow> bmp_bit (classes l1 ! (k div unat (nCES l2))) i \<and>
                          bmp_bit (classes l2 ! (k mod unat (nCES l2))) i"

definition classes_in :: "nat \<Rightarrow> LISTEqS \<Rightarrow> bool" where
  "classes_in n l \<longleftrightarrow> list_wf l \<and> set (classes l) \<subseteq> universe n"

lemma classes_in_mem:
  assumes "classes_in n l" "i < unat (nCES l)"
  shows "arr_get (ces l) i = Some (ces l ! i)" "cbm (ces l ! i) = classes l ! i" "classes l ! i \<in> universe n"
proof -
  have wf: "list_wf l" using assms by (simp add: classes_in_def)
  show "arr_get (ces l) i = Some (ces l ! i)" using wf assms(2) by (simp add: list_wf_def)
  show "cbm (ces l ! i) = classes l ! i" using classes_nth [OF wf assms(2)] by simp
  show "classes l ! i \<in> universe n"
    using assms length_classes [OF wf] nth_mem by (fastforce simp: classes_in_def)
qed

lemma classes_in_count: "classes_in n l \<Longrightarrow> unat (nCES l) \<le> 2 ^ n"
proof -
  assume c: "classes_in n l"
  then have "unat (nCES l) = card (set (classes l))"
    by (simp add: classes_in_def list_wf_def distinct_card flip: length_classes)
  also have "\<dots> \<le> card (universe n)"
    using c universe_card by (auto simp: classes_in_def intro: card_mono)
  finally show ?thesis using universe_card [of n] by linarith
qed

lemma reps_pair:
  assumes "classes_in n l1" "classes_in n l2" "i < unat (nCES l1)" "j < unat (nCES l2)"
  shows "reps (and_bmp (classes l1 ! i) (classes l2 ! j)) (pair_set l1 l2 (i * unat (nCES l2) + j))"
    and "and_bmp (classes l1 ! i) (classes l2 ! j) \<in> universe n"
  using assms classes_in_mem(3) [OF assms(1,3)]
  by (auto simp: reps_def pair_set_def intro: and_bmp_in_universe)

definition combine_inv ::
  "nat \<Rightarrow> LISTEqS \<Rightarrow> LISTEqS \<Rightarrow> nat \<Rightarrow> LISTEqS \<times> u16 list \<times> nat \<Rightarrow> bool" where
  "combine_inv n l1 l2 k = (\<lambda>(l, cells, indx). indx = k \<and> length cells = ACL_MAX_CELL \<and>
     table n l cells k (pair_set l1 l2))"

lemma combine_step_inv:
  assumes c: "classes_in n l1" "classes_in n l2"
    and ij: "i < unat (nCES l1)" "j < unat (nCES l2)"
    and max: "unat (nCES l1) * unat (nCES l2) \<le> ACL_MAX_CELL"
    and I: "combine_inv n l1 l2 (i * unat (nCES l2) + j) x"
  shows "combine_step l1 l2 i j x = Some y \<Longrightarrow> combine_inv n l1 l2 (Suc (i * unat (nCES l2) + j)) y"
    and "2 ^ n \<le> MPP_MAX_FILTERS \<Longrightarrow> \<exists>y. combine_step l1 l2 i j x = Some y"
proof -
  let ?k = "i * unat (nCES l2) + j"
  let ?b = "and_bmp (classes l1 ! i) (classes l2 ! j)"
  obtain l cells where x: "x = (l, cells, ?k)" and t: "table n l cells ?k (pair_set l1 l2)"
    and len: "length cells = ACL_MAX_CELL"
    using I by (auto simp: combine_inv_def)
  have k: "?k < length cells" using nth_index_less [OF ij] max len by simp
  have eq: "combine_step l1 l2 i j x = do {
      (l', e) \<leftarrow> find_or_add l ?b; Some (l', cells[?k := e], ?k + 1) }"
    using k by (simp add: combine_step_def x classes_in_mem [OF c(1) ij(1)] classes_in_mem [OF c(2) ij(2)])
  show "combine_inv n l1 l2 (Suc ?k) y" if "combine_step l1 l2 i j x = Some y"
    using that table_step [OF t reps_pair [OF c ij] k] len
    by (auto simp: eq combine_inv_def split: bind_splits)
  show "\<exists>y. combine_step l1 l2 i j x = Some y" if "2 ^ n \<le> MPP_MAX_FILTERS"
    using table_room [OF t reps_pair(2) [OF c ij] that] by (auto simp: eq)
qed

text \<open>A finished node of phase 1 or 2.\<close>

definition pair_table :: "nat \<Rightarrow> LISTEqS \<Rightarrow> LISTEqS \<Rightarrow> Pnoder \<Rightarrow> bool" where
  "pair_table n l1 l2 p \<longleftrightarrow> length (rcell p) = ACL_MAX_CELL \<and>
     ncells p = unat (nCES l1) * unat (nCES l2) \<and> ncells p \<le> ACL_MAX_CELL \<and>
     table n (rlistEqs p) (rcell p) (ncells p) (pair_set l1 l2)"

lemma combine_node_spec:
  assumes c: "classes_in n l1" "classes_in n l2" and mem: "noder_mem p"
  shows "combine_node l1 l2 p = Some (False, p') \<Longrightarrow> pair_table n l1 l2 p'"
    and "2 ^ n \<le> MPP_MAX_FILTERS \<Longrightarrow> \<exists>r. combine_node l1 l2 p = Some r"
    and "2 ^ n * 2 ^ n \<le> ACL_MAX_CELL \<Longrightarrow> combine_node l1 l2 p = Some (err, p') \<Longrightarrow> \<not> err"
proof -
  let ?p0 = "p\<lparr>rlistEqs := InitListEqs (rlistEqs p)\<rparr>"
  let ?loop = "for_each [0..<unat (nCES l1)] (\<lambda>i. for_each [0..<unat (nCES l2)] (combine_step l1 l2 i))
               (rlistEqs ?p0, rcell ?p0, 0)"
  let ?N = "unat (nCES l1) * unat (nCES l2)"
  have init: "combine_inv n l1 l2 0 (rlistEqs ?p0, rcell ?p0, 0)"
    using mem by (simp add: combine_inv_def noder_mem_def table_empty list_wf_Init)
  show "pair_table n l1 l2 p'" if run: "combine_node l1 l2 p = Some (False, p')"
  proof -
    have N: "?N \<le> ACL_MAX_CELL" using run by (auto simp: combine_node_def Let_def split: if_splits)
    obtain l cells indx where f: "?loop = Some (l, cells, indx)"
      and p': "p' = ?p0\<lparr>ncells := ?N, rcell := cells, rlistEqs := l\<rparr>"
      using run by (auto simp: combine_node_def Let_def split: if_splits bind_splits)
    have "combine_inv n l1 l2 ?N (l, cells, indx)"
      by (rule for_each2_inv [OF f, where P = "combine_inv n l1 l2", OF init])
         (rule combine_step_inv(1) [OF c _ _ N])
    with p' N show ?thesis by (simp add: combine_inv_def pair_table_def)
  qed
  show "\<exists>r. combine_node l1 l2 p = Some r" if small: "2 ^ n \<le> MPP_MAX_FILTERS"
  proof (cases "?N > ACL_MAX_CELL")
    case False
    then have N: "?N \<le> ACL_MAX_CELL" by simp
    have "\<exists>t. ?loop = Some t \<and> combine_inv n l1 l2 ?N t"
      by (rule for_each2_total [where P = "combine_inv n l1 l2", OF init])
         (use combine_step_inv [OF c _ _ N] small in blast)
    with False show ?thesis by (auto simp: combine_node_def Let_def)
  qed (auto simp: combine_node_def Let_def intro: exI [of _ True])
  show "\<not> err" if "2 ^ n * 2 ^ n \<le> ACL_MAX_CELL" and run: "combine_node l1 l2 p = Some (err, p')"
  proof -
    have "?N \<le> 2 ^ n * 2 ^ n" by (intro mult_le_mono classes_in_count c)
    with that(1) have "\<not> ?N > ACL_MAX_CELL" by linarith
    with run show ?thesis by (auto simp: combine_node_def Let_def split: bind_splits)
  qed
qed

lemma pair_table_classes: "pair_table n l1 l2 p \<Longrightarrow> classes_in n (rlistEqs p)"
  by (simp add: pair_table_def table_def classes_in_def)

lemma node_table_classes: "node_table fs com p \<Longrightarrow> classes_in (unat (numFilters fs)) (listEqs p)"
  by (simp add: node_table_def table_def classes_in_def)

text \<open>Following a pair of class numbers through a finished node intersects their filters.\<close>

definition named :: "LISTEqS \<Rightarrow> u16 \<Rightarrow> (nat \<Rightarrow> bool) \<Rightarrow> bool" where
  "named l e S \<longleftrightarrow> list_wf l \<and> (\<exists>b. names (classes l) e b \<and> reps b S)"

lemma named_less: "named l e S \<Longrightarrow> unat e < unat (nCES l)"
  using length_classes by (auto simp: named_def names_def)

lemma named_bit: "named l e S \<Longrightarrow> i < MPP_MAX_FILTERS \<Longrightarrow> bmp_bit (classes l ! unat e) i = S i"
  by (auto simp: named_def names_def reps_def)

lemma node_table_named:
  "node_table fs com p \<Longrightarrow> v < PORT_SPACE \<Longrightarrow> named (listEqs p) (cell p ! v) (covers fs com v)"
  by (auto simp: node_table_def table_def named_def)

lemma pair_index: "named l1 e1 S \<Longrightarrow> named l2 e2 T \<Longrightarrow>
    unat e1 * unat (nCES l2) + unat e2 < unat (nCES l1) * unat (nCES l2)"
  using nth_index_less named_less by blast

lemma pair_set_named:
  assumes "named l1 e1 S" "named l2 e2 T" "i < MPP_MAX_FILTERS"
  shows "pair_set l1 l2 (unat e1 * unat (nCES l2) + unat e2) i = (S i \<and> T i)"
  using named_less [OF assms(2)] named_bit [OF assms(1,3)] named_bit [OF assms(2,3)]
  by (simp add: pair_set_def)

lemma pair_table_named:
  assumes p: "pair_table n l1 l2 p" and e: "named l1 e1 S" "named l2 e2 T"
  shows "named (rlistEqs p) (rcell p ! (unat e1 * unat (nCES l2) + unat e2)) (\<lambda>i. S i \<and> T i)"
proof -
  let ?k = "unat e1 * unat (nCES l2) + unat e2"
  have "?k < ncells p" using pair_index [OF e] p by (simp add: pair_table_def)
  then obtain b where b: "names (classes (rlistEqs p)) (rcell p ! ?k) b" "reps b (pair_set l1 l2 ?k)"
    using p by (auto simp: pair_table_def table_def)
  have "reps b (\<lambda>i. S i \<and> T i)"
    using b(2) pair_set_named [OF e] by (simp add: reps_def)
  with b(1) p show ?thesis by (auto simp: named_def pair_table_def table_def)
qed

subsection \<open>The nodes of phases 1 and 2\<close>

lemma upt_2: "[0..<2] = [0, 1 :: nat]" and upt_3: "[0..<3] = [0, 1, 2 :: nat]"
  by (simp_all add: upt_rec numeral_eq_Suc)

lemma all_less_3: "(\<forall>i < 3. P i) \<longleftrightarrow> P 0 \<and> P 1 \<and> P (2 :: nat)"
  by (auto simp: less_Suc_eq numeral_3_eq_3 numeral_2_eq_2)

lemma SetPhase1_Cell_spec:
  assumes c: "\<And>com. com < 6 \<Longrightarrow> classes_in n (listEqs (phase0 ! com))" and p0: "length phase0 = 7"
    and p1: "length phase1 = 3" "list_all noder_mem phase1"
  shows "SetPhase1_Cell phase0 phase1 = Some (ACL_OK, phase1') \<Longrightarrow> length phase1' = 3 \<and>
           (\<forall>com < 3. pair_table n (listEqs (phase0 ! (2 * com))) (listEqs (phase0 ! (2 * com + 1))) (phase1' ! com))"
    and "2 ^ n \<le> MPP_MAX_FILTERS \<Longrightarrow> \<exists>r. SetPhase1_Cell phase0 phase1 = Some r"
    and "2 ^ n * 2 ^ n \<le> ACL_MAX_CELL \<Longrightarrow> SetPhase1_Cell phase0 phase1 = Some (r, phase1') \<Longrightarrow> r = ACL_OK"
proof -
  let ?l = "\<lambda>i. listEqs (phase0 ! i)"
  obtain q0 q1 q2 where q: "phase1 = [q0, q1, q2]" "noder_mem q0" "noder_mem q1" "noder_mem q2"
    using p1 by (auto simp: length_Suc_conv numeral_3_eq_3)
  have run: "SetPhase1_Cell phase0 phase1 = do {
      (err, r0) \<leftarrow> combine_node (?l 0) (?l 1) q0;
      if err then Some (ACL_ERROR, [r0, q1, q2]) else do {
      (err, r1) \<leftarrow> combine_node (?l 2) (?l 3) q1;
      if err then Some (ACL_ERROR, [r0, r1, q2]) else do {
      (err, r2) \<leftarrow> combine_node (?l 4) (?l 5) q2;
      Some (if err then ACL_ERROR else ACL_OK, [r0, r1, r2]) } } }"
    using p0 by (auto simp: SetPhase1_Cell_def upt_3 q(1) split: bind_splits option.split bool.split)
  note spec = combine_node_spec [OF c [of 0] c [of 1] q(2)] combine_node_spec [OF c [of 2] c [of 3] q(3)]
    combine_node_spec [OF c [of 4] c [of 5] q(4)]
  have neq: "ACL_ERROR \<noteq> ACL_OK" by (simp add: c_consts)
  show "length phase1' = 3 \<and> (\<forall>com < 3. pair_table n (?l (2 * com)) (?l (2 * com + 1)) (phase1' ! com))"
    if "SetPhase1_Cell phase0 phase1 = Some (ACL_OK, phase1')"
    using that spec(1,4,7) neq unfolding run
    by (auto simp: all_less_3 split: bind_splits if_splits)
  show "\<exists>r. SetPhase1_Cell phase0 phase1 = Some r" if "2 ^ n \<le> MPP_MAX_FILTERS"
    using that spec(2,5,8) unfolding run by (fastforce split: bind_splits)
  show "r = ACL_OK" if "2 ^ n * 2 ^ n \<le> ACL_MAX_CELL" "SetPhase1_Cell phase0 phase1 = Some (r, phase1')"
    using that spec(3,6,9) unfolding run by (fastforce split: bind_splits if_splits)
qed

lemma SetPhase2_Cell_spec:
  assumes c: "\<And>com. com < 3 \<Longrightarrow> classes_in n (rlistEqs (phase1 ! com))"
    "classes_in n (listEqs (phase0 ! 6))"
    and len: "length phase0 = 7" "length phase1 = 3"
    and p2: "length phase2 = 2" "list_all noder_mem phase2"
  shows "SetPhase2_Cell phase0 phase1 phase2 = Some (ACL_OK, phase2') \<Longrightarrow> length phase2' = 2 \<and>
           pair_table n (rlistEqs (phase1 ! 0)) (rlistEqs (phase1 ! 1)) (phase2' ! 0) \<and>
           pair_table n (rlistEqs (phase1 ! 2)) (listEqs (phase0 ! 6)) (phase2' ! 1)"
    and "2 ^ n \<le> MPP_MAX_FILTERS \<Longrightarrow> \<exists>r. SetPhase2_Cell phase0 phase1 phase2 = Some r"
    and "2 ^ n * 2 ^ n \<le> ACL_MAX_CELL \<Longrightarrow>
           SetPhase2_Cell phase0 phase1 phase2 = Some (r, phase2') \<Longrightarrow> r = ACL_OK"
proof -
  let ?l = "\<lambda>i. rlistEqs (phase1 ! i)"
  obtain q0 q1 where q: "phase2 = [q0, q1]" "noder_mem q0" "noder_mem q1"
    using p2 by (auto simp: length_Suc_conv numeral_2_eq_2)
  have run: "SetPhase2_Cell phase0 phase1 phase2 = do {
      (err, r0) \<leftarrow> combine_node (?l 0) (?l 1) q0;
      if err then Some (ACL_ERROR, [r0, q1]) else do {
      (err, r1) \<leftarrow> combine_node (?l 2) (listEqs (phase0 ! 6)) q1;
      Some (if err then ACL_ERROR else ACL_OK, [r0, r1]) } }"
    using len by (auto simp: SetPhase2_Cell_def upt_2 q(1) split: bind_splits option.split bool.split)
  note spec = combine_node_spec [OF c(1) [of 0] c(1) [of 1] q(2)]
    combine_node_spec [OF c(1) [of 2] c(2) q(3)]
  have neq: "ACL_ERROR \<noteq> ACL_OK" by (simp add: c_consts)
  show "length phase2' = 2 \<and> pair_table n (?l 0) (?l 1) (phase2' ! 0) \<and>
      pair_table n (?l 2) (listEqs (phase0 ! 6)) (phase2' ! 1)"
    if "SetPhase2_Cell phase0 phase1 phase2 = Some (ACL_OK, phase2')"
    using that spec(1,4) neq unfolding run by (auto split: bind_splits if_splits)
  show "\<exists>r. SetPhase2_Cell phase0 phase1 phase2 = Some r" if "2 ^ n \<le> MPP_MAX_FILTERS"
    using that spec(2,5) unfolding run by (fastforce split: bind_splits)
  show "r = ACL_OK" if "2 ^ n * 2 ^ n \<le> ACL_MAX_CELL"
    "SetPhase2_Cell phase0 phase1 phase2 = Some (r, phase2')"
    using that spec(3,6) unfolding run by (fastforce split: bind_splits if_splits)
qed

section \<open>Phase 3: the tag of the first filter\<close>

lemma GetRuleCost_reps: "reps b S \<Longrightarrow> GetRuleCost b = (case first_index S [0..<MPP_MAX_FILTERS] of
     None \<Rightarrow> MPP_MAX_FILTERS - 1 | Some i \<Rightarrow> i)"
  unfolding GetRuleCost_first by (subst first_index_cong [where q = S]) (auto simp: reps_def)

lemma GetRuleCost_less: "GetRuleCost b < MPP_MAX_FILTERS"
  by (auto simp: GetRuleCost_first c_consts split: option.split dest: first_index_Some)

definition tag_table :: "(nat \<Rightarrow> u16) \<Rightarrow> LISTEqS \<Rightarrow> LISTEqS \<Rightarrow> Pnoder \<Rightarrow> bool" where
  "tag_table tag l1 l2 p \<longleftrightarrow> length (rcell p) = ACL_MAX_CELL \<and>
     ncells p = unat (nCES l1) * unat (nCES l2) \<and> ncells p \<le> ACL_MAX_CELL \<and>
     (\<forall>k < ncells p. rcell p ! k = tag (case first_index (pair_set l1 l2 k) [0..<MPP_MAX_FILTERS] of
        None \<Rightarrow> MPP_MAX_FILTERS - 1 | Some i \<Rightarrow> i))"

definition phase3_inv :: "(nat \<Rightarrow> u16) \<Rightarrow> LISTEqS \<Rightarrow> LISTEqS \<Rightarrow> nat \<Rightarrow> u16 list \<times> nat \<Rightarrow> bool" where
  "phase3_inv tag l1 l2 k = (\<lambda>(cells, indx). indx = k \<and> length cells = ACL_MAX_CELL \<and>
     (\<forall>i < k. cells ! i = tag (case first_index (pair_set l1 l2 i) [0..<MPP_MAX_FILTERS] of
        None \<Rightarrow> MPP_MAX_FILTERS - 1 | Some i \<Rightarrow> i)))"

lemma phase3_step_spec:
  assumes c: "classes_in n l1" "classes_in n l2"
    and ij: "i < unat (nCES l1)" "j < unat (nCES l2)"
    and max: "unat (nCES l1) * unat (nCES l2) \<le> ACL_MAX_CELL"
    and tag: "\<And>i. i < MPP_MAX_FILTERS \<Longrightarrow> tagid i = Some (tag i)"
    and I: "phase3_inv tag l1 l2 (i * unat (nCES l2) + j) x"
  shows "\<exists>y. phase3_step tagid l1 l2 i j x = Some y \<and> phase3_inv tag l1 l2 (Suc (i * unat (nCES l2) + j)) y"
proof -
  let ?k = "i * unat (nCES l2) + j"
  let ?b = "and_bmp (classes l1 ! i) (classes l2 ! j)"
  obtain cells where x: "x = (cells, ?k)" and len: "length cells = ACL_MAX_CELL"
    using I by (auto simp: phase3_inv_def)
  have k: "?k < length cells" using nth_index_less [OF ij] max len by simp
  have "phase3_step tagid l1 l2 i j x = Some (cells[?k := tag (GetRuleCost ?b)], ?k + 1)"
    using k by (simp add: phase3_step_def x classes_in_mem [OF c(1) ij(1)] classes_in_mem [OF c(2) ij(2)]
        tag GetRuleCost_less)
  moreover have "phase3_inv tag l1 l2 (Suc ?k) (cells[?k := tag (GetRuleCost ?b)], ?k + 1)"
    using I x k len
    by (auto simp: phase3_inv_def GetRuleCost_reps [OF reps_pair(1) [OF c ij]] nth_list_update less_Suc_eq)
  ultimately show ?thesis by blast
qed

lemma SetPhase3_Cell_spec:
  assumes c: "classes_in n (rlistEqs (phase2 ! 0))" "classes_in n (rlistEqs (phase2 ! 1))"
    and len: "length phase2 = 2" and mem: "noder_mem p"
    and tag: "\<And>i. i < MPP_MAX_FILTERS \<Longrightarrow> tagid i = Some (tag i)"
  shows "\<exists>r p'. SetPhase3_Cell tagid phase2 p = Some (r, p') \<and> (r = ACL_ERROR \<or> r = ACL_OK) \<and>
     (r = ACL_OK \<longrightarrow> tag_table tag (rlistEqs (phase2 ! 0)) (rlistEqs (phase2 ! 1)) p') \<and>
     (2 ^ n * 2 ^ n \<le> ACL_MAX_CELL \<longrightarrow> r = ACL_OK)"
proof -
  let ?l1 = "rlistEqs (phase2 ! 0)"
  let ?l2 = "rlistEqs (phase2 ! 1)"
  let ?N = "unat (nCES ?l1) * unat (nCES ?l2)"
  have get: "arr_get phase2 0 = Some (phase2 ! 0)" "arr_get phase2 (Suc 0) = Some (phase2 ! 1)"
    using len by simp_all
  have neq: "ACL_ERROR \<noteq> ACL_OK" by (simp add: c_consts)
  have count: "?N \<le> 2 ^ n * 2 ^ n" by (intro mult_le_mono classes_in_count c)
  show ?thesis
  proof (cases "?N > ACL_MAX_CELL")
    case True
    with count neq show ?thesis by (auto simp: SetPhase3_Cell_def Let_def get)
  next
    case False
    then have N: "?N \<le> ACL_MAX_CELL" by simp
    have "\<exists>t. for_each [0..<unat (nCES ?l1)] (\<lambda>i. for_each [0..<unat (nCES ?l2)] (phase3_step tagid ?l1 ?l2 i))
        (rcell p, 0) = Some t \<and> phase3_inv tag ?l1 ?l2 ?N t"
    proof (rule for_each2_total [where P = "phase3_inv tag ?l1 ?l2"])
      show "phase3_inv tag ?l1 ?l2 0 (rcell p, 0)" using mem by (simp add: phase3_inv_def noder_mem_def)
    qed (rule phase3_step_spec [OF c _ _ N tag])
    then show ?thesis
      using False N by (auto simp: SetPhase3_Cell_def Let_def get phase3_inv_def tag_table_def)
  qed
qed

lemma tag_table_lookup:
  assumes p: "tag_table tag l1 l2 p" and e: "named l1 e1 S" "named l2 e2 T"
  shows "unat e1 * unat (nCES l2) + unat e2 < length (rcell p)"
    and "rcell p ! (unat e1 * unat (nCES l2) + unat e2) =
      tag (case first_index (\<lambda>i. S i \<and> T i) [0..<MPP_MAX_FILTERS] of None \<Rightarrow> MPP_MAX_FILTERS - 1 | Some i \<Rightarrow> i)"
proof -
  let ?k = "unat e1 * unat (nCES l2) + unat e2"
  have k: "?k < ncells p" using pair_index [OF e] p by (simp add: tag_table_def)
  then show "?k < length (rcell p)" using p by (simp add: tag_table_def)
  have "first_index (pair_set l1 l2 ?k) [0..<MPP_MAX_FILTERS] = first_index (\<lambda>i. S i \<and> T i) [0..<MPP_MAX_FILTERS]"
    by (rule first_index_cong) (simp add: pair_set_named [OF e])
  with k p show "rcell p ! ?k =
      tag (case first_index (\<lambda>i. S i \<and> T i) [0..<MPP_MAX_FILTERS] of None \<Rightarrow> MPP_MAX_FILTERS - 1 | Some i \<Rightarrow> i)"
    by (simp add: tag_table_def)
qed

end
