(* ===== verification/Acl.thy ===== *)
theory Acl
  imports Rfc
begin

text \<open>
  \<^verbatim>\<open>frcore/frcore_acl.c\<close> in the configurations \<^verbatim>\<open>FRCORE_ACL_API_INTERFACE\<close> and \<^verbatim>\<open>RFC4_DEBUG\<close>: the filter
  set of one group, kept sorted by tag, with hit counters indexed by tag; compiling it into the tables
  of theory \<open>Rfc\<close>; classifying a packet with them.

  Every function of the file starts with \<^verbatim>\<open>filtset = &gsdata.acl->acl_data[gid].filtset\<close>; there is one
  group (\<^verbatim>\<open>MPP_MAX_ACL_NUM\<close> is 1), so the model passes the filter set itself. The C variable \<^verbatim>\<open>count\<close>
  is an \<^verbatim>\<open>int\<close> copy of \<^verbatim>\<open>numFilters\<close>; the two agree below \<open>2 ^ 31\<close>, and a count above 2048 already runs
  past the array.
\<close>

section \<open>Data\<close>

definition MPP_MAX_RFC_STAT :: nat where [c_consts]: "MPP_MAX_RFC_STAT = 2048"
definition ACL_PROTOCOL_ANY :: u32 where [c_consts]: "ACL_PROTOCOL_ANY = 0"

record mpp_acl_filtset =
  filtset :: FILTSET
  phase0_Nodes :: "Pnode list"
  phase1_Nodes :: "Pnoder list"
  phase2_Nodes :: "Pnoder list"
  phase3_Node :: Pnoder

text \<open>The search \<^verbatim>\<open>for (i = 0; i < count; i++) if (p (filtArr[i])) ...\<close>; it faults when it runs past
  the array.\<close>

definition scan_filters :: "(FILTER \<Rightarrow> bool) \<Rightarrow> FILTSET \<Rightarrow> nat option option" where
  "scan_filters p fs =
     (let n = unat (numFilters fs) in
      case first_index (\<lambda>i. p (filtArr fs ! i)) [0..<min n (length (filtArr fs))] of
        Some i \<Rightarrow> Some (Some i)
      | None \<Rightarrow> if n \<le> length (filtArr fs) then Some None else None)"

definition has_tag :: "u16 \<Rightarrow> FILTER \<Rightarrow> bool" where
  "has_tag tagid f \<longleftrightarrow> ucast tagid = fl_cost f"

section \<open>Reading and enabling filters\<close>

definition acl_getfilter_count :: "FILTSET \<Rightarrow> u16" where
  "acl_getfilter_count fs = ucast (numFilters fs)"

definition acl_getfilter_state :: "FILTSET \<Rightarrow> u16 \<Rightarrow> u8 option" where
  "acl_getfilter_state fs targetid = do {
     r \<leftarrow> scan_filters (has_tag targetid) fs;
     Some (case r of Some i \<Rightarrow> fl_state (filtArr fs ! i) | None \<Rightarrow> ACL_UNSET)
   }"

definition acl_getfilter_ruleid_by_tagid :: "FILTSET \<Rightarrow> u16 \<Rightarrow> int option" where
  "acl_getfilter_ruleid_by_tagid fs tagid = do {
     r \<leftarrow> scan_filters (has_tag tagid) fs;
     Some (case r of Some i \<Rightarrow> int i | None \<Rightarrow> MC_ERROR)
   }"

definition acl_get_tagid_by_ruleid :: "FILTSET \<Rightarrow> u16 \<Rightarrow> u16 option" where
  "acl_get_tagid_by_ruleid fs ruleid = do {
     f \<leftarrow> arr_get (filtArr fs) (unat ruleid);
     Some (ucast (fl_cost f))
   }"

definition acl_enable_one_filter_by_tagid :: "FILTSET \<Rightarrow> u16 \<Rightarrow> u8 \<Rightarrow> (u8 \<times> FILTSET) option" where
  "acl_enable_one_filter_by_tagid fs targetid enable = do {
     r \<leftarrow> scan_filters (has_tag targetid) fs;
     Some (case r of
        Some i \<Rightarrow> (1, fs\<lparr>filtArr := (filtArr fs)[i := (filtArr fs ! i)\<lparr>fl_state := enable\<rparr>]\<rparr>)
      | None \<Rightarrow> (0, fs))
   }"

definition acl_enable_all_filter :: "FILTSET \<Rightarrow> u8 \<Rightarrow> (u8 \<times> FILTSET) option" where
  "acl_enable_all_filter fs enable = do {
     arr \<leftarrow> for_each [0..<unat (numFilters fs)] (\<lambda>i arr. do {
       f \<leftarrow> arr_get arr i;
       arr_set arr i (f\<lparr>fl_state := enable\<rparr>)
     }) (filtArr fs);
     Some (1, fs\<lparr>filtArr := arr\<rparr>)
   }"

text \<open>The outputs of \<^verbatim>\<open>acl_getfilter_by_tagid\<close>.\<close>

record filter_info =
  fi_rulenum :: u16
  fi_state :: u8
  fi_sync :: u8
  fi_sip :: u32
  fi_dip :: u32
  fi_sp :: u16
  fi_dp :: u16
  fi_protocol :: u16
  fi_pkts :: u32
  fi_bytes :: u32
  fi_op :: u16
  fi_action :: u16
  fi_rule_type :: u16
  fi_rule_source :: u16

definition getfileter :: "FILTER \<Rightarrow> (u32 \<times> u32 \<times> u16 \<times> u16 \<times> u16) option" where
  "getfileter f = do {
     d0 \<leftarrow> arr_get (fl_dim f) 0;
     d1 \<leftarrow> arr_get (fl_dim f) 1;
     d2 \<leftarrow> arr_get (fl_dim f) 2;
     d3 \<leftarrow> arr_get (fl_dim f) 3;
     d4 \<leftarrow> arr_get (fl_dim f) 4;
     d5 \<leftarrow> arr_get (fl_dim f) 5;
     d6 \<leftarrow> arr_get (fl_dim f) 6;
     Some ((push_bit 16 (fst d0) AND 0xFFFF0000) OR (fst d1 AND 0x0000FFFF),
           (push_bit 16 (fst d2) AND 0xFFFF0000) OR (fst d3 AND 0x0000FFFF),
           ucast (fst d4 AND 0x0000FFFF), ucast (fst d5 AND 0x0000FFFF), ucast (fst d6 AND 0x0000FFFF))
   }"

definition acl_get_statistic_hit :: "FILTSET \<Rightarrow> nat \<Rightarrow> u64 option" where
  "acl_get_statistic_hit fs tagid = arr_get (pkt_num fs) tagid"

definition acl_get_pkt_bytes :: "FILTSET \<Rightarrow> nat \<Rightarrow> u64 option" where
  "acl_get_pkt_bytes fs tagid = arr_get (pkt_bytes fs) tagid"

definition acl_statistic_hit :: "FILTSET \<Rightarrow> nat \<Rightarrow> FILTSET option" where
  "acl_statistic_hit fs tagid = do {
     v \<leftarrow> arr_get (pkt_num fs) tagid;
     a \<leftarrow> arr_set (pkt_num fs) tagid (v + 1);
     Some (fs\<lparr>pkt_num := a\<rparr>)
   }"

definition acl_init_statistic_hit :: "FILTSET \<Rightarrow> nat \<Rightarrow> FILTSET option" where
  "acl_init_statistic_hit fs tagid = do {
     a \<leftarrow> arr_set (pkt_num fs) tagid 0;
     Some (fs\<lparr>pkt_num := a\<rparr>)
   }"

definition acl_pkt_bytes_add :: "FILTSET \<Rightarrow> nat \<Rightarrow> u16 \<Rightarrow> FILTSET option" where
  "acl_pkt_bytes_add fs tagid pkt_len = do {
     v \<leftarrow> arr_get (pkt_bytes fs) tagid;
     a \<leftarrow> arr_set (pkt_bytes fs) tagid (v + ucast pkt_len);
     Some (fs\<lparr>pkt_bytes := a\<rparr>)
   }"

definition acl_init_pkt_bytes :: "FILTSET \<Rightarrow> nat \<Rightarrow> FILTSET option" where
  "acl_init_pkt_bytes fs tagid = do {
     a \<leftarrow> arr_set (pkt_bytes fs) tagid 0;
     Some (fs\<lparr>pkt_bytes := a\<rparr>)
   }"

definition acl_getfilter_by_tagid :: "FILTSET \<Rightarrow> u16 \<Rightarrow> (int \<times> filter_info option) option" where
  "acl_getfilter_by_tagid fs tagid = do {
     r \<leftarrow> scan_filters (has_tag tagid) fs;
     case r of
       None \<Rightarrow> Some (FRE_FAIL, None)
     | Some i \<Rightarrow> do {
         let f = filtArr fs ! i;
         pkts \<leftarrow> acl_get_statistic_hit fs (unat tagid);
         bytes \<leftarrow> acl_get_pkt_bytes fs (unat tagid);
         (sip, dip, sp, dp, protocol) \<leftarrow> getfileter f;
         Some (FRE_SUCCESS, Some \<lparr>fi_rulenum = of_nat i, fi_state = fl_state f, fi_sync = fl_sync f,
           fi_sip = sip, fi_dip = dip, fi_sp = sp, fi_dp = dp, fi_protocol = protocol,
           fi_pkts = ucast pkts, fi_bytes = ucast bytes, fi_op = fl_op f, fi_action = fl_action f,
           fi_rule_type = fl_rule_type f, fi_rule_source = fl_rule_source f\<rparr>)
       }
   }"

definition acl_initfilter_statistics_by_tagid :: "FILTSET \<Rightarrow> u16 \<Rightarrow> FILTSET option" where
  "acl_initfilter_statistics_by_tagid fs tagid = do {
     fs1 \<leftarrow> acl_init_statistic_hit fs (unat tagid);
     acl_init_pkt_bytes fs1 (unat tagid)
   }"

section \<open>Moving and deleting filters\<close>

text \<open>Copying the counters of tag \<open>c\<close> to tag \<open>d\<close>.\<close>

definition copy_counters :: "u32 \<Rightarrow> u32 \<Rightarrow> FILTSET \<Rightarrow> FILTSET option" where
  "copy_counters c d fs = do {
     n \<leftarrow> arr_get (pkt_num fs) (unat c);
     pn \<leftarrow> arr_set (pkt_num fs) (unat d) n;
     b \<leftarrow> arr_get (pkt_bytes fs) (unat c);
     pb \<leftarrow> arr_set (pkt_bytes fs) (unat d) b;
     Some (fs\<lparr>pkt_num := pn, pkt_bytes := pb\<rparr>)
   }"

text \<open>The body of the moving loops: all fields of slot \<open>src\<close> go to slot \<open>dst\<close>, and the counters of
  the tag in \<open>src\<close> go to the tag that \<open>dst\<close> had.\<close>

definition move_slot :: "nat \<Rightarrow> nat \<Rightarrow> FILTSET \<Rightarrow> FILTSET option" where
  "move_slot src dst fs = do {
     f \<leftarrow> arr_get (filtArr fs) src;
     g \<leftarrow> arr_get (filtArr fs) dst;
     fs1 \<leftarrow> copy_counters (fl_cost f) (fl_cost g) fs;
     arr \<leftarrow> arr_set (filtArr fs1) dst f;
     Some (fs1\<lparr>filtArr := arr\<rparr>)
   }"

definition blank_filter :: FILTER where
  "blank_filter = \<lparr>fl_cost = 0, fl_sync = ACL_NOSYNC, fl_state = ACL_UNSET, fl_op = 0, fl_action = 0,
     fl_rule_type = 0, fl_rule_source = 0, fl_dim = replicate 7 (0, 0)\<rparr>"

definition acl_initOneFilter_by_index :: "FILTSET \<Rightarrow> nat \<Rightarrow> FILTSET option" where
  "acl_initOneFilter_by_index fs index = do {
     f \<leftarrow> arr_get (filtArr fs) index;
     pn \<leftarrow> arr_set (pkt_num fs) (unat (fl_cost f)) 0;
     pb \<leftarrow> arr_set (pkt_bytes fs) (unat (fl_cost f)) 0;
     arr \<leftarrow> arr_set (filtArr fs) index blank_filter;
     Some (fs\<lparr>pkt_num := pn, pkt_bytes := pb, filtArr := arr\<rparr>)
   }"

definition move_Forward_Filter_from_index :: "FILTSET \<Rightarrow> nat \<Rightarrow> FILTSET option" where
  "move_Forward_Filter_from_index fs index =
     (let count = unat (numFilters fs) in do {
        fs1 \<leftarrow> for_each [index..<count - 1] (\<lambda>j. move_slot (j + 1) j) fs;
        if count = 0 then None else acl_initOneFilter_by_index fs1 (count - 1)
      })"

definition move_Back_Filter_from_index :: "FILTSET \<Rightarrow> nat \<Rightarrow> FILTSET option" where
  "move_Back_Filter_from_index fs index =
     for_each (rev [index..<unat (numFilters fs)]) (\<lambda>j. move_slot j (j + 1)) fs"

text \<open>The lines that \<^verbatim>\<open>acl_DeleteOneFilter_by_tagid\<close> and \<^verbatim>\<open>acl_updatefiltertagid_by_stagid\<close> share.\<close>

definition remove_at :: "FILTSET \<Rightarrow> nat \<Rightarrow> FILTSET option" where
  "remove_at fs i = do {
     fs1 \<leftarrow> (if i = unat (numFilters fs) - 1 then acl_initOneFilter_by_index fs i
            else move_Forward_Filter_from_index fs i);
     Some (fs1\<lparr>numFilters := numFilters fs1 - 1\<rparr>)
   }"

definition acl_DeleteOneFilter_by_tagid :: "FILTSET \<Rightarrow> u16 \<Rightarrow> (int \<times> FILTSET) option" where
  "acl_DeleteOneFilter_by_tagid fs tagid = do {
     r \<leftarrow> scan_filters (has_tag tagid) fs;
     case r of
       None \<Rightarrow> Some (FRE_NOTFOUND, fs)
     | Some i \<Rightarrow> do { fs1 \<leftarrow> remove_at fs i; Some (FRE_SUCCESS, fs1) }
   }"

section \<open>Setting filters\<close>

definition acl_readiprange :: "u32 \<Rightarrow> (u32 \<times> u32) \<times> (u32 \<times> u32)" where
  "acl_readiprange ip =
     (let mask = (if ip \<noteq> 0 then 32 else 0) :: nat;
          trange = map (\<lambda>i. drop_bit ((3 - i) * 8) ip AND 0xff) [0..<4];
          mask = 32 - mask;
          masklit1 = mask div 8;
          masklit2 = mask mod 8;
          low_bits = push_bit masklit2 1 - 1 :: u32;
          ptrange = fold (\<lambda>i p. p[i := 0]) (rev [4 - masklit1..<4]) trange;
          ptrange = (if masklit2 \<noteq> 0 then ptrange[3 - masklit1 := ptrange ! (3 - masklit1) AND NOT low_bits]
                     else ptrange);
          high0 = push_bit 8 (ptrange ! 0) + ptrange ! 1;
          low0 = push_bit 8 (ptrange ! 2) + ptrange ! 3;
          ptrange = fold (\<lambda>i p. p[i := 255]) (rev [4 - masklit1..<4]) ptrange;
          ptrange = (if masklit2 \<noteq> 0 then ptrange[3 - masklit1 := ptrange ! (3 - masklit1) OR low_bits]
                     else ptrange);
          high1 = push_bit 8 (ptrange ! 0) + ptrange ! 1;
          low1 = push_bit 8 (ptrange ! 2) + ptrange ! 3
      in ((high0, high1), (low0, low1)))"

definition acl_ReadProtocol :: "u16 \<Rightarrow> u32 \<times> u32" where
  "acl_ReadProtocol proto =
     (let tfrom = ucast proto in if ACL_PROTOCOL_ANY = tfrom then (0, 255) else (tfrom, tfrom))"

definition acl_ReadPort :: "u16 \<Rightarrow> u32 \<times> u32" where
  "acl_ReadPort port = (if port \<noteq> 0 then (ucast port, ucast port) else (0, 65535))"

text \<open>The fields of a rule that the caller passes besides the tag.\<close>

record rule_args =
  ra_sip :: u32
  ra_dip :: u32
  ra_sp :: u16
  ra_dp :: u16
  ra_protocol :: u16
  ra_op :: u16
  ra_action :: u16
  ra_rule_type :: u16
  ra_rule_source :: u16

definition new_filter :: "u16 \<Rightarrow> rule_args \<Rightarrow> FILTER" where
  "new_filter targetid a =
     (let (sh, sl) = acl_readiprange (ra_sip a); (dh, dl) = acl_readiprange (ra_dip a) in
      \<lparr>fl_cost = ucast targetid, fl_sync = ACL_NOSYNC, fl_state = ACL_ENABLE, fl_op = ra_op a,
       fl_action = ra_action a, fl_rule_type = ra_rule_type a, fl_rule_source = ra_rule_source a,
       fl_dim = [sh, sl, dh, dl, acl_ReadPort (ra_sp a), acl_ReadPort (ra_dp a),
                 acl_ReadProtocol (ra_protocol a)]\<rparr>)"

definition setfilter :: "FILTSET \<Rightarrow> u16 \<Rightarrow> u16 \<Rightarrow> rule_args \<Rightarrow> bool \<Rightarrow> FILTSET option" where
  "setfilter fs index targetid a cover = do {
     arr \<leftarrow> arr_set (filtArr fs) (unat index) (new_filter targetid a);
     pn \<leftarrow> arr_set (pkt_num fs) (unat targetid) 0;
     pb \<leftarrow> arr_set (pkt_bytes fs) (unat targetid) 0;
     let fs1 = fs\<lparr>filtArr := arr, pkt_num := pn, pkt_bytes := pb\<rparr> in
     Some (if cover then fs1 else fs1\<lparr>numFilters := numFilters fs1 + 1\<rparr>)
   }"

text \<open>The loop stops at the first filter whose tag is not smaller: it is moved up, or covered.\<close>

definition acl_setfilter :: "FILTSET \<Rightarrow> u16 \<Rightarrow> rule_args \<Rightarrow> FILTSET option" where
  "acl_setfilter fs targetid a = do {
     r \<leftarrow> scan_filters (\<lambda>f. ucast targetid \<le> fl_cost f) fs;
     case r of
       None \<Rightarrow> setfilter fs (ucast (numFilters fs)) targetid a False
     | Some i \<Rightarrow>
         if ucast targetid < fl_cost (filtArr fs ! i) then do {
           fs1 \<leftarrow> for_each (rev [i..<unat (numFilters fs)]) (\<lambda>j. move_slot j (j + 1)) fs;
           setfilter fs1 (of_nat i) targetid a False
         } else setfilter fs (of_nat i) targetid a True
   }"

section \<open>Changing a tag\<close>

definition copy_one_filter :: "FILTER \<Rightarrow> FILTSET \<Rightarrow> nat \<Rightarrow> FILTER option" where
  "copy_one_filter filt fs index = do {
     f \<leftarrow> arr_get (filtArr fs) index;
     Some (filt\<lparr>fl_state := fl_state f, fl_sync := fl_sync f, fl_cost := fl_cost f, fl_dim := fl_dim f\<rparr>)
   }"

definition restore_one_filter :: "FILTSET \<Rightarrow> nat \<Rightarrow> FILTER \<Rightarrow> FILTSET option" where
  "restore_one_filter fs index filt = do {
     f \<leftarrow> arr_get (filtArr fs) index;
     arr \<leftarrow> arr_set (filtArr fs) index
       (f\<lparr>fl_state := fl_state filt, fl_sync := fl_sync filt, fl_cost := fl_cost filt, fl_dim := fl_dim filt\<rparr>);
     Some (fs\<lparr>filtArr := arr\<rparr>)
   }"

definition cover_one_filter :: "FILTSET \<Rightarrow> nat \<Rightarrow> nat \<Rightarrow> FILTSET option" where
  "cover_one_filter fs sindex dindex = do {
     f \<leftarrow> arr_get (filtArr fs) dindex;
     restore_one_filter fs sindex f
   }"

definition swap_filt_statistics :: "FILTSET \<Rightarrow> nat \<Rightarrow> nat \<Rightarrow> FILTSET option" where
  "swap_filt_statistics fs stag_id dtag_id = do {
     tmp \<leftarrow> arr_get (pkt_num fs) stag_id;
     d \<leftarrow> arr_get (pkt_num fs) dtag_id;
     pn1 \<leftarrow> arr_set (pkt_num fs) stag_id d;
     pn2 \<leftarrow> arr_set pn1 dtag_id tmp;
     Some (fs\<lparr>pkt_num := pn2\<rparr>)
   }"

definition set_cost :: "FILTSET \<Rightarrow> nat \<Rightarrow> u16 \<Rightarrow> FILTSET option" where
  "set_cost fs i tag = do {
     f \<leftarrow> arr_get (filtArr fs) i;
     arr \<leftarrow> arr_set (filtArr fs) i (f\<lparr>fl_cost := ucast tag\<rparr>);
     Some (fs\<lparr>filtArr := arr\<rparr>)
   }"

definition updatefiltertagid_by_stagid :: "FILTSET \<Rightarrow> u16 \<Rightarrow> u16 \<Rightarrow> (bool \<times> FILTSET) option" where
  "updatefiltertagid_by_stagid fs stagid dtagid = do {
     s \<leftarrow> acl_getfilter_state fs stagid;
     d \<leftarrow> acl_getfilter_state fs dtagid;
     if ACL_UNSET \<noteq> s \<and> ACL_UNSET \<noteq> d then do {
       (filt, sindex, dindex) \<leftarrow> for_each [0..<unat (numFilters fs)] (\<lambda>i (filt, sindex, dindex). do {
         f \<leftarrow> arr_get (filtArr fs) i;
         filt' \<leftarrow> (if has_tag stagid f then copy_one_filter filt fs i else Some filt);
         Some (filt', if has_tag stagid f then i else sindex, if has_tag dtagid f then i else dindex)
       }) (blank_filter, 0, 0);
       fs1 \<leftarrow> cover_one_filter fs sindex dindex;
       fs2 \<leftarrow> restore_one_filter fs1 dindex filt;
       fs3 \<leftarrow> set_cost fs2 sindex stagid;
       fs4 \<leftarrow> set_cost fs3 dindex dtagid;
       fs5 \<leftarrow> swap_filt_statistics fs4 (unat stagid) (unat dtagid);
       Some (True, fs5)
     } else Some (False, fs)
   }"

definition acl_updatefiltertagid_by_stagid :: "FILTSET \<Rightarrow> u16 \<Rightarrow> u16 \<Rightarrow> (int \<times> FILTSET) option" where
  "acl_updatefiltertagid_by_stagid fs stagid dtagid = do {
     (swapped, fs0) \<leftarrow> updatefiltertagid_by_stagid fs stagid dtagid;
     if swapped then Some (1, fs0)
     else do {
       r \<leftarrow> scan_filters (has_tag stagid) fs0;
       (filt, fs1) \<leftarrow> (case r of
           None \<Rightarrow> Some (blank_filter, fs0)
         | Some i \<Rightarrow> do {
             filt \<leftarrow> copy_one_filter blank_filter fs0 i;
             fs1 \<leftarrow> remove_at fs0 i;
             Some (filt\<lparr>fl_cost := ucast dtagid\<rparr>, fs1)
           });
       r \<leftarrow> scan_filters (\<lambda>f. ucast dtagid < fl_cost f) fs1;
       fs2 \<leftarrow> (case r of
           Some i \<Rightarrow> do {
             fs2 \<leftarrow> move_Back_Filter_from_index fs1 0;
             restore_one_filter fs2 i filt
           }
         | None \<Rightarrow> restore_one_filter fs1 (unat (numFilters fs1)) filt);
       Some (1, fs2\<lparr>numFilters := numFilters fs2 + 1\<rparr>)
     }
   }"

section \<open>Compiling and classifying\<close>

definition pre_acl_lookup_by_tuple :: "mpp_acl_filtset \<Rightarrow> (int \<times> mpp_acl_filtset) option" where
  "pre_acl_lookup_by_tuple a = do {
     (ret, p0, fs) \<leftarrow> SetPhase0_Cell (phase0_Nodes a) (filtset a);
     let a = a\<lparr>phase0_Nodes := p0, filtset := fs\<rparr> in
     if ACL_ERROR = ret then Some (MC_ERROR, a) else do {
       (ret, p1) \<leftarrow> SetPhase1_Cell (phase0_Nodes a) (phase1_Nodes a);
       let a = a\<lparr>phase1_Nodes := p1\<rparr> in
       if ACL_ERROR = ret then Some (MC_ERROR, a) else do {
         (ret, p2) \<leftarrow> SetPhase2_Cell (phase0_Nodes a) (phase1_Nodes a) (phase2_Nodes a);
         let a = a\<lparr>phase2_Nodes := p2\<rparr> in
         if ACL_ERROR = ret then Some (MC_ERROR, a) else do {
           (ret, p3) \<leftarrow> SetPhase3_Cell (\<lambda>i. acl_get_tagid_by_ruleid (filtset a) (of_nat i))
                          (phase2_Nodes a) (phase3_Node a);
           let a = a\<lparr>phase3_Node := p3\<rparr> in
           if ACL_ERROR = ret then Some (MC_ERROR, a) else Some (FRE_SUCCESS, a)
         }
       }
     }
   }"

text \<open>\<^verbatim>\<open>cid[a] * listEqs.nCES + cid[b]\<close>, in \<^verbatim>\<open>unsigned int\<close>.\<close>

definition rfc_index :: "u16 \<Rightarrow> LISTEqS \<Rightarrow> u16 \<Rightarrow> u32" where
  "rfc_index c1 l c2 = ucast c1 * ucast (nCES l) + ucast c2"

definition acl_lookup_by_tuple ::
  "Pnode list \<Rightarrow> Pnoder list \<Rightarrow> Pnoder list \<Rightarrow> Pnoder \<Rightarrow>
   u16 \<Rightarrow> u16 \<Rightarrow> u16 \<Rightarrow> u16 \<Rightarrow> u16 \<Rightarrow> u16 \<Rightarrow> u8 \<Rightarrow> u16 option" where
  "acl_lookup_by_tuple p0 p1 p2 p3 siph sipl diph dipl sp dp proto = do {
     n0 \<leftarrow> arr_get p0 0; n1 \<leftarrow> arr_get p0 1; n2 \<leftarrow> arr_get p0 2; n3 \<leftarrow> arr_get p0 3;
     n4 \<leftarrow> arr_get p0 4; n5 \<leftarrow> arr_get p0 5; n6 \<leftarrow> arr_get p0 6;
     cid0 \<leftarrow> arr_get (cell n0) (unat siph);
     cid1 \<leftarrow> arr_get (cell n1) (unat sipl);
     cid2 \<leftarrow> arr_get (cell n2) (unat diph);
     cid3 \<leftarrow> arr_get (cell n3) (unat dipl);
     cid4 \<leftarrow> arr_get (cell n4) (unat sp);
     cid5 \<leftarrow> arr_get (cell n5) (unat dp);
     cid6 \<leftarrow> arr_get (cell n6) (unat proto);
     let indx0 = rfc_index cid0 (listEqs n1) cid1;
     let indx1 = rfc_index cid2 (listEqs n3) cid3;
     let indx2 = rfc_index cid4 (listEqs n5) cid5;
     m0 \<leftarrow> arr_get p1 0; m1 \<leftarrow> arr_get p1 1; m2 \<leftarrow> arr_get p1 2;
     cid7 \<leftarrow> arr_get (rcell m0) (unat indx0);
     cid8 \<leftarrow> arr_get (rcell m1) (unat indx1);
     cid9 \<leftarrow> arr_get (rcell m2) (unat indx2);
     let indx3 = rfc_index cid7 (rlistEqs m1) cid8;
     let indx4 = rfc_index cid9 (listEqs n6) cid6;
     k0 \<leftarrow> arr_get p2 0; k1 \<leftarrow> arr_get p2 1;
     cid10 \<leftarrow> arr_get (rcell k0) (unat indx3);
     cid11 \<leftarrow> arr_get (rcell k1) (unat indx4);
     let indx5 = rfc_index cid10 (rlistEqs k1) cid11;
     arr_get (rcell p3) (unat indx5)
   }"

section \<open>Classification is linear search\<close>

text \<open>The reference: the tag of the first enabled filter whose seven ranges contain the seven header
  fields, and the tag in the last slot (0 when that slot is blank) when there is none.\<close>

definition in_range :: "u32 \<times> u32 \<Rightarrow> nat \<Rightarrow> bool" where
  "in_range d v \<longleftrightarrow> unat (fst d) \<le> v \<and> v \<le> unat (snd d)"

definition accepts :: "FILTER \<Rightarrow> nat list \<Rightarrow> bool" where
  "accepts f h \<longleftrightarrow> fl_state f = ACL_ENABLE \<and>
     list_all2 in_range (fl_dim f) h"

definition classify :: "FILTSET \<Rightarrow> nat list \<Rightarrow> u16" where
  "classify fs h =
     (case List.find (\<lambda>f. accepts f h) (take (unat (numFilters fs)) (filtArr fs)) of
        Some f \<Rightarrow> ucast (fl_cost f)
      | None \<Rightarrow> ucast (fl_cost (filtArr fs ! (MPP_MAX_FILTERS - 1))))"

definition header_fields :: "u16 \<Rightarrow> u16 \<Rightarrow> u16 \<Rightarrow> u16 \<Rightarrow> u16 \<Rightarrow> u16 \<Rightarrow> u8 \<Rightarrow> nat list" where
  "header_fields siph sipl diph dipl sp dp proto =
     [unat siph, unat sipl, unat diph, unat dipl, unat sp, unat dp, unat proto]"

definition tables_mem :: "mpp_acl_filtset \<Rightarrow> bool" where
  "tables_mem a \<longleftrightarrow> length (phase0_Nodes a) = 7 \<and> list_all node_mem (phase0_Nodes a) \<and>
     length (phase1_Nodes a) = 3 \<and> list_all noder_mem (phase1_Nodes a) \<and>
     length (phase2_Nodes a) = 2 \<and> list_all noder_mem (phase2_Nodes a) \<and> noder_mem (phase3_Node a)"

lemma first_index_find:
  "first_index (\<lambda>i. i < n \<and> p (xs ! i)) [0..<m] =
     (if n \<le> m \<and> n \<le> length xs then first_index (\<lambda>i. p (xs ! i)) [0..<n] else first_index (\<lambda>i. i < n \<and> p (xs ! i)) [0..<m])"
proof (cases "n \<le> m")
  case True
  then have "[0..<m] = [0..<n] @ [n..<m]" by (metis le0 le_Suc_ex upt_add_eq_append)
  moreover have "first_index p (xs @ ys) = (case first_index p xs of None \<Rightarrow> first_index p ys | r \<Rightarrow> r)"
    for p :: "nat \<Rightarrow> bool" and xs ys
    by (induction xs) auto
  moreover have "first_index (\<lambda>i. i < n \<and> p (xs ! i)) [n..<m] = None"
    by (simp add: first_index_None)
  moreover have "first_index (\<lambda>i. i < n \<and> p (xs ! i)) [0..<n] = first_index (\<lambda>i. p (xs ! i)) [0..<n]"
    by (rule first_index_cong) simp
  ultimately show ?thesis by (auto split: option.split)
qed simp

lemma first_index_nth_find:
  "n \<le> length xs \<Longrightarrow> map_option (\<lambda>i. xs ! i) (first_index (\<lambda>i. p (xs ! i)) [0..<n]) = List.find p (take n xs)"
proof (induction xs arbitrary: n)
  case Nil
  then show ?case by simp
next
  case (Cons x xs)
  show ?case
  proof (cases n)
    case (Suc k)
    have "first_index (\<lambda>i. p ((x # xs) ! i)) [Suc 0..<Suc k] =
        map_option Suc (first_index (\<lambda>i. p (xs ! i)) [0..<k])"
      by (simp add: first_index_upt_shift del: upt_Suc)
    with Cons Suc show ?thesis
      by (auto simp: upt_rec [of 0] option.map_comp comp_def simp del: upt_Suc)
  qed simp
qed

lemma covers_accepts:
  assumes ok: "filters_ok fs" and h: "length h = 7"
  shows "(\<forall>com < 7. covers fs com (h ! com) i) \<longleftrightarrow> i < unat (numFilters fs) \<and> accepts (filtArr fs ! i) h"
proof (cases "i < unat (numFilters fs)")
  case True
  then have "length (fl_dim (filtArr fs ! i)) = 7"
    using ok by (auto simp: filters_ok_def list_all_length dims_ok_def)
  then show ?thesis
    using True h by (auto simp: covers_def accepts_def list_all2_conv_all_nth in_range_def dest: spec [of _ 0])
qed (auto simp: covers_def intro: exI [of _ 0])

lemma all_less_7: "(\<forall>i < 7. P i) \<longleftrightarrow> P 0 \<and> P 1 \<and> P 2 \<and> P 3 \<and> P 4 \<and> P 5 \<and> P (6 :: nat)"
proof -
  have "i < 7 \<longleftrightarrow> i = 0 \<or> i = 1 \<or> i = 2 \<or> i = 3 \<or> i = 4 \<or> i = 5 \<or> i = 6" for i :: nat by arith
  then show ?thesis by auto
qed

lemma classify_first_index:
  assumes ok: "filters_ok fs" and h: "length h = 7"
  shows "(case first_index (\<lambda>i. \<forall>com < 7. covers fs com (h ! com) i) [0..<MPP_MAX_FILTERS] of
            None \<Rightarrow> ucast (fl_cost (filtArr fs ! (MPP_MAX_FILTERS - 1)))
          | Some i \<Rightarrow> ucast (fl_cost (filtArr fs ! i))) = classify fs h"
proof -
  have n: "unat (numFilters fs) \<le> MPP_MAX_FILTERS" "unat (numFilters fs) \<le> length (filtArr fs)"
    using ok by (simp_all add: filters_ok_def)
  show ?thesis
    unfolding covers_accepts [OF ok h] classify_def first_index_nth_find [OF n(2), symmetric]
    by (subst first_index_find) (simp add: n split: option.split)
qed

lemma rfc_index_unat: "unat (rfc_index c1 l c2) = unat c1 * unat (nCES l) + unat c2"
proof -
  have "unat c1 * unat (nCES l) + unat c2 \<le> 65535 * 65535 + 65535"
    using unat_u16 [of c1] unat_u16 [of "nCES l"] unat_u16 [of c2] by (intro add_mono mult_le_mono) auto
  then show ?thesis
    by (simp add: rfc_index_def unat_word_ariths)
qed

subsection \<open>Compiled tables\<close>

definition phase0_done :: "FILTSET \<Rightarrow> Pnode list \<Rightarrow> bool" where
  "phase0_done fs p0 \<longleftrightarrow> length p0 = 7 \<and> (\<forall>com < 7. node_table fs com (p0 ! com))"

definition phase1_done :: "nat \<Rightarrow> Pnode list \<Rightarrow> Pnoder list \<Rightarrow> bool" where
  "phase1_done n p0 p1 \<longleftrightarrow> length p1 = 3 \<and>
     (\<forall>com < 3. pair_table n (listEqs (p0 ! (2 * com))) (listEqs (p0 ! (2 * com + 1))) (p1 ! com))"

definition phase2_done :: "nat \<Rightarrow> Pnode list \<Rightarrow> Pnoder list \<Rightarrow> Pnoder list \<Rightarrow> bool" where
  "phase2_done n p0 p1 p2 \<longleftrightarrow> length p2 = 2 \<and>
     pair_table n (rlistEqs (p1 ! 0)) (rlistEqs (p1 ! 1)) (p2 ! 0) \<and>
     pair_table n (rlistEqs (p1 ! 2)) (listEqs (p0 ! 6)) (p2 ! 1)"

definition phase3_done :: "FILTSET \<Rightarrow> Pnoder list \<Rightarrow> Pnoder \<Rightarrow> bool" where
  "phase3_done fs p2 p3 \<longleftrightarrow>
     tag_table (\<lambda>i. ucast (fl_cost (filtArr fs ! i))) (rlistEqs (p2 ! 0)) (rlistEqs (p2 ! 1)) p3"

definition compiled :: "FILTSET \<Rightarrow> mpp_acl_filtset \<Rightarrow> bool" where
  "compiled fs a \<longleftrightarrow> phase0_done fs (phase0_Nodes a) \<and>
     phase1_done (unat (numFilters fs)) (phase0_Nodes a) (phase1_Nodes a) \<and>
     phase2_done (unat (numFilters fs)) (phase0_Nodes a) (phase1_Nodes a) (phase2_Nodes a) \<and>
     phase3_done fs (phase2_Nodes a) (phase3_Node a)"

text \<open>The possible outcomes of a phase over \<open>n\<close> filters: a fault only when more than 2048 classes are
  possible, \<^verbatim>\<open>ACL_ERROR\<close> only when more than \<^verbatim>\<open>ACL_MAX_CELL\<close> cells are, else success with \<open>Q\<close>.\<close>

definition outcome :: "nat \<Rightarrow> (int \<times> 'a) option \<Rightarrow> ('a \<Rightarrow> bool) \<Rightarrow> bool" where
  "outcome n r Q \<longleftrightarrow> (case r of
      None \<Rightarrow> 2 ^ n > MPP_MAX_FILTERS
    | Some (c, x) \<Rightarrow> c = ACL_OK \<and> Q x \<or> c = ACL_ERROR \<and> 2 ^ n * 2 ^ n > ACL_MAX_CELL)"

lemma outcomeI:
  assumes "2 ^ n \<le> MPP_MAX_FILTERS \<Longrightarrow> \<exists>x. r = Some x"
    and "\<And>x. r = Some (ACL_OK, x) \<Longrightarrow> Q x"
    and "\<And>c x. r = Some (c, x) \<Longrightarrow> c = ACL_OK \<or> c = ACL_ERROR"
    and "\<And>c x. 2 ^ n * 2 ^ n \<le> ACL_MAX_CELL \<Longrightarrow> r = Some (c, x) \<Longrightarrow> c = ACL_OK"
  shows "outcome n r Q"
  using assms by (cases r) (force simp: outcome_def not_less)+

lemma phase0_outcome:
  assumes ok: "filters_ok fs" and mem: "length p0 = 7" "list_all node_mem p0"
  shows "outcome (unat (numFilters fs)) (SetPhase0_Cell p0 fs) (\<lambda>(p0', fs'). phase0_done fs p0' \<and> fs' = synced fs)"
  by (rule outcomeI) (use SetPhase0_Cell_spec [OF ok mem] in \<open>auto simp: phase0_done_def\<close>)

lemma phase1_outcome:
  assumes p0: "phase0_done fs p0" and mem: "length p1 = 3" "list_all noder_mem p1"
  shows "outcome (unat (numFilters fs)) (SetPhase1_Cell p0 p1) (phase1_done (unat (numFilters fs)) p0)"
proof -
  have c: "classes_in (unat (numFilters fs)) (listEqs (p0 ! com))" if "com < 6" for com
    using p0 that by (intro node_table_classes [where com = com]) (simp add: phase0_done_def)
  have len: "length p0 = 7" using p0 by (simp add: phase0_done_def)
  show ?thesis
    by (rule outcomeI; (use SetPhase1_Cell_spec [OF c len mem] in \<open>simp add: phase1_done_def\<close>)?)
       (auto simp: SetPhase1_Cell_def split: bind_splits)
qed

lemma phase1_classes: "phase1_done n p0 p1 \<Longrightarrow> com < 3 \<Longrightarrow> classes_in n (rlistEqs (p1 ! com))"
  using pair_table_classes by (auto simp: phase1_done_def)

lemma phase2_outcome:
  assumes p0: "phase0_done fs p0" and p1: "phase1_done (unat (numFilters fs)) p0 p1"
    and mem: "length p2 = 2" "list_all noder_mem p2"
  shows "outcome (unat (numFilters fs)) (SetPhase2_Cell p0 p1 p2) (phase2_done (unat (numFilters fs)) p0 p1)"
proof -
  have c: "classes_in (unat (numFilters fs)) (listEqs (p0 ! 6))"
    using p0 by (intro node_table_classes [where com = 6]) (simp add: phase0_done_def)
  have len: "length p0 = 7" "length p1 = 3" using p0 p1 by (simp_all add: phase0_done_def phase1_done_def)
  show ?thesis
    by (rule outcomeI; (use SetPhase2_Cell_spec [OF phase1_classes [OF p1] c len mem] in \<open>simp add: phase2_done_def\<close>)?)
       (auto simp: SetPhase2_Cell_def split: bind_splits)
qed

lemma phase3_outcome:
  assumes p2: "phase2_done (unat (numFilters fs)) p0 p1 p2" and mem: "noder_mem p3" and ok: "filters_ok fs"
  shows "outcome (unat (numFilters fs))
    (SetPhase3_Cell (\<lambda>i. acl_get_tagid_by_ruleid (synced fs) (of_nat i)) p2 p3) (phase3_done fs p2)"
proof -
  have tag: "acl_get_tagid_by_ruleid (synced fs) (of_nat i) = Some (ucast (fl_cost (filtArr fs ! i)))"
    if "i < MPP_MAX_FILTERS" for i
    using that ok
    by (simp add: acl_get_tagid_by_ruleid_def filters_ok_def synced_fields unat_of_nat c_consts)
  have c: "classes_in (unat (numFilters fs)) (rlistEqs (p2 ! 0))" "classes_in (unat (numFilters fs)) (rlistEqs (p2 ! 1))"
    and len: "length p2 = 2"
    using p2 pair_table_classes by (auto simp: phase2_done_def)
  show ?thesis
    using SetPhase3_Cell_spec [where tagid = "\<lambda>i. acl_get_tagid_by_ruleid (synced fs) (of_nat i)", OF c len mem tag]
    by (auto simp: outcome_def phase3_done_def)
qed

text \<open>The same for the whole run, with the return codes of \<^verbatim>\<open>pre_acl_lookup_by_tuple\<close>.\<close>

definition run_outcome :: "nat \<Rightarrow> ('a \<Rightarrow> bool) \<Rightarrow> (int \<times> 'a) option \<Rightarrow> bool" where
  "run_outcome n P r \<longleftrightarrow> (case r of
      None \<Rightarrow> 2 ^ n > MPP_MAX_FILTERS
    | Some (c, a) \<Rightarrow> c = FRE_SUCCESS \<and> P a \<or> c = MC_ERROR \<and> 2 ^ n * 2 ^ n > ACL_MAX_CELL)"

lemma run_outcome_bind:
  assumes "outcome n r Q" and "\<And>x. Q x \<Longrightarrow> run_outcome n P (g x)"
  shows "run_outcome n P (do { (ret, x) \<leftarrow> r; if ACL_ERROR = ret then Some (MC_ERROR, e x) else g x })"
proof -
  have "ACL_ERROR \<noteq> ACL_OK" by (simp add: c_consts)
  with assms show ?thesis
    by (cases r) (auto simp: outcome_def run_outcome_def)
qed

lemma run_outcome_bind2:
  assumes "outcome n r Q" and "\<And>x y. Q (x, y) \<Longrightarrow> run_outcome n P (g x y)"
  shows "run_outcome n P (do { (ret, x, y) \<leftarrow> r; if ACL_ERROR = ret then Some (MC_ERROR, e x y) else g x y })"
proof -
  have "ACL_ERROR \<noteq> ACL_OK" by (simp add: c_consts)
  with assms show ?thesis
    by (cases r) (auto simp: outcome_def run_outcome_def)
qed

lemma pre_acl_lookup_by_tuple_outcome:
  assumes ok: "filters_ok (filtset a)" and mem: "tables_mem a"
  shows "run_outcome (unat (numFilters (filtset a)))
     (\<lambda>a'. compiled (filtset a) a' \<and> filtset a' = synced (filtset a)) (pre_acl_lookup_by_tuple a)"
proof -
  let ?fs = "filtset a"
  let ?P = "\<lambda>a'. compiled ?fs a' \<and> filtset a' = synced ?fs"
  have m: "length (phase0_Nodes a) = 7" "list_all node_mem (phase0_Nodes a)"
    "length (phase1_Nodes a) = 3" "list_all noder_mem (phase1_Nodes a)"
    "length (phase2_Nodes a) = 2" "list_all noder_mem (phase2_Nodes a)" "noder_mem (phase3_Node a)"
    using mem by (simp_all add: tables_mem_def)
  have unfolded: "pre_acl_lookup_by_tuple a = do {
      (ret, p0, fs) \<leftarrow> SetPhase0_Cell (phase0_Nodes a) ?fs;
      if ACL_ERROR = ret then Some (MC_ERROR, a\<lparr>phase0_Nodes := p0, filtset := fs\<rparr>) else do {
      (ret, p1) \<leftarrow> SetPhase1_Cell p0 (phase1_Nodes a);
      if ACL_ERROR = ret then Some (MC_ERROR, a\<lparr>phase0_Nodes := p0, filtset := fs, phase1_Nodes := p1\<rparr>) else do {
      (ret, p2) \<leftarrow> SetPhase2_Cell p0 p1 (phase2_Nodes a);
      if ACL_ERROR = ret
      then Some (MC_ERROR, a\<lparr>phase0_Nodes := p0, filtset := fs, phase1_Nodes := p1, phase2_Nodes := p2\<rparr>) else do {
      (ret, p3) \<leftarrow> SetPhase3_Cell (\<lambda>i. acl_get_tagid_by_ruleid fs (of_nat i)) p2 (phase3_Node a);
      if ACL_ERROR = ret
      then Some (MC_ERROR, a\<lparr>phase0_Nodes := p0, filtset := fs, phase1_Nodes := p1, phase2_Nodes := p2, phase3_Node := p3\<rparr>)
      else Some (FRE_SUCCESS,
        a\<lparr>phase0_Nodes := p0, filtset := fs, phase1_Nodes := p1, phase2_Nodes := p2, phase3_Node := p3\<rparr>) } } } }"
    by (simp add: pre_acl_lookup_by_tuple_def Let_def cong: if_cong)
  show ?thesis
    unfolding unfolded
  proof (rule run_outcome_bind2 [OF phase0_outcome [OF ok m(1,2)]], simp only: prod.case, elim conjE, hypsubst,
      rule run_outcome_bind, erule phase1_outcome [OF _ m(3,4)],
      rule run_outcome_bind, erule (1) phase2_outcome [OF _ _ m(5,6)],
      rule run_outcome_bind, erule phase3_outcome [OF _ m(7) ok])
    fix p0 p1 p2 p3
    assume "phase0_done ?fs p0" "phase1_done (unat (numFilters ?fs)) p0 p1"
      "phase2_done (unat (numFilters ?fs)) p0 p1 p2" "phase3_done ?fs p2 p3"
    then show "run_outcome (unat (numFilters ?fs)) ?P (Some (FRE_SUCCESS,
        a\<lparr>phase0_Nodes := p0, filtset := synced ?fs, phase1_Nodes := p1, phase2_Nodes := p2, phase3_Node := p3\<rparr>))"
      by (simp add: run_outcome_def compiled_def)
  qed
qed

subsection \<open>Looking up a header\<close>

lemma lookup_phase0:
  assumes "phase0_done fs p0" "com < 7" "v < PORT_SPACE"
  shows "arr_get p0 com = Some (p0 ! com)" "arr_get (cell (p0 ! com)) v = Some (cell (p0 ! com) ! v)"
    "named (listEqs (p0 ! com)) (cell (p0 ! com) ! v) (covers fs com v)"
  using assms node_table_named by (auto simp: phase0_done_def node_table_def)

lemma lookup_pair:
  assumes p: "pair_table n l1 l2 p" and e: "named l1 e1 S" "named l2 e2 T"
  shows "arr_get (rcell p) (unat (rfc_index e1 l2 e2)) = Some (rcell p ! (unat (rfc_index e1 l2 e2)))"
    and "named (rlistEqs p) (rcell p ! (unat (rfc_index e1 l2 e2))) (\<lambda>i. S i \<and> T i)"
  using pair_index [OF e] p pair_table_named [OF p e] by (auto simp: rfc_index_unat pair_table_def)

lemma compiled_lookup:
  assumes c: "compiled fs a" and ok: "filters_ok fs"
  shows "acl_lookup_by_tuple (phase0_Nodes a) (phase1_Nodes a) (phase2_Nodes a) (phase3_Node a)
           siph sipl diph dipl sp dp proto = Some (classify fs (header_fields siph sipl diph dipl sp dp proto))"
proof -
  let ?p0 = "phase0_Nodes a" and ?p1 = "phase1_Nodes a" and ?p2 = "phase2_Nodes a" and ?p3 = "phase3_Node a"
  let ?h = "header_fields siph sipl diph dipl sp dp proto"
  have d0: "phase0_done fs ?p0" and d1: "phase1_done (unat (numFilters fs)) ?p0 ?p1"
    and d2: "phase2_done (unat (numFilters fs)) ?p0 ?p1 ?p2"
    and d3: "phase3_done fs ?p2 ?p3" using c by (simp_all add: compiled_def)
  have proto: "unat proto < PORT_SPACE" using unat_u8 [of proto] by (simp add: c_consts)
  have port: "unat (w :: u16) < PORT_SPACE" for w using unat_u16 [of w] by (simp add: c_consts)
  note f0 = lookup_phase0 [OF d0 _ port [of siph], of 0, simplified] and f1 = lookup_phase0 [OF d0 _ port [of sipl], of 1, simplified]
    and f2 = lookup_phase0 [OF d0 _ port [of diph], of 2, simplified] and f3 = lookup_phase0 [OF d0 _ port [of dipl], of 3, simplified]
    and f4 = lookup_phase0 [OF d0 _ port [of sp], of 4, simplified] and f5 = lookup_phase0 [OF d0 _ port [of dp], of 5, simplified]
    and f6 = lookup_phase0 [OF d0 _ proto, of 6, simplified]
  have t1: "pair_table (unat (numFilters fs)) (listEqs (?p0 ! 0)) (listEqs (?p0 ! Suc 0)) (?p1 ! 0)"
    "pair_table (unat (numFilters fs)) (listEqs (?p0 ! 2)) (listEqs (?p0 ! 3)) (?p1 ! Suc 0)"
    "pair_table (unat (numFilters fs)) (listEqs (?p0 ! 4)) (listEqs (?p0 ! 5)) (?p1 ! 2)"
    and g1: "arr_get ?p1 0 = Some (?p1 ! 0)" "arr_get ?p1 (Suc 0) = Some (?p1 ! Suc 0)" "arr_get ?p1 2 = Some (?p1 ! 2)"
    using d1 by (simp_all add: phase1_done_def all_less_3)
  note e7 = lookup_pair [OF t1(1) f0(3) f1(3)] and e8 = lookup_pair [OF t1(2) f2(3) f3(3)]
    and e9 = lookup_pair [OF t1(3) f4(3) f5(3)]
  have t2: "pair_table (unat (numFilters fs)) (rlistEqs (?p1 ! 0)) (rlistEqs (?p1 ! Suc 0)) (?p2 ! 0)"
    "pair_table (unat (numFilters fs)) (rlistEqs (?p1 ! 2)) (listEqs (?p0 ! 6)) (?p2 ! Suc 0)"
    and g2: "arr_get ?p2 0 = Some (?p2 ! 0)" "arr_get ?p2 (Suc 0) = Some (?p2 ! Suc 0)"
    using d2 by (simp_all add: phase2_done_def)
  note e10 = lookup_pair [OF t2(1) e7(2) e8(2)] and e11 = lookup_pair [OF t2(2) e9(2) f6(3)]
  have t3: "tag_table (\<lambda>i. ucast (fl_cost (filtArr fs ! i))) (rlistEqs (?p2 ! 0)) (rlistEqs (?p2 ! Suc 0)) ?p3"
    using d3 by (simp add: phase3_done_def)
  note e12 = tag_table_lookup [OF t3 e10(2) e11(2), folded rfc_index_unat]
  have "(\<lambda>i. ((covers fs 0 (unat siph) i \<and> covers fs (Suc 0) (unat sipl) i) \<and> covers fs 2 (unat diph) i \<and> covers fs 3 (unat dipl) i) \<and>
          (covers fs 4 (unat sp) i \<and> covers fs 5 (unat dp) i) \<and> covers fs 6 (unat proto) i) =
        (\<lambda>i. \<forall>com < 7. covers fs com (?h ! com) i)"
    by (auto simp: all_less_7 header_fields_def)
  then have cls: "ucast (fl_cost (filtArr fs ! (case first_index (\<lambda>i. ((covers fs 0 (unat siph) i \<and> covers fs (Suc 0) (unat sipl) i) \<and>
      covers fs 2 (unat diph) i \<and> covers fs 3 (unat dipl) i) \<and> (covers fs 4 (unat sp) i \<and> covers fs 5 (unat dp) i) \<and>
      covers fs 6 (unat proto) i) [0..<MPP_MAX_FILTERS] of None \<Rightarrow> MPP_MAX_FILTERS - 1 | Some i \<Rightarrow> i))) = classify fs ?h"
    using classify_first_index [OF ok, of ?h] by (simp add: header_fields_def split: option.splits)
  show ?thesis
    using f0 f1 f2 f3 f4 f5 f6 g1 g2 e7 e8 e9 e10 e11 e12(1) e12(2) [unfolded cls]
    by (simp add: acl_lookup_by_tuple_def Let_def)
qed

section \<open>The filter set as a sorted table\<close>

text \<open>The filters in use, and the part of the invariant that keeps every counter access in range.\<close>

definition live :: "FILTSET \<Rightarrow> FILTER list" where
  "live fs = take (unat (numFilters fs)) (filtArr fs)"

definition counters_ok :: "FILTSET \<Rightarrow> bool" where
  "counters_ok fs \<longleftrightarrow> length (pkt_num fs) = MPP_MAX_RFC_STAT \<and> length (pkt_bytes fs) = MPP_MAX_RFC_STAT \<and>
     list_all (\<lambda>f. unat (fl_cost f) < MPP_MAX_RFC_STAT) (filtArr fs)"

definition filtset_wf :: "FILTSET \<Rightarrow> bool" where
  "filtset_wf fs \<longleftrightarrow> filters_ok fs \<and> counters_ok fs \<and> sorted_wrt (<) (map fl_cost (live fs)) \<and>
     list_all (\<lambda>f. f = blank_filter) (drop (unat (numFilters fs)) (filtArr fs))"

lemma wf_split:
  assumes "filtset_wf fs"
  shows "filtArr fs = live fs @ replicate (MPP_MAX_FILTERS - unat (numFilters fs)) blank_filter"
    and "length (live fs) = unat (numFilters fs)"
proof -
  have "length (drop (unat (numFilters fs)) (filtArr fs)) = MPP_MAX_FILTERS - unat (numFilters fs)"
    using assms by (simp add: filtset_wf_def filters_ok_def)
  moreover have "drop (unat (numFilters fs)) (filtArr fs) =
      replicate (length (drop (unat (numFilters fs)) (filtArr fs))) blank_filter"
    using assms by (metis (mono_tags) filtset_wf_def list.pred_set replicate_eqI)
  ultimately show "filtArr fs = live fs @ replicate (MPP_MAX_FILTERS - unat (numFilters fs)) blank_filter"
    unfolding live_def by (metis append_take_drop_id)
  show "length (live fs) = unat (numFilters fs)"
    using assms by (simp add: live_def filtset_wf_def filters_ok_def)
qed

lemma wf_intro:
  assumes "filtArr fs = xs @ replicate (MPP_MAX_FILTERS - length xs) blank_filter"
    and "length xs \<le> MPP_MAX_FILTERS" "unat (numFilters fs) = length xs"
    and "length (pkt_num fs) = MPP_MAX_RFC_STAT" "length (pkt_bytes fs) = MPP_MAX_RFC_STAT"
    and "sorted_wrt (<) (map fl_cost xs)"
    and "\<And>f. f \<in> set xs \<Longrightarrow> dims_ok f \<and> unat (fl_cost f) < MPP_MAX_RFC_STAT"
  shows "filtset_wf fs \<and> live fs = xs"
proof -
  have "dims_ok blank_filter \<and> unat (fl_cost blank_filter) < MPP_MAX_RFC_STAT"
    by (simp add: blank_filter_def dims_ok_def list_all_length c_consts)
  with assms show ?thesis
    by (auto simp: filtset_wf_def filters_ok_def counters_ok_def live_def list_all_iff)
qed

lemma wf_live_ok: "filtset_wf fs \<Longrightarrow> f \<in> set (live fs) \<Longrightarrow> dims_ok f \<and> unat (fl_cost f) < MPP_MAX_RFC_STAT"
  by (auto simp: filtset_wf_def filters_ok_def counters_ok_def list_all_iff live_def dest: in_set_takeD)

lemma scan_filters_wf:
  assumes "filtset_wf fs"
  shows "scan_filters p fs = Some (first_index (\<lambda>i. p (live fs ! i)) [0..<length (live fs)])"
proof -
  have "unat (numFilters fs) \<le> length (filtArr fs)"
    using assms by (simp add: filtset_wf_def filters_ok_def)
  moreover have "first_index (\<lambda>i. p (filtArr fs ! i)) [0..<unat (numFilters fs)] =
      first_index (\<lambda>i. p (live fs ! i)) [0..<unat (numFilters fs)]"
    by (rule first_index_cong) (simp add: live_def)
  ultimately show ?thesis
    by (simp add: scan_filters_def Let_def wf_split(2) [OF assms] min_def split: option.split)
qed

subsection \<open>The moving loops\<close>

lemma move_slot_spec:
  assumes ok: "counters_ok fs" and i: "src < length (filtArr fs)" "dst < length (filtArr fs)"
  shows "\<exists>fs'. move_slot src dst fs = Some fs' \<and> filtArr fs' = (filtArr fs)[dst := filtArr fs ! src] \<and>
     numFilters fs' = numFilters fs \<and> counters_ok fs' \<and>
     pkt_num fs' = (pkt_num fs)[unat (fl_cost (filtArr fs ! dst)) := pkt_num fs ! unat (fl_cost (filtArr fs ! src))]"
proof -
  have c: "unat (fl_cost (filtArr fs ! j)) < MPP_MAX_RFC_STAT" if "j < length (filtArr fs)" for j
    using ok that by (simp add: counters_ok_def list_all_length)
  have "list_all (\<lambda>f. unat (fl_cost f) < MPP_MAX_RFC_STAT) ((filtArr fs)[dst := filtArr fs ! src])"
    using ok i c [OF i(1)] by (auto simp: counters_ok_def list_all_length nth_list_update)
  with ok i c show ?thesis
    by (simp add: move_slot_def copy_counters_def counters_ok_def)
qed

definition shifted :: "FILTSET \<Rightarrow> (nat \<Rightarrow> nat) \<Rightarrow> FILTSET \<Rightarrow> bool" where
  "shifted fs g fs' \<longleftrightarrow> counters_ok fs' \<and> numFilters fs' = numFilters fs \<and>
     length (filtArr fs') = length (filtArr fs) \<and> (\<forall>m < length (filtArr fs). filtArr fs' ! m = filtArr fs ! g m)"

lemma shift_back:
  assumes ok: "counters_ok fs" and i: "i \<le> n" "n < length (filtArr fs)"
  shows "\<exists>fs'. for_each (rev [i..<n]) (\<lambda>j. move_slot j (j + 1)) fs = Some fs' \<and>
           shifted fs (\<lambda>m. if i < m \<and> m \<le> n then m - 1 else m) fs'"
proof -
  let ?P = "\<lambda>k. shifted fs (\<lambda>m. if n - k < m \<and> m \<le> n then m - 1 else m)"
  have "\<exists>fs'. for_each (rev [i..<n]) (\<lambda>j. move_slot j (j + 1)) fs = Some fs' \<and> ?P (length (rev [i..<n])) fs'"
  proof (rule for_each_total)
    show "?P 0 fs" using ok by (auto simp: shifted_def)
    fix k x assume k: "k < length (rev [i..<n])" and P: "?P k x"
    let ?j = "n - Suc k"
    have j: "rev [i..<n] ! k = ?j" "Suc ?j = n - k" "?j < n" using k by (simp_all add: rev_nth)
    have b: "counters_ok x" "?j < length (filtArr x)" "n - k < length (filtArr x)"
      using P i j by (auto simp: shifted_def)
    obtain y where y: "move_slot ?j (n - k) x = Some y" "filtArr y = (filtArr x)[n - k := filtArr x ! ?j]"
      "numFilters y = numFilters x" "counters_ok y"
      using move_slot_spec [OF b] by blast
    have "?P (Suc k) y"
      using P y k i j(2) by (auto simp: shifted_def nth_list_update)
    with y j show "\<exists>y. move_slot (rev [i..<n] ! k) (rev [i..<n] ! k + 1) x = Some y \<and> ?P (Suc k) y"
      by auto
  qed
  then show ?thesis using i by simp
qed

lemma shift_forward:
  assumes ok: "counters_ok fs" and n: "n < length (filtArr fs)"
  shows "\<exists>fs'. for_each [i..<n] (\<lambda>j. move_slot (j + 1) j) fs = Some fs' \<and>
           shifted fs (\<lambda>m. if i \<le> m \<and> m < n then m + 1 else m) fs'"
proof (cases "i \<le> n")
  case i: True
  let ?P = "\<lambda>k. shifted fs (\<lambda>m. if i \<le> m \<and> m < i + k then m + 1 else m)"
  have "\<exists>fs'. for_each [i..<n] (\<lambda>j. move_slot (j + 1) j) fs = Some fs' \<and> ?P (length [i..<n]) fs'"
  proof (rule for_each_total)
    show "?P 0 fs" using ok by (auto simp: shifted_def)
    fix k x assume k: "k < length [i..<n]" and P: "?P k x"
    have b: "counters_ok x" "i + k + 1 < length (filtArr x)" "i + k < length (filtArr x)"
      using P n k by (auto simp: shifted_def)
    obtain y where y: "move_slot (i + k + 1) (i + k) x = Some y"
      "filtArr y = (filtArr x)[i + k := filtArr x ! (i + k + 1)]"
      "numFilters y = numFilters x" "counters_ok y"
      using move_slot_spec [OF b] by blast
    have "?P (Suc k) y"
      using P y k n by (auto simp: shifted_def nth_list_update)
    with y k show "\<exists>y. move_slot ([i..<n] ! k + 1) ([i..<n] ! k) x = Some y \<and> ?P (Suc k) y"
      by auto
  qed
  then show ?thesis using i by simp
qed (use ok in \<open>auto simp: shifted_def\<close>)

subsection \<open>Setting a filter\<close>

text \<open>The rule stored under a tag.\<close>

definition rule_map :: "FILTSET \<Rightarrow> u16 \<Rightarrow> FILTER option" where
  "rule_map fs tag = List.find (\<lambda>f. fl_cost f = ucast tag) (live fs)"

lemma new_filter_cost [simp]: "fl_cost (new_filter t a) = ucast t"
  by (simp add: new_filter_def case_prod_beta Let_def)

lemma upt_4: "[0..<4] = [0, 1, 2, 3 :: nat]"
  by (simp add: upt_rec)

lemma acl_readiprange_spec:
  "acl_readiprange ip =
     (if ip = 0 then ((0, 65535), (0, 65535))
      else ((drop_bit 16 ip, drop_bit 16 ip), (take_bit 16 ip, take_bit 16 ip)))"
proof (cases "ip = 0")
  case True
  then show ?thesis unfolding acl_readiprange_def upt_4 Let_def by (simp add: upt_4)
next
  case False
  have byte: "push_bit 8 (drop_bit (k + 8) ip AND 0xff) + (drop_bit k ip AND 0xff) = take_bit 16 (drop_bit k ip)" for k
  proof -
    have ff: "(0xff :: u32) = mask 8" by (simp add: mask_eq_exp_minus_1)
    have "push_bit 8 (drop_bit (k + 8) ip AND 0xff) + (drop_bit k ip AND 0xff) =
        push_bit 8 (drop_bit (k + 8) ip AND 0xff) OR (drop_bit k ip AND 0xff)"
      by (rule disjunctive_add) (auto simp: ff bit_simps)
    also have "\<dots> = take_bit 16 (drop_bit k ip)"
      by (rule bit_word_eqI) (auto simp: ff bit_simps)
    finally show ?thesis .
  qed
  have "take_bit 16 (drop_bit 16 ip) = drop_bit 16 ip"
    by (rule bit_word_eqI) (auto simp: bit_simps dest: bit_imp_le_length)
  with False byte [of 16] byte [of 0] show ?thesis
    unfolding acl_readiprange_def upt_4 Let_def by simp
qed

lemma dims_ok_new_filter: "dims_ok (new_filter t a)"
proof -
  have "unat (drop_bit 16 ip) < 65536" for ip :: u32
    using unat_u32 [of ip] by (simp add: drop_bit_eq_div unat_div)
  moreover have "unat (take_bit 16 ip) < 65536" for ip :: u32
    by (simp add: take_bit_eq_mod unat_mod)
  moreover have "unat (w :: u16) < 65536" for w by (rule unat_u16)
  ultimately show ?thesis
    by (auto simp: dims_ok_def new_filter_def Let_def acl_readiprange_spec acl_ReadPort_def
        acl_ReadProtocol_def c_consts)
qed

lemma setfilter_spec:
  assumes "unat index < length (filtArr fs)" "unat targetid < length (pkt_num fs)" "unat targetid < length (pkt_bytes fs)"
  shows "setfilter fs index targetid a cover = Some (fs\<lparr>
     numFilters := (if cover then numFilters fs else numFilters fs + 1),
     filtArr := (filtArr fs)[unat index := new_filter targetid a],
     pkt_num := (pkt_num fs)[unat targetid := 0], pkt_bytes := (pkt_bytes fs)[unat targetid := 0]\<rparr>)"
  using assms by (simp add: setfilter_def)

text \<open>What setting a filter leaves: the live filters \<open>xs\<close>, in a well-formed set.\<close>

lemma setfilter_wf:
  assumes "setfilter fs index t a cover = Some fs'" and "counters_ok fs" and "unat t < MPP_MAX_RFC_STAT"
    and "unat index < length (filtArr fs)"
    and "unat (if cover then numFilters fs else numFilters fs + 1) = length xs" "length xs \<le> MPP_MAX_FILTERS"
    and "(filtArr fs)[unat index := new_filter t a] = xs @ replicate (MPP_MAX_FILTERS - length xs) blank_filter"
    and "sorted_wrt (<) (map fl_cost xs)" "\<And>f. f \<in> set xs \<Longrightarrow> dims_ok f \<and> unat (fl_cost f) < MPP_MAX_RFC_STAT"
  shows "filtset_wf fs' \<and> live fs' = xs"
proof (rule wf_intro)
  have *: "fs' = fs\<lparr>numFilters := (if cover then numFilters fs else numFilters fs + 1),
     filtArr := (filtArr fs)[unat index := new_filter t a],
     pkt_num := (pkt_num fs)[unat t := 0], pkt_bytes := (pkt_bytes fs)[unat t := 0]\<rparr>"
    using assms(1) setfilter_spec [of index fs t a cover] assms(2-4) by (simp add: counters_ok_def)
  show "filtArr fs' = xs @ replicate (MPP_MAX_FILTERS - length xs) blank_filter" using * assms(7) by simp
  show "unat (numFilters fs') = length xs" using * assms(5) by simp
  show "length (pkt_num fs') = MPP_MAX_RFC_STAT" "length (pkt_bytes fs') = MPP_MAX_RFC_STAT"
    using * assms(2) by (simp_all add: counters_ok_def)
qed (use assms in auto)

lemma numFilters_inc:
  "unat (numFilters fs) < MPP_MAX_FILTERS \<Longrightarrow> unat (numFilters fs + 1) = Suc (unat (numFilters fs))"
  by (simp add: unat_word_ariths c_consts)

text \<open>Inserting before position \<open>i\<close>: the array after the moves and the write.\<close>

lemma insert_array:
  fixes f :: FILTER
  assumes wf: "filtset_wf fs" and room: "unat (numFilters fs) < MPP_MAX_FILTERS"
    and i: "i \<le> length (live fs)"
    and sh: "shifted fs (\<lambda>m. if i < m \<and> m \<le> length (live fs) then m - 1 else m) fs1"
  defines "xs \<equiv> take i (live fs) @ f # drop i (live fs)"
  shows "(filtArr fs1)[i := f] = xs @ replicate (MPP_MAX_FILTERS - length xs) blank_filter"
proof (rule nth_equalityI)
  let ?n = "length (live fs)"
  have n: "?n < MPP_MAX_FILTERS" "length xs = Suc ?n" using room i by (simp_all add: xs_def wf_split(2) [OF wf])
  have arr: "filtArr fs = live fs @ replicate (MPP_MAX_FILTERS - ?n) blank_filter"
    using wf_split [OF wf] by simp
  have len: "length (filtArr fs1) = MPP_MAX_FILTERS" "length (filtArr fs) = MPP_MAX_FILTERS"
    using sh wf by (simp_all add: shifted_def filtset_wf_def filters_ok_def)
  then show "length ((filtArr fs1)[i := f]) = length (xs @ replicate (MPP_MAX_FILTERS - length xs) blank_filter)"
    using n by simp
  fix m assume "m < length ((filtArr fs1)[i := f])"
  then have m: "m < MPP_MAX_FILTERS" using len by simp
  have src: "filtArr fs1 ! m = filtArr fs ! (if i < m \<and> m \<le> ?n then m - 1 else m)"
    using sh m len by (simp add: shifted_def)
  consider "m < i" | "m = i" | "i < m" "m \<le> ?n" | "?n < m" using i by linarith
  then show "(filtArr fs1)[i := f] ! m = (xs @ replicate (MPP_MAX_FILTERS - length xs) blank_filter) ! m"
  proof cases
    case 1
    then show ?thesis using src i by (simp add: xs_def arr nth_append)
  next
    case 2
    then show ?thesis using i m len by (simp add: xs_def nth_append)
  next
    case 3
    then have "i + (m - i - 1) = m - 1" "m - 1 < ?n" by linarith+
    with 3 show ?thesis using src i by (simp add: xs_def arr nth_append nth_Cons')
  next
    case 4
    then show ?thesis using src i m n by (simp add: arr nth_append)
  qed
qed

lemma mid_sorted:
  assumes "sorted_wrt (<) (map k xs)" "i < length xs"
  shows "\<forall>x \<in> set (drop i xs). k (xs ! i) \<le> (k x :: 'k::linorder)"
proof
  fix x assume "x \<in> set (drop i xs)"
  then obtain j where "j < length (drop i xs)" "x = drop i xs ! j" by (metis in_set_conv_nth)
  then have j: "i + j < length xs" "x = xs ! (i + j)" by simp_all
  show "k (xs ! i) \<le> k x"
  proof (cases "j = 0")
    case False
    then show ?thesis using assms j sorted_wrt_nth_less [OF assms(1), of i "i + j"] by auto
  qed (use j in simp)
qed

lemma find_key_between:
  assumes "\<forall>x \<in> set (take i xs). k x < t" "\<forall>x \<in> set (drop i xs). t < (k x :: 'k::linorder)"
  shows "List.find (\<lambda>x. k x = t) xs = None"
proof -
  have "set xs = set (take i xs) \<union> set (drop i xs)" by (metis append_take_drop_id set_append)
  with assms show ?thesis by (auto simp: find_None_iff)
qed

lemma wf_facts:
  assumes "filtset_wf fs"
  shows "counters_ok fs" "length (filtArr fs) = MPP_MAX_FILTERS" "unat (numFilters fs) \<le> MPP_MAX_FILTERS"
    "sorted_wrt (<) (map fl_cost (live fs))" "length (live fs) = unat (numFilters fs)"
    "i < unat (numFilters fs) \<Longrightarrow> filtArr fs ! i = live fs ! i"
  using assms wf_split(2) [OF assms] by (simp_all add: filtset_wf_def filters_ok_def live_def)

lemma new_filter_ok: "unat t < MPP_MAX_RFC_STAT \<Longrightarrow> dims_ok (new_filter t a) \<and> unat (fl_cost (new_filter t a)) < MPP_MAX_RFC_STAT"
  using dims_ok_new_filter by simp

lemma insert_at:
  assumes wf: "filtset_wf fs" and t: "unat t < MPP_MAX_RFC_STAT" and room: "unat (numFilters fs) < MPP_MAX_FILTERS"
    and i: "i \<le> length (live fs)" and lt: "\<forall>x \<in> set (take i (live fs)). fl_cost x < ucast t"
    and gt: "\<forall>x \<in> set (drop i (live fs)). ucast t < fl_cost x"
    and sh: "shifted fs (\<lambda>m. if i < m \<and> m \<le> length (live fs) then m - 1 else m) fs1"
  shows "\<exists>fs'. setfilter fs1 (of_nat i) t a False = Some fs' \<and> filtset_wf fs' \<and>
           live fs' = take i (live fs) @ new_filter t a # drop i (live fs)"
proof -
  let ?ys = "take i (live fs) @ new_filter t a # drop i (live fs)"
  note f = wf_facts [OF wf]
  have iM: "i < MPP_MAX_FILTERS" using room i f(5) by simp
  have idx: "unat (of_nat i :: u16) = i" using iM by (simp add: unat_of_nat c_consts)
  obtain fs' where s: "setfilter fs1 (of_nat i) t a False = Some fs'"
    using setfilter_spec [of "of_nat i" fs1 t a False] sh t iM f(2) idx by (auto simp: shifted_def counters_ok_def)
  have "filtset_wf fs' \<and> live fs' = ?ys"
  proof (rule setfilter_wf [OF s _ t])
    show "(filtArr fs1)[unat (of_nat i :: u16) := new_filter t a] =
        ?ys @ replicate (MPP_MAX_FILTERS - length ?ys) blank_filter"
      unfolding idx by (rule insert_array [OF wf room i sh])
    show "sorted_wrt (<) (map fl_cost ?ys)"
      unfolding sorted_key_middle using lt gt f(4) by simp
    show "\<And>f. f \<in> set ?ys \<Longrightarrow> dims_ok f \<and> unat (fl_cost f) < MPP_MAX_RFC_STAT"
      using new_filter_ok [OF t] wf_live_ok [OF wf] by (auto dest: in_set_takeD in_set_dropD)
  qed (use sh f iM idx i room in \<open>simp_all add: shifted_def numFilters_inc\<close>)
  with s show ?thesis by blast
qed

lemma cover_at:
  assumes wf: "filtset_wf fs" and t: "unat t < MPP_MAX_RFC_STAT"
    and i: "i < length (live fs)" and eq: "fl_cost (live fs ! i) = ucast t"
  shows "\<exists>fs'. setfilter fs (of_nat i) t a True = Some fs' \<and> filtset_wf fs' \<and>
           live fs' = take i (live fs) @ new_filter t a # drop (Suc i) (live fs)"
proof -
  let ?xs = "live fs"
  let ?ys = "take i ?xs @ new_filter t a # drop (Suc i) ?xs"
  note f = wf_facts [OF wf]
  have split: "?xs = take i ?xs @ ?xs ! i # drop (Suc i) ?xs" using i by (rule id_take_nth_drop)
  have idx: "unat (of_nat i :: u16) = i" using i f(3,5) by (simp add: unat_of_nat c_consts)
  obtain fs' where s: "setfilter fs (of_nat i) t a True = Some fs'"
    using setfilter_spec [of "of_nat i" fs t a True] t i f idx by (auto simp: counters_ok_def)
  have upd: "(filtArr fs)[i := new_filter t a] = ?ys @ replicate (MPP_MAX_FILTERS - length ?ys) blank_filter"
    unfolding wf_split(1) [OF wf] using i f(5) by (simp add: list_update_append upd_conv_take_nth_drop)
  have "filtset_wf fs' \<and> live fs' = ?ys"
  proof (rule setfilter_wf [OF s f(1) t])
    have "sorted_wrt (<) (map fl_cost (take i ?xs @ ?xs ! i # drop (Suc i) ?xs))"
      using f(4) split by simp
    then show "sorted_wrt (<) (map fl_cost ?ys)" unfolding sorted_key_middle using eq by simp
    show "\<And>f. f \<in> set ?ys \<Longrightarrow> dims_ok f \<and> unat (fl_cost f) < MPP_MAX_RFC_STAT"
      using new_filter_ok [OF t] wf_live_ok [OF wf] by (auto dest: in_set_takeD in_set_dropD)
  qed (use upd idx i f in simp_all)
  with s show ?thesis by blast
qed

lemma acl_setfilter_live:
  assumes wf: "filtset_wf fs" and t: "unat t < MPP_MAX_RFC_STAT"
    and room: "rule_map fs t = None \<Longrightarrow> unat (numFilters fs) < MPP_MAX_FILTERS"
  obtains as bs fs' where "acl_setfilter fs t a = Some fs'" "filtset_wf fs'" "live fs' = as @ new_filter t a # bs"
    and "live fs = as @ bs \<and> rule_map fs t = None \<or> (\<exists>g. live fs = as @ g # bs \<and> fl_cost g = ucast t)"
proof -
  let ?xs = "live fs"
  note f = wf_facts [OF wf]
  let ?r = "first_index (\<lambda>i. ucast t \<le> fl_cost (?xs ! i)) [0..<length ?xs]"
  have scan: "scan_filters (\<lambda>f. ucast t \<le> fl_cost f) fs = Some ?r" by (rule scan_filters_wf [OF wf])
  show ?thesis
  proof (cases ?r)
    case None
    then have lt: "\<forall>x \<in> set ?xs. fl_cost x < ucast t" by (auto simp: first_index_None in_set_conv_nth not_le)
    have none: "rule_map fs t = None" unfolding rule_map_def using find_key_between [of "length ?xs" ?xs fl_cost "ucast t"] lt by simp
    have idx: "(ucast (numFilters fs) :: u16) = of_nat (length ?xs)" by (simp add: f(5))
    have "acl_setfilter fs t a = setfilter fs (of_nat (length ?xs)) t a False"
      using scan None by (simp add: acl_setfilter_def idx)
    moreover have "shifted fs (\<lambda>m. if length ?xs < m \<and> m \<le> length ?xs then m - 1 else m) fs"
      using f(1) by (auto simp: shifted_def)
    ultimately show ?thesis
      using insert_at [OF wf t room [OF none], of "length ?xs" fs a] lt none that [of _ ?xs "[]"] by auto
  next
    case (Some i)
    note i = first_index_split [OF Some]
    have lt: "\<forall>x \<in> set (take i ?xs). fl_cost x < ucast t" using i(4) by (simp add: not_le)
    have fi: "filtArr fs ! i = ?xs ! i" using i(1) f(5,6) by simp
    show ?thesis
    proof (cases "ucast t < fl_cost (?xs ! i)")
      case True
      have gt: "\<forall>x \<in> set (drop i ?xs). ucast t < fl_cost x"
        using mid_sorted [OF f(4) i(1)] True by (meson less_le_trans)
      have none: "rule_map fs t = None" unfolding rule_map_def by (rule find_key_between [OF lt gt])
      obtain fs1 where fs1: "for_each (rev [i..<unat (numFilters fs)]) (\<lambda>j. move_slot j (j + 1)) fs = Some fs1"
        "shifted fs (\<lambda>m. if i < m \<and> m \<le> length ?xs then m - 1 else m) fs1"
        using shift_back [OF f(1), of i "length ?xs"] i(1) f room [OF none] by auto
      have "acl_setfilter fs t a = setfilter fs1 (of_nat i) t a False"
        using scan Some True fs1(1) fi by (simp add: acl_setfilter_def)
      with insert_at [OF wf t room [OF none] _ lt gt fs1(2), of a] i(1) none that show ?thesis
        by (metis append_take_drop_id less_imp_le)
    next
      case False
      then have eq: "fl_cost (?xs ! i) = ucast t" using i(2) by simp
      have "acl_setfilter fs t a = setfilter fs (of_nat i) t a True"
        using scan Some False fi by (simp add: acl_setfilter_def)
      with cover_at [OF wf t i(1) eq, of a] eq i(3) that show ?thesis by metis
    qed
  qed
qed

text \<open>Setting a rule is a map update on the rules by tag, and keeps the invariant.\<close>

lemma rule_map_eq: "live fs' = live fs \<Longrightarrow> rule_map fs' = rule_map fs"
  by (simp add: rule_map_def fun_eq_iff)

lemma ucast_u16_u32_inject [simp]: "(ucast (s :: u16) :: u32) = ucast t \<longleftrightarrow> s = t"
  by (simp add: word_unat_eq_iff)

lemma ucast_u16_u32_u16 [simp]: "(ucast (ucast (t :: u16) :: u32) :: u16) = t"
  using unat_u16 [of t] by (simp add: word_unat_eq_iff unat_ucast_mod)

lemma rule_map_middle:
  assumes wf: "filtset_wf fs" and live: "live fs = as @ g # bs" and g: "fl_cost g = ucast t"
  shows "rule_map fs s = (if s = t then Some g else List.find (\<lambda>f. fl_cost f = ucast s) (as @ bs))"
proof -
  have "fl_cost g \<notin> fl_cost ` set (as @ bs)"
    using wf_facts(4) [OF wf] unfolding live by (rule sorted_key_notin)
  from find_key_middle [OF this, of "ucast s"] show ?thesis by (simp add: rule_map_def live g)
qed

lemma acl_setfilter_map:
  assumes "filtset_wf fs" "unat t < MPP_MAX_RFC_STAT"
    and "rule_map fs t = None \<Longrightarrow> unat (numFilters fs) < MPP_MAX_FILTERS"
  shows "\<exists>fs'. acl_setfilter fs t a = Some fs' \<and> filtset_wf fs' \<and> rule_map fs' = (rule_map fs)(t \<mapsto> new_filter t a) \<and>
    unat (numFilters fs') = unat (numFilters fs) + (if rule_map fs t = None then 1 else 0)"
proof -
  obtain as bs fs' where s: "acl_setfilter fs t a = Some fs'" "filtset_wf fs'" "live fs' = as @ new_filter t a # bs"
    and old: "live fs = as @ bs \<and> rule_map fs t = None \<or> (\<exists>g. live fs = as @ g # bs \<and> fl_cost g = ucast t)"
    by (rule acl_setfilter_live [OF assms, of a])
  note new = rule_map_middle [OF s(2,3) new_filter_cost]
  have "rule_map fs' u = ((rule_map fs)(t \<mapsto> new_filter t a)) u" for u
  proof -
    have "u \<noteq> t \<Longrightarrow> rule_map fs u = List.find (\<lambda>f. fl_cost f = ucast u) (as @ bs)"
      using old rule_map_middle [OF assms(1), of as _ bs t u] by (auto simp: rule_map_def)
    then show ?thesis by (simp add: new)
  qed
  moreover have "rule_map fs t \<noteq> None" if "live fs = as @ g # bs" "fl_cost g = ucast t" for g
    using rule_map_middle [OF assms(1) that, of t] by simp
  then have "unat (numFilters fs') = unat (numFilters fs) + (if rule_map fs t = None then 1 else 0)"
    using old s(3) wf_facts(5) [OF assms(1)] wf_facts(5) [OF s(2)] by auto
  ultimately show ?thesis using s by blast
qed

subsection \<open>Deleting a filter\<close>

lemma acl_initOneFilter_spec:
  assumes "counters_ok fs" "i < length (filtArr fs)"
  shows "\<exists>fs'. acl_initOneFilter_by_index fs i = Some fs' \<and> filtArr fs' = (filtArr fs)[i := blank_filter] \<and>
    numFilters fs' = numFilters fs \<and> length (pkt_num fs') = MPP_MAX_RFC_STAT \<and> length (pkt_bytes fs') = MPP_MAX_RFC_STAT"
  using assms by (simp add: acl_initOneFilter_by_index_def counters_ok_def list_all_length)

lemma nth_padding: "length ys \<le> m \<Longrightarrow> m < M \<Longrightarrow> (ys @ replicate (M - length ys) b) ! m = b"
  by (simp add: nth_append)

lemma remove_at_live:
  assumes wf: "filtset_wf fs" and i: "i < length (live fs)"
  shows "\<exists>fs'. remove_at fs i = Some fs' \<and> filtset_wf fs' \<and> live fs' = take i (live fs) @ drop (Suc i) (live fs)"
proof -
  let ?xs = "live fs" and ?n = "unat (numFilters fs)"
  let ?ys = "take i ?xs @ drop (Suc i) ?xs"
  note f = wf_facts [OF wf]
  have n: "0 < ?n" "?n - 1 < length (filtArr fs)" using i f by auto
  obtain fs1 where fs1: "for_each [i..<?n - 1] (\<lambda>j. move_slot (j + 1) j) fs = Some fs1"
    "shifted fs (\<lambda>m. if i \<le> m \<and> m < ?n - 1 then m + 1 else m) fs1"
    using shift_forward [OF f(1) n(2)] by blast
  obtain fs2 where fs2: "acl_initOneFilter_by_index fs1 (?n - 1) = Some fs2"
    "filtArr fs2 = (filtArr fs1)[?n - 1 := blank_filter]" "numFilters fs2 = numFilters fs1"
    "length (pkt_num fs2) = MPP_MAX_RFC_STAT" "length (pkt_bytes fs2) = MPP_MAX_RFC_STAT"
    using acl_initOneFilter_spec [of fs1 "?n - 1"] fs1(2) n(2) by (auto simp: shifted_def)
  have run: "remove_at fs i = Some (fs2\<lparr>numFilters := numFilters fs2 - 1\<rparr>)"
  proof (cases "i = ?n - 1")
    case True
    then show ?thesis using fs1(1) fs2(1) by (simp add: remove_at_def)
  next
    case False
    then show ?thesis using fs1 fs2(1) n(1)
      by (auto simp: remove_at_def move_Forward_Filter_from_index_def Let_def shifted_def)
  qed
  have arr: "filtArr fs2 = ?ys @ replicate (MPP_MAX_FILTERS - length ?ys) blank_filter"
  proof (rule nth_equalityI)
    have ly: "length ?ys = ?n - 1" using i f(5) by simp
    show len: "length (filtArr fs2) = length (?ys @ replicate (MPP_MAX_FILTERS - length ?ys) blank_filter)"
      using fs2(2) fs1(2) f(2,3) n ly by (simp add: shifted_def)
    fix m assume "m < length (filtArr fs2)"
    then have m: "m < MPP_MAX_FILTERS" "m < length (filtArr fs)" using fs2(2) fs1(2) f(2) by (simp_all add: shifted_def)
    have src: "filtArr fs1 ! m = filtArr fs ! (if i \<le> m \<and> m < ?n - 1 then m + 1 else m)"
      using fs1(2) m by (simp add: shifted_def)
    have blank: "filtArr fs ! m = blank_filter" if "?n \<le> m"
      using that m(1) f(5) unfolding wf_split(1) [OF wf] by (simp add: nth_append)
    consider "m < i" | "i \<le> m" "m < ?n - 1" | "m = ?n - 1" | "?n \<le> m" using i f(5) by linarith
    then show "filtArr fs2 ! m = (?ys @ replicate (MPP_MAX_FILTERS - length ?ys) blank_filter) ! m"
    proof cases
      case 1
      then show ?thesis using src fs2(2) f(5) f(6) [of m] i by (simp add: nth_append)
    next
      case 2
      then have "filtArr fs2 ! m = ?xs ! (m + 1)" using src fs2(2) f(6) [of "m + 1"] by simp
      with 2 show ?thesis using i f(5) by (simp add: nth_append)
    next
      case 3
      then have "filtArr fs2 ! m = blank_filter" using fs2(2) m(2) fs1(2) by (simp add: shifted_def)
      with 3 show ?thesis using nth_padding [of ?ys m MPP_MAX_FILTERS blank_filter] ly m(1) by simp
    next
      case 4
      then have "\<not> m < ?n - 1" "m \<noteq> ?n - 1" using n(1) by linarith+
      with 4 have "filtArr fs2 ! m = blank_filter" using fs2(2) src blank by simp
      with 4 show ?thesis using nth_padding [of ?ys m MPP_MAX_FILTERS blank_filter] ly m(1) by simp
    qed
  qed
  have cnt: "unat (numFilters fs2 - 1) = length ?ys"
    using fs2(3) fs1(2) n(1) i f(5) by (simp add: shifted_def unat_sub_if' word_le_nat_alt)
  have "filtset_wf (fs2\<lparr>numFilters := numFilters fs2 - 1\<rparr>) \<and> live (fs2\<lparr>numFilters := numFilters fs2 - 1\<rparr>) = ?ys"
  proof (rule wf_intro)
    have "sorted_wrt (<) (map fl_cost (take i ?xs @ ?xs ! i # drop (Suc i) ?xs))"
      using f(4) id_take_nth_drop [OF i] by simp
    then show "sorted_wrt (<) (map fl_cost ?ys)" unfolding sorted_key_middle by simp
    show "\<And>f. f \<in> set ?ys \<Longrightarrow> dims_ok f \<and> unat (fl_cost f) < MPP_MAX_RFC_STAT"
      using wf_live_ok [OF wf] by (auto dest: in_set_takeD in_set_dropD)
  qed (use arr cnt fs2 f i in simp_all)
  with run show ?thesis by blast
qed

lemma scan_tag:
  assumes wf: "filtset_wf fs"
  obtains (absent) "scan_filters (has_tag t) fs = Some None" "rule_map fs t = None"
  | (found) i where "scan_filters (has_tag t) fs = Some (Some i)" "i < length (live fs)"
      "fl_cost (live fs ! i) = ucast t" "rule_map fs t = Some (live fs ! i)"
proof (cases "first_index (\<lambda>i. has_tag t (live fs ! i)) [0..<length (live fs)]")
  case None
  then have "\<forall>x \<in> set (live fs). \<not> has_tag t x" by (auto simp: first_index_None in_set_conv_nth)
  then have "rule_map fs t = None" by (auto simp: rule_map_def find_None_iff has_tag_def)
  with None show ?thesis by (intro absent) (simp_all add: scan_filters_wf [OF wf])
next
  case (Some i)
  note i = first_index_split [OF Some]
  have eq: "fl_cost (live fs ! i) = ucast t" using i(2) by (simp add: has_tag_def)
  with rule_map_middle [OF wf i(3) eq, of t] show ?thesis
    using Some i(1) by (intro found) (simp_all add: scan_filters_wf [OF wf])
qed

lemma acl_DeleteOneFilter_map:
  assumes wf: "filtset_wf fs"
  shows "\<exists>fs'. acl_DeleteOneFilter_by_tagid fs t = Some (if rule_map fs t = None then FRE_NOTFOUND else FRE_SUCCESS, fs') \<and>
    filtset_wf fs' \<and> rule_map fs' = (rule_map fs)(t := None) \<and>
    unat (numFilters fs') = unat (numFilters fs) - (if rule_map fs t = None then 0 else 1)"
  using wf
proof (cases rule: scan_tag [where t = t])
  case absent
  then show ?thesis using wf by (auto simp: acl_DeleteOneFilter_by_tagid_def fun_upd_idem)
next
  case (found i)
  obtain fs' where fs': "remove_at fs i = Some fs'" "filtset_wf fs'"
    "live fs' = take i (live fs) @ drop (Suc i) (live fs)"
    using remove_at_live [OF wf found(2)] by blast
  have split: "live fs = take i (live fs) @ live fs ! i # drop (Suc i) (live fs)"
    using found(2) by (rule id_take_nth_drop)
  have gone: "rule_map fs' t = None"
    using sorted_key_notin [of fl_cost "take i (live fs)" "live fs ! i" "drop (Suc i) (live fs)"]
      split wf_facts(4) [OF wf] found(3) unfolding rule_map_def find_key_None fs'(3) by simp
  have "rule_map fs' u = ((rule_map fs)(t := None)) u" for u
    using gone rule_map_middle [OF wf split found(3), of u] by (simp add: rule_map_def fs'(3))
  moreover have "unat (numFilters fs') = unat (numFilters fs) - 1"
    using fs'(2,3) wf_facts(5) [OF wf] wf_facts(5) [OF fs'(2)] found(2) by simp
  ultimately show ?thesis
    using found fs' by (auto simp: acl_DeleteOneFilter_by_tagid_def)
qed

subsection \<open>What a rule accepts\<close>

text \<open>A rule field of 0 is a wildcard; a protocol wildcard covers the 8-bit protocols.\<close>

definition rule_matches :: "rule_args \<Rightarrow> u32 \<Rightarrow> u32 \<Rightarrow> u16 \<Rightarrow> u16 \<Rightarrow> u8 \<Rightarrow> bool" where
  "rule_matches a sip dip sp dp proto \<longleftrightarrow>
     (ra_sip a = 0 \<or> ra_sip a = sip) \<and> (ra_dip a = 0 \<or> ra_dip a = dip) \<and>
     (ra_sp a = 0 \<or> ra_sp a = sp) \<and> (ra_dp a = 0 \<or> ra_dp a = dp) \<and>
     (ra_protocol a = 0 \<or> ra_protocol a = ucast proto)"

text \<open>The seven fields of a packet, as \<^verbatim>\<open>frcore_rule_process\<close> passes them.\<close>

definition packet_fields :: "u32 \<Rightarrow> u32 \<Rightarrow> u16 \<Rightarrow> u16 \<Rightarrow> u8 \<Rightarrow> nat list" where
  "packet_fields sip dip sp dp proto =
     header_fields (ucast (drop_bit 16 sip)) (ucast sip) (ucast (drop_bit 16 dip)) (ucast dip) sp dp proto"

lemma ip_halves:
  fixes ip x :: u32
  shows "ip = x \<longleftrightarrow> unat (drop_bit 16 ip) = unat (ucast (drop_bit 16 x) :: u16) \<and>
           unat (take_bit 16 ip) = unat (ucast x :: u16)"
proof -
  have "unat (drop_bit 16 x) = unat x div 65536" for x :: u32 by (simp add: drop_bit_eq_div unat_div)
  moreover have "unat (take_bit 16 x) = unat x mod 65536" for x :: u32 by (simp add: take_bit_eq_mod unat_mod)
  moreover have "unat x div 65536 mod 65536 = unat x div 65536" using unat_u32 [of x] by simp
  ultimately show ?thesis
    by (simp add: unat_ucast_mod word_unat_eq_iff) (metis div_mult_mod_eq)
qed

lemma ip_field:
  "in_range (fst (acl_readiprange ip)) (unat (ucast (drop_bit 16 x) :: u16)) \<and>
   in_range (snd (acl_readiprange ip)) (unat (ucast x :: u16)) \<longleftrightarrow> ip = 0 \<or> ip = x"
proof (cases "ip = 0")
  case True
  then show ?thesis
    using unat_u16 [of "ucast (drop_bit 16 x)"] unat_u16 [of "ucast x"]
    by (simp add: acl_readiprange_spec in_range_def)
next
  case False
  then show ?thesis
    unfolding ip_halves [of ip x] by (auto simp: acl_readiprange_spec in_range_def)
qed

lemma port_field: "in_range (acl_ReadPort p) (unat v) \<longleftrightarrow> p = 0 \<or> p = v"
  using unat_u16 [of v] by (auto simp: acl_ReadPort_def in_range_def word_unat_eq_iff)

lemma proto_field: "in_range (acl_ReadProtocol p) (unat (v :: u8)) \<longleftrightarrow> p = 0 \<or> p = ucast v"
proof -
  have "ACL_PROTOCOL_ANY = ucast p \<longleftrightarrow> p = 0" by (auto simp: c_consts word_unat_eq_iff)
  then show ?thesis
    using unat_u8 [of v] by (auto simp: acl_ReadProtocol_def Let_def in_range_def word_unat_eq_iff)
qed

lemma accepts_new_filter:
  "accepts (new_filter t a) (packet_fields sip dip sp dp proto) \<longleftrightarrow> rule_matches a sip dip sp dp proto"
  unfolding rule_matches_def
    ip_field [of "ra_sip a" sip, symmetric] ip_field [of "ra_dip a" dip, symmetric]
    port_field [of "ra_sp a" sp, symmetric] port_field [of "ra_dp a" dp, symmetric]
    proto_field [of "ra_protocol a" proto, symmetric]
  by (auto simp: accepts_def new_filter_def case_prod_beta packet_fields_def header_fields_def)

subsection \<open>The counters under the moves\<close>

text \<open>The counters are indexed by tag, and the moving loop copies them from tag to tag: a filter above the
  insertion point receives the count of the filter below it.\<close>

definition counts_shifted :: "FILTSET \<Rightarrow> nat \<Rightarrow> nat \<Rightarrow> FILTSET \<Rightarrow> bool" where
  "counts_shifted fs n j x \<longleftrightarrow> (\<forall>m < n. pkt_num x ! unat (fl_cost (filtArr fs ! m)) =
     pkt_num fs ! unat (fl_cost (filtArr fs ! (if j < m then m - 1 else m))))"

lemma move_slot_counts:
  assumes inj: "inj_on (\<lambda>m. fl_cost (filtArr fs ! m)) {..n}" and n: "n < length (filtArr fs)" and j: "j < n"
    and x: "counters_ok x" "length (filtArr x) = length (filtArr fs)"
      "filtArr x ! j = filtArr fs ! j" "filtArr x ! (j + 1) = filtArr fs ! (j + 1)"
    and c: "counts_shifted fs n (j + 1) x" and y: "move_slot j (j + 1) x = Some y"
  shows "counts_shifted fs n j y"
proof -
  let ?c = "\<lambda>m. unat (fl_cost (filtArr fs ! m))"
  obtain y' where "move_slot j (j + 1) x = Some y'" "counters_ok y'"
    and pn: "pkt_num y' = (pkt_num x)[?c (j + 1) := pkt_num x ! ?c j]"
    using move_slot_spec [OF x(1), of j "j + 1"] x j n by auto
  with y have y': "y' = y" by simp
  have b: "?c (j + 1) < length (pkt_num x)"
  proof -
    have "j + 1 < length (filtArr x)" using j n x(2) by simp
    then show ?thesis using x(1,4) unfolding counters_ok_def list_all_length by metis
  qed
  have ne: "m \<le> n \<Longrightarrow> m \<noteq> j + 1 \<Longrightarrow> ?c m \<noteq> ?c (j + 1)" for m
    using inj_onD [OF inj, of m "j + 1"] j by (auto simp: word_unat_eq_iff)
  show ?thesis
    unfolding counts_shifted_def
  proof (intro allI impI)
    fix m assume m: "m < n"
    show "pkt_num y ! ?c m = pkt_num fs ! ?c (if j < m then m - 1 else m)"
    proof (cases "m = j + 1")
      case True
      then show ?thesis using b pn y' c j by (simp add: counts_shifted_def)
    next
      case False
      then have "pkt_num y ! ?c m = pkt_num x ! ?c m" using pn y' ne [of m] m by simp
      with False m c show ?thesis by (auto simp: counts_shifted_def)
    qed
  qed
qed

lemma shift_back_counts:
  assumes ok: "counters_ok fs" and i: "i \<le> n" "n < length (filtArr fs)"
    and inj: "inj_on (\<lambda>m. fl_cost (filtArr fs ! m)) {..n}"
    and run: "for_each (rev [i..<n]) (\<lambda>j. move_slot j (j + 1)) fs = Some fs'"
  shows "counts_shifted fs n i fs'"
proof -
  let ?S = "\<lambda>k x. counters_ok x \<and> length (filtArr x) = length (filtArr fs) \<and> (\<forall>m \<le> n - k. filtArr x ! m = filtArr fs ! m)"
  let ?P = "\<lambda>k x. ?S k x \<and> counts_shifted fs n (n - k) x"
  have "?P (length (rev [i..<n])) fs'"
  proof (rule for_each_inv [OF run])
    show "?P 0 fs" using ok by (auto simp: counts_shifted_def)
    fix k x y assume k: "k < length (rev [i..<n])" and P: "?P k x"
      and step: "move_slot (rev [i..<n] ! k) (rev [i..<n] ! k + 1) x = Some y"
    let ?j = "n - Suc k"
    have j: "rev [i..<n] ! k = ?j" "?j + 1 = n - k" "?j < n" using k by (simp_all add: rev_nth)
    have "?S (Suc k) y"
      using move_slot_spec [of x ?j "?j + 1"] step P i j by (auto simp: nth_list_update)
    moreover have "counts_shifted fs n ?j y"
      using move_slot_counts [OF inj i(2) j(3), of x y] step P j by auto
    ultimately show "?P (Suc k) y" by simp
  qed
  then show ?thesis using i by simp
qed

subsection \<open>Reading a rule back\<close>

lemma ip_join: "(push_bit 16 (drop_bit 16 ip) AND 0xFFFF0000) OR (take_bit 16 ip AND 0x0000FFFF) = (ip :: u32)"
proof -
  have m: "(0xFFFF0000 :: u32) = NOT (mask 16)" "(0xFFFF :: u32) = mask 16" by (simp_all add: mask_eq_exp_minus_1)
  show ?thesis unfolding m by (rule bit_word_eqI) (auto simp: bit_simps)
qed

lemma ucast_port_and: "(ucast ((ucast (p :: u16) :: u32) AND 0xFFFF) :: u16) = p"
proof -
  have m: "(0xFFFF :: u32) = mask 16" by (simp add: mask_eq_exp_minus_1)
  show ?thesis unfolding m by (rule bit_word_eqI) (auto simp: bit_simps)
qed

lemma getfileter_new_filter:
  "getfileter (new_filter t a) = Some (ra_sip a, ra_dip a, ra_sp a, ra_dp a, ra_protocol a)"
proof -
  have ip: "(push_bit 16 (fst (fst (acl_readiprange i))) AND 0xFFFF0000) OR
      (fst (snd (acl_readiprange i)) AND 0x0000FFFF) = i" for i
    using ip_join [of i] by (simp add: acl_readiprange_spec)
  have port: "(ucast (fst (acl_ReadPort p) AND 0x0000FFFF) :: u16) = p" for p
    using ucast_port_and [of p] by (simp add: acl_ReadPort_def)
  have proto: "(ucast (fst (acl_ReadProtocol p) AND 0x0000FFFF) :: u16) = p" for p
  proof -
    have "ACL_PROTOCOL_ANY = ucast p \<longleftrightarrow> p = 0" by (auto simp: c_consts word_unat_eq_iff)
    then show ?thesis using ucast_port_and [of p] by (auto simp: acl_ReadProtocol_def Let_def)
  qed
  have dims: "fl_dim (new_filter t a) = [fst (acl_readiprange (ra_sip a)), snd (acl_readiprange (ra_sip a)),
      fst (acl_readiprange (ra_dip a)), snd (acl_readiprange (ra_dip a)), acl_ReadPort (ra_sp a),
      acl_ReadPort (ra_dp a), acl_ReadProtocol (ra_protocol a)]"
    by (simp add: new_filter_def case_prod_beta)
  show ?thesis
    unfolding getfileter_def dims arr_get_def by (simp add: ip port proto)
qed

lemma acl_getfilter_wf:
  assumes wf: "filtset_wf fs" and r: "rule_map fs t = Some f"
  obtains i where "acl_getfilter_by_tagid fs t = do {
      (sip, dip, sp, dp, protocol) \<leftarrow> getfileter f;
      Some (FRE_SUCCESS, Some \<lparr>fi_rulenum = of_nat i, fi_state = fl_state f, fi_sync = fl_sync f,
        fi_sip = sip, fi_dip = dip, fi_sp = sp, fi_dp = dp, fi_protocol = protocol,
        fi_pkts = ucast (pkt_num fs ! unat t), fi_bytes = ucast (pkt_bytes fs ! unat t), fi_op = fl_op f,
        fi_action = fl_action f, fi_rule_type = fl_rule_type f, fi_rule_source = fl_rule_source f\<rparr>) }"
    "i < length (live fs)" "live fs ! i = f"
  using wf
proof (cases rule: scan_tag [where t = t])
  case (found i)
  have f: "filtArr fs ! i = f" "live fs ! i = f" using found r wf_facts(5,6) [OF wf] by simp_all
  have "unat t < MPP_MAX_RFC_STAT"
    using wf_live_ok [OF wf nth_mem [OF found(2)]] found(3) by simp
  then have "acl_get_statistic_hit fs (unat t) = Some (pkt_num fs ! unat t)"
    "acl_get_pkt_bytes fs (unat t) = Some (pkt_bytes fs ! unat t)"
    using wf_facts(1) [OF wf] by (simp_all add: acl_get_statistic_hit_def acl_get_pkt_bytes_def counters_ok_def)
  then show ?thesis
    using found f that by (simp add: acl_getfilter_by_tagid_def)
qed (use r in simp)

lemma setfilter_counters:
  assumes "setfilter fs index t a cover = Some fs'"
  shows "pkt_num fs' ! unat t = 0 \<and> pkt_bytes fs' ! unat t = 0 \<and>
     (\<forall>u. u \<noteq> unat t \<longrightarrow> pkt_num fs' ! u = pkt_num fs ! u)"
  using assms by (auto simp: setfilter_def arr_set_eq_Some Let_def split: bind_splits)

lemma acl_setfilter_counters:
  "acl_setfilter fs t a = Some fs' \<Longrightarrow> pkt_num fs' ! unat t = 0 \<and> pkt_bytes fs' ! unat t = 0"
  using setfilter_counters by (auto simp: acl_setfilter_def split: bind_splits option.splits if_splits)

subsection \<open>The first match is the smallest matching tag\<close>

lemma classify_least:
  assumes wf: "filtset_wf fs" and t: "rule_map fs t = Some f" "accepts f h"
    and least: "\<And>s g. s < t \<Longrightarrow> rule_map fs s = Some g \<Longrightarrow> \<not> accepts g h"
  shows "classify fs h = t"
  using wf
proof (cases rule: scan_tag [where t = t])
  case (found i)
  have f: "live fs ! i = f" "fl_cost f = ucast t" using found t by simp_all
  have split: "live fs = take i (live fs) @ f # drop (Suc i) (live fs)"
    using id_take_nth_drop [OF found(2)] f by simp
  have srt: "sorted_wrt (<) (map fl_cost (take i (live fs) @ f # drop (Suc i) (live fs)))"
    using wf_facts(4) [OF wf] split by simp
  have "\<not> accepts g h" if g: "g \<in> set (take i (live fs))" for g
  proof -
    have lt: "fl_cost g < fl_cost f" using srt g unfolding sorted_key_middle by blast
    obtain as bs where "live fs = as @ g # bs" using g by (meson in_set_takeD split_list)
    moreover have c: "unat (fl_cost g) < unat t" using lt f(2) by (simp add: word_less_nat_alt)
    then have u: "unat (ucast (fl_cost g) :: u16) = unat (fl_cost g)"
      using unat_u16 [of t] by (simp add: unat_ucast_mod)
    then have "fl_cost g = ucast (ucast (fl_cost g) :: u16)" by (simp add: word_unat_eq_iff)
    ultimately have "rule_map fs (ucast (fl_cost g)) = Some g"
      using rule_map_middle [OF wf, of as g bs "ucast (fl_cost g)" "ucast (fl_cost g)"] by simp
    moreover have "(ucast (fl_cost g) :: u16) < t"
      using c u by (simp add: word_less_nat_alt)
    ultimately show ?thesis using least by blast
  qed
  then have "List.find (\<lambda>f. accepts f h) (take i (live fs)) = None" by (simp add: find_None_iff)
  then have "List.find (\<lambda>f. accepts f h) (live fs) = Some f"
    using t(2) by (subst split) (simp add: find_append)
  then show ?thesis using f(2) by (simp add: classify_def live_def)
qed (use t in simp)

lemma classify_none:
  assumes wf: "filtset_wf fs" and room: "unat (numFilters fs) < MPP_MAX_FILTERS"
    and none: "\<And>t g. rule_map fs t = Some g \<Longrightarrow> \<not> accepts g h"
  shows "classify fs h = 0"
proof -
  have "\<not> accepts g h" if g: "g \<in> set (live fs)" for g
  proof -
    obtain as bs where sp: "live fs = as @ g # bs" using g by (meson split_list)
    have "fl_cost g = ucast (ucast (fl_cost g) :: u16)"
      using wf_live_ok [OF wf g] by (simp add: word_unat_eq_iff unat_ucast_mod c_consts)
    then have "rule_map fs (ucast (fl_cost g)) = Some g"
      using rule_map_middle [OF wf sp, of "ucast (fl_cost g)" "ucast (fl_cost g)"] by simp
    then show ?thesis by (rule none)
  qed
  then have "List.find (\<lambda>f. accepts f h) (live fs) = None" by (simp add: find_None_iff)
  moreover have "filtArr fs ! (MPP_MAX_FILTERS - 1) = blank_filter"
    using wf_split [OF wf] nth_padding [of "live fs" "MPP_MAX_FILTERS - 1" MPP_MAX_FILTERS blank_filter] room by simp
  ultimately show ?thesis by (simp add: classify_def live_def blank_filter_def)
qed

section \<open>The initial state\<close>

text \<open>The zeroed memory of \<^verbatim>\<open>gsdata.acl\<close>: an empty filter set and unfilled tables.\<close>

definition filtset_init :: FILTSET where
  "filtset_init = \<lparr>numFilters = 0, filtArr = replicate MPP_MAX_FILTERS blank_filter,
     pkt_num = replicate MPP_MAX_RFC_STAT 0, pkt_bytes = replicate MPP_MAX_RFC_STAT 0\<rparr>"

definition eqs_init :: LISTEqS where
  "eqs_init = \<lparr>nCES = 0, ces = replicate MPP_MAX_FILTERS \<lparr>eqID = 0, cbm = replicate SIZE 0\<rparr>\<rparr>"

definition acl_data_init :: "FILTSET \<Rightarrow> mpp_acl_filtset" where
  "acl_data_init fs =
     (let nd = \<lparr>ncells = 0, rcell = replicate ACL_MAX_CELL 0, rlistEqs = eqs_init\<rparr> in
      \<lparr>filtset = fs, phase0_Nodes = replicate 7 \<lparr>cell = replicate PORT_SPACE 0, listEqs = eqs_init\<rparr>,
       phase1_Nodes = replicate 3 nd, phase2_Nodes = replicate 2 nd, phase3_Node = nd\<rparr>)"

lemma tables_mem_init: "tables_mem (acl_data_init fs)"
  by (simp add: tables_mem_def acl_data_init_def Let_def node_mem_def noder_mem_def eqs_init_def list_all_iff)

lemma filtset_acl_data_init [simp]: "filtset (acl_data_init fs) = fs"
  by (simp add: acl_data_init_def Let_def)

lemma filtset_init_wf: "filtset_wf filtset_init" "live filtset_init = []"
  using wf_intro [of filtset_init "[]"] by (simp_all add: filtset_init_def)

lemma rule_map_init [simp]: "rule_map filtset_init t = None"
  by (simp add: rule_map_def filtset_init_wf)

lemma wf_filters_ok: "filtset_wf fs \<Longrightarrow> filters_ok fs"
  by (simp add: filtset_wf_def)

text \<open>A filter set with two rules, for the examples: tag 5 accepts TCP traffic to port 80, tag 9
  accepts everything.\<close>

definition web_rule :: rule_args where
  "web_rule = \<lparr>ra_sip = 0, ra_dip = 0, ra_sp = 0, ra_dp = 80, ra_protocol = 6, ra_op = 0, ra_action = 2,
     ra_rule_type = 0, ra_rule_source = 0\<rparr>"

definition any_rule :: rule_args where
  "any_rule = web_rule\<lparr>ra_dp := 0, ra_protocol := 0\<rparr>"

lemma two_rules_exist:
  obtains fs1 fs2 where "acl_setfilter filtset_init 5 web_rule = Some fs1" "filtset_wf fs1"
    "rule_map fs1 = [5 \<mapsto> new_filter 5 web_rule]" "unat (numFilters fs1) = 1"
    "acl_setfilter fs1 9 any_rule = Some fs2" "filtset_wf fs2"
    "rule_map fs2 = [5 \<mapsto> new_filter 5 web_rule, 9 \<mapsto> new_filter 9 any_rule]" "unat (numFilters fs2) = 2"
proof -
  have init: "unat (numFilters filtset_init) = 0" by (simp add: filtset_init_def)
  obtain fs1 where 1: "acl_setfilter filtset_init 5 web_rule = Some fs1" "filtset_wf fs1"
    "rule_map fs1 = [5 \<mapsto> new_filter 5 web_rule]" "unat (numFilters fs1) = 1"
    using acl_setfilter_map [OF filtset_init_wf(1), of 5 web_rule] init by (auto simp: c_consts fun_eq_iff)
  obtain fs2 where "acl_setfilter fs1 9 any_rule = Some fs2" "filtset_wf fs2"
    "rule_map fs2 = [5 \<mapsto> new_filter 5 web_rule, 9 \<mapsto> new_filter 9 any_rule]" "unat (numFilters fs2) = 2"
    using acl_setfilter_map [OF 1(2), of 9 any_rule] 1(3,4) by (auto simp: c_consts)
  with 1 that show ?thesis by blast
qed

lemma two_rules_classify:
  assumes "filtset_wf fs" "rule_map fs = [5 \<mapsto> new_filter 5 web_rule, 9 \<mapsto> new_filter 9 any_rule]"
  shows "classify fs (packet_fields sip dip sp dp proto) = (if dp = 80 \<and> proto = 6 then 5 else 9)"
proof -
  let ?h = "packet_fields sip dip sp dp proto"
  have "(6 :: u16) = ucast proto \<longleftrightarrow> proto = 6" by (auto simp: word_unat_eq_iff)
  then have acc: "accepts (new_filter 5 web_rule) ?h \<longleftrightarrow> dp = 80 \<and> proto = 6" "accepts (new_filter 9 any_rule) ?h"
    unfolding accepts_new_filter by (auto simp: rule_matches_def web_rule_def any_rule_def)
  have maps: "rule_map fs s = Some g \<Longrightarrow> s = 5 \<and> g = new_filter 5 web_rule \<or> s = 9 \<and> g = new_filter 9 any_rule" for s g
    by (auto simp: assms(2) split: if_splits)
  have r: "rule_map fs 5 = Some (new_filter 5 web_rule)" "rule_map fs 9 = Some (new_filter 9 any_rule)"
    by (simp_all add: assms(2))
  show ?thesis
  proof (cases "dp = 80 \<and> proto = 6")
    case True
    have "classify fs ?h = 5"
      by (rule classify_least [OF assms(1) r(1)]) (use acc True in simp, drule maps, auto)
    with True show ?thesis by simp
  next
    case False
    have "classify fs ?h = 9"
      by (rule classify_least [OF assms(1) r(2) acc(2)]) (use acc False in \<open>auto dest!: maps\<close>)
    with False show ?thesis by auto
  qed
qed

lemma compile_small_set:
  assumes "filters_ok (filtset a)" "tables_mem a" "unat (numFilters (filtset a)) \<le> 9"
  shows "\<exists>a'. pre_acl_lookup_by_tuple a = Some (FRE_SUCCESS, a') \<and> compiled (filtset a) a' \<and>
    filtset a' = synced (filtset a)"
proof -
  have "(2 :: nat) ^ unat (numFilters (filtset a)) \<le> 2 ^ 9" using assms(3) by (intro power_increasing) auto
  then have s: "(2 :: nat) ^ unat (numFilters (filtset a)) \<le> 512" by simp
  moreover have "(2 :: nat) ^ unat (numFilters (filtset a)) * 2 ^ unat (numFilters (filtset a)) \<le> 512 * 512"
    using s by (intro mult_le_mono)
  ultimately show ?thesis
    using pre_acl_lookup_by_tuple_outcome [OF assms(1,2)]
    by (auto simp: run_outcome_def c_consts split: option.splits)
qed

lemma compile_small:
  assumes "filters_ok fs" "unat (numFilters fs) \<le> 9"
  shows "\<exists>a'. pre_acl_lookup_by_tuple (acl_data_init fs) = Some (FRE_SUCCESS, a')"
  using compile_small_set [of "acl_data_init fs"] assms tables_mem_init by auto

section \<open>The interface to the command handlers\<close>

text \<open>
  What the rule commands rely on: a table from tags to rules that can be updated and deleted from,
  with a limited tag range and capacity. The consequences for a list of updates and for a list of
  deletions are proved once, for any such table.
\<close>

locale rule_table =
  fixes inv :: "'s \<Rightarrow> bool" and tbl :: "'s \<Rightarrow> 'k \<Rightarrow> 'v option" and count :: "'s \<Rightarrow> nat"
    and in_limits :: "'k \<Rightarrow> bool" and cap :: nat and mk :: "'k \<Rightarrow> 'a \<Rightarrow> 'v"
    and upd :: "'s \<Rightarrow> 'k \<Rightarrow> 'a \<Rightarrow> 's option" and del :: "'s \<Rightarrow> 'k \<Rightarrow> (int \<times> 's) option"
  assumes upd_law: "inv s \<Longrightarrow> in_limits k \<Longrightarrow> count s < cap \<Longrightarrow>
      \<exists>s'. upd s k a = Some s' \<and> inv s' \<and> tbl s' = (tbl s)(k \<mapsto> mk k a) \<and> count s' \<le> count s + 1"
    and del_law: "inv s \<Longrightarrow> \<exists>s'. del s k = Some (if tbl s k = None then FRE_NOTFOUND else FRE_SUCCESS, s') \<and>
      inv s' \<and> tbl s' = (tbl s)(k := None) \<and> count s' = count s - (if tbl s k = None then 0 else 1)"
    and count_law: "inv s \<Longrightarrow> count s = card (dom (tbl s)) \<and> finite (dom (tbl s))"
begin

lemma upd_all:
  assumes "inv s" "\<forall>(k, a) \<in> set kas. in_limits k" "count s + length kas \<le> cap"
  shows "\<exists>s'. for_each kas (\<lambda>(k, a) s. upd s k a) s = Some s' \<and> inv s' \<and>
    tbl s' = tbl s ++ map_of (rev (map (\<lambda>(k, a). (k, mk k a)) kas)) \<and> count s' \<le> count s + length kas"
  using assms
proof (induction kas arbitrary: s)
  case (Cons ka kas)
  obtain k a where ka: "ka = (k, a)" by (cases ka)
  obtain s1 where s1: "upd s k a = Some s1" "inv s1" "tbl s1 = (tbl s)(k \<mapsto> mk k a)" "count s1 \<le> count s + 1"
    using upd_law [OF Cons.prems(1), of k a] Cons.prems ka by auto
  obtain s' where "for_each kas (\<lambda>(k, a) s. upd s k a) s1 = Some s'" "inv s'"
    "tbl s' = tbl s1 ++ map_of (rev (map (\<lambda>(k, a). (k, mk k a)) kas))" "count s' \<le> count s1 + length kas"
    using Cons.IH [OF s1(2)] Cons.prems s1(4) by auto
  then show ?case using s1 ka by (auto simp: map_add_upd_left map_add_def fun_eq_iff split: option.split)
qed simp

text \<open>The deletion loop of the commands: the last result, and the number of deletions that succeeded.\<close>

lemma del_all:
  assumes "inv s" "finite (dom (tbl s))"
  shows "\<exists>rv s'. for_each ks (\<lambda>k (rv, n, s). do {
      (rv, s) \<leftarrow> del s k;
      Some (rv, if rv = 0 then n + (1 :: u16) else n, s)
    }) (rv0, n0, s) = Some (rv, n0 + of_nat (card (set ks \<inter> dom (tbl s))), s') \<and> inv s' \<and>
    tbl s' = tbl s |` (- set ks)"
  using assms
proof (induction ks arbitrary: s rv0 n0)
  case (Cons k ks)
  obtain s1 where s1: "del s k = Some (if tbl s k = None then FRE_NOTFOUND else FRE_SUCCESS, s1)" "inv s1"
    "tbl s1 = (tbl s)(k := None)"
    using del_law [OF Cons.prems(1)] by blast
  have fin: "finite (dom (tbl s1))" using Cons.prems(2) s1(3) by simp
  have split: "card (set (k # ks) \<inter> dom (tbl s)) = (if tbl s k = None then 0 else 1) + card (set ks \<inter> dom (tbl s1))"
  proof -
    have "set (k # ks) \<inter> dom (tbl s) = (if tbl s k = None then {} else {k}) \<union> (set ks \<inter> dom (tbl s1))"
      using s1(3) by (auto split: if_splits)
    moreover have "k \<notin> set ks \<inter> dom (tbl s1)" using s1(3) by simp
    ultimately show ?thesis by simp
  qed
  have restr: "tbl s1 |` (- set ks) = tbl s |` (- set (k # ks))"
    using s1(3) by (auto simp: restrict_map_def)
  show ?case
    using Cons.IH [OF s1(2) fin, of "if tbl s k = None then FRE_NOTFOUND else FRE_SUCCESS"
        "if tbl s k = None then n0 else n0 + 1"] s1(1) split restr
    by (auto simp: FRE_NOTFOUND_def FRE_SUCCESS_def add.assoc)
qed (simp add: restrict_map_def)

lemma del_only:
  assumes "inv s"
  shows "\<exists>s'. for_each ks (\<lambda>k s. map_option snd (del s k)) s = Some s' \<and> inv s' \<and> tbl s' = tbl s |` (- set ks)"
  using assms
proof (induction ks arbitrary: s)
  case (Cons k ks)
  obtain r s1 where s1: "del s k = Some (r, s1)" "inv s1" "tbl s1 = (tbl s)(k := None)"
    using del_law [OF Cons.prems] by blast
  have "tbl s1 |` (- set ks) = tbl s |` (- set (k # ks))"
    using s1(3) by (auto simp: restrict_map_def)
  then show ?case using Cons.IH [OF s1(2)] s1(1) by auto
qed (simp add: restrict_map_def)

end

lemma rule_map_dom:
  assumes wf: "filtset_wf fs"
  shows "unat (numFilters fs) = card (dom (rule_map fs))" "finite (dom (rule_map fs))"
proof -
  let ?k = "\<lambda>f. ucast (fl_cost f) :: u16"
  have cost: "fl_cost f = ucast (?k f)" if "f \<in> set (live fs)" for f
    using wf_live_ok [OF wf that] by (simp add: word_unat_eq_iff unat_ucast_mod c_consts)
  have dom: "dom (rule_map fs) = ?k ` set (live fs)"
  proof -
    have "rule_map fs t \<noteq> None \<longleftrightarrow> ucast t \<in> fl_cost ` set (live fs)" for t
      unfolding rule_map_def by (simp add: find_key_None)
    moreover have "ucast t \<in> fl_cost ` set (live fs) \<longleftrightarrow> t \<in> ?k ` set (live fs)" for t
      using cost by (auto simp: image_iff) (metis ucast_u16_u32_u16)
    ultimately show ?thesis by (auto simp: dom_def)
  qed
  have "distinct (map fl_cost (live fs))"
    using wf_facts(4) [OF wf] by (auto simp: sorted_wrt_iff_nth_less distinct_conv_nth neq_iff)
  then have "inj_on ?k (set (live fs))" "distinct (live fs)"
    using cost by (auto simp: distinct_map inj_on_def) (metis cost)
  then show "unat (numFilters fs) = card (dom (rule_map fs))"
    using wf_facts(5) [OF wf] by (simp add: dom card_image distinct_card)
  show "finite (dom (rule_map fs))" by (simp add: dom)
qed

interpretation acl_rules: rule_table filtset_wf rule_map "\<lambda>fs. unat (numFilters fs)"
  "\<lambda>t :: u16. unat t < MPP_MAX_RFC_STAT" MPP_MAX_FILTERS new_filter acl_setfilter acl_DeleteOneFilter_by_tagid
proof unfold_locales
  fix s :: FILTSET and k :: u16 and a :: rule_args
  assume s: "filtset_wf s"
  show "\<exists>s'. acl_DeleteOneFilter_by_tagid s k = Some (if rule_map s k = None then FRE_NOTFOUND else FRE_SUCCESS, s') \<and>
      filtset_wf s' \<and> rule_map s' = (rule_map s)(k := None) \<and>
      unat (numFilters s') = unat (numFilters s) - (if rule_map s k = None then 0 else 1)"
    by (rule acl_DeleteOneFilter_map [OF s])
  show "unat (numFilters s) = card (dom (rule_map s)) \<and> finite (dom (rule_map s))"
    using rule_map_dom [OF s] by blast
  assume "unat k < MPP_MAX_RFC_STAT" "unat (numFilters s) < MPP_MAX_FILTERS"
  then show "\<exists>s'. acl_setfilter s k a = Some s' \<and> filtset_wf s' \<and> rule_map s' = (rule_map s)(k \<mapsto> new_filter k a) \<and>
      unat (numFilters s') \<le> unat (numFilters s) + 1"
    using acl_setfilter_map [OF s, of k a] by fastforce
qed

section \<open>Properties\<close>

text \<open>
  C1. Whenever \<^verbatim>\<open>pre_acl_lookup_by_tuple\<close> reports success, \<^verbatim>\<open>acl_lookup_by_tuple\<close> on the tables it
  built returns, for every header and without any access out of range, the tag that a linear search
  through the filters returns: the tag of the first enabled filter whose seven ranges contain the
  header, or the tag of the reserved last slot.
\<close>

theorem acl_lookup_correct:
  assumes "filters_ok (filtset a)" "tables_mem a" "pre_acl_lookup_by_tuple a = Some (FRE_SUCCESS, a')"
  shows "acl_lookup_by_tuple (phase0_Nodes a') (phase1_Nodes a') (phase2_Nodes a') (phase3_Node a')
           siph sipl diph dipl sp dp proto =
         Some (classify (filtset a) (header_fields siph sipl diph dipl sp dp proto))"
proof -
  have "MC_ERROR \<noteq> FRE_SUCCESS" by (simp add: c_consts)
  then have "compiled (filtset a) a'"
    using pre_acl_lookup_by_tuple_outcome [OF assms(1,2)] assms(3) by (simp add: run_outcome_def)
  then show ?thesis using assms(1) by (rule compiled_lookup)
qed

theorem acl_lookup_correct_witness:
  "\<exists>fs1 fs2 a'. acl_setfilter filtset_init 5 web_rule = Some fs1 \<and> acl_setfilter fs1 9 any_rule = Some fs2 \<and>
     pre_acl_lookup_by_tuple (acl_data_init fs2) = Some (FRE_SUCCESS, a') \<and>
     acl_lookup_by_tuple (phase0_Nodes a') (phase1_Nodes a') (phase2_Nodes a') (phase3_Node a')
       0x0A00 1 0x0A00 2 1000 80 6 = Some 5 \<and>
     acl_lookup_by_tuple (phase0_Nodes a') (phase1_Nodes a') (phase2_Nodes a') (phase3_Node a')
       0x0A00 1 0x0A00 2 1000 80 17 = Some 9"
proof -
  obtain fs1 fs2 where f: "acl_setfilter filtset_init 5 web_rule = Some fs1" "acl_setfilter fs1 9 any_rule = Some fs2"
    "filtset_wf fs2" "rule_map fs2 = [5 \<mapsto> new_filter 5 web_rule, 9 \<mapsto> new_filter 9 any_rule]" "unat (numFilters fs2) = 2"
    by (rule two_rules_exist)
  obtain a' where a': "pre_acl_lookup_by_tuple (acl_data_init fs2) = Some (FRE_SUCCESS, a')"
    using compile_small [OF wf_filters_ok [OF f(3)]] f(5) by auto
  have h: "header_fields 0x0A00 1 0x0A00 2 1000 80 p = packet_fields 0x0A000001 0x0A000002 1000 80 p" for p
    by (simp add: packet_fields_def header_fields_def drop_bit_eq_div)
  show ?thesis
    using f(1,2) a' acl_lookup_correct [OF _ tables_mem_init a', of "0x0A00" 1 "0x0A00" 2 1000 80]
      wf_filters_ok [OF f(3)] by (simp add: h two_rules_classify [OF f(3,4)])
qed

text \<open>
  C15. For a well-formed set of at most nine filters the compiler always succeeds (the class lists and
  the cell tables cannot overflow), and every lookup on the result is the linear search.
\<close>

theorem acl_small_sets_total:
  assumes "filters_ok (filtset a)" "tables_mem a" "unat (numFilters (filtset a)) \<le> 9"
  shows "\<exists>a'. pre_acl_lookup_by_tuple a = Some (FRE_SUCCESS, a') \<and>
     (\<forall>siph sipl diph dipl sp dp proto.
        acl_lookup_by_tuple (phase0_Nodes a') (phase1_Nodes a') (phase2_Nodes a') (phase3_Node a')
          siph sipl diph dipl sp dp proto =
        Some (classify (filtset a) (header_fields siph sipl diph dipl sp dp proto)))"
  using compile_small_set [OF assms] compiled_lookup [OF _ assms(1)] by blast

theorem acl_small_sets_total_witness:
  "\<exists>fs a'. acl_setfilter filtset_init 5 web_rule = Some fs \<and>
     pre_acl_lookup_by_tuple (acl_data_init fs) = Some (FRE_SUCCESS, a') \<and>
     acl_lookup_by_tuple (phase0_Nodes a') (phase1_Nodes a') (phase2_Nodes a') (phase3_Node a')
       0x0A00 1 0x0A00 2 1000 81 6 = Some (classify fs (header_fields 0x0A00 1 0x0A00 2 1000 81 6))"
proof -
  obtain fs where "acl_setfilter filtset_init 5 web_rule = Some fs" "filtset_wf fs" "unat (numFilters fs) = 1"
    by (rule two_rules_exist)
  then show ?thesis
    using acl_small_sets_total [OF _ tables_mem_init, of fs] wf_filters_ok [of fs] by auto
qed

text \<open>
  With at most eleven filters the compiler never runs past one of its arrays: it returns, with
  success or with the error code. (Beyond that the class list of 2048 entries has no bound check.)
\<close>

theorem pre_acl_no_overrun:
  assumes "filters_ok (filtset a)" "tables_mem a" "unat (numFilters (filtset a)) \<le> 11"
  shows "\<exists>r a'. pre_acl_lookup_by_tuple a = Some (r, a') \<and> (r = FRE_SUCCESS \<or> r = MC_ERROR)"
proof -
  have "(2 :: nat) ^ unat (numFilters (filtset a)) \<le> 2 ^ 11" using assms(3) by (intro power_increasing) auto
  then show ?thesis
    using pre_acl_lookup_by_tuple_outcome [OF assms(1,2)]
    by (auto simp: run_outcome_def c_consts split: option.splits)
qed

theorem pre_acl_no_overrun_witness:
  "\<exists>r a'. pre_acl_lookup_by_tuple (acl_data_init filtset_init) = Some (r, a') \<and> (r = FRE_SUCCESS \<or> r = MC_ERROR)"
  using pre_acl_no_overrun [OF _ tables_mem_init, of filtset_init] wf_filters_ok [OF filtset_init_wf(1)]
  by (simp add: filtset_init_def)

text \<open>
  C16. \<^verbatim>\<open>acl_setfilter\<close> refines an update of a map from tags to rules: with a tag below 2048 and room
  (or a rule to cover), it returns without an access out of range, keeps the invariant (sorted unique
  tags, blank unused slots, ranges in bounds), stores the new rule under the tag and leaves every
  other tag's rule as it was.
\<close>

theorem acl_setfilter_refines_update:
  assumes "filtset_wf fs" "unat t < 2048" "rule_map fs t = None \<Longrightarrow> unat (numFilters fs) < 2048"
  shows "\<exists>fs'. acl_setfilter fs t a = Some fs' \<and> filtset_wf fs' \<and>
    rule_map fs' = (rule_map fs)(t \<mapsto> new_filter t a) \<and>
    unat (numFilters fs') = unat (numFilters fs) + (if rule_map fs t = None then 1 else 0)"
  using acl_setfilter_map [of fs t a] assms by (simp add: c_consts)

theorem acl_setfilter_refines_update_witness:
  "\<exists>fs'. acl_setfilter filtset_init 7 web_rule = Some fs' \<and> rule_map fs' 7 = Some (new_filter 7 web_rule)"
  using acl_setfilter_refines_update [OF filtset_init_wf(1), of 7 web_rule]
  by (auto simp: filtset_init_def)

text \<open>
  C17. \<^verbatim>\<open>acl_DeleteOneFilter_by_tagid\<close> refines deletion from that map, reports \<^verbatim>\<open>FRE_NOTFOUND\<close> exactly for
  a tag that has no rule, and keeps the invariant.
\<close>

theorem acl_delete_refines_delete:
  assumes "filtset_wf fs"
  shows "\<exists>fs'. acl_DeleteOneFilter_by_tagid fs t = Some (if rule_map fs t = None then FRE_NOTFOUND else FRE_SUCCESS, fs') \<and>
    filtset_wf fs' \<and> rule_map fs' = (rule_map fs)(t := None)"
  using acl_DeleteOneFilter_map [OF assms, of t] by blast

theorem acl_delete_refines_delete_witness:
  "\<exists>fs fs'. acl_setfilter filtset_init 5 web_rule = Some fs \<and>
     acl_DeleteOneFilter_by_tagid fs 5 = Some (FRE_SUCCESS, fs') \<and> rule_map fs' 5 = None"
proof -
  obtain fs where fs: "acl_setfilter filtset_init 5 web_rule = Some fs" "filtset_wf fs"
    "rule_map fs = [5 \<mapsto> new_filter 5 web_rule]" by (rule two_rules_exist)
  then show ?thesis using acl_delete_refines_delete [OF fs(2), of 5] by auto
qed

text \<open>
  Setting a rule and reading it back with \<^verbatim>\<open>acl_getfilter_by_tagid\<close> returns success and the
  fields that were set, in state enabled and not synchronised, with zero packet and byte counts.
\<close>

theorem acl_set_get_roundtrip:
  assumes "filtset_wf fs" "unat t < 2048" "unat (numFilters fs) < 2048"
  shows "\<exists>fs' i. acl_setfilter fs t a = Some fs' \<and> acl_getfilter_by_tagid fs' t =
    Some (FRE_SUCCESS, Some \<lparr>fi_rulenum = i, fi_state = ACL_ENABLE, fi_sync = ACL_NOSYNC,
      fi_sip = ra_sip a, fi_dip = ra_dip a, fi_sp = ra_sp a, fi_dp = ra_dp a, fi_protocol = ra_protocol a,
      fi_pkts = 0, fi_bytes = 0, fi_op = ra_op a, fi_action = ra_action a,
      fi_rule_type = ra_rule_type a, fi_rule_source = ra_rule_source a\<rparr>)"
proof -
  obtain fs' where s: "acl_setfilter fs t a = Some fs'" "filtset_wf fs'" "rule_map fs' t = Some (new_filter t a)"
    using acl_setfilter_map [of fs t a] assms by (auto simp: c_consts)
  have f: "fl_state (new_filter t a) = ACL_ENABLE" "fl_sync (new_filter t a) = ACL_NOSYNC"
    "fl_op (new_filter t a) = ra_op a" "fl_action (new_filter t a) = ra_action a"
    "fl_rule_type (new_filter t a) = ra_rule_type a" "fl_rule_source (new_filter t a) = ra_rule_source a"
    by (simp_all add: new_filter_def case_prod_beta)
  show ?thesis
    by (rule acl_getfilter_wf [OF s(2,3)])
       (use acl_setfilter_counters [OF s(1)] s(1) in \<open>simp add: getfileter_new_filter f\<close>)
qed

theorem acl_set_get_roundtrip_witness:
  "\<exists>fs' inf. acl_setfilter filtset_init 7 web_rule = Some fs' \<and>
     acl_getfilter_by_tagid fs' 7 = Some (FRE_SUCCESS, Some inf) \<and> fi_dp inf = 80 \<and> fi_protocol inf = 6"
  using acl_set_get_roundtrip [OF filtset_init_wf(1), of 7 web_rule]
  by (auto simp: filtset_init_def web_rule_def)

text \<open>
  Inserting a rule below existing ones corrupts their packet counters: every tag from the second
  one above the insertion point on ends up with the packet count of the tag before it, although only
  the slots of the table moved and the counters are indexed by tag.
\<close>

theorem acl_insert_shifts_counters:
  assumes wf: "filtset_wf fs" and "unat t < 2048" "unat (numFilters fs) < 2048" and zero: "0 \<notin> fl_cost ` set (live fs)"
    and k: "i \<le> k" "Suc k < length (live fs)"
    and lt: "\<forall>x \<in> set (take i (live fs)). fl_cost x < ucast t" and gt: "ucast t < fl_cost (live fs ! i)"
  shows "\<exists>fs'. acl_setfilter fs t a = Some fs' \<and>
    pkt_num fs' ! unat (fl_cost (live fs ! Suc k)) = pkt_num fs ! unat (fl_cost (live fs ! k))"
proof -
  let ?n = "length (live fs)"
  note f = wf_facts [OF wf]
  have n: "?n < length (filtArr fs)" using assms(3) f by (simp add: c_consts)
  have sorted: "p < q \<Longrightarrow> q < ?n \<Longrightarrow> fl_cost (live fs ! p) < fl_cost (live fs ! q)" for p q
    using f(4) by (auto simp: sorted_wrt_iff_nth_less)
  have nth: "m < ?n \<Longrightarrow> filtArr fs ! m = live fs ! m" for m using f(5,6) by simp
  have "filtArr fs ! ?n = blank_filter"
    using wf_split [OF wf] nth_padding [of "live fs" ?n MPP_MAX_FILTERS blank_filter] n f by simp
  then have "inj_on (\<lambda>m. fl_cost (filtArr fs ! m)) {..?n}"
    using sorted zero nth by (intro linorder_inj_onI) (auto simp: le_less blank_filter_def dest: sorted)
  moreover have "fl_cost (live fs ! j) < ucast t" if "j < i" for j
  proof -
    have "live fs ! j \<in> set (take i (live fs))" using that k by (auto simp: in_set_conv_nth intro!: exI [of _ j])
    then show ?thesis using lt by blast
  qed
  then have first: "first_index (\<lambda>i. ucast t \<le> fl_cost (live fs ! i)) [0..<?n] = Some i"
    using gt k by (auto simp: first_index_upt_least not_le)
  moreover obtain fs1 where fs1: "for_each (rev [i..<?n]) (\<lambda>j. move_slot j (j + 1)) fs = Some fs1"
    using shift_back [OF f(1), of i ?n] k n f by auto
  ultimately have shifted: "pkt_num fs1 ! unat (fl_cost (live fs ! Suc k)) = pkt_num fs ! unat (fl_cost (live fs ! k))"
    using shift_back_counts [OF f(1), of i ?n fs1] k n nth [of k] nth [of "Suc k"] by (auto simp: counts_shifted_def)
  obtain fs' where fs': "acl_setfilter fs t a = Some fs'"
    using acl_setfilter_map [OF wf, of t a] assms(2,3) by (auto simp: c_consts)
  then have "setfilter fs1 (of_nat i) t a False = Some fs'"
    using scan_filters_wf [OF wf, of "\<lambda>f. ucast t \<le> fl_cost f"] first gt nth [of i] k fs1 f(5)
    by (auto simp: acl_setfilter_def)
  moreover have "unat (fl_cost (live fs ! Suc k)) \<noteq> unat t"
    using gt sorted [of i "Suc k"] k by (auto simp: word_less_nat_alt)
  ultimately show ?thesis using setfilter_counters fs' shifted by metis
qed

theorem acl_insert_shifts_counters_witness:
  "\<exists>fs'. acl_setfilter (filtset_init\<lparr>numFilters := 2, pkt_num := (replicate 2048 0)[5 := 77],
       filtArr := [new_filter 5 web_rule, new_filter 9 any_rule] @ replicate 2046 blank_filter\<rparr>) 3 web_rule = Some fs' \<and>
     pkt_num fs' ! 9 = 77"
proof -
  let ?fs = "filtset_init\<lparr>numFilters := 2, pkt_num := (replicate 2048 0)[5 := 77],
       filtArr := [new_filter 5 web_rule, new_filter 9 any_rule] @ replicate 2046 blank_filter\<rparr>"
  have ok: "unat t < MPP_MAX_RFC_STAT \<Longrightarrow> dims_ok (new_filter t a) \<and> unat (fl_cost (new_filter t a)) < MPP_MAX_RFC_STAT" for t a
    by (rule new_filter_ok)
  have wf: "filtset_wf ?fs \<and> live ?fs = [new_filter 5 web_rule, new_filter 9 any_rule]"
    by (rule wf_intro) (use ok [of 5 web_rule] ok [of 9 any_rule] in \<open>auto simp: filtset_init_def c_consts word_less_nat_alt\<close>)
  then show ?thesis
    using acl_insert_shifts_counters [of ?fs 3 0 0 web_rule] by (auto simp: word_less_nat_alt)
qed

end
