(* ===== verification/Ring.thy ===== *)
theory Ring
  imports Prelude
begin

text \<open>
  The index rings of \<^verbatim>\<open>include/frc_dma.h\<close> through which the host driver and the firmware exchange block
  addresses: \<^verbatim>\<open>__simple_package_ring_put\<close>/\<^verbatim>\<open>get\<close> and \<^verbatim>\<open>__ssn_ring_put\<close>/\<^verbatim>\<open>get\<close>. The ring lives in shared memory
  in big-endian byte order; a little-endian machine swaps every word it reads or writes
  (\<^verbatim>\<open>SWAP_8_BYTE\<close>), selected by \<^verbatim>\<open>__FRC_BYTE_ORDER\<close>.

  The interface \<open>bounded_queue\<close> states what the users of a ring rely on; both rings are instances, on
  either byte order.
\<close>

section \<open>Byte order\<close>

definition SWAP_8_BYTE :: "u64 \<Rightarrow> u64" where
  "SWAP_8_BYTE i =
     push_bit 56 (drop_bit 0 i AND 0xff) OR
     push_bit 48 (drop_bit 8 i AND 0xff) OR
     push_bit 40 (drop_bit 16 i AND 0xff) OR
     push_bit 32 (drop_bit 24 i AND 0xff) OR
     push_bit 24 (drop_bit 32 i AND 0xff) OR
     push_bit 16 (drop_bit 40 i AND 0xff) OR
     push_bit 8 (drop_bit 48 i AND 0xff) OR
     push_bit 0 (drop_bit 56 i AND 0xff)"

datatype byte_order = LITTLE_ENDIAN | BIG_ENDIAN

text \<open>What a machine reads for a big-endian word, and writes for a value.\<close>

definition be_word :: "byte_order \<Rightarrow> u64 \<Rightarrow> u64" where
  "be_word order w = (case order of BIG_ENDIAN \<Rightarrow> w | LITTLE_ENDIAN \<Rightarrow> SWAP_8_BYTE w)"

section \<open>The ring operations\<close>

record ring_buff =
  rb_widx :: u64
  rb_ridx :: u64
  rb_buff :: "u64 list"

definition FRC_DMA_SIMPLE_PACKAGE_RING_BUFF_SIZE :: u64 where [c_consts]:
  "FRC_DMA_SIMPLE_PACKAGE_RING_BUFF_SIZE = 20480"
definition FRC_DMA_SSN_RING_BUFF_SIZE :: u64 where [c_consts]:
  "FRC_DMA_SSN_RING_BUFF_SIZE = 400896"

definition ring_ridx :: "byte_order \<Rightarrow> ring_buff \<Rightarrow> u64" where
  "ring_ridx order ring = be_word order (rb_ridx ring)"

definition ring_widx :: "byte_order \<Rightarrow> ring_buff \<Rightarrow> u64" where
  "ring_widx order ring = be_word order (rb_widx ring)"

definition ring_put :: "u64 \<Rightarrow> byte_order \<Rightarrow> ring_buff \<Rightarrow> u64 \<Rightarrow> (u64 \<times> ring_buff) option" where
  "ring_put sz order ring buff =
     (let ridx = ring_ridx order ring; widx = ring_widx order ring in
      if widx \<ge> ridx \<and> widx - ridx < sz then do {
        b \<leftarrow> arr_set (rb_buff ring) (unat (widx mod sz)) (be_word order buff);
        Some (1, ring\<lparr>rb_buff := b, rb_widx := be_word order (widx + 1)\<rparr>)
      } else Some (0, ring))"

text \<open>The fetched word is \<open>None\<close> when the ring had nothing to give and \<^verbatim>\<open>*buff\<close> is left alone.\<close>

definition ring_get :: "u64 \<Rightarrow> byte_order \<Rightarrow> ring_buff \<Rightarrow> (u64 \<times> u64 option \<times> ring_buff) option" where
  "ring_get sz order ring =
     (let ridx = ring_ridx order ring; widx = ring_widx order ring in
      if widx > ridx \<and> widx - ridx \<le> sz then do {
        v \<leftarrow> arr_get (rb_buff ring) (unat (ridx mod sz));
        Some (1, Some (be_word order v), ring\<lparr>rb_ridx := be_word order (ridx + 1)\<rparr>)
      } else Some (0, None, ring))"

definition simple_package_ring_put :: "byte_order \<Rightarrow> ring_buff \<Rightarrow> u64 \<Rightarrow> (u64 \<times> ring_buff) option" where
  "simple_package_ring_put = ring_put FRC_DMA_SIMPLE_PACKAGE_RING_BUFF_SIZE"

definition simple_package_ring_get :: "byte_order \<Rightarrow> ring_buff \<Rightarrow> (u64 \<times> u64 option \<times> ring_buff) option" where
  "simple_package_ring_get = ring_get FRC_DMA_SIMPLE_PACKAGE_RING_BUFF_SIZE"

definition ssn_ring_put :: "byte_order \<Rightarrow> ring_buff \<Rightarrow> u64 \<Rightarrow> (u64 \<times> ring_buff) option" where
  "ssn_ring_put = ring_put FRC_DMA_SSN_RING_BUFF_SIZE"

definition ssn_ring_get :: "byte_order \<Rightarrow> ring_buff \<Rightarrow> (u64 \<times> u64 option \<times> ring_buff) option" where
  "ssn_ring_get = ring_get FRC_DMA_SSN_RING_BUFF_SIZE"

section \<open>Bounded queues\<close>

text \<open>
  What the users rely on: a put appends while there is room and refuses without change when there is
  none; a get takes the oldest element and refuses on an empty ring. \<open>fresh r n\<close> says that the write
  counter can be advanced \<open>n\<close> more times.
\<close>

locale bounded_queue =
  fixes contents :: "'r \<Rightarrow> 'x list"
    and invar :: "'r \<Rightarrow> bool"
    and fresh :: "'r \<Rightarrow> nat \<Rightarrow> bool"
    and cap :: nat
    and put :: "'r \<Rightarrow> 'x \<Rightarrow> (u64 \<times> 'r) option"
    and get :: "'r \<Rightarrow> (u64 \<times> 'x option \<times> 'r) option"
  assumes put_room: "invar r \<Longrightarrow> length (contents r) < cap \<Longrightarrow> fresh r (Suc n) \<Longrightarrow>
      \<exists>r'. put r x = Some (1, r') \<and> invar r' \<and> contents r' = contents r @ [x] \<and> fresh r' n"
    and put_full: "invar r \<Longrightarrow> length (contents r) = cap \<Longrightarrow> put r x = Some (0, r)"
    and get_some: "invar r \<Longrightarrow> contents r = x # xs \<Longrightarrow>
      \<exists>r'. get r = Some (1, Some x, r') \<and> invar r' \<and> contents r' = xs"
    and get_none: "invar r \<Longrightarrow> contents r = [] \<Longrightarrow> get r = Some (0, None, r)"
    and invar_cap: "invar r \<Longrightarrow> length (contents r) \<le> cap"
begin

fun put_all :: "'x list \<Rightarrow> 'r \<Rightarrow> 'r option" where
  "put_all [] r = Some r"
| "put_all (x # xs) r = (case put r x of Some (_, r') \<Rightarrow> put_all xs r' | None \<Rightarrow> None)"

fun get_n :: "nat \<Rightarrow> 'r \<Rightarrow> ('x list \<times> 'r) option" where
  "get_n 0 r = Some ([], r)"
| "get_n (Suc n) r = (case get r of
     Some (_, Some x, r') \<Rightarrow> map_option (map_prod (Cons x) id) (get_n n r')
   | _ \<Rightarrow> None)"

lemma put_all_contents:
  "invar r \<Longrightarrow> length (contents r) + length xs \<le> cap \<Longrightarrow> fresh r (length xs) \<Longrightarrow>
     \<exists>r'. put_all xs r = Some r' \<and> invar r' \<and> contents r' = contents r @ xs"
proof (induction xs arbitrary: r)
  case Nil
  then show ?case by simp
next
  case (Cons x xs)
  obtain r1 where r1: "put r x = Some (1, r1)" "invar r1" "contents r1 = contents r @ [x]" "fresh r1 (length xs)"
    using put_room [of r "length xs" x] Cons.prems by auto
  have "\<exists>r'. put_all xs r1 = Some r' \<and> invar r' \<and> contents r' = contents r1 @ xs"
    by (rule Cons.IH) (use r1 Cons.prems in auto)
  with r1 show ?case by auto
qed

lemma get_n_contents:
  "invar r \<Longrightarrow> n \<le> length (contents r) \<Longrightarrow>
     \<exists>r'. get_n n r = Some (take n (contents r), r') \<and> invar r' \<and> contents r' = drop n (contents r)"
proof (induction n arbitrary: r)
  case 0
  then show ?case by simp
next
  case (Suc n)
  then obtain x xs where c: "contents r = x # xs" by (cases "contents r") auto
  obtain r1 where r1: "get r = Some (1, Some x, r1)" "invar r1" "contents r1 = xs"
    using get_some [OF Suc.prems(1) c] by blast
  with Suc.IH [of r1] Suc.prems c show ?case by auto
qed

text \<open>First in, first out: what goes into an empty queue comes out in the same order.\<close>

lemma put_get_fifo:
  assumes "invar r" "contents r = []" "length xs \<le> cap" "fresh r (length xs)"
  shows "\<exists>r1 r2. put_all xs r = Some r1 \<and> get_n (length xs) r1 = Some (xs, r2) \<and> contents r2 = []"
proof -
  obtain r1 where r1: "put_all xs r = Some r1" "invar r1" "contents r1 = xs"
    using put_all_contents [of r xs] assms by auto
  then show ?thesis using get_n_contents [of r1 "length xs"] by auto
qed

end

section \<open>The rings are bounded queues\<close>

lemma SWAP_8_BYTE_bit:
  assumes "q < 8" "r < 8"
  shows "bit (SWAP_8_BYTE w) (8 * q + r) \<longleftrightarrow> bit w (8 * (7 - q) + r)"
proof -
  have ff: "(0xff :: u64) = mask 8" by (simp add: mask_eq_exp_minus_1)
  have "q = 0 \<or> q = 1 \<or> q = 2 \<or> q = 3 \<or> q = 4 \<or> q = 5 \<or> q = 6 \<or> q = 7" using assms(1) by arith
  then show ?thesis
    using assms(2) by (elim disjE) (simp_all add: SWAP_8_BYTE_def ff bit_simps)
qed

lemma SWAP_8_BYTE_involution [simp]: "SWAP_8_BYTE (SWAP_8_BYTE w) = w"
proof (rule bit_word_eqI)
  fix n assume "n < LENGTH(64)"
  then have q: "n div 8 < 8" "7 - n div 8 < 8" "n mod 8 < 8" by auto
  have n: "n = 8 * (n div 8) + n mod 8" by simp
  have "7 - (7 - n div 8) = n div 8" using q by simp
  then show "bit (SWAP_8_BYTE (SWAP_8_BYTE w)) n = bit w n"
    using SWAP_8_BYTE_bit [OF q(1,3), of "SWAP_8_BYTE w"] SWAP_8_BYTE_bit [OF q(2,3), of w] n by metis
qed

lemma be_word_be_word [simp]: "be_word order (be_word order w) = w"
  by (simp add: be_word_def split: byte_order.split)

text \<open>A ring of \<open>sz\<close> cells: the counters have not wrapped, and the cells between them, modulo the size,
  are the contents.\<close>

definition ring_ok :: "u64 \<Rightarrow> byte_order \<Rightarrow> ring_buff \<Rightarrow> bool" where
  "ring_ok sz order r \<longleftrightarrow> 0 < sz \<and> length (rb_buff r) = unat sz \<and> ring_ridx order r \<le> ring_widx order r \<and>
     ring_widx order r - ring_ridx order r \<le> sz"

definition ring_contents :: "u64 \<Rightarrow> byte_order \<Rightarrow> ring_buff \<Rightarrow> u64 list" where
  "ring_contents sz order r =
     map (\<lambda>k. be_word order (rb_buff r ! (k mod unat sz)))
       [unat (ring_ridx order r)..<unat (ring_widx order r)]"

definition ring_fresh :: "byte_order \<Rightarrow> ring_buff \<Rightarrow> nat \<Rightarrow> bool" where
  "ring_fresh order r n \<longleftrightarrow> unat (ring_widx order r) + n < 2 ^ 64"

lemma ring_ok_nat:
  "ring_ok sz order r \<longleftrightarrow> 0 < unat sz \<and> length (rb_buff r) = unat sz \<and>
     unat (ring_ridx order r) \<le> unat (ring_widx order r) \<and>
     unat (ring_widx order r) - unat (ring_ridx order r) \<le> unat sz"
  by (auto simp: ring_ok_def word_less_nat_alt word_le_nat_alt unat_sub)

lemma mod_ring_neq:
  assumes "a \<le> k" "k < b" "b - a < (s :: nat)"
  shows "k mod s \<noteq> b mod s"
proof
  assume "k mod s = b mod s"
  then have "s dvd b - k" using assms by (metis less_imp_le mod_eq_dvd_iff_nat)
  then show False using assms by (auto dest: dvd_imp_le)
qed

lemma ring_put_room:
  assumes ok: "ring_ok sz order r" and room: "length (ring_contents sz order r) < unat sz"
    and fresh: "ring_fresh order r (Suc n)"
  shows "\<exists>r'. ring_put sz order r x = Some (1, r') \<and> ring_ok sz order r' \<and>
    ring_contents sz order r' = ring_contents sz order r @ [x] \<and> ring_fresh order r' n"
proof -
  let ?w = "ring_widx order r" and ?r = "ring_ridx order r"
  note o = ok [unfolded ring_ok_nat]
  have lt: "unat ?w - unat ?r < unat sz" using room by (simp add: ring_contents_def)
  have inc: "unat (?w + 1) = Suc (unat ?w)" using fresh by (simp add: ring_fresh_def unat_word_ariths)
  let ?i = "unat ?w mod unat sz"
  let ?r' = "r\<lparr>rb_buff := (rb_buff r)[?i := be_word order x], rb_widx := be_word order (?w + 1)\<rparr>"
  have i: "?i < length (rb_buff r)" using o by simp
  have run: "ring_put sz order r x = Some (1, ?r')"
    using o lt i by (simp add: ring_put_def Let_def unat_mod word_le_nat_alt word_less_nat_alt unat_sub)
  have idx: "ring_widx order ?r' = ?w + 1" "ring_ridx order ?r' = ?r"
    by (simp_all add: ring_widx_def ring_ridx_def)
  have ok': "ring_ok sz order ?r'" unfolding ring_ok_nat idx inc using o lt by auto
  have "?i \<noteq> k mod unat sz" if "unat ?r \<le> k" "k < unat ?w" for k
    using mod_ring_neq [OF that lt] by simp
  then have "ring_contents sz order ?r' = ring_contents sz order r @ [x]"
    unfolding ring_contents_def idx inc using o i by auto
  with run ok' fresh show ?thesis by (auto simp: ring_fresh_def idx inc)
qed

lemma ring_put_full:
  "ring_ok sz order r \<Longrightarrow> length (ring_contents sz order r) = unat sz \<Longrightarrow> ring_put sz order r x = Some (0, r)"
  by (simp add: ring_ok_nat ring_contents_def ring_put_def Let_def word_less_nat_alt word_le_nat_alt unat_sub)

lemma ring_get_some:
  assumes ok: "ring_ok sz order r" and c: "ring_contents sz order r = x # xs"
  shows "\<exists>r'. ring_get sz order r = Some (1, Some x, r') \<and> ring_ok sz order r' \<and> ring_contents sz order r' = xs"
proof -
  let ?w = "ring_widx order r" and ?r = "ring_ridx order r"
  note o = ok [unfolded ring_ok_nat]
  have lt: "unat ?r < unat ?w" using c by (auto simp: ring_contents_def upt_conv_Cons split: if_splits dest: map_eq_Cons_D)
       (metis list.distinct(1) list.map_disc_iff not_less upt_eq_Nil_conv)
  have split: "[unat ?r..<unat ?w] = unat ?r # [Suc (unat ?r)..<unat ?w]" using lt by (simp add: upt_conv_Cons)
  have inc: "unat (?r + 1) = Suc (unat ?r)"
    using lt unat_u64 [of ?w] by (simp add: unat_word_ariths)
  let ?r' = "r\<lparr>rb_ridx := be_word order (?r + 1)\<rparr>"
  have x: "x = be_word order (rb_buff r ! (unat ?r mod unat sz))"
    "xs = map (\<lambda>k. be_word order (rb_buff r ! (k mod unat sz))) [Suc (unat ?r)..<unat ?w]"
    using c unfolding ring_contents_def split by simp_all
  have run: "ring_get sz order r = Some (1, Some x, ?r')"
    using o lt x by (simp add: ring_get_def Let_def unat_mod word_le_nat_alt word_less_nat_alt unat_sub)
  have idx: "ring_widx order ?r' = ?w" "ring_ridx order ?r' = ?r + 1"
    by (simp_all add: ring_widx_def ring_ridx_def)
  have "ring_ok sz order ?r'" unfolding ring_ok_nat idx inc using o lt by auto
  moreover have "ring_contents sz order ?r' = xs" unfolding ring_contents_def idx inc using x by simp
  ultimately show ?thesis using run by blast
qed

lemma ring_get_none:
  "ring_ok sz order r \<Longrightarrow> ring_contents sz order r = [] \<Longrightarrow> ring_get sz order r = Some (0, None, r)"
  by (auto simp: ring_ok_nat ring_contents_def ring_get_def Let_def word_less_nat_alt)

lemma ring_cap: "ring_ok sz order r \<Longrightarrow> length (ring_contents sz order r) \<le> unat sz"
  by (simp add: ring_ok_nat ring_contents_def)

lemmas ring_laws = ring_put_room ring_put_full ring_get_some ring_get_none ring_cap

interpretation simple_ring: bounded_queue
  "ring_contents FRC_DMA_SIMPLE_PACKAGE_RING_BUFF_SIZE order" "ring_ok FRC_DMA_SIMPLE_PACKAGE_RING_BUFF_SIZE order"
  "ring_fresh order" "unat FRC_DMA_SIMPLE_PACKAGE_RING_BUFF_SIZE"
  "simple_package_ring_put order" "simple_package_ring_get order" for order
  by unfold_locales (simp_all add: simple_package_ring_put_def simple_package_ring_get_def ring_laws)

interpretation ssn_ring: bounded_queue
  "ring_contents FRC_DMA_SSN_RING_BUFF_SIZE order" "ring_ok FRC_DMA_SSN_RING_BUFF_SIZE order"
  "ring_fresh order" "unat FRC_DMA_SSN_RING_BUFF_SIZE" "ssn_ring_put order" "ssn_ring_get order" for order
  by unfold_locales (simp_all add: ssn_ring_put_def ssn_ring_get_def ring_laws)

section \<open>Properties\<close>

definition ring_init :: "u64 \<Rightarrow> ring_buff" where
  "ring_init sz = \<lparr>rb_widx = 0, rb_ridx = 0, rb_buff = replicate (unat sz) 0\<rparr>"

lemma be_word_0 [simp]: "be_word order 0 = 0"
  by (simp add: be_word_def SWAP_8_BYTE_def split: byte_order.split)

lemma ring_init_ok: "0 < sz \<Longrightarrow> ring_ok sz order (ring_init sz)" "ring_contents sz order (ring_init sz) = []"
  "n < 2 ^ 64 \<Longrightarrow> ring_fresh order (ring_init sz) n"
  by (simp_all add: ring_ok_def ring_contents_def ring_fresh_def ring_init_def ring_widx_def ring_ridx_def)

text \<open>The same memory seen by a machine of the other byte order.\<close>

definition ring_view :: "ring_buff \<Rightarrow> ring_buff" where
  "ring_view r = \<lparr>rb_widx = SWAP_8_BYTE (rb_widx r), rb_ridx = SWAP_8_BYTE (rb_ridx r),
     rb_buff = map SWAP_8_BYTE (rb_buff r)\<rparr>"

lemma ring_put_queue:
  assumes "ring_ok sz order r" "ring_fresh order r 1"
  shows "\<exists>r'. ring_put sz order r x = Some (if length (ring_contents sz order r) < unat sz then 1 else 0, r') \<and>
      ring_ok sz order r' \<and> ring_contents sz order r' =
        (if length (ring_contents sz order r) < unat sz then ring_contents sz order r @ [x] else ring_contents sz order r)"
  using ring_put_room [OF assms(1), of 0 x] ring_put_full [OF assms(1), of x] ring_cap [OF assms(1)] assms
  by (cases "length (ring_contents sz order r) < unat sz") auto

lemma ring_get_queue:
  assumes "ring_ok sz order r"
  shows "\<exists>r'. ring_get sz order r = Some (case ring_contents sz order r of [] \<Rightarrow> (0, None, r') | y # ys \<Rightarrow> (1, Some y, r')) \<and>
      ring_ok sz order r' \<and> ring_contents sz order r' = tl (ring_contents sz order r)"
  using ring_get_some [OF assms(1)] ring_get_none [OF assms(1)] assms(1)
  by (cases "ring_contents sz order r") auto

text \<open>
  C21. The simple-package ring is a bounded first-in first-out queue of 20480 block addresses on either
  byte order: a put into a ring with room returns 1 and appends, a put into a full ring returns 0 and
  changes nothing, a get returns 1 and the oldest address, a get from an empty ring returns 0; the
  invariant is kept and no cell access is out of range.
\<close>

theorem simple_ring_is_queue:
  assumes "ring_ok FRC_DMA_SIMPLE_PACKAGE_RING_BUFF_SIZE order r" and "ring_fresh order r 1"
    and "ring_contents FRC_DMA_SIMPLE_PACKAGE_RING_BUFF_SIZE order r = q"
  shows "(\<exists>r'. simple_package_ring_put order r x = Some (if length q < 20480 then 1 else 0, r') \<and>
      ring_ok FRC_DMA_SIMPLE_PACKAGE_RING_BUFF_SIZE order r' \<and>
      ring_contents FRC_DMA_SIMPLE_PACKAGE_RING_BUFF_SIZE order r' = (if length q < 20480 then q @ [x] else q)) \<and>
    (\<exists>r'. simple_package_ring_get order r = Some (case q of [] \<Rightarrow> (0, None, r') | y # ys \<Rightarrow> (1, Some y, r')) \<and>
      ring_ok FRC_DMA_SIMPLE_PACKAGE_RING_BUFF_SIZE order r' \<and>
      ring_contents FRC_DMA_SIMPLE_PACKAGE_RING_BUFF_SIZE order r' = tl q)"
proof -
  have cap: "unat FRC_DMA_SIMPLE_PACKAGE_RING_BUFF_SIZE = 20480" by (simp add: c_consts)
  show ?thesis
    using ring_put_queue [OF assms(1,2), of x, unfolded assms(3)] ring_get_queue [OF assms(1), unfolded assms(3)]
    by (simp add: cap simple_package_ring_put_def simple_package_ring_get_def)
qed

theorem simple_ring_is_queue_witness:
  "\<exists>r'. simple_package_ring_put LITTLE_ENDIAN (ring_init 20480) 7 = Some (1, r') \<and>
     ring_contents 20480 LITTLE_ENDIAN r' = [7]"
  using simple_ring_is_queue [of LITTLE_ENDIAN "ring_init 20480" "[]" 7] ring_init_ok(1) [of 20480 LITTLE_ENDIAN]
    ring_init_ok(2) [of 20480 LITTLE_ENDIAN] ring_init_ok(3) [of 1 LITTLE_ENDIAN 20480]
  by (auto simp: FRC_DMA_SIMPLE_PACKAGE_RING_BUFF_SIZE_def)

text \<open>
  Addresses come out of a session ring in the order they went in: from an empty ring, any number of
  puts up to the capacity followed by as many gets returns the same list, and leaves the ring empty.
\<close>

theorem ssn_ring_fifo:
  assumes "ring_ok FRC_DMA_SSN_RING_BUFF_SIZE order r" "ring_contents FRC_DMA_SSN_RING_BUFF_SIZE order r = []"
    and "length xs \<le> 400896" "ring_fresh order r (length xs)"
  shows "\<exists>r1 r2. for_each xs (\<lambda>x r. map_option snd (ssn_ring_put order r x)) r = Some r1 \<and>
    for_each xs (\<lambda>x r. case ssn_ring_get order r of
        Some (n, Some y, r') \<Rightarrow> if n = 1 \<and> y = x then Some r' else None | _ \<Rightarrow> None) r1 = Some r2 \<and>
    ring_contents FRC_DMA_SSN_RING_BUFF_SIZE order r2 = []"
proof -
  have puts: "for_each xs (\<lambda>x r. map_option snd (ssn_ring_put order r x)) r = ssn_ring.put_all order xs r" for r
    by (induction xs arbitrary: r) (auto split: option.splits)
  have gets: "ssn_ring.get_n order (length xs) r = Some (xs, r2) \<Longrightarrow> ring_ok FRC_DMA_SSN_RING_BUFF_SIZE order r \<Longrightarrow>
      for_each xs (\<lambda>x r. case ssn_ring_get order r of
        Some (n, Some y, r') \<Rightarrow> if n = 1 \<and> y = x then Some r' else None | _ \<Rightarrow> None) r = Some r2" for r r2
  proof (induction xs arbitrary: r)
    case (Cons x xs)
    have "ring_contents FRC_DMA_SSN_RING_BUFF_SIZE order r \<noteq> []"
      using Cons.prems ssn_ring.get_none [OF Cons.prems(2)] by auto
    then obtain y ys where "ring_contents FRC_DMA_SSN_RING_BUFF_SIZE order r = y # ys" by (meson neq_Nil_conv)
    from ssn_ring.get_some [OF Cons.prems(2) this] Cons show ?case by auto
  qed simp
  obtain r1 r2 where r: "ssn_ring.put_all order xs r = Some r1" "ring_ok FRC_DMA_SSN_RING_BUFF_SIZE order r1"
    "ssn_ring.get_n order (length xs) r1 = Some (xs, r2)" "ring_contents FRC_DMA_SSN_RING_BUFF_SIZE order r2 = []"
    using ssn_ring.put_get_fifo [OF assms(1,2) _ assms(4)] ssn_ring.put_all_contents [OF assms(1) _ assms(4)] assms(2,3)
    by (auto simp: c_consts)
  show ?thesis using puts gets [OF r(3,2)] r by auto
qed

theorem ssn_ring_fifo_witness:
  "\<exists>r1. for_each [3, 1, 2] (\<lambda>x r. map_option snd (ssn_ring_put LITTLE_ENDIAN r x)) (ring_init 400896) = Some r1"
proof -
  have sz: "FRC_DMA_SSN_RING_BUFF_SIZE = 400896" by (simp add: c_consts)
  have "ring_fresh LITTLE_ENDIAN (ring_init 400896) (length [3, 1, 2 :: u64])"
    by (rule ring_init_ok(3)) simp
  then show ?thesis
    using ssn_ring_fifo [of LITTLE_ENDIAN "ring_init 400896" "[3, 1, 2]", unfolded sz,
        OF ring_init_ok(1) ring_init_ok(2)] by (auto simp del: for_each.simps)
qed

text \<open>
  The two sides of a ring agree: what a little-endian host does to the shared memory is what a
  big-endian core would do to its own view of it, for puts and for gets, and the value fetched is the
  same.
\<close>

theorem ring_byte_orders_agree:
  "ring_put sz BIG_ENDIAN (ring_view r) x =
     map_option (map_prod id ring_view) (ring_put sz LITTLE_ENDIAN r x) \<and>
   ring_get sz BIG_ENDIAN (ring_view r) =
     map_option (map_prod id (map_prod id ring_view)) (ring_get sz LITTLE_ENDIAN r)"
  by (auto simp: ring_put_def ring_get_def Let_def ring_widx_def ring_ridx_def be_word_def ring_view_def
      arr_set_def arr_get_def map_update)

end
