(* ===== verification/HostMem.thy ===== *)
theory HostMem
  imports Prelude
begin

text \<open>
  The memory of the host as the core's DMA engine reaches it: a function from 64-bit bus addresses to
  bytes. A transfer overwrites the bytes of its range and no others, so that two transfers whose ranges
  meet overwrite each other. The lemmas say when what was written can still be read: a later write keeps
  it when the ranges are clear of each other, both measured upwards with wrap-around at the end of the address space.
\<close>

type_synonym memory = "u64 \<Rightarrow> u8"

definition write_bytes :: "u64 \<Rightarrow> u8 list \<Rightarrow> memory \<Rightarrow> memory" where
  "write_bytes a bytes m = (\<lambda>x. if unat (x - a) < length bytes then bytes ! unat (x - a) else m x)"

definition read_bytes :: "memory \<Rightarrow> u64 \<Rightarrow> nat \<Rightarrow> u8 list" where
  "read_bytes m a n = map (\<lambda>i. m (a + of_nat i)) [0..<n]"

text \<open>The transfers of one descriptor list, in its order.\<close>

definition write_blocks :: "(u64 \<times> u8 list) list \<Rightarrow> memory \<Rightarrow> memory" where
  "write_blocks ds m = fold (\<lambda>(a, bytes). write_bytes a bytes) ds m"

text \<open>Two ranges that do not meet.\<close>

definition clear_of :: "u64 \<Rightarrow> nat \<Rightarrow> u64 \<Rightarrow> nat \<Rightarrow> bool" where
  "clear_of a n b k \<longleftrightarrow> n \<le> unat (b - a) \<and> k \<le> unat (a - b)"

lemma clear_of_sym: "clear_of a n b k \<longleftrightarrow> clear_of b k a n"
  by (auto simp: clear_of_def)

lemma length_read_bytes [simp]: "length (read_bytes m a n) = n"
  by (simp add: read_bytes_def)

lemma read_bytes_cong: "(\<And>i. i < n \<Longrightarrow> m (a + of_nat i) = m' (a + of_nat i)) \<Longrightarrow> read_bytes m a n = read_bytes m' a n"
  by (simp add: read_bytes_def)

lemma unat_small: "i < n \<Longrightarrow> n < 2 ^ 64 \<Longrightarrow> unat (of_nat i :: u64) = i"
  by (simp add: unat_of_nat)

lemma read_written:
  assumes "length bytes < 2 ^ 64"
  shows "read_bytes (write_bytes a bytes m) a (length bytes) = bytes"
  by (rule nth_equalityI) (simp_all add: read_bytes_def write_bytes_def unat_small [OF _ assms])

lemma unat_diff_complement:
  assumes "a \<noteq> (b :: u64)"
  shows "unat (a - b) + unat (b - a) = 2 ^ 64"
proof -
  have "unat a \<noteq> unat b" "unat a < 2 ^ 64" "unat b < 2 ^ 64"
    using assms unat_u64 [of a] unat_u64 [of b] by (simp_all add: word_unat_eq_iff)
  then show ?thesis by (auto simp: unat_sub_if')
qed

text \<open>A byte of one range is not a byte of a range clear of it.\<close>

lemma clear_of_outside:
  assumes "clear_of a n b k" "i < k" "k < 2 ^ 64"
  shows "n \<le> unat (b + of_nat i - a)"
proof (cases "a = b")
  case True
  then show ?thesis using assms by (simp add: clear_of_def)
next
  case False
  have "unat (b - a) + i < 2 ^ 64"
    using unat_diff_complement [OF False] assms by (simp add: clear_of_def)
  moreover have "b + of_nat i - a = (b - a) + of_nat i" by simp
  ultimately have "unat (b + of_nat i - a) = unat (b - a) + i"
    using assms by (simp only: unat_word_ariths) (simp add: unat_of_nat)
  then show ?thesis using assms by (simp add: clear_of_def)
qed

lemma read_clear:
  assumes "clear_of a (length bytes) b n" "n < 2 ^ 64"
  shows "read_bytes (write_bytes a bytes m) b n = read_bytes m b n"
  using clear_of_outside [OF assms(1) _ assms(2)] by (intro read_bytes_cong) (fastforce simp: write_bytes_def dest: leD)

lemma write_blocks_Nil [simp]: "write_blocks [] m = m"
  by (simp add: write_blocks_def)

lemma write_blocks_Cons: "write_blocks ((a, bytes) # ds) m = write_blocks ds (write_bytes a bytes m)"
  by (simp add: write_blocks_def)

lemma write_blocks_append: "write_blocks (as @ bs) m = write_blocks bs (write_blocks as m)"
  by (simp add: write_blocks_def)

lemma read_blocks_clear:
  assumes "\<forall>(a, bytes) \<in> set ds. clear_of a (length bytes) b n" "n < 2 ^ 64"
  shows "read_bytes (write_blocks ds m) b n = read_bytes m b n"
  using assms(1)
proof (induction ds arbitrary: m)
  case (Cons d ds)
  then show ?case by (cases d) (simp add: write_blocks_Cons read_clear [OF _ assms(2)])
qed simp

text \<open>What a list of transfers to ranges clear of each other leaves in each of them.\<close>

lemma read_blocks:
  assumes "i < length ds" "ds ! i = (a, bytes)" "length bytes < 2 ^ 64"
    and "\<forall>j < length ds. j \<noteq> i \<longrightarrow> clear_of (fst (ds ! j)) (length (snd (ds ! j))) a (length bytes)"
  shows "read_bytes (write_blocks ds m) a (length bytes) = bytes"
proof -
  have split: "ds = take i ds @ (a, bytes) # drop (Suc i) ds" using id_take_nth_drop [OF assms(1)] assms(2) by simp
  have "\<forall>(b, bs) \<in> set (drop (Suc i) ds). clear_of b (length bs) a (length bytes)"
  proof (clarsimp simp: in_set_conv_nth)
    fix b bs k assume "k < length ds - Suc i" "ds ! Suc (i + k) = (b, bs)"
    then show "clear_of b (length bs) a (length bytes)" using assms(4) [rule_format, of "Suc (i + k)"] by simp
  qed
  then have "read_bytes (write_blocks (drop (Suc i) ds) m') a (length bytes) = read_bytes m' a (length bytes)" for m'
    using read_blocks_clear assms(3) by blast
  then show ?thesis
    by (subst split) (simp add: write_blocks_append write_blocks_Cons read_written [OF assms(3)])
qed

text \<open>Blocks at least \<open>n\<close> bytes long from one address to the next.\<close>

definition spaced :: "nat \<Rightarrow> u64 list \<Rightarrow> bool" where
  "spaced n addrs \<longleftrightarrow> (\<forall>i < length addrs. \<forall>j < length addrs. i \<noteq> j \<longrightarrow> clear_of (addrs ! i) n (addrs ! j) n)"

lemma spacedD:
  assumes "spaced n addrs" "i < length addrs" "j < length addrs" "i \<noteq> j" "k \<le> n" "l \<le> n"
  shows "clear_of (addrs ! i + off) k (addrs ! j + off) l"
  using assms by (fastforce simp: spaced_def clear_of_def)

end
