(* ===== verification/Chan.thy ===== *)
theory Chan
  imports Ring HostMem
begin

text \<open>
  The simple-package channel of \<^verbatim>\<open>frcore/frcore_chan.c\<close>: packets are queued in a per-core fifo and posted
  to the host in batches. A batch takes block addresses from the host's available ring, copies the
  packets into the blocks by DMA, and returns the addresses through the completed ring. The rule
  channel (\<^verbatim>\<open>frcore_rule_fifo_post\<close> and \<^verbatim>\<open>frcore_rule_packet_fifo_add\<close>) is the same code with its own
  back-off variables and two more bytes per packet.

  The state is one channel, the fifo of one core, and the host memory that DMA reaches. The DMA
  engine and the cycle counter are not part of the sources: \<open>dma_fails env k\<close> is the outcome of the
  \<open>k\<close>-th transfer, \<open>cycles env k\<close> the \<open>k\<close>-th reading of the counter, and \<open>max_ptrs env\<close> and \<open>max_buf env\<close>
  the constants \<^verbatim>\<open>CN56XX_PASS2_MAX_DMA_LOCAL_POINTERS\<close> and \<^verbatim>\<open>MAX_PCI_DMA_LOCAL_BUF_SIZE\<close>; \<open>stack env\<close> is what a local
  variable holds where the code never writes it. A failed transfer leaves its destination as it was. A write
  beyond an array is the fault \<open>None\<close>.
\<close>

section \<open>Data\<close>

record env =
  dma_fails :: "nat \<Rightarrow> bool"
  cycles :: "nat \<Rightarrow> u64"
  cpu_freq :: u64
  max_ptrs :: nat
  max_buf :: nat
  stack :: "nat \<Rightarrow> u8"

datatype chan_stat =
    stat_dma_errors | stat_avail_get_no_space | stat_dma_bytes | stat_dma_pkts | stat_dma_pkt_infos
  | stat_dma_blocks | stat_compl_put_no_space | stat_avail_get_err | stat_avail_get | stat_pkt_post_err
  | stat_post_err_pkts | stat_pkt_post | stat_compl_put_err | stat_compl_put | stat_pkt_oversize
  | stat_queue_no_space | stat_dma_enqueue_errs | stat_dma_enqueue_pkts

definition FRC_SIMPLE_RING_BUFF_SIZE :: nat where [c_consts]: "FRC_SIMPLE_RING_BUFF_SIZE = 20480"
definition FRC_DMA_OFFSET :: u64 where [c_consts]: "FRC_DMA_OFFSET = 40"
definition FRC_DMA_SIMPLE_PACKAGE_DATA_SIZE :: nat where [c_consts]: "FRC_DMA_SIMPLE_PACKAGE_DATA_SIZE = 2008"
definition DMA_CHANNEL_REST_DIV :: u64 where [c_consts]: "DMA_CHANNEL_REST_DIV = 10"
definition sizeof_hdr :: nat where [c_consts]: "sizeof_hdr = 40"
definition sizeof_info :: nat where [c_consts]: "sizeof_info = 32"

text \<open>The host memory: the two rings with their counters, and the bytes everywhere else.\<close>

record host_mem =
  h_avail_widx :: u64
  h_avail_ridx :: u64
  h_avail_ring :: "u64 list"
  h_compl_widx :: u64
  h_compl_ridx :: u64
  h_compl_ring :: "u64 list"
  h_mem :: memory

record simple_package_chan =
  avail_widx :: u64
  avail_ridx :: u64
  compl_widx :: u64
  compl_ridx :: u64

record fifo_cell =
  pkt_size :: u16
  cell_data :: "u8 list"

record simple_package_fifo =
  local_widx :: u64
  local_ridx :: u64
  post_cycle :: u64
  idx_buff :: "u64 list"
  fifo_cells :: "fifo_cell list"

record chan_world =
  w_host :: host_mem
  w_chan :: simple_package_chan
  w_fifo :: simple_package_fifo
  w_exhaust :: bool
  w_last_display :: u64
  w_dma :: nat
  w_tick :: nat
  w_stat :: "chan_stat \<Rightarrow> u64"

definition FRCORE_CORE_FIFO_NUM :: "env \<Rightarrow> nat" where
  "FRCORE_CORE_FIFO_NUM env = max_ptrs env * 16"

definition FRCORE_CHAN_POST_LWM :: "env \<Rightarrow> nat" where
  "FRCORE_CHAN_POST_LWM env = max_ptrs env * 16"

section \<open>The environment\<close>

definition stat_add :: "chan_stat \<Rightarrow> u64 \<Rightarrow> chan_world \<Rightarrow> chan_world" where
  "stat_add s v w = w\<lparr>w_stat := (w_stat w)(s := w_stat w s + v)\<rparr>"

abbreviation stat_inc :: "chan_stat \<Rightarrow> chan_world \<Rightarrow> chan_world" where
  "stat_inc s \<equiv> stat_add s 1"

definition dma_start :: "env \<Rightarrow> chan_world \<Rightarrow> bool \<times> chan_world" where
  "dma_start env w = (dma_fails env (w_dma w), w\<lparr>w_dma := w_dma w + 1\<rparr>)"

text \<open>The lines \<^verbatim>\<open>if (frcore_copy_...(...)) { FRCORE_STAT_INC(stat_dma_errors); ...; return FRE_DMA; }\<close>: a
  transfer, and the rest of the function after its success.\<close>

definition with_dma :: "env \<Rightarrow> chan_world \<Rightarrow> (chan_world \<Rightarrow> (int \<times> chan_world) option) \<Rightarrow> (int \<times> chan_world) option" where
  "with_dma env w k =
     (let (fail, w1) = dma_start env w in
      if fail then Some (FRE_DMA, stat_inc stat_dma_errors w1) else k w1)"

definition get_cycle :: "env \<Rightarrow> chan_world \<Rightarrow> u64 \<times> chan_world" where
  "get_cycle env w = (cycles env (w_tick w), w\<lparr>w_tick := w_tick w + 1\<rparr>)"

text \<open>Copies between arrays: a range outside either array is a fault.\<close>

definition get_slice :: "'a list \<Rightarrow> nat \<Rightarrow> nat \<Rightarrow> 'a list option" where
  "get_slice xs off n = (if off + n \<le> length xs then Some (take n (drop off xs)) else None)"

definition put_slice :: "'a list \<Rightarrow> nat \<Rightarrow> 'a list \<Rightarrow> 'a list option" where
  "put_slice xs off ys =
     (if off + length ys \<le> length xs then Some (take off xs @ ys @ drop (off + length ys) xs) else None)"

section \<open>Taking block addresses from the available ring\<close>

definition avail_copy :: "nat \<Rightarrow> nat \<Rightarrow> nat \<Rightarrow> chan_world \<Rightarrow> chan_world option" where
  "avail_copy src dst n w = do {
     xs \<leftarrow> get_slice (h_avail_ring (w_host w)) src n;
     b \<leftarrow> put_slice (idx_buff (w_fifo w)) dst xs;
     Some (w\<lparr>w_fifo := (w_fifo w)\<lparr>idx_buff := b\<rparr>\<rparr>)
   }"

definition avail_commit :: "env \<Rightarrow> u64 \<Rightarrow> nat \<Rightarrow> chan_world \<Rightarrow> (int \<times> chan_world) option" where
  "avail_commit env ridx number w =
     with_dma env (w\<lparr>w_chan := (w_chan w)\<lparr>avail_ridx := ridx + of_nat number\<rparr>\<rparr>) (\<lambda>w.
       Some (FRE_SUCCESS, w\<lparr>w_host := (w_host w)\<lparr>h_avail_ridx := avail_ridx (w_chan w)\<rparr>\<rparr>))"

definition frcore_simple_package_chan_avail_get :: "env \<Rightarrow> nat \<Rightarrow> chan_world \<Rightarrow> (int \<times> chan_world) option" where
  "frcore_simple_package_chan_avail_get env number w =
     with_dma env w (\<lambda>w.
       let w = w\<lparr>w_chan := (w_chan w)\<lparr>avail_widx := h_avail_widx (w_host w)\<rparr>\<rparr>;
           ridx = avail_ridx (w_chan w);
           widx = avail_widx (w_chan w);
           alen = unat (widx - ridx);
           offset = unat ridx mod FRC_SIMPLE_RING_BUFF_SIZE;
           len1 = min (FRC_SIMPLE_RING_BUFF_SIZE - offset) number
       in if alen < number then Some (FRE_NOSPACE, stat_inc stat_avail_get_no_space w)
       else with_dma env w (\<lambda>w. do {
         w \<leftarrow> avail_copy offset 0 len1 w;
         if len1 < number
         then with_dma env w (\<lambda>w. do {
           w \<leftarrow> avail_copy 0 len1 (number - len1) w;
           avail_commit env ridx number w
         })
         else avail_commit env ridx number w
       }))"

section \<open>Copying the packets\<close>

text \<open>One transfer descriptor: the host address, and the bytes of the cell.\<close>

definition post_desc :: "env \<Rightarrow> nat \<Rightarrow> chan_world \<Rightarrow> ((u64 \<times> u8 list) \<times> chan_world) option" where
  "post_desc env cur w = do {
     let cur_offset = unat (local_ridx (w_fifo w) + of_nat cur) mod FRCORE_CORE_FIFO_NUM env;
     remote_addr \<leftarrow> arr_get (idx_buff (w_fifo w)) cur;
     c \<leftarrow> arr_get (fifo_cells (w_fifo w)) cur_offset;
     bytes \<leftarrow> get_slice (cell_data c) 0 (unat (pkt_size c));
     let w = stat_add stat_dma_bytes (ucast (pkt_size c) - of_nat sizeof_hdr - of_nat sizeof_info) w;
     let w = stat_inc stat_dma_pkts w;
     let w = stat_inc stat_dma_pkt_infos w;
     Some ((remote_addr + FRC_DMA_OFFSET, bytes), w)
   }"

fun post_descs :: "env \<Rightarrow> nat list \<Rightarrow> chan_world \<Rightarrow> ((u64 \<times> u8 list) list \<times> chan_world) option" where
  "post_descs env [] w = Some ([], w)"
| "post_descs env (cur # curs) w = do {
     (d, w1) \<leftarrow> post_desc env cur w;
     (ds, w2) \<leftarrow> post_descs env curs w1;
     Some (d # ds, w2)
   }"

text \<open>\<^verbatim>\<open>frcore_dma_scatter(DMA_DIR_SEND, ...)\<close> refuses an empty descriptor list, one with too many
  entries, and an entry of size 0 or beyond the largest buffer, before the transfer starts.\<close>

definition dma_scatter_send :: "env \<Rightarrow> (u64 \<times> u8 list) list \<Rightarrow> chan_world \<Rightarrow> bool \<times> chan_world" where
  "dma_scatter_send env ds w =
     (if ds = [] \<or> length ds > max_ptrs env then (True, stat_inc stat_dma_errors w)
      else if list_ex (\<lambda>(a, bytes). bytes = [] \<or> length bytes > max_buf env) ds then (True, w)
      else let (fail, w) = dma_start env w in
        if fail then (True, stat_inc stat_dma_errors w)
        else (False, w\<lparr>w_host := (w_host w)\<lparr>h_mem := write_blocks ds (h_mem (w_host w))\<rparr>\<rparr>))"

function post_pkts :: "env \<Rightarrow> nat \<Rightarrow> nat \<Rightarrow> nat \<Rightarrow> chan_world \<Rightarrow> (nat \<times> chan_world) option" where
  "post_pkts env pkt_remain cur pkt_posted w =
     (if pkt_remain = 0 then Some (pkt_posted, w)
      else let pkt_numb = min (max_ptrs env) pkt_remain in
        case post_descs env [cur..<cur + pkt_numb] w of
          None \<Rightarrow> None
        | Some (ds, w1) \<Rightarrow>
            let (fail, w2) = dma_scatter_send env ds w1 in
            if fail \<or> pkt_numb = 0 then Some (pkt_posted, stat_inc stat_dma_errors w2)
            else post_pkts env (pkt_remain - pkt_numb) (cur + pkt_numb) (pkt_posted + pkt_numb)
                   (stat_add stat_dma_blocks (of_nat pkt_numb) w2))"
  by pat_completeness auto

termination
  by (relation "measure (\<lambda>(env, pkt_remain, _). pkt_remain)") auto

declare post_pkts.simps [simp del]

definition frcore_simple_package_chan_post_pkt :: "env \<Rightarrow> nat \<Rightarrow> chan_world \<Rightarrow> (nat \<times> chan_world) option" where
  "frcore_simple_package_chan_post_pkt env local_num w = post_pkts env local_num 0 0 w"

section \<open>Returning the addresses through the completed ring\<close>

definition compl_copy :: "nat \<Rightarrow> nat \<Rightarrow> nat \<Rightarrow> chan_world \<Rightarrow> chan_world option" where
  "compl_copy src dst n w = do {
     xs \<leftarrow> get_slice (idx_buff (w_fifo w)) src n;
     r \<leftarrow> put_slice (h_compl_ring (w_host w)) dst xs;
     Some (w\<lparr>w_host := (w_host w)\<lparr>h_compl_ring := r\<rparr>\<rparr>)
   }"

definition compl_commit :: "env \<Rightarrow> u64 \<Rightarrow> nat \<Rightarrow> chan_world \<Rightarrow> (int \<times> chan_world) option" where
  "compl_commit env widx number w =
     with_dma env (w\<lparr>w_chan := (w_chan w)\<lparr>compl_widx := widx + of_nat number\<rparr>\<rparr>) (\<lambda>w.
       Some (FRE_SUCCESS, w\<lparr>w_host := (w_host w)\<lparr>h_compl_widx := compl_widx (w_chan w)\<rparr>\<rparr>))"

definition frcore_simple_package_chan_compl_put :: "env \<Rightarrow> nat \<Rightarrow> chan_world \<Rightarrow> (int \<times> chan_world) option" where
  "frcore_simple_package_chan_compl_put env number w =
     with_dma env w (\<lambda>w.
       let w = w\<lparr>w_chan := (w_chan w)\<lparr>compl_ridx := h_compl_ridx (w_host w)\<rparr>\<rparr>;
           ridx = compl_ridx (w_chan w);
           widx = compl_widx (w_chan w);
           offset = unat widx mod FRC_SIMPLE_RING_BUFF_SIZE;
           len1 = min (FRC_SIMPLE_RING_BUFF_SIZE - offset) number
       in if widx - ridx > of_nat FRC_SIMPLE_RING_BUFF_SIZE - of_nat number
       then Some (FRE_NOSPACE, stat_inc stat_compl_put_no_space w)
       else with_dma env w (\<lambda>w. do {
         w \<leftarrow> compl_copy 0 offset len1 w;
         if len1 < number
         then with_dma env w (\<lambda>w. do {
           w \<leftarrow> compl_copy len1 0 (number - len1) w;
           compl_commit env widx number w
         })
         else compl_commit env widx number w
       }))"

section \<open>Posting a fifo\<close>

text \<open>
  The loop \<^verbatim>\<open>while (local_num)\<close> of \<^verbatim>\<open>frcore_simple_package_fifo_post\<close> (and of \<^verbatim>\<open>frcore_rule_fifo_post\<close>):
  back off while the host had no block a short while ago; take the addresses, copy the packets,
  complete the blocks, advance the fifo.
\<close>

definition post_go :: "env \<Rightarrow> nat \<Rightarrow> chan_world \<Rightarrow> (bool \<times> chan_world) option" where
  "post_go env post_num w = do {
     (rv, w) \<leftarrow> frcore_simple_package_chan_avail_get env post_num w;
     if rv = FRE_NOSPACE then
       let (now, w) = get_cycle env (w\<lparr>w_exhaust := True\<rparr>) in Some (False, w\<lparr>w_last_display := now\<rparr>)
     else if rv \<noteq> FRE_SUCCESS then Some (False, stat_inc stat_avail_get_err w)
     else do {
       let w = stat_inc stat_avail_get (w\<lparr>w_exhaust := False\<rparr>);
       (posted_num, w) \<leftarrow> frcore_simple_package_chan_post_pkt env post_num w;
       let w = (if posted_num < post_num
                then stat_add stat_post_err_pkts (of_nat (post_num - posted_num)) (stat_inc stat_pkt_post_err w)
                else stat_inc stat_pkt_post w);
       (rv, w) \<leftarrow> frcore_simple_package_chan_compl_put env post_num w;
       if rv \<noteq> FRE_SUCCESS then Some (False, stat_inc stat_compl_put_err w)
       else do {
         let w = stat_inc stat_compl_put w;
         let (now, w) = get_cycle env w;
         Some (True, w\<lparr>w_fifo := (w_fifo w)\<lparr>local_ridx := local_ridx (w_fifo w) + of_nat post_num, post_cycle := now\<rparr>\<rparr>)
       }
     }
   }"

definition post_batch :: "env \<Rightarrow> nat \<Rightarrow> chan_world \<Rightarrow> (bool \<times> chan_world) option" where
  "post_batch env post_num w =
     (if w_exhaust w
      then let (now, w) = get_cycle env w in
        if now - w_last_display w < cpu_freq env div DMA_CHANNEL_REST_DIV then Some (False, w)
        else post_go env post_num w
      else post_go env post_num w)"

partial_function (option) post_loop :: "env \<Rightarrow> nat \<Rightarrow> chan_world \<Rightarrow> chan_world option" where
  "post_loop env local_num w =
     (if local_num = 0 then Some w
      else do {
        let post_num = (if local_num < FRCORE_CHAN_POST_LWM env then local_num else FRCORE_CHAN_POST_LWM env);
        (more, w') \<leftarrow> post_batch env post_num w;
        if more then post_loop env (local_num - post_num) w' else Some w'
      })"

definition frcore_simple_package_fifo_post :: "env \<Rightarrow> bool \<Rightarrow> chan_world \<Rightarrow> chan_world option" where
  "frcore_simple_package_fifo_post env flag w =
     (let local_num = unat (local_widx (w_fifo w) - local_ridx (w_fifo w)) in
      if flag then if local_num \<noteq> FRCORE_CHAN_POST_LWM env then Some w else post_loop env local_num w
      else if local_num = 0 then Some w else post_loop env local_num w)"

text \<open>The rule channel's function has the same body over the variables \<^verbatim>\<open>rule_block_exhaust\<close> and
  \<^verbatim>\<open>rule_last_display\<close>, which are the fields \<open>w_exhaust\<close> and \<open>w_last_display\<close> of its own state.\<close>

definition frcore_rule_fifo_post :: "env \<Rightarrow> bool \<Rightarrow> chan_world \<Rightarrow> chan_world option" where
  "frcore_rule_fifo_post env flag w =
     (let local_num = unat (local_widx (w_fifo w) - local_ridx (w_fifo w)) in
      if flag then if local_num \<noteq> FRCORE_CHAN_POST_LWM env then Some w else post_loop env local_num w
      else if local_num = 0 then Some w else post_loop env local_num w)"

section \<open>Queueing a packet\<close>

text \<open>The parts of a packet that the functions copy: the bytes of the header structure, of the payload
  and of the info structure; \<open>extra\<close> is empty, or the two bytes of the rule id. A copy beyond the
  2008 bytes of the cell is a fault.\<close>

definition fifo_add :: "env \<Rightarrow> u8 list \<Rightarrow> u8 list \<Rightarrow> u8 list \<Rightarrow> u8 list \<Rightarrow> u16 \<Rightarrow> chan_world \<Rightarrow> (int \<times> chan_world) option" where
  "fifo_add env extra hdr info payload total_paylen w =
     (let paylen = unat total_paylen;
          pkt_len = sizeof_hdr + sizeof_info + paylen + length extra
      in if pkt_len > 2048 then Some (FRE_EXCEED, stat_inc stat_pkt_oversize w)
      else if unat (local_widx (w_fifo w) - local_ridx (w_fifo w)) \<ge> FRCORE_CORE_FIFO_NUM env
      then Some (FRE_NOSPACE, stat_inc stat_queue_no_space w)
      else do {
        let idx_offset = unat (local_widx (w_fifo w)) mod FRCORE_CORE_FIFO_NUM env;
        c \<leftarrow> arr_get (fifo_cells (w_fifo w)) idx_offset;
        hd \<leftarrow> get_slice hdr 0 sizeof_hdr;
        pl \<leftarrow> get_slice payload 0 paylen;
        inf \<leftarrow> get_slice info 0 sizeof_info;
        data \<leftarrow> put_slice (cell_data c) 0 (hd @ extra @ pl @ inf);
        cells \<leftarrow> arr_set (fifo_cells (w_fifo w)) idx_offset \<lparr>pkt_size = of_nat pkt_len, cell_data = data\<rparr>;
        Some (FRE_SUCCESS, w\<lparr>w_fifo := (w_fifo w)\<lparr>fifo_cells := cells, local_widx := local_widx (w_fifo w) + 1\<rparr>\<rparr>)
      })"

definition frcore_simple_package_fifo_add :: "env \<Rightarrow> u8 list \<Rightarrow> u8 list \<Rightarrow> u8 list \<Rightarrow> u16 \<Rightarrow> chan_world \<Rightarrow> (int \<times> chan_world) option" where
  "frcore_simple_package_fifo_add env hdr info payload total_paylen =
     fifo_add env [] hdr info payload total_paylen"

definition frcore_rule_packet_fifo_add :: "env \<Rightarrow> u8 list \<Rightarrow> u8 list \<Rightarrow> u8 list \<Rightarrow> u16 \<Rightarrow> u16 \<Rightarrow> chan_world \<Rightarrow> (int \<times> chan_world) option" where
  "frcore_rule_packet_fifo_add env hdr info payload total_paylen tagid =
     fifo_add env [ucast (drop_bit 8 tagid), ucast tagid] hdr info payload total_paylen"

definition enqueue_result :: "(int \<times> chan_world) option \<Rightarrow> (int \<times> chan_world) option" where
  "enqueue_result r = do {
     (num, w) \<leftarrow> r;
     Some (if num \<noteq> 0 then (FRE_EXCEED, stat_inc stat_dma_enqueue_errs w)
           else (FRE_SUCCESS, stat_inc stat_dma_enqueue_pkts w))
   }"

definition frcore_forward_simple_pkt_to_fifo :: "env \<Rightarrow> u8 list \<Rightarrow> u8 list \<Rightarrow> u8 list \<Rightarrow> u16 \<Rightarrow> chan_world \<Rightarrow> (int \<times> chan_world) option" where
  "frcore_forward_simple_pkt_to_fifo env hdr info payload total_paylen w = do {
     w1 \<leftarrow> frcore_simple_package_fifo_post env True w;
     enqueue_result (frcore_simple_package_fifo_add env hdr info payload total_paylen w1)
   }"

definition frcore_forward_rule_pkt_to_fifo :: "env \<Rightarrow> u16 \<Rightarrow> u8 list \<Rightarrow> u8 list \<Rightarrow> u8 list \<Rightarrow> u16 \<Rightarrow> chan_world \<Rightarrow> (int \<times> chan_world) option" where
  "frcore_forward_rule_pkt_to_fifo env tagid hdr info payload total_paylen w = do {
     w1 \<leftarrow> frcore_rule_fifo_post env True w;
     enqueue_result (frcore_rule_packet_fifo_add env hdr info payload total_paylen tagid w1)
   }"

section \<open>Memory safety and termination\<close>

text \<open>The sizes of the arrays, that no cell holds more than its data area, and that one transfer buffer
  can hold a cell.\<close>

definition mem_ok :: "env \<Rightarrow> chan_world \<Rightarrow> bool" where
  "mem_ok env w \<longleftrightarrow> 0 < FRCORE_CORE_FIFO_NUM env \<and> FRCORE_CORE_FIFO_NUM env \<le> FRC_SIMPLE_RING_BUFF_SIZE \<and>
     FRC_DMA_SIMPLE_PACKAGE_DATA_SIZE \<le> max_buf env \<and>
     length (h_avail_ring (w_host w)) = FRC_SIMPLE_RING_BUFF_SIZE \<and>
     length (h_compl_ring (w_host w)) = FRC_SIMPLE_RING_BUFF_SIZE \<and>
     length (idx_buff (w_fifo w)) = FRCORE_CORE_FIFO_NUM env \<and>
     length (fifo_cells (w_fifo w)) = FRCORE_CORE_FIFO_NUM env \<and>
     list_all (\<lambda>c. length (cell_data c) = FRC_DMA_SIMPLE_PACKAGE_DATA_SIZE \<and>
       unat (pkt_size c) \<le> FRC_DMA_SIMPLE_PACKAGE_DATA_SIZE) (fifo_cells (w_fifo w))"

definition fifo_same :: "chan_world \<Rightarrow> chan_world \<Rightarrow> bool" where
  "fifo_same w w' \<longleftrightarrow> local_widx (w_fifo w') = local_widx (w_fifo w) \<and>
     local_ridx (w_fifo w') = local_ridx (w_fifo w) \<and> fifo_cells (w_fifo w') = fifo_cells (w_fifo w)"

lemma fifo_same_refl [simp]: "fifo_same w w"
  by (simp add: fifo_same_def)

lemma fifo_same_trans [trans]: "fifo_same u v \<Longrightarrow> fifo_same v w \<Longrightarrow> fifo_same u w"
  by (simp add: fifo_same_def)

lemma frame_stat [simp]: "mem_ok env (stat_add s v w) = mem_ok env w" "fifo_same u (stat_add s v w) = fifo_same u w"
  by (simp_all add: mem_ok_def fifo_same_def stat_add_def)

lemma frame_other [simp]:
  "mem_ok env (w\<lparr>w_dma := k\<rparr>) = mem_ok env w" "fifo_same u (w\<lparr>w_dma := k\<rparr>) = fifo_same u w"
  "mem_ok env (w\<lparr>w_tick := k\<rparr>) = mem_ok env w" "fifo_same u (w\<lparr>w_tick := k\<rparr>) = fifo_same u w"
  "mem_ok env (w\<lparr>w_chan := c\<rparr>) = mem_ok env w" "fifo_same u (w\<lparr>w_chan := c\<rparr>) = fifo_same u w"
  "mem_ok env (w\<lparr>w_exhaust := b\<rparr>) = mem_ok env w" "fifo_same u (w\<lparr>w_exhaust := b\<rparr>) = fifo_same u w"
  "mem_ok env (w\<lparr>w_last_display := v\<rparr>) = mem_ok env w" "fifo_same u (w\<lparr>w_last_display := v\<rparr>) = fifo_same u w"
  "mem_ok env (w\<lparr>w_host := (w_host w)\<lparr>h_avail_ridx := v\<rparr>\<rparr>) = mem_ok env w"
  "mem_ok env (w\<lparr>w_host := (w_host w)\<lparr>h_compl_widx := v\<rparr>\<rparr>) = mem_ok env w"
  "mem_ok env (w\<lparr>w_host := (w_host w)\<lparr>h_mem := mem\<rparr>\<rparr>) = mem_ok env w"
  "fifo_same u (w\<lparr>w_host := hm\<rparr>) = fifo_same u w"
  by (simp_all add: mem_ok_def fifo_same_def)

lemma length_put_slice: "put_slice xs off ys = Some zs \<Longrightarrow> length zs = length xs"
  by (auto simp: put_slice_def split: if_splits)

lemma get_slice_Some: "off + n \<le> length xs \<Longrightarrow> get_slice xs off n = Some (take n (drop off xs))"
  by (simp add: get_slice_def)

lemma put_slice_Some:
  "off + length ys \<le> length xs \<Longrightarrow> put_slice xs off ys = Some (take off xs @ ys @ drop (off + length ys) xs)"
  by (simp add: put_slice_def)

text \<open>What a step of the channel does in any environment: it returns, keeps the sizes and leaves the
  packets queued since \<open>u\<close> alone.\<close>

definition frames :: "env \<Rightarrow> chan_world \<Rightarrow> ('a \<times> chan_world) option \<Rightarrow> bool" where
  "frames env u r \<longleftrightarrow> (\<exists>x w'. r = Some (x, w') \<and> mem_ok env w' \<and> fifo_same u w')"

lemma frames_Some [simp]: "frames env u (Some (x, w)) \<longleftrightarrow> mem_ok env w \<and> fifo_same u w"
  by (auto simp: frames_def)

lemma frames_dma:
  assumes "mem_ok env w" "fifo_same u w" "\<And>w1. mem_ok env w1 \<Longrightarrow> fifo_same u w1 \<Longrightarrow>
    w1 = w\<lparr>w_dma := w_dma w + 1\<rparr> \<Longrightarrow> frames env u (k w1)"
  shows "frames env u (with_dma env w k)"
  using assms by (simp add: with_dma_def dma_start_def)

lemma frames_avail_copy:
  assumes "mem_ok env w" "fifo_same u w" "src + n \<le> FRC_SIMPLE_RING_BUFF_SIZE" "dst + n \<le> FRCORE_CORE_FIFO_NUM env"
    and "\<And>w1. mem_ok env w1 \<Longrightarrow> fifo_same u w1 \<Longrightarrow> frames env u (k w1)"
  shows "frames env u (do { w \<leftarrow> avail_copy src dst n w; k w })"
  using assms by (simp add: avail_copy_def get_slice_def put_slice_def mem_ok_def fifo_same_def)

lemma frames_compl_copy:
  assumes "mem_ok env w" "fifo_same u w" "src + n \<le> FRCORE_CORE_FIFO_NUM env" "dst + n \<le> FRC_SIMPLE_RING_BUFF_SIZE"
    and "\<And>w1. mem_ok env w1 \<Longrightarrow> fifo_same u w1 \<Longrightarrow> frames env u (k w1)"
  shows "frames env u (do { w \<leftarrow> compl_copy src dst n w; k w })"
  using assms by (simp add: compl_copy_def get_slice_def put_slice_def mem_ok_def fifo_same_def)

lemma frames_commit:
  assumes "mem_ok env w" "fifo_same u w"
  shows "frames env u (avail_commit env ridx number w)" "frames env u (compl_commit env ridx number w)"
  using assms
  by (simp_all add: avail_commit_def compl_commit_def with_dma_def dma_start_def mem_ok_def fifo_same_def stat_add_def)

text \<open>The two parts of a copy that wraps at the end of a ring of \<open>S\<close> words fit in it.\<close>

lemma ring_split:
  assumes "number \<le> L" "L \<le> (S :: nat)" "0 < S"
  shows "x mod S + min (S - x mod S) number \<le> S" "min (S - x mod S) number \<le> L"
    "min (S - x mod S) number + (number - min (S - x mod S) number) \<le> L" "number - min (S - x mod S) number \<le> S"
proof -
  have "x mod S < S" using assms by simp
  then show "x mod S + min (S - x mod S) number \<le> S" by linarith
  show "min (S - x mod S) number \<le> L" "number - min (S - x mod S) number \<le> S"
    "min (S - x mod S) number + (number - min (S - x mod S) number) \<le> L"
    using assms by linarith+
qed

lemma frames_if:
  "(b \<Longrightarrow> frames env u r) \<Longrightarrow> (\<not> b \<Longrightarrow> frames env u r') \<Longrightarrow> frames env u (if b then r else r')"
  by simp

lemma mem_ok_sizes: "mem_ok env w \<Longrightarrow> 0 < FRCORE_CORE_FIFO_NUM env \<and>
   FRCORE_CORE_FIFO_NUM env \<le> FRC_SIMPLE_RING_BUFF_SIZE \<and> 0 < FRC_SIMPLE_RING_BUFF_SIZE"
  by (auto simp: mem_ok_def)

lemma avail_get_frame:
  assumes ok: "mem_ok env w" "fifo_same u w" and n: "number \<le> FRCORE_CORE_FIFO_NUM env"
  shows "frames env u (frcore_simple_package_chan_avail_get env number w)"
proof -
  note split = ring_split [OF n, of FRC_SIMPLE_RING_BUFF_SIZE]
  have S: "FRCORE_CORE_FIFO_NUM env \<le> FRC_SIMPLE_RING_BUFF_SIZE" "0 < FRC_SIMPLE_RING_BUFF_SIZE"
    using mem_ok_sizes [OF ok(1)] by simp_all
  show ?thesis
    unfolding frcore_simple_package_chan_avail_get_def Let_def
    by (intro frames_dma frames_if frames_avail_copy frames_commit ok split S) (simp_all del: min_less_iff_conj add: min.coboundedI2 n le_diff_conv trans_le_add1 [OF le_trans [OF n S(1)]])
qed

lemma compl_put_frame:
  assumes ok: "mem_ok env w" "fifo_same u w" and n: "number \<le> FRCORE_CORE_FIFO_NUM env"
  shows "frames env u (frcore_simple_package_chan_compl_put env number w)"
proof -
  note split = ring_split [OF n, of FRC_SIMPLE_RING_BUFF_SIZE]
  have S: "FRCORE_CORE_FIFO_NUM env \<le> FRC_SIMPLE_RING_BUFF_SIZE" "0 < FRC_SIMPLE_RING_BUFF_SIZE"
    using mem_ok_sizes [OF ok(1)] by simp_all
  show ?thesis
    unfolding frcore_simple_package_chan_compl_put_def Let_def
    by (intro frames_dma frames_if frames_compl_copy frames_commit ok split S) (simp_all del: min_less_iff_conj add: min.coboundedI2 n le_diff_conv trans_le_add1 [OF le_trans [OF n S(1)]])
qed

text \<open>What the \<open>cur\<close>-th descriptor of a batch says.\<close>

definition desc :: "env \<Rightarrow> simple_package_fifo \<Rightarrow> nat \<Rightarrow> u64 \<times> u8 list" where
  "desc env f cur =
     (let c = fifo_cells f ! (unat (local_ridx f + of_nat cur) mod FRCORE_CORE_FIFO_NUM env)
      in (idx_buff f ! cur + FRC_DMA_OFFSET, take (unat (pkt_size c)) (cell_data c)))"

lemma stat_add_other: "y \<noteq> x \<Longrightarrow> w_stat (stat_add x v w) y = w_stat w y"
  by (simp add: stat_add_def)

lemma w_fifo_stat [simp]: "w_fifo (stat_add s v w) = w_fifo w" "w_host (stat_add s v w) = w_host w"
  "w_chan (stat_add s v w) = w_chan w" "w_dma (stat_add s v w) = w_dma w"
  by (simp_all add: stat_add_def)

lemma post_desc_Some:
  assumes "mem_ok env w" "cur < FRCORE_CORE_FIFO_NUM env"
  shows "\<exists>st. post_desc env cur w = Some (desc env (w_fifo w) cur, w\<lparr>w_stat := st\<rparr>) \<and> st stat_post_err_pkts = w_stat w stat_post_err_pkts"
proof -
  have cell: "unat (local_ridx (w_fifo w) + of_nat cur) mod FRCORE_CORE_FIFO_NUM env < length (fifo_cells (w_fifo w))"
    using assms by (simp add: mem_ok_def)
  from nth_mem [OF cell] show ?thesis
    using assms cell by (auto simp: post_desc_def desc_def mem_ok_def list_all_iff get_slice_def Let_def stat_add_def)
qed

lemma desc_length:
  assumes "mem_ok env w"
  shows "length (snd (desc env (w_fifo w) cur)) \<le> max_buf env"
proof -
  let ?i = "unat (local_ridx (w_fifo w) + of_nat cur) mod FRCORE_CORE_FIFO_NUM env"
  have "?i < length (fifo_cells (w_fifo w))" using assms by (simp add: mem_ok_def)
  from nth_mem [OF this] have "unat (pkt_size (fifo_cells (w_fifo w) ! ?i)) \<le> FRC_DMA_SIMPLE_PACKAGE_DATA_SIZE"
    using assms by (auto simp: mem_ok_def list_all_iff)
  moreover have "FRC_DMA_SIMPLE_PACKAGE_DATA_SIZE \<le> max_buf env" using assms by (simp add: mem_ok_def)
  ultimately show ?thesis by (simp add: desc_def Let_def)
qed

lemma fifo_cell_size:
  assumes "mem_ok env w"
  shows "unat (pkt_size (fifo_cells (w_fifo w) ! (i mod FRCORE_CORE_FIFO_NUM env))) \<le> FRC_DMA_SIMPLE_PACKAGE_DATA_SIZE"
  using assms by (simp add: mem_ok_def list_all_length)

lemma mem_ok_stat [simp]: "mem_ok env (w\<lparr>w_stat := st\<rparr>) = mem_ok env w"
  by (simp add: mem_ok_def)

lemma post_descs_Some:
  assumes "mem_ok env w" "\<forall>cur \<in> set curs. cur < FRCORE_CORE_FIFO_NUM env"
  shows "\<exists>st. post_descs env curs w = Some (map (desc env (w_fifo w)) curs, w\<lparr>w_stat := st\<rparr>) \<and> st stat_post_err_pkts = w_stat w stat_post_err_pkts"
  using assms
proof (induction curs arbitrary: w)
  case Nil
  then show ?case by (auto intro: exI [of _ "w_stat w"])
next
  case (Cons cur curs)
  obtain st where st: "post_desc env cur w = Some (desc env (w_fifo w) cur, w\<lparr>w_stat := st\<rparr>)" "st stat_post_err_pkts = w_stat w stat_post_err_pkts"
    using post_desc_Some [OF Cons.prems(1)] Cons.prems(2) by auto
  from Cons.IH [of "w\<lparr>w_stat := st\<rparr>"] Cons.prems st show ?case by auto
qed

lemma scatter_frame:
  assumes "mem_ok env w" "fifo_same u w"
  shows "mem_ok env (snd (dma_scatter_send env ds w)) \<and> fifo_same u (snd (dma_scatter_send env ds w))"
  using assms by (simp add: dma_scatter_send_def dma_start_def mem_ok_def fifo_same_def stat_add_def Let_def)

lemma post_pkts_frame:
  assumes "mem_ok env w" "fifo_same u w" "cur + pkt_remain \<le> FRCORE_CORE_FIFO_NUM env"
  shows "frames env u (post_pkts env pkt_remain cur posted w)"
  using assms
proof (induction env pkt_remain cur posted w rule: post_pkts.induct)
  case (1 env pkt_remain cur posted w)
  let ?n = "min (max_ptrs env) pkt_remain"
  obtain st where st: "post_descs env [cur..<cur + ?n] w =
      Some (map (desc env (w_fifo w)) [cur..<cur + ?n], w\<lparr>w_stat := st\<rparr>)"
    using post_descs_Some [OF 1(2), of "[cur..<cur + ?n]"] 1(4) by (atomize_elim) (auto simp: min_def)
  obtain fail w2 where w2: "dma_scatter_send env (map (desc env (w_fifo w)) [cur..<cur + ?n]) (w\<lparr>w_stat := st\<rparr>) = (fail, w2)"
    by fastforce
  then have f: "mem_ok env w2" "fifo_same u w2"
    using scatter_frame [of env "w\<lparr>w_stat := st\<rparr>" u "map (desc env (w_fifo w)) [cur..<cur + ?n]"] 1(2,3)
    by (simp_all add: fifo_same_def)
  show ?case
  proof (cases "pkt_remain = 0 \<or> fail \<or> ?n = 0")
    case True
    then show ?thesis using 1(2,3) f st w2 by (subst post_pkts.simps) auto
  next
    case False
    have "frames env u (post_pkts env (pkt_remain - ?n) (cur + ?n) (posted + ?n) (stat_add stat_dma_blocks (of_nat ?n) w2))"
      using 1(4) False w2 st f by (intro 1(1)) (auto simp: Let_def)
    then show ?thesis using False st w2 f by (subst post_pkts.simps) (simp add: Let_def)
  qed
qed

text \<open>A batch: it returns; if the loop goes on, exactly \<open>post_num\<close> packets left the fifo, otherwise none.\<close>

definition batch_frames :: "env \<Rightarrow> nat \<Rightarrow> chan_world \<Rightarrow> (bool \<times> chan_world) option \<Rightarrow> bool" where
  "batch_frames env n u r \<longleftrightarrow> (\<exists>more w'. r = Some (more, w') \<and> mem_ok env w' \<and>
     local_widx (w_fifo w') = local_widx (w_fifo u) \<and> fifo_cells (w_fifo w') = fifo_cells (w_fifo u) \<and>
     local_ridx (w_fifo w') = (if more then local_ridx (w_fifo u) + of_nat n else local_ridx (w_fifo u)))"

lemma batch_frames_Some [simp]:
  "batch_frames env n u (Some (False, w)) \<longleftrightarrow> mem_ok env w \<and> fifo_same u w"
  by (auto simp: batch_frames_def fifo_same_def)

lemma batch_frames_bind:
  assumes "frames env u r" "\<And>x w. mem_ok env w \<Longrightarrow> fifo_same u w \<Longrightarrow> batch_frames env n u (k (x, w))"
  shows "batch_frames env n u (r \<bind> k)"
  using assms by (auto simp: frames_def)

lemma batch_frames_done:
  assumes "mem_ok env w" "fifo_same u w" "f = w_fifo w"
  shows "batch_frames env n u (Some (True, w\<lparr>w_fifo := f\<lparr>local_ridx := local_ridx f + of_nat n, post_cycle := now\<rparr>\<rparr>))"
  using assms by (simp add: batch_frames_def mem_ok_def fifo_same_def exI [of _ True])

lemma post_go_frame:
  assumes ok: "mem_ok env w" "fifo_same u w" and n: "n \<le> FRCORE_CORE_FIFO_NUM env"
  shows "batch_frames env n u (post_go env n w)"
  unfolding post_go_def
proof (rule batch_frames_bind [OF avail_get_frame [OF ok n]], goal_cases)
  case (1 rv w1)
  then show ?case
    using n unfolding frcore_simple_package_chan_post_pkt_def get_cycle_def
    by (auto simp: Let_def intro!: batch_frames_bind batch_frames_done post_pkts_frame compl_put_frame)
qed

lemma post_batch_frame:
  assumes ok: "mem_ok env u" and n: "n \<le> FRCORE_CORE_FIFO_NUM env"
  shows "batch_frames env n u (post_batch env n u)"
proof -
  have "mem_ok env (u\<lparr>w_tick := k\<rparr>)" "fifo_same u (u\<lparr>w_tick := k\<rparr>)" for k
    using ok by simp_all
  from post_go_frame [OF this n] post_go_frame [OF ok fifo_same_refl n] ok show ?thesis
    by (simp add: post_batch_def get_cycle_def)
qed

lemma post_loop_total:
  assumes "mem_ok env w"
  shows "\<exists>w'. post_loop env local_num w = Some w' \<and> mem_ok env w' \<and>
    local_widx (w_fifo w') = local_widx (w_fifo w) \<and> fifo_cells (w_fifo w') = fifo_cells (w_fifo w)"
  using assms
proof (induction local_num arbitrary: w rule: less_induct)
  case (less local_num)
  show ?case
  proof (cases "local_num = 0")
    case True
    then show ?thesis using less.prems by (subst post_loop.simps) simp
  next
    case False
    let ?n = "if local_num < FRCORE_CHAN_POST_LWM env then local_num else FRCORE_CHAN_POST_LWM env"
    have pos: "0 < FRCORE_CORE_FIFO_NUM env" using less.prems by (simp add: mem_ok_def)
    then have n: "?n \<le> FRCORE_CORE_FIFO_NUM env" "local_num - ?n < local_num"
      using False by (auto simp: FRCORE_CORE_FIFO_NUM_def FRCORE_CHAN_POST_LWM_def)
    obtain more w1 where w1: "post_batch env ?n w = Some (more, w1)" "mem_ok env w1"
      "local_widx (w_fifo w1) = local_widx (w_fifo w)" "fifo_cells (w_fifo w1) = fifo_cells (w_fifo w)"
      using post_batch_frame [OF less.prems n(1)] by (auto simp: batch_frames_def)
    from less.IH [OF n(2) w1(2)] w1 False show ?thesis
      by (subst post_loop.simps) (cases more, auto simp: Let_def)
  qed
qed

section \<open>The fifo as a queue\<close>

text \<open>The packets in the fifo, oldest first, as the bytes that will be copied to the host.\<close>

definition fifo_bytes :: "env \<Rightarrow> simple_package_fifo \<Rightarrow> nat \<Rightarrow> u8 list" where
  "fifo_bytes env f i =
     (let c = fifo_cells f ! (unat (local_ridx f + of_nat i) mod FRCORE_CORE_FIFO_NUM env)
      in take (unat (pkt_size c)) (cell_data c))"

lemma fifo_bytes_length: "mem_ok env w \<Longrightarrow> length (fifo_bytes env (w_fifo w) i) \<le> FRC_DMA_SIMPLE_PACKAGE_DATA_SIZE"
  using fifo_cell_size by (simp add: fifo_bytes_def Let_def le_trans [OF min.cobounded2])

definition fifo_len :: "simple_package_fifo \<Rightarrow> nat" where
  "fifo_len f = unat (local_widx f - local_ridx f)"

definition fifo_queue :: "env \<Rightarrow> chan_world \<Rightarrow> u8 list list" where
  "fifo_queue env w = map (fifo_bytes env (w_fifo w)) [0..<fifo_len (w_fifo w)]"

text \<open>The indices have not wrapped, and the fifo is not over-full.\<close>

definition fifo_ok :: "env \<Rightarrow> chan_world \<Rightarrow> bool" where
  "fifo_ok env w \<longleftrightarrow> mem_ok env w \<and> local_ridx (w_fifo w) \<le> local_widx (w_fifo w) \<and>
     fifo_len (w_fifo w) \<le> FRCORE_CORE_FIFO_NUM env"

lemma fifo_index:
  assumes "fifo_ok env w" "i \<le> fifo_len (w_fifo w)"
  shows "unat (local_ridx (w_fifo w) + of_nat i) = unat (local_ridx (w_fifo w)) + i"
    "unat (local_widx (w_fifo w)) = unat (local_ridx (w_fifo w)) + fifo_len (w_fifo w)"
proof -
  show w: "unat (local_widx (w_fifo w)) = unat (local_ridx (w_fifo w)) + fifo_len (w_fifo w)"
    using assms(1) by (simp add: fifo_ok_def fifo_len_def unat_sub word_le_nat_alt)
  have "unat (local_ridx (w_fifo w)) + i < 2 ^ 64"
    using w assms(2) unat_u64 [of "local_widx (w_fifo w)"] by simp
  then show "unat (local_ridx (w_fifo w) + of_nat i) = unat (local_ridx (w_fifo w)) + i"
    by (simp add: unat_word_ariths unat_of_nat)
qed

lemma queue_append:
  assumes ok: "fifo_ok env w" and room: "fifo_len (w_fifo w) < FRCORE_CORE_FIFO_NUM env"
    and nowrap: "unat (local_widx (w_fifo w)) + 1 < 2 ^ 64"
    and c: "length (cell_data c) = FRC_DMA_SIMPLE_PACKAGE_DATA_SIZE" "unat (pkt_size c) \<le> FRC_DMA_SIMPLE_PACKAGE_DATA_SIZE"
    and w': "w' = w\<lparr>w_fifo := (w_fifo w)\<lparr>fifo_cells := (fifo_cells (w_fifo w))
        [unat (local_widx (w_fifo w)) mod FRCORE_CORE_FIFO_NUM env := c], local_widx := local_widx (w_fifo w) + 1\<rparr>\<rparr>"
  shows "fifo_ok env w'" "fifo_queue env w' = fifo_queue env w @ [take (unat (pkt_size c)) (cell_data c)]"
proof -
  let ?r = "unat (local_ridx (w_fifo w))" and ?l = "fifo_len (w_fifo w)" and ?N = "FRCORE_CORE_FIFO_NUM env"
  have w1: "unat (local_widx (w_fifo w) + 1) = Suc (?r + ?l)"
    using nowrap fifo_index(2) [OF ok le_refl] by (simp add: unat_word_ariths)
  have le: "local_ridx (w_fifo w) \<le> local_widx (w_fifo w) + 1" by (simp add: word_le_nat_alt w1)
  have len: "fifo_len (w_fifo w') = Suc ?l"
    using unat_sub [OF le] by (simp add: w' fifo_len_def w1)
  have sizes: "length (fifo_cells (w_fifo w)) = ?N" "0 < ?N" using ok by (simp_all add: fifo_ok_def mem_ok_def)
  show "fifo_ok env w'"
    using ok room le len c sizes
    by (auto simp: fifo_ok_def mem_ok_def w' list_all_length nth_list_update)
  have old: "fifo_bytes env (w_fifo w') i = fifo_bytes env (w_fifo w) i" if "i < ?l" for i
  proof -
    have "(?r + i) mod ?N \<noteq> (?r + ?l) mod ?N" 
      using mod_ring_neq [of ?r "?r + i" "?r + ?l" ?N] that room by simp
    then show ?thesis
      using fifo_index [OF ok, of i] that by (simp add: w' fifo_bytes_def)
  qed
  have new: "fifo_bytes env (w_fifo w') ?l = take (unat (pkt_size c)) (cell_data c)"
    using fifo_index [OF ok, of ?l] sizes by (simp add: w' fifo_bytes_def)
  show "fifo_queue env w' = fifo_queue env w @ [take (unat (pkt_size c)) (cell_data c)]"
    using old new by (simp add: fifo_queue_def len)
qed

text \<open>The parts handed to the enqueue functions have the sizes of the C structures, and the payload is
  as long as the caller says.\<close>

definition parts_ok :: "u8 list \<Rightarrow> u8 list \<Rightarrow> u8 list \<Rightarrow> u16 \<Rightarrow> bool" where
  "parts_ok hdr info payload paylen \<longleftrightarrow> length hdr = 40 \<and> length info = 32 \<and> unat paylen \<le> length payload"

lemma fifo_add_refused:
  assumes "72 + unat paylen + length extra > 2048 \<or> fifo_len (w_fifo w) \<ge> FRCORE_CORE_FIFO_NUM env"
  shows "\<exists>rv st. fifo_add env extra hdr info payload paylen w = Some (rv, w\<lparr>w_stat := st\<rparr>) \<and>
    rv = (if 72 + unat paylen + length extra > 2048 then FRE_EXCEED else FRE_NOSPACE) \<and> st stat_post_err_pkts = w_stat w stat_post_err_pkts"
  using assms by (auto simp: fifo_add_def sizeof_hdr_def sizeof_info_def stat_add_def fifo_len_def)

lemma fifo_cell_at:
  assumes "mem_ok env w"
  shows "i mod FRCORE_CORE_FIFO_NUM env < length (fifo_cells (w_fifo w))"
    "length (cell_data (fifo_cells (w_fifo w) ! (i mod FRCORE_CORE_FIFO_NUM env))) = FRC_DMA_SIMPLE_PACKAGE_DATA_SIZE"
  using assms by (simp_all add: mem_ok_def list_all_length)

lemma take_exact: "take (length ys) (ys @ zs) = ys"
  by simp

lemma fifo_add_stores:
  assumes ok: "fifo_ok env w" and parts: "parts_ok hdr info payload paylen"
    and room: "fifo_len (w_fifo w) < FRCORE_CORE_FIFO_NUM env" and nowrap: "unat (local_widx (w_fifo w)) + 1 < 2 ^ 64"
    and fits: "72 + unat paylen + length extra \<le> 2008"
  shows "\<exists>w'. fifo_add env extra hdr info payload paylen w = Some (FRE_SUCCESS, w') \<and> fifo_ok env w' \<and>
    fifo_queue env w' = fifo_queue env w @ [hdr @ extra @ take (unat paylen) payload @ info] \<and>
    w_host w' = w_host w \<and> w_stat w' = w_stat w"
proof -
  let ?i = "unat (local_widx (w_fifo w)) mod FRCORE_CORE_FIFO_NUM env"
  let ?d = "hdr @ extra @ take (unat paylen) payload @ info"
  define c where "c = \<lparr>pkt_size = of_nat (72 + unat paylen + length extra), cell_data = ?d @ drop (length ?d) (cell_data (fifo_cells (w_fifo w) ! ?i))\<rparr>"
  have cell: "?i < length (fifo_cells (w_fifo w))"
    "length (cell_data (fifo_cells (w_fifo w) ! ?i)) = 2008"
    using ok fifo_cell_at [of env w "unat (local_widx (w_fifo w))"] by (simp_all add: fifo_ok_def c_consts)
  have d: "length ?d = 72 + unat paylen + length extra" using parts by (simp add: parts_ok_def)
  have n: "unat (of_nat (72 + unat paylen + length extra) :: u16) = 72 + unat paylen + length extra"
    by (subst unat_of_nat) (use fits in simp)
  have c_ok: "length (cell_data c) = FRC_DMA_SIMPLE_PACKAGE_DATA_SIZE" "unat (pkt_size c) = length ?d"
    subgoal using cell fits d by (simp add: c_def c_consts)
    subgoal using d n by (simp add: c_def c_consts del: of_nat_add length_append)
    done
  have size: "unat (pkt_size c) \<le> FRC_DMA_SIMPLE_PACKAGE_DATA_SIZE"
    using c_ok(2) d fits by (simp add: FRC_DMA_SIMPLE_PACKAGE_DATA_SIZE_def)
  note q = queue_append [OF ok room nowrap c_ok(1) size refl]
  have "fifo_add env extra hdr info payload paylen w = Some (FRE_SUCCESS, w\<lparr>w_fifo := (w_fifo w)\<lparr>fifo_cells :=
      (fifo_cells (w_fifo w)) [?i := c], local_widx := local_widx (w_fifo w) + 1\<rparr>\<rparr>)"
    using parts room fits cell d
    by (simp add: fifo_add_def parts_ok_def get_slice_def put_slice_def sizeof_hdr_def sizeof_info_def c_def
        Let_def add_ac flip: fifo_len_def)
  moreover have "take (unat (pkt_size c)) (cell_data c) = ?d"
    unfolding c_ok(2) unfolding c_def fifo_cell.simps by (rule take_exact)
  ultimately show ?thesis using q by simp
qed

lemma fifo_add_overruns:
  assumes ok: "fifo_ok env w" and parts: "parts_ok hdr info payload paylen"
    and room: "fifo_len (w_fifo w) < FRCORE_CORE_FIFO_NUM env"
    and len: "2008 < 72 + unat paylen + length extra" "72 + unat paylen + length extra \<le> 2048"
  shows "fifo_add env extra hdr info payload paylen w = None"
  using ok parts room len fifo_cell_at [of env w "unat (local_widx (w_fifo w))"]
  by (simp add: fifo_add_def parts_ok_def get_slice_def put_slice_def c_consts fifo_ok_def
      Let_def add_ac flip: fifo_len_def)

section \<open>Posting without transfer errors\<close>

text \<open>The addresses in a ring of the host from index \<open>k\<close> on.\<close>

definition ring_slice :: "u64 list \<Rightarrow> nat \<Rightarrow> nat \<Rightarrow> u64 list" where
  "ring_slice ring k n = map (\<lambda>i. ring ! ((k + i) mod length ring)) [0..<n]"

lemma with_dma_ok: "\<not> dma_fails env (w_dma w) \<Longrightarrow> with_dma env w k = k (w\<lparr>w_dma := Suc (w_dma w)\<rparr>)"
  by (simp add: with_dma_def dma_start_def)

lemma mod_wrap:
  assumes "0 < (S :: nat)"
  shows "k mod S + i < S \<Longrightarrow> (k + i) mod S = k mod S + i"
    "S \<le> k mod S + i \<Longrightarrow> i \<le> S \<Longrightarrow> (k + i) mod S = k mod S + i - S"
proof -
  have eq: "(k + i) mod S = (k mod S + i) mod S" by (simp add: mod_simps)
  show "k mod S + i < S \<Longrightarrow> (k + i) mod S = k mod S + i" unfolding eq by simp
  assume "S \<le> k mod S + i" "i \<le> S"
  moreover have "k mod S < S" using assms by simp
  ultimately have "(k mod S + i) mod S = k mod S + i - S" by (simp add: le_mod_geq)
  then show "(k + i) mod S = k mod S + i - S" unfolding eq .
qed

lemma nth_ring_slice: "i < n \<Longrightarrow> ring_slice ring k n ! i = ring ! ((k + i) mod length ring)"
  by (simp add: ring_slice_def)

text \<open>Reading a slice in the two parts of the code, and writing it.\<close>

lemma ring_slice_read:
  assumes "length ring = S" "n \<le> S" "0 < S"
  shows "ring_slice ring k n =
    (let off = k mod S; len1 = min (S - off) n
     in take len1 (drop off ring) @ take (n - len1) ring)"
proof (rule nth_equalityI)
  have S: "0 < S" "k mod S < S"
    using assms by simp_all
  show len: "length (ring_slice ring k n) = length (let off = k mod S; len1 = min (S - off) n
     in take len1 (drop off ring) @ take (n - len1) ring)"
    using assms S by (auto simp: ring_slice_def Let_def min_def)
  fix i assume "i < length (ring_slice ring k n)"
  then have i: "i < n" by (simp add: ring_slice_def)
  show "ring_slice ring k n ! i = (let off = k mod S; len1 = min (S - off) n
     in take len1 (drop off ring) @ take (n - len1) ring) ! i"
  proof (cases "k mod S + i < S")
    case True
    then show ?thesis using assms S i mod_wrap(1) [OF S(1) True]
      by (auto simp: ring_slice_def Let_def nth_append min_def)
  next
    case False
    then show ?thesis using assms S i mod_wrap(2) [OF S(1), of k i]
      by (auto simp: ring_slice_def Let_def nth_append min_def add.commute)
  qed
qed

lemma ring_slice_write:
  assumes len: "length ring = S" "length xs \<le> S" "0 < S"
    and off: "off = k mod S" and len1: "len1 = min (S - off) (length xs)"
    and ring1: "ring1 = take off ring @ take len1 xs @ drop (off + len1) ring"
  shows "ring_slice (drop len1 xs @ drop (length xs - len1) ring1) k (length xs) = xs"
proof (rule nth_equalityI)
  have S: "0 < S" "off < S"
    using len(3) by (simp_all add: off)
  have ring: "length (drop len1 xs @ drop (length xs - len1) ring1) = S"
    using len S by (auto simp: ring1 len1)
  show "length (ring_slice (drop len1 xs @ drop (length xs - len1) ring1) k (length xs)) = length xs"
    by (simp add: ring_slice_def)
  fix i assume "i < length (ring_slice (drop len1 xs @ drop (length xs - len1) ring1) k (length xs))"
  then have i: "i < length xs" by (simp add: ring_slice_def)
  show "ring_slice (drop len1 xs @ drop (length xs - len1) ring1) k (length xs) ! i = xs ! i"
  proof (cases "off + i < S")
    case True
    then show ?thesis unfolding nth_ring_slice [OF i] ring using len S i mod_wrap(1) [OF S(1) True [unfolded off]]
      by (auto simp: nth_append min_def ring1 len1 simp flip: off)
  next
    case False
    then show ?thesis unfolding nth_ring_slice [OF i] ring using len S i mod_wrap(2) [OF S(1), of k i]
      by (auto simp: nth_append min_def ring1 len1 add.commute simp flip: off)
  qed
qed

text \<open>The three steps of a batch when no transfer fails: what changes, and that nothing else does.\<close>

lemma avail_get_ok:
  assumes ok: "mem_ok env w" and n: "n \<le> FRCORE_CORE_FIFO_NUM env" and dma: "\<forall>k. \<not> dma_fails env k"
    and avail: "n \<le> unat (h_avail_widx (w_host w) - avail_ridx (w_chan w))"
  shows "\<exists>b w'. frcore_simple_package_chan_avail_get env n w = Some (FRE_SUCCESS, w') \<and>
      w_host w' = (w_host w)\<lparr>h_avail_ridx := avail_ridx (w_chan w) + of_nat n\<rparr> \<and>
      w_fifo w' = (w_fifo w)\<lparr>idx_buff := b\<rparr> \<and> compl_widx (w_chan w') = compl_widx (w_chan w) \<and>
      take n b = ring_slice (h_avail_ring (w_host w)) (unat (avail_ridx (w_chan w))) n"
proof -
  define off where "off = unat (avail_ridx (w_chan w)) mod FRC_SIMPLE_RING_BUFF_SIZE"
  define len1 where "len1 = min (FRC_SIMPLE_RING_BUFF_SIZE - off) n"
  have len: "length (h_avail_ring (w_host w)) = FRC_SIMPLE_RING_BUFF_SIZE" "n \<le> FRC_SIMPLE_RING_BUFF_SIZE"
    "length (idx_buff (w_fifo w)) = FRCORE_CORE_FIFO_NUM env" "off < FRC_SIMPLE_RING_BUFF_SIZE"
    using ok n by (auto simp: mem_ok_def c_consts off_def)
  have l: "off + len1 \<le> FRC_SIMPLE_RING_BUFF_SIZE" "len1 \<le> n" "n - len1 \<le> FRC_SIMPLE_RING_BUFF_SIZE"
    using len by (auto simp: len1_def)
  have read: "ring_slice (h_avail_ring (w_host w)) (unat (avail_ridx (w_chan w))) n =
      take len1 (drop off (h_avail_ring (w_host w))) @ take (n - len1) (h_avail_ring (w_host w))"
    using ring_slice_read [OF len(1,2)] len(4) by (simp add: Let_def len1_def off_def)
  have run: "frcore_simple_package_chan_avail_get env n w =
      (let w = w\<lparr>w_chan := (w_chan w)\<lparr>avail_widx := h_avail_widx (w_host w)\<rparr>, w_dma := Suc (Suc (w_dma w))\<rparr> in do {
         w1 \<leftarrow> avail_copy off 0 len1 w;
         if len1 < n then do {
           w2 \<leftarrow> avail_copy 0 len1 (n - len1) (w1\<lparr>w_dma := Suc (w_dma w1)\<rparr>);
           avail_commit env (avail_ridx (w_chan w)) n w2
         } else avail_commit env (avail_ridx (w_chan w)) n w1
       })"
    using avail dma by (simp add: frcore_simple_package_chan_avail_get_def with_dma_ok Let_def off_def len1_def cong: if_cong)
  show ?thesis
    using len l n dma by (auto simp: run Let_def avail_copy_def get_slice_def put_slice_def avail_commit_def with_dma_ok read)
qed

lemma compl_room:
  assumes "unat (d :: u64) + n \<le> FRC_SIMPLE_RING_BUFF_SIZE"
  shows "\<not> of_nat FRC_SIMPLE_RING_BUFF_SIZE - of_nat n < d"
proof -
  have "unat (of_nat FRC_SIMPLE_RING_BUFF_SIZE - of_nat n :: u64) = FRC_SIMPLE_RING_BUFF_SIZE - n"
    using assms by (subst unat_sub) (auto simp: word_le_nat_alt unat_of_nat c_consts)
  then show ?thesis using assms by (simp add: word_less_nat_alt)
qed

lemma compl_put_ok:
  assumes ok: "mem_ok env w" and n: "n \<le> FRCORE_CORE_FIFO_NUM env" and dma: "\<forall>k. \<not> dma_fails env k"
    and room: "unat (compl_widx (w_chan w) - h_compl_ridx (w_host w)) + n \<le> FRC_SIMPLE_RING_BUFF_SIZE"
  shows "\<exists>w' ring. frcore_simple_package_chan_compl_put env n w = Some (FRE_SUCCESS, w') \<and>
      w_host w' = (w_host w)\<lparr>h_compl_ring := ring, h_compl_widx := compl_widx (w_chan w) + of_nat n\<rparr> \<and>
      w_fifo w' = w_fifo w \<and> ring_slice ring (unat (compl_widx (w_chan w))) n = take n (idx_buff (w_fifo w))"
proof -
  define off where "off = unat (compl_widx (w_chan w)) mod FRC_SIMPLE_RING_BUFF_SIZE"
  define len1 where "len1 = min (FRC_SIMPLE_RING_BUFF_SIZE - off) n"
  define xs where "xs = take n (idx_buff (w_fifo w))"
  have len: "length (h_compl_ring (w_host w)) = FRC_SIMPLE_RING_BUFF_SIZE" "n \<le> FRC_SIMPLE_RING_BUFF_SIZE"
    "length (idx_buff (w_fifo w)) = FRCORE_CORE_FIFO_NUM env" "off < FRC_SIMPLE_RING_BUFF_SIZE"
    using ok n by (auto simp: mem_ok_def c_consts off_def)
  have l: "off + len1 \<le> FRC_SIMPLE_RING_BUFF_SIZE" "len1 \<le> n" "n - len1 \<le> FRC_SIMPLE_RING_BUFF_SIZE"
    using len by (auto simp: len1_def)
  have xs: "length xs = n" "take len1 (idx_buff (w_fifo w)) = take len1 xs"
    "take (n - len1) (drop len1 (idx_buff (w_fifo w))) = drop len1 xs"
    using len n l by (auto simp: xs_def drop_take)
  note stored = ring_slice_write [of "h_compl_ring (w_host w)" FRC_SIMPLE_RING_BUFF_SIZE xs off "unat (compl_widx (w_chan w))" len1, OF len(1) _ _ off_def _ refl,
      unfolded xs(1), OF len(2) le_less_trans [OF le0 len(4)] len1_def]
  have run: "frcore_simple_package_chan_compl_put env n w =
      (let w = w\<lparr>w_chan := (w_chan w)\<lparr>compl_ridx := h_compl_ridx (w_host w)\<rparr>, w_dma := Suc (Suc (w_dma w))\<rparr> in do {
         w1 \<leftarrow> compl_copy 0 off len1 w;
         if len1 < n then do {
           w2 \<leftarrow> compl_copy len1 0 (n - len1) (w1\<lparr>w_dma := Suc (w_dma w1)\<rparr>);
           compl_commit env (compl_widx (w_chan w)) n w2
         } else compl_commit env (compl_widx (w_chan w)) n w1
       })"
    using compl_room [OF room] dma
    by (simp add: frcore_simple_package_chan_compl_put_def with_dma_ok Let_def off_def len1_def cong: if_cong)
  show ?thesis
  proof (cases "len1 < n")
    case True
    then show ?thesis using len l n dma stored xs
      by (simp add: run Let_def compl_copy_def get_slice_def put_slice_def compl_commit_def with_dma_ok min_absorb2
          flip: xs_def) (rule exI, rule conjI, rule refl, assumption)
  next
    case False
    then have n1: "len1 = n" using l by simp
    then have "take n (idx_buff (w_fifo w)) = xs" "off + n \<le> FRC_SIMPLE_RING_BUFF_SIZE" "take len1 xs = xs" "drop len1 xs = []"
      using xs l by (simp_all add: xs_def)
    with stored len n dma xs(1) show ?thesis
      by (simp add: run n1 Let_def compl_copy_def get_slice_def put_slice_def compl_commit_def with_dma_ok)
         (rule exI, rule conjI, rule refl, assumption)
  qed
qed

text \<open>The converse: what a step that reports success has done, whatever other transfers do, and what a
  failed one leaves alone.\<close>

lemma with_dma_success:
  "with_dma env w k = Some (FRE_SUCCESS, w') \<longleftrightarrow> \<not> dma_fails env (w_dma w) \<and> k (w\<lparr>w_dma := Suc (w_dma w)\<rparr>) = Some (FRE_SUCCESS, w')"
  by (simp add: with_dma_def dma_start_def c_consts)

lemma codes: "FRE_NOSPACE \<noteq> FRE_SUCCESS" "FRE_DMA \<noteq> FRE_SUCCESS" "FRE_NOSPACE \<noteq> FRE_DMA"
  by (simp_all add: c_consts)

lemma avail_get_success:
  assumes ok: "mem_ok env w" and n: "n \<le> FRCORE_CORE_FIFO_NUM env"
    and run: "frcore_simple_package_chan_avail_get env n w = Some (FRE_SUCCESS, w')"
  shows "w_host w' = (w_host w)\<lparr>h_avail_ridx := avail_ridx (w_chan w) + of_nat n\<rparr> \<and>
      (\<exists>b. w_fifo w' = (w_fifo w)\<lparr>idx_buff := b\<rparr> \<and> take n b = ring_slice (h_avail_ring (w_host w)) (unat (avail_ridx (w_chan w))) n) \<and>
      compl_widx (w_chan w') = compl_widx (w_chan w) \<and> w_stat w' = w_stat w"
proof -
  define off where "off = unat (avail_ridx (w_chan w)) mod FRC_SIMPLE_RING_BUFF_SIZE"
  define len1 where "len1 = min (FRC_SIMPLE_RING_BUFF_SIZE - off) n"
  have len: "length (h_avail_ring (w_host w)) = FRC_SIMPLE_RING_BUFF_SIZE" "n \<le> FRC_SIMPLE_RING_BUFF_SIZE"
    "length (idx_buff (w_fifo w)) = FRCORE_CORE_FIFO_NUM env" "off < FRC_SIMPLE_RING_BUFF_SIZE"
    using ok n by (auto simp: mem_ok_def c_consts off_def)
  have l: "off + len1 \<le> FRC_SIMPLE_RING_BUFF_SIZE" "len1 \<le> n" "n - len1 \<le> FRC_SIMPLE_RING_BUFF_SIZE"
    using len by (auto simp: len1_def)
  have read: "ring_slice (h_avail_ring (w_host w)) (unat (avail_ridx (w_chan w))) n =
      take len1 (drop off (h_avail_ring (w_host w))) @ take (n - len1) (h_avail_ring (w_host w))"
    using ring_slice_read [OF len(1,2)] len(4) by (simp add: Let_def len1_def off_def)
  show ?thesis
    using run len l n
    by (auto simp: frcore_simple_package_chan_avail_get_def with_dma_success Let_def avail_copy_def get_slice_def put_slice_def
        avail_commit_def read codes simp flip: off_def len1_def split: if_splits)
qed

lemma avail_get_host:
  assumes "frcore_simple_package_chan_avail_get env n w = Some (rv, w')"
  shows "h_compl_widx (w_host w') = h_compl_widx (w_host w) \<and> compl_widx (w_chan w') = compl_widx (w_chan w)"
  using assms
  by (auto simp: frcore_simple_package_chan_avail_get_def with_dma_def dma_start_def Let_def avail_copy_def avail_commit_def
      stat_add_def bind_eq_Some_conv split: if_splits)

lemma compl_put_success:
  assumes ok: "mem_ok env w" and n: "n \<le> FRCORE_CORE_FIFO_NUM env"
    and run: "frcore_simple_package_chan_compl_put env n w = Some (FRE_SUCCESS, w')"
  shows "\<exists>ring. w_host w' = (w_host w)\<lparr>h_compl_ring := ring, h_compl_widx := compl_widx (w_chan w) + of_nat n\<rparr> \<and>
      w_fifo w' = w_fifo w \<and> w_stat w' = w_stat w \<and> ring_slice ring (unat (compl_widx (w_chan w))) n = take n (idx_buff (w_fifo w))"
proof -
  define off where "off = unat (compl_widx (w_chan w)) mod FRC_SIMPLE_RING_BUFF_SIZE"
  define len1 where "len1 = min (FRC_SIMPLE_RING_BUFF_SIZE - off) n"
  define xs where "xs = take n (idx_buff (w_fifo w))"
  have len: "length (h_compl_ring (w_host w)) = FRC_SIMPLE_RING_BUFF_SIZE" "n \<le> FRC_SIMPLE_RING_BUFF_SIZE"
    "length (idx_buff (w_fifo w)) = FRCORE_CORE_FIFO_NUM env" "off < FRC_SIMPLE_RING_BUFF_SIZE"
    using ok n by (auto simp: mem_ok_def c_consts off_def)
  have l: "off + len1 \<le> FRC_SIMPLE_RING_BUFF_SIZE" "len1 \<le> n" "n - len1 \<le> FRC_SIMPLE_RING_BUFF_SIZE"
    using len by (auto simp: len1_def)
  have xs: "length xs = n" "take len1 (idx_buff (w_fifo w)) = take len1 xs"
    "take (n - len1) (drop len1 (idx_buff (w_fifo w))) = drop len1 xs"
    using len n l by (auto simp: xs_def drop_take)
  note stored = ring_slice_write [of "h_compl_ring (w_host w)" FRC_SIMPLE_RING_BUFF_SIZE xs off "unat (compl_widx (w_chan w))" len1, OF len(1) _ _ off_def _ refl,
      unfolded xs(1), OF len(2) le_less_trans [OF le0 len(4)] len1_def]
  have "frcore_simple_package_chan_compl_put env n w = Some (FRE_SUCCESS, w') \<Longrightarrow>
      (let w = w\<lparr>w_chan := (w_chan w)\<lparr>compl_ridx := h_compl_ridx (w_host w)\<rparr>, w_dma := Suc (Suc (w_dma w))\<rparr> in do {
         w1 \<leftarrow> compl_copy 0 off len1 w;
         if len1 < n then do {
           w2 \<leftarrow> compl_copy len1 0 (n - len1) (w1\<lparr>w_dma := Suc (w_dma w1)\<rparr>);
           compl_commit env (compl_widx (w_chan w)) n w2
         } else compl_commit env (compl_widx (w_chan w)) n w1
       }) = Some (FRE_SUCCESS, w')"
    using len l n
    by (auto simp: frcore_simple_package_chan_compl_put_def with_dma_success Let_def compl_copy_def get_slice_def put_slice_def codes
        simp flip: off_def len1_def split: if_splits)
  note code = this [OF run]
  show ?thesis
  proof (cases "len1 < n")
    case True
    then show ?thesis using code len l n stored xs
      by (simp add: Let_def compl_copy_def get_slice_def put_slice_def compl_commit_def with_dma_success min_absorb2
          flip: xs_def) (elim conjE, hypsubst, intro exI conjI refl, simp_all)
  next
    case False
    then have n1: "len1 = n" using l by simp
    then have "take n (idx_buff (w_fifo w)) = xs" "off + n \<le> FRC_SIMPLE_RING_BUFF_SIZE" "take len1 xs = xs" "drop len1 xs = []"
      using xs l by (simp_all add: xs_def)
    with stored len n code xs(1) show ?thesis
      by (simp add: n1 Let_def compl_copy_def get_slice_def put_slice_def compl_commit_def with_dma_success)
         (elim conjE, hypsubst, intro exI conjI refl, simp_all)
  qed
qed

lemma compl_put_host:
  assumes "frcore_simple_package_chan_compl_put env n w = Some (rv, w')" "rv \<noteq> FRE_SUCCESS"
  shows "h_compl_widx (w_host w') = h_compl_widx (w_host w)"
  using assms
  by (auto simp: frcore_simple_package_chan_compl_put_def with_dma_def dma_start_def Let_def compl_copy_def compl_commit_def
      stat_add_def bind_eq_Some_conv split: if_splits)

text \<open>The copy of a batch in any environment: the first \<open>k\<close> of its packets stand in their blocks, the rest were not copied.\<close>

lemma post_pkts_outcome:
  assumes "mem_ok env w" "cur + remain \<le> FRCORE_CORE_FIFO_NUM env"
  shows "\<exists>k w'. post_pkts env remain cur posted w = Some (posted + k, w') \<and> k \<le> remain \<and> w_fifo w' = w_fifo w \<and> w_chan w' = w_chan w \<and>
    w_host w' = (w_host w)\<lparr>h_mem := write_blocks (map (desc env (w_fifo w)) [cur..<cur + k]) (h_mem (w_host w))\<rparr> \<and>
    w_stat w' stat_post_err_pkts = w_stat w stat_post_err_pkts"
  using assms
proof (induction env remain cur posted w rule: post_pkts.induct)
  case (1 env remain cur posted w)
  let ?n = "min (max_ptrs env) remain"
  let ?ds = "map (desc env (w_fifo w)) [cur..<cur + ?n]"
  have pos: "0 < max_ptrs env" using 1(2) by (simp add: mem_ok_def FRCORE_CORE_FIFO_NUM_def)
  have "\<forall>c \<in> set [cur..<cur + ?n]. c < FRCORE_CORE_FIFO_NUM env" using 1(3) by (auto simp: min_def)
  then obtain st where st: "post_descs env [cur..<cur + ?n] w = Some (?ds, w\<lparr>w_stat := st\<rparr>)" "st stat_post_err_pkts = w_stat w stat_post_err_pkts"
    using post_descs_Some [OF 1(2)] by blast
  obtain fail w2 where w2: "dma_scatter_send env ?ds (w\<lparr>w_stat := st\<rparr>) = (fail, w2)" by fastforce
  then have same: "w_fifo w2 = w_fifo w" "w_chan w2 = w_chan w" "w_stat w2 stat_post_err_pkts = w_stat w stat_post_err_pkts"
      "w_host w2 = (w_host w)\<lparr>h_mem := if fail then h_mem (w_host w) else write_blocks ?ds (h_mem (w_host w))\<rparr>"
    using st(2) by (auto simp: dma_scatter_send_def dma_start_def stat_add_def Let_def split: if_splits)
  show ?case
  proof (cases "remain = 0 \<or> fail")
    case True
    then show ?thesis using st w2 same
      by (subst post_pkts.simps) (auto simp: Let_def stat_add_def intro!: exI [of _ 0])
  next
    case False
    then have nz: "remain \<noteq> 0" "(min (max_ptrs env) remain = 0) = False" "\<not> fail" using pos by simp_all
    let ?w3 = "stat_add stat_dma_blocks (of_nat ?n) w2"
    have "mem_ok env ?w3" using 1(2) same by (simp add: mem_ok_def)
    moreover have "cur + ?n + (remain - ?n) = cur + remain" by simp
    ultimately obtain k w' where k: "post_pkts env (remain - ?n) (cur + ?n) (posted + ?n) ?w3 = Some (posted + ?n + k, w')" "k \<le> remain - ?n"
      "w_fifo w' = w_fifo w" "w_chan w' = w_chan w" "w_stat w' stat_post_err_pkts = w_stat w stat_post_err_pkts"
      "w_host w' = (w_host w)\<lparr>h_mem := write_blocks (map (desc env (w_fifo w)) [cur + ?n..<cur + ?n + k]) (write_blocks ?ds (h_mem (w_host w)))\<rparr>"
      using 1(1) [OF nz(1) refl st(1) refl w2 [symmetric], of False] 1(3) nz same by (auto simp: stat_add_def)
    have upt: "[cur..<cur + (?n + k)] = [cur..<cur + ?n] @ [cur + ?n..<cur + ?n + k]"
      using upt_add_eq_append [of cur "cur + ?n" k] by (simp add: add.assoc)
    have "post_pkts env remain cur posted w = Some (posted + (?n + k), w')"
      using nz(1,3) st(1) w2 k(1) by (subst post_pkts.simps) (simp add: Let_def nz(2) add.assoc)
    then show ?thesis
      using k(2-6) by (intro exI [of _ "?n + k"] exI [of _ w']) (simp add: upt write_blocks_append)
  qed
qed

lemma post_pkts_ok:
  assumes "mem_ok env w" "cur + remain \<le> FRCORE_CORE_FIFO_NUM env" "\<forall>k. \<not> dma_fails env k"
    and "\<forall>i < cur + remain. snd (desc env (w_fifo w) i) \<noteq> []"
  shows "\<exists>w'. post_pkts env remain cur posted w = Some (posted + remain, w') \<and> w_fifo w' = w_fifo w \<and> w_chan w' = w_chan w \<and>
    w_host w' = (w_host w)\<lparr>h_mem := write_blocks (map (desc env (w_fifo w)) [cur..<cur + remain]) (h_mem (w_host w))\<rparr>"
  using assms
proof (induction env remain cur posted w rule: post_pkts.induct)
  case (1 env remain cur posted w)
  let ?n = "min (max_ptrs env) remain"
  let ?ds = "map (desc env (w_fifo w)) [cur..<cur + ?n]"
  have pos: "0 < max_ptrs env" using 1(2) by (simp add: mem_ok_def FRCORE_CORE_FIFO_NUM_def)
  show ?case
  proof (cases "remain = 0")
    case True
    then show ?thesis by (subst post_pkts.simps) (simp add: write_blocks_def)
  next
    case False
    have nz: "(min (max_ptrs env) remain = 0) = False" using pos False by simp
    have "\<forall>c \<in> set [cur..<cur + ?n]. c < FRCORE_CORE_FIFO_NUM env" using 1(3) by (auto simp: min_def)
    then obtain st where st: "post_descs env [cur..<cur + ?n] w = Some (?ds, w\<lparr>w_stat := st\<rparr>)"
      using post_descs_Some [OF 1(2)] by blast
    have "\<not> list_ex (\<lambda>(a, bytes). bytes = [] \<or> length bytes > max_buf env) ?ds"
      using 1(5) desc_length [OF 1(2)]
      by (auto simp: list_ex_iff case_prod_unfold min_def not_less split: if_splits)
    then obtain w2 where w2: "dma_scatter_send env ?ds (w\<lparr>w_stat := st\<rparr>) = (False, w2)" "w_fifo w2 = w_fifo w"
        "w_chan w2 = w_chan w" "w_host w2 = (w_host w)\<lparr>h_mem := write_blocks ?ds (h_mem (w_host w))\<rparr>"
      using pos False 1(4) by (simp add: dma_scatter_send_def dma_start_def)
    let ?w3 = "stat_add stat_dma_blocks (of_nat ?n) w2"
    have "mem_ok env ?w3" using 1(2) w2 by (simp add: mem_ok_def)
    moreover have "cur + ?n + (remain - ?n) = cur + remain" by simp
    ultimately obtain w' where "post_pkts env (remain - ?n) (cur + ?n) (posted + ?n) ?w3 = Some (posted + remain, w')"
      "w_fifo w' = w_fifo w" "w_chan w' = w_chan w"
      "w_host w' = (w_host w)\<lparr>h_mem := write_blocks (map (desc env (w_fifo w)) [cur + ?n..<cur + remain]) (write_blocks ?ds (h_mem (w_host w)))\<rparr>"
      using 1(1) [OF False refl st refl w2(1) [symmetric], of False] 1(3-5) pos False w2 by (auto simp: add.assoc)
    moreover have "post_pkts env remain cur posted w = post_pkts env (remain - ?n) (cur + ?n) (posted + ?n) ?w3"
      using False st w2(1) by (subst post_pkts.simps) (simp add: Let_def nz)
    moreover have upt: "[cur..<cur + remain] = [cur..<cur + ?n] @ [cur + ?n..<cur + remain]"
      using upt_add_eq_append [of cur "cur + ?n" "remain - ?n"] by simp
    ultimately show ?thesis unfolding upt map_append write_blocks_append by auto
  qed
qed

section \<open>One call of the post function\<close>

lemma fifo_queue_empty: "local_ridx (w_fifo w) = local_widx (w_fifo w) \<Longrightarrow> fifo_queue env w = []"
  by (simp add: fifo_queue_def fifo_len_def)

lemma fifo_queue_length [simp]: "length (fifo_queue env w) = fifo_len (w_fifo w)"
  by (simp add: fifo_queue_def)

lemma fifo_same_queue:
  assumes "fifo_same w w'" "mem_ok env w'" "fifo_ok env w"
  shows "fifo_ok env w'" "fifo_queue env w' = fifo_queue env w"
  using assms by (simp_all add: fifo_same_def fifo_ok_def fifo_queue_def fifo_len_def fifo_bytes_def)

text \<open>The fifo holds at most one batch, so the loop runs at most once.\<close>

lemma post_loop_once:
  assumes ok: "fifo_ok env w"
  shows "post_loop env (fifo_len (w_fifo w)) w =
    (if fifo_len (w_fifo w) = 0 then Some w else map_option snd (post_batch env (fifo_len (w_fifo w)) w))"
proof -
  have "fifo_len (w_fifo w) \<le> FRCORE_CHAN_POST_LWM env"
    using ok by (simp add: fifo_ok_def FRCORE_CORE_FIFO_NUM_def FRCORE_CHAN_POST_LWM_def)
  then have "(if fifo_len (w_fifo w) < FRCORE_CHAN_POST_LWM env then fifo_len (w_fifo w) else FRCORE_CHAN_POST_LWM env) =
    fifo_len (w_fifo w)" by simp
  moreover have "post_loop env 0 w' = Some w'" for w' by (subst post_loop.simps) simp
  ultimately show ?thesis
    by (subst post_loop.simps) (simp add: Let_def bind_eq_None_conv split: option.split Option.bind_split)
qed

lemma rule_fifo_post_same: "frcore_rule_fifo_post = frcore_simple_package_fifo_post"
  by (simp add: fun_eq_iff frcore_rule_fifo_post_def frcore_simple_package_fifo_post_def)

lemma desc_bytes: "desc env f i = (idx_buff f ! i + FRC_DMA_OFFSET, fifo_bytes env f i)"
  by (simp add: desc_def fifo_bytes_def Let_def)

lemma fifo_bytes_idx [simp]: "fifo_bytes env (f\<lparr>idx_buff := b\<rparr>) = fifo_bytes env f"
  by (simp add: fifo_bytes_def fun_eq_iff)

text \<open>A batch of \<open>n\<close> packets in any environment: either the blocks were returned, and then the first
  \<open>posted\<close> packets are in them and the others are counted as lost, or the host was told nothing.\<close>

definition batch_returned :: "env \<Rightarrow> nat \<Rightarrow> chan_world \<Rightarrow> chan_world \<Rightarrow> bool" where
  "batch_returned env n w w' \<longleftrightarrow> (let addrs = ring_slice (h_avail_ring (w_host w)) (unat (avail_ridx (w_chan w))) n in
     h_avail_ridx (w_host w') = avail_ridx (w_chan w) + of_nat n \<and> h_compl_widx (w_host w') = compl_widx (w_chan w) + of_nat n \<and>
     ring_slice (h_compl_ring (w_host w')) (unat (compl_widx (w_chan w))) n = addrs \<and>
     (\<exists>posted \<le> n. w_stat w' stat_post_err_pkts = w_stat w stat_post_err_pkts + of_nat (n - posted) \<and>
        h_mem (w_host w') = write_blocks (map (\<lambda>i. (addrs ! i + FRC_DMA_OFFSET, fifo_bytes env (w_fifo w) i)) [0..<posted]) (h_mem (w_host w))))"

lemma post_go_outcome:
  assumes ok: "mem_ok env w" and n: "n \<le> FRCORE_CORE_FIFO_NUM env" and run: "post_go env n w = Some (again, w')"
  shows "if again then batch_returned env n w w' else h_compl_widx (w_host w') = h_compl_widx (w_host w)"
proof -
  obtain rv w1 where w1: "frcore_simple_package_chan_avail_get env n w = Some (rv, w1)" "mem_ok env w1"
    using avail_get_frame [OF ok fifo_same_refl n] by (auto simp: frames_def)
  note host = avail_get_host [OF w1(1)]
  show ?thesis
  proof (cases "rv = FRE_SUCCESS")
    case False
    then show ?thesis using run w1(1) host by (auto simp: post_go_def get_cycle_def stat_add_def split: if_splits)
  next
    case True
    obtain b where b: "w_host w1 = (w_host w)\<lparr>h_avail_ridx := avail_ridx (w_chan w) + of_nat n\<rparr>" "w_fifo w1 = (w_fifo w)\<lparr>idx_buff := b\<rparr>"
        "take n b = ring_slice (h_avail_ring (w_host w)) (unat (avail_ridx (w_chan w))) n" "compl_widx (w_chan w1) = compl_widx (w_chan w)" "w_stat w1 = w_stat w"
      using avail_get_success [OF ok n] w1(1) True by blast
    let ?w2 = "stat_inc stat_avail_get (w1\<lparr>w_exhaust := False\<rparr>)"
    have ok2: "mem_ok env ?w2" using w1(2) by simp
    obtain k w3 where w3: "post_pkts env n 0 0 ?w2 = Some (k, w3)" "k \<le> n" "w_fifo w3 = w_fifo w1" "w_chan w3 = w_chan w1"
        "w_host w3 = (w_host w1)\<lparr>h_mem := write_blocks (map (desc env (w_fifo w1)) [0..<k]) (h_mem (w_host w1))\<rparr>"
        "w_stat w3 stat_post_err_pkts = w_stat w stat_post_err_pkts"
      using post_pkts_outcome [OF ok2, of 0 n 0] n b(5) by (auto simp: stat_add_def)
    let ?w4 = "if k < n then stat_add stat_post_err_pkts (of_nat (n - k)) (stat_inc stat_pkt_post_err w3) else stat_inc stat_pkt_post w3"
    have ok4: "mem_ok env ?w4" using ok2 w3(3,5) by (simp add: mem_ok_def)
    have w4: "w_host ?w4 = w_host w3" "w_fifo ?w4 = w_fifo w3" "w_chan ?w4 = w_chan w3"
        "w_stat ?w4 stat_post_err_pkts = w_stat w stat_post_err_pkts + of_nat (n - k)"
      using w3(2,6) by (simp_all add: stat_add_def)
    obtain rv' w5 where w5: "frcore_simple_package_chan_compl_put env n ?w4 = Some (rv', w5)"
      using compl_put_frame [OF ok4 fifo_same_refl n] by (auto simp: frames_def)
    have step: "post_go env n w = (if rv' \<noteq> FRE_SUCCESS then Some (False, stat_inc stat_compl_put_err w5)
        else let w = stat_inc stat_compl_put w5; (now, w) = get_cycle env w in
          Some (True, w\<lparr>w_fifo := (w_fifo w)\<lparr>local_ridx := local_ridx (w_fifo w) + of_nat n, post_cycle := now\<rparr>\<rparr>))"
      using w1(1) True w3(1) w5 codes by (simp add: post_go_def frcore_simple_package_chan_post_pkt_def Let_def)
    show ?thesis
    proof (cases "rv' = FRE_SUCCESS")
      case False
      then show ?thesis using run step compl_put_host [OF w5 False] w4(1) w3(5) b(1) by (auto simp: Let_def)
    next
      case put: True
      obtain ring where r: "w_host w5 = (w_host ?w4)\<lparr>h_compl_ring := ring, h_compl_widx := compl_widx (w_chan ?w4) + of_nat n\<rparr>"
          "w_stat w5 = w_stat ?w4" "ring_slice ring (unat (compl_widx (w_chan ?w4))) n = take n (idx_buff (w_fifo ?w4))"
        using compl_put_success [OF ok4 n] w5 put by blast
      have m: "map (desc env (w_fifo w1)) [0..<k] =
          map (\<lambda>i. (ring_slice (h_avail_ring (w_host w)) (unat (avail_ridx (w_chan w))) n ! i + FRC_DMA_OFFSET, fifo_bytes env (w_fifo w) i)) [0..<k]"
        using w3(2) by (simp add: desc_bytes b(2) flip: b(3))
      have again: "again" "w_host w' = w_host w5" "w_stat w' stat_post_err_pkts = w_stat w5 stat_post_err_pkts"
        using run step put by (auto simp: Let_def get_cycle_def stat_add_def)
      have mem: "h_mem (w_host w') = write_blocks (map (desc env (w_fifo w1)) [0..<k]) (h_mem (w_host w))"
        "h_avail_ridx (w_host w') = avail_ridx (w_chan w) + of_nat n" "h_compl_widx (w_host w') = compl_widx (w_chan w) + of_nat n"
        "ring_slice (h_compl_ring (w_host w')) (unat (compl_widx (w_chan w))) n = ring_slice (h_avail_ring (w_host w)) (unat (avail_ridx (w_chan w))) n"
        using again(2) r(1,3) w4(1-3) w3(3-5) b(1-4) by simp_all
      have "w_stat w' stat_post_err_pkts = w_stat w stat_post_err_pkts + of_nat (n - k)"
        using again(3) r(2) w4(4) by simp
      then show ?thesis
        unfolding batch_returned_def Let_def using again(1) mem w3(2) unfolding m by (auto intro!: exI [of _ k] simp del: of_nat_diff)
    qed
  qed
qed

lemma post_batch_outcome:
  assumes ok: "mem_ok env w" and n: "n \<le> FRCORE_CORE_FIFO_NUM env" and run: "post_batch env n w = Some (again, w')"
  shows "if again then batch_returned env n w w' else h_compl_widx (w_host w') = h_compl_widx (w_host w)"
proof -
  have tick: "batch_returned env n (w\<lparr>w_tick := k\<rparr>) w' = batch_returned env n w w'" for k by (simp add: batch_returned_def)
  have "mem_ok env (w\<lparr>w_tick := k\<rparr>)" for k using ok by simp
  from post_go_outcome [OF ok n] post_go_outcome [OF this n] show ?thesis
    using run by (fastforce simp: post_batch_def get_cycle_def tick split: if_splits)
qed

text \<open>One call of the post function in any environment. Either the queue is as it was and the host was told
  nothing, or the whole queue is gone and its blocks were returned.\<close>

definition post_result :: "env \<Rightarrow> chan_world \<Rightarrow> chan_world \<Rightarrow> bool" where
  "post_result env w w' \<longleftrightarrow>
     fifo_queue env w' = fifo_queue env w \<and> h_compl_widx (w_host w') = h_compl_widx (w_host w) \<or>
     fifo_queue env w \<noteq> [] \<and> fifo_queue env w' = [] \<and> batch_returned env (length (fifo_queue env w)) w w'"

lemma fifo_post_outcome:
  assumes ok: "fifo_ok env w"
  shows "\<exists>w'. frcore_simple_package_fifo_post env flag w = Some w' \<and> fifo_ok env w' \<and>
    local_widx (w_fifo w') = local_widx (w_fifo w) \<and> post_result env w w' \<and>
    (flag \<and> fifo_len (w_fifo w) \<noteq> FRCORE_CORE_FIFO_NUM env \<longrightarrow> w' = w)"
proof -
  let ?n = "fifo_len (w_fifo w)"
  have le: "?n \<le> FRCORE_CORE_FIFO_NUM env" "mem_ok env w" using ok by (simp_all add: fifo_ok_def)
  obtain again w1 where w1: "post_batch env ?n w = Some (again, w1)" "mem_ok env w1"
    "local_widx (w_fifo w1) = local_widx (w_fifo w)" "fifo_cells (w_fifo w1) = fifo_cells (w_fifo w)"
    "local_ridx (w_fifo w1) = (if again then local_ridx (w_fifo w) + of_nat ?n else local_ridx (w_fifo w))"
    using post_batch_frame [OF le(2,1)] by (auto simp: batch_frames_def)
  note out = post_batch_outcome [OF le(2,1) w1(1)]
  have "local_ridx (w_fifo w) + of_nat ?n = local_widx (w_fifo w)" by (simp add: fifo_len_def)
  then have step: "fifo_ok env w1 \<and> (?n \<noteq> 0 \<longrightarrow> post_result env w w1)"
    using w1 ok out fifo_same_queue [of w w1 env] fifo_queue_empty [of w1 env] fifo_queue_length [of env w]
    by (cases again) (auto simp: fifo_ok_def fifo_same_def fifo_len_def post_result_def simp flip: length_greater_0_conv)
  have refl: "post_result env w w" by (simp add: post_result_def)
  have lwm: "FRCORE_CHAN_POST_LWM env = FRCORE_CORE_FIFO_NUM env" by (simp add: FRCORE_CORE_FIFO_NUM_def FRCORE_CHAN_POST_LWM_def)
  have "frcore_simple_package_fifo_post env flag w =
      (if (if flag then ?n \<noteq> FRCORE_CORE_FIFO_NUM env else ?n = 0) then Some w else post_loop env ?n w)"
    by (simp add: frcore_simple_package_fifo_post_def Let_def fifo_len_def lwm)
  then show ?thesis using ok w1(1,3) step refl post_loop_once [OF ok] by auto
qed

text \<open>The queue that an enqueueing finds: the old one, or, when that was full, none, its blocks returned.\<close>

definition room_made :: "env \<Rightarrow> chan_world \<Rightarrow> chan_world \<Rightarrow> u8 list list \<Rightarrow> bool" where
  "room_made env w w' q \<longleftrightarrow> q = fifo_queue env w \<or>
     q = [] \<and> length (fifo_queue env w) = FRCORE_CORE_FIFO_NUM env \<and> batch_returned env (FRCORE_CORE_FIFO_NUM env) w w'"

text \<open>A batch of \<open>n\<close> packets when every transfer succeeds.\<close>

lemma post_batch_ok:
  assumes ok: "mem_ok env w" and n: "n \<le> FRCORE_CORE_FIFO_NUM env" and dma: "\<forall>k. \<not> dma_fails env k"
    and ready: "\<not> w_exhaust w" "n \<le> unat (h_avail_widx (w_host w) - avail_ridx (w_chan w))"
      "unat (compl_widx (w_chan w) - h_compl_ridx (w_host w)) + n \<le> FRC_SIMPLE_RING_BUFF_SIZE"
    and full: "\<forall>i < n. fifo_bytes env (w_fifo w) i \<noteq> []"
    and addrs: "addrs = ring_slice (h_avail_ring (w_host w)) (unat (avail_ridx (w_chan w))) n"
  shows "\<exists>w'. post_batch env n w = Some (True, w') \<and>
      h_mem (w_host w') = write_blocks (map (\<lambda>i. (addrs ! i + FRC_DMA_OFFSET, fifo_bytes env (w_fifo w) i)) [0..<n]) (h_mem (w_host w)) \<and>
      ring_slice (h_compl_ring (w_host w')) (unat (compl_widx (w_chan w))) n = addrs \<and>
      h_compl_widx (w_host w') = compl_widx (w_chan w) + of_nat n \<and>
      h_avail_ridx (w_host w') = avail_ridx (w_chan w) + of_nat n \<and>
      local_ridx (w_fifo w') = local_ridx (w_fifo w) + of_nat n \<and> local_widx (w_fifo w') = local_widx (w_fifo w)"
proof -
  obtain b w1 where w1: "frcore_simple_package_chan_avail_get env n w = Some (FRE_SUCCESS, w1)"
      "w_host w1 = (w_host w)\<lparr>h_avail_ridx := avail_ridx (w_chan w) + of_nat n\<rparr>"
      "w_fifo w1 = (w_fifo w)\<lparr>idx_buff := b\<rparr>" "compl_widx (w_chan w1) = compl_widx (w_chan w)" "take n b = addrs"
    using avail_get_ok [OF ok n dma ready(2)] addrs by auto
  have ok1: "mem_ok env w1"
    using avail_get_frame [OF ok fifo_same_refl n] w1(1) by simp
  let ?w2 = "stat_inc stat_avail_get (w1\<lparr>w_exhaust := False\<rparr>)"
  have m: "map (desc env (w_fifo ?w2)) [0..<n] = map (\<lambda>i. (addrs ! i + FRC_DMA_OFFSET, fifo_bytes env (w_fifo w) i)) [0..<n]"
    by (simp add: desc_bytes w1(3) flip: w1(5))
  obtain w3 where w3: "post_pkts env n 0 0 ?w2 = Some (n, w3)" "w_fifo w3 = w_fifo w1" "w_chan w3 = w_chan w1"
      "w_host w3 = (w_host w1)\<lparr>h_mem := write_blocks (map (\<lambda>i. (addrs ! i + FRC_DMA_OFFSET, fifo_bytes env (w_fifo w) i)) [0..<n]) (h_mem (w_host w1))\<rparr>"
    using post_pkts_ok [of env ?w2 0 n 0, unfolded add_0 m] ok1 n dma full w1(3) by (auto simp: desc_bytes)
  obtain w4 ring where w4: "frcore_simple_package_chan_compl_put env n (stat_inc stat_pkt_post w3) = Some (FRE_SUCCESS, w4)"
      "w_host w4 = (w_host w3)\<lparr>h_compl_ring := ring, h_compl_widx := compl_widx (w_chan w3) + of_nat n\<rparr>"
      "w_fifo w4 = w_fifo w3" "ring_slice ring (unat (compl_widx (w_chan w3))) n = take n (idx_buff (w_fifo w3))"
    using compl_put_ok [of env "stat_inc stat_pkt_post w3" n] ok1 n dma ready(3) w1 w3 by (auto simp: mem_ok_def)
  show ?thesis
    using ready(1) w1 w3 w4
    by (simp add: Let_def post_batch_def post_go_def frcore_simple_package_chan_post_pkt_def get_cycle_def FRE_SUCCESS_def FRE_NOSPACE_def)
qed

lemma post_makes_room:
  assumes ok: "fifo_ok env w"
  obtains w1 where "frcore_simple_package_fifo_post env True w = Some w1" "fifo_ok env w1"
    "local_widx (w_fifo w1) = local_widx (w_fifo w)"
    "\<And>w'. w_host w' = w_host w1 \<Longrightarrow> w_stat w' stat_post_err_pkts = w_stat w1 stat_post_err_pkts \<Longrightarrow> room_made env w w' (fifo_queue env w1)"
proof -
  obtain w1 where w1: "frcore_simple_package_fifo_post env True w = Some w1" "fifo_ok env w1"
      "local_widx (w_fifo w1) = local_widx (w_fifo w)" "post_result env w w1" "fifo_len (w_fifo w) \<noteq> FRCORE_CORE_FIFO_NUM env \<longrightarrow> w1 = w"
    using fifo_post_outcome [OF ok] by blast
  have "room_made env w w' (fifo_queue env w1)"
    if "w_host w' = w_host w1" "w_stat w' stat_post_err_pkts = w_stat w1 stat_post_err_pkts" for w'
    using w1(4,5) that by (auto simp: room_made_def post_result_def batch_returned_def Let_def)
  then show ?thesis using w1(1-3) by (intro that)
qed

lemma forward_rule_outcome:
  assumes ok: "fifo_ok env w" and "parts_ok hdr info payload paylen" and "unat paylen \<le> 1934"
    and nowrap: "unat (local_widx (w_fifo w)) + 1 < 2 ^ 64"
  shows "\<exists>q rv w'. room_made env w w' q \<and>
    frcore_forward_rule_pkt_to_fifo env tagid hdr info payload paylen w = Some (rv, w') \<and> fifo_ok env w' \<and>
    (if length q < FRCORE_CORE_FIFO_NUM env
     then rv = FRE_SUCCESS \<and> fifo_queue env w' =
       q @ [hdr @ [ucast (drop_bit 8 tagid), ucast tagid] @ take (unat paylen) payload @ info]
     else rv = FRE_EXCEED \<and> fifo_queue env w' = q)"
proof -
  obtain w1 where w1: "frcore_simple_package_fifo_post env True w = Some w1" "fifo_ok env w1"
      "local_widx (w_fifo w1) = local_widx (w_fifo w)"
    and room: "\<And>w'. w_host w' = w_host w1 \<Longrightarrow> w_stat w' stat_post_err_pkts = w_stat w1 stat_post_err_pkts \<Longrightarrow> room_made env w w' (fifo_queue env w1)"
    by (rule post_makes_room [OF ok]) blast
  have stat: "fifo_ok env (stat_add x v w') = fifo_ok env w'" "fifo_queue env (stat_add x v w') = fifo_queue env w'"
    "fifo_ok env (w\<lparr>w_stat := st\<rparr>) = fifo_ok env w" "fifo_queue env (w\<lparr>w_stat := st\<rparr>) = fifo_queue env w" for x v w w' st
    by (simp_all add: fifo_ok_def fifo_queue_def)
  let ?extra = "[ucast (drop_bit 8 tagid), ucast tagid :: u8]"
  show ?thesis
  proof (cases "fifo_len (w_fifo w1) < FRCORE_CORE_FIFO_NUM env")
    case True
    obtain w2 where "fifo_add env ?extra hdr info payload paylen w1 = Some (FRE_SUCCESS, w2)" "fifo_ok env w2"
        "fifo_queue env w2 = fifo_queue env w1 @ [hdr @ ?extra @ take (unat paylen) payload @ info]"
        "w_host w2 = w_host w1" "w_stat w2 = w_stat w1"
      using fifo_add_stores [OF w1(2) assms(2) True, of ?extra] nowrap assms(3) w1(3) by auto
    then show ?thesis using w1 True room [of "stat_inc stat_dma_enqueue_pkts w2"]
      by (intro exI [of _ "fifo_queue env w1"] exI [of _ FRE_SUCCESS] exI [of _ "stat_inc stat_dma_enqueue_pkts w2"])
         (simp add: stat_add_other frcore_forward_rule_pkt_to_fifo_def rule_fifo_post_same frcore_rule_packet_fifo_add_def enqueue_result_def FRE_SUCCESS_def stat)
  next
    case False
    obtain rv st where "fifo_add env ?extra hdr info payload paylen w1 = Some (rv, w1\<lparr>w_stat := st\<rparr>)" "rv \<noteq> 0"
        "st stat_post_err_pkts = w_stat w1 stat_post_err_pkts"
      using fifo_add_refused [where paylen = paylen and extra = ?extra and w = w1 and env = env and hdr = hdr and info = info and payload = payload] False by (auto simp: FRE_EXCEED_def FRE_NOSPACE_def)
    then show ?thesis using w1 False room [of "stat_inc stat_dma_enqueue_errs (w1\<lparr>w_stat := st\<rparr>)"]
      by (intro exI [of _ "fifo_queue env w1"] exI [of _ FRE_EXCEED] exI [of _ "stat_inc stat_dma_enqueue_errs (w1\<lparr>w_stat := st\<rparr>)"])
         (simp add: stat_add_other frcore_forward_rule_pkt_to_fifo_def rule_fifo_post_same frcore_rule_packet_fifo_add_def enqueue_result_def stat)
  qed
qed

section \<open>Properties\<close>

text \<open>A core with an empty fifo, and a host with \<open>length addrs\<close> free blocks.\<close>

definition chan_start :: "env \<Rightarrow> u64 list \<Rightarrow> chan_world" where
  "chan_start env addrs = \<lparr>
     w_host = \<lparr>h_avail_widx = of_nat (length addrs), h_avail_ridx = 0,
       h_avail_ring = addrs @ replicate (FRC_SIMPLE_RING_BUFF_SIZE - length addrs) 0,
       h_compl_widx = 0, h_compl_ridx = 0, h_compl_ring = replicate FRC_SIMPLE_RING_BUFF_SIZE 0, h_mem = \<lambda>_. 0\<rparr>,
     w_chan = \<lparr>avail_widx = 0, avail_ridx = 0, compl_widx = 0, compl_ridx = 0\<rparr>,
     w_fifo = \<lparr>local_widx = 0, local_ridx = 0, post_cycle = 0, idx_buff = replicate (FRCORE_CORE_FIFO_NUM env) 0,
       fifo_cells = replicate (FRCORE_CORE_FIFO_NUM env)
         \<lparr>pkt_size = 0, cell_data = replicate FRC_DMA_SIMPLE_PACKAGE_DATA_SIZE 0\<rparr>\<rparr>,
     w_exhaust = False, w_last_display = 0, w_dma = 0, w_tick = 0, w_stat = \<lambda>_. 0\<rparr>"

definition quiet_env :: env where
  "quiet_env = \<lparr>dma_fails = \<lambda>_. False, cycles = of_nat, cpu_freq = 1000, max_ptrs = 2, max_buf = 8191, stack = \<lambda>_. 0\<rparr>"

definition faulty_env :: env where
  "faulty_env = \<lparr>dma_fails = \<lambda>k. k = 3, cycles = of_nat, cpu_freq = 1000, max_ptrs = 2, max_buf = 8191, stack = \<lambda>_. 0\<rparr>"

lemma chan_start_ok:
  assumes "0 < max_ptrs env" "FRCORE_CORE_FIFO_NUM env \<le> FRC_SIMPLE_RING_BUFF_SIZE" "length addrs \<le> FRC_SIMPLE_RING_BUFF_SIZE"
    "FRC_DMA_SIMPLE_PACKAGE_DATA_SIZE \<le> max_buf env"
  shows "fifo_ok env (chan_start env addrs)" "fifo_queue env (chan_start env addrs) = []"
  using assms
  by (simp_all add: fifo_ok_def mem_ok_def chan_start_def fifo_len_def fifo_queue_def FRCORE_CORE_FIFO_NUM_def list_all_iff)

lemma env_sizes [simp]: "FRCORE_CORE_FIFO_NUM quiet_env = 32" "FRCORE_CORE_FIFO_NUM faulty_env = 32"
  "max_ptrs quiet_env = 2" "max_ptrs faulty_env = 2" "max_buf quiet_env = 8191" "max_buf faulty_env = 8191" "dma_fails quiet_env = (\<lambda>_. False)"
  by (simp_all add: quiet_env_def faulty_env_def FRCORE_CORE_FIFO_NUM_def)

text \<open>
  C19. Posting a fifo always returns, whatever transfers fail and whatever the host does to its indices:
  every array access is in range and the fifo invariant is kept. Either the queue is as it was and the
  index of the completed ring in the host's memory has not moved; or the queue was not empty and is gone
  as a whole. Then the blocks taken for it are returned through the completed ring in the order taken,
  both shared indices have advanced by the number of packets, the first \<open>posted\<close> packets and nothing
  else were written to the host, packet \<open>i\<close> into block \<open>i\<close>, and the counter of lost packets has grown by
  the number of the others. A packet leaves the fifo only with its block, and is lost only when counted.
\<close>

theorem fifo_post_all_or_nothing:
  assumes "fifo_ok env w" and "fifo_queue env w = q"
    and "addrs = ring_slice (h_avail_ring (w_host w)) (unat (avail_ridx (w_chan w))) (length q)"
  shows "\<exists>w'. frcore_simple_package_fifo_post env flag w = Some w' \<and> fifo_ok env w' \<and>
    (fifo_queue env w' = q \<and> h_compl_widx (w_host w') = h_compl_widx (w_host w) \<or>
     q \<noteq> [] \<and> fifo_queue env w' = [] \<and>
     h_avail_ridx (w_host w') = avail_ridx (w_chan w) + of_nat (length q) \<and>
     h_compl_widx (w_host w') = compl_widx (w_chan w) + of_nat (length q) \<and>
     ring_slice (h_compl_ring (w_host w')) (unat (compl_widx (w_chan w))) (length q) = addrs \<and>
     (\<exists>posted \<le> length q. w_stat w' stat_post_err_pkts = w_stat w stat_post_err_pkts + of_nat (length q - posted) \<and>
        h_mem (w_host w') = write_blocks (map (\<lambda>i. (addrs ! i + FRC_DMA_OFFSET, q ! i)) [0..<posted]) (h_mem (w_host w))))"
proof -
  obtain w' where w': "frcore_simple_package_fifo_post env flag w = Some w'" "fifo_ok env w'" "post_result env w w'"
    using fifo_post_outcome [OF assms(1)] by blast
  have nth: "map (\<lambda>i. (addrs ! i + FRC_DMA_OFFSET, fifo_bytes env (w_fifo w) i)) [0..<k] = map (\<lambda>i. (addrs ! i + FRC_DMA_OFFSET, q ! i)) [0..<k]"
    if "k \<le> length q" for k
    using that assms(2) by (auto simp: fifo_queue_def)
  have returned: "\<exists>posted \<le> length q. w_stat w' stat_post_err_pkts = w_stat w stat_post_err_pkts + of_nat (length q - posted) \<and>
        h_mem (w_host w') = write_blocks (map (\<lambda>i. (addrs ! i + FRC_DMA_OFFSET, q ! i)) [0..<posted]) (h_mem (w_host w))"
    if ret: "batch_returned env (length q) w w'"
  proof -
    obtain k where "k \<le> length q" "w_stat w' stat_post_err_pkts = w_stat w stat_post_err_pkts + of_nat (length q - k)"
      "h_mem (w_host w') = write_blocks (map (\<lambda>i. (addrs ! i + FRC_DMA_OFFSET, fifo_bytes env (w_fifo w) i)) [0..<k]) (h_mem (w_host w))"
      using ret unfolding batch_returned_def Let_def assms(3) [symmetric] by blast
    then show ?thesis unfolding nth [OF \<open>k \<le> length q\<close>] by (intro exI [of _ k] conjI)
  qed
  show ?thesis
  proof (cases "fifo_queue env w' = q \<and> h_compl_widx (w_host w') = h_compl_widx (w_host w)")
    case False
    then have all: "q \<noteq> []" "fifo_queue env w' = []" "batch_returned env (length q) w w'"
      using w'(3) False unfolding post_result_def assms(2) by blast+
    note rest = all(3) [unfolded batch_returned_def Let_def assms(3) [symmetric]]
    show ?thesis
      by (intro exI [of _ w'] conjI disjI2 returned all w'(1,2)) (use rest in simp_all)
  qed (intro exI [of _ w'] conjI disjI1 w'(1,2), simp_all)
qed

definition one_packet :: "chan_world" where
  "one_packet = (chan_start quiet_env [4096])\<lparr>w_fifo := (w_fifo (chan_start quiet_env [4096]))\<lparr>local_widx := 1,
     fifo_cells := replicate 32 \<lparr>pkt_size = 2, cell_data = [7, 9] @ replicate 2006 0\<rparr>\<rparr>\<rparr>"

lemma one_packet_ok:
  assumes "FRCORE_CORE_FIFO_NUM env = 32" "max_buf env = 8191"
  shows "fifo_ok env one_packet" "fifo_queue env one_packet = [[7, 9]]"
  using assms
  by (simp_all add: fifo_ok_def mem_ok_def one_packet_def chan_start_def fifo_len_def list_all_iff c_consts fifo_queue_def fifo_bytes_def)

lemma one_packet_block: "ring_slice (h_avail_ring (w_host one_packet)) (unat (avail_ridx (w_chan one_packet))) (length [[7, 9 :: u8]]) = [4096]"
  by (simp add: ring_slice_def one_packet_def chan_start_def)

text \<open>One queued packet, and an environment whose fourth transfer fails: the one that copies the packet.\<close>

theorem fifo_post_all_or_nothing_witness:
  "\<exists>w'. frcore_simple_package_fifo_post faulty_env False one_packet = Some w' \<and>
    (fifo_queue faulty_env w' = [[7, 9]] \<and> h_compl_widx (w_host w') = 0 \<or>
     fifo_queue faulty_env w' = [] \<and> h_compl_widx (w_host w') = 1)"
  using fifo_post_all_or_nothing [OF one_packet_ok [of faulty_env] one_packet_block [symmetric], of False]
  by (auto simp: one_packet_def chan_start_def)

text \<open>
  C18. When no transfer fails, the host has offered a block for every queued packet, the data areas of these
  blocks do not overlap and the completed ring has room, one call of the post function delivers the whole queue: packet \<open>i\<close> stands at the
  payload offset of the \<open>i\<close>-th offered block, the blocks are returned through the completed ring in the
  same order, both shared indices have advanced by the number of packets, and the fifo is empty.
\<close>

theorem fifo_post_delivers:
  assumes "fifo_ok env w" and "fifo_queue env w = q" "q \<noteq> []" "[] \<notin> set q"
    and "\<forall>k. \<not> dma_fails env k" and "\<not> w_exhaust w"
    and "length q \<le> unat (h_avail_widx (w_host w) - avail_ridx (w_chan w))"
    and "unat (compl_widx (w_chan w) - h_compl_ridx (w_host w)) + length q \<le> FRC_SIMPLE_RING_BUFF_SIZE"
    and "addrs = ring_slice (h_avail_ring (w_host w)) (unat (avail_ridx (w_chan w))) (length q)" "spaced FRC_DMA_SIMPLE_PACKAGE_DATA_SIZE addrs"
  shows "\<exists>w'. frcore_simple_package_fifo_post env False w = Some w' \<and> fifo_queue env w' = [] \<and>
    (\<forall>i < length q. read_bytes (h_mem (w_host w')) (addrs ! i + FRC_DMA_OFFSET) (length (q ! i)) = q ! i) \<and>
    ring_slice (h_compl_ring (w_host w')) (unat (compl_widx (w_chan w))) (length q) = addrs \<and>
    h_compl_widx (w_host w') = compl_widx (w_chan w) + of_nat (length q) \<and>
    h_avail_ridx (w_host w') = avail_ridx (w_chan w) + of_nat (length q)"
proof -
  let ?n = "fifo_len (w_fifo w)"
  have q: "length q = ?n" "\<And>i. i < ?n \<Longrightarrow> q ! i = fifo_bytes env (w_fifo w) i" "0 < ?n"
    using assms(2,3) by (auto simp: fifo_queue_def)
  have full: "\<forall>i < ?n. fifo_bytes env (w_fifo w) i \<noteq> []" using q assms(4) by (metis nth_mem)
  have ok: "mem_ok env w" "?n \<le> FRCORE_CORE_FIFO_NUM env" using assms(1) by (simp_all add: fifo_ok_def)
  let ?ds = "map (\<lambda>i. (addrs ! i + FRC_DMA_OFFSET, fifo_bytes env (w_fifo w) i)) [0..<?n]"
  obtain w' where w': "post_batch env ?n w = Some (True, w')" "h_mem (w_host w') = write_blocks ?ds (h_mem (w_host w))"
      "ring_slice (h_compl_ring (w_host w')) (unat (compl_widx (w_chan w))) ?n = addrs"
      "h_compl_widx (w_host w') = compl_widx (w_chan w) + of_nat ?n" "h_avail_ridx (w_host w') = avail_ridx (w_chan w) + of_nat ?n"
      "local_ridx (w_fifo w') = local_ridx (w_fifo w) + of_nat ?n" "local_widx (w_fifo w') = local_widx (w_fifo w)"
    using post_batch_ok [OF ok assms(5,6) _ _ full, of addrs] assms(7-9) q(1) by auto
  have "frcore_simple_package_fifo_post env False w = Some w'"
    using post_loop_once [OF assms(1)] w'(1) q(3) by (auto simp: frcore_simple_package_fifo_post_def Let_def fifo_len_def)
  moreover have "fifo_queue env w' = []" using w'(6,7) by (simp add: fifo_queue_empty fifo_len_def)
  moreover have "read_bytes (h_mem (w_host w')) (addrs ! i + FRC_DMA_OFFSET) (length (q ! i)) = q ! i" if "i < ?n" for i
    unfolding w'(2)
  proof (rule read_blocks [of i])
    have len: "length (fifo_bytes env (w_fifo w) j) \<le> FRC_DMA_SIMPLE_PACKAGE_DATA_SIZE" for j
      using fifo_bytes_length [OF ok(1)] .
    then show "length (q ! i) < 2 ^ 64" using q(2) [OF that] le_less_trans [OF len, of "2 ^ 64" i] by (simp add: FRC_DMA_SIMPLE_PACKAGE_DATA_SIZE_def)
    have "length addrs = ?n" using assms(9) q(1) by (simp add: ring_slice_def)
    then show "\<forall>j < length ?ds. j \<noteq> i \<longrightarrow> clear_of (fst (?ds ! j)) (length (snd (?ds ! j))) (addrs ! i + FRC_DMA_OFFSET) (length (q ! i))"
      using that len q(2) [OF that] spacedD [OF assms(10)] by simp
  qed (use that q(2) in simp_all)
  ultimately show ?thesis using w' q(1) by auto
qed

theorem fifo_post_delivers_witness:
  "\<exists>w'. frcore_simple_package_fifo_post quiet_env False one_packet = Some w' \<and> read_bytes (h_mem (w_host w')) 4136 2 = [7, 9]"
proof -
  note ok = one_packet_ok [of quiet_env, simplified]
  have "\<exists>w'. frcore_simple_package_fifo_post quiet_env False one_packet = Some w' \<and>
      (\<forall>i < length [[7, 9 :: u8]]. read_bytes (h_mem (w_host w')) ([4096] ! i + FRC_DMA_OFFSET) (length ([[7, 9 :: u8]] ! i)) = [[7, 9]] ! i)"
    using fifo_post_delivers [OF ok _ _ _ _ _ _ one_packet_block [symmetric]]
    by (simp add: one_packet_def chan_start_def c_consts spaced_def) blast
  then show ?thesis by (auto simp: FRC_DMA_OFFSET_def numeral_2_eq_2)
qed



text \<open>
  The size check of the enqueue functions admits packets that do not fit: it compares the packet
  with the block size of 2048 bytes, while the data area of a cell is that size less 40 bytes. Every
  packet whose parts add up to more than 2008 and at most 2048 bytes is copied past the end of its
  cell (a fault of the model) when the fifo has room, in both enqueue functions.
\<close>

theorem fifo_add_overrun:
  assumes "fifo_ok env w" and "parts_ok hdr info payload paylen" and "fifo_len (w_fifo w) < FRCORE_CORE_FIFO_NUM env"
  shows "(1936 < unat paylen \<and> unat paylen \<le> 1976 \<longrightarrow>
      frcore_simple_package_fifo_add env hdr info payload paylen w = None) \<and>
    (1934 < unat paylen \<and> unat paylen \<le> 1974 \<longrightarrow>
      frcore_rule_packet_fifo_add env hdr info payload paylen tagid w = None)"
  using fifo_add_overruns [OF assms, of "[]"]
    fifo_add_overruns [OF assms, of "[ucast (drop_bit 8 tagid), ucast tagid]"]
  by (auto simp: frcore_simple_package_fifo_add_def frcore_rule_packet_fifo_add_def)

theorem fifo_add_overrun_witness:
  "frcore_rule_packet_fifo_add quiet_env (replicate 40 1) (replicate 32 2) (replicate 1940 3) 1940 5
     (chan_start quiet_env []) = None"
proof -
  have ok: "fifo_ok quiet_env (chan_start quiet_env [])"
    by (rule chan_start_ok) (simp_all add: FRC_SIMPLE_RING_BUFF_SIZE_def FRC_DMA_SIMPLE_PACKAGE_DATA_SIZE_def)
  have "fifo_len (w_fifo (chan_start quiet_env [])) < 32" by (simp add: chan_start_def fifo_len_def)
  then show ?thesis
    using fifo_add_overrun [OF ok, of "replicate 40 1" "replicate 32 2" "replicate 1940 3" 1940 5] by (simp add: parts_ok_def)
qed

text \<open>
  A failed write-back of the read index loses blocks: the channel's own copy of the index has
  already advanced, so after the error the core skips the blocks it read, while the host still counts
  them as not taken and no completed entry returns them.
\<close>

theorem avail_get_error_loses_blocks:
  assumes "mem_ok env w" "n \<le> FRCORE_CORE_FIFO_NUM env"
    and "n \<le> unat (h_avail_widx (w_host w) - avail_ridx (w_chan w))"
    and "unat (avail_ridx (w_chan w)) mod FRC_SIMPLE_RING_BUFF_SIZE + n \<le> FRC_SIMPLE_RING_BUFF_SIZE"
    and "\<not> dma_fails env (w_dma w)" "\<not> dma_fails env (Suc (w_dma w))" "dma_fails env (Suc (Suc (w_dma w)))"
  shows "\<exists>w'. frcore_simple_package_chan_avail_get env n w = Some (FRE_DMA, w') \<and>
    avail_ridx (w_chan w') = avail_ridx (w_chan w) + of_nat n \<and> w_host w' = w_host w \<and> fifo_same w w'"
proof -
  have len: "length (h_avail_ring (w_host w)) = FRC_SIMPLE_RING_BUFF_SIZE" "length (idx_buff (w_fifo w)) = FRCORE_CORE_FIFO_NUM env"
    using assms(1) by (simp_all add: mem_ok_def)
  have "min (FRC_SIMPLE_RING_BUFF_SIZE - unat (avail_ridx (w_chan w)) mod FRC_SIMPLE_RING_BUFF_SIZE) n = n"
    using assms(4) by simp
  then show ?thesis
    using assms(2-7) len
    by (simp add: frcore_simple_package_chan_avail_get_def with_dma_def dma_start_def avail_copy_def get_slice_def
        put_slice_def avail_commit_def Let_def fifo_same_def stat_add_def)
qed

theorem avail_get_error_loses_blocks_witness:
  "\<exists>w'. frcore_simple_package_chan_avail_get (quiet_env\<lparr>dma_fails := \<lambda>k. k = Suc (Suc 0)\<rparr>) 1
      (chan_start quiet_env [4096]) = Some (FRE_DMA, w') \<and> avail_ridx (w_chan w') = 1"
proof -
  let ?env = "quiet_env\<lparr>dma_fails := \<lambda>k. k = Suc (Suc 0)\<rparr>"
  have N: "FRCORE_CORE_FIFO_NUM ?env = 32" by (simp add: FRCORE_CORE_FIFO_NUM_def)
  have ok: "mem_ok ?env (chan_start quiet_env [4096])"
    by (simp add: mem_ok_def chan_start_def N list_all_iff c_consts)
  show ?thesis
    using avail_get_error_loses_blocks [OF ok, of 1]
    by (auto simp: chan_start_def N FRC_SIMPLE_RING_BUFF_SIZE_def)
qed

end
