(* ===== verification/Bytes.thy ===== *)
theory Bytes
  imports Prelude
begin

text \<open>
  Reading and writing packet bytes in network order: the macros \<^verbatim>\<open>UP8\<close>, \<^verbatim>\<open>UP16\<close>, \<^verbatim>\<open>UP32\<close> of
  \<^verbatim>\<open>frcore/frcore_pkt.h\<close> and \<^verbatim>\<open>PACK_U8\<close>, \<^verbatim>\<open>PACK_U16\<close>, \<^verbatim>\<open>PACK_U32\<close> with their inverses of
  \<^verbatim>\<open>include/frc_pack.h\<close>. A read past the end of the buffer is a fault. Since the core is a big-endian
  machine, the bytes of a C structure in memory are its fields packed one after the other.
\<close>

section \<open>Reading at an offset\<close>

definition UP8 :: "u8 list \<Rightarrow> nat \<Rightarrow> u8 option" where
  "UP8 buf i = arr_get buf i"

definition UP16 :: "u8 list \<Rightarrow> nat \<Rightarrow> u16 option" where
  "UP16 buf i = do {
     a \<leftarrow> arr_get buf i; b \<leftarrow> arr_get buf (i + 1);
     Some (push_bit 8 (ucast a) OR ucast b)
   }"

definition UP32 :: "u8 list \<Rightarrow> nat \<Rightarrow> u32 option" where
  "UP32 buf i = do {
     a \<leftarrow> arr_get buf i; b \<leftarrow> arr_get buf (i + 1); c \<leftarrow> arr_get buf (i + 2); d \<leftarrow> arr_get buf (i + 3);
     Some (push_bit 24 (ucast a) OR push_bit 16 (ucast b) OR push_bit 8 (ucast c) OR ucast d)
   }"

section \<open>Packing and unpacking a stream\<close>

definition PACK_U8 :: "u8 \<Rightarrow> u8 list" where
  "PACK_U8 v = [v AND 0xff]"

definition PACK_U16 :: "u16 \<Rightarrow> u8 list" where
  "PACK_U16 v = [ucast (drop_bit 8 v AND 0xff), ucast (v AND 0xff)]"

definition PACK_U32 :: "u32 \<Rightarrow> u8 list" where
  "PACK_U32 v = [ucast (drop_bit 24 v AND 0xff), ucast (drop_bit 16 v AND 0xff), ucast (drop_bit 8 v AND 0xff), ucast (v AND 0xff)]"

definition UNPACK_U8 :: "u8 list \<Rightarrow> (u8 \<times> u8 list) option" where
  "UNPACK_U8 buf = (case buf of a # rest \<Rightarrow> Some (a AND 0xff, rest) | _ \<Rightarrow> None)"

definition UNPACK_U16 :: "u8 list \<Rightarrow> (u16 \<times> u8 list) option" where
  "UNPACK_U16 buf = (case buf of a # b # rest \<Rightarrow> Some (push_bit 8 (ucast a AND 0xff) OR (ucast b AND 0xff), rest) | _ \<Rightarrow> None)"

definition UNPACK_U32 :: "u8 list \<Rightarrow> (u32 \<times> u8 list) option" where
  "UNPACK_U32 buf = (case buf of a # b # c # d # rest \<Rightarrow>
       Some (push_bit 24 (ucast a AND 0xff) OR push_bit 16 (ucast b AND 0xff) OR push_bit 8 (ucast c AND 0xff) OR (ucast d AND 0xff), rest)
     | _ \<Rightarrow> None)"

text \<open>A 64-bit field of a structure in the memory of a big-endian machine.\<close>

definition be64 :: "u64 \<Rightarrow> u8 list" where
  "be64 v = PACK_U32 (ucast (drop_bit 32 v)) @ PACK_U32 (ucast v)"

section \<open>Round trips\<close>

lemma mask8: "(0xff :: 'a::len word) = mask 8"
  by (simp add: mask_eq_exp_minus_1)

lemma pack_lengths [simp]: "length (PACK_U8 x) = 1" "length (PACK_U16 v) = 2" "length (PACK_U32 w) = 4" "length (be64 z) = 8"
  by (simp_all add: PACK_U8_def PACK_U16_def PACK_U32_def be64_def)

lemma unpack_pack_u8 [simp]: "UNPACK_U8 (PACK_U8 v @ rest) = Some (v, rest)"
  unfolding UNPACK_U8_def PACK_U8_def mask8 by simp (rule bit_word_eqI, auto simp: bit_simps)

lemma join_u16:
  fixes v :: u16
  shows "push_bit 8 (ucast (ucast (drop_bit 8 v AND 0xff) :: u8) AND 0xff) OR (ucast (ucast (v AND 0xff) :: u8) AND 0xff) = v"
  unfolding mask8 by (rule bit_word_eqI) (auto simp: bit_simps)

lemma join_u32:
  fixes v :: u32
  shows "push_bit 24 (ucast (ucast (drop_bit 24 v AND 0xff) :: u8) AND 0xff) OR
    push_bit 16 (ucast (ucast (drop_bit 16 v AND 0xff) :: u8) AND 0xff) OR
    push_bit 8 (ucast (ucast (drop_bit 8 v AND 0xff) :: u8) AND 0xff) OR (ucast (ucast (v AND 0xff) :: u8) AND 0xff) = v"
  (is "?l = v")
proof (rule bit_word_eqI)
  fix n assume "n < LENGTH(32)"
  then have "n < 8 \<or> 8 \<le> n \<and> n < 16 \<or> 16 \<le> n \<and> n < 24 \<or> 24 \<le> n \<and> n < 32" by auto
  then show "bit ?l n \<longleftrightarrow> bit v n" unfolding mask8 by (elim disjE) (auto simp: bit_simps)
qed

lemma unpack_pack_u16 [simp]: "UNPACK_U16 (PACK_U16 v @ rest) = Some (v, rest)"
  unfolding UNPACK_U16_def PACK_U16_def append_Cons list.case join_u16 by simp

lemma unpack_pack_u32 [simp]: "UNPACK_U32 (PACK_U32 v @ rest) = Some (v, rest)"
  unfolding UNPACK_U32_def PACK_U32_def append_Cons list.case join_u32 by simp

lemma ucast_and_ff [simp]: "ucast (a :: u8) AND 0xff = (ucast a :: 'a::len word)"
proof -
  have "bit a n \<Longrightarrow> n < 8" for n using bit_imp_le_length [of a n] by simp
  then show ?thesis unfolding mask8 by (intro bit_word_eqI) (auto simp: bit_simps)
qed

lemma UP16_unpack: "UP16 buf i = map_option fst (UNPACK_U16 (drop i buf))"
proof (cases "i + 1 < length buf")
  case True
  then have "drop i buf = buf ! i # buf ! (i + 1) # drop (i + 2) buf"
    by (simp add: Cons_nth_drop_Suc [symmetric])
  with True show ?thesis by (simp add: UP16_def UNPACK_U16_def)
next
  case False
  then have "length (drop i buf) < 2" by simp
  then have "UNPACK_U16 (drop i buf) = None" by (auto simp: UNPACK_U16_def simp del: length_drop split: list.split)
  with False show ?thesis by (auto simp: UP16_def arr_get_def)
qed

lemma UP32_unpack: "UP32 buf i = map_option fst (UNPACK_U32 (drop i buf))"
proof (cases "i + 3 < length buf")
  case True
  then have "drop i buf = buf ! i # buf ! (i + 1) # buf ! (i + 2) # buf ! (i + 3) # drop (i + 4) buf"
    by (simp add: Cons_nth_drop_Suc [symmetric] eval_nat_numeral)
  with True show ?thesis by (simp add: UP32_def UNPACK_U32_def)
next
  case False
  then have "length (drop i buf) < 4" by simp
  then have "UNPACK_U32 (drop i buf) = None" by (auto simp: UNPACK_U32_def simp del: length_drop split: list.split)
  with False show ?thesis by (auto simp: UP32_def arr_get_def split: bind_splits)
qed

lemma UP_Some:
  "i + 1 < length buf \<Longrightarrow> \<exists>v. UP16 buf i = Some v" "i + 3 < length buf \<Longrightarrow> \<exists>w. UP32 buf i = Some w"
  by (simp_all add: UP16_def UP32_def)

text \<open>
  Packed fields read back: a sequence of 8-, 16- and 32-bit values written by the \<^verbatim>\<open>PACK\<close> macros
  and read by the \<^verbatim>\<open>UNPACK\<close> macros gives the values and the rest of the stream, and reading at an
  offset with \<^verbatim>\<open>UP16\<close> or \<^verbatim>\<open>UP32\<close> is unpacking there, with a fault exactly beyond the end.
\<close>

theorem pack_unpack_roundtrip:
  "UNPACK_U8 (PACK_U8 a @ rest) = Some (a, rest) \<and> UNPACK_U16 (PACK_U16 b @ rest) = Some (b, rest) \<and>
   UNPACK_U32 (PACK_U32 c @ rest) = Some (c, rest) \<and>
   UP16 (pre @ PACK_U16 b @ rest) (length pre) = Some b \<and> UP32 (pre @ PACK_U32 c @ rest) (length pre) = Some c \<and>
   (UP16 buf i = None \<longleftrightarrow> length buf \<le> i + 1) \<and> (UP32 buf i = None \<longleftrightarrow> length buf \<le> i + 3)"
proof -
  have "UP16 buf i = None \<longleftrightarrow> length buf \<le> i + 1" "UP32 buf i = None \<longleftrightarrow> length buf \<le> i + 3"
    by (auto simp: UP16_def UP32_def arr_get_def)
  then show ?thesis by (simp add: UP16_unpack UP32_unpack)
qed

end
