(* ===== verification/Rule.thy ===== *)
theory Rule
  imports Acl Chan Bytes
begin

text \<open>
  The rule component \<^verbatim>\<open>frcore/frcore_rule.c\<close>: the command handlers that maintain the rules, and the
  packet path \<^verbatim>\<open>frcore_rule_process\<close> that looks a packet up and forwards it to the host. It uses the
  filter set and its compiled tables (theory \<open>Acl\<close>), and the rule channel (theory \<open>Chan\<close>).

  The state is the switch \<^verbatim>\<open>rule_enable\<close>, the filter set of \<^verbatim>\<open>gsdata.acl\<close> with its tables, the channel of
  the core that runs, and the statistics. A handler returns its return code, what it wrote to
  \<^verbatim>\<open>outbuf\<close>, and the new state.
\<close>

section \<open>Data\<close>

record frc_rule =
  r_sip :: u32
  r_dip :: u32
  r_sp :: u16
  r_dp :: u16
  r_proto :: u16
  r_index :: u16
  r_rule_source :: u16
  r_rule_type :: u16
  r_action :: u16
  r_op :: u16

record frc_rule_op_in =
  op_index :: u32
  op_num :: u32

record frc_rule_stat =
  rst_rule :: frc_rule
  rst_pkts :: u32
  rst_bytes :: u32

record frc_rule_stat_out =
  so_num :: u32
  so_rule_stat :: "frc_rule_stat list"

datatype rule_stat =
    stat_rule_malformed_packet | stat_rule_matched_pkts | stat_rule_matched_bytes
  | stat_rule_not_matched_pkts | stat_rule_not_matched_bytes

record rule_state =
  rule_enable :: u8
  rs_acl :: mpp_acl_filtset
  rs_chan :: chan_world
  rs_stat :: "rule_stat \<Rightarrow> u64"

definition MAX_RULE :: nat where [c_consts]: "MAX_RULE = 4"
definition PROTO_TCP :: u8 where [c_consts]: "PROTO_TCP = 6"
definition PROTO_UDP :: u8 where [c_consts]: "PROTO_UDP = 0x11"
definition FRCORE_ACT_DROP :: int where [c_consts]: "FRCORE_ACT_DROP = 1"

definition set_filtset :: "FILTSET \<Rightarrow> rule_state \<Rightarrow> rule_state" where
  "set_filtset fs s = s\<lparr>rs_acl := (rs_acl s)\<lparr>filtset := fs\<rparr>\<rparr>"

abbreviation rules :: "rule_state \<Rightarrow> FILTSET" where
  "rules s \<equiv> filtset (rs_acl s)"

section \<open>Command handlers\<close>

definition frcore_cmd_rule_enable :: "u8 \<Rightarrow> rule_state \<Rightarrow> (int \<times> rule_state) option" where
  "frcore_cmd_rule_enable enable s = Some (FRE_SUCCESS, s\<lparr>rule_enable := enable\<rparr>)"

definition frcore_cmd_rule_status_get :: "rule_state \<Rightarrow> (int \<times> u8 \<times> rule_state) option" where
  "frcore_cmd_rule_status_get s = Some (FRE_SUCCESS, rule_enable s, s)"

definition args_of :: "frc_rule \<Rightarrow> rule_args" where
  "args_of r = \<lparr>ra_sip = r_sip r, ra_dip = r_dip r, ra_sp = r_sp r, ra_dp = r_dp r, ra_protocol = r_proto r,
     ra_op = r_op r, ra_action = r_action r, ra_rule_type = r_rule_type r, ra_rule_source = r_rule_source r\<rparr>"

definition frcore_cmd_rule_add :: "frc_rule \<Rightarrow> rule_state \<Rightarrow> (int \<times> rule_state) option" where
  "frcore_cmd_rule_add rule s = do {
     fs \<leftarrow> acl_setfilter (rules s) (r_index rule) (args_of rule);
     Some (FRE_SUCCESS, set_filtset fs s)
   }"

text \<open>The tags of \<^verbatim>\<open>for (i = 0; i < (int)num; i++)\<close>, where \<^verbatim>\<open>tagid + i\<close> is passed as a 16-bit value.\<close>

definition tag_range :: "frc_rule_op_in \<Rightarrow> u16 list" where
  "tag_range op = map (\<lambda>i. ucast (op_index op) + of_nat i) [0..<nat (sint (op_num op))]"

text \<open>The length \<^verbatim>\<open>*olen\<close> of the output that the dispatcher passes in, and the number in \<^verbatim>\<open>outbuf\<close>: the handler writes
  the number and leaves the length as it was.\<close>

definition frcore_cmd_rule_del :: "frc_rule_op_in \<Rightarrow> u16 \<Rightarrow> rule_state \<Rightarrow> (int \<times> u16 \<times> u16 \<times> rule_state) option" where
  "frcore_cmd_rule_del del olen s = do {
     (rv, num, fs) \<leftarrow> for_each (tag_range del) (\<lambda>tagid (rv, num, fs). do {
         (rv, fs) \<leftarrow> acl_DeleteOneFilter_by_tagid fs tagid;
         Some (rv, if rv = 0 then num + 1 else num, fs)
       }) (0, 0, rules s);
     Some (rv, olen, num, set_filtset fs s)
   }"

text \<open>Here too \<^verbatim>\<open>*olen\<close> stays; the output is \<open>None\<close> when the handler returns without writing it.\<close>

definition frcore_cmd_rule_clear_all :: "frc_rule_op_in \<Rightarrow> u16 \<Rightarrow> rule_state \<Rightarrow> (int \<times> u16 \<times> u16 option \<times> rule_state) option" where
  "frcore_cmd_rule_clear_all del olen s = do {
     let num = acl_getfilter_count (rules s);
     fs \<leftarrow> for_each (tag_range del) (\<lambda>tagid fs. map_option snd (acl_DeleteOneFilter_by_tagid fs tagid)) (rules s);
     let s' = set_filtset fs s;
     if acl_getfilter_count fs = 0 then Some (FRE_SUCCESS, olen, Some num, s') else Some (FRE_FAIL, olen, None, s')
   }"

definition frcore_cmd_rule_update :: "rule_state \<Rightarrow> (int \<times> rule_state) option" where
  "frcore_cmd_rule_update s = do {
     (rv, a) \<leftarrow> pre_acl_lookup_by_tuple (rs_acl s);
     Some (rv, s\<lparr>rs_acl := a\<rparr>)
   }"

text \<open>The entries of \<^verbatim>\<open>output.rule_stat\<close> that have been written, in order; the array has \<open>MAX_RULE\<close> entries
  and the code does not check \<^verbatim>\<open>j\<close> against it.\<close>

definition stat_entry :: "u16 \<Rightarrow> filter_info \<Rightarrow> frc_rule_stat" where
  "stat_entry tagid i = \<lparr>rst_rule = \<lparr>r_sip = fi_sip i, r_dip = fi_dip i, r_sp = fi_sp i, r_dp = fi_dp i,
       r_proto = fi_protocol i, r_index = tagid, r_rule_source = fi_rule_source i, r_rule_type = fi_rule_type i,
       r_action = fi_action i, r_op = fi_op i\<rparr>, rst_pkts = fi_pkts i, rst_bytes = fi_bytes i\<rparr>"

definition stat_step :: "rule_state \<Rightarrow> u16 \<Rightarrow> frc_rule_stat_out \<Rightarrow> frc_rule_stat_out option" where
  "stat_step s tagid output = do {
     (rv, info) \<leftarrow> acl_getfilter_by_tagid (rules s) tagid;
     case info of
       None \<Rightarrow> Some output
     | Some i \<Rightarrow>
         if length (so_rule_stat output) < MAX_RULE
         then Some (output\<lparr>so_rule_stat := so_rule_stat output @ [stat_entry tagid i], so_num := so_num output + 1\<rparr>)
         else None
   }"

definition frcore_cmd_rule_stat_get :: "frc_rule_op_in \<Rightarrow> rule_state \<Rightarrow> (int \<times> frc_rule_stat_out \<times> rule_state) option" where
  "frcore_cmd_rule_stat_get input s = do {
     output \<leftarrow> for_each (tag_range input) (stat_step s) \<lparr>so_num = 0, so_rule_stat = []\<rparr>;
     Some (FRE_SUCCESS, output, s)
   }"

definition frcore_cmd_rule_stat_clear :: "frc_rule_op_in \<Rightarrow> rule_state \<Rightarrow> (int \<times> u16 \<times> rule_state) option" where
  "frcore_cmd_rule_stat_clear input s = do {
     fs \<leftarrow> for_each (tag_range input) (\<lambda>tagid fs. acl_initfilter_statistics_by_tagid fs tagid) (rules s);
     Some (FRE_SUCCESS, of_nat (length (tag_range input)), set_filtset fs s)
   }"

definition frcore_cmd_rule_get_num :: "rule_state \<Rightarrow> (int \<times> u16 \<times> rule_state) option" where
  "frcore_cmd_rule_get_num s = Some (FRE_SUCCESS, acl_getfilter_count (rules s), s)"

section \<open>The packet path\<close>

record cvmx_wqe =
  wqe_len :: u16
  wqe_tag :: u32

text \<open>The fields of the headers that the code reads: the IP header at \<open>ip\<close> and the TCP or UDP header at
  \<open>udp\<close>, both offsets into the frame.\<close>

definition ip_ihl :: "u8 list \<Rightarrow> nat \<Rightarrow> nat option" where
  "ip_ihl eth ip = do { b \<leftarrow> UP8 eth ip; Some (unat (b AND 0xf)) }"

definition tcp_doff :: "u8 list \<Rightarrow> nat \<Rightarrow> nat option" where
  "tcp_doff eth udp = do { b \<leftarrow> UP8 eth (udp + 12); Some (unat (drop_bit 4 b)) }"

record mpp_tuple =
  t_sip :: u32
  t_dip :: u32
  t_sp :: u16
  t_dp :: u16
  t_proto :: u8

definition read_tuple :: "u8 list \<Rightarrow> nat \<Rightarrow> nat \<Rightarrow> mpp_tuple option" where
  "read_tuple eth ip udp = do {
     sip \<leftarrow> UP32 eth (ip + 12); dip \<leftarrow> UP32 eth (ip + 16);
     sp \<leftarrow> UP16 eth udp; dp \<leftarrow> UP16 eth (udp + 2);
     proto \<leftarrow> UP8 eth (ip + 9);
     Some \<lparr>t_sip = sip, t_dip = dip, t_sp = sp, t_dp = dp, t_proto = proto\<rparr>
   }"

text \<open>The bytes of \<^verbatim>\<open>frc_dma_hdr_t\<close> and \<^verbatim>\<open>frc_dma_pkt_info_t\<close> in memory, with the fields that stay zero.\<close>

definition hdr_bytes :: "mpp_tuple \<Rightarrow> u32 \<Rightarrow> u16 \<Rightarrow> u8 list" where
  "hdr_bytes t hash total_paylen =
     PACK_U32 (t_dip t) @ PACK_U32 (t_sip t) @ PACK_U16 0 @ PACK_U16 (ucast (t_proto t)) @ PACK_U16 (t_dp t) @ PACK_U16 (t_sp t) @
     PACK_U32 hash @ PACK_U16 total_paylen @ PACK_U16 1 @ PACK_U32 0 @ PACK_U32 0 @ replicate 8 0"

definition info_bytes :: "u32 \<Rightarrow> u32 \<Rightarrow> u16 \<Rightarrow> u32 \<Rightarrow> u64 \<Rightarrow> u64 \<Rightarrow> u8 list" where
  "info_bytes ack_seq sequence payload_len data_offset smac dmac =
     PACK_U32 ack_seq @ PACK_U32 sequence @ PACK_U16 0 @ PACK_U16 payload_len @ PACK_U32 data_offset @ be64 smac @ be64 dmac"

definition packet_info :: "u8 list \<Rightarrow> nat \<Rightarrow> u8 \<Rightarrow> u16 \<Rightarrow> u64 \<Rightarrow> u64 \<Rightarrow> u8 list option" where
  "packet_info eth udp proto ip_paylen smac dmac =
     (if proto = PROTO_TCP then do {
        doff \<leftarrow> tcp_doff eth udp;
        sequence \<leftarrow> UP32 eth (udp + 4); ack_seq \<leftarrow> UP32 eth (udp + 8);
        Some (info_bytes ack_seq sequence (ip_paylen - of_nat (doff * 4)) (of_nat (udp + doff * 4)) smac dmac)
      }
      else if proto = PROTO_UDP then Some (info_bytes 0 0 (ip_paylen - 8) (of_nat (udp + 8)) smac dmac)
      else Some (info_bytes 0 0 0 0 smac dmac))"

definition rule_stat_add :: "rule_stat \<Rightarrow> u64 \<Rightarrow> rule_state \<Rightarrow> rule_state" where
  "rule_stat_add x v s = s\<lparr>rs_stat := (rs_stat s)(x := rs_stat s x + v)\<rparr>"

definition tcp_malformed :: "u8 list \<Rightarrow> nat \<Rightarrow> nat \<Rightarrow> bool option" where
  "tcp_malformed eth ip udp = do {
     ihl \<leftarrow> ip_ihl eth ip; doff \<leftarrow> tcp_doff eth udp; tot_len \<leftarrow> UP16 eth (ip + 2);
     Some ((ihl + doff) * 4 > unat tot_len)
   }"

definition lookup_tuple :: "mpp_acl_filtset \<Rightarrow> mpp_tuple \<Rightarrow> u16 option" where
  "lookup_tuple a t = acl_lookup_by_tuple (phase0_Nodes a) (phase1_Nodes a) (phase2_Nodes a) (phase3_Node a)
     (ucast (drop_bit 16 (t_sip t))) (ucast (t_sip t)) (ucast (drop_bit 16 (t_dip t))) (ucast (t_dip t))
     (t_sp t) (t_dp t) (t_proto t)"

definition submit_matched :: "env \<Rightarrow> cvmx_wqe \<Rightarrow> u8 list \<Rightarrow> nat \<Rightarrow> u16 \<Rightarrow> u64 \<Rightarrow> u64 \<Rightarrow> mpp_tuple \<Rightarrow> u16 \<Rightarrow>
    rule_state \<Rightarrow> (int \<times> rule_state) option" where
  "submit_matched env work eth udp ip_paylen smac dmac t tag s = do {
     let s = rule_stat_add stat_rule_matched_bytes (ucast (wqe_len work)) (rule_stat_add stat_rule_matched_pkts 1 s);
     fs \<leftarrow> acl_statistic_hit (rules s) (unat tag);
     fs \<leftarrow> acl_pkt_bytes_add fs (unat tag) (wqe_len work);
     let s = set_filtset fs s;
     info \<leftarrow> packet_info eth udp (t_proto t) ip_paylen smac dmac;
     (rv, w) \<leftarrow> frcore_forward_rule_pkt_to_fifo env tag (hdr_bytes t (wqe_tag work AND 0xffffff) (wqe_len work)) info eth
                 (wqe_len work) (rs_chan s);
     Some (rv, s\<lparr>rs_chan := w\<rparr>)
   }"

definition frcore_rule_process :: "env \<Rightarrow> cvmx_wqe \<Rightarrow> u8 list \<Rightarrow> nat \<Rightarrow> nat \<Rightarrow> u16 \<Rightarrow> u64 \<Rightarrow> u64 \<Rightarrow>
    rule_state \<Rightarrow> (int \<times> rule_state) option" where
  "frcore_rule_process env work eth ip udp ip_paylen smac dmac s =
     (if rule_enable s = 0 then Some (0, s)
      else do {
        t \<leftarrow> read_tuple eth ip udp;
        malformed \<leftarrow> (if t_proto t = PROTO_TCP then tcp_malformed eth ip udp else Some False);
        if malformed then Some (FRCORE_ACT_DROP, rule_stat_add stat_rule_malformed_packet 1 s)
        else do {
          tag \<leftarrow> lookup_tuple (rs_acl s) t;
          if tag \<noteq> 0 then
            if unat tag \<noteq> MPP_MAX_FILTERS - 1 then submit_matched env work eth udp ip_paylen smac dmac t tag s
            else Some (0, s)
          else Some (0, rule_stat_add stat_rule_not_matched_bytes (ucast (wqe_len work))
                          (rule_stat_add stat_rule_not_matched_pkts 1 s))
        }
      })"

section \<open>The rules after a command\<close>

text \<open>The rules in force, by tag.\<close>

abbreviation rule_at :: "rule_state \<Rightarrow> u16 \<Rightarrow> FILTER option" where
  "rule_at s \<equiv> rule_map (rules s)"

abbreviation rules_ok :: "rule_state \<Rightarrow> bool" where
  "rules_ok s \<equiv> filtset_wf (rules s)"

definition add_rules :: "frc_rule list \<Rightarrow> rule_state \<Rightarrow> rule_state option" where
  "add_rules rs s = for_each rs (\<lambda>r s. map_option snd (frcore_cmd_rule_add r s)) s"

lemma set_filtset_simps [simp]:
  "rules (set_filtset fs s) = fs" "rs_chan (set_filtset fs s) = rs_chan s" "rule_enable (set_filtset fs s) = rule_enable s"
  "rs_stat (set_filtset fs s) = rs_stat s" "set_filtset fs (set_filtset fs' s) = set_filtset fs s" "set_filtset (rules s) s = s"
  by (simp_all add: set_filtset_def)

lemma rule_stat_add_simps [simp]:
  "rs_acl (rule_stat_add x v s) = rs_acl s" "rs_chan (rule_stat_add x v s) = rs_chan s"
  "rule_enable (rule_stat_add x v s) = rule_enable s"
  by (simp_all add: rule_stat_add_def)

lemma add_rules_filtset:
  "add_rules rs s = map_option (\<lambda>fs. set_filtset fs s)
     (for_each (map (\<lambda>r. (r_index r, args_of r)) rs) (\<lambda>(k, a) fs. acl_setfilter fs k a) (rules s))"
proof (induction rs arbitrary: s)
  case (Cons r rs)
  show ?case
  proof (cases "acl_setfilter (rules s) (r_index r) (args_of r)")
    case None
    then show ?thesis by (simp add: add_rules_def frcore_cmd_rule_add_def)
  next
    case (Some fs)
    then show ?thesis using Cons.IH [of "set_filtset fs s"]
      by (simp add: add_rules_def frcore_cmd_rule_add_def option.map_comp comp_def)
  qed
qed (simp add: add_rules_def)

lemma add_rules_map:
  assumes "rules_ok s" "\<forall>r \<in> set rs. unat (r_index r) < 2048" "unat (numFilters (rules s)) + length rs \<le> 2048"
  shows "\<exists>fs. add_rules rs s = Some (set_filtset fs s) \<and> filtset_wf fs \<and>
    rule_map fs = rule_at s ++ map_of (rev (map (\<lambda>r. (r_index r, new_filter (r_index r) (args_of r))) rs)) \<and>
    unat (numFilters fs) \<le> unat (numFilters (rules s)) + length rs"
  using acl_rules.upd_all [OF assms(1), of "map (\<lambda>r. (r_index r, args_of r)) rs"] assms(2,3)
  by (auto simp: add_rules_filtset c_consts comp_def)

lemma rule_del_outcome:
  assumes "rules_ok s"
  shows "\<exists>rv fs. frcore_cmd_rule_del op olen s =
      Some (rv, olen, of_nat (card (set (tag_range op) \<inter> dom (rule_at s))), set_filtset fs s) \<and> filtset_wf fs \<and>
    rule_map fs = rule_at s |` (- set (tag_range op))"
proof -
  have fin: "finite (dom (rule_at s))" using rule_map_dom(2) [OF assms] .
  show ?thesis
    using acl_rules.del_all [OF assms fin, of "tag_range op" 0 0] by (auto simp: frcore_cmd_rule_del_def)
qed

lemma getfilter_count_0:
  assumes "filtset_wf fs"
  shows "acl_getfilter_count fs = 0 \<longleftrightarrow> dom (rule_map fs) = {}"
proof -
  have "unat (numFilters fs) \<le> 2048" using wf_facts(3) [OF assms] by (simp add: c_consts)
  then have "acl_getfilter_count fs = 0 \<longleftrightarrow> unat (numFilters fs) = 0"
    by (simp add: acl_getfilter_count_def word_unat_eq_iff unat_ucast_mod)
  then show ?thesis using rule_map_dom [OF assms] by simp
qed

lemma rule_clear_outcome:
  assumes "rules_ok s"
  shows "\<exists>fs. frcore_cmd_rule_clear_all op olen s = Some (
      if dom (rule_at s) \<subseteq> set (tag_range op) then FRE_SUCCESS else FRE_FAIL, olen,
      if dom (rule_at s) \<subseteq> set (tag_range op) then Some (of_nat (card (dom (rule_at s)))) else None, set_filtset fs s) \<and>
    filtset_wf fs \<and> rule_map fs = rule_at s |` (- set (tag_range op))"
proof -
  obtain fs where fs: "for_each (tag_range op) (\<lambda>k fs. map_option snd (acl_DeleteOneFilter_by_tagid fs k)) (rules s) = Some fs"
      "filtset_wf fs" "rule_map fs = rule_at s |` (- set (tag_range op))"
    using acl_rules.del_only [OF assms] by blast
  have "acl_getfilter_count fs = 0 \<longleftrightarrow> dom (rule_at s) \<subseteq> set (tag_range op)"
    unfolding getfilter_count_0 [OF fs(2)] fs(3) by auto
  moreover have "acl_getfilter_count (rules s) = of_nat (card (dom (rule_at s)))"
    unfolding acl_getfilter_count_def rule_map_dom(1) [OF assms, symmetric] by simp
  ultimately show ?thesis using fs by (intro exI [of _ fs]) (simp add: frcore_cmd_rule_clear_all_def)
qed

section \<open>The packet path after a commit\<close>

text \<open>The rules are in force after \<^verbatim>\<open>frcore_cmd_rule_update\<close>: the tables of \<open>s\<close> were compiled from
  the filter set \<open>fs\<close>, whose counters are those of \<open>s\<close>.\<close>

definition in_force :: "FILTSET \<Rightarrow> rule_state \<Rightarrow> bool" where
  "in_force fs s \<longleftrightarrow> filtset_wf fs \<and> compiled fs (rs_acl s) \<and> rules s = synced fs"

lemma update_in_force:
  assumes "rules_ok s" "tables_mem (rs_acl s)" "unat (numFilters (rules s)) \<le> 9"
  shows "\<exists>a. frcore_cmd_rule_update s = Some (FRE_SUCCESS, s\<lparr>rs_acl := a\<rparr>) \<and> in_force (rules s) (s\<lparr>rs_acl := a\<rparr>)"
  using compile_small_set [OF wf_filters_ok [OF assms(1)] assms(2,3)] assms(1)
  by (auto simp: frcore_cmd_rule_update_def in_force_def)

definition tuple_matches :: "rule_args \<Rightarrow> mpp_tuple \<Rightarrow> bool" where
  "tuple_matches a t \<longleftrightarrow> rule_matches a (t_sip t) (t_dip t) (t_sp t) (t_dp t) (t_proto t)"

definition tuple_fields :: "mpp_tuple \<Rightarrow> nat list" where
  "tuple_fields t = packet_fields (t_sip t) (t_dip t) (t_sp t) (t_dp t) (t_proto t)"

lemma lookup_in_force: "in_force fs s \<Longrightarrow> lookup_tuple (rs_acl s) t = Some (classify fs (tuple_fields t))"
  using compiled_lookup [of fs "rs_acl s"] wf_filters_ok
  by (simp add: lookup_tuple_def in_force_def tuple_fields_def packet_fields_def)

lemma synced_counters: "pkt_num (synced fs) = pkt_num fs" "pkt_bytes (synced fs) = pkt_bytes fs"
  by (simp_all add: synced_def)

lemma count_packet:
  assumes "in_force fs s" "unat tag < 2048"
  shows "do { fs1 \<leftarrow> acl_statistic_hit (rules s) (unat tag); acl_pkt_bytes_add fs1 (unat tag) len } =
    Some ((rules s)\<lparr>pkt_num := (pkt_num (rules s))[unat tag := pkt_num (rules s) ! unat tag + 1],
      pkt_bytes := (pkt_bytes (rules s))[unat tag := pkt_bytes (rules s) ! unat tag + ucast len]\<rparr>)"
proof -
  have "length (pkt_num (rules s)) = 2048" "length (pkt_bytes (rules s)) = 2048"
    using assms(1) wf_facts(1) [of fs] by (simp_all add: in_force_def synced_counters counters_ok_def c_consts)
  then show ?thesis using assms(2) by (simp add: acl_statistic_hit_def acl_pkt_bytes_add_def)
qed

lemma hdr_info_lengths: "length (hdr_bytes t hash len) = 40" "length (info_bytes a b c d smac dmac) = 32"
  by (simp_all add: hdr_bytes_def info_bytes_def)

lemma packet_info_total:
  assumes "udp + 20 \<le> length eth"
  shows "\<exists>inf. packet_info eth udp proto paylen smac dmac = Some inf \<and> length inf = 32"
  using assms by (simp add: packet_info_def tcp_doff_def UP8_def UP32_def hdr_info_lengths)

text \<open>The bytes of a packet submitted under a tag, and the outcome of queueing them after \<open>q\<close>.\<close>

definition rule_packet :: "cvmx_wqe \<Rightarrow> u8 list \<Rightarrow> mpp_tuple \<Rightarrow> u16 \<Rightarrow> u8 list \<Rightarrow> u8 list" where
  "rule_packet work eth t tag info = hdr_bytes t (wqe_tag work AND 0xffffff) (wqe_len work) @
     [ucast (drop_bit 8 tag), ucast tag] @ take (unat (wqe_len work)) eth @ info"

definition queued :: "env \<Rightarrow> u8 list list \<Rightarrow> u8 list \<Rightarrow> int \<Rightarrow> chan_world \<Rightarrow> bool" where
  "queued env q pkt rv w \<longleftrightarrow> fifo_ok env w \<and>
     (if length q < FRCORE_CORE_FIFO_NUM env then rv = FRE_SUCCESS \<and> fifo_queue env w = q @ [pkt]
      else rv = FRE_EXCEED \<and> fifo_queue env w = q)"

lemma submit_outcome:
  assumes s: "in_force fs s" and tag: "unat tag < 2048" and fifo: "fifo_ok env (rs_chan s)"
    and nowrap: "unat (local_widx (w_fifo (rs_chan s))) + 1 < 2 ^ 64"
    and len: "unat (wqe_len work) \<le> length eth" "unat (wqe_len work) \<le> 1934" "udp + 20 \<le> length eth"
  shows "\<exists>inf q rv s'. submit_matched env work eth udp paylen smac dmac t tag s = Some (rv, s') \<and>
    packet_info eth udp (t_proto t) paylen smac dmac = Some inf \<and>
    room_made env (rs_chan s) (rs_chan s') q \<and> queued env q (rule_packet work eth t tag inf) rv (rs_chan s') \<and>
    rules s' = (rules s)\<lparr>pkt_num := (pkt_num (rules s))[unat tag := pkt_num (rules s) ! unat tag + 1],
      pkt_bytes := (pkt_bytes (rules s))[unat tag := pkt_bytes (rules s) ! unat tag + ucast (wqe_len work)]\<rparr> \<and>
    rs_stat s' = (rs_stat s)(stat_rule_matched_pkts := rs_stat s stat_rule_matched_pkts + 1,
      stat_rule_matched_bytes := rs_stat s stat_rule_matched_bytes + ucast (wqe_len work))"
proof -
  obtain inf where inf: "packet_info eth udp (t_proto t) paylen smac dmac = Some inf" "length inf = 32"
    using packet_info_total [OF len(3)] by blast
  have len': "length (pkt_num (rules s)) = 2048" "length (pkt_bytes (rules s)) = 2048"
    using s wf_facts(1) [of fs] by (simp_all add: in_force_def synced_counters counters_ok_def c_consts)
  let ?hdr = "hdr_bytes t (wqe_tag work AND 0xffffff) (wqe_len work)"
  have "parts_ok ?hdr inf eth (wqe_len work)"
    using inf len by (simp add: parts_ok_def hdr_info_lengths)
  from forward_rule_outcome [OF fifo this len(2) nowrap, of tag]
  obtain q rv w where "room_made env (rs_chan s) w q"
    "frcore_forward_rule_pkt_to_fifo env tag ?hdr inf eth (wqe_len work) (rs_chan s) = Some (rv, w)" "fifo_ok env w"
    "if length q < FRCORE_CORE_FIFO_NUM env
     then rv = FRE_SUCCESS \<and> fifo_queue env w = q @ [?hdr @ [ucast (drop_bit 8 tag), ucast tag] @ take (unat (wqe_len work)) eth @ inf]
     else rv = FRE_EXCEED \<and> fifo_queue env w = q"
    by blast
  moreover obtain fs1 where "acl_statistic_hit (rules s) (unat tag) = Some fs1"
    "acl_pkt_bytes_add fs1 (unat tag) (wqe_len work) = Some ((rules s)\<lparr>pkt_num := (pkt_num (rules s))[unat tag := pkt_num (rules s) ! unat tag + 1],
      pkt_bytes := (pkt_bytes (rules s))[unat tag := pkt_bytes (rules s) ! unat tag + ucast (wqe_len work)]\<rparr>)"
    using count_packet [OF s tag, of "wqe_len work"] by (auto split: bind_splits)
  ultimately show ?thesis
    using inf len' tag
    by (intro exI [of _ inf] exI [of _ q] exI [of _ rv]) (simp add: submit_matched_def Let_def queued_def rule_packet_def rule_stat_add_def set_filtset_def)
qed

text \<open>The rules in force after adding a list of rules with distinct indices to an empty table.\<close>

lemma commit_rules:
  assumes "rules_ok s" "rule_at s = Map.empty" "tables_mem (rs_acl s)" "length rs \<le> 9"
    and idx: "\<forall>r \<in> set rs. 0 < unat (r_index r) \<and> unat (r_index r) < 2047" and dist: "distinct (map r_index rs)"
  obtains s1 s2 fs where "add_rules rs s = Some s1" "frcore_cmd_rule_update s1 = Some (FRE_SUCCESS, s2)" "in_force fs s2"
    "rs_chan s2 = rs_chan s" "rule_enable s2 = rule_enable s" "rs_stat s2 = rs_stat s"
    "unat (numFilters fs) < 2048"
    "\<forall>k f. rule_map fs k = Some f \<longleftrightarrow> (\<exists>r \<in> set rs. k = r_index r \<and> f = new_filter (r_index r) (args_of r))"
proof -
  have "unat (numFilters (rules s)) = 0" using rule_map_dom(1) [OF assms(1)] assms(2) by simp
  then obtain fs where fs: "add_rules rs s = Some (set_filtset fs s)" "filtset_wf fs" "unat (numFilters fs) \<le> 9"
      "rule_map fs = map_of (rev (map (\<lambda>r. (r_index r, new_filter (r_index r) (args_of r))) rs))"
    using add_rules_map [OF assms(1), of rs] assms(2,4) idx by fastforce
  have tables: "tables_mem (rs_acl (set_filtset fs s))" using assms(3) by (simp add: tables_mem_def set_filtset_def)
  obtain a where a: "frcore_cmd_rule_update (set_filtset fs s) = Some (FRE_SUCCESS, (set_filtset fs s)\<lparr>rs_acl := a\<rparr>)"
      "in_force fs ((set_filtset fs s)\<lparr>rs_acl := a\<rparr>)"
    using update_in_force [OF _ tables] fs(2,3) by auto
  have "distinct (map fst (rev (map (\<lambda>r. (r_index r, new_filter (r_index r) (args_of r))) rs)))"
    using dist by (simp add: comp_def rev_map [symmetric])
  then have "rule_map fs k = Some f \<longleftrightarrow> (\<exists>r \<in> set rs. k = r_index r \<and> f = new_filter (r_index r) (args_of r))" for k f
    unfolding fs(4) by (subst map_of_eq_Some_iff) auto
  then show thesis using that [OF fs(1) a] fs(3) by simp
qed

lemma filter_matches: "accepts (new_filter k (args_of r)) (tuple_fields t) \<longleftrightarrow> tuple_matches (args_of r) t"
  by (simp add: tuple_fields_def tuple_matches_def accepts_new_filter)

section \<open>Reading and clearing the statistics\<close>

text \<open>What reading the rule of a tag gives, when its fields can be decoded.\<close>

lemma getfilter_cases:
  assumes "filtset_wf fs"
  shows "rule_map fs t = None \<Longrightarrow> acl_getfilter_by_tagid fs t = Some (FRE_FAIL, None)"
  using assms by (cases rule: scan_tag [where t = t]) (simp_all add: acl_getfilter_by_tagid_def)

text \<open>Every rule of the set was made from command arguments, so that its fields decode.\<close>

definition rules_from_args :: "rule_state \<Rightarrow> bool" where
  "rules_from_args s \<longleftrightarrow> (\<forall>t f. rule_at s t = Some f \<longrightarrow> (\<exists>a. f = new_filter t a))"

lemma getfilter_rule:
  assumes "rules_ok s" "rules_from_args s" "rule_at s t = Some f"
  shows "\<exists>i. acl_getfilter_by_tagid (rules s) t = Some (FRE_SUCCESS, Some i) \<and>
    fi_pkts i = ucast (pkt_num (rules s) ! unat t) \<and> fi_bytes i = ucast (pkt_bytes (rules s) ! unat t)"
proof -
  obtain a where "f = new_filter t a" using assms(2,3) by (auto simp: rules_from_args_def)
  then have dec: "\<exists>v. getfileter f = Some v" by (simp add: getfileter_new_filter)
  show ?thesis
    by (rule acl_getfilter_wf [OF assms(1,3)]) (use dec in \<open>auto simp: case_prod_beta\<close>)
qed

lemma stat_loop:
  assumes ok: "rules_ok s" "rules_from_args s"
  shows "length (so_rule_stat out) + length (filter (\<lambda>t. rule_at s t \<noteq> None) tags) \<le> MAX_RULE \<Longrightarrow>
      \<exists>es. for_each tags (stat_step s) out =
        Some (out\<lparr>so_rule_stat := so_rule_stat out @ es, so_num := so_num out + of_nat (length es)\<rparr>) \<and>
      map (\<lambda>e. (r_index (rst_rule e), rst_pkts e, rst_bytes e)) es =
        map (\<lambda>t. (t, ucast (pkt_num (rules s) ! unat t), ucast (pkt_bytes (rules s) ! unat t)))
          (filter (\<lambda>t. rule_at s t \<noteq> None) tags)"
    "length (so_rule_stat out) \<le> MAX_RULE \<Longrightarrow> length (so_rule_stat out) + length (filter (\<lambda>t. rule_at s t \<noteq> None) tags) > MAX_RULE \<Longrightarrow>
      for_each tags (stat_step s) out = None"
proof (induction tags arbitrary: out)
  case (Cons t tags)
  have skip: "rule_at s t = None \<Longrightarrow> stat_step s t out = Some out" for out
    using getfilter_cases [OF ok(1), of t] by (simp add: stat_step_def)
  have take: "\<exists>i. stat_step s t out = (if length (so_rule_stat out) < MAX_RULE
        then Some (out\<lparr>so_rule_stat := so_rule_stat out @ [stat_entry t i], so_num := so_num out + 1\<rparr>) else None) \<and>
      fi_pkts i = ucast (pkt_num (rules s) ! unat t) \<and> fi_bytes i = ucast (pkt_bytes (rules s) ! unat t)"
    if "rule_at s t = Some f" for f out
    using getfilter_rule [OF ok that] by (auto simp: stat_step_def)
  {
  case 1
  show ?case
  proof (cases "rule_at s t")
    case None
    then show ?thesis using Cons.IH(1) [of out] 1 skip by simp
  next
    case (Some f)
    obtain i where i: "stat_step s t out = Some (out\<lparr>so_rule_stat := so_rule_stat out @ [stat_entry t i], so_num := so_num out + 1\<rparr>)"
      "fi_pkts i = ucast (pkt_num (rules s) ! unat t)" "fi_bytes i = ucast (pkt_bytes (rules s) ! unat t)"
      using take [OF Some, of out] 1 Some by auto
    obtain es where "for_each tags (stat_step s) (out\<lparr>so_rule_stat := so_rule_stat out @ [stat_entry t i], so_num := so_num out + 1\<rparr>) =
        Some (out\<lparr>so_rule_stat := so_rule_stat out @ stat_entry t i # es, so_num := so_num out + of_nat (Suc (length es))\<rparr>)"
        "map (\<lambda>e. (r_index (rst_rule e), rst_pkts e, rst_bytes e)) es =
          map (\<lambda>t. (t, ucast (pkt_num (rules s) ! unat t), ucast (pkt_bytes (rules s) ! unat t))) (filter (\<lambda>t. rule_at s t \<noteq> None) tags)"
      using Cons.IH(1) [of "out\<lparr>so_rule_stat := so_rule_stat out @ [stat_entry t i], so_num := so_num out + 1\<rparr>"] 1 Some
      by (auto simp: add.assoc)
    then show ?thesis using i Some by (intro exI [of _ "stat_entry t i # es"]) (simp add: stat_entry_def)
  qed
  next
  case 2
  show ?case
  proof (cases "rule_at s t")
    case None
    then show ?thesis using Cons.IH(2) [of out] 2 skip by simp
  next
    case (Some f)
    from take [OF this, of out] obtain i where i: "stat_step s t out = (if length (so_rule_stat out) < MAX_RULE
        then Some (out\<lparr>so_rule_stat := so_rule_stat out @ [stat_entry t i], so_num := so_num out + 1\<rparr>) else None)" by blast
    then show ?thesis
      using Cons.IH(2) [of "out\<lparr>so_rule_stat := so_rule_stat out @ [stat_entry t i], so_num := so_num out + 1\<rparr>"] 2 Some
      by auto
  qed
  }
qed (auto simp: exI [of _ "[]"])

lemma clear_loop:
  assumes "length (pkt_num fs) = 2048" "length (pkt_bytes fs) = 2048"
  shows "if \<forall>t \<in> set tags. unat t < 2048
    then \<exists>pn pb. for_each tags (\<lambda>t fs. acl_initfilter_statistics_by_tagid fs t) fs = Some (fs\<lparr>pkt_num := pn, pkt_bytes := pb\<rparr>) \<and>
      (\<forall>t. unat t < 2048 \<longrightarrow> pn ! unat t = (if t \<in> set tags then 0 else pkt_num fs ! unat t) \<and>
        pb ! unat t = (if t \<in> set tags then 0 else pkt_bytes fs ! unat t))
    else for_each tags (\<lambda>t fs. acl_initfilter_statistics_by_tagid fs t) fs = None"
  using assms
proof (induction tags arbitrary: fs)
  case Nil
  show ?case by simp (rule exI [of _ "pkt_num fs"], rule exI [of _ "pkt_bytes fs"], simp)
next
  case (Cons u tags)
  show ?case
  proof (cases "unat u < 2048")
    case True
    let ?fs = "fs\<lparr>pkt_num := (pkt_num fs)[unat u := 0], pkt_bytes := (pkt_bytes fs)[unat u := 0]\<rparr>"
    have run: "acl_initfilter_statistics_by_tagid fs u = Some ?fs"
      using True Cons.prems
      by (simp add: acl_initfilter_statistics_by_tagid_def acl_init_statistic_hit_def acl_init_pkt_bytes_def)
    have "length (pkt_num ?fs) = 2048" "length (pkt_bytes ?fs) = 2048" using Cons.prems by simp_all
    note IH = Cons.IH [OF this]
    have at: "(pkt_num fs)[unat u := 0] ! unat t = (if t = u then 0 else pkt_num fs ! unat t)"
      "(pkt_bytes fs)[unat u := 0] ! unat t = (if t = u then 0 else pkt_bytes fs ! unat t)" if "unat t < 2048" for t
      using that Cons.prems by (auto simp: nth_list_update word_unat_eq_iff)
    show ?thesis
    proof (cases "\<forall>t \<in> set tags. unat t < 2048")
      case all: True
      then obtain pn pb where pp: "for_each tags (\<lambda>t fs. acl_initfilter_statistics_by_tagid fs t) ?fs = Some (?fs\<lparr>pkt_num := pn, pkt_bytes := pb\<rparr>)"
        "\<forall>t. unat t < 2048 \<longrightarrow> pn ! unat t = (if t \<in> set tags then 0 else pkt_num ?fs ! unat t) \<and>
          pb ! unat t = (if t \<in> set tags then 0 else pkt_bytes ?fs ! unat t)"
        using IH by auto
      have vals: "pn ! unat t = (if t \<in> set (u # tags) then 0 else pkt_num fs ! unat t) \<and>
          pb ! unat t = (if t \<in> set (u # tags) then 0 else pkt_bytes fs ! unat t)" if "unat t < 2048" for t
        using pp(2) at [OF that] that by (cases "t = u") (auto simp del: nth_list_update_eq)
      have loop: "for_each (u # tags) (\<lambda>t fs. acl_initfilter_statistics_by_tagid fs t) fs = Some (fs\<lparr>pkt_num := pn, pkt_bytes := pb\<rparr>)"
        using run pp(1) by simp
      have cond: "\<forall>t \<in> set (u # tags). unat t < 2048" using all True by simp
      show ?thesis
        unfolding if_P [OF cond] by (rule exI, rule exI, rule conjI [OF loop]) (use vals in blast)
    next
      case False
      then show ?thesis using IH run by auto
    qed
  next
    case False
    then have "acl_initfilter_statistics_by_tagid fs u = None" using Cons.prems
      by (simp add: acl_initfilter_statistics_by_tagid_def acl_init_statistic_hit_def arr_set_def)
    then show ?thesis using False by auto
  qed
qed

text \<open>For the examples: the state after start-up with the rules enabled, two rules, and a UDP frame from
  10.0.0.1 port 1000 to 10.0.0.2 port 80.\<close>

definition start_state :: "env \<Rightarrow> rule_state" where
  "start_state env = \<lparr>rule_enable = 1, rs_acl = acl_data_init filtset_init, rs_chan = chan_start env [], rs_stat = \<lambda>_. 0\<rparr>"

definition rule_for :: "u16 \<Rightarrow> u16 \<Rightarrow> frc_rule" where
  "rule_for index dp = \<lparr>r_sip = 0, r_dip = 0, r_sp = 0, r_dp = dp, r_proto = 17, r_index = index,
     r_rule_source = 0, r_rule_type = 0, r_action = 2, r_op = 0\<rparr>"

definition udp_frame :: "u8 list" where
  "udp_frame = replicate 14 0 @ [0x45, 0, 0, 40, 0, 0, 0, 0, 64, 17, 0, 0, 10, 0, 0, 1, 10, 0, 0, 2] @ [3, 232, 0, 80] @ replicate 22 0"

definition udp_tuple :: mpp_tuple where
  "udp_tuple = \<lparr>t_sip = 0x0A000001, t_dip = 0x0A000002, t_sp = 1000, t_dp = 80, t_proto = 17\<rparr>"

lemma udp_frame_tuple: "read_tuple udp_frame 14 34 = Some udp_tuple"
  by (simp add: read_tuple_def UP32_def UP16_def UP8_def udp_frame_def udp_tuple_def arr_get_def nth_append push_bit_eq_mult)

lemma udp_frame_length: "length udp_frame = 60"
  by (simp add: udp_frame_def)

lemma start_state_ok:
  "rules_ok (start_state quiet_env)" "rule_at (start_state quiet_env) = Map.empty" "tables_mem (rs_acl (start_state quiet_env))"
  "rule_enable (start_state quiet_env) = 1" "fifo_ok quiet_env (rs_chan (start_state quiet_env))"
  "fifo_queue quiet_env (rs_chan (start_state quiet_env)) = []" "local_widx (w_fifo (rs_chan (start_state quiet_env))) = 0"
  using chan_start_ok [of quiet_env "[]", unfolded FRC_DMA_SIMPLE_PACKAGE_DATA_SIZE_def]
  by (simp_all add: start_state_def filtset_init_wf tables_mem_init fun_eq_iff FRC_SIMPLE_RING_BUFF_SIZE_def) (simp add: chan_start_def)

lemma start_state_no_rules: "numFilters (rules (start_state quiet_env)) = 0"
  by (simp add: start_state_def filtset_init_def)

section \<open>Properties\<close>

text \<open>
  C2. From the commands to the packet path: when up to nine rules with distinct indices between 1 and
  2046 are added to an empty table and the table is updated, a well-formed packet of at most 1934 bytes
  that some rule matches is forwarded under the smallest matching index. Its packet counter goes up by one
  and its byte counter by the length of the frame; no counter of another rule, no rule and no other
  statistic changes. The fifo holds one more packet, with the header, the rule id, the frame and the info
  record, or the forward is refused because the fifo is full; the queue it is appended to is the old one,
  or the empty one when the old one was full and its blocks were returned to the host.
\<close>

theorem packet_forwarded_under_least_rule:
  assumes "rules_ok s" "rule_at s = Map.empty" "tables_mem (rs_acl s)" "length rs \<le> 9" "rule_enable s \<noteq> 0"
    and "\<forall>r \<in> set rs. 0 < unat (r_index r) \<and> unat (r_index r) < 2047" "distinct (map r_index rs)"
    and "read_tuple eth ip udp = Some t" "t_proto t = PROTO_TCP \<longrightarrow> tcp_malformed eth ip udp = Some False"
    and "r \<in> set rs" "tuple_matches (args_of r) t" "\<forall>r' \<in> set rs. tuple_matches (args_of r') t \<longrightarrow> r_index r \<le> r_index r'"
    and "fifo_ok env (rs_chan s)" "unat (local_widx (w_fifo (rs_chan s))) + 1 < 2 ^ 64"
    and "unat (wqe_len work) \<le> length eth" "unat (wqe_len work) \<le> 1934" "udp + 20 \<le> length eth"
  shows "\<exists>s1 s2 rv s3 inf q. add_rules rs s = Some s1 \<and> frcore_cmd_rule_update s1 = Some (FRE_SUCCESS, s2) \<and>
    frcore_rule_process env work eth ip udp paylen smac dmac s2 = Some (rv, s3) \<and>
    packet_info eth udp (t_proto t) paylen smac dmac = Some inf \<and>
    room_made env (rs_chan s) (rs_chan s3) q \<and> queued env q (rule_packet work eth t (r_index r) inf) rv (rs_chan s3) \<and>
    rules s3 = (rules s2)\<lparr>pkt_num := (pkt_num (rules s2))[unat (r_index r) := pkt_num (rules s2) ! unat (r_index r) + 1],
      pkt_bytes := (pkt_bytes (rules s2))[unat (r_index r) := pkt_bytes (rules s2) ! unat (r_index r) + ucast (wqe_len work)]\<rparr> \<and>
    rs_stat s3 = (rs_stat s)(stat_rule_matched_pkts := rs_stat s stat_rule_matched_pkts + 1,
      stat_rule_matched_bytes := rs_stat s stat_rule_matched_bytes + ucast (wqe_len work))"
proof -
  obtain s1 s2 fs where c: "add_rules rs s = Some s1" "frcore_cmd_rule_update s1 = Some (FRE_SUCCESS, s2)" "in_force fs s2"
    "rs_chan s2 = rs_chan s" "rule_enable s2 = rule_enable s" "rs_stat s2 = rs_stat s" "unat (numFilters fs) < 2048"
    and m: "\<forall>k f. rule_map fs k = Some f \<longleftrightarrow> (\<exists>r \<in> set rs. k = r_index r \<and> f = new_filter (r_index r) (args_of r))"
    by (rule commit_rules [OF assms(1-4,6,7)])
  let ?k = "r_index r"
  have k: "unat ?k < 2048" "?k \<noteq> 0" "unat ?k \<noteq> MPP_MAX_FILTERS - 1"
    using assms(6,10) by (auto simp: c_consts)
  have "classify fs (tuple_fields t) = ?k"
  proof (rule classify_least)
    show "filtset_wf fs" using c(3) by (simp add: in_force_def)
    show "rule_map fs ?k = Some (new_filter ?k (args_of r))" using m assms(10) by auto
    show "accepts (new_filter ?k (args_of r)) (tuple_fields t)" using assms(11) by (simp add: filter_matches)
    fix k' g assume "k' < ?k" "rule_map fs k' = Some g"
    then show "\<not> accepts g (tuple_fields t)" using m assms(12) by (auto simp: filter_matches)
  qed
  then have "lookup_tuple (rs_acl s2) t = Some ?k" using lookup_in_force [OF c(3)] by simp
  then have "frcore_rule_process env work eth ip udp paylen smac dmac s2 = submit_matched env work eth udp paylen smac dmac t ?k s2"
    using assms(5,8,9) c(5) k by (simp add: frcore_rule_process_def)
  then show ?thesis
    using submit_outcome [OF c(3) k(1), of env work eth udp paylen smac dmac t] assms(13-17) c by auto
qed

theorem packet_forwarded_under_least_rule_witness:
  "\<exists>s1 s2 rv s3 inf. add_rules [rule_for 9 0, rule_for 5 80] (start_state quiet_env) = Some s1 \<and>
     frcore_cmd_rule_update s1 = Some (FRE_SUCCESS, s2) \<and>
     frcore_rule_process quiet_env \<lparr>wqe_len = 60, wqe_tag = 7\<rparr> udp_frame 14 34 20 1 2 s2 = Some (rv, s3) \<and>
     fifo_queue quiet_env (rs_chan s3) = [rule_packet \<lparr>wqe_len = 60, wqe_tag = 7\<rparr> udp_frame udp_tuple 5 inf]"
  using packet_forwarded_under_least_rule [OF start_state_ok(1-3), of "[rule_for 9 0, rule_for 5 80]" udp_frame 14 34 udp_tuple
      "rule_for 5 80" quiet_env "\<lparr>wqe_len = 60, wqe_tag = 7\<rparr>" 20 1 2]
  by (auto simp: start_state_ok udp_frame_tuple udp_frame_length rule_for_def udp_tuple_def PROTO_TCP_def
      tuple_matches_def rule_matches_def args_of_def queued_def room_made_def)

text \<open>
  A well-formed packet that no rule in force matches is counted as not matched, with its length,
  and nothing else happens: no rule counter changes and nothing is queued.
\<close>

theorem packet_not_matched:
  assumes "rules_ok s" "rule_at s = Map.empty" "tables_mem (rs_acl s)" "length rs \<le> 9" "rule_enable s \<noteq> 0"
    and "\<forall>r \<in> set rs. 0 < unat (r_index r) \<and> unat (r_index r) < 2047" "distinct (map r_index rs)"
    and "read_tuple eth ip udp = Some t" "t_proto t = PROTO_TCP \<longrightarrow> tcp_malformed eth ip udp = Some False"
    and "\<forall>r \<in> set rs. \<not> tuple_matches (args_of r) t"
  shows "\<exists>s1 s2. add_rules rs s = Some s1 \<and> frcore_cmd_rule_update s1 = Some (FRE_SUCCESS, s2) \<and>
    frcore_rule_process env work eth ip udp paylen smac dmac s2 =
      Some (0, rule_stat_add stat_rule_not_matched_bytes (ucast (wqe_len work)) (rule_stat_add stat_rule_not_matched_pkts 1 s2))"
proof -
  obtain s1 s2 fs where c: "add_rules rs s = Some s1" "frcore_cmd_rule_update s1 = Some (FRE_SUCCESS, s2)" "in_force fs s2"
    "rs_chan s2 = rs_chan s" "rule_enable s2 = rule_enable s" "rs_stat s2 = rs_stat s" "unat (numFilters fs) < 2048"
    and m: "\<forall>k f. rule_map fs k = Some f \<longleftrightarrow> (\<exists>r \<in> set rs. k = r_index r \<and> f = new_filter (r_index r) (args_of r))"
    by (rule commit_rules [OF assms(1-4,6,7)])
  have "classify fs (tuple_fields t) = 0"
    by (rule classify_none) (use c m assms(10) in \<open>auto simp: in_force_def c_consts filter_matches\<close>)
  then show ?thesis
    using lookup_in_force [OF c(3), of t] assms(5,8,9) c by (simp add: frcore_rule_process_def)
qed

theorem packet_not_matched_witness:
  "\<exists>s1 s2. add_rules [rule_for 5 81] (start_state quiet_env) = Some s1 \<and>
     frcore_cmd_rule_update s1 = Some (FRE_SUCCESS, s2) \<and>
     frcore_rule_process quiet_env \<lparr>wqe_len = 60, wqe_tag = 7\<rparr> udp_frame 14 34 20 1 2 s2 =
       Some (0, rule_stat_add stat_rule_not_matched_bytes 60 (rule_stat_add stat_rule_not_matched_pkts 1 s2))"
  using packet_not_matched [OF start_state_ok(1-3), of "[rule_for 5 81]" udp_frame 14 34 udp_tuple
      quiet_env "\<lparr>wqe_len = 60, wqe_tag = 7\<rparr>" 20 1 2]
  by (auto simp: start_state_ok udp_frame_tuple rule_for_def udp_tuple_def PROTO_TCP_def
      tuple_matches_def rule_matches_def args_of_def)



text \<open>
  The clear command succeeds exactly when the requested range covers every rule: then the table is
  empty and the number of rules there were is written; otherwise it fails, having deleted the rules
  inside the range.
\<close>

theorem rule_clear_all_iff_covered:
  assumes "rules_ok s"
  shows "\<exists>s'. frcore_cmd_rule_clear_all op olen s = Some (
      if dom (rule_at s) \<subseteq> set (tag_range op) then FRE_SUCCESS else FRE_FAIL, olen,
      if dom (rule_at s) \<subseteq> set (tag_range op) then Some (of_nat (card (dom (rule_at s)))) else None, s') \<and>
    rules_ok s' \<and> rule_at s' = rule_at s |` (- set (tag_range op))"
proof -
  obtain fs where fs: "frcore_cmd_rule_clear_all op olen s = Some (
      if dom (rule_at s) \<subseteq> set (tag_range op) then FRE_SUCCESS else FRE_FAIL, olen,
      if dom (rule_at s) \<subseteq> set (tag_range op) then Some (of_nat (card (dom (rule_at s)))) else None, set_filtset fs s)"
      "filtset_wf fs" "rule_map fs = rule_at s |` (- set (tag_range op))"
    using rule_clear_outcome [OF assms, of op olen] by blast
  show ?thesis by (intro exI [of _ "set_filtset fs s"] conjI fs(1)) (use fs in simp_all)
qed

theorem rule_clear_all_iff_covered_witness:
  "\<exists>s1 s'. add_rules [rule_for 9 0] (start_state quiet_env) = Some s1 \<and>
     frcore_cmd_rule_clear_all \<lparr>op_index = 1, op_num = 4\<rparr> 0 s1 = Some (FRE_FAIL, 0, None, s') \<and> rule_at s' \<noteq> Map.empty"
proof -
  obtain s1 where s1: "add_rules [rule_for 9 0] (start_state quiet_env) = Some s1" "rules_ok s1"
    "rule_at s1 = [9 \<mapsto> new_filter 9 (args_of (rule_for 9 0))]"
    using add_rules_map [OF start_state_ok(1), of "[rule_for 9 0]"] start_state_no_rules by (auto simp: start_state_ok(2) rule_for_def)
  have range: "tag_range \<lparr>op_index = 1, op_num = 4\<rparr> = [1, 2, 3, 4]"
    by (simp add: tag_range_def upt_rec [of 0] upt_rec [of "Suc 0"] upt_rec [of 2] upt_rec [of 3] numeral_2_eq_2 [symmetric] numeral_3_eq_3 [symmetric])
  show ?thesis
    using rule_clear_all_iff_covered [OF s1(2), of "\<lparr>op_index = 1, op_num = 4\<rparr>" 0] s1(1,3)
    by (auto simp: range restrict_map_def fun_eq_iff split: if_splits)
qed

text \<open>
  Reading statistics: for a table whose rules came from commands, when at most four tags of the
  requested range have rules, the output lists exactly these, in order, with the packet and byte
  counters of their tags; when more than four do, the handler writes past the four entries of the
  output structure (a fault of the model).
\<close>

theorem rule_stat_get_lists_or_overruns:
  assumes "rules_ok s" "rules_from_args s" and "tags = filter (\<lambda>t. rule_at s t \<noteq> None) (tag_range op)"
  shows "(length tags \<le> 4 \<longrightarrow> (\<exists>out. frcore_cmd_rule_stat_get op s = Some (FRE_SUCCESS, out, s) \<and>
        so_num out = of_nat (length tags) \<and>
        map (\<lambda>e. (r_index (rst_rule e), rst_pkts e, rst_bytes e)) (so_rule_stat out) =
          map (\<lambda>t. (t, ucast (pkt_num (rules s) ! unat t), ucast (pkt_bytes (rules s) ! unat t))) tags)) \<and>
    (4 < length tags \<longrightarrow> frcore_cmd_rule_stat_get op s = None)"
proof -
  let ?o = "\<lparr>so_num = 0, so_rule_stat = []\<rparr>"
  have get: "frcore_cmd_rule_stat_get op s = map_option (\<lambda>out. (FRE_SUCCESS, out, s)) (for_each (tag_range op) (stat_step s) ?o)"
    by (cases "for_each (tag_range op) (stat_step s) ?o") (simp_all add: frcore_cmd_rule_stat_get_def)
  show ?thesis
  proof (intro conjI impI)
    assume "length tags \<le> 4"
    then obtain es where es: "for_each (tag_range op) (stat_step s) ?o = Some \<lparr>so_num = of_nat (length es), so_rule_stat = es\<rparr>"
        "map (\<lambda>e. (r_index (rst_rule e), rst_pkts e, rst_bytes e)) es =
          map (\<lambda>t. (t, ucast (pkt_num (rules s) ! unat t), ucast (pkt_bytes (rules s) ! unat t))) tags"
      using stat_loop(1) [OF assms(1,2), of ?o "tag_range op"] assms(3) by (auto simp: MAX_RULE_def)
    have len: "length es = length tags" using arg_cong [OF es(2), of length] by simp
    show "\<exists>out. frcore_cmd_rule_stat_get op s = Some (FRE_SUCCESS, out, s) \<and> so_num out = of_nat (length tags) \<and>
        map (\<lambda>e. (r_index (rst_rule e), rst_pkts e, rst_bytes e)) (so_rule_stat out) =
          map (\<lambda>t. (t, ucast (pkt_num (rules s) ! unat t), ucast (pkt_bytes (rules s) ! unat t))) tags"
      unfolding get es(1) option.map using es(2) len by (intro exI [of _ "\<lparr>so_num = of_nat (length es), so_rule_stat = es\<rparr>"]) simp
  next
    assume "4 < length tags"
    then show "frcore_cmd_rule_stat_get op s = None"
      using stat_loop(2) [OF assms(1,2), of ?o "tag_range op"] assms(3) by (simp add: get MAX_RULE_def)
  qed
qed

lemma start_rules_from_args: "rules_from_args (start_state env)"
  by (simp add: rules_from_args_def start_state_def)

theorem rule_stat_get_lists_or_overruns_witness:
  "\<exists>out. frcore_cmd_rule_stat_get \<lparr>op_index = 1, op_num = 4\<rparr> (start_state quiet_env) =
     Some (FRE_SUCCESS, out, start_state quiet_env) \<and> so_rule_stat out = []"
  using rule_stat_get_lists_or_overruns [OF start_state_ok(1) start_rules_from_args refl, of "\<lparr>op_index = 1, op_num = 4\<rparr>"]
  by (auto simp: start_state_ok(2))

text \<open>
  Clearing statistics sets both counters of every tag in the range to zero, keeps those of all other
  tags and all rules, and returns the length of the range in 16 bits; a range that reaches a tag of
  2048 or more writes past the counter arrays (a fault of the model), since the tags are not checked.
\<close>

theorem rule_stat_clear_range:
  assumes "rules_ok s"
  shows "((\<forall>t \<in> set (tag_range op). unat t < 2048) \<longrightarrow> (\<exists>s'. frcore_cmd_rule_stat_clear op s =
        Some (FRE_SUCCESS, of_nat (length (tag_range op)), s') \<and> rule_at s' = rule_at s \<and>
        (\<forall>t. unat t < 2048 \<longrightarrow>
          pkt_num (rules s') ! unat t = (if t \<in> set (tag_range op) then 0 else pkt_num (rules s) ! unat t) \<and>
          pkt_bytes (rules s') ! unat t = (if t \<in> set (tag_range op) then 0 else pkt_bytes (rules s) ! unat t)))) \<and>
    ((\<exists>t \<in> set (tag_range op). unat t \<ge> 2048) \<longrightarrow> frcore_cmd_rule_stat_clear op s = None)"
proof -
  have len: "length (pkt_num (rules s)) = 2048" "length (pkt_bytes (rules s)) = 2048"
    using wf_facts(1) [OF assms] by (simp_all add: counters_ok_def c_consts)
  have live: "rule_map (fs\<lparr>pkt_num := pn, pkt_bytes := pb\<rparr>) = rule_map fs" for fs pn pb
    by (simp add: rule_map_def live_def fun_eq_iff)
  show ?thesis
  proof (cases "\<forall>t \<in> set (tag_range op). unat t < 2048")
    case True
    then obtain pn pb where pp: "for_each (tag_range op) (\<lambda>t fs. acl_initfilter_statistics_by_tagid fs t) (rules s) =
        Some ((rules s)\<lparr>pkt_num := pn, pkt_bytes := pb\<rparr>)"
      "\<forall>t. unat t < 2048 \<longrightarrow> pn ! unat t = (if t \<in> set (tag_range op) then 0 else pkt_num (rules s) ! unat t) \<and>
        pb ! unat t = (if t \<in> set (tag_range op) then 0 else pkt_bytes (rules s) ! unat t)"
      using clear_loop [OF len, of "tag_range op"] by auto
    then show ?thesis using True by (simp add: frcore_cmd_rule_stat_clear_def live not_le)
  next
    case False
    then show ?thesis
      using clear_loop [OF len, of "tag_range op"] by (auto simp: frcore_cmd_rule_stat_clear_def)
  qed
qed

theorem rule_stat_clear_range_witness:
  "\<exists>s'. frcore_cmd_rule_stat_clear \<lparr>op_index = 2047, op_num = 1\<rparr> (start_state quiet_env) = Some (FRE_SUCCESS, 1, s')"
proof -
  have "tag_range \<lparr>op_index = 2047, op_num = 1\<rparr> = [2047]" by (simp add: tag_range_def)
  then show ?thesis
    using rule_stat_clear_range [OF start_state_ok(1), of "\<lparr>op_index = 2047, op_num = 1\<rparr>"] by auto
qed

end
