(* ===== verification/SsnChan.thy ===== *)
theory SsnChan
  imports Chan Bytes
begin

text \<open>
  The session channel of \<^verbatim>\<open>frcore/frcore_chan.c\<close> (functions \<^verbatim>\<open>frcore_ssn_...\<close>): block addresses are taken from
  the host in bulk, recovered TCP payload is queued in one of fifty fifos as cells, and a full fifo is
  posted to the host. A payload cell is copied to its place in a block; a head cell writes the header of
  a finished block and returns the block's address through the completed ring.

  The configuration is the one under which the callers compile: \<^verbatim>\<open>FRC_CONFIG_SSN_CHAN\<close> and
  \<^verbatim>\<open>FRC_CONFIG_SSN_AVAIL_BUFF_GET\<close> on, the test switches off. The host memory is the two rings, which
  \<^verbatim>\<open>avail_addr\<close> and \<^verbatim>\<open>compl_addr\<close> point to, and the bytes of the memory everywhere else. Transfers, the cycle
  counter and the DMA constants are those of the environment of theory \<open>Chan\<close>; a transfer of no bytes
  succeeds without the engine, as in \<^verbatim>\<open>frcore_dma_gather\<close>. Locks are taken in a sequential model; their
  counters are kept.
\<close>

section \<open>Data\<close>

definition FRC_SSN_RING_SIZE :: nat where [c_consts]: "FRC_SSN_RING_SIZE = 400896"
definition FRC_DMA_SSN_BLOCK_SIZE :: nat where [c_consts]: "FRC_DMA_SSN_BLOCK_SIZE = 8192"
definition FRC_SSN_FIFO_NUM :: nat where [c_consts]: "FRC_SSN_FIFO_NUM = 50"
definition FRCORE_SSN_AVAIL_BUFF_GET_SIZE :: nat where [c_consts]: "FRCORE_SSN_AVAIL_BUFF_GET_SIZE = 1000"
definition FRC_PAYLOAD_LEN_MAX :: nat where [c_consts]: "FRC_PAYLOAD_LEN_MAX = 1600"
definition FRC_WORK_UDP :: nat where [c_consts]: "FRC_WORK_UDP = 0"
definition FRC_WORK_RULE :: nat where [c_consts]: "FRC_WORK_RULE = 1"
definition FRC_WORK_SSN :: nat where [c_consts]: "FRC_WORK_SSN = 2"
definition FRC_DAT_CORE_NUM :: nat where [c_consts]: "FRC_DAT_CORE_NUM = 10"

datatype ssn_stat =
    stat_work_free | stat_tcp_malformed_packet | stat_tcp_option | stat_tcp_payload_zero
  | stat_ssn_prepare | stat_ssn_fail | stat_ssn_fail_fin_or_rst | stat_ssn_fail_overflow
  | stat_ssn_fpa_alloc_err | stat_ssn_fpa_failed | stat_ssn_active_num | stat_ssn_fwd_tcpflowrec
  | stat_ssn_drop | stat_tcpflowrec_retrans | stat_tcpflowrec_retrans_drop | stat_tcpflowrec_part_retrans
  | stat_tcpflowrec_dup_remove | stat_tcpflowrec_queue_overflow | stat_tcpflowrec_mem_failed
  | stat_ssn_tim_addok | stat_ssn_tim_fired | stat_ssn_tim_failed
  | stat_ssn_prepared_by_fpa_alloc | stat_ssn_purge_to_fpa | stat_ssn_purge_unknown | stat_ssn_fpa_free_err
  | stat_ssn_purge | stat_ssn_dma_errors | stat_ssn_dma_pkts | stat_ssn_dma_bytes | stat_ssn_dma_pkt_infos
  | stat_ssn_dma_blocks | stat_ssn_npacket_blocks nat | stat_ssn_queue_no_space | stat_ssn_dma_enqueue_pkts
  | stat_ssn_dma_enqueue_errs | stat_ssn_dma_head_fail | stat_ssn_avail_get | stat_ssn_avail_get_no_space
  | stat_ssn_compl_put | stat_ssn_compl_put_no_space | stat_ssn_pkt_post | stat_ssn_pkt_post_err
  | stat_ssn_post_err_pkts | stat_ssn_fifo_lock | stat_ssn_fifo_unlock | stat_dma_errors_scatter

text \<open>The fields of \<^verbatim>\<open>frc_dma_hdr_t\<close> that the session path sets (the others of the local variable are
  never written), and of \<^verbatim>\<open>frc_dma_pkt_info_t\<close>.\<close>

record ssn_hdr =
  hdr_sip :: u32
  hdr_dip :: u32
  hdr_sport :: u16
  hdr_dport :: u16
  hdr_protocol :: u16
  hdr_stop_sec :: u16
  hdr_hash :: u32
  hdr_total_paylen :: u16
  hdr_pkt_num :: u16

record ssn_info =
  info_sequence :: u32
  info_ack_seq :: u32
  info_direction :: u16
  info_payload_len :: u16
  info_data_offset :: u32
  info_smac :: u64
  info_dmac :: u64

datatype dma_type = FRC_SSN_RESV | FRC_SSN_DMA_HEAD | FRC_SSN_DMA_PAYLOAD | FRC_SSN_DMA_MAX

record ssn_fifo_cell =
  c_type :: dma_type
  c_head :: ssn_hdr
  c_info :: ssn_info
  c_payload :: "u8 list"
  c_payload_size :: u16
  c_block_addr :: u64
  c_info_offset :: u16
  c_payload_offset :: u16

text \<open>What a timer entry of a fifo carries.\<close>

record chan_wqe =
  wqe_grp :: u8
  wqe_type :: u8
  wqe_fifo_id :: u8

record ssn_fifo =
  sf_widx :: u64
  sf_ridx :: u64
  sf_post_cycle :: u64
  sf_wqe :: chan_wqe
  sf_avail_rdx :: u64
  sf_avail_buff :: "u64 list"
  sf_cells :: "ssn_fifo_cell list"

record ssn_chan =
  sc_type :: u64
  sc_avail_addr :: u64
  sc_compl_addr :: u64
  sc_avail_widx :: u64
  sc_avail_ridx :: u64
  sc_compl_widx :: u64
  sc_compl_ridx :: u64
  sc_avail_buff :: "u64 list"
  sc_compl_buff :: "u64 list"

text \<open>What one transfer descriptor carries to the host.\<close>

datatype dma_item = D_head ssn_hdr | D_payload "u8 list" | D_info ssn_info

record ssn_host =
  hs_avail_widx :: u64
  hs_avail_ridx :: u64
  hs_avail_ring :: "u64 list"
  hs_compl_widx :: u64
  hs_compl_ridx :: u64
  hs_compl_ring :: "u64 list"
  hs_mem :: memory

text \<open>A work item (\<^verbatim>\<open>cvmx_wqe_t *\<close>) is a number; \<open>s_freed\<close> lists the items handed to
  \<^verbatim>\<open>frcore_work_free\<close>, the latest first.\<close>

record ssn_world =
  s_host :: ssn_host
  s_chan :: ssn_chan
  s_fifos :: "ssn_fifo list"
  s_exhaust :: "bool list"
  s_last_display :: "u64 list"
  s_dma :: nat
  s_tick :: nat
  s_stat :: "ssn_stat \<Rightarrow> u64"
  s_freed :: "nat list"

definition sstat_add :: "ssn_stat \<Rightarrow> u64 \<Rightarrow> ssn_world \<Rightarrow> ssn_world" where
  "sstat_add s v w = w\<lparr>s_stat := (s_stat w)(s := s_stat w s + v)\<rparr>"

abbreviation sstat_inc :: "ssn_stat \<Rightarrow> ssn_world \<Rightarrow> ssn_world" where
  "sstat_inc s \<equiv> sstat_add s 1"

definition frcore_work_free :: "nat \<Rightarrow> ssn_world \<Rightarrow> ssn_world" where
  "frcore_work_free wqe w = (sstat_inc stat_work_free w)\<lparr>s_freed := wqe # s_freed w\<rparr>"

definition sget_cycle :: "env \<Rightarrow> ssn_world \<Rightarrow> u64 \<times> ssn_world" where
  "sget_cycle env w = (cycles env (s_tick w), w\<lparr>s_tick := s_tick w + 1\<rparr>)"

text \<open>The lines \<^verbatim>\<open>if (frcore_copy_...(n * 8, ...)) { FRCORE_STAT_INC(stat_ssn_dma_errors); return FRE_DMA; }\<close>.\<close>

definition sdma :: "env \<Rightarrow> nat \<Rightarrow> ssn_world \<Rightarrow> (ssn_world \<Rightarrow> (int \<times> 'a \<times> ssn_world) option) \<Rightarrow> 'a \<Rightarrow> (int \<times> 'a \<times> ssn_world) option" where
  "sdma env n w k none =
     (if n = 0 then k w
      else if dma_fails env (s_dma w)
      then Some (FRE_DMA, none, sstat_inc stat_ssn_dma_errors (w\<lparr>s_dma := s_dma w + 1\<rparr>))
      else k (w\<lparr>s_dma := s_dma w + 1\<rparr>))"

section \<open>Taking block addresses\<close>

definition savail_copy :: "nat \<Rightarrow> nat \<Rightarrow> nat \<Rightarrow> ssn_world \<Rightarrow> ssn_world option" where
  "savail_copy src dst n w = do {
     xs \<leftarrow> get_slice (hs_avail_ring (s_host w)) src n;
     b \<leftarrow> put_slice (sc_avail_buff (s_chan w)) dst xs;
     Some (w\<lparr>s_chan := (s_chan w)\<lparr>sc_avail_buff := b\<rparr>\<rparr>)
   }"

definition savail_commit :: "env \<Rightarrow> u64 \<Rightarrow> nat \<Rightarrow> ssn_world \<Rightarrow> (int \<times> u64 list \<times> ssn_world) option" where
  "savail_commit env ridx number w =
     (let w = sstat_add stat_ssn_avail_get (of_nat number) w;
          w = w\<lparr>s_chan := (s_chan w)\<lparr>sc_avail_ridx := ridx + of_nat number\<rparr>\<rparr>
      in sdma env 1 w (\<lambda>w. do {
        xs \<leftarrow> get_slice (sc_avail_buff (s_chan w)) 0 number;
        Some (FRE_SUCCESS, xs, w\<lparr>s_host := (s_host w)\<lparr>hs_avail_ridx := sc_avail_ridx (s_chan w)\<rparr>\<rparr>)
      }) [])"

text \<open>The second component of the result is what the function copies to its argument \<^verbatim>\<open>buff\<close>.\<close>

definition frcore_ssn_chan_avail_get :: "env \<Rightarrow> nat \<Rightarrow> ssn_world \<Rightarrow> (int \<times> u64 list \<times> ssn_world) option" where
  "frcore_ssn_chan_avail_get env number w =
     sdma env 1 w (\<lambda>w.
       let w = w\<lparr>s_chan := (s_chan w)\<lparr>sc_avail_widx := hs_avail_widx (s_host w)\<rparr>\<rparr>;
           ridx = sc_avail_ridx (s_chan w);
           widx = sc_avail_widx (s_chan w);
           alen = unat (widx - ridx);
           offset = unat ridx mod FRC_SSN_RING_SIZE;
           len1 = min (FRC_SSN_RING_SIZE - offset) number
       in if alen < number then Some (FRE_NOSPACE, [], sstat_inc stat_ssn_avail_get_no_space w)
       else sdma env len1 w (\<lambda>w. do {
         w \<leftarrow> savail_copy offset 0 len1 w;
         if len1 < number
         then sdma env (number - len1) w (\<lambda>w. do {
           w \<leftarrow> savail_copy 0 len1 (number - len1) w;
           savail_commit env ridx number w
         }) []
         else savail_commit env ridx number w
       }) []) []"

definition frcore_ssn_fifo_get :: "u32 \<Rightarrow> ssn_world \<Rightarrow> ssn_fifo option" where
  "frcore_ssn_fifo_get idx w = arr_get (s_fifos w) (unat (ucast idx :: u8))"

definition set_fifo :: "u32 \<Rightarrow> ssn_fifo \<Rightarrow> ssn_world \<Rightarrow> ssn_world" where
  "set_fifo idx f w = w\<lparr>s_fifos := (s_fifos w)[unat (ucast idx :: u8) := f]\<rparr>"

text \<open>The three requests of \<^verbatim>\<open>frcore_ssn_get_one_block_addr\<close>: 1000 addresses, else 100, else 1.\<close>

fun refill :: "env \<Rightarrow> nat list \<Rightarrow> u32 \<Rightarrow> ssn_world \<Rightarrow> (bool \<times> ssn_world) option" where
  "refill env [] fifo_id w = Some (False, w)"
| "refill env (n # ns) fifo_id w = do {
     (rv, xs, w) \<leftarrow> frcore_ssn_chan_avail_get env n w;
     if rv = FRE_SUCCESS then do {
       f \<leftarrow> frcore_ssn_fifo_get fifo_id w;
       b \<leftarrow> put_slice (sf_avail_buff f) 0 xs;
       Some (True, set_fifo fifo_id (f\<lparr>sf_avail_buff := b, sf_avail_rdx := of_nat n\<rparr>) w)
     } else refill env ns fifo_id w
   }"

definition frcore_ssn_get_one_block_addr :: "env \<Rightarrow> u32 \<Rightarrow> ssn_world \<Rightarrow> (int \<times> u64 \<times> ssn_world) option" where
  "frcore_ssn_get_one_block_addr env fifo_id w = do {
     let w = sstat_inc stat_ssn_fifo_lock w;
     f \<leftarrow> frcore_ssn_fifo_get fifo_id w;
     (ok, w) \<leftarrow> (if sf_avail_rdx f \<le> 0 then refill env [FRCORE_SSN_AVAIL_BUFF_GET_SIZE, 100, 1] fifo_id w
                else Some (True, w));
     if \<not> ok then Some (FRE_NOSPACE, 0, sstat_inc stat_ssn_fifo_unlock w)
     else do {
       f \<leftarrow> frcore_ssn_fifo_get fifo_id w;
       block_addr \<leftarrow> arr_get (sf_avail_buff f) (unat (sf_avail_rdx f - 1));
       let w = set_fifo fifo_id (f\<lparr>sf_avail_rdx := sf_avail_rdx f - 1\<rparr>) w;
       Some (FRE_SUCCESS, block_addr, sstat_inc stat_ssn_fifo_unlock w)
     }
   }"

section \<open>Returning blocks through the completed ring\<close>

definition scompl_copy :: "nat \<Rightarrow> nat \<Rightarrow> nat \<Rightarrow> ssn_world \<Rightarrow> ssn_world option" where
  "scompl_copy src dst n w = do {
     xs \<leftarrow> get_slice (sc_compl_buff (s_chan w)) src n;
     r \<leftarrow> put_slice (hs_compl_ring (s_host w)) dst xs;
     Some (w\<lparr>s_host := (s_host w)\<lparr>hs_compl_ring := r\<rparr>\<rparr>)
   }"

definition scompl_commit :: "env \<Rightarrow> u64 \<Rightarrow> nat \<Rightarrow> ssn_world \<Rightarrow> (int \<times> unit \<times> ssn_world) option" where
  "scompl_commit env widx number w =
     (let w = sstat_add stat_ssn_compl_put (of_nat number) w;
          w = w\<lparr>s_chan := (s_chan w)\<lparr>sc_compl_widx := widx + of_nat number\<rparr>\<rparr>
      in sdma env 1 w (\<lambda>w.
        Some (FRE_SUCCESS, (), w\<lparr>s_host := (s_host w)\<lparr>hs_compl_widx := sc_compl_widx (s_chan w)\<rparr>\<rparr>)) ())"

definition frcore_ssn_chan_compl_put :: "env \<Rightarrow> u64 list \<Rightarrow> ssn_world \<Rightarrow> (int \<times> unit \<times> ssn_world) option" where
  "frcore_ssn_chan_compl_put env buff w =
     (let number = length buff in
      sdma env 1 w (\<lambda>w.
       let w = w\<lparr>s_chan := (s_chan w)\<lparr>sc_compl_ridx := hs_compl_ridx (s_host w)\<rparr>\<rparr>;
           ridx = sc_compl_ridx (s_chan w);
           widx = sc_compl_widx (s_chan w);
           offset = unat widx mod FRC_SSN_RING_SIZE;
           len1 = min (FRC_SSN_RING_SIZE - offset) number
       in if widx - ridx > of_nat FRC_SSN_RING_SIZE - of_nat number
       then Some (FRE_NOSPACE, (), sstat_inc stat_ssn_compl_put_no_space w)
       else do {
         b \<leftarrow> put_slice (sc_compl_buff (s_chan w)) 0 buff;
         sdma env len1 (w\<lparr>s_chan := (s_chan w)\<lparr>sc_compl_buff := b\<rparr>\<rparr>) (\<lambda>w. do {
           w \<leftarrow> scompl_copy 0 offset len1 w;
           if len1 < number
           then sdma env (number - len1) w (\<lambda>w. do {
             w \<leftarrow> scompl_copy len1 0 (number - len1) w;
             scompl_commit env widx number w
           }) ()
           else scompl_commit env widx number w
         }) ()
       }) ())"

section \<open>Posting\<close>

definition item_size :: "dma_item \<Rightarrow> nat" where
  "item_size d = (case d of D_head h \<Rightarrow> sizeof_hdr | D_payload xs \<Rightarrow> length xs | D_info i \<Rightarrow> sizeof_info)"

text \<open>The bytes of \<^verbatim>\<open>frc_dma_hdr_t\<close> and \<^verbatim>\<open>frc_dma_pkt_info_t\<close> on the big-endian core. The last sixteen bytes of
  the header are fields that the session path leaves as the stack had them.\<close>

definition item_bytes :: "env \<Rightarrow> dma_item \<Rightarrow> u8 list" where
  "item_bytes env d = (case d of
     D_head h \<Rightarrow> PACK_U32 (hdr_dip h) @ PACK_U32 (hdr_sip h) @ PACK_U16 (hdr_stop_sec h) @ PACK_U16 (hdr_protocol h) @
       PACK_U16 (hdr_dport h) @ PACK_U16 (hdr_sport h) @ PACK_U32 (hdr_hash h) @ PACK_U16 (hdr_total_paylen h) @
       PACK_U16 (hdr_pkt_num h) @ map (stack env) [0..<16]
   | D_payload xs \<Rightarrow> xs
   | D_info i \<Rightarrow> PACK_U32 (info_ack_seq i) @ PACK_U32 (info_sequence i) @ PACK_U16 (info_direction i) @ PACK_U16 (info_payload_len i) @
       PACK_U32 (info_data_offset i) @ be64 (info_smac i) @ be64 (info_dmac i))"

lemma length_item_bytes: "length (item_bytes env d) = item_size d"
  by (simp add: item_bytes_def item_size_def PACK_U32_def PACK_U16_def be64_def c_consts split: dma_item.split)

definition write_items :: "env \<Rightarrow> (u64 \<times> dma_item) list \<Rightarrow> memory \<Rightarrow> memory" where
  "write_items env ds m = write_blocks (map (\<lambda>(a, d). (a, item_bytes env d)) ds) m"

text \<open>\<^verbatim>\<open>frcore_dma_scatter(DMA_DIR_SEND, ...)\<close>: it refuses a descriptor list that is empty or too long, and a
  descriptor of size 0 or beyond the largest buffer, before the transfer starts. Its own failure counter is
  \<^verbatim>\<open>stat_dma_errors\<close>, here \<open>stat_dma_errors_scatter\<close>.\<close>

definition frcore_dma_scatter :: "env \<Rightarrow> (u64 \<times> dma_item) list \<Rightarrow> ssn_world \<Rightarrow> bool \<times> ssn_world" where
  "frcore_dma_scatter env ds w =
     (if ds = [] \<or> length ds > max_ptrs env then (True, sstat_inc stat_dma_errors_scatter w)
      else if list_ex (\<lambda>(a, d). item_size d = 0 \<or> item_size d > max_buf env) ds then (True, w)
      else if dma_fails env (s_dma w)
      then (True, sstat_inc stat_dma_errors_scatter (w\<lparr>s_dma := s_dma w + 1\<rparr>))
      else (False, w\<lparr>s_dma := s_dma w + 1, s_host := (s_host w)\<lparr>hs_mem := write_items env ds (hs_mem (s_host w))\<rparr>\<rparr>))"

text \<open>A transfer of the collected descriptors, with the failure counter of the caller.\<close>

definition scatter :: "env \<Rightarrow> (u64 \<times> dma_item) list \<Rightarrow> ssn_world \<Rightarrow> bool \<times> ssn_world" where
  "scatter env ds w =
     (let (fail, w) = frcore_dma_scatter env ds w in (fail, if fail then sstat_inc stat_ssn_dma_errors w else w))"

text \<open>Adding a descriptor; a full list is transferred at once. The result is failure, the list, the state.\<close>

definition push_desc :: "env \<Rightarrow> u64 \<times> dma_item \<Rightarrow> (u64 \<times> dma_item) list \<Rightarrow> ssn_world \<Rightarrow> bool \<times> (u64 \<times> dma_item) list \<times> ssn_world" where
  "push_desc env d ds w =
     (if length ds + 1 = max_ptrs env
      then let (fail, w) = scatter env (ds @ [d]) w in (fail, [], w)
      else (False, ds @ [d], w))"

text \<open>The branches of the loop body for a head cell and for a payload cell: failure, the descriptor list,
  the addresses of completed blocks, the state.\<close>

definition post_head :: "env \<Rightarrow> ssn_fifo_cell \<Rightarrow> (u64 \<times> dma_item) list \<Rightarrow> u64 list \<Rightarrow> ssn_world \<Rightarrow>
    (bool \<times> (u64 \<times> dma_item) list \<times> u64 list \<times> ssn_world) option" where
  "post_head env c ds address w =
     (let (fail, ds, w) = push_desc env (c_block_addr c + FRC_DMA_OFFSET, D_head (c_head c)) ds w in
      if fail then Some (True, ds, address, w)
      else if length address < FRCORE_CHAN_POST_LWM env then Some (False, ds, address @ [c_block_addr c], w)
      else None)"

definition post_payload :: "env \<Rightarrow> ssn_fifo_cell \<Rightarrow> (u64 \<times> dma_item) list \<Rightarrow> u64 list \<Rightarrow> ssn_world \<Rightarrow>
    (bool \<times> (u64 \<times> dma_item) list \<times> u64 list \<times> ssn_world) option" where
  "post_payload env c ds address w = do {
     bytes \<leftarrow> get_slice (c_payload c) 0 (unat (c_payload_size c));
     let w = sstat_inc stat_ssn_dma_pkts w;
     let w = sstat_add stat_ssn_dma_bytes (ucast (c_payload_size c)) w;
     let (fail, ds, w) = push_desc env (c_block_addr c + ucast (c_payload_offset c), D_payload bytes) ds w;
     if fail then Some (True, ds, address, w)
     else do {
       let w = sstat_inc stat_ssn_dma_pkt_infos w;
       let (fail, ds, w) = push_desc env (c_block_addr c + ucast (c_info_offset c), D_info (c_info c)) ds w;
       Some (fail, ds, address, w)
     }
   }"

definition post_cell :: "env \<Rightarrow> ssn_fifo_cell \<Rightarrow> (u64 \<times> dma_item) list \<Rightarrow> u64 list \<Rightarrow> ssn_world \<Rightarrow>
    (bool \<times> (u64 \<times> dma_item) list \<times> u64 list \<times> ssn_world) option" where
  "post_cell env c ds address w =
     (case c_type c of
        FRC_SSN_DMA_HEAD \<Rightarrow> post_head env c ds address w
      | FRC_SSN_DMA_PAYLOAD \<Rightarrow> post_payload env c ds address w
      | _ \<Rightarrow> Some (True, ds, address, w))"

text \<open>The loop \<^verbatim>\<open>while (pkt_remain)\<close>: the number of cells counted as posted, the addresses, the state.\<close>

fun post_cells :: "env \<Rightarrow> ssn_fifo \<Rightarrow> nat \<Rightarrow> nat \<Rightarrow> (u64 \<times> dma_item) list \<Rightarrow> u64 list \<Rightarrow> nat \<Rightarrow> ssn_world \<Rightarrow>
    (nat \<times> u64 list \<times> ssn_world) option" where
  "post_cells env f 0 cur ds address pkt_posted w = Some (pkt_posted, address, w)"
| "post_cells env f (Suc pkt_remain) cur ds address pkt_posted w = do {
     let cur_offset = unat (sf_ridx f + of_nat cur) mod FRCORE_CORE_FIFO_NUM env;
     c \<leftarrow> arr_get (sf_cells f) cur_offset;
     (fail, ds, address, w) \<leftarrow> post_cell env c ds address w;
     if fail then Some (pkt_posted, address, w)
     else if pkt_remain = 0 \<and> ds \<noteq> [] then
       let (fail, w) = scatter env ds w in
       if fail then Some (pkt_posted, address, w) else Some (pkt_posted + 1, address, w)
     else post_cells env f pkt_remain (cur + 1) ds address (pkt_posted + 1) w
   }"

definition frcore_ssn_chan_post_pkt :: "env \<Rightarrow> ssn_fifo \<Rightarrow> nat \<Rightarrow> ssn_world \<Rightarrow> (nat \<times> u64 list \<times> ssn_world) option" where
  "frcore_ssn_chan_post_pkt env f local_num w = post_cells env f local_num 0 [] [] 0 w"

text \<open>One round of the loop \<^verbatim>\<open>while (local_num)\<close>: whether it goes on, the number of cells posted, the state.\<close>

definition ssn_post_round :: "env \<Rightarrow> u32 \<Rightarrow> nat \<Rightarrow> ssn_world \<Rightarrow> (bool \<times> nat \<times> ssn_world) option" where
  "ssn_post_round env fifo_id post_num w = do {
     f \<leftarrow> frcore_ssn_fifo_get fifo_id w;
     (posted_num, block_addr, w) \<leftarrow> frcore_ssn_chan_post_pkt env f post_num w;
     let w = (if posted_num < post_num
              then sstat_add stat_ssn_post_err_pkts (of_nat (post_num - posted_num)) (sstat_inc stat_ssn_pkt_post_err w)
              else sstat_inc stat_ssn_pkt_post w);
     (rv, _, w) \<leftarrow> frcore_ssn_chan_compl_put env block_addr w;
     if rv \<noteq> FRE_SUCCESS then Some (False, posted_num, w)
     else do {
       let (now, w) = sget_cycle env w;
       Some (True, posted_num, set_fifo fifo_id (f\<lparr>sf_ridx := sf_ridx f + of_nat posted_num, sf_post_cycle := now\<rparr>) w)
     }
   }"

partial_function (option) ssn_post_loop :: "env \<Rightarrow> u32 \<Rightarrow> nat \<Rightarrow> ssn_world \<Rightarrow> ssn_world option" where
  "ssn_post_loop env fifo_id local_num w =
     (if local_num = 0 then Some w
      else do {
        let post_num = (if local_num < FRCORE_CHAN_POST_LWM env then local_num else FRCORE_CHAN_POST_LWM env);
        (more, posted_num, w') \<leftarrow> ssn_post_round env fifo_id post_num w;
        if more then ssn_post_loop env fifo_id (local_num - posted_num) w' else Some w'
      })"

definition frcore_ssn_fifo_post_no_lock :: "env \<Rightarrow> u32 \<Rightarrow> bool \<Rightarrow> ssn_world \<Rightarrow> ssn_world option" where
  "frcore_ssn_fifo_post_no_lock env fifo_id flag w = do {
     f \<leftarrow> frcore_ssn_fifo_get fifo_id w;
     let local_num = unat (sf_widx f - sf_ridx f);
     if flag then if local_num \<noteq> FRCORE_CHAN_POST_LWM env then Some w else ssn_post_loop env fifo_id local_num w
     else if local_num = 0 then Some w else ssn_post_loop env fifo_id local_num w
   }"

definition frcore_ssn_fifo_post :: "env \<Rightarrow> u32 \<Rightarrow> bool \<Rightarrow> ssn_world \<Rightarrow> ssn_world option" where
  "frcore_ssn_fifo_post env fifo_id flag w = do {
     let w = sstat_inc stat_ssn_fifo_lock w;
     f \<leftarrow> frcore_ssn_fifo_get fifo_id w;
     let local_num = unat (sf_widx f - sf_ridx f);
     w \<leftarrow> (if flag then if local_num \<noteq> FRCORE_CHAN_POST_LWM env then Some w else ssn_post_loop env fifo_id local_num w
          else if local_num = 0 then Some w else ssn_post_loop env fifo_id local_num w);
     Some (sstat_inc stat_ssn_fifo_unlock w)
   }"

section \<open>Queueing a cell\<close>

text \<open>The pointers of a head request are \<^verbatim>\<open>hdr\<close>; those of a payload request are \<^verbatim>\<open>info\<close>, \<^verbatim>\<open>payload\<close> and
  \<^verbatim>\<open>wqe\<close>. The payload is the packet memory from the pointer on.\<close>

datatype ssn_request = Head_req ssn_hdr | Payload_req ssn_info "u8 list" u16 u16 nat

definition store_cell :: "ssn_request \<Rightarrow> u64 \<Rightarrow> ssn_fifo_cell \<Rightarrow> ssn_world \<Rightarrow> (ssn_fifo_cell \<times> ssn_world) option" where
  "store_cell req block_addr c w =
     (case req of
        Head_req hdr \<Rightarrow> Some (c\<lparr>c_head := hdr, c_block_addr := block_addr, c_type := FRC_SSN_DMA_HEAD\<rparr>, w)
      | Payload_req info payload info_offset payload_offset wqe \<Rightarrow> do {
          let paylen = unat (info_payload_len info);
          bytes \<leftarrow> get_slice payload 0 paylen;
          p \<leftarrow> put_slice (c_payload c) 0 bytes;
          Some (c\<lparr>c_info_offset := info_offset, c_payload_offset := payload_offset,
                  c_payload_size := info_payload_len info, c_payload := p, c_info := info,
                  c_block_addr := block_addr, c_type := FRC_SSN_DMA_PAYLOAD\<rparr>, frcore_work_free wqe w)
        })"

definition frcore_ssn_fifo_add :: "env \<Rightarrow> u32 \<Rightarrow> ssn_request \<Rightarrow> u64 \<Rightarrow> ssn_world \<Rightarrow> (int \<times> ssn_world) option" where
  "frcore_ssn_fifo_add env fifo_id req block_addr w = do {
     let w = sstat_inc stat_ssn_fifo_lock w;
     w \<leftarrow> frcore_ssn_fifo_post_no_lock env fifo_id True w;
     f \<leftarrow> frcore_ssn_fifo_get fifo_id w;
     if unat (sf_widx f - sf_ridx f) \<ge> FRCORE_CORE_FIFO_NUM env
     then Some (FRE_NOSPACE, sstat_inc stat_ssn_fifo_unlock (sstat_inc stat_ssn_queue_no_space w))
     else do {
       let idx_offset = unat (sf_widx f) mod FRCORE_CORE_FIFO_NUM env;
       c \<leftarrow> arr_get (sf_cells f) idx_offset;
       (c, w) \<leftarrow> store_cell req block_addr c w;
       cells \<leftarrow> arr_set (sf_cells f) idx_offset c;
       let w = set_fifo fifo_id (f\<lparr>sf_cells := cells, sf_widx := sf_widx f + 1\<rparr>) w;
       Some (FRE_SUCCESS, sstat_inc stat_ssn_fifo_unlock w)
     }
   }"

definition frcore_forward_ssn_pkt_to_fifo :: "env \<Rightarrow> u32 \<Rightarrow> ssn_request \<Rightarrow> u64 \<Rightarrow> ssn_world \<Rightarrow> (int \<times> ssn_world) option" where
  "frcore_forward_ssn_pkt_to_fifo env index req block_addr w = do {
     let fifo_id = index mod of_nat FRC_SSN_FIFO_NUM;
     (num, w) \<leftarrow> frcore_ssn_fifo_add env fifo_id req block_addr w;
     Some (if num \<noteq> 0 then (FRE_EXCEED, sstat_inc stat_ssn_dma_enqueue_errs w)
           else (FRE_SUCCESS, sstat_inc stat_ssn_dma_enqueue_pkts w))
   }"

section \<open>Memory safety\<close>

definition cell_ok :: "ssn_fifo_cell \<Rightarrow> bool" where
  "cell_ok c \<longleftrightarrow> length (c_payload c) = FRC_PAYLOAD_LEN_MAX \<and> unat (c_payload_size c) \<le> FRC_PAYLOAD_LEN_MAX"

definition sfifo_ok :: "env \<Rightarrow> ssn_fifo \<Rightarrow> bool" where
  "sfifo_ok env f \<longleftrightarrow> length (sf_avail_buff f) = FRCORE_SSN_AVAIL_BUFF_GET_SIZE \<and>
     unat (sf_avail_rdx f) \<le> FRCORE_SSN_AVAIL_BUFF_GET_SIZE \<and>
     length (sf_cells f) = FRCORE_CORE_FIFO_NUM env \<and> list_all cell_ok (sf_cells f) \<and>
     sf_ridx f \<le> sf_widx f \<and> unat (sf_widx f - sf_ridx f) \<le> FRCORE_CORE_FIFO_NUM env"

text \<open>The sizes of the arrays, and the relations between the constants of the DMA library that the code
  relies on: there is a pointer, a batch fits the completed buffer, a payload fits a transfer.\<close>

definition smem_ok :: "env \<Rightarrow> ssn_world \<Rightarrow> bool" where
  "smem_ok env w \<longleftrightarrow> 0 < max_ptrs env \<and> FRCORE_CORE_FIFO_NUM env \<le> FRCORE_SSN_AVAIL_BUFF_GET_SIZE \<and>
     FRC_PAYLOAD_LEN_MAX \<le> max_buf env \<and>
     length (hs_avail_ring (s_host w)) = FRC_SSN_RING_SIZE \<and>
     length (hs_compl_ring (s_host w)) = FRC_SSN_RING_SIZE \<and>
     length (sc_avail_buff (s_chan w)) = FRCORE_SSN_AVAIL_BUFF_GET_SIZE \<and>
     length (sc_compl_buff (s_chan w)) = FRCORE_SSN_AVAIL_BUFF_GET_SIZE \<and>
     length (s_fifos w) = FRC_SSN_FIFO_NUM \<and> list_all (sfifo_ok env) (s_fifos w)"

text \<open>What a step that only talks to the host leaves alone.\<close>

definition local_same :: "ssn_world \<Rightarrow> ssn_world \<Rightarrow> bool" where
  "local_same u w \<longleftrightarrow> s_fifos w = s_fifos u \<and> s_freed w = s_freed u \<and> s_exhaust w = s_exhaust u \<and>
     s_last_display w = s_last_display u \<and> s_dma u \<le> s_dma w"

lemma local_same_refl [simp]: "local_same w w"
  by (simp add: local_same_def)

lemma local_same_trans [trans]: "local_same u v \<Longrightarrow> local_same v w \<Longrightarrow> local_same u w"
  by (simp add: local_same_def)

lemma smem_stat [simp]:
  "smem_ok env (sstat_add s v w) = smem_ok env w" "local_same u (sstat_add s v w) = local_same u w"
  "local_same (sstat_add s v u) w = local_same u w"
  "s_fifos (sstat_add s v w) = s_fifos w" "s_freed (sstat_add s v w) = s_freed w" "s_host (sstat_add s v w) = s_host w"
  "s_chan (sstat_add s v w) = s_chan w" "s_dma (sstat_add s v w) = s_dma w" "s_tick (sstat_add s v w) = s_tick w"
  "s_exhaust (sstat_add s v w) = s_exhaust w" "s_last_display (sstat_add s v w) = s_last_display w"
  by (simp_all add: smem_ok_def local_same_def sstat_add_def)

lemma smem_other [simp]:
  "smem_ok env (w\<lparr>s_dma := k\<rparr>) = smem_ok env w" "smem_ok env (w\<lparr>s_tick := k\<rparr>) = smem_ok env w"
  "smem_ok env (w\<lparr>s_freed := l\<rparr>) = smem_ok env w" "local_same u (w\<lparr>s_tick := k\<rparr>) = local_same u w"
  "local_same u (w\<lparr>s_host := h\<rparr>) = local_same u w" "local_same u (w\<lparr>s_chan := c\<rparr>) = local_same u w"
  by (simp_all add: smem_ok_def local_same_def)

text \<open>A transfer and what follows it, in any environment.\<close>

definition sframes :: "env \<Rightarrow> ssn_world \<Rightarrow> (int \<times> 'a \<times> ssn_world) option \<Rightarrow> bool" where
  "sframes env u r \<longleftrightarrow> (\<exists>rv x w'. r = Some (rv, x, w') \<and> smem_ok env w' \<and> local_same u w')"

lemma sframes_Some [simp]: "sframes env u (Some (rv, x, w)) \<longleftrightarrow> smem_ok env w \<and> local_same u w"
  by (auto simp: sframes_def)

lemma sframes_dma:
  assumes "smem_ok env w" "local_same u w" "\<And>w1. smem_ok env w1 \<Longrightarrow> local_same u w1 \<Longrightarrow> sframes env u (k w1)"
  shows "sframes env u (sdma env n w k none)"
  using assms by (auto simp: sdma_def local_same_def)

lemma sframes_avail_copy:
  assumes "smem_ok env w" "local_same u w" "src + n \<le> FRC_SSN_RING_SIZE" "dst + n \<le> FRCORE_SSN_AVAIL_BUFF_GET_SIZE"
    and "\<And>w1. smem_ok env w1 \<Longrightarrow> local_same u w1 \<Longrightarrow> sframes env u (k w1)"
  shows "sframes env u (do { w \<leftarrow> savail_copy src dst n w; k w })"
  using assms by (simp add: savail_copy_def get_slice_def put_slice_def smem_ok_def)

lemma sframes_compl_copy:
  assumes "smem_ok env w" "local_same u w" "src + n \<le> FRCORE_SSN_AVAIL_BUFF_GET_SIZE" "dst + n \<le> FRC_SSN_RING_SIZE"
    and "\<And>w1. smem_ok env w1 \<Longrightarrow> local_same u w1 \<Longrightarrow> sframes env u (k w1)"
  shows "sframes env u (do { w \<leftarrow> scompl_copy src dst n w; k w })"
  using assms by (simp add: scompl_copy_def get_slice_def put_slice_def smem_ok_def)

lemma sframes_commit:
  assumes "smem_ok env w" "local_same u w"
  shows "number \<le> FRCORE_SSN_AVAIL_BUFF_GET_SIZE \<Longrightarrow> sframes env u (savail_commit env ridx number w)"
    "sframes env u (scompl_commit env ridx number w)"
  using assms
  by (simp_all add: savail_commit_def scompl_commit_def sdma_def smem_ok_def local_same_def sstat_add_def get_slice_def Let_def)

lemma sframes_if:
  "(b \<Longrightarrow> sframes env u r) \<Longrightarrow> (\<not> b \<Longrightarrow> sframes env u r') \<Longrightarrow> sframes env u (if b then r else r')"
  by simp

lemma ssn_ring_sizes: "FRCORE_SSN_AVAIL_BUFF_GET_SIZE \<le> FRC_SSN_RING_SIZE" "0 < FRC_SSN_RING_SIZE"
  by (simp_all add: c_consts)

lemma savail_get_frame:
  assumes ok: "smem_ok env w" "local_same u w" and n: "number \<le> FRCORE_SSN_AVAIL_BUFF_GET_SIZE"
  shows "sframes env u (frcore_ssn_chan_avail_get env number w)"
proof -
  note split = ring_split [OF n ssn_ring_sizes]
  have "number \<le> FRC_SSN_RING_SIZE" using n ssn_ring_sizes by linarith
  then show ?thesis
    unfolding frcore_ssn_chan_avail_get_def Let_def
    by (intro sframes_dma sframes_if sframes_avail_copy sframes_commit ok split n)
       (simp_all del: min_less_iff_conj add: smem_ok_def min.coboundedI2 n le_diff_conv trans_le_add1 add_mono less_imp_le [OF mod_less_divisor] ssn_ring_sizes)
qed

lemma sframes_put:
  assumes "smem_ok env w" "local_same u w" "length buff \<le> FRCORE_SSN_AVAIL_BUFF_GET_SIZE"
    and "\<And>w1. smem_ok env w1 \<Longrightarrow> local_same u w1 \<Longrightarrow> sframes env u (k w1)"
  shows "sframes env u (do { b \<leftarrow> put_slice (sc_compl_buff (s_chan w)) 0 buff; k (w\<lparr>s_chan := (s_chan w)\<lparr>sc_compl_buff := b\<rparr>\<rparr>) })"
  using assms by (simp add: put_slice_def smem_ok_def)

lemma scompl_put_frame:
  assumes ok: "smem_ok env w" "local_same u w" and n: "length buff \<le> FRCORE_SSN_AVAIL_BUFF_GET_SIZE"
  shows "sframes env u (frcore_ssn_chan_compl_put env buff w)"
proof -
  note split = ring_split [OF n ssn_ring_sizes]
  have "length buff \<le> FRC_SSN_RING_SIZE" using n ssn_ring_sizes by linarith
  then show ?thesis
    unfolding frcore_ssn_chan_compl_put_def Let_def
    by (intro sframes_dma sframes_if sframes_put sframes_compl_copy sframes_commit ok split n)
       (simp_all del: min_less_iff_conj add: smem_ok_def min.coboundedI2 n le_diff_conv trans_le_add1 add_mono less_imp_le [OF mod_less_divisor] ssn_ring_sizes)
qed

section \<open>The loop over the cells\<close>

text \<open>A transfer to the blocks changes their contents, the transfer count and the statistics only.\<close>

definition mem_only :: "ssn_world \<Rightarrow> ssn_world \<Rightarrow> bool" where
  "mem_only w w' \<longleftrightarrow> s_dma w \<le> s_dma w' \<and>
     w' = w\<lparr>s_host := (s_host w)\<lparr>hs_mem := hs_mem (s_host w')\<rparr>, s_dma := s_dma w', s_stat := s_stat w'\<rparr>"

lemma mem_only_refl [simp]: "mem_only w w"
  by (simp add: mem_only_def)

lemma mem_only_trans [trans]:
  assumes "mem_only u v" "mem_only v w" shows "mem_only u w"
proof -
  define h d t where "h = hs_mem (s_host v)" "d = s_dma v" "t = s_stat v"
  have v: "v = u\<lparr>s_host := (s_host u)\<lparr>hs_mem := h\<rparr>, s_dma := d, s_stat := t\<rparr>"
    using assms(1) unfolding mem_only_def h_d_t_def by blast
  show ?thesis using assms unfolding v by (simp add: mem_only_def)
qed

lemma mem_only_frame:
  assumes "mem_only w w'"
  shows "smem_ok env w' = smem_ok env w" "local_same w w'" "s_chan w' = s_chan w"
    "hs_compl_ridx (s_host w') = hs_compl_ridx (s_host w)" "hs_compl_ring (s_host w') = hs_compl_ring (s_host w)"
    "hs_avail_widx (s_host w') = hs_avail_widx (s_host w)" "s_fifos w' = s_fifos w" "s_tick w' = s_tick w"
    "hs_compl_widx (s_host w') = hs_compl_widx (s_host w)" "hs_avail_ring (s_host w') = hs_avail_ring (s_host w)"
    "hs_avail_ridx (s_host w') = hs_avail_ridx (s_host w)"
proof -
  define h d t where "h = hs_mem (s_host w')" "d = s_dma w'" "t = s_stat w'"
  have w': "w' = w\<lparr>s_host := (s_host w)\<lparr>hs_mem := h\<rparr>, s_dma := d, s_stat := t\<rparr>"
    using assms unfolding mem_only_def h_d_t_def by blast
  have "s_dma w \<le> d" using assms by (simp add: mem_only_def h_d_t_def)
  then show "smem_ok env w' = smem_ok env w" "local_same w w'" "s_chan w' = s_chan w"
    "hs_compl_ridx (s_host w') = hs_compl_ridx (s_host w)" "hs_compl_ring (s_host w') = hs_compl_ring (s_host w)"
    "hs_avail_widx (s_host w') = hs_avail_widx (s_host w)" "s_fifos w' = s_fifos w" "s_tick w' = s_tick w"
    "hs_compl_widx (s_host w') = hs_compl_widx (s_host w)" "hs_avail_ring (s_host w') = hs_avail_ring (s_host w)"
    "hs_avail_ridx (s_host w') = hs_avail_ridx (s_host w)"
    by (simp_all add: w' smem_ok_def local_same_def)
qed

lemma mem_only_stat [simp]: "mem_only (sstat_add s v w) w' = mem_only w w'" "mem_only w (sstat_add s v w') = mem_only w w'"
  unfolding mem_only_def sstat_add_def by (cases w; cases w'; simp)+

lemma scatter_mem_only: "mem_only w (snd (scatter env ds w))"
  by (auto simp: scatter_def frcore_dma_scatter_def case_prod_unfold) (simp_all add: mem_only_def)

lemma push_mem_only: "push_desc env d ds w = (fail, ds', w') \<Longrightarrow> mem_only w w'"
  using scatter_mem_only [of w env "ds @ [d]"] by (auto simp: push_desc_def case_prod_unfold Let_def split: if_splits)

lemma post_cell_frame:
  assumes "cell_ok c" "length address < FRCORE_CHAN_POST_LWM env"
  shows "\<exists>fail ds' address' w'. post_cell env c ds address w = Some (fail, ds', address', w') \<and> mem_only w w' \<and>
    length address' \<le> Suc (length address)"
proof (cases "c_type c")
  case FRC_SSN_DMA_HEAD
  obtain fail ds' w' where "push_desc env (c_block_addr c + FRC_DMA_OFFSET, D_head (c_head c)) ds w = (fail, ds', w')"
    by (metis prod_cases3)
  with FRC_SSN_DMA_HEAD show ?thesis
    using assms push_mem_only by (fastforce simp: post_cell_def post_head_def)
next
  case FRC_SSN_DMA_PAYLOAD
  let ?bytes = "take (unat (c_payload_size c)) (c_payload c)"
  let ?w = "sstat_add stat_ssn_dma_bytes (ucast (c_payload_size c)) (sstat_inc stat_ssn_dma_pkts w)"
  have b: "get_slice (c_payload c) 0 (unat (c_payload_size c)) = Some ?bytes"
    using assms by (simp add: cell_ok_def get_slice_def)
  obtain fail ds1 w1 where p1: "push_desc env (c_block_addr c + ucast (c_payload_offset c), D_payload ?bytes) ds ?w = (fail, ds1, w1)"
    by (metis prod_cases3)
  obtain fail2 ds2 w2 where p2: "push_desc env (c_block_addr c + ucast (c_info_offset c), D_info (c_info c)) ds1
      (sstat_inc stat_ssn_dma_pkt_infos w1) = (fail2, ds2, w2)"
    by (metis prod_cases3)
  have "mem_only w w1" "mem_only w1 w2" using push_mem_only [OF p1] push_mem_only [OF p2] by simp_all
  then have "mem_only w w1" "mem_only w w2" using mem_only_trans by blast+
  then show ?thesis using FRC_SSN_DMA_PAYLOAD b p1 p2 by (cases fail) (auto simp: post_cell_def post_payload_def)
qed (auto simp: post_cell_def)

lemma cell_at:
  assumes "sfifo_ok env f" "smem_ok env w"
  shows "k mod FRCORE_CORE_FIFO_NUM env < length (sf_cells f)" "cell_ok (sf_cells f ! (k mod FRCORE_CORE_FIFO_NUM env))"
proof -
  show i: "k mod FRCORE_CORE_FIFO_NUM env < length (sf_cells f)"
    using assms by (simp add: sfifo_ok_def smem_ok_def FRCORE_CORE_FIFO_NUM_def)
  show "cell_ok (sf_cells f ! (k mod FRCORE_CORE_FIFO_NUM env))"
    using assms(1) nth_mem [OF i] by (simp add: sfifo_ok_def list_all_iff)
qed

text \<open>The loop returns in every environment; it counts no more cells than it was given.\<close>

lemma post_cells_frame:
  assumes "sfifo_ok env f" "smem_ok env w" "length address + remain \<le> FRCORE_CHAN_POST_LWM env"
  shows "\<exists>posted address' w'. post_cells env f remain cur ds address pk w = Some (posted, address', w') \<and> mem_only w w' \<and>
    posted \<le> pk + remain \<and> length address' \<le> length address + remain"
  using assms
proof (induction remain arbitrary: cur ds address pk w)
  case 0
  then show ?case by simp
next
  case (Suc remain)
  let ?i = "unat (sf_ridx f + of_nat cur) mod FRCORE_CORE_FIFO_NUM env"
  note cell = cell_at [OF Suc.prems(1,2), of "unat (sf_ridx f + of_nat cur)"]
  obtain fail ds1 address1 w1 where c: "post_cell env (sf_cells f ! ?i) ds address w = Some (fail, ds1, address1, w1)"
      "mem_only w w1" "length address1 \<le> Suc (length address)"
    using post_cell_frame [OF cell(2), of address env ds w] Suc.prems(3) by auto
  obtain fail2 w2 where sc: "scatter env ds1 w1 = (fail2, w2)" by fastforce
  have w2: "mem_only w w2" using scatter_mem_only [of w1 env ds1] sc c(2) mem_only_trans by fastforce
  have "smem_ok env w1" using c(2) Suc.prems(2) by (simp add: mem_only_frame)
  from Suc.IH [OF Suc.prems(1) this, of address1 "cur + 1" ds1 "pk + 1"] c(3) Suc.prems(3)
  obtain posted address' w' where IH: "post_cells env f remain (cur + 1) ds1 address1 (pk + 1) w1 = Some (posted, address', w')"
      "mem_only w1 w'" "posted \<le> pk + 1 + remain" "length address' \<le> length address1 + remain"
    by auto
  have w': "mem_only w w'" using c(2) IH(2) by (rule mem_only_trans)
  consider "fail" | "\<not> fail" "remain = 0 \<and> ds1 \<noteq> []" | "\<not> fail" "\<not> (remain = 0 \<and> ds1 \<noteq> [])" by blast
  then show ?case
  proof cases
    case 1
    then show ?thesis using cell(1) c by simp
  next
    case 2
    then show ?thesis using cell(1) c sc w2 by (cases fail2) simp_all
  next
    case 3
    then show ?thesis using cell(1) c IH w' by auto
  qed
qed

section \<open>Cells that reach the host\<close>

text \<open>A cell that the loop can transfer: a head, or a payload that is not empty.\<close>

definition cell_good :: "ssn_fifo_cell \<Rightarrow> bool" where
  "cell_good c \<longleftrightarrow> cell_ok c \<and> (c_type c = FRC_SSN_DMA_HEAD \<or> c_type c = FRC_SSN_DMA_PAYLOAD \<and> 0 < c_payload_size c)"

definition cell_descs :: "ssn_fifo_cell \<Rightarrow> (u64 \<times> dma_item) list" where
  "cell_descs c =
     (if c_type c = FRC_SSN_DMA_HEAD then [(c_block_addr c + FRC_DMA_OFFSET, D_head (c_head c))]
      else [(c_block_addr c + ucast (c_payload_offset c), D_payload (take (unat (c_payload_size c)) (c_payload c))),
            (c_block_addr c + ucast (c_info_offset c), D_info (c_info c))])"

definition cell_addrs :: "ssn_fifo_cell \<Rightarrow> u64 list" where
  "cell_addrs c = (if c_type c = FRC_SSN_DMA_HEAD then [c_block_addr c] else [])"

definition items_ok :: "env \<Rightarrow> (u64 \<times> dma_item) list \<Rightarrow> bool" where
  "items_ok env ds \<longleftrightarrow> (\<forall>d \<in> set ds. 0 < item_size (snd d) \<and> item_size (snd d) \<le> max_buf env)"

lemma write_items_append [simp]: "write_items env (as @ bs) m = write_items env bs (write_items env as m)"
  by (simp add: write_items_def write_blocks_append)

lemma write_items_Nil [simp]: "write_items env [] m = m"
  by (simp add: write_items_def write_blocks_append)

abbreviation blocks :: "ssn_world \<Rightarrow> memory" where
  "blocks w \<equiv> hs_mem (s_host w)"

lemma scatter_ok:
  assumes "ds \<noteq> []" "length ds \<le> max_ptrs env" "items_ok env ds" "\<not> dma_fails env (s_dma w)"
  shows "\<exists>w'. scatter env ds w = (False, w') \<and> mem_only w w' \<and> blocks w' = write_items env ds (blocks w)"
proof -
  have "\<not> list_ex (\<lambda>(a, d). item_size d = 0 \<or> item_size d > max_buf env) ds"
    using assms(3) by (auto simp: items_ok_def list_ex_iff)
  then show ?thesis using assms by (simp add: scatter_def frcore_dma_scatter_def) (simp add: mem_only_def)
qed

lemma push_ok:
  assumes "length ds < max_ptrs env" "items_ok env (d # ds)" "\<not> dma_fails env (s_dma w)"
  shows "\<exists>ds' w'. push_desc env d ds w = (False, ds', w') \<and> mem_only w w' \<and> length ds' < max_ptrs env \<and>
    items_ok env ds' \<and> write_items env ds' (blocks w') = write_items env (ds @ [d]) (blocks w)"
proof (cases "length ds + 1 = max_ptrs env")
  case True
  obtain w' where "scatter env (ds @ [d]) w = (False, w')" "mem_only w w'" "blocks w' = write_items env (ds @ [d]) (blocks w)"
    using scatter_ok [of "ds @ [d]" env w] assms by (auto simp: items_ok_def)
  then show ?thesis using True assms(1) by (simp add: push_desc_def items_ok_def)
qed (use assms in \<open>auto simp: push_desc_def items_ok_def\<close>)

lemma cell_descs_ok: "cell_good c \<Longrightarrow> smem_ok env w \<Longrightarrow> items_ok env (cell_descs c)"
  by (auto simp: cell_good_def cell_ok_def smem_ok_def items_ok_def cell_descs_def item_size_def sizeof_hdr_def
      sizeof_info_def FRC_PAYLOAD_LEN_MAX_def word_less_nat_alt)

lemma post_cell_ok:
  assumes good: "cell_good c" "smem_ok env w" and ds: "length ds < max_ptrs env" "items_ok env ds"
    and dma: "\<forall>k \<ge> s_dma w. \<not> dma_fails env k" and room: "length address < FRCORE_CHAN_POST_LWM env"
  shows "\<exists>ds' w'. post_cell env c ds address w = Some (False, ds', address @ cell_addrs c, w') \<and> mem_only w w' \<and>
    length ds' < max_ptrs env \<and> items_ok env ds' \<and>
    write_items env ds' (blocks w') = write_items env (cell_descs c) (write_items env ds (blocks w))"
proof (cases "c_type c = FRC_SSN_DMA_HEAD")
  case True
  note d = cell_descs_ok [OF good]
  obtain ds' w' where "push_desc env (c_block_addr c + FRC_DMA_OFFSET, D_head (c_head c)) ds w = (False, ds', w')" "mem_only w w'"
      "length ds' < max_ptrs env" "items_ok env ds'"
      "write_items env ds' (blocks w') = write_items env (ds @ [(c_block_addr c + FRC_DMA_OFFSET, D_head (c_head c))]) (blocks w)"
    using push_ok [OF ds(1), of "(c_block_addr c + FRC_DMA_OFFSET, D_head (c_head c))" w] d ds(2) dma True
    by (auto simp: cell_descs_def items_ok_def)
  then show ?thesis using True room by (simp add: post_cell_def post_head_def cell_addrs_def cell_descs_def)
next
  case False
  let ?bytes = "take (unat (c_payload_size c)) (c_payload c)"
  let ?d1 = "(c_block_addr c + ucast (c_payload_offset c), D_payload ?bytes)"
  let ?d2 = "(c_block_addr c + ucast (c_info_offset c), D_info (c_info c))"
  let ?w = "sstat_add stat_ssn_dma_bytes (ucast (c_payload_size c)) (sstat_inc stat_ssn_dma_pkts w)"
  have d: "items_ok env [?d1, ?d2]" using cell_descs_ok [OF good] False by (simp add: cell_descs_def)
  have b: "get_slice (c_payload c) 0 (unat (c_payload_size c)) = Some ?bytes" "c_type c = FRC_SSN_DMA_PAYLOAD"
    using good False by (auto simp: cell_good_def cell_ok_def get_slice_def)
  obtain ds1 w1 where p1: "push_desc env ?d1 ds ?w = (False, ds1, w1)" "mem_only w w1" "length ds1 < max_ptrs env"
      "items_ok env ds1" "write_items env ds1 (blocks w1) = write_items env (ds @ [?d1]) (blocks w)"
    using push_ok [OF ds(1), of ?d1 ?w] d ds(2) dma by (auto simp: items_ok_def)
  have "\<not> dma_fails env (s_dma w1)" using dma p1(2) by (simp add: mem_only_def)
  then obtain ds2 w2 where p2: "push_desc env ?d2 ds1 (sstat_inc stat_ssn_dma_pkt_infos w1) = (False, ds2, w2)" "mem_only w1 w2"
      "length ds2 < max_ptrs env" "items_ok env ds2" "write_items env ds2 (blocks w2) = write_items env (ds1 @ [?d2]) (blocks w1)"
    using push_ok [OF p1(3), of ?d2 "sstat_inc stat_ssn_dma_pkt_infos w1"] d p1(4) by (auto simp: items_ok_def)
  have "mem_only w w2" using p1(2) p2(2) by (rule mem_only_trans)
  moreover have "write_items env ds2 (blocks w2) = write_items env (cell_descs c) (write_items env ds (blocks w))"
    using False p1(5) p2(5) by (simp add: cell_descs_def write_items_def write_blocks_append write_blocks_Cons)
  ultimately show ?thesis using False b p1(1) p2 by (simp add: post_cell_def post_payload_def cell_addrs_def)
qed

abbreviation fifo_cell_at :: "env \<Rightarrow> ssn_fifo \<Rightarrow> nat \<Rightarrow> ssn_fifo_cell" where
  "fifo_cell_at env f i \<equiv> sf_cells f ! (unat (sf_ridx f + of_nat i) mod FRCORE_CORE_FIFO_NUM env)"

lemma post_cells_ok:
  assumes "sfifo_ok env f" "smem_ok env w" "length address + remain \<le> FRCORE_CHAN_POST_LWM env"
    and "\<forall>i \<in> set [cur..<cur + remain]. cell_good (fifo_cell_at env f i)"
    and "\<forall>k \<ge> s_dma w. \<not> dma_fails env k" "length ds < max_ptrs env" "items_ok env ds" "remain = 0 \<longrightarrow> ds = []"
  shows "\<exists>w'. post_cells env f remain cur ds address pk w =
      Some (pk + remain, address @ concat (map (\<lambda>i. cell_addrs (fifo_cell_at env f i)) [cur..<cur + remain]), w') \<and> mem_only w w' \<and>
    blocks w' = write_items env (ds @ concat (map (\<lambda>i. cell_descs (fifo_cell_at env f i)) [cur..<cur + remain])) (blocks w)"
  using assms
proof (induction remain arbitrary: cur ds address pk w)
  case 0
  then show ?case by simp
next
  case (Suc remain)
  let ?c = "fifo_cell_at env f cur"
  note cell = cell_at [OF Suc.prems(1,2), of "unat (sf_ridx f + of_nat cur)"]
  have upt: "[cur..<cur + Suc remain] = cur # [Suc cur..<Suc cur + remain]" by (simp add: upt_rec)
  have good: "cell_good ?c" using Suc.prems(4) unfolding upt by simp
  obtain ds1 w1 where c: "post_cell env ?c ds address w = Some (False, ds1, address @ cell_addrs ?c, w1)" "mem_only w w1"
      "length ds1 < max_ptrs env" "items_ok env ds1" "write_items env ds1 (blocks w1) = write_items env (cell_descs ?c) (write_items env ds (blocks w))"
    using post_cell_ok [OF good Suc.prems(2,6,7,5), of address] Suc.prems(3) by auto
  have dma1: "\<forall>k \<ge> s_dma w1. \<not> dma_fails env k" using Suc.prems(5) c(2) by (auto simp: mem_only_def)
  show ?case
  proof (cases "remain = 0 \<and> ds1 \<noteq> []")
    case True
    obtain w2 where "scatter env ds1 w1 = (False, w2)" "mem_only w1 w2" "blocks w2 = write_items env ds1 (blocks w1)"
      using scatter_ok [of ds1 env w1] True c(3,4) dma1 by auto
    then show ?thesis using True cell(1) c mem_only_trans [OF c(2)] by (auto simp: upt)
  next
    case False
    have len: "length (address @ cell_addrs ?c) + remain \<le> FRCORE_CHAN_POST_LWM env"
      using Suc.prems(3) by (simp add: cell_addrs_def)
    have "smem_ok env w1" using c(2) Suc.prems(2) by (simp add: mem_only_frame)
    then obtain w' where IH: "post_cells env f remain (Suc cur) ds1 (address @ cell_addrs ?c) (Suc pk) w1 =
      Some (Suc pk + remain, (address @ cell_addrs ?c) @ concat (map (\<lambda>i. cell_addrs (fifo_cell_at env f i)) [Suc cur..<Suc cur + remain]), w')" "mem_only w1 w'"
      "blocks w' = write_items env (ds1 @ concat (map (\<lambda>i. cell_descs (fifo_cell_at env f i)) [Suc cur..<Suc cur + remain])) (blocks w1)"
      using Suc.IH [OF Suc.prems(1) _ len _ dma1 c(3,4), of "Suc cur" "Suc pk"] Suc.prems(4) False
      unfolding upt by auto
    have "mem_only w w'" using c(2) IH(2) by (rule mem_only_trans)
    then show ?thesis using False cell(1) c(1,5) IH(1,3) unfolding upt by auto
  qed
qed

section \<open>The fifo as a queue of cells\<close>

definition ssn_queue :: "env \<Rightarrow> ssn_fifo \<Rightarrow> ssn_fifo_cell list" where
  "ssn_queue env f = map (fifo_cell_at env f) [0..<unat (sf_widx f - sf_ridx f)]"

lemma word_span:
  assumes "(r :: 'a::len word) \<le> w" "i \<le> unat (w - r)"
  shows "unat (r + of_nat i) = unat r + i" "r + of_nat i \<le> w" "unat (w - (r + of_nat i)) = unat (w - r) - i"
proof -
  have d: "unat w = unat r + unat (w - r)" using assms(1) by (simp add: unat_sub word_le_nat_alt)
  have "unat w < 2 ^ LENGTH('a)" by (rule unsigned_less)
  then show r: "unat (r + of_nat i) = unat r + i"
    using d assms(2) by (simp add: unat_word_ariths unat_of_nat)
  then show le: "r + of_nat i \<le> w" using d assms(2) by (simp add: word_le_nat_alt)
  show "unat (w - (r + of_nat i)) = unat (w - r) - i" using unat_sub [OF le] r d by simp
qed

lemma queue_drop:
  assumes "sfifo_ok env f" "n \<le> unat (sf_widx f - sf_ridx f)"
  shows "ssn_queue env (f\<lparr>sf_ridx := sf_ridx f + of_nat n, sf_post_cycle := now\<rparr>) = drop n (ssn_queue env f)"
    "sfifo_ok env (f\<lparr>sf_ridx := sf_ridx f + of_nat n, sf_post_cycle := now\<rparr>)"
proof -
  note span = word_span [OF _ assms(2)]
  have le: "sf_ridx f \<le> sf_widx f" using assms(1) by (simp add: sfifo_ok_def)
  show "ssn_queue env (f\<lparr>sf_ridx := sf_ridx f + of_nat n, sf_post_cycle := now\<rparr>) = drop n (ssn_queue env f)"
    by (rule nth_equalityI) (simp_all add: ssn_queue_def span(3) [OF le] add.assoc)
  show "sfifo_ok env (f\<lparr>sf_ridx := sf_ridx f + of_nat n, sf_post_cycle := now\<rparr>)"
    using assms(1) span [OF le] by (auto simp: sfifo_ok_def)
qed

lemma ssn_queue_length [simp]: "length (ssn_queue env f) = unat (sf_widx f - sf_ridx f)"
  by (simp add: ssn_queue_def)

lemma fifo_index_small: "fid < of_nat FRC_SSN_FIFO_NUM \<Longrightarrow> unat (ucast (fid :: u32) :: u8) = unat fid"
  by (simp add: unat_ucast_mod word_less_nat_alt c_consts)

lemma fifo_get_ok:
  assumes "smem_ok env w" "frcore_ssn_fifo_get fid w = Some f"
  shows "sfifo_ok env f" "unat (ucast fid :: u8) < length (s_fifos w)" "s_fifos w ! unat (ucast fid :: u8) = f"
  using assms by (auto simp: frcore_ssn_fifo_get_def arr_get_eq_Some smem_ok_def list_all_length)

lemma fifo_get_exists: "smem_ok env w \<Longrightarrow> unat (ucast fid :: u8) < FRC_SSN_FIFO_NUM \<Longrightarrow> \<exists>f. frcore_ssn_fifo_get fid w = Some f"
  by (simp add: frcore_ssn_fifo_get_def smem_ok_def)

lemma set_fifo_ok:
  assumes "smem_ok env w" "frcore_ssn_fifo_get fid w = Some f" "sfifo_ok env f'"
  shows "smem_ok env (set_fifo fid f' w)" "frcore_ssn_fifo_get fid (set_fifo fid f' w) = Some f'"
  using assms fifo_get_ok(2) [OF assms(1,2)]
  by (auto simp: set_fifo_def smem_ok_def frcore_ssn_fifo_get_def list_all_length nth_list_update)

lemma set_fifo_simps [simp]: "s_freed (set_fifo fid f w) = s_freed w" "s_dma (set_fifo fid f w) = s_dma w"
  "s_host (set_fifo fid f w) = s_host w" "s_chan (set_fifo fid f w) = s_chan w" "s_exhaust (set_fifo fid f w) = s_exhaust w"
  "s_last_display (set_fifo fid f w) = s_last_display w"
  by (simp_all add: set_fifo_def)

lemma fifo_get_stat [simp]: "frcore_ssn_fifo_get fid (sstat_add s v w) = frcore_ssn_fifo_get fid w"
  by (simp add: frcore_ssn_fifo_get_def)

section \<open>Posting returns once transfers stop failing\<close>

lemma compl_put_strict:
  assumes ok: "smem_ok env w" and n: "length buff \<le> FRCORE_SSN_AVAIL_BUFF_GET_SIZE"
  shows "sframes env (w\<lparr>s_dma := Suc (s_dma w)\<rparr>) (frcore_ssn_chan_compl_put env buff w)"
proof -
  note split = ring_split [OF n ssn_ring_sizes]
  have step: "sframes env (w\<lparr>s_dma := Suc (s_dma w)\<rparr>) (sdma env 1 w k none)"
    if "sframes env (w\<lparr>s_dma := Suc (s_dma w)\<rparr>) (k (w\<lparr>s_dma := Suc (s_dma w)\<rparr>))" for k and none :: unit
    using that ok by (simp add: sdma_def)
  have "length buff \<le> FRC_SSN_RING_SIZE" using n ssn_ring_sizes by linarith
  then show ?thesis
    unfolding frcore_ssn_chan_compl_put_def Let_def using ok
    by (intro step sframes_dma sframes_if sframes_put sframes_compl_copy sframes_commit split n)
       (simp_all del: min_less_iff_conj add: smem_ok_def min.coboundedI2 n le_diff_conv trans_le_add1 add_mono less_imp_le [OF mod_less_divisor] ssn_ring_sizes)
qed

text \<open>Everything outside the channel and fifo \<open>fid\<close>, which becomes \<open>f\<close>, stays as it was.\<close>

definition outside_fifo :: "u32 \<Rightarrow> ssn_fifo \<Rightarrow> ssn_world \<Rightarrow> ssn_world \<Rightarrow> bool" where
  "outside_fifo fid f w w' \<longleftrightarrow> s_fifos w' = (s_fifos w)[unat (ucast fid :: u8) := f] \<and> s_freed w' = s_freed w \<and>
     s_exhaust w' = s_exhaust w \<and> s_last_display w' = s_last_display w"

lemma outside_fifo_trans: "outside_fifo fid f u v \<Longrightarrow> outside_fifo fid g v w \<Longrightarrow> outside_fifo fid g u w"
  by (simp add: outside_fifo_def)

lemma outside_fifo_stat [simp]: "outside_fifo fid f u (sstat_add s v w) = outside_fifo fid f u w"
  "outside_fifo fid f (sstat_add s v u) w = outside_fifo fid f u w"
  by (simp_all add: outside_fifo_def)

lemma outside_fifo_refl: "frcore_ssn_fifo_get fid w = Some f \<Longrightarrow> outside_fifo fid f w w"
  by (auto simp: outside_fifo_def frcore_ssn_fifo_get_def arr_get_eq_Some)

lemma post_round_frame:
  assumes ok: "smem_ok env w" and f: "frcore_ssn_fifo_get fid w = Some f"
    and n: "n \<le> unat (sf_widx f - sf_ridx f)" "n \<le> FRCORE_CHAN_POST_LWM env"
  shows "\<exists>more posted w' f'. ssn_post_round env fid n w = Some (more, posted, w') \<and> smem_ok env w' \<and> posted \<le> n \<and>
    s_dma w < s_dma w' \<and> outside_fifo fid f' w w' \<and> frcore_ssn_fifo_get fid w' = Some f' \<and> sf_widx f' = sf_widx f \<and>
    ssn_queue env f' = drop (if more then posted else 0) (ssn_queue env f) \<and>
    ((\<forall>k \<ge> s_dma w. \<not> dma_fails env k) \<and> list_all cell_good (ssn_queue env f) \<longrightarrow> posted = n)"
proof -
  have fo: "sfifo_ok env f" using fifo_get_ok(1) [OF ok f] .
  obtain posted address w1 where p: "post_cells env f n 0 [] [] 0 w = Some (posted, address, w1)" "mem_only w w1" "posted \<le> n" "length address \<le> n"
    using post_cells_frame [OF fo ok, of "[]" n 0 "[]" 0] n(2) by auto
  let ?w2 = "if posted < n then sstat_add stat_ssn_post_err_pkts (of_nat (n - posted)) (sstat_inc stat_ssn_pkt_post_err w1)
             else sstat_inc stat_ssn_pkt_post w1"
  have m: "smem_ok env ?w2" "s_dma ?w2 = s_dma w1" "s_fifos ?w2 = s_fifos w1" "s_freed ?w2 = s_freed w1"
    using p(2) ok by (simp_all add: mem_only_frame)
  have "length address \<le> FRCORE_SSN_AVAIL_BUFF_GET_SIZE"
    using p(4) n(2) ok by (simp add: smem_ok_def FRCORE_CORE_FIFO_NUM_def FRCORE_CHAN_POST_LWM_def)
  then obtain rv w3 where c: "frcore_ssn_chan_compl_put env address ?w2 = Some (rv, (), w3)" "smem_ok env w3"
      "local_same (?w2\<lparr>s_dma := Suc (s_dma ?w2)\<rparr>) w3"
    using compl_put_strict [OF m(1), of address] by (auto simp: sframes_def)
  have w3: "s_fifos w3 = s_fifos w" "s_freed w3 = s_freed w" "s_dma w < s_dma w3"
      "s_exhaust w3 = s_exhaust w" "s_last_display w3 = s_last_display w"
    using c(3) m p(2) mem_only_frame(2) [OF p(2)] by (auto simp: local_same_def mem_only_def split: if_splits)
  have f3: "frcore_ssn_fifo_get fid (w3\<lparr>s_tick := t\<rparr>) = Some f" "frcore_ssn_fifo_get fid w3 = Some f" for t
    using f w3(1) by (simp_all add: frcore_ssn_fifo_get_def)
  have all: "posted = n" if "\<forall>k \<ge> s_dma w. \<not> dma_fails env k" "list_all cell_good (ssn_queue env f)"
  proof -
    have "\<forall>i \<in> set [0..<0 + n]. cell_good (fifo_cell_at env f i)"
      using that(2) n(1) by (auto simp: ssn_queue_def list_all_iff)
    moreover have "0 < max_ptrs env" using ok by (simp add: smem_ok_def)
    ultimately show ?thesis
      using post_cells_ok [OF fo ok, of "[]" n 0 "[]" 0] n(2) that(1) p(1) by (auto simp: items_ok_def)
  qed
  note q = queue_drop [OF fo, of posted "cycles env (s_tick w3)"]
  have "posted \<le> unat (sf_widx f - sf_ridx f)" using p(3) n(1) by simp
  note q = q [OF this]
  have ok3: "smem_ok env (w3\<lparr>s_tick := t\<rparr>)" for t using c(2) by simp
  note set = set_fifo_ok [OF ok3 f3(1) q(2)]
  show ?thesis
  proof (cases "rv = FRE_SUCCESS")
    case True
    then have "ssn_post_round env fid n w = Some (True, posted, set_fifo fid (f\<lparr>sf_ridx := sf_ridx f + of_nat posted,
        sf_post_cycle := cycles env (s_tick w3)\<rparr>) (w3\<lparr>s_tick := s_tick w3 + 1\<rparr>))"
      using f p(1) c(1) by (simp add: ssn_post_round_def frcore_ssn_chan_post_pkt_def Let_def sget_cycle_def)
    then show ?thesis using set p(3) w3 q(1) all by (auto simp: outside_fifo_def set_fifo_def)
  next
    case False
    then have "ssn_post_round env fid n w = Some (False, posted, w3)"
      using f p(1) c(1) by (simp add: ssn_post_round_def frcore_ssn_chan_post_pkt_def Let_def)
    then show ?thesis using p(3) w3 f3 c(2) all outside_fifo_refl [OF f] by (auto simp: outside_fifo_def)
  qed
qed

lemma post_loop_returns:
  assumes "smem_ok env w" "frcore_ssn_fifo_get fid w = Some f" "list_all cell_good (ssn_queue env f)"
    and "\<forall>k \<ge> K. \<not> dma_fails env k" "local_num = length (ssn_queue env f)"
  shows "\<exists>w' f' n. ssn_post_loop env fid local_num w = Some w' \<and> smem_ok env w' \<and> outside_fifo fid f' w w' \<and>
    frcore_ssn_fifo_get fid w' = Some f' \<and> sf_widx f' = sf_widx f \<and> ssn_queue env f' = drop n (ssn_queue env f)"
  using assms(1-3,5)
proof (induction "local_num + (K - s_dma w)" arbitrary: local_num w f rule: less_induct)
  case less
  show ?case
  proof (cases "local_num = 0")
    case True
    then show ?thesis using less.prems by (intro exI [of _ w] exI [of _ f] exI [of _ 0]) (subst ssn_post_loop.simps, simp add: outside_fifo_refl)
  next
    case False
    let ?n = "if local_num < FRCORE_CHAN_POST_LWM env then local_num else FRCORE_CHAN_POST_LWM env"
    have lwm: "0 < FRCORE_CHAN_POST_LWM env" using less.prems(1) by (simp add: smem_ok_def FRCORE_CHAN_POST_LWM_def)
    have n: "?n \<le> unat (sf_widx f - sf_ridx f)" "?n \<le> FRCORE_CHAN_POST_LWM env" "0 < ?n"
      using less.prems(4) False lwm by auto
    obtain more posted w1 f1 where r: "ssn_post_round env fid ?n w = Some (more, posted, w1)" "smem_ok env w1" "posted \<le> ?n"
        "s_dma w < s_dma w1" "outside_fifo fid f1 w w1" "frcore_ssn_fifo_get fid w1 = Some f1" "sf_widx f1 = sf_widx f"
        "ssn_queue env f1 = drop (if more then posted else 0) (ssn_queue env f)"
        "(\<forall>k \<ge> s_dma w. \<not> dma_fails env k) \<and> list_all cell_good (ssn_queue env f) \<longrightarrow> posted = ?n"
      using post_round_frame [OF less.prems(1,2) n(1,2)] by (elim exE conjE) (rule that)
    show ?thesis
    proof (cases more)
      case True
      have prog: "local_num - posted + (K - s_dma w1) < local_num + (K - s_dma w)"
      proof (cases "s_dma w < K")
        case False
        then have "posted = ?n" using r(9) assms(4) less.prems(3) by auto
        then show ?thesis using n(3) False r(4) \<open>local_num \<noteq> 0\<close> lwm by auto
      qed (use r(4) in auto)
      have good: "list_all cell_good (ssn_queue env f1)" "local_num - posted = length (ssn_queue env f1)"
        using r(8) True less.prems(3,4) by (auto simp: list_all_iff dest: in_set_dropD)
      obtain w' f' m where IH: "ssn_post_loop env fid (local_num - posted) w1 = Some w'" "smem_ok env w'" "outside_fifo fid f' w1 w'"
          "frcore_ssn_fifo_get fid w' = Some f'" "sf_widx f' = sf_widx f1" "ssn_queue env f' = drop m (ssn_queue env f1)"
        using less.hyps [OF prog r(2,6) good] by blast
      have "ssn_post_loop env fid local_num w = Some w'"
        using False True r(1) IH(1) by (subst ssn_post_loop.simps) (simp add: Let_def)
      then show ?thesis using IH r True outside_fifo_trans [OF r(5) IH(3)] by (auto simp: drop_drop)
    next
      case False
      have "ssn_post_loop env fid local_num w = Some w1"
        using \<open>local_num \<noteq> 0\<close> False r(1) by (subst ssn_post_loop.simps) (simp add: Let_def)
      then show ?thesis using r False by (auto intro!: exI [of _ 0])
    qed
  qed
qed

section \<open>The invariant of the channel\<close>

text \<open>The transfers that fail are finitely many.\<close>

definition transfers_recover :: "env \<Rightarrow> bool" where
  "transfers_recover env \<longleftrightarrow> (\<exists>K. \<forall>k \<ge> K. \<not> dma_fails env k)"

text \<open>Every array has its size, every queued cell can be transferred, and no index overflows within the
  next \<open>B\<close> requests.\<close>

definition queue_ok :: "env \<Rightarrow> nat \<Rightarrow> ssn_fifo \<Rightarrow> bool" where
  "queue_ok env B f \<longleftrightarrow> list_all cell_good (ssn_queue env f) \<and> unat (sf_widx f) + B < 2 ^ 64"

definition ssn_ok :: "env \<Rightarrow> nat \<Rightarrow> ssn_world \<Rightarrow> bool" where
  "ssn_ok env B w \<longleftrightarrow> smem_ok env w \<and> list_all (queue_ok env B) (s_fifos w) \<and>
     length (s_exhaust w) = FRC_DAT_CORE_NUM \<and> length (s_last_display w) = FRC_DAT_CORE_NUM"

lemma ssn_ok_stat [simp]: "ssn_ok env B (sstat_add s v w) = ssn_ok env B w"
  by (simp add: ssn_ok_def)

lemma ssn_ok_mono: "ssn_ok env B w \<Longrightarrow> B' \<le> B \<Longrightarrow> ssn_ok env B' w"
  by (auto simp: ssn_ok_def queue_ok_def list_all_iff)

lemma list_all_update: "list_all P xs \<Longrightarrow> P y \<Longrightarrow> list_all P (xs[i := y])"
  using set_update_subset_insert [of xs i y] by (auto simp: list_all_iff)

lemma ssn_ok_fifo:
  assumes "ssn_ok env B w" "outside_fifo fid f w w'" "smem_ok env w'" "queue_ok env B' f" "B' \<le> B"
  shows "ssn_ok env B' w'"
proof -
  have "ssn_ok env B' w" using assms(1,5) by (rule ssn_ok_mono)
  then show ?thesis using assms(2-4) by (auto simp: ssn_ok_def outside_fifo_def intro: list_all_update)
qed

lemma ssn_ok_get:
  assumes "ssn_ok env B w" "frcore_ssn_fifo_get fid w = Some f"
  shows "queue_ok env B f" "sfifo_ok env f"
  using assms by (auto simp: ssn_ok_def smem_ok_def frcore_ssn_fifo_get_def arr_get_eq_Some list_all_length)

lemma post_no_lock_outcome:
  assumes ok: "ssn_ok env B w" and dma: "transfers_recover env" and f: "frcore_ssn_fifo_get fid w = Some f"
  shows "\<exists>w' f' n. frcore_ssn_fifo_post_no_lock env fid flag w = Some w' \<and> ssn_ok env B w' \<and> outside_fifo fid f' w w' \<and>
    frcore_ssn_fifo_get fid w' = Some f' \<and> sf_widx f' = sf_widx f \<and> ssn_queue env f' = drop n (ssn_queue env f)"
proof -
  obtain K where K: "\<forall>k \<ge> K. \<not> dma_fails env k" using dma by (auto simp: transfers_recover_def)
  have m: "smem_ok env w" "list_all cell_good (ssn_queue env f)"
    using ok ssn_ok_get [OF ok f] by (simp_all add: ssn_ok_def queue_ok_def)
  obtain w' f' n where r: "ssn_post_loop env fid (unat (sf_widx f - sf_ridx f)) w = Some w'" "smem_ok env w'" "outside_fifo fid f' w w'"
      "frcore_ssn_fifo_get fid w' = Some f'" "sf_widx f' = sf_widx f" "ssn_queue env f' = drop n (ssn_queue env f)"
    using post_loop_returns [OF m(1) f m(2) K] by auto
  have "queue_ok env B f'"
    using ssn_ok_get [OF ok f] r(5,6) by (auto simp: queue_ok_def list_all_iff dest: in_set_dropD)
  with ssn_ok_fifo [OF ok r(3,2)] have "ssn_ok env B w'" by simp
  moreover have "frcore_ssn_fifo_post_no_lock env fid flag w = Some w \<or> frcore_ssn_fifo_post_no_lock env fid flag w = Some w'"
    using r(1) f by (auto simp: frcore_ssn_fifo_post_no_lock_def Let_def)
  moreover have "\<exists>n. ssn_queue env f = drop n (ssn_queue env f)" by (rule exI [of _ 0]) simp
  ultimately show ?thesis
    using r ok f outside_fifo_refl [OF f] by auto
qed

text \<open>What a request asks for: the payload is not empty, fits a cell, and is in memory.\<close>

definition req_ok :: "ssn_request \<Rightarrow> bool" where
  "req_ok req \<longleftrightarrow> (case req of Head_req h \<Rightarrow> True
     | Payload_req info payload info_offset payload_offset wqe \<Rightarrow>
         0 < info_payload_len info \<and> unat (info_payload_len info) \<le> FRC_PAYLOAD_LEN_MAX \<and>
         unat (info_payload_len info) \<le> length payload)"

definition req_works :: "ssn_request \<Rightarrow> nat list" where
  "req_works req = (case req of Head_req h \<Rightarrow> [] | Payload_req info payload io po wqe \<Rightarrow> [wqe])"

definition req_descs :: "ssn_request \<Rightarrow> u64 \<Rightarrow> (u64 \<times> dma_item) list" where
  "req_descs req addr = (case req of
     Head_req h \<Rightarrow> [(addr + FRC_DMA_OFFSET, D_head h)]
   | Payload_req info payload io po wqe \<Rightarrow>
       [(addr + ucast po, D_payload (take (unat (info_payload_len info)) payload)), (addr + ucast io, D_info info)])"

lemma store_cell_ok:
  assumes "req_ok req" "cell_ok c"
  shows "\<exists>c' w'. store_cell req addr c w = Some (c', w') \<and> cell_good c' \<and> cell_descs c' = req_descs req addr \<and>
    cell_addrs c' = (case req of Head_req h \<Rightarrow> [addr] | _ \<Rightarrow> []) \<and>
    w' = (if req_works req = [] then w else frcore_work_free (hd (req_works req)) w)"
proof (cases req)
  case (Payload_req info payload io po wqe)
  then show ?thesis
    using assms by (auto simp: store_cell_def req_ok_def cell_ok_def get_slice_def put_slice_def cell_good_def Let_def
        cell_descs_def cell_addrs_def req_works_def req_descs_def)
qed (use assms in \<open>simp add: store_cell_def cell_good_def cell_ok_def cell_descs_def cell_addrs_def req_works_def req_descs_def\<close>)

lemma queue_snoc:
  assumes ok: "sfifo_ok env f" and room: "unat (sf_widx f - sf_ridx f) < FRCORE_CORE_FIFO_NUM env"
    and nowrap: "unat (sf_widx f) + 1 < 2 ^ 64" and c: "cell_ok c"
    and f': "f' = f\<lparr>sf_cells := (sf_cells f)[unat (sf_widx f) mod FRCORE_CORE_FIFO_NUM env := c], sf_widx := sf_widx f + 1\<rparr>"
  shows "sfifo_ok env f'" "ssn_queue env f' = ssn_queue env f @ [c]" "unat (sf_widx f') = Suc (unat (sf_widx f))"
proof -
  let ?r = "unat (sf_ridx f)" and ?l = "unat (sf_widx f - sf_ridx f)" and ?N = "FRCORE_CORE_FIFO_NUM env"
  have le: "sf_ridx f \<le> sf_widx f" using ok by (simp add: sfifo_ok_def)
  have wd: "unat (sf_widx f) = ?r + ?l" using le by (simp add: unat_sub word_le_nat_alt)
  show w1: "unat (sf_widx f') = Suc (unat (sf_widx f))"
    using nowrap by (simp add: f' unat_word_ariths)
  have le1: "sf_ridx f \<le> sf_widx f + 1" using w1 wd by (simp add: f' word_le_nat_alt)
  have len: "unat (sf_widx f' - sf_ridx f') = Suc ?l" using unat_sub [OF le1] w1 wd by (simp add: f')
  have N: "length (sf_cells f) = ?N" "0 < ?N" using ok room by (simp_all add: sfifo_ok_def)
  show "sfifo_ok env f'"
    using ok room le1 len c N by (auto simp: sfifo_ok_def f' list_all_length nth_list_update)
  have old: "fifo_cell_at env f' i = fifo_cell_at env f i" if "i < ?l" for i
  proof -
    have "(?r + i) mod ?N \<noteq> (?r + ?l) mod ?N" using mod_ring_neq [of ?r "?r + i" "?r + ?l" ?N] that room by simp
    then show ?thesis using word_span(1) [OF le, of i] that wd by (simp add: f')
  qed
  have new: "fifo_cell_at env f' ?l = c" using word_span(1) [OF le, of ?l] wd N by (simp add: f')
  show "ssn_queue env f' = ssn_queue env f @ [c]"
    using old new unfolding ssn_queue_def len by (simp add: f')
qed

text \<open>One request: the fifo may be posted first; then the cell is appended and its work item freed, or
  the full fifo refuses it and frees nothing.\<close>

lemma ssn_fifo_add_outcome:
  assumes ok: "ssn_ok env (Suc B) w" and dma: "transfers_recover env" and f: "frcore_ssn_fifo_get fid w = Some f" and req: "req_ok req"
  shows "\<exists>rv w' f' n. frcore_ssn_fifo_add env fid req addr w = Some (rv, w') \<and> ssn_ok env B w' \<and>
    s_exhaust w' = s_exhaust w \<and> s_last_display w' = s_last_display w \<and>
    s_fifos w' = (s_fifos w)[unat (ucast fid :: u8) := f'] \<and>
    (if n < length (ssn_queue env f) - FRCORE_CORE_FIFO_NUM env + 1 \<and> length (ssn_queue env f) - n \<ge> FRCORE_CORE_FIFO_NUM env
     then rv = FRE_NOSPACE \<and> s_freed w' = s_freed w \<and> ssn_queue env f' = drop n (ssn_queue env f)
     else rv = FRE_SUCCESS \<and> s_freed w' = req_works req @ s_freed w \<and>
       (\<exists>c. ssn_queue env f' = drop n (ssn_queue env f) @ [c] \<and> cell_descs c = req_descs req addr \<and>
         cell_addrs c = (case req of Head_req h \<Rightarrow> [addr] | _ \<Rightarrow> [])))"
proof -
  let ?N = "FRCORE_CORE_FIFO_NUM env"
  let ?w0 = "sstat_inc stat_ssn_fifo_lock w"
  obtain w1 f1 n where p: "frcore_ssn_fifo_post_no_lock env fid True ?w0 = Some w1" "ssn_ok env (Suc B) w1" "outside_fifo fid f1 w w1"
      "frcore_ssn_fifo_get fid w1 = Some f1" "sf_widx f1 = sf_widx f" "ssn_queue env f1 = drop n (ssn_queue env f)"
    using post_no_lock_outcome [of env "Suc B" ?w0 fid f True] ok dma f by auto
  have len: "unat (sf_widx f1 - sf_ridx f1) = length (ssn_queue env f) - n" using p(6) ssn_queue_length by (metis length_drop)
  note o1 = ssn_ok_get [OF p(2,4)]
  show ?thesis
  proof (cases "unat (sf_widx f1 - sf_ridx f1) \<ge> ?N")
    case True
    have le: "length (ssn_queue env f) \<le> ?N" using ssn_ok_get(2) [OF ok f] by (simp add: sfifo_ok_def)
    have "0 < ?N" using ok by (simp add: ssn_ok_def smem_ok_def FRCORE_CORE_FIFO_NUM_def)
    then have "n < length (ssn_queue env f) - ?N + 1 \<and> length (ssn_queue env f) - n \<ge> ?N" using True le len by linarith
    moreover have "frcore_ssn_fifo_add env fid req addr w = Some (FRE_NOSPACE, sstat_inc stat_ssn_fifo_unlock (sstat_inc stat_ssn_queue_no_space w1))"
      using p(1,4) True by (simp add: frcore_ssn_fifo_add_def Let_def)
    ultimately show ?thesis using p ssn_ok_mono [OF p(2), of B] by (simp add: outside_fifo_def) blast
  next
    case False
    let ?i = "unat (sf_widx f1) mod ?N"
    have cell: "?i < length (sf_cells f1)" "cell_ok (sf_cells f1 ! ?i)"
      using cell_at [OF o1(2), of w1] p(2) by (simp_all add: ssn_ok_def)
    obtain c w2 where c: "store_cell req addr (sf_cells f1 ! ?i) w1 = Some (c, w2)" "cell_good c" "cell_descs c = req_descs req addr"
        "cell_addrs c = (case req of Head_req h \<Rightarrow> [addr] | _ \<Rightarrow> [])"
        "w2 = (if req_works req = [] then w1 else frcore_work_free (hd (req_works req)) w1)"
      using store_cell_ok [OF req cell(2)] by blast
    define f2 where "f2 = f1\<lparr>sf_cells := (sf_cells f1)[?i := c], sf_widx := sf_widx f1 + 1\<rparr>"
    have "cell_ok c" using c(2) by (simp add: cell_good_def)
    then have q: "sfifo_ok env f2" "ssn_queue env f2 = ssn_queue env f1 @ [c]" "unat (sf_widx f2) = Suc (unat (sf_widx f1))"
      using queue_snoc [OF o1(2) _ _ _ f2_def] False o1(1) by (simp_all add: queue_ok_def)
    have w2: "smem_ok env w2" "s_fifos w2 = s_fifos w1" "s_exhaust w2 = s_exhaust w1" "s_last_display w2 = s_last_display w1"
        "s_freed w2 = req_works req @ s_freed w1"
      using p(2) c(5) by (cases req; simp add: ssn_ok_def frcore_work_free_def req_works_def)+
    have f2': "frcore_ssn_fifo_get fid w2 = Some f1" using p(4) w2(2) by (simp add: frcore_ssn_fifo_get_def)
    have "queue_ok env B f2" using q o1(1) c(2) by (simp add: queue_ok_def)
    then have "ssn_ok env B (set_fifo fid f2 w2)"
      using ssn_ok_mono [OF p(2), of B] set_fifo_ok(1) [OF w2(1) f2' q(1)] w2
      by (auto simp: ssn_ok_def set_fifo_def intro: list_all_update)
    moreover have "frcore_ssn_fifo_add env fid req addr w = Some (FRE_SUCCESS, sstat_inc stat_ssn_fifo_unlock (set_fifo fid f2 w2))"
      using p(1,4) False c(1) cell(1) by (simp add: frcore_ssn_fifo_add_def Let_def f2_def)
    moreover have "\<not> (n < length (ssn_queue env f) - ?N + 1 \<and> length (ssn_queue env f) - n \<ge> ?N)"
      using False len by simp
    ultimately show ?thesis
      using p(3,6) w2 q(2) c(3,4) by (simp add: outside_fifo_def set_fifo_def) blast
  qed
qed

section \<open>A block address\<close>

definition yields_at_most :: "nat \<Rightarrow> (int \<times> u64 list \<times> ssn_world) option \<Rightarrow> bool" where
  "yields_at_most n r \<longleftrightarrow> (\<forall>rv xs w. r = Some (rv, xs, w) \<longrightarrow> length xs \<le> n)"

lemma yields_intros:
  "(\<And>w. yields_at_most n (k w)) \<Longrightarrow> yields_at_most n (sdma env m w k [])"
  "(\<And>w. yields_at_most n (k w)) \<Longrightarrow> yields_at_most n (r \<bind> k)"
  "yields_at_most n p \<Longrightarrow> yields_at_most n q \<Longrightarrow> yields_at_most n (if b then p else q)"
  "yields_at_most n (Some (rv, [], w))"
  by (auto simp: yields_at_most_def sdma_def bind_eq_Some_conv)

lemma yields_commit: "yields_at_most number (savail_commit env ridx number w)"
  unfolding savail_commit_def Let_def
  by (intro yields_intros) (auto simp: yields_at_most_def get_slice_def)

lemma savail_get_length: "frcore_ssn_chan_avail_get env number w = Some (rv, xs, w') \<Longrightarrow> length xs \<le> number"
proof -
  have "yields_at_most number (frcore_ssn_chan_avail_get env number w)"
    unfolding frcore_ssn_chan_avail_get_def Let_def by (intro yields_intros yields_commit)
  then show "frcore_ssn_chan_avail_get env number w = Some (rv, xs, w') \<Longrightarrow> length xs \<le> number"
    by (simp add: yields_at_most_def)
qed

text \<open>Taking an address changes the addresses a fifo holds, not its cells.\<close>

definition queues_same :: "ssn_world \<Rightarrow> ssn_world \<Rightarrow> bool" where
  "queues_same w w' \<longleftrightarrow> s_freed w' = s_freed w \<and> s_exhaust w' = s_exhaust w \<and> s_last_display w' = s_last_display w \<and>
     map (\<lambda>f. (sf_widx f, sf_ridx f, sf_cells f)) (s_fifos w') = map (\<lambda>f. (sf_widx f, sf_ridx f, sf_cells f)) (s_fifos w)"

lemma queues_same_trans: "queues_same u v \<Longrightarrow> queues_same v w \<Longrightarrow> queues_same u w"
  by (simp add: queues_same_def)

lemma queues_same_simps [simp]: "queues_same w w" "queues_same (sstat_add s v w) w' = queues_same w w'" "queues_same w (sstat_add s v w') = queues_same w w'"
  by (simp_all add: queues_same_def)

lemma local_queues: "local_same u w \<Longrightarrow> queues_same u w"
  by (simp add: local_same_def queues_same_def)

lemma set_fifo_queues:
  assumes "frcore_ssn_fifo_get fid w = Some f" "sf_widx f' = sf_widx f" "sf_ridx f' = sf_ridx f" "sf_cells f' = sf_cells f"
  shows "queues_same w (set_fifo fid f' w)"
  using assms by (auto simp: queues_same_def set_fifo_def map_update frcore_ssn_fifo_get_def arr_get_eq_Some intro!: list_update_same_conv [THEN iffD2])

lemma ssn_ok_queues:
  assumes "ssn_ok env B w" "queues_same w w'" "smem_ok env w'"
  shows "ssn_ok env B w'"
proof -
  let ?g = "\<lambda>f. (sf_widx f, sf_ridx f, sf_cells f)"
  have g: "queue_ok env B f = queue_ok env B f'" if "?g f = ?g f'" for f f'
    using that by (simp add: queue_ok_def ssn_queue_def)
  have m: "map ?g (s_fifos w') = map ?g (s_fifos w)" using assms(2) by (simp add: queues_same_def)
  have "queue_ok env B (s_fifos w' ! i)" if i: "i < length (s_fifos w')" for i
  proof -
    have len: "i < length (s_fifos w)" using i arg_cong [OF m, of length] by simp
    have "?g (s_fifos w' ! i) = ?g (s_fifos w ! i)" using arg_cong [OF m, of "\<lambda>xs. xs ! i"] i len by simp
    from g [OF this] show ?thesis using assms(1) len by (simp add: ssn_ok_def list_all_length)
  qed
  then have "list_all (queue_ok env B) (s_fifos w')" by (simp add: list_all_length)
  then show ?thesis using assms by (simp add: ssn_ok_def queues_same_def)
qed

lemma refill_outcome:
  assumes "smem_ok env w" "unat (ucast fid :: u8) < FRC_SSN_FIFO_NUM" "\<forall>n \<in> set ns. 0 < n \<and> n \<le> FRCORE_SSN_AVAIL_BUFF_GET_SIZE"
  shows "\<exists>ok w' f. refill env ns fid w = Some (ok, w') \<and> smem_ok env w' \<and> queues_same w w' \<and>
    frcore_ssn_fifo_get fid w' = Some f \<and> (ok \<longrightarrow> 0 < sf_avail_rdx f)"
  using assms
proof (induction ns arbitrary: w)
  case Nil
  then show ?case using fifo_get_exists [of env w fid] by auto
next
  case (Cons n ns)
  obtain rv xs w1 where a: "frcore_ssn_chan_avail_get env n w = Some (rv, xs, w1)" "smem_ok env w1" "local_same w w1"
    using savail_get_frame [OF Cons.prems(1) local_same_refl, of n] Cons.prems(3) by (auto simp: sframes_def)
  obtain f where f: "frcore_ssn_fifo_get fid w1 = Some f" using fifo_get_exists [OF a(2) Cons.prems(2)] by blast
  note fo = fifo_get_ok(1) [OF a(2) f]
  show ?case
  proof (cases "rv = FRE_SUCCESS")
    case True
    let ?b = "xs @ drop (length xs) (sf_avail_buff f)" and ?x = "of_nat n :: u64"
    let ?f = "f\<lparr>sf_avail_buff := ?b, sf_avail_rdx := ?x\<rparr>"
    have n: "0 < n" "n \<le> 1000" "length xs \<le> 1000" using Cons.prems(3) savail_get_length [OF a(1)] by (auto simp: c_consts)
    then have x: "unat ?x = n" by (simp add: unat_of_nat)
    have fo': "sfifo_ok env ?f" using fo x n by (simp add: sfifo_ok_def c_consts)
    have "refill env (n # ns) fid w = Some (True, set_fifo fid ?f w1)"
      using a(1) f True fo n by (simp add: put_slice_def sfifo_ok_def c_consts)
    moreover have "0 < ?x" using x n(1) by (simp add: word_less_nat_alt)
    moreover have "queues_same w (set_fifo fid ?f w1)"
      using set_fifo_queues [OF f, of ?f] local_queues [OF a(3)] queues_same_trans by simp
    ultimately show ?thesis
      using set_fifo_ok [OF a(2) f fo'] by (intro exI [of _ True] exI [of _ "set_fifo fid ?f w1"] exI [of _ ?f]) (simp del: refill.simps)
  next
    case False
    obtain ok w' f' where "refill env ns fid w1 = Some (ok, w')" "smem_ok env w'" "queues_same w1 w'"
        "frcore_ssn_fifo_get fid w' = Some f'" "ok \<longrightarrow> 0 < sf_avail_rdx f'"
      using Cons.IH [OF a(2) Cons.prems(2)] Cons.prems(3) by auto
    then show ?thesis using a(1) False queues_same_trans [OF local_queues [OF a(3)]] by auto
  qed
qed

lemma get_block_outcome:
  assumes ok: "ssn_ok env B w" and fid: "unat (ucast fid :: u8) < FRC_SSN_FIFO_NUM"
  shows "\<exists>rv a w'. frcore_ssn_get_one_block_addr env fid w = Some (rv, a, w') \<and> ssn_ok env B w' \<and> queues_same w w'"
proof -
  let ?w = "sstat_inc stat_ssn_fifo_lock w"
  have m: "smem_ok env ?w" using ok by (simp add: ssn_ok_def)
  obtain f where f: "frcore_ssn_fifo_get fid ?w = Some f" using fifo_get_exists [OF m fid] by blast
  have ns: "\<forall>n \<in> set [FRCORE_SSN_AVAIL_BUFF_GET_SIZE, 100, 1]. 0 < n \<and> n \<le> FRCORE_SSN_AVAIL_BUFF_GET_SIZE"
    by (simp add: c_consts)
  obtain good w1 f1 where r: "(if sf_avail_rdx f \<le> 0 then refill env [FRCORE_SSN_AVAIL_BUFF_GET_SIZE, 100, 1] fid ?w
        else Some (True, ?w)) = Some (good, w1)" "smem_ok env w1" "queues_same ?w w1"
      "frcore_ssn_fifo_get fid w1 = Some f1" "good \<longrightarrow> 0 < sf_avail_rdx f1"
    proof (atomize_elim, cases "sf_avail_rdx f \<le> 0", goal_cases)
    case 1
    then show ?case using refill_outcome [OF m fid ns] by (simp del: refill.simps)
  next
    case 2
    then show ?case using m f by (auto simp: word_gt_0)
  qed
  note step = frcore_ssn_get_one_block_addr_def Let_def
  show ?thesis
  proof (cases good)
    case False
    then show ?thesis using f r ssn_ok_queues [OF ok, of w1] by (simp add: step)
  next
    case True
    have fo: "sfifo_ok env f1" "0 < sf_avail_rdx f1" using fifo_get_ok(1) [OF r(2,4)] r(5) True by simp_all
    let ?f = "f1\<lparr>sf_avail_rdx := sf_avail_rdx f1 - 1\<rparr>"
    have x: "unat (sf_avail_rdx f1 - 1) = unat (sf_avail_rdx f1) - 1" "0 < unat (sf_avail_rdx f1)"
      using fo(2) unat_sub [of 1 "sf_avail_rdx f1"] by (simp_all add: word_le_nat_alt word_less_nat_alt)
    have i: "unat (sf_avail_rdx f1 - 1) < length (sf_avail_buff f1)" and fo': "sfifo_ok env ?f"
      using fo(1) x by (auto simp: sfifo_ok_def)
    have q: "queues_same w (set_fifo fid ?f w1)" using set_fifo_queues [OF r(4), of ?f] r(3) queues_same_trans by simp
    have "frcore_ssn_get_one_block_addr env fid w = Some (FRE_SUCCESS, sf_avail_buff f1 ! unat (sf_avail_rdx f1 - 1),
        sstat_inc stat_ssn_fifo_unlock (set_fifo fid ?f w1))"
      using f r(1,4) True i by (simp add: step)
    moreover have "ssn_ok env B (set_fifo fid ?f w1)" using ssn_ok_queues [OF ok q] set_fifo_ok(1) [OF r(2,4) fo'] by simp
    ultimately show ?thesis using q by simp
  qed
qed

section \<open>Completed blocks\<close>

lemma sdma_ok: "\<not> dma_fails env (s_dma w) \<Longrightarrow> sdma env n w k none = k (if n = 0 then w else w\<lparr>s_dma := Suc (s_dma w)\<rparr>)"
  by (simp add: sdma_def)

lemma scompl_room:
  assumes "unat (d :: u64) + n \<le> FRC_SSN_RING_SIZE"
  shows "\<not> of_nat FRC_SSN_RING_SIZE - of_nat n < d"
proof -
  have "unat (of_nat FRC_SSN_RING_SIZE - of_nat n :: u64) = FRC_SSN_RING_SIZE - n"
    using assms by (subst unat_sub) (auto simp: word_le_nat_alt unat_of_nat c_consts)
  then show ?thesis using assms by (simp add: word_less_nat_alt)
qed

text \<open>When no transfer fails from here on and the ring has room, the addresses are appended to it.\<close>

lemma scompl_put_ok:
  assumes ok: "smem_ok env w" and n: "length buff \<le> FRCORE_SSN_AVAIL_BUFF_GET_SIZE" and dma: "\<forall>k \<ge> s_dma w. \<not> dma_fails env k"
    and room: "unat (sc_compl_widx (s_chan w) - hs_compl_ridx (s_host w)) + length buff \<le> FRC_SSN_RING_SIZE"
  shows "\<exists>w' ring. frcore_ssn_chan_compl_put env buff w = Some (FRE_SUCCESS, (), w') \<and>
      s_host w' = (s_host w)\<lparr>hs_compl_ring := ring, hs_compl_widx := sc_compl_widx (s_chan w) + of_nat (length buff)\<rparr> \<and>
      sc_compl_widx (s_chan w') = sc_compl_widx (s_chan w) + of_nat (length buff) \<and>
      ring_slice ring (unat (sc_compl_widx (s_chan w))) (length buff) = buff"
proof -
  define off where "off = unat (sc_compl_widx (s_chan w)) mod FRC_SSN_RING_SIZE"
  define len1 where "len1 = min (FRC_SSN_RING_SIZE - off) (length buff)"
  define b where "b = buff @ drop (length buff) (sc_compl_buff (s_chan w))"
  have len: "length (hs_compl_ring (s_host w)) = FRC_SSN_RING_SIZE" "length buff \<le> FRC_SSN_RING_SIZE" "off < FRC_SSN_RING_SIZE"
    using ok n ssn_ring_sizes by (auto simp: smem_ok_def off_def)
  have l: "off + len1 \<le> FRC_SSN_RING_SIZE" "len1 \<le> length buff" "length buff - len1 \<le> FRC_SSN_RING_SIZE"
    using len by (auto simp: len1_def)
  have put: "put_slice (sc_compl_buff (s_chan w)) 0 buff = Some b" using ok n by (simp add: put_slice_def smem_ok_def b_def)
  define ring1 where "ring1 = take off (hs_compl_ring (s_host w)) @ take len1 buff @ drop (off + len1) (hs_compl_ring (s_host w))"
  define ring where "ring = drop len1 buff @ drop (length buff - len1) ring1"
  have slice: "ring_slice ring (unat (sc_compl_widx (s_chan w))) (length buff) = buff"
    unfolding ring_def
    by (rule ring_slice_write [of "hs_compl_ring (s_host w)" FRC_SSN_RING_SIZE]) (use len in \<open>simp_all add: off_def len1_def ring1_def ssn_ring_sizes\<close>)
  have l1: "length ring1 = FRC_SSN_RING_SIZE" using len l by (simp add: ring1_def)
  have c1: "scompl_copy 0 off len1 v = Some (v\<lparr>s_host := (s_host v)\<lparr>hs_compl_ring := ring1\<rparr>\<rparr>)"
    if "sc_compl_buff (s_chan v) = b" "hs_compl_ring (s_host v) = hs_compl_ring (s_host w)" for v
    using that len l by (simp add: scompl_copy_def get_slice_def put_slice_def b_def ring1_def)
  have c2: "scompl_copy len1 0 (length buff - len1) v = Some (v\<lparr>s_host := (s_host v)\<lparr>hs_compl_ring := ring\<rparr>\<rparr>)"
    if "sc_compl_buff (s_chan v) = b" "hs_compl_ring (s_host v) = ring1" for v
    using that l l1 by (simp add: scompl_copy_def get_slice_def put_slice_def b_def ring_def)
  have all: "ring = ring1" if "\<not> len1 < length buff"
    using that l l1 by (simp add: ring_def)
  have "\<And>k. s_dma w \<le> k \<Longrightarrow> \<not> dma_fails env k" using dma by simp
  note quiet = this
  show ?thesis
  proof (cases "len1 < length buff")
    case True
    then show ?thesis using slice
      by (simp add: frcore_ssn_chan_compl_put_def Let_def sdma_ok quiet scompl_room [OF room] put c1 c2 scompl_commit_def
          flip: off_def len1_def) blast
  next
    case False
    then show ?thesis using slice all
      by (simp add: frcore_ssn_chan_compl_put_def Let_def sdma_ok quiet scompl_room [OF room] put c1 scompl_commit_def
          flip: off_def len1_def) blast
  qed
qed

lemma post_round_ok:
  assumes ok: "smem_ok env w" and f: "frcore_ssn_fifo_get fid w = Some f" and q: "ssn_queue env f = q" "list_all cell_good q"
    and dma: "\<forall>k \<ge> s_dma w. \<not> dma_fails env k"
    and room: "unat (sc_compl_widx (s_chan w) - hs_compl_ridx (s_host w)) + length q \<le> FRC_SSN_RING_SIZE"
  shows "\<exists>w'. ssn_post_round env fid (length q) w = Some (True, length q, w') \<and>
    blocks w' = write_items env (concat (map cell_descs q)) (blocks w) \<and>
    ring_slice (hs_compl_ring (s_host w')) (unat (sc_compl_widx (s_chan w))) (length (concat (map cell_addrs q))) = concat (map cell_addrs q) \<and>
    hs_compl_widx (s_host w') = sc_compl_widx (s_chan w) + of_nat (length (concat (map cell_addrs q)))"
proof -
  let ?n = "length q" and ?as = "concat (map cell_addrs q)"
  have fo: "sfifo_ok env f" using fifo_get_ok(1) [OF ok f] .
  have qn: "q = map (fifo_cell_at env f) [0..<?n]" using q(1) by (auto simp: ssn_queue_def)
  have n: "?n \<le> FRCORE_CHAN_POST_LWM env"
    using fo q(1) by (auto simp: sfifo_ok_def FRCORE_CORE_FIFO_NUM_def FRCORE_CHAN_POST_LWM_def)
  have "\<forall>i \<in> set [0..<0 + ?n]. cell_good (fifo_cell_at env f i)" using q(2) by (subst (asm) qn) (auto simp: list_all_iff)
  moreover have "0 < max_ptrs env" using ok by (simp add: smem_ok_def)
  moreover have cc: "concat (map (\<lambda>i. g (fifo_cell_at env f i)) [0..<?n]) = concat (map g q)" for g :: "ssn_fifo_cell \<Rightarrow> 'b list"
    by (subst (2) qn) (simp add: comp_def)
  ultimately obtain w1 where p: "post_cells env f ?n 0 [] [] 0 w = Some (?n, ?as, w1)" "mem_only w w1"
      "blocks w1 = write_items env (concat (map cell_descs q)) (blocks w)"
    using post_cells_ok [OF fo ok, of "[]" ?n 0 "[]" 0] n dma by (auto simp: items_ok_def cc)
  have "length (concat (map cell_addrs xs)) \<le> length xs" for xs
    by (induction xs) (auto simp: cell_addrs_def)
  then have as: "length ?as \<le> ?n" .
  let ?w2 = "sstat_inc stat_ssn_pkt_post w1"
  have m: "smem_ok env ?w2" "s_chan ?w2 = s_chan w" "hs_compl_ridx (s_host ?w2) = hs_compl_ridx (s_host w)"
      "\<forall>k \<ge> s_dma ?w2. \<not> dma_fails env k"
    using mem_only_frame [OF p(2)] ok p(2) dma by (auto simp: mem_only_def)
  have fit: "length ?as \<le> FRCORE_SSN_AVAIL_BUFF_GET_SIZE"
    using as n ok by (simp add: smem_ok_def FRCORE_CORE_FIFO_NUM_def FRCORE_CHAN_POST_LWM_def)
  obtain w3 ring where c: "frcore_ssn_chan_compl_put env ?as ?w2 = Some (FRE_SUCCESS, (), w3)"
      "s_host w3 = (s_host w1)\<lparr>hs_compl_ring := ring, hs_compl_widx := sc_compl_widx (s_chan w) + of_nat (length ?as)\<rparr>"
      "ring_slice ring (unat (sc_compl_widx (s_chan w))) (length ?as) = ?as"
    using scompl_put_ok [OF m(1) fit m(4)] room as m(2,3) by auto
  show ?thesis
    using f p(1,3) c by (simp add: ssn_post_round_def frcore_ssn_chan_post_pkt_def Let_def sget_cycle_def)
qed

text \<open>Completing one block, and completing none.\<close>

lemma scompl_put_one:
  assumes ok: "smem_ok env w" and dma: "\<forall>k \<ge> s_dma w. \<not> dma_fails env k"
    and room: "unat (sc_compl_widx (s_chan w) - hs_compl_ridx (s_host w)) + 1 \<le> FRC_SSN_RING_SIZE"
  shows "\<exists>w'. frcore_ssn_chan_compl_put env [a] w = Some (FRE_SUCCESS, (), w') \<and>
      s_host w' = (s_host w)\<lparr>hs_compl_ring := (hs_compl_ring (s_host w))[unat (sc_compl_widx (s_chan w)) mod FRC_SSN_RING_SIZE := a],
        hs_compl_widx := sc_compl_widx (s_chan w) + 1\<rparr> \<and>
      sc_compl_widx (s_chan w') = sc_compl_widx (s_chan w) + 1"
proof -
  define off where "off = unat (sc_compl_widx (s_chan w)) mod FRC_SSN_RING_SIZE"
  have off: "off < FRC_SSN_RING_SIZE" using ssn_ring_sizes by (simp add: off_def)
  then have len1: "min (FRC_SSN_RING_SIZE - off) (Suc 0) = Suc 0" by simp
  have len: "length (hs_compl_ring (s_host w)) = FRC_SSN_RING_SIZE" "length (sc_compl_buff (s_chan w)) = 1000"
    using ok by (simp_all add: smem_ok_def c_consts)
  have "\<And>k. s_dma w \<le> k \<Longrightarrow> \<not> dma_fails env k" using dma by simp
  note quiet = this
  show ?thesis
    using off len len1 scompl_room [of _ 1, OF room]
    by (simp add: frcore_ssn_chan_compl_put_def Let_def sdma_ok quiet scompl_commit_def scompl_copy_def get_slice_def
        put_slice_def upd_conv_take_nth_drop flip: off_def)
qed

lemma scompl_put_none:
  assumes ok: "smem_ok env w" and dma: "\<forall>k. \<not> dma_fails env k"
    and room: "unat (sc_compl_widx (s_chan w) - hs_compl_ridx (s_host w)) \<le> FRC_SSN_RING_SIZE"
  shows "\<exists>w'. frcore_ssn_chan_compl_put env [] w = Some (FRE_SUCCESS, (), w') \<and>
      sc_compl_widx (s_chan w') = sc_compl_widx (s_chan w) \<and> hs_compl_ridx (s_host w') = hs_compl_ridx (s_host w)"
  using scompl_put_ok [OF ok, of "[]"] dma room by auto

text \<open>A round over a fifo whose only cell is a head, when at most the first transfer fails: the address
  is completed either way, but the cell leaves the fifo only if the transfer succeeded.\<close>

lemma round_head:
  assumes ok: "smem_ok env w" and f: "frcore_ssn_fifo_get fid w = Some f" and q: "ssn_queue env f = [c]" "c_type c = FRC_SSN_DMA_HEAD" "cell_good c"
    and ptrs: "1 < max_ptrs env" and dma: "\<forall>k > s_dma w. \<not> dma_fails env k"
    and room: "unat (sc_compl_widx (s_chan w) - hs_compl_ridx (s_host w)) + 1 \<le> FRC_SSN_RING_SIZE"
  shows "\<exists>w' f'. ssn_post_round env fid 1 w = Some (True, if dma_fails env (s_dma w) then 0 else 1, w') \<and> smem_ok env w' \<and>
    hs_compl_ring (s_host w') = (hs_compl_ring (s_host w))[unat (sc_compl_widx (s_chan w)) mod FRC_SSN_RING_SIZE := c_block_addr c] \<and>
    hs_compl_widx (s_host w') = sc_compl_widx (s_chan w) + 1 \<and> sc_compl_widx (s_chan w') = sc_compl_widx (s_chan w) + 1 \<and>
    hs_compl_ridx (s_host w') = hs_compl_ridx (s_host w) \<and> s_dma w < s_dma w' \<and>
    frcore_ssn_fifo_get fid w' = Some f' \<and> ssn_queue env f' = (if dma_fails env (s_dma w) then [c] else [])"
proof -
  let ?fail = "dma_fails env (s_dma w)"
  let ?d = "(c_block_addr c + FRC_DMA_OFFSET, D_head (c_head c))"
  have fo: "sfifo_ok env f" using fifo_get_ok(1) [OF ok f] .
  have len: "unat (sf_widx f - sf_ridx f) = 1" using arg_cong [OF q(1), of length] by simp
  have c: "fifo_cell_at env f 0 = c" using q(1) len by (simp add: ssn_queue_def)
  have lwm: "1 \<le> FRCORE_CHAN_POST_LWM env" using ptrs by (simp add: FRCORE_CHAN_POST_LWM_def)
  have item: "items_ok env [?d]" using cell_descs_ok [OF q(3) ok] q(2) by (simp add: cell_descs_def)
  obtain w1 where sc: "scatter env [?d] w = (?fail, w1)" "mem_only w w1" "s_dma w1 = Suc (s_dma w)"
    using item ptrs scatter_mem_only [of w env "[?d]"]
    by (auto simp: scatter_def frcore_dma_scatter_def items_ok_def split: if_splits)
  have p: "post_cells env f 1 0 [] [] 0 w = Some (if ?fail then 0 else 1, [c_block_addr c], w1)"
    using cell_at(1) [OF fo ok] c q(2) ptrs lwm sc(1)
    by (simp add: post_cell_def post_head_def push_desc_def)
  obtain st where w2: "(if (if ?fail then 0 else 1 :: nat) < 1 then sstat_add stat_ssn_post_err_pkts (of_nat (1 - (if ?fail then 0 else 1)))
      (sstat_inc stat_ssn_pkt_post_err w1) else sstat_inc stat_ssn_pkt_post w1) = w1\<lparr>s_stat := st\<rparr>"
    by (atomize_elim, cases ?fail) (auto simp: sstat_add_def)
  let ?w2 = "w1\<lparr>s_stat := st\<rparr>"
  have m: "smem_ok env ?w2" "s_chan ?w2 = s_chan w" "hs_compl_ridx (s_host ?w2) = hs_compl_ridx (s_host w)"
      "hs_compl_ring (s_host ?w2) = hs_compl_ring (s_host w)" "\<forall>k \<ge> s_dma ?w2. \<not> dma_fails env k"
    using mem_only_frame [OF sc(2)] ok dma sc(3) by (auto simp: smem_ok_def)
  obtain w3 where w3: "frcore_ssn_chan_compl_put env [c_block_addr c] ?w2 = Some (FRE_SUCCESS, (), w3)"
      "s_host w3 = (s_host ?w2)\<lparr>hs_compl_ring := (hs_compl_ring (s_host w))[unat (sc_compl_widx (s_chan w)) mod FRC_SSN_RING_SIZE := c_block_addr c],
        hs_compl_widx := sc_compl_widx (s_chan w) + 1\<rparr>" "sc_compl_widx (s_chan w3) = sc_compl_widx (s_chan w) + 1"
    using scompl_put_one [OF m(1,5)] room m by auto
  have r: "ssn_post_round env fid 1 w = Some (True, if ?fail then 0 else 1, set_fifo fid (f\<lparr>sf_ridx := sf_ridx f + of_nat (if ?fail then 0 else 1),
      sf_post_cycle := cycles env (s_tick w3)\<rparr>) (w3\<lparr>s_tick := s_tick w3 + 1\<rparr>))"
    unfolding ssn_post_round_def frcore_ssn_chan_post_pkt_def using f p w2 w3(1) by (simp add: Let_def sget_cycle_def del: post_cells.simps One_nat_def)
  obtain w' f' where frame: "ssn_post_round env fid 1 w = Some (True, if ?fail then 0 else 1, w')" "smem_ok env w'" "s_dma w < s_dma w'"
      "frcore_ssn_fifo_get fid w' = Some f'" "ssn_queue env f' = drop (if ?fail then 0 else 1) (ssn_queue env f)"
    using post_round_frame [OF ok f, of 1] len lwm r by auto
  then have "s_host w' = s_host w3" "s_chan w' = s_chan w3" using r by auto
  then show ?thesis using frame w3 m(3) q(1) by auto
qed

lemma post_loop_one:
  "0 < max_ptrs env \<Longrightarrow> ssn_post_loop env fid 1 w = (do { (more, posted, w') \<leftarrow> ssn_post_round env fid 1 w;
     if more then ssn_post_loop env fid (1 - posted) w' else Some w' })"
  by (subst ssn_post_loop.simps) (auto simp: FRCORE_CHAN_POST_LWM_def Let_def)

text \<open>A fifo whose only cell cannot be transferred.\<close>

definition stuck :: "env \<Rightarrow> u32 \<Rightarrow> ssn_world \<Rightarrow> bool" where
  "stuck env fid w \<longleftrightarrow> smem_ok env w \<and> (\<exists>f c. frcore_ssn_fifo_get fid w = Some f \<and> ssn_queue env f = [c] \<and>
     c_type c = FRC_SSN_DMA_PAYLOAD \<and> c_payload_size c = 0) \<and>
     unat (sc_compl_widx (s_chan w) - hs_compl_ridx (s_host w)) \<le> FRC_SSN_RING_SIZE"

lemma stuck_round:
  assumes st: "stuck env fid w" and ptrs: "2 < max_ptrs env" and dma: "\<forall>k. \<not> dma_fails env k"
  shows "\<exists>w'. ssn_post_round env fid 1 w = Some (True, 0, w') \<and> stuck env fid w'"
proof -
  obtain f c where f: "smem_ok env w" "frcore_ssn_fifo_get fid w = Some f" "ssn_queue env f = [c]"
      "c_type c = FRC_SSN_DMA_PAYLOAD" "c_payload_size c = 0" and room: "unat (sc_compl_widx (s_chan w) - hs_compl_ridx (s_host w)) \<le> FRC_SSN_RING_SIZE"
    using st by (auto simp: stuck_def)
  have fo: "sfifo_ok env f" using fifo_get_ok(1) [OF f(1,2)] .
  have len: "unat (sf_widx f - sf_ridx f) = 1" using arg_cong [OF f(3), of length] by simp
  have c: "fifo_cell_at env f 0 = c" using f(3) len by (simp add: ssn_queue_def)
  have "\<exists>w1. post_cells env f 1 0 [] [] 0 w = Some (0, [], w1)"
    using cell_at(1) [OF fo f(1)] c f(4,5) ptrs
    by (simp add: post_cell_def post_payload_def push_desc_def get_slice_def scatter_def frcore_dma_scatter_def item_size_def Let_def)
  then obtain w1 where p: "post_cells env f 1 0 [] [] 0 w = Some (0, [], w1)" "mem_only w w1"
    using post_cells_frame [OF fo f(1), of "[]" 1 0 "[]" 0] ptrs by (auto simp: FRCORE_CHAN_POST_LWM_def)
  let ?w2 = "sstat_add stat_ssn_post_err_pkts 1 (sstat_inc stat_ssn_pkt_post_err w1)"
  have m: "smem_ok env ?w2" "s_chan ?w2 = s_chan w" "hs_compl_ridx (s_host ?w2) = hs_compl_ridx (s_host w)"
    using mem_only_frame [OF p(2)] f(1) by auto
  obtain w3 where w3: "frcore_ssn_chan_compl_put env [] ?w2 = Some (FRE_SUCCESS, (), w3)"
      "sc_compl_widx (s_chan w3) = sc_compl_widx (s_chan w)" "hs_compl_ridx (s_host w3) = hs_compl_ridx (s_host w)"
    using scompl_put_none [OF m(1) dma] room m by auto
  have r: "ssn_post_round env fid 1 w = Some (True, 0, set_fifo fid (f\<lparr>sf_ridx := sf_ridx f + of_nat 0,
      sf_post_cycle := cycles env (s_tick w3)\<rparr>) (w3\<lparr>s_tick := s_tick w3 + 1\<rparr>))"
    using f(2) p(1) w3(1) by (simp add: ssn_post_round_def frcore_ssn_chan_post_pkt_def Let_def sget_cycle_def del: post_cells.simps One_nat_def)
  obtain w' f' where frame: "ssn_post_round env fid 1 w = Some (True, 0, w')" "smem_ok env w'"
      "frcore_ssn_fifo_get fid w' = Some f'" "ssn_queue env f' = ssn_queue env f"
    using post_round_frame [OF f(1,2), of 1] len ptrs r by (auto simp: FRCORE_CHAN_POST_LWM_def)
  moreover from this have "s_host w' = s_host w3" "s_chan w' = s_chan w3" using r by auto
  ultimately show ?thesis using w3 room f by (auto simp: stuck_def)
qed

lemma stuck_loop:
  assumes "2 < max_ptrs env" "\<forall>k. \<not> dma_fails env k" "stuck env fid w"
  shows "ssn_post_loop env fid 1 w = None"
proof -
  have "\<not> (local_num = 1 \<and> env' = env \<and> fid' = fid \<and> stuck env fid v)" if "ssn_post_loop env' fid' local_num v = Some r" for env' fid' local_num v r
    using that
  proof (induction rule: ssn_post_loop.raw_induct [rotated 1, consumes 1])
    case (1 loop env' fid' local_num v r)
    show ?case
    proof
      assume a: "local_num = 1 \<and> env' = env \<and> fid' = fid \<and> stuck env fid v"
      then obtain v' where v': "ssn_post_round env fid 1 v = Some (True, 0, v')" "stuck env fid v'"
        using stuck_round assms(1,2) by blast
      have lwm: "(if 1 < FRCORE_CHAN_POST_LWM env then 1 else FRCORE_CHAN_POST_LWM env) = 1"
        using assms(1) by (simp add: FRCORE_CHAN_POST_LWM_def)
      have e: "local_num = 1" "env' = env" "fid' = fid" using a by simp_all
      have "loop env fid 1 v' = Some r" using 1(2) v'(1) unfolding e Let_def lwm by simp
      with 1(1) [OF this] v'(2) show False by simp
    qed
  qed
  then show ?thesis using assms(3) by (metis not_None_eq)
qed

section \<open>Properties\<close>

text \<open>A channel after set-up: empty fifos, no addresses taken, \<open>length addrs\<close> free blocks at the host.\<close>

definition empty_cell :: ssn_fifo_cell where
  "empty_cell = \<lparr>c_type = FRC_SSN_RESV,
     c_head = \<lparr>hdr_sip = 0, hdr_dip = 0, hdr_sport = 0, hdr_dport = 0, hdr_protocol = 0, hdr_stop_sec = 0,
       hdr_hash = 0, hdr_total_paylen = 0, hdr_pkt_num = 0\<rparr>,
     c_info = \<lparr>info_sequence = 0, info_ack_seq = 0, info_direction = 0, info_payload_len = 0, info_data_offset = 0,
       info_smac = 0, info_dmac = 0\<rparr>,
     c_payload = replicate FRC_PAYLOAD_LEN_MAX 0, c_payload_size = 0, c_block_addr = 0, c_info_offset = 0, c_payload_offset = 0\<rparr>"

definition empty_fifo :: "env \<Rightarrow> ssn_fifo" where
  "empty_fifo env = \<lparr>sf_widx = 0, sf_ridx = 0, sf_post_cycle = 0, sf_wqe = \<lparr>wqe_grp = 0, wqe_type = 0, wqe_fifo_id = 0\<rparr>,
     sf_avail_rdx = 0, sf_avail_buff = replicate FRCORE_SSN_AVAIL_BUFF_GET_SIZE 0,
     sf_cells = replicate (FRCORE_CORE_FIFO_NUM env) empty_cell\<rparr>"

definition ssn_start :: "env \<Rightarrow> u64 list \<Rightarrow> ssn_world" where
  "ssn_start env addrs = \<lparr>
     s_host = \<lparr>hs_avail_widx = of_nat (length addrs), hs_avail_ridx = 0,
       hs_avail_ring = addrs @ replicate (FRC_SSN_RING_SIZE - length addrs) 0,
       hs_compl_widx = 0, hs_compl_ridx = 0, hs_compl_ring = replicate FRC_SSN_RING_SIZE 0, hs_mem = \<lambda>_. 0\<rparr>,
     s_chan = \<lparr>sc_type = 2, sc_avail_addr = 0, sc_compl_addr = 0, sc_avail_widx = 0, sc_avail_ridx = 0,
       sc_compl_widx = 0, sc_compl_ridx = 0, sc_avail_buff = replicate FRCORE_SSN_AVAIL_BUFF_GET_SIZE 0,
       sc_compl_buff = replicate FRCORE_SSN_AVAIL_BUFF_GET_SIZE 0\<rparr>,
     s_fifos = replicate FRC_SSN_FIFO_NUM (empty_fifo env),
     s_exhaust = replicate FRC_DAT_CORE_NUM False, s_last_display = replicate FRC_DAT_CORE_NUM 0,
     s_dma = 0, s_tick = 0, s_stat = \<lambda>_. 0, s_freed = []\<rparr>"

text \<open>The constants of the environment fit the arrays.\<close>

definition env_fits :: "env \<Rightarrow> bool" where
  "env_fits env \<longleftrightarrow> 0 < max_ptrs env \<and> FRCORE_CORE_FIFO_NUM env \<le> FRCORE_SSN_AVAIL_BUFF_GET_SIZE \<and> FRC_PAYLOAD_LEN_MAX \<le> max_buf env"

lemma ssn_start_ok:
  assumes "env_fits env" "length addrs \<le> FRC_SSN_RING_SIZE" "B < 2 ^ 64"
  shows "ssn_ok env B (ssn_start env addrs)"
proof -
  have "sfifo_ok env (empty_fifo env)" by (simp add: sfifo_ok_def empty_fifo_def list_all_iff cell_ok_def empty_cell_def)
  moreover have "queue_ok env B (empty_fifo env)" using assms(3) by (simp add: queue_ok_def empty_fifo_def ssn_queue_def)
  ultimately show ?thesis
    using assms by (simp add: ssn_ok_def smem_ok_def ssn_start_def env_fits_def list_all_iff)
qed

lemma env_fits_examples: "env_fits quiet_env" "env_fits faulty_env" "transfers_recover quiet_env" "transfers_recover faulty_env"
proof -
  show "transfers_recover faulty_env"
    unfolding transfers_recover_def by (rule exI [of _ 4]) (simp add: faulty_env_def)
qed (simp_all add: env_fits_def c_consts transfers_recover_def)

text \<open>
  C25. Posting a session fifo returns as long as only finitely many transfers fail. The queue afterwards is
  what is left of the queue before after removing cells at its front; the other fifos and the list of
  freed work items stay as they were, and every array access is in range.
\<close>

theorem ssn_post_returns:
  assumes "ssn_ok env B w" and "transfers_recover env" and "frcore_ssn_fifo_get fid w = Some f"
  shows "\<exists>w' f' n. frcore_ssn_fifo_post env fid flag w = Some w' \<and> ssn_ok env B w' \<and> outside_fifo fid f' w w' \<and>
    ssn_queue env f' = drop n (ssn_queue env f)"
proof -
  let ?w = "sstat_inc stat_ssn_fifo_lock w"
  obtain w' f' n where "frcore_ssn_fifo_post_no_lock env fid flag ?w = Some w'" "ssn_ok env B w'" "outside_fifo fid f' ?w w'"
      "ssn_queue env f' = drop n (ssn_queue env f)"
    using post_no_lock_outcome [of env B ?w fid f flag] assms by auto
  moreover have "frcore_ssn_fifo_post env fid flag w = map_option (sstat_inc stat_ssn_fifo_unlock) (frcore_ssn_fifo_post_no_lock env fid flag ?w)"
    using assms(3) by (simp add: frcore_ssn_fifo_post_def frcore_ssn_fifo_post_no_lock_def Let_def map_conv_bind_option comp_def)
  ultimately show ?thesis by auto
qed

text \<open>A channel whose first fifo holds one cell.\<close>

definition with_cell :: "env \<Rightarrow> ssn_fifo_cell \<Rightarrow> ssn_world" where
  "with_cell env c = set_fifo 0 ((empty_fifo env)\<lparr>sf_widx := 1, sf_cells := replicate (FRCORE_CORE_FIFO_NUM env) c\<rparr>) (ssn_start env [])"

lemma with_cell_fifo:
  "frcore_ssn_fifo_get 0 (with_cell env c) = Some ((empty_fifo env)\<lparr>sf_widx := 1, sf_cells := replicate (FRCORE_CORE_FIFO_NUM env) c\<rparr>)"
  by (simp add: with_cell_def frcore_ssn_fifo_get_def set_fifo_def ssn_start_def FRC_SSN_FIFO_NUM_def)

lemma with_cell_queue:
  assumes "env_fits env"
  shows "ssn_queue env ((empty_fifo env)\<lparr>sf_widx := 1, sf_cells := replicate (FRCORE_CORE_FIFO_NUM env) c\<rparr>) = [c]"
  using assms by (simp add: ssn_queue_def empty_fifo_def env_fits_def FRCORE_CORE_FIFO_NUM_def)

lemma with_cell_ok:
  assumes "env_fits env" "cell_good c" "B < 2 ^ 64 - 1"
  shows "ssn_ok env B (with_cell env c)"
proof -
  let ?f = "(empty_fifo env)\<lparr>sf_widx := 1, sf_cells := replicate (FRCORE_CORE_FIFO_NUM env) c\<rparr>"
  have 0: "ssn_ok env B (ssn_start env [])" using ssn_start_ok [of env "[]" B] assms by simp
  have get: "frcore_ssn_fifo_get 0 (ssn_start env []) = Some (empty_fifo env)"
    by (simp add: frcore_ssn_fifo_get_def ssn_start_def FRC_SSN_FIFO_NUM_def)
  have f: "sfifo_ok env ?f" "queue_ok env B ?f"
    using assms by (simp_all add: sfifo_ok_def empty_fifo_def list_all_iff cell_good_def env_fits_def FRCORE_CORE_FIFO_NUM_def
        queue_ok_def ssn_queue_def)
  have "outside_fifo 0 ?f (ssn_start env []) (with_cell env c)"
    by (simp add: outside_fifo_def with_cell_def set_fifo_def)
  moreover have "smem_ok env (with_cell env c)"
    using set_fifo_ok(1) [OF _ get f(1)] 0 by (simp add: with_cell_def ssn_ok_def)
  ultimately show ?thesis using ssn_ok_fifo [OF 0 _ _ f(2)] by simp
qed

definition head_cell :: ssn_fifo_cell where
  "head_cell = empty_cell\<lparr>c_type := FRC_SSN_DMA_HEAD, c_block_addr := 4096\<rparr>"

lemma head_cell_good: "cell_good head_cell" "cell_descs head_cell = [(4136, D_head (c_head empty_cell))]" "cell_addrs head_cell = [4096]"
  by (simp_all add: cell_good_def cell_ok_def head_cell_def empty_cell_def cell_descs_def cell_addrs_def FRC_DMA_OFFSET_def)

theorem ssn_post_returns_witness:
  "\<exists>w'. frcore_ssn_fifo_post faulty_env 0 False (with_cell faulty_env head_cell) = Some w' \<and> ssn_ok faulty_env 5 w'"
proof -
  have "ssn_ok faulty_env 5 (with_cell faulty_env head_cell)"
    by (rule with_cell_ok) (simp_all add: env_fits_examples head_cell_good)
  from ssn_post_returns [OF this env_fits_examples(4) with_cell_fifo, of False] show ?thesis by blast
qed

text \<open>
  C26. When no transfer fails and the completed ring has room, one call delivers the whole fifo: the
  header of every head cell and the payload and info of every payload cell are written to their places
  in the blocks, in queue order; the addresses of the head cells, and only those, are appended to the
  completed ring in order, and the host sees the new index.
\<close>

theorem ssn_post_delivers:
  assumes "ssn_ok env B w" and "frcore_ssn_fifo_get fid w = Some f" and "ssn_queue env f = q" "q \<noteq> []"
    and "\<forall>k. \<not> dma_fails env k"
    and "unat (sc_compl_widx (s_chan w) - hs_compl_ridx (s_host w)) + length q \<le> FRC_SSN_RING_SIZE"
  shows "\<exists>w' f'. frcore_ssn_fifo_post env fid False w = Some w' \<and> frcore_ssn_fifo_get fid w' = Some f' \<and> ssn_queue env f' = [] \<and>
    blocks w' = write_items env (concat (map cell_descs q)) (blocks w) \<and>
    ring_slice (hs_compl_ring (s_host w')) (unat (sc_compl_widx (s_chan w))) (length (concat (map cell_addrs q))) = concat (map cell_addrs q) \<and>
    hs_compl_widx (s_host w') = sc_compl_widx (s_chan w) + of_nat (length (concat (map cell_addrs q)))"
proof -
  let ?w = "sstat_inc stat_ssn_fifo_lock w"
  have ok: "smem_ok env ?w" "frcore_ssn_fifo_get fid ?w = Some f" using assms(1,2) by (simp_all add: ssn_ok_def)
  have good: "list_all cell_good q" using ssn_ok_get(1) [OF assms(1,2)] assms(3) by (simp add: queue_ok_def)
  have n: "length q = unat (sf_widx f - sf_ridx f)" using assms(3) by auto
  have lwm: "length q \<le> FRCORE_CHAN_POST_LWM env"
    using ssn_ok_get(2) [OF assms(1,2)] n by (simp add: sfifo_ok_def FRCORE_CORE_FIFO_NUM_def FRCORE_CHAN_POST_LWM_def)
  obtain w1 where r: "ssn_post_round env fid (length q) ?w = Some (True, length q, w1)"
      "blocks w1 = write_items env (concat (map cell_descs q)) (blocks w)"
      "ring_slice (hs_compl_ring (s_host w1)) (unat (sc_compl_widx (s_chan w))) (length (concat (map cell_addrs q))) = concat (map cell_addrs q)"
      "hs_compl_widx (s_host w1) = sc_compl_widx (s_chan w) + of_nat (length (concat (map cell_addrs q)))"
    using post_round_ok [OF ok assms(3) good] assms(5,6) by auto
  obtain f1 where f1: "frcore_ssn_fifo_get fid w1 = Some f1" "ssn_queue env f1 = drop (length q) (ssn_queue env f)"
    using post_round_frame [OF ok, of "length q"] n lwm r(1) by (auto simp: n)
  have "ssn_post_loop env fid 0 v = Some v" for v by (subst ssn_post_loop.simps) simp
  then have loop: "ssn_post_loop env fid (length q) ?w = Some w1"
    using r(1) lwm assms(4) by (subst ssn_post_loop.simps) (cases "length q < FRCORE_CHAN_POST_LWM env"; auto)
  have "frcore_ssn_fifo_post env fid False w = Some (sstat_inc stat_ssn_fifo_unlock w1)"
    using ok(2) loop assms(4) n by (auto simp: frcore_ssn_fifo_post_def Let_def)
  then show ?thesis using r f1 assms(3) by (intro exI [of _ "sstat_inc stat_ssn_fifo_unlock w1"] exI [of _ f1]) simp
qed

theorem ssn_post_delivers_witness:
  "\<exists>w'. frcore_ssn_fifo_post quiet_env 0 False (with_cell quiet_env head_cell) = Some w' \<and>
    ring_slice (hs_compl_ring (s_host w')) 0 1 = [4096]"
proof -
  have ok: "ssn_ok quiet_env 5 (with_cell quiet_env head_cell)"
    by (rule with_cell_ok) (simp_all add: env_fits_examples head_cell_good)
  have w: "sc_compl_widx (s_chan (with_cell quiet_env head_cell)) = 0" "hs_compl_ridx (s_host (with_cell quiet_env head_cell)) = 0"
    by (simp_all add: with_cell_def ssn_start_def)
  show ?thesis
    using ssn_post_delivers [OF ok with_cell_fifo with_cell_queue [OF env_fits_examples(1)]] w
    by (simp add: head_cell_good FRC_SSN_RING_SIZE_def) blast
qed

text \<open>
  A transfer error makes the core return a block twice. When the fifo holds one head cell and its
  transfer fails once, the address is put on the completed ring in the failed round and again in the
  round that succeeds: the host takes the same block from the ring twice, the first time without its
  header.
\<close>

theorem ssn_head_completed_twice:
  assumes "ssn_ok env B w" and "frcore_ssn_fifo_get fid w = Some f" and "ssn_queue env f = [c]" "c_type c = FRC_SSN_DMA_HEAD"
    and "1 < max_ptrs env" and "dma_fails env (s_dma w)" "\<forall>k > s_dma w. \<not> dma_fails env k"
    and "unat (sc_compl_widx (s_chan w)) + 2 \<le> FRC_SSN_RING_SIZE" "hs_compl_ridx (s_host w) = 0"
  shows "\<exists>w'. frcore_ssn_fifo_post env fid False w = Some w' \<and> hs_compl_widx (s_host w') = sc_compl_widx (s_chan w) + 2 \<and>
    ring_slice (hs_compl_ring (s_host w')) (unat (sc_compl_widx (s_chan w))) 2 = [c_block_addr c, c_block_addr c]"
proof -
  let ?w = "sstat_inc stat_ssn_fifo_lock w" and ?x = "sc_compl_widx (s_chan w)" and ?a = "c_block_addr c"
  have ok: "smem_ok env ?w" "frcore_ssn_fifo_get fid ?w = Some f" using assms(1,2) by (simp_all add: ssn_ok_def)
  have good: "cell_good c" using ssn_ok_get(1) [OF assms(1,2)] assms(3) by (simp add: queue_ok_def)
  have x: "unat (?x + 1) = unat ?x + 1" using assms(8) by (simp add: unat_word_ariths c_consts)
  obtain w1 f1 where r1: "ssn_post_round env fid 1 ?w = Some (True, 0, w1)" "smem_ok env w1"
      "hs_compl_ring (s_host w1) = (hs_compl_ring (s_host w))[unat ?x mod FRC_SSN_RING_SIZE := ?a]"
      "sc_compl_widx (s_chan w1) = ?x + 1" "hs_compl_ridx (s_host w1) = 0" "s_dma w < s_dma w1"
      "frcore_ssn_fifo_get fid w1 = Some f1" "ssn_queue env f1 = [c]"
    using round_head [OF ok assms(3,4) good assms(5)] assms(6-9) by auto
  have "\<forall>k > s_dma w1. \<not> dma_fails env k" "\<not> dma_fails env (s_dma w1)" using assms(7) r1(6) by auto
  then obtain w2 where r2: "ssn_post_round env fid 1 w1 = Some (True, 1, w2)"
      "hs_compl_ring (s_host w2) = (hs_compl_ring (s_host w1))[unat (?x + 1) mod FRC_SSN_RING_SIZE := ?a]"
      "hs_compl_widx (s_host w2) = ?x + 1 + 1"
    using round_head [OF r1(2,7,8) assms(4) good assms(5)] assms(8) r1(4,5) x by auto
  have "ssn_post_loop env fid 0 v = Some v" for v by (subst ssn_post_loop.simps) simp
  then have "ssn_post_loop env fid 1 ?w = Some w2"
    using r1(1) r2(1) assms(5) by (simp add: post_loop_one [of env fid] del: One_nat_def)
  moreover have "unat (sf_widx f - sf_ridx f) = 1" using arg_cong [OF assms(3), of length] by simp
  ultimately have "frcore_ssn_fifo_post env fid False w = Some (sstat_inc stat_ssn_fifo_unlock w2)"
    using ok(2) by (simp add: frcore_ssn_fifo_post_def Let_def)
  moreover have "length (hs_compl_ring (s_host w)) = FRC_SSN_RING_SIZE" using ok(1) by (simp add: smem_ok_def)
  then have "ring_slice (hs_compl_ring (s_host w2)) (unat ?x) 2 = [?a, ?a]"
    using r1(3) r2(2) x assms(8) by (simp add: ring_slice_def upt_rec)
  ultimately show ?thesis using r2(3) by simp
qed

theorem ssn_head_completed_twice_witness:
  "\<exists>w'. frcore_ssn_fifo_post (quiet_env\<lparr>dma_fails := \<lambda>k. k = 0\<rparr>) 0 False (with_cell (quiet_env\<lparr>dma_fails := \<lambda>k. k = 0\<rparr>) head_cell) = Some w' \<and>
    ring_slice (hs_compl_ring (s_host w')) 0 2 = [4096, 4096]"
proof -
  let ?env = "quiet_env\<lparr>dma_fails := \<lambda>k. k = 0\<rparr>"
  have fits: "env_fits ?env" by (simp add: env_fits_def FRCORE_CORE_FIFO_NUM_def c_consts)
  have ok: "ssn_ok ?env 5 (with_cell ?env head_cell)" by (rule with_cell_ok [OF fits head_cell_good(1)]) simp
  have w: "sc_compl_widx (s_chan (with_cell ?env head_cell)) = 0" "hs_compl_ridx (s_host (with_cell ?env head_cell)) = 0"
    "s_dma (with_cell ?env head_cell) = 0" "c_type head_cell = FRC_SSN_DMA_HEAD" "c_block_addr head_cell = 4096"
    by (simp_all add: with_cell_def ssn_start_def head_cell_def)
  show ?thesis
    using ssn_head_completed_twice [OF ok with_cell_fifo with_cell_queue [OF fits]] w
    by (simp add: FRC_SSN_RING_SIZE_def) blast
qed



end
