(* ===== verification/TcpFlow.thy ===== *)
theory TcpFlow
  imports Rule SsnChan "HOL-Library.Multiset"
begin

text \<open>
  TCP flow recovery, \<^verbatim>\<open>frcore/frcore_tcpflowrec.c\<close>: the segments of each direction of a session are kept in a
  short queue in sequence order (\<^verbatim>\<open>reass_tcp\<close>), and are submitted to the session channel (theory
  \<open>SsnChan\<close>) when they are acknowledged, when the queue is full, or when the flow ends.

  A \<^verbatim>\<open>LIST\<close> of queue entries is a list. An entry of the pool \<^verbatim>\<open>CVMX_FPA_TCPFLOWREC_POOL\<close> is not an object of
  its own; the state counts the entries that are allocated. The pool, the cycle counter, the DMA engine
  and the number of the core are parameters. A packet buffer is the bytes from the pointer on, so that
  reading past its end is a fault.
\<close>

section \<open>Data\<close>

definition disorder_depth :: u8 where [c_consts]: "disorder_depth = 5"
definition FRCORE_DISORDER_DEPTH_MIN :: u8 where [c_consts]: "FRCORE_DISORDER_DEPTH_MIN = 1"
definition FRCORE_DISORDER_DEPTH_MAX :: u8 where [c_consts]: "FRCORE_DISORDER_DEPTH_MAX = 15"
definition TH_FIN :: u8 where [c_consts]: "TH_FIN = 1"
definition TH_SYN :: u8 where [c_consts]: "TH_SYN = 2"
definition TH_RST :: u8 where [c_consts]: "TH_RST = 4"
definition FRC_SSN_POSIVTE_FLOW :: u8 where [c_consts]: "FRC_SSN_POSIVTE_FLOW = 0"
definition FRC_SSN_NEGATIVE_FLOW :: u8 where [c_consts]: "FRC_SSN_NEGATIVE_FLOW = 1"

record tseg_qent =
  q_seq :: u32
  q_ack_num :: u32
  q_nxt_seq :: u64
  q_work :: nat
  q_data :: "u8 list"
  q_data_len :: u64
  q_direction :: u64

text \<open>\<^verbatim>\<open>rev_flow_data\<close> is null or points to the flow of the other direction.\<close>

record tcp_flow_data =
  rcv_nxt :: u64
  tf_head :: "tseg_qent list"
  tsegqe_len :: u32
  tf_enable :: u32
  tf_rev :: bool

record frc_ssn_submit_addr =
  a_block_addr :: u64
  a_head_offset :: u16
  a_info_offset :: u16
  a_payload_offset :: u16
  a_addr_flag :: u16
  a_payload_len :: u64
  a_pkt_num :: u64

text \<open>The words \<^verbatim>\<open>data_64\<close> of \<^verbatim>\<open>mpp_ssn_key_t\<close>, and the first struct of its union.\<close>

record mpp_ssn_key =
  key0 :: u64
  key1 :: u64
  key2 :: u64
  key3 :: u64

definition key_sip :: "mpp_ssn_key \<Rightarrow> u32" where "key_sip k = ucast (drop_bit 32 (key0 k))"
definition key_dip :: "mpp_ssn_key \<Rightarrow> u32" where "key_dip k = ucast (key0 k)"
definition key_sp :: "mpp_ssn_key \<Rightarrow> u16" where "key_sp k = ucast (drop_bit 48 (key1 k))"
definition key_dp :: "mpp_ssn_key \<Rightarrow> u16" where "key_dp k = ucast (drop_bit 32 (key1 k))"
definition key_proto :: "mpp_ssn_key \<Rightarrow> u8" where "key_proto k = ucast (drop_bit 24 (key1 k))"

text \<open>The second struct of the union: the action is the bits 5 to 8 of the word; the flag \<^verbatim>\<open>tcpflowrec\<close> of
  the first struct is bit 8.\<close>

definition key_action :: "mpp_ssn_key \<Rightarrow> u64" where "key_action k = drop_bit 5 (key1 k) AND 0xf"
definition key_tcpflowrec :: "mpp_ssn_key \<Rightarrow> bool" where "key_tcpflowrec k \<longleftrightarrow> bit (key1 k) 8"
definition set_action :: "u64 \<Rightarrow> mpp_ssn_key \<Rightarrow> mpp_ssn_key" where
  "set_action v k = k\<lparr>key1 := (key1 k AND NOT (push_bit 5 0xf)) OR push_bit 5 (v AND 0xf)\<rparr>"

text \<open>A session entry lies in the table or in the pool \<^verbatim>\<open>CVMX_FPA_SSN_POOL\<close>.\<close>

datatype ssn_ptr = Bucket u32 | Pool nat

record mpp_ssn =
  ssn_key :: mpp_ssn_key
  cont1 :: u64
  cont2 :: u64
  ssn_addr :: frc_ssn_submit_addr
  ssn_pkts :: u32
  ssn_bytes :: u32
  next_sc :: "ssn_ptr option"
  ssn_status :: u32
  ssn_index :: u32
  ssn_ttl :: u32
  ssn_age :: u32
  ssn_seq :: u32
  ssn_ack_seq :: u32
  flow_positive :: tcp_flow_data
  flow_negative :: tcp_flow_data

text \<open>What the code takes from outside the sources, and the state it changes. \<open>fs_depth\<close> is the shared variable
  \<^verbatim>\<open>disorder_depth\<close>, which begins as the constant \<open>disorder_depth\<close> and which a command changes.\<close>

record sys =
  sys_env :: env
  sys_core :: nat
  sys_te_alloc :: "nat \<Rightarrow> bool"

record flow_state =
  fs_world :: ssn_world
  fs_te_req :: nat
  fs_te_live :: nat
  fs_depth :: u8

text \<open>The command handler of \<^verbatim>\<open>frcore/frcore_fr.c\<close>.\<close>

definition frcore_cmd_set_disorder_depth :: "u8 \<Rightarrow> flow_state \<Rightarrow> int \<times> flow_state" where
  "frcore_cmd_set_disorder_depth depth s =
     (if depth < FRCORE_DISORDER_DEPTH_MIN \<or> depth > FRCORE_DISORDER_DEPTH_MAX then (FRE_EXCEED, s)
      else (FRE_SUCCESS, s\<lparr>fs_depth := depth\<rparr>))"

abbreviation fstat_inc :: "ssn_stat \<Rightarrow> flow_state \<Rightarrow> flow_state" where
  "fstat_inc x s \<equiv> s\<lparr>fs_world := sstat_inc x (fs_world s)\<rparr>"

abbreviation fwork_free :: "nat \<Rightarrow> flow_state \<Rightarrow> flow_state" where
  "fwork_free work s \<equiv> s\<lparr>fs_world := frcore_work_free work (fs_world s)\<rparr>"

definition te_free :: "flow_state \<Rightarrow> flow_state" where
  "te_free s = s\<lparr>fs_te_live := fs_te_live s - 1\<rparr>"

definition te_alloc :: "sys \<Rightarrow> flow_state \<Rightarrow> bool \<times> flow_state" where
  "te_alloc sys s =
     (let ok = sys_te_alloc sys (fs_te_req s)
      in (ok, s\<lparr>fs_te_req := fs_te_req s + 1, fs_te_live := (if ok then fs_te_live s + 1 else fs_te_live s)\<rparr>))"

definition get_flow :: "u8 \<Rightarrow> mpp_ssn \<Rightarrow> tcp_flow_data" where
  "get_flow direction ssn = (if direction = FRC_SSN_POSIVTE_FLOW then flow_positive ssn else flow_negative ssn)"

definition set_flow :: "u8 \<Rightarrow> tcp_flow_data \<Rightarrow> mpp_ssn \<Rightarrow> mpp_ssn" where
  "set_flow direction f ssn =
     (if direction = FRC_SSN_POSIVTE_FLOW then ssn\<lparr>flow_positive := f\<rparr> else ssn\<lparr>flow_negative := f\<rparr>)"

text \<open>The conversion of a 64-bit value to \<^verbatim>\<open>int\<close>, and the comparison of sequence numbers.\<close>

definition to_int :: "u64 \<Rightarrow> int" where
  "to_int x = sint (ucast x :: u32)"

definition SEQ_GT :: "u64 \<Rightarrow> u64 \<Rightarrow> bool" where
  "SEQ_GT a b \<longleftrightarrow> to_int (a - b) > 0"

section \<open>Submitting a segment\<close>

definition fresh_addr :: "u64 \<Rightarrow> frc_ssn_submit_addr \<Rightarrow> frc_ssn_submit_addr" where
  "fresh_addr block_addr a = a\<lparr>a_block_addr := block_addr, a_head_offset := 40,
     a_payload_offset := of_nat (40 + sizeof_hdr), a_info_offset := of_nat (FRC_DMA_SSN_BLOCK_SIZE - sizeof_info),
     a_payload_len := 0, a_pkt_num := 0, a_addr_flag := 1\<rparr>"

definition request_block :: "sys \<Rightarrow> frc_ssn_submit_addr \<Rightarrow> u32 \<Rightarrow> ssn_world \<Rightarrow> (int \<times> frc_ssn_submit_addr \<times> ssn_world) option" where
  "request_block sys a fifo_id w = do {
     (rv, block_addr, w) \<leftarrow> frcore_ssn_get_one_block_addr (sys_env sys) fifo_id w;
     if rv \<noteq> 0 then do {
       ex \<leftarrow> arr_set (s_exhaust w) (sys_core sys) True;
       let (now, w) = sget_cycle (sys_env sys) w;
       ld \<leftarrow> arr_set (s_last_display w) (sys_core sys) now;
       Some (FRE_NOSPACE, a, w\<lparr>s_exhaust := ex, s_last_display := ld\<rparr>)
     } else do {
       ex \<leftarrow> arr_set (s_exhaust w) (sys_core sys) False;
       Some (FRE_SUCCESS, fresh_addr block_addr a, w\<lparr>s_exhaust := ex\<rparr>)
     }
   }"

definition check_ssn_addr :: "sys \<Rightarrow> frc_ssn_submit_addr \<Rightarrow> u32 \<Rightarrow> ssn_world \<Rightarrow> (int \<times> frc_ssn_submit_addr \<times> ssn_world) option" where
  "check_ssn_addr sys a fifo_id w =
     (if a_addr_flag a = 0 then do {
        ex \<leftarrow> arr_get (s_exhaust w) (sys_core sys);
        if ex then do {
          let (now, w) = sget_cycle (sys_env sys) w;
          last \<leftarrow> arr_get (s_last_display w) (sys_core sys);
          if now - last < cpu_freq (sys_env sys) div DMA_CHANNEL_REST_DIV then Some (FRE_NOSPACE, a, w)
          else request_block sys a fifo_id w
        } else request_block sys a fifo_id w
      } else Some (FRE_SUCCESS, a, w))"

text \<open>The counters for 1 to 5 and more packets follow \<open>stat_ssn_dma_blocks\<close> in the enumeration.\<close>

definition stat_ssn_block :: "u64 \<Rightarrow> ssn_world \<Rightarrow> ssn_world" where
  "stat_ssn_block pkts w =
     (let index = (if pkts \<le> 5 then to_int (pkts - 1) else 5) in
      sstat_inc stat_ssn_dma_blocks
        (sstat_inc (if index = -1 then stat_ssn_dma_blocks else stat_ssn_npacket_blocks (nat index)) w))"

definition block_hdr :: "mpp_ssn \<Rightarrow> ssn_hdr" where
  "block_hdr ssn = \<lparr>hdr_sip = key_sip (ssn_key ssn), hdr_dip = key_dip (ssn_key ssn),
     hdr_sport = key_sp (ssn_key ssn), hdr_dport = key_dp (ssn_key ssn), hdr_protocol = ucast (key_proto (ssn_key ssn)),
     hdr_stop_sec = 0, hdr_hash = ssn_index ssn, hdr_total_paylen = ucast (a_payload_len (ssn_addr ssn)),
     hdr_pkt_num = ucast (a_pkt_num (ssn_addr ssn))\<rparr>"

text \<open>The lines both functions have: the head of the block is submitted, the block counted.\<close>

definition submit_head :: "sys \<Rightarrow> mpp_ssn \<Rightarrow> ssn_world \<Rightarrow> (int \<times> ssn_world) option" where
  "submit_head sys ssn w = do {
     let hdr = block_hdr ssn;
     (rv, w) \<leftarrow> frcore_forward_ssn_pkt_to_fifo (sys_env sys) (ssn_index ssn) (Head_req hdr) (a_block_addr (ssn_addr ssn)) w;
     if rv \<noteq> 0 then Some (rv, sstat_inc stat_ssn_dma_head_fail w)
     else Some (0, stat_ssn_block (ucast (hdr_pkt_num hdr)) w)
   }"

definition clear_flag :: "mpp_ssn \<Rightarrow> mpp_ssn" where
  "clear_flag ssn = ssn\<lparr>ssn_addr := (ssn_addr ssn)\<lparr>a_addr_flag := 0\<rparr>\<rparr>"

definition sbumit_dma_header_to_fifo :: "sys \<Rightarrow> mpp_ssn \<Rightarrow> ssn_world \<Rightarrow> (int \<times> mpp_ssn \<times> ssn_world) option" where
  "sbumit_dma_header_to_fifo sys ssn w =
     (if a_addr_flag (ssn_addr ssn) \<noteq> 0 then do {
        (rv, w) \<leftarrow> submit_head sys ssn w;
        if rv \<noteq> 0 then Some (rv, ssn, w) else Some (FRE_SUCCESS, clear_flag ssn, w)
      } else Some (FRE_SUCCESS, ssn, w))"

definition mac_mask :: u64 where "mac_mask = 0xffffffffffff"

definition seg_info :: "tseg_qent \<Rightarrow> mpp_ssn \<Rightarrow> ssn_info" where
  "seg_info q ssn = (let direction = ucast (q_direction q) :: u16 in
     \<lparr>info_sequence = q_seq q, info_ack_seq = q_ack_num q, info_direction = direction,
      info_payload_len = ucast (q_data_len q), info_data_offset = ucast (a_payload_len (ssn_addr ssn)),
      info_smac = (if direction = 0 then cont1 ssn else cont2 ssn) AND mac_mask,
      info_dmac = (if direction = 0 then cont2 ssn else cont1 ssn) AND mac_mask\<rparr>)"

definition advance_addr :: "u64 \<Rightarrow> frc_ssn_submit_addr \<Rightarrow> frc_ssn_submit_addr" where
  "advance_addr data_len a = a\<lparr>a_info_offset := a_info_offset a - of_nat sizeof_info,
     a_payload_offset := a_payload_offset a + ucast data_len, a_payload_len := a_payload_len a + data_len,
     a_pkt_num := a_pkt_num a + 1\<rparr>"

text \<open>From the line \<^verbatim>\<open>go on and submit pkt and info_pkt\<close> on.\<close>

definition submit_payload :: "sys \<Rightarrow> tseg_qent \<Rightarrow> mpp_ssn \<Rightarrow> ssn_world \<Rightarrow> (int \<times> mpp_ssn \<times> ssn_world) option" where
  "submit_payload sys q ssn w = do {
     let a = ssn_addr ssn;
     (rv, w) \<leftarrow> frcore_forward_ssn_pkt_to_fifo (sys_env sys) (ssn_index ssn)
                 (Payload_req (seg_info q ssn) (q_data q) (a_info_offset a) (a_payload_offset a) (q_work q)) (a_block_addr a) w;
     if rv \<noteq> 0 then Some (rv, ssn, frcore_work_free (q_work q) w)
     else Some (FRE_SUCCESS, ssn\<lparr>ssn_addr := advance_addr (q_data_len q) a\<rparr>, w)
   }"

definition sbumit_data_to_fifo :: "sys \<Rightarrow> tseg_qent \<Rightarrow> mpp_ssn \<Rightarrow> ssn_world \<Rightarrow> (int \<times> mpp_ssn \<times> ssn_world) option" where
  "sbumit_data_to_fifo sys current ssn w = do {
     let wqe = q_work current;
     let fifo_id = ssn_index ssn mod of_nat FRC_SSN_FIFO_NUM;
     (rv, a, w) \<leftarrow> check_ssn_addr sys (ssn_addr ssn) fifo_id w;
     let ssn = ssn\<lparr>ssn_addr := a\<rparr>;
     if rv \<noteq> 0 then Some (rv, ssn, frcore_work_free wqe w)
     else if ucast (a_payload_offset a) + q_data_len current > ucast (a_info_offset a) then do {
       (rv, w) \<leftarrow> submit_head sys ssn w;
       if rv \<noteq> 0 then Some (rv, ssn, frcore_work_free wqe w)
       else do {
         let ssn = clear_flag ssn;
         (rv, a, w) \<leftarrow> check_ssn_addr sys (ssn_addr ssn) fifo_id w;
         let ssn = ssn\<lparr>ssn_addr := a\<rparr>;
         if rv \<noteq> 0 then Some (rv, ssn, frcore_work_free wqe w)
         else submit_payload sys current ssn w
       }
     } else submit_payload sys current ssn w
   }"

section \<open>Sending segments of a queue\<close>

text \<open>\<^verbatim>\<open>__send_packet\<close> on the first entry \<open>q\<close> of a flow; \<open>qs\<close> are the entries after it.\<close>

definition send_packet :: "sys \<Rightarrow> u8 \<Rightarrow> tseg_qent \<Rightarrow> tseg_qent list \<Rightarrow> mpp_ssn \<Rightarrow> flow_state \<Rightarrow> (mpp_ssn \<times> flow_state) option" where
  "send_packet sys direction q qs ssn s = do {
     let f = get_flow direction ssn;
     let ssn = set_flow direction (f\<lparr>tf_head := qs, tsegqe_len := tsegqe_len f - 1\<rparr>) ssn;
     (rv, ssn, w) \<leftarrow> sbumit_data_to_fifo sys q ssn (fs_world s);
     Some (ssn, te_free (s\<lparr>fs_world := w\<rparr>))
   }"

fun flush_loop :: "sys \<Rightarrow> u8 \<Rightarrow> tseg_qent list \<Rightarrow> mpp_ssn \<Rightarrow> flow_state \<Rightarrow> (mpp_ssn \<times> flow_state) option" where
  "flush_loop sys direction [] ssn s = Some (ssn, s)"
| "flush_loop sys direction (q # qs) ssn s = do {
     (ssn, s) \<leftarrow> send_packet sys direction q qs ssn s;
     flush_loop sys direction qs ssn s
   }"

definition tcp_flow_flush :: "sys \<Rightarrow> u8 \<Rightarrow> mpp_ssn \<Rightarrow> flow_state \<Rightarrow> (mpp_ssn \<times> flow_state) option" where
  "tcp_flow_flush sys direction ssn s = do {
     (ssn, s) \<leftarrow> flush_loop sys direction (tf_head (get_flow direction ssn)) ssn s;
     Some (set_flow direction ((get_flow direction ssn)\<lparr>rcv_nxt := 0, tsegqe_len := 0, tf_head := []\<rparr>) ssn, s)
   }"

definition flush_reset :: "sys \<Rightarrow> u8 \<Rightarrow> mpp_ssn \<Rightarrow> flow_state \<Rightarrow> (mpp_ssn \<times> flow_state) option" where
  "flush_reset sys direction ssn s = do {
     (ssn, s) \<leftarrow> flush_loop sys direction (tf_head (get_flow direction ssn)) ssn s;
     Some (set_flow direction ((get_flow direction ssn)\<lparr>tf_enable := 1, rcv_nxt := 0, tsegqe_len := 0, tf_head := [], tf_rev := False\<rparr>) ssn, s)
   }"

definition tcp_flow_flush_lock :: "sys \<Rightarrow> mpp_ssn \<Rightarrow> flow_state \<Rightarrow> (mpp_ssn \<times> flow_state) option" where
  "tcp_flow_flush_lock sys ssn s = do {
     (ssn, s) \<leftarrow> flush_reset sys FRC_SSN_POSIVTE_FLOW ssn s;
     flush_reset sys FRC_SSN_NEGATIVE_FLOW ssn s
   }"

text \<open>The first loop of \<^verbatim>\<open>send_reverse_tcpflow\<close>, and the loop that advances \<^verbatim>\<open>rcv_nxt\<close> over the queue.\<close>

fun ack_loop :: "sys \<Rightarrow> u8 \<Rightarrow> tseg_qent list \<Rightarrow> mpp_ssn \<Rightarrow> flow_state \<Rightarrow> (mpp_ssn \<times> flow_state) option" where
  "ack_loop sys direction [] ssn s = Some (ssn, s)"
| "ack_loop sys direction (q # qs) ssn s =
     (let f = get_flow direction ssn in
      if q_nxt_seq q \<le> rcv_nxt f then do {
        (ssn, s) \<leftarrow> send_packet sys direction q qs ssn s;
        ack_loop sys direction qs ssn s
      } else Some (set_flow direction (f\<lparr>rcv_nxt := ucast (q_seq q)\<rparr>) ssn, s))"

fun advance_all :: "tseg_qent list \<Rightarrow> u64 \<Rightarrow> u64" where
  "advance_all [] nxt = nxt"
| "advance_all (q # qs) nxt =
     advance_all qs (if ucast (q_seq q) = nxt \<and> SEQ_GT (q_nxt_seq q) nxt then q_nxt_seq q else nxt)"

definition send_reverse_tcpflow :: "sys \<Rightarrow> u8 \<Rightarrow> mpp_ssn \<Rightarrow> u64 \<Rightarrow> flow_state \<Rightarrow> (mpp_ssn \<times> flow_state) option" where
  "send_reverse_tcpflow sys direction ssn ack_num s =
     (if to_int (ack_num - rcv_nxt (get_flow direction ssn)) = 0 then do {
        (ssn, s) \<leftarrow> ack_loop sys direction (tf_head (get_flow direction ssn)) ssn s;
        let f = get_flow direction ssn;
        if tf_head f = []
        then Some (set_flow direction (f\<lparr>rcv_nxt := 0, tsegqe_len := 0, tf_head := []\<rparr>) ssn, s)
        else Some (set_flow direction (f\<lparr>rcv_nxt := advance_all (tf_head f) (rcv_nxt f)\<rparr>) ssn, s)
      } else tcp_flow_flush sys direction ssn s)"

definition frcore_remove_chain_by_timer :: "mpp_ssn \<Rightarrow> mpp_ssn" where
  "frcore_remove_chain_by_timer ssn = (if ssn_ttl ssn \<noteq> 0 then ssn\<lparr>ssn_ttl := 0\<rparr> else ssn)"

section \<open>Reassembly\<close>

text \<open>\<^verbatim>\<open>LIST_FOREACH\<close> up to the first segment that begins after \<open>sequence\<close>: the entries before it (the last of
  them is \<^verbatim>\<open>p\<close>) and the rest (its first is \<^verbatim>\<open>q\<close>).\<close>

definition seg_before :: "u64 \<Rightarrow> tseg_qent \<Rightarrow> bool" where
  "seg_before sequence q \<longleftrightarrow> \<not> SEQ_GT (ucast (q_seq q)) sequence"

text \<open>The loop over the following segments: those removed, those that stay, and whether one was trimmed.\<close>

fun trim_following :: "u64 \<Rightarrow> tseg_qent list \<Rightarrow> tseg_qent list \<times> tseg_qent list \<times> bool" where
  "trim_following end_seq [] = ([], [], False)"
| "trim_following end_seq (q # qs) =
     (let i = to_int (end_seq - ucast (q_seq q)) in
      if i \<le> 0 then ([], q # qs, False)
      else if i < to_int (q_data_len q)
      then ([], q\<lparr>q_seq := q_seq q + of_int i, q_data := drop (nat i) (q_data q), q_data_len := q_data_len q - of_int i\<rparr> # qs, True)
      else let (removed, rest, t) = trim_following end_seq qs in (q # removed, rest, t))"

definition free_removed :: "tseg_qent list \<Rightarrow> flow_state \<Rightarrow> flow_state" where
  "free_removed removed s = fold (\<lambda>q s. fstat_inc stat_tcpflowrec_dup_remove (te_free (fwork_free (q_work q) s))) removed s"

text \<open>The loop \<^verbatim>\<open>while (q)\<close> that follows an in-order segment.\<close>

fun advance_following :: "tseg_qent list \<Rightarrow> u64 \<Rightarrow> u64" where
  "advance_following [] nxt = nxt"
| "advance_following (q # qs) nxt =
     (if ucast (q_seq q) = nxt
      then advance_following qs (if SEQ_GT (q_nxt_seq q) nxt then q_nxt_seq q else nxt)
      else nxt)"

text \<open>A segment that is being queued.\<close>

record segment =
  g_work :: nat
  g_seq :: u64
  g_ack :: u64
  g_data :: "u8 list"
  g_len :: u64

text \<open>From \<^verbatim>\<open>if SYN, drop it\<close> on; \<open>before\<close> and \<open>rest\<close> are the two parts of the queue.\<close>

definition place_segment :: "sys \<Rightarrow> u8 \<Rightarrow> u8 \<Rightarrow> segment \<Rightarrow> u64 \<Rightarrow> tseg_qent list \<Rightarrow> tseg_qent list \<Rightarrow> tcp_flow_data \<Rightarrow> mpp_ssn \<Rightarrow> flow_state \<Rightarrow>
    (mpp_ssn \<times> flow_state) option" where
  "place_segment sys direction th_flags g nxt_seq before rest f ssn s =
     (if th_flags AND TH_SYN \<noteq> 0
      then Some (set_flow direction f ssn, fstat_inc stat_ssn_drop (te_free (fwork_free (g_work g) s)))
      else let te = \<lparr>q_seq = ucast (g_seq g), q_ack_num = ucast (g_ack g), q_nxt_seq = nxt_seq, q_work = g_work g,
                     q_data = g_data g, q_data_len = g_len g, q_direction = ucast direction\<rparr>;
               f = f\<lparr>tf_head := before @ te # rest, tsegqe_len := tsegqe_len f + 1\<rparr>
           in if tsegqe_len f \<ge> ucast (fs_depth s) \<or> th_flags AND (TH_FIN OR TH_RST) \<noteq> 0
              then tcp_flow_flush sys direction (set_flow direction f ssn) s
              else if g_seq g = rcv_nxt f
              then let nxt = (if SEQ_GT nxt_seq (rcv_nxt f) then nxt_seq else rcv_nxt f)
                   in Some (set_flow direction (f\<lparr>rcv_nxt := advance_following rest nxt\<rparr>) ssn, s)
              else Some (set_flow direction f ssn, s))"

text \<open>From \<^verbatim>\<open>While we overlap succeeding segments\<close> on.\<close>

definition insert_segment :: "sys \<Rightarrow> u8 \<Rightarrow> u8 \<Rightarrow> segment \<Rightarrow> tseg_qent list \<Rightarrow> tseg_qent list \<Rightarrow> mpp_ssn \<Rightarrow> flow_state \<Rightarrow>
    (mpp_ssn \<times> flow_state) option" where
  "insert_segment sys direction th_flags g before after ssn s =
     (let (removed, rest, trimmed) = trim_following (g_seq g + g_len g) after;
          s = free_removed removed s;
          s = (if trimmed then fstat_inc stat_tcpflowrec_part_retrans s else s);
          f = get_flow direction ssn;
          f = f\<lparr>tf_head := before @ rest, tsegqe_len := tsegqe_len f - of_nat (length removed)\<rparr>;
          nxt_seq = g_seq g + g_len g + (if th_flags AND TH_SYN \<noteq> 0 then 1 else 0);
          f = (if tf_head f = [] then f\<lparr>rcv_nxt := nxt_seq\<rparr> else f)
      in place_segment sys direction th_flags g nxt_seq before rest f ssn s)"

text \<open>A preceding segment \<open>p\<close> may provide some of the data, all of it, or end exactly where the new one
  ends, in which case the code replaces it.\<close>

definition queue_segment :: "sys \<Rightarrow> u8 \<Rightarrow> u8 \<Rightarrow> segment \<Rightarrow> mpp_ssn \<Rightarrow> flow_state \<Rightarrow> (mpp_ssn \<times> flow_state) option" where
  "queue_segment sys direction th_flags g ssn s =
     (let f = get_flow direction ssn;
          before = takeWhile (seg_before (g_seq g)) (tf_head f);
          after = dropWhile (seg_before (g_seq g)) (tf_head f)
      in if before = [] then insert_segment sys direction th_flags g before after ssn s
      else let p = last before;
               i = to_int (ucast (q_seq p) + q_data_len p - g_seq g)
           in if g_seq g - ucast (q_seq p) > 65536
              then Some (ssn, fstat_inc stat_ssn_drop (te_free (fwork_free (g_work g) s)))
              else if i > 0 then
                if i > to_int (g_len g)
                then Some (ssn, fstat_inc stat_tcpflowrec_dup_remove (te_free (fwork_free (g_work g) s)))
                else if i = to_int (g_len g)
                then let p' = p\<lparr>q_work := g_work g, q_seq := ucast (g_seq g), q_ack_num := ucast (g_ack g), q_data := g_data g, q_data_len := g_len g\<rparr>
                     in Some (set_flow direction (f\<lparr>tf_head := butlast before @ p' # after\<rparr>) ssn,
                          fstat_inc stat_tcpflowrec_retrans_drop (fstat_inc stat_tcpflowrec_retrans (fwork_free (q_work p) (te_free s))))
                else insert_segment sys direction th_flags
                       (g\<lparr>g_data := drop (nat i) (g_data g), g_seq := g_seq g + of_int i, g_len := g_len g - of_int i\<rparr>)
                       before after ssn (fstat_inc stat_tcpflowrec_part_retrans s)
              else insert_segment sys direction th_flags g before after ssn s)"

definition reverse :: "u8 \<Rightarrow> u8" where
  "reverse direction = (if direction = FRC_SSN_POSIVTE_FLOW then FRC_SSN_NEGATIVE_FLOW else FRC_SSN_POSIVTE_FLOW)"

definition reass_tcp :: "sys \<Rightarrow> u8 \<Rightarrow> u8 \<Rightarrow> segment \<Rightarrow> mpp_ssn \<Rightarrow> flow_state \<Rightarrow> (mpp_ssn \<times> flow_state) option" where
  "reass_tcp sys direction th_flags g ssn s =
     (let first_seq = (if direction = FRC_SSN_POSIVTE_FLOW then ssn_seq ssn else ssn_ack_seq ssn)
      in if g_seq g < ucast first_seq then Some (ssn, fstat_inc stat_ssn_drop (fwork_free (g_work g) s))
      else do {
        (ssn, s) \<leftarrow> (if tf_rev (get_flow direction ssn) \<and> tf_head (get_flow (reverse direction) ssn) \<noteq> []
                     then send_reverse_tcpflow sys (reverse direction) ssn (g_ack g) s else Some (ssn, s));
        if th_flags AND (TH_FIN OR TH_RST) \<noteq> 0 then do {
          (ssn, s) \<leftarrow> tcp_flow_flush sys direction ssn (fstat_inc stat_ssn_drop (fwork_free (g_work g) s));
          Some (frcore_remove_chain_by_timer ssn, s)
        }
        else if tsegqe_len (get_flow direction ssn) \<ge> ucast (fs_depth s)
        then Some (ssn, fstat_inc stat_tcpflowrec_queue_overflow (fwork_free (g_work g) s))
        else let (ok, s) = te_alloc sys s in
          if \<not> ok then Some (ssn, fstat_inc stat_tcpflowrec_mem_failed (fwork_free (g_work g) s))
          else queue_segment sys direction th_flags g ssn s
      })"

text \<open>\<open>ip\<close> is the packet memory from the IP header on.\<close>

definition tcp_flow_recovery :: "sys \<Rightarrow> nat \<Rightarrow> u16 \<Rightarrow> u8 list \<Rightarrow> u8 \<Rightarrow> mpp_ssn \<Rightarrow> flow_state \<Rightarrow> (mpp_ssn \<times> flow_state) option" where
  "tcp_flow_recovery sys work len ip direction ssn s = do {
     protocol \<leftarrow> UP8 ip 9;
     if protocol = PROTO_TCP then do {
       ihl \<leftarrow> ip_ihl ip 0;
       let th = ihl * 4;
       th_flags \<leftarrow> UP8 ip (th + 13);
       doff \<leftarrow> tcp_doff ip th;
       tot_len \<leftarrow> UP16 ip 2;
       let ssn = ssn\<lparr>ssn_pkts := ssn_pkts ssn + 1, ssn_bytes := ssn_bytes ssn + ucast len\<rparr>;
       let data_len = int (unat tot_len) - int ((ihl + doff) * 4);
       if data_len = 0 \<and> th_flags AND (TH_SYN OR TH_FIN OR TH_RST) = 0
       then Some (ssn, fstat_inc stat_ssn_drop (fwork_free work s))
       else do {
         seq \<leftarrow> UP32 ip (th + 4);
         ack \<leftarrow> UP32 ip (th + 8);
         reass_tcp sys direction th_flags \<lparr>g_work = work, g_seq = ucast seq, g_ack = ucast ack,
           g_data = drop (th + doff * 4) ip, g_len = of_int data_len\<rparr> ssn s
       }
     } else Some (ssn, fstat_inc stat_ssn_drop (fwork_free work s))
   }"

section \<open>Submitting keeps the channel and the block\<close>

text \<open>The layout of a block that is being filled: header of 40 bytes after 40 reserved bytes, payloads
  upwards, infos of 32 bytes downwards from the end, and room for one more info.\<close>

definition block_layout :: "frc_ssn_submit_addr \<Rightarrow> bool" where
  "block_layout a \<longleftrightarrow> unat (a_payload_offset a) = 80 + unat (a_payload_len a) \<and>
     unat (a_info_offset a) + 32 * (unat (a_pkt_num a) + 1) = FRC_DMA_SSN_BLOCK_SIZE \<and>
     unat (a_payload_offset a) \<le> unat (a_info_offset a) + 32"

definition addr_ok :: "frc_ssn_submit_addr \<Rightarrow> bool" where
  "addr_ok a \<longleftrightarrow> a_addr_flag a = 0 \<or> block_layout a"

definition seg_ok :: "tseg_qent \<Rightarrow> bool" where
  "seg_ok q \<longleftrightarrow> 0 < q_data_len q \<and> unat (q_data_len q) \<le> FRC_PAYLOAD_LEN_MAX \<and> unat (q_data_len q) \<le> length (q_data q)"

definition sys_ok :: "sys \<Rightarrow> bool" where
  "sys_ok sys \<longleftrightarrow> transfers_recover (sys_env sys) \<and> sys_core sys < FRC_DAT_CORE_NUM"

lemma fresh_layout: "block_layout (fresh_addr addr a)" "a_addr_flag (fresh_addr addr a) = 1"
  "a_payload_offset (fresh_addr addr a) = 80" "a_info_offset (fresh_addr addr a) = 8160"
  by (simp_all add: block_layout_def fresh_addr_def c_consts)

lemma advance_layout:
  assumes "block_layout a" "unat (a_payload_offset a) + unat len \<le> unat (a_info_offset a)"
  shows "block_layout (advance_addr len a)"
    "unat (a_payload_offset (advance_addr len a)) = unat (a_payload_offset a) + unat len"
    "unat (a_info_offset (advance_addr len a)) + 32 = unat (a_info_offset a)"
proof -
  have b: "unat (a_payload_offset a) = 80 + unat (a_payload_len a)" "unat (a_info_offset a) + 32 * (unat (a_pkt_num a) + 1) = 8192"
    using assms(1) by (simp_all add: block_layout_def c_consts)
  have len: "unat len < 8192" "unat (ucast len :: u16) = unat len" using assms(2) b by (simp_all add: unat_ucast_mod)
  show p: "unat (a_payload_offset (advance_addr len a)) = unat (a_payload_offset a) + unat len"
    using assms(2) b len by (simp add: advance_addr_def unat_word_ariths)
  have "(32 :: u16) \<le> a_info_offset a" using assms(2) b by (simp add: word_le_nat_alt)
  then show i: "unat (a_info_offset (advance_addr len a)) + 32 = unat (a_info_offset a)"
    using unat_sub [of 32 "a_info_offset a"] assms(2) b by (simp add: advance_addr_def c_consts)
  have "unat (a_payload_len (advance_addr len a)) = unat (a_payload_len a) + unat len"
    "unat (a_pkt_num (advance_addr len a)) = unat (a_pkt_num a) + 1"
    using b assms(2) by (simp_all add: advance_addr_def unat_word_ariths)
  then show "block_layout (advance_addr len a)" using p i b assms(2) by (simp add: block_layout_def c_consts)
qed

lemma fifo_id_small: "unat (ucast (index mod of_nat FRC_SSN_FIFO_NUM :: u32) :: u8) < FRC_SSN_FIFO_NUM"
  by (simp add: unat_ucast_mod c_consts unat_mod)

lemma forward_outcome:
  assumes "ssn_ok env (Suc B) w" "transfers_recover env" "req_ok req"
  shows "\<exists>rv w'. frcore_forward_ssn_pkt_to_fifo env index req addr w = Some (rv, w') \<and> ssn_ok env B w' \<and>
    s_freed w' = (if rv = 0 then req_works req @ s_freed w else s_freed w)"
proof -
  let ?fid = "index mod of_nat FRC_SSN_FIFO_NUM"
  obtain f where f: "frcore_ssn_fifo_get ?fid w = Some f"
    using fifo_get_exists [OF _ fifo_id_small, of env w index] assms(1) by (auto simp: ssn_ok_def)
  obtain rv w' where a: "frcore_ssn_fifo_add env ?fid req addr w = Some (rv, w')" "ssn_ok env B w'"
      "rv = FRE_NOSPACE \<and> s_freed w' = s_freed w \<or> rv = FRE_SUCCESS \<and> s_freed w' = req_works req @ s_freed w"
    using ssn_fifo_add_outcome [OF assms(1,2) f assms(3), of addr] by (auto split: if_splits)
  then show ?thesis
    by (auto simp: frcore_forward_ssn_pkt_to_fifo_def Let_def FRE_NOSPACE_def FRE_SUCCESS_def FRE_EXCEED_def)
qed

lemma sget_cycle_ok [simp]: "ssn_ok env B (w\<lparr>s_tick := t\<rparr>) = ssn_ok env B w"
  by (simp add: ssn_ok_def)

lemma request_block_outcome:
  assumes "ssn_ok (sys_env sys) B w" "sys_ok sys" "unat (ucast fid :: u8) < FRC_SSN_FIFO_NUM"
  shows "\<exists>rv a' w'. request_block sys a fid w = Some (rv, a', w') \<and> ssn_ok (sys_env sys) B w' \<and> s_freed w' = s_freed w \<and>
    (if rv = 0 then \<exists>addr. a' = fresh_addr addr a else a' = a)"
proof -
  obtain rv addr w1 where g: "frcore_ssn_get_one_block_addr (sys_env sys) fid w = Some (rv, addr, w1)" "ssn_ok (sys_env sys) B w1"
      "queues_same w w1"
    using get_block_outcome [OF assms(1,3)] by blast
  have len: "length (s_exhaust w1) = FRC_DAT_CORE_NUM" "length (s_last_display w1) = FRC_DAT_CORE_NUM" "smem_ok (sys_env sys) w1"
      "list_all (queue_ok (sys_env sys) B) (s_fifos w1)" "s_freed w1 = s_freed w" "sys_core sys < FRC_DAT_CORE_NUM"
    using g(2,3) assms(2) by (simp_all add: ssn_ok_def queues_same_def sys_ok_def)
  then show ?thesis
    using g(1) by (cases "rv = 0")
      (auto simp: request_block_def Let_def sget_cycle_def ssn_ok_def smem_ok_def FRE_NOSPACE_def FRE_SUCCESS_def)
qed

lemma check_addr_outcome:
  assumes "ssn_ok (sys_env sys) B w" "sys_ok sys" "unat (ucast fid :: u8) < FRC_SSN_FIFO_NUM"
  shows "\<exists>rv a' w'. check_ssn_addr sys a fid w = Some (rv, a', w') \<and> ssn_ok (sys_env sys) B w' \<and> s_freed w' = s_freed w \<and>
    (if a_addr_flag a \<noteq> 0 then rv = 0 \<and> a' = a else if rv = 0 then \<exists>addr. a' = fresh_addr addr a else a' = a)"
proof -
  have len: "sys_core sys < length (s_exhaust w)" "sys_core sys < length (s_last_display w)"
    using assms(1,2) by (simp_all add: ssn_ok_def sys_ok_def)
  let ?w = "w\<lparr>s_tick := Suc (s_tick w)\<rparr>"
  have "ssn_ok (sys_env sys) B ?w" "s_freed ?w = s_freed w" using assms(1) by simp_all
  with request_block_outcome [OF assms, of a] request_block_outcome [OF _ assms(2,3), of B ?w a] len
  show ?thesis
    by (auto simp: check_ssn_addr_def sget_cycle_def FRE_NOSPACE_def FRE_SUCCESS_def split: if_splits)
qed

lemma submit_head_outcome:
  assumes "ssn_ok (sys_env sys) (Suc B) w" "sys_ok sys"
  shows "\<exists>rv w'. submit_head sys ssn w = Some (rv, w') \<and> ssn_ok (sys_env sys) B w' \<and> s_freed w' = s_freed w"
proof -
  obtain rv w' where "frcore_forward_ssn_pkt_to_fifo (sys_env sys) (ssn_index ssn) (Head_req (block_hdr ssn)) (a_block_addr (ssn_addr ssn)) w = Some (rv, w')"
      "ssn_ok (sys_env sys) B w'" "s_freed w' = s_freed w"
    using forward_outcome [OF assms(1), of "Head_req (block_hdr ssn)" "ssn_index ssn" "a_block_addr (ssn_addr ssn)"] assms(2)
    by (auto simp: req_ok_def req_works_def sys_ok_def split: if_splits)
  then show ?thesis by (auto simp: submit_head_def Let_def stat_ssn_block_def)
qed

lemma work_free_ok [simp]: "ssn_ok env B (frcore_work_free work w) = ssn_ok env B w" "s_freed (frcore_work_free work w) = work # s_freed w"
  by (simp_all add: frcore_work_free_def ssn_ok_def)

text \<open>Submitting a segment to a block with room for it.\<close>

lemma submit_payload_outcome:
  assumes ok: "ssn_ok (sys_env sys) (Suc B) w" "sys_ok sys" "seg_ok q" and a: "block_layout (ssn_addr ssn)"
    and room: "unat (a_payload_offset (ssn_addr ssn)) + unat (q_data_len q) \<le> unat (a_info_offset (ssn_addr ssn))"
  shows "\<exists>rv a' w'. submit_payload sys q ssn w = Some (rv, ssn\<lparr>ssn_addr := a'\<rparr>, w') \<and> ssn_ok (sys_env sys) B w' \<and>
    s_freed w' = q_work q # s_freed w \<and> block_layout a' \<and> (rv = 0 \<longrightarrow> a' = advance_addr (q_data_len q) (ssn_addr ssn))"
proof -
  let ?req = "Payload_req (seg_info q ssn) (q_data q) (a_info_offset (ssn_addr ssn)) (a_payload_offset (ssn_addr ssn)) (q_work q)"
  have "unat (ucast (q_data_len q) :: u16) = unat (q_data_len q)" using ok(3) by (simp add: unat_ucast_mod seg_ok_def c_consts)
  then have req: "req_ok ?req" "req_works ?req = [q_work q]"
    using ok(3) by (simp_all add: req_ok_def req_works_def seg_info_def seg_ok_def Let_def word_less_nat_alt)
  obtain rv w' where "frcore_forward_ssn_pkt_to_fifo (sys_env sys) (ssn_index ssn) ?req (a_block_addr (ssn_addr ssn)) w = Some (rv, w')"
      "ssn_ok (sys_env sys) B w'" "s_freed w' = (if rv = 0 then q_work q # s_freed w else s_freed w)"
    using forward_outcome [OF ok(1) _ req(1), of "ssn_index ssn" "a_block_addr (ssn_addr ssn)"] ok(2) req(2) by (auto simp: sys_ok_def)
  then show ?thesis
    using advance_layout(1) [OF a room] a
    by (cases "rv = 0") (auto simp: submit_payload_def Let_def FRE_SUCCESS_def intro: exI [of _ "ssn_addr ssn"])
qed

text \<open>The payload and its info lie in the block, before the infos and after the payloads submitted earlier.\<close>

definition fits_block :: "tseg_qent \<Rightarrow> frc_ssn_submit_addr \<Rightarrow> bool" where
  "fits_block q a \<longleftrightarrow> block_layout a \<and> unat (a_payload_offset a) + unat (q_data_len q) \<le> unat (a_info_offset a)"

lemma sbumit_data_outcome:
  assumes ok: "ssn_ok (sys_env sys) (Suc (Suc B)) w" "sys_ok sys" "seg_ok q" "addr_ok (ssn_addr ssn)"
  shows "\<exists>rv a' w'. sbumit_data_to_fifo sys q ssn w = Some (rv, ssn\<lparr>ssn_addr := a'\<rparr>, w') \<and> ssn_ok (sys_env sys) B w' \<and>
    s_freed w' = q_work q # s_freed w \<and> addr_ok a' \<and>
    (rv = 0 \<longrightarrow> (\<exists>a w0. sbumit_data_to_fifo sys q ssn w = submit_payload sys q (ssn\<lparr>ssn_addr := a\<rparr>) w0 \<and>
       fits_block q a \<and> a' = advance_addr (q_data_len q) a))"
proof -
  let ?fid = "ssn_index ssn mod of_nat FRC_SSN_FIFO_NUM" and ?env = "sys_env sys"
  have len: "0 < unat (q_data_len q)" "unat (q_data_len q) \<le> 1600" using ok(3) by (simp_all add: seg_ok_def c_consts word_less_nat_alt)
  obtain rv a w1 where c: "check_ssn_addr sys (ssn_addr ssn) ?fid w = Some (rv, a, w1)" "ssn_ok ?env (Suc (Suc B)) w1" "s_freed w1 = s_freed w"
      "if a_addr_flag (ssn_addr ssn) \<noteq> 0 then rv = 0 \<and> a = ssn_addr ssn else if rv = 0 then \<exists>addr. a = fresh_addr addr (ssn_addr ssn) else a = ssn_addr ssn"
    using check_addr_outcome [OF ok(1,2) fifo_id_small, of "ssn_addr ssn"] by blast
  show ?thesis
  proof (cases "rv = 0")
    case False
    then have "addr_ok a" using c(4) ok(4) by (auto split: if_splits)
    then show ?thesis using False c ssn_ok_mono [OF c(2), of B] by (auto simp: sbumit_data_to_fifo_def Let_def)
  next
    case True
    have a: "block_layout a" using c(4) ok(4) True fresh_layout(1) by (auto simp: addr_ok_def split: if_splits)
    have u: "ucast (a_payload_offset a) + q_data_len q > (ucast (a_info_offset a) :: u64) \<longleftrightarrow>
        unat (a_payload_offset a) + unat (q_data_len q) > unat (a_info_offset a)"
      using len unat_u16 [of "a_payload_offset a"] by (simp add: word_less_nat_alt unat_word_ariths)
    show ?thesis
    proof (cases "unat (a_payload_offset a) + unat (q_data_len q) > unat (a_info_offset a)")
      case False
      then obtain rv' a' w' where p: "submit_payload sys q (ssn\<lparr>ssn_addr := a\<rparr>) w1 = Some (rv', ssn\<lparr>ssn_addr := a'\<rparr>, w')"
          "ssn_ok (sys_env sys) B w'" "s_freed w' = q_work q # s_freed w" "block_layout a'" "rv' = 0 \<longrightarrow> a' = advance_addr (q_data_len q) a"
        using submit_payload_outcome [of sys "Suc B" w1 q "ssn\<lparr>ssn_addr := a\<rparr>"] ok c a ssn_ok_mono by fastforce
      have eq: "sbumit_data_to_fifo sys q ssn w = submit_payload sys q (ssn\<lparr>ssn_addr := a\<rparr>) w1"
        using c True u False by (simp add: sbumit_data_to_fifo_def Let_def)
      have "unat (a_payload_offset a) + unat (q_data_len q) \<le> unat (a_info_offset a)" using False by simp
      then show ?thesis using p a unfolding eq fits_block_def addr_ok_def
        by (intro exI [of _ rv'] exI [of _ a'] exI [of _ w']) blast
    next
      case full: True
      let ?ssn = "ssn\<lparr>ssn_addr := a\<rparr>"
      obtain rv2 w2 where h: "submit_head sys ?ssn w1 = Some (rv2, w2)" "ssn_ok ?env (Suc B) w2" "s_freed w2 = s_freed w"
        using submit_head_outcome [OF c(2) ok(2), of ?ssn] c(3) by auto
      let ?a = "a\<lparr>a_addr_flag := 0\<rparr>"
      obtain rv3 a3 w3 where n: "check_ssn_addr sys ?a ?fid w2 = Some (rv3, a3, w3)" "ssn_ok ?env (Suc B) w3" "s_freed w3 = s_freed w"
          "if rv3 = 0 then \<exists>addr. a3 = fresh_addr addr ?a else a3 = ?a"
        using check_addr_outcome [OF h(2) ok(2) fifo_id_small, of ?a "ssn_index ssn"] h(3) by auto
      show ?thesis
      proof (cases "rv2 = 0 \<and> rv3 = 0")
        case False
        then show ?thesis
          using c(1) True full u h n ssn_ok_mono [OF h(2), of B] ssn_ok_mono [OF n(2), of B] a
          by (auto simp: sbumit_data_to_fifo_def Let_def clear_flag_def addr_ok_def split: if_splits)
      next
        case okk: True
        then obtain addr where a3: "a3 = fresh_addr addr ?a" using n(4) by auto
        have room: "unat (a_payload_offset a3) + unat (q_data_len q) \<le> unat (a_info_offset a3)" "block_layout a3"
          using len by (simp_all add: a3 fresh_layout)
        then obtain rv' a' w' where p: "submit_payload sys q (ssn\<lparr>ssn_addr := a3\<rparr>) w3 = Some (rv', ssn\<lparr>ssn_addr := a'\<rparr>, w')"
            "ssn_ok (sys_env sys) B w'" "s_freed w' = q_work q # s_freed w" "block_layout a'" "rv' = 0 \<longrightarrow> a' = advance_addr (q_data_len q) a3"
          using submit_payload_outcome [OF n(2) ok(2,3), of "ssn\<lparr>ssn_addr := a3\<rparr>"] n(3) by auto
        have eq: "sbumit_data_to_fifo sys q ssn w = submit_payload sys q (ssn\<lparr>ssn_addr := a3\<rparr>) w3"
          using c(1) True full u h n okk by (simp add: sbumit_data_to_fifo_def Let_def clear_flag_def)
        show ?thesis using p room unfolding eq fits_block_def addr_ok_def
          by (intro exI [of _ rv'] exI [of _ a'] exI [of _ w']) blast
      qed
    qed
  qed
qed

section \<open>Flushing\<close>

lemma flow_upd [simp]:
  "get_flow d (set_flow d f ssn) = f" "set_flow d f (set_flow d g ssn) = set_flow d f ssn"
  "ssn_addr (set_flow d f ssn) = ssn_addr ssn" "get_flow d (ssn\<lparr>ssn_addr := a\<rparr>) = get_flow d ssn"
  "set_flow d f (ssn\<lparr>ssn_addr := a\<rparr>) = (set_flow d f ssn)\<lparr>ssn_addr := a\<rparr>"
  by (simp_all add: get_flow_def set_flow_def)

lemma set_flow_same [simp]: "set_flow d (get_flow d ssn) ssn = ssn"
  by (simp add: get_flow_def set_flow_def)

text \<open>\<open>M\<close> bounds every depth that is set: at most the largest one that the command accepts.\<close>

definition depth_ok :: "nat \<Rightarrow> flow_state \<Rightarrow> bool" where
  "depth_ok M s \<longleftrightarrow> 0 < unat (fs_depth s) \<and> unat (fs_depth s) \<le> M \<and> M \<le> unat FRCORE_DISORDER_DEPTH_MAX"

text \<open>What is known of the state between two packets: the channel, the block, and that every queued segment
  has data. \<open>B\<close> bounds the requests that are still to come.\<close>

definition flow_inv :: "nat \<Rightarrow> sys \<Rightarrow> nat \<Rightarrow> mpp_ssn \<Rightarrow> flow_state \<Rightarrow> bool" where
  "flow_inv M sys B ssn s \<longleftrightarrow> ssn_ok (sys_env sys) B (fs_world s) \<and> addr_ok (ssn_addr ssn) \<and> depth_ok M s"

abbreviation freed :: "flow_state \<Rightarrow> nat list" where
  "freed s \<equiv> s_freed (fs_world s)"

lemma depth_ok_frame [simp]:
  "depth_ok M (s\<lparr>fs_te_req := n\<rparr>) = depth_ok M s" "depth_ok M (s\<lparr>fs_te_live := n\<rparr>) = depth_ok M s"
  "depth_ok M (s\<lparr>fs_world := w\<rparr>) = depth_ok M s" "depth_ok M (te_free s) = depth_ok M s"
  by (simp_all add: depth_ok_def te_free_def)

lemma flow_inv_frame [simp]:
  "flow_inv M sys B (set_flow d f ssn) s = flow_inv M sys B ssn s" "flow_inv M sys B ssn (fstat_inc x s) = flow_inv M sys B ssn s"
  "flow_inv M sys B ssn (fwork_free work s) = flow_inv M sys B ssn s" "flow_inv M sys B ssn (te_free s) = flow_inv M sys B ssn s"
  "freed (te_free s) = freed s" "freed (s\<lparr>fs_te_req := n, fs_te_live := m\<rparr>) = freed s"
  "flow_inv M sys B ssn (s\<lparr>fs_te_req := n, fs_te_live := m\<rparr>) = flow_inv M sys B ssn s"
  by (simp_all add: flow_inv_def te_free_def)

lemma flow_inv_mono: "flow_inv M sys B ssn s \<Longrightarrow> B' \<le> B \<Longrightarrow> flow_inv M sys B' ssn s"
  by (auto simp: flow_inv_def intro: ssn_ok_mono)

lemma send_packet_outcome:
  assumes "flow_inv M sys (Suc (Suc B)) ssn s" "sys_ok sys" "seg_ok q"
  shows "\<exists>a s'. send_packet sys d q qs ssn s =
      Some ((set_flow d ((get_flow d ssn)\<lparr>tf_head := qs, tsegqe_len := tsegqe_len (get_flow d ssn) - 1\<rparr>) ssn)\<lparr>ssn_addr := a\<rparr>, s') \<and>
    flow_inv M sys B (ssn\<lparr>ssn_addr := a\<rparr>) s' \<and> freed s' = q_work q # freed s \<and> fs_te_live s' = fs_te_live s - 1"
  using sbumit_data_outcome [of sys B "fs_world s" q
      "set_flow d ((get_flow d ssn)\<lparr>tf_head := qs, tsegqe_len := tsegqe_len (get_flow d ssn) - 1\<rparr>) ssn"] assms
  by (auto simp: send_packet_def Let_def flow_inv_def te_free_def)

lemma flush_loop_outcome:
  assumes "flow_inv M sys (B + 2 * length qs) ssn s" "sys_ok sys" "list_all seg_ok qs" "tf_head (get_flow d ssn) = qs"
  shows "\<exists>a s'. flush_loop sys d qs ssn s =
      Some ((set_flow d ((get_flow d ssn)\<lparr>tf_head := [], tsegqe_len := tsegqe_len (get_flow d ssn) - of_nat (length qs)\<rparr>) ssn)\<lparr>ssn_addr := a\<rparr>, s') \<and>
    flow_inv M sys B (ssn\<lparr>ssn_addr := a\<rparr>) s' \<and> freed s' = rev (map q_work qs) @ freed s \<and> fs_te_live s' = fs_te_live s - length qs"
  using assms
proof (induction qs arbitrary: ssn s)
  case Nil
  have "set_flow d ((get_flow d ssn)\<lparr>tf_head := [], tsegqe_len := tsegqe_len (get_flow d ssn) - 0\<rparr>) ssn = ssn"
    using Nil.prems(4) by (metis diff_zero set_flow_same tcp_flow_data.surjective tcp_flow_data.update_convs(2,3))
  then show ?case using Nil.prems(1) by (intro exI [of _ "ssn_addr ssn"]) simp
next
  case (Cons q qs)
  let ?f = "get_flow d ssn"
  let ?ssn1 = "set_flow d (?f\<lparr>tf_head := qs, tsegqe_len := tsegqe_len ?f - 1\<rparr>) ssn"
  obtain a1 s1 where p: "send_packet sys d q qs ssn s = Some (?ssn1\<lparr>ssn_addr := a1\<rparr>, s1)"
      "flow_inv M sys (B + 2 * length qs) (ssn\<lparr>ssn_addr := a1\<rparr>) s1" "freed s1 = q_work q # freed s" "fs_te_live s1 = fs_te_live s - 1"
    using send_packet_outcome [of M sys "B + 2 * length qs" ssn s q d qs] Cons.prems(1-3) by auto
  have "flow_inv M sys (B + 2 * length qs) (?ssn1\<lparr>ssn_addr := a1\<rparr>) s1" using p(2) by (simp add: flow_inv_def)
  then obtain a2 s2 where "flush_loop sys d qs (?ssn1\<lparr>ssn_addr := a1\<rparr>) s1 =
      Some ((set_flow d (?f\<lparr>tf_head := [], tsegqe_len := tsegqe_len ?f - 1 - of_nat (length qs)\<rparr>) ssn)\<lparr>ssn_addr := a2\<rparr>, s2)"
      "flow_inv M sys B (ssn\<lparr>ssn_addr := a2\<rparr>) s2" "freed s2 = rev (map q_work qs) @ freed s1" "fs_te_live s2 = fs_te_live s1 - length qs"
    using Cons.IH [of "?ssn1\<lparr>ssn_addr := a1\<rparr>" s1] Cons.prems(2,3) by (auto simp: flow_inv_def)
  then show ?case using p by (auto simp: algebra_simps)
qed

section \<open>Accounting for work items and queue entries\<close>

lemma reverse_simps [simp]: "get_flow (reverse d) (set_flow d f ssn) = get_flow (reverse d) ssn"
  "get_flow d (set_flow (reverse d) f ssn) = get_flow d ssn"
  by (simp_all add: get_flow_def set_flow_def reverse_def c_consts)

definition held :: "mpp_ssn \<Rightarrow> nat list" where
  "held ssn = map q_work (tf_head (flow_positive ssn)) @ map q_work (tf_head (flow_negative ssn))"

text \<open>\<open>W\<close> are the work items the code has been given: each of them is freed, or waits in a queue, once.
  An entry of the pool is allocated for each queued segment (and \<open>K\<close> for other sessions).\<close>

definition accounts :: "nat \<Rightarrow> nat multiset \<Rightarrow> mpp_ssn \<Rightarrow> flow_state \<Rightarrow> bool" where
  "accounts K W ssn s \<longleftrightarrow> mset (freed s @ held ssn) = W \<and> fs_te_live s = K + length (held ssn)"

definition flow_ok :: "nat \<Rightarrow> tcp_flow_data \<Rightarrow> bool" where
  "flow_ok M f \<longleftrightarrow> tsegqe_len f = of_nat (length (tf_head f)) \<and> length (tf_head f) < M \<and> list_all seg_ok (tf_head f)"

definition rec_inv :: "nat \<Rightarrow> sys \<Rightarrow> nat \<Rightarrow> mpp_ssn \<Rightarrow> flow_state \<Rightarrow> bool" where
  "rec_inv M sys B ssn s \<longleftrightarrow> flow_inv M sys B ssn s \<and> flow_ok M (flow_positive ssn) \<and> flow_ok M (flow_negative ssn)"

lemma accounts_split:
  "accounts K W ssn s \<longleftrightarrow>
     mset (freed s) + mset (map q_work (tf_head (get_flow d ssn))) + mset (map q_work (tf_head (get_flow (reverse d) ssn))) = W \<and>
     fs_te_live s = K + length (tf_head (get_flow d ssn)) + length (tf_head (get_flow (reverse d) ssn))"
  by (auto simp: accounts_def held_def get_flow_def reverse_def c_consts ac_simps)

lemma rec_inv_split:
  "rec_inv M sys B ssn s \<longleftrightarrow> flow_inv M sys B ssn s \<and> flow_ok M (get_flow d ssn) \<and> flow_ok M (get_flow (reverse d) ssn)"
  by (auto simp: rec_inv_def get_flow_def reverse_def c_consts)

lemma rec_inv_mono: "rec_inv M sys B ssn s \<Longrightarrow> B' \<le> B \<Longrightarrow> rec_inv M sys B' ssn s"
  by (auto simp: rec_inv_def intro: flow_inv_mono)

lemma flow_ok_empty: "0 < M \<Longrightarrow> flow_ok M (f\<lparr>rcv_nxt := n, tsegqe_len := 0, tf_head := []\<rparr>)"
  by (simp add: flow_ok_def c_consts)

lemma flow_inv_depth: "flow_inv M sys B ssn s \<Longrightarrow> 0 < M \<and> M \<le> 15 \<and> 0 < unat (fs_depth s) \<and> unat (fs_depth s) \<le> M"
  by (auto simp: flow_inv_def depth_ok_def c_consts)

text \<open>A function that handles one packet, or none: it returns, keeps the invariant and the accounts.\<close>

definition settles :: "nat \<Rightarrow> sys \<Rightarrow> nat \<Rightarrow> nat \<Rightarrow> nat multiset \<Rightarrow> (mpp_ssn \<times> flow_state) option \<Rightarrow> bool" where
  "settles M sys B K W r \<longleftrightarrow> (\<exists>ssn s. r = Some (ssn, s) \<and> rec_inv M sys B ssn s \<and> accounts K W ssn s)"

lemma settles_Some [simp]: "settles M sys B K W (Some (ssn, s)) \<longleftrightarrow> rec_inv M sys B ssn s \<and> accounts K W ssn s"
  by (auto simp: settles_def)

lemma flush_settles:
  assumes inv: "flow_inv M sys (B + 2 * length (tf_head (get_flow d ssn))) ssn s" "sys_ok sys" "list_all seg_ok (tf_head (get_flow d ssn))"
    "flow_ok M (get_flow (reverse d) ssn)" and acc: "accounts K W ssn s"
  shows "settles M sys B K W (tcp_flow_flush sys d ssn s)"
proof -
  let ?f = "get_flow d ssn"
  obtain a s' where l: "flush_loop sys d (tf_head ?f) ssn s =
      Some ((set_flow d (?f\<lparr>tf_head := [], tsegqe_len := tsegqe_len ?f - of_nat (length (tf_head ?f))\<rparr>) ssn)\<lparr>ssn_addr := a\<rparr>, s')"
      "flow_inv M sys B (ssn\<lparr>ssn_addr := a\<rparr>) s'" "freed s' = rev (map q_work (tf_head ?f)) @ freed s" "fs_te_live s' = fs_te_live s - length (tf_head ?f)"
    using flush_loop_outcome [OF inv(1-3) refl] by blast
  let ?ssn = "(set_flow d (?f\<lparr>rcv_nxt := 0, tsegqe_len := 0, tf_head := []\<rparr>) ssn)\<lparr>ssn_addr := a\<rparr>"
  have "tcp_flow_flush sys d ssn s = Some (?ssn, s')" using l(1) by (simp add: tcp_flow_flush_def)
  moreover have "rec_inv M sys B ?ssn s'"
    using l(2) inv(4) flow_inv_depth [OF l(2)] by (simp add: rec_inv_split [of _ _ _ _ _ d] flow_ok_empty flow_inv_def)
  moreover have "accounts K W ?ssn s'"
    using acc l(3,4) unfolding accounts_split [of _ _ _ _ d] by (simp add: ac_simps)
  ultimately show ?thesis by simp
qed

lemma ack_loop_outcome:
  assumes "flow_inv M sys (B + 2 * length qs) ssn s" "sys_ok sys" "list_all seg_ok qs" "tf_head (get_flow d ssn) = qs"
  shows "\<exists>n x a s'. n \<le> length qs \<and> ack_loop sys d qs ssn s =
      Some ((set_flow d ((get_flow d ssn)\<lparr>tf_head := drop n qs, tsegqe_len := tsegqe_len (get_flow d ssn) - of_nat n, rcv_nxt := x\<rparr>) ssn)\<lparr>ssn_addr := a\<rparr>, s') \<and>
    flow_inv M sys B (ssn\<lparr>ssn_addr := a\<rparr>) s' \<and> freed s' = rev (map q_work (take n qs)) @ freed s \<and> fs_te_live s' = fs_te_live s - n"
  using assms
proof (induction qs arbitrary: ssn s)
  case Nil
  have "set_flow d ((get_flow d ssn)\<lparr>tf_head := [], tsegqe_len := tsegqe_len (get_flow d ssn) - 0, rcv_nxt := rcv_nxt (get_flow d ssn)\<rparr>) ssn = ssn"
    using Nil.prems(4) by (cases "get_flow d ssn") (auto simp: set_flow_def get_flow_def)
  then show ?case using Nil.prems(1) by (intro exI [of _ 0] exI [of _ "rcv_nxt (get_flow d ssn)"] exI [of _ "ssn_addr ssn"]) simp
next
  case (Cons q qs)
  let ?f = "get_flow d ssn"
  let ?ssn1 = "set_flow d (?f\<lparr>tf_head := qs, tsegqe_len := tsegqe_len ?f - 1\<rparr>) ssn"
  show ?case
  proof (cases "q_nxt_seq q \<le> rcv_nxt ?f")
    case True
    obtain a1 s1 where p: "send_packet sys d q qs ssn s = Some (?ssn1\<lparr>ssn_addr := a1\<rparr>, s1)"
        "flow_inv M sys (B + 2 * length qs) (ssn\<lparr>ssn_addr := a1\<rparr>) s1" "freed s1 = q_work q # freed s" "fs_te_live s1 = fs_te_live s - 1"
      using send_packet_outcome [of M sys "B + 2 * length qs" ssn s q d qs] Cons.prems(1-3) by auto
    have "flow_inv M sys (B + 2 * length qs) (?ssn1\<lparr>ssn_addr := a1\<rparr>) s1" using p(2) by (simp add: flow_inv_def)
    then obtain n x a2 s2 where "n \<le> length qs" "ack_loop sys d qs (?ssn1\<lparr>ssn_addr := a1\<rparr>) s1 =
        Some ((set_flow d (?f\<lparr>tf_head := drop n qs, tsegqe_len := tsegqe_len ?f - 1 - of_nat n, rcv_nxt := x\<rparr>) ssn)\<lparr>ssn_addr := a2\<rparr>, s2)"
        "flow_inv M sys B (ssn\<lparr>ssn_addr := a2\<rparr>) s2" "freed s2 = rev (map q_work (take n qs)) @ freed s1" "fs_te_live s2 = fs_te_live s1 - n"
      using Cons.IH [of "?ssn1\<lparr>ssn_addr := a1\<rparr>" s1] Cons.prems(2,3) by (auto simp: flow_inv_def)
    then show ?thesis
      using p True by (intro exI [of _ "Suc n"] exI [of _ x] exI [of _ a2] exI [of _ s2]) (simp add: Let_def algebra_simps)
  next
    case False
    have "?f\<lparr>rcv_nxt := y\<rparr> = ?f\<lparr>tf_head := q # qs, tsegqe_len := tsegqe_len ?f, rcv_nxt := y\<rparr>" for y
      using Cons.prems(4) by (cases ?f) simp
    then show ?thesis
      using False Cons.prems(1) flow_inv_mono [of M sys "B + 2 * length (q # qs)" ssn s B]
      by (intro exI [of _ 0] exI [of _ "ucast (q_seq q)"] exI [of _ "ssn_addr ssn"] exI [of _ s]) (simp add: Let_def)
  qed
qed

lemma reverse_settles:
  assumes inv: "rec_inv M sys (B + 28) ssn s" "sys_ok sys" and acc: "accounts K W ssn s"
  shows "settles M sys B K W (send_reverse_tcpflow sys d ssn ack s)"
proof -
  let ?f = "get_flow d ssn"
  have f: "flow_inv M sys (B + 28) ssn s" "flow_ok M ?f" "flow_ok M (get_flow (reverse d) ssn)"
    using inv(1) unfolding rec_inv_split [of _ _ _ _ _ d] by simp_all
  have len: "length (tf_head ?f) \<le> 14" "list_all seg_ok (tf_head ?f)" using f(2) flow_inv_depth [OF f(1)] by (simp_all add: flow_ok_def)
  then have B: "flow_inv M sys (B + 2 * length (tf_head ?f)) ssn s" using flow_inv_mono [OF f(1)] by simp
  show ?thesis
  proof (cases "to_int (ack - rcv_nxt ?f) = 0")
    case False
    then show ?thesis using flush_settles [OF B inv(2) len(2) f(3) acc] by (simp add: send_reverse_tcpflow_def)
  next
    case True
    obtain n x a s' where l: "n \<le> length (tf_head ?f)" "ack_loop sys d (tf_head ?f) ssn s =
        Some ((set_flow d (?f\<lparr>tf_head := drop n (tf_head ?f), tsegqe_len := tsegqe_len ?f - of_nat n, rcv_nxt := x\<rparr>) ssn)\<lparr>ssn_addr := a\<rparr>, s')"
        "flow_inv M sys B (ssn\<lparr>ssn_addr := a\<rparr>) s'" "freed s' = rev (map q_work (take n (tf_head ?f))) @ freed s" "fs_te_live s' = fs_te_live s - n"
      using ack_loop_outcome [OF B inv(2) len(2) refl] by blast
    obtain y where r: "send_reverse_tcpflow sys d ssn ack s =
        Some ((set_flow d (?f\<lparr>tf_head := drop n (tf_head ?f), tsegqe_len := tsegqe_len ?f - of_nat n, rcv_nxt := y\<rparr>) ssn)\<lparr>ssn_addr := a\<rparr>, s')"
    proof (cases "drop n (tf_head ?f) = []")
      case empty: True
      then have z: "tsegqe_len ?f - of_nat n = 0" using f(2) l(1) by (simp add: flow_ok_def)
      have swap: "f\<lparr>rcv_nxt := 0, tsegqe_len := 0, tf_head := []\<rparr> = f\<lparr>tf_head := [], tsegqe_len := 0, rcv_nxt := 0\<rparr>" for f :: tcp_flow_data
        by (cases f) simp
      have r: "send_reverse_tcpflow sys d ssn ack s =
          Some ((set_flow d (?f\<lparr>rcv_nxt := 0, tsegqe_len := 0, tf_head := []\<rparr>) ssn)\<lparr>ssn_addr := a\<rparr>, s')"
        using True l(2) empty by (simp add: send_reverse_tcpflow_def Let_def)
      show ?thesis by (rule that [of 0]) (simp only: r [unfolded swap] empty z)
    next
      case False
      then show ?thesis using that True l(2) by (simp add: send_reverse_tcpflow_def Let_def)
    qed
    have ok: "flow_ok M (?f\<lparr>tf_head := drop n (tf_head ?f), tsegqe_len := tsegqe_len ?f - of_nat n, rcv_nxt := y\<rparr>)"
      using f(2) l(1) by (auto simp: flow_ok_def of_nat_diff list_all_iff dest: in_set_dropD)
    have works: "mset (map q_work (tf_head ?f)) = mset (map q_work (take n (tf_head ?f))) + mset (map q_work (drop n (tf_head ?f)))"
      by (metis append_take_drop_id map_append mset_append)
    let ?ssn = "(set_flow d (?f\<lparr>tf_head := drop n (tf_head ?f), tsegqe_len := tsegqe_len ?f - of_nat n, rcv_nxt := y\<rparr>) ssn)\<lparr>ssn_addr := a\<rparr>"
    have "rec_inv M sys B ?ssn s'" using l(3) ok f(3) by (simp add: rec_inv_split [of _ _ _ _ _ d] flow_inv_def)
    moreover have "accounts K W ?ssn s'"
      using acc l(1,4,5) works unfolding accounts_split [of _ _ _ _ d] by (simp add: ac_simps)
    ultimately show ?thesis by (simp only: r settles_Some simp_thms)
  qed
qed

section \<open>Queueing a segment keeps the accounts\<close>

lemma to_int_small: "unat x < 2 ^ 31 \<Longrightarrow> to_int x = int (unat x)"
proof -
  assume "unat x < 2 ^ 31"
  then have "unat (ucast x :: u32) = unat x" "unat (ucast x :: u32) < 2 ^ 31" by (simp_all add: unat_ucast_mod)
  then have "uint (ucast x :: u32) = int (unat x)" "uint (ucast x :: u32) < 2 ^ 31"
    unfolding uint_nat by (simp_all del: of_nat_unat)
  moreover have "- (2 ^ 31) \<le> uint (ucast x :: u32)" by (rule order_trans [OF _ uint_ge_0]) simp
  ultimately show ?thesis by (simp add: to_int_def sint_uint signed_take_bit_int_eq_self del: of_nat_unat)
qed

lemma trim_following_works:
  assumes "trim_following e qs = (removed, rest, t)" "list_all seg_ok qs"
  shows "map q_work qs = map q_work removed @ map q_work rest" "list_all seg_ok rest"
  using assms
proof (induction qs arbitrary: removed rest t)
  case (Cons q qs)
  let ?i = "to_int (e - ucast (q_seq q))"
  case 1
  then show ?case using Cons.IH(1) by (auto simp: Let_def split: if_splits prod.splits)
  case 2
  have q: "0 < q_data_len q" "unat (q_data_len q) \<le> 1600" "unat (q_data_len q) \<le> length (q_data q)"
    using 2 by (simp_all add: seg_ok_def c_consts)
  have "seg_ok (q\<lparr>q_seq := x, q_data := drop (nat ?i) (q_data q), q_data_len := q_data_len q - of_int ?i\<rparr>)"
    if i: "0 < ?i" "?i < to_int (q_data_len q)" for x
  proof -
    have "unat (q_data_len q) < 2 ^ 31" using q(2) by simp
    then have lt: "nat ?i < unat (q_data_len q)" using i to_int_small [of "q_data_len q"] by (simp add: nat_less_iff)
    obtain m where m: "?i = int m" "nat ?i = m" using i(1) by (metis int_nat_eq order.strict_implies_order)
    then have "unat (q_data_len q - of_nat m) = unat (q_data_len q) - m"
      using lt q by (subst unat_sub) (simp_all add: word_le_nat_alt unat_of_nat)
    then show ?thesis using lt q m by (simp add: seg_ok_def c_consts word_less_nat_alt) linarith
  qed
  then show ?case using 2 Cons.IH(2) by (auto simp: Let_def split: if_splits prod.splits)
qed simp_all

lemma free_removed_outcome:
  "freed (free_removed qs s) = rev (map q_work qs) @ freed s" "fs_te_live (free_removed qs s) = fs_te_live s - length qs"
  "flow_inv M sys B ssn (free_removed qs s) = flow_inv M sys B ssn s"
  by (induction qs arbitrary: s) (simp_all add: free_removed_def te_free_def flow_inv_def)

text \<open>A segment as the parser of the packet delivers it: it has data unless the packet is a SYN.\<close>

definition g_ok :: "u8 \<Rightarrow> segment \<Rightarrow> bool" where
  "g_ok th_flags g \<longleftrightarrow> unat (g_len g) \<le> FRC_PAYLOAD_LEN_MAX \<and> unat (g_len g) \<le> length (g_data g) \<and>
     (th_flags AND (TH_SYN OR TH_FIN OR TH_RST) = 0 \<longrightarrow> 0 < g_len g)"

lemma flags_clear: "th_flags AND TH_SYN = 0 \<Longrightarrow> th_flags AND (TH_FIN OR TH_RST) = 0 \<Longrightarrow> th_flags AND (TH_SYN OR TH_FIN OR TH_RST) = 0"
  by (simp add: bit.conj_disj_distrib)

text \<open>Inserting between two parts of the queue: an entry was allocated for the segment, its work is not yet
  accounted for.\<close>

text \<open>The accounts after one flow of the session is replaced.\<close>

lemma accounts_set_flow:
  "accounts K W (set_flow d f ssn) s \<longleftrightarrow>
     mset (freed s) + mset (map q_work (tf_head f)) + mset (map q_work (tf_head (get_flow (reverse d) ssn))) = W \<and>
     fs_te_live s = K + length (tf_head f) + length (tf_head (get_flow (reverse d) ssn))"
  by (simp add: accounts_split [of _ _ _ _ d])

lemma rec_inv_set_flow:
  "rec_inv M sys B (set_flow d f ssn) s \<longleftrightarrow> flow_inv M sys B ssn s \<and> flow_ok M f \<and> flow_ok M (get_flow (reverse d) ssn)"
  by (simp add: rec_inv_split [of _ _ _ _ _ d])

lemma place_settles:
  assumes inv: "flow_inv M sys (B + 30) ssn s" "sys_ok sys" "flow_ok M (get_flow (reverse d) ssn)" "flow_ok M f" "tf_head f = before @ rest"
    and g: "g_ok fl g" "fl AND (TH_FIN OR TH_RST) = 0"
    and acc: "mset (freed s) + mset (map q_work (before @ rest)) + mset (map q_work (tf_head (get_flow (reverse d) ssn))) = W"
      "fs_te_live s = Suc (K + length (before @ rest) + length (tf_head (get_flow (reverse d) ssn)))"
  shows "settles M sys B K (add_mset (g_work g) W) (place_segment sys d fl g n before rest f ssn s)"
proof (cases "fl AND TH_SYN = 0")
  case False
  then show ?thesis
    using inv acc flow_inv_mono [OF inv(1), of B]
    by (simp add: place_segment_def rec_inv_set_flow accounts_set_flow te_free_def flow_inv_def)
next
  case True
  define te where "te = \<lparr>q_seq = ucast (g_seq g), q_ack_num = ucast (g_ack g), q_nxt_seq = n, q_work = g_work g,
    q_data = g_data g, q_data_len = g_len g, q_direction = ucast d\<rparr>"
  have te: "seg_ok te" "q_work te = g_work g" using g flags_clear [OF True g(2)] by (simp_all add: g_ok_def seg_ok_def te_def)
  define f1 where "f1 = f\<lparr>tf_head := before @ te # rest, tsegqe_len := tsegqe_len f + 1\<rparr>"
  have f1: "tf_head f1 = before @ te # rest" "tsegqe_len f1 = of_nat (length (tf_head f1))" "list_all seg_ok (tf_head f1)" "length (tf_head f1) \<le> 15"
    using inv(4,5) te flow_inv_depth [OF inv(1)] by (simp_all add: f1_def flow_ok_def)
  have a1: "accounts K (add_mset (g_work g) W) (set_flow d (f1\<lparr>rcv_nxt := x\<rparr>) ssn) s"
      "accounts K (add_mset (g_work g) W) (set_flow d f1 ssn) s" for x
    using acc te(2) by (simp_all add: accounts_set_flow f1(1))
  have eq: "place_segment sys d fl g n before rest f ssn s =
      (if tsegqe_len f1 \<ge> ucast (fs_depth s) then tcp_flow_flush sys d (set_flow d f1 ssn) s
       else if g_seq g = rcv_nxt f
       then Some (set_flow d (f1\<lparr>rcv_nxt := advance_following rest (if SEQ_GT n (rcv_nxt f) then n else rcv_nxt f)\<rparr>) ssn, s)
       else Some (set_flow d f1 ssn, s))"
    using True g(2) by (simp add: place_segment_def Let_def f1_def te_def)
  have full: "tsegqe_len f1 \<ge> ucast (fs_depth s) \<longleftrightarrow> unat (fs_depth s) \<le> length (tf_head f1)"
    using f1(2,4) by (simp add: word_le_nat_alt unat_of_nat)
  show ?thesis
  proof (cases "unat (fs_depth s) \<le> length (tf_head f1)")
    case True
    have "flow_inv M sys (B + 2 * length (tf_head (get_flow d (set_flow d f1 ssn)))) (set_flow d f1 ssn) s"
      using flow_inv_mono [OF inv(1)] f1(4) by simp
    from flush_settles [OF this inv(2) _ _ a1(2)] show ?thesis using True f1 inv(3) full unfolding eq by simp
  next
    case False
    then have "flow_ok M (f1\<lparr>rcv_nxt := x\<rparr>)" "flow_ok M f1" for x
      using f1(2,3) flow_inv_depth [OF inv(1)] by (simp_all add: flow_ok_def)
    then show ?thesis using False full a1 inv(3) flow_inv_mono [OF inv(1), of B] unfolding eq by (simp add: rec_inv_set_flow)
  qed
qed

lemma insert_settles:
  assumes inv: "flow_inv M sys (B + 30) ssn s" "sys_ok sys" "flow_ok M (get_flow (reverse d) ssn)" "flow_ok M (get_flow d ssn)"
    and q: "tf_head (get_flow d ssn) = before @ after"
    and g: "g_ok fl g" "fl AND (TH_FIN OR TH_RST) = 0" and acc: "accounts K W ssn (te_free s)" "0 < fs_te_live s"
  shows "settles M sys B K (add_mset (g_work g) W) (insert_segment sys d fl g before after ssn s)"
proof -
  let ?f = "get_flow d ssn" and ?r = "tf_head (get_flow (reverse d) ssn)"
  obtain removed rest t where t: "trim_following (g_seq g + g_len g) after = (removed, rest, t)" by (metis prod_cases3)
  have oks: "list_all seg_ok before" "list_all seg_ok after" "length before + length after < M" "tsegqe_len ?f = of_nat (length before + length after)"
    using inv(4) q by (simp_all add: flow_ok_def c_consts)
  note w = trim_following_works [OF t oks(2)]
  have len: "length after = length removed + length rest" using arg_cong [OF w(1), of length] by simp
  have len': "tsegqe_len ?f - of_nat (length removed) = of_nat (length before + length rest)" using oks(4) len by simp
  define s' where "s' = (if t then fstat_inc stat_tcpflowrec_part_retrans (free_removed removed s) else free_removed removed s)"
  define n where "n = g_seq g + g_len g + (if fl AND TH_SYN \<noteq> 0 then 1 else 0)"
  have s1: "flow_inv M sys (B + 30) ssn s'" "mset (freed s') = mset (map q_work removed) + mset (freed s)" "fs_te_live s' = fs_te_live s - length removed"
    using inv(1) by (simp_all add: s'_def free_removed_outcome)
  have s2: "mset (freed s) + mset (map q_work (before @ after)) + mset (map q_work ?r) = W" "fs_te_live s - 1 = K + length (before @ after) + length ?r"
    using acc(1) unfolding accounts_split [of _ _ _ _ d] q te_free_def by auto
  have "mset (map q_work after) = mset (map q_work removed) + mset (map q_work rest)" by (simp only: w(1) mset_append)
  then have s: "mset (freed s') + mset (map q_work (before @ rest)) + mset (map q_work ?r) = W"
      "fs_te_live s' = Suc (K + length (before @ rest) + length ?r)"
    using s1(2,3) s2 acc(2) len by (simp_all add: ac_simps)
  let ?f1 = "?f\<lparr>tf_head := before @ rest, tsegqe_len := tsegqe_len ?f - of_nat (length removed)\<rparr>"
  define f2 where "f2 = (if tf_head ?f1 = [] then ?f1\<lparr>rcv_nxt := n\<rparr> else ?f1)"
  have f2: "flow_ok M f2" "tf_head f2 = before @ rest" using oks len w(2) by (simp_all add: f2_def flow_ok_def len' c_consts)
  have "insert_segment sys d fl g before after ssn s = place_segment sys d fl g n before rest f2 ssn s'"
    by (simp only: insert_segment_def t Let_def prod.case s'_def n_def f2_def)
  then show ?thesis using place_settles [OF s1(1) inv(2,3) f2 g s] by simp
qed

text \<open>The segment without the part that the preceding one provides.\<close>

lemma g_ok_trim:
  assumes "g_ok fl g" "0 < i" "i < to_int (g_len g)"
  shows "g_ok fl (g\<lparr>g_data := drop (nat i) (g_data g), g_seq := x, g_len := g_len g - of_int i\<rparr>)"
proof -
  have g: "unat (g_len g) \<le> 1600" "unat (g_len g) \<le> length (g_data g)" using assms(1) by (simp_all add: g_ok_def c_consts)
  then have lt: "nat i < unat (g_len g)" using assms(2,3) to_int_small [of "g_len g"] by (simp add: nat_less_iff)
  obtain m where m: "i = int m" "nat i = m" using assms(2) by (metis int_nat_eq order.strict_implies_order)
  then have "unat (g_len g - of_nat m) = unat (g_len g) - m"
    using lt g by (subst unat_sub) (simp_all add: word_le_nat_alt unat_of_nat)
  then show ?thesis using lt g m by (simp add: g_ok_def c_consts word_less_nat_alt) linarith
qed

lemma settles_if: "(c \<Longrightarrow> settles M sys B K W a) \<Longrightarrow> (\<not> c \<Longrightarrow> settles M sys B K W b) \<Longrightarrow> settles M sys B K W (if c then a else b)"
  by simp

lemma queue_settles:
  assumes inv: "flow_inv M sys (B + 30) ssn s" "sys_ok sys" "flow_ok M (get_flow (reverse d) ssn)" "flow_ok M (get_flow d ssn)"
    and g: "g_ok fl g" "fl AND (TH_FIN OR TH_RST) = 0" and acc: "accounts K W ssn (te_free s)" "0 < fs_te_live s"
  shows "settles M sys B K (add_mset (g_work g) W) (queue_segment sys d fl g ssn s)"
proof -
  let ?f = "get_flow d ssn"
  define before where "before = takeWhile (seg_before (g_seq g)) (tf_head ?f)"
  define after where "after = dropWhile (seg_before (g_seq g)) (tf_head ?f)"
  have q: "tf_head ?f = before @ after" by (simp add: before_def after_def)
  note insert = insert_settles [OF inv(1-4) q _ g(2) acc]
  have B: "flow_inv M sys B ssn s" using flow_inv_mono [OF inv(1)] by simp
  have drop: "settles M sys B K (add_mset (g_work g) W) (Some (ssn, fstat_inc x (te_free (fwork_free (g_work g) s))))" for x
    using acc B inv(3,4) by (simp add: rec_inv_split [of _ _ _ _ _ d] accounts_split [of _ _ _ _ d] te_free_def flow_inv_def)
  show ?thesis
  proof (cases "before = []")
    case True
    then show ?thesis using insert [OF g(1)] by (simp add: queue_segment_def Let_def before_def after_def)
  next
    case False
    let ?p = "last before" and ?b = "butlast before"
    let ?i = "to_int (ucast (q_seq ?p) + q_data_len ?p - g_seq g)"
    have b: "before = ?b @ [?p]" using False by simp
    let ?p' = "?p\<lparr>q_work := g_work g, q_seq := ucast (g_seq g), q_ack_num := ucast (g_ack g), q_data := g_data g, q_data_len := g_len g\<rparr>"
    define s2 where "s2 = fstat_inc stat_tcpflowrec_retrans_drop (fstat_inc stat_tcpflowrec_retrans (fwork_free (q_work ?p) (te_free s)))"
    have s2: "flow_inv M sys B ssn s2" "freed s2 = q_work ?p # freed s" "fs_te_live s2 = fs_te_live s - 1"
      using B by (simp_all add: s2_def te_free_def flow_inv_def)
    have works: "mset (map q_work (tf_head ?f)) = add_mset (q_work ?p) (mset (map q_work ?b) + mset (map q_work after))"
      using arg_cong [OF b, of "\<lambda>xs. mset (map q_work xs)"] by (simp add: q)
    have len: "length (tf_head ?f) = Suc (length ?b + length after)" using arg_cong [OF b, of length] by (simp add: q)
    have same_end: "settles M sys B K (add_mset (g_work g) W) (Some (set_flow d (?f\<lparr>tf_head := ?b @ ?p' # after\<rparr>) ssn, s2))"
      if i: "0 < to_int (g_len g)"
    proof -
      have "0 < g_len g" using i to_int_small [of 0] by (cases "g_len g = 0") (auto simp: word_neq_0_conv)
      then have "seg_ok ?p'" using g(1) by (simp add: g_ok_def seg_ok_def)
      moreover have "list_all seg_ok ?b" "list_all seg_ok after"
        using inv(4) q by (auto simp: flow_ok_def list_all_iff dest: in_set_butlastD)
      ultimately have "flow_ok M (?f\<lparr>tf_head := ?b @ ?p' # after\<rparr>)" using inv(4) len by (simp add: flow_ok_def)
      moreover have "mset (freed s) + mset (map q_work (tf_head ?f)) + mset (map q_work (tf_head (get_flow (reverse d) ssn))) = W"
          "fs_te_live s - 1 = K + length (tf_head ?f) + length (tf_head (get_flow (reverse d) ssn))"
        using acc(1) unfolding accounts_split [of _ _ _ _ d] te_free_def by auto
      ultimately show ?thesis
        using s2 inv(3) works len by (simp add: rec_inv_set_flow accounts_set_flow)
    qed
    have acc': "accounts K W ssn (te_free (fstat_inc x s))" for x using acc(1) by (simp add: accounts_def te_free_def)
    have trim: "settles M sys B K (add_mset (g_work g) W) (insert_segment sys d fl
        (g\<lparr>g_data := drop (nat ?i) (g_data g), g_seq := g_seq g + of_int ?i, g_len := g_len g - of_int ?i\<rparr>) before after ssn (fstat_inc x s))"
      if i: "0 < ?i" "?i < to_int (g_len g)" for x
      using insert_settles [of M sys B ssn "fstat_inc x s", OF _ inv(2-4) q g_ok_trim [OF g(1) i] g(2) acc'] inv(1) acc(2) by simp
    show ?thesis
      unfolding queue_segment_def Let_def before_def [symmetric] after_def [symmetric] s2_def [symmetric]
    proof (intro settles_if)
      assume "0 < ?i" "\<not> to_int (g_len g) < ?i" "?i = to_int (g_len g)"
      then show "settles M sys B K (add_mset (g_work g) W) (Some (set_flow d (?f\<lparr>tf_head := ?b @ ?p' # after\<rparr>) ssn, s2))"
        using same_end by linarith
    next
      assume "0 < ?i" "\<not> to_int (g_len g) < ?i" "?i \<noteq> to_int (g_len g)"
      then show "settles M sys B K (add_mset (g_work g) W) (insert_segment sys d fl
          (g\<lparr>g_data := drop (nat ?i) (g_data g), g_seq := g_seq g + of_int ?i, g_len := g_len g - of_int ?i\<rparr>) before after ssn
          (fstat_inc stat_tcpflowrec_part_retrans s))" by (intro trim) linarith+
    qed (rule drop insert [OF g(1)])+
  qed
qed

text \<open>\<open>reass_tcp\<close> and \<open>tcp_flow_recovery\<close>: the packet is freed, or replaces another one, or is queued. Each may
  make 58 requests of the channel: at most 28 for the queue of the other direction, 30 for the own one.\<close>

lemma remove_chain_frame [simp]: "rec_inv M sys B (frcore_remove_chain_by_timer ssn) s = rec_inv M sys B ssn s"
  "accounts K W (frcore_remove_chain_by_timer ssn) s = accounts K W ssn s"
  by (simp_all add: frcore_remove_chain_by_timer_def rec_inv_def flow_inv_def accounts_def held_def)

lemma reass_settles:
  assumes inv: "rec_inv M sys (B + 58) ssn s" "sys_ok sys" and g: "g_ok fl g" and acc: "accounts K W ssn s"
  shows "settles M sys B K (add_mset (g_work g) W) (reass_tcp sys d fl g ssn s)"
proof (cases "g_seq g < ucast (if d = FRC_SSN_POSIVTE_FLOW then ssn_seq ssn else ssn_ack_seq ssn)")
  case True
  then show ?thesis using acc rec_inv_mono [OF inv(1), of B]
    by (simp add: reass_tcp_def Let_def rec_inv_def accounts_def flow_inv_def)
next
  case fresh: False
  obtain ssn1 s1 where r: "(if tf_rev (get_flow d ssn) \<and> tf_head (get_flow (reverse d) ssn) \<noteq> []
        then send_reverse_tcpflow sys (reverse d) ssn (g_ack g) s else Some (ssn, s)) = Some (ssn1, s1)"
      "rec_inv M sys (B + 30) ssn1 s1" "accounts K W ssn1 s1"
    using reverse_settles [of M sys "B + 30" ssn s K W "reverse d" "g_ack g"] inv acc rec_inv_mono [OF inv(1), of "B + 30"]
    by (cases "tf_rev (get_flow d ssn) \<and> tf_head (get_flow (reverse d) ssn) \<noteq> []") (auto simp: settles_def add.commute [of 58 B])
  have f: "flow_inv M sys (B + 30) ssn1 s1" "flow_ok M (get_flow d ssn1)" "flow_ok M (get_flow (reverse d) ssn1)"
    using r(2) unfolding rec_inv_split [of _ _ _ _ _ d] by simp_all
  note B = rec_inv_mono [OF r(2), of B, simplified]
  show ?thesis
  proof (cases "fl AND (TH_FIN OR TH_RST) = 0")
    case False
    let ?s2 = "fstat_inc stat_ssn_drop (fwork_free (g_work g) s1)"
    have len: "2 * length (tf_head (get_flow d ssn1)) \<le> 30" "list_all seg_ok (tf_head (get_flow d ssn1))"
      using f(2) flow_inv_depth [OF f(1)] by (simp_all add: flow_ok_def)
    have "flow_inv M sys (B + 2 * length (tf_head (get_flow d ssn1))) ssn1 ?s2"
      using flow_inv_mono [OF f(1), of "B + 2 * length (tf_head (get_flow d ssn1))"] len(1) by (simp add: flow_inv_def)
    moreover have "accounts K (add_mset (g_work g) W) ssn1 ?s2" using r(3) by (simp add: accounts_def)
    ultimately obtain ssn2 s3 where "tcp_flow_flush sys d ssn1 ?s2 = Some (ssn2, s3)" "rec_inv M sys B ssn2 s3" "accounts K (add_mset (g_work g) W) ssn2 s3"
      using flush_settles [OF _ inv(2) len(2) f(3)] unfolding settles_def by blast
    then show ?thesis using fresh r(1) False by (simp add: reass_tcp_def Let_def)
  next
    case True
    let ?full = "tsegqe_len (get_flow d ssn1) \<ge> ucast (fs_depth s1)"
    show ?thesis
    proof (cases "?full \<or> \<not> sys_te_alloc sys (fs_te_req s1)")
      case False
      let ?s2 = "s1\<lparr>fs_te_req := fs_te_req s1 + 1, fs_te_live := fs_te_live s1 + 1\<rparr>"
      have "accounts K W ssn1 (te_free ?s2)" using r(3) by (simp add: accounts_def te_free_def)
      then have "settles M sys B K (add_mset (g_work g) W) (queue_segment sys d fl g ssn1 ?s2)"
        using queue_settles [of M sys B ssn1 ?s2 d fl g K W] f inv(2) g True by simp
      then show ?thesis using fresh r(1) True False by (simp add: reass_tcp_def Let_def te_alloc_def)
    next
      case drop: True
      then show ?thesis using fresh r True B
        by (cases ?full) (simp_all add: reass_tcp_def Let_def te_alloc_def rec_inv_def accounts_def flow_inv_def)
    qed
  qed
qed

text \<open>A packet that passed the checks of \<^verbatim>\<open>frcore_ip_process\<close> (total length at most 1582) and
  \<^verbatim>\<open>frcore_tcp_process\<close> (the headers are inside the total length), in a buffer that holds it.\<close>

definition tcp_checked :: "u8 list \<Rightarrow> bool" where
  "tcp_checked ip \<longleftrightarrow> (\<exists>ihl doff tot. ip_ihl ip 0 = Some ihl \<and> UP16 ip 2 = Some tot \<and> tcp_doff ip (ihl * 4) = Some doff \<and>
     (ihl + doff) * 4 \<le> unat tot \<and> unat tot \<le> 1582 \<and> unat tot \<le> length ip \<and> ihl * 4 + 20 \<le> length ip)"

text \<open>The segment \<open>tcp_flow_recovery\<close> reads from a packet.\<close>

definition packet_segment :: "nat \<Rightarrow> u8 list \<Rightarrow> segment option" where
  "packet_segment work ip = do {
     ihl \<leftarrow> ip_ihl ip 0; doff \<leftarrow> tcp_doff ip (ihl * 4); tot \<leftarrow> UP16 ip 2;
     seq \<leftarrow> UP32 ip (ihl * 4 + 4); ack \<leftarrow> UP32 ip (ihl * 4 + 8);
     Some \<lparr>g_work = work, g_seq = ucast seq, g_ack = ucast ack, g_data = drop (ihl * 4 + doff * 4) ip, g_len = of_nat (unat tot - (ihl + doff) * 4)\<rparr>
   }"

abbreviation counted :: "u16 \<Rightarrow> mpp_ssn \<Rightarrow> mpp_ssn" where
  "counted len ssn \<equiv> ssn\<lparr>ssn_pkts := ssn_pkts ssn + 1, ssn_bytes := ssn_bytes ssn + ucast len\<rparr>"

lemma recovery_cases:
  assumes "tcp_checked ip"
  obtains (drop) ssn' where "ssn' = ssn \<or> ssn' = counted len ssn"
      "tcp_flow_recovery sys work len ip d ssn s = Some (ssn', fstat_inc stat_ssn_drop (fwork_free work s))"
  | (segment) fl g where "packet_segment work ip = Some g" "g_work g = work" "g_ok fl g"
      "tcp_flow_recovery sys work len ip d ssn s = reass_tcp sys d fl g (counted len ssn) s"
proof -
  obtain ihl doff tot where h: "ip_ihl ip 0 = Some ihl" "UP16 ip 2 = Some tot" "tcp_doff ip (ihl * 4) = Some doff"
      "(ihl + doff) * 4 \<le> unat tot" "unat tot \<le> 1582" "unat tot \<le> length ip" "ihl * 4 + 20 \<le> length ip"
    using assms unfolding tcp_checked_def by blast
  obtain seq ack where sq: "UP32 ip (ihl * 4 + 4) = Some seq" "UP32 ip (ihl * 4 + 8) = Some ack"
    using UP_Some(2) [of "ihl * 4 + 4" ip] UP_Some(2) [of "ihl * 4 + 8" ip] h(7) by auto
  have b: "UP8 ip 9 = Some (ip ! 9)" "UP8 ip (ihl * 4 + 13) = Some (ip ! (ihl * 4 + 13))" using h(7) by (simp_all add: UP8_def)
  define n where "n = unat tot - (ihl + doff) * 4"
  have n: "int (unat tot) - int ((ihl + doff) * 4) = int n" "n \<le> 1582" using h(4,5) by (simp_all add: n_def)
  define fl where "fl = ip ! (ihl * 4 + 13)"
  define g where "g = \<lparr>g_work = work, g_seq = ucast seq, g_ack = ucast ack, g_data = drop (ihl * 4 + doff * 4) ip, g_len = of_nat n\<rparr>"
  have eq: "tcp_flow_recovery sys work len ip d ssn s =
      (if ip ! 9 = PROTO_TCP then if int n = 0 \<and> fl AND (TH_SYN OR TH_FIN OR TH_RST) = 0
         then Some (counted len ssn, fstat_inc stat_ssn_drop (fwork_free work s)) else reass_tcp sys d fl g (counted len ssn) s
       else Some (ssn, fstat_inc stat_ssn_drop (fwork_free work s)))"
    by (simp only: tcp_flow_recovery_def h(1-3) b sq Let_def n(1) Option.bind.simps fl_def g_def of_int_of_nat_eq)
  show ?thesis
  proof (cases "ip ! 9 = PROTO_TCP \<and> \<not> (n = 0 \<and> fl AND (TH_SYN OR TH_FIN OR TH_RST) = 0)")
    case False
    then show ?thesis using drop [of ssn] drop [of "counted len ssn"] by (cases "ip ! 9 = PROTO_TCP") (simp_all add: eq)
  next
    case True
    have "unat (of_nat n :: u64) = n" using n(2) by (simp add: unat_of_nat)
    then have "g_ok fl g" using True h(4,6) n(2) by (auto simp: g_ok_def g_def c_consts word_less_nat_alt n_def)
    moreover have "packet_segment work ip = Some g" using h(1-3) sq by (simp add: packet_segment_def g_def n_def)
    moreover have "g_work g = work" by (simp add: g_def)
    moreover have "tcp_flow_recovery sys work len ip d ssn s = reass_tcp sys d fl g (counted len ssn) s" using True by (auto simp: eq)
    ultimately show ?thesis using segment by blast
  qed
qed

lemma recovery_settles:
  assumes inv: "rec_inv M sys (B + 58) ssn s" "sys_ok sys" and ip: "tcp_checked ip" and acc: "accounts K W ssn s"
  shows "settles M sys B K (add_mset work W) (tcp_flow_recovery sys work len ip d ssn s)"
proof -
  have same: "rec_inv M sys B' (counted len ssn) s = rec_inv M sys B' ssn s" "accounts K W (counted len ssn) s = accounts K W ssn s" for B' W
    by (simp_all add: rec_inv_def flow_inv_def accounts_def held_def)
  from ip show ?thesis
  proof (cases rule: recovery_cases [where sys = sys and work = work and len = len and d = d and ssn = ssn and s = s])
    case (drop ssn')
    then show ?thesis
      using rec_inv_mono [OF inv(1), of B] acc by (auto simp: rec_inv_def accounts_def flow_inv_def held_def)
  next
    case (segment fl g)
    then show ?thesis using reass_settles [of M sys B "counted len ssn" s fl g K W d] same inv acc by simp
  qed
qed

lemma flush_reset_settles:
  assumes inv: "rec_inv M sys (B + 28) ssn s" "sys_ok sys" and acc: "accounts K W ssn s"
  shows "\<exists>ssn' s'. flush_reset sys d ssn s = Some (ssn', s') \<and> rec_inv M sys B ssn' s' \<and> accounts K W ssn' s' \<and>
    tf_head (get_flow d ssn') = [] \<and> tf_head (get_flow (reverse d) ssn') = tf_head (get_flow (reverse d) ssn)"
proof -
  let ?f = "get_flow d ssn"
  have f: "flow_inv M sys (B + 28) ssn s" "flow_ok M ?f" "flow_ok M (get_flow (reverse d) ssn)"
    using inv(1) unfolding rec_inv_split [of _ _ _ _ _ d] by simp_all
  have len: "length (tf_head ?f) \<le> 14" "list_all seg_ok (tf_head ?f)" using f(2) flow_inv_depth [OF f(1)] by (simp_all add: flow_ok_def)
  then have B: "flow_inv M sys (B + 2 * length (tf_head ?f)) ssn s" using flow_inv_mono [OF f(1)] by simp
  obtain a s' where l: "flush_loop sys d (tf_head ?f) ssn s =
      Some ((set_flow d (?f\<lparr>tf_head := [], tsegqe_len := tsegqe_len ?f - of_nat (length (tf_head ?f))\<rparr>) ssn)\<lparr>ssn_addr := a\<rparr>, s')"
      "flow_inv M sys B (ssn\<lparr>ssn_addr := a\<rparr>) s'" "freed s' = rev (map q_work (tf_head ?f)) @ freed s" "fs_te_live s' = fs_te_live s - length (tf_head ?f)"
    using flush_loop_outcome [OF B inv(2) len(2) refl] by blast
  let ?ssn = "(set_flow d (?f\<lparr>tf_enable := 1, rcv_nxt := 0, tsegqe_len := 0, tf_head := [], tf_rev := False\<rparr>) ssn)\<lparr>ssn_addr := a\<rparr>"
  have "flush_reset sys d ssn s = Some (?ssn, s')" using l(1) by (simp add: flush_reset_def)
  moreover have "rec_inv M sys B ?ssn s'"
    using l(2) f(3) flow_inv_depth [OF l(2)] by (simp add: rec_inv_split [of _ _ _ _ _ d] flow_ok_def flow_inv_def)
  moreover have "accounts K W ?ssn s'"
    using acc l(3,4) unfolding accounts_split [of _ _ _ _ d] by (simp add: ac_simps)
  ultimately show ?thesis by simp
qed

lemma flush_lock_settles:
  assumes "rec_inv M sys (B + 56) ssn s" "sys_ok sys" "accounts K W ssn s"
  shows "\<exists>ssn' s'. tcp_flow_flush_lock sys ssn s = Some (ssn', s') \<and> rec_inv M sys B ssn' s' \<and> mset (freed s') = W \<and> fs_te_live s' = K \<and>
    tf_head (flow_positive ssn') = [] \<and> tf_head (flow_negative ssn') = []"
proof -
  obtain ssn1 s1 where 1: "flush_reset sys FRC_SSN_POSIVTE_FLOW ssn s = Some (ssn1, s1)" "rec_inv M sys (B + 28) ssn1 s1" "accounts K W ssn1 s1"
      "tf_head (flow_positive ssn1) = []"
    using flush_reset_settles [of M sys "B + 28" ssn s K W FRC_SSN_POSIVTE_FLOW] assms by (auto simp: get_flow_def add.commute [of 56 B])
  obtain ssn2 s2 where 2: "flush_reset sys FRC_SSN_NEGATIVE_FLOW ssn1 s1 = Some (ssn2, s2)" "rec_inv M sys B ssn2 s2" "accounts K W ssn2 s2"
      "tf_head (flow_negative ssn2) = []" "tf_head (flow_positive ssn2) = []"
    using flush_reset_settles [OF 1(2) assms(2) 1(3), of FRC_SSN_NEGATIVE_FLOW] 1(4)
    by (auto simp: get_flow_def reverse_def c_consts)
  then show ?thesis using 1(1) by (simp add: tcp_flow_flush_lock_def accounts_def held_def)
qed

text \<open>What happens to a session, one after the other: its packets (the work item, its length, its bytes from the
  IP header on, and its direction), and commands that set the depth of the queues.\<close>

record packet =
  p_work :: nat
  p_len :: u16
  p_ip :: "u8 list"
  p_direction :: u8

datatype flow_event = Recover packet | Depth_command u8

fun recover_all :: "sys \<Rightarrow> flow_event list \<Rightarrow> mpp_ssn \<Rightarrow> flow_state \<Rightarrow> (mpp_ssn \<times> flow_state) option" where
  "recover_all sys [] ssn s = Some (ssn, s)"
| "recover_all sys (Recover p # es) ssn s = do {
     (ssn, s) \<leftarrow> tcp_flow_recovery sys (p_work p) (p_len p) (p_ip p) (p_direction p) ssn s;
     recover_all sys es ssn s
   }"
| "recover_all sys (Depth_command depth # es) ssn s =
     recover_all sys es ssn (snd (frcore_cmd_set_disorder_depth depth s))"

fun works :: "flow_event list \<Rightarrow> nat list" where
  "works [] = []"
| "works (Recover p # es) = p_work p # works es"
| "works (Depth_command depth # es) = works es"

text \<open>The packets are checked, and \<open>M\<close> bounds the depths that the command accepts.\<close>

primrec flow_event_ok :: "nat \<Rightarrow> flow_event \<Rightarrow> bool" where
  "flow_event_ok M (Recover p) \<longleftrightarrow> tcp_checked (p_ip p)"
| "flow_event_ok M (Depth_command depth) \<longleftrightarrow> depth \<le> FRCORE_DISORDER_DEPTH_MAX \<longrightarrow> unat depth \<le> M"

lemma set_depth_inv:
  assumes "rec_inv M sys B ssn s" "flow_event_ok M (Depth_command depth)"
  shows "rec_inv M sys B ssn (snd (frcore_cmd_set_disorder_depth depth s))"
    "accounts K W ssn (snd (frcore_cmd_set_disorder_depth depth s)) = accounts K W ssn s"
  using assms by (auto simp: frcore_cmd_set_disorder_depth_def rec_inv_def flow_inv_def depth_ok_def accounts_def c_consts
    word_less_nat_alt word_le_nat_alt)

lemma recover_all_settles:
  assumes "rec_inv M sys (B + 58 * length es) ssn s" "sys_ok sys" "list_all (flow_event_ok M) es" "accounts K W ssn s"
  shows "settles M sys B K (mset (works es) + W) (recover_all sys es ssn s)"
  using assms
proof (induction es arbitrary: ssn s W)
  case (Cons e es)
  show ?case
  proof (cases e)
    case (Recover p)
    have "rec_inv M sys (B + 58 * length es + 58) ssn s" "tcp_checked (p_ip p)" "list_all (flow_event_ok M) es"
      using Cons.prems(1,3) Recover by (simp_all add: algebra_simps)
    then obtain ssn1 s1 where "tcp_flow_recovery sys (p_work p) (p_len p) (p_ip p) (p_direction p) ssn s = Some (ssn1, s1)"
        "rec_inv M sys (B + 58 * length es) ssn1 s1" "accounts K (add_mset (p_work p) W) ssn1 s1" "list_all (flow_event_ok M) es"
      using recovery_settles [OF _ Cons.prems(2) _ Cons.prems(4)] unfolding settles_def by blast
    then show ?thesis using Cons.IH [OF _ Cons.prems(2), of ssn1 s1 "add_mset (p_work p) W"] Recover by simp
  next
    case (Depth_command depth)
    have "rec_inv M sys (B + 58 * length es) ssn s" using rec_inv_mono [OF Cons.prems(1)] by simp
    with Depth_command Cons.prems(3,4) show ?thesis
      using Cons.IH [OF set_depth_inv(1) Cons.prems(2)] set_depth_inv(2) [of M sys "B + 58 * length es" ssn s depth K W] by simp
  qed
qed simp

section \<open>The queues hold pieces of the streams\<close>

text \<open>The bytes one end sends, by sequence number, and the window of sequence numbers considered: less than
  half of the sequence space and without wrap-around.\<close>

record stream =
  st_byte :: "nat \<Rightarrow> u8"
  st_lo :: nat
  st_hi :: nat

definition window :: "stream \<Rightarrow> bool" where
  "window S \<longleftrightarrow> st_hi S \<le> st_lo S + 2 ^ 30 \<and> st_hi S < 2 ^ 32"

definition q_end :: "tseg_qent \<Rightarrow> nat" where
  "q_end q = unat (q_seq q) + unat (q_data_len q)"

definition piece :: "stream \<Rightarrow> tseg_qent \<Rightarrow> bool" where
  "piece S q \<longleftrightarrow> seg_ok q \<and> st_lo S \<le> unat (q_seq q) \<and> q_end q \<le> st_hi S \<and>
     take (unat (q_data_len q)) (q_data q) = map (st_byte S) [unat (q_seq q)..<q_end q]"

definition pieces :: "stream \<Rightarrow> tseg_qent list \<Rightarrow> bool" where
  "pieces S qs \<longleftrightarrow> list_all (piece S) qs \<and> sorted_wrt (\<lambda>p q. q_end p \<le> unat (q_seq q)) qs"

lemma pieces_simps [simp]: "pieces S []"
  "pieces S (q # qs) \<longleftrightarrow> piece S q \<and> (\<forall>r \<in> set qs. q_end q \<le> unat (q_seq r)) \<and> pieces S qs"
  "pieces S (ps @ qs) \<longleftrightarrow> pieces S ps \<and> pieces S qs \<and> (\<forall>p \<in> set ps. \<forall>q \<in> set qs. q_end p \<le> unat (q_seq q))"
  by (auto simp: pieces_def sorted_wrt_append)

lemma pieces_drop: "pieces S qs \<Longrightarrow> pieces S (drop n qs)"
  using pieces_simps(3) [of S "take n qs" "drop n qs"] by simp

text \<open>Differences of sequence numbers of a window are computed exactly.\<close>

lemma to_int_diff:
  assumes "unat x < 2 ^ 32" "unat y < 2 ^ 32" "unat x < unat y + 2 ^ 31" "unat y < unat x + 2 ^ 31"
  shows "to_int (x - y) = int (unat x) - int (unat y)"
proof -
  have "sint (ucast (x - y) :: u32) = signed_take_bit 31 (uint x - uint y)"
    by (simp add: sint_uint unsigned_ucast_eq uint_word_ariths) (simp add: signed_take_bit_eq_iff_take_bit_eq take_bit_eq_mod mod_mod_cancel)
  also have "\<dots> = uint x - uint y"
    using assms by (intro signed_take_bit_int_eq_self) (simp_all add: uint_nat del: of_nat_unat)
  finally show ?thesis by (simp add: to_int_def)
qed

lemma to_int_diff':
  assumes "window S" "st_lo S \<le> unat x" "unat x \<le> st_hi S" "st_lo S \<le> unat y" "unat y \<le> st_hi S"
  shows "to_int (x - y) = int (unat x) - int (unat y)"
  using assms by (intro to_int_diff) (simp_all add: window_def)

definition drop_front :: "nat \<Rightarrow> tseg_qent \<Rightarrow> tseg_qent" where
  "drop_front m q = q\<lparr>q_seq := q_seq q + of_nat m, q_data := drop m (q_data q), q_data_len := q_data_len q - of_nat m\<rparr>"

lemma map_upt_drop: "map f [i + m..<j] = drop m (map f [i..<j])"
  by (simp add: drop_map drop_upt)

lemma piece_drop_front:
  assumes "piece S q" "window S" "m < unat (q_data_len q)"
  shows "unat (q_seq (drop_front m q)) = unat (q_seq q) + m" "q_end (drop_front m q) = q_end q" "piece S (drop_front m q)"
proof -
  have q: "q_end q < 2 ^ 32" "unat (q_data_len q) \<le> 1600" "unat (q_data_len q) \<le> length (q_data q)"
    using assms(1,2) by (simp_all add: piece_def window_def seg_ok_def c_consts)
  show s: "unat (q_seq (drop_front m q)) = unat (q_seq q) + m"
    using q assms(3) by (simp add: drop_front_def unat_word_ariths unat_of_nat q_end_def)
  have "unat (q_data_len q - of_nat m) = unat (q_data_len q) - m"
    using q assms(3) by (subst unat_sub) (simp_all add: word_le_nat_alt unat_of_nat)
  then have l: "unat (q_data_len (drop_front m q)) = unat (q_data_len q) - m" by (simp add: drop_front_def)
  then show e: "q_end (drop_front m q) = q_end q" using s assms(3) by (simp add: q_end_def)
  have "take (unat (q_data_len q) - m) (drop m (q_data q)) = drop m (map (st_byte S) [unat (q_seq q)..<q_end q])"
    using assms(1,3) by (simp add: piece_def take_drop)
  moreover have "seg_ok (drop_front m q)"
    using q l assms(3) by (simp add: seg_ok_def drop_front_def c_consts word_less_nat_alt) linarith
  ultimately show "piece S (drop_front m q)"
    using assms(1) unfolding piece_def e s l by (simp add: drop_front_def map_upt_drop)
qed

lemma q_seq_u64: "unat (ucast (q_seq q) :: u64) = unat (q_seq q)"
  by simp

text \<open>Trimming the following segments leaves pieces that begin at or after the end of the new segment.\<close>

lemma trim_pieces:
  assumes "trim_following e qs = (removed, rest, t)" "pieces S qs" "window S" "st_lo S \<le> unat e" "unat e \<le> st_hi S"
  shows "pieces S rest \<and> (\<forall>q \<in> set rest. unat e \<le> unat (q_seq q) \<and> (\<exists>q' \<in> set qs. unat (q_seq q') \<le> unat (q_seq q)))"
  using assms(1,2)
proof (induction qs arbitrary: removed rest t)
  case (Cons q qs)
  let ?i = "to_int (e - ucast (q_seq q))"
  have q: "piece S q" "unat (q_data_len q) \<le> 1600" using Cons.prems(2) by (simp_all add: piece_def seg_ok_def c_consts)
  have i: "?i = int (unat e) - int (unat (q_seq q))"
    using to_int_diff' [OF assms(3-5), of "ucast (q_seq q)"] q(1) by (simp add: q_seq_u64 piece_def q_end_def)
  have l: "to_int (q_data_len q) = int (unat (q_data_len q))" using to_int_small [of "q_data_len q"] q(2) by simp
  define m where "m = unat e - unat (q_seq q)"
  consider (before) "unat e \<le> unat (q_seq q)" | (part) "0 < m" "m < unat (q_data_len q)" | (covered) "unat (q_seq q) < unat e" "unat e \<ge> q_end q"
    unfolding m_def q_end_def by linarith
  then show ?case
  proof cases
    case before
    then have "rest = q # qs" using Cons.prems(1) i by (simp add: Let_def del: of_nat_unat)
    moreover have "unat e \<le> unat (q_seq r)" if "r \<in> set (q # qs)" for r
      using that before Cons.prems(2) by (cases "r = q") (auto simp: q_end_def intro: order_trans)
    ultimately show ?thesis using Cons.prems(2) by blast
  next
    case part
    have e: "unat e = unat (q_seq q) + m" "?i = int m" using part i by (simp_all add: m_def)
    then have "rest = drop_front m q # qs" using Cons.prems(1) part l by (simp add: drop_front_def Let_def del: of_nat_unat)
    then show ?thesis using Cons.prems(2) piece_drop_front [OF q(1) assms(3) part(2)] part(2) e(1) by (fastforce simp: q_end_def)
  next
    case covered
    then have "\<not> ?i \<le> 0" "\<not> ?i < to_int (q_data_len q)" unfolding i l q_end_def by linarith+
    then obtain removed' t' where "trim_following e qs = (removed', rest, t')"
      using Cons.prems(1) by (auto simp: Let_def split: prod.splits)
    then show ?thesis using Cons.IH Cons.prems(2) by fastforce
  qed
qed simp

text \<open>A segment that agrees with the stream.\<close>

definition of_stream :: "stream \<Rightarrow> segment \<Rightarrow> bool" where
  "of_stream S g \<longleftrightarrow> st_lo S \<le> unat (g_seq g) \<and> unat (g_seq g) + unat (g_len g) \<le> st_hi S \<and>
     take (unat (g_len g)) (g_data g) = map (st_byte S) [unat (g_seq g)..<unat (g_seq g) + unat (g_len g)]"

lemma of_stream_drop:
  assumes "of_stream S g" "window S" "m < unat (g_len g)" "unat (g_len g) \<le> 1600"
  shows "of_stream S (g\<lparr>g_data := drop m (g_data g), g_seq := g_seq g + of_nat m, g_len := g_len g - of_nat m\<rparr>)"
    "unat (g_seq g + of_nat m) = unat (g_seq g) + m"
proof -
  show s: "unat (g_seq g + of_nat m) = unat (g_seq g) + m"
    using assms by (simp add: unat_word_ariths unat_of_nat of_stream_def window_def)
  have l: "unat (g_len g - of_nat m) = unat (g_len g) - m"
    using assms(3,4) by (subst unat_sub) (simp_all add: word_le_nat_alt unat_of_nat)
  have "take (unat (g_len g) - m) (drop m (g_data g)) = drop m (map (st_byte S) [unat (g_seq g)..<unat (g_seq g) + unat (g_len g)])"
    using assms(1,3) by (simp add: of_stream_def take_drop)
  then show "of_stream S (g\<lparr>g_data := drop m (g_data g), g_seq := g_seq g + of_nat m, g_len := g_len g - of_nat m\<rparr>)"
    using assms(1,3) by (simp add: of_stream_def s l map_upt_drop)
qed

text \<open>The functions that submit change the address of the block only; the flow of the other direction is not touched.\<close>

lemma sbumit_data_addr: "sbumit_data_to_fifo sys q ssn w = Some (rv, ssn', w') \<Longrightarrow> \<exists>a. ssn' = ssn\<lparr>ssn_addr := a\<rparr>"
  by (auto simp: sbumit_data_to_fifo_def submit_payload_def clear_flag_def Let_def bind_eq_Some_conv split: if_splits prod.splits intro: exI)

lemma send_packet_head: "send_packet sys d q qs ssn s = Some (ssn', s') \<Longrightarrow>
    tf_head (get_flow d ssn') = qs \<and> get_flow (reverse d) ssn' = get_flow (reverse d) ssn"
  by (auto simp: send_packet_def Let_def bind_eq_Some_conv dest!: sbumit_data_addr)

lemma flush_loop_other: "flush_loop sys d qs ssn s = Some (ssn', s') \<Longrightarrow> get_flow (reverse d) ssn' = get_flow (reverse d) ssn"
  by (induction qs arbitrary: ssn s) (fastforce simp: bind_eq_Some_conv dest: send_packet_head)+

lemma flush_heads: "tcp_flow_flush sys d ssn s = Some (ssn', s') \<Longrightarrow>
    tf_head (get_flow d ssn') = [] \<and> get_flow (reverse d) ssn' = get_flow (reverse d) ssn"
  by (auto simp: tcp_flow_flush_def bind_eq_Some_conv dest: flush_loop_other)

lemma ack_loop_heads: "ack_loop sys d qs ssn s = Some (ssn', s') \<Longrightarrow> tf_head (get_flow d ssn) = qs \<Longrightarrow>
    (\<exists>n. tf_head (get_flow d ssn') = drop n qs) \<and> get_flow (reverse d) ssn' = get_flow (reverse d) ssn"
proof (induction qs arbitrary: ssn s)
  case (Cons q qs)
  show ?case
  proof (cases "q_nxt_seq q \<le> rcv_nxt (get_flow d ssn)")
    case True
    then obtain ssn1 s1 where p: "send_packet sys d q qs ssn s = Some (ssn1, s1)" "ack_loop sys d qs ssn1 s1 = Some (ssn', s')"
      using Cons.prems(1) by (auto simp: Let_def bind_eq_Some_conv)
    then show ?thesis using Cons.IH [OF p(2)] send_packet_head [OF p(1)] by (metis drop_Suc_Cons)
  next
    case False
    then show ?thesis using Cons.prems by (auto simp: Let_def intro: exI [of _ 0])
  qed
qed auto

lemma reverse_heads: "send_reverse_tcpflow sys d ssn ack s = Some (ssn', s') \<Longrightarrow>
    (\<exists>n. tf_head (get_flow d ssn') = drop n (tf_head (get_flow d ssn))) \<and> get_flow (reverse d) ssn' = get_flow (reverse d) ssn"
  by (auto simp: send_reverse_tcpflow_def Let_def bind_eq_Some_conv split: if_splits dest!: ack_loop_heads flush_heads intro: exI [of _ "length (tf_head (get_flow d ssn))"])

definition streams_ok :: "stream \<Rightarrow> stream \<Rightarrow> u8 \<Rightarrow> mpp_ssn \<Rightarrow> bool" where
  "streams_ok S S' d ssn \<longleftrightarrow> pieces S (tf_head (get_flow d ssn)) \<and> pieces S' (tf_head (get_flow (reverse d) ssn))"

lemma place_pieces:
  assumes r: "place_segment sys d fl g n before rest f ssn s = Some (ssn', s')" and h: "tf_head f = before @ rest"
    and S: "pieces S (before @ rest)" "pieces S' (tf_head (get_flow (reverse d) ssn))" "window S"
    and g: "g_ok fl g" "fl AND (TH_FIN OR TH_RST) = 0" "of_stream S g" "\<forall>p \<in> set before. q_end p \<le> unat (g_seq g)"
      "\<forall>q \<in> set rest. unat (g_seq g) + unat (g_len g) \<le> unat (q_seq q)"
  shows "streams_ok S S' d ssn'"
proof (cases "fl AND TH_SYN = 0")
  case False
  then show ?thesis using r h S(1,2) by (auto simp: place_segment_def streams_ok_def)
next
  case True
  define te where "te = \<lparr>q_seq = ucast (g_seq g), q_ack_num = ucast (g_ack g), q_nxt_seq = n, q_work = g_work g,
    q_data = g_data g, q_data_len = g_len g, q_direction = ucast d\<rparr>"
  have "unat (ucast (g_seq g) :: u32) = unat (g_seq g)" using g(3) S(3) by (simp add: of_stream_def window_def unat_ucast_mod)
  then have te: "unat (q_seq te) = unat (g_seq g)" "q_end te = unat (g_seq g) + unat (g_len g)" "piece S te"
    using g(1,3) flags_clear [OF True g(2)] by (simp_all add: te_def q_end_def piece_def of_stream_def g_ok_def seg_ok_def)
  then have "pieces S (before @ te # rest)" using S(1) g(4,5) by simp
  moreover have "tf_head (get_flow d ssn') \<in> {[], before @ te # rest} \<and> get_flow (reverse d) ssn' = get_flow (reverse d) ssn"
    using r True by (auto simp: place_segment_def Let_def te_def split: if_splits dest!: flush_heads)
  ultimately show ?thesis using S(2) by (auto simp: streams_ok_def)
qed

lemma insert_pieces:
  assumes r: "insert_segment sys d fl g before after ssn s = Some (ssn', s')"
    and S: "pieces S (before @ after)" "pieces S' (tf_head (get_flow (reverse d) ssn))" "window S"
    and g: "g_ok fl g" "fl AND (TH_FIN OR TH_RST) = 0" "of_stream S g" "\<forall>p \<in> set before. q_end p \<le> unat (g_seq g)"
  shows "streams_ok S S' d ssn'"
proof -
  obtain removed rest t where t: "trim_following (g_seq g + g_len g) after = (removed, rest, t)" by (metis prod_cases3)
  have e: "unat (g_seq g + g_len g) = unat (g_seq g) + unat (g_len g)"
    using g(3) S(3) by (simp add: unat_word_ariths of_stream_def window_def)
  have rest: "pieces S rest" "\<forall>q \<in> set rest. unat (g_seq g) + unat (g_len g) \<le> unat (q_seq q)"
      "\<forall>q \<in> set rest. \<exists>q' \<in> set after. unat (q_seq q') \<le> unat (q_seq q)"
    using trim_pieces [OF t _ S(3)] S(1) g(3) by (simp_all add: e of_stream_def)
  then have "pieces S (before @ rest)" using S(1) by (simp, meson order_trans)
  then show ?thesis
    using place_pieces [of sys d fl g _ before rest _ ssn _ ssn' s' S S'] r S(2,3) g rest(2)
    by (auto simp: insert_segment_def t Let_def split: if_splits)
qed

text \<open>The two parts of a queue around a sequence number.\<close>

lemma split_pieces:
  assumes "pieces S qs" "window S" "st_lo S \<le> unat x" "unat x \<le> st_hi S"
  shows "\<forall>p \<in> set (takeWhile (seg_before x) qs). unat (q_seq p) \<le> unat x"
proof
  fix p assume "p \<in> set (takeWhile (seg_before x) qs)"
  then have p: "seg_before x p" "p \<in> set qs" by (auto dest: set_takeWhileD)
  then have "piece S p" using assms(1) by (auto simp: pieces_def list_all_iff)
  then have "to_int (ucast (q_seq p) - x) = int (unat (q_seq p)) - int (unat x)"
    using to_int_diff' [OF assms(2) _ _ assms(3,4), of "ucast (q_seq p)"] by (simp add: piece_def q_end_def)
  then show "unat (q_seq p) \<le> unat x" using p(1) by (simp add: seg_before_def SEQ_GT_def del: of_nat_unat)
qed

lemma queue_pieces:
  assumes r: "queue_segment sys d fl g ssn s = Some (ssn', s')" and S: "streams_ok S S' d ssn" "window S"
    and g: "g_ok fl g" "fl AND (TH_FIN OR TH_RST) = 0" "of_stream S g"
  shows "streams_ok S S' d ssn'"
proof -
  let ?f = "get_flow d ssn"
  define before where "before = takeWhile (seg_before (g_seq g)) (tf_head ?f)"
  define after where "after = dropWhile (seg_before (g_seq g)) (tf_head ?f)"
  have q: "tf_head ?f = before @ after" by (simp add: before_def after_def)
  have ps: "pieces S (before @ after)" "pieces S' (tf_head (get_flow (reverse d) ssn))" using S(1) by (simp_all add: streams_ok_def q)
  note insert = insert_pieces [OF _ ps S(2)]
  have le: "\<forall>p \<in> set before. unat (q_seq p) \<le> unat (g_seq g)"
    using split_pieces [of S "tf_head ?f" "g_seq g"] S g(3) by (simp add: streams_ok_def of_stream_def before_def)
  note unfold = queue_segment_def Let_def before_def [symmetric] after_def [symmetric]
  show ?thesis
  proof (cases "before = []")
    case True
    then have "insert_segment sys d fl g before after ssn s = Some (ssn', s')" using r by (simp add: unfold)
    from insert [OF this g] True show ?thesis by simp
  next
    case False
    define p where "p = last before"
    define i where "i = to_int (ucast (q_seq p) + q_data_len p - g_seq g)"
    have b: "before = butlast before @ [p]" using False by (simp add: p_def)
    have pp: "piece S p" "unat (q_seq p) \<le> unat (g_seq g)" "\<forall>x \<in> set (butlast before). q_end x \<le> unat (q_seq p)"
        "pieces S (butlast before)" "pieces S after" "\<forall>x \<in> set (butlast before). \<forall>y \<in> set after. q_end x \<le> unat (q_seq y)" "\<forall>y \<in> set after. q_end p \<le> unat (q_seq y)"
      using ps(1) le by (subst (asm) (1 2) b, simp)+
    have len: "unat (g_len g) \<le> 1600" "to_int (g_len g) = int (unat (g_len g))"
      using g(1) to_int_small [of "g_len g"] by (simp_all add: g_ok_def c_consts)
    have "unat (ucast (q_seq p) + q_data_len p) = q_end p"
      using pp(1) S(2) by (simp add: unat_word_ariths piece_def window_def q_end_def)
    then have i: "i = int (q_end p) - int (unat (g_seq g))"
      using to_int_diff' [OF S(2), of "ucast (q_seq p) + q_data_len p" "g_seq g"] pp(1) g(3)
      by (simp add: i_def piece_def of_stream_def q_end_def del: of_nat_unat)
    have ends: "\<forall>x \<in> set before. q_end x \<le> max (unat (g_seq g)) (q_end p)"
      using pp(2,3) by (subst b) (auto simp: le_max_iff_disj intro: order_trans)
    let ?p' = "p\<lparr>q_work := g_work g, q_seq := ucast (g_seq g), q_ack_num := ucast (g_ack g), q_data := g_data g, q_data_len := g_len g\<rparr>"
    let ?g = "g\<lparr>g_data := drop (nat i) (g_data g), g_seq := g_seq g + of_int i, g_len := g_len g - of_int i\<rparr>"
    consider (drop) "ssn' = ssn" | (same_end) "0 < i" "i = to_int (g_len g)" "ssn' = set_flow d (?f\<lparr>tf_head := butlast before @ ?p' # after\<rparr>) ssn"
      | (part) "0 < i" "i < to_int (g_len g)" "insert_segment sys d fl ?g before after ssn (fstat_inc stat_tcpflowrec_part_retrans s) = Some (ssn', s')"
      | (behind) "i \<le> 0" "insert_segment sys d fl g before after ssn s = Some (ssn', s')"
      using r False unfolding unfold p_def [symmetric] i_def [symmetric] by (auto split: if_splits)
    then show ?thesis
    proof cases
      case drop
      then show ?thesis using S(1) by simp
    next
      case same_end
      have "unat (ucast (g_seq g) :: u32) = unat (g_seq g)" using g(3) S(2) by (simp add: of_stream_def window_def unat_ucast_mod)
      moreover have "0 < g_len g" using same_end(1,2) len(2) by (cases "g_len g = 0") (simp_all add: word_neq_0_conv)
      moreover have "q_end p = unat (g_seq g) + unat (g_len g)" using same_end(2) len(2) i by linarith
      ultimately have p': "unat (q_seq ?p') = unat (g_seq g)" "q_end ?p' = q_end p" "piece S ?p'"
        using g(1,3) by (simp_all add: q_end_def piece_def of_stream_def g_ok_def seg_ok_def)
      have "pieces S (butlast before @ ?p' # after)"
        using pp p' by (auto intro: order_trans)
      then show ?thesis using ps(2) same_end(3) by (simp add: streams_ok_def)
    next
      case part
      define m where "m = nat i"
      have m: "i = int m" "m < unat (g_len g)" using part(1,2) len(2) by (simp_all add: m_def nat_less_iff)
      note g' = of_stream_drop [OF g(3) S(2) m(2) len(1)]
      have "unat (g_seq g) + m = q_end p" using i m(1) by linarith
      then show ?thesis
        using insert [OF part(3) g_ok_trim [OF g(1) part(1,2)] g(2)] g' ends by (simp add: m(1))
    next
      case behind
      then have "q_end p \<le> unat (g_seq g)" using i by linarith
      then show ?thesis using insert [OF behind(2) g] ends by simp
    qed
  qed
qed

lemma reverse_reverse: "get_flow (reverse (reverse d)) ssn = get_flow d ssn"
  by (simp add: get_flow_def reverse_def c_consts)

lemma reass_pieces:
  assumes r: "reass_tcp sys d fl g ssn s = Some (ssn', s')" and S: "streams_ok S S' d ssn" "window S"
    and g: "g_ok fl g" "of_stream S g"
  shows "streams_ok S S' d ssn'"
proof (cases "g_seq g < ucast (if d = FRC_SSN_POSIVTE_FLOW then ssn_seq ssn else ssn_ack_seq ssn)")
  case True
  then show ?thesis using r S(1) by (auto simp: reass_tcp_def Let_def)
next
  case fresh: False
  let ?r = "if tf_rev (get_flow d ssn) \<and> tf_head (get_flow (reverse d) ssn) \<noteq> [] then send_reverse_tcpflow sys (reverse d) ssn (g_ack g) s else Some (ssn, s)"
  obtain ssn1 s1 where r1: "?r = Some (ssn1, s1)" using r fresh by (auto simp: reass_tcp_def Let_def bind_eq_Some_conv)
  have S1: "streams_ok S S' d ssn1"
  proof (cases "tf_rev (get_flow d ssn) \<and> tf_head (get_flow (reverse d) ssn) \<noteq> []")
    case True
    then have "send_reverse_tcpflow sys (reverse d) ssn (g_ack g) s = Some (ssn1, s1)" using r1 by simp
    from reverse_heads [OF this] show ?thesis using S(1) by (auto simp: streams_ok_def reverse_reverse pieces_drop)
  next
    case False
    then show ?thesis using r1 [unfolded if_not_P [OF False]] S(1) by simp
  qed
  have stat: "streams_ok S S' d (frcore_remove_chain_by_timer ssn) = streams_ok S S' d ssn" for ssn
    by (simp add: frcore_remove_chain_by_timer_def streams_ok_def get_flow_def)
  show ?thesis
  proof (cases "fl AND (TH_FIN OR TH_RST) = 0")
    case False
    then obtain ssn2 s2 where "tcp_flow_flush sys d ssn1 (fstat_inc stat_ssn_drop (fwork_free (g_work g) s1)) = Some (ssn2, s2)"
        "ssn' = frcore_remove_chain_by_timer ssn2"
      using r fresh r1 by (auto simp: reass_tcp_def Let_def bind_eq_Some_conv)
    then show ?thesis using S1 flush_heads by (simp add: stat) (auto simp: streams_ok_def dest!: flush_heads)
  next
    case True
    then have "ssn' = ssn1 \<or> (\<exists>s2. queue_segment sys d fl g ssn1 s2 = Some (ssn', s'))"
      using r fresh r1 by (auto simp: reass_tcp_def Let_def te_alloc_def split: if_splits)
    then show ?thesis using S1 queue_pieces [OF _ S1 S(2) g(1) True g(2)] by blast
  qed
qed

lemma recovery_pieces:
  assumes r: "tcp_flow_recovery sys work len ip d ssn s = Some (ssn', s')" and S: "streams_ok S S' d ssn" "window S"
    and ip: "tcp_checked ip" "\<forall>g. packet_segment work ip = Some g \<longrightarrow> of_stream S g"
  shows "streams_ok S S' d ssn'"
proof -
  have same: "streams_ok S S' d (counted len ssn) = streams_ok S S' d ssn" by (simp add: streams_ok_def get_flow_def)
  from ip(1) show ?thesis
  proof (cases rule: recovery_cases [where sys = sys and work = work and len = len and d = d and ssn = ssn and s = s])
    case (drop x)
    then show ?thesis using r S same by auto
  next
    case (segment fl g)
    then show ?thesis using reass_pieces [of sys d fl g "counted len ssn" s ssn' s' S S'] r S ip(2) same by simp
  qed
qed

text \<open>\<open>S\<close> is the stream of the positive and \<open>S'\<close> that of the negative direction.\<close>

primrec stream_event :: "nat \<Rightarrow> stream \<Rightarrow> stream \<Rightarrow> flow_event \<Rightarrow> bool" where
  "stream_event M S S' (Recover p) \<longleftrightarrow> tcp_checked (p_ip p) \<and>
     (\<forall>g. packet_segment (p_work p) (p_ip p) = Some g \<longrightarrow> of_stream (if p_direction p = FRC_SSN_POSIVTE_FLOW then S else S') g)"
| "stream_event M S S' (Depth_command depth) \<longleftrightarrow> flow_event_ok M (Depth_command depth)"

lemma stream_event_ok: "stream_event M S S' e \<Longrightarrow> flow_event_ok M e"
  by (cases e) simp_all

lemma streams_ok_direction: "streams_ok (if d = FRC_SSN_POSIVTE_FLOW then S else S') (if d = FRC_SSN_POSIVTE_FLOW then S' else S) d ssn \<longleftrightarrow>
    pieces S (tf_head (flow_positive ssn)) \<and> pieces S' (tf_head (flow_negative ssn))"
  by (auto simp: streams_ok_def get_flow_def reverse_def c_consts)

lemma recover_all_pieces:
  assumes "recover_all sys es ssn s = Some (ssn', s')" "window S" "window S'" "list_all (stream_event M S S') es"
    "pieces S (tf_head (flow_positive ssn)) \<and> pieces S' (tf_head (flow_negative ssn))"
  shows "pieces S (tf_head (flow_positive ssn')) \<and> pieces S' (tf_head (flow_negative ssn'))"
  using assms
proof (induction es arbitrary: ssn s)
  case (Cons e es)
  show ?case
  proof (cases e)
    case (Recover p)
    then obtain ssn1 s1 where 1: "tcp_flow_recovery sys (p_work p) (p_len p) (p_ip p) (p_direction p) ssn s = Some (ssn1, s1)" "recover_all sys es ssn1 s1 = Some (ssn', s')"
      using Cons.prems(1) by (auto simp: bind_eq_Some_conv)
    have "pieces S (tf_head (flow_positive ssn1)) \<and> pieces S' (tf_head (flow_negative ssn1))"
      using recovery_pieces [OF 1(1), of "if p_direction p = FRC_SSN_POSIVTE_FLOW then S else S'" "if p_direction p = FRC_SSN_POSIVTE_FLOW then S' else S"]
        Cons.prems(2-5) Recover
      unfolding streams_ok_direction by simp
    then show ?thesis using Cons.IH [OF 1(2)] Cons.prems(2-4) by simp
  next
    case (Depth_command depth)
    then show ?thesis using Cons.IH [OF _ Cons.prems(2,3) _ Cons.prems(5)] Cons.prems(1,4) by simp
  qed
qed simp

section \<open>Properties\<close>

text \<open>A session with empty queues, and a packet with 20 bytes of payload in a buffer of 60 bytes.\<close>

definition empty_flow :: tcp_flow_data where
  "empty_flow = \<lparr>rcv_nxt = 0, tf_head = [], tsegqe_len = 0, tf_enable = 0, tf_rev = True\<rparr>"

definition empty_ssn :: mpp_ssn where
  "empty_ssn = \<lparr>ssn_key = \<lparr>key0 = 0, key1 = 0, key2 = 0, key3 = 0\<rparr>, cont1 = 0, cont2 = 0,
     ssn_addr = \<lparr>a_block_addr = 0, a_head_offset = 0, a_info_offset = 0, a_payload_offset = 0, a_addr_flag = 0, a_payload_len = 0, a_pkt_num = 0\<rparr>,
     ssn_pkts = 0, ssn_bytes = 0, next_sc = None, ssn_status = 0, ssn_index = 0, ssn_ttl = 5, ssn_age = 5, ssn_seq = 0, ssn_ack_seq = 0,
     flow_positive = empty_flow, flow_negative = empty_flow\<rparr>"

definition quiet_sys :: sys where
  "quiet_sys = \<lparr>sys_env = quiet_env, sys_core = 0, sys_te_alloc = \<lambda>_. True\<rparr>"

definition start_flow :: flow_state where
  "start_flow = \<lparr>fs_world = ssn_start quiet_env [4096], fs_te_req = 0, fs_te_live = 0, fs_depth = disorder_depth\<rparr>"

definition tcp_ip :: "u32 \<Rightarrow> u8 \<Rightarrow> nat \<Rightarrow> u8 list" where
  "tcp_ip seq flags n = [0x45, 0] @ PACK_U16 (of_nat (40 + n)) @ replicate 5 0 @ [6] @ replicate 10 0 @
     replicate 4 0 @ PACK_U32 seq @ PACK_U32 0 @ [0x50, flags] @ replicate 6 0 @ replicate n 7"

lemma quiet_sys_ok: "sys_ok quiet_sys"
  by (simp add: sys_ok_def quiet_sys_def transfers_recover_def FRC_DAT_CORE_NUM_def)

lemma start_flow_ok: "B < 2 ^ 64 \<Longrightarrow> 5 \<le> M \<Longrightarrow> M \<le> 15 \<Longrightarrow> rec_inv M quiet_sys B empty_ssn start_flow" "accounts 0 {#} empty_ssn start_flow"
proof -
  show "rec_inv M quiet_sys B empty_ssn start_flow" if "B < 2 ^ 64" "5 \<le> M" "M \<le> 15"
    using ssn_start_ok [of quiet_env "[4096]" B] that
    by (simp add: env_fits_examples FRC_SSN_RING_SIZE_def rec_inv_def flow_inv_def quiet_sys_def start_flow_def empty_ssn_def addr_ok_def
      flow_ok_def empty_flow_def depth_ok_def c_consts)
  show "accounts 0 {#} empty_ssn start_flow"
    by (simp add: accounts_def start_flow_def empty_ssn_def empty_flow_def held_def ssn_start_def)
qed

lemma tcp_ip_fields:
  "length (tcp_ip seq flags n) = 40 + n" "UP8 (tcp_ip seq flags n) 9 = Some 6" "UP8 (tcp_ip seq flags n) 33 = Some flags"
  "ip_ihl (tcp_ip seq flags n) 0 = Some 5" "tcp_doff (tcp_ip seq flags n) 20 = Some 5"
  "UP16 (tcp_ip seq flags n) 2 = Some (of_nat (40 + n))" "UP32 (tcp_ip seq flags n) 24 = Some seq" "UP32 (tcp_ip seq flags n) 28 = Some 0"
  by (simp_all add: tcp_ip_def UP8_def ip_ihl_def tcp_doff_def UP16_unpack UP32_unpack arr_get_def nth_append drop_bit_eq_div)

lemma tcp_ip_checked: "n \<le> 1500 \<Longrightarrow> tcp_checked (tcp_ip seq flags n)"
proof -
  assume n: "n \<le> 1500"
  then have "unat (of_nat (40 + n) :: u16) = 40 + n" by (simp only: unat_of_nat) simp
  then show ?thesis using n unfolding tcp_checked_def
    by (intro exI [of _ 5] exI [of _ "of_nat (40 + n)"]) (simp add: tcp_ip_fields del: of_nat_add)
qed

text \<open>
  C6. Every packet is freed exactly once. Whatever the flags, the sequence numbers, the transfer errors and the
  allocation failures of a sequence of packets on both directions of a session, and whatever depths of the queues
  are set by commands between them, \<^verbatim>\<open>tcp_flow_recovery\<close> returns for each
  of them, and after the final \<^verbatim>\<open>tcp_flow_flush_lock\<close> the freed work items are those freed before and
  those of the packets, each once; the queues are empty and no queue entry is leaked.
\<close>

theorem recovered_packets_freed_once:
  assumes "rec_inv 15 sys (B + 56 + 58 * length es) ssn s" "sys_ok sys" "\<forall>p. Recover p \<in> set es \<longrightarrow> tcp_checked (p_ip p)" "accounts K W ssn s"
  shows "\<exists>ssn1 s1 ssn2 s2. recover_all sys es ssn s = Some (ssn1, s1) \<and> tcp_flow_flush_lock sys ssn1 s1 = Some (ssn2, s2) \<and>
    mset (freed s2) = W + mset (works es) \<and> fs_te_live s2 = K \<and> tf_head (flow_positive ssn2) = [] \<and> tf_head (flow_negative ssn2) = []"
proof -
  have "flow_event_ok 15 e" if "e \<in> set es" for e
    using assms(3) that by (induction e) (simp_all add: c_consts word_le_nat_alt)
  then have "list_all (flow_event_ok 15) es" by (simp add: list_all_iff)
  then obtain ssn1 s1 where 1: "recover_all sys es ssn s = Some (ssn1, s1)" "rec_inv 15 sys (B + 56) ssn1 s1" "accounts K (mset (works es) + W) ssn1 s1"
    using recover_all_settles [OF assms(1,2) _ assms(4)] unfolding settles_def by blast
  then show ?thesis using flush_lock_settles [OF 1(2) assms(2) 1(3)] by (metis add.commute)
qed

theorem recovered_packets_freed_once_witness:
  "\<exists>ssn1 s1 ssn2 s2. recover_all quiet_sys [Depth_command 15, Recover \<lparr>p_work = 7, p_len = 74, p_ip = tcp_ip 100 0x10 20, p_direction = 0\<rparr>, Depth_command 1] empty_ssn start_flow = Some (ssn1, s1) \<and>
    tcp_flow_flush_lock quiet_sys ssn1 s1 = Some (ssn2, s2) \<and> mset (freed s2) = {#7#}"
  using recovered_packets_freed_once [of quiet_sys 0 "[Depth_command 15, Recover \<lparr>p_work = 7, p_len = 74, p_ip = tcp_ip 100 0x10 20, p_direction = 0\<rparr>, Depth_command 1]" empty_ssn start_flow 0 "{#}"]
    start_flow_ok quiet_sys_ok
  by (simp add: tcp_ip_checked) blast

text \<open>
  C23. A segment stays inside its block. \<^verbatim>\<open>sbumit_data_to_fifo\<close> hands the work item back whatever happens; when it
  returns 0, it submitted the payload and the info at an address where the payload begins after the
  block header and behind the payloads before it, ends at or before the info, and the info ends where
  the infos before it begin, inside the 8192 bytes of the block; the next segment is put behind it.
\<close>

theorem segment_fits_block:
  assumes "ssn_ok (sys_env sys) (Suc (Suc B)) w" "sys_ok sys" "seg_ok q" "addr_ok (ssn_addr ssn)"
  shows "\<exists>rv a' w'. sbumit_data_to_fifo sys q ssn w = Some (rv, ssn\<lparr>ssn_addr := a'\<rparr>, w') \<and> s_freed w' = q_work q # s_freed w \<and> addr_ok a' \<and>
    (rv = 0 \<longrightarrow> (\<exists>a w0. sbumit_data_to_fifo sys q ssn w = submit_payload sys q (ssn\<lparr>ssn_addr := a\<rparr>) w0 \<and>
       unat (a_payload_offset a) = 40 + sizeof_hdr + unat (a_payload_len a) \<and>
       unat (a_payload_offset a) + unat (q_data_len q) \<le> unat (a_info_offset a) \<and>
       unat (a_info_offset a) + sizeof_info * (unat (a_pkt_num a) + 1) = FRC_DMA_SSN_BLOCK_SIZE \<and>
       unat (a_payload_offset a') = unat (a_payload_offset a) + unat (q_data_len q) \<and>
       unat (a_info_offset a') + sizeof_info = unat (a_info_offset a)))"
proof -
  obtain rv a' w' where r: "sbumit_data_to_fifo sys q ssn w = Some (rv, ssn\<lparr>ssn_addr := a'\<rparr>, w')" "s_freed w' = q_work q # s_freed w" "addr_ok a'"
      "rv = 0 \<longrightarrow> (\<exists>a w0. sbumit_data_to_fifo sys q ssn w = submit_payload sys q (ssn\<lparr>ssn_addr := a\<rparr>) w0 \<and>
         fits_block q a \<and> a' = advance_addr (q_data_len q) a)"
    using sbumit_data_outcome [OF assms] by blast
  have geometry: "unat (a_payload_offset a) = 40 + sizeof_hdr + unat (a_payload_len a) \<and>
       unat (a_payload_offset a) + unat (q_data_len q) \<le> unat (a_info_offset a) \<and>
       unat (a_info_offset a) + sizeof_info * (unat (a_pkt_num a) + 1) = FRC_DMA_SSN_BLOCK_SIZE \<and>
       unat (a_payload_offset (advance_addr (q_data_len q) a)) = unat (a_payload_offset a) + unat (q_data_len q) \<and>
       unat (a_info_offset (advance_addr (q_data_len q) a)) + sizeof_info = unat (a_info_offset a)" if "fits_block q a" for a
    using that advance_layout [of a "q_data_len q"] by (simp add: fits_block_def block_layout_def sizeof_hdr_def sizeof_info_def)
  show ?thesis using r geometry by (intro exI [of _ rv] exI [of _ a'] exI [of _ w']) blast
qed

definition small_seg :: tseg_qent where
  "small_seg = \<lparr>q_seq = 100, q_ack_num = 0, q_nxt_seq = 103, q_work = 7, q_data = [1, 2, 3], q_data_len = 3, q_direction = 0\<rparr>"

theorem segment_fits_block_witness:
  "\<exists>rv a' w'. sbumit_data_to_fifo quiet_sys small_seg empty_ssn (fs_world start_flow) = Some (rv, empty_ssn\<lparr>ssn_addr := a'\<rparr>, w') \<and> s_freed w' = [7]"
proof -
  have "ssn_ok (sys_env quiet_sys) (Suc (Suc 0)) (fs_world start_flow)" "addr_ok (ssn_addr empty_ssn)" "s_freed (fs_world start_flow) = []" "seg_ok small_seg"
    using start_flow_ok(1) [of "Suc (Suc 0)" 5] by (simp_all add: rec_inv_def flow_inv_def start_flow_def ssn_start_def seg_ok_def small_seg_def c_consts)
  then show ?thesis using segment_fits_block [of quiet_sys 0 "fs_world start_flow" small_seg empty_ssn, OF _ quiet_sys_ok]
    by (simp add: small_seg_def) blast
qed

text \<open>
  C5. The queues hold the streams. Let the packets of both directions carry bytes of two streams, in any order,
  repeated and overlapping, inside a window of 2^30 sequence numbers without wrap-around, and let commands set the
  depth of the queues between them. Let \<open>M\<close>, at most 15, bound the depth at the beginning, each depth that
  a command asks for and that is accepted, and be more than the lengths of the queues at the beginning. After any sequence of them the queue of
  each direction holds fewer than \<open>M\<close> segments, in the order of their sequence numbers and without overlap, and
  the data of each is the part of the stream its sequence number and length name. With the initial depth and no
  command, \<open>M\<close> is 5; with any commands, 15.
\<close>

theorem queues_hold_stream_pieces:
  assumes "rec_inv M sys (B + 58 * length es) ssn s" "sys_ok sys" "accounts K W ssn s"
    and "window S" "window S'" "\<forall>e \<in> set es. stream_event M S S' e"
    and "pieces S (tf_head (flow_positive ssn)) \<and> pieces S' (tf_head (flow_negative ssn))"
  shows "\<exists>ssn' s'. recover_all sys es ssn s = Some (ssn', s') \<and>
    pieces S (tf_head (flow_positive ssn')) \<and> length (tf_head (flow_positive ssn')) < M \<and> tsegqe_len (flow_positive ssn') = of_nat (length (tf_head (flow_positive ssn'))) \<and>
    pieces S' (tf_head (flow_negative ssn')) \<and> length (tf_head (flow_negative ssn')) < M \<and> tsegqe_len (flow_negative ssn') = of_nat (length (tf_head (flow_negative ssn')))"
proof -
  have es: "list_all (stream_event M S S') es" "list_all (flow_event_ok M) es"
    using assms(6) stream_event_ok by (auto simp: list_all_iff)
  obtain ssn' s' where r: "recover_all sys es ssn s = Some (ssn', s')" "rec_inv M sys B ssn' s'"
    using recover_all_settles [OF assms(1,2) es(2) assms(3)] by (auto simp: settles_def)
  then show ?thesis
    using recover_all_pieces [OF r(1) assms(4,5) es(1) assms(7)] by (simp add: rec_inv_def flow_ok_def)
qed

definition sevens :: stream where
  "sevens = \<lparr>st_byte = \<lambda>_. 7, st_lo = 0, st_hi = 1000\<rparr>"

lemma tcp_ip_stream: "n \<le> 100 \<Longrightarrow> unat seq \<le> 900 \<Longrightarrow> stream_event M sevens sevens (Recover \<lparr>p_work = work, p_len = len, p_ip = tcp_ip seq flags n, p_direction = d\<rparr>)"
proof -
  assume n: "n \<le> 100" "unat seq \<le> 900"
  have u: "unat (of_nat (40 + n) :: u16) = 40 + n" "unat (of_nat n :: u64) = n" using n(1) by (simp_all only: unat_of_nat) simp_all
  have "packet_segment work (tcp_ip seq flags n) = Some \<lparr>g_work = work, g_seq = ucast seq, g_ack = 0, g_data = replicate n 7, g_len = of_nat n\<rparr>"
    using u(1) by (simp add: packet_segment_def tcp_ip_fields del: of_nat_add) (simp add: tcp_ip_def)
  then show ?thesis
    using n u tcp_ip_checked [of n seq flags]
    by (auto simp: of_stream_def sevens_def map_replicate_const)
qed

definition two_packets :: "flow_event list" where
  "two_packets = [Recover \<lparr>p_work = 7, p_len = 74, p_ip = tcp_ip 130 0x10 20, p_direction = 0\<rparr>, Depth_command 9,
     Recover \<lparr>p_work = 8, p_len = 90, p_ip = tcp_ip 100 0x10 36, p_direction = 0\<rparr>]"

lemma two_packets_ok: "\<forall>e \<in> set two_packets. stream_event 9 sevens sevens e" "length two_packets = 3" "window sevens"
  "pieces S (tf_head (flow_positive empty_ssn)) \<and> pieces S' (tf_head (flow_negative empty_ssn))"
  by (simp_all add: two_packets_def tcp_ip_stream del: stream_event.simps(1))
    (simp_all add: window_def sevens_def empty_ssn_def empty_flow_def)

theorem queues_hold_stream_pieces_witness:
  "\<exists>ssn' s'. recover_all quiet_sys two_packets empty_ssn start_flow = Some (ssn', s') \<and> pieces sevens (tf_head (flow_positive ssn')) \<and>
     length (tf_head (flow_positive ssn')) < 9"
  using queues_hold_stream_pieces [of 9 quiet_sys 0 two_packets, OF start_flow_ok(1) quiet_sys_ok start_flow_ok(2) two_packets_ok(3,3,1,4)]
  by (simp add: two_packets_ok(2)) blast

text \<open>
  C24. A retransmission that ends where the only queued segment ends replaces it, whatever its beginning: the bytes
  of the queued segment before the beginning of the new one are in the queue no more, and its work item is freed
  without having been submitted. The conditions are those on which \<^verbatim>\<open>reass_tcp\<close> reaches that branch: the segment
  begins after the queued one and is not before the first sequence number of its direction, carries no FIN and no RST, an entry of the pool can be
  allocated, one segment is queued and the depth is more than one, and the queue of the other direction is empty or is not
  looked at.
\<close>

theorem suffix_retransmission_loses_bytes:
  assumes "tf_head (get_flow d ssn) = [p]" "flow_ok M (get_flow d ssn)" "1 < fs_depth s"
    and "\<not> tf_rev (get_flow d ssn) \<or> tf_head (get_flow (reverse d) ssn) = []"
    and "window S" "piece S p" "of_stream S g" "g_ok fl g" "fl AND (TH_FIN OR TH_RST) = 0"
    and "unat (q_seq p) < unat (g_seq g)" "unat (g_seq g) + unat (g_len g) = q_end p" "0 < g_len g"
    and "ucast (if d = FRC_SSN_POSIVTE_FLOW then ssn_seq ssn else ssn_ack_seq ssn) \<le> g_seq g" "sys_te_alloc sys (fs_te_req s)"
  shows "\<exists>p' s'. reass_tcp sys d fl g ssn s = Some (set_flow d ((get_flow d ssn)\<lparr>tf_head := [p']\<rparr>) ssn, s') \<and>
    unat (q_seq p') = unat (g_seq g) \<and> q_work p' = g_work g \<and> freed s' = q_work p # freed s"
proof -
  let ?s = "s\<lparr>fs_te_req := fs_te_req s + 1, fs_te_live := fs_te_live s + 1\<rparr>"
  let ?p' = "p\<lparr>q_work := g_work g, q_seq := ucast (g_seq g), q_ack_num := ucast (g_ack g), q_data := g_data g, q_data_len := g_len g\<rparr>"
  have bounds: "st_lo S \<le> unat (q_seq p)" "q_end p \<le> st_hi S" "unat (q_data_len p) \<le> 1600" "unat (g_len g) \<le> 1600"
    using assms(6,8) by (simp_all add: piece_def seg_ok_def g_ok_def c_consts)
  have before: "to_int (ucast (q_seq p) - g_seq g) = int (unat (q_seq p)) - int (unat (g_seq g))"
    using to_int_diff' [OF assms(5), of "ucast (q_seq p)" "g_seq g"] bounds assms(10,11) by simp
  have e: "unat (ucast (q_seq p) + q_data_len p) = q_end p"
    using bounds assms(5) by (simp add: unat_word_ariths window_def q_end_def)
  have i: "to_int (ucast (q_seq p) + q_data_len p - g_seq g) = int (unat (g_len g))"
    using to_int_diff' [OF assms(5), of "ucast (q_seq p) + q_data_len p" "g_seq g"] bounds assms(10,11) unfolding e q_end_def by linarith
  have l: "to_int (g_len g) = int (unat (g_len g))" using to_int_small [of "g_len g"] bounds(4) by simp
  have "unat (g_seq g - ucast (q_seq p)) = unat (g_seq g) - unat (q_seq p)"
    using assms(10) by (subst unat_sub) (simp_all add: word_le_nat_alt)
  then have near: "\<not> g_seq g - ucast (q_seq p) > 65536" using bounds(3) assms(11) by (simp add: word_less_nat_alt q_end_def)
  have "queue_segment sys d fl g ssn ?s = Some (set_flow d ((get_flow d ssn)\<lparr>tf_head := [?p']\<rparr>) ssn,
      fstat_inc stat_tcpflowrec_retrans_drop (fstat_inc stat_tcpflowrec_retrans (fwork_free (q_work p) (te_free ?s))))"
    using assms(1,10,12) before near i l by (simp add: queue_segment_def Let_def seg_before_def SEQ_GT_def word_less_nat_alt del: of_nat_unat)
  moreover have "\<not> tsegqe_len (get_flow d ssn) \<ge> ucast (fs_depth s)" using assms(1-3) by (simp add: flow_ok_def word_le_nat_alt word_less_nat_alt)
  moreover have fresh: "\<not> g_seq g < ucast (if d = FRC_SSN_POSIVTE_FLOW then ssn_seq ssn else ssn_ack_seq ssn)" using assms(13) by (simp only: not_less)
  moreover have alone: "\<not> (tf_rev (get_flow d ssn) \<and> tf_head (get_flow (reverse d) ssn) \<noteq> [])" using assms(4) by simp
  ultimately have "reass_tcp sys d fl g ssn s = Some (set_flow d ((get_flow d ssn)\<lparr>tf_head := [?p']\<rparr>) ssn,
      fstat_inc stat_tcpflowrec_retrans_drop (fstat_inc stat_tcpflowrec_retrans (fwork_free (q_work p) (te_free ?s))))"
    using assms(9,14) unfolding reass_tcp_def Let_def if_not_P [OF fresh] if_not_P [OF alone] by (simp add: te_alloc_def)
  moreover have "unat (ucast (g_seq g) :: u32) = unat (g_seq g)"
    using assms(5,11) bounds by (simp add: window_def unat_ucast_mod)
  ultimately show ?thesis by (intro exI [of _ ?p'] exI) (auto simp: te_free_def)
qed

definition seven_seg :: tseg_qent where
  "seven_seg = \<lparr>q_seq = 100, q_ack_num = 0, q_nxt_seq = 103, q_work = 1, q_data = [7, 7, 7], q_data_len = 3, q_direction = 0\<rparr>"

definition one_queued :: mpp_ssn where
  "one_queued = empty_ssn\<lparr>flow_positive := empty_flow\<lparr>tf_head := [seven_seg], tsegqe_len := 1, rcv_nxt := 103\<rparr>\<rparr>"

definition last_two :: segment where
  "last_two = \<lparr>g_work = 2, g_seq = 101, g_ack = 0, g_data = [7, 7], g_len = 2\<rparr>"

theorem suffix_retransmission_loses_bytes_witness:
  "\<exists>p' s'. reass_tcp quiet_sys 0 0x10 last_two one_queued start_flow =
      Some (set_flow 0 ((get_flow 0 one_queued)\<lparr>tf_head := [p']\<rparr>) one_queued, s') \<and> unat (q_seq p') = 101 \<and> freed s' = [1]"
proof -
  have f: "get_flow 0 one_queued = empty_flow\<lparr>tf_head := [seven_seg], tsegqe_len := 1, rcv_nxt := 103\<rparr>" "get_flow (reverse 0) one_queued = empty_flow"
    by (simp_all add: one_queued_def get_flow_def reverse_def empty_ssn_def c_consts)
  have ok: "flow_ok 5 (get_flow 0 one_queued)" "piece sevens seven_seg" "of_stream sevens last_two" "g_ok 0x10 last_two"
    by (simp_all add: f flow_ok_def seg_ok_def piece_def of_stream_def g_ok_def q_end_def seven_seg_def last_two_def sevens_def c_consts upt_rec)
  have v: "unat (q_seq seven_seg) < unat (g_seq last_two)" "unat (g_seq last_two) + unat (g_len last_two) = q_end seven_seg" "0 < g_len last_two"
      "ucast (if 0 = FRC_SSN_POSIVTE_FLOW then ssn_seq one_queued else ssn_ack_seq one_queued) \<le> g_seq last_two" "sys_te_alloc quiet_sys (fs_te_req start_flow)"
      "(0x10 :: u8) AND (TH_FIN OR TH_RST) = 0" "1 < fs_depth start_flow"
      "unat (g_seq last_two) = 101" "q_work seven_seg # freed start_flow = [1]"
    by (simp_all add: f one_queued_def empty_ssn_def empty_flow_def seven_seg_def last_two_def quiet_sys_def start_flow_def ssn_start_def q_end_def c_consts)
  have h: "tf_head (get_flow 0 one_queued) = [seven_seg]" "\<not> tf_rev (get_flow 0 one_queued) \<or> tf_head (get_flow (reverse 0) one_queued) = []" unfolding f by (simp_all add: empty_flow_def)
  show ?thesis
    using suffix_retransmission_loses_bytes [OF h(1) ok(1) v(7) h(2) two_packets_ok(3) ok(2-4) v(6,1-5)] unfolding v(8,9) by blast
qed

end
