(* ===== verification/Ssn.thy ===== *)
theory Ssn
  imports TcpFlow
begin

text \<open>
  The session table: \<^verbatim>\<open>frcore/frcore_ssn.c\<close>, \<^verbatim>\<open>frcore_ssn.h\<close>, \<^verbatim>\<open>frcore_ssn_priv.h\<close> and the handlers of
  \<^verbatim>\<open>frcore/frcore_tcp.c\<close> that use it.

  The table is an array of sessions; further sessions of a bucket are entries of the pool
  \<^verbatim>\<open>CVMX_FPA_SSN_POOL\<close>, chained by \<^verbatim>\<open>next_sc\<close>. The model keeps them in a store from pointers to sessions. A
  pointer beyond the array or to a pool entry that is not allocated is a fault when it is followed, and
  the loops over a chain are partial functions, so that a chain that ends nowhere is one as well.

  The allocator of the pool, the timer wheel and the CRC unit are parameters. The bit 31 of \<^verbatim>\<open>ssn_status\<close>
  is the spin lock of the bucket; one core is modelled, and no test of the code looks at it.
\<close>

section \<open>State\<close>

definition SSN_HASH_BUCKET_SIZE :: nat where [c_consts]: "SSN_HASH_BUCKET_SIZE = 262144"
definition SSN_HASH_BUCKET_SIZE_MASK :: u32 where [c_consts]: "SSN_HASH_BUCKET_SIZE_MASK = 0x3ffff"
definition SSN_TOTAL_NUM :: int where [c_consts]: "SSN_TOTAL_NUM = 300000"
definition SSN_STATUS_GOOD :: u32 where "SSN_STATUS_GOOD = 0x01"
definition SSN_STATUS_EMPTY :: u32 where "SSN_STATUS_EMPTY = 0x02"
definition SSN_STATUS_EXPIRED :: u32 where "SSN_STATUS_EXPIRED = 0x04"
definition SSN_STATUS_HOST :: u32 where "SSN_STATUS_HOST = 0x08"
definition SSN_STATUS_PEND :: u32 where "SSN_STATUS_PEND = 0x10"
definition SSN_STATUS_ESTABLISHED :: u32 where "SSN_STATUS_ESTABLISHED = 0x20"
definition SSN_STATUS_WAIT :: u32 where "SSN_STATUS_WAIT = 0x40"
definition SSN_STATUS_MACHINE_MASK :: u32 where
  "SSN_STATUS_MACHINE_MASK = NOT (SSN_STATUS_EMPTY OR SSN_STATUS_EXPIRED OR SSN_STATUS_HOST OR 0x80000000)"
definition MPP_SSN_HASH_MASK_SNIFFER :: u64 where "MPP_SSN_HASH_MASK_SNIFFER = 0xffffffffff000000"
definition MPP_SSN_HASH_MASK_DATA64 :: u64 where "MPP_SSN_HASH_MASK_DATA64 = 0xffffffffffff0000"
definition MPP_SSN_ACTION_TCPFLOWREC :: u64 where "MPP_SSN_ACTION_TCPFLOWREC = 8"
definition FRCORE_SSN_AGE_MIN :: u8 where [c_consts]: "FRCORE_SSN_AGE_MIN = 1"
definition FRCORE_SSN_AGE_MAX :: u8 where [c_consts]: "FRCORE_SSN_AGE_MAX = 250"
definition GROUP_TO_DATA_PLANE_AGING :: u8 where "GROUP_TO_DATA_PLANE_AGING = 13"

record ssn_sys =
  y_flow :: sys
  y_crc :: "u64 \<Rightarrow> u64 \<Rightarrow> u32"
  y_alloc :: "nat \<Rightarrow> nat list \<Rightarrow> nat option"
  y_member :: "ssn_ptr \<Rightarrow> bool"
  y_tim_fails :: "nat \<Rightarrow> bool"

text \<open>\<open>tb_live\<close> are the allocated entries of the pool, \<open>tb_timers\<close> the sessions on the timer wheel;
  \<open>tb_age\<close> is \<^verbatim>\<open>frcore_ssn_age\<close>. The counters are those of the channel state in \<open>tb_flow\<close>.\<close>

record ssn_state =
  tb_ssn :: "ssn_ptr \<Rightarrow> mpp_ssn"
  tb_live :: "nat list"
  tb_alloc_req :: nat
  tb_timers :: "ssn_ptr list"
  tb_tim_req :: nat
  tb_age :: u8
  tb_flow :: flow_state

fun valid_ptr :: "ssn_ptr \<Rightarrow> ssn_state \<Rightarrow> bool" where
  "valid_ptr (Bucket i) st \<longleftrightarrow> unat i < SSN_HASH_BUCKET_SIZE"
| "valid_ptr (Pool n) st \<longleftrightarrow> n \<in> set (tb_live st)"

definition deref :: "ssn_ptr \<Rightarrow> ssn_state \<Rightarrow> mpp_ssn option" where
  "deref p st = (if valid_ptr p st then Some (tb_ssn st p) else None)"

definition store :: "ssn_ptr \<Rightarrow> mpp_ssn \<Rightarrow> ssn_state \<Rightarrow> ssn_state" where
  "store p ssn st = st\<lparr>tb_ssn := (tb_ssn st)(p := ssn)\<rparr>"

definition tstat_add :: "ssn_stat \<Rightarrow> u64 \<Rightarrow> ssn_state \<Rightarrow> ssn_state" where
  "tstat_add x v st = st\<lparr>tb_flow := (tb_flow st)\<lparr>fs_world := sstat_add x v (fs_world (tb_flow st))\<rparr>\<rparr>"

abbreviation tstat_inc :: "ssn_stat \<Rightarrow> ssn_state \<Rightarrow> ssn_state" where
  "tstat_inc x \<equiv> tstat_add x 1"

abbreviation active_num :: "ssn_state \<Rightarrow> u64" where
  "active_num st \<equiv> s_stat (fs_world (tb_flow st)) stat_ssn_active_num"

section \<open>Tuples\<close>

text \<open>The words \<^verbatim>\<open>data[0]\<close> and \<^verbatim>\<open>data[1]\<close> of a tuple whose other fields are zero.\<close>

definition tuple_data0 :: "mpp_tuple \<Rightarrow> u64" where
  "tuple_data0 t = push_bit 32 (ucast (t_sip t)) OR ucast (t_dip t)"

definition tuple_data1 :: "mpp_tuple \<Rightarrow> u64" where
  "tuple_data1 t = push_bit 48 (ucast (t_sp t)) OR push_bit 32 (ucast (t_dp t)) OR push_bit 24 (ucast (t_proto t))"

definition ssn_sort_tuple :: "mpp_tuple \<Rightarrow> mpp_tuple" where
  "ssn_sort_tuple t =
     (if t_sip t \<ge> t_dip t then t
      else \<lparr>t_sip = t_dip t, t_dip = t_sip t, t_sp = t_dp t, t_dp = t_sp t, t_proto = t_proto t\<rparr>)"

text \<open>The first tuple is that of the packet; of the session only the words of the key are given.\<close>

definition ssn_direction_tuple :: "mpp_tuple \<Rightarrow> u64 \<Rightarrow> u64 \<Rightarrow> u8" where
  "ssn_direction_tuple src des0 des1 =
     (if tuple_data0 src = des0 \<and> (ucast (drop_bit 32 (tuple_data1 src)) :: u32) = ucast (drop_bit 32 des1)
      then FRC_SSN_POSIVTE_FLOW else FRC_SSN_NEGATIVE_FLOW)"

definition ssn_hash_by_tuple :: "(u64 \<Rightarrow> u64 \<Rightarrow> u32) \<Rightarrow> mpp_tuple \<Rightarrow> u32 \<Rightarrow> u32" where
  "ssn_hash_by_tuple crc t msk = crc (tuple_data0 t) (tuple_data1 t) AND msk"

section \<open>The status word\<close>

definition ssn_add :: "mpp_ssn \<Rightarrow> mpp_ssn" where
  "ssn_add ssn = ssn\<lparr>ssn_status := (ssn_status ssn AND NOT SSN_STATUS_MACHINE_MASK) OR SSN_STATUS_GOOD\<rparr>"

definition ssn_add_by_host :: "mpp_ssn \<Rightarrow> mpp_ssn" where
  "ssn_add_by_host ssn = ssn\<lparr>ssn_status := ssn_status ssn OR (SSN_STATUS_GOOD OR SSN_STATUS_HOST)\<rparr>"

definition ssn_del :: "mpp_ssn \<Rightarrow> mpp_ssn" where
  "ssn_del ssn = ssn\<lparr>ssn_ttl := 1, ssn_status := ssn_status ssn AND NOT SSN_STATUS_GOOD\<rparr>"

definition ssn_host_ref :: "mpp_ssn \<Rightarrow> mpp_ssn" where
  "ssn_host_ref ssn = ssn\<lparr>ssn_status := ssn_status ssn OR SSN_STATUS_HOST\<rparr>"

definition ssn_host_deref :: "mpp_ssn \<Rightarrow> mpp_ssn" where
  "ssn_host_deref ssn = ssn\<lparr>ssn_status := ssn_status ssn AND NOT SSN_STATUS_HOST\<rparr>"

text \<open>\<^verbatim>\<open>ssn_status_set_pend\<close>, \<^verbatim>\<open>ssn_status_set_wait\<close> and \<^verbatim>\<open>ssn_status_set_established\<close>, and the functions that undo them.\<close>

definition ssn_status_set :: "u32 \<Rightarrow> mpp_ssn \<Rightarrow> mpp_ssn" where
  "ssn_status_set state ssn = ssn\<lparr>ssn_status := (ssn_status ssn AND NOT SSN_STATUS_MACHINE_MASK) OR state\<rparr>"

definition ssn_status_unset :: "u32 \<Rightarrow> mpp_ssn \<Rightarrow> mpp_ssn" where
  "ssn_status_unset state ssn = ssn\<lparr>ssn_status := ssn_status ssn AND NOT state\<rparr>"

definition ssn_set_tcpflowrec :: "bool \<Rightarrow> mpp_ssn \<Rightarrow> mpp_ssn" where
  "ssn_set_tcpflowrec enable ssn = ssn\<lparr>ssn_key := (ssn_key ssn)\<lparr>key1 :=
     (if enable then key1 (ssn_key ssn) OR push_bit 8 1 else key1 (ssn_key ssn) AND NOT (push_bit 8 1))\<rparr>\<rparr>"

definition ssn_set_smac :: "u64 \<Rightarrow> mpp_ssn \<Rightarrow> mpp_ssn" where
  "ssn_set_smac mac ssn = ssn\<lparr>cont1 := (cont1 ssn AND NOT mac_mask) OR (mac AND mac_mask)\<rparr>"

definition ssn_set_dmac :: "u64 \<Rightarrow> mpp_ssn \<Rightarrow> mpp_ssn" where
  "ssn_set_dmac mac ssn = ssn\<lparr>cont2 := (cont2 ssn AND NOT mac_mask) OR (mac AND mac_mask)\<rparr>"

section \<open>The table after start-up\<close>

definition SSN_INDEX_INVALID :: u32 where "SSN_INDEX_INVALID = 0xffffffff"

definition init_flow :: "tcp_flow_data \<Rightarrow> tcp_flow_data" where
  "init_flow f = f\<lparr>rcv_nxt := 0, tsegqe_len := 0, tf_head := [], tf_rev := False, tf_enable := 1\<rparr>"

text \<open>The loop of \<^verbatim>\<open>mc_init_data\<close> over the array, as a change of the memory.\<close>

definition mc_init_data :: "(ssn_ptr \<Rightarrow> mpp_ssn) \<Rightarrow> ssn_ptr \<Rightarrow> mpp_ssn" where
  "mc_init_data h p =
     (case p of
        Bucket i \<Rightarrow>
          if unat i < SSN_HASH_BUCKET_SIZE then
            (h p)\<lparr>ssn_index := SSN_INDEX_INVALID, ssn_status := SSN_STATUS_EMPTY, next_sc := None,
              ssn_addr := (ssn_addr (h p))\<lparr>a_addr_flag := 0\<rparr>,
              flow_positive := init_flow (flow_positive (h p)), flow_negative := init_flow (flow_negative (h p))\<rparr>
          else h p
      | Pool n \<Rightarrow> h p)"

section \<open>Looking up a session\<close>

definition key_matches :: "mpp_ssn_key \<Rightarrow> mpp_tuple \<Rightarrow> u64 \<Rightarrow> bool" where
  "key_matches k t msk \<longleftrightarrow>
     key0 k = tuple_data0 t \<and> key1 k AND msk = tuple_data1 t AND msk \<or>
     key_sip k = t_dip t \<and> key_dip k = t_sip t \<and> key_sp k = t_dp t \<and> key_dp k = t_sp t \<and> key_proto k = t_proto t"

text \<open>The loop over the chain; its result is the entry found, if any.\<close>

partial_function (option) chain_lookup :: "mpp_tuple \<Rightarrow> u64 \<Rightarrow> ssn_ptr option \<Rightarrow> ssn_state \<Rightarrow> ssn_ptr option option" where
  "chain_lookup t msk p st =
     (case p of
        None \<Rightarrow> Some None
      | Some q \<Rightarrow> do {
          e \<leftarrow> deref q st;
          if key_matches (ssn_key e) t msk then Some (Some q) else chain_lookup t msk (next_sc e) st
        })"

definition ssn_lookup_by_tuple :: "u32 \<Rightarrow> mpp_tuple \<Rightarrow> u64 \<Rightarrow> ssn_state \<Rightarrow> ssn_ptr option option" where
  "ssn_lookup_by_tuple index t msk st = do {
     e \<leftarrow> deref (Bucket index) st;
     if ssn_status e AND SSN_STATUS_EMPTY = 0 \<and> key_matches (ssn_key e) t msk then Some (Some (Bucket index))
     else chain_lookup t msk (next_sc e) st
   }"

section \<open>Creating and removing sessions\<close>

definition ssn_add_timer :: "ssn_sys \<Rightarrow> ssn_ptr \<Rightarrow> ssn_state \<Rightarrow> int \<times> ssn_state" where
  "ssn_add_timer sys p st =
     (let fails = y_tim_fails sys (tb_tim_req st); st = st\<lparr>tb_tim_req := tb_tim_req st + 1\<rparr>
      in if fails then (-1, tstat_inc stat_ssn_tim_failed st)
         else (0, tstat_inc stat_ssn_tim_addok (st\<lparr>tb_timers := p # tb_timers st\<rparr>)))"

fun fpa_free :: "ssn_ptr \<Rightarrow> ssn_state \<Rightarrow> ssn_state" where
  "fpa_free (Pool n) st = st\<lparr>tb_live := remove1 n (tb_live st)\<rparr>"
| "fpa_free (Bucket i) st = st"

text \<open>The loop that searches the entry whose successor is \<open>p\<close>.\<close>

partial_function (option) chain_prev :: "ssn_ptr \<Rightarrow> ssn_ptr option \<Rightarrow> ssn_state \<Rightarrow> ssn_ptr option option" where
  "chain_prev p ssn1 st =
     (case ssn1 of
        None \<Rightarrow> Some None
      | Some q \<Rightarrow> do {
          e \<leftarrow> deref q st;
          if next_sc e = Some p then Some (Some q) else chain_prev p (next_sc e) st
        })"

text \<open>The line \<^verbatim>\<open>ssn1->next_sc = ssn->next_sc\<close>.\<close>

definition unlink :: "ssn_ptr \<Rightarrow> ssn_ptr \<Rightarrow> ssn_state \<Rightarrow> ssn_state option" where
  "unlink q p st = do {
     e \<leftarrow> deref p st;
     e1 \<leftarrow> deref q st;
     Some (store q (e1\<lparr>next_sc := next_sc e\<rparr>) st)
   }"

definition ssn_purge_ssn_nolock :: "ssn_ptr \<Rightarrow> ssn_state \<Rightarrow> ssn_state option" where
  "ssn_purge_ssn_nolock p st = do {
     e \<leftarrow> deref p st;
     let ssn1 = Bucket (ssn_index e);
     if p = ssn1 then Some (store p (e\<lparr>ssn_status := ssn_status e OR SSN_STATUS_EMPTY\<rparr>) st)
     else do {
       prev \<leftarrow> chain_prev p (Some ssn1) st;
       st \<leftarrow> (case prev of None \<Rightarrow> Some st | Some q \<Rightarrow> unlink q p st);
       Some (fpa_free p (tstat_inc stat_ssn_purge_to_fpa st))
     }
   }"

text \<open>\<^verbatim>\<open>sbumit_dma_header_to_fifo\<close> on a session of the table.\<close>

definition submit_header :: "ssn_sys \<Rightarrow> ssn_ptr \<Rightarrow> ssn_state \<Rightarrow> ssn_state option" where
  "submit_header sys p st = do {
     e \<leftarrow> deref p st;
     (rv, e, w) \<leftarrow> sbumit_dma_header_to_fifo (y_flow sys) e (fs_world (tb_flow st));
     Some ((store p e st)\<lparr>tb_flow := (tb_flow st)\<lparr>fs_world := w\<rparr>\<rparr>)
   }"

definition ssn_purge_ssn :: "ssn_sys \<Rightarrow> ssn_ptr \<Rightarrow> ssn_state \<Rightarrow> ssn_state option" where
  "ssn_purge_ssn sys p st = do {
     e \<leftarrow> deref p st;
     let ssn1 = Bucket (ssn_index e);
     let st = tstat_inc stat_ssn_purge st;
     if p = ssn1 then do {
       st \<leftarrow> submit_header sys p (store p (e\<lparr>ssn_status := (ssn_status e OR SSN_STATUS_EMPTY) AND NOT SSN_STATUS_GOOD\<rparr>) st);
       Some (tstat_add stat_ssn_active_num (- 1) st)
     } else do {
       prev \<leftarrow> chain_prev p (Some ssn1) st;
       st \<leftarrow> (case prev of
                None \<Rightarrow> Some (tstat_inc stat_ssn_purge_unknown st)
              | Some q \<Rightarrow> do { st \<leftarrow> unlink q p st; submit_header sys p st });
       let st = tstat_inc stat_ssn_purge_to_fpa st;
       if \<not> y_member sys p then Some (tstat_inc stat_ssn_fpa_free_err st)
       else Some (tstat_add stat_ssn_active_num (- 1) (fpa_free p st))
     }
   }"

text \<open>The assignments at the end of \<^verbatim>\<open>ssn_prepare\<close>. The words of the entry that the work queue and the
  timer use are not part of the model.\<close>

definition init_ssn :: "u32 \<Rightarrow> u64 \<Rightarrow> u64 \<Rightarrow> u64 \<Rightarrow> u32 \<Rightarrow> u32 \<Rightarrow> u8 \<Rightarrow> mpp_ssn \<Rightarrow> mpp_ssn" where
  "init_ssn idx data0 data1 msk seq ack_seq age ssn =
     ssn\<lparr>ssn_seq := seq, ssn_ack_seq := ack_seq, ssn_bytes := 0, ssn_pkts := 0,
       ssn_key := set_action MPP_SSN_ACTION_TCPFLOWREC ((ssn_key ssn)\<lparr>key0 := data0, key1 := data1 AND msk\<rparr>),
       ssn_age := ucast age - 1, ssn_ttl := ucast age - 1, ssn_index := idx\<rparr>"

text \<open>The entry to be used: the one of the table when it is empty, else one of the pool, linked behind it.\<close>

definition take_entry :: "ssn_sys \<Rightarrow> u32 \<Rightarrow> ssn_state \<Rightarrow> (ssn_ptr option \<times> ssn_state) option" where
  "take_entry sys index st = do {
     e \<leftarrow> deref (Bucket index) st;
     let st = store (Bucket index) (e\<lparr>ssn_status := ssn_status e AND NOT SSN_STATUS_EMPTY\<rparr>) st;
     if ssn_status e AND SSN_STATUS_EMPTY = 0 then do {
       let r = y_alloc sys (tb_alloc_req st) (tb_live st);
       let st = tstat_inc stat_ssn_prepared_by_fpa_alloc (st\<lparr>tb_alloc_req := tb_alloc_req st + 1\<rparr>);
       case r of
         None \<Rightarrow> Some (None, tstat_add stat_ssn_active_num (- 1) (tstat_inc stat_ssn_fpa_failed st))
       | Some n \<Rightarrow> do {
           let st = st\<lparr>tb_live := n # tb_live st\<rparr>;
           if \<not> y_member sys (Pool n) then Some (None, tstat_inc stat_ssn_fpa_alloc_err st)
           else do {
             e \<leftarrow> deref (Bucket index) st;
             e1 \<leftarrow> deref (Pool n) st;
             let e1 = e1\<lparr>ssn_status := SSN_STATUS_EMPTY, ssn_addr := (ssn_addr e1)\<lparr>a_addr_flag := 0\<rparr>, next_sc := next_sc e\<rparr>;
             Some (Some (Pool n), store (Bucket index) (e\<lparr>next_sc := Some (Pool n)\<rparr>) (store (Pool n) e1 st))
           }
         }
     } else do {
       e \<leftarrow> deref (Bucket index) st;
       Some (Some (Bucket index), store (Bucket index) (e\<lparr>ssn_addr := (ssn_addr e)\<lparr>a_addr_flag := 0\<rparr>\<rparr>) st)
     }
   }"

definition ssn_prepare :: "ssn_sys \<Rightarrow> u32 \<Rightarrow> u64 \<Rightarrow> u64 \<Rightarrow> u64 \<Rightarrow> u8 \<Rightarrow> u32 \<Rightarrow> u32 \<Rightarrow> ssn_state \<Rightarrow> (ssn_ptr option \<times> ssn_state) option" where
  "ssn_prepare sys index data0 data1 msk th_flags seq ack_seq st =
     (if th_flags AND TH_FIN \<noteq> 0 \<or> th_flags AND TH_RST \<noteq> 0 then Some (None, tstat_inc stat_ssn_fail_fin_or_rst st)
      else let old = active_num st; st = tstat_inc stat_ssn_active_num st in
        if sint old \<ge> SSN_TOTAL_NUM
        then Some (None, tstat_inc stat_ssn_fail_overflow (tstat_add stat_ssn_active_num (- 1) st))
        else do {
          (r, st) \<leftarrow> take_entry sys index st;
          case r of
            None \<Rightarrow> Some (None, st)
          | Some p \<Rightarrow> do {
              e \<leftarrow> deref p st;
              let st = store p (init_ssn index data0 data1 msk seq ack_seq (tb_age st) e) st;
              let (rv, st) = ssn_add_timer sys p st;
              if rv < 0 then do { st \<leftarrow> ssn_purge_ssn_nolock p st; Some (None, st) } else Some (Some p, st)
            }
        })"

section \<open>Handlers\<close>

text \<open>\<^verbatim>\<open>ssn_execute_packet\<close>; \<open>ip\<close> is the packet from the IP header on. A session whose action is another one
  than flow recovery leaves the packet alone.\<close>

definition ssn_execute_packet :: "ssn_sys \<Rightarrow> nat \<Rightarrow> u16 \<Rightarrow> u8 list \<Rightarrow> ssn_ptr \<Rightarrow> u8 \<Rightarrow> ssn_state \<Rightarrow> (int \<times> ssn_state) option" where
  "ssn_execute_packet sys work len ip p direction st = do {
     e \<leftarrow> deref p st;
     if ssn_status e AND SSN_STATUS_MACHINE_MASK = 0 then Some (1, st)
     else do {
       let e = e\<lparr>ssn_ttl := ssn_age e\<rparr>;
       if key_action (ssn_key e) = MPP_SSN_ACTION_TCPFLOWREC then do {
         (e, s) \<leftarrow> tcp_flow_recovery (y_flow sys) work len ip direction e (tb_flow st);
         Some (0, tstat_inc stat_ssn_fwd_tcpflowrec ((store p e st)\<lparr>tb_flow := s\<rparr>))
       } else Some (0, store p e st)
     }
   }"

text \<open>The assignments that follow a successful \<^verbatim>\<open>ssn_prepare\<close> in \<^verbatim>\<open>frcore_tcp_process\<close>.\<close>

definition fresh_flow :: "tcp_flow_data \<Rightarrow> tcp_flow_data" where
  "fresh_flow f = f\<lparr>tsegqe_len := 0, rcv_nxt := 0, tf_head := [], tf_rev := True\<rparr>"

definition start_session :: "u16 \<Rightarrow> u64 \<Rightarrow> u64 \<Rightarrow> mpp_ssn \<Rightarrow> mpp_ssn" where
  "start_session len smac dmac ssn =
     ssn_set_dmac dmac (ssn_set_smac smac (ssn_add
       (ssn\<lparr>ssn_key := set_action MPP_SSN_ACTION_TCPFLOWREC ((ssn_key ssn)\<lparr>key2 := 1, key3 := ucast len\<rparr>),
            flow_positive := fresh_flow (flow_positive ssn), flow_negative := fresh_flow (flow_negative ssn)\<rparr>)))"

definition find_or_create :: "ssn_sys \<Rightarrow> u16 \<Rightarrow> mpp_tuple \<Rightarrow> u8 \<Rightarrow> u32 \<Rightarrow> u32 \<Rightarrow> u64 \<Rightarrow> u64 \<Rightarrow> ssn_state \<Rightarrow> (ssn_ptr option \<times> ssn_state) option" where
  "find_or_create sys len t th_flags seq ack_seq smac dmac st = do {
     let t_sort = ssn_sort_tuple t;
     let index = ssn_hash_by_tuple (y_crc sys) t_sort SSN_HASH_BUCKET_SIZE_MASK;
     r \<leftarrow> ssn_lookup_by_tuple index t_sort MPP_SSN_HASH_MASK_SNIFFER st;
     case r of
       Some p \<Rightarrow> Some (Some p, st)
     | None \<Rightarrow> do {
         (r, st) \<leftarrow> ssn_prepare sys index (tuple_data0 t) (tuple_data1 t) MPP_SSN_HASH_MASK_DATA64 th_flags seq ack_seq st;
         case r of
           None \<Rightarrow> Some (None, tstat_inc stat_ssn_fail st)
         | Some p \<Rightarrow> do {
             e \<leftarrow> deref p st;
             Some (Some p, store p (start_session len smac dmac e) (tstat_inc stat_ssn_prepare st))
           }
       }
   }"

definition frcore_tcp_process :: "ssn_sys \<Rightarrow> nat \<Rightarrow> u16 \<Rightarrow> u8 list \<Rightarrow> u64 \<Rightarrow> u64 \<Rightarrow> ssn_state \<Rightarrow> (int \<times> ssn_state) option" where
  "frcore_tcp_process sys work len ip smac dmac st = do {
     ihl \<leftarrow> ip_ihl ip 0;
     let th = ihl * 4;
     th_flags \<leftarrow> UP8 ip (th + 13);
     if th_flags AND 0x3f = 0x3f \<or> th_flags AND 0x3f = 0
     then Some (FRCORE_ACT_DROP, tstat_inc stat_tcp_malformed_packet st)
     else do {
       malformed \<leftarrow> tcp_malformed ip 0 th;
       if malformed then Some (FRCORE_ACT_DROP, tstat_inc stat_tcp_malformed_packet st)
       else do {
         seq \<leftarrow> UP32 ip (th + 4);
         ack_seq \<leftarrow> UP32 ip (th + 8);
         doff \<leftarrow> tcp_doff ip th;
         tot_len \<leftarrow> UP16 ip 2;
         let st = (if doff * 4 > 20 then tstat_inc stat_tcp_option st else st);
         let st = (if unat tot_len = (ihl + doff) * 4 then tstat_inc stat_tcp_payload_zero st else st);
         t \<leftarrow> read_tuple ip 0 th;
         (r, st) \<leftarrow> find_or_create sys len t th_flags seq ack_seq smac dmac st;
         case r of
           None \<Rightarrow> Some (FRCORE_ACT_DROP, st)
         | Some p \<Rightarrow> do {
             e \<leftarrow> deref p st;
             let direction = ssn_direction_tuple t (key0 (ssn_key e)) (key1 (ssn_key e) AND MPP_SSN_HASH_MASK_DATA64);
             (rv, st) \<leftarrow> ssn_execute_packet sys work len ip p direction st;
             Some (FRCORE_ACT_UNFREE, st)
           }
       }
     }
   }"

text \<open>\<^verbatim>\<open>frcore_ssn_age_process\<close> on a session that comes from the timer wheel.\<close>

definition flush_and_purge :: "ssn_sys \<Rightarrow> ssn_ptr \<Rightarrow> ssn_state \<Rightarrow> ssn_state option" where
  "flush_and_purge sys p st = do {
     e \<leftarrow> deref p st;
     st \<leftarrow> (if key_tcpflowrec (ssn_key e) then do {
              (e, s) \<leftarrow> tcp_flow_flush_lock (y_flow sys) e (tb_flow st);
              Some ((store p e st)\<lparr>tb_flow := s\<rparr>)
            } else Some st);
     ssn_purge_ssn sys p st
   }"

definition frcore_ssn_age_process :: "ssn_sys \<Rightarrow> u8 \<Rightarrow> ssn_ptr \<Rightarrow> ssn_state \<Rightarrow> (int \<times> ssn_state) option" where
  "frcore_ssn_age_process sys grp p st =
     (if grp = GROUP_TO_DATA_PLANE_AGING then do {
        e \<leftarrow> deref p st;
        let st = tstat_inc stat_ssn_tim_fired st;
        let old = ssn_ttl e;
        let st = store p (e\<lparr>ssn_ttl := ssn_ttl e - 1\<rparr>) st;
        if old = 0 then do { st \<leftarrow> flush_and_purge sys p st; Some (FRE_SUCCESS, st) }
        else do {
          let (rv, st) = ssn_add_timer sys p st;
          if rv < 0 then do { st \<leftarrow> flush_and_purge sys p st; Some (FRE_SUCCESS, st) }
          else Some (FRE_SUCCESS, st)
        }
      } else Some (FRE_FAIL, st))"

section \<open>Queries and parameters\<close>

definition frcore_set_ssn_age :: "u8 \<Rightarrow> ssn_state \<Rightarrow> int \<times> ssn_state" where
  "frcore_set_ssn_age age st =
     (if age < FRCORE_SSN_AGE_MIN \<or> age > FRCORE_SSN_AGE_MAX then (FRE_EXCEED, st) else (FRE_SUCCESS, st\<lparr>tb_age := age\<rparr>))"

definition frcore_get_ssn_age :: "ssn_state \<Rightarrow> int \<times> u8" where
  "frcore_get_ssn_age st = (FRE_SUCCESS, tb_age st)"

record frcore_ssn_stat =
  ss_sip :: u32
  ss_dip :: u32
  ss_sp :: u16
  ss_dp :: u16
  ss_proto :: u16
  ss_pkts :: u32
  ss_bytes :: u32

definition ssn_stat_of :: "mpp_ssn \<Rightarrow> frcore_ssn_stat" where
  "ssn_stat_of e = \<lparr>ss_sip = key_sip (ssn_key e), ss_dip = key_dip (ssn_key e), ss_sp = key_sp (ssn_key e), ss_dp = key_dp (ssn_key e),
     ss_proto = ucast (key_proto (ssn_key e)), ss_pkts = ssn_pkts e, ss_bytes = ssn_bytes e\<rparr>"

abbreviation is_good :: "mpp_ssn \<Rightarrow> bool" where
  "is_good e \<equiv> ssn_status e AND SSN_STATUS_GOOD \<noteq> 0"

text \<open>The entries listed, in order; their number is \<^verbatim>\<open>num\<close>.\<close>

definition frcore_get_ssn_by_hash :: "u32 \<Rightarrow> ssn_state \<Rightarrow> frcore_ssn_stat list option" where
  "frcore_get_ssn_by_hash hash st = do {
     e \<leftarrow> deref (Bucket (hash AND SSN_HASH_BUCKET_SIZE_MASK)) st;
     let first = (if is_good e then [ssn_stat_of e] else []);
     case next_sc e of
       None \<Rightarrow> Some first
     | Some q \<Rightarrow> do {
         e1 \<leftarrow> deref q st;
         Some (first @ (if is_good e1 then [ssn_stat_of e1] else []))
       }
   }"

definition frcore_get_ssn_by_tuple :: "ssn_sys \<Rightarrow> mpp_tuple \<Rightarrow> ssn_state \<Rightarrow> (int \<times> frcore_ssn_stat option) option" where
  "frcore_get_ssn_by_tuple sys t st = do {
     let t_sort = ssn_sort_tuple t;
     let index = ssn_hash_by_tuple (y_crc sys) t_sort SSN_HASH_BUCKET_SIZE_MASK;
     r \<leftarrow> ssn_lookup_by_tuple index t_sort MPP_SSN_HASH_MASK_SNIFFER st;
     case r of
       None \<Rightarrow> Some (FRE_NOTFOUND, None)
     | Some p \<Rightarrow> do {
         e \<leftarrow> deref p st;
         Some (if is_good e then (FRE_SUCCESS, Some (ssn_stat_of e)) else (FRE_NOTFOUND, None))
       }
   }"

definition frcore_match_ssn_by_tuple :: "ssn_sys \<Rightarrow> mpp_tuple \<Rightarrow> ssn_state \<Rightarrow> int option" where
  "frcore_match_ssn_by_tuple sys t st = map_option fst (frcore_get_ssn_by_tuple sys t st)"

text \<open>The handlers of \<^verbatim>\<open>frcore/frcore_fr.c\<close> (that of the depth is in theory \<open>TcpFlow\<close>), with the variables they have for
  themselves. They return the result, the length of the answer and the answer; the core stores words with the first byte first.\<close>

record fr_params =
  retrans_time :: u8
  fr_enable :: u8

definition frcore_cmd_set_age_time :: "u8 \<Rightarrow> ssn_state \<Rightarrow> int \<times> ssn_state" where
  "frcore_cmd_set_age_time time st = frcore_set_ssn_age time st"

definition frcore_cmd_set_retrans_time :: "u8 \<Rightarrow> fr_params \<Rightarrow> int \<times> fr_params" where
  "frcore_cmd_set_retrans_time time p = (FRE_SUCCESS, p\<lparr>retrans_time := time\<rparr>)"

definition frcore_cmd_fr_enable :: "u8 \<Rightarrow> fr_params \<Rightarrow> int \<times> fr_params" where
  "frcore_cmd_fr_enable start p = (FRE_SUCCESS, p\<lparr>fr_enable := start\<rparr>)"

definition frcore_cmd_fr_status_get :: "fr_params \<Rightarrow> ssn_state \<Rightarrow> int \<times> u16 \<times> u8 list" where
  "frcore_cmd_fr_status_get p st = (FRE_SUCCESS, 4, [fr_enable p, fs_depth (tb_flow st), snd (frcore_get_ssn_age st), retrans_time p])"

text \<open>This handler does not look the session up: it answers 8000 bytes and 100 packets.\<close>

definition frcore_cmd_ssn_get_by_five_tuple :: "mpp_tuple \<Rightarrow> int \<times> u16 \<times> u8 list" where
  "frcore_cmd_ssn_get_by_five_tuple t = (FRE_SUCCESS, 8, PACK_U32 8000 @ PACK_U32 100)"

definition frcore_cmd_ssn_match :: "ssn_sys \<Rightarrow> mpp_tuple \<Rightarrow> u16 \<Rightarrow> ssn_state \<Rightarrow> (int \<times> u16 \<times> u8 list) option" where
  "frcore_cmd_ssn_match sys t olen st = do {
     rv \<leftarrow> frcore_match_ssn_by_tuple sys t st;
     if rv \<noteq> FRE_SUCCESS then Some (rv, olen, []) else Some (FRE_SUCCESS, 8, PACK_U32 0 @ PACK_U32 1)
   }"

definition ssn_isgoodindex :: "u32 \<Rightarrow> ssn_state \<Rightarrow> int option" where
  "ssn_isgoodindex index st = do { e \<leftarrow> deref (Bucket index) st; Some (if is_good e then 1 else 0) }"

definition ssn_count_ssn :: "ssn_state \<Rightarrow> nat \<times> nat \<times> nat" where
  "ssn_count_ssn st = fold (\<lambda>i (good, empty, expired).
     let status = ssn_status (tb_ssn st (Bucket (of_nat i))) in
     (if status AND SSN_STATUS_GOOD = SSN_STATUS_GOOD then good + 1 else good,
      if status AND SSN_STATUS_EMPTY = SSN_STATUS_EMPTY then empty + 1 else empty,
      if status = SSN_STATUS_EXPIRED then expired + 1 else expired)) [0..<SSN_HASH_BUCKET_SIZE] (0, 0, 0)"

section \<open>Keys and tuples\<close>

definition swap_tuple :: "mpp_tuple \<Rightarrow> mpp_tuple" where
  "swap_tuple t = \<lparr>t_sip = t_dip t, t_dip = t_sip t, t_sp = t_dp t, t_dp = t_sp t, t_proto = t_proto t\<rparr>"

definition key_tuple :: "mpp_ssn_key \<Rightarrow> mpp_tuple" where
  "key_tuple k = \<lparr>t_sip = key_sip k, t_dip = key_dip k, t_sp = key_sp k, t_dp = key_dp k, t_proto = key_proto k\<rparr>"

definition same_session :: "mpp_tuple \<Rightarrow> mpp_tuple \<Rightarrow> bool" where
  "same_session t u \<longleftrightarrow> u = t \<or> u = swap_tuple t"

lemma swap_swap [simp]: "swap_tuple (swap_tuple t) = t"
  by (simp add: swap_tuple_def)

lemma same_session_refl [simp]: "same_session t t" "same_session t (swap_tuple t)" "same_session (swap_tuple t) t"
  by (simp_all add: same_session_def)

lemma same_session_sym: "same_session t u \<Longrightarrow> same_session u t"
  by (auto simp: same_session_def)

lemma same_session_trans: "same_session t u \<Longrightarrow> same_session u v \<Longrightarrow> same_session t v"
  by (auto simp: same_session_def)

lemma sort_same_session: "same_session t (ssn_sort_tuple t)"
  by (simp add: same_session_def ssn_sort_tuple_def swap_tuple_def)

lemma same_session_sort: "same_session t (ssn_sort_tuple u) \<longleftrightarrow> same_session t u"
  using sort_same_session [of u] same_session_sym same_session_trans by blast

lemma word_parts:
  fixes x :: u64
  shows "(push_bit 32 (ucast (ucast (drop_bit 32 x) :: u32)) :: u64) OR ucast (ucast x :: u32) = x"
  by (rule bit_word_eqI) (auto simp: bit_simps)

lemma key0_tuple: "key0 k = tuple_data0 (key_tuple k)"
  by (simp add: tuple_data0_def key_tuple_def key_sip_def key_dip_def word_parts)

lemma sniffer_bit: "n < 64 \<Longrightarrow> bit MPP_SSN_HASH_MASK_SNIFFER n \<longleftrightarrow> 24 \<le> n"
proof -
  assume n: "n < 64"
  have eq: "MPP_SSN_HASH_MASK_SNIFFER = push_bit 24 (Bit_Operations.mask 40)" by (simp add: MPP_SSN_HASH_MASK_SNIFFER_def mask_eq_exp_minus_1)
  show ?thesis using n by (subst eq) (auto simp: bit_simps)
qed

lemma key1_tuple: "key1 k AND MPP_SSN_HASH_MASK_SNIFFER = tuple_data1 (key_tuple k)"
proof (rule bit_word_eqI)
  fix n assume "n < LENGTH(64)"
  then have n: "n < 64" by simp
  have p: "bit (key_proto k) m \<longleftrightarrow> m < 8 \<and> bit (key1 k) (24 + m)" "bit (key_dp k) m \<longleftrightarrow> m < 16 \<and> bit (key1 k) (32 + m)"
      "bit (key_sp k) m \<longleftrightarrow> m < 16 \<and> bit (key1 k) (48 + m)" for m
    by (auto simp: key_proto_def key_dp_def key_sp_def bit_simps dest: bit_imp_le_length)
  consider "n < 24" | "24 \<le> n" "n < 32" | "32 \<le> n" "n < 48" | "48 \<le> n" by linarith
  then show "bit (key1 k AND MPP_SSN_HASH_MASK_SNIFFER) n = bit (tuple_data1 (key_tuple k)) n"
    using n by cases (auto simp: tuple_data1_def key_tuple_def p bit_simps sniffer_bit)
qed

lemma tuple_data1_sniffer: "tuple_data1 t AND MPP_SSN_HASH_MASK_SNIFFER = tuple_data1 t"
proof (rule bit_word_eqI)
  fix n assume "n < LENGTH(64)"
  then show "bit (tuple_data1 t AND MPP_SSN_HASH_MASK_SNIFFER) n = bit (tuple_data1 t) n"
    by (auto simp: tuple_data1_def bit_simps sniffer_bit)
qed

text \<open>The words of a tuple determine it.\<close>

lemma bit_beyond [simp]: "\<not> bit (a :: u32) (32 + n)" "\<not> bit (b :: u16) (16 + n)" "\<not> bit (c :: u8) (8 + n)" "\<not> bit (c :: u8) (24 + n)"
  using bit_imp_le_length [of a "32 + n"] bit_imp_le_length [of b "16 + n"] bit_imp_le_length [of c "8 + n"] bit_imp_le_length [of c "24 + n"]
  by auto

lemma tuple_fields:
  "ucast (drop_bit 32 (tuple_data0 t)) = t_sip t" "ucast (tuple_data0 t) = t_dip t"
  "ucast (drop_bit 48 (tuple_data1 t)) = t_sp t" "ucast (drop_bit 32 (tuple_data1 t)) = t_dp t" "ucast (drop_bit 24 (tuple_data1 t)) = t_proto t"
  by (auto intro!: bit_word_eqI simp: tuple_data0_def tuple_data1_def bit_simps)

lemma tuple_eq_iff:
  "t = u \<longleftrightarrow> t_sip t = t_sip u \<and> t_dip t = t_dip u \<and> t_sp t = t_sp u \<and> t_dp t = t_dp u \<and> t_proto t = t_proto u"
  for t u :: mpp_tuple
  by (auto intro: mpp_tuple.equality)

lemma tuple_data_inject: "tuple_data0 t = tuple_data0 u \<and> tuple_data1 t = tuple_data1 u \<longleftrightarrow> t = u"
proof
  assume "tuple_data0 t = tuple_data0 u \<and> tuple_data1 t = tuple_data1 u"
  then show "t = u" using tuple_fields [of t] tuple_fields [of u] by (simp add: tuple_eq_iff)
qed simp

text \<open>The comparison of the code is that of the two ends of the connection, in either order.\<close>

lemma key_matches_iff: "key_matches k u MPP_SSN_HASH_MASK_SNIFFER \<longleftrightarrow> same_session (key_tuple k) u"
proof -
  have "key0 k = tuple_data0 u \<and> key1 k AND MPP_SSN_HASH_MASK_SNIFFER = tuple_data1 u AND MPP_SSN_HASH_MASK_SNIFFER \<longleftrightarrow> key_tuple k = u"
    by (simp only: key1_tuple tuple_data1_sniffer key0_tuple tuple_data_inject)
  then show ?thesis by (auto simp: key_matches_def same_session_def swap_tuple_def key_tuple_def tuple_eq_iff)
qed

text \<open>The key that \<^verbatim>\<open>ssn_prepare\<close> and the lines after it leave in the entry.\<close>

definition new_key :: "mpp_tuple \<Rightarrow> u64 \<Rightarrow> u64 \<Rightarrow> mpp_ssn_key" where
  "new_key t k2 k3 = set_action MPP_SSN_ACTION_TCPFLOWREC \<lparr>key0 = tuple_data0 t, key1 = tuple_data1 t AND MPP_SSN_HASH_MASK_DATA64, key2 = k2, key3 = k3\<rparr>"

lemma data64_bit: "n < 64 \<Longrightarrow> bit MPP_SSN_HASH_MASK_DATA64 n \<longleftrightarrow> 16 \<le> n"
proof -
  assume n: "n < 64"
  have eq: "MPP_SSN_HASH_MASK_DATA64 = push_bit 16 (Bit_Operations.mask 48)" by (simp add: MPP_SSN_HASH_MASK_DATA64_def mask_eq_exp_minus_1)
  show ?thesis using n by (subst eq) (auto simp: bit_simps)
qed

lemma action_bits: "bit (0xf :: u64) n \<longleftrightarrow> n < 4" "bit (480 :: u64) n \<longleftrightarrow> 5 \<le> n \<and> n \<le> 8" "bit (8 :: u64) n \<longleftrightarrow> n = 3"
proof -
  have eq: "(0xf :: u64) = Bit_Operations.mask 4" "(480 :: u64) = push_bit 5 (Bit_Operations.mask 4)" "(8 :: u64) = push_bit 3 1"
    by (simp_all add: mask_eq_exp_minus_1)
  show "bit (0xf :: u64) n \<longleftrightarrow> n < 4" unfolding eq(1) bit_mask_iff by auto
  show "bit (480 :: u64) n \<longleftrightarrow> 5 \<le> n \<and> n \<le> 8" unfolding eq(2) bit_push_bit_iff bit_mask_iff by auto
  show "bit (8 :: u64) n \<longleftrightarrow> n = 3" unfolding eq(3) bit_push_bit_iff bit_1_iff by auto
qed

lemma set_action_bit:
  "n < 64 \<Longrightarrow> bit (key1 (set_action v k)) n \<longleftrightarrow> (if 5 \<le> n \<and> n \<le> 8 then bit v (n - 5) else bit (key1 k) n)"
proof -
  assume n: "n < 64"
  have push: "push_bit 5 0xf = (480 :: u64)" by simp
  have key: "key1 (set_action v k) = (key1 k AND NOT (push_bit 5 0xf)) OR push_bit 5 (v AND 0xf)" by (simp only: set_action_def mpp_ssn_key.update_convs mpp_ssn_key.select_convs) simp
  have "bit (key1 (set_action v k)) n \<longleftrightarrow> bit (key1 k) n \<and> \<not> bit (480 :: u64) n \<or> 5 \<le> n \<and> bit v (n - 5) \<and> bit (0xf :: u64) (n - 5)"
    unfolding key bit_or_iff bit_and_iff bit_not_iff push bit_push_bit_iff using n by auto
  also have "\<dots> \<longleftrightarrow> (if 5 \<le> n \<and> n \<le> 8 then bit v (n - 5) else bit (key1 k) n)" unfolding action_bits by auto
  finally show ?thesis .
qed

lemma set_action_key [simp]:
  "key_action (set_action MPP_SSN_ACTION_TCPFLOWREC k) = MPP_SSN_ACTION_TCPFLOWREC"
  "key_tcpflowrec (set_action MPP_SSN_ACTION_TCPFLOWREC k)"
proof -
  show "key_action (set_action MPP_SSN_ACTION_TCPFLOWREC k) = MPP_SSN_ACTION_TCPFLOWREC"
  proof (rule bit_word_eqI)
    fix n assume "n < LENGTH(64)"
    then show "bit (key_action (set_action MPP_SSN_ACTION_TCPFLOWREC k)) n = bit MPP_SSN_ACTION_TCPFLOWREC n"
      unfolding key_action_def MPP_SSN_ACTION_TCPFLOWREC_def bit_and_iff bit_drop_bit_eq action_bits o_def
      using set_action_bit [of "5 + n" 8 k] unfolding action_bits by auto
  qed
  show "key_tcpflowrec (set_action MPP_SSN_ACTION_TCPFLOWREC k)"
    by (simp add: key_tcpflowrec_def set_action_bit MPP_SSN_ACTION_TCPFLOWREC_def action_bits)
qed

lemma set_action_sniffer: "key1 (set_action v k) AND MPP_SSN_HASH_MASK_SNIFFER = key1 k AND MPP_SSN_HASH_MASK_SNIFFER"
proof (rule bit_word_eqI)
  fix n assume "n < LENGTH(64)"
  then show "bit (key1 (set_action v k) AND MPP_SSN_HASH_MASK_SNIFFER) n = bit (key1 k AND MPP_SSN_HASH_MASK_SNIFFER) n"
    by (auto simp: bit_and_iff sniffer_bit set_action_bit)
qed

lemma key_tuple_action [simp]: "key_tuple (set_action v k) = key_tuple k"
proof -
  have "tuple_data0 (key_tuple (set_action v k)) = tuple_data0 (key_tuple k)" by (simp only: key0_tuple [symmetric]) (simp add: set_action_def)
  moreover have "tuple_data1 (key_tuple (set_action v k)) = tuple_data1 (key_tuple k)" by (simp only: key1_tuple [symmetric] set_action_sniffer)
  ultimately show ?thesis using tuple_data_inject by blast
qed

lemma key_tuple_data: "key0 k = tuple_data0 t \<Longrightarrow> key1 k = tuple_data1 t AND MPP_SSN_HASH_MASK_DATA64 \<Longrightarrow> key_tuple k = t"
proof -
  assume k: "key0 k = tuple_data0 t" "key1 k = tuple_data1 t AND MPP_SSN_HASH_MASK_DATA64"
  have "key1 k AND MPP_SSN_HASH_MASK_SNIFFER = tuple_data1 t"
  proof (rule bit_word_eqI)
    fix n assume "n < LENGTH(64)"
    then show "bit (key1 k AND MPP_SSN_HASH_MASK_SNIFFER) n = bit (tuple_data1 t) n"
      by (auto simp: k(2) bit_simps sniffer_bit data64_bit tuple_data1_def)
  qed
  then show ?thesis using k(1) tuple_data_inject [of "key_tuple k" t] key0_tuple [of k] key1_tuple [of k] by simp
qed

section \<open>What a packet changes in its session\<close>

text \<open>Flow recovery leaves the words of an entry alone that the table uses.\<close>

definition keeps :: "mpp_ssn \<Rightarrow> mpp_ssn \<Rightarrow> bool" where
  "keeps e e' \<longleftrightarrow> ssn_key e' = ssn_key e \<and> next_sc e' = next_sc e \<and> ssn_status e' = ssn_status e \<and> ssn_index e' = ssn_index e"

lemma keeps_refl [simp]: "keeps e e" "keeps e (e\<lparr>ssn_addr := a\<rparr>)" "keeps e (set_flow d f e)" "keeps e (counted len e)" "keeps e (e\<lparr>ssn_ttl := x\<rparr>)"
  by (simp_all add: keeps_def set_flow_def)

lemma keeps_trans: "keeps e e1 \<Longrightarrow> keeps e1 e2 \<Longrightarrow> keeps e e2"
  by (simp add: keeps_def)

lemma keeps_set_flow [simp]: "keeps e (set_flow d f e1) = keeps e e1" "keeps (set_flow d f e) e1 = keeps e e1"
  "keeps (counted len e) e1 = keeps e e1" "keeps e (e1\<lparr>ssn_addr := a\<rparr>) = keeps e e1"
  by (simp_all add: keeps_def set_flow_def)

lemma send_packet_keeps: "send_packet sys d q qs e s = Some (e', s') \<Longrightarrow> keeps e e'"
  by (auto simp: send_packet_def Let_def bind_eq_Some_conv dest!: sbumit_data_addr)

lemma flush_loop_keeps: "flush_loop sys d qs e s = Some (e', s') \<Longrightarrow> keeps e e'"
  by (induction qs arbitrary: e s) (auto simp: bind_eq_Some_conv dest!: send_packet_keeps intro: keeps_trans)

lemma flush_keeps: "tcp_flow_flush sys d e s = Some (e', s') \<Longrightarrow> keeps e e'"
  by (auto simp: tcp_flow_flush_def bind_eq_Some_conv dest: flush_loop_keeps)

lemma flush_lock_keeps: "tcp_flow_flush_lock sys e s = Some (e', s') \<Longrightarrow> keeps e e'"
  by (auto simp: tcp_flow_flush_lock_def flush_reset_def bind_eq_Some_conv dest!: flush_loop_keeps intro: keeps_trans)

lemma ack_loop_keeps: "ack_loop sys d qs e s = Some (e', s') \<Longrightarrow> keeps e e'"
  by (induction qs arbitrary: e s) (auto simp: Let_def bind_eq_Some_conv split: if_splits dest!: send_packet_keeps intro: keeps_trans)

lemma reverse_keeps: "send_reverse_tcpflow sys d e ack s = Some (e', s') \<Longrightarrow> keeps e e'"
  by (auto simp: send_reverse_tcpflow_def Let_def bind_eq_Some_conv split: if_splits dest: ack_loop_keeps flush_keeps)

lemma insert_keeps: "insert_segment sys d fl g before after e s = Some (e', s') \<Longrightarrow> keeps e e'"
  by (auto simp: insert_segment_def place_segment_def Let_def split: if_splits prod.splits dest!: flush_keeps)

lemma queue_keeps: "queue_segment sys d fl g e s = Some (e', s') \<Longrightarrow> keeps e e'"
  by (auto simp: queue_segment_def Let_def split: if_splits dest: insert_keeps)

lemma reass_keeps:
  assumes "reass_tcp sys d fl g e s = Some (e', s')"
  shows "keeps e e'"
proof (cases "e' = e")
  case False
  have ttl: "keeps e (frcore_remove_chain_by_timer e1) = keeps e e1" for e e1 by (simp add: frcore_remove_chain_by_timer_def keeps_def)
  obtain e1 s1 where 1: "(if tf_rev (get_flow d e) \<and> tf_head (get_flow (reverse d) e) \<noteq> []
                     then send_reverse_tcpflow sys (reverse d) e (g_ack g) s else Some (e, s)) = Some (e1, s1)"
      and 2: "(if fl AND (TH_FIN OR TH_RST) \<noteq> 0 then do {
          (ssn, s) \<leftarrow> tcp_flow_flush sys d e1 (fstat_inc stat_ssn_drop (fwork_free (g_work g) s1));
          Some (frcore_remove_chain_by_timer ssn, s)
        }
        else if tsegqe_len (get_flow d e1) \<ge> ucast (fs_depth s1)
        then Some (e1, fstat_inc stat_tcpflowrec_queue_overflow (fwork_free (g_work g) s1))
        else let (ok, s) = te_alloc sys s1 in
          if \<not> ok then Some (e1, fstat_inc stat_tcpflowrec_mem_failed (fwork_free (g_work g) s))
          else queue_segment sys d fl g e1 s) = Some (e', s')"
    using assms False unfolding reass_tcp_def Let_def by (auto simp only: bind_eq_Some_conv split: if_splits)
  have "keeps e e1" using 1 by (auto split: if_splits dest: reverse_keeps)
  moreover have "keeps e1 e'" using 2 by (auto simp: bind_eq_Some_conv ttl Let_def split: if_splits prod.splits dest: flush_keeps queue_keeps)
  ultimately show ?thesis by (rule keeps_trans)
qed simp

lemma recovery_keeps: "tcp_checked ip \<Longrightarrow> tcp_flow_recovery sys work len ip d e s = Some (e', s') \<Longrightarrow> keeps e e'"
  by (erule recovery_cases [where sys = sys and work = work and len = len and d = d and ssn = e and s = s]) (auto dest: reass_keeps)

end
