(* ===== verification/SsnTable.thy ===== *)
theory SsnTable
  imports Ssn
begin

text \<open>
  The session table keeps its shape: chains of pool entries, each session in the bucket of its tuple and on
  the timer wheel, over any sequence of packets and timer events; what lookups find, that idle sessions
  are removed, and that every packet is freed once.
\<close>

section \<open>Chains\<close>

text \<open>The pool entries reached from a pointer, in order.\<close>

fun chain :: "(ssn_ptr \<Rightarrow> mpp_ssn) \<Rightarrow> ssn_ptr option \<Rightarrow> nat list \<Rightarrow> bool" where
  "chain h p [] \<longleftrightarrow> p = None"
| "chain h p (n # ns) \<longleftrightarrow> p = Some (Pool n) \<and> chain h (next_sc (h (Pool n))) ns"

lemma chain_cong: "(\<And>n. n \<in> set ns \<Longrightarrow> next_sc (h' (Pool n)) = next_sc (h (Pool n))) \<Longrightarrow> chain h' p ns = chain h p ns"
  by (induction ns arbitrary: p) auto

lemma chain_lookup_find:
  "chain (tb_ssn st) p ns \<Longrightarrow> set ns \<subseteq> set (tb_live st) \<Longrightarrow>
    chain_lookup t msk p st = Some (find (\<lambda>p. key_matches (ssn_key (tb_ssn st p)) t msk) (map Pool ns))"
proof (induction ns arbitrary: p)
  case Nil
  then show ?case by (simp add: chain_lookup.simps)
next
  case (Cons n ns)
  then show ?case by (subst chain_lookup.simps) (simp add: deref_def)
qed

text \<open>The entry whose successor is the one after \<open>as\<close>, in a chain that begins behind \<open>q\<close>.\<close>

definition link_of :: "ssn_ptr \<Rightarrow> nat list \<Rightarrow> ssn_ptr" where
  "link_of q as = (if as = [] then q else Pool (last as))"

lemma chain_prev_link:
  "chain (tb_ssn st) (next_sc (tb_ssn st q)) (as @ n # bs) \<Longrightarrow> valid_ptr q st \<Longrightarrow> set (as @ n # bs) \<subseteq> set (tb_live st) \<Longrightarrow> n \<notin> set as \<Longrightarrow>
    chain_prev (Pool n) (Some q) st = Some (Some (link_of q as))"
proof (induction as arbitrary: q)
  case Nil
  then show ?case by (subst chain_prev.simps) (simp add: deref_def link_of_def)
next
  case (Cons a as)
  then have "chain_prev (Pool n) (Some (Pool a)) st = Some (Some (link_of (Pool a) as))" by simp
  then show ?case using Cons.prems by (subst chain_prev.simps) (auto simp: deref_def link_of_def)
qed

lemma chain_unlink:
  "chain h (next_sc (h q)) (as @ n # bs) \<Longrightarrow> distinct (as @ n # bs) \<Longrightarrow> q \<notin> Pool ` set (as @ n # bs) \<Longrightarrow>
    r = link_of q as \<Longrightarrow> h' = h(r := (h r)\<lparr>next_sc := next_sc (h (Pool n))\<rparr>) \<Longrightarrow> chain h' (next_sc (h' q)) (as @ bs)"
proof (induction as arbitrary: q)
  case Nil
  have "chain h' (next_sc (h (Pool n))) bs = chain h (next_sc (h (Pool n))) bs" using Nil.prems(3-5) by (intro chain_cong) (auto simp: link_of_def)
  then show ?case using Nil.prems by (simp add: link_of_def)
next
  case (Cons a as)
  have "r = link_of (Pool a) as" using Cons.prems(4) by (simp add: link_of_def)
  moreover have "chain h (next_sc (h (Pool a))) (as @ n # bs)" "distinct (as @ n # bs)" "Pool a \<notin> Pool ` set (as @ n # bs)"
    using Cons.prems(1,2) by auto
  ultimately have "chain h' (next_sc (h' (Pool a))) (as @ bs)" using Cons.IH Cons.prems(5) by blast
  moreover have "h' q = h q" using Cons.prems(3-5) by (auto simp: link_of_def)
  ultimately show ?case using Cons.prems(1) by simp
qed

section \<open>The invariant of the table\<close>

definition slots :: "u32 set" where
  "slots = {i. unat i < SSN_HASH_BUCKET_SIZE}"

abbreviation is_empty :: "mpp_ssn \<Rightarrow> bool" where
  "is_empty e \<equiv> ssn_status e AND SSN_STATUS_EMPTY \<noteq> 0"

text \<open>The sessions of a bucket, and of the table, for chains \<open>cs\<close>.\<close>

definition bucket :: "(u32 \<Rightarrow> nat list) \<Rightarrow> (ssn_ptr \<Rightarrow> mpp_ssn) \<Rightarrow> u32 \<Rightarrow> ssn_ptr list" where
  "bucket cs h i = (if is_empty (h (Bucket i)) then [] else [Bucket i]) @ map Pool (cs i)"

definition in_use :: "(u32 \<Rightarrow> nat list) \<Rightarrow> (ssn_ptr \<Rightarrow> mpp_ssn) \<Rightarrow> ssn_ptr set" where
  "in_use cs h = (\<Union>i \<in> slots. set (bucket cs h i))"

abbreviation tuple_of :: "mpp_ssn \<Rightarrow> mpp_tuple" where
  "tuple_of e \<equiv> key_tuple (ssn_key e)"

abbreviation hash_of :: "ssn_sys \<Rightarrow> mpp_tuple \<Rightarrow> u32" where
  "hash_of sys t \<equiv> ssn_hash_by_tuple (y_crc sys) (ssn_sort_tuple t) SSN_HASH_BUCKET_SIZE_MASK"

definition entry_ok :: "ssn_sys \<Rightarrow> u32 \<Rightarrow> mpp_ssn \<Rightarrow> bool" where
  "entry_ok sys i e \<longleftrightarrow> ssn_index e = i \<and> hash_of sys (tuple_of e) = i \<and> is_good e \<and>
     key_action (ssn_key e) = MPP_SSN_ACTION_TCPFLOWREC \<and> key_tcpflowrec (ssn_key e) \<and>
     flow_ok 15 (flow_positive e) \<and> flow_ok 15 (flow_negative e) \<and> addr_ok (ssn_addr e)"

text \<open>Every chain is a list of allocated entries, no entry is in two of them and none is lost; a session is
  in the bucket its tuple is hashed to, once, and on the timer wheel, once.\<close>

definition chains_ok :: "(u32 \<Rightarrow> nat list) \<Rightarrow> (ssn_ptr \<Rightarrow> mpp_ssn) \<Rightarrow> nat list \<Rightarrow> bool" where
  "chains_ok cs h lv \<longleftrightarrow>
     (\<forall>i \<in> slots. chain h (next_sc (h (Bucket i))) (cs i) \<and> distinct (cs i)) \<and>
     (\<forall>i \<in> slots. \<forall>j \<in> slots. i \<noteq> j \<longrightarrow> set (cs i) \<inter> set (cs j) = {}) \<and>
     distinct lv \<and> set lv = (\<Union>i \<in> slots. set (cs i))"

definition entries_ok :: "ssn_sys \<Rightarrow> (u32 \<Rightarrow> nat list) \<Rightarrow> (ssn_ptr \<Rightarrow> mpp_ssn) \<Rightarrow> bool" where
  "entries_ok sys cs h \<longleftrightarrow> (\<forall>i \<in> slots. \<forall>p \<in> set (bucket cs h i). entry_ok sys i (h p) \<and>
     (\<forall>q \<in> set (bucket cs h i). same_session (tuple_of (h p)) (tuple_of (h q)) \<longrightarrow> p = q))"

definition table_ok :: "ssn_sys \<Rightarrow> (u32 \<Rightarrow> nat list) \<Rightarrow> ssn_state \<Rightarrow> bool" where
  "table_ok sys cs st \<longleftrightarrow> chains_ok cs (tb_ssn st) (tb_live st) \<and> entries_ok sys cs (tb_ssn st) \<and>
     distinct (tb_timers st) \<and> set (tb_timers st) = in_use cs (tb_ssn st)"

text \<open>The parameters: no core is the one of another session channel, an allocated entry of the pool is not one that
  is in use, and the pool is the memory its entries are in.\<close>

definition table_sys_ok :: "ssn_sys \<Rightarrow> bool" where
  "table_sys_ok sys \<longleftrightarrow> sys_ok (y_flow sys) \<and> (\<forall>k lv n. y_alloc sys k lv = Some n \<longrightarrow> n \<notin> set lv) \<and> (\<forall>n. y_member sys (Pool n))"

lemma hash_slot [simp]: "ssn_hash_by_tuple crc t SSN_HASH_BUCKET_SIZE_MASK \<in> slots"
proof -
  have "crc (tuple_data0 t) (tuple_data1 t) AND SSN_HASH_BUCKET_SIZE_MASK \<le> SSN_HASH_BUCKET_SIZE_MASK" by (rule word_and_le1)
  then show ?thesis by (simp add: slots_def ssn_hash_by_tuple_def c_consts word_le_nat_alt)
qed

lemma finite_in_use [simp]: "finite (in_use cs h)"
  by (simp add: in_use_def)

lemma bucket_pool [simp]: "Pool n \<in> set (bucket cs h i) \<longleftrightarrow> n \<in> set (cs i)"
  "Bucket j \<in> set (bucket cs h i) \<longleftrightarrow> j = i \<and> \<not> is_empty (h (Bucket i))"
  by (auto simp: bucket_def)

lemma in_use_simps: "Pool n \<in> in_use cs h \<longleftrightarrow> (\<exists>i \<in> slots. n \<in> set (cs i))" "Bucket i \<in> in_use cs h \<longleftrightarrow> i \<in> slots \<and> \<not> is_empty (h (Bucket i))"
  by (auto simp: in_use_def)

lemma in_use_bucket: "p \<in> in_use cs h \<longleftrightarrow> (\<exists>i \<in> slots. p \<in> set (bucket cs h i))"
  by (auto simp: in_use_def)

lemma in_use_valid: "chains_ok cs (tb_ssn st) (tb_live st) \<Longrightarrow> p \<in> in_use cs (tb_ssn st) \<Longrightarrow> valid_ptr p st"
  by (cases p) (auto simp: in_use_simps chains_ok_def slots_def)

lemma lookup_find:
  assumes "chains_ok cs (tb_ssn st) (tb_live st)" "i \<in> slots"
  shows "ssn_lookup_by_tuple i t msk st = Some (find (\<lambda>p. key_matches (ssn_key (tb_ssn st p)) t msk) (bucket cs (tb_ssn st) i))"
proof -
  have "chain (tb_ssn st) (next_sc (tb_ssn st (Bucket i))) (cs i)" "set (cs i) \<subseteq> set (tb_live st)"
    using assms by (auto simp: chains_ok_def)
  then show ?thesis using assms(2)
    by (simp add: ssn_lookup_by_tuple_def deref_def slots_def bucket_def chain_lookup_find)
qed

text \<open>Changes of entries that keep the words the table uses.\<close>

lemma chains_keep:
  assumes "chains_ok cs h lv" "\<And>p. next_sc (h' p) = next_sc (h p)"
  shows "chains_ok cs h' lv"
  using assms chain_cong [of _ h' h] by (simp add: chains_ok_def)

lemma bucket_keep: "(is_empty (h' (Bucket i)) \<longleftrightarrow> is_empty (h (Bucket i))) \<Longrightarrow> bucket cs h' i = bucket cs h i"
  by (simp add: bucket_def)

lemma entries_keep:
  assumes "entries_ok sys cs h" "keeps (h p) e" "p \<in> in_use cs h"
    "flow_ok 15 (flow_positive e)" "flow_ok 15 (flow_negative e)" "addr_ok (ssn_addr e)"
  shows "entries_ok sys cs (h(p := e))"
proof -
  have b: "bucket cs (h(p := e)) i = bucket cs h i" for i using assms(2) by (intro bucket_keep) (simp add: keeps_def)
  have t: "tuple_of ((h(p := e)) q) = tuple_of (h q)" for q using assms(2) by (simp add: keeps_def)
  have "entry_ok sys i (h q) \<Longrightarrow> entry_ok sys i ((h(p := e)) q)" for i q using assms(2,4-) by (auto simp: entry_ok_def keeps_def)
  then show ?thesis using assms(1) unfolding entries_ok_def b t by blast
qed

text \<open>Entries may change their successor, and entries that are not in use may change freely.\<close>

definition relinked :: "mpp_ssn \<Rightarrow> mpp_ssn \<Rightarrow> bool" where
  "relinked e e' \<longleftrightarrow> e\<lparr>next_sc := None\<rparr> = e'\<lparr>next_sc := None\<rparr>"

lemma relinked_words:
  "relinked e e' \<Longrightarrow> ssn_key e' = ssn_key e \<and> ssn_status e' = ssn_status e \<and> ssn_index e' = ssn_index e \<and> ssn_addr e' = ssn_addr e \<and>
     flow_positive e' = flow_positive e \<and> flow_negative e' = flow_negative e \<and> ssn_ttl e' = ssn_ttl e"
  by (cases e; cases e') (simp add: relinked_def)

lemma relinked_simps [simp]: "relinked e e" "relinked e (e\<lparr>next_sc := x\<rparr>)"
  by (simp_all add: relinked_def)

lemma relinked_held: "relinked e e' \<Longrightarrow> held e' = held e"
  using relinked_words [of e e'] by (simp add: held_def)

lemma chains_cong:
  assumes "chains_ok cs h lv" "\<And>i. i \<in> slots \<Longrightarrow> next_sc (h' (Bucket i)) = next_sc (h (Bucket i))"
    "\<And>i n. i \<in> slots \<Longrightarrow> n \<in> set (cs i) \<Longrightarrow> next_sc (h' (Pool n)) = next_sc (h (Pool n))"
  shows "chains_ok cs h' lv"
proof -
  have "chain h' p (cs i) = chain h p (cs i)" if "i \<in> slots" for p i using assms(3) [OF that] by (rule chain_cong)
  then show ?thesis using assms(1,2) by (simp add: chains_ok_def)
qed

lemma in_use_cong: "(\<And>i. i \<in> slots \<Longrightarrow> is_empty (h' (Bucket i)) = is_empty (h (Bucket i))) \<Longrightarrow> in_use cs h' = in_use cs h"
  by (auto simp: in_use_def bucket_def)

lemma entries_cong:
  assumes "entries_ok sys cs h" "\<And>i. i \<in> slots \<Longrightarrow> is_empty (h' (Bucket i)) = is_empty (h (Bucket i))"
    "\<And>p. p \<in> in_use cs h \<Longrightarrow> relinked (h p) (h' p)"
  shows "entries_ok sys cs h'"
proof -
  have b: "i \<in> slots \<Longrightarrow> bucket cs h' i = bucket cs h i" for i using assms(2) by (intro bucket_keep)
  have t: "tuple_of (h' p) = tuple_of (h p)" "entry_ok sys i (h' p) = entry_ok sys i (h p)" if "i \<in> slots" "p \<in> set (bucket cs h i)" for i p
  proof -
    have "p \<in> in_use cs h" using that by (auto simp: in_use_def)
    from relinked_words [OF assms(3) [OF this]] show "tuple_of (h' p) = tuple_of (h p)" "entry_ok sys i (h' p) = entry_ok sys i (h p)"
      by (simp_all add: entry_ok_def)
  qed
  show ?thesis using assms(1) unfolding entries_ok_def by (simp add: b t)
qed

text \<open>A session is added at the head of a bucket, or behind it.\<close>

definition unmatched :: "(u32 \<Rightarrow> nat list) \<Rightarrow> (ssn_ptr \<Rightarrow> mpp_ssn) \<Rightarrow> u32 \<Rightarrow> mpp_tuple \<Rightarrow> bool" where
  "unmatched cs h i t \<longleftrightarrow> (\<forall>q \<in> set (bucket cs h i). \<not> same_session (tuple_of (h q)) t)"

lemma add_head:
  assumes "chains_ok cs h lv" "entries_ok sys cs h" "i \<in> slots" "is_empty (h (Bucket i))"
    and e: "next_sc e = next_sc (h (Bucket i))" "\<not> is_empty e" "entry_ok sys i e" "unmatched cs h i (tuple_of e)"
    and h': "h' = h(Bucket i := e)"
  shows "chains_ok cs h' lv" "entries_ok sys cs h'" "in_use cs h' = insert (Bucket i) (in_use cs h)" "Bucket i \<notin> in_use cs h"
proof -
  show "chains_ok cs h' lv" using assms(1) by (rule chains_cong) (auto simp: h' e)
  have b: "bucket cs h' j = (if j = i then Bucket i # bucket cs h i else bucket cs h j)" for j using assms(4) e(2) by (simp add: bucket_def h')
  have same: "p \<in> set (bucket cs h j) \<Longrightarrow> h' p = h p" for p j using assms(4) by (cases p) (auto simp: h')
  show "entries_ok sys cs h'" unfolding entries_ok_def
  proof (intro ballI conjI impI)
    fix j p assume j: "j \<in> slots" "p \<in> set (bucket cs h' j)"
    have "entry_ok sys j (h' p)" if "p \<in> set (bucket cs h j)" using assms(2) j(1) that same [OF that] by (simp add: entries_ok_def)
    moreover have "h' (Bucket i) = e" by (simp add: h')
    ultimately show "entry_ok sys j (h' p)" using j(2) e(3) by (auto simp: b split: if_splits)
    fix q assume q: "q \<in> set (bucket cs h' j)" "same_session (tuple_of (h' p)) (tuple_of (h' q))"
    have old: "p \<in> set (bucket cs h j) \<Longrightarrow> q \<in> set (bucket cs h j) \<Longrightarrow> p = q" using assms(2) j(1) q(2) same by (auto simp: entries_ok_def)
    have new: "r \<in> set (bucket cs h i) \<Longrightarrow> \<not> same_session (tuple_of (h' r)) (tuple_of e)" for r using e(4) same by (auto simp: unmatched_def)
    have "h' (Bucket i) = e" by (simp add: h')
    then show "p = q" using j(2) q old new same_session_sym by (auto simp: b split: if_splits)
  qed
  show "in_use cs h' = insert (Bucket i) (in_use cs h)" using assms(3) by (auto simp: in_use_def b split: if_splits)
  show "Bucket i \<notin> in_use cs h" using assms(4) by (simp add: in_use_simps)
qed

lemma add_pool:
  assumes "chains_ok cs h lv" "entries_ok sys cs h" "i \<in> slots" "n \<notin> set lv"
    and e: "next_sc e = next_sc (h (Bucket i))" "entry_ok sys i e" "unmatched cs h i (tuple_of e)"
    and h': "h' = h(Bucket i := (h (Bucket i))\<lparr>next_sc := Some (Pool n)\<rparr>, Pool n := e)" and cs': "cs' = cs(i := n # cs i)"
  shows "chains_ok cs' h' (n # lv)" "entries_ok sys cs' h'" "in_use cs' h' = insert (Pool n) (in_use cs h)" "Pool n \<notin> in_use cs h"
proof -
  have n: "j \<in> slots \<Longrightarrow> n \<notin> set (cs j)" for j using assms(1,4) by (auto simp: chains_ok_def)
  show "Pool n \<notin> in_use cs h" using n by (auto simp: in_use_simps)
  have c: "chain h' p (cs j) = chain h p (cs j)" if "j \<in> slots" for p j using n [OF that] by (intro chain_cong) (auto simp: h')
  have hd: "next_sc (h' (Bucket j)) = (if j = i then Some (Pool n) else next_sc (h (Bucket j)))" "h' (Pool n) = e" for j by (simp_all add: h')
  have old: "chain h (next_sc (h (Bucket j))) (cs j)" "distinct (cs j)" if "j \<in> slots" for j using assms(1) that by (simp_all add: chains_ok_def)
  have "chain h' (next_sc (h' (Bucket j))) (cs' j) \<and> distinct (cs' j)" if "j \<in> slots" for j
    using old [OF that] n [OF that] e(1) c [OF that] by (cases "j = i") (simp_all add: cs' hd)
  moreover have "set (cs' j) \<inter> set (cs' k) = {}" if "j \<in> slots" "k \<in> slots" "j \<noteq> k" for j k
    using assms(1) that n [of j] n [of k] by (auto simp: chains_ok_def cs')
  moreover have "(\<Union>j \<in> slots. set (cs' j)) = insert n (\<Union>j \<in> slots. set (cs j))" using assms(3) by (auto simp: cs' split: if_splits)
  ultimately show "chains_ok cs' h' (n # lv)" using assms(1,4) by (simp add: chains_ok_def)
  have b: "j \<in> slots \<Longrightarrow> set (bucket cs' h' j) = (if j = i then insert (Pool n) (set (bucket cs h i)) else set (bucket cs h j))" for j
    by (auto simp: bucket_def h' cs')
  have same: "relinked (h p) (h' p)" if "j \<in> slots" "p \<in> set (bucket cs h j)" for p j using n [OF that(1)] that(2) by (auto simp: h')
  have words: "tuple_of (h' p) = tuple_of (h p)" "entry_ok sys k (h' p) = entry_ok sys k (h p)" if "j \<in> slots" "p \<in> set (bucket cs h j)" for p j k
    using relinked_words [OF same [OF that]] by (simp_all add: entry_ok_def)
  show "entries_ok sys cs' h'" unfolding entries_ok_def
  proof (intro ballI conjI impI)
    fix j p assume j: "j \<in> slots" "p \<in> set (bucket cs' h' j)"
    have "entry_ok sys j (h' p)" if "p \<in> set (bucket cs h j)" using assms(2) j(1) that words(2) [OF j(1) that] by (simp add: entries_ok_def)
    moreover have "h' (Pool n) = e" by (simp add: h')
    ultimately show "entry_ok sys j (h' p)" using j e(2) by (auto simp: b split: if_splits)
    fix q assume q: "q \<in> set (bucket cs' h' j)" "same_session (tuple_of (h' p)) (tuple_of (h' q))"
    have old: "p \<in> set (bucket cs h j) \<Longrightarrow> q \<in> set (bucket cs h j) \<Longrightarrow> p = q" using assms(2) j(1) q(2) words by (auto simp: entries_ok_def)
    have new: "r \<in> set (bucket cs h i) \<Longrightarrow> \<not> same_session (tuple_of (h' r)) (tuple_of e)" for r using e(3) assms(3) words by (auto simp: unmatched_def)
    have "h' (Pool n) = e" by (simp add: h')
    then show "p = q" using j(1,2) q old new same_session_sym by (auto simp: b split: if_splits)
  qed
  show "in_use cs' h' = insert (Pool n) (in_use cs h)" using assms(3) by (auto simp: in_use_def b split: if_splits)
qed

text \<open>A session is removed.\<close>

lemma remove_head:
  assumes "chains_ok cs h lv" "entries_ok sys cs h" "next_sc e = next_sc (h (Bucket i))" "is_empty e" and h': "h' = h(Bucket i := e)"
  shows "chains_ok cs h' lv" "entries_ok sys cs h'" "in_use cs h' = in_use cs h - {Bucket i}"
proof -
  show "chains_ok cs h' lv" using assms(1) by (rule chains_cong) (auto simp: h' assms(3))
  have b: "bucket cs h' j = (if j = i then map Pool (cs i) else bucket cs h j)" for j using assms(4) by (simp add: bucket_def h')
  have same: "p \<in> set (bucket cs h' j) \<Longrightarrow> h' p = h p \<and> p \<in> set (bucket cs h j)" for p j using assms(4) by (cases p) (auto simp: h')
  show "entries_ok sys cs h'" using assms(2) same unfolding entries_ok_def by (metis (no_types, lifting))
  have "is_empty (h' (Bucket j)) \<longleftrightarrow> j = i \<or> is_empty (h (Bucket j))" for j using assms(4) by (simp add: h')
  then show "in_use cs h' = in_use cs h - {Bucket i}" by (auto simp: in_use_simps in_use_bucket set_eq_iff split: ssn_ptr.split) (metis in_use_bucket in_use_simps ssn_ptr.exhaust)+
qed

lemma remove_pool:
  assumes "chains_ok cs h lv" "entries_ok sys cs h" "i \<in> slots" and as: "cs i = as @ n # bs" and r: "r = link_of (Bucket i) as"
    and h': "h' = h(r := (h r)\<lparr>next_sc := next_sc (h (Pool n))\<rparr>)" and cs': "cs' = cs(i := as @ bs)"
  shows "chains_ok cs' h' (remove1 n lv)" "entries_ok sys cs' h'" "in_use cs' h' = in_use cs h - {Pool n}"
proof -
  have d: "distinct (as @ n # bs)" "chain h (next_sc (h (Bucket i))) (as @ n # bs)" using assms(1,3) unfolding as [symmetric] by (simp_all add: chains_ok_def)
  have dis: "j \<in> slots \<Longrightarrow> j \<noteq> i \<Longrightarrow> set (cs j) \<inter> set (as @ n # bs) = {}" for j using assms(1,3) unfolding chains_ok_def as [symmetric] by blast
  have ri: "r = Bucket i \<or> r \<in> Pool ` set as" by (simp add: r link_of_def)
  have c: "chain h' (next_sc (h' (Bucket j))) (cs' j)" if j: "j \<in> slots" for j
  proof (cases "j = i")
    case True
    then show ?thesis using chain_unlink [OF d(2,1) _ r h'] by (auto simp: cs')
  next
    case False
    have "chain h' p (cs j) = chain h p (cs j)" for p using dis [OF j False] ri by (intro chain_cong) (auto simp: h')
    moreover have "h' (Bucket j) = h (Bucket j)" using ri False by (auto simp: h')
    ultimately show ?thesis using assms(1) j False by (simp add: cs' chains_ok_def)
  qed
  have lv: "set (remove1 n lv) = set lv - {n}" "distinct (remove1 n lv)" using assms(1) by (simp_all add: chains_ok_def)
  have sets: "j \<in> slots \<Longrightarrow> set (cs' j) = set (cs j) - {n}" for j using d(1) dis [of j] by (cases "j = i") (auto simp: cs' as)
  have "distinct (cs' j)" if "j \<in> slots" for j using assms(1) that d(1) by (cases "j = i") (auto simp: cs' chains_ok_def)
  moreover have "set (cs' j) \<inter> set (cs' k) = {}" if "j \<in> slots" "k \<in> slots" "j \<noteq> k" for j k
  proof -
    have "set (cs j) \<inter> set (cs k) = {}" using assms(1) that by (simp add: chains_ok_def)
    then show ?thesis using sets that by blast
  qed
  moreover have "set lv - {n} = (\<Union>j \<in> slots. set (cs' j))" using assms(1) sets by (auto simp: chains_ok_def)
  ultimately show "chains_ok cs' h' (remove1 n lv)" using c lv by (simp add: chains_ok_def)
  have e: "is_empty (h' (Bucket j)) = is_empty (h (Bucket j))" for j by (simp add: h')
  have b: "j \<in> slots \<Longrightarrow> set (bucket cs' h' j) = set (bucket cs h j) - {Pool n}" for j using sets [of j] by (auto simp: bucket_def e)
  have rel: "relinked (h p) (h' p)" for p by (simp add: h')
  have words: "tuple_of (h' p) = tuple_of (h p)" "entry_ok sys k (h' p) = entry_ok sys k (h p)" for p k
    using relinked_words [OF rel [of p]] by (simp_all add: entry_ok_def)
  show "entries_ok sys cs' h'" using assms(2) unfolding entries_ok_def words by (simp add: b)
  show "in_use cs' h' = in_use cs h - {Pool n}" using b by (auto simp: in_use_def)
qed

text \<open>The work items that wait in the queues of the sessions, and the whole invariant: \<open>W\<close> are the work items
  the table was given, \<open>B\<close> bounds the requests to the channel that are still to come.\<close>

definition queued :: "(u32 \<Rightarrow> nat list) \<Rightarrow> (ssn_ptr \<Rightarrow> mpp_ssn) \<Rightarrow> nat multiset" where
  "queued cs h = (\<Sum>p \<in> in_use cs h. mset (held (h p)))"

definition chan_ok :: "ssn_sys \<Rightarrow> nat \<Rightarrow> ssn_state \<Rightarrow> bool" where
  "chan_ok sys B st \<longleftrightarrow> ssn_ok (sys_env (y_flow sys)) B (fs_world (tb_flow st)) \<and> depth_ok 15 (tb_flow st)"

definition table_accounts :: "(u32 \<Rightarrow> nat list) \<Rightarrow> nat multiset \<Rightarrow> ssn_state \<Rightarrow> bool" where
  "table_accounts cs W st \<longleftrightarrow> mset (freed (tb_flow st)) + queued cs (tb_ssn st) = W \<and> fs_te_live (tb_flow st) = size (queued cs (tb_ssn st))"

definition table_inv :: "ssn_sys \<Rightarrow> (u32 \<Rightarrow> nat list) \<Rightarrow> nat \<Rightarrow> nat multiset \<Rightarrow> ssn_state \<Rightarrow> bool" where
  "table_inv sys cs B W st \<longleftrightarrow> table_ok sys cs st \<and> table_accounts cs W st \<and> chan_ok sys B st"

lemma tstat_add_fields [simp]:
  "tb_ssn (tstat_add x v st) = tb_ssn st" "tb_live (tstat_add x v st) = tb_live st" "tb_timers (tstat_add x v st) = tb_timers st"
  "tb_alloc_req (tstat_add x v st) = tb_alloc_req st" "tb_tim_req (tstat_add x v st) = tb_tim_req st" "tb_age (tstat_add x v st) = tb_age st"
  "freed (tb_flow (tstat_add x v st)) = freed (tb_flow st)" "fs_te_live (tb_flow (tstat_add x v st)) = fs_te_live (tb_flow st)"
  "chan_ok sys B (tstat_add x v st) = chan_ok sys B st"
  by (simp_all add: tstat_add_def sstat_add_def chan_ok_def ssn_ok_def smem_ok_def)

lemma store_fields [simp]:
  "tb_ssn (store p e st) = (tb_ssn st)(p := e)" "tb_live (store p e st) = tb_live st" "tb_timers (store p e st) = tb_timers st"
  "tb_alloc_req (store p e st) = tb_alloc_req st" "tb_tim_req (store p e st) = tb_tim_req st" "tb_age (store p e st) = tb_age st"
  "tb_flow (store p e st) = tb_flow st" "chan_ok sys B (store p e st) = chan_ok sys B st"
  by (simp_all add: store_def chan_ok_def)

text \<open>What the invariant looks at.\<close>

definition same_flow :: "ssn_state \<Rightarrow> ssn_state \<Rightarrow> bool" where
  "same_flow st st' \<longleftrightarrow> freed (tb_flow st') = freed (tb_flow st) \<and> fs_te_live (tb_flow st') = fs_te_live (tb_flow st) \<and> (\<forall>sys B. chan_ok sys B st' = chan_ok sys B st)"

definition same_table :: "ssn_state \<Rightarrow> ssn_state \<Rightarrow> bool" where
  "same_table st st' \<longleftrightarrow> tb_ssn st' = tb_ssn st \<and> tb_live st' = tb_live st \<and> tb_timers st' = tb_timers st \<and> same_flow st st'"

lemma same_table_refl [simp]: "same_table st st" "same_table st (tstat_add x v st)" "same_flow st st" "same_flow st (tstat_add x v st)" "same_flow st (store p e st)"
  "same_table st (tstat_add x v st1) = same_table st st1" "same_flow st (tstat_add x v st1) = same_flow st st1" "same_flow st (store p e st1) = same_flow st st1"
  by (simp_all add: same_table_def same_flow_def)

lemma same_table_inv: "same_table st st' \<Longrightarrow> table_inv sys cs B W st' = table_inv sys cs B W st"
  by (simp add: table_inv_def table_ok_def table_accounts_def same_table_def same_flow_def)

lemma table_inv_mono: "table_inv sys cs B W st \<Longrightarrow> B' \<le> B \<Longrightarrow> table_inv sys cs B' W st"
  by (auto simp: table_inv_def chan_ok_def intro: ssn_ok_mono)

lemma queued_cong: "in_use cs' h' = in_use cs h \<Longrightarrow> (\<And>p. p \<in> in_use cs h \<Longrightarrow> held (h' p) = held (h p)) \<Longrightarrow> queued cs' h' = queued cs h"
  by (simp add: queued_def)

lemma queued_insert:
  "in_use cs' h' = insert p (in_use cs h) \<Longrightarrow> p \<notin> in_use cs h \<Longrightarrow> held (h' p) = [] \<Longrightarrow> (\<And>q. q \<in> in_use cs h \<Longrightarrow> held (h' q) = held (h q)) \<Longrightarrow>
    queued cs' h' = queued cs h"
  by (simp add: queued_def)

lemma queued_split: "p \<in> in_use cs h \<Longrightarrow> queued cs h = mset (held (h p)) + (\<Sum>q \<in> in_use cs h - {p}. mset (held (h q)))"
  by (simp add: queued_def sum.remove)

section \<open>Creating a session\<close>

lemma and_not_empty: "x AND SSN_STATUS_EMPTY = 0 \<Longrightarrow> x AND NOT SSN_STATUS_EMPTY = x"
proof (rule bit_word_eqI)
  fix n assume "x AND SSN_STATUS_EMPTY = 0"
  then have "\<not> (bit x n \<and> bit SSN_STATUS_EMPTY n)" by (metis bit_and_iff bit_0_eq bot_apply bot_bool_def)
  then show "bit (x AND NOT SSN_STATUS_EMPTY) n = bit x n" if "n < LENGTH(32)" using that by (auto simp: bit_simps)
qed

lemma status_words:
  "SSN_STATUS_GOOD AND SSN_STATUS_EMPTY = 0" "NOT SSN_STATUS_MACHINE_MASK AND SSN_STATUS_EMPTY = SSN_STATUS_EMPTY"
  "NOT SSN_STATUS_MACHINE_MASK AND SSN_STATUS_GOOD = 0" "SSN_STATUS_GOOD AND SSN_STATUS_GOOD = SSN_STATUS_GOOD" "SSN_STATUS_GOOD \<noteq> 0" "SSN_STATUS_EMPTY \<noteq> 0"
  "SSN_STATUS_MACHINE_MASK AND SSN_STATUS_GOOD = SSN_STATUS_GOOD" "NOT SSN_STATUS_EMPTY AND SSN_STATUS_EMPTY = 0" "NOT SSN_STATUS_GOOD AND SSN_STATUS_EMPTY = SSN_STATUS_EMPTY"
  by (simp_all add: SSN_STATUS_GOOD_def SSN_STATUS_EMPTY_def SSN_STATUS_MACHINE_MASK_def SSN_STATUS_EXPIRED_def SSN_STATUS_HOST_def)

lemma good_machine: "x AND SSN_STATUS_GOOD \<noteq> 0 \<Longrightarrow> x AND SSN_STATUS_MACHINE_MASK \<noteq> 0"
  by (metis and.assoc and_zero_eq status_words(7) zero_and_eq)

lemma add_status:
  "(x AND NOT SSN_STATUS_MACHINE_MASK OR SSN_STATUS_GOOD) AND SSN_STATUS_EMPTY = x AND SSN_STATUS_EMPTY"
  "(x AND NOT SSN_STATUS_MACHINE_MASK OR SSN_STATUS_GOOD) AND SSN_STATUS_GOOD = SSN_STATUS_GOOD"
  by (simp_all only: bit.conj_disj_distrib2 and.assoc status_words) simp_all

lemma key_tuple_upd [simp]: "key_tuple (k\<lparr>key2 := a\<rparr>) = key_tuple k" "key_tuple (k\<lparr>key3 := a\<rparr>) = key_tuple k"
  by (simp_all add: key_tuple_def key_sip_def key_dip_def key_sp_def key_dp_def key_proto_def)

abbreviation new_entry :: "u32 \<Rightarrow> mpp_tuple \<Rightarrow> u32 \<Rightarrow> u32 \<Rightarrow> u8 \<Rightarrow> u16 \<Rightarrow> u64 \<Rightarrow> u64 \<Rightarrow> mpp_ssn \<Rightarrow> mpp_ssn" where
  "new_entry i t seq ack age len smac dmac e \<equiv>
     start_session len smac dmac (init_ssn i (tuple_data0 t) (tuple_data1 t) MPP_SSN_HASH_MASK_DATA64 seq ack age e)"

lemma new_entry_ok:
  assumes "hash_of sys t = i" "a_addr_flag (ssn_addr e) = 0"
  shows "entry_ok sys i (new_entry i t seq ack age len smac dmac e)" "tuple_of (new_entry i t seq ack age len smac dmac e) = t"
    "next_sc (new_entry i t seq ack age len smac dmac e) = next_sc e"
    "is_empty (new_entry i t seq ack age len smac dmac e) = is_empty e" "held (new_entry i t seq ack age len smac dmac e) = []"
proof -
  let ?e = "new_entry i t seq ack age len smac dmac e"
  have defs: "ssn_index ?e = i" "ssn_addr ?e = ssn_addr e" "next_sc ?e = next_sc e" "flow_positive ?e = fresh_flow (flow_positive e)"
      "flow_negative ?e = fresh_flow (flow_negative e)" "ssn_status ?e = ssn_status e AND NOT SSN_STATUS_MACHINE_MASK OR SSN_STATUS_GOOD"
    by (simp_all add: start_session_def init_ssn_def ssn_add_def ssn_set_smac_def ssn_set_dmac_def)
  have key: "ssn_key ?e = set_action MPP_SSN_ACTION_TCPFLOWREC ((set_action MPP_SSN_ACTION_TCPFLOWREC ((ssn_key e)\<lparr>key0 := tuple_data0 t, key1 := tuple_data1 t AND MPP_SSN_HASH_MASK_DATA64\<rparr>))\<lparr>key2 := 1, key3 := ucast len\<rparr>)"
    by (simp add: start_session_def init_ssn_def ssn_add_def ssn_set_smac_def ssn_set_dmac_def)
  have fl: "flow_ok 15 (fresh_flow f)" "tf_head (fresh_flow f) = []" for f by (simp_all add: fresh_flow_def flow_ok_def)
  show t: "tuple_of ?e = t" unfolding key by simp (rule key_tuple_data, simp_all)
  have "key_action (ssn_key ?e) = MPP_SSN_ACTION_TCPFLOWREC" "key_tcpflowrec (ssn_key ?e)" unfolding key by simp_all
  then show "entry_ok sys i ?e" using assms t unfolding entry_ok_def defs by (simp add: fl addr_ok_def add_status status_words)
  show "next_sc ?e = next_sc e" "is_empty ?e = is_empty e" unfolding defs by (simp_all add: add_status)
  show "held ?e = []" by (simp only: held_def defs fl) simp
qed

text \<open>Timer requests.\<close>

lemma add_timer_outcome:
  "\<exists>rv st'. ssn_add_timer sys p st = (rv, st') \<and> tb_ssn st' = tb_ssn st \<and> tb_live st' = tb_live st \<and> same_flow st st' \<and>
     (rv = 0 \<and> tb_timers st' = p # tb_timers st \<or> rv = -1 \<and> tb_timers st' = tb_timers st)"
  by (simp add: ssn_add_timer_def Let_def same_flow_def chan_ok_def tstat_add_def)

lemma same_flow_upd [simp]:
  "same_flow st (st1\<lparr>tb_alloc_req := k\<rparr>) = same_flow st st1" "same_flow st (st1\<lparr>tb_live := lv\<rparr>) = same_flow st st1"
  "same_flow st (st1\<lparr>tb_timers := ts\<rparr>) = same_flow st st1" "same_flow st (fpa_free p st1) = same_flow st st1"
  by (cases p; simp add: same_flow_def chan_ok_def)+

lemma same_flow_trans: "same_flow st st1 \<Longrightarrow> same_flow st1 st2 \<Longrightarrow> same_flow st st2"
  by (simp add: same_flow_def)

text \<open>The entry for a new session: the head of the bucket when it is empty, else an entry of the pool that is linked
  behind the head.\<close>

definition took :: "u32 \<Rightarrow> ssn_ptr \<Rightarrow> ssn_state \<Rightarrow> ssn_state \<Rightarrow> bool" where
  "took i p st st' \<longleftrightarrow> same_flow st st' \<and> tb_timers st' = tb_timers st \<and>
     a_addr_flag (ssn_addr (tb_ssn st' p)) = 0 \<and> next_sc (tb_ssn st' p) = next_sc (tb_ssn st (Bucket i)) \<and>
     (case p of
        Bucket j \<Rightarrow> j = i \<and> is_empty (tb_ssn st p) \<and> \<not> is_empty (tb_ssn st' p) \<and> tb_ssn st' = (tb_ssn st)(p := tb_ssn st' p) \<and> tb_live st' = tb_live st
      | Pool n \<Rightarrow> n \<notin> set (tb_live st) \<and> tb_live st' = n # tb_live st \<and>
          tb_ssn st' = (tb_ssn st)(Bucket i := (tb_ssn st (Bucket i))\<lparr>next_sc := Some p\<rparr>, p := tb_ssn st' p))"

lemma take_entry_outcome:
  assumes "i \<in> slots" "table_sys_ok sys"
  shows "\<exists>r st'. take_entry sys i st = Some (r, st') \<and> (case r of None \<Rightarrow> same_table st st' | Some p \<Rightarrow> took i p st st')"
proof (cases "is_empty (tb_ssn st (Bucket i))")
  case True
  then show ?thesis using assms(1)
    by (simp add: take_entry_def deref_def slots_def took_def Let_def and.assoc status_words)
next
  case False
  let ?e = "tb_ssn st (Bucket i)"
  have same: "(tb_ssn st)(Bucket i := ?e\<lparr>ssn_status := ssn_status ?e AND NOT SSN_STATUS_EMPTY\<rparr>) = tb_ssn st"
    using False by (simp add: and_not_empty)
  show ?thesis
  proof (cases "y_alloc sys (tb_alloc_req st) (tb_live st)")
    case None
    then show ?thesis using False assms(1) by (simp add: take_entry_def deref_def slots_def Let_def same_table_def and_not_empty)
  next
    case (Some n)
    then have "n \<notin> set (tb_live st)" "y_member sys (Pool n)" using assms(2) by (simp_all add: table_sys_ok_def)
    then show ?thesis using False assms(1) Some same
      by (simp add: take_entry_def deref_def slots_def took_def Let_def and_not_empty fun_upd_twist)
  qed
qed

lemma took_new_entry:
  assumes inv: "table_inv sys cs B W st" "i = hash_of sys t" "unmatched cs (tb_ssn st) i t" and took: "took i p st st1"
    and st2: "tb_ssn st2 = (tb_ssn st1)(p := new_entry i t seq ack age len smac dmac (tb_ssn st1 p))" "tb_live st2 = tb_live st1"
      "tb_timers st2 = p # tb_timers st1" "same_flow st1 st2"
  shows "\<exists>cs'. table_inv sys cs' B W st2 \<and> p \<in> in_use cs' (tb_ssn st2)"
proof -
  let ?e = "new_entry i t seq ack age len smac dmac (tb_ssn st1 p)"
  have ok: "chains_ok cs (tb_ssn st) (tb_live st)" "entries_ok sys cs (tb_ssn st)" "set (tb_timers st) = in_use cs (tb_ssn st)" "distinct (tb_timers st)"
    using inv(1) by (simp_all add: table_inv_def table_ok_def)
  have i: "i \<in> slots" using inv(2) by simp
  have fl: "same_flow st st2" using took st2(4) same_flow_trans unfolding took_def by blast
  note e = new_entry_ok [where e = "tb_ssn st1 p" and seq = seq and ack = ack and age = age and len = len and smac = smac and dmac = dmac, OF inv(2) [symmetric]]
  have flag: "a_addr_flag (ssn_addr (tb_ssn st1 p)) = 0" "next_sc ?e = next_sc (tb_ssn st (Bucket i))" using took e(3) by (simp_all add: took_def)
  obtain cs' where new: "chains_ok cs' (tb_ssn st2) (tb_live st2)" "entries_ok sys cs' (tb_ssn st2)" "in_use cs' (tb_ssn st2) = insert p (in_use cs (tb_ssn st))"
      "p \<notin> in_use cs (tb_ssn st)" "\<And>q. q \<in> in_use cs (tb_ssn st) \<Longrightarrow> held (tb_ssn st2 q) = held (tb_ssn st q)"
  proof (cases p)
    case (Bucket j)
    then have "j = i" "tb_ssn st1 = (tb_ssn st)(Bucket i := tb_ssn st1 (Bucket i))" using took by (auto simp: took_def)
    then have h: "tb_ssn st2 = (tb_ssn st)(Bucket i := ?e)" using st2(1) Bucket by (metis fun_upd_upd)
    have b: "j = i" "is_empty (tb_ssn st (Bucket i))" "\<not> is_empty ?e" "tb_ssn st2 = (tb_ssn st)(Bucket i := ?e)" "tb_live st2 = tb_live st"
      using took e(4) [OF flag(1)] st2(2) Bucket h by (auto simp: took_def)
    note add = add_head [OF ok(1,2) i b(2) flag(2) b(3) e(1) [OF flag(1)] _ b(4)]
    have "held (tb_ssn st2 q) = held (tb_ssn st q)" if "q \<in> in_use cs (tb_ssn st)" for q
      using that b(2) by (auto simp: b(4) in_use_simps)
    then show ?thesis using that [of cs] add inv(3) e(2) [OF flag(1)] b Bucket by auto
  next
    case (Pool n)
    then have n: "n \<notin> set (tb_live st)" "tb_live st1 = n # tb_live st" "tb_ssn st1 = (tb_ssn st)(Bucket i := (tb_ssn st (Bucket i))\<lparr>next_sc := Some (Pool n)\<rparr>, Pool n := tb_ssn st1 (Pool n))"
      using took by (simp_all add: took_def)
    then have b: "n \<notin> set (tb_live st)" "tb_live st2 = n # tb_live st"
        "tb_ssn st2 = (tb_ssn st)(Bucket i := (tb_ssn st (Bucket i))\<lparr>next_sc := Some (Pool n)\<rparr>, Pool n := ?e)"
      using st2(1,2) Pool by (simp_all, metis fun_upd_upd)
    note add = add_pool [OF ok(1,2) i b(1) flag(2) e(1) [OF flag(1)] _ b(3) refl]
    have "held (tb_ssn st2 q) = held (tb_ssn st q)" if "q \<in> in_use cs (tb_ssn st)" for q
      using that add(4) inv(3) e(2) [OF flag(1)] by (auto simp: b(3) held_def)
    then show ?thesis using that [of "cs(i := n # cs i)"] add inv(3) e(2) [OF flag(1)] b Pool by auto
  qed
  have "held (tb_ssn st2 p) = []" using e(5) [OF flag(1)] st2(1) by simp
  with new have "queued cs' (tb_ssn st2) = queued cs (tb_ssn st)" by (intro queued_insert) auto
  moreover have "set (tb_timers st2) = in_use cs' (tb_ssn st2)" "distinct (tb_timers st2)" using new(3,4) ok(3,4) st2(3) took by (simp_all add: took_def)
  ultimately have "table_inv sys cs' B W st2"
    using inv(1) new(1,2) fl by (simp add: table_inv_def table_ok_def table_accounts_def same_flow_def)
  then show ?thesis using new(3) by blast
qed

lemma took_undone:
  assumes inv: "table_inv sys cs B W st" "i \<in> slots" and took: "took i p st st1"
    and st2: "tb_ssn st2 = (tb_ssn st1)(p := init_ssn i d0 d1 msk seq ack age (tb_ssn st1 p))" "tb_live st2 = tb_live st1"
      "tb_timers st2 = tb_timers st1" "same_flow st1 st2"
  shows "\<exists>st'. ssn_purge_ssn_nolock p st2 = Some st' \<and> table_inv sys cs B W st'"
proof -
  let ?e = "init_ssn i d0 d1 msk seq ack age (tb_ssn st1 p)"
  have ok: "chains_ok cs (tb_ssn st) (tb_live st)" "entries_ok sys cs (tb_ssn st)" using inv(1) by (simp_all add: table_inv_def table_ok_def)
  have fl: "same_flow st st2" using took st2(4) same_flow_trans unfolding took_def by blast
  have e: "ssn_index ?e = i" "next_sc ?e = next_sc (tb_ssn st (Bucket i))" "tb_ssn st2 p = ?e" using took st2(1) by (simp_all add: init_ssn_def took_def)
  have inv': "table_inv sys cs B W st'" if "same_flow st2 st'" "chains_ok cs (tb_ssn st') (tb_live st')" "entries_ok sys cs (tb_ssn st')"
      "in_use cs (tb_ssn st') = in_use cs (tb_ssn st)" "\<And>q. q \<in> in_use cs (tb_ssn st) \<Longrightarrow> held (tb_ssn st' q) = held (tb_ssn st q)"
      "tb_timers st' = tb_timers st" for st'
  proof -
    have "queued cs (tb_ssn st') = queued cs (tb_ssn st)" using that(4,5) by (rule queued_cong)
    moreover have "same_flow st st'" using fl that(1) by (rule same_flow_trans)
    ultimately show ?thesis using inv(1) that by (simp add: table_inv_def table_ok_def table_accounts_def same_flow_def)
  qed
  show ?thesis
  proof (cases p)
    case (Bucket j)
    let ?e' = "?e\<lparr>ssn_status := ssn_status ?e OR SSN_STATUS_EMPTY\<rparr>" and ?st' = "store p (?e\<lparr>ssn_status := ssn_status ?e OR SSN_STATUS_EMPTY\<rparr>) st2"
    have j: "j = i" "is_empty (tb_ssn st (Bucket i))" "tb_live st1 = tb_live st" "tb_ssn st1 = (tb_ssn st)(Bucket i := tb_ssn st1 (Bucket i))"
      using took Bucket by (auto simp: took_def)
    then have h: "tb_ssn ?st' = (tb_ssn st)(Bucket i := ?e')" using st2(1) Bucket by (metis fun_upd_upd store_fields(1))
    have r: "ssn_purge_ssn_nolock p st2 = Some ?st'" using inv(2) Bucket e j(1) by (simp add: ssn_purge_ssn_nolock_def deref_def slots_def)
    have em: "is_empty ?e'" by (simp add: bit.conj_disj_distrib2 status_words)
    have ni: "Bucket i \<notin> in_use cs (tb_ssn st)" using j(2) by (simp add: in_use_simps)
    then have "held (tb_ssn ?st' q) = held (tb_ssn st q)" if "q \<in> in_use cs (tb_ssn st)" for q using that unfolding h by auto
    moreover have "tb_live ?st' = tb_live st" "tb_timers ?st' = tb_timers st" "same_flow st2 ?st'" using st2(2,3) took j(3) by (simp_all add: took_def)
    moreover have "next_sc ?e' = next_sc (tb_ssn st (Bucket i))" using e(2) by simp
    ultimately have "table_inv sys cs B W ?st'" using remove_head [OF ok _ em h] ni by (intro inv') simp_all
    then show ?thesis using r by blast
  next
    case (Pool n)
    have n: "n \<notin> set (tb_live st)" "tb_live st1 = n # tb_live st" "tb_ssn st1 = (tb_ssn st)(Bucket i := (tb_ssn st (Bucket i))\<lparr>next_sc := Some (Pool n)\<rparr>, Pool n := tb_ssn st1 (Pool n))"
      using took Pool by (simp_all add: took_def)
    then have h2: "tb_ssn st2 = (tb_ssn st)(Bucket i := (tb_ssn st (Bucket i))\<lparr>next_sc := Some (Pool n)\<rparr>, Pool n := ?e)" unfolding st2(1) Pool by (metis fun_upd_upd)
    let ?st' = "fpa_free p (tstat_inc stat_ssn_purge_to_fpa (store (Bucket i) ((tb_ssn st2 (Bucket i))\<lparr>next_sc := next_sc ?e\<rparr>) st2))"
    have prev: "chain_prev (Pool n) (Some (Bucket i)) st2 = Some (Some (Bucket i))"
      using inv(2) h2 by (subst chain_prev.simps) (simp add: deref_def slots_def)
    have v: "deref p st2 = Some ?e" "deref (Bucket i) st2 = Some (tb_ssn st2 (Bucket i))"
      using inv(2) Pool e(3) n(2) st2(2) by (simp_all add: deref_def slots_def)
    have "unlink (Bucket i) p st2 = Some (store (Bucket i) ((tb_ssn st2 (Bucket i))\<lparr>next_sc := next_sc ?e\<rparr>) st2)" by (simp add: unlink_def v)
    then have r: "ssn_purge_ssn_nolock p st2 = Some ?st'" using prev Pool v e(1) by (simp add: ssn_purge_ssn_nolock_def Let_def)
    have h: "tb_ssn ?st' = (tb_ssn st)(Pool n := ?e)" using h2 e(2) Pool by (simp add: fun_upd_twist)
    have lv: "tb_live ?st' = tb_live st" using st2(2) n Pool by simp
    have nn: "j \<in> slots \<Longrightarrow> n \<notin> set (cs j)" for j using ok(1) n(1) by (auto simp: chains_ok_def)
    have ch: "chains_ok cs (tb_ssn ?st') (tb_live st)" by (rule chains_cong [OF ok(1)]) (use nn in \<open>unfold h, auto\<close>)
    have rel: "relinked (tb_ssn st q) (tb_ssn ?st' q)" if "q \<in> in_use cs (tb_ssn st)" for q 
    proof -
      have "q \<noteq> Pool n" using that nn by (auto simp: in_use_simps)
      then show ?thesis unfolding h by simp
    qed
    have "entries_ok sys cs (tb_ssn ?st')" by (rule entries_cong [OF ok(2) _ rel]) (unfold h, simp)
    moreover have "in_use cs (tb_ssn ?st') = in_use cs (tb_ssn st)" by (rule in_use_cong) (unfold h, simp)
    moreover have "same_flow st2 ?st'" "tb_timers ?st' = tb_timers st" using st2(3) took Pool by (simp_all add: took_def)
    ultimately have "table_inv sys cs B W ?st'" using ch lv relinked_held [OF rel] by (intro inv') simp_all
    then show ?thesis using r by blast
  qed
qed

text \<open>What \<^verbatim>\<open>ssn_prepare\<close> returns: nothing, with the table as before, or an entry that is a session of the table once the
  lines after the call have filled it.\<close>

definition prepared :: "ssn_sys \<Rightarrow> nat \<Rightarrow> nat multiset \<Rightarrow> mpp_tuple \<Rightarrow> ssn_ptr \<Rightarrow> ssn_state \<Rightarrow> bool" where
  "prepared sys B W t p st \<longleftrightarrow> valid_ptr p st \<and> (\<forall>len smac dmac. let st' = store p (start_session len smac dmac (tb_ssn st p)) st in
     tuple_of (tb_ssn st' p) = t \<and> (\<exists>cs. table_inv sys cs B W st' \<and> p \<in> in_use cs (tb_ssn st')))"

lemma prepared_start:
  "prepared sys B W t p st \<Longrightarrow> st' = store p (start_session len smac dmac (tb_ssn st p)) st \<Longrightarrow>
    valid_ptr p st \<and> tuple_of (tb_ssn st' p) = t \<and> (\<exists>cs. table_inv sys cs B W st' \<and> p \<in> in_use cs (tb_ssn st'))"
  unfolding prepared_def Let_def by blast

lemma prepare_outcome:
  assumes inv: "table_inv sys cs B W st" "table_sys_ok sys" "i = hash_of sys t" "unmatched cs (tb_ssn st) i t"
  shows "\<exists>r st'. ssn_prepare sys i (tuple_data0 t) (tuple_data1 t) MPP_SSN_HASH_MASK_DATA64 fl seq ack st = Some (r, st') \<and>
    (case r of None \<Rightarrow> table_inv sys cs B W st'
     | Some p \<Rightarrow> prepared sys B W t p st' \<and> tb_timers st' = p # tb_timers st)"
proof (cases "fl AND TH_FIN \<noteq> 0 \<or> fl AND TH_RST \<noteq> 0 \<or> sint (active_num st) \<ge> SSN_TOTAL_NUM")
  case True
  have "table_inv sys cs B W (tstat_inc x st1) = table_inv sys cs B W st1" "table_inv sys cs B W (tstat_add x v st1) = table_inv sys cs B W st1" for x v st1
    by (rule same_table_inv, simp)+
  then show ?thesis using True inv(1)
    by (cases "fl AND TH_FIN \<noteq> 0 \<or> fl AND TH_RST \<noteq> 0") (simp_all add: ssn_prepare_def Let_def)
next
  case False
  have i: "i \<in> slots" using inv(3) by simp
  let ?st0 = "tstat_inc stat_ssn_active_num st"
  have inv0: "table_inv sys cs B W ?st0" using inv(1) same_table_inv [of st ?st0] by simp
  obtain r st1 where t: "take_entry sys i ?st0 = Some (r, st1)" "case r of None \<Rightarrow> same_table ?st0 st1 | Some p \<Rightarrow> took i p ?st0 st1"
    using take_entry_outcome [OF i inv(2), of ?st0] by blast
  show ?thesis
  proof (cases r)
    case None
    then show ?thesis using False t inv0 same_table_inv [of ?st0 st1] by (auto simp: ssn_prepare_def Let_def)
  next
    case (Some p)
    then have took: "took i p ?st0 st1" using t(2) by simp
    have v: "valid_ptr p st1" using took i by (cases p) (auto simp: took_def slots_def)
    let ?st2 = "store p (init_ssn i (tuple_data0 t) (tuple_data1 t) MPP_SSN_HASH_MASK_DATA64 seq ack (tb_age st1) (tb_ssn st1 p)) st1"
    obtain rv st3 where a: "ssn_add_timer sys p ?st2 = (rv, st3)" "tb_ssn st3 = tb_ssn ?st2" "tb_live st3 = tb_live ?st2" "same_flow ?st2 st3"
        "rv = 0 \<and> tb_timers st3 = p # tb_timers ?st2 \<or> rv = -1 \<and> tb_timers st3 = tb_timers ?st2"
      using add_timer_outcome [of sys p ?st2] by blast
    have eq: "ssn_prepare sys i (tuple_data0 t) (tuple_data1 t) MPP_SSN_HASH_MASK_DATA64 fl seq ack st =
        (if rv < 0 then do { st \<leftarrow> ssn_purge_ssn_nolock p st3; Some (None, st) } else Some (Some p, st3))"
      using False t(1) Some v a(1) by (simp add: ssn_prepare_def Let_def deref_def)
    have fl3: "same_flow st1 st3" using a(4) by (simp add: same_flow_def)
    show ?thesis
    proof (cases "rv < 0")
      case True
      then have "tb_timers st3 = tb_timers st1" using a(5) by auto
      then obtain st' where "ssn_purge_ssn_nolock p st3 = Some st'" "table_inv sys cs B W st'"
        using took_undone [OF inv0 i took _ _ _ fl3, OF a(2) [unfolded store_fields]] a(3) by auto
      then show ?thesis using eq True by simp
    next
      case False
      then have ti: "tb_timers st3 = p # tb_timers st1" using a(5) by auto
      let ?s = "\<lambda>len smac dmac. store p (start_session len smac dmac (tb_ssn st3 p)) st3"
      have p3: "tb_ssn st3 p = init_ssn i (tuple_data0 t) (tuple_data1 t) MPP_SSN_HASH_MASK_DATA64 seq ack (tb_age st1) (tb_ssn st1 p)"
        "tb_ssn (?s len smac dmac) = (tb_ssn st1)(p := new_entry i t seq ack (tb_age st1) len smac dmac (tb_ssn st1 p))" for len smac dmac using a(2) by simp_all
      have un: "unmatched cs (tb_ssn ?st0) i t" using inv(4) by simp
      have "\<exists>cs'. table_inv sys cs' B W (?s len smac dmac) \<and> p \<in> in_use cs' (tb_ssn (?s len smac dmac))" for len smac dmac
        by (rule took_new_entry [OF inv0 inv(3) un took p3(2)]) (use ti a(3) fl3 in simp_all)
      moreover have "valid_ptr p st3" using v a(3) by (cases p) simp_all
      moreover have "a_addr_flag (ssn_addr (tb_ssn st1 p)) = 0" using took by (simp add: took_def)
      then have "tuple_of (start_session len smac dmac (tb_ssn st3 p)) = t" for len smac dmac unfolding p3(1) using inv(3) by (intro new_entry_ok(2) [of sys t i]) simp_all
      moreover have "tb_timers st3 = p # tb_timers st" using ti took by (simp add: took_def)
      ultimately show ?thesis using eq False by (simp add: prepared_def Let_def)
    qed
  qed
qed

lemma in_use_entry: "entries_ok sys cs h \<Longrightarrow> p \<in> in_use cs h \<Longrightarrow> \<exists>i \<in> slots. p \<in> set (bucket cs h i) \<and> entry_ok sys i (h p)"
  by (auto simp: in_use_bucket entries_ok_def)

lemma find_or_create_outcome:
  assumes inv: "table_inv sys cs B W st" "table_sys_ok sys"
  shows "\<exists>r st' cs'. find_or_create sys len t fl seq ack smac dmac st = Some (r, st') \<and> table_inv sys cs' B W st' \<and>
    (\<forall>p. r = Some p \<longrightarrow> p \<in> set (bucket cs' (tb_ssn st') (hash_of sys t)) \<and> same_session (tuple_of (tb_ssn st' p)) t \<and>
      (st' = st \<or> tb_timers st' = p # tb_timers st))"
proof -
  let ?i = "hash_of sys t" and ?P = "\<lambda>p. same_session (tuple_of (tb_ssn st p)) t"
  have ok: "chains_ok cs (tb_ssn st) (tb_live st)" using inv(1) by (simp add: table_inv_def table_ok_def)
  have l: "ssn_lookup_by_tuple ?i (ssn_sort_tuple t) MPP_SSN_HASH_MASK_SNIFFER st = Some (find ?P (bucket cs (tb_ssn st) ?i))"
    using lookup_find [OF ok, of ?i] by (simp add: key_matches_iff same_session_sort)
  show ?thesis
  proof (cases "find ?P (bucket cs (tb_ssn st) ?i)")
    case (Some p)
    then have "p \<in> set (bucket cs (tb_ssn st) ?i)" "?P p" by (auto simp: find_Some_iff)
    then show ?thesis using l Some inv(1) \<open>?P p\<close> by (auto simp: find_or_create_def Let_def)
  next
    case None
    then have "unmatched cs (tb_ssn st) ?i t" by (auto simp: unmatched_def find_None_iff)
    then obtain r st' where p: "ssn_prepare sys ?i (tuple_data0 t) (tuple_data1 t) MPP_SSN_HASH_MASK_DATA64 fl seq ack st = Some (r, st')"
        "case r of None \<Rightarrow> table_inv sys cs B W st'
         | Some p \<Rightarrow> prepared sys B W t p st' \<and> tb_timers st' = p # tb_timers st"
      using prepare_outcome [OF inv refl] by blast
    show ?thesis
    proof (cases r)
      case None
      then have "find_or_create sys len t fl seq ack smac dmac st = Some (None, tstat_inc stat_ssn_fail st')"
        using l p(1) \<open>find ?P (bucket cs (tb_ssn st) ?i) = None\<close> by (simp add: find_or_create_def Let_def)
      then show ?thesis using p(2) None same_table_inv [of st' "tstat_inc stat_ssn_fail st'"] by auto
    next
      case (Some q)
      let ?e = "start_session len smac dmac (tb_ssn st' q)"
      let ?st = "store q ?e (tstat_inc stat_ssn_prepare st')"
      obtain cs' where c: "valid_ptr q st'" "table_inv sys cs' B W (store q ?e st')" "q \<in> in_use cs' (tb_ssn (store q ?e st'))" "tuple_of ?e = t"
        using prepared_start [of sys B W t q st', OF _ refl] p(2) Some by fastforce
      have ti: "tb_timers ?st = q # tb_timers st" using p(2) Some by simp
      have "valid_ptr q (tstat_inc stat_ssn_prepare st') = valid_ptr q st'" by (cases q) simp_all
      then have "find_or_create sys len t fl seq ack smac dmac st = Some (Some q, ?st)"
        using l p(1) Some None c(1) by (simp add: find_or_create_def Let_def deref_def)
      moreover have "same_table (store q ?e st') ?st" by (simp add: same_table_def same_flow_def)
      then have "table_inv sys cs' B W ?st" using c(2) same_table_inv by blast
      moreover have "q \<in> set (bucket cs' (tb_ssn ?st) ?i)"
      proof -
        have "entries_ok sys cs' (tb_ssn ?st)" "q \<in> in_use cs' (tb_ssn ?st)" using c(2,3) by (simp_all add: table_inv_def table_ok_def)
        from in_use_entry [OF this] show ?thesis using c(4) by (auto simp: entry_ok_def)
      qed
      ultimately show ?thesis using c(4) ti by (intro exI [of _ "Some q"] exI [of _ ?st] exI [of _ cs']) simp
    qed
  qed
qed

section \<open>A packet of a session\<close>

text \<open>One session seen from the table: the other sessions hold \<open>others\<close>.\<close>

definition others :: "(u32 \<Rightarrow> nat list) \<Rightarrow> (ssn_ptr \<Rightarrow> mpp_ssn) \<Rightarrow> ssn_ptr \<Rightarrow> nat multiset" where
  "others cs h p = (\<Sum>q \<in> in_use cs h - {p}. mset (held (h q)))"

lemma session_view:
  assumes "table_inv sys cs B W st" "p \<in> in_use cs (tb_ssn st)"
  shows "rec_inv 15 (y_flow sys) B (tb_ssn st p) (tb_flow st)" "accounts (size (others cs (tb_ssn st) p)) (W - others cs (tb_ssn st) p) (tb_ssn st p) (tb_flow st)"
    "others cs (tb_ssn st) p \<subseteq># W" "deref p st = Some (tb_ssn st p)"
proof -
  have ok: "entries_ok sys cs (tb_ssn st)" "chains_ok cs (tb_ssn st) (tb_live st)" using assms(1) by (simp_all add: table_inv_def table_ok_def)
  then show "rec_inv 15 (y_flow sys) B (tb_ssn st p) (tb_flow st)"
    using in_use_entry [OF _ assms(2)] assms(1) by (auto simp: rec_inv_def flow_inv_def entry_ok_def table_inv_def chan_ok_def)
  have q: "queued cs (tb_ssn st) = mset (held (tb_ssn st p)) + others cs (tb_ssn st) p" using queued_split [OF assms(2)] by (simp add: others_def)
  then have W: "W = mset (freed (tb_flow st)) + mset (held (tb_ssn st p)) + others cs (tb_ssn st) p"
      "fs_te_live (tb_flow st) = size (others cs (tb_ssn st) p) + length (held (tb_ssn st p))"
    using assms(1) by (simp_all add: table_inv_def table_accounts_def ac_simps)
  then show "accounts (size (others cs (tb_ssn st) p)) (W - others cs (tb_ssn st) p) (tb_ssn st p) (tb_flow st)" "others cs (tb_ssn st) p \<subseteq># W"
    by (simp_all add: accounts_def)
  show "deref p st = Some (tb_ssn st p)" using in_use_valid [OF ok(2) assms(2)] by (simp add: deref_def)
qed

lemma session_update:
  assumes inv: "table_inv sys cs B W st" "p \<in> in_use cs (tb_ssn st)" and e: "keeps (tb_ssn st p) e" "rec_inv 15 (y_flow sys) B' e s"
    "accounts (size (others cs (tb_ssn st) p)) W' e s"
    and st': "tb_ssn st' = (tb_ssn st)(p := e)" "tb_live st' = tb_live st" "tb_timers st' = tb_timers st" "tb_flow st' = s"
  shows "table_inv sys cs B' (W' + others cs (tb_ssn st) p) st'" "in_use cs (tb_ssn st') = in_use cs (tb_ssn st)"
proof -
  show u: "in_use cs (tb_ssn st') = in_use cs (tb_ssn st)" unfolding st' using e(1) by (intro in_use_cong) (simp add: keeps_def)
  have "queued cs (tb_ssn st') = mset (held e) + (\<Sum>q \<in> in_use cs (tb_ssn st') - {p}. mset (held (tb_ssn st' q)))"
    using queued_split [of p cs "tb_ssn st'"] inv(2) u st'(1) by simp
  also have "(\<Sum>q \<in> in_use cs (tb_ssn st') - {p}. mset (held (tb_ssn st' q))) = others cs (tb_ssn st) p"
    unfolding others_def u by (rule sum.cong) (simp_all add: st'(1))
  finally have q: "queued cs (tb_ssn st') = mset (held e) + others cs (tb_ssn st) p" .
  have "chains_ok cs ((tb_ssn st)(p := e)) (tb_live st)"
    by (rule chains_keep [of cs "tb_ssn st"]) (use inv(1) e(1) in \<open>simp_all add: table_inv_def table_ok_def keeps_def\<close>)
  then have "chains_ok cs (tb_ssn st') (tb_live st')" by (simp only: st'(1,2))
  moreover have "entries_ok sys cs ((tb_ssn st)(p := e))"
    by (rule entries_keep [OF _ e(1) inv(2)]) (use inv(1) e(2) in \<open>simp_all add: table_inv_def table_ok_def rec_inv_def flow_inv_def\<close>)
  then have "entries_ok sys cs (tb_ssn st')" by (simp only: st'(1))
  moreover have "chan_ok sys B' st'" using e(2) st'(4) by (simp add: chan_ok_def rec_inv_def flow_inv_def)
  ultimately show "table_inv sys cs B' (W' + others cs (tb_ssn st) p) st'"
    using inv(1) e(3) q u st'(2-4) unfolding table_inv_def table_ok_def table_accounts_def accounts_def by simp
qed

lemma execute_outcome:
  assumes inv: "table_inv sys cs (B + 58) W st" "table_sys_ok sys" "p \<in> in_use cs (tb_ssn st)" "tcp_checked ip"
  shows "\<exists>st'. ssn_execute_packet sys work len ip p d st = Some (0, st') \<and> table_inv sys cs B (add_mset work W) st'"
proof -
  let ?e = "(tb_ssn st p)\<lparr>ssn_ttl := ssn_age (tb_ssn st p)\<rparr>" and ?M = "others cs (tb_ssn st) p" and ?s = "tb_flow st"
  note v = session_view [OF inv(1,3)]
  obtain i where e: "entry_ok sys i (tb_ssn st p)" using in_use_entry [OF _ inv(3), of sys] inv(1) by (auto simp: table_inv_def table_ok_def)
  have "rec_inv 15 (y_flow sys) (B + 58) ?e ?s" "accounts (size ?M) (W - ?M) ?e ?s" using v(1,2) by (simp_all add: rec_inv_def flow_inv_def accounts_def held_def)
  then have "settles 15 (y_flow sys) B (size ?M) (add_mset work (W - ?M)) (tcp_flow_recovery (y_flow sys) work len ip d ?e ?s)"
    using inv(2,4) by (intro recovery_settles) (simp_all add: table_sys_ok_def)
  then obtain e' s' where r: "tcp_flow_recovery (y_flow sys) work len ip d ?e ?s = Some (e', s')" "rec_inv 15 (y_flow sys) B e' s'"
      "accounts (size ?M) (add_mset work (W - ?M)) e' s'"
    unfolding settles_def by blast
  have "keeps ?e e'" using recovery_keeps [OF inv(4) r(1)] .
  then have k: "keeps (tb_ssn st p) e'" by (simp add: keeps_def)
  let ?st' = "tstat_inc stat_ssn_fwd_tcpflowrec ((store p e' st)\<lparr>tb_flow := s'\<rparr>)"
  have "table_inv sys cs B (add_mset work (W - ?M) + ?M) ((store p e' st)\<lparr>tb_flow := s'\<rparr>)"
    by (rule session_update [OF inv(1,3) k r(2,3)]) simp_all
  moreover have "add_mset work (W - ?M) + ?M = add_mset work W" using v(3) by (simp add: subset_mset.diff_add)
  ultimately have "table_inv sys cs B (add_mset work W) ?st'" using same_table_inv [of "(store p e' st)\<lparr>tb_flow := s'\<rparr>" ?st'] by simp
  moreover have "ssn_execute_packet sys work len ip p d st = Some (0, ?st')"
    using v(4) e r(1) good_machine [of "ssn_status (tb_ssn st p)"] by (simp add: ssn_execute_packet_def entry_ok_def Let_def)
  ultimately show ?thesis by blast
qed

text \<open>A packet whose headers are in the buffer, with the total length that \<^verbatim>\<open>frcore_ip_process\<close> lets pass.\<close>

definition tcp_packet :: "u8 list \<Rightarrow> bool" where
  "tcp_packet ip \<longleftrightarrow> (\<exists>ihl tot. ip_ihl ip 0 = Some ihl \<and> UP16 ip 2 = Some tot \<and> unat tot \<le> 1582 \<and> unat tot \<le> length ip \<and> ihl * 4 + 20 \<le> length ip)"

lemma tcp_process_outcome:
  assumes inv: "table_inv sys cs (B + 58) W st" "table_sys_ok sys" "tcp_packet ip"
  shows "\<exists>rv st' cs'. frcore_tcp_process sys work len ip smac dmac st = Some (rv, st') \<and>
    (rv = FRCORE_ACT_DROP \<and> table_inv sys cs' B W st' \<or> rv = FRCORE_ACT_UNFREE \<and> table_inv sys cs' B (add_mset work W) st')"
proof -
  obtain ihl tot where h: "ip_ihl ip 0 = Some ihl" "UP16 ip 2 = Some tot" "unat tot \<le> 1582" "unat tot \<le> length ip" "ihl * 4 + 20 \<le> length ip"
    using inv(3) unfolding tcp_packet_def by blast
  obtain fl doff seq ack t where f: "UP8 ip (ihl * 4 + 13) = Some fl" "tcp_doff ip (ihl * 4) = Some doff" "UP32 ip (ihl * 4 + 4) = Some seq"
      "UP32 ip (ihl * 4 + 8) = Some ack" "read_tuple ip 0 (ihl * 4) = Some t"
    using h(5) UP_Some(2) [of "ihl * 4 + 4" ip] UP_Some(2) [of "ihl * 4 + 8" ip] UP_Some(2) [of 12 ip] UP_Some(2) [of 16 ip]
      UP_Some(1) [of "ihl * 4" ip] UP_Some(1) [of "ihl * 4 + 2" ip]
    by (auto simp: read_tuple_def tcp_doff_def UP8_def)
  let ?m = "tstat_inc stat_tcp_malformed_packet st"
  let ?o = "if doff * 4 > 20 then tstat_inc stat_tcp_option st else st"
  let ?z = "if unat tot = (ihl + doff) * 4 then tstat_inc stat_tcp_payload_zero ?o else ?o"
  have mal: "tcp_malformed ip 0 (ihl * 4) = Some ((ihl + doff) * 4 > unat tot)"
    by (simp only: tcp_malformed_def h(1,2) f(2) add_0 Option.bind.simps)
  have same: "same_table st ?m" "same_table st ?z" by simp_all
  have low: "table_inv sys cs B W st" using table_inv_mono [OF inv(1)] by simp
  show ?thesis
  proof (cases "fl AND 0x3f = 0x3f \<or> fl AND 0x3f = 0 \<or> (ihl + doff) * 4 > unat tot")
    case True
    then have "frcore_tcp_process sys work len ip smac dmac st = Some (FRCORE_ACT_DROP, ?m)"
      using h(1,2) f by (auto simp: frcore_tcp_process_def mal Let_def)
    then show ?thesis using low same_table_inv [OF same(1)] by blast
  next
    case False
    then have eq: "frcore_tcp_process sys work len ip smac dmac st = do {
        (r, st) \<leftarrow> find_or_create sys len t fl seq ack smac dmac ?z;
        case r of
          None \<Rightarrow> Some (FRCORE_ACT_DROP, st)
        | Some p \<Rightarrow> do {
            e \<leftarrow> deref p st;
            let direction = ssn_direction_tuple t (key0 (ssn_key e)) (key1 (ssn_key e) AND MPP_SSN_HASH_MASK_DATA64);
            (rv, st) \<leftarrow> ssn_execute_packet sys work len ip p direction st;
            Some (FRCORE_ACT_UNFREE, st)
          }
      }"
      using h(1,2) f by (simp add: frcore_tcp_process_def mal)
    have ck: "tcp_checked ip" using False h f(2) unfolding tcp_checked_def by auto
    have "table_inv sys cs (B + 58) W ?z" using inv(1) same_table_inv [OF same(2)] by blast
    then obtain r st1 cs1 where c: "find_or_create sys len t fl seq ack smac dmac ?z = Some (r, st1)" "table_inv sys cs1 (B + 58) W st1"
        "\<forall>p. r = Some p \<longrightarrow> p \<in> set (bucket cs1 (tb_ssn st1) (hash_of sys t))"
      using find_or_create_outcome [OF _ inv(2)] by blast
    show ?thesis
    proof (cases r)
      case None
      then show ?thesis using eq c(1) table_inv_mono [OF c(2), of B] by auto
    next
      case (Some p)
      then have "p \<in> set (bucket cs1 (tb_ssn st1) (hash_of sys t))" using c(3) by simp
      then have p: "p \<in> in_use cs1 (tb_ssn st1)" using hash_slot unfolding in_use_bucket by blast
      let ?d = "ssn_direction_tuple t (key0 (ssn_key (tb_ssn st1 p))) (key1 (ssn_key (tb_ssn st1 p)) AND MPP_SSN_HASH_MASK_DATA64)"
      obtain st2 where x: "ssn_execute_packet sys work len ip p ?d st1 = Some (0, st2)" "table_inv sys cs1 B (add_mset work W) st2"
        using execute_outcome [OF c(2) inv(2) p ck] by blast
      have "frcore_tcp_process sys work len ip smac dmac st = Some (FRCORE_ACT_UNFREE, st2)"
        unfolding eq c(1) Some using session_view(4) [OF c(2) p] x(1) by simp
      then show ?thesis using x(2) by blast
    qed
  qed
qed

section \<open>Removing a session\<close>

lemma header_outcome:
  assumes "ssn_ok (sys_env sys) (Suc B) w" "sys_ok sys"
  shows "\<exists>rv e' w'. sbumit_dma_header_to_fifo sys e w = Some (rv, e', w') \<and> ssn_ok (sys_env sys) B w' \<and> s_freed w' = s_freed w \<and> (e' = e \<or> e' = clear_flag e)"
proof -
  have "ssn_ok (sys_env sys) B w" using ssn_ok_mono [OF assms(1)] by simp
  moreover obtain rv w' where "submit_head sys e w = Some (rv, w')" "ssn_ok (sys_env sys) B w'" "s_freed w' = s_freed w"
    using submit_head_outcome [OF assms] by blast
  ultimately show ?thesis by (auto simp: sbumit_dma_header_to_fifo_def)
qed

lemma submit_header_outcome:
  assumes "valid_ptr p st" "chan_ok sys (Suc B) st" "table_sys_ok sys"
  shows "\<exists>e st'. submit_header sys p st = Some st' \<and> tb_ssn st' = (tb_ssn st)(p := e) \<and> (e = tb_ssn st p \<or> e = clear_flag (tb_ssn st p)) \<and>
    tb_live st' = tb_live st \<and> tb_timers st' = tb_timers st \<and> freed (tb_flow st') = freed (tb_flow st) \<and>
    fs_te_live (tb_flow st') = fs_te_live (tb_flow st) \<and> chan_ok sys B st'"
proof -
  obtain rv e w where "sbumit_dma_header_to_fifo (y_flow sys) (tb_ssn st p) (fs_world (tb_flow st)) = Some (rv, e, w)" "ssn_ok (sys_env (y_flow sys)) B w"
      "s_freed w = freed (tb_flow st)" "e = tb_ssn st p \<or> e = clear_flag (tb_ssn st p)"
    using header_outcome [of "y_flow sys" B "fs_world (tb_flow st)" "tb_ssn st p"] assms(2,3) by (auto simp: chan_ok_def table_sys_ok_def)
  then show ?thesis using assms(1)
    by (intro exI [of _ e] exI [of _ "(store p e st)\<lparr>tb_flow := (tb_flow st)\<lparr>fs_world := w\<rparr>\<rparr>"])
      (use assms(2) in \<open>simp add: submit_header_def deref_def chan_ok_def\<close>)
qed

text \<open>A session that came from the timer wheel: it is in the table, but not on the wheel.\<close>

definition pending :: "ssn_sys \<Rightarrow> (u32 \<Rightarrow> nat list) \<Rightarrow> nat \<Rightarrow> nat multiset \<Rightarrow> ssn_ptr \<Rightarrow> ssn_state \<Rightarrow> bool" where
  "pending sys cs B W p st \<longleftrightarrow> table_inv sys cs B W (st\<lparr>tb_timers := p # tb_timers st\<rparr>)"

lemma pending_unfold:
  "pending sys cs B W p st \<longleftrightarrow> chains_ok cs (tb_ssn st) (tb_live st) \<and> entries_ok sys cs (tb_ssn st) \<and> p \<notin> set (tb_timers st) \<and> distinct (tb_timers st) \<and>
     insert p (set (tb_timers st)) = in_use cs (tb_ssn st) \<and> table_accounts cs W st \<and> chan_ok sys B st"
  by (auto simp: pending_def table_inv_def table_ok_def table_accounts_def chan_ok_def)

lemma removed_inv:
  assumes pend: "pending sys cs (Suc B) W p st" and held: "held (tb_ssn st p) = []"
    and new: "chains_ok cs' (tb_ssn st') (tb_live st')" "entries_ok sys cs' (tb_ssn st')" "in_use cs' (tb_ssn st') = in_use cs (tb_ssn st) - {p}"
      "\<And>q. q \<in> in_use cs (tb_ssn st) \<Longrightarrow> q \<noteq> p \<Longrightarrow> held (tb_ssn st' q) = held (tb_ssn st q)"
    and flow: "tb_timers st' = tb_timers st" "freed (tb_flow st') = freed (tb_flow st)" "fs_te_live (tb_flow st') = fs_te_live (tb_flow st)" "chan_ok sys B st'"
  shows "table_inv sys cs' B W st'"
proof -
  have p: "p \<in> in_use cs (tb_ssn st)" "p \<notin> set (tb_timers st)" "insert p (set (tb_timers st)) = in_use cs (tb_ssn st)" using pend by (auto simp: pending_unfold)
  have "queued cs' (tb_ssn st') = (\<Sum>q \<in> in_use cs (tb_ssn st) - {p}. mset (held (tb_ssn st q)))"
    unfolding queued_def new(3) using new(4) by (intro sum.cong) auto
  then have "queued cs' (tb_ssn st') = queued cs (tb_ssn st)" using queued_split [OF p(1)] held by simp
  moreover have "set (tb_timers st') = in_use cs' (tb_ssn st')" using p new(3) flow(1) by auto
  ultimately show ?thesis using pend new(1,2) flow by (simp add: table_inv_def table_ok_def table_accounts_def pending_unfold)
qed

lemma purge_head:
  assumes pend: "pending sys cs (Suc B) W (Bucket i) st" "table_sys_ok sys" "held (tb_ssn st (Bucket i)) = []"
  shows "\<exists>st'. ssn_purge_ssn sys (Bucket i) st = Some st' \<and> table_inv sys cs B W st' \<and> tb_timers st' = tb_timers st"
proof -
  let ?e = "tb_ssn st (Bucket i)"
  let ?e1 = "?e\<lparr>ssn_status := (ssn_status ?e OR SSN_STATUS_EMPTY) AND NOT SSN_STATUS_GOOD\<rparr>"
  let ?st1 = "store (Bucket i) ?e1 (tstat_inc stat_ssn_purge st)"
  have ok: "chains_ok cs (tb_ssn st) (tb_live st)" "entries_ok sys cs (tb_ssn st)" "Bucket i \<in> in_use cs (tb_ssn st)" using pend(1) by (auto simp: pending_unfold)
  then have i: "i \<in> slots" "ssn_index ?e = i" using in_use_entry [OF ok(2,3)] by (auto simp: in_use_simps entry_ok_def)
  have st1: "valid_ptr (Bucket i) ?st1" "chan_ok sys (Suc B) ?st1" using i(1) pend(1) by (simp_all add: slots_def pending_unfold)
  obtain e st2 where s: "submit_header sys (Bucket i) ?st1 = Some st2" "tb_ssn st2 = (tb_ssn ?st1)(Bucket i := e)" "e = ?e1 \<or> e = clear_flag ?e1"
      "tb_live st2 = tb_live st" "tb_timers st2 = tb_timers st" "freed (tb_flow st2) = freed (tb_flow st)" "fs_te_live (tb_flow st2) = fs_te_live (tb_flow st)" "chan_ok sys B st2"
    using submit_header_outcome [OF st1 pend(2)] by auto
  have "is_empty ?e1" by (simp add: bit.conj_disj_distrib2 and.assoc status_words)
  then have e: "is_empty e" "next_sc e = next_sc ?e" using s(3) by (auto simp: clear_flag_def)
  have h: "tb_ssn (tstat_add stat_ssn_active_num (- 1) st2) = (tb_ssn st)(Bucket i := e)" using s(2) by simp
  have "table_inv sys cs B W (tstat_add stat_ssn_active_num (- 1) st2)"
    by (rule removed_inv [OF pend(1,3)]) (use remove_head [OF ok(1,2) e(2,1) h] s h in simp_all)
  moreover have "ssn_purge_ssn sys (Bucket i) st = Some (tstat_add stat_ssn_active_num (- 1) st2)"
    using i s(1) by (simp add: ssn_purge_ssn_def deref_def slots_def)
  ultimately show ?thesis using s(5) by auto
qed

lemma purge_pool:
  assumes pend: "pending sys cs (Suc B) W (Pool n) st" "table_sys_ok sys" "held (tb_ssn st (Pool n)) = []"
  shows "\<exists>st' cs'. ssn_purge_ssn sys (Pool n) st = Some st' \<and> table_inv sys cs' B W st' \<and> tb_timers st' = tb_timers st"
proof -
  let ?e = "tb_ssn st (Pool n)" and ?st0 = "tstat_inc stat_ssn_purge st"
  have ok: "chains_ok cs (tb_ssn st) (tb_live st)" "entries_ok sys cs (tb_ssn st)" "Pool n \<in> in_use cs (tb_ssn st)" using pend(1) by (auto simp: pending_unfold)
  then obtain i where i: "i \<in> slots" "n \<in> set (cs i)" "ssn_index ?e = i" using in_use_entry [OF ok(2,3)] by (auto simp: entry_ok_def)
  obtain as bs where as: "cs i = as @ n # bs" using split_list [OF i(2)] by blast
  have c: "chain (tb_ssn st) (next_sc (tb_ssn st (Bucket i))) (as @ n # bs)" "distinct (as @ n # bs)" "set (as @ n # bs) \<subseteq> set (tb_live st)"
    using ok(1) i(1) unfolding as [symmetric] by (auto simp: chains_ok_def)
  define r where "r = link_of (Bucket i) as"
  have r: "valid_ptr r st" "r \<noteq> Pool n" using i(1) c(2,3) last_in_set [of as] by (auto simp: r_def link_of_def slots_def)
  let ?h1 = "(tb_ssn st)(r := (tb_ssn st r)\<lparr>next_sc := next_sc ?e\<rparr>)"
  let ?st1 = "store r ((tb_ssn st r)\<lparr>next_sc := next_sc ?e\<rparr>) ?st0" and ?cs = "cs(i := as @ bs)"
  have v: "valid_ptr q ?st0 = valid_ptr q st" "valid_ptr q ?st1 = valid_ptr q st" for q by (cases q; simp)+
  have vn: "valid_ptr (Pool n) st" using in_use_valid [OF ok(1,3)] .
  have prev: "chain_prev (Pool n) (Some (Bucket i)) ?st0 = Some (Some r)"
    using chain_prev_link [of ?st0 "Bucket i" as n bs] c i(1) by (simp add: r_def slots_def)
  have un: "unlink r (Pool n) ?st0 = Some ?st1" using r vn v(1) by (simp add: unlink_def deref_def)
  have st1: "valid_ptr (Pool n) ?st1" "chan_ok sys (Suc B) ?st1" using vn v(2) pend(1) by (simp_all add: pending_unfold)
  obtain e st2 where s: "submit_header sys (Pool n) ?st1 = Some st2" "tb_ssn st2 = ?h1(Pool n := e)"
      "tb_live st2 = tb_live st" "tb_timers st2 = tb_timers st" "freed (tb_flow st2) = freed (tb_flow st)" "fs_te_live (tb_flow st2) = fs_te_live (tb_flow st)" "chan_ok sys B st2"
    using submit_header_outcome [OF st1 pend(2)] by auto
  let ?st' = "tstat_add stat_ssn_active_num (- 1) (fpa_free (Pool n) (tstat_inc stat_ssn_purge_to_fpa st2))"
  have res: "ssn_purge_ssn sys (Pool n) st = Some ?st'"
    using vn i(3) prev un s(1) pend(2) by (simp add: ssn_purge_ssn_def deref_def table_sys_ok_def)
  note rem = remove_pool [OF ok(1,2) i(1) as r_def refl refl]
  have "Pool n \<notin> in_use ?cs ?h1" unfolding rem(3) by simp
  then have nn: "j \<in> slots \<Longrightarrow> n \<notin> set (?cs j)" for j unfolding in_use_simps by blast
  have live: "tb_live ?st' = remove1 n (tb_live st)" using s(3) by simp
  have h: "tb_ssn ?st' = ?h1(Pool n := e)" using s(2) by simp
  have "chains_ok ?cs (?h1(Pool n := e)) (remove1 n (tb_live st))"
    by (rule chains_cong [OF rem(1)]) (use nn in auto)
  moreover have "entries_ok sys ?cs (?h1(Pool n := e))"
    by (rule entries_cong [OF rem(2)]) (use rem(3) in \<open>simp_all del: fun_upd_apply, auto\<close>)
  moreover have "in_use ?cs (?h1(Pool n := e)) = in_use cs (tb_ssn st) - {Pool n}" using rem(3) by (subst in_use_cong [of _ ?h1]) simp_all
  moreover have "held ((?h1(Pool n := e)) q) = held (tb_ssn st q)" if "q \<noteq> Pool n" for q using that by (simp add: held_def)
  moreover have "chan_ok sys B ?st'" using s(7) by (simp add: chan_ok_def tstat_add_def)
  ultimately have "table_inv sys ?cs B W ?st'" using s(4-6) by (intro removed_inv [OF pend(1,3)]) (simp_all only: h live, simp_all)
  then show ?thesis using res s(4) by auto
qed

lemma flush_outcome:
  assumes pend: "pending sys cs (B + 58) W p st" "table_sys_ok sys"
  shows "\<exists>st' cs'. flush_and_purge sys p st = Some st' \<and> table_inv sys cs' B W st' \<and> tb_timers st' = tb_timers st"
proof -
  let ?st0 = "st\<lparr>tb_timers := p # tb_timers st\<rparr>" and ?e = "tb_ssn st p" and ?M = "others cs (tb_ssn st) p"
  have inv: "table_inv sys cs (B + 2 + 56) W ?st0" "p \<in> in_use cs (tb_ssn ?st0)" using pend(1) by (auto simp: pending_def table_inv_def table_ok_def add.commute)
  obtain i where e: "entry_ok sys i ?e" using in_use_entry [OF _ inv(2), of sys] inv(1) by (auto simp: table_inv_def table_ok_def)
  have v: "rec_inv 15 (y_flow sys) (B + 2 + 56) ?e (tb_flow st)" "accounts (size ?M) (W - ?M) ?e (tb_flow st)" "?M \<subseteq># W" "deref p ?st0 = Some ?e"
    using session_view [OF inv] by simp_all
  have d: "deref p st = Some ?e" using v(4) by (cases p) (simp_all add: deref_def split: if_splits)
  obtain e' s' where f: "tcp_flow_flush_lock (y_flow sys) ?e (tb_flow st) = Some (e', s')" "rec_inv 15 (y_flow sys) (B + 2) e' s'" "mset (freed s') = W - ?M"
      "fs_te_live s' = size ?M" "tf_head (flow_positive e') = []" "tf_head (flow_negative e') = []"
    using flush_lock_settles [OF v(1) _ v(2)] pend(2) unfolding table_sys_ok_def by blast
  have held: "held e' = []" using f(5,6) by (simp add: held_def)
  let ?st1 = "(store p e' st)\<lparr>tb_flow := s'\<rparr>"
  have "table_inv sys cs (B + 2) (W - ?M + ?M) (?st1\<lparr>tb_timers := p # tb_timers ?st1\<rparr>)"
    using session_update(1) [OF inv, of e' "B + 2" s' "W - ?M" "?st1\<lparr>tb_timers := p # tb_timers ?st1\<rparr>"] flush_lock_keeps [OF f(1)] f(2-4) held
    by (simp add: accounts_def)
  then have pe: "pending sys cs (Suc B) W p ?st1" using v(3) by (auto simp: pending_def subset_mset.diff_add intro: table_inv_mono)
  have h1: "held (tb_ssn ?st1 p) = []" using held by simp
  have "flush_and_purge sys p st = ssn_purge_ssn sys p ?st1" using d e f(1) by (simp add: flush_and_purge_def entry_ok_def)
  moreover have "\<exists>st' cs'. ssn_purge_ssn sys p ?st1 = Some st' \<and> table_inv sys cs' B W st' \<and> tb_timers st' = tb_timers ?st1"
  proof (cases p)
    case (Bucket j)
    then show ?thesis using purge_head [of sys cs B W j ?st1] pe pend(2) h1 by auto
  next
    case (Pool n)
    then show ?thesis using purge_pool [of sys cs B W n ?st1] pe pend(2) h1 by auto
  qed
  ultimately show ?thesis by auto
qed

text \<open>An entry of the timer wheel fires: it leaves the wheel and goes to the handler.\<close>

definition tick :: "ssn_sys \<Rightarrow> ssn_ptr \<Rightarrow> ssn_state \<Rightarrow> ssn_state option" where
  "tick sys p st =
     (if p \<in> set (tb_timers st)
      then map_option snd (frcore_ssn_age_process sys GROUP_TO_DATA_PLANE_AGING p (st\<lparr>tb_timers := remove1 p (tb_timers st)\<rparr>))
      else Some st)"

lemma snd_bind [simp]: "map_option snd (x \<bind> (\<lambda>y. Some (a, y))) = x"
  by (cases x) simp_all

lemma tick_outcome:
  assumes inv: "table_inv sys cs (B + 58) W st" "table_sys_ok sys"
  shows "\<exists>st' cs'. tick sys p st = Some st' \<and> table_inv sys cs' B W st' \<and>
    (tb_timers st' = remove1 p (tb_timers st) \<or>
     p \<in> set (tb_timers st) \<and> ssn_ttl (tb_ssn st p) \<noteq> 0 \<and> tb_timers st' = p # remove1 p (tb_timers st) \<and> ssn_ttl (tb_ssn st' p) = ssn_ttl (tb_ssn st p) - 1)"
proof (cases "p \<in> set (tb_timers st)")
  case False
  then show ?thesis using table_inv_mono [OF inv(1), of B] by (auto simp: tick_def remove1_idem)
next
  case True
  let ?st0 = "st\<lparr>tb_timers := remove1 p (tb_timers st)\<rparr>" and ?e = "tb_ssn st p"
  have t: "distinct (tb_timers st)" "set (tb_timers st) = in_use cs (tb_ssn st)" using inv(1) by (simp_all add: table_inv_def table_ok_def)
  have p: "p \<in> in_use cs (tb_ssn st)" using t True by simp
  have d: "deref p ?st0 = Some ?e" using session_view(4) [OF inv(1) p] by (cases p) (simp_all add: deref_def split: if_splits)
  let ?e1 = "?e\<lparr>ssn_ttl := ssn_ttl ?e - 1\<rparr>"
  let ?st1 = "store p ?e1 (tstat_inc stat_ssn_tim_fired ?st0)"
  have "table_inv sys cs (B + 58) (W - others cs (tb_ssn st) p + others cs (tb_ssn st) p) (st\<lparr>tb_ssn := (tb_ssn st)(p := ?e1)\<rparr>)"
    using session_view [OF inv(1) p]
    by (intro session_update(1) [OF inv(1) p, of ?e1 _ "tb_flow st"]) (simp_all add: rec_inv_def flow_inv_def accounts_def held_def)
  then have inv1: "table_inv sys cs (B + 58) W (st\<lparr>tb_ssn := (tb_ssn st)(p := ?e1)\<rparr>)" using session_view(3) [OF inv(1) p] by (simp add: subset_mset.diff_add)
  have pend: "pending sys cs (B + 58) W p st'" if "tb_ssn st' = (tb_ssn st)(p := ?e1)" "tb_live st' = tb_live st" "tb_timers st' = remove1 p (tb_timers st)" "same_flow st st'" for st'
    using inv1 that t True
    by (simp add: pending_unfold table_inv_def table_ok_def table_accounts_def same_flow_def insert_absorb) (auto simp: chan_ok_def)
  have sf: "same_flow st ?st1" by (simp add: same_flow_def chan_ok_def tstat_add_def)
  obtain rv st2 where a: "ssn_add_timer sys p ?st1 = (rv, st2)" "tb_ssn st2 = tb_ssn ?st1" "tb_live st2 = tb_live ?st1" "same_flow ?st1 st2"
      "rv = 0 \<and> tb_timers st2 = p # tb_timers ?st1 \<or> rv = -1 \<and> tb_timers st2 = tb_timers ?st1"
    using add_timer_outcome [of sys p ?st1] by blast
  have sf2: "same_flow st st2" using sf a(4) by (rule same_flow_trans)
  have eq: "tick sys p st = (if ssn_ttl ?e = 0 then flush_and_purge sys p ?st1 else if rv < 0 then flush_and_purge sys p st2 else Some st2)"
    using True d a(1) by (simp add: tick_def frcore_ssn_age_process_def Let_def)
  consider "ssn_ttl ?e = 0" | "ssn_ttl ?e \<noteq> 0" "rv < 0" | "ssn_ttl ?e \<noteq> 0" "\<not> rv < 0" by blast
  then show ?thesis
  proof cases
    case 1
    have "pending sys cs (B + 58) W p ?st1" by (rule pend) (use sf in simp_all)
    from flush_outcome [OF this inv(2)] show ?thesis using eq 1 by auto
  next
    case 2
    then have "pending sys cs (B + 58) W p st2" by (intro pend) (use a sf2 in auto)
    from flush_outcome [OF this inv(2)] show ?thesis using eq 2 a(5) by auto
  next
    case 3
    then have t2: "tb_timers st2 = p # remove1 p (tb_timers st)" using a(5) by auto
    have "pending sys cs (B + 58) W p (st2\<lparr>tb_timers := remove1 p (tb_timers st)\<rparr>)" by (rule pend) (use a(2,3) sf2 in simp_all)
    then have "table_inv sys cs (B + 58) W (st2\<lparr>tb_timers := p # remove1 p (tb_timers st)\<rparr>)" by (simp add: pending_def)
    moreover have "st2\<lparr>tb_timers := p # remove1 p (tb_timers st)\<rparr> = st2" unfolding t2 [symmetric] by simp
    ultimately have "table_inv sys cs B W st2" using table_inv_mono by fastforce
    then show ?thesis using eq 3 t2 True a(2) by auto
  qed
qed

section \<open>Sequences of events\<close>

text \<open>A system whose steps return and keep an invariant that is paid from a budget of requests.\<close>

fun run_steps :: "('e \<Rightarrow> 's \<Rightarrow> 's option) \<Rightarrow> 'e list \<Rightarrow> 's \<Rightarrow> 's option" where
  "run_steps step [] s = Some s"
| "run_steps step (e # es) s = step e s \<bind> run_steps step es"

locale event_system =
  fixes step :: "'e \<Rightarrow> 's \<Rightarrow> 's option" and inv :: "nat \<Rightarrow> 's \<Rightarrow> bool" and admissible :: "'e \<Rightarrow> bool" and cost :: nat
  assumes step_inv: "inv (B + cost) s \<Longrightarrow> admissible e \<Longrightarrow> \<exists>s'. step e s = Some s' \<and> inv B s'"
begin

lemma run_inv: "inv (B + cost * length es) s \<Longrightarrow> \<forall>e \<in> set es. admissible e \<Longrightarrow> \<exists>s'. run_steps step es s = Some s' \<and> inv B s'"
proof (induction es arbitrary: s)
  case (Cons e es)
  have "inv (B + cost * length es + cost) s" using Cons.prems(1) by (simp add: add.commute add.left_commute)
  then obtain s1 where "step e s = Some s1" "inv (B + cost * length es) s1" using step_inv Cons.prems(2) by (meson list.set_intros(1))
  then show ?case using Cons.IH Cons.prems(2) by simp
qed simp

end

datatype table_event = Packet nat u16 "u8 list" u64 u64 | Tick ssn_ptr | Set_age u8 | Set_depth u8

text \<open>The first component lists the work items that the table has taken over.\<close>

fun table_step :: "ssn_sys \<Rightarrow> table_event \<Rightarrow> nat list \<times> ssn_state \<Rightarrow> (nat list \<times> ssn_state) option" where
  "table_step sys (Packet work len ip smac dmac) (taken, st) = do {
     (rv, st) \<leftarrow> frcore_tcp_process sys work len ip smac dmac st;
     Some (if rv = FRCORE_ACT_UNFREE then work # taken else taken, st)
   }"
| "table_step sys (Tick p) (taken, st) = do { st \<leftarrow> tick sys p st; Some (taken, st) }"
| "table_step sys (Set_age age) (taken, st) = Some (taken, snd (frcore_cmd_set_age_time age st))"
| "table_step sys (Set_depth depth) (taken, st) = Some (taken, st\<lparr>tb_flow := snd (frcore_cmd_set_disorder_depth depth (tb_flow st))\<rparr>)"

fun event_ok :: "table_event \<Rightarrow> bool" where
  "event_ok (Packet work len ip smac dmac) \<longleftrightarrow> tcp_packet ip"
| "event_ok (Tick p) \<longleftrightarrow> True"
| "event_ok (Set_age age) \<longleftrightarrow> True"
| "event_ok (Set_depth depth) \<longleftrightarrow> True"

definition steps_inv :: "ssn_sys \<Rightarrow> nat multiset \<Rightarrow> nat \<Rightarrow> nat list \<times> ssn_state \<Rightarrow> bool" where
  "steps_inv sys W B s \<longleftrightarrow> (\<exists>cs. table_inv sys cs B (W + mset (fst s)) (snd s))"

lemma set_age_same: "same_table st (snd (frcore_set_ssn_age age st))"
  by (simp add: frcore_set_ssn_age_def same_table_def same_flow_def chan_ok_def)

lemma set_depth_table:
  assumes "table_inv sys cs B W st"
  shows "table_inv sys cs B W (st\<lparr>tb_flow := snd (frcore_cmd_set_disorder_depth depth (tb_flow st))\<rparr>)"
proof -
  have "depth_ok 15 (snd (frcore_cmd_set_disorder_depth depth (tb_flow st)))" if "depth_ok 15 (tb_flow st)"
    using that by (auto simp: frcore_cmd_set_disorder_depth_def depth_ok_def c_consts word_less_nat_alt word_le_nat_alt)
  then show ?thesis using assms
    by (auto simp: table_inv_def table_ok_def table_accounts_def chan_ok_def frcore_cmd_set_disorder_depth_def)
qed

lemma table_step_inv:
  assumes "steps_inv sys W (B + 58) s" "table_sys_ok sys \<and> event_ok e"
  shows "\<exists>s'. table_step sys e s = Some s' \<and> steps_inv sys W B s'"
proof -
  obtain taken st cs where s: "s = (taken, st)" "table_inv sys cs (B + 58) (W + mset taken) st" using assms(1) by (cases s) (auto simp: steps_inv_def)
  show ?thesis
  proof (cases e)
    case (Packet work len ip smac dmac)
    then obtain rv st' cs' where r: "frcore_tcp_process sys work len ip smac dmac st = Some (rv, st')"
        "rv = FRCORE_ACT_DROP \<and> table_inv sys cs' B (W + mset taken) st' \<or> rv = FRCORE_ACT_UNFREE \<and> table_inv sys cs' B (add_mset work (W + mset taken)) st'"
      using tcp_process_outcome [OF s(2), of ip work len smac dmac] assms(2) by auto
    then show ?thesis using Packet s(1) by (auto simp: steps_inv_def FRCORE_ACT_DROP_def FRCORE_ACT_UNFREE_def)
  next
    case (Tick p)
    then show ?thesis using tick_outcome [OF s(2), of p] assms(2) s(1) by (auto simp: steps_inv_def)
  next
    case (Set_age age)
    have "table_inv sys cs B (W + mset taken) (snd (frcore_cmd_set_age_time age st))"
      unfolding frcore_cmd_set_age_time_def using table_inv_mono [OF s(2), of B] same_table_inv [OF set_age_same] by auto
    then show ?thesis using Set_age s(1) by (auto simp: steps_inv_def)
  next
    case (Set_depth depth)
    have "table_inv sys cs B (W + mset taken) st" using table_inv_mono [OF s(2)] by simp
    from set_depth_table [OF this, of depth] show ?thesis using Set_depth s(1) by (auto simp: steps_inv_def)
  qed
qed

interpretation session_table: event_system "table_step sys" "steps_inv sys W" "\<lambda>e. table_sys_ok sys \<and> event_ok e" 58 for sys W
  by unfold_locales (rule table_step_inv)

section \<open>Properties\<close>

text \<open>The table after start-up, whatever the memory held before, and a system whose allocator returns numbers not in use.\<close>

definition start_table :: "(ssn_ptr \<Rightarrow> mpp_ssn) \<Rightarrow> u8 \<Rightarrow> flow_state \<Rightarrow> ssn_state" where
  "start_table h age s = \<lparr>tb_ssn = mc_init_data h, tb_live = [], tb_alloc_req = 0, tb_timers = [], tb_tim_req = 0, tb_age = age, tb_flow = s\<rparr>"

definition demo_sys :: "(nat \<Rightarrow> bool) \<Rightarrow> ssn_sys" where
  "demo_sys fails = \<lparr>y_flow = quiet_sys, y_crc = \<lambda>a b. ucast (drop_bit 32 b), y_alloc = \<lambda>k lv. Some (Suc (sum_list lv)), y_member = \<lambda>p. True, y_tim_fails = fails\<rparr>"

lemma start_table_inv:
  assumes "ssn_ok (sys_env (y_flow sys)) B (fs_world s)" "fs_te_live s = 0" "fs_depth s = disorder_depth"
  shows "table_inv sys (\<lambda>i. []) B (mset (freed s)) (start_table h age s)"
proof -
  have e: "is_empty (mc_init_data h (Bucket i))" "next_sc (mc_init_data h (Bucket i)) = None" if "i \<in> slots" for i
    using that by (simp_all add: mc_init_data_def slots_def SSN_STATUS_EMPTY_def)
  then have u: "bucket (\<lambda>i. []) (mc_init_data h) i = []" if "i \<in> slots" for i using that by (simp add: bucket_def)
  then have "in_use (\<lambda>i. []) (mc_init_data h) = {}" by (simp add: in_use_def)
  then show ?thesis using assms e u
    by (simp add: table_inv_def table_ok_def start_table_def chains_ok_def entries_ok_def table_accounts_def queued_def chan_ok_def depth_ok_def c_consts)
qed

lemma demo_sys_ok: "table_sys_ok (demo_sys fails)"
proof -
  have "n \<noteq> Suc (sum_list lv)" if "n \<in> set lv" for n :: nat and lv using member_le_sum_list [OF that] by simp
  then show ?thesis using quiet_sys_ok by (auto simp: table_sys_ok_def demo_sys_def)
qed

lemma demo_inv: "B < 2 ^ 64 \<Longrightarrow> table_inv (demo_sys fails) (\<lambda>i. []) B {#} (start_table h age start_flow)"
  using start_table_inv [of "demo_sys fails" B start_flow h age] start_flow_ok(1) [of B 15]
  by (simp add: rec_inv_def flow_inv_def demo_sys_def start_flow_def ssn_start_def quiet_sys_def)

lemma tcp_ip_packet: "n \<le> 1500 \<Longrightarrow> tcp_packet (tcp_ip seq flags n)"
  using tcp_ip_checked [of n seq flags] by (auto simp: tcp_checked_def tcp_packet_def)

text \<open>
  C4. The session table keeps its shape. From the table that \<^verbatim>\<open>mc_init_data\<close> sets up, every sequence of TCP packets, timer events
  and commands that change the age or the depth of the queues is handled without a fault, whatever the allocator, the timer unit and the transfers do: no
  pointer is followed that is not an entry of the table or an allocated entry of the pool, and every loop over a chain
  ends. Afterwards the chains are disjoint lists of exactly the allocated entries, every session is in the bucket of
  its tuple and on the timer wheel once, and every packet the table has taken over is freed or waits in the queue of one session.
\<close>

theorem table_keeps_shape:
  assumes "table_sys_ok sys" "ssn_ok (sys_env (y_flow sys)) (B + 58 * length evs) (fs_world s)" "fs_te_live s = 0" "fs_depth s = disorder_depth"
    "\<forall>e \<in> set evs. event_ok e"
  shows "\<exists>taken st cs. run_steps (table_step sys) evs ([], start_table h age s) = Some (taken, st) \<and> table_inv sys cs B (mset (freed s) + mset taken) st"
proof -
  have "steps_inv sys (mset (freed s)) (B + 58 * length evs) ([], start_table h age s)"
    using start_table_inv [OF assms(2-4)] by (auto simp: steps_inv_def)
  then show ?thesis using session_table.run_inv [of sys "mset (freed s)" B evs] assms(1,5) by (auto simp: steps_inv_def)
qed

theorem table_keeps_shape_witness:
  "\<exists>taken st cs. run_steps (table_step (demo_sys (\<lambda>_. False))) [Packet 7 74 (tcp_ip 100 0x10 20) 1 2, Set_depth 15, Packet 8 74 (tcp_ip 200 0x10 20) 1 2, Tick (Bucket 0)]
      ([], start_table (\<lambda>_. empty_ssn) 3 start_flow) = Some (taken, st) \<and>
    table_inv (demo_sys (\<lambda>_. False)) cs 5 (mset (freed start_flow) + mset taken) st"
  using table_keeps_shape [of "demo_sys (\<lambda>_. False)" 5 "[Packet 7 74 (tcp_ip 100 0x10 20) 1 2, Set_depth 15, Packet 8 74 (tcp_ip 200 0x10 20) 1 2, Tick (Bucket 0)]" start_flow
      "\<lambda>_. empty_ssn" 3] demo_sys_ok [of "\<lambda>_. False"] start_flow_ok(1) [of 237 15]
  by (simp add: tcp_ip_packet rec_inv_def flow_inv_def demo_sys_def start_flow_def)

lemma sort_swap: "ssn_sort_tuple (swap_tuple t) = ssn_sort_tuple t \<longleftrightarrow> t_sip t \<noteq> t_dip t \<or> t_sp t = t_dp t"
  by (auto simp: ssn_sort_tuple_def swap_tuple_def tuple_eq_iff)

lemma hash_same_session: "same_session t u \<Longrightarrow> t_sip t \<noteq> t_dip t \<or> t_sp t = t_dp t \<Longrightarrow> hash_of sys u = hash_of sys t"
  using sort_swap [of t] by (auto simp: same_session_def)

lemma same_session_ends: "same_session t u \<Longrightarrow> (t_sip t \<noteq> t_dip t \<or> t_sp t = t_dp t) = (t_sip u \<noteq> t_dip u \<or> t_sp u = t_dp u)"
  by (auto simp: same_session_def swap_tuple_def)

lemma lookup_spec:
  assumes inv: "table_inv sys cs B W st" and t: "t_sip t \<noteq> t_dip t \<or> t_sp t = t_dp t"
  shows "\<exists>r. ssn_lookup_by_tuple (hash_of sys t) (ssn_sort_tuple t) MPP_SSN_HASH_MASK_SNIFFER st = Some r \<and>
    (\<forall>p. r = Some p \<longleftrightarrow> p \<in> set (tb_timers st) \<and> same_session (tuple_of (tb_ssn st p)) t)"
proof -
  let ?P = "\<lambda>p. same_session (tuple_of (tb_ssn st p)) t" and ?b = "bucket cs (tb_ssn st) (hash_of sys t)"
  have ok: "chains_ok cs (tb_ssn st) (tb_live st)" "entries_ok sys cs (tb_ssn st)" "set (tb_timers st) = in_use cs (tb_ssn st)"
    using inv by (simp_all add: table_inv_def table_ok_def)
  have l: "ssn_lookup_by_tuple (hash_of sys t) (ssn_sort_tuple t) MPP_SSN_HASH_MASK_SNIFFER st = Some (find ?P ?b)"
    using lookup_find [OF ok(1), of "hash_of sys t"] by (simp add: key_matches_iff same_session_sort)
  have b: "p \<in> set ?b" if p: "p \<in> in_use cs (tb_ssn st)" "?P p" for p
  proof -
    obtain i where i: "p \<in> set (bucket cs (tb_ssn st) i)" "hash_of sys (tuple_of (tb_ssn st p)) = i"
      using in_use_entry [OF ok(2) p(1)] by (auto simp: entry_ok_def)
    have "hash_of sys (tuple_of (tb_ssn st p)) = hash_of sys t" using hash_same_session [OF same_session_sym [OF p(2)] t] by simp
    then show ?thesis using i by simp
  qed
  have u: "p \<in> in_use cs (tb_ssn st)" if "p \<in> set ?b" for p using that hash_slot unfolding in_use_bucket by blast
  have one: "p = q" if "p \<in> set ?b" "q \<in> set ?b" "?P p" "?P q" for p q
  proof -
    have "same_session (tuple_of (tb_ssn st p)) (tuple_of (tb_ssn st q))" using that(3,4) same_session_sym same_session_trans by blast
    then show ?thesis using ok(2) that(1,2) hash_slot unfolding entries_ok_def by blast
  qed
  have "find ?P ?b = Some p \<longleftrightarrow> p \<in> in_use cs (tb_ssn st) \<and> ?P p" for p
  proof (cases "find ?P ?b")
    case None
    then have "\<not> ?P p" if "p \<in> set ?b" for p using that by (auto simp: find_None_iff)
    then show ?thesis using b None by auto
  next
    case (Some q)
    then have "q \<in> set ?b" "?P q" by (auto simp: find_Some_iff)
    then show ?thesis using Some b u one by auto
  qed
  then show ?thesis using l ok(3) by (intro exI [of _ "find ?P ?b"]) simp
qed


definition demo_tuple :: mpp_tuple where
  "demo_tuple = \<lparr>t_sip = 0x0a000001, t_dip = 0x0a000002, t_sp = 4000, t_dp = 80, t_proto = 6\<rparr>"

lemma created_found:
  assumes inv: "table_inv sys cs B W st" "table_sys_ok sys" and t: "t_sip t \<noteq> t_dip t \<or> t_sp t = t_dp t"
    and c: "find_or_create sys len t fl seq ack smac dmac st = Some (Some p, st')" and u: "same_session t u"
  shows "ssn_lookup_by_tuple (hash_of sys u) (ssn_sort_tuple u) MPP_SSN_HASH_MASK_SNIFFER st' = Some (Some p)"
    "valid_ptr p st' \<and> is_good (tb_ssn st' p)"
proof -
  obtain cs' where c': "table_inv sys cs' B W st'" "p \<in> set (bucket cs' (tb_ssn st') (hash_of sys t))" "same_session (tuple_of (tb_ssn st' p)) t"
    using find_or_create_outcome [OF inv, of len t fl seq ack smac dmac] c by auto
  have p: "p \<in> in_use cs' (tb_ssn st')" using c'(2) hash_slot unfolding in_use_bucket by blast
  then have "p \<in> set (tb_timers st')" "chains_ok cs' (tb_ssn st') (tb_live st')" "entries_ok sys cs' (tb_ssn st')" using c'(1) by (simp_all add: table_inv_def table_ok_def)
  then show "valid_ptr p st' \<and> is_good (tb_ssn st' p)" using in_use_valid [OF _ p] in_use_entry [OF _ p] by (auto simp: entry_ok_def)
  have "t_sip u \<noteq> t_dip u \<or> t_sp u = t_dp u" using t same_session_ends [OF u] by simp
  then obtain r where "ssn_lookup_by_tuple (hash_of sys u) (ssn_sort_tuple u) MPP_SSN_HASH_MASK_SNIFFER st' = Some r"
      "\<forall>p. r = Some p \<longleftrightarrow> p \<in> set (tb_timers st') \<and> same_session (tuple_of (tb_ssn st' p)) u"
    using lookup_spec [OF c'(1), of u] by blast
  then show "ssn_lookup_by_tuple (hash_of sys u) (ssn_sort_tuple u) MPP_SSN_HASH_MASK_SNIFFER st' = Some (Some p)"
    using \<open>p \<in> set (tb_timers st')\<close> same_session_trans [OF c'(3) u] by auto
qed


lemma demo_head: "ssn_status (tb_ssn (start_table (\<lambda>_. empty_ssn) 3 start_flow) (Bucket i)) = (if i \<in> slots then SSN_STATUS_EMPTY else 0)"
  "next_sc (tb_ssn (start_table (\<lambda>_. empty_ssn) 3 start_flow) (Bucket i)) = None"
  by (simp_all add: start_table_def mc_init_data_def slots_def empty_ssn_def)

lemma active_num_simps [simp]:
  "active_num (tstat_add x v st) = (if x = stat_ssn_active_num then active_num st + v else active_num st)" "active_num (store p e st) = active_num st"
  "active_num (st\<lparr>tb_timers := ts\<rparr>) = active_num st" "active_num (st\<lparr>tb_tim_req := k\<rparr>) = active_num st"
  by (simp_all add: tstat_add_def sstat_add_def store_def)

text \<open>A session is created in an empty bucket, or not, as the timer unit decides; it is counted in both cases.\<close>

lemma create_at_head:
  assumes i: "i = hash_of sys t" and l: "ssn_lookup_by_tuple i (ssn_sort_tuple t) MPP_SSN_HASH_MASK_SNIFFER st = Some None"
    and e: "is_empty (tb_ssn st (Bucket i))" and fl: "fl AND TH_FIN = 0" "fl AND TH_RST = 0" and a: "sint (active_num st) < SSN_TOTAL_NUM"
  shows "\<exists>st'. find_or_create sys len t fl seq ack smac dmac st = Some (if y_tim_fails sys (tb_tim_req st) then None else Some (Bucket i), st') \<and>
    active_num st' = active_num st + 1 \<and> tb_timers st' = (if y_tim_fails sys (tb_tim_req st) then tb_timers st else Bucket i # tb_timers st) \<and>
    (\<forall>q. q \<noteq> Bucket i \<longrightarrow> tb_ssn st' q = tb_ssn st q)"
proof -
  have v: "valid_ptr (Bucket i) st1" for st1 using hash_slot [of "y_crc sys" "ssn_sort_tuple t"] i by (simp add: slots_def)
  have d: "deref (Bucket i) st1 = Some (tb_ssn st1 (Bucket i))" for st1 by (simp only: deref_def v if_True)
  let ?st0 = "tstat_inc stat_ssn_active_num st" and ?e = "tb_ssn st (Bucket i)"
  let ?e1 = "?e\<lparr>ssn_status := ssn_status ?e AND NOT SSN_STATUS_EMPTY, ssn_addr := (ssn_addr ?e)\<lparr>a_addr_flag := 0\<rparr>\<rparr>"
  have k: "take_entry sys i ?st0 = Some (Some (Bucket i), store (Bucket i) ?e1 ?st0)"
    using e by (simp add: take_entry_def d Let_def store_def)
  let ?st2 = "store (Bucket i) (init_ssn i (tuple_data0 t) (tuple_data1 t) MPP_SSN_HASH_MASK_DATA64 seq ack (tb_age st) ?e1) (store (Bucket i) ?e1 ?st0)"
  let ?f = "tstat_inc stat_ssn_tim_failed (?st2\<lparr>tb_tim_req := tb_tim_req st + 1\<rparr>)"
  let ?g = "tstat_inc stat_ssn_tim_addok (?st2\<lparr>tb_tim_req := tb_tim_req st + 1, tb_timers := Bucket i # tb_timers st\<rparr>)"
  have t: "ssn_add_timer sys (Bucket i) ?st2 = (if y_tim_fails sys (tb_tim_req st) then (-1, ?f) else (0, ?g))"
    by (simp add: ssn_add_timer_def Let_def)
  have p: "ssn_prepare sys i (tuple_data0 t) (tuple_data1 t) MPP_SSN_HASH_MASK_DATA64 fl seq ack st =
      (if y_tim_fails sys (tb_tim_req st) then do { st \<leftarrow> ssn_purge_ssn_nolock (Bucket i) ?f; Some (None, st) } else Some (Some (Bucket i), ?g))"
    using a fl by (simp add: ssn_prepare_def k d Let_def t)
  have "ssn_index (tb_ssn ?f (Bucket i)) = i" by (simp add: init_ssn_def)
  then have n: "ssn_purge_ssn_nolock (Bucket i) ?f = Some (store (Bucket i) ((tb_ssn ?f (Bucket i))\<lparr>ssn_status := ssn_status (tb_ssn ?f (Bucket i)) OR SSN_STATUS_EMPTY\<rparr>) ?f)"
    by (simp only: ssn_purge_ssn_nolock_def d Option.bind.simps Let_def refl if_True)
  show ?thesis
  proof (cases "y_tim_fails sys (tb_tim_req st)")
    case True
    then show ?thesis using l p n i by (simp add: find_or_create_def Let_def)
  next
    case False
    then show ?thesis using l p d i by (simp add: find_or_create_def Let_def)
  qed
qed

lemma lookup_empty_bucket:
  assumes "is_empty (tb_ssn st (Bucket (hash_of sys t)))" "next_sc (tb_ssn st (Bucket (hash_of sys t))) = None"
  shows "ssn_lookup_by_tuple (hash_of sys t) (ssn_sort_tuple t) MPP_SSN_HASH_MASK_SNIFFER st = Some None"
proof -
  have v: "valid_ptr (Bucket (hash_of sys t)) st" using hash_slot [of "y_crc sys" "ssn_sort_tuple t"] by (simp add: slots_def)
  show ?thesis using assms by (simp only: ssn_lookup_by_tuple_def deref_def v if_True) (simp add: chain_lookup.simps)
qed

lemma demo_lookup:
  "is_empty (tb_ssn (start_table (\<lambda>_. empty_ssn) 3 start_flow) (Bucket (hash_of sys t)))" "active_num (start_table (\<lambda>_. empty_ssn) 3 start_flow) = 0"
  "ssn_lookup_by_tuple (hash_of sys t) (ssn_sort_tuple t) MPP_SSN_HASH_MASK_SNIFFER (start_table (\<lambda>_. empty_ssn) 3 start_flow) = Some None"
proof -
  show e: "is_empty (tb_ssn (start_table (\<lambda>_. empty_ssn) 3 start_flow) (Bucket (hash_of sys t)))" by (simp add: demo_head status_words)
  then show "ssn_lookup_by_tuple (hash_of sys t) (ssn_sort_tuple t) MPP_SSN_HASH_MASK_SNIFFER (start_table (\<lambda>_. empty_ssn) 3 start_flow) = Some None"
    by (rule lookup_empty_bucket) (simp add: demo_head)
  show "active_num (start_table (\<lambda>_. empty_ssn) 3 start_flow) = 0" by (simp add: start_table_def start_flow_def ssn_start_def)
qed

lemma demo_create:
  assumes "ssn_lookup_by_tuple (hash_of (demo_sys fails) t) (ssn_sort_tuple t) MPP_SSN_HASH_MASK_SNIFFER st = Some None"
    "is_empty (tb_ssn st (Bucket (hash_of (demo_sys fails) t)))" "sint (active_num st) < SSN_TOTAL_NUM" "\<not> fails (tb_tim_req st)"
  shows "\<exists>st'. find_or_create (demo_sys fails) 74 t 0x10 1 2 5 6 st = Some (Some (Bucket (hash_of (demo_sys fails) t)), st') \<and>
    active_num st' = active_num st + 1 \<and> tb_timers st' = Bucket (hash_of (demo_sys fails) t) # tb_timers st \<and>
    (\<forall>q. q \<noteq> Bucket (hash_of (demo_sys fails) t) \<longrightarrow> tb_ssn st' q = tb_ssn st q)"
  using create_at_head [where fl = "0x10" and len = 74 and seq = 1 and ack = 2 and smac = 5 and dmac = 6, OF refl assms(1,2) _ _ assms(3)] assms(4)
  by (simp add: TH_FIN_def TH_RST_def demo_sys_def)



text \<open>
  C29. Idle sessions are removed. When no packet of a session arrives, the session has left the table after as many firings
  of its timer as its remaining time to live, and one more, even if the timer unit fails in between; its segments are submitted, its
  packets are freed, and the rest of the table keeps its shape.
\<close>

theorem idle_session_removed:
  assumes "table_inv sys cs (B + 58 * Suc (unat (ssn_ttl (tb_ssn st p)))) W st" "table_sys_ok sys"
  shows "\<exists>st' cs'. run_steps (tick sys) (replicate (Suc (unat (ssn_ttl (tb_ssn st p)))) p) st = Some st' \<and> p \<notin> set (tb_timers st') \<and> table_inv sys cs' B W st'"
proof -
  have gone: "\<exists>st' cs'. run_steps (tick sys) (replicate n p) st = Some st' \<and> p \<notin> set (tb_timers st') \<and> table_inv sys cs' B W st'"
    if "p \<notin> set (tb_timers st)" "table_inv sys cs (B + 58 * n) W st" for n cs st
  proof -
    have "run_steps (tick sys) (replicate n p) st = Some st" using that(1) by (induction n) (simp_all add: tick_def)
    then show ?thesis using that(1) table_inv_mono [OF that(2), of B] by auto
  qed
  have "\<exists>st' cs'. run_steps (tick sys) (replicate (Suc n) p) st = Some st' \<and> p \<notin> set (tb_timers st') \<and> table_inv sys cs' B W st'"
    if "unat (ssn_ttl (tb_ssn st p)) = n" "table_inv sys cs (B + 58 * Suc n) W st" for n cs st
    using that
  proof (induction n arbitrary: st cs)
    case (0 st cs)
    have t: "distinct (tb_timers st)" using 0(2) by (simp add: table_inv_def table_ok_def)
    have "table_inv sys cs (B + 58) W st" using 0(2) by simp
    from tick_outcome [OF this assms(2), of p] 0(1) t show ?case by (auto simp: unat_eq_0)
  next
    case (Suc n st cs)
    have t: "distinct (tb_timers st)" using Suc.prems(2) by (simp add: table_inv_def table_ok_def)
    have "table_inv sys cs (B + 58 * Suc n + 58) W st" using Suc.prems(2) by (simp add: algebra_simps)
    then obtain st1 cs1 where s: "tick sys p st = Some st1" "table_inv sys cs1 (B + 58 * Suc n) W st1"
        "tb_timers st1 = remove1 p (tb_timers st) \<or> ssn_ttl (tb_ssn st p) \<noteq> 0 \<and> ssn_ttl (tb_ssn st1 p) = ssn_ttl (tb_ssn st p) - 1"
      using tick_outcome [OF _ assms(2), of cs "B + 58 * Suc n" W st p] by blast
    show ?case
    proof (cases "p \<in> set (tb_timers st1)")
      case False
      then show ?thesis using gone [OF False s(2)] s(1) by simp
    next
      case True
      then have "unat (ssn_ttl (tb_ssn st1 p)) = n" using s(3) t Suc.prems(1) by (auto simp: unat_minus_one)
      then show ?thesis using Suc.IH [OF _ s(2)] s(1) by simp
    qed
  qed
  from this [OF refl assms(1)] show ?thesis .
qed

text \<open>
  Two sessions for one connection. \<^verbatim>\<open>ssn_sort_tuple\<close> orders the ends of a connection by their addresses alone: when both
  are the same address, the two directions are sorted differently. If they are hashed to different buckets, the packets of the
  second direction do not find the session of the first one and use a session of their own.
\<close>

theorem loopback_two_sessions:
  assumes "table_inv sys cs B W st" "table_sys_ok sys" "t_sip t = t_dip t" "hash_of sys (swap_tuple t) \<noteq> hash_of sys t"
    "find_or_create sys len t fl seq ack smac dmac st = Some (Some p, st1)" "find_or_create sys len' (swap_tuple t) fl' seq' ack' smac' dmac' st1 = Some (Some q, st2)"
  shows "p \<noteq> q \<and> same_session (tuple_of (tb_ssn st1 p)) t \<and> same_session (tuple_of (tb_ssn st2 q)) t"
proof -
  obtain cs1 where 1: "table_inv sys cs1 B W st1" "p \<in> set (bucket cs1 (tb_ssn st1) (hash_of sys t))" "same_session (tuple_of (tb_ssn st1 p)) t"
    using find_or_create_outcome [OF assms(1,2), of len t fl seq ack smac dmac] assms(5) by auto
  obtain cs2 where 2: "table_inv sys cs2 B W st2" "q \<in> set (bucket cs2 (tb_ssn st2) (hash_of sys (swap_tuple t)))" "same_session (tuple_of (tb_ssn st2 q)) (swap_tuple t)"
      "st2 = st1 \<or> tb_timers st2 = q # tb_timers st1"
    using find_or_create_outcome [OF 1(1) assms(2), of len' "swap_tuple t" fl' seq' ack' smac' dmac'] assms(6) by auto
  have index: "ssn_index (tb_ssn st r) = i" if "table_inv sys cs B W st" "r \<in> set (bucket cs (tb_ssn st) i)" "i \<in> slots" for cs st r i
    using that by (auto simp: table_inv_def table_ok_def entries_ok_def entry_ok_def)
  have "p \<in> set (tb_timers st1)" using 1(1,2) hash_slot unfolding table_inv_def table_ok_def in_use_def by blast
  moreover have "distinct (tb_timers st2)" using 2(1) by (simp add: table_inv_def table_ok_def)
  ultimately have "p \<noteq> q" using 2(4) index [OF 1(1,2) hash_slot] index [OF 2(1,2) hash_slot] assms(4) by auto
  then show ?thesis using 1(3) 2(3) same_session_trans [of _ "swap_tuple t" t] by auto
qed

definition self_tuple :: mpp_tuple where
  "self_tuple = \<lparr>t_sip = 0x0a000001, t_dip = 0x0a000001, t_sp = 4000, t_dp = 80, t_proto = 6\<rparr>"

theorem loopback_two_sessions_witness:
  "\<exists>p q st1 st2. find_or_create (demo_sys (\<lambda>_. False)) 74 self_tuple 0x10 1 2 5 6 (start_table (\<lambda>_. empty_ssn) 3 start_flow) = Some (Some p, st1) \<and>
    find_or_create (demo_sys (\<lambda>_. False)) 74 (swap_tuple self_tuple) 0x10 1 2 5 6 st1 = Some (Some q, st2) \<and>
    p \<noteq> q \<and> same_session (tuple_of (tb_ssn st1 p)) self_tuple \<and> same_session (tuple_of (tb_ssn st2 q)) self_tuple"
proof -
  let ?sys = "demo_sys (\<lambda>_. False)" and ?st = "start_table (\<lambda>_. empty_ssn) 3 start_flow" and ?t = self_tuple
  have h: "hash_of ?sys ?t = 80" "hash_of ?sys (swap_tuple ?t) = 4000"
    by (simp_all add: ssn_hash_by_tuple_def demo_sys_def self_tuple_def swap_tuple_def ssn_sort_tuple_def tuple_data1_def SSN_HASH_BUCKET_SIZE_MASK_def)
  obtain st1 where 1: "find_or_create ?sys 74 ?t 0x10 1 2 5 6 ?st = Some (Some (Bucket 80), st1)" "active_num st1 = 1"
      "\<forall>q. q \<noteq> Bucket 80 \<longrightarrow> tb_ssn st1 q = tb_ssn ?st q"
    using demo_create [OF demo_lookup(3,1) [of ?sys ?t]] demo_lookup(2) by (auto simp: SSN_TOTAL_NUM_def h)
  have e: "is_empty (tb_ssn st1 (Bucket (hash_of ?sys (swap_tuple ?t))))" "next_sc (tb_ssn st1 (Bucket (hash_of ?sys (swap_tuple ?t)))) = None"
    using 1(3) demo_lookup(1) [of ?sys "swap_tuple ?t"] by (simp_all add: h demo_head)
  obtain q st2 where 2: "find_or_create ?sys 74 (swap_tuple ?t) 0x10 1 2 5 6 st1 = Some (Some q, st2)"
    using demo_create [OF lookup_empty_bucket [OF e] e(1)] 1(2) by (auto simp: SSN_TOTAL_NUM_def)
  have "t_sip ?t = t_dip ?t" "hash_of ?sys (swap_tuple ?t) \<noteq> hash_of ?sys ?t" by (simp add: self_tuple_def) (simp add: h)
  from loopback_two_sessions [OF demo_inv [of 5] demo_sys_ok this 1(1) 2] show ?thesis using 1(1) 2 by auto
qed

theorem idle_session_removed_witness:
  "\<exists>p st st'. find_or_create (demo_sys (\<lambda>_. False)) 74 demo_tuple 0x10 1 2 5 6 (start_table (\<lambda>_. empty_ssn) 3 start_flow) = Some (Some p, st) \<and>
    run_steps (tick (demo_sys (\<lambda>_. False))) (replicate (Suc (unat (ssn_ttl (tb_ssn st p)))) p) st = Some st' \<and> p \<notin> set (tb_timers st')"
proof -
  let ?sys = "demo_sys (\<lambda>_. False)" and ?st = "start_table (\<lambda>_. empty_ssn) 3 start_flow" and ?B = "5 + 58 * 4294967296 :: nat"
  obtain p st where c: "find_or_create ?sys 74 demo_tuple 0x10 1 2 5 6 ?st = Some (Some p, st)"
    using demo_create [OF demo_lookup(3,1) [of ?sys demo_tuple]] demo_lookup(2) by (auto simp: SSN_TOTAL_NUM_def)
  obtain cs where "table_inv ?sys cs ?B {#} st"
    using find_or_create_outcome [OF demo_inv [of ?B "\<lambda>_. False" "\<lambda>_. empty_ssn" 3] demo_sys_ok, of 74 demo_tuple "0x10" 1 2 5 6] c by auto
  moreover have "5 + 58 * Suc (unat (ssn_ttl (tb_ssn st p))) \<le> ?B" using unsigned_less [of "ssn_ttl (tb_ssn st p)", where ?'a = nat] by simp
  ultimately have "table_inv ?sys cs (5 + 58 * Suc (unat (ssn_ttl (tb_ssn st p)))) {#} st" by (rule table_inv_mono)
  from idle_session_removed [OF this demo_sys_ok] show ?thesis using c by blast
qed

text \<open>
  A failed timer request leaks the session count. When the timer unit refuses the timer of a new session, \<^verbatim>\<open>ssn_prepare\<close> gives
  the entry back and returns nothing, but \<^verbatim>\<open>stat_ssn_active_num\<close> stays one higher: no session was added, and the
  counter that limits the sessions to \<^verbatim>\<open>SSN_TOTAL_NUM\<close> never comes down again for it.
\<close>

theorem timer_failure_leaks_count:
  assumes "ssn_lookup_by_tuple (hash_of sys t) (ssn_sort_tuple t) MPP_SSN_HASH_MASK_SNIFFER st = Some None" "is_empty (tb_ssn st (Bucket (hash_of sys t)))"
    "fl AND TH_FIN = 0" "fl AND TH_RST = 0" "sint (active_num st) < SSN_TOTAL_NUM" "y_tim_fails sys (tb_tim_req st)"
  shows "\<exists>st'. find_or_create sys len t fl seq ack smac dmac st = Some (None, st') \<and> tb_timers st' = tb_timers st \<and> active_num st' = active_num st + 1"
  using create_at_head [OF refl assms(1-5), of len seq ack smac dmac] assms(6) by auto

theorem timer_failure_leaks_count_witness:
  "\<exists>st'. find_or_create (demo_sys (\<lambda>_. True)) 74 demo_tuple 0x10 1 2 5 6 (start_table (\<lambda>_. empty_ssn) 3 start_flow) = Some (None, st') \<and>
    tb_timers st' = tb_timers (start_table (\<lambda>_. empty_ssn) 3 start_flow) \<and> active_num st' = active_num (start_table (\<lambda>_. empty_ssn) 3 start_flow) + 1"
  by (rule timer_failure_leaks_count [OF demo_lookup(3,1)]) (simp_all add: TH_FIN_def TH_RST_def SSN_TOTAL_NUM_def demo_lookup(2) demo_sys_def)

end
