(* ===== verification/Udp.thy ===== *)
theory Udp
  imports Rule
begin

text \<open>
  \<^verbatim>\<open>frcore/frcore_udp.c\<close> (configuration \<^verbatim>\<open>FRC_CONFIG_UDP\<close>): a UDP packet is described by a header and an info structure and
  queued in the simple-package channel; two commands switch the feature and read the switch.
\<close>

record udp_state =
  udp_enable :: u8
  ud_world :: chan_world
  stat_udp_submit_pkts :: u64
  stat_udp_submit_bytes :: u64

text \<open>\<open>ip\<close> and \<open>udp\<close> are the offsets of the two headers in the frame.\<close>

definition udp_tuple :: "u8 list \<Rightarrow> nat \<Rightarrow> nat \<Rightarrow> mpp_tuple option" where
  "udp_tuple eth ip udp = do {
     sip \<leftarrow> UP32 eth (ip + 12); dip \<leftarrow> UP32 eth (ip + 16);
     sport \<leftarrow> UP16 eth udp; dport \<leftarrow> UP16 eth (udp + 2);
     Some \<lparr>t_sip = sip, t_dip = dip, t_sp = sport, t_dp = dport, t_proto = PROTO_UDP\<rparr>
   }"

definition udp_info :: "nat \<Rightarrow> u16 \<Rightarrow> u64 \<Rightarrow> u64 \<Rightarrow> u8 list" where
  "udp_info udp ip_paylen smac dmac = info_bytes 0 0 (ip_paylen - 8) (of_nat (udp + 8)) smac dmac"

definition frcore_udp_process :: "env \<Rightarrow> cvmx_wqe \<Rightarrow> u8 list \<Rightarrow> nat \<Rightarrow> nat \<Rightarrow> u16 \<Rightarrow> u64 \<Rightarrow> u64 \<Rightarrow> udp_state \<Rightarrow> (int \<times> udp_state) option" where
  "frcore_udp_process env work eth ip udp ip_paylen smac dmac s =
     (if udp_enable s = 0 then Some (FRCORE_ACT_FORWARD, s)
      else do {
        t \<leftarrow> udp_tuple eth ip udp;
        (rv, w) \<leftarrow> frcore_forward_simple_pkt_to_fifo env (hdr_bytes t (wqe_tag work AND 0xffffff) (wqe_len work))
                     (udp_info udp ip_paylen smac dmac) eth (wqe_len work) (ud_world s);
        Some (FRCORE_ACT_FORWARD, if rv \<noteq> FRE_SUCCESS then s\<lparr>ud_world := w\<rparr>
                 else s\<lparr>ud_world := w, stat_udp_submit_pkts := stat_udp_submit_pkts s + 1, stat_udp_submit_bytes := stat_udp_submit_bytes s + ucast (wqe_len work)\<rparr>)
      })"

definition frcore_cmd_udp_enable :: "u8 \<Rightarrow> udp_state \<Rightarrow> int \<times> udp_state" where
  "frcore_cmd_udp_enable enable s = (FRE_SUCCESS, s\<lparr>udp_enable := enable\<rparr>)"

definition frcore_cmd_udp_status_get :: "udp_state \<Rightarrow> int \<times> u8" where
  "frcore_cmd_udp_status_get s = (FRE_SUCCESS, udp_enable s)"

text \<open>
  Queueing a UDP packet: when the switch is on, a packet of at most 1936 bytes is appended, with its header and info, to the queue that
  the preceding post left (the old one, or the empty one when the old one was full and its blocks were returned), and counted; it is refused and not counted exactly when
  that queue is full. Whatever transfers fail, no copy leaves its array.
\<close>

theorem udp_packet_queued:
  assumes ok: "fifo_ok env (ud_world s)" and on: "udp_enable s \<noteq> 0" and t: "udp_tuple eth ip udp = Some t" and len: "unat (wqe_len work) \<le> length eth" "unat (wqe_len work) \<le> 1936"
    and nowrap: "unat (local_widx (w_fifo (ud_world s))) + 1 < 2 ^ 64"
  shows "\<exists>q s'. room_made env (ud_world s) (ud_world s') q \<and> frcore_udp_process env work eth ip udp ip_paylen smac dmac s = Some (FRCORE_ACT_FORWARD, s') \<and> fifo_ok env (ud_world s') \<and>
    (if length q < FRCORE_CORE_FIFO_NUM env
     then stat_udp_submit_pkts s' = stat_udp_submit_pkts s + 1 \<and> fifo_queue env (ud_world s') =
       q @ [hdr_bytes t (wqe_tag work AND 0xffffff) (wqe_len work) @ take (unat (wqe_len work)) eth @ udp_info udp ip_paylen smac dmac]
     else stat_udp_submit_pkts s' = stat_udp_submit_pkts s \<and> fifo_queue env (ud_world s') = q)"
proof -
  let ?w = "ud_world s" and ?hdr = "hdr_bytes t (wqe_tag work AND 0xffffff) (wqe_len work)" and ?info = "udp_info udp ip_paylen smac dmac"
  obtain w1 where w1: "frcore_simple_package_fifo_post env True ?w = Some w1" "fifo_ok env w1"
      "local_widx (w_fifo w1) = local_widx (w_fifo ?w)"
    and room: "\<And>w'. w_host w' = w_host w1 \<Longrightarrow> w_stat w' stat_post_err_pkts = w_stat w1 stat_post_err_pkts \<Longrightarrow> room_made env ?w w' (fifo_queue env w1)"
    by (rule post_makes_room [OF ok]) blast
  have stat: "fifo_ok env (stat_add x v w') = fifo_ok env w'" "fifo_queue env (stat_add x v w') = fifo_queue env w'"
    "fifo_ok env (w\<lparr>w_stat := st\<rparr>) = fifo_ok env w" "fifo_queue env (w\<lparr>w_stat := st\<rparr>) = fifo_queue env w" for x v w w' st
    by (simp_all add: fifo_ok_def fifo_queue_def)
  have parts: "parts_ok ?hdr ?info eth (wqe_len work)" using len(1) by (simp add: parts_ok_def hdr_info_lengths udp_info_def)
  show ?thesis
  proof (cases "fifo_len (w_fifo w1) < FRCORE_CORE_FIFO_NUM env")
    case True
    obtain w2 where "fifo_add env [] ?hdr ?info eth (wqe_len work) w1 = Some (FRE_SUCCESS, w2)" "fifo_ok env w2"
        "fifo_queue env w2 = fifo_queue env w1 @ [?hdr @ [] @ take (unat (wqe_len work)) eth @ ?info]" "w_host w2 = w_host w1" "w_stat w2 = w_stat w1"
      using fifo_add_stores [OF w1(2) parts True, of "[]"] nowrap len(2) w1(3) by auto
    then show ?thesis using w1 True on t room [of "stat_inc stat_dma_enqueue_pkts w2"]
      by (intro exI [of _ "fifo_queue env w1"])
         (simp add: stat_add_other frcore_udp_process_def frcore_forward_simple_pkt_to_fifo_def frcore_simple_package_fifo_add_def enqueue_result_def FRE_SUCCESS_def stat)
  next
    case False
    obtain rv st where "fifo_add env [] ?hdr ?info eth (wqe_len work) w1 = Some (rv, w1\<lparr>w_stat := st\<rparr>)" "rv \<noteq> 0"
        "st stat_post_err_pkts = w_stat w1 stat_post_err_pkts"
      using fifo_add_refused [where paylen = "wqe_len work" and extra = "[]" and w = w1 and env = env and hdr = ?hdr and info = ?info and payload = eth] False by (auto simp: FRE_EXCEED_def FRE_NOSPACE_def)
    then show ?thesis using w1 False on t room [of "stat_inc stat_dma_enqueue_errs (w1\<lparr>w_stat := st\<rparr>)"]
      by (intro exI [of _ "fifo_queue env w1"])
         (simp add: stat_add_other frcore_udp_process_def frcore_forward_simple_pkt_to_fifo_def frcore_simple_package_fifo_add_def enqueue_result_def stat FRE_SUCCESS_def FRE_EXCEED_def)
  qed
qed

end
