(* ===== verification/Vlan.thy ===== *)
theory Vlan
  imports Rule
begin

text \<open>
  The check of VLAN tags: \<^verbatim>\<open>frcore/frcore_alg.c\<close> computes the tag that a packet must carry from its addresses,
  \<^verbatim>\<open>frcore/frcore_vlan_check.c\<close> compares it with the tag of the packet and counts the result per port.

  \<^verbatim>\<open>FRC_CONFIG_VLAN_IV\<close> selects between two algorithms at compile time; it is the argument \<open>iv\<close>. The sources set it.
  The division by the number of tags faults when that is zero.
\<close>

section \<open>The computation of the tag\<close>

definition ip4b8 :: "nat list" where "ip4b8 = [0, 2, 4, 6, 8, 12, 16, 24]"
definition ip4b4 :: "nat list" where "ip4b4 = [0, 4, 8, 16]"
definition ip6b8 :: "nat list" where "ip6b8 = [0, 2, 4, 8, 16, 24, 32, 48]"
definition ip6b4 :: "nat list" where "ip6b4 = [0, 4, 8, 16]"
definition SDIP_MAX_NUM :: u32 where [c_consts]: "SDIP_MAX_NUM = 256"
definition E0 :: u32 where [c_consts]: "E0 = 2001"
definition EMAX4 :: u32 where [c_consts]: "EMAX4 = 256"

definition sdip_vlan_index :: "u16 list" where
  "sdip_vlan_index = [
      0, 1, 2, 3, 4, 5, 6, 7, 8, 9, 10, 11, 12, 13, 14, 15,
      1, 16, 17, 18, 19, 20, 21, 22, 23, 24, 25, 26, 27, 28, 29, 30,
      2, 17, 31, 32, 33, 34, 35, 36, 37, 38, 39, 40, 41, 42, 43, 44,
      3, 18, 32, 45, 46, 47, 48, 49, 50, 51, 52, 53, 54, 55, 56, 57,
      4, 19, 33, 46, 58, 59, 60, 61, 62, 63, 64, 65, 66, 67, 68, 69,
      5, 20, 34, 47, 59, 70, 71, 72, 73, 74, 75, 76, 77, 78, 79, 80,
      6, 21, 35, 48, 60, 71, 81, 82, 83, 84, 85, 86, 87, 88, 89, 90,
      7, 22, 36, 49, 61, 72, 82, 91, 92, 93, 94, 95, 96, 97, 98, 99,
      8, 23, 37, 50, 62, 73, 83, 92, 0, 100, 101, 102, 103, 104, 105, 106,
      9, 24, 38, 51, 63, 74, 84, 93, 100, 16, 107, 108, 109, 110, 111, 112,
      10, 25, 39, 52, 64, 75, 85, 94, 101, 107, 31, 113, 114, 115, 116, 117,
      11, 26, 40, 53, 65, 76, 86, 95, 102, 108, 113, 45, 118, 119, 120, 121,
      12, 27, 41, 54, 66, 77, 87, 96, 103, 109, 114, 118, 58, 122, 123, 124,
      13, 28, 42, 55, 67, 78, 88, 97, 104, 110, 115, 119, 122, 70, 125, 126,
      14, 29, 43, 56, 68, 79, 89, 98, 105, 111, 116, 120, 123, 125, 81, 127,
      15, 30, 44, 57, 69, 80, 90, 99, 106, 112, 117, 121, 124, 126, 127, 91]"

text \<open>\<^verbatim>\<open>HASH_EM\<close> and \<^verbatim>\<open>IP_TYPE\<close>; the hash type comes from a byte and may be none of them.\<close>

definition FS_HSEL_NULL :: u8 where "FS_HSEL_NULL = 0"
definition FS_HSEL_SIP :: u8 where "FS_HSEL_SIP = 1"
definition FS_HSEL_DIP :: u8 where "FS_HSEL_DIP = 2"
definition FS_HSEL_SDIP :: u8 where "FS_HSEL_SDIP = 3"

lemmas hash_types = FS_HSEL_NULL_def FS_HSEL_SIP_def FS_HSEL_DIP_def FS_HSEL_SDIP_def

datatype IP_TYPE = IPV4 | IPV6

record ip4_pkt =
  sip_data :: u32
  dip_data :: u32

record ip6_pkt =
  sip6_data :: "u8 list"
  dip6_data :: "u8 list"

record hash_masks =
  hash_sip4_mask :: u32
  hash_dip4_mask :: u32
  hash_sip6_mask :: "u8 list"
  hash_dip6_mask :: "u8 list"

definition BIT_GET :: "u32 \<Rightarrow> nat \<Rightarrow> bool" where
  "BIT_GET v b \<longleftrightarrow> v AND push_bit b 1 \<noteq> 0"

definition BIT_SET :: "u32 \<Rightarrow> nat \<Rightarrow> bool \<Rightarrow> u32" where
  "BIT_SET v b val = (if val then v OR push_bit b 1 else v AND NOT (push_bit b 1))"

text \<open>The loops \<^verbatim>\<open>for (i = 0; i < n; i++) BIT_SET(eid, i, ...)\<close>.\<close>

definition set_bits :: "nat \<Rightarrow> (nat \<Rightarrow> bool) \<Rightarrow> u32 \<Rightarrow> u32" where
  "set_bits n get eid = fold (\<lambda>i eid. BIT_SET eid i (get i)) [0..<n] eid"

definition sdip_index :: "u32 \<Rightarrow> u32 option" where
  "sdip_index eid = map_option ucast (arr_get sdip_vlan_index (unat (eid mod SDIP_MAX_NUM)))"

definition ip4_to_eid :: "ip4_pkt \<Rightarrow> u8 \<Rightarrow> u32 option" where
  "ip4_to_eid pkt hash =
     (if hash = FS_HSEL_NULL then Some (- 1)
      else if hash = FS_HSEL_SIP then Some (set_bits 7 (\<lambda>i. BIT_GET (sip_data pkt) (ip4b8 ! i)) 0)
      else if hash = FS_HSEL_DIP then Some (set_bits 7 (\<lambda>i. BIT_GET (dip_data pkt) (ip4b8 ! i)) 0)
      else if hash = FS_HSEL_SDIP
      then sdip_index (set_bits 4 (\<lambda>i. BIT_GET (dip_data pkt) (ip4b4 ! i)) (push_bit 4 (set_bits 4 (\<lambda>i. BIT_GET (sip_data pkt) (ip4b4 ! i)) 0)))
      else Some 0)"

text \<open>\<^verbatim>\<open>ip32[k]\<close> of an address of sixteen bytes, on the big-endian core.\<close>

definition ip32 :: "u8 list \<Rightarrow> nat \<Rightarrow> u32 option" where
  "ip32 addr k = UP32 addr (4 * k)"

definition addr_bit :: "u8 list \<Rightarrow> nat \<Rightarrow> bool option" where
  "addr_bit addr b = map_option (\<lambda>w. BIT_GET w (b mod 32)) (ip32 addr (3 - b div 32))"

definition addr_bits :: "u8 list \<Rightarrow> nat list \<Rightarrow> bool list option" where
  "addr_bits addr bs = those (map (addr_bit addr) bs)"

definition ip6_to_eid :: "ip6_pkt \<Rightarrow> u8 \<Rightarrow> u32 option" where
  "ip6_to_eid pkt hash =
     (if hash = FS_HSEL_NULL then Some (- 1)
      else if hash = FS_HSEL_SIP then do { bs \<leftarrow> addr_bits (sip6_data pkt) (take 7 ip6b8); Some (set_bits 7 (\<lambda>i. bs ! i) 0) }
      else if hash = FS_HSEL_DIP then do { bs \<leftarrow> addr_bits (dip6_data pkt) (take 7 ip6b8); Some (set_bits 7 (\<lambda>i. bs ! i) 0) }
      else if hash = FS_HSEL_SDIP then do {
        bs \<leftarrow> addr_bits (sip6_data pkt) ip6b4;
        ds \<leftarrow> addr_bits (dip6_data pkt) ip6b4;
        sdip_index (set_bits 4 (\<lambda>i. ds ! i) (push_bit 4 (set_bits 4 (\<lambda>i. bs ! i) 0)))
      }
      else Some 0)"

text \<open>The four words of an address, each combined with the one before it: the last is the exclusive or of all.\<close>

definition fold_words :: "u8 list \<Rightarrow> u32 option" where
  "fold_words addr = do {
     (w0, p) \<leftarrow> UNPACK_U32 addr;
     (w1, p) \<leftarrow> UNPACK_U32 p;
     let w1 = w1 XOR w0;
     (w2, p) \<leftarrow> UNPACK_U32 p;
     let w2 = w2 XOR w1;
     (w3, p) \<leftarrow> UNPACK_U32 p;
     Some (w3 XOR w2)
   }"

definition ip6_to_eid_new :: "hash_masks \<Rightarrow> ip6_pkt \<Rightarrow> u8 \<Rightarrow> u32 option" where
  "ip6_to_eid_new ms pkt hash = do {
     sw_sip \<leftarrow> fold_words (map2 (AND) (sip6_data pkt) (hash_sip6_mask ms));
     sw_dip \<leftarrow> fold_words (map2 (AND) (dip6_data pkt) (hash_dip6_mask ms));
     Some (if hash = FS_HSEL_NULL then - 1
           else if hash = FS_HSEL_SIP then sw_sip
           else if hash = FS_HSEL_DIP then sw_dip
           else if hash = FS_HSEL_SDIP then sw_sip + sw_dip
           else 0)
   }"

definition ip4_to_eid_new :: "hash_masks \<Rightarrow> ip4_pkt \<Rightarrow> u8 \<Rightarrow> u32" where
  "ip4_to_eid_new ms pkt hash =
     (let sip = sip_data pkt AND hash_sip4_mask ms; dip = dip_data pkt AND hash_dip4_mask ms
      in if hash = FS_HSEL_NULL then - 1
         else if hash = FS_HSEL_SIP then sip
         else if hash = FS_HSEL_DIP then dip
         else if hash = FS_HSEL_SDIP then sip + dip
         else 0)"

text \<open>The remainder of a division by zero is a fault.\<close>

definition mod32 :: "u32 \<Rightarrow> u32 \<Rightarrow> u32 option" where
  "mod32 a n = (if n = 0 then None else Some (a mod n))"

definition eid_to_vlan_new :: "u32 \<Rightarrow> u32 \<Rightarrow> u32 \<Rightarrow> u32 option" where
  "eid_to_vlan_new eid vlan_n vlan_0 = map_option (\<lambda>r. r + vlan_0) (mod32 eid vlan_n)"

definition eid_to_vlan :: "u32 \<Rightarrow> IP_TYPE \<Rightarrow> u32 \<Rightarrow> u32 \<Rightarrow> u8 \<Rightarrow> u32 option" where
  "eid_to_vlan eid iptp vlan_n vlan_0 hash =
     map_option (\<lambda>r. r + vlan_0)
       (if hash = FS_HSEL_SDIP then mod32 eid vlan_n
        else case iptp of IPV4 \<Rightarrow> mod32 (eid + E0) vlan_n | IPV6 \<Rightarrow> mod32 (eid + E0 + EMAX4) vlan_n)"

text \<open>The end of both functions: \<^verbatim>\<open>-1\<close> stands for no tag; the comparison is one of signed integers.\<close>

definition calc_vlan :: "u32 \<Rightarrow> u32 option \<Rightarrow> u32 option" where
  "calc_vlan eid vlan =
     (if eid = - 1 then Some (- 1)
      else do { vlanid \<leftarrow> vlan; Some (if sint vlanid > 4095 then - 1 else vlanid) })"

definition ip4_calc_vlan :: "bool \<Rightarrow> hash_masks \<Rightarrow> ip4_pkt \<Rightarrow> u8 \<Rightarrow> u32 \<Rightarrow> u32 \<Rightarrow> u32 option" where
  "ip4_calc_vlan iv ms pkt hash vlan_n vlan_0 = do {
     eid \<leftarrow> (if iv then Some (ip4_to_eid_new ms pkt hash) else ip4_to_eid pkt hash);
     calc_vlan eid (if iv then eid_to_vlan_new eid vlan_n vlan_0 else eid_to_vlan eid IPV4 vlan_n vlan_0 hash)
   }"

definition ip6_calc_vlan :: "bool \<Rightarrow> hash_masks \<Rightarrow> ip6_pkt \<Rightarrow> u8 \<Rightarrow> u32 \<Rightarrow> u32 \<Rightarrow> u32 option" where
  "ip6_calc_vlan iv ms pkt hash vlan_n vlan_0 = do {
     eid \<leftarrow> (if iv then ip6_to_eid_new ms pkt hash else ip6_to_eid pkt hash);
     calc_vlan eid (if iv then eid_to_vlan_new eid vlan_n vlan_0 else eid_to_vlan eid IPV6 vlan_n vlan_0 hash)
   }"

section \<open>The check and its commands\<close>

definition stat_vlan_id_max :: nat where [c_consts]: "stat_vlan_id_max = 520"
definition xe0_stat_vlan_id_total :: nat where [c_consts]: "xe0_stat_vlan_id_total = 2"
definition xe0_stat_vlan_id_error :: nat where [c_consts]: "xe0_stat_vlan_id_error = 3"
definition xe0_stat_vlan_id_0 :: nat where [c_consts]: "xe0_stat_vlan_id_0 = 4"

record vlan_state =
  vlan_id_stat :: "u64 list"
  vlan_id_start :: u16
  vlan_id_num :: u16
  vlan_check_hash_type :: u8
  vlan_masks :: hash_masks

definition FRCORE_VLAN_STAT_INC :: "nat \<Rightarrow> vlan_state \<Rightarrow> vlan_state option" where
  "FRCORE_VLAN_STAT_INC cnt st = do {
     v \<leftarrow> arr_get (vlan_id_stat st) cnt;
     s \<leftarrow> arr_set (vlan_id_stat st) cnt (v + 1);
     Some (st\<lparr>vlan_id_stat := s\<rparr>)
   }"

definition FRCORE_PORT_VLAN_STAT_INC :: "u64 \<Rightarrow> nat \<Rightarrow> vlan_state \<Rightarrow> vlan_state option" where
  "FRCORE_PORT_VLAN_STAT_INC port cnt st =
     (if port = 0 then FRCORE_VLAN_STAT_INC cnt st else FRCORE_VLAN_STAT_INC (cnt + stat_vlan_id_max div 2) st)"

definition stat_vlan_check :: "u8 \<Rightarrow> u64 \<Rightarrow> vlan_state \<Rightarrow> vlan_state option" where
  "stat_vlan_check vid port st = do {
     st \<leftarrow> FRCORE_PORT_VLAN_STAT_INC port (xe0_stat_vlan_id_0 + unat vid) st;
     FRCORE_PORT_VLAN_STAT_INC port xe0_stat_vlan_id_total st
   }"

text \<open>The comparison at the end of both functions.\<close>

definition count_vlan :: "bool \<Rightarrow> u16 \<Rightarrow> u64 \<Rightarrow> vlan_state \<Rightarrow> vlan_state option" where
  "count_vlan equal vlan_id port st =
     (if equal then stat_vlan_check (ucast (vlan_id - vlan_id_start st)) port st
      else FRCORE_PORT_VLAN_STAT_INC port xe0_stat_vlan_id_error st)"

text \<open>\<open>eth\<close> and \<open>ip\<close> are the memory from the two pointers on, \<open>port\<close> is \<^verbatim>\<open>work->ipprt\<close>.\<close>

definition frcore_vlan_check_v4 :: "bool \<Rightarrow> u8 list \<Rightarrow> u8 list \<Rightarrow> u64 \<Rightarrow> vlan_state \<Rightarrow> (int \<times> vlan_state) option" where
  "frcore_vlan_check_v4 iv eth ip port st = do {
     sip \<leftarrow> UP32 ip 12;
     dip \<leftarrow> UP32 ip 16;
     tag \<leftarrow> UP16 eth 14;
     let vlan_id = tag AND 0xfff;
     id_check \<leftarrow> ip4_calc_vlan iv (vlan_masks st) \<lparr>sip_data = sip, dip_data = dip\<rparr> (vlan_check_hash_type st) (ucast (vlan_id_num st)) (ucast (vlan_id_start st));
     st \<leftarrow> count_vlan (id_check = ucast vlan_id) vlan_id port st;
     Some (FRCORE_ACT_FORWARD, st)
   }"

text \<open>Here \<^verbatim>\<open>id_check\<close> has sixteen bits.\<close>

definition frcore_vlan_check_v6 :: "bool \<Rightarrow> u8 list \<Rightarrow> u8 list \<Rightarrow> u64 \<Rightarrow> vlan_state \<Rightarrow> (int \<times> vlan_state) option" where
  "frcore_vlan_check_v6 iv eth ip port st = do {
     tag \<leftarrow> UP16 eth 14;
     let vlan_id = tag AND 0xfff;
     if length ip < 40 then None
     else do {
       id_check \<leftarrow> ip6_calc_vlan iv (vlan_masks st) \<lparr>sip6_data = take 16 (drop 8 ip), dip6_data = take 16 (drop 24 ip)\<rparr>
                     (vlan_check_hash_type st) (ucast (vlan_id_num st)) (ucast (vlan_id_start st));
       st \<leftarrow> count_vlan ((ucast id_check :: u16) = vlan_id) vlan_id port st;
       Some (FRCORE_ACT_FORWARD, st)
     }
   }"

definition FRC_VLAN_CHECK_SIP :: u32 where "FRC_VLAN_CHECK_SIP = 1"
definition FRC_VLAN_CHECK_DIP :: u32 where "FRC_VLAN_CHECK_DIP = 2"

record vlan_hash_mask =
  hm_hash_type :: u32
  hm_ip4 :: u32
  hm_ip6 :: "u8 list"

definition frcore_cmd_vlan_v4_set_hash_mask :: "vlan_hash_mask \<Rightarrow> vlan_state \<Rightarrow> int \<times> vlan_state" where
  "frcore_cmd_vlan_v4_set_hash_mask a st =
     (if hm_hash_type a = FRC_VLAN_CHECK_SIP then (FRE_SUCCESS, st\<lparr>vlan_masks := (vlan_masks st)\<lparr>hash_sip4_mask := hm_ip4 a\<rparr>\<rparr>)
      else if hm_hash_type a = FRC_VLAN_CHECK_DIP then (FRE_SUCCESS, st\<lparr>vlan_masks := (vlan_masks st)\<lparr>hash_dip4_mask := hm_ip4 a\<rparr>\<rparr>)
      else (FRE_PARAM, st))"

text \<open>\<^verbatim>\<open>swap_buff\<close> on two words of eight bytes.\<close>

definition swap_buff2 :: "u8 list \<Rightarrow> u8 list" where
  "swap_buff2 b = rev (take 8 b) @ rev (take 8 (drop 8 b))"

definition frcore_cmd_vlan_v6_set_hash_mask :: "vlan_hash_mask \<Rightarrow> vlan_state \<Rightarrow> int \<times> vlan_state" where
  "frcore_cmd_vlan_v6_set_hash_mask a st =
     (let ip6 = swap_buff2 (hm_ip6 a)
      in if hm_hash_type a = FRC_VLAN_CHECK_SIP then (FRE_SUCCESS, st\<lparr>vlan_masks := (vlan_masks st)\<lparr>hash_sip6_mask := ip6\<rparr>\<rparr>)
         else if hm_hash_type a = FRC_VLAN_CHECK_DIP then (FRE_SUCCESS, st\<lparr>vlan_masks := (vlan_masks st)\<lparr>hash_dip6_mask := ip6\<rparr>\<rparr>)
         else (FRE_PARAM, st))"

record vlan_check_para =
  vp_type :: u8
  vp_start_id :: u16
  vp_num :: u16

definition frcore_cmd_vlan_check_get_para :: "vlan_state \<Rightarrow> int \<times> vlan_check_para" where
  "frcore_cmd_vlan_check_get_para st =
     (FRE_SUCCESS, \<lparr>vp_type = vlan_check_hash_type st, vp_start_id = vlan_id_start st, vp_num = vlan_id_num st\<rparr>)"

definition frcore_cmd_vlan_check_set_para :: "vlan_check_para \<Rightarrow> vlan_state \<Rightarrow> int \<times> vlan_state" where
  "frcore_cmd_vlan_check_set_para a st =
     (FRE_SUCCESS, st\<lparr>vlan_check_hash_type := vp_type a, vlan_id_start := vp_start_id a, vlan_id_num := vp_num a\<rparr>)"

record vlan_op_in =
  vo_index :: u32
  vo_num :: u32
  vo_port :: u32

definition frcore_cmd_vlan_check_get_stat :: "vlan_op_in \<Rightarrow> vlan_state \<Rightarrow> (int \<times> u64 list) option" where
  "frcore_cmd_vlan_check_get_stat input st =
     (let cnt_offset = (if vo_port input = 16 then of_nat (stat_vlan_id_max div 2) else 0) in
      map_option (\<lambda>vs. (0, vs)) (those (map (\<lambda>i. arr_get (vlan_id_stat st) (unat (vo_index input + of_nat i + cnt_offset))) [0..<unat (vo_num input)])))"

definition frcore_vlan_check_stat_clear :: "vlan_state \<Rightarrow> vlan_state" where
  "frcore_vlan_check_stat_clear st = st\<lparr>vlan_id_stat := replicate stat_vlan_id_max 0\<rparr>"

definition frcore_cmd_vlan_check_clear_stat :: "vlan_state \<Rightarrow> int \<times> vlan_state" where
  "frcore_cmd_vlan_check_clear_stat st = (FRE_SUCCESS, frcore_vlan_check_stat_clear st)"

section \<open>Bits of an address\<close>

lemma BIT_SET_bit: "b < 32 \<Longrightarrow> m < 32 \<Longrightarrow> bit (BIT_SET v b val) m \<longleftrightarrow> (if m = b then val else bit v m)"
  by (auto simp: BIT_SET_def bit_simps)

lemma set_bits_bit: "n \<le> 32 \<Longrightarrow> m < 32 \<Longrightarrow> bit (set_bits n get eid) m \<longleftrightarrow> (if m < n then get m else bit eid m)"
  by (induction n) (auto simp: set_bits_def BIT_SET_bit less_Suc_eq)

lemma set_bits_small: "unat (set_bits 4 get 0) < 16"
proof -
  have "set_bits 4 get 0 = take_bit 4 (set_bits 4 get 0)"
    by (rule bit_word_eqI) (auto simp: bit_take_bit_iff set_bits_bit)
  then have "unat (set_bits 4 get 0) = unat (take_bit 4 (set_bits 4 get 0) :: u32)" by simp
  also have "\<dots> = take_bit 4 (unat (set_bits 4 get 0))" by (rule unsigned_take_bit_eq)
  finally show ?thesis using take_bit_nat_less_exp [of 4 "unat (set_bits 4 get 0)"] by simp
qed

text \<open>Two groups of four bits, one behind the other.\<close>

lemma set_bits_pair: "unat (set_bits 4 d (push_bit 4 (set_bits 4 g 0))) = 16 * unat (set_bits 4 g 0) + unat (set_bits 4 d 0)"
proof -
  let ?x = "set_bits 4 g 0 :: u32" and ?y = "set_bits 4 d 0 :: u32"
  have "set_bits 4 d (push_bit 4 ?x) = push_bit 4 ?x OR ?y"
    by (rule bit_word_eqI) (auto simp: set_bits_bit bit_simps)
  also have "\<dots> = push_bit 4 ?x + ?y"
    by (rule disjunctive_add [symmetric]) (use set_bits_bit [of 4] in \<open>auto simp: bit_simps\<close>)
  finally have eq: "set_bits 4 d (push_bit 4 ?x) = push_bit 4 ?x + ?y" .
  have "unat (push_bit 4 ?x) = 16 * unat ?x"
    using set_bits_small [of g] by (simp add: push_bit_eq_mult unat_mult_lem [THEN iffD1] unat_word_ariths(2) mult.commute)
  then show ?thesis using set_bits_small [of g] set_bits_small [of d] unfolding eq by (simp add: unat_word_ariths(1))
qed

text \<open>The table is a symmetric matrix of sixteen rows.\<close>

definition sdip_rows :: "u16 list list" where
  "sdip_rows = [
      [0, 1, 2, 3, 4, 5, 6, 7, 8, 9, 10, 11, 12, 13, 14, 15],
      [1, 16, 17, 18, 19, 20, 21, 22, 23, 24, 25, 26, 27, 28, 29, 30],
      [2, 17, 31, 32, 33, 34, 35, 36, 37, 38, 39, 40, 41, 42, 43, 44],
      [3, 18, 32, 45, 46, 47, 48, 49, 50, 51, 52, 53, 54, 55, 56, 57],
      [4, 19, 33, 46, 58, 59, 60, 61, 62, 63, 64, 65, 66, 67, 68, 69],
      [5, 20, 34, 47, 59, 70, 71, 72, 73, 74, 75, 76, 77, 78, 79, 80],
      [6, 21, 35, 48, 60, 71, 81, 82, 83, 84, 85, 86, 87, 88, 89, 90],
      [7, 22, 36, 49, 61, 72, 82, 91, 92, 93, 94, 95, 96, 97, 98, 99],
      [8, 23, 37, 50, 62, 73, 83, 92, 0, 100, 101, 102, 103, 104, 105, 106],
      [9, 24, 38, 51, 63, 74, 84, 93, 100, 16, 107, 108, 109, 110, 111, 112],
      [10, 25, 39, 52, 64, 75, 85, 94, 101, 107, 31, 113, 114, 115, 116, 117],
      [11, 26, 40, 53, 65, 76, 86, 95, 102, 108, 113, 45, 118, 119, 120, 121],
      [12, 27, 41, 54, 66, 77, 87, 96, 103, 109, 114, 118, 58, 122, 123, 124],
      [13, 28, 42, 55, 67, 78, 88, 97, 104, 110, 115, 119, 122, 70, 125, 126],
      [14, 29, 43, 56, 68, 79, 89, 98, 105, 111, 116, 120, 123, 125, 81, 127],
      [15, 30, 44, 57, 69, 80, 90, 99, 106, 112, 117, 121, 124, 126, 127, 91]]"

lemma concat_nth_rows: "\<forall>r \<in> set R. length r = k \<Longrightarrow> a < length R \<Longrightarrow> b < k \<Longrightarrow> concat R ! (k * a + b) = R ! a ! b"
proof (induction R arbitrary: a)
  case (Cons r R)
  then show ?case by (cases a) (simp_all add: nth_append add.commute add.left_commute)
qed simp

lemma sdip_table:
  "length sdip_vlan_index = 256"
  "a < 16 \<Longrightarrow> b < 16 \<Longrightarrow> sdip_vlan_index ! (16 * a + b) = sdip_vlan_index ! (16 * b + a)"
proof -
  have cat: "sdip_vlan_index = concat sdip_rows" by (simp add: sdip_vlan_index_def sdip_rows_def)
  have len: "\<forall>r \<in> set sdip_rows. length r = 16" "length sdip_rows = 16" by (simp_all add: sdip_rows_def)
  have t: "transpose sdip_rows = sdip_rows" by (simp add: sdip_rows_def)
  show "length sdip_vlan_index = 256" by (simp add: sdip_vlan_index_def)
  assume ab: "a < 16" "b < 16"
  have all: "filter (\<lambda>r. b < length r) sdip_rows = sdip_rows" using len(1) ab(2) by (intro filter_True) auto
  have "sdip_rows ! b ! a = transpose sdip_rows ! b ! a" by (simp only: t)
  also have "\<dots> = sdip_rows ! a ! b"
    using nth_transpose [of b sdip_rows] ab len(2) unfolding t all by simp
  finally show "sdip_vlan_index ! (16 * a + b) = sdip_vlan_index ! (16 * b + a)"
    unfolding cat using concat_nth_rows [OF len(1)] ab len(2) by simp
qed

lemma sdip_index_swap:
  "sdip_index (set_bits 4 d (push_bit 4 (set_bits 4 g 0))) = sdip_index (set_bits 4 g (push_bit 4 (set_bits 4 d 0)))"
proof -
  let ?a = "unat (set_bits 4 g 0)" and ?b = "unat (set_bits 4 d 0)"
  have ab: "?a < 16" "?b < 16" by (rule set_bits_small)+
  have "unat (set_bits 4 d (push_bit 4 (set_bits 4 g 0)) mod SDIP_MAX_NUM) = 16 * ?a + ?b"
      "unat (set_bits 4 g (push_bit 4 (set_bits 4 d 0)) mod SDIP_MAX_NUM) = 16 * ?b + ?a"
    using ab by (simp_all add: unat_mod_distrib set_bits_pair SDIP_MAX_NUM_def)
  then show ?thesis using sdip_table(1) sdip_table(2) [OF ab] ab by (simp add: sdip_index_def arr_get_def)
qed

section \<open>Properties\<close>

lemma sint_small: "unat (x :: u32) < 2 ^ 31 \<Longrightarrow> sint x = int (unat x)"
proof -
  assume "unat x < 2 ^ 31"
  then have "uint x < 2 ^ 31" unfolding uint_nat by (simp del: of_nat_unat)
  moreover have "- (2 ^ 31) \<le> uint x" by (rule order_trans [OF _ uint_ge_0]) simp
  ultimately show ?thesis by (simp add: sint_uint signed_take_bit_int_eq_self)
qed

lemma mod32_range:
  assumes "n \<noteq> 0" "unat v0 + unat n \<le> 4096"
  shows "\<exists>r. mod32 a n = Some r \<and> v0 \<le> r + v0 \<and> r + v0 < v0 + n \<and> \<not> sint (r + v0) > 4095"
proof -
  have "0 < unat n" using assms(1) by (simp add: unat_gt_0)
  then have r: "unat (a mod n) < unat n" by (simp add: unat_mod_distrib)
  then have u: "unat (a mod n + v0) = unat (a mod n) + unat v0" "unat (v0 + n) = unat v0 + unat n" using assms(2) by (simp_all add: unat_word_ariths(1))
  then have "unat (a mod n + v0) \<le> 4095" using r assms(2) by linarith
  then have "sint (a mod n + v0) \<le> 4095" using sint_small [of "a mod n + v0"] by (simp del: of_nat_unat)
  then show ?thesis using r u assms(1) by (simp add: mod32_def word_le_nat_alt word_less_nat_alt)
qed

definition in_range :: "u32 \<Rightarrow> u32 \<Rightarrow> u32 \<Rightarrow> u32 option \<Rightarrow> bool" where
  "in_range n v0 eid r \<longleftrightarrow> (\<exists>v. r = Some v \<and> (if eid = - 1 then v = - 1 else v0 \<le> v \<and> v < v0 + n))"

lemma calc_in_range:
  assumes "n \<noteq> 0" "unat v0 + unat n \<le> 4096"
  shows "in_range n v0 eid (calc_vlan eid (eid_to_vlan_new eid n v0))" "in_range n v0 eid (calc_vlan eid (eid_to_vlan eid iptp n v0 hash))"
proof -
  have "in_range n v0 eid (calc_vlan eid (map_option (\<lambda>r. r + v0) (mod32 a n)))" for a
    using mod32_range [OF assms, of a] by (auto simp: in_range_def calc_vlan_def)
  then show "in_range n v0 eid (calc_vlan eid (eid_to_vlan_new eid n v0))" "in_range n v0 eid (calc_vlan eid (eid_to_vlan eid iptp n v0 hash))"
    by (simp_all add: eid_to_vlan_new_def eid_to_vlan_def split: IP_TYPE.split)
qed

text \<open>Addresses of sixteen bytes can be read.\<close>

lemma fold_words_some: "length addr = 16 \<Longrightarrow> \<exists>w. fold_words addr = Some w"
proof -
  assume "length addr = 16"
  then obtain a b c d e f g h i j k l m n p q where "addr = [a, b, c, d, e, f, g, h, i, j, k, l, m, n, p, q]"
    by (auto simp: length_Suc_conv eval_nat_numeral)
  then show ?thesis by (simp add: fold_words_def UNPACK_U32_def Let_def)
qed

lemma addr_bits_some: "length addr = 16 \<Longrightarrow> list_all (\<lambda>b. b < 128) bs \<Longrightarrow> \<exists>v. addr_bits addr bs = Some v \<and> length v = length bs"
proof (induction bs)
  case (Cons b bs)
  then obtain v where "addr_bits addr bs = Some v" "length v = length bs" by auto
  moreover have "4 * (3 - b div 32) + 3 < length addr" using Cons.prems by simp
  then obtain w where "ip32 addr (3 - b div 32) = Some w" using UP_Some(2) [of "4 * (3 - b div 32)" addr] by (auto simp: ip32_def)
  ultimately show ?case by (simp add: addr_bits_def addr_bit_def)
qed (simp add: addr_bits_def)

lemma ip_eid_some:
  "\<exists>eid. ip4_to_eid p4 hash = Some eid"
  "length (sip6_data p6) = 16 \<Longrightarrow> length (dip6_data p6) = 16 \<Longrightarrow> \<exists>eid. ip6_to_eid p6 hash = Some eid"
proof -
  have ix: "\<exists>v. sdip_index e = Some v" for e
    using sdip_table(1) by (simp add: sdip_index_def arr_get_def unat_mod_distrib SDIP_MAX_NUM_def)
  then show "\<exists>eid. ip4_to_eid p4 hash = Some eid" by (simp add: ip4_to_eid_def)
  assume len: "length (sip6_data p6) = 16" "length (dip6_data p6) = 16"
  have b: "list_all (\<lambda>b. b < 128) (take 7 ip6b8)" "list_all (\<lambda>b. b < 128) ip6b4" by (simp_all add: ip6b8_def ip6b4_def)
  show "\<exists>eid. ip6_to_eid p6 hash = Some eid"
    using addr_bits_some [OF len(1) b(1)] addr_bits_some [OF len(2) b(1)] addr_bits_some [OF len(1) b(2)] addr_bits_some [OF len(2) b(2)] ix
    by (auto simp: ip6_to_eid_def)
qed

lemma v4_range:
  assumes "n \<noteq> 0" "unat v0 + unat n \<le> 4096"
  shows "\<exists>eid v. (if iv then Some (ip4_to_eid_new ms p4 hash) else ip4_to_eid p4 hash) = Some eid \<and>
      ip4_calc_vlan iv ms p4 hash n v0 = Some v \<and> (if eid = - 1 then v = - 1 else v0 \<le> v \<and> v < v0 + n)"
proof -
  obtain e where e: "(if iv then Some (ip4_to_eid_new ms p4 hash) else ip4_to_eid p4 hash) = Some e" using ip_eid_some(1) [of p4 hash] by (cases iv) auto
  obtain v where "calc_vlan e (if iv then eid_to_vlan_new e n v0 else eid_to_vlan e IPV4 n v0 hash) = Some v" "if e = - 1 then v = - 1 else v0 \<le> v \<and> v < v0 + n"
    using calc_in_range [OF assms, of e, unfolded in_range_def] by (cases iv) (simp_all, blast+)
  then show ?thesis using e by (intro exI [of _ e] exI [of _ v]) (simp add: ip4_calc_vlan_def)
qed

lemma v6_range:
  assumes "n \<noteq> 0" "unat v0 + unat n \<le> 4096" "length (sip6_data p6) = 16" "length (dip6_data p6) = 16" "length (hash_sip6_mask ms) = 16" "length (hash_dip6_mask ms) = 16"
  shows "\<exists>eid v. (if iv then ip6_to_eid_new ms p6 hash else ip6_to_eid p6 hash) = Some eid \<and>
      ip6_calc_vlan iv ms p6 hash n v0 = Some v \<and> (if eid = - 1 then v = - 1 else v0 \<le> v \<and> v < v0 + n)"
proof -
  have "\<exists>e. ip6_to_eid_new ms p6 hash = Some e"
    using fold_words_some [of "map2 (AND) (sip6_data p6) (hash_sip6_mask ms)"] fold_words_some [of "map2 (AND) (dip6_data p6) (hash_dip6_mask ms)"] assms(3-)
    by (auto simp: ip6_to_eid_new_def)
  then obtain e where e: "(if iv then ip6_to_eid_new ms p6 hash else ip6_to_eid p6 hash) = Some e" using ip_eid_some(2) [OF assms(3,4), of hash] by (cases iv) auto
  obtain v where "calc_vlan e (if iv then eid_to_vlan_new e n v0 else eid_to_vlan e IPV6 n v0 hash) = Some v" "if e = - 1 then v = - 1 else v0 \<le> v \<and> v < v0 + n"
    using calc_in_range [OF assms(1,2), of e, unfolded in_range_def] by (cases iv) (simp_all, blast+)
  then show ?thesis using e by (intro exI [of _ e] exI [of _ v]) (simp add: ip6_calc_vlan_def)
qed

text \<open>An empty range: unless the number from the addresses is \<^verbatim>\<open>-1\<close>, the remainder is one by zero.\<close>

lemma empty_range_faults:
  "calc_vlan e (if iv then eid_to_vlan_new e 0 v0 else eid_to_vlan e tp 0 v0 hash) = (if e = - 1 then Some (- 1) else None)"
  by (simp add: calc_vlan_def eid_to_vlan_new_def eid_to_vlan_def mod32_def split: IP_TYPE.split)

text \<open>
  C31. The tag is in the range. For every address, hash type and algorithm, and every range of tags that ends below 4096: when the number
  computed from the addresses is \<^verbatim>\<open>-1\<close>, the result is \<^verbatim>\<open>-1\<close>; otherwise the result lies in the range from the first tag on,
  unless the range is empty, and then the computation divides by zero (a fault). The command accepts an empty range.
\<close>

theorem vlan_in_range:
  assumes "unat v0 + unat n \<le> 4096" "length (sip6_data p6) = 16" "length (dip6_data p6) = 16" "length (hash_sip6_mask ms) = 16" "length (hash_dip6_mask ms) = 16"
  shows "(\<exists>eid. (if iv then Some (ip4_to_eid_new ms p4 hash) else ip4_to_eid p4 hash) = Some eid \<and>
      (if eid = - 1 then ip4_calc_vlan iv ms p4 hash n v0 = Some (- 1)
       else if n = 0 then ip4_calc_vlan iv ms p4 hash n v0 = None
       else \<exists>v. ip4_calc_vlan iv ms p4 hash n v0 = Some v \<and> v0 \<le> v \<and> v < v0 + n)) \<and>
    (\<exists>eid. (if iv then ip6_to_eid_new ms p6 hash else ip6_to_eid p6 hash) = Some eid \<and>
      (if eid = - 1 then ip6_calc_vlan iv ms p6 hash n v0 = Some (- 1)
       else if n = 0 then ip6_calc_vlan iv ms p6 hash n v0 = None
       else \<exists>v. ip6_calc_vlan iv ms p6 hash n v0 = Some v \<and> v0 \<le> v \<and> v < v0 + n))"
proof (cases "n = 0")
  case True
  obtain e where e: "(if iv then Some (ip4_to_eid_new ms p4 hash) else ip4_to_eid p4 hash) = Some e"
    using v4_range [of 1 0 iv ms p4 hash] by auto
  obtain e' where e': "(if iv then ip6_to_eid_new ms p6 hash else ip6_to_eid p6 hash) = Some e'"
    using v6_range [of 1 0 p6 ms iv hash] assms(2-) by auto
  have "ip4_calc_vlan iv ms p4 hash 0 v0 = (if e = - 1 then Some (- 1) else None)"
    "ip6_calc_vlan iv ms p6 hash 0 v0 = (if e' = - 1 then Some (- 1) else None)"
    using e e' empty_range_faults by (simp_all add: ip4_calc_vlan_def ip6_calc_vlan_def)
  then show ?thesis using e e' True by (intro conjI exI [of _ e] exI [of _ e']) auto
next
  case False
  show ?thesis
    using v4_range [OF False assms(1), of iv ms p4 hash] v6_range [OF False assms, of iv hash] False by (elim exE conjE) (auto split: if_splits)
qed

definition demo_masks :: hash_masks where
  "demo_masks = \<lparr>hash_sip4_mask = 0xffffffff, hash_dip4_mask = 0xffffffff, hash_sip6_mask = replicate 16 0xff, hash_dip6_mask = replicate 16 0xff\<rparr>"

definition demo_ip6 :: ip6_pkt where
  "demo_ip6 = \<lparr>sip6_data = replicate 16 0x20, dip6_data = replicate 16 0x31\<rparr>"

theorem vlan_in_range_witness:
  "\<exists>eid v. Some (ip4_to_eid_new demo_masks \<lparr>sip_data = 0x0a000001, dip_data = 0x0a000002\<rparr> FS_HSEL_SDIP) = Some eid \<and>
    ip4_calc_vlan True demo_masks \<lparr>sip_data = 0x0a000001, dip_data = 0x0a000002\<rparr> FS_HSEL_SDIP 128 1024 = Some v \<and>
    (if eid = - 1 then v = - 1 else 1024 \<le> v \<and> v < 1024 + 128)"
  using vlan_in_range [of 1024 128 demo_ip6 demo_masks True "\<lparr>sip_data = 0x0a000001, dip_data = 0x0a000002\<rparr>" FS_HSEL_SDIP]
  by (auto simp: demo_ip6_def demo_masks_def split: if_splits)

text \<open>
  C32. Both directions of a connection carry the same tag. With the hash type \<^verbatim>\<open>FS_HSEL_SDIP\<close> the tag of a packet is the tag of the
  packet with the addresses exchanged: for the compiled algorithm, which adds the masked addresses, when the source mask and the
  destination mask are equal (they are set separately, so that they can differ); for the other one, with the table
  \<^verbatim>\<open>sdip_vlan_index\<close>, always, because the table is symmetric.
\<close>

theorem sdip_same_vlan:
  assumes "iv \<longrightarrow> hash_sip4_mask ms = hash_dip4_mask ms \<and> hash_sip6_mask ms = hash_dip6_mask ms"
  shows "ip4_calc_vlan iv ms \<lparr>sip_data = a, dip_data = b\<rparr> FS_HSEL_SDIP n v0 = ip4_calc_vlan iv ms \<lparr>sip_data = b, dip_data = a\<rparr> FS_HSEL_SDIP n v0 \<and>
    ip6_calc_vlan iv ms \<lparr>sip6_data = x, dip6_data = y\<rparr> FS_HSEL_SDIP n v0 = ip6_calc_vlan iv ms \<lparr>sip6_data = y, dip6_data = x\<rparr> FS_HSEL_SDIP n v0"
proof -
  have "ip4_to_eid_new ms \<lparr>sip_data = a, dip_data = b\<rparr> FS_HSEL_SDIP = ip4_to_eid_new ms \<lparr>sip_data = b, dip_data = a\<rparr> FS_HSEL_SDIP" if "iv"
    using assms that by (simp add: ip4_to_eid_new_def Let_def hash_types add.commute)
  moreover have "ip4_to_eid \<lparr>sip_data = a, dip_data = b\<rparr> FS_HSEL_SDIP = ip4_to_eid \<lparr>sip_data = b, dip_data = a\<rparr> FS_HSEL_SDIP"
    using sdip_index_swap by (simp add: ip4_to_eid_def hash_types)
  moreover have "ip6_to_eid_new ms \<lparr>sip6_data = x, dip6_data = y\<rparr> FS_HSEL_SDIP = ip6_to_eid_new ms \<lparr>sip6_data = y, dip6_data = x\<rparr> FS_HSEL_SDIP" if "iv"
    using assms that
    by (cases "fold_words (map2 (AND) x (hash_dip6_mask ms))"; cases "fold_words (map2 (AND) y (hash_dip6_mask ms))") (simp_all add: ip6_to_eid_new_def hash_types add.commute)
  moreover have "ip6_to_eid \<lparr>sip6_data = x, dip6_data = y\<rparr> FS_HSEL_SDIP = ip6_to_eid \<lparr>sip6_data = y, dip6_data = x\<rparr> FS_HSEL_SDIP"
    using sdip_index_swap by (cases "addr_bits x ip6b4"; cases "addr_bits y ip6b4") (simp_all add: ip6_to_eid_def hash_types)
  ultimately show ?thesis by (simp add: ip4_calc_vlan_def ip6_calc_vlan_def)
qed

theorem sdip_same_vlan_witness:
  "ip4_calc_vlan True demo_masks \<lparr>sip_data = 0x0a000001, dip_data = 0x0a000110\<rparr> FS_HSEL_SDIP 128 1024 =
    ip4_calc_vlan True demo_masks \<lparr>sip_data = 0x0a000110, dip_data = 0x0a000001\<rparr> FS_HSEL_SDIP 128 1024"
  using sdip_same_vlan [of True demo_masks "0x0a000001" "0x0a000110" 128 1024 "[]" "[]"] by (simp add: demo_masks_def)

definition bump :: "nat \<Rightarrow> u64 list \<Rightarrow> u64 list" where
  "bump i xs = xs[i := xs ! i + 1]"

definition port_base :: "u64 \<Rightarrow> nat" where
  "port_base port = (if port = 0 then 0 else 260)"

lemma port_stat_inc:
  "length (vlan_id_stat st) = stat_vlan_id_max \<Longrightarrow> cnt < 260 \<Longrightarrow>
    FRCORE_PORT_VLAN_STAT_INC port cnt st = Some (st\<lparr>vlan_id_stat := bump (port_base port + cnt) (vlan_id_stat st)\<rparr>)"
  by (simp add: FRCORE_PORT_VLAN_STAT_INC_def FRCORE_VLAN_STAT_INC_def bump_def port_base_def c_consts arr_set_def add.commute)

text \<open>
  C30. Every checked packet is counted once. With a range of at least one and at most 256 tags that ends below 4096 (an empty one is
  accepted by the command, and then the check faults, see \<open>vlan_num_zero_faults\<close>), \<^verbatim>\<open>frcore_vlan_check_v4\<close> forwards every packet; when
  it carries the computed tag, the counter of that tag and the total of its port grow by one, otherwise the error counter of its port does, and nothing else changes.
\<close>

theorem vlan_check_counts:
  assumes "length (vlan_id_stat st) = stat_vlan_id_max" "vlan_id_num st \<noteq> 0" "unat (vlan_id_num st) \<le> 256" "unat (vlan_id_start st) + unat (vlan_id_num st) \<le> 4096"
    "20 \<le> length ip" "16 \<le> length eth"
  shows "\<exists>sip dip tag v. UP32 ip 12 = Some sip \<and> UP32 ip 16 = Some dip \<and> UP16 eth 14 = Some tag \<and>
    ip4_calc_vlan iv (vlan_masks st) \<lparr>sip_data = sip, dip_data = dip\<rparr> (vlan_check_hash_type st) (ucast (vlan_id_num st)) (ucast (vlan_id_start st)) = Some v \<and>
    frcore_vlan_check_v4 iv eth ip port st = Some (FRCORE_ACT_FORWARD, st\<lparr>vlan_id_stat :=
      (if v = ucast (tag AND 0xfff)
       then bump (port_base port + xe0_stat_vlan_id_total)
              (bump (port_base port + xe0_stat_vlan_id_0 + (unat (tag AND 0xfff) - unat (vlan_id_start st))) (vlan_id_stat st))
       else bump (port_base port + xe0_stat_vlan_id_error) (vlan_id_stat st))\<rparr>)"
proof -
  obtain sip dip tag where u: "UP32 ip 12 = Some sip" "UP32 ip 16 = Some dip" "UP16 eth 14 = Some tag"
    using UP_Some(2) [of 12 ip] UP_Some(2) [of 16 ip] UP_Some(1) [of 14 eth] assms(5,6) by auto
  let ?p = "\<lparr>sip_data = sip, dip_data = dip\<rparr>" and ?n = "ucast (vlan_id_num st) :: u32" and ?v0 = "ucast (vlan_id_start st) :: u32" and ?id = "tag AND 0xfff"
  have n: "?n \<noteq> 0" "unat ?v0 + unat ?n \<le> 4096" using assms(2,4) by (simp_all add: unat_eq_0 [symmetric] del: unat_eq_0)
  obtain e v where v: "ip4_calc_vlan iv (vlan_masks st) ?p (vlan_check_hash_type st) ?n ?v0 = Some v" "if e = (- 1 :: u32) then v = - 1 else ?v0 \<le> v \<and> v < ?v0 + ?n"
    using v4_range [OF n] by blast
  have eq: "frcore_vlan_check_v4 iv eth ip port st =
      (case count_vlan (v = ucast ?id) ?id port st of None \<Rightarrow> None | Some st \<Rightarrow> Some (FRCORE_ACT_FORWARD, st))"
    using u v(1) by (simp add: frcore_vlan_check_v4_def Let_def Option.bind_def split: option.split)
  have "?id \<le> 0xfff" by (rule word_and_le1)
  then have id: "unat ?id < 4096" by (simp add: word_le_nat_alt)
  show ?thesis
  proof (cases "v = ucast ?id")
    case False
    then have "count_vlan False ?id port st = Some (st\<lparr>vlan_id_stat := bump (port_base port + xe0_stat_vlan_id_error) (vlan_id_stat st)\<rparr>)"
      using port_stat_inc [OF assms(1), of xe0_stat_vlan_id_error port] by (simp add: count_vlan_def c_consts)
    then show ?thesis using eq False u v(1) by simp
  next
    case True
    then have uv: "unat v = unat ?id" by simp
    have "unat (v + 1) = unat v + 1" using uv id by (simp add: unat_word_ariths(1))
    then have "v \<noteq> - 1" by auto
    then have r: "?v0 \<le> v" "v < ?v0 + ?n" using v(2) by (simp_all split: if_splits)
    have d: "unat (ucast (?id - vlan_id_start st) :: u8) = unat ?id - unat (vlan_id_start st)" "unat ?id - unat (vlan_id_start st) < 256"
    proof -
      have "unat (?v0 + ?n) = unat (vlan_id_start st) + unat (vlan_id_num st)" using assms(4) by (simp add: unat_word_ariths(1))
      then have le: "unat (vlan_id_start st) \<le> unat ?id" "unat ?id < unat (vlan_id_start st) + unat (vlan_id_num st)"
        using r uv unfolding word_le_nat_alt word_less_nat_alt by simp_all
      then show "unat ?id - unat (vlan_id_start st) < 256" using assms(3) by linarith
      then show "unat (ucast (?id - vlan_id_start st) :: u8) = unat ?id - unat (vlan_id_start st)"
        using le(1) by (simp add: unat_ucast_mod unat_sub word_le_nat_alt)
    qed
    have "count_vlan True ?id port st = Some (st\<lparr>vlan_id_stat := bump (port_base port + xe0_stat_vlan_id_total)
        (bump (port_base port + (xe0_stat_vlan_id_0 + (unat ?id - unat (vlan_id_start st)))) (vlan_id_stat st))\<rparr>)"
      using port_stat_inc [OF assms(1), of "xe0_stat_vlan_id_0 + (unat ?id - unat (vlan_id_start st))" port] d(2)
        port_stat_inc [of "st\<lparr>vlan_id_stat := bump (port_base port + (xe0_stat_vlan_id_0 + (unat ?id - unat (vlan_id_start st)))) (vlan_id_stat st)\<rparr>" xe0_stat_vlan_id_total port] assms(1)
      by (simp add: count_vlan_def stat_vlan_check_def d(1) c_consts bump_def)
    then show ?thesis using eq True u v(1) by (simp add: add.assoc)
  qed
qed

definition demo_vlan :: vlan_state where
  "demo_vlan = \<lparr>vlan_id_stat = replicate stat_vlan_id_max 0, vlan_id_start = 1024, vlan_id_num = 128, vlan_check_hash_type = 1, vlan_masks = demo_masks\<rparr>"

definition demo_eth :: "u8 list" where
  "demo_eth = replicate 12 0 @ [0x81, 0, 4, 1]"

definition demo_ip :: "u8 list" where
  "demo_ip = replicate 12 0 @ [10, 0, 0, 1, 10, 0, 0, 2]"

theorem vlan_check_counts_witness:
  "\<exists>sip dip tag v. UP32 demo_ip 12 = Some sip \<and> UP32 demo_ip 16 = Some dip \<and> UP16 demo_eth 14 = Some tag \<and>
    ip4_calc_vlan True (vlan_masks demo_vlan) \<lparr>sip_data = sip, dip_data = dip\<rparr> (vlan_check_hash_type demo_vlan) (ucast (vlan_id_num demo_vlan)) (ucast (vlan_id_start demo_vlan)) = Some v \<and>
    frcore_vlan_check_v4 True demo_eth demo_ip 0 demo_vlan = Some (FRCORE_ACT_FORWARD, demo_vlan\<lparr>vlan_id_stat :=
      (if v = ucast (tag AND 0xfff)
       then bump (port_base 0 + xe0_stat_vlan_id_total) (bump (port_base 0 + xe0_stat_vlan_id_0 + (unat (tag AND 0xfff) - unat (vlan_id_start demo_vlan))) (vlan_id_stat demo_vlan))
       else bump (port_base 0 + xe0_stat_vlan_id_error) (vlan_id_stat demo_vlan))\<rparr>)"
  by (rule vlan_check_counts) (simp_all add: demo_vlan_def demo_eth_def demo_ip_def)

text \<open>
  An empty range is accepted. The command that sets the parameters takes a number of tags of zero and reports success; the next packet
  whose addresses do not give \<^verbatim>\<open>-1\<close> makes the check divide by zero.
\<close>

theorem vlan_num_zero_faults:
  assumes "vp_num a = 0" "UP32 ip 12 = Some sip" "UP32 ip 16 = Some dip" "UP16 eth 14 = Some tag"
    "ip4_to_eid_new (vlan_masks st) \<lparr>sip_data = sip, dip_data = dip\<rparr> (vp_type a) \<noteq> - 1"
  shows "fst (frcore_cmd_vlan_check_set_para a st) = FRE_SUCCESS \<and>
    frcore_vlan_check_v4 True eth ip port (snd (frcore_cmd_vlan_check_set_para a st)) = None"
  using assms by (simp add: frcore_cmd_vlan_check_set_para_def frcore_vlan_check_v4_def ip4_calc_vlan_def calc_vlan_def eid_to_vlan_new_def mod32_def)

theorem vlan_num_zero_faults_witness:
  "fst (frcore_cmd_vlan_check_set_para \<lparr>vp_type = FS_HSEL_SIP, vp_start_id = 1024, vp_num = 0\<rparr> demo_vlan) = FRE_SUCCESS \<and>
    frcore_vlan_check_v4 True demo_eth demo_ip 0 (snd (frcore_cmd_vlan_check_set_para \<lparr>vp_type = FS_HSEL_SIP, vp_start_id = 1024, vp_num = 0\<rparr> demo_vlan)) = None"
  by (rule vlan_num_zero_faults [of _ demo_ip "0x0a000001" "0x0a000002" demo_eth "0x0401"])
    (simp_all add: demo_ip_def demo_eth_def demo_vlan_def demo_masks_def UP32_unpack UP16_unpack UNPACK_U32_def UNPACK_U16_def ip4_to_eid_new_def hash_types)

end
