(* ===== verification/Ipc.thy ===== *)
theory Ipc
  imports Vlan
begin

text \<open>
  The feature that is compiled in at this commit: \<^verbatim>\<open>frcore/frcore_ipc.c\<close> checks the header that a probe puts in
  the first twelve bytes of a frame, counts frames that are out of order, and answers sampled frames with an
  instruction packet. With it the state that every packet handler shares: the work item, the counters, the ports.

  The buffers of the instruction table come from the boot memory allocator: they are an argument. What the code reads without
  having written it, and what a call with the wrong arguments does, are the fields of \<open>undet\<close>. What is handed to the packet output unit is recorded in
  \<open>ipc_sent\<close>, with the bytes that the buffer holds at the time of the call: the unit reads them later, and the buffer of an interface is used again for the
  next answer. Text output is left out, except for the call whose arguments do not fit its format, and the locks.
\<close>

section \<open>The work item and the counters\<close>

datatype pkt_stat =
    stat_core_wqe nat | stat_work_free | stat_work_data | stat_work_unkown | stat_p0_rx_pkts | stat_p1_rx_pkts
  | stat_act_debug | stat_act_drop | stat_act_free | stat_act_forward | stat_act_delay | stat_act_unfree | stat_act_unkown
  | stat_pkts_below_64 | stat_pkts_between_64_128 | stat_pkts_between_128_256 | stat_pkts_between_256_512
  | stat_pkts_between_512_1024 | stat_pkts_between_1024_1500 | stat_pkts_between_1500_1600 | stat_pkts_above_1600
  | stat_very_short_pkts | stat_very_long_pkts | stat_normal_pkts
  | stat_rx_errs | stat_rx_pkts | stat_rx_bytes | stat_drop_port_off | stat_drop_rx_error
  | stat_not_ip | stat_mpls | stat_pppoe | stat_drop_not_ip | stat_ip | stat_ip_v4 | stat_ip_v6 | stat_drop_ip_v6
  | stat_ip_frag | stat_ip_not_tcp_udp | stat_drop_ip_not_tcp_udp | stat_ip_option | stat_drop_ip_option
  | stat_ip_other | stat_drop_ip_other | stat_tcp | stat_udp | stat_vlan
  | stat_ipc_drop_smac_zero | stat_ipc_smac_ordered | stat_ipc_smac_disorder
  | stat_ipc_pktid_ordered | stat_ipc_pktid_disorder | stat_ipc_pktid_repeat
  | stat_ipc_head_valid | stat_ipc_head_invalid

text \<open>The fields of the work queue entry that the handlers read; \<open>wq_data\<close> is the memory from the start of the
  frame on, inside the entry (\<^verbatim>\<open>bufs\<close> is zero) or in a packet buffer.\<close>

record cvmx_work =
  wq_id :: nat
  wq_unused :: u8
  wq_ipprt :: u64
  wq_len :: u16
  wq_bufs :: u8
  wq_ip_offset :: u8
  wq_rcv_error :: bool
  wq_not_IP :: bool
  wq_is_v6 :: bool
  wq_vlan_valid :: bool
  wq_is_frag :: bool
  wq_tcp_or_udp :: bool
  wq_data :: "u8 list"

definition ether_ptr :: "cvmx_work \<Rightarrow> u8 list" where
  "ether_ptr work = wq_data work"

definition ip_ptr :: "cvmx_work \<Rightarrow> u8 list" where
  "ip_ptr work = (if wq_bufs work = 0 then drop (unat (wq_ip_offset work) + 6) (wq_data work)
                  else drop (unat (wq_ip_offset work)) (wq_data work))"

record nic_port =
  rx_on :: u32
  total_rcvd :: u64
  total_bytes :: u64
  total_fwd :: u64
  err_pko :: u64

section \<open>The state of the probe check\<close>

record ipc_dpkt_hd =
  d_oui :: u16
  d_pid_l :: u32
  d_chassis :: "4 word"
  d_resv :: "4 word"
  d_ori_vid :: u16
  d_pid_h :: u16
  d_slot :: "5 word"
  d_card :: "1 word"
  d_ifid :: "2 word"

record ipc_exp =
  ouid :: u16
  ouim :: u16
  iifd :: u16
  iifm :: u16
  pidd :: u64
  pidm :: u64

record ipc_misc =
  smac_check :: u8
  pktid_check :: u8
  exp_check :: u8
  invalid_dump :: u8
  instr_send :: u8

record ipc_instr_cfg =
  tx_port :: u32
  ic_action :: u32
  ic_type :: u32
  ic_ip_len :: u32
  ic_sip_data :: u32
  ic_sip_mask :: u32
  ic_dip_data :: u32
  ic_dip_mask :: u32

text \<open>What is handed to the output unit: the fields of the command word that are assigned, what its other fields hold, and the bytes.\<close>

record instr_output =
  po_total_bytes :: u16
  po_dontfree :: bool
  po_segs :: "6 word"
  po_rest :: u64
  po_data :: "u8 list"

record ipc_state =
  ipc_exp_data :: ipc_dpkt_hd
  ipc_exp_mask :: ipc_dpkt_hd
  cur_smac :: u64
  cur_pktid :: u64
  misc :: ipc_misc
  instr_cfg :: ipc_instr_cfg
  instr_payload :: "u8 list"
  ipc_instr_table :: "u8 list option list"
  ipc_sent :: "instr_output list"

record core =
  co_stat :: "pkt_stat \<Rightarrow> u64"
  co_ports :: "nic_port list"
  co_mode0 :: u8
  co_mode1 :: u8
  co_vlan :: vlan_state
  co_ipc :: ipc_state
  co_freed :: "nat list"
  co_pko :: "nat list"

text \<open>What the program does not determine while it handles a frame: the six bytes of padding of the local structure \<^verbatim>\<open>ipc_cmd_t\<close>, the fields
  of the local variable \<^verbatim>\<open>pko_command\<close> that are never assigned, and whether \<^verbatim>\<open>printf\<close> survives a conversion \<^verbatim>\<open>%s\<close> whose
  argument is a protocol number: it reads a string from the address that the number is.\<close>

record undet =
  u_pad :: "u8 list"
  u_pko :: u64
  u_printf :: "u16 \<Rightarrow> bool"

definition FRCORE_STAT_ADD :: "pkt_stat \<Rightarrow> u64 \<Rightarrow> core \<Rightarrow> core" where
  "FRCORE_STAT_ADD s v c = c\<lparr>co_stat := (co_stat c)(s := co_stat c s + v)\<rparr>"

abbreviation FRCORE_STAT_INC :: "pkt_stat \<Rightarrow> core \<Rightarrow> core" where
  "FRCORE_STAT_INC s \<equiv> FRCORE_STAT_ADD s 1"

definition FRCORE_ACT_DEBUG :: int where "FRCORE_ACT_DEBUG = 0"
definition FRCORE_ACT_DELAY :: int where "FRCORE_ACT_DELAY = 3"
definition FRCORE_ACT_FREE :: int where "FRCORE_ACT_FREE = 5"

lemmas act_defs = FRCORE_ACT_DEBUG_def FRCORE_ACT_DROP_def FRCORE_ACT_FORWARD_def FRCORE_ACT_DELAY_def FRCORE_ACT_UNFREE_def FRCORE_ACT_FREE_def

definition FRCORE_DROP :: "pkt_stat \<Rightarrow> core \<Rightarrow> (int \<times> core) option" where
  "FRCORE_DROP cnt c = Some (FRCORE_ACT_DROP, FRCORE_STAT_INC cnt c)"

definition kinds_of_pkt_len_stat :: "cvmx_work \<Rightarrow> core \<Rightarrow> core" where
  "kinds_of_pkt_len_stat work c =
     (let len = ucast (wq_len work) :: u64;
          c = (if len < 60 then FRCORE_STAT_INC stat_very_short_pkts (FRCORE_STAT_INC stat_pkts_below_64 c)
               else if len \<ge> 60 \<and> len < 124 then FRCORE_STAT_INC stat_pkts_between_64_128 c
               else if len \<ge> 124 \<and> len < 252 then FRCORE_STAT_INC stat_pkts_between_128_256 c
               else if len \<ge> 252 \<and> len < 508 then FRCORE_STAT_INC stat_pkts_between_256_512 c
               else if len \<ge> 508 \<and> len < 1020 then FRCORE_STAT_INC stat_pkts_between_512_1024 c
               else if len \<ge> 1020 \<and> len < 1496 then FRCORE_STAT_INC stat_pkts_between_1024_1500 c
               else if len \<ge> 1496 \<and> len \<le> 1596 then FRCORE_STAT_INC stat_pkts_between_1500_1600 c
               else if len > 1596 then FRCORE_STAT_INC stat_very_long_pkts (FRCORE_STAT_INC stat_pkts_above_1600 c)
               else c)
      in if len \<ge> 60 \<and> len \<le> 1596 then FRCORE_STAT_INC stat_normal_pkts c else c)"

section \<open>The commands\<close>

text \<open>The sizes of the parameter structures, which the commands compare with \<^verbatim>\<open>plen\<close>.\<close>

definition sizeof_ipc_cur :: u16 where [c_consts]: "sizeof_ipc_cur = 16"
definition sizeof_ipc_exp :: u16 where [c_consts]: "sizeof_ipc_exp = 24"
definition sizeof_ipc_misc :: u16 where [c_consts]: "sizeof_ipc_misc = 8"
definition sizeof_ipc_payload_set_in :: u16 where [c_consts]: "sizeof_ipc_payload_set_in = 40"
definition sizeof_ipc_instr_cfg :: u16 where [c_consts]: "sizeof_ipc_instr_cfg = 32"
definition INSTR_PAYLOAD_SZ :: nat where [c_consts]: "INSTR_PAYLOAD_SZ = 32"
definition IPC_IP_LEN_MAX :: u32 where [c_consts]: "IPC_IP_LEN_MAX = 2048"
definition IPC_IIF_MAX :: nat where [c_consts]: "IPC_IIF_MAX = 0x400"

definition frcore_cmd_ipc_cur_set :: "u16 \<Rightarrow> u64 \<times> u64 \<Rightarrow> ipc_state \<Rightarrow> int \<times> ipc_state" where
  "frcore_cmd_ipc_cur_set plen curp s =
     (if plen \<noteq> sizeof_ipc_cur then (FRE_FAIL, s)
      else (FRE_SUCCESS, s\<lparr>cur_smac := fst curp, cur_pktid := snd curp\<rparr>))"

definition frcore_cmd_ipc_cur_get :: "ipc_state \<Rightarrow> int \<times> (u64 \<times> u64)" where
  "frcore_cmd_ipc_cur_get s = (FRE_SUCCESS, (cur_smac s, cur_pktid s))"

text \<open>The assignments to the fields of \<^verbatim>\<open>ipc_exp_data\<close>, and the same for \<^verbatim>\<open>ipc_exp_mask\<close>.\<close>

definition exp_fields :: "u16 \<Rightarrow> u16 \<Rightarrow> u64 \<Rightarrow> ipc_dpkt_hd" where
  "exp_fields oui iif pid =
     \<lparr>d_oui = oui,
      d_pid_l = ucast (drop_bit 0 pid AND 0xffffffff),
      d_chassis = ucast (drop_bit 4 (ucast (drop_bit 8 iif AND 0xf0) :: u8)),
      d_resv = ucast (ucast (drop_bit 8 iif AND 0xf) :: u8),
      d_ori_vid = ucast (drop_bit 16 (drop_bit 32 pid AND 0xffff0000)),
      d_pid_h = ucast (drop_bit 32 pid AND 0xffff),
      d_slot = ucast (drop_bit 3 (ucast (iif AND 0xf8) :: u8)),
      d_card = ucast (drop_bit 2 (ucast (iif AND 0x4) :: u8)),
      d_ifid = ucast (ucast (iif AND 0x3) :: u8)\<rparr>"

definition frcore_cmd_ipc_exp_set :: "u16 \<Rightarrow> ipc_exp \<Rightarrow> ipc_state \<Rightarrow> int \<times> ipc_state" where
  "frcore_cmd_ipc_exp_set plen expp s =
     (if plen \<noteq> sizeof_ipc_exp then (FRE_FAIL, s)
      else (FRE_SUCCESS, s\<lparr>ipc_exp_data := exp_fields (ouid expp) (iifd expp) (pidd expp),
                            ipc_exp_mask := exp_fields (ouim expp) (iifm expp) (pidm expp)\<rparr>))"

text \<open>\<^verbatim>\<open>(ori_vid << 16) | pid_h\<close> has the type \<^verbatim>\<open>int\<close>; the conversion to 64 bits extends its sign.\<close>

definition pid_word :: "ipc_dpkt_hd \<Rightarrow> u64" where
  "pid_word d = push_bit 32 (scast (push_bit 16 (ucast (d_ori_vid d)) OR ucast (d_pid_h d) :: u32)) OR ucast (d_pid_l d)"

definition iif_word :: "ipc_dpkt_hd \<Rightarrow> u16" where
  "iif_word d = push_bit 12 (ucast (d_chassis d)) OR push_bit 8 (ucast (d_resv d)) OR push_bit 3 (ucast (d_slot d)) OR
     push_bit 2 (ucast (d_card d)) OR ucast (d_ifid d)"

definition frcore_cmd_ipc_exp_get :: "ipc_state \<Rightarrow> int \<times> ipc_exp" where
  "frcore_cmd_ipc_exp_get s = (FRE_SUCCESS,
     \<lparr>ouid = d_oui (ipc_exp_data s), ouim = d_oui (ipc_exp_mask s), iifd = iif_word (ipc_exp_data s), iifm = iif_word (ipc_exp_mask s),
      pidd = pid_word (ipc_exp_data s), pidm = pid_word (ipc_exp_mask s)\<rparr>)"

definition frcore_cmd_ipc_misc_set :: "u16 \<Rightarrow> ipc_misc \<Rightarrow> ipc_state \<Rightarrow> int \<times> ipc_state" where
  "frcore_cmd_ipc_misc_set plen miscp s =
     (if plen \<noteq> sizeof_ipc_misc then (FRE_FAIL, s) else (FRE_SUCCESS, s\<lparr>misc := miscp\<rparr>))"

definition frcore_cmd_ipc_misc_get :: "ipc_state \<Rightarrow> int \<times> ipc_misc" where
  "frcore_cmd_ipc_misc_get s = (FRE_SUCCESS, misc s)"

text \<open>\<^verbatim>\<open>memcpy(buf + at, src, n)\<close> into a buffer, a fault when it leaves the buffer or the source.\<close>

definition copy_into :: "u8 list \<Rightarrow> nat \<Rightarrow> u8 list \<Rightarrow> nat \<Rightarrow> u8 list option" where
  "copy_into buf at src n =
     (if at + n \<le> length buf \<and> n \<le> length src then Some (take at buf @ take n src @ drop (at + n) buf) else None)"

text \<open>\<^verbatim>\<open>swap_buff\<close> reverses the bytes of each word of eight.\<close>

definition swap_payload :: "u8 list \<Rightarrow> u8 list" where
  "swap_payload b = swap_buff2 b @ swap_buff2 (drop 16 b)"

definition frcore_cmd_ipc_instr_payload_set :: "u16 \<Rightarrow> u8 list \<Rightarrow> u64 \<Rightarrow> ipc_state \<Rightarrow> (int \<times> ipc_state) option" where
  "frcore_cmd_ipc_instr_payload_set plen data index s =
     (if plen \<noteq> sizeof_ipc_payload_set_in then Some (FRE_FAIL, s)
      else do {
        p \<leftarrow> copy_into (instr_payload s) (unat (index * of_nat INSTR_PAYLOAD_SZ)) (swap_payload data) INSTR_PAYLOAD_SZ;
        Some (FRE_SUCCESS, s\<lparr>instr_payload := p\<rparr>)
      })"

definition frcore_cmd_ipc_instr_set :: "u16 \<Rightarrow> ipc_instr_cfg \<Rightarrow> ipc_state \<Rightarrow> int \<times> ipc_state" where
  "frcore_cmd_ipc_instr_set plen instrp s =
     (if plen \<noteq> sizeof_ipc_instr_cfg then (FRE_FAIL, s)
      else if ic_ip_len instrp > IPC_IP_LEN_MAX then (FRE_PARAM, s)
      else (FRE_SUCCESS, s\<lparr>instr_cfg := instrp\<rparr>))"

definition frcore_cmd_ipc_instr_get :: "ipc_state \<Rightarrow> int \<times> ipc_instr_cfg" where
  "frcore_cmd_ipc_instr_get s = (FRE_SUCCESS, instr_cfg s)"

section \<open>The instruction packets\<close>

definition IPC_INSTR_PROTOCOL :: u16 where [c_consts]: "IPC_INSTR_PROTOCOL = 0x8062"
definition IPC_INSTR_OUI :: u32 where [c_consts]: "IPC_INSTR_OUI = 0x2145"
definition sizeof_ipc_instr_hd :: nat where [c_consts]: "sizeof_ipc_instr_hd = 16"
definition sizeof_ipc_cmd :: nat where [c_consts]: "sizeof_ipc_cmd = 16"

text \<open>The fields \<^verbatim>\<open>oui\<close>, \<^verbatim>\<open>protocol\<close> and \<^verbatim>\<open>iif\<close> of the header are assigned, the other bits stay as they are.\<close>

definition instr_hd :: "nat \<Rightarrow> u8 list \<Rightarrow> u8 list" where
  "instr_hd i buf =
     drop 1 (PACK_U32 (IPC_INSTR_OUI AND 0xffffff)) @ [buf ! 3] @
     [(buf ! 4 AND 0xf8) OR (ucast (drop_bit 8 (of_nat i :: u16)) AND 0x7), ucast (of_nat i :: u16)] @
     take 6 (drop 6 buf) @ PACK_U16 IPC_INSTR_PROTOCOL @ drop 14 buf"

text \<open>\<open>alloc n\<close> is what the allocator returns for the \<open>n\<close>-th buffer, with what the memory holds; \<open>got\<close> says whether the
  table itself could be allocated. A failure ends the loop, and the caller goes on without looking at the result.\<close>

fun instr_table_loop :: "(nat \<Rightarrow> u8 list option) \<Rightarrow> nat list \<Rightarrow> u8 list option list \<Rightarrow> int \<times> u8 list option list" where
  "instr_table_loop alloc [] tab = (FRE_SUCCESS, tab)"
| "instr_table_loop alloc (i # is) tab =
     (case alloc i of None \<Rightarrow> (1, tab)
      | Some buf \<Rightarrow> instr_table_loop alloc is (tab[i := Some (instr_hd i buf)]))"

definition frcore_ipc_instr_table_init :: "bool \<Rightarrow> (nat \<Rightarrow> u8 list option) \<Rightarrow> ipc_state \<Rightarrow> int \<times> ipc_state" where
  "frcore_ipc_instr_table_init got alloc s =
     (if \<not> got then (1, s\<lparr>ipc_instr_table := []\<rparr>)
      else let (rv, tab) = instr_table_loop alloc [0..<IPC_IIF_MAX] (replicate IPC_IIF_MAX None)
           in (rv, s\<lparr>ipc_instr_table := tab\<rparr>))"

definition frcore_ipc_init :: "bool \<Rightarrow> (nat \<Rightarrow> u8 list option) \<Rightarrow> ipc_state \<Rightarrow> int \<times> ipc_state" where
  "frcore_ipc_init got alloc s = (FRE_SUCCESS, snd (frcore_ipc_instr_table_init got alloc s))"

record ipc_cmd =
  pktid :: u64
  dtype :: "4 word"
  ip_len :: "12 word"

text \<open>The memory of the structure; \<open>pad\<close> are the six bytes behind the fields.\<close>

definition cmd_bytes :: "u8 list \<Rightarrow> ipc_cmd \<Rightarrow> u8 list" where
  "cmd_bytes pad cmd = be64 (pktid cmd) @ PACK_U16 (push_bit 12 (ucast (dtype cmd)) OR ucast (ip_len cmd)) @ pad"

definition frcore_send_instr_packet :: "undet \<Rightarrow> nat \<Rightarrow> u8 list \<Rightarrow> ipc_state \<Rightarrow> ipc_state" where
  "frcore_send_instr_packet u output_len obuf s = s\<lparr>ipc_sent := ipc_sent s @
     [\<lparr>po_total_bytes = of_nat output_len, po_dontfree = True, po_segs = 1, po_rest = u_pko u, po_data = take output_len obuf\<rparr>]\<rparr>"

definition frcore_ipc_cmd_insert :: "undet \<Rightarrow> u16 \<Rightarrow> ipc_cmd \<Rightarrow> u8 list \<Rightarrow> ipc_state \<Rightarrow> (int \<times> ipc_state) option" where
  "frcore_ipc_cmd_insert u iif cmd payload s = do {
     entry \<leftarrow> arr_get (ipc_instr_table s) (unat iif);
     outbuf \<leftarrow> entry;
     let cmd_len = (if dtype cmd = 0 then 16 else sizeof_ipc_cmd);
     outbuf \<leftarrow> copy_into outbuf sizeof_ipc_instr_hd (cmd_bytes (u_pad u) cmd) cmd_len;
     let p = sizeof_ipc_instr_hd + cmd_len;
     outbuf \<leftarrow> (if ip_len cmd > 0 then copy_into outbuf p payload (unat (ip_len cmd)) else Some outbuf);
     let output_len = p + unat (ip_len cmd);
     tab \<leftarrow> arr_set (ipc_instr_table s) (unat iif) (Some outbuf);
     Some (FRE_SUCCESS, frcore_send_instr_packet u output_len outbuf (s\<lparr>ipc_instr_table := tab\<rparr>))
   }"

definition dpkt_pktid :: "ipc_dpkt_hd \<Rightarrow> u64" where
  "dpkt_pktid d = push_bit 32 (ucast (d_pid_h d)) OR ucast (d_pid_l d)"

definition dpkt_iif :: "ipc_dpkt_hd \<Rightarrow> u16" where
  "dpkt_iif d = push_bit 8 (ucast (d_chassis d)) OR push_bit 3 (ucast (d_slot d)) OR push_bit 2 (ucast (d_card d)) OR ucast (d_ifid d)"

definition instr_selects :: "ipc_instr_cfg \<Rightarrow> u32 \<Rightarrow> u32 \<Rightarrow> bool" where
  "instr_selects cfg sip dip \<longleftrightarrow>
     (sip AND ic_sip_mask cfg) AND (ic_sip_data cfg AND ic_sip_mask cfg) \<noteq> 0 \<or>
     (dip AND ic_dip_mask cfg) AND (ic_dip_data cfg AND ic_dip_mask cfg) \<noteq> 0"

definition frcore_ipc_ipv4_instr_sample :: "undet \<Rightarrow> ipc_dpkt_hd \<Rightarrow> u32 \<Rightarrow> u32 \<Rightarrow> core \<Rightarrow> (int \<times> core) option" where
  "frcore_ipc_ipv4_instr_sample u dpkt sip dip c =
     (let cfg = instr_cfg (co_ipc c) in
      if instr_selects cfg sip dip then do {
        let cmd = \<lparr>pktid = (if ic_type cfg AND ic_action cfg \<noteq> 0 then 0xffffffffffffffff else dpkt_pktid dpkt),
                   dtype = ucast (ic_type cfg), ip_len = ucast (ic_ip_len cfg)\<rparr>;
        (rv, s) \<leftarrow> frcore_ipc_cmd_insert u (dpkt_iif dpkt) cmd (instr_payload (co_ipc c)) (co_ipc c);
        Some (FRCORE_ACT_FREE, c\<lparr>co_ipc := s\<rparr>)
      } else Some (FRCORE_ACT_FREE, c))"

section \<open>The packet path\<close>

definition PROTO_VLAN :: u16 where [c_consts]: "PROTO_VLAN = 0x8100"
definition PROTO_IPV4 :: u16 where [c_consts]: "PROTO_IPV4 = 0x0800"
definition PROTO_IPV6 :: u16 where [c_consts]: "PROTO_IPV6 = 0x86DD"

definition frcore_ipc_ipv4_process :: "undet \<Rightarrow> ipc_dpkt_hd \<Rightarrow> u8 list \<Rightarrow> core \<Rightarrow> (int \<times> core) option" where
  "frcore_ipc_ipv4_process u dpkt p c = do {
     (w0, p) \<leftarrow> UNPACK_U32 p;
     (w1, p) \<leftarrow> UNPACK_U32 p;
     (w2, p) \<leftarrow> UNPACK_U32 p;
     (saddr, p) \<leftarrow> UNPACK_U32 p;
     (daddr, p) \<leftarrow> UNPACK_U32 p;
     if drop_bit 24 w0 AND 0xf \<noteq> 5 then FRCORE_DROP stat_drop_ip_option (FRCORE_STAT_INC stat_ip_option c)
     else if instr_send (misc (co_ipc c)) \<noteq> 0 then frcore_ipc_ipv4_instr_sample u dpkt saddr daddr c
     else Some (FRCORE_ACT_FREE, c)
   }"

definition frcore_ipc_ipv6_process :: "core \<Rightarrow> (int \<times> core) option" where
  "frcore_ipc_ipv6_process c = FRCORE_DROP stat_drop_ip_v6 (FRCORE_STAT_INC stat_ip_v6 c)"

text \<open>\<^verbatim>\<open>memcpy(&mac, p, 6); swap_buff(1, &mac)\<close> on a variable that is zero.\<close>

definition mac_word :: "u8 list \<Rightarrow> nat \<Rightarrow> u64 option" where
  "mac_word eth i = do {
     h \<leftarrow> UP32 eth i;
     l \<leftarrow> UP16 eth (i + 4);
     Some (SWAP_8_BYTE (push_bit 32 (ucast h) OR push_bit 16 (ucast l)))
   }"

text \<open>The block \<^verbatim>\<open>if (ipc_misc.smac_check)\<close>; the flag of the result says that the function returned.\<close>

definition ipc_smac_check :: "u8 list \<Rightarrow> core \<Rightarrow> (bool \<times> core) option" where
  "ipc_smac_check eth c =
     (if smac_check (misc (co_ipc c)) = 0 then Some (False, c)
      else do {
        pdmac \<leftarrow> mac_word eth 0;
        psmac \<leftarrow> mac_word eth 6;
        if psmac = 0 then Some (True, FRCORE_STAT_INC stat_ipc_drop_smac_zero (FRCORE_STAT_INC stat_rx_errs c))
        else Some (False,
          let csmac = cur_smac (co_ipc c) in
          if csmac = 0 \<or> psmac = csmac + 1
          then FRCORE_STAT_INC stat_ipc_smac_ordered (c\<lparr>co_ipc := (co_ipc c)\<lparr>cur_smac := psmac\<rparr>\<rparr>)
          else FRCORE_STAT_INC stat_ipc_smac_disorder c)
      })"

definition unpack_dpkt :: "u8 list \<Rightarrow> ipc_dpkt_hd option" where
  "unpack_dpkt p = do {
     (oui, p) \<leftarrow> UNPACK_U16 p;
     (pid_l, p) \<leftarrow> UNPACK_U32 p;
     (vare, p) \<leftarrow> UNPACK_U8 p;
     (ori_vid, p) \<leftarrow> UNPACK_U16 p;
     (pid_h, p) \<leftarrow> UNPACK_U16 p;
     (iifv, p) \<leftarrow> UNPACK_U8 p;
     Some \<lparr>d_oui = oui, d_pid_l = pid_l, d_chassis = ucast (drop_bit 4 (vare AND 0xf0)), d_resv = 0,
           d_ori_vid = ori_vid, d_pid_h = pid_h, d_slot = ucast (drop_bit 3 (iifv AND 0xf8)),
           d_card = ucast (drop_bit 2 (iifv AND 0x4)), d_ifid = ucast (iifv AND 0x3)\<rparr>
   }"

definition dpkt_valid :: "ipc_dpkt_hd \<Rightarrow> ipc_dpkt_hd \<Rightarrow> ipc_dpkt_hd \<Rightarrow> bool" where
  "dpkt_valid e m d \<longleftrightarrow>
     \<not> (d_oui e AND d_oui m \<noteq> d_oui d AND d_oui m) \<and>
     \<not> (d_chassis e AND d_chassis m \<noteq> d_chassis d AND d_chassis m) \<and>
     \<not> (d_pid_h e AND d_pid_h m \<noteq> d_pid_h d AND d_pid_h m) \<and>
     \<not> (d_pid_l e AND d_pid_l m \<noteq> d_pid_l d AND d_pid_l m) \<and>
     \<not> (d_slot e AND d_slot m \<noteq> d_slot d AND d_slot m) \<and>
     \<not> (d_card e AND d_card m \<noteq> d_card d AND d_card m) \<and>
     \<not> (d_ifid e AND d_ifid m \<noteq> d_ifid d AND d_ifid m) \<and>
     \<not> (d_ori_vid e AND d_ori_vid m \<noteq> d_ori_vid d AND d_ori_vid m)"

text \<open>The blocks \<^verbatim>\<open>if (ipc_misc.exp_check)\<close> and \<^verbatim>\<open>if (ipc_misc.pktid_check)\<close>.\<close>

definition ipc_exp_check :: "ipc_dpkt_hd \<Rightarrow> core \<Rightarrow> core" where
  "ipc_exp_check dpkt c =
     (if exp_check (misc (co_ipc c)) = 0 then c
      else if dpkt_valid (ipc_exp_data (co_ipc c)) (ipc_exp_mask (co_ipc c)) dpkt
      then FRCORE_STAT_INC stat_ipc_head_valid c else FRCORE_STAT_INC stat_ipc_head_invalid c)"

definition ipc_pktid_check :: "ipc_dpkt_hd \<Rightarrow> core \<Rightarrow> core" where
  "ipc_pktid_check dpkt c =
     (if pktid_check (misc (co_ipc c)) = 0 then c
      else let ppid = dpkt_pktid dpkt; cpid = cur_pktid (co_ipc c);
               set_cur = (\<lambda>c. c\<lparr>co_ipc := (co_ipc c)\<lparr>cur_pktid := ppid\<rparr>\<rparr>)
      in if cpid = 0 then (if ppid = cpid then FRCORE_STAT_INC stat_ipc_pktid_repeat c
                           else set_cur (FRCORE_STAT_INC stat_ipc_pktid_ordered c))
         else if ppid = cpid then FRCORE_STAT_INC stat_ipc_pktid_repeat c
         else if ppid > cpid then FRCORE_STAT_INC stat_ipc_pktid_ordered (set_cur c)
         else FRCORE_STAT_INC stat_ipc_pktid_disorder c)"

text \<open>The switch over the protocol at the end; \<open>p\<close> is the memory behind the Ethernet header.\<close>

definition ipc_switch :: "undet \<Rightarrow> bool \<Rightarrow> u16 \<Rightarrow> u8 list \<Rightarrow> cvmx_work \<Rightarrow> ipc_dpkt_hd \<Rightarrow> core \<Rightarrow> (int \<times> core) option" where
  "ipc_switch u vlan_dist protocol p work dpkt c =
     (if protocol = PROTO_IPV4 then do {
        (rv, v) \<leftarrow> (if vlan_dist then frcore_vlan_check_v4 True (ether_ptr work) (ip_ptr work) (wq_ipprt work) (co_vlan c)
                    else Some (0, co_vlan c));
        frcore_ipc_ipv4_process u dpkt p (c\<lparr>co_vlan := v\<rparr>)
      }
      else if protocol = PROTO_IPV6 then do {
        (rv, v) \<leftarrow> (if vlan_dist then frcore_vlan_check_v6 True (ether_ptr work) (ip_ptr work) (wq_ipprt work) (co_vlan c)
                    else Some (0, co_vlan c));
        frcore_ipc_ipv6_process (c\<lparr>co_vlan := v\<rparr>)
      }
      else Some (FRCORE_ACT_FREE, c))"

definition ipc_protocol :: "undet \<Rightarrow> cvmx_work \<Rightarrow> ipc_dpkt_hd \<Rightarrow> core \<Rightarrow> (int \<times> core) option" where
  "ipc_protocol u work dpkt c = do {
     (protocol, p) \<leftarrow> UNPACK_U16 (drop 12 (ether_ptr work));
     if \<not> u_printf u protocol then None
     else if protocol = PROTO_VLAN then do {
       let c = FRCORE_STAT_INC stat_vlan c;
       (ovid, p) \<leftarrow> UNPACK_U16 p;
       (protocol, p) \<leftarrow> UNPACK_U16 p;
       if protocol = PROTO_VLAN then do {
         (ivid, p) \<leftarrow> UNPACK_U16 p;
         (protocol, p) \<leftarrow> UNPACK_U16 p;
         ipc_switch u True protocol p work dpkt c
       } else ipc_switch u True protocol p work dpkt c
     }
     else ipc_switch u False protocol p work dpkt c
   }"

definition frcore_ipc_work_process :: "undet \<Rightarrow> cvmx_work \<Rightarrow> core \<Rightarrow> (int \<times> core) option" where
  "frcore_ipc_work_process u work c = do {
     let c = kinds_of_pkt_len_stat work c;
     port \<leftarrow> arr_get (co_ports c) (unat (wq_ipprt work));
     if rx_on port = 0 then FRCORE_DROP stat_drop_port_off c
     else if wq_rcv_error work then FRCORE_DROP stat_drop_rx_error (FRCORE_STAT_INC stat_rx_errs c)
     else do {
       let c = FRCORE_STAT_ADD stat_rx_bytes (ucast (wq_len work) + 4) (FRCORE_STAT_INC stat_rx_pkts c);
       (returned, c) \<leftarrow> ipc_smac_check (ether_ptr work) c;
       if returned then Some (FRCORE_ACT_DROP, c)
       else do {
         dpkt \<leftarrow> unpack_dpkt (ether_ptr work);
         ipc_protocol u work dpkt (ipc_pktid_check dpkt (ipc_exp_check dpkt c))
       }
     }
   }"

end
