(* ===== verification/IpcCheck.thy ===== *)
theory IpcCheck
  imports Ipc
begin

text \<open>
  What the probe check of \<open>Ipc\<close> guarantees: the pattern that a command sets is read back; the comparison of the
  header fields is a comparison of the first bytes of the frame under a mask; every packet is handled unless an answer
  leaves its buffer or its table; the packet number is the maximum of those seen; an answer has the documented form.
\<close>

section \<open>The pattern of the header\<close>

text \<open>The bytes of a header whose fields are given as in \<^verbatim>\<open>ipc_exp_t\<close>, and the mask with the half byte that is not compared.\<close>

definition exp_bytes :: "u16 \<Rightarrow> u16 \<Rightarrow> u64 \<Rightarrow> u8 list" where
  "exp_bytes oui iif pid = PACK_U16 oui @ PACK_U32 (ucast pid) @ [ucast (drop_bit 8 iif)] @
     PACK_U16 (ucast (drop_bit 48 pid)) @ PACK_U16 (ucast (drop_bit 32 pid)) @ [ucast iif]"

definition exp_mask_bytes :: "ipc_exp \<Rightarrow> u8 list" where
  "exp_mask_bytes a = (exp_bytes (ouim a) (iifm a) (pidm a))[6 := ucast (drop_bit 8 (iifm a)) AND 0xf0]"

lemma const_masks:
  "(0xf0 :: 'a::len word) = push_bit 4 (mask 4)" "(0xf :: 'a::len word) = mask 4" "(0xf8 :: 'a::len word) = push_bit 3 (mask 5)"
  "(0x4 :: 'a::len word) = push_bit 2 (mask 1)" "(0x3 :: 'a::len word) = mask 2"
  "(0xffffffff :: 'a::len word) = mask 32" "(0xffff0000 :: 'a::len word) = push_bit 16 (mask 16)" "(0xffff :: 'a::len word) = mask 16"
  by (simp_all add: mask_eq_exp_minus_1 push_bit_eq_mult)

lemma bits16_eqI: "(\<forall>n \<in> set [0..<16]. bit x n = bit y n) \<Longrightarrow> x = (y :: u16)"
  by (rule bit_word_eqI) simp

lemma iif_word_exp_fields: "iif_word (exp_fields oui iif pid) = iif"
  unfolding iif_word_def exp_fields_def const_masks by (rule bits16_eqI) (simp add: upt_rec bit_simps, simp add: eval_nat_numeral)

lemma pid_word_exp_fields: "pid_word (exp_fields oui iif pid) = pid"
proof (rule bit_word_eqI)
  fix n assume n: "n < LENGTH(64)"
  consider "n < 32" | "32 \<le> n" "n < 48" | "48 \<le> n" by linarith
  then show "bit (pid_word (exp_fields oui iif pid)) n \<longleftrightarrow> bit pid n"
    unfolding pid_word_def exp_fields_def const_masks using n by cases (auto simp: bit_simps)
qed

text \<open>
  The pattern round trip. Whatever pattern and mask the command sets, the command that reads them returns them
  unchanged: splitting the interface number and the packet number into the fields of the header loses nothing.
\<close>

theorem exp_set_get_roundtrip:
  "frcore_cmd_ipc_exp_get (snd (frcore_cmd_ipc_exp_set sizeof_ipc_exp a s)) = (FRE_SUCCESS, a)"
  by (simp add: frcore_cmd_ipc_exp_get_def frcore_cmd_ipc_exp_set_def iif_word_exp_fields pid_word_exp_fields)
    (simp add: exp_fields_def)

section \<open>The comparison of the header\<close>

lemma masked_eq_bits: "(x AND m = y AND m) \<longleftrightarrow> (\<forall>n<LENGTH('a). bit (m :: 'a::len word) n \<longrightarrow> (bit x n \<longleftrightarrow> bit y n))"
  by (auto simp: bit_eq_iff bit_simps dest: bit_imp_le_length)

lemma all_less_split: "(\<forall>n < a + b. P n) \<longleftrightarrow> (\<forall>n < a. P n) \<and> (\<forall>n < b. P (n + a))" for a b :: nat
  by (metis add.commute add_less_cancel_right less_diff_conv2 linorder_not_less ordered_cancel_comm_monoid_diff_class.diff_add trans_less_add1)

lemma mask16: "(e AND m = (push_bit 8 (ucast a AND 0xff) OR (ucast b AND 0xff)) AND m) \<longleftrightarrow>
    (a AND ucast (drop_bit 8 m) = ucast (drop_bit 8 e) AND ucast (drop_bit 8 m) \<and> b AND ucast m = ucast e AND (ucast m :: u8))"
  for e m :: u16 and a b :: u8
proof -
  have "(e AND m = (push_bit 8 (ucast a AND 0xff) OR (ucast b AND 0xff)) AND m) \<longleftrightarrow>
      (\<forall>n < 8 + 8. bit m n \<longrightarrow> (bit e n \<longleftrightarrow> bit (push_bit 8 (ucast a AND mask 8) OR (ucast b AND mask 8) :: u16) n))"
    unfolding masked_eq_bits mask8 by simp
  also have "\<dots> \<longleftrightarrow> (\<forall>n < 8. bit m n \<longrightarrow> (bit e n \<longleftrightarrow> bit b n)) \<and> (\<forall>n < 8. bit m (n + 8) \<longrightarrow> (bit e (n + 8) \<longleftrightarrow> bit a n))"
    unfolding all_less_split by (simp add: bit_simps)
  also have "\<dots> \<longleftrightarrow> (b AND ucast m = ucast e AND (ucast m :: u8)) \<and> (a AND ucast (drop_bit 8 m) = ucast (drop_bit 8 e) AND ucast (drop_bit 8 m))"
    unfolding masked_eq_bits by (auto simp: bit_simps add.commute)
  finally show ?thesis by blast
qed

lemma mask32:
  "(e AND m = (push_bit 24 (ucast a AND 0xff) OR push_bit 16 (ucast b AND 0xff) OR push_bit 8 (ucast c AND 0xff) OR (ucast d AND 0xff)) AND m) \<longleftrightarrow>
    (a AND ucast (drop_bit 24 m) = ucast (drop_bit 24 e) AND ucast (drop_bit 24 m) \<and> b AND ucast (drop_bit 16 m) = ucast (drop_bit 16 e) AND ucast (drop_bit 16 m) \<and>
     c AND ucast (drop_bit 8 m) = ucast (drop_bit 8 e) AND ucast (drop_bit 8 m) \<and> d AND ucast m = ucast e AND (ucast m :: u8))"
  (is "(e AND m = ?w AND m) \<longleftrightarrow> ?R") for e m :: u32 and a b c d :: u8
proof -
  have "(e AND m = ?w AND m) \<longleftrightarrow> (\<forall>n < 8 + (8 + (8 + 8)). bit m n \<longrightarrow> (bit e n \<longleftrightarrow>
      bit (push_bit 24 (ucast a AND mask 8) OR push_bit 16 (ucast b AND mask 8) OR push_bit 8 (ucast c AND mask 8) OR (ucast d AND mask 8) :: u32) n))"
    unfolding masked_eq_bits mask8 by simp
  also have "\<dots> \<longleftrightarrow> (\<forall>n < 8. bit m n \<longrightarrow> (bit e n \<longleftrightarrow> bit d n)) \<and> (\<forall>n < 8. bit m (n + 8) \<longrightarrow> (bit e (n + 8) \<longleftrightarrow> bit c n)) \<and>
      (\<forall>n < 8. bit m (n + 16) \<longrightarrow> (bit e (n + 16) \<longleftrightarrow> bit b n)) \<and> (\<forall>n < 8. bit m (n + 24) \<longrightarrow> (bit e (n + 24) \<longleftrightarrow> bit a n))"
    unfolding all_less_split by (simp add: bit_simps add.assoc)
  also have "\<dots> \<longleftrightarrow> ?R"
    unfolding masked_eq_bits by (auto simp: bit_simps add.commute)
  finally show ?thesis .
qed

lemma masked_nibble:
  "(ucast (drop_bit 4 (ucast (drop_bit 8 e AND 0xf0) :: u8)) AND (ucast (drop_bit 4 (ucast (drop_bit 8 m AND 0xf0) :: u8)) :: 4 word) =
      ucast (drop_bit 4 (v AND 0xf0)) AND ucast (drop_bit 4 (ucast (drop_bit 8 m AND 0xf0) :: u8))) \<longleftrightarrow>
    (v AND (ucast (drop_bit 8 m) AND 0xf0) = ucast (drop_bit 8 e) AND (ucast (drop_bit 8 m) AND 0xf0))"
  (is "?L \<longleftrightarrow> ?R") for e m :: u16 and v :: u8
proof -
  have "?L \<longleftrightarrow> (\<forall>n < 4. bit m (n + 12) \<longrightarrow> (bit e (n + 12) \<longleftrightarrow> bit v (n + 4)))"
    unfolding masked_eq_bits const_masks by (auto simp: bit_simps add.commute)
  also have "\<dots> \<longleftrightarrow> (\<forall>n < 8. 4 \<le> n \<longrightarrow> bit m (n + 8) \<longrightarrow> (bit e (n + 8) \<longleftrightarrow> bit v n))"
    using all_less_split [of 4 4 "\<lambda>n. 4 \<le> n \<longrightarrow> bit m (n + 8) \<longrightarrow> (bit e (n + 8) \<longleftrightarrow> bit v n)"] by (simp add: add.assoc)
  also have "\<dots> \<longleftrightarrow> ?R"
    unfolding masked_eq_bits const_masks by (auto simp: bit_simps add.commute less_diff_conv2)
  finally show ?thesis .
qed

lemma masked_iif:
  "(ucast (drop_bit 3 (ucast (e AND 0xf8) :: u8)) AND (ucast (drop_bit 3 (ucast (m AND 0xf8) :: u8)) :: 5 word) =
      ucast (drop_bit 3 (v AND 0xf8)) AND ucast (drop_bit 3 (ucast (m AND 0xf8) :: u8))) \<and>
   (ucast (drop_bit 2 (ucast (e AND 0x4) :: u8)) AND (ucast (drop_bit 2 (ucast (m AND 0x4) :: u8)) :: 1 word) =
      ucast (drop_bit 2 (v AND 0x4)) AND ucast (drop_bit 2 (ucast (m AND 0x4) :: u8))) \<and>
   (ucast (ucast (e AND 0x3) :: u8) AND (ucast (ucast (m AND 0x3) :: u8) :: 2 word) =
      ucast (v AND 0x3) AND ucast (ucast (m AND 0x3) :: u8)) \<longleftrightarrow>
    (v AND ucast m = ucast e AND ucast m)"
  (is "?A \<and> ?B \<and> ?C \<longleftrightarrow> ?R") for e m :: u16 and v :: u8
proof -
  have "?A \<longleftrightarrow> (\<forall>n < 5. bit m (n + 3) \<longrightarrow> (bit e (n + 3) \<longleftrightarrow> bit v (n + 3)))"
    unfolding masked_eq_bits const_masks by (auto simp: bit_simps add.commute)
  moreover have "?B \<longleftrightarrow> (\<forall>n < 1. bit m (n + 2) \<longrightarrow> (bit e (n + 2) \<longleftrightarrow> bit v (n + 2)))"
    unfolding masked_eq_bits const_masks by (auto simp: bit_simps add.commute)
  moreover have "?C \<longleftrightarrow> (\<forall>n < 2. bit m n \<longrightarrow> (bit e n \<longleftrightarrow> bit v n))"
    unfolding masked_eq_bits const_masks by (auto simp: bit_simps add.commute)
  moreover have "?R \<longleftrightarrow> (\<forall>n < 2 + (1 + 5). bit m n \<longrightarrow> (bit e n \<longleftrightarrow> bit v n))"
    unfolding masked_eq_bits by (auto simp: bit_simps)
  moreover have "\<dots> \<longleftrightarrow> (\<forall>n < 2. bit m n \<longrightarrow> (bit e n \<longleftrightarrow> bit v n)) \<and> (\<forall>n < 1. bit m (n + 2) \<longrightarrow> (bit e (n + 2) \<longleftrightarrow> bit v (n + 2))) \<and>
      (\<forall>n < 5. bit m (n + 3) \<longrightarrow> (bit e (n + 3) \<longleftrightarrow> bit v (n + 3)))"
    unfolding all_less_split by (simp add: add.assoc numeral_2_eq_2 numeral_3_eq_3)
  ultimately show ?thesis by blast
qed

text \<open>The bytes of a frame, as far as the header reaches.\<close>

lemma head_bytes:
  assumes "12 \<le> length eth"
  obtains b0 b1 b2 b3 b4 b5 b6 b7 b8 b9 b10 b11 r where "eth = b0 # b1 # b2 # b3 # b4 # b5 # b6 # b7 # b8 # b9 # b10 # b11 # r"
  using assms by (auto simp: numeral_eq_Suc Suc_le_length_iff)

lemma unpack_dpkt_some: "12 \<le> length eth \<Longrightarrow> \<exists>d. unpack_dpkt eth = Some d"
  by (erule head_bytes) (simp add: unpack_dpkt_def UNPACK_U16_def UNPACK_U32_def UNPACK_U8_def)

lemma u8_and_ff: "(v :: u8) AND 0xff = v"
  unfolding mask8 by (rule bit_word_eqI) (simp add: bit_simps)

lemma dpkt_valid_bytes:
  assumes "unpack_dpkt eth = Some d" "12 \<le> length eth"
  shows "dpkt_valid (exp_fields (ouid a) (iifd a) (pidd a)) (exp_fields (ouim a) (iifm a) (pidm a)) d \<longleftrightarrow>
    map2 (AND) (take 12 eth) (exp_mask_bytes a) = map2 (AND) (exp_bytes (ouid a) (iifd a) (pidd a)) (exp_mask_bytes a)"
proof -
  obtain b0 b1 b2 b3 b4 b5 b6 b7 b8 b9 b10 b11 r where eth: "eth = b0 # b1 # b2 # b3 # b4 # b5 # b6 # b7 # b8 # b9 # b10 # b11 # r"
    using head_bytes [OF assms(2)] .
  have d: "d = \<lparr>d_oui = push_bit 8 (ucast b0 AND 0xff) OR (ucast b1 AND 0xff),
      d_pid_l = push_bit 24 (ucast b2 AND 0xff) OR push_bit 16 (ucast b3 AND 0xff) OR push_bit 8 (ucast b4 AND 0xff) OR (ucast b5 AND 0xff),
      d_chassis = ucast (drop_bit 4 (b6 AND 0xf0)), d_resv = 0, d_ori_vid = push_bit 8 (ucast b7 AND 0xff) OR (ucast b8 AND 0xff),
      d_pid_h = push_bit 8 (ucast b9 AND 0xff) OR (ucast b10 AND 0xff), d_slot = ucast (drop_bit 3 (b11 AND 0xf8)),
      d_card = ucast (drop_bit 2 (b11 AND 0x4)), d_ifid = ucast (b11 AND 0x3)\<rparr>"
    using assms(1) by (simp add: eth unpack_dpkt_def UNPACK_U16_def UNPACK_U32_def UNPACK_U8_def u8_and_ff)
  have pid: "ucast (drop_bit 16 (drop_bit 32 w AND 0xffff0000)) = (ucast (drop_bit 48 w) :: u16)"
    "ucast (drop_bit 32 w AND 0xffff) = (ucast (drop_bit 32 w) :: u16)" "ucast (drop_bit 0 w AND 0xffffffff) = (ucast w :: u32)" for w :: u64
    unfolding const_masks by (rule bit_word_eqI; auto simp: bit_simps)+
  have pack: "PACK_U16 v = [ucast (drop_bit 8 v), ucast v]" "PACK_U32 u = [ucast (drop_bit 24 u), ucast (drop_bit 16 u), ucast (drop_bit 8 u), ucast u]" for v u
    unfolding PACK_U16_def PACK_U32_def mask8 by (auto intro!: bit_word_eqI simp: bit_simps)
  have M: "exp_mask_bytes a = [ucast (drop_bit 8 (ouim a)), ucast (ouim a), ucast (drop_bit 24 (ucast (pidm a) :: u32)), ucast (drop_bit 16 (ucast (pidm a) :: u32)),
      ucast (drop_bit 8 (ucast (pidm a) :: u32)), ucast (ucast (pidm a) :: u32), ucast (drop_bit 8 (iifm a)) AND 0xf0,
      ucast (drop_bit 8 (ucast (drop_bit 48 (pidm a)) :: u16)), ucast (ucast (drop_bit 48 (pidm a)) :: u16),
      ucast (drop_bit 8 (ucast (drop_bit 32 (pidm a)) :: u16)), ucast (ucast (drop_bit 32 (pidm a)) :: u16), ucast (iifm a)]"
    and E: "exp_bytes (ouid a) (iifd a) (pidd a) = [ucast (drop_bit 8 (ouid a)), ucast (ouid a), ucast (drop_bit 24 (ucast (pidd a) :: u32)), ucast (drop_bit 16 (ucast (pidd a) :: u32)),
      ucast (drop_bit 8 (ucast (pidd a) :: u32)), ucast (ucast (pidd a) :: u32), ucast (drop_bit 8 (iifd a)),
      ucast (drop_bit 8 (ucast (drop_bit 48 (pidd a)) :: u16)), ucast (ucast (drop_bit 48 (pidd a)) :: u16),
      ucast (drop_bit 8 (ucast (drop_bit 32 (pidd a)) :: u16)), ucast (ucast (drop_bit 32 (pidd a)) :: u16), ucast (iifd a)]"
    by (simp_all add: exp_mask_bytes_def exp_bytes_def pack)
  have T: "take 12 eth = [b0, b1, b2, b3, b4, b5, b6, b7, b8, b9, b10, b11]" by (simp add: eth)
  show ?thesis
    unfolding M E T zip_Cons_Cons zip_Nil list.map prod.case list.inject d dpkt_valid_def exp_fields_def ipc_dpkt_hd.simps pid not_not mask16 mask32 masked_nibble
    using masked_iif [of "iifd a" "iifm a" b11] by blast
qed

text \<open>
  C33. The check of the header is a comparison under a mask. After the command has set a pattern, a packet whose first twelve
  bytes agree with the bytes of the pattern in every bit of the mask is counted as valid, every other packet as invalid;
  the low half of the seventh byte is never compared, whatever the mask says.
\<close>

theorem head_check_is_masked_compare:
  assumes "12 \<le> length eth" "exp_check (misc (co_ipc c)) \<noteq> 0" "co_ipc c = snd (frcore_cmd_ipc_exp_set sizeof_ipc_exp a s)"
  shows "\<exists>d. unpack_dpkt eth = Some d \<and>
    ipc_exp_check d c = FRCORE_STAT_INC
      (if map2 (AND) (take 12 eth) (exp_mask_bytes a) = map2 (AND) (exp_bytes (ouid a) (iifd a) (pidd a)) (exp_mask_bytes a)
       then stat_ipc_head_valid else stat_ipc_head_invalid) c"
proof -
  obtain d where d: "unpack_dpkt eth = Some d" using unpack_dpkt_some [OF assms(1)] by blast
  have "ipc_exp_data (co_ipc c) = exp_fields (ouid a) (iifd a) (pidd a)" "ipc_exp_mask (co_ipc c) = exp_fields (ouim a) (iifm a) (pidm a)"
    unfolding assms(3) by (simp_all add: frcore_cmd_ipc_exp_set_def)
  then show ?thesis using d assms(2) dpkt_valid_bytes [OF d assms(1), of a] by (simp add: ipc_exp_check_def)
qed

section \<open>The instruction table\<close>

lemma unat_less_pow: "unat w < 2 ^ n \<longleftrightarrow> drop_bit n w = 0"
proof -
  have "unat w < 2 ^ n \<longleftrightarrow> unat w div 2 ^ n = 0" by (simp add: div_eq_0_iff)
  also have "\<dots> \<longleftrightarrow> unat (drop_bit n w) = 0" unfolding unat_drop_bit_eq by (simp add: drop_bit_eq_div)
  finally show ?thesis by (simp add: unat_eq_0)
qed

text \<open>The interface number of a packet is below the size of the table exactly when its chassis is below four.\<close>

lemma iif_in_table: "unat (dpkt_iif d) < IPC_IIF_MAX \<longleftrightarrow> unat (d_chassis d) < 4"
proof -
  have out: "5 \<le> n \<Longrightarrow> \<not> bit (d_slot d) n" "1 \<le> n \<Longrightarrow> \<not> bit (d_card d) n" "2 \<le> n \<Longrightarrow> \<not> bit (d_ifid d) n" "4 \<le> n \<Longrightarrow> \<not> bit (d_chassis d) n" for n
    using bit_imp_le_length [of "d_slot d" n] bit_imp_le_length [of "d_card d" n] bit_imp_le_length [of "d_ifid d" n] bit_imp_le_length [of "d_chassis d" n] by auto
  have "drop_bit 10 (dpkt_iif d) = ucast (drop_bit 2 (d_chassis d))"
    by (rule bits16_eqI) (simp add: dpkt_iif_def upt_rec bit_simps out)
  moreover have "unat (ucast (drop_bit 2 (d_chassis d)) :: u16) = unat (drop_bit 2 (d_chassis d))" by simp
  ultimately show ?thesis
    using unat_less_pow [of "dpkt_iif d" 10] unat_less_pow [of "d_chassis d" 2] unat_eq_0 [of "drop_bit 10 (dpkt_iif d)"] unat_eq_0 [of "drop_bit 2 (d_chassis d)"]
    by (simp add: c_consts)
qed

text \<open>The header that \<^verbatim>\<open>frcore_ipc_instr_table_init\<close> writes: the fields it assigns, read back from the bytes.\<close>

definition hd_ok :: "nat \<Rightarrow> u8 list \<Rightarrow> bool" where
  "hd_ok i buf \<longleftrightarrow> length buf = 2048 \<and> take 3 buf = [0, 0x21, 0x45] \<and>
     256 * unat (buf ! 4 AND 0x7) + unat (buf ! 5) = i \<and> take 2 (drop 12 buf) = [0x80, 0x62]"

definition instr_ok :: "ipc_state \<Rightarrow> bool" where
  "instr_ok s \<longleftrightarrow> length (ipc_instr_table s) = IPC_IIF_MAX \<and> (\<forall>i < IPC_IIF_MAX. \<exists>buf. ipc_instr_table s ! i = Some buf \<and> hd_ok i buf) \<and>
     length (instr_payload s) = 2048 \<and> ic_ip_len (instr_cfg s) \<le> IPC_IP_LEN_MAX"

lemma instr_hd_length [simp]: "14 \<le> length buf \<Longrightarrow> length (instr_hd i buf) = length buf"
  by (simp add: instr_hd_def)

lemma hd_ok_instr_hd:
  assumes "length buf = 2048" "i < IPC_IIF_MAX"
  shows "hd_ok i (instr_hd i buf)"
proof -
  have oui: "drop 1 (PACK_U32 (IPC_INSTR_OUI AND 0xffffff)) = [0, 0x21, 0x45]" "PACK_U16 IPC_INSTR_PROTOCOL = [0x80, 0x62]"
    by (simp_all add: PACK_U32_def PACK_U16_def c_consts)
  have seven: "(0x7 :: u8) = mask 3" by (simp add: mask_eq_exp_minus_1)
  have "((buf ! 4 AND 0xf8) OR (ucast (drop_bit 8 (of_nat i :: u16)) AND 0x7)) AND 0x7 = (ucast (drop_bit 8 (of_nat i :: u16)) :: u8) AND mask 3"
    unfolding const_masks seven by (intro bit_word_eqI) (auto simp: bit_simps)
  moreover have "unat ((ucast (drop_bit 8 (of_nat i :: u16)) :: u8) AND mask 3) = i div 256"
  proof -
    have "unat (drop_bit 8 (of_nat i :: u16)) = i div 256"
      unfolding unat_drop_bit_eq using assms(2) by (simp add: drop_bit_eq_div unsigned_of_nat take_bit_eq_mod c_consts)
    then have "unat (ucast (drop_bit 8 (of_nat i :: u16)) :: u8) = i div 256" using assms(2) by (simp add: unat_ucast_mod c_consts)
    then show ?thesis unfolding take_bit_eq_mask [symmetric] unsigned_take_bit_eq using assms(2) by (simp add: take_bit_eq_mod c_consts)
  qed
  ultimately have h: "unat (((buf ! 4 AND 0xf8) OR (ucast (drop_bit 8 (of_nat i :: u16)) AND 0x7)) AND 0x7) = i div 256" by simp
  have "unat (ucast (of_nat i :: u16) :: u8) = i mod 256"
    using assms(2) by (simp add: c_consts unat_ucast_mod unsigned_of_nat take_bit_eq_mod)
  then show ?thesis
    using assms(1) h unfolding hd_ok_def instr_hd_def oui by simp
qed

text \<open>With enough memory the table is filled with buffers that carry the header of their interface.\<close>

lemma table_loop_ok:
  assumes "\<And>i. i \<in> set is \<Longrightarrow> \<exists>buf. alloc i = Some buf \<and> length buf = 2048" "\<And>i. i \<in> set is \<Longrightarrow> i < IPC_IIF_MAX" "length tab = IPC_IIF_MAX"
  shows "\<exists>tab'. instr_table_loop alloc is tab = (FRE_SUCCESS, tab') \<and> length tab' = IPC_IIF_MAX \<and>
    (\<forall>i \<in> set is. \<exists>buf. tab' ! i = Some buf \<and> hd_ok i buf) \<and> (\<forall>i. i \<notin> set is \<longrightarrow> tab' ! i = tab ! i)"
  using assms
proof (induction "is" arbitrary: tab rule: rev_induct)
  case Nil
  then show ?case by simp
next
  case (snoc i js)
  have app: "instr_table_loop alloc js t = (FRE_SUCCESS, t') \<Longrightarrow> instr_table_loop alloc (js @ [i]) t = instr_table_loop alloc [i] t'" for t t'
    by (induction js arbitrary: t) (simp_all add: c_consts split: option.splits)
  obtain t' where t': "instr_table_loop alloc js tab = (FRE_SUCCESS, t')" "length t' = IPC_IIF_MAX"
      "\<forall>i \<in> set js. \<exists>buf. t' ! i = Some buf \<and> hd_ok i buf" "\<forall>i. i \<notin> set js \<longrightarrow> t' ! i = tab ! i"
    using snoc.IH [OF _ _ snoc.prems(3)] snoc.prems(1,2) by auto
  obtain buf where buf: "alloc i = Some buf" "length buf = 2048" using snoc.prems(1) by auto
  have "i < IPC_IIF_MAX" using snoc.prems(2) by simp
  then show ?case
    using app [OF t'(1)] t'(2-) buf hd_ok_instr_hd [OF buf(2)] by (auto simp: nth_list_update)
qed

lemma init_instr_ok:
  assumes "\<And>i. i < IPC_IIF_MAX \<Longrightarrow> \<exists>buf. alloc i = Some buf \<and> length buf = 2048" "length (instr_payload s) = 2048" "ic_ip_len (instr_cfg s) \<le> IPC_IP_LEN_MAX"
  shows "instr_ok (snd (frcore_ipc_init True alloc s))"
  using table_loop_ok [of "[0..<IPC_IIF_MAX]" alloc "replicate IPC_IIF_MAX None"] assms
  by (auto simp: frcore_ipc_init_def frcore_ipc_instr_table_init_def instr_ok_def)

text \<open>An insertion into a table of that form.\<close>

lemma copy_into_some: "copy_into buf at src n = Some r \<longleftrightarrow> at + n \<le> length buf \<and> n \<le> length src \<and> r = take at buf @ take n src @ drop (at + n) buf"
  by (auto simp: copy_into_def)

lemma cmd_bytes_length [simp]: "length pad = 6 \<Longrightarrow> length (cmd_bytes pad cmd) = 16"
  by (simp add: cmd_bytes_def)

definition instr_packet :: "u8 list \<Rightarrow> u8 list \<Rightarrow> ipc_cmd \<Rightarrow> u8 list \<Rightarrow> u8 list" where
  "instr_packet pad buf cmd payload = take 16 buf @ cmd_bytes pad cmd @ take (unat (ip_len cmd)) payload"

text \<open>What is handed over for the bytes of a packet.\<close>

definition sent_as :: "undet \<Rightarrow> u8 list \<Rightarrow> instr_output" where
  "sent_as u pkt = \<lparr>po_total_bytes = of_nat (length pkt), po_dontfree = True, po_segs = 1, po_rest = u_pko u, po_data = pkt\<rparr>"

lemma cmd_insert_result:
  assumes "instr_ok s" "length (u_pad u) = 6" "unat iif < IPC_IIF_MAX" "unat (ip_len cmd) \<le> 2016"
  shows "\<exists>buf. ipc_instr_table s ! unat iif = Some buf \<and> hd_ok (unat iif) buf \<and>
    frcore_ipc_cmd_insert u iif cmd (instr_payload s) s = Some (FRE_SUCCESS,
      s\<lparr>ipc_instr_table := (ipc_instr_table s)[unat iif := Some (instr_packet (u_pad u) buf cmd (instr_payload s) @ drop (32 + unat (ip_len cmd)) buf)],
        ipc_sent := ipc_sent s @ [sent_as u (instr_packet (u_pad u) buf cmd (instr_payload s))]\<rparr>)"
proof -
  obtain buf where buf: "ipc_instr_table s ! unat iif = Some buf" "hd_ok (unat iif) buf" "length (ipc_instr_table s) = IPC_IIF_MAX" "length (instr_payload s) = 2048"
    using assms(1,3) by (auto simp: instr_ok_def)
  have len: "length buf = 2048" using buf(2) by (simp add: hd_ok_def)
  let ?b1 = "take 16 buf @ cmd_bytes (u_pad u) cmd @ drop 32 buf"
  have c1: "copy_into buf 16 (cmd_bytes (u_pad u) cmd) 16 = Some ?b1" using len assms(2) by (simp add: copy_into_some)
  have c2: "(if ip_len cmd > 0 then copy_into ?b1 32 (instr_payload s) (unat (ip_len cmd)) else Some ?b1) =
      Some (instr_packet (u_pad u) buf cmd (instr_payload s) @ drop (32 + unat (ip_len cmd)) buf)"
  proof (cases "ip_len cmd > 0")
    case True
    then show ?thesis using len assms(2,4) buf(4) by (simp add: copy_into_some instr_packet_def add.commute)
  next
    case False
    then have "ip_len cmd = 0" by (simp add: word_gt_0)
    then show ?thesis by (simp add: instr_packet_def)
  qed
  have pl: "length (instr_packet (u_pad u) buf cmd (instr_payload s)) = 32 + unat (ip_len cmd)"
    using len assms(2,4) buf(4) by (simp add: instr_packet_def)
  have "frcore_ipc_cmd_insert u iif cmd (instr_payload s) s = Some (FRE_SUCCESS,
      s\<lparr>ipc_instr_table := (ipc_instr_table s)[unat iif := Some (instr_packet (u_pad u) buf cmd (instr_payload s) @ drop (32 + unat (ip_len cmd)) buf)],
        ipc_sent := ipc_sent s @ [sent_as u (instr_packet (u_pad u) buf cmd (instr_payload s))]\<rparr>)"
  proof (cases "ip_len cmd > 0")
    case True
    then show ?thesis using buf(1,3) assms(3) c1 c2 pl
      by (simp add: frcore_ipc_cmd_insert_def arr_get_def arr_set_def sizeof_ipc_instr_hd_def sizeof_ipc_cmd_def frcore_send_instr_packet_def sent_as_def Let_def)
  next
    case False
    then have "ip_len cmd = 0" by (simp add: word_gt_0)
    then show ?thesis using buf(1,3) assms(2,3) c1 len
      by (simp add: frcore_ipc_cmd_insert_def arr_get_def arr_set_def sizeof_ipc_instr_hd_def sizeof_ipc_cmd_def frcore_send_instr_packet_def sent_as_def Let_def instr_packet_def)
  qed
  then show ?thesis using buf(1,2) by blast
qed

lemma hd_ok_packet:
  assumes "hd_ok i buf" "length pad = 6" "length payload = 2048" "unat (ip_len cmd) \<le> 2016"
  shows "hd_ok i (instr_packet pad buf cmd payload @ drop (32 + unat (ip_len cmd)) buf)"
  using assms by (simp add: hd_ok_def instr_packet_def nth_append min_def drop_take)

lemma sample_result:
  fixes c d sip dip
  defines "cfg \<equiv> instr_cfg (co_ipc c)"
  assumes "instr_ok (co_ipc c)" "length (u_pad u) = 6" "unat (d_chassis d) < 4" "unat (ic_ip_len cfg) \<le> 2016" "instr_selects cfg sip dip"
  shows "\<exists>buf s'. hd_ok (unat (dpkt_iif d)) buf \<and> instr_ok s' \<and>
    frcore_ipc_ipv4_instr_sample u d sip dip c = Some (FRCORE_ACT_FREE, c\<lparr>co_ipc := s'\<rparr>) \<and>
    (\<exists>tab. s' = (co_ipc c)\<lparr>ipc_instr_table := tab, ipc_sent := ipc_sent (co_ipc c) @ [sent_as u (instr_packet (u_pad u) buf
       \<lparr>pktid = (if ic_type cfg AND ic_action cfg \<noteq> 0 then 0xffffffffffffffff else dpkt_pktid d), dtype = ucast (ic_type cfg), ip_len = ucast (ic_ip_len cfg)\<rparr>
       (instr_payload (co_ipc c)))]\<rparr>)"
proof -
  let ?cmd = "\<lparr>pktid = (if ic_type cfg AND ic_action cfg \<noteq> 0 then 0xffffffffffffffff else dpkt_pktid d), dtype = ucast (ic_type cfg), ip_len = ucast (ic_ip_len cfg)\<rparr>"
  have iif: "unat (dpkt_iif d) < IPC_IIF_MAX" using assms(4) iif_in_table by simp
  have "unat (ip_len ?cmd) \<le> 2016" using assms(5) by (simp add: unat_ucast_mod)
  then obtain buf where buf: "hd_ok (unat (dpkt_iif d)) buf"
      "frcore_ipc_cmd_insert u (dpkt_iif d) ?cmd (instr_payload (co_ipc c)) (co_ipc c) = Some (FRE_SUCCESS,
        (co_ipc c)\<lparr>ipc_instr_table := (ipc_instr_table (co_ipc c))[unat (dpkt_iif d) := Some (instr_packet (u_pad u) buf ?cmd (instr_payload (co_ipc c)) @ drop (32 + unat (ip_len ?cmd)) buf)],
        ipc_sent := ipc_sent (co_ipc c) @ [sent_as u (instr_packet (u_pad u) buf ?cmd (instr_payload (co_ipc c)))]\<rparr>)"
      "hd_ok (unat (dpkt_iif d)) (instr_packet (u_pad u) buf ?cmd (instr_payload (co_ipc c)) @ drop (32 + unat (ip_len ?cmd)) buf)"
    using cmd_insert_result [OF assms(2,3) iif, of ?cmd] hd_ok_packet [of "unat (dpkt_iif d)" _ "u_pad u" "instr_payload (co_ipc c)" ?cmd] assms(2,3)
    unfolding instr_ok_def by blast
  let ?s = "(co_ipc c)\<lparr>ipc_instr_table := (ipc_instr_table (co_ipc c))[unat (dpkt_iif d) := Some (instr_packet (u_pad u) buf ?cmd (instr_payload (co_ipc c)) @ drop (32 + unat (ip_len ?cmd)) buf)],
        ipc_sent := ipc_sent (co_ipc c) @ [sent_as u (instr_packet (u_pad u) buf ?cmd (instr_payload (co_ipc c)))]\<rparr>"
  have "instr_ok ?s" using assms(2) buf(3) iif unfolding instr_ok_def by (auto simp: nth_list_update)
  moreover have "frcore_ipc_ipv4_instr_sample u d sip dip c = Some (FRCORE_ACT_FREE, c\<lparr>co_ipc := ?s\<rparr>)"
    using assms(6) buf(2) unfolding frcore_ipc_ipv4_instr_sample_def Let_def cfg_def by simp
  ultimately show ?thesis using buf(1) by blast
qed

text \<open>
  C34. Answering a sampled packet leaves its memory exactly in two cases. When the table has been set up and the length has been
  accepted by the command, the function that answers a packet faults exactly when the packet is selected and its chassis is four or
  more, so that its interface number lies outside the table, or the configured length is more than 2016, so that header, command and
  payload do not fit in the buffer of 2048 bytes.
\<close>

theorem sampling_faults_iff:
  assumes "instr_ok (co_ipc c)" "length (u_pad u) = 6"
  shows "frcore_ipc_ipv4_instr_sample u d sip dip c = None \<longleftrightarrow>
    instr_selects (instr_cfg (co_ipc c)) sip dip \<and> (4 \<le> unat (d_chassis d) \<or> 2016 < unat (ic_ip_len (instr_cfg (co_ipc c))))"
proof (cases "instr_selects (instr_cfg (co_ipc c)) sip dip")
  case False
  then show ?thesis by (simp add: frcore_ipc_ipv4_instr_sample_def)
next
  case sel: True
  have ins: "frcore_ipc_cmd_insert u (dpkt_iif d) cmd (instr_payload (co_ipc c)) (co_ipc c) = None"
    if bad: "4 \<le> unat (d_chassis d) \<or> 2016 < unat (ip_len cmd)" for cmd
  proof (cases "4 \<le> unat (d_chassis d)")
    case True
    then have "\<not> unat (dpkt_iif d) < length (ipc_instr_table (co_ipc c))" using iif_in_table [of d] assms(1) by (simp add: instr_ok_def)
    then show ?thesis by (simp add: frcore_ipc_cmd_insert_def arr_get_def)
  next
    case False
    then have iif: "unat (dpkt_iif d) < IPC_IIF_MAX" using iif_in_table by simp
    then obtain buf where buf: "ipc_instr_table (co_ipc c) ! unat (dpkt_iif d) = Some buf" "length buf = 2048" "length (ipc_instr_table (co_ipc c)) = IPC_IIF_MAX"
      using assms(1) by (auto simp: instr_ok_def hd_ok_def)
    have n: "2016 < unat (ip_len cmd)" "ip_len cmd > 0" using bad False by (auto simp: word_gt_0)
    have "copy_into (take 16 buf @ cmd_bytes (u_pad u) cmd @ drop 32 buf) 32 (instr_payload (co_ipc c)) (unat (ip_len cmd)) = None"
      using n(1) buf(2) assms(2) by (simp add: copy_into_def)
    then show ?thesis using iif buf n(2) assms(2)
      by (simp add: frcore_ipc_cmd_insert_def arr_get_def sizeof_ipc_instr_hd_def sizeof_ipc_cmd_def copy_into_def [of buf] Let_def)
  qed
  have "unat (ucast (ic_ip_len (instr_cfg (co_ipc c))) :: 12 word) = unat (ic_ip_len (instr_cfg (co_ipc c)))"
    using assms(1) by (simp add: instr_ok_def unat_ucast_mod c_consts word_le_nat_alt)
  then show ?thesis
    using sel ins sample_result [OF assms, of d sip dip]
    by (cases "4 \<le> unat (d_chassis d) \<or> 2016 < unat (ic_ip_len (instr_cfg (co_ipc c)))") (auto simp: frcore_ipc_ipv4_instr_sample_def Let_def)
qed


section \<open>Handling a packet\<close>

definition vlan_ok :: "vlan_state \<Rightarrow> bool" where
  "vlan_ok v \<longleftrightarrow> length (vlan_id_stat v) = stat_vlan_id_max \<and> vlan_id_num v \<noteq> 0 \<and> unat (vlan_id_start v) + unat (vlan_id_num v) \<le> 4096 \<and>
     length (hash_sip6_mask (vlan_masks v)) = 16 \<and> length (hash_dip6_mask (vlan_masks v)) = 16"

definition core_ok :: "core \<Rightarrow> bool" where
  "core_ok c \<longleftrightarrow> vlan_ok (co_vlan c) \<and> instr_ok (co_ipc c) \<and> unat (ic_ip_len (instr_cfg (co_ipc c))) \<le> 2016"

text \<open>The padding has six bytes, and the call of \<^verbatim>\<open>printf\<close> survives the protocol number of the frame.\<close>

definition undet_ok :: "undet \<Rightarrow> cvmx_work \<Rightarrow> bool" where
  "undet_ok u work \<longleftrightarrow> length (u_pad u) = 6 \<and> (\<forall>protocol p. UNPACK_U16 (drop 12 (ether_ptr work)) = Some (protocol, p) \<longrightarrow> u_printf u protocol)"

text \<open>The frame reaches behind its headers, and the chassis in its seventh byte is below four.\<close>

definition frame_ok :: "cvmx_work \<Rightarrow> bool" where
  "frame_ok work \<longleftrightarrow> 42 \<le> length (ether_ptr work) \<and> 40 \<le> length (ip_ptr work) \<and> unat (ether_ptr work ! 6) < 0x40"

text \<open>What the handling behind the checks leaves alone.\<close>

definition order_stats :: "pkt_stat list" where
  "order_stats = [stat_ipc_smac_ordered, stat_ipc_smac_disorder, stat_ipc_pktid_ordered, stat_ipc_pktid_disorder, stat_ipc_pktid_repeat]"

definition kept :: "core \<Rightarrow> core \<Rightarrow> bool" where
  "kept c c' \<longleftrightarrow> co_ports c' = co_ports c \<and> co_freed c' = co_freed c \<and> co_pko c' = co_pko c \<and> misc (co_ipc c') = misc (co_ipc c) \<and>
     instr_cfg (co_ipc c') = instr_cfg (co_ipc c) \<and> cur_smac (co_ipc c') = cur_smac (co_ipc c) \<and> cur_pktid (co_ipc c') = cur_pktid (co_ipc c) \<and>
     list_all (\<lambda>s. co_stat c' s = co_stat c s) order_stats"

lemma kept_refl [simp]: "kept c c"
  by (simp add: kept_def list_all_iff)

lemma kept_trans: "kept a b \<Longrightarrow> kept b c \<Longrightarrow> kept a c"
  by (auto simp: kept_def list_all_iff)

lemma kept_vlan [simp]: "kept c (c\<lparr>co_vlan := v\<rparr>)"
  by (simp add: kept_def list_all_iff)

lemma kept_stat [simp]: "s \<notin> set order_stats \<Longrightarrow> kept c (FRCORE_STAT_ADD s v c)"
  by (auto simp: kept_def FRCORE_STAT_ADD_def list_all_iff)

lemma core_ok_stat [simp]: "core_ok (FRCORE_STAT_ADD s v c) = core_ok c"
  by (simp add: core_ok_def FRCORE_STAT_ADD_def)

lemma stat_add_sel [simp]:
  "co_ports (FRCORE_STAT_ADD s v c) = co_ports c" "co_ipc (FRCORE_STAT_ADD s v c) = co_ipc c" "co_vlan (FRCORE_STAT_ADD s v c) = co_vlan c"
  "co_freed (FRCORE_STAT_ADD s v c) = co_freed c" "co_pko (FRCORE_STAT_ADD s v c) = co_pko c"
  "co_mode0 (FRCORE_STAT_ADD s v c) = co_mode0 c" "co_mode1 (FRCORE_STAT_ADD s v c) = co_mode1 c"
  "co_stat (FRCORE_STAT_ADD s v c) t = co_stat c t + (if t = s then v else 0)"
  by (simp_all add: FRCORE_STAT_ADD_def)

lemma count_vlan_total:
  assumes "vlan_ok v"
  shows "\<exists>v'. count_vlan e vlan_id port v = Some v' \<and> vlan_ok v'"
proof -
  have inc: "\<exists>v'. FRCORE_PORT_VLAN_STAT_INC port cnt v = Some v' \<and> vlan_ok v'" if "vlan_ok v" "cnt < 260" for cnt v
    using that by (simp add: port_stat_inc vlan_ok_def bump_def)
  have "unat (w :: u8) < 256" for w by (rule unat_u8)
  then have "xe0_stat_vlan_id_0 + unat (ucast (vlan_id - vlan_id_start v) :: u8) < 260" by (simp add: c_consts)
  from inc [OF assms this] obtain v1 where v1: "FRCORE_PORT_VLAN_STAT_INC port (xe0_stat_vlan_id_0 + unat (ucast (vlan_id - vlan_id_start v) :: u8)) v = Some v1" "vlan_ok v1" by blast
  have "\<exists>v'. FRCORE_PORT_VLAN_STAT_INC port xe0_stat_vlan_id_total v1 = Some v' \<and> vlan_ok v'" "\<exists>v'. FRCORE_PORT_VLAN_STAT_INC port xe0_stat_vlan_id_error v = Some v' \<and> vlan_ok v'"
    using inc v1(2) assms by (simp_all add: c_consts)
  then show ?thesis using v1(1) by (auto simp: count_vlan_def stat_vlan_check_def)
qed

lemma vlan_checks_total:
  assumes "vlan_ok v" "40 \<le> length ip" "16 \<le> length eth"
  shows "\<exists>v'. frcore_vlan_check_v4 iv eth ip port v = Some (FRCORE_ACT_FORWARD, v') \<and> vlan_ok v'"
    "\<exists>v'. frcore_vlan_check_v6 iv eth ip port v = Some (FRCORE_ACT_FORWARD, v') \<and> vlan_ok v'"
proof -
  obtain sip dip tag where u: "UP32 ip 12 = Some sip" "UP32 ip 16 = Some dip" "UP16 eth 14 = Some tag"
    using UP_Some(2) [of 12 ip] UP_Some(2) [of 16 ip] UP_Some(1) [of 14 eth] assms(2,3) by auto
  have n: "(ucast (vlan_id_num v) :: u32) \<noteq> 0" "unat (ucast (vlan_id_start v) :: u32) + unat (ucast (vlan_id_num v) :: u32) \<le> 4096"
    using assms(1) by (simp_all add: vlan_ok_def unat_eq_0 [symmetric] del: unat_eq_0)
  obtain id4 where "ip4_calc_vlan iv (vlan_masks v) \<lparr>sip_data = sip, dip_data = dip\<rparr> (vlan_check_hash_type v) (ucast (vlan_id_num v)) (ucast (vlan_id_start v)) = Some id4"
    using v4_range [OF n] by blast
  then show "\<exists>v'. frcore_vlan_check_v4 iv eth ip port v = Some (FRCORE_ACT_FORWARD, v') \<and> vlan_ok v'"
    using u count_vlan_total [OF assms(1), of "id4 = ucast (tag AND 0xfff)" "tag AND 0xfff" port] by (auto simp: frcore_vlan_check_v4_def Let_def)
  obtain id6 where "ip6_calc_vlan iv (vlan_masks v) \<lparr>sip6_data = take 16 (drop 8 ip), dip6_data = take 16 (drop 24 ip)\<rparr> (vlan_check_hash_type v) (ucast (vlan_id_num v)) (ucast (vlan_id_start v)) = Some id6"
    using v6_range [OF n, of "\<lparr>sip6_data = take 16 (drop 8 ip), dip6_data = take 16 (drop 24 ip)\<rparr>" "vlan_masks v" iv "vlan_check_hash_type v"] assms(1,2) by (auto simp: vlan_ok_def)
  then show "\<exists>v'. frcore_vlan_check_v6 iv eth ip port v = Some (FRCORE_ACT_FORWARD, v') \<and> vlan_ok v'"
    using u assms(2) count_vlan_total [OF assms(1), of "(ucast id6 :: u16) = tag AND 0xfff" "tag AND 0xfff" port] by (auto simp: frcore_vlan_check_v6_def Let_def)
qed

text \<open>The result of a handler that neither faults nor disturbs the checks.\<close>

definition handled :: "core \<Rightarrow> (int \<times> core) option \<Rightarrow> bool" where
  "handled c r \<longleftrightarrow> (\<exists>rv c'. r = Some (rv, c') \<and> (rv = FRCORE_ACT_DROP \<or> rv = FRCORE_ACT_FREE) \<and> core_ok c' \<and> kept c c')"

lemma handled_weaken: "handled c1 r \<Longrightarrow> kept c c1 \<Longrightarrow> handled c r"
  unfolding handled_def using kept_trans by blast

lemma handled_drop: "core_ok c1 \<Longrightarrow> kept c c1 \<Longrightarrow> s \<notin> set order_stats \<Longrightarrow> handled c (FRCORE_DROP s c1)"
  unfolding handled_def FRCORE_DROP_def using kept_trans kept_stat by fastforce

lemma handled_free: "core_ok c \<Longrightarrow> handled c (Some (FRCORE_ACT_FREE, c))"
  by (simp add: handled_def)

lemma unpack_some:
  "n + 2 \<le> length p \<Longrightarrow> \<exists>v. UNPACK_U16 (drop n p) = Some (v, drop (n + 2) p)" "n + 4 \<le> length p \<Longrightarrow> \<exists>v. UNPACK_U32 (drop n p) = Some (v, drop (n + 4) p)"
proof -
  have "2 \<le> length q \<Longrightarrow> \<exists>v. UNPACK_U16 q = Some (v, drop 2 q)" "4 \<le> length q \<Longrightarrow> \<exists>v. UNPACK_U32 q = Some (v, drop 4 q)" for q
    by (auto simp: UNPACK_U16_def UNPACK_U32_def numeral_eq_Suc Suc_le_length_iff)
  from this [of "drop n p"] show "n + 2 \<le> length p \<Longrightarrow> \<exists>v. UNPACK_U16 (drop n p) = Some (v, drop (n + 2) p)"
      "n + 4 \<le> length p \<Longrightarrow> \<exists>v. UNPACK_U32 (drop n p) = Some (v, drop (n + 4) p)"
    by (simp_all add: add.commute)
qed

lemma sample_handled:
  assumes "core_ok c" "length (u_pad u) = 6" "unat (d_chassis d) < 4"
  shows "handled c (frcore_ipc_ipv4_instr_sample u d sip dip c)"
proof (cases "instr_selects (instr_cfg (co_ipc c)) sip dip")
  case False
  then have "frcore_ipc_ipv4_instr_sample u d sip dip c = Some (FRCORE_ACT_FREE, c)" by (simp add: frcore_ipc_ipv4_instr_sample_def)
  then show ?thesis using handled_free [OF assms(1)] by simp
next
  case True
  obtain s' tab sent where "instr_ok s'" "frcore_ipc_ipv4_instr_sample u d sip dip c = Some (FRCORE_ACT_FREE, c\<lparr>co_ipc := s'\<rparr>)"
      "s' = (co_ipc c)\<lparr>ipc_instr_table := tab, ipc_sent := sent\<rparr>"
    using sample_result [OF _ assms(2,3) _ True] assms(1) unfolding core_ok_def by blast
  then show ?thesis using assms(1) by (simp add: handled_def core_ok_def kept_def list_all_iff)
qed

lemma ipv4_handled:
  assumes "core_ok c" "length (u_pad u) = 6" "unat (d_chassis d) < 4" "20 \<le> length p"
  shows "handled c (frcore_ipc_ipv4_process u d p c)"
proof -
  obtain w0 w1 w2 w3 w4 where "UNPACK_U32 p = Some (w0, drop 4 p)" "UNPACK_U32 (drop 4 p) = Some (w1, drop 8 p)" "UNPACK_U32 (drop 8 p) = Some (w2, drop 12 p)"
      "UNPACK_U32 (drop 12 p) = Some (w3, drop 16 p)" "UNPACK_U32 (drop 16 p) = Some (w4, drop 20 p)"
    using unpack_some(2) [of 0 p] unpack_some(2) [of 4 p] unpack_some(2) [of 8 p] unpack_some(2) [of 12 p] unpack_some(2) [of 16 p] assms(4) by auto
  moreover have "handled c (FRCORE_DROP stat_drop_ip_option (FRCORE_STAT_INC stat_ip_option c))"
    by (rule handled_drop) (simp_all add: assms(1) order_stats_def)
  ultimately show ?thesis
    using sample_handled [OF assms(1-3)] handled_free [OF assms(1)] by (simp add: frcore_ipc_ipv4_process_def)
qed

lemma switch_handled:
  assumes "core_ok c" "length (u_pad u) = 6" "unat (d_chassis d) < 4" "20 \<le> length p" "frame_ok work"
  shows "handled c (ipc_switch u vlan_dist protocol p work d c)"
proof -
  have ok: "core_ok (c\<lparr>co_vlan := v\<rparr>)" if "vlan_ok v" for v using assms(1) that by (simp add: core_ok_def)
  have v4: "handled c (frcore_ipc_ipv4_process u d p (c\<lparr>co_vlan := v\<rparr>))" if "vlan_ok v" for v
    using handled_weaken [OF ipv4_handled [OF ok [OF that] assms(2-4)]] by simp
  have v6: "handled c (frcore_ipc_ipv6_process (c\<lparr>co_vlan := v\<rparr>))" if "vlan_ok v" for v
    unfolding frcore_ipc_ipv6_process_def
    by (rule handled_drop) (use ok [OF that] kept_trans [OF kept_vlan kept_stat] in \<open>simp_all add: order_stats_def\<close>)
  have vok: "vlan_ok (co_vlan c)" using assms(1) by (simp add: core_ok_def)
  have len: "40 \<le> length (ip_ptr work)" "16 \<le> length (ether_ptr work)" using assms(5) by (simp_all add: frame_ok_def)
  show ?thesis
    using v4 v6 v4 [OF vok] v6 [OF vok] vok handled_free [OF assms(1)] vlan_checks_total [OF vok len, of True "wq_ipprt work"]
    by (auto simp: ipc_switch_def)
qed

lemma protocol_handled:
  assumes "core_ok c" "undet_ok u work" "unat (d_chassis d) < 4" "frame_ok work"
  shows "handled c (ipc_protocol u work d c)"
proof -
  let ?e = "ether_ptr work"
  have len: "42 \<le> length ?e" using assms(4) by (simp add: frame_ok_def)
  obtain p0 p1 p2 p3 p4 where up: "UNPACK_U16 (drop 12 ?e) = Some (p0, drop 14 ?e)" "UNPACK_U16 (drop 14 ?e) = Some (p1, drop 16 ?e)"
      "UNPACK_U16 (drop 16 ?e) = Some (p2, drop 18 ?e)" "UNPACK_U16 (drop 18 ?e) = Some (p3, drop 20 ?e)" "UNPACK_U16 (drop 20 ?e) = Some (p4, drop 22 ?e)"
    using unpack_some(1) [of 12 "?e"] unpack_some(1) [of 14 "?e"] unpack_some(1) [of 16 "?e"] unpack_some(1) [of 18 "?e"] unpack_some(1) [of 20 "?e"] len by auto
  have undet: "length (u_pad u) = 6" "u_printf u p0" using assms(2) up(1) by (simp_all add: undet_ok_def)
  have k: "kept c (FRCORE_STAT_INC stat_vlan c)" by (rule kept_stat) (simp add: order_stats_def)
  have "handled c (ipc_switch u True protocol p work d (FRCORE_STAT_INC stat_vlan c))" if "20 \<le> length p" for protocol p
    by (rule handled_weaken [OF switch_handled k]) (use assms that undet in simp_all)
  moreover have "handled c (ipc_switch u False protocol p work d c)" if "20 \<le> length p" for protocol p
    by (rule switch_handled [OF assms(1) undet(1) assms(3) that assms(4)])
  ultimately show ?thesis using up len undet(2) by (simp add: ipc_protocol_def Let_def)
qed

text \<open>The frames that pass the checks of the port, and the counters before the checks of the header.\<close>

definition accepted :: "cvmx_work \<Rightarrow> core \<Rightarrow> bool" where
  "accepted work c \<longleftrightarrow> unat (wq_ipprt work) < length (co_ports c) \<and> rx_on (co_ports c ! unat (wq_ipprt work)) \<noteq> 0 \<and> \<not> wq_rcv_error work"

definition rx_counted :: "cvmx_work \<Rightarrow> core \<Rightarrow> core" where
  "rx_counted work c = FRCORE_STAT_ADD stat_rx_bytes (ucast (wq_len work) + 4) (FRCORE_STAT_INC stat_rx_pkts (kinds_of_pkt_len_stat work c))"

lemma kept_len_stat: "core_ok c \<Longrightarrow> kept c (kinds_of_pkt_len_stat work c) \<and> core_ok (kinds_of_pkt_len_stat work c)"
  by (simp add: kinds_of_pkt_len_stat_def Let_def kept_def list_all_iff order_stats_def)

lemma kept_counted: "core_ok c \<Longrightarrow> kept c (rx_counted work c) \<and> core_ok (rx_counted work c)"
  using kept_len_stat [of c work] by (simp add: rx_counted_def kept_def list_all_iff order_stats_def)

lemma kept_exp_check: "core_ok c \<Longrightarrow> kept c (ipc_exp_check d c) \<and> core_ok (ipc_exp_check d c)"
  by (simp add: ipc_exp_check_def order_stats_def)

lemma instr_ok_cur [simp]: "instr_ok (s\<lparr>cur_pktid := p\<rparr>) = instr_ok s" "instr_ok (s\<lparr>cur_smac := m\<rparr>) = instr_ok s"
  by (simp_all add: instr_ok_def)

lemma core_ok_cur [simp]:
  "core_ok (c\<lparr>co_ipc := (co_ipc c)\<lparr>cur_pktid := p\<rparr>\<rparr>) = core_ok c" "core_ok (c\<lparr>co_ipc := (co_ipc c)\<lparr>cur_smac := p\<rparr>\<rparr>) = core_ok c"
  by (simp_all add: core_ok_def)

lemma core_ok_pktid_check: "core_ok c \<Longrightarrow> core_ok (ipc_pktid_check d c)"
  using core_ok_cur(1) [where c = "FRCORE_STAT_INC stat_ipc_pktid_ordered c"] by (simp add: ipc_pktid_check_def Let_def)

lemma smac_check_total:
  assumes "core_ok c" "12 \<le> length eth"
  shows "\<exists>returned c'. ipc_smac_check eth c = Some (returned, c') \<and> core_ok c' \<and> co_freed c' = co_freed c \<and> co_pko c' = co_pko c"
proof -
  obtain h0 l0 h6 l6 where "UP32 eth 0 = Some h0" "UP16 eth 4 = Some l0" "UP32 eth 6 = Some h6" "UP16 eth 10 = Some l6"
    using UP_Some(2) [of 0 eth] UP_Some(1) [of 4 eth] UP_Some(2) [of 6 eth] UP_Some(1) [of 10 eth] assms(2) by auto
  then show ?thesis using assms(1) by (simp add: ipc_smac_check_def mac_word_def Let_def ex_bool_eq)
qed

lemma chassis_of_frame:
  assumes "unpack_dpkt eth = Some d" "12 \<le> length eth" "unat (eth ! 6) < 0x40"
  shows "unat (d_chassis d) < 4"
proof -
  obtain b0 b1 b2 b3 b4 b5 b6 b7 b8 b9 b10 b11 r where eth: "eth = b0 # b1 # b2 # b3 # b4 # b5 # b6 # b7 # b8 # b9 # b10 # b11 # r"
    using head_bytes [OF assms(2)] .
  have "d_chassis d = ucast (drop_bit 4 (b6 AND 0xff AND 0xf0))"
    using assms(1) by (auto simp: eth unpack_dpkt_def UNPACK_U16_def UNPACK_U32_def UNPACK_U8_def and.assoc)
  also have "\<dots> = ucast (drop_bit 4 b6)"
    unfolding mask8 const_masks by (rule bit_word_eqI) (auto simp: bit_simps)
  finally have "unat (d_chassis d) = unat (drop_bit 4 b6) mod 16" by (simp add: unat_ucast_mod)
  moreover have "unat (drop_bit 4 b6) < 4" unfolding unat_drop_bit_eq using assms(3) by (simp add: eth drop_bit_eq_div less_mult_imp_div_less)
  ultimately show ?thesis by simp
qed

lemma process_handled:
  assumes "core_ok c" "undet_ok u work" "frame_ok work" "accepted work c" "ipc_smac_check (ether_ptr work) (rx_counted work c) = Some (False, c1)" "core_ok c1"
  shows "\<exists>d. unpack_dpkt (ether_ptr work) = Some d \<and> handled (ipc_pktid_check d (ipc_exp_check d c1)) (frcore_ipc_work_process u work c)"
proof -
  have len: "12 \<le> length (ether_ptr work)" "unat (ether_ptr work ! 6) < 0x40" using assms(3) by (simp_all add: frame_ok_def)
  obtain d where d: "unpack_dpkt (ether_ptr work) = Some d" using unpack_dpkt_some [OF len(1)] by blast
  have "core_ok (ipc_pktid_check d (ipc_exp_check d c1))" using assms(6) core_ok_pktid_check kept_exp_check by blast
  from protocol_handled [OF this assms(2) chassis_of_frame [OF d len] assms(3)]
  have h: "handled (ipc_pktid_check d (ipc_exp_check d c1)) (ipc_protocol u work d (ipc_pktid_check d (ipc_exp_check d c1)))" .
  have ports: "co_ports (kinds_of_pkt_len_stat work c) = co_ports c" using kept_len_stat [OF assms(1)] by (simp add: kept_def)
  have "frcore_ipc_work_process u work c = ipc_protocol u work d (ipc_pktid_check d (ipc_exp_check d c1))"
    using assms(4,5) d ports by (simp add: frcore_ipc_work_process_def Let_def accepted_def rx_counted_def arr_get_def)
  then show ?thesis using h d by simp
qed

lemma pktid_check_left [simp]: "co_freed (ipc_pktid_check d c) = co_freed c" "co_pko (ipc_pktid_check d c) = co_pko c"
  by (simp_all add: ipc_pktid_check_def Let_def)

lemma process_total:
  assumes "core_ok c" "undet_ok u work" "frame_ok work" "unat (wq_ipprt work) < length (co_ports c)"
  shows "\<exists>rv c'. frcore_ipc_work_process u work c = Some (rv, c') \<and> (rv = FRCORE_ACT_DROP \<or> rv = FRCORE_ACT_FREE) \<and> core_ok c' \<and>
    co_freed c' = co_freed c \<and> co_pko c' = co_pko c"
proof -
  have k: "co_ports (kinds_of_pkt_len_stat work c) = co_ports c" "core_ok (kinds_of_pkt_len_stat work c)"
      "co_freed (kinds_of_pkt_len_stat work c) = co_freed c" "co_pko (kinds_of_pkt_len_stat work c) = co_pko c"
    using kept_len_stat [OF assms(1)] by (auto simp: kept_def)
  show ?thesis
  proof (cases "accepted work c")
    case False
    then show ?thesis using assms(4) k by (auto simp: accepted_def frcore_ipc_work_process_def Let_def arr_get_def FRCORE_DROP_def)
  next
    case True
    have len: "12 \<le> length (ether_ptr work)" using assms(3) by (simp add: frame_ok_def)
    have ct: "core_ok (rx_counted work c)" "co_freed (rx_counted work c) = co_freed c" "co_pko (rx_counted work c) = co_pko c" using kept_counted [OF assms(1)] by (simp_all add: kept_def)
    obtain b c1 where s: "ipc_smac_check (ether_ptr work) (rx_counted work c) = Some (b, c1)" "core_ok c1" "co_freed c1 = co_freed c" "co_pko c1 = co_pko c"
      using smac_check_total [OF ct(1) len] ct(2,3) by auto
    show ?thesis
    proof (cases b)
      case b: True
      then show ?thesis using s True k by (simp add: accepted_def frcore_ipc_work_process_def Let_def arr_get_def rx_counted_def)
    next
      case False
      then have "ipc_smac_check (ether_ptr work) (rx_counted work c) = Some (False, c1)" using s(1) by simp
      from process_handled [OF assms(1-3) True this s(2)] obtain d where
          h: "handled (ipc_pktid_check d (ipc_exp_check d c1)) (frcore_ipc_work_process u work c)" by blast
      have "kept c1 (ipc_exp_check d c1)" using kept_exp_check [OF s(2)] by simp
      then show ?thesis using h s(3,4) unfolding handled_def by (auto simp: kept_def)
    qed
  qed
qed


text \<open>
  Every accepted frame reaches a call of \<^verbatim>\<open>printf\<close> whose format has three conversions and that passes the protocol number alone: where no
  string can be read at that address, the handler faults.
\<close>

theorem wild_printf_faults:
  assumes "core_ok c" "frame_ok work" "accepted work c" "smac_check (misc (co_ipc c)) = 0" "UNPACK_U16 (drop 12 (ether_ptr work)) = Some (protocol, p)" "\<not> u_printf u protocol"
  shows "frcore_ipc_work_process u work c = None"
proof -
  have k: "kept c (rx_counted work c)" "co_ports (kinds_of_pkt_len_stat work c) = co_ports c"
    using kept_counted [OF assms(1)] kept_len_stat [OF assms(1)] by (simp_all add: kept_def)
  then have "ipc_smac_check (ether_ptr work) (rx_counted work c) = Some (False, rx_counted work c)" using assms(4) by (simp add: ipc_smac_check_def kept_def)
  moreover have "12 \<le> length (ether_ptr work)" using assms(2) by (simp add: frame_ok_def)
  then obtain d where "unpack_dpkt (ether_ptr work) = Some d" using unpack_dpkt_some by blast
  ultimately show ?thesis using assms(3,5,6) k(2)
    by (simp add: frcore_ipc_work_process_def Let_def accepted_def rx_counted_def arr_get_def ipc_protocol_def)
qed

section \<open>Sequences of frames\<close>

definition ipc_run :: "(undet \<times> cvmx_work) list \<Rightarrow> core \<Rightarrow> core option" where
  "ipc_run = (\<lambda>ws. for_each ws (\<lambda>(u, work) c. map_option snd (frcore_ipc_work_process u work c)))"

lemma ipc_run_snoc: "ipc_run (ws @ [(u, work)]) c = (case ipc_run ws c of None \<Rightarrow> None | Some c' \<Rightarrow> map_option snd (frcore_ipc_work_process u work c'))"
  unfolding ipc_run_def for_each_append by (auto split: option.split)

definition good_frame :: "core \<Rightarrow> undet \<times> cvmx_work \<Rightarrow> bool" where
  "good_frame c = (\<lambda>(u, work). undet_ok u work \<and> frame_ok work \<and> accepted work c)"

lemma good_frame_ports: "co_ports c' = co_ports c \<Longrightarrow> good_frame c' = good_frame c"
  by (simp add: good_frame_def accepted_def fun_eq_iff)

text \<open>The packet number in a frame.\<close>

definition frame_pktid :: "cvmx_work \<Rightarrow> u64" where
  "frame_pktid work = (case unpack_dpkt (ether_ptr work) of Some d \<Rightarrow> dpkt_pktid d | None \<Rightarrow> 0)"

lemma pktid_check_result:
  assumes "pktid_check (misc (co_ipc c)) \<noteq> 0"
  shows "cur_pktid (co_ipc (ipc_pktid_check d c)) = max (cur_pktid (co_ipc c)) (dpkt_pktid d)"
    "co_stat (ipc_pktid_check d c) t = co_stat c t +
       (if t = stat_ipc_pktid_ordered \<and> cur_pktid (co_ipc c) < dpkt_pktid d \<or> t = stat_ipc_pktid_repeat \<and> dpkt_pktid d = cur_pktid (co_ipc c) \<or>
           t = stat_ipc_pktid_disorder \<and> dpkt_pktid d < cur_pktid (co_ipc c) then 1 else 0)"
    "co_ports (ipc_pktid_check d c) = co_ports c" "misc (co_ipc (ipc_pktid_check d c)) = misc (co_ipc c)" "cur_smac (co_ipc (ipc_pktid_check d c)) = cur_smac (co_ipc c)"
  using assms by (auto simp: ipc_pktid_check_def Let_def FRCORE_STAT_ADD_def max_def word_gt_0 not_less)

lemma pktid_step:
  assumes "core_ok c" "good_frame c (u, work)" "pktid_check (misc (co_ipc c)) \<noteq> 0" "smac_check (misc (co_ipc c)) = 0"
  shows "\<exists>rv c'. frcore_ipc_work_process u work c = Some (rv, c') \<and> core_ok c' \<and> co_ports c' = co_ports c \<and> misc (co_ipc c') = misc (co_ipc c) \<and>
    cur_pktid (co_ipc c') = max (cur_pktid (co_ipc c)) (frame_pktid work) \<and>
    co_stat c' stat_ipc_pktid_ordered = co_stat c stat_ipc_pktid_ordered + (if cur_pktid (co_ipc c) < frame_pktid work then 1 else 0) \<and>
    co_stat c' stat_ipc_pktid_repeat = co_stat c stat_ipc_pktid_repeat + (if frame_pktid work = cur_pktid (co_ipc c) then 1 else 0) \<and>
    co_stat c' stat_ipc_pktid_disorder = co_stat c stat_ipc_pktid_disorder + (if frame_pktid work < cur_pktid (co_ipc c) then 1 else 0)"
proof -
  have g: "undet_ok u work" "frame_ok work" "accepted work c" using assms(2) by (simp_all add: good_frame_def)
  have k: "kept c (rx_counted work c)" "core_ok (rx_counted work c)" using kept_counted [OF assms(1)] by simp_all
  then have "ipc_smac_check (ether_ptr work) (rx_counted work c) = Some (False, rx_counted work c)" using assms(4) by (simp add: ipc_smac_check_def kept_def)
  from process_handled [OF assms(1) g this k(2)] obtain d where d: "unpack_dpkt (ether_ptr work) = Some d"
      "handled (ipc_pktid_check d (ipc_exp_check d (rx_counted work c))) (frcore_ipc_work_process u work c)" by blast
  have k2: "kept c (ipc_exp_check d (rx_counted work c))" using kept_trans [OF k(1)] kept_exp_check [OF k(2)] by blast
  then have "pktid_check (misc (co_ipc (ipc_exp_check d (rx_counted work c)))) \<noteq> 0" using assms(3) by (simp add: kept_def)
  note r = pktid_check_result [OF this, of d]
  from d(2) obtain rv c' where c': "frcore_ipc_work_process u work c = Some (rv, c')" "core_ok c'" "kept (ipc_pktid_check d (ipc_exp_check d (rx_counted work c))) c'"
    unfolding handled_def by blast
  have "frame_pktid work = dpkt_pktid d" by (simp add: frame_pktid_def d(1))
  then show ?thesis using c' k2 r by (simp add: kept_def order_stats_def)
qed

text \<open>How many numbers of a sequence stand in the relation \<open>R\<close> to the largest number before them, when the sequence starts from \<open>cur\<close>.\<close>

definition tally :: "(u64 \<Rightarrow> u64 \<Rightarrow> bool) \<Rightarrow> u64 list \<Rightarrow> u64 \<Rightarrow> nat" where
  "tally R ids cur = length (filter (\<lambda>i. R (ids ! i) (fold max (take i ids) cur)) [0..<length ids])"

lemma tally_snoc: "tally R (ids @ [x]) cur = tally R ids cur + (if R x (fold max ids cur) then 1 else 0)"
proof -
  have "filter (\<lambda>i. R ((ids @ [x]) ! i) (fold max (take i (ids @ [x])) cur)) [0..<length ids] = filter (\<lambda>i. R (ids ! i) (fold max (take i ids) cur)) [0..<length ids]"
    by (rule filter_cong) (simp_all add: nth_append)
  then show ?thesis by (simp add: tally_def)
qed

definition frame_ids :: "(undet \<times> cvmx_work) list \<Rightarrow> u64 list" where
  "frame_ids ws = map (\<lambda>w. frame_pktid (snd w)) ws"

definition pktid_counted :: "u64 list \<Rightarrow> core \<Rightarrow> core \<Rightarrow> bool" where
  "pktid_counted ids c c' \<longleftrightarrow> cur_pktid (co_ipc c') = fold max ids (cur_pktid (co_ipc c)) \<and>
     co_stat c' stat_ipc_pktid_ordered = co_stat c stat_ipc_pktid_ordered + of_nat (tally (\<lambda>x best. best < x) ids (cur_pktid (co_ipc c))) \<and>
     co_stat c' stat_ipc_pktid_repeat = co_stat c stat_ipc_pktid_repeat + of_nat (tally (\<lambda>x best. x = best) ids (cur_pktid (co_ipc c))) \<and>
     co_stat c' stat_ipc_pktid_disorder = co_stat c stat_ipc_pktid_disorder + of_nat (tally (\<lambda>x best. x < best) ids (cur_pktid (co_ipc c)))"

lemma pktid_run:
  assumes "core_ok c" "list_all (good_frame c) ws" "pktid_check (misc (co_ipc c)) \<noteq> 0" "smac_check (misc (co_ipc c)) = 0"
  shows "\<exists>c'. ipc_run ws c = Some c' \<and> core_ok c' \<and> co_ports c' = co_ports c \<and> misc (co_ipc c') = misc (co_ipc c) \<and> pktid_counted (frame_ids ws) c c'"
  using assms(2)
proof (induction ws rule: rev_induct)
  case Nil
  then show ?case using assms(1) by (simp add: ipc_run_def frame_ids_def pktid_counted_def tally_def)
next
  case (snoc pw ws)
  obtain u work where pw: "pw = (u, work)" by fastforce
  obtain c1 where c1: "ipc_run ws c = Some c1" "core_ok c1" "co_ports c1 = co_ports c" "misc (co_ipc c1) = misc (co_ipc c)" "pktid_counted (frame_ids ws) c c1"
    using snoc.IH snoc.prems by auto
  have "good_frame c1 (u, work)" using snoc.prems good_frame_ports [OF c1(3)] by (simp add: pw)
  from pktid_step [OF c1(2) this] obtain rv c2 where c2: "frcore_ipc_work_process u work c1 = Some (rv, c2)" "core_ok c2" "co_ports c2 = co_ports c1" "misc (co_ipc c2) = misc (co_ipc c1)"
      "cur_pktid (co_ipc c2) = max (cur_pktid (co_ipc c1)) (frame_pktid work)"
      "co_stat c2 stat_ipc_pktid_ordered = co_stat c1 stat_ipc_pktid_ordered + (if cur_pktid (co_ipc c1) < frame_pktid work then 1 else 0)"
      "co_stat c2 stat_ipc_pktid_repeat = co_stat c1 stat_ipc_pktid_repeat + (if frame_pktid work = cur_pktid (co_ipc c1) then 1 else 0)"
      "co_stat c2 stat_ipc_pktid_disorder = co_stat c1 stat_ipc_pktid_disorder + (if frame_pktid work < cur_pktid (co_ipc c1) then 1 else 0)"
    using assms(3,4) c1(4) by auto
  have "frame_ids (ws @ [pw]) = frame_ids ws @ [frame_pktid work]" by (simp add: frame_ids_def pw)
  then have "pktid_counted (frame_ids (ws @ [pw])) c c2"
    using c1(5) c2(5-) by (simp add: pktid_counted_def tally_snoc max.commute add.commute add.left_commute)
  moreover have "ipc_run (ws @ [pw]) c = Some c2" using c1(1) c2(1) by (simp add: pw ipc_run_snoc)
  ultimately show ?case using c1(3,4) c2(2,3,4) by auto
qed

text \<open>
  C8. The packet number is the maximum of those seen. For every sequence of accepted frames the check of the packet number keeps
  the largest number (with the check of the packet number on and that of the source address off), counts a frame as ordered when its number is larger than all before it, as repeated when it is equal to the
  largest, and as out of order when it is smaller, and every frame of the sequence is handled.
\<close>

theorem pktid_tracks_maximum:
  assumes "core_ok c" "list_all (good_frame c) ws" "pktid_check (misc (co_ipc c)) \<noteq> 0" "smac_check (misc (co_ipc c)) = 0"
  shows "\<exists>c'. ipc_run ws c = Some c' \<and> cur_pktid (co_ipc c') = fold max (frame_ids ws) (cur_pktid (co_ipc c)) \<and>
    co_stat c' stat_ipc_pktid_ordered = co_stat c stat_ipc_pktid_ordered + of_nat (tally (\<lambda>x best. best < x) (frame_ids ws) (cur_pktid (co_ipc c))) \<and>
    co_stat c' stat_ipc_pktid_repeat = co_stat c stat_ipc_pktid_repeat + of_nat (tally (\<lambda>x best. x = best) (frame_ids ws) (cur_pktid (co_ipc c))) \<and>
    co_stat c' stat_ipc_pktid_disorder = co_stat c stat_ipc_pktid_disorder + of_nat (tally (\<lambda>x best. x < best) (frame_ids ws) (cur_pktid (co_ipc c)))"
  using pktid_run [OF assms] unfolding pktid_counted_def by blast

section \<open>A gap in the source addresses\<close>

lemma smac_gap_step:
  assumes "core_ok c" "good_frame c (u, work)" "pktid_check (misc (co_ipc c)) = 0" "smac_check (misc (co_ipc c)) \<noteq> 0"
    "mac_word (ether_ptr work) 6 = Some m" "m \<noteq> 0" "cur_smac (co_ipc c) \<noteq> 0" "m \<noteq> cur_smac (co_ipc c) + 1"
  shows "\<exists>rv c'. frcore_ipc_work_process u work c = Some (rv, c') \<and> core_ok c' \<and> co_ports c' = co_ports c \<and> misc (co_ipc c') = misc (co_ipc c) \<and>
    cur_smac (co_ipc c') = cur_smac (co_ipc c) \<and> co_stat c' stat_ipc_smac_ordered = co_stat c stat_ipc_smac_ordered \<and>
    co_stat c' stat_ipc_smac_disorder = co_stat c stat_ipc_smac_disorder + 1"
proof -
  have g: "undet_ok u work" "frame_ok work" "accepted work c" using assms(2) by (simp_all add: good_frame_def)
  have k: "kept c (rx_counted work c)" "core_ok (rx_counted work c)" using kept_counted [OF assms(1)] by simp_all
  have "6 \<le> length (ether_ptr work)" using g(2) by (simp add: frame_ok_def)
  then obtain m0 where m0: "mac_word (ether_ptr work) 0 = Some m0"
    using UP_Some(2) [of 0 "ether_ptr work"] UP_Some(1) [of 4 "ether_ptr work"] by (auto simp: mac_word_def)
  let ?c1 = "FRCORE_STAT_INC stat_ipc_smac_disorder (rx_counted work c)"
  have s: "ipc_smac_check (ether_ptr work) (rx_counted work c) = Some (False, ?c1)"
    using assms(4-8) m0 k(1) by (simp add: ipc_smac_check_def kept_def)
  have ok: "core_ok ?c1" using k(2) by simp
  from process_handled [OF assms(1) g s ok] obtain d where d: "handled (ipc_pktid_check d (ipc_exp_check d ?c1)) (frcore_ipc_work_process u work c)" by blast
  have e: "kept ?c1 (ipc_exp_check d ?c1)" using kept_exp_check [OF ok] by simp
  then have "ipc_pktid_check d (ipc_exp_check d ?c1) = ipc_exp_check d ?c1" using assms(3) k(1) by (simp add: ipc_pktid_check_def kept_def)
  with d obtain rv c' where c': "frcore_ipc_work_process u work c = Some (rv, c')" "core_ok c'" "kept (ipc_exp_check d ?c1) c'"
    unfolding handled_def by auto
  have "kept ?c1 c'" using kept_trans [OF e c'(3)] .
  then show ?thesis using c'(1,2) k(1) by (simp add: kept_def order_stats_def)
qed

text \<open>
  One missing source address is never made good. The check of the source address only moves on when a frame carries the
  successor of the address it stands at: once that successor is lost, every later frame with another address is counted as out of
  order, however many arrive in sequence, and the address stays where it is.
\<close>

theorem smac_gap_persists:
  assumes "core_ok c" "list_all (good_frame c) ws" "pktid_check (misc (co_ipc c)) = 0" "smac_check (misc (co_ipc c)) \<noteq> 0" "cur_smac (co_ipc c) \<noteq> 0"
    "list_all (\<lambda>w. mac_word (ether_ptr (snd w)) 6 \<noteq> Some 0 \<and> mac_word (ether_ptr (snd w)) 6 \<noteq> Some (cur_smac (co_ipc c) + 1)) ws"
  shows "\<exists>c'. ipc_run ws c = Some c' \<and> cur_smac (co_ipc c') = cur_smac (co_ipc c) \<and> co_stat c' stat_ipc_smac_ordered = co_stat c stat_ipc_smac_ordered \<and>
    co_stat c' stat_ipc_smac_disorder = co_stat c stat_ipc_smac_disorder + of_nat (length ws)"
proof -
  have "\<exists>c'. ipc_run ws c = Some c' \<and> core_ok c' \<and> co_ports c' = co_ports c \<and> misc (co_ipc c') = misc (co_ipc c) \<and> cur_smac (co_ipc c') = cur_smac (co_ipc c) \<and>
      co_stat c' stat_ipc_smac_ordered = co_stat c stat_ipc_smac_ordered \<and> co_stat c' stat_ipc_smac_disorder = co_stat c stat_ipc_smac_disorder + of_nat (length ws)"
    using assms(2,6)
  proof (induction ws rule: rev_induct)
    case Nil
    then show ?case using assms(1) by (simp add: ipc_run_def)
  next
    case (snoc pw ws)
    obtain u work where pw: "pw = (u, work)" by fastforce
    obtain c1 where c1: "ipc_run ws c = Some c1" "core_ok c1" "co_ports c1 = co_ports c" "misc (co_ipc c1) = misc (co_ipc c)" "cur_smac (co_ipc c1) = cur_smac (co_ipc c)"
        "co_stat c1 stat_ipc_smac_ordered = co_stat c stat_ipc_smac_ordered" "co_stat c1 stat_ipc_smac_disorder = co_stat c stat_ipc_smac_disorder + of_nat (length ws)"
      using snoc.IH snoc.prems by auto
    have gf: "good_frame c1 (u, work)" using snoc.prems good_frame_ports [OF c1(3)] by (simp add: pw)
    then have "12 \<le> length (ether_ptr work)" by (simp add: good_frame_def frame_ok_def)
    then obtain m where m: "mac_word (ether_ptr work) 6 = Some m"
      using UP_Some(2) [of 6 "ether_ptr work"] UP_Some(1) [of 10 "ether_ptr work"] by (auto simp: mac_word_def)
    have "m \<noteq> 0" "m \<noteq> cur_smac (co_ipc c1) + 1" "cur_smac (co_ipc c1) \<noteq> 0" using snoc.prems(2) m c1(5) assms(5) by (simp_all add: pw)
    with smac_gap_step [OF c1(2) gf _ _ m] obtain rv c2 where "frcore_ipc_work_process u work c1 = Some (rv, c2)" "core_ok c2" "co_ports c2 = co_ports c1" "misc (co_ipc c2) = misc (co_ipc c1)"
        "cur_smac (co_ipc c2) = cur_smac (co_ipc c1)" "co_stat c2 stat_ipc_smac_ordered = co_stat c1 stat_ipc_smac_ordered" "co_stat c2 stat_ipc_smac_disorder = co_stat c1 stat_ipc_smac_disorder + 1"
      using assms(3,4) c1(4) by auto
    then show ?case using c1 by (simp add: pw ipc_run_snoc)
  qed
  then show ?thesis by blast
qed

section \<open>An example\<close>

definition demo_misc :: "u8 \<Rightarrow> u8 \<Rightarrow> ipc_misc" where
  "demo_misc sm pk = \<lparr>smac_check = sm, pktid_check = pk, exp_check = 1, invalid_dump = 0, instr_send = 1\<rparr>"

definition demo_head :: ipc_dpkt_hd where
  "demo_head = \<lparr>d_oui = 0, d_pid_l = 7, d_chassis = 1, d_resv = 0, d_ori_vid = 0, d_pid_h = 0, d_slot = 2, d_card = 0, d_ifid = 1\<rparr>"

definition demo_ipc :: "u8 \<Rightarrow> u8 \<Rightarrow> ipc_state" where
  "demo_ipc sm pk = \<lparr>ipc_exp_data = demo_head, ipc_exp_mask = demo_head, cur_smac = 5, cur_pktid = 0, misc = demo_misc sm pk,
     instr_cfg = \<lparr>tx_port = 0, ic_action = 1, ic_type = 2, ic_ip_len = 4, ic_sip_data = 0x0a000001, ic_sip_mask = 0xffffffff, ic_dip_data = 0, ic_dip_mask = 0\<rparr>,
     instr_payload = replicate 2048 0xaa, ipc_instr_table = [], ipc_sent = []\<rparr>"

definition demo_core :: "u8 \<Rightarrow> u8 \<Rightarrow> core" where
  "demo_core sm pk = \<lparr>co_stat = (\<lambda>_. 0), co_ports = [\<lparr>rx_on = 1, total_rcvd = 0, total_bytes = 0, total_fwd = 0, err_pko = 0\<rparr>], co_mode0 = 0, co_mode1 = 0,
     co_vlan = demo_vlan, co_ipc = snd (frcore_ipc_init True (\<lambda>_. Some (replicate 2048 0)) (demo_ipc sm pk)), co_freed = [], co_pko = []\<rparr>"

text \<open>A frame with the packet number \<open>n\<close>, from the chassis 1.\<close>

definition demo_frame :: "u8 \<Rightarrow> u8 list" where
  "demo_frame n = [0x21, 0x45, 0, 0, 0, n, 0x10, 0, 1, 0, 0, 0x11, 8, 0, 0x45, 0, 0, 46, 0, 0, 0, 0, 64, 6, 0, 0, 10, 0, 0, 1, 10, 0, 0, 2] @ replicate 26 0"

definition demo_work :: "u8 \<Rightarrow> cvmx_work" where
  "demo_work n = \<lparr>wq_id = unat n, wq_unused = 0, wq_ipprt = 0, wq_len = 60, wq_bufs = 1, wq_ip_offset = 14, wq_rcv_error = False, wq_not_IP = False, wq_is_v6 = False,
     wq_vlan_valid = False, wq_is_frag = False, wq_tcp_or_udp = True, wq_data = demo_frame n\<rparr>"

definition demo_undet :: undet where "demo_undet = \<lparr>u_pad = replicate 6 0, u_pko = 0, u_printf = \<lambda>_. True\<rparr>"

lemma ipc_init_sel [simp]:
  "misc (snd (frcore_ipc_init got alloc s)) = misc s" "instr_cfg (snd (frcore_ipc_init got alloc s)) = instr_cfg s"
  "instr_payload (snd (frcore_ipc_init got alloc s)) = instr_payload s" "cur_pktid (snd (frcore_ipc_init got alloc s)) = cur_pktid s"
  "cur_smac (snd (frcore_ipc_init got alloc s)) = cur_smac s" "ipc_sent (snd (frcore_ipc_init got alloc s)) = ipc_sent s"
  by (simp_all add: frcore_ipc_init_def frcore_ipc_instr_table_init_def split: prod.split)

lemma demo_core_sel [simp]:
  "misc (co_ipc (demo_core sm pk)) = demo_misc sm pk" "cur_pktid (co_ipc (demo_core sm pk)) = 0" "cur_smac (co_ipc (demo_core sm pk)) = 5"
  "co_stat (demo_core sm pk) t = 0" "length (co_ports (demo_core sm pk)) = 1"
  "instr_cfg (co_ipc (demo_core sm pk)) = instr_cfg (demo_ipc sm pk)" "ipc_sent (co_ipc (demo_core sm pk)) = []"
  "instr_payload (co_ipc (demo_core sm pk)) = replicate 2048 0xaa"
  by (simp_all add: demo_core_def demo_ipc_def)

lemma demo_instr_ok: "instr_ok (co_ipc (demo_core sm pk))"
  using init_instr_ok [of "\<lambda>_. Some (replicate 2048 0)" "demo_ipc sm pk"] by (simp add: demo_core_def demo_ipc_def IPC_IP_LEN_MAX_def)

lemma demo_core_ok: "core_ok (demo_core sm pk)"
  using demo_instr_ok [of sm pk] by (simp add: core_ok_def vlan_ok_def) (simp add: demo_core_def demo_ipc_def demo_vlan_def demo_masks_def)

lemma demo_frame_ok: "frame_ok (demo_work n)" "good_frame (demo_core sm pk) (demo_undet, demo_work n)"
proof -
  show f: "frame_ok (demo_work n)" by (simp add: frame_ok_def demo_work_def ether_ptr_def ip_ptr_def demo_frame_def)
  show "good_frame (demo_core sm pk) (demo_undet, demo_work n)"
    using f by (simp add: good_frame_def accepted_def undet_ok_def demo_undet_def demo_work_def demo_core_def)
qed

lemma demo_unpack: "unpack_dpkt (demo_frame n) = Some \<lparr>d_oui = 0x2145, d_pid_l = ucast n AND 0xff, d_chassis = 1, d_resv = 0, d_ori_vid = 1, d_pid_h = 0, d_slot = 2, d_card = 0, d_ifid = 1\<rparr>"
  by (simp add: demo_frame_def unpack_dpkt_def UNPACK_U16_def UNPACK_U32_def UNPACK_U8_def)

lemma demo_ids: "frame_ids [(demo_undet, demo_work 3), (demo_undet, demo_work 2), (demo_undet, demo_work 3)] = [3, 2, 3]"
  by (simp add: frame_ids_def frame_pktid_def ether_ptr_def demo_work_def demo_unpack dpkt_pktid_def)

lemma demo_smac: "mac_word (ether_ptr (demo_work n)) 6 = Some 0x110000010010"
  by (simp add: mac_word_def ether_ptr_def demo_work_def demo_frame_def UP32_def UP16_def arr_get_def SWAP_8_BYTE_def)

theorem head_check_witness:
  "\<exists>d. unpack_dpkt (demo_frame 7) = Some d \<and>
    ipc_exp_check d (demo_core 0 1\<lparr>co_ipc := snd (frcore_cmd_ipc_exp_set sizeof_ipc_exp \<lparr>ouid = 0x2145, ouim = 0xffff, iifd = 0, iifm = 0, pidd = 0, pidm = 0\<rparr> (demo_ipc 0 1))\<rparr>) =
    FRCORE_STAT_INC stat_ipc_head_valid (demo_core 0 1\<lparr>co_ipc := snd (frcore_cmd_ipc_exp_set sizeof_ipc_exp \<lparr>ouid = 0x2145, ouim = 0xffff, iifd = 0, iifm = 0, pidd = 0, pidm = 0\<rparr> (demo_ipc 0 1))\<rparr>)"
  using head_check_is_masked_compare [of "demo_frame 7" "demo_core 0 1\<lparr>co_ipc := snd (frcore_cmd_ipc_exp_set sizeof_ipc_exp \<lparr>ouid = 0x2145, ouim = 0xffff, iifd = 0, iifm = 0, pidd = 0, pidm = 0\<rparr> (demo_ipc 0 1))\<rparr>"
      "\<lparr>ouid = 0x2145, ouim = 0xffff, iifd = 0, iifm = 0, pidd = 0, pidm = 0\<rparr>" "demo_ipc 0 1"]
  by (simp add: frcore_cmd_ipc_exp_set_def demo_ipc_def demo_misc_def demo_frame_def exp_bytes_def exp_mask_bytes_def PACK_U16_def PACK_U32_def)

theorem sampling_faults_witness:
  "frcore_ipc_ipv4_instr_sample demo_undet (demo_head\<lparr>d_chassis := 4\<rparr>) 0x0a000001 0 (demo_core 0 1) = None"
  using sampling_faults_iff [OF demo_instr_ok [of 0 1], of demo_undet "demo_head\<lparr>d_chassis := 4\<rparr>" "0x0a000001" 0]
  by (simp add: undet_ok_def demo_undet_def demo_head_def demo_ipc_def instr_selects_def)



theorem pktid_tracks_maximum_witness:
  "\<exists>c'. ipc_run [(demo_undet, demo_work 3), (demo_undet, demo_work 2), (demo_undet, demo_work 3)] (demo_core 0 1) = Some c' \<and> cur_pktid (co_ipc c') = 3 \<and>
    co_stat c' stat_ipc_pktid_ordered = 1 \<and> co_stat c' stat_ipc_pktid_repeat = 1 \<and> co_stat c' stat_ipc_pktid_disorder = 1"
  using pktid_tracks_maximum [OF demo_core_ok [of 0 1], of "[(demo_undet, demo_work 3), (demo_undet, demo_work 2), (demo_undet, demo_work 3)]"] demo_frame_ok(2) [of 0 1]
  unfolding demo_ids by (simp add: demo_misc_def tally_def upt_rec)

theorem smac_gap_witness:
  "\<exists>c'. ipc_run [(demo_undet, demo_work 3), (demo_undet, demo_work 2)] (demo_core 1 0) = Some c' \<and> cur_smac (co_ipc c') = 5 \<and>
    co_stat c' stat_ipc_smac_ordered = 0 \<and> co_stat c' stat_ipc_smac_disorder = 2"
  using smac_gap_persists [OF demo_core_ok [of 1 0], of "[(demo_undet, demo_work 3), (demo_undet, demo_work 2)]"] demo_frame_ok(2) [of 1 0]
  by (simp add: demo_misc_def demo_smac)

theorem wild_printf_witness:
  "frcore_ipc_work_process (demo_undet\<lparr>u_printf := \<lambda>_. False\<rparr>) (demo_work 7) (demo_core 0 1) = None"
proof -
  have "UNPACK_U16 (drop 12 (ether_ptr (demo_work 7))) = Some (0x0800, drop 14 (demo_frame 7))" "accepted (demo_work 7) (demo_core 0 1)"
    by (simp_all add: ether_ptr_def demo_work_def demo_frame_def UNPACK_U16_def accepted_def demo_core_def)
  from wild_printf_faults [OF demo_core_ok demo_frame_ok(1) this(2) _ this(1)] show ?thesis by (simp add: demo_misc_def)
qed

end
