(* ===== verification/Pkt.thy ===== *)
theory Pkt
  imports IpcCheck
begin

text \<open>
  The dispatch of work items, \<^verbatim>\<open>frcore/frcore_pkt.c\<close>, with \<^verbatim>\<open>frcore_ip_process\<close> of \<^verbatim>\<open>frcore/frcore_ip.c\<close>, the path to the host
  of \<^verbatim>\<open>frcore/frcore_main.c\<close> and the two commands of \<^verbatim>\<open>frcore/frcore_bmm.c\<close> that steer it, as the switches of
  \<^verbatim>\<open>include/frc_config.h\<close> compile them: the check of tags is in, rules, sessions, channels and timers are out. \<open>FRC_CONFIG_IPC\<close>
  selects the handler of packets; it is a field of the environment, since both handlers are compiled.

  The environment also holds what the program does not determine: the core, the result of the output unit, and what the
  variables hold that are read before they are written.
\<close>

section \<open>The handler of packets without the probe check\<close>

record pkt_env =
  e_core_id :: nat
  e_ipc :: bool
  e_undet :: undet
  e_rv :: int
  e_pko_ok :: bool

definition xe0_stat_rxx_pkts :: nat where [c_consts]: "xe0_stat_rxx_pkts = 0"
definition xe0_stat_rxx_bytes :: nat where [c_consts]: "xe0_stat_rxx_bytes = 1"
definition ETH_P_MPLS_UC :: u16 where [c_consts]: "ETH_P_MPLS_UC = 0x8847"
definition ETH_P_MPLS_MC :: u16 where [c_consts]: "ETH_P_MPLS_MC = 0x8848"
definition ETH_P_PPP_DISC :: u16 where [c_consts]: "ETH_P_PPP_DISC = 0x8863"
definition ETH_P_PPP_SES :: u16 where [c_consts]: "ETH_P_PPP_SES = 0x8864"

definition FRCORE_PORT_VLAN_STAT_ADD :: "u64 \<Rightarrow> nat \<Rightarrow> u64 \<Rightarrow> vlan_state \<Rightarrow> vlan_state option" where
  "FRCORE_PORT_VLAN_STAT_ADD port cnt val st = do {
     let i = (if port = 0 then cnt else cnt + stat_vlan_id_max div 2);
     v \<leftarrow> arr_get (vlan_id_stat st) i;
     s \<leftarrow> arr_set (vlan_id_stat st) i (v + val);
     Some (st\<lparr>vlan_id_stat := s\<rparr>)
   }"

text \<open>The check of the tag at the end of \<^verbatim>\<open>frcore_ip_process\<close>, which overwrites \<^verbatim>\<open>rv\<close>.\<close>

definition ip_vlan_check :: "int \<Rightarrow> cvmx_work \<Rightarrow> core \<Rightarrow> (int \<times> core) option" where
  "ip_vlan_check rv work c =
     (if \<not> wq_vlan_valid work then Some (rv, c)
      else do {
        (rv, v) \<leftarrow> (if \<not> wq_is_v6 work then frcore_vlan_check_v4 True (ether_ptr work) (ip_ptr work) (wq_ipprt work) (co_vlan c)
                    else frcore_vlan_check_v6 True (ether_ptr work) (ip_ptr work) (wq_ipprt work) (co_vlan c));
        Some (rv, c\<lparr>co_vlan := v\<rparr>)
      })"

definition frcore_ip_process :: "pkt_env \<Rightarrow> cvmx_work \<Rightarrow> core \<Rightarrow> (int \<times> core) option" where
  "frcore_ip_process env work c =
     (let c = FRCORE_STAT_INC stat_ip c;
          c = (if wq_is_v6 work then FRCORE_STAT_INC stat_ip_v6 c else FRCORE_STAT_INC stat_ip_v4 c);
          c = (if wq_vlan_valid work then FRCORE_STAT_INC stat_vlan c else c);
          c = (if wq_is_frag work then FRCORE_STAT_INC stat_ip_frag c else c)
      in if \<not> wq_tcp_or_udp work then FRCORE_DROP stat_drop_ip_not_tcp_udp (FRCORE_STAT_INC stat_ip_not_tcp_udp c)
         else if \<not> wq_is_v6 work then do {
           hl \<leftarrow> UP8 (ip_ptr work) 0;
           let header_len = (hl AND 0x0F) * 4;
           let c = (if header_len \<noteq> 20 then FRCORE_STAT_INC stat_ip_option c else c);
           total_len \<leftarrow> UP16 (ip_ptr work) 2;
           proto \<leftarrow> UP8 (ip_ptr work) 9;
           let paylen = total_len - ucast header_len;
           if total_len > 1582 then FRCORE_DROP stat_drop_ip_other (FRCORE_STAT_INC stat_ip_other c)
           else if paylen = 0 then FRCORE_DROP stat_drop_ip_other (FRCORE_STAT_INC stat_ip_other c)
           else if proto = PROTO_TCP then ip_vlan_check FRCORE_ACT_DROP work (FRCORE_STAT_INC stat_tcp c)
           else if proto = PROTO_UDP then ip_vlan_check FRCORE_ACT_DROP work (FRCORE_STAT_INC stat_udp c)
           else FRCORE_DROP stat_drop_ip_other (FRCORE_STAT_INC stat_ip_other c)
         }
         else ip_vlan_check (e_rv env) work c)"

definition frcore_pkt_work_process :: "pkt_env \<Rightarrow> cvmx_work \<Rightarrow> core \<Rightarrow> (int \<times> core) option" where
  "frcore_pkt_work_process env work c = do {
     let c = kinds_of_pkt_len_stat work c;
     port \<leftarrow> arr_get (co_ports c) (unat (wq_ipprt work));
     if rx_on port = 0 then FRCORE_DROP stat_drop_port_off c
     else if wq_rcv_error work then FRCORE_DROP stat_drop_rx_error (FRCORE_STAT_INC stat_rx_errs c)
     else do {
       let c = FRCORE_STAT_ADD stat_rx_bytes (ucast (wq_len work) + 4) (FRCORE_STAT_INC stat_rx_pkts c);
       v \<leftarrow> FRCORE_PORT_VLAN_STAT_INC (wq_ipprt work) xe0_stat_rxx_pkts (co_vlan c);
       v \<leftarrow> FRCORE_PORT_VLAN_STAT_ADD (wq_ipprt work) xe0_stat_rxx_bytes (ucast (wq_len work) + 4) v;
       let c = c\<lparr>co_vlan := v\<rparr>;
       if wq_not_IP work then do {
         let c = FRCORE_STAT_INC stat_not_ip c;
         type \<leftarrow> UP16 (ether_ptr work) 12;
         let c = (if type = ETH_P_MPLS_UC \<or> type = ETH_P_MPLS_MC then FRCORE_STAT_INC stat_mpls c else c);
         let c = (if type = ETH_P_PPP_DISC \<or> type = ETH_P_PPP_SES then FRCORE_STAT_INC stat_pppoe c else c);
         FRCORE_DROP stat_drop_not_ip c
       }
       else do {
         dmac \<leftarrow> mac_word (ether_ptr work) 0;
         smac \<leftarrow> mac_word (ether_ptr work) 6;
         frcore_ip_process env work c
       }
     }
   }"

definition frcore_dat_work_process :: "pkt_env \<Rightarrow> cvmx_work \<Rightarrow> core \<Rightarrow> (int \<times> core) option" where
  "frcore_dat_work_process env work c =
     (if e_ipc env then frcore_ipc_work_process (e_undet env) work c else frcore_pkt_work_process env work c)"

section \<open>The host\<close>

text \<open>The counters of a port, and the two ways in which a work item leaves the program.\<close>

definition upd_port :: "u64 \<Rightarrow> (nic_port \<Rightarrow> nic_port) \<Rightarrow> core \<Rightarrow> core option" where
  "upd_port ipprt f c = do {
     p \<leftarrow> arr_get (co_ports c) (unat ipprt);
     ps \<leftarrow> arr_set (co_ports c) (unat ipprt) (f p);
     Some (c\<lparr>co_ports := ps\<rparr>)
   }"

definition port_rcvd :: "cvmx_work \<Rightarrow> nic_port \<Rightarrow> nic_port" where
  "port_rcvd work p = p\<lparr>total_rcvd := total_rcvd p + 1, total_bytes := total_bytes p + ucast (wq_len work)\<rparr>"

definition free_wqe :: "cvmx_work \<Rightarrow> core \<Rightarrow> core" where
  "free_wqe work c = c\<lparr>co_freed := wq_id work # co_freed c\<rparr>"

definition frcore_forward_packet_to_host :: "bool \<Rightarrow> cvmx_work \<Rightarrow> core \<Rightarrow> core option" where
  "frcore_forward_packet_to_host sent work c = do {
     c \<leftarrow> upd_port (wq_ipprt work) (port_rcvd work) c;
     port \<leftarrow> arr_get (co_ports c) (unat (wq_ipprt work));
     if rx_on port = 0 then Some (free_wqe work c)
     else if sent then upd_port (wq_ipprt work) (\<lambda>p. p\<lparr>total_fwd := total_fwd p + 1\<rparr>) (c\<lparr>co_pko := wq_id work # co_pko c\<rparr>)
     else do {
       c \<leftarrow> upd_port (wq_ipprt work) (\<lambda>p. p\<lparr>err_pko := err_pko p + 1\<rparr>) c;
       Some (free_wqe work c)
     }
   }"

section \<open>The dispatch\<close>

definition FRCORE_WORK_PKT :: u8 where [c_consts]: "FRCORE_WORK_PKT = 0"
definition FRCORE_WORK_SSN_AGE :: u8 where [c_consts]: "FRCORE_WORK_SSN_AGE = 6"

definition frcore_work_free_pkt :: "cvmx_work \<Rightarrow> core \<Rightarrow> core" where
  "frcore_work_free_pkt work c = free_wqe work (FRCORE_STAT_INC stat_work_free c)"

text \<open>The second switch, over the action.\<close>

definition do_action :: "int \<Rightarrow> cvmx_work \<Rightarrow> core \<Rightarrow> core" where
  "do_action rv work c =
     (if rv = FRCORE_ACT_DEBUG then FRCORE_STAT_INC stat_act_debug c
      else if rv = FRCORE_ACT_FREE then frcore_work_free_pkt work (FRCORE_STAT_INC stat_act_free c)
      else if rv = FRCORE_ACT_DROP then frcore_work_free_pkt work (FRCORE_STAT_INC stat_act_drop c)
      else if rv = FRCORE_ACT_FORWARD then frcore_work_free_pkt work (FRCORE_STAT_INC stat_act_forward c)
      else if rv = FRCORE_ACT_DELAY then FRCORE_STAT_INC stat_act_delay c
      else if rv = FRCORE_ACT_UNFREE then FRCORE_STAT_INC stat_act_unfree c
      else frcore_work_free_pkt work (FRCORE_STAT_INC stat_act_unkown c))"

definition frcore_work_process :: "pkt_env \<Rightarrow> cvmx_work \<Rightarrow> core \<Rightarrow> core option" where
  "frcore_work_process env work c =
     (if wq_unused work = FRCORE_WORK_PKT then do {
        c \<leftarrow> upd_port (wq_ipprt work) (port_rcvd work) (FRCORE_STAT_INC (stat_core_wqe (e_core_id env)) c);
        let c = FRCORE_STAT_INC stat_work_data c;
        if wq_ipprt work = 0 then do {
          let c = FRCORE_STAT_INC stat_p0_rx_pkts c;
          if co_mode0 c = 0 then do { (rv, c) \<leftarrow> frcore_dat_work_process env work c; Some (do_action rv work c) }
          else frcore_forward_packet_to_host (e_pko_ok env) work c
        }
        else do {
          let c = FRCORE_STAT_INC stat_p1_rx_pkts c;
          if co_mode1 c = 0 then do { (rv, c) \<leftarrow> frcore_dat_work_process env work c; Some (do_action rv work c) }
          else frcore_forward_packet_to_host (e_pko_ok env) work c
        }
      }
      else if wq_unused work = FRCORE_WORK_SSN_AGE then Some (do_action FRCORE_ACT_UNFREE work c)
      else Some (do_action FRCORE_ACT_DROP work (FRCORE_STAT_INC stat_work_unkown c)))"

section \<open>The commands\<close>

definition frcore_cmd_set_work_mode :: "u8 \<Rightarrow> u8 \<Rightarrow> core \<Rightarrow> int \<times> core" where
  "frcore_cmd_set_work_mode oct mode c =
     (if oct = 0 then (FRE_SUCCESS, c\<lparr>co_mode0 := mode\<rparr>)
      else if oct = 16 then (FRE_SUCCESS, c\<lparr>co_mode1 := mode\<rparr>)
      else (FRE_FAIL, c))"

definition frcore_cmd_enable_port :: "u8 \<Rightarrow> u8 \<Rightarrow> core \<Rightarrow> (int \<times> core) option" where
  "frcore_cmd_enable_port port enable c =
     (if port = 0 \<or> port = 16 then do {
        c \<leftarrow> upd_port (ucast port) (\<lambda>p. p\<lparr>rx_on := ucast enable\<rparr>) c;
        Some (FRE_SUCCESS, c)
      }
      else Some (FRE_FAIL, c))"

section \<open>Every work item leaves once\<close>

definition left_once :: "cvmx_work \<Rightarrow> core \<Rightarrow> core \<Rightarrow> bool" where
  "left_once work c c' \<longleftrightarrow> co_freed c' = wq_id work # co_freed c \<and> co_pko c' = co_pko c \<or> co_freed c' = co_freed c \<and> co_pko c' = wq_id work # co_pko c"

definition not_left :: "core \<Rightarrow> core \<Rightarrow> bool" where
  "not_left c c' \<longleftrightarrow> co_freed c' = co_freed c \<and> co_pko c' = co_pko c"

lemma core_ok_ports [simp]: "core_ok (c\<lparr>co_ports := ps\<rparr>) = core_ok c" "core_ok (c\<lparr>co_freed := f\<rparr>) = core_ok c" "core_ok (c\<lparr>co_pko := f\<rparr>) = core_ok c"
  by (simp_all add: core_ok_def)

lemma upd_port_some: "unat i < length (co_ports c) \<Longrightarrow> upd_port i f c = Some (c\<lparr>co_ports := (co_ports c)[unat i := f (co_ports c ! unat i)]\<rparr>)"
  by (simp add: upd_port_def arr_get_def arr_set_def)

lemma action_leaves:
  "rv \<notin> {FRCORE_ACT_DEBUG, FRCORE_ACT_DELAY, FRCORE_ACT_UNFREE} \<Longrightarrow> left_once work c (do_action rv work c)"
  "rv \<in> {FRCORE_ACT_DEBUG, FRCORE_ACT_DELAY, FRCORE_ACT_UNFREE} \<Longrightarrow> not_left c (do_action rv work c)"
  "core_ok c \<Longrightarrow> core_ok (do_action rv work c)"
  by (auto simp: do_action_def left_once_def not_left_def frcore_work_free_pkt_def free_wqe_def act_defs c_consts)

lemma left_once_cong: "left_once work c1 c' \<Longrightarrow> not_left c c1 \<Longrightarrow> left_once work c c'"
  by (simp add: left_once_def not_left_def)

lemma not_left_trans: "not_left c1 c' \<Longrightarrow> not_left c c1 \<Longrightarrow> not_left c c'"
  by (simp add: not_left_def)

text \<open>
  What the dispatch relies on in a handler of packets: when the handler is ready for a packet it returns, it does not free the
  work item itself, and where \<open>frees\<close> holds, the action it returns makes the dispatch free the item.
\<close>

locale packet_handler =
  fixes handle :: "cvmx_work \<Rightarrow> core \<Rightarrow> (int \<times> core) option"
    and ready :: "cvmx_work \<Rightarrow> core \<Rightarrow> bool"
    and frees :: "cvmx_work \<Rightarrow> core \<Rightarrow> bool"
  assumes returns: "ready work c \<Longrightarrow> \<exists>rv c'. handle work c = Some (rv, c') \<and> not_left c c' \<and>
      (frees work c \<longleftrightarrow> rv \<notin> {FRCORE_ACT_DEBUG, FRCORE_ACT_DELAY, FRCORE_ACT_UNFREE})"
begin

lemma dispatched:
  assumes "ready work c" "not_left c0 c"
  shows "\<exists>rv c'. handle work c = Some (rv, c') \<and>
    (if frees work c then left_once work c0 (do_action rv work c') else not_left c0 (do_action rv work c'))"
proof -
  obtain rv c' where r: "handle work c = Some (rv, c')" "not_left c c'" "frees work c \<longleftrightarrow> rv \<notin> {FRCORE_ACT_DEBUG, FRCORE_ACT_DELAY, FRCORE_ACT_UNFREE}"
    using returns [OF assms(1)] by blast
  have "not_left c0 c'" using not_left_trans [OF r(2) assms(2)] .
  then show ?thesis
    using r(1,3) action_leaves(1) [of rv work c'] action_leaves(2) [of rv c' work] left_once_cong not_left_trans by auto
qed

end

text \<open>The handler with the probe check always returns an action that frees.\<close>

interpretation ipc_handler: packet_handler "frcore_ipc_work_process u"
    "\<lambda>work c. core_ok c \<and> undet_ok u work \<and> frame_ok work \<and> unat (wq_ipprt work) < length (co_ports c)" "\<lambda>_ _. True" for u
proof
  fix work :: cvmx_work and c :: core assume "core_ok c \<and> undet_ok u work \<and> frame_ok work \<and> unat (wq_ipprt work) < length (co_ports c)"
  then show "\<exists>rv c'. frcore_ipc_work_process u work c = Some (rv, c') \<and> not_left c c' \<and> True = (rv \<notin> {FRCORE_ACT_DEBUG, FRCORE_ACT_DELAY, FRCORE_ACT_UNFREE})"
    using process_total [of c u work] by (auto simp: not_left_def act_defs c_consts)
qed

lemma to_host_leaves:
  assumes "unat (wq_ipprt work) < length (co_ports c)"
  shows "\<exists>c'. frcore_forward_packet_to_host sent work c = Some c' \<and> left_once work c c' \<and> core_ok c' = core_ok c \<and>
    total_rcvd (co_ports c' ! unat (wq_ipprt work)) = total_rcvd (co_ports c ! unat (wq_ipprt work)) + 1"
  using assms by (simp add: frcore_forward_packet_to_host_def upd_port_some arr_get_def free_wqe_def left_once_def port_rcvd_def)

text \<open>What a packet work item goes through before its handler.\<close>

definition received :: "pkt_env \<Rightarrow> cvmx_work \<Rightarrow> core \<Rightarrow> core" where
  "received env work c = FRCORE_STAT_INC (if wq_ipprt work = 0 then stat_p0_rx_pkts else stat_p1_rx_pkts) (FRCORE_STAT_INC stat_work_data
     ((FRCORE_STAT_INC (stat_core_wqe (e_core_id env)) c)\<lparr>co_ports := (co_ports c)[unat (wq_ipprt work) := port_rcvd work (co_ports c ! unat (wq_ipprt work))]\<rparr>))"

lemma received_sel [simp]: "core_ok (received env work c) = core_ok c" "not_left c (received env work c)" "co_vlan (received env work c) = co_vlan c"
  "length (co_ports (received env work c)) = length (co_ports c)" "co_mode0 (received env work c) = co_mode0 c" "co_mode1 (received env work c) = co_mode1 c"
  by (simp_all add: received_def not_left_def)

lemma work_process_pkt:
  assumes "wq_unused work = FRCORE_WORK_PKT" "unat (wq_ipprt work) < length (co_ports c)"
  shows "frcore_work_process env work c =
    (if (if wq_ipprt work = 0 then co_mode0 c else co_mode1 c) = 0
     then map_option (\<lambda>(rv, c). do_action rv work c) (frcore_dat_work_process env work (received env work c))
     else frcore_forward_packet_to_host (e_pko_ok env) work (received env work c))"
proof -
  have "map_option (\<lambda>(rv, c). do_action rv work c) r = r \<bind> (\<lambda>(rv, c). Some (do_action rv work c))" for r by (cases r) auto
  then show ?thesis using assms upd_port_some [of "wq_ipprt work" "FRCORE_STAT_INC (stat_core_wqe (e_core_id env)) c"]
    by (simp add: frcore_work_process_def received_def Let_def)
qed


text \<open>
  A packet for the host is counted twice. When a port works for the host, the dispatch and the function that forwards the packet
  both count it, so the number of packets received on the port grows by two.
\<close>

theorem host_packet_counted_twice:
  assumes "wq_unused work = FRCORE_WORK_PKT" "unat (wq_ipprt work) < length (co_ports c)" "(if wq_ipprt work = 0 then co_mode0 c else co_mode1 c) \<noteq> 0"
  shows "\<exists>c'. frcore_work_process env work c = Some c' \<and>
    total_rcvd (co_ports c' ! unat (wq_ipprt work)) = total_rcvd (co_ports c ! unat (wq_ipprt work)) + 2"
proof -
  have "total_rcvd (co_ports (received env work c) ! unat (wq_ipprt work)) = total_rcvd (co_ports c ! unat (wq_ipprt work)) + 1"
    using assms(2) by (simp add: received_def port_rcvd_def)
  then show ?thesis using to_host_leaves [of work "received env work c" "e_pko_ok env"] assms(2,3)
    unfolding work_process_pkt [OF assms(1,2)] by auto
qed

section \<open>The action that is never set\<close>

text \<open>An accepted IPv6 packet with a TCP or UDP header and without a tag: no branch of \<^verbatim>\<open>frcore_ip_process\<close> assigns \<^verbatim>\<open>rv\<close>.\<close>

definition action_unset :: "cvmx_work \<Rightarrow> core \<Rightarrow> bool" where
  "action_unset work c \<longleftrightarrow> accepted work c \<and> \<not> wq_not_IP work \<and> wq_is_v6 work \<and> wq_tcp_or_udp work \<and> \<not> wq_vlan_valid work"

text \<open>The result of a handler that does not free and whose action, unless it is not set, makes the dispatch free the item.\<close>

definition settled :: "bool \<Rightarrow> pkt_env \<Rightarrow> core \<Rightarrow> (int \<times> core) option \<Rightarrow> bool" where
  "settled unset env c r \<longleftrightarrow> (\<exists>rv c'. r = Some (rv, c') \<and> not_left c c' \<and> (if unset then rv = e_rv env else rv = FRCORE_ACT_DROP \<or> rv = FRCORE_ACT_FORWARD))"

lemma settled_drop: "not_left c c1 \<Longrightarrow> settled False env c (FRCORE_DROP s c1)"
  by (simp add: settled_def FRCORE_DROP_def not_left_def)

lemma not_left_simps [simp]: "not_left c c" "not_left c (FRCORE_STAT_ADD s v c1) = not_left c c1" "not_left c (c1\<lparr>co_vlan := v'\<rparr>) = not_left c c1"
  by (simp_all add: not_left_def)

lemma ip_vlan_settled:
  assumes "vlan_ok (co_vlan c1)" "40 \<le> length (ip_ptr work)" "16 \<le> length (ether_ptr work)" "not_left c c1"
    "if wq_vlan_valid work then \<not> unset else if unset then rv = e_rv env else rv = FRCORE_ACT_DROP"
  shows "settled unset env c (ip_vlan_check rv work c1)"
  using vlan_checks_total [OF assms(1-3), of True "wq_ipprt work"] assms(4,5) by (auto simp: ip_vlan_check_def settled_def split: if_splits)

lemma ip_process_settled:
  assumes "vlan_ok (co_vlan c1)" "40 \<le> length (ip_ptr work)" "16 \<le> length (ether_ptr work)" "not_left c c1"
  shows "settled (wq_is_v6 work \<and> wq_tcp_or_udp work \<and> \<not> wq_vlan_valid work) env c (frcore_ip_process env work c1)"
proof -
  obtain hl total_len proto where u: "UP8 (ip_ptr work) 0 = Some hl" "UP16 (ip_ptr work) 2 = Some total_len" "UP8 (ip_ptr work) 9 = Some proto"
    using UP_Some(1) [of 2 "ip_ptr work"] assms(2) by (cases "ip_ptr work") (auto simp: UP8_def arr_get_def)
  have drop: "settled False env c (FRCORE_DROP s c2)" if "not_left c c2" for s c2 using settled_drop [OF that] .
  have tail: "settled unset env c (ip_vlan_check rv work c2)"
    if "co_vlan c2 = co_vlan c1" "not_left c c2" "if wq_vlan_valid work then \<not> unset else if unset then rv = e_rv env else rv = FRCORE_ACT_DROP" for unset rv c2
    using ip_vlan_settled [of c2 work c unset rv env] assms(1-3) that by simp
  show ?thesis
    using assms(4) by (simp add: frcore_ip_process_def Let_def u drop tail)
qed

lemma pkt_process_settled:
  assumes "vlan_ok (co_vlan c)" "40 \<le> length (ip_ptr work)" "16 \<le> length (ether_ptr work)" "unat (wq_ipprt work) < length (co_ports c)"
  shows "settled (action_unset work c) env c (frcore_pkt_work_process env work c)"
proof -
  let ?k = "kinds_of_pkt_len_stat work c"
  have k: "co_ports ?k = co_ports c" "not_left c ?k" "co_vlan ?k = co_vlan c" by (simp_all add: kinds_of_pkt_len_stat_def Let_def)
  obtain t m0 m6 where u: "UP16 (ether_ptr work) 12 = Some t" "mac_word (ether_ptr work) 0 = Some m0" "mac_word (ether_ptr work) 6 = Some m6"
    using UP_Some(1) [of 12 "ether_ptr work"] UP_Some(2) [of 0 "ether_ptr work"] UP_Some(1) [of 4 "ether_ptr work"] UP_Some(2) [of 6 "ether_ptr work"] UP_Some(1) [of 10 "ether_ptr work"] assms(3)
    by (auto simp: mac_word_def)
  have vl: "length (vlan_id_stat (co_vlan c)) = stat_vlan_id_max" using assms(1) by (simp add: vlan_ok_def)
  obtain v where v: "FRCORE_PORT_VLAN_STAT_INC (wq_ipprt work) xe0_stat_rxx_pkts (co_vlan c) = Some v" "vlan_ok v"
    using port_stat_inc [OF vl, of xe0_stat_rxx_pkts "wq_ipprt work"] assms(1) by (simp add: c_consts vlan_ok_def bump_def)
  obtain v' where v': "FRCORE_PORT_VLAN_STAT_ADD (wq_ipprt work) xe0_stat_rxx_bytes (ucast (wq_len work) + 4) v = Some v'" "vlan_ok v'"
    using v(2) by (cases "wq_ipprt work = 0") (simp_all add: FRCORE_PORT_VLAN_STAT_ADD_def vlan_ok_def arr_get_def arr_set_def c_consts Let_def)
  have ip: "settled (wq_is_v6 work \<and> wq_tcp_or_udp work \<and> \<not> wq_vlan_valid work) env c (frcore_ip_process env work (c2\<lparr>co_vlan := v'\<rparr>))" if "not_left c c2" for c2
    using ip_process_settled [of "c2\<lparr>co_vlan := v'\<rparr>" work c env] v'(2) assms(2,3) that by simp
  have get: "arr_get (co_ports c) (unat (wq_ipprt work)) = Some (co_ports c ! unat (wq_ipprt work))" using assms(4) by (simp add: arr_get_def)
  show ?thesis
  proof (cases "accepted work c \<and> \<not> wq_not_IP work")
    case True
    then show ?thesis using ip k(2) by (simp add: frcore_pkt_work_process_def Let_def k get u v(1) v'(1) accepted_def action_unset_def)
  next
    case False
    then have "\<not> action_unset work c" by (auto simp: action_unset_def)
    then show ?thesis using False assms(4) k(2) settled_drop by (auto simp: frcore_pkt_work_process_def Let_def k get u v(1) v'(1) accepted_def)
  qed
qed

text \<open>The handler without the probe check frees unless the action is not set and happens to be one that does not.\<close>

interpretation pkt_handler: packet_handler "frcore_pkt_work_process env"
    "\<lambda>work c. vlan_ok (co_vlan c) \<and> 40 \<le> length (ip_ptr work) \<and> 16 \<le> length (ether_ptr work) \<and> unat (wq_ipprt work) < length (co_ports c)"
    "\<lambda>work c. \<not> (action_unset work c \<and> e_rv env \<in> {FRCORE_ACT_DEBUG, FRCORE_ACT_DELAY, FRCORE_ACT_UNFREE})" for env
proof
  fix work :: cvmx_work and c :: core assume "vlan_ok (co_vlan c) \<and> 40 \<le> length (ip_ptr work) \<and> 16 \<le> length (ether_ptr work) \<and> unat (wq_ipprt work) < length (co_ports c)"
  then have "settled (action_unset work c) env c (frcore_pkt_work_process env work c)" by (intro pkt_process_settled) auto
  then show "\<exists>rv c'. frcore_pkt_work_process env work c = Some (rv, c') \<and> not_left c c' \<and>
      (\<not> (action_unset work c \<and> e_rv env \<in> {FRCORE_ACT_DEBUG, FRCORE_ACT_DELAY, FRCORE_ACT_UNFREE})) = (rv \<notin> {FRCORE_ACT_DEBUG, FRCORE_ACT_DELAY, FRCORE_ACT_UNFREE})"
    by (cases "action_unset work c") (auto simp: settled_def act_defs c_consts)
qed

text \<open>
  Without the probe check an IPv6 packet can be lost. Every packet work item is freed exactly once, whatever its headers, with one
  exception: for an accepted IPv6 packet with a TCP or UDP header and without a tag the action is never assigned, and when
  the variable happens to hold one of the three actions that do not free, nobody ever frees the item.
\<close>

theorem unset_action_leaks:
  assumes "vlan_ok (co_vlan c)" "40 \<le> length (ip_ptr work)" "16 \<le> length (ether_ptr work)" "unat (wq_ipprt work) < length (co_ports c)"
    "\<not> e_ipc env" "wq_unused work = FRCORE_WORK_PKT" "(if wq_ipprt work = 0 then co_mode0 c else co_mode1 c) = 0"
  shows "\<exists>c'. frcore_work_process env work c = Some c' \<and>
    (if action_unset work c \<and> e_rv env \<in> {FRCORE_ACT_DEBUG, FRCORE_ACT_DELAY, FRCORE_ACT_UNFREE} then not_left c c' else left_once work c c')"
proof -
  let ?r = "received env work c"
  have "rx_on (co_ports ?r ! unat (wq_ipprt work)) = rx_on (co_ports c ! unat (wq_ipprt work))" using assms(4) by (simp add: received_def port_rcvd_def)
  then have un: "action_unset work ?r = action_unset work c" by (simp add: action_unset_def accepted_def)
  obtain rv c1 where h: "frcore_pkt_work_process env work ?r = Some (rv, c1)"
      "if action_unset work c \<and> e_rv env \<in> {FRCORE_ACT_DEBUG, FRCORE_ACT_DELAY, FRCORE_ACT_UNFREE} then not_left c (do_action rv work c1) else left_once work c (do_action rv work c1)"
    using pkt_handler.dispatched [of ?r work c env] assms(1-4) un by (auto split: if_splits)
  have "frcore_work_process env work c = Some (do_action rv work c1)"
    using assms(5,7) h(1) unfolding work_process_pkt [OF assms(6,4)] by (simp add: frcore_dat_work_process_def)
  then show ?thesis using h(2) by blast
qed

section \<open>Examples\<close>

definition demo_env :: "bool \<Rightarrow> pkt_env" where
  "demo_env ipc = \<lparr>e_core_id = 0, e_ipc = ipc, e_undet = demo_undet, e_rv = 4, e_pko_ok = True\<rparr>"

definition demo_v6 :: cvmx_work where
  "demo_v6 = (demo_work 9)\<lparr>wq_is_v6 := True\<rparr>"


theorem host_packet_witness:
  "\<exists>c'. frcore_work_process (demo_env True) (demo_work 9) (snd (frcore_cmd_set_work_mode 0 1 (demo_core 1 1))) = Some c' \<and> total_rcvd (co_ports c' ! 0) = 2"
  using host_packet_counted_twice [of "demo_work 9" "snd (frcore_cmd_set_work_mode 0 1 (demo_core 1 1))" "demo_env True"]
  by (simp add: demo_work_def c_consts frcore_cmd_set_work_mode_def) (simp add: demo_core_def)

theorem unset_action_witness:
  "\<exists>c'. frcore_work_process (demo_env False) demo_v6 (demo_core 0 0) = Some c' \<and> co_freed c' = [] \<and> co_pko c' = []"
proof -
  have "vlan_ok (co_vlan (demo_core 0 0))" using demo_core_ok [of 0 0] by (simp add: core_ok_def)
  moreover have "40 \<le> length (ip_ptr demo_v6)" "16 \<le> length (ether_ptr demo_v6)" by (simp_all add: demo_v6_def demo_work_def ip_ptr_def ether_ptr_def demo_frame_def)
  moreover have "action_unset demo_v6 (demo_core 0 0)" by (simp add: action_unset_def accepted_def demo_v6_def demo_work_def demo_core_def)
  moreover have "wq_ipprt demo_v6 = 0" "wq_unused demo_v6 = FRCORE_WORK_PKT" by (simp_all add: demo_v6_def demo_work_def c_consts)
  ultimately show ?thesis
    using unset_action_leaks [of "demo_core 0 0" demo_v6 "demo_env False"]
    by (simp add: demo_env_def act_defs not_left_def) (simp add: demo_core_def)
qed

end
