(* ===== verification/Timestamp.thy ===== *)
theory Timestamp
  imports Ipc
begin

text \<open>
  The check of time stamps, \<^verbatim>\<open>frcore/frcore_timestamp_check.c\<close>: a probe writes the time over the addresses of
  a frame; the check reads it, counts invalid fields, and compares the time and the source address
  with those of the port. \<^verbatim>\<open>timestamp_stat\<close> is an array that the macros of the header index by the port.
  The two functions for IPv4 and IPv6 have the same text but for the offset of the source address.
\<close>

section \<open>State\<close>

record timestamp_check =
  tc_update :: u8
  tc_sip :: u32
  tc_timestamp :: u64

record timestamp_state =
  timestamp_stat :: "u64 list"
  timestamp_checks :: "timestamp_check list list"

definition stat_rxx_pkts :: nat where [c_consts]: "stat_rxx_pkts = 0"
definition stat_rxx_bytes :: nat where [c_consts]: "stat_rxx_bytes = 1"
definition xe0_stat_rxx_pkts :: nat where [c_consts]: "xe0_stat_rxx_pkts = 2"
definition xe0_stat_rxx_bytes :: nat where [c_consts]: "xe0_stat_rxx_bytes = 3"
definition xe1_stat_rxx_pkts :: nat where [c_consts]: "xe1_stat_rxx_pkts = 4"
definition xe1_stat_rxx_bytes :: nat where [c_consts]: "xe1_stat_rxx_bytes = 5"
definition stat_port0_rxx_pkts :: nat where [c_consts]: "stat_port0_rxx_pkts = 6"
definition stat_timestamp_max :: nat where [c_consts]: "stat_timestamp_max = 310"

text \<open>The counters of a port and interface, in the order of \<^verbatim>\<open>frc_timestamp_stat_e\<close>.\<close>

datatype port_stat =
    port_rxx_pkts | port_year_invalid_pkts | port_month_invalid_pkts | port_day_invalid_pkts | port_hour_invalid_pkts
  | port_minute_invalid_pkts | port_second_invalid_pkts | port_ip_err_pkts | port_timestamp_err_pkts

primrec port_stat_offset :: "port_stat \<Rightarrow> nat" where
  "port_stat_offset port_rxx_pkts = 0"
| "port_stat_offset port_year_invalid_pkts = 1"
| "port_stat_offset port_month_invalid_pkts = 2"
| "port_stat_offset port_day_invalid_pkts = 3"
| "port_stat_offset port_hour_invalid_pkts = 4"
| "port_stat_offset port_minute_invalid_pkts = 5"
| "port_stat_offset port_second_invalid_pkts = 6"
| "port_stat_offset port_ip_err_pkts = 7"
| "port_stat_offset port_timestamp_err_pkts = 8"

text \<open>\<^verbatim>\<open>xe0_stat_port0_...\<close> starts at 7, \<^verbatim>\<open>xe1_stat_port0_...\<close> at 16, and the counters of the next port are 19 further.\<close>

definition port_stat_index :: "port_stat \<Rightarrow> u8 \<Rightarrow> u8 \<Rightarrow> nat" where
  "port_stat_index x xeport ipport = (if xeport = 0 then 7 else 16) + port_stat_offset x + unat ipport * 19"

definition FRCORE_TIMESTAMP_STAT_ADD :: "nat \<Rightarrow> u64 \<Rightarrow> timestamp_state \<Rightarrow> timestamp_state option" where
  "FRCORE_TIMESTAMP_STAT_ADD cnt v s = do {
     x \<leftarrow> arr_get (timestamp_stat s) cnt;
     st \<leftarrow> arr_set (timestamp_stat s) cnt (x + v);
     Some (s\<lparr>timestamp_stat := st\<rparr>)
   }"

abbreviation FRCORE_TIMESTAMP_STAT_INC :: "nat \<Rightarrow> timestamp_state \<Rightarrow> timestamp_state option" where
  "FRCORE_TIMESTAMP_STAT_INC cnt \<equiv> FRCORE_TIMESTAMP_STAT_ADD cnt 1"

abbreviation PORT_STAT_INC :: "port_stat \<Rightarrow> u8 \<Rightarrow> u8 \<Rightarrow> timestamp_state \<Rightarrow> timestamp_state option" where
  "PORT_STAT_INC x xeport ipport \<equiv> FRCORE_TIMESTAMP_STAT_INC (port_stat_index x xeport ipport)"

section \<open>The check\<close>

record stamp =
  st_year :: u32
  st_month :: u32
  st_day :: u32
  st_hour :: u32
  st_minute :: u32
  st_second :: u32
  st_ms :: u32
  st_us :: u32
  st_ns :: u32

definition read_stamp :: "u8 list \<Rightarrow> stamp option" where
  "read_stamp eth = do {
     b3 \<leftarrow> arr_get eth 3; b4 \<leftarrow> arr_get eth 4; b5 \<leftarrow> arr_get eth 5; b6 \<leftarrow> arr_get eth 6; b7 \<leftarrow> arr_get eth 7;
     b8 \<leftarrow> arr_get eth 8; b9 \<leftarrow> arr_get eth 9; b10 \<leftarrow> arr_get eth 10; b11 \<leftarrow> arr_get eth 11;
     Some \<lparr>st_year = push_bit 8 (ucast b3 AND 0x07) OR ucast b4,
       st_month = drop_bit 4 (ucast b5 AND 0xf0),
       st_day = push_bit 1 (ucast b5 AND 0x0f) OR drop_bit 7 (ucast b6 AND 0x80),
       st_hour = drop_bit 2 (ucast b6 AND 0x7c),
       st_minute = push_bit 4 (ucast b6 AND 0x03) OR drop_bit 4 (ucast b7 AND 0xf0),
       st_second = push_bit 2 (ucast b7 AND 0x0f) OR drop_bit 6 (ucast b8 AND 0xc0),
       st_ms = push_bit 4 (ucast b8 AND 0x3f) OR drop_bit 4 (ucast b9 AND 0xf0),
       st_us = push_bit 6 (ucast b9 AND 0x0f) OR drop_bit 2 (ucast b10 AND 0xfc),
       st_ns = push_bit 8 (ucast b10 AND 0x03) OR ucast b11\<rparr>
   }"

text \<open>The tests on the fields, each counted by itself; the result is \<^verbatim>\<open>flag_invalid\<close>.\<close>

definition stamp_tests :: "stamp \<Rightarrow> (port_stat \<times> bool) list" where
  "stamp_tests t = [(port_year_invalid_pkts, st_year t < 1970 \<or> st_year t > 2050),
     (port_month_invalid_pkts, st_month t < 1 \<or> st_month t > 12), (port_day_invalid_pkts, st_day t < 1 \<or> st_day t > 31),
     (port_hour_invalid_pkts, st_hour t > 23), (port_minute_invalid_pkts, st_minute t > 60),
     (port_second_invalid_pkts, st_second t > 60)]"

definition check_fields :: "u8 \<Rightarrow> u8 \<Rightarrow> stamp \<Rightarrow> timestamp_state \<Rightarrow> (bool \<times> timestamp_state) option" where
  "check_fields xeport ipport t s =
     for_each (stamp_tests t) (\<lambda>(x, bad) (flag, s).
       if bad then do { s \<leftarrow> PORT_STAT_INC x xeport ipport s; Some (True, s) } else Some (flag, s)) (False, s)"

text \<open>The time in nanoseconds: the sums of 32-bit variables are computed in 32 bits.\<close>

definition stamptime :: "stamp \<Rightarrow> u64" where
  "stamptime t = ucast (st_ns t + st_us t * 1000 + st_ms t * 1000000) +
     ucast (st_second t + st_minute t * 60 + st_hour t * 3600 + (st_year t * 365 + st_month t * 30 + st_day t) * 24 * 3600) * 1000000000"

definition compare_stamp :: "u8 \<Rightarrow> u8 \<Rightarrow> u32 \<Rightarrow> u64 \<Rightarrow> timestamp_state \<Rightarrow> timestamp_state option" where
  "compare_stamp xeport ipport sip time s = do {
     row \<leftarrow> arr_get (timestamp_checks s) (unat xeport);
     c \<leftarrow> arr_get row (unat ipport);
     if tc_update c \<noteq> 0 then
       if tc_sip c \<ge> sip then PORT_STAT_INC port_ip_err_pkts xeport ipport s
       else if tc_timestamp c \<ge> time then PORT_STAT_INC port_timestamp_err_pkts xeport ipport s
       else Some s
     else Some (s\<lparr>timestamp_checks := (timestamp_checks s)[unat xeport := row[unat ipport :=
            c\<lparr>tc_timestamp := time, tc_sip := sip, tc_update := 1\<rparr>]]\<rparr>)
   }"

definition count_stamp :: "u8 \<Rightarrow> u8 \<Rightarrow> u16 \<Rightarrow> timestamp_state \<Rightarrow> timestamp_state option" where
  "count_stamp xeport ipport eth_len s = do {
     s \<leftarrow> FRCORE_TIMESTAMP_STAT_INC stat_rxx_pkts s;
     s \<leftarrow> FRCORE_TIMESTAMP_STAT_ADD stat_rxx_bytes (ucast eth_len) s;
     s \<leftarrow> FRCORE_TIMESTAMP_STAT_INC (if xeport = 0 then xe0_stat_rxx_pkts else xe1_stat_rxx_pkts) s;
     s \<leftarrow> FRCORE_TIMESTAMP_STAT_ADD (if xeport = 0 then xe0_stat_rxx_bytes else xe1_stat_rxx_bytes) (ucast eth_len) s;
     s \<leftarrow> FRCORE_TIMESTAMP_STAT_INC (stat_port0_rxx_pkts + unat ipport * 19) s;
     PORT_STAT_INC port_rxx_pkts xeport ipport s
   }"

definition timestamp_check_at :: "nat \<Rightarrow> cvmx_work \<Rightarrow> u8 list \<Rightarrow> nat \<Rightarrow> timestamp_state \<Rightarrow> (int \<times> timestamp_state) option" where
  "timestamp_check_at off work eth ip s = do {
     let xeport = (if wq_ipprt work = 0 then 0 else 1);
     sip \<leftarrow> UP32 eth (ip + off);
     b \<leftarrow> UP8 eth (ip + off);
     let ipport = b mod 16;
     t \<leftarrow> read_stamp eth;
     s \<leftarrow> count_stamp xeport ipport (wq_len work) s;
     (flag_invalid, s) \<leftarrow> check_fields xeport ipport t s;
     if flag_invalid then Some (FRCORE_ACT_FORWARD, s)
     else do {
       s \<leftarrow> compare_stamp xeport ipport sip (stamptime t) s;
       Some (FRCORE_ACT_FORWARD, s)
     }
   }"

definition frcore_timestamp_check_v4 :: "cvmx_work \<Rightarrow> u8 list \<Rightarrow> nat \<Rightarrow> timestamp_state \<Rightarrow> (int \<times> timestamp_state) option" where
  "frcore_timestamp_check_v4 = timestamp_check_at 12"

definition frcore_timestamp_check_v6 :: "cvmx_work \<Rightarrow> u8 list \<Rightarrow> nat \<Rightarrow> timestamp_state \<Rightarrow> (int \<times> timestamp_state) option" where
  "frcore_timestamp_check_v6 = timestamp_check_at 20"

section \<open>Commands\<close>

text \<open>The values written to \<^verbatim>\<open>outbuf\<close> and \<^verbatim>\<open>*olen\<close>.\<close>

definition frcore_cmd_timestamp_check_get_stat :: "u32 \<Rightarrow> u32 \<Rightarrow> timestamp_state \<Rightarrow> (int \<times> u64 list \<times> u16) option" where
  "frcore_cmd_timestamp_check_get_stat index num s =
     map_option (\<lambda>vs. (0, vs, ucast (num * 8)))
       (those (map (\<lambda>i. arr_get (timestamp_stat s) (unat (index + of_nat i))) [0..<unat num]))"

definition frcore_timestamp_check_stat_clear :: "timestamp_state \<Rightarrow> timestamp_state option" where
  "frcore_timestamp_check_stat_clear s =
     for_each [0..<stat_timestamp_max] (\<lambda>i s. map_option (\<lambda>st. s\<lparr>timestamp_stat := st\<rparr>) (arr_set (timestamp_stat s) i 0)) s"

definition frcore_cmd_timestamp_check_clear_stat :: "timestamp_state \<Rightarrow> (int \<times> timestamp_state) option" where
  "frcore_cmd_timestamp_check_clear_stat s = map_option (\<lambda>s. (FRE_SUCCESS, s)) (frcore_timestamp_check_stat_clear s)"

definition frcore_timestamp_check_init :: "timestamp_state \<Rightarrow> int \<times> timestamp_state" where
  "frcore_timestamp_check_init s =
     (0, s\<lparr>timestamp_checks := replicate 2 (replicate 16 \<lparr>tc_update = 0, tc_sip = 0, tc_timestamp = 0\<rparr>)\<rparr>)"

section \<open>The counters\<close>

definition stamps_ok :: "timestamp_state \<Rightarrow> bool" where
  "stamps_ok s \<longleftrightarrow> length (timestamp_stat s) = stat_timestamp_max \<and> length (timestamp_checks s) = 2 \<and>
     (\<forall>row \<in> set (timestamp_checks s). length row = 16)"

text \<open>The two counters of the comparison.\<close>

definition err_stat :: "port_stat \<Rightarrow> bool" where
  "err_stat x \<longleftrightarrow> x = port_ip_err_pkts \<or> x = port_timestamp_err_pkts"

lemma port_stat_index_mod: "port_stat_index x xe p mod 19 = ((if xe = 0 then 7 else 16) + port_stat_offset x) mod 19"
  unfolding port_stat_index_def by (metis mod_mult_self1)

lemma port_stat_less: "unat p < 16 \<Longrightarrow> port_stat_index x xe p < 310"
  by (cases x) (auto simp: port_stat_index_def)

lemma port_stat_inj:
  assumes "err_stat x" "port_stat_index x xe p = port_stat_index y xe' q"
  shows "y = x \<and> (xe = 0 \<longleftrightarrow> xe' = 0) \<and> p = q"
proof -
  have mod: "((if xe = 0 then 7 else 16) + port_stat_offset x) mod 19 = ((if xe' = 0 then 7 else 16) + port_stat_offset y) mod 19"
    using assms(2) port_stat_index_mod by metis
  have same: "y = x \<and> (xe = 0 \<longleftrightarrow> xe' = 0)"
    using assms(1) mod by (cases y) (auto simp: err_stat_def split: if_splits)
  then have "unat p = unat q" using assms(2) by (auto simp: port_stat_index_def)
  then show ?thesis using same by (simp add: word_unat_eq_iff)
qed

lemma port_stat_high:
  assumes "err_stat x"
  shows "5 < port_stat_index x xe p" "port_stat_index x xe p \<noteq> stat_port0_rxx_pkts + n * 19"
proof -
  show "5 < port_stat_index x xe p" using assms by (auto simp: port_stat_index_def err_stat_def)
  have "(stat_port0_rxx_pkts + n * 19) mod 19 = 6" by (simp add: stat_port0_rxx_pkts_def)
  moreover have "port_stat_index x xe p mod 19 \<noteq> 6" using assms unfolding port_stat_index_mod by (auto simp: err_stat_def)
  ultimately show "port_stat_index x xe p \<noteq> stat_port0_rxx_pkts + n * 19" by metis
qed

text \<open>\<open>counts keep s s'\<close>: only counters outside \<open>keep\<close> differ.\<close>

definition counted :: "timestamp_state \<Rightarrow> timestamp_state \<Rightarrow> bool" where
  "counted s s' \<longleftrightarrow> stamps_ok s' \<and> timestamp_checks s' = timestamp_checks s \<and>
     (\<forall>x xe p. err_stat x \<longrightarrow> timestamp_stat s' ! port_stat_index x xe p = timestamp_stat s ! port_stat_index x xe p)"

lemma counted_trans: "counted s s1 \<Longrightarrow> counted s1 s2 \<Longrightarrow> counted s s2"
  by (simp add: counted_def)

lemma stat_add_counted:
  assumes "stamps_ok s" "i < 310" "\<And>x xe p. err_stat x \<Longrightarrow> port_stat_index x xe p \<noteq> i"
  shows "\<exists>s'. FRCORE_TIMESTAMP_STAT_ADD i v s = Some s' \<and> counted s s'"
proof -
  have "(timestamp_stat s)[i := w] ! port_stat_index x xe p = timestamp_stat s ! port_stat_index x xe p" if "err_stat x" for w x xe p
    using assms(3) [OF that, of xe p] by simp
  then show ?thesis using assms(1,2)
    by (simp add: FRCORE_TIMESTAMP_STAT_ADD_def stamps_ok_def stat_timestamp_max_def counted_def)
qed

lemma port_inc_counted:
  assumes "stamps_ok s" "unat p < 16" "\<not> err_stat y"
  shows "\<exists>s'. PORT_STAT_INC y xe p s = Some s' \<and> counted s s'"
proof (rule stat_add_counted [OF assms(1) port_stat_less [OF assms(2)]])
  show "port_stat_index x xe' q \<noteq> port_stat_index y xe p" if "err_stat x" for x xe' q
    using port_stat_inj [OF that] assms(3) that by metis
qed

lemma count_stamp_counted:
  assumes "stamps_ok s" "unat p < 16"
  shows "\<exists>s'. count_stamp xe p len s = Some s' \<and> counted s s'"
proof -
  have low: "\<exists>s'. FRCORE_TIMESTAMP_STAT_ADD i v s = Some s' \<and> counted s s'" if "stamps_ok s" "i \<le> 5" for i v s
  proof (rule stat_add_counted [OF that(1)])
    show "port_stat_index x xe p \<noteq> i" if "err_stat x" for x xe p using port_stat_high(1) [OF that, of xe p] \<open>i \<le> 5\<close> by simp
  qed (use that(2) in simp)
  have port: "\<exists>s'. FRCORE_TIMESTAMP_STAT_ADD (stat_port0_rxx_pkts + unat p * 19) 1 s = Some s' \<and> counted s s'" if "stamps_ok s" for s
    by (rule stat_add_counted [OF that]) (use assms(2) port_stat_high(2) in \<open>auto simp: stat_port0_rxx_pkts_def\<close>)
  have own: "\<exists>s'. PORT_STAT_INC port_rxx_pkts xe p s = Some s' \<and> counted s s'" if "stamps_ok s" for s
    by (rule port_inc_counted [OF that assms(2)]) (simp add: err_stat_def)
  have small: "stat_rxx_pkts \<le> 5" "stat_rxx_bytes \<le> 5" "(if xe = 0 then xe0_stat_rxx_pkts else xe1_stat_rxx_pkts) \<le> 5"
    "(if xe = 0 then xe0_stat_rxx_bytes else xe1_stat_rxx_bytes) \<le> 5"
    by (simp_all add: c_consts)
  have ok: "stamps_ok s2" if "counted s1 s2" for s1 s2 using that by (simp add: counted_def)
  obtain s1 where s1: "FRCORE_TIMESTAMP_STAT_INC stat_rxx_pkts s = Some s1" "counted s s1"
    using low [OF assms(1) small(1)] by blast
  obtain s2 where s2: "FRCORE_TIMESTAMP_STAT_ADD stat_rxx_bytes (ucast len) s1 = Some s2" "counted s1 s2"
    using low [OF ok [OF s1(2)] small(2)] by blast
  obtain s3 where s3: "FRCORE_TIMESTAMP_STAT_INC (if xe = 0 then xe0_stat_rxx_pkts else xe1_stat_rxx_pkts) s2 = Some s3" "counted s2 s3"
    using low [OF ok [OF s2(2)] small(3)] by blast
  obtain s4 where s4: "FRCORE_TIMESTAMP_STAT_ADD (if xe = 0 then xe0_stat_rxx_bytes else xe1_stat_rxx_bytes) (ucast len) s3 = Some s4" "counted s3 s4"
    using low [OF ok [OF s3(2)] small(4)] by blast
  obtain s5 where s5: "FRCORE_TIMESTAMP_STAT_INC (stat_port0_rxx_pkts + unat p * 19) s4 = Some s5" "counted s4 s5"
    using port [OF ok [OF s4(2)]] by blast
  obtain s6 where s6: "PORT_STAT_INC port_rxx_pkts xe p s5 = Some s6" "counted s5 s6"
    using own [OF ok [OF s5(2)]] by blast
  note trans = counted_trans [OF s1(2) counted_trans [OF s2(2) counted_trans [OF s3(2) counted_trans [OF s4(2) counted_trans [OF s5(2) s6(2)]]]]]
  show ?thesis
    unfolding count_stamp_def by (simp only: s1(1) s2(1) s3(1) s4(1) s5(1) s6(1) Option.bind.bind_lunit) (use trans in simp)
qed

definition stamp_valid :: "stamp \<Rightarrow> bool" where
  "stamp_valid t \<longleftrightarrow> 1970 \<le> st_year t \<and> st_year t \<le> 2050 \<and> 1 \<le> st_month t \<and> st_month t \<le> 12 \<and> 1 \<le> st_day t \<and> st_day t \<le> 31 \<and>
     st_hour t \<le> 23 \<and> st_minute t \<le> 60 \<and> st_second t \<le> 60"

lemma field_loop_counted:
  assumes "stamps_ok s" "unat p < 16" "\<forall>(x, bad) \<in> set ts. \<not> err_stat x"
  shows "\<exists>s'. for_each ts (\<lambda>(x, bad) (flag, s).
       if bad then do { s \<leftarrow> PORT_STAT_INC x xe p s; Some (True, s) } else Some (flag, s)) (f, s) = Some (f \<or> (\<exists>(x, bad) \<in> set ts. bad), s') \<and> counted s s'"
  using assms(1,3)
proof (induction ts arbitrary: f s)
  case Nil
  then show ?case by (simp add: counted_def)
next
  case (Cons t ts)
  obtain x bad where t: "t = (x, bad)" by (cases t)
  show ?case
  proof (cases bad)
    case True
    obtain s1 where s1: "PORT_STAT_INC x xe p s = Some s1" "counted s s1"
      using port_inc_counted [OF Cons.prems(1) assms(2), of x xe] Cons.prems(2) t by auto
    then have "stamps_ok s1" by (simp add: counted_def)
    from Cons.IH [OF this, of True] obtain s2 where "for_each ts (\<lambda>(x, bad) (flag, s).
       if bad then do { s \<leftarrow> PORT_STAT_INC x xe p s; Some (True, s) } else Some (flag, s)) (True, s1) = Some (True, s2)" "counted s1 s2"
      using Cons.prems(2) by auto
    then show ?thesis using s1 t True counted_trans [OF s1(2)] by auto
  next
    case False
    then show ?thesis using Cons.IH [OF Cons.prems(1), of f] Cons.prems(2) t by auto
  qed
qed

lemma check_fields_counted:
  assumes "stamps_ok s" "unat p < 16"
  shows "\<exists>s'. check_fields xe p t s = Some (\<not> stamp_valid t, s') \<and> counted s s'"
proof -
  have "(\<exists>(x, bad) \<in> set (stamp_tests t). bad) \<longleftrightarrow> \<not> stamp_valid t" by (auto simp: stamp_tests_def stamp_valid_def not_le)
  moreover have "\<forall>(x, bad) \<in> set (stamp_tests t). \<not> err_stat x" by (simp add: stamp_tests_def err_stat_def)
  ultimately show ?thesis
    using field_loop_counted [OF assms, of "stamp_tests t" xe False] unfolding check_fields_def by auto
qed

section \<open>Sequences of frames\<close>

text \<open>What the check sees of a frame: the interface and the port, the source address, the time stamp and the length.\<close>

record stamped =
  sf_xeport :: u8
  sf_ipport :: u8
  sf_sip :: u32
  sf_stamp :: stamp
  sf_len :: u16

definition stamped_frame :: "nat \<Rightarrow> cvmx_work \<Rightarrow> u8 list \<Rightarrow> nat \<Rightarrow> stamped option" where
  "stamped_frame off work eth ip = do {
     sip \<leftarrow> UP32 eth (ip + off); b \<leftarrow> UP8 eth (ip + off); t \<leftarrow> read_stamp eth;
     Some \<lparr>sf_xeport = (if wq_ipprt work = 0 then 0 else 1), sf_ipport = b mod 16, sf_sip = sip, sf_stamp = t, sf_len = wq_len work\<rparr>
   }"

definition check_stamped :: "stamped \<Rightarrow> timestamp_state \<Rightarrow> timestamp_state option" where
  "check_stamped f s = do {
     s \<leftarrow> count_stamp (sf_xeport f) (sf_ipport f) (sf_len f) s;
     (flag_invalid, s) \<leftarrow> check_fields (sf_xeport f) (sf_ipport f) (sf_stamp f) s;
     if flag_invalid then Some s else compare_stamp (sf_xeport f) (sf_ipport f) (sf_sip f) (stamptime (sf_stamp f)) s
   }"

lemma timestamp_check_stamped:
  assumes "stamped_frame off work eth ip = Some f"
  shows "timestamp_check_at off work eth ip s = map_option (\<lambda>s. (FRCORE_ACT_FORWARD, s)) (check_stamped f s)"
    "sf_xeport f = 0 \<or> sf_xeport f = 1" "unat (sf_ipport f) < 16"
proof -
  obtain sip b t where r: "UP32 eth (ip + off) = Some sip" "UP8 eth (ip + off) = Some b" "read_stamp eth = Some t"
      "f = \<lparr>sf_xeport = (if wq_ipprt work = 0 then 0 else 1), sf_ipport = b mod 16, sf_sip = sip, sf_stamp = t, sf_len = wq_len work\<rparr>"
    using assms by (auto simp: stamped_frame_def bind_eq_Some_conv)
  show "timestamp_check_at off work eth ip s = map_option (\<lambda>s. (FRCORE_ACT_FORWARD, s)) (check_stamped f s)"
    using r by (auto simp: timestamp_check_at_def check_stamped_def Let_def split: bind_splits if_splits)
  show "sf_xeport f = 0 \<or> sf_xeport f = 1" "unat (sf_ipport f) < 16" using r(4) by (simp_all add: unat_mod)
qed

text \<open>The valid frames of an interface and port, as address and time.\<close>

definition seen :: "stamped list \<Rightarrow> u8 \<Rightarrow> u8 \<Rightarrow> (u32 \<times> u64) list" where
  "seen fs xe p = map (\<lambda>f. (sf_sip f, stamptime (sf_stamp f)))
     (filter (\<lambda>f. sf_xeport f = xe \<and> sf_ipport f = p \<and> stamp_valid (sf_stamp f)) fs)"

definition ip_errors :: "(u32 \<times> u64) list \<Rightarrow> nat" where
  "ip_errors vs = length (filter (\<lambda>v. fst v \<le> fst (hd vs)) (tl vs))"

definition time_errors :: "(u32 \<times> u64) list \<Rightarrow> nat" where
  "time_errors vs = length (filter (\<lambda>v. fst v > fst (hd vs) \<and> snd v \<le> snd (hd vs)) (tl vs))"

definition reference :: "(u32 \<times> u64) list \<Rightarrow> timestamp_check" where
  "reference vs = (case vs of [] \<Rightarrow> \<lparr>tc_update = 0, tc_sip = 0, tc_timestamp = 0\<rparr>
     | v # _ \<Rightarrow> \<lparr>tc_update = 1, tc_sip = fst v, tc_timestamp = snd v\<rparr>)"

definition port_agrees :: "timestamp_state \<Rightarrow> timestamp_state \<Rightarrow> (u32 \<times> u64) list \<Rightarrow> u8 \<Rightarrow> u8 \<Rightarrow> bool" where
  "port_agrees s0 s vs xe p \<longleftrightarrow> timestamp_checks s ! unat xe ! unat p = reference vs \<and>
     timestamp_stat s ! port_stat_index port_ip_err_pkts xe p = timestamp_stat s0 ! port_stat_index port_ip_err_pkts xe p + of_nat (ip_errors vs) \<and>
     timestamp_stat s ! port_stat_index port_timestamp_err_pkts xe p =
       timestamp_stat s0 ! port_stat_index port_timestamp_err_pkts xe p + of_nat (time_errors vs)"

lemma errors_snoc:
  "vs \<noteq> [] \<Longrightarrow> ip_errors (vs @ [v]) = ip_errors vs + (if fst v \<le> fst (hd vs) then 1 else 0)"
  "vs \<noteq> [] \<Longrightarrow> time_errors (vs @ [v]) = time_errors vs + (if fst v > fst (hd vs) \<and> snd v \<le> snd (hd vs) then 1 else 0)"
  "vs \<noteq> [] \<Longrightarrow> reference (vs @ [v]) = reference vs"
  "ip_errors [v] = 0" "time_errors [v] = 0" "ip_errors [] = 0" "time_errors [] = 0"
  by (auto simp: ip_errors_def time_errors_def reference_def split: list.splits)

lemma agrees_counted: "counted s s' \<Longrightarrow> port_agrees s0 s' vs xe p \<longleftrightarrow> port_agrees s0 s vs xe p"
  by (simp add: counted_def port_agrees_def err_stat_def)

definition interface :: "u8 \<Rightarrow> bool" where
  "interface xe \<longleftrightarrow> xe = 0 \<or> xe = 1"

lemma row_ok:
  assumes "stamps_ok s" "interface xe" "unat p < 16"
  shows "unat xe < length (timestamp_checks s)" "unat p < length (timestamp_checks s ! unat xe)"
  using assms nth_mem [of "unat xe" "timestamp_checks s"] by (auto simp: stamps_ok_def interface_def)

lemma interface_inj: "interface xe \<Longrightarrow> interface xe' \<Longrightarrow> (xe = 0 \<longleftrightarrow> xe' = 0) \<longleftrightarrow> xe = xe'"
  by (auto simp: interface_def)

text \<open>Counting an error of the port: the counter goes up, everything else agrees with what it agreed before.\<close>

lemma err_inc:
  assumes ok: "stamps_ok s" and p: "unat p < 16" and x: "err_stat x" and xe: "interface xe"
  shows "\<exists>s'. PORT_STAT_INC x xe p s = Some s' \<and> stamps_ok s' \<and> timestamp_checks s' = timestamp_checks s \<and>
    (\<forall>y xe' q. err_stat y \<longrightarrow> interface xe' \<longrightarrow> timestamp_stat s' ! port_stat_index y xe' q =
       timestamp_stat s ! port_stat_index y xe' q + (if y = x \<and> xe' = xe \<and> q = p then 1 else 0))"
proof -
  let ?i = "port_stat_index x xe p"
  have i: "?i < length (timestamp_stat s)" using ok port_stat_less [OF p] by (simp add: stamps_ok_def stat_timestamp_max_def)
  have "(timestamp_stat s)[?i := timestamp_stat s ! ?i + 1] ! port_stat_index y xe' q =
      timestamp_stat s ! port_stat_index y xe' q + (if y = x \<and> xe' = xe \<and> q = p then 1 else 0)" if y: "err_stat y" "interface xe'" for y xe' q
  proof (cases "y = x \<and> xe' = xe \<and> q = p")
    case True
    then show ?thesis using i by simp
  next
    case False
    have "?i \<noteq> port_stat_index y xe' q"
    proof
      assume "?i = port_stat_index y xe' q"
      from port_stat_inj [OF x this] show False using False interface_inj [OF xe y(2)] by auto
    qed
    then show ?thesis using False by simp
  qed
  then show ?thesis using i ok by (simp add: FRCORE_TIMESTAMP_STAT_ADD_def stamps_ok_def)
qed

lemma compare_agrees:
  assumes ok: "stamps_ok s" and xe: "interface xe" and p: "unat p < 16" and vs: "timestamp_checks s ! unat xe ! unat p = reference vs"
  shows "\<exists>s'. compare_stamp xe p sip time s = Some s' \<and> stamps_ok s' \<and>
    (\<forall>s0. port_agrees s0 s vs xe p \<longrightarrow> port_agrees s0 s' (vs @ [(sip, time)]) xe p) \<and>
    (\<forall>s0 ws xe' q. interface xe' \<longrightarrow> unat q < 16 \<longrightarrow> (xe', q) \<noteq> (xe, p) \<longrightarrow> port_agrees s0 s ws xe' q \<longrightarrow> port_agrees s0 s' ws xe' q)"
proof (cases vs)
  case Nil
  note r = row_ok [OF ok xe p]
  define row where "row = timestamp_checks s ! unat xe"
  define c where "c = \<lparr>tc_update = 1, tc_sip = sip, tc_timestamp = time\<rparr>"
  define s' where "s' = s\<lparr>timestamp_checks := (timestamp_checks s)[unat xe := row[unat p := c]]\<rparr>"
  have run: "compare_stamp xe p sip time s = Some s'"
    using r vs Nil by (simp add: compare_stamp_def reference_def s'_def c_def row_def)
  have ok': "stamps_ok s'"
    using ok r(1) nth_mem [OF r(1)] set_update_subset_insert [of "timestamp_checks s" "unat xe" "row[unat p := c]"]
    by (auto simp: stamps_ok_def s'_def row_def)
  have entry: "timestamp_checks s' ! unat xe ! unat p = c" using r by (simp add: s'_def row_def)
  have other: "timestamp_checks s' ! unat xe' ! unat q = timestamp_checks s ! unat xe' ! unat q" if "interface xe'" "(xe', q) \<noteq> (xe, p)" for xe' q
    using that r by (cases "xe' = xe") (auto simp: s'_def row_def nth_list_update word_unat_eq_iff)
  have "c = reference [(sip, time)]" "timestamp_stat s' = timestamp_stat s" by (simp_all add: c_def reference_def s'_def)
  then show ?thesis
    using run ok' entry other Nil by (auto simp: port_agrees_def errors_snoc)
next
  case (Cons v ws)
  note r = row_ok [OF ok xe p]
  have vs': "vs \<noteq> []" "reference vs = \<lparr>tc_update = 1, tc_sip = fst v, tc_timestamp = snd v\<rparr>" "hd vs = v"
    using Cons by (simp_all add: reference_def)
  have run: "compare_stamp xe p sip time s = (if fst v \<ge> sip then PORT_STAT_INC port_ip_err_pkts xe p s
      else if snd v \<ge> time then PORT_STAT_INC port_timestamp_err_pkts xe p s else Some s)"
    using r vs vs'(2) by (simp add: compare_stamp_def)
  have errs: "err_stat port_ip_err_pkts" "err_stat port_timestamp_err_pkts" by (simp_all add: err_stat_def)
  consider "fst v \<ge> sip" | "\<not> fst v \<ge> sip" "snd v \<ge> time" | "\<not> fst v \<ge> sip" "\<not> snd v \<ge> time" by blast
  then show ?thesis
  proof cases
    case 1
    obtain s' where "PORT_STAT_INC port_ip_err_pkts xe p s = Some s'" "stamps_ok s'" "timestamp_checks s' = timestamp_checks s"
      "\<forall>y xe' q. err_stat y \<longrightarrow> interface xe' \<longrightarrow> timestamp_stat s' ! port_stat_index y xe' q =
         timestamp_stat s ! port_stat_index y xe' q + (if y = port_ip_err_pkts \<and> xe' = xe \<and> q = p then 1 else 0)"
      using err_inc [OF ok p errs(1) xe] by blast
    then show ?thesis using 1 run vs' xe errs by (auto simp: port_agrees_def errors_snoc)
  next
    case 2
    obtain s' where "PORT_STAT_INC port_timestamp_err_pkts xe p s = Some s'" "stamps_ok s'" "timestamp_checks s' = timestamp_checks s"
      "\<forall>y xe' q. err_stat y \<longrightarrow> interface xe' \<longrightarrow> timestamp_stat s' ! port_stat_index y xe' q =
         timestamp_stat s ! port_stat_index y xe' q + (if y = port_timestamp_err_pkts \<and> xe' = xe \<and> q = p then 1 else 0)"
      using err_inc [OF ok p errs(2) xe] by blast
    then show ?thesis using 2 run vs' xe errs by (auto simp: port_agrees_def errors_snoc)
  next
    case 3
    then show ?thesis using run ok vs' by (auto simp: port_agrees_def errors_snoc)
  qed
qed

lemma check_stamped_agrees:
  assumes ok: "stamps_ok s" and f: "interface (sf_xeport f)" "unat (sf_ipport f) < 16"
    and agree: "\<forall>xe p. interface xe \<longrightarrow> unat p < 16 \<longrightarrow> port_agrees s0 s (seen fs xe p) xe p"
  shows "\<exists>s'. check_stamped f s = Some s' \<and> stamps_ok s' \<and>
    (\<forall>xe p. interface xe \<longrightarrow> unat p < 16 \<longrightarrow> port_agrees s0 s' (seen (fs @ [f]) xe p) xe p)"
proof -
  let ?xe = "sf_xeport f" and ?p = "sf_ipport f"
  obtain s1 where s1: "count_stamp ?xe ?p (sf_len f) s = Some s1" "counted s s1" using count_stamp_counted [OF ok f(2)] by blast
  then have "stamps_ok s1" by (simp add: counted_def)
  then obtain s2 where s2: "check_fields ?xe ?p (sf_stamp f) s1 = Some (\<not> stamp_valid (sf_stamp f), s2)" "counted s1 s2"
    using check_fields_counted [OF _ f(2)] by blast
  then have ok2: "stamps_ok s2" by (simp add: counted_def)
  have agree2: "\<forall>xe p. interface xe \<longrightarrow> unat p < 16 \<longrightarrow> port_agrees s0 s2 (seen fs xe p) xe p"
    using agree agrees_counted [OF counted_trans [OF s1(2) s2(2)]] by simp
  show ?thesis
  proof (cases "stamp_valid (sf_stamp f)")
    case False
    then have "seen (fs @ [f]) xe p = seen fs xe p" for xe p by (simp add: seen_def)
    then show ?thesis using s1(1) s2(1) False ok2 agree2 by (simp add: check_stamped_def)
  next
    case True
    have new: "seen (fs @ [f]) xe p = (if (xe, p) = (?xe, ?p) then seen fs xe p @ [(sf_sip f, stamptime (sf_stamp f))] else seen fs xe p)" for xe p
      using True by (auto simp: seen_def)
    have "timestamp_checks s2 ! unat ?xe ! unat ?p = reference (seen fs ?xe ?p)" using agree2 f by (simp add: port_agrees_def)
    from compare_agrees [OF ok2 f this]
    obtain s3 where s3: "compare_stamp ?xe ?p (sf_sip f) (stamptime (sf_stamp f)) s2 = Some s3" "stamps_ok s3"
      "\<forall>s0. port_agrees s0 s2 (seen fs ?xe ?p) ?xe ?p \<longrightarrow> port_agrees s0 s3 (seen fs ?xe ?p @ [(sf_sip f, stamptime (sf_stamp f))]) ?xe ?p"
      "\<forall>s0 ws xe' q. interface xe' \<longrightarrow> unat q < 16 \<longrightarrow> (xe', q) \<noteq> (?xe, ?p) \<longrightarrow> port_agrees s0 s2 ws xe' q \<longrightarrow> port_agrees s0 s3 ws xe' q"
      by blast
    have "port_agrees s0 s3 (seen (fs @ [f]) xe p) xe p" if "interface xe" "unat p < 16" for xe p
      using s3(3,4) agree2 that f unfolding new by (cases "(xe, p) = (?xe, ?p)") auto
    then show ?thesis using s1(1) s2(1) True s3(1,2) by (simp add: check_stamped_def)
  qed
qed

lemma check_run_agrees:
  assumes "stamps_ok s" "\<forall>f \<in> set fs. interface (sf_xeport f) \<and> unat (sf_ipport f) < 16"
    and "\<forall>xe (p :: u8). interface xe \<longrightarrow> unat p < 16 \<longrightarrow> timestamp_checks s ! unat xe ! unat p = reference []"
  shows "\<exists>s'. for_each fs check_stamped s = Some s' \<and> stamps_ok s' \<and>
    (\<forall>xe p. interface xe \<longrightarrow> unat p < 16 \<longrightarrow> port_agrees s s' (seen fs xe p) xe p)"
  using assms(2)
proof (induction fs rule: rev_induct)
  case Nil
  then show ?case using assms(1,3) by (simp add: port_agrees_def seen_def errors_snoc)
next
  case (snoc f fs)
  then obtain s1 where s1: "for_each fs check_stamped s = Some s1" "stamps_ok s1"
      "\<forall>xe p. interface xe \<longrightarrow> unat p < 16 \<longrightarrow> port_agrees s s1 (seen fs xe p) xe p"
    by auto
  from check_stamped_agrees [OF s1(2) _ _ s1(3), of f] snoc.prems s1(1) show ?case
    by (auto simp: for_each_append split: option.splits)
qed

section \<open>Properties\<close>

text \<open>The frames a port receives: offset of the source address, work item, bytes, and offset of the IP header.\<close>

type_synonym raw_frame = "nat \<times> cvmx_work \<times> u8 list \<times> nat"

definition check_frames :: "raw_frame list \<Rightarrow> timestamp_state \<Rightarrow> timestamp_state option" where
  "check_frames fs s = for_each fs (\<lambda>(off, work, eth, ip) s. map_option snd (timestamp_check_at off work eth ip s)) s"

definition views :: "raw_frame list \<Rightarrow> stamped list option" where
  "views fs = those (map (\<lambda>(off, work, eth, ip). stamped_frame off work eth ip) fs)"

lemma check_frames_views:
  assumes "views fs = Some vs"
  shows "check_frames fs s = for_each vs check_stamped s \<and> (\<forall>f \<in> set vs. interface (sf_xeport f) \<and> unat (sf_ipport f) < 16)"
  using assms
proof (induction fs arbitrary: vs s)
  case (Cons g gs)
  obtain off work eth ip where g: "g = (off, work, eth, ip)" by (cases g)
  obtain f ws where f: "stamped_frame off work eth ip = Some f" "views gs = Some ws" "vs = f # ws"
    using Cons.prems g by (auto simp: views_def split: option.splits)
  show ?case using timestamp_check_stamped [OF f(1)] Cons.IH [OF f(2)] f(3) g
    by (auto simp: check_frames_def interface_def option.map_comp comp_def split: option.splits)
qed (simp add: check_frames_def views_def)

text \<open>
  C38. The check over any sequence of frames that are long enough, from the initialised table: it never leaves an
  array. The time and address that a port is compared with are those of the first frame with a valid stamp, for
  ever; the counters of address and time errors grow by the numbers of later valid frames that are not above this
  first one. A time that goes back between two later frames is not noticed.
\<close>

theorem timestamps_compared_with_first:
  assumes "length (timestamp_stat s) = stat_timestamp_max" "views fs = Some vs"
  shows "\<exists>s'. check_frames fs (snd (frcore_timestamp_check_init s)) = Some s' \<and>
    (\<forall>xe \<in> {0, 1}. \<forall>p. unat p < 16 \<longrightarrow> port_agrees (snd (frcore_timestamp_check_init s)) s' (seen vs xe p) xe p)"
proof -
  let ?s = "snd (frcore_timestamp_check_init s)"
  have ok: "stamps_ok ?s" using assms(1) by (auto simp: stamps_ok_def frcore_timestamp_check_init_def)
  have blank: "\<forall>xe (p :: u8). interface xe \<longrightarrow> unat p < 16 \<longrightarrow> timestamp_checks ?s ! unat xe ! unat p = reference []"
    by (auto simp: frcore_timestamp_check_init_def reference_def interface_def)
  show ?thesis
    using check_run_agrees [OF ok _ blank, of vs] check_frames_views [OF assms(2), of ?s] by (auto simp: interface_def)
qed

text \<open>For the example: frames stamped 1 January 2000 at \<open>second\<close> past midnight, from 10.0.0.\<open>n\<close>.\<close>

definition stamped_bytes :: "u8 \<Rightarrow> u8 \<Rightarrow> u8 list" where
  "stamped_bytes second n = [0, 0, 0, 0x07, 0xD0, 0x10, 0x80, second div 4, push_bit 6 second, 0, 0, 0, 8, 0,
     0x45, 0, 0, 40, 0, 0, 0, 0, 64, 17, 0, 0, 10, 0, 0, n, 10, 0, 0, 2]"

definition stamped_work :: cvmx_work where
  "stamped_work = \<lparr>wq_id = 1, wq_unused = 0, wq_ipprt = 0, wq_len = 60, wq_bufs = 1, wq_ip_offset = 14, wq_rcv_error = False, wq_not_IP = False,
     wq_is_v6 = False, wq_vlan_valid = False, wq_is_frag = False, wq_tcp_or_udp = True, wq_data = []\<rparr>"

definition demo_stamp :: "u32 \<Rightarrow> stamp" where
  "demo_stamp second = \<lparr>st_year = 2000, st_month = 1, st_day = 1, st_hour = 0, st_minute = 0, st_second = second, st_ms = 0, st_us = 0, st_ns = 0\<rparr>"

lemma demo_views:
  "views (map (\<lambda>(t, n). (12, stamped_work, stamped_bytes t n, 14)) [(10, 5), (30, 7), (20, 8), (40, 3)]) =
   Some (map (\<lambda>(t, n). \<lparr>sf_xeport = 0, sf_ipport = 10, sf_sip = 0x0A000000 + n, sf_stamp = demo_stamp t, sf_len = 60\<rparr>) [(10, 5), (30, 7), (20, 8), (40, 3)])"
  by (simp add: views_def stamped_frame_def stamped_bytes_def stamped_work_def demo_stamp_def read_stamp_def UP32_def UP8_def
      arr_get_def push_bit_eq_mult drop_bit_eq_div)

lemma demo_seen:
  "seen (map (\<lambda>(t, n). \<lparr>sf_xeport = 0, sf_ipport = 10, sf_sip = 0x0A000000 + n, sf_stamp = demo_stamp t, sf_len = 60\<rparr>) [(10, 5), (30, 7), (20, 8), (40, 3)]) 0 10 =
   map (\<lambda>(t, n). (0x0A000000 + n, stamptime (demo_stamp t))) [(10, 5), (30, 7), (20, 8), (40, 3)]"
  by (simp add: seen_def stamp_valid_def demo_stamp_def)

text \<open>The third frame is ten seconds older than the second and is not counted; the fourth has a smaller address than the first.\<close>

theorem timestamps_compared_with_first_witness:
  "\<exists>s'. check_frames (map (\<lambda>(t, n). (12, stamped_work, stamped_bytes t n, 14)) [(10, 5), (30, 7), (20, 8), (40, 3)])
       (snd (frcore_timestamp_check_init \<lparr>timestamp_stat = replicate 310 0, timestamp_checks = []\<rparr>)) = Some s' \<and>
     timestamp_stat s' ! port_stat_index port_ip_err_pkts 0 10 = 1 \<and>
     timestamp_stat s' ! port_stat_index port_timestamp_err_pkts 0 10 = 0"
proof -
  have stat: "timestamp_stat (snd (frcore_timestamp_check_init \<lparr>timestamp_stat = replicate 310 0, timestamp_checks = []\<rparr>)) ! i = 0" if "i < 310" for i
    using that by (simp add: frcore_timestamp_check_init_def)
  have i: "port_stat_index x 0 10 < 310" for x by (rule port_stat_less) simp
  have errs: "ip_errors (map (\<lambda>(t, n). (0x0A000000 + n, stamptime (demo_stamp t))) [(10, 5), (30, 7), (20, 8), (40, 3)]) = 1"
    "time_errors (map (\<lambda>(t, n). (0x0A000000 + n, stamptime (demo_stamp t))) [(10, 5), (30, 7), (20, 8), (40, 3)]) = 0"
    by (simp_all add: ip_errors_def time_errors_def stamptime_def demo_stamp_def)
  have "length (timestamp_stat \<lparr>timestamp_stat = replicate 310 0, timestamp_checks = []\<rparr>) = stat_timestamp_max"
    by (simp add: stat_timestamp_max_def)
  from timestamps_compared_with_first [OF this demo_views] obtain s' where
    "check_frames (map (\<lambda>(t, n). (12, stamped_work, stamped_bytes t n, 14)) [(10, 5), (30, 7), (20, 8), (40, 3)])
       (snd (frcore_timestamp_check_init \<lparr>timestamp_stat = replicate 310 0, timestamp_checks = []\<rparr>)) = Some s'"
    "port_agrees (snd (frcore_timestamp_check_init \<lparr>timestamp_stat = replicate 310 0, timestamp_checks = []\<rparr>)) s'
       (map (\<lambda>(t, n). (0x0A000000 + n, stamptime (demo_stamp t))) [(10, 5), (30, 7), (20, 8), (40, 3)]) 0 10"
    unfolding demo_seen [symmetric] by auto
  then show ?thesis unfolding port_agrees_def errs stat [OF i] by auto
qed

text \<open>The time as a number is not in the order of the dates: 31 January and 1 February are the same day, and the
  number wraps at 32 bits of seconds late in 2042.\<close>

lemma stamptime_not_monotone:
  "stamptime (demo_stamp 0\<lparr>st_month := 1, st_day := 31, st_hour := 12\<rparr>) > stamptime (demo_stamp 0\<lparr>st_month := 2, st_day := 1\<rparr>)"
  "stamptime (demo_stamp 0\<lparr>st_year := 2042\<rparr>) > stamptime (demo_stamp 0\<lparr>st_year := 2043\<rparr>)"
  by (simp_all add: stamptime_def demo_stamp_def)

text \<open>The field of eleven bits cannot hold a year above the limit of the test.\<close>

lemma stamp_year_bounded:
  assumes "read_stamp eth = Some t"
  shows "st_year t \<le> 2047"
proof -
  obtain b c :: u8 where y: "st_year t = push_bit 8 (ucast b AND 0x07) OR ucast c"
    using assms by (auto simp: read_stamp_def bind_eq_Some_conv)
  have m: "(0x07 :: u32) = mask 3" "(2047 :: u32) = mask 11" by (simp_all add: mask_eq_exp_minus_1)
  have "st_year t = st_year t AND mask 11"
    unfolding y m(1) by (rule bit_word_eqI) (auto simp: bit_simps dest: bit_imp_le_length)
  then show ?thesis unfolding m(2) by (metis word_and_le1)
qed

end
