(* ===== verification/CoreCmd.thy ===== *)
theory CoreCmd
  imports Bytes
begin

text \<open>
  The commands of the core, \<^verbatim>\<open>frcore/frcore_cmd.c\<close>: the table of handlers, registration, and the processing of
  a command packet up to the response. A handler is a function of its arguments, the output buffer and
  a state \<open>'s\<close> of the program; it returns its result, the length and the buffer it wrote, and the state. What the boot
  memory holds before it is written, and whether an allocation succeeds, are arguments.
\<close>

section \<open>Data\<close>

definition FRE_UNSUPPORT :: int where [c_consts]: "FRE_UNSUPPORT = 4"
definition FRE_UNREGISTER :: int where [c_consts]: "FRE_UNREGISTER = 5"
definition FRE_EXIST :: int where [c_consts]: "FRE_EXIST = 6"
definition CMD_TYPE_TEST :: nat where [c_consts]: "CMD_TYPE_TEST = 1"
definition CMD_TYPE_CTRL :: nat where [c_consts]: "CMD_TYPE_CTRL = 2"
definition CMD_TYPE_USER :: nat where [c_consts]: "CMD_TYPE_USER = 3"
definition CMD_TYPE_DRV :: nat where [c_consts]: "CMD_TYPE_DRV = 4"
definition CMD_TYPE_MAX :: nat where [c_consts]: "CMD_TYPE_MAX = 5"
definition TEST_CMD_MAX :: nat where [c_consts]: "TEST_CMD_MAX = 6"
definition CTRL_CMD_MAX :: nat where [c_consts]: "CTRL_CMD_MAX = 6"
definition USER_CMD_MAX :: nat where [c_consts]: "USER_CMD_MAX = 58"
definition FRC_CMD_RESPOND_DATA_SZ :: nat where [c_consts]: "FRC_CMD_RESPOND_DATA_SZ = 1024"

type_synonym 's handler = "u16 \<Rightarrow> u8 list option \<Rightarrow> u8 list \<Rightarrow> 's \<Rightarrow> (int \<times> u16 \<times> u8 list \<times> 's) option"

record 's frcore_cmd_cb =
  cb_type :: u16
  cb_cmd :: u16
  cb_fn :: "'s handler option"

record 's frcore_cmd_set =
  cs_max :: u32
  cs_num :: u32
  cs_vector :: "'s frcore_cmd_cb list"

record 's core_cmds =
  frcore_cmdset :: "'s frcore_cmd_set list"
  frcore_cmd_respond_buf :: bool
  cc_state :: 's

text \<open>The header of a command, \<^verbatim>\<open>frcore_cmd_t\<close>: fields of 12, 4, 16 and 32 bits.\<close>

record frcore_cmd =
  cm_cmd :: u16
  cm_type :: u16
  cm_len :: u16
  cm_seq :: u32

section \<open>Initialisation and registration\<close>

definition blank_cb :: "'s frcore_cmd_cb" where
  "blank_cb = \<lparr>cb_type = 0, cb_cmd = 0, cb_fn = None\<rparr>"

text \<open>One vector: \<^verbatim>\<open>ok\<close> is whether the allocation succeeds; a null pointer is a vector without entries.\<close>

definition init_vector :: "bool \<Rightarrow> nat \<Rightarrow> nat \<Rightarrow> 's frcore_cmd_set list \<Rightarrow> bool \<times> 's frcore_cmd_set list" where
  "init_vector ok type mx sets =
     (if ok then (True, sets[type := \<lparr>cs_max = of_nat mx, cs_num = 0, cs_vector = replicate mx blank_cb\<rparr>])
      else (False, sets[type := (sets ! type)\<lparr>cs_vector := []\<rparr>]))"

text \<open>\<^verbatim>\<open>memset(frcore_cmdset, 0, sizeof(sizeof(...) * CMD_TYPE_MAX))\<close> clears eight bytes, \<^verbatim>\<open>max\<close> and \<^verbatim>\<open>num\<close> of the
  first set. \<open>boot\<close> is what the memory of the sets holds.\<close>

definition frcore_cmd_init :: "(nat \<Rightarrow> bool) \<Rightarrow> 's frcore_cmd_set list \<Rightarrow> 's \<Rightarrow> int \<times> 's core_cmds" where
  "frcore_cmd_init ok boot s =
     (if \<not> ok 0 then (FRE_FAIL, \<lparr>frcore_cmdset = [], frcore_cmd_respond_buf = False, cc_state = s\<rparr>)
      else
        let sets = boot[0 := (boot ! 0)\<lparr>cs_max := 0, cs_num := 0\<rparr>];
            (ok1, sets) = init_vector (ok 1) CMD_TYPE_TEST TEST_CMD_MAX sets
        in if \<not> ok1 then (FRE_FAIL, \<lparr>frcore_cmdset = sets, frcore_cmd_respond_buf = False, cc_state = s\<rparr>)
        else let (ok2, sets) = init_vector (ok 2) CMD_TYPE_CTRL CTRL_CMD_MAX sets
        in if \<not> ok2 then (FRE_FAIL, \<lparr>frcore_cmdset = sets, frcore_cmd_respond_buf = False, cc_state = s\<rparr>)
        else let (ok3, sets) = init_vector (ok 3) CMD_TYPE_USER USER_CMD_MAX sets
        in if \<not> ok3 then (FRE_FAIL, \<lparr>frcore_cmdset = sets, frcore_cmd_respond_buf = False, cc_state = s\<rparr>)
        else (if ok 4 then FRE_SUCCESS else FRE_FAIL, \<lparr>frcore_cmdset = sets, frcore_cmd_respond_buf = ok 4, cc_state = s\<rparr>))"

definition frcore_cmd_register :: "u16 \<Rightarrow> u16 \<Rightarrow> 's handler \<Rightarrow> 's core_cmds \<Rightarrow> (int \<times> 's core_cmds) option" where
  "frcore_cmd_register type cmd fn c =
     (if unat type \<ge> CMD_TYPE_MAX then Some (FRE_UNSUPPORT, c)
      else do {
        cmd_set \<leftarrow> arr_get (frcore_cmdset c) (unat type);
        if unat cmd \<ge> unat (cs_max cmd_set) then Some (FRE_UNSUPPORT, c)
        else do {
          cb \<leftarrow> arr_get (cs_vector cmd_set) (unat cmd);
          if cb_fn cb \<noteq> None then Some (FRE_EXIST, c)
          else Some (FRE_SUCCESS, c\<lparr>frcore_cmdset := (frcore_cmdset c)[unat type := cmd_set\<lparr>
              cs_vector := (cs_vector cmd_set)[unat cmd := \<lparr>cb_type = type, cb_cmd = cmd, cb_fn = Some fn\<rparr>],
              cs_num := cs_num cmd_set + 1\<rparr>]\<rparr>)
        }
      })"

section \<open>Processing a command\<close>

text \<open>The header in the memory of the big-endian core.\<close>

definition decode_cmd :: "u8 list \<Rightarrow> frcore_cmd option" where
  "decode_cmd pkt = do {
     hi \<leftarrow> UP32 pkt 0; lo \<leftarrow> UP32 pkt 4;
     Some \<lparr>cm_cmd = ucast (drop_bit 20 hi), cm_type = ucast (drop_bit 16 hi AND 0xf), cm_len = ucast hi, cm_seq = lo\<rparr>
   }"

text \<open>The bytes of \<^verbatim>\<open>frc_cmd_respond_t\<close> in the memory of the core; \<^verbatim>\<open>ret\<close> has sixteen bits.\<close>

definition respond_bytes :: "u32 \<Rightarrow> u16 \<Rightarrow> int \<Rightarrow> u8 list \<Rightarrow> u8 list" where
  "respond_bytes seq len ret data = PACK_U32 seq @ PACK_U16 len @ PACK_U16 (of_int ret) @ data"

text \<open>The handler for a command and its result, or the error that takes its place.\<close>

definition call_handler :: "frcore_cmd \<Rightarrow> u8 list option \<Rightarrow> 's core_cmds \<Rightarrow> (int \<times> u16 \<times> u8 list \<times> 's) option" where
  "call_handler cmd param c =
     (let buf = replicate FRC_CMD_RESPOND_DATA_SZ 0 in
      if unat (cm_type cmd) \<ge> CMD_TYPE_MAX then Some (FRE_UNSUPPORT, 0, buf, cc_state c)
      else do {
        cmd_set \<leftarrow> arr_get (frcore_cmdset c) (unat (cm_type cmd));
        if unat (cm_cmd cmd) \<ge> unat (cs_max cmd_set) then Some (FRE_UNSUPPORT, 0, buf, cc_state c)
        else do {
          cb \<leftarrow> arr_get (cs_vector cmd_set) (unat (cm_cmd cmd));
          case cb_fn cb of
            Some fn \<Rightarrow> fn (cm_len cmd) param buf (cc_state c)
          | None \<Rightarrow> Some (FRE_UNREGISTER, 0, buf, cc_state c)
        }
      })"

text \<open>The packet given to the output unit, if any, and the state. \<open>pkt\<close> are the bytes behind the front data.\<close>

definition frcore_process_frc_cmd :: "bool \<Rightarrow> u8 list \<Rightarrow> 's core_cmds \<Rightarrow> (u8 list option \<times> 's core_cmds) option" where
  "frcore_process_frc_cmd pko_ready pkt c =
     (if \<not> pko_ready then Some (None, c)
      else if \<not> frcore_cmd_respond_buf c then Some (None, c)
      else do {
        cmd \<leftarrow> decode_cmd pkt;
        let param = (if cm_len cmd \<noteq> 0 then Some (drop 8 pkt) else None);
        (retval, olen, data, s) \<leftarrow> call_handler cmd param c;
        Some (Some (respond_bytes (cm_seq cmd) olen retval data), c\<lparr>cc_state := s\<rparr>)
      })"

section \<open>The table as a map\<close>

text \<open>The handlers by type and command. The set of type \<open>CMD_TYPE_DRV\<close> is never written by the initialisation and
  is left out of the invariant.\<close>

definition handlers :: "'s core_cmds \<Rightarrow> nat \<times> nat \<rightharpoonup> 's handler" where
  "handlers c = (\<lambda>(t, k). if t < CMD_TYPE_DRV \<and> k < unat (cs_max (frcore_cmdset c ! t)) then cb_fn (cs_vector (frcore_cmdset c ! t) ! k) else None)"

definition cmd_limit :: "nat \<Rightarrow> nat" where
  "cmd_limit t = (if t = CMD_TYPE_TEST then TEST_CMD_MAX else if t = CMD_TYPE_CTRL then CTRL_CMD_MAX else if t = CMD_TYPE_USER then USER_CMD_MAX else 0)"

definition cmds_ok :: "'s core_cmds \<Rightarrow> bool" where
  "cmds_ok c \<longleftrightarrow> length (frcore_cmdset c) = CMD_TYPE_MAX \<and> frcore_cmd_respond_buf c \<and>
     (\<forall>t < CMD_TYPE_DRV. unat (cs_max (frcore_cmdset c ! t)) = cmd_limit t \<and> cmd_limit t \<le> length (cs_vector (frcore_cmdset c ! t)))"

lemma unat_max: "n \<le> 58 \<Longrightarrow> unat (of_nat n :: u32) = n"
  unfolding unat_of_nat by simp

lemma init_ok:
  assumes "length boot = 5" "\<forall>k. ok k"
  shows "\<exists>c. frcore_cmd_init ok boot s = (FRE_SUCCESS, c) \<and> cmds_ok c \<and> handlers c = Map.empty \<and> cc_state c = s \<and>
    frcore_cmdset c ! CMD_TYPE_DRV = boot ! CMD_TYPE_DRV"
proof -
  obtain b0 b1 b2 b3 b4 where boot: "boot = [b0, b1, b2, b3, b4]" using assms(1) by (auto simp: length_Suc_conv eval_nat_numeral)
  define sets where "sets = [b0\<lparr>cs_max := 0, cs_num := 0\<rparr>, \<lparr>cs_max = of_nat TEST_CMD_MAX, cs_num = 0, cs_vector = replicate TEST_CMD_MAX blank_cb\<rparr>,
    \<lparr>cs_max = of_nat CTRL_CMD_MAX, cs_num = 0, cs_vector = replicate CTRL_CMD_MAX blank_cb\<rparr>,
    \<lparr>cs_max = of_nat USER_CMD_MAX, cs_num = 0, cs_vector = replicate USER_CMD_MAX blank_cb\<rparr>, b4]"
  let ?c = "\<lparr>frcore_cmdset = sets, frcore_cmd_respond_buf = True, cc_state = s\<rparr>"
  have run: "frcore_cmd_init ok boot s = (FRE_SUCCESS, ?c)"
    using assms(2) by (simp add: frcore_cmd_init_def init_vector_def Let_def boot sets_def CMD_TYPE_TEST_def CMD_TYPE_CTRL_def CMD_TYPE_USER_def eval_nat_numeral)
  have four: "t < 4 \<longleftrightarrow> t = 0 \<or> t = 1 \<or> t = 2 \<or> t = 3" for t :: nat by auto
  have ok: "cmds_ok ?c"
    unfolding cmds_ok_def CMD_TYPE_DRV_def four
    by (auto simp: sets_def cmd_limit_def CMD_TYPE_MAX_def CMD_TYPE_TEST_def CMD_TYPE_CTRL_def CMD_TYPE_USER_def TEST_CMD_MAX_def CTRL_CMD_MAX_def USER_CMD_MAX_def)
  have "handlers ?c (t, k) = None" for t k
    unfolding handlers_def CMD_TYPE_DRV_def four
    by (auto simp: sets_def blank_cb_def TEST_CMD_MAX_def CTRL_CMD_MAX_def USER_CMD_MAX_def)
  then have "handlers ?c = Map.empty" by auto
  then show ?thesis using run ok by (simp add: sets_def boot CMD_TYPE_DRV_def)
qed

lemma cmds_ok_set:
  assumes "cmds_ok c" "unat t < CMD_TYPE_DRV"
  shows "unat t < length (frcore_cmdset c)" "\<not> CMD_TYPE_MAX \<le> unat t" "unat (cs_max (frcore_cmdset c ! unat t)) = cmd_limit (unat t)"
    "cmd_limit (unat t) \<le> length (cs_vector (frcore_cmdset c ! unat t))"
  using assms by (auto simp: cmds_ok_def CMD_TYPE_DRV_def CMD_TYPE_MAX_def)

lemma register_outcome:
  assumes ok: "cmds_ok c" and t: "unat type < CMD_TYPE_DRV"
  shows "\<exists>rv c'. frcore_cmd_register type cmd fn c = Some (rv, c') \<and> cmds_ok c' \<and> cc_state c' = cc_state c \<and>
    (if cmd_limit (unat type) \<le> unat cmd then rv = FRE_UNSUPPORT \<and> c' = c
     else if handlers c (unat type, unat cmd) \<noteq> None then rv = FRE_EXIST \<and> c' = c
     else rv = FRE_SUCCESS \<and> handlers c' = (handlers c)(((unat type, unat cmd)) \<mapsto> fn))"
proof -
  let ?t = "unat type" and ?k = "unat cmd"
  note st = cmds_ok_set [OF ok t]
  let ?set = "frcore_cmdset c ! ?t"
  show ?thesis
  proof (cases "cmd_limit ?t \<le> ?k")
    case True
    then show ?thesis using st ok by (simp add: frcore_cmd_register_def)
  next
    case False
    then have k: "?k < length (cs_vector ?set)" using st(4) by simp
    have h: "handlers c (?t, ?k) = cb_fn (cs_vector ?set ! ?k)" using t False st(3) by (simp add: handlers_def)
    show ?thesis
    proof (cases "cb_fn (cs_vector ?set ! ?k)")
      case (Some f)
      then show ?thesis using st k False h ok by (simp add: frcore_cmd_register_def)
    next
      case None
      define set' where "set' = ?set\<lparr>cs_vector := (cs_vector ?set)[?k := \<lparr>cb_type = type, cb_cmd = cmd, cb_fn = Some fn\<rparr>], cs_num := cs_num ?set + 1\<rparr>"
      define c' where "c' = c\<lparr>frcore_cmdset := (frcore_cmdset c)[?t := set']\<rparr>"
      have run: "frcore_cmd_register type cmd fn c = Some (FRE_SUCCESS, c')"
        using st k False None by (simp add: frcore_cmd_register_def c'_def set'_def)
      have at: "frcore_cmdset c' ! u = (if u = ?t then set' else frcore_cmdset c ! u)" for u
        using st(1) by (simp add: c'_def)
      have ok': "cmds_ok c'" using ok by (auto simp: cmds_ok_def at) (auto simp: c'_def set'_def)
      have "handlers c' (u, j) = ((handlers c)((?t, ?k) \<mapsto> fn)) (u, j)" for u j
        using t False st(3,4) k by (auto simp: handlers_def at set'_def nth_list_update)
      then have "handlers c' = (handlers c)((?t, ?k) \<mapsto> fn)" by auto
      then show ?thesis using run ok' False h None by (simp add: c'_def)
    qed
  qed
qed

lemma call_handler_outcome:
  assumes ok: "cmds_ok c" and t: "unat (cm_type cmd) < CMD_TYPE_DRV"
  shows "call_handler cmd param c = (case handlers c (unat (cm_type cmd), unat (cm_cmd cmd)) of
      Some fn \<Rightarrow> fn (cm_len cmd) param (replicate 1024 0) (cc_state c)
    | None \<Rightarrow> Some (if unat (cm_cmd cmd) < cmd_limit (unat (cm_type cmd)) then FRE_UNREGISTER else FRE_UNSUPPORT, 0, replicate 1024 0, cc_state c))"
  using cmds_ok_set [OF ok t] t by (auto simp: call_handler_def handlers_def Let_def FRC_CMD_RESPOND_DATA_SZ_def split: option.split)

section \<open>Registration in sequence\<close>

text \<open>The modules of the core register their commands one after the other, most of them without a look at the result.\<close>

definition register_all :: "(u16 \<times> u16 \<times> 's handler) list \<Rightarrow> 's core_cmds \<Rightarrow> 's core_cmds option" where
  "register_all regs = for_each regs (\<lambda>(type, cmd, fn) c. map_option snd (frcore_cmd_register type cmd fn c))"

fun first_registered :: "(u16 \<times> u16 \<times> 's handler) list \<Rightarrow> nat \<times> nat \<rightharpoonup> 's handler" where
  "first_registered [] key = None"
| "first_registered ((type, cmd, fn) # regs) key =
     (if key = (unat type, unat cmd) \<and> unat cmd < cmd_limit (unat type) then Some fn else first_registered regs key)"

lemma register_all_handlers:
  assumes "cmds_ok c" "\<forall>(type, cmd, fn) \<in> set regs. unat type < CMD_TYPE_DRV"
  shows "\<exists>c'. register_all regs c = Some c' \<and> cmds_ok c' \<and> cc_state c' = cc_state c \<and> handlers c' = first_registered regs ++ handlers c"
  using assms
proof (induction regs arbitrary: c)
  case Nil
  then show ?case by (auto simp: register_all_def map_add_def)
next
  case (Cons x regs)
  obtain type cmd fn where x: "x = (type, cmd, fn)" by (cases x)
  let ?key = "(unat type, unat cmd)"
  obtain rv c1 where r: "frcore_cmd_register type cmd fn c = Some (rv, c1)" "cmds_ok c1" "cc_state c1 = cc_state c"
      "if cmd_limit (unat type) \<le> unat cmd then rv = FRE_UNSUPPORT \<and> c1 = c
       else if handlers c ?key \<noteq> None then rv = FRE_EXIST \<and> c1 = c
       else rv = FRE_SUCCESS \<and> handlers c1 = (handlers c)(?key \<mapsto> fn)"
    using register_outcome [OF Cons.prems(1), of type cmd fn] Cons.prems(2) x by auto
  obtain c2 where c2: "register_all regs c1 = Some c2" "cmds_ok c2" "cc_state c2 = cc_state c1" "handlers c2 = first_registered regs ++ handlers c1"
    using Cons.IH [OF r(2)] Cons.prems(2) by auto
  have "handlers c2 k = (first_registered (x # regs) ++ handlers c) k" for k
    using r(4) c2(4) by (auto simp: x map_add_def split: option.split if_splits)
  then have "handlers c2 = first_registered (x # regs) ++ handlers c" by (rule ext)
  moreover have "register_all (x # regs) c = Some c2" using r(1) c2(1) by (simp add: register_all_def x)
  ultimately show ?case using r(3) c2(2,3) by simp
qed



end
