(* ===== verification/DrvCmd.thy ===== *)
theory DrvCmd
  imports CoreCmd
begin

text \<open>
  The driver's side of a command, \<^verbatim>\<open>frcdrv/frcdrv_cmd.c\<close>: the list of requests that wait for a response, the packet
  that carries a command to the core, and the response that comes back. The host is little-endian.

  A request is a structure in kernel memory, named by its address; the list \<^verbatim>\<open>frcdrv_core_req_head\<close> is a list of
  addresses with their structures. Taking a node out of the list that is not in it follows null pointers, a fault.
  Whether memory is there and whether the vendor's library accepts an instruction are arguments, and so is
  its function \<^verbatim>\<open>octeon_swap_8B_data\<close>.
\<close>

section \<open>Data\<close>

definition FRE_TIMEOUT :: int where [c_consts]: "FRE_TIMEOUT = 13"
definition FRC_CORE_CMD_ARG_MAX :: nat where [c_consts]: "FRC_CORE_CMD_ARG_MAX = 512"
definition FRCORE_CMD_INPUT_MAX :: nat where [c_consts]: "FRCORE_CMD_INPUT_MAX = 64"
definition FRCDRV_CORE_REQ_TIMEOUT :: nat where [c_consts]: "FRCDRV_CORE_REQ_TIMEOUT = 300"
definition CORE_REQ_WAITING :: u32 where [c_consts]: "CORE_REQ_WAITING = 0"
definition CORE_REQ_RESPOND :: u32 where [c_consts]: "CORE_REQ_RESPOND = 1"
definition sizeof_respond :: nat where [c_consts]: "sizeof_respond = 1032"

record frc_cmd_respond =
  rp_ret :: u16
  rp_len :: u16
  rp_seq :: u32
  rp_data :: "u8 list"

record frcdrv_core_req =
  rq_seq :: u32
  rq_state :: u32
  rq_respond :: frc_cmd_respond

record drv_cmds =
  frcdrv_core_req_head :: "(nat \<times> frcdrv_core_req) list"
  frcdrv_core_requset_seq :: u32
  frcdrv_cmd_respond_pkts :: u64
  frcdrv_cmd_respond_bytes :: u64
  frcdrv_cmd_respond_min :: u64
  frcdrv_cmd_respond_max :: u64

type_synonym swap = "u8 list \<Rightarrow> nat \<Rightarrow> u8 list"

section \<open>The list of requests\<close>

definition frcdrv_core_req_add :: "nat \<Rightarrow> frcdrv_core_req \<Rightarrow> drv_cmds \<Rightarrow> u32 \<times> drv_cmds" where
  "frcdrv_core_req_add addr core_req d =
     (let seq = frcdrv_core_requset_seq d + 1 in
      (seq, d\<lparr>frcdrv_core_requset_seq := seq,
         frcdrv_core_req_head := frcdrv_core_req_head d @ [(addr, core_req\<lparr>rq_seq := seq, rq_state := CORE_REQ_WAITING\<rparr>)]\<rparr>))"

definition frcdrv_core_req_remove :: "nat \<Rightarrow> drv_cmds \<Rightarrow> drv_cmds option" where
  "frcdrv_core_req_remove addr d =
     (if addr \<in> fst ` set (frcdrv_core_req_head d)
      then Some (d\<lparr>frcdrv_core_req_head := filter (\<lambda>(a, r). a \<noteq> addr) (frcdrv_core_req_head d)\<rparr>)
      else None)"

definition answer :: "frc_cmd_respond \<Rightarrow> frcdrv_core_req \<Rightarrow> frcdrv_core_req" where
  "answer respond r = (if rq_seq r = rp_seq respond then r\<lparr>rq_respond := respond, rq_state := CORE_REQ_RESPOND\<rparr> else r)"

definition frcdrv_core_req_respond :: "frc_cmd_respond \<Rightarrow> drv_cmds \<Rightarrow> int \<times> drv_cmds" where
  "frcdrv_core_req_respond respond d =
     (if \<exists>(a, r) \<in> set (frcdrv_core_req_head d). rq_seq r = rp_seq respond then 0 else 1,
      d\<lparr>frcdrv_core_req_head := map (\<lambda>(a, r). (a, answer respond r)) (frcdrv_core_req_head d)\<rparr>)"

section \<open>Responses\<close>

text \<open>Copying the buffers of a received packet into \<^verbatim>\<open>respond\<close> as far as they fit.\<close>

fun gather :: "u8 list list \<Rightarrow> u8 list \<Rightarrow> u8 list" where
  "gather [] acc = acc"
| "gather (b # bs) acc = (if length acc + length b \<le> sizeof_respond then gather bs (acc @ b) else acc)"

text \<open>The structure in the memory of the little-endian host: its first word has \<^verbatim>\<open>ret\<close> in the low bits.\<close>

definition host_respond :: "u8 list \<Rightarrow> frc_cmd_respond option" where
  "host_respond m = do {
     let w = rev (take 8 m);
     seq \<leftarrow> UP32 w 0; len \<leftarrow> UP16 w 4; ret \<leftarrow> UP16 w 6;
     Some \<lparr>rp_ret = ret, rp_len = len, rp_seq = seq, rp_data = drop 8 m\<rparr>
   }"

definition frcdrv_core_respond_dispatch :: "swap \<Rightarrow> u8 list list \<Rightarrow> drv_cmds \<Rightarrow> drv_cmds option" where
  "frcdrv_core_respond_dispatch swap bufs d = do {
     let n = of_nat (sum_list (map length bufs));
     let d = d\<lparr>frcdrv_cmd_respond_bytes := frcdrv_cmd_respond_bytes d + n,
               frcdrv_cmd_respond_min := min n (frcdrv_cmd_respond_min d), frcdrv_cmd_respond_max := max n (frcdrv_cmd_respond_max d)\<rparr>;
     let got = gather bufs [];
     respond \<leftarrow> host_respond (swap (got @ replicate (sizeof_respond - length got) 0) 1);
     let (timeout, d) = frcdrv_core_req_respond respond d;
     Some (d\<lparr>frcdrv_cmd_respond_pkts := frcdrv_cmd_respond_pkts d + 1\<rparr>)
   }"

section \<open>Sending a command\<close>

text \<open>\<^verbatim>\<open>frcore_cmd_t\<close> in the memory of the host: the assignments cut \<^verbatim>\<open>cmd\<close> to twelve and \<^verbatim>\<open>type\<close> to four bits.\<close>

definition host_cmd :: "frcore_cmd \<Rightarrow> u8 list" where
  "host_cmd c = rev (PACK_U32 (push_bit 20 (ucast (cm_cmd c)) OR push_bit 16 (ucast (cm_type c) AND 0xf) OR ucast (cm_len c)) @ PACK_U32 (cm_seq c))"

text \<open>The bytes at \<^verbatim>\<open>si->dptr\<close>, \<^verbatim>\<open>si->ih.dlengsz\<close> of them. \<open>param\<close> is \<open>None\<close> for a null pointer.\<close>

definition cmd_si_data :: "swap \<Rightarrow> frcore_cmd \<Rightarrow> u8 list option \<Rightarrow> u8 list option" where
  "cmd_si_data swap c param =
     (let len = unat (cm_len c) in
      case param of
        Some p \<Rightarrow> if len = 0 then Some (swap (host_cmd c) 1)
                  else if len \<le> length p then Some (swap (host_cmd c) 1 @ swap (take len p) (len div 8)) else None
      | None \<Rightarrow> Some (swap (host_cmd c) 1 @ replicate len 0))"

text \<open>What happens outside: the two allocations of \<^verbatim>\<open>frcdrv_core_cmd\<close>, that of the instruction, and whether it is accepted.\<close>

record send_outcome =
  so_core_req :: bool
  so_cpkt :: bool
  so_si :: bool
  so_accepted :: bool

definition frcdrv_send_cmd_pkt :: "swap \<Rightarrow> send_outcome \<Rightarrow> frcore_cmd \<Rightarrow> u8 list option \<Rightarrow> (int \<times> u8 list option) option" where
  "frcdrv_send_cmd_pkt swap o1 c param =
     (if \<not> so_si o1 then Some (FRE_FAIL, None)
      else do {
        pkt \<leftarrow> cmd_si_data swap c param;
        if so_accepted o1 then Some (FRE_SUCCESS, Some pkt) else Some (FRE_FAIL, None)
      })"

definition blank_req :: frcdrv_core_req where
  "blank_req = \<lparr>rq_seq = 0, rq_state = 0, rq_respond = \<lparr>rp_ret = 0, rp_len = 0, rp_seq = 0, rp_data = replicate 1024 0\<rparr>\<rparr>"

text \<open>The part of \<^verbatim>\<open>frcdrv_core_cmd\<close> before the loop that waits: it returns, or it waits for the request at \<open>addr\<close>
  with a packet on its way.\<close>

datatype started = Returned int | Waits "u8 list"

definition core_cmd_start :: "swap \<Rightarrow> send_outcome \<Rightarrow> nat \<Rightarrow> u16 \<Rightarrow> u16 \<Rightarrow> u16 \<Rightarrow> u8 list option \<Rightarrow> drv_cmds \<Rightarrow>
    (started \<times> drv_cmds) option" where
  "core_cmd_start swap o1 addr type cmd ilen input d =
     (if unat ilen > FRC_CORE_CMD_ARG_MAX then Some (Returned FRE_PARAM, d)
      else if unat ilen > FRCORE_CMD_INPUT_MAX then Some (Returned FRE_PARAM, d)
      else if \<not> so_core_req o1 then Some (Returned FRE_MEMORY, d)
      else if \<not> so_cpkt o1 then do {
        d \<leftarrow> frcdrv_core_req_remove addr d;
        Some (Returned FRE_MEMORY, d)
      }
      else do {
        let (seq, d) = frcdrv_core_req_add addr blank_req d;
        (rv, pkt) \<leftarrow> frcdrv_send_cmd_pkt swap o1 \<lparr>cm_cmd = cmd, cm_type = type, cm_len = ilen, cm_seq = seq\<rparr> input;
        case pkt of
          Some p \<Rightarrow> Some (Waits p, d)
        | None \<Rightarrow> do {
            d \<leftarrow> frcdrv_core_req_remove addr d;
            Some (Returned FRE_FAIL, d)
          }
      })"

definition req_at :: "nat \<Rightarrow> drv_cmds \<Rightarrow> frcdrv_core_req option" where
  "req_at addr d = map_of (frcdrv_core_req_head d) addr"

text \<open>The part behind the loop. \<open>out\<close> is \<open>*olen\<close> and whether \<^verbatim>\<open>output\<close> is there, \<open>None\<close> if \<^verbatim>\<open>olen\<close> is a null pointer.
  The result is the return code and what was copied to \<^verbatim>\<open>output\<close>; \<^verbatim>\<open>*olen\<close> is its length.\<close>

definition core_cmd_end :: "nat \<Rightarrow> (u16 \<times> bool) option \<Rightarrow> drv_cmds \<Rightarrow> ((int \<times> u8 list option) \<times> drv_cmds) option" where
  "core_cmd_end addr out d = do {
     r \<leftarrow> req_at addr d;
     res \<leftarrow> (if rq_state r \<noteq> CORE_REQ_RESPOND then Some (FRE_TIMEOUT, None)
       else let out_len = (case out of Some (n, _) \<Rightarrow> unat n | None \<Rightarrow> 0); p = rq_respond r in
         if out_len < unat (rp_len p) then Some (FRE_EXCEED, None)
         else if int (unat (rp_ret p)) = FRE_SUCCESS \<and> (\<exists>n. out = Some (n, True))
         then if unat (rp_len p) \<le> length (rp_data p) then Some (FRE_SUCCESS, Some (take (unat (rp_len p)) (rp_data p))) else None
         else Some (int (unat (rp_ret p)), None));
     d \<leftarrow> frcdrv_core_req_remove addr d;
     Some (res, d)
   }"

text \<open>The loop: up to \<open>n\<close> polls, before each of which the responses of \<open>arrive\<close> come in.\<close>

fun wait_respond :: "swap \<Rightarrow> nat \<Rightarrow> u8 list list list list \<Rightarrow> drv_cmds \<Rightarrow> drv_cmds option" where
  "wait_respond swap addr [] d = Some d"
| "wait_respond swap addr (now # later) d = do {
     d \<leftarrow> for_each now (frcdrv_core_respond_dispatch swap) d;
     r \<leftarrow> req_at addr d;
     if rq_state r = CORE_REQ_RESPOND then Some d else wait_respond swap addr later d
   }"

definition frcdrv_core_cmd :: "swap \<Rightarrow> send_outcome \<Rightarrow> (u8 list \<Rightarrow> u8 list list list list) \<Rightarrow> nat \<Rightarrow> u16 \<Rightarrow> u16 \<Rightarrow> u16 \<Rightarrow> u8 list option \<Rightarrow>
    (u16 \<times> bool) option \<Rightarrow> drv_cmds \<Rightarrow> ((int \<times> u8 list option) \<times> drv_cmds) option" where
  "frcdrv_core_cmd swap o1 arrive addr type cmd ilen input out d = do {
     (b, d) \<leftarrow> core_cmd_start swap o1 addr type cmd ilen input d;
     case b of
       Returned rv \<Rightarrow> Some ((rv, None), d)
     | Waits pkt \<Rightarrow> do {
         d \<leftarrow> wait_respond swap addr (take FRCDRV_CORE_REQ_TIMEOUT (arrive pkt)) d;
         core_cmd_end addr out d
       }
   }"

definition frcdrv_cmd_init :: "bool \<Rightarrow> drv_cmds \<Rightarrow> int \<times> drv_cmds" where
  "frcdrv_cmd_init registered d = (if registered then (FRE_SUCCESS, d\<lparr>frcdrv_core_req_head := []\<rparr>) else (FRE_FAIL, d))"

text \<open>When the second allocation fails, the request that is taken out of the list was never put into it: its links are null.\<close>

lemma second_allocation_faults:
  assumes "so_core_req o1" "\<not> so_cpkt o1" "unat ilen \<le> FRCORE_CMD_INPUT_MAX" "addr \<notin> fst ` set (frcdrv_core_req_head d)"
  shows "core_cmd_start swap o1 addr type cmd ilen input d = None"
  using assms by (simp add: core_cmd_start_def frcdrv_core_req_remove_def FRC_CORE_CMD_ARG_MAX_def FRCORE_CMD_INPUT_MAX_def)

end
