(* ===== verification/CmdPath.thy ===== *)
theory CmdPath
  imports DrvCmd
begin

text \<open>
  A command from the driver to the core and back (\<open>DrvCmd\<close> and \<open>CoreCmd\<close> together): any number of processes issue
  commands, packets and responses are under way in any order and may be lost, and processes stop waiting at any time.
\<close>

section \<open>Encoding\<close>

text \<open>What the driver relies on in \<^verbatim>\<open>octeon_swap_8B_data(data, n)\<close>: it turns the bytes of the first \<open>n\<close> words around.\<close>

definition swaps_words :: "swap \<Rightarrow> bool" where
  "swaps_words swap \<longleftrightarrow> (\<forall>xs n. 8 * n \<le> length xs \<longrightarrow>
     swap xs n = concat (map (\<lambda>k. rev (take 8 (drop (8 * k) xs))) [0..<n]) @ drop (8 * n) xs)"

lemma swap_one: "swaps_words swap \<Longrightarrow> 8 \<le> length xs \<Longrightarrow> swap xs 1 = rev (take 8 xs) @ drop 8 xs"
  unfolding swaps_words_def by (drule spec [of _ xs], drule spec [of _ 1]) simp

lemma UP32_pack: "UP32 (PACK_U32 v @ rest) 0 = Some v" "UP32 (PACK_U32 w @ PACK_U32 v @ rest) 4 = Some v"
  by (simp_all add: UP32_unpack)

lemma UP16_pack: "UP16 (PACK_U32 w @ PACK_U16 v @ rest) 4 = Some v" "UP16 (PACK_U32 w @ PACK_U16 u @ PACK_U16 v @ rest) 6 = Some v"
  by (simp_all add: UP16_unpack)

lemma mask_lits: "(0xf :: u32) = mask 4" "(0xf :: u16) = mask 4" "(0xfff :: u16) = mask 12"
  by (simp_all add: mask_eq_exp_minus_1)

text \<open>The core reads the header that the host wrote, with the command cut to twelve bits and the type to four.\<close>

lemma header_roundtrip:
  assumes "swaps_words swap"
  shows "decode_cmd (swap (host_cmd c) 1 @ rest) = Some (c\<lparr>cm_cmd := cm_cmd c AND 0xfff, cm_type := cm_type c AND 0xf\<rparr>)"
proof -
  define hi where "hi = push_bit 20 (ucast (cm_cmd c)) OR push_bit 16 (ucast (cm_type c) AND 0xf) OR (ucast (cm_len c) :: u32)"
  have bits: "bit (cm_len c) n \<Longrightarrow> n < 16" for n using bit_imp_le_length [of "cm_len c" n] by simp
  have f: "ucast (drop_bit 20 hi) = cm_cmd c AND 0xfff" "ucast (drop_bit 16 hi AND 0xf) = cm_type c AND 0xf" "ucast hi = cm_len c"
    unfolding hi_def mask_lits by (rule bit_word_eqI; auto simp: bit_simps dest: bits)+
  have "swap (host_cmd c) 1 = PACK_U32 hi @ PACK_U32 (cm_seq c)"
    using swap_one [OF assms, of "host_cmd c"] by (simp add: host_cmd_def hi_def)
  then show ?thesis using f by (simp add: decode_cmd_def UP32_pack)
qed

text \<open>The host reads the response that the core wrote.\<close>

lemma gather_all: "length acc + sum_list (map length bs) \<le> sizeof_respond \<Longrightarrow> gather bs acc = acc @ concat bs"
  by (induction bs arbitrary: acc) auto

lemma respond_roundtrip:
  assumes "swaps_words swap" "length data = 1024" "concat bufs = respond_bytes seq len ret data"
  shows "host_respond (swap (gather bufs [] @ replicate (sizeof_respond - length (gather bufs [])) 0) 1) =
    Some \<lparr>rp_ret = of_int ret, rp_len = len, rp_seq = seq, rp_data = data\<rparr>"
proof -
  have n: "length (concat bufs) = 1032" using assms(2,3) by (simp add: respond_bytes_def)
  then have "sum_list (map length bufs) = 1032" by (simp add: length_concat)
  then have g: "gather bufs [] = concat bufs" using gather_all [of "[]" bufs] by (simp add: sizeof_respond_def)
  have sw: "swap (concat bufs) 1 = rev (take 8 (concat bufs)) @ drop 8 (concat bufs)" using swap_one [OF assms(1)] n by simp
  let ?h = "PACK_U32 seq @ PACK_U16 len @ PACK_U16 (of_int ret)"
  have h: "length ?h = 8" "concat bufs = ?h @ data" using assms(3) by (simp_all add: respond_bytes_def)
  then have t: "take 8 (concat bufs) = ?h" "drop 8 (concat bufs) = data" by simp_all
  have r: "UP32 ?h 0 = Some seq" "UP16 ?h 4 = Some len" "UP16 ?h 6 = Some (of_int ret)"
    using UP32_pack(1) [of seq "PACK_U16 len @ PACK_U16 (of_int ret)"] UP16_pack(1) [of seq len "PACK_U16 (of_int ret)"] UP16_pack(2) [of seq len "of_int ret" "[]"]
    by simp_all
  have eight: "take 8 (rev ?h @ data) = rev ?h" "drop 8 (rev ?h @ data) = data" using h(1) by simp_all
  have pad: "replicate (sizeof_respond - length (concat bufs)) (0 :: u8) = []" by (simp add: n sizeof_respond_def)
  show ?thesis
    unfolding g pad append_Nil2 sw t host_respond_def Let_def eight rev_rev_ident r by simp
qed

section \<open>The system\<close>

record issue =
  is_addr :: nat
  is_type :: u16
  is_cmd :: u16
  is_len :: u16
  is_input :: "u8 list option"

text \<open>Beside the driver, the core and what is under way, the system remembers the commands by their sequence number,
  what the core ran, and what was returned.\<close>

record 's link =
  lk_drv :: drv_cmds
  lk_core :: "'s core_cmds"
  lk_out :: "u8 list list"
  lk_in :: "u8 list list list"
  lk_count :: nat
  lk_issued :: "u32 \<Rightarrow> issue option"
  lk_ran :: "(u8 list \<times> 's core_cmds \<times> u8 list option \<times> 's core_cmds) list"
  lk_done :: "(u32 \<times> (u16 \<times> bool) option \<times> int \<times> u8 list option) list"

abbreviation pending :: "'s link \<Rightarrow> (nat \<times> frcdrv_core_req) list" where
  "pending l \<equiv> frcdrv_core_req_head (lk_drv l)"

inductive link_step :: "swap \<Rightarrow> 's link \<Rightarrow> 's link \<Rightarrow> bool" for swap where
  issue_cmd: "core_cmd_start swap o1 addr type cmd ilen input (lk_drv l) = Some (Waits pkt, d) \<Longrightarrow> addr \<notin> fst ` set (pending l) \<Longrightarrow>
    link_step swap l (l\<lparr>lk_drv := d, lk_out := lk_out l @ [pkt], lk_count := Suc (lk_count l),
      lk_issued := (lk_issued l)(frcdrv_core_requset_seq d \<mapsto> \<lparr>is_addr = addr, is_type = type, is_cmd = cmd, is_len = ilen, is_input = input\<rparr>)\<rparr>)"
| refuse_cmd: "core_cmd_start swap o1 addr type cmd ilen input (lk_drv l) = Some (Returned rv, d) \<Longrightarrow> addr \<notin> fst ` set (pending l) \<Longrightarrow>
    link_step swap l (l\<lparr>lk_drv := d, lk_count := lk_count l + (if frcdrv_core_requset_seq d = frcdrv_core_requset_seq (lk_drv l) then 0 else 1)\<rparr>)"
| run_cmd: "pkt \<in> set (lk_out l) \<Longrightarrow> frcore_process_frc_cmd ready pkt (lk_core l) = Some (resp, c) \<Longrightarrow>
    concat bufs = (case resp of Some r \<Rightarrow> r | None \<Rightarrow> []) \<Longrightarrow>
    link_step swap l (l\<lparr>lk_core := c, lk_out := remove1 pkt (lk_out l), lk_in := (if resp = None then lk_in l else lk_in l @ [bufs]),
      lk_ran := lk_ran l @ [(pkt, lk_core l, resp, c)]\<rparr>)"
| deliver: "bufs \<in> set (lk_in l) \<Longrightarrow> frcdrv_core_respond_dispatch swap bufs (lk_drv l) = Some d \<Longrightarrow>
    link_step swap l (l\<lparr>lk_drv := d, lk_in := remove1 bufs (lk_in l)\<rparr>)"
| lose_cmd: "link_step swap l (l\<lparr>lk_out := remove1 pkt (lk_out l)\<rparr>)"
| lose_respond: "link_step swap l (l\<lparr>lk_in := remove1 bufs (lk_in l)\<rparr>)"
| finish: "(addr, r) \<in> set (pending l) \<Longrightarrow> core_cmd_end addr out (lk_drv l) = Some (res, d) \<Longrightarrow>
    link_step swap l (l\<lparr>lk_drv := d, lk_done := lk_done l @ [(rq_seq r, out, res)]\<rparr>)"
| expire: "(addr, r) \<in> set (pending l) \<Longrightarrow> frcdrv_core_req_remove addr (lk_drv l) = Some d \<Longrightarrow>
    link_step swap l (l\<lparr>lk_drv := d, lk_done := lk_done l @ [(rq_seq r, out, FRE_TIMEOUT, None)]\<rparr>)"

text \<open>What \<^verbatim>\<open>frcdrv_core_cmd\<close> makes of a response.\<close>

definition result_of :: "(u16 \<times> bool) option \<Rightarrow> frc_cmd_respond \<Rightarrow> (int \<times> u8 list option) option" where
  "result_of out p =
     (if (case out of Some (n, _) \<Rightarrow> unat n | None \<Rightarrow> 0) < unat (rp_len p) then Some (FRE_EXCEED, None)
      else if int (unat (rp_ret p)) = FRE_SUCCESS \<and> (\<exists>n. out = Some (n, True))
      then if unat (rp_len p) \<le> length (rp_data p) then Some (FRE_SUCCESS, Some (take (unat (rp_len p)) (rp_data p))) else None
      else Some (int (unat (rp_ret p)), None))"

text \<open>The response \<open>p\<close> is what the core answered when it ran the packet of the command with number \<open>s\<close>.\<close>

definition cmd_of :: "u32 \<Rightarrow> issue \<Rightarrow> frcore_cmd" where
  "cmd_of s i = \<lparr>cm_cmd = is_cmd i, cm_type = is_type i, cm_len = is_len i, cm_seq = s\<rparr>"

definition answered :: "swap \<Rightarrow> 's link \<Rightarrow> u32 \<Rightarrow> issue \<Rightarrow> frc_cmd_respond \<Rightarrow> bool" where
  "answered swap l s i p \<longleftrightarrow> (\<exists>pkt c c' len ret data. cmd_si_data swap (cmd_of s i) (is_input i) = Some pkt \<and>
     (pkt, c, Some (respond_bytes s len ret data), c') \<in> set (lk_ran l) \<and>
     p = \<lparr>rp_ret = of_int ret, rp_len = len, rp_seq = s, rp_data = data\<rparr> \<and> length data = 1024)"

definition keeps_buffer :: "'s core_cmds \<Rightarrow> bool" where
  "keeps_buffer c \<longleftrightarrow> (\<forall>set \<in> List.set (frcore_cmdset c). \<forall>cb \<in> List.set (cs_vector set). \<forall>fn. cb_fn cb = Some fn \<longrightarrow>
     (\<forall>n p buf s rv len data s'. length buf = 1024 \<longrightarrow> fn n p buf s = Some (rv, len, data, s') \<longrightarrow> length data = 1024))"

text \<open>What holds of each request in the list, each packet, each response and each result.\<close>

definition req_ok :: "swap \<Rightarrow> 's link \<Rightarrow> nat \<times> frcdrv_core_req \<Rightarrow> bool" where
  "req_ok swap l x \<longleftrightarrow> (\<exists>i. lk_issued l (rq_seq (snd x)) = Some i \<and> is_addr i = fst x \<and>
     (rq_state (snd x) = CORE_REQ_RESPOND \<longrightarrow> answered swap l (rq_seq (snd x)) i (rq_respond (snd x))))"

definition pkt_ok :: "swap \<Rightarrow> 's link \<Rightarrow> u8 list \<Rightarrow> bool" where
  "pkt_ok swap l pkt \<longleftrightarrow> (\<exists>s i. lk_issued l s = Some i \<and> cmd_si_data swap (cmd_of s i) (is_input i) = Some pkt)"

definition host_view :: "swap \<Rightarrow> u8 list list \<Rightarrow> frc_cmd_respond option" where
  "host_view swap bufs = host_respond (swap (gather bufs [] @ replicate (sizeof_respond - length (gather bufs [])) 0) 1)"

definition bufs_ok :: "swap \<Rightarrow> 's link \<Rightarrow> u8 list list \<Rightarrow> bool" where
  "bufs_ok swap l bufs \<longleftrightarrow> (\<exists>s i p. lk_issued l s = Some i \<and> answered swap l s i p \<and> host_view swap bufs = Some p)"

definition done_ok :: "swap \<Rightarrow> 's link \<Rightarrow> u32 \<times> (u16 \<times> bool) option \<times> int \<times> u8 list option \<Rightarrow> bool" where
  "done_ok swap l = (\<lambda>(s, out, res). fst res = FRE_TIMEOUT \<or> (\<exists>i p. lk_issued l s = Some i \<and> answered swap l s i p \<and> result_of out p = Some res))"

definition link_ok :: "swap \<Rightarrow> 's link \<Rightarrow> bool" where
  "link_ok swap l \<longleftrightarrow>
     frcdrv_core_requset_seq (lk_drv l) = of_nat (lk_count l) \<and> (\<forall>s \<in> dom (lk_issued l). unat s \<le> lk_count l) \<and>
     distinct (map fst (pending l)) \<and> (\<forall>x \<in> set (pending l). req_ok swap l x) \<and>
     (\<forall>pkt \<in> set (lk_out l). pkt_ok swap l pkt) \<and> (\<forall>bufs \<in> set (lk_in l). bufs_ok swap l bufs) \<and>
     keeps_buffer (lk_core l) \<and>
     (\<forall>(pkt, c, resp, c') \<in> set (lk_ran l). \<exists>ready. frcore_process_frc_cmd ready pkt c = Some (resp, c')) \<and>
     (\<forall>x \<in> set (lk_done l). done_ok swap l x)"

lemmas link_parts = req_ok_def pkt_ok_def bufs_ok_def done_ok_def

section \<open>The invariant\<close>

text \<open>Commands and runs are only added.\<close>

definition extends :: "'s link \<Rightarrow> 's link \<Rightarrow> bool" where
  "extends l l' \<longleftrightarrow> (\<forall>s i. lk_issued l s = Some i \<longrightarrow> lk_issued l' s = Some i) \<and> set (lk_ran l) \<subseteq> set (lk_ran l')"

lemma answered_mono: "extends l l' \<Longrightarrow> answered swap l s i p \<Longrightarrow> answered swap l' s i p"
  unfolding extends_def answered_def by blast

lemma parts_mono:
  assumes "extends l l'"
  shows "req_ok swap l x \<Longrightarrow> req_ok swap l' x" "pkt_ok swap l pkt \<Longrightarrow> pkt_ok swap l' pkt"
    "bufs_ok swap l bufs \<Longrightarrow> bufs_ok swap l' bufs" "done_ok swap l y \<Longrightarrow> done_ok swap l' y"
  using assms answered_mono [OF assms] unfolding link_parts extends_def by (blast, blast, blast, cases y, force)

lemma link_okD:
  assumes "link_ok swap l"
  shows "frcdrv_core_requset_seq (lk_drv l) = of_nat (lk_count l)" "\<And>s i. lk_issued l s = Some i \<Longrightarrow> unat s \<le> lk_count l"
    "distinct (map fst (pending l))" "\<And>x. x \<in> set (pending l) \<Longrightarrow> req_ok swap l x" "\<And>pkt. pkt \<in> set (lk_out l) \<Longrightarrow> pkt_ok swap l pkt"
    "\<And>bufs. bufs \<in> set (lk_in l) \<Longrightarrow> bufs_ok swap l bufs" "keeps_buffer (lk_core l)"
    "\<And>x. x \<in> set (lk_done l) \<Longrightarrow> done_ok swap l x"
  using assms by (auto simp: link_ok_def)

text \<open>A step that changes only the driver and what is under way keeps the invariant if the new requests and results are in order.\<close>

lemma link_ok_step:
  assumes ok: "link_ok swap l" and ext: "extends l l'"
    and "frcdrv_core_requset_seq (lk_drv l') = of_nat (lk_count l')" "\<And>s i. lk_issued l' s = Some i \<Longrightarrow> unat s \<le> lk_count l'"
    and "distinct (map fst (pending l'))" "\<And>x. x \<in> set (pending l') \<Longrightarrow> x \<in> set (pending l) \<or> req_ok swap l' x"
    and "\<And>pkt. pkt \<in> set (lk_out l') \<Longrightarrow> pkt \<in> set (lk_out l) \<or> pkt_ok swap l' pkt"
    and "\<And>bufs. bufs \<in> set (lk_in l') \<Longrightarrow> bufs \<in> set (lk_in l) \<or> bufs_ok swap l' bufs"
    and "keeps_buffer (lk_core l')"
    and "\<And>pkt c resp c'. (pkt, c, resp, c') \<in> set (lk_ran l') \<Longrightarrow> (pkt, c, resp, c') \<in> set (lk_ran l) \<or> (\<exists>ready. frcore_process_frc_cmd ready pkt c = Some (resp, c'))"
    and "\<And>x. x \<in> set (lk_done l') \<Longrightarrow> x \<in> set (lk_done l) \<or> done_ok swap l' x"
  shows "link_ok swap l'"
proof -
  have "\<forall>(pkt, c, resp, c') \<in> set (lk_ran l). \<exists>ready. frcore_process_frc_cmd ready pkt c = Some (resp, c')"
    using ok by (simp add: link_ok_def)
  then have ran: "\<forall>(pkt, c, resp, c') \<in> set (lk_ran l'). \<exists>ready. frcore_process_frc_cmd ready pkt c = Some (resp, c')"
    using assms(10) by blast
  have "\<forall>x \<in> set (pending l'). req_ok swap l' x" using assms(6) link_okD(4) [OF ok] parts_mono(1) [OF ext] by blast
  moreover have "\<forall>pkt \<in> set (lk_out l'). pkt_ok swap l' pkt" using assms(7) link_okD(5) [OF ok] parts_mono(2) [OF ext] by blast
  moreover have "\<forall>bufs \<in> set (lk_in l'). bufs_ok swap l' bufs" using assms(8) link_okD(6) [OF ok] parts_mono(3) [OF ext] by blast
  moreover have "\<forall>x \<in> set (lk_done l'). done_ok swap l' x" using assms(11) link_okD(8) [OF ok] parts_mono(4) [OF ext] by blast
  moreover have "\<forall>s \<in> dom (lk_issued l'). unat s \<le> lk_count l'" using assms(4) by blast
  ultimately show ?thesis unfolding link_ok_def using assms(3,5,9) ran by blast
qed

lemma start_waits:
  assumes "core_cmd_start swap o1 addr type cmd ilen input d = Some (Waits pkt, d')"
  shows "d' = snd (frcdrv_core_req_add addr blank_req d)"
    "cmd_si_data swap \<lparr>cm_cmd = cmd, cm_type = type, cm_len = ilen, cm_seq = frcdrv_core_requset_seq d + 1\<rparr> input = Some pkt"
  using assms by (auto simp: core_cmd_start_def frcdrv_send_cmd_pkt_def frcdrv_core_req_add_def Let_def split: if_splits bind_splits option.splits prod.splits)

lemma start_returned:
  assumes "core_cmd_start swap o1 addr type cmd ilen input d = Some (Returned rv, d')" "addr \<notin> fst ` set (frcdrv_core_req_head d)"
  shows "frcdrv_core_req_head d' = frcdrv_core_req_head d"
    "frcdrv_core_requset_seq d' = frcdrv_core_requset_seq d \<or> frcdrv_core_requset_seq d' = frcdrv_core_requset_seq d + 1"
proof -
  have same: "filter (\<lambda>(a, r). a \<noteq> addr) (frcdrv_core_req_head d) = frcdrv_core_req_head d"
    using assms(2) by (auto simp: filter_id_conv) (metis fst_conv image_eqI)
  have cut: "frcdrv_core_req_remove addr (snd (frcdrv_core_req_add addr blank_req d)) =
      Some (d\<lparr>frcdrv_core_requset_seq := frcdrv_core_requset_seq d + 1\<rparr>)"
    using same by (simp add: frcdrv_core_req_remove_def frcdrv_core_req_add_def Let_def)
  have no: "frcdrv_core_req_remove addr d = None" using assms(2) by (simp add: frcdrv_core_req_remove_def)
  have "d' = d \<or> d' = d\<lparr>frcdrv_core_requset_seq := frcdrv_core_requset_seq d + 1\<rparr>"
    using assms(1) no cut by (auto simp: core_cmd_start_def split: if_splits bind_splits option.splits prod.splits)
  then show "frcdrv_core_req_head d' = frcdrv_core_req_head d"
    "frcdrv_core_requset_seq d' = frcdrv_core_requset_seq d \<or> frcdrv_core_requset_seq d' = frcdrv_core_requset_seq d + 1"
    by auto
qed

text \<open>What the core answers to a packet of the driver.\<close>

lemma process_answer:
  assumes sw: "swaps_words swap" and kb: "keeps_buffer c" and pkt: "cmd_si_data swap cmd input = Some pkt"
    and run: "frcore_process_frc_cmd ready pkt c = Some (resp, c')"
  shows "frcore_cmdset c' = frcore_cmdset c"
    "resp = Some r \<Longrightarrow> \<exists>len ret data. r = respond_bytes (cm_seq cmd) len ret data \<and> length data = 1024"
proof -
  have "\<exists>rest. pkt = swap (host_cmd cmd) 1 @ rest"
    using pkt by (cases input) (auto simp: cmd_si_data_def Let_def split: if_splits)
  then obtain rest where rest: "pkt = swap (host_cmd cmd) 1 @ rest" by blast
  let ?cmd = "cmd\<lparr>cm_cmd := cm_cmd cmd AND 0xfff, cm_type := cm_type cmd AND 0xf\<rparr>"
  have dec: "decode_cmd pkt = Some ?cmd" unfolding rest by (rule header_roundtrip [OF sw])
  show "frcore_cmdset c' = frcore_cmdset c"
    using run by (auto simp: frcore_process_frc_cmd_def Let_def split: if_splits bind_splits)
  show "\<exists>len ret data. r = respond_bytes (cm_seq cmd) len ret data \<and> length data = 1024" if rs: "resp = Some r"
  proof -
    obtain ret len data s where h: "call_handler ?cmd (if cm_len ?cmd \<noteq> 0 then Some (drop 8 pkt) else None) c = Some (ret, len, data, s)"
      and r: "r = respond_bytes (cm_seq cmd) len ret data"
      using run rs dec by (auto simp: frcore_process_frc_cmd_def Let_def split: if_splits bind_splits)
    have "length data = 1024"
    proof (cases "CMD_TYPE_MAX \<le> unat (cm_type ?cmd)")
      case True
      then show ?thesis using h by (auto simp: call_handler_def Let_def FRC_CMD_RESPOND_DATA_SZ_def)
    next
      case False
      then obtain cs where cs: "arr_get (frcore_cmdset c) (unat (cm_type ?cmd)) = Some cs" using h by (auto simp: call_handler_def Let_def split: bind_splits)
      then have cs': "cs \<in> set (frcore_cmdset c)" by (auto simp: arr_get_eq_Some)
      show ?thesis
      proof (cases "unat (cs_max cs) \<le> unat (cm_cmd ?cmd)")
        case True
        then show ?thesis using h cs False by (auto simp: call_handler_def Let_def FRC_CMD_RESPOND_DATA_SZ_def)
      next
        case nin: False
        then obtain cb where cb: "arr_get (cs_vector cs) (unat (cm_cmd ?cmd)) = Some cb"
          using h cs False by (auto simp: call_handler_def Let_def split: bind_splits)
        then have cb': "cb \<in> set (cs_vector cs)" by (auto simp: arr_get_eq_Some)
        show ?thesis
        proof (cases "cb_fn cb")
          case None
          then show ?thesis using h cs cb False nin by (auto simp: call_handler_def Let_def FRC_CMD_RESPOND_DATA_SZ_def)
        next
          case (Some fn)
          then have "fn (cm_len ?cmd) (if cm_len ?cmd \<noteq> 0 then Some (drop 8 pkt) else None) (replicate 1024 0) (cc_state c) = Some (ret, len, data, s)"
            using h cs cb False nin by (auto simp: call_handler_def Let_def FRC_CMD_RESPOND_DATA_SZ_def)
          then show ?thesis using kb cs' cb' Some unfolding keeps_buffer_def by (metis length_replicate)
        qed
      qed
    qed
    with r show ?thesis by blast
  qed
qed

text \<open>The steps, one by one.\<close>

lemma issue_keeps:
  assumes ok: "link_ok swap l" and start: "core_cmd_start swap o1 addr type cmd ilen input (lk_drv l) = Some (Waits pkt, d)"
    and fresh: "addr \<notin> fst ` set (pending l)" and few: "Suc (lk_count l) < 2 ^ 32"
    and l': "l' = l\<lparr>lk_drv := d, lk_out := lk_out l @ [pkt], lk_count := Suc (lk_count l),
      lk_issued := (lk_issued l)(frcdrv_core_requset_seq d \<mapsto> \<lparr>is_addr = addr, is_type = type, is_cmd = cmd, is_len = ilen, is_input = input\<rparr>)\<rparr>"
  shows "link_ok swap l'"
proof -
  let ?s = "of_nat (Suc (lk_count l)) :: u32" and ?i = "\<lparr>is_addr = addr, is_type = type, is_cmd = cmd, is_len = ilen, is_input = input\<rparr>"
  note st = start_waits [OF start]
  have seq: "frcdrv_core_requset_seq (lk_drv l) + 1 = ?s" using link_okD(1) [OF ok] by simp
  have d: "frcdrv_core_requset_seq d = ?s"
    "frcdrv_core_req_head d = pending l @ [(addr, blank_req\<lparr>rq_seq := ?s, rq_state := CORE_REQ_WAITING\<rparr>)]"
    using seq by (simp_all add: st(1) frcdrv_core_req_add_def Let_def)
  have us: "unat ?s = Suc (lk_count l)" unfolding unat_of_nat using few by simp
  have new: "lk_issued l ?s = None" using link_okD(2) [OF ok, of ?s] us by (cases "lk_issued l ?s") auto
  have iss: "lk_issued l' = (lk_issued l)(?s \<mapsto> ?i)" using d(1) by (simp add: l')
  have ext: "extends l l'" using new by (auto simp: extends_def iss) (simp_all add: l')
  have si: "cmd_si_data swap (cmd_of ?s ?i) (is_input ?i) = Some pkt" using st(2) seq by (simp add: cmd_of_def)
  show ?thesis
  proof (rule link_ok_step [OF ok ext])
    show "frcdrv_core_requset_seq (lk_drv l') = of_nat (lk_count l')" using d(1) by (simp add: l')
    show "unat s \<le> lk_count l'" if "lk_issued l' s = Some i" for s i
    proof (cases "s = ?s")
      case True
      then show ?thesis using us by (simp add: l')
    next
      case False
      then show ?thesis using that link_okD(2) [OF ok, of s i] unfolding iss by (simp add: l')
    qed
    show "distinct (map fst (pending l'))" using link_okD(3) [OF ok] fresh d(2) by (auto simp: l')
    show "x \<in> set (pending l) \<or> req_ok swap l' x" if "x \<in> set (pending l')" for x
    proof -
      have "x \<in> set (pending l) \<or> x = (addr, blank_req\<lparr>rq_seq := ?s, rq_state := CORE_REQ_WAITING\<rparr>)" using that d(2) by (auto simp: l')
      then show ?thesis by (auto simp: req_ok_def iss CORE_REQ_WAITING_def CORE_REQ_RESPOND_def)
    qed
    show "p \<in> set (lk_out l) \<or> pkt_ok swap l' p" if "p \<in> set (lk_out l')" for p
    proof -
      have "pkt_ok swap l' pkt" unfolding pkt_ok_def iss using si by (intro exI [of _ ?s] exI [of _ ?i]) simp
      then show ?thesis using that by (auto simp: l')
    qed
    show "keeps_buffer (lk_core l')" using link_okD(7) [OF ok] by (simp add: l')
  qed (simp_all add: l')
qed

lemma run_keeps:
  assumes ok: "link_ok swap l" and sw: "swaps_words swap" and pkt: "pkt \<in> set (lk_out l)"
    and run: "frcore_process_frc_cmd ready pkt (lk_core l) = Some (resp, c)"
    and bufs: "concat bufs = (case resp of Some r \<Rightarrow> r | None \<Rightarrow> [])"
    and l': "l' = l\<lparr>lk_core := c, lk_out := remove1 pkt (lk_out l), lk_in := (if resp = None then lk_in l else lk_in l @ [bufs]),
      lk_ran := lk_ran l @ [(pkt, lk_core l, resp, c)]\<rparr>"
  shows "link_ok swap l'"
proof -
  obtain s i where si: "lk_issued l s = Some i" "cmd_si_data swap (cmd_of s i) (is_input i) = Some pkt"
    using link_okD(5) [OF ok pkt] by (auto simp: pkt_ok_def)
  note ans = process_answer [OF sw link_okD(7) [OF ok] si(2) run]
  have ext: "extends l l'" by (auto simp: extends_def l')
  have new: "bufs_ok swap l' bufs" if rs: "resp = Some r" for r
  proof -
    obtain len ret data where r: "r = respond_bytes s len ret data" "length data = 1024" using ans(2) [OF rs] by (auto simp: cmd_of_def)
    have "host_view swap bufs = Some \<lparr>rp_ret = of_int ret, rp_len = len, rp_seq = s, rp_data = data\<rparr>"
      unfolding host_view_def using respond_roundtrip [OF sw r(2)] bufs rs r(1) by simp
    moreover have "answered swap l' s i \<lparr>rp_ret = of_int ret, rp_len = len, rp_seq = s, rp_data = data\<rparr>"
      unfolding answered_def using si(2) r rs by (auto simp: l')
    moreover have "lk_issued l' s = Some i" using si(1) by (simp add: l')
    ultimately show ?thesis unfolding bufs_ok_def by blast
  qed
  show ?thesis
  proof (rule link_ok_step [OF ok ext])
    show "b \<in> set (lk_in l) \<or> bufs_ok swap l' b" if "b \<in> set (lk_in l')" for b
      using that new by (cases resp) (auto simp: l')
    show "keeps_buffer (lk_core l')" using link_okD(7) [OF ok] ans(1) by (simp add: l' keeps_buffer_def)
    show "(p, c1, re, c2) \<in> set (lk_ran l) \<or> (\<exists>ready. frcore_process_frc_cmd ready p c1 = Some (re, c2))" if "(p, c1, re, c2) \<in> set (lk_ran l')" for p c1 re c2
      using that run by (auto simp: l')
    show "p \<in> set (lk_out l) \<or> pkt_ok swap l' p" if "p \<in> set (lk_out l')" for p
      using that set_remove1_subset [of pkt "lk_out l"] by (auto simp: l')
  qed (use link_okD(1-3) [OF ok] in \<open>simp_all add: l'\<close>)
qed

lemma dispatch_view:
  assumes "frcdrv_core_respond_dispatch swap bufs d = Some d'"
  obtains p where "host_view swap bufs = Some p" "frcdrv_core_req_head d' = map (\<lambda>(a, r). (a, answer p r)) (frcdrv_core_req_head d)"
    "frcdrv_core_requset_seq d' = frcdrv_core_requset_seq d"
  using assms by (auto simp: frcdrv_core_respond_dispatch_def host_view_def frcdrv_core_req_respond_def Let_def bind_eq_Some_conv)

lemma deliver_keeps:
  assumes ok: "link_ok swap l" and bufs: "bufs \<in> set (lk_in l)" and run: "frcdrv_core_respond_dispatch swap bufs (lk_drv l) = Some d"
    and l': "l' = l\<lparr>lk_drv := d, lk_in := remove1 bufs (lk_in l)\<rparr>"
  shows "link_ok swap l'"
proof -
  obtain p where p: "host_view swap bufs = Some p" "frcdrv_core_req_head d = map (\<lambda>(a, r). (a, answer p r)) (pending l)"
      "frcdrv_core_requset_seq d = frcdrv_core_requset_seq (lk_drv l)"
    by (rule dispatch_view [OF run])
  obtain s i where si: "lk_issued l s = Some i" "answered swap l s i p" using link_okD(6) [OF ok bufs] p(1) by (auto simp: bufs_ok_def)
  then have ps: "rp_seq p = s" by (auto simp: answered_def)
  have ext: "extends l l'" by (simp add: extends_def l')
  show ?thesis
  proof (rule link_ok_step [OF ok ext])
    show "distinct (map fst (pending l'))" using link_okD(3) [OF ok] p(2) by (simp add: l' comp_def case_prod_beta)
    show "x \<in> set (pending l) \<or> req_ok swap l' x" if x: "x \<in> set (pending l')" for x
    proof -
      obtain a r where ar: "(a, r) \<in> set (pending l)" "x = (a, answer p r)" using x p(2) by (auto simp: l')
      show ?thesis
      proof (cases "rq_seq r = s")
        case True
        have "answered swap l' s i p" by (rule answered_mono [OF ext si(2)])
        moreover have "is_addr i = a" using link_okD(4) [OF ok ar(1)] True si(1) by (auto simp: req_ok_def)
        ultimately show ?thesis using True ps si(1) ar(2) by (simp add: req_ok_def answer_def l')
      next
        case False
        then show ?thesis using ar ps by (simp add: answer_def)
      qed
    qed
    show "b \<in> set (lk_in l) \<or> bufs_ok swap l' b" if "b \<in> set (lk_in l')" for b
      using that set_remove1_subset [of bufs "lk_in l"] by (auto simp: l')
  qed (use link_okD(1,2,7) [OF ok] p(3) in \<open>simp_all add: l'\<close>)
qed

lemma req_found:
  assumes "link_ok swap l" "(addr, r) \<in> set (pending l)"
  shows "req_at addr (lk_drv l) = Some r"
  using link_okD(3) [OF assms(1)] assms(2) by (simp add: req_at_def)

text \<open>A request leaves the list with a result that is in order.\<close>

lemma leave_keeps:
  assumes ok: "link_ok swap l" and rem: "frcdrv_core_req_remove addr (lk_drv l) = Some d"
    and l': "l' = l\<lparr>lk_drv := d, lk_done := lk_done l @ [x]\<rparr>" and x: "done_ok swap l x"
  shows "link_ok swap l'"
proof -
  have d: "d = (lk_drv l)\<lparr>frcdrv_core_req_head := filter (\<lambda>(a, r). a \<noteq> addr) (pending l)\<rparr>"
    using rem by (simp add: frcdrv_core_req_remove_def split: if_splits)
  have ext: "extends l l'" by (simp add: extends_def l')
  show ?thesis
  proof (rule link_ok_step [OF ok ext])
    show "y \<in> set (lk_done l) \<or> done_ok swap l' y" if "y \<in> set (lk_done l')" for y
      using that parts_mono(4) [OF ext x] by (auto simp: l')
    show "distinct (map fst (pending l'))" using link_okD(3) [OF ok] by (simp add: l' d distinct_map_filter)
  qed (use link_okD(1,2,7) [OF ok] in \<open>auto simp: l' d\<close>)
qed

lemma core_cmd_end_result: "core_cmd_end addr out d = do {
     r \<leftarrow> req_at addr d;
     res \<leftarrow> (if rq_state r \<noteq> CORE_REQ_RESPOND then Some (FRE_TIMEOUT, None) else result_of out (rq_respond r));
     d \<leftarrow> frcdrv_core_req_remove addr d;
     Some (res, d)
   }"
  unfolding core_cmd_end_def result_of_def Let_def by (rule refl)

lemma end_result:
  assumes ok: "link_ok swap l" and r: "(addr, r) \<in> set (pending l)" and run: "core_cmd_end addr out (lk_drv l) = Some (res, d)"
  shows "frcdrv_core_req_remove addr (lk_drv l) = Some d" "done_ok swap l (rq_seq r, out, res)"
proof -
  note at = req_found [OF ok r]
  show "frcdrv_core_req_remove addr (lk_drv l) = Some d" using run at by (auto simp: core_cmd_end_def bind_eq_Some_conv)
  obtain i where i: "lk_issued l (rq_seq r) = Some i" "rq_state r = CORE_REQ_RESPOND \<longrightarrow> answered swap l (rq_seq r) i (rq_respond r)"
    using link_okD(4) [OF ok r] by (auto simp: req_ok_def)
  show "done_ok swap l (rq_seq r, out, res)"
  proof (cases "rq_state r = CORE_REQ_RESPOND")
    case True
    then have "result_of out (rq_respond r) = Some res"
      using run at unfolding core_cmd_end_result by (auto simp: bind_eq_Some_conv)
    then show ?thesis using i True by (auto simp: done_ok_def)
  next
    case False
    then show ?thesis using run at by (auto simp: core_cmd_end_def done_ok_def bind_eq_Some_conv)
  qed
qed

lemma link_step_keeps:
  assumes "link_step swap l l'" "swaps_words swap" "link_ok swap l" "lk_count l' < 2 ^ 32"
  shows "link_ok swap l'"
  using assms
proof (induction rule: link_step.induct)
  case (issue_cmd o1 addr type cmd ilen input l pkt d)
  then show ?case using issue_keeps [OF issue_cmd.prems(2) issue_cmd.hyps(1,2)] by simp
next
  case (refuse_cmd o1 addr type cmd ilen input l rv d)
  define l' where "l' = l\<lparr>lk_drv := d, lk_count := lk_count l + (if frcdrv_core_requset_seq d = frcdrv_core_requset_seq (lk_drv l) then 0 else 1)\<rparr>"
  note st = start_returned [OF refuse_cmd.hyps]
  have ext: "extends l l'" by (simp add: extends_def l'_def)
  have "link_ok swap l'"
  proof (rule link_ok_step [OF refuse_cmd.prems(2) ext])
    show "frcdrv_core_requset_seq (lk_drv l') = of_nat (lk_count l')" using st(2) link_okD(1) [OF refuse_cmd.prems(2)] by (auto simp: l'_def)
    show "unat s \<le> lk_count l'" if "lk_issued l' s = Some i" for s i
      using that link_okD(2) [OF refuse_cmd.prems(2), of s i] by (simp add: l'_def trans_le_add1)
  qed (use link_okD(3,7) [OF refuse_cmd.prems(2)] st(1) in \<open>simp_all add: l'_def\<close>)
  then show ?case by (simp only: l'_def)
next
  case (run_cmd pkt l ready resp c bufs)
  show ?case by (rule run_keeps [OF run_cmd.prems(2,1) run_cmd.hyps refl])
next
  case (deliver bufs l d)
  show ?case by (rule deliver_keeps [OF deliver.prems(2) deliver.hyps refl])
next
  case (lose_cmd l pkt)
  have "set (remove1 pkt (lk_out l)) \<subseteq> set (lk_out l)" by (rule set_remove1_subset)
  then show ?case using lose_cmd.prems(2) by (auto simp: link_ok_def link_parts answered_def)
next
  case (lose_respond l bufs)
  have "set (remove1 bufs (lk_in l)) \<subseteq> set (lk_in l)" by (rule set_remove1_subset)
  then show ?case using lose_respond.prems(2) by (auto simp: link_ok_def link_parts answered_def)
next
  case (finish addr r l out res d)
  show ?case by (rule leave_keeps [OF finish.prems(2) end_result(1) [OF finish.prems(2) finish.hyps] refl end_result(2) [OF finish.prems(2) finish.hyps]])
next
  case (expire addr r l d out)
  show ?case by (rule leave_keeps [OF expire.prems(2) expire.hyps(2) refl]) (simp add: done_ok_def)
qed

lemma link_step_count: "link_step swap l l' \<Longrightarrow> lk_count l \<le> lk_count l'"
  by (induction rule: link_step.induct) auto

lemma link_steps_count: "(link_step swap)\<^sup>*\<^sup>* l l' \<Longrightarrow> lk_count l \<le> lk_count l'"
  by (induction rule: rtranclp_induct) (auto dest: link_step_count)

lemma link_reachable:
  assumes "(link_step swap)\<^sup>*\<^sup>* l l'" "swaps_words swap" "link_ok swap l" "lk_count l' < 2 ^ 32"
  shows "link_ok swap l'"
  using assms
proof (induction rule: rtranclp_induct)
  case (step m n)
  then have "link_ok swap m" using link_step_count [OF step.hyps(2)] by simp
  then show ?case using link_step_keeps [OF step.hyps(2) step.prems(1)] step.prems by blast
qed simp

section \<open>The result of a command\<close>

text \<open>The variables of \<^verbatim>\<open>frcdrv_cmd.c\<close> when the module is loaded, and the system when the driver and the core have started.\<close>

definition boot_drv :: drv_cmds where
  "boot_drv = \<lparr>frcdrv_core_req_head = [], frcdrv_core_requset_seq = 0, frcdrv_cmd_respond_pkts = 0, frcdrv_cmd_respond_bytes = 0,
     frcdrv_cmd_respond_min = 128, frcdrv_cmd_respond_max = 0\<rparr>"

definition start_link :: "'s core_cmds \<Rightarrow> 's link" where
  "start_link c = \<lparr>lk_drv = snd (frcdrv_cmd_init True boot_drv), lk_core = c, lk_out = [], lk_in = [], lk_count = 0,
     lk_issued = Map.empty, lk_ran = [], lk_done = []\<rparr>"

lemma start_link_ok: "keeps_buffer c \<Longrightarrow> link_ok swap (start_link c)"
  by (simp add: link_ok_def start_link_def frcdrv_cmd_init_def boot_drv_def)

text \<open>The command as the core reads it.\<close>

definition cut_cmd :: "frcore_cmd \<Rightarrow> frcore_cmd" where
  "cut_cmd c = c\<lparr>cm_cmd := cm_cmd c AND 0xfff, cm_type := cm_type c AND 0xf\<rparr>"

lemma cut_cmd_len [simp]: "cm_len (cut_cmd c) = cm_len c" "cm_seq (cut_cmd c) = cm_seq c"
  by (simp_all add: cut_cmd_def)

lemma process_handler:
  assumes sw: "swaps_words swap" and pkt: "cmd_si_data swap cmd input = Some pkt"
  shows "frcore_process_frc_cmd ready pkt c = (if \<not> ready \<or> \<not> frcore_cmd_respond_buf c then Some (None, c) else do {
     (ret, len, buf, st) \<leftarrow> call_handler (cut_cmd cmd) (if cm_len cmd \<noteq> 0 then Some (drop 8 pkt) else None) c;
     Some (Some (respond_bytes (cm_seq cmd) len ret buf), c\<lparr>cc_state := st\<rparr>)
   })"
proof -
  have "\<exists>rest. pkt = swap (host_cmd cmd) 1 @ rest"
    using pkt by (cases input) (auto simp: cmd_si_data_def Let_def split: if_splits)
  then have "decode_cmd pkt = Some (cut_cmd cmd)" using header_roundtrip [OF sw] by (auto simp: cut_cmd_def)
  then show ?thesis by (auto simp: frcore_process_frc_cmd_def)
qed

lemma respond_bytes_inj:
  assumes "respond_bytes s len ret data = respond_bytes s len' ret' data'"
  shows "len = len'" "(of_int ret :: u16) = of_int ret'" "data = data'"
proof -
  have e: "PACK_U16 len @ PACK_U16 (of_int ret) @ data = PACK_U16 len' @ PACK_U16 (of_int ret') @ data'"
    using assms by (simp add: respond_bytes_def)
  then have "PACK_U16 len = PACK_U16 len'" "PACK_U16 (of_int ret) = PACK_U16 (of_int ret')" "data = data'"
    by (simp_all add: append_eq_append_conv)
  then show "len = len'" "(of_int ret :: u16) = of_int ret'" "data = data'"
    using UP16_pack(1) [of 0 len "[]"] UP16_pack(1) [of 0 len' "[]"] UP16_pack(1) [of 0 "of_int ret" "[]"] UP16_pack(1) [of 0 "of_int ret'" "[]"]
    by simp_all
qed

text \<open>The handler ran on the command with number \<open>s\<close> and its result is what the caller got.\<close>

definition handled :: "swap \<Rightarrow> 's link \<Rightarrow> u32 \<Rightarrow> (u16 \<times> bool) option \<Rightarrow> int \<times> u8 list option \<Rightarrow> bool" where
  "handled swap l s out res \<longleftrightarrow> (\<exists>i pkt c ret len buf st.
     lk_issued l s = Some i \<and> cmd_si_data swap (cmd_of s i) (is_input i) = Some pkt \<and>
     (pkt, c, Some (respond_bytes s len ret buf), c\<lparr>cc_state := st\<rparr>) \<in> set (lk_ran l) \<and>
     call_handler (cut_cmd (cmd_of s i)) (if is_len i \<noteq> 0 then Some (drop 8 pkt) else None) c = Some (ret, len, buf, st) \<and>
     result_of out \<lparr>rp_ret = of_int ret, rp_len = len, rp_seq = s, rp_data = buf\<rparr> = Some res)"

lemma done_handled:
  assumes ok: "link_ok swap l" and sw: "swaps_words swap" and x: "(s, out, res) \<in> set (lk_done l)" and t: "fst res \<noteq> FRE_TIMEOUT"
  shows "handled swap l s out res"
proof -
  obtain i p where i: "lk_issued l s = Some i" "answered swap l s i p" "result_of out p = Some res"
    using link_okD(8) [OF ok x] t by (auto simp: done_ok_def)
  then obtain pkt c c' len ret data where a: "cmd_si_data swap (cmd_of s i) (is_input i) = Some pkt"
      "(pkt, c, Some (respond_bytes s len ret data), c') \<in> set (lk_ran l)"
      "p = \<lparr>rp_ret = of_int ret, rp_len = len, rp_seq = s, rp_data = data\<rparr>"
    by (auto simp: answered_def)
  obtain ready where "frcore_process_frc_cmd ready pkt c = Some (Some (respond_bytes s len ret data), c')"
    using ok a(2) by (auto simp: link_ok_def)
  then obtain ret' len' buf st where h: "call_handler (cut_cmd (cmd_of s i)) (if is_len i \<noteq> 0 then Some (drop 8 pkt) else None) c = Some (ret', len', buf, st)"
      "respond_bytes s len ret data = respond_bytes s len' ret' buf" "c' = c\<lparr>cc_state := st\<rparr>"
    unfolding process_handler [OF sw a(1)] by (auto simp: cmd_of_def split: if_splits bind_splits)
  note same = respond_bytes_inj [OF h(2)]
  have "result_of out \<lparr>rp_ret = of_int ret', rp_len = len', rp_seq = s, rp_data = buf\<rparr> = Some res" using i(3) a(3) same by simp
  then show ?thesis unfolding handled_def using i(1) a(1,2) h same(1,3) by metis
qed


section \<open>A command that is answered in time\<close>

definition other_respond :: "swap \<Rightarrow> u32 \<Rightarrow> u8 list list \<Rightarrow> bool" where
  "other_respond swap seq bufs \<longleftrightarrow> (\<exists>p. host_view swap bufs = Some p \<and> rp_seq p \<noteq> seq)"

text \<open>The list holds the requests at the addresses \<open>as\<close> and \<open>r\<close> at \<open>addr\<close>.\<close>

definition waits_at :: "nat \<Rightarrow> frcdrv_core_req \<Rightarrow> nat list \<Rightarrow> drv_cmds \<Rightarrow> bool" where
  "waits_at addr r as d \<longleftrightarrow> map fst (frcdrv_core_req_head d) = as \<and> req_at addr d = Some r"

lemma dispatch_total:
  assumes "host_view swap bufs = Some p" "waits_at addr r as d"
  shows "\<exists>d'. frcdrv_core_respond_dispatch swap bufs d = Some d' \<and> waits_at addr (answer p r) as d'"
proof -
  have "map_of (map (\<lambda>(a, r). (a, answer p r)) xs) addr = map_option (answer p) (map_of xs addr)" for xs
    by (induction xs) auto
  then show ?thesis using assms
    by (simp add: frcdrv_core_respond_dispatch_def frcdrv_core_req_respond_def host_view_def waits_at_def req_at_def Let_def comp_def case_prod_beta)
qed

lemma dispatch_others:
  assumes "\<forall>b \<in> set bs. other_respond swap (rq_seq r) b" "waits_at addr r as d"
  shows "\<exists>d'. for_each bs (frcdrv_core_respond_dispatch swap) d = Some d' \<and> waits_at addr r as d'"
proof -
  have "\<exists>d'. frcdrv_core_respond_dispatch swap (bs ! k) x = Some d' \<and> waits_at addr r as d'" if k: "k < length bs" and x: "waits_at addr r as x" for k x
  proof -
    obtain p where p: "host_view swap (bs ! k) = Some p" "rp_seq p \<noteq> rq_seq r" using assms(1) nth_mem [OF k] unfolding other_respond_def by blast
    then have "answer p r = r" by (simp add: answer_def)
    then show ?thesis using dispatch_total [OF p(1) x] by simp
  qed
  then show ?thesis using for_each_total [of "\<lambda>_. waits_at addr r as" d bs] assms(2) by blast
qed

lemma wait_answered:
  assumes r: "rq_state r = CORE_REQ_WAITING" and early: "\<forall>now \<in> set early. \<forall>b \<in> set now. other_respond swap (rq_seq r) b"
    and now: "\<forall>b \<in> set before \<union> set after. other_respond swap (rq_seq r) b"
    and p: "host_view swap bufs = Some p" "rp_seq p = rq_seq r" and d: "waits_at addr r as d"
  shows "\<exists>d'. wait_respond swap addr (early @ (before @ bufs # after) # late) d = Some d' \<and>
    waits_at addr (r\<lparr>rq_respond := p, rq_state := CORE_REQ_RESPOND\<rparr>) as d'"
  using early d
proof (induction early arbitrary: d)
  case Nil
  let ?r = "r\<lparr>rq_respond := p, rq_state := CORE_REQ_RESPOND\<rparr>"
  obtain d1 where d1: "for_each before (frcdrv_core_respond_dispatch swap) d = Some d1" "waits_at addr r as d1"
    using dispatch_others [OF _ Nil.prems(2)] now by blast
  obtain d2 where d2: "frcdrv_core_respond_dispatch swap bufs d1 = Some d2" "waits_at addr ?r as d2"
    using dispatch_total [OF p(1) d1(2)] p(2) by (auto simp: answer_def)
  obtain d3 where d3: "for_each after (frcdrv_core_respond_dispatch swap) d2 = Some d3" "waits_at addr ?r as d3"
    using dispatch_others [of after swap ?r, OF _ d2(2)] now by auto
  then show ?case using d1(1) d2(1) by (auto simp: for_each_append waits_at_def)
next
  case (Cons now early)
  obtain d1 where d1: "for_each now (frcdrv_core_respond_dispatch swap) d = Some d1" "waits_at addr r as d1"
    using dispatch_others [of now swap, OF _ Cons.prems(2)] Cons.prems(1) by auto
  then have "wait_respond swap addr ((now # early) @ (before @ bufs # after) # late) d = wait_respond swap addr (early @ (before @ bufs # after) # late) d1"
    using r by (auto simp: waits_at_def CORE_REQ_WAITING_def CORE_REQ_RESPOND_def)
  then show ?case using Cons.IH [OF _ d1(2)] Cons.prems(1) by simp
qed

lemma start_sends:
  assumes "so_core_req o1" "so_cpkt o1" "so_si o1" "so_accepted o1" "unat ilen \<le> FRCORE_CMD_INPUT_MAX" "addr \<notin> fst ` set (frcdrv_core_req_head d)"
    and "cmd_si_data swap \<lparr>cm_cmd = cmd, cm_type = type, cm_len = ilen, cm_seq = frcdrv_core_requset_seq d + 1\<rparr> input = Some pkt"
  shows "\<exists>d'. core_cmd_start swap o1 addr type cmd ilen input d = Some (Waits pkt, d') \<and>
    waits_at addr (blank_req\<lparr>rq_seq := frcdrv_core_requset_seq d + 1, rq_state := CORE_REQ_WAITING\<rparr>) (map fst (frcdrv_core_req_head d) @ [addr]) d'"
proof -
  have "map_of (frcdrv_core_req_head d) addr = None" using assms(6) by (simp add: map_of_eq_None_iff)
  then have "req_at addr (d\<lparr>frcdrv_core_req_head := frcdrv_core_req_head d @ [(addr, r)]\<rparr>) = Some r" for r by (simp add: req_at_def map_add_def)
  then show ?thesis using assms
    by (auto simp: core_cmd_start_def frcdrv_send_cmd_pkt_def frcdrv_core_req_add_def waits_at_def req_at_def Let_def
        FRC_CORE_CMD_ARG_MAX_def FRCORE_CMD_INPUT_MAX_def)
qed

text \<open>A command that is accepted, that the core answers, and whose response is among those that arrive before the last poll
  returns what the handler computed, cut to the sizes of the response's fields and of the caller's buffer, whatever other
  responses arrive in between; and the request has left the list, the others being still there.\<close>

lemma command_answered_in_time:
  fixes c :: "'s core_cmds"
  assumes sw: "swaps_words swap" and ok: "so_core_req o1" "so_cpkt o1" "so_si o1" "so_accepted o1"
    and args: "unat ilen \<le> FRCORE_CMD_INPUT_MAX" and fresh: "addr \<notin> fst ` set (frcdrv_core_req_head d)"
    and hdr: "hdr = \<lparr>cm_cmd = cmd, cm_type = type, cm_len = ilen, cm_seq = frcdrv_core_requset_seq d + 1\<rparr>"
    and pkt: "cmd_si_data swap hdr input = Some pkt"
    and core: "frcore_cmd_respond_buf c" "call_handler (cut_cmd hdr) (if ilen \<noteq> 0 then Some (drop 8 pkt) else None) c = Some (ret, len, buf, st)" "length buf = 1024"
    and bufs: "frcore_process_frc_cmd True pkt c = Some (Some (concat bufs), c')"
    and arrive: "arrive pkt = early @ (before @ bufs # after) # late" "length early < FRCDRV_CORE_REQ_TIMEOUT"
    and others: "\<forall>now \<in> set early. \<forall>b \<in> set now. other_respond swap (cm_seq hdr) b" "\<forall>b \<in> set before \<union> set after. other_respond swap (cm_seq hdr) b"
    and res: "result_of out \<lparr>rp_ret = of_int ret, rp_len = len, rp_seq = cm_seq hdr, rp_data = buf\<rparr> = Some res"
  shows "\<exists>d'. frcdrv_core_cmd swap o1 arrive addr type cmd ilen input out d = Some (res, d') \<and>
    map fst (frcdrv_core_req_head d') = map fst (frcdrv_core_req_head d)"
proof -
  let ?p = "\<lparr>rp_ret = of_int ret, rp_len = len, rp_seq = cm_seq hdr, rp_data = buf\<rparr>"
  let ?r = "blank_req\<lparr>rq_seq := cm_seq hdr, rq_state := CORE_REQ_WAITING\<rparr>" and ?as = "map fst (frcdrv_core_req_head d) @ [addr]"
  have "concat bufs = respond_bytes (cm_seq hdr) len ret buf"
    using bufs core unfolding process_handler [OF sw pkt] by (simp add: hdr)
  then have view: "host_view swap bufs = Some ?p" unfolding host_view_def by (rule respond_roundtrip [OF sw core(3)])
  obtain d1 where d1: "core_cmd_start swap o1 addr type cmd ilen input d = Some (Waits pkt, d1)" "waits_at addr ?r ?as d1"
    using start_sends [OF ok args fresh pkt [unfolded hdr]] by (auto simp: hdr)
  obtain late' where "take FRCDRV_CORE_REQ_TIMEOUT (arrive pkt) = early @ (before @ bufs # after) # late'"
    using arrive by (auto simp: take_Cons' )
  then obtain d2 where d2: "wait_respond swap addr (take FRCDRV_CORE_REQ_TIMEOUT (arrive pkt)) d1 = Some d2"
      "waits_at addr (?r\<lparr>rq_respond := ?p, rq_state := CORE_REQ_RESPOND\<rparr>) ?as d2"
    using wait_answered [OF _ _ _ view _ d1(2), of early before after late'] others by auto
  then have at: "addr \<in> fst ` set (frcdrv_core_req_head d2)" "req_at addr d2 = Some (?r\<lparr>rq_respond := ?p, rq_state := CORE_REQ_RESPOND\<rparr>)"
    unfolding waits_at_def by (metis in_set_conv_decomp list.set_map, simp)
  have "map fst (filter (\<lambda>(a, r). a \<noteq> addr) xs) = filter (\<lambda>a. a \<noteq> addr) (map fst xs)" for xs :: "(nat \<times> frcdrv_core_req) list"
    by (induction xs) auto
  moreover have "filter (\<lambda>a. a \<noteq> addr) ?as = map fst (frcdrv_core_req_head d)" using fresh by (auto simp: filter_id_conv)
  ultimately have "map fst (filter (\<lambda>(a, r). a \<noteq> addr) (frcdrv_core_req_head d2)) = map fst (frcdrv_core_req_head d)"
    using d2(2) by (simp add: waits_at_def)
  then show ?thesis using d1(1) d2(1) at res
    by (simp add: frcdrv_core_cmd_def core_cmd_end_result frcdrv_core_req_remove_def)
qed

section \<open>An example\<close>

definition swap_words :: swap where
  "swap_words xs n = concat (map (\<lambda>k. rev (take 8 (drop (8 * k) xs))) [0..<n]) @ drop (8 * n) xs"

lemma swaps_words_swap: "swaps_words swap_words"
  by (simp add: swaps_words_def swap_words_def)

text \<open>A handler that counts its calls and answers with four bytes, registered as the first user command.\<close>

definition ping :: "nat handler" where
  "ping n p buf st = Some (0, 4, [1, 2, 3, 4] @ drop 4 buf, Suc st)"

definition ping_set :: "nat frcore_cmd_set" where
  "ping_set = \<lparr>cs_max = 58, cs_num = 1, cs_vector = \<lparr>cb_type = 3, cb_cmd = 0, cb_fn = Some ping\<rparr> # replicate 57 blank_cb\<rparr>"

definition ping_core :: "nat core_cmds" where
  "ping_core = snd (the (frcore_cmd_register 3 0 ping (snd (frcore_cmd_init (\<lambda>_. True) (replicate 5 \<lparr>cs_max = 0, cs_num = 0, cs_vector = []\<rparr>) 0))))"

lemma five_update: "[a, b, c, d, e][1 := x] = [a, x, c, d, e]" "[a, b, c, d, e][2 := x] = [a, b, x, d, e]" "[a, b, c, d, e][3 := x] = [a, b, c, x, e]"
  by (simp_all add: eval_nat_numeral)

lemma ping_core_sets:
  "frcore_cmdset ping_core = [\<lparr>cs_max = 0, cs_num = 0, cs_vector = []\<rparr>, \<lparr>cs_max = 6, cs_num = 0, cs_vector = replicate 6 blank_cb\<rparr>,
     \<lparr>cs_max = 6, cs_num = 0, cs_vector = replicate 6 blank_cb\<rparr>, ping_set, \<lparr>cs_max = 0, cs_num = 0, cs_vector = []\<rparr>]"
  "frcore_cmd_respond_buf ping_core"
proof -
  have v: "replicate 58 x = x # replicate 57 x" for x :: "nat frcore_cmd_cb" using replicate_Suc [of 57 x] by simp
  have five: "replicate 5 x = [x, x, x, x, x]" for x :: "nat frcore_cmd_set" by (simp add: eval_nat_numeral)
  have three: "unat (3 :: u16) = 3" by simp
  have "frcore_cmdset ping_core = [\<lparr>cs_max = 0, cs_num = 0, cs_vector = []\<rparr>, \<lparr>cs_max = 6, cs_num = 0, cs_vector = replicate 6 blank_cb\<rparr>,
     \<lparr>cs_max = 6, cs_num = 0, cs_vector = replicate 6 blank_cb\<rparr>, ping_set, \<lparr>cs_max = 0, cs_num = 0, cs_vector = []\<rparr>] \<and>
     frcore_cmd_respond_buf ping_core"
    unfolding ping_core_def ping_set_def frcore_cmd_init_def init_vector_def frcore_cmd_register_def five
    by (simp add: c_consts v five_update blank_cb_def arr_get_def)
  then show "frcore_cmdset ping_core = [\<lparr>cs_max = 0, cs_num = 0, cs_vector = []\<rparr>, \<lparr>cs_max = 6, cs_num = 0, cs_vector = replicate 6 blank_cb\<rparr>,
     \<lparr>cs_max = 6, cs_num = 0, cs_vector = replicate 6 blank_cb\<rparr>, ping_set, \<lparr>cs_max = 0, cs_num = 0, cs_vector = []\<rparr>]"
    "frcore_cmd_respond_buf ping_core" by blast+
qed

lemma ping_keeps_buffer: "keeps_buffer ping_core"
  unfolding keeps_buffer_def ping_core_sets ping_set_def by (auto simp: blank_cb_def ping_def)

definition ping_cmd :: frcore_cmd where
  "ping_cmd = \<lparr>cm_cmd = 0, cm_type = 3, cm_len = 0, cm_seq = 1\<rparr>"

definition ping_pkt :: "u8 list" where
  "ping_pkt = swap_words (host_cmd ping_cmd) 1"

definition ping_buf :: "u8 list" where
  "ping_buf = [1, 2, 3, 4] @ replicate 1020 0"

lemma ping_buf_length: "length ping_buf = 1024"
  by (simp add: ping_buf_def)

lemma ping_call: "call_handler (cut_cmd ping_cmd) None ping_core = Some (0, 4, ping_buf, Suc (cc_state ping_core))"
proof -
  have "drop 4 (replicate 1024 0) = replicate 1020 (0 :: u8)" unfolding drop_replicate by simp
  then show ?thesis
    unfolding call_handler_def ping_core_sets by (simp add: cut_cmd_def ping_cmd_def ping_set_def ping_def ping_buf_def c_consts arr_get_def)
qed

lemma ping_si: "cmd_si_data swap_words ping_cmd None = Some ping_pkt"
  by (simp add: cmd_si_data_def ping_cmd_def ping_pkt_def)

lemma ping_process: "frcore_process_frc_cmd True ping_pkt ping_core = Some (Some (respond_bytes 1 4 0 ping_buf), ping_core\<lparr>cc_state := Suc (cc_state ping_core)\<rparr>)"
  unfolding process_handler [OF swaps_words_swap ping_si] using ping_call ping_core_sets(2) by (simp add: ping_cmd_def)

lemma ping_result: "result_of (Some (8, True)) \<lparr>rp_ret = of_int 0, rp_len = 4, rp_seq = 1, rp_data = ping_buf\<rparr> = Some (FRE_SUCCESS, Some [1, 2, 3, 4])"
  by (simp add: result_of_def ping_buf_def FRE_SUCCESS_def)

definition all_well :: send_outcome where
  "all_well = \<lparr>so_core_req = True, so_cpkt = True, so_si = True, so_accepted = True\<rparr>"

lemma ping_answered_in_time:
  "\<exists>d'. frcdrv_core_cmd swap_words all_well (\<lambda>pkt. [] # [[[respond_bytes 1 4 0 ping_buf]]]) 7 3 0 0 None (Some (8, True)) boot_drv =
     Some ((FRE_SUCCESS, Some [1, 2, 3, 4]), d') \<and> frcdrv_core_req_head d' = []"
proof -
  note arg = command_answered_in_time [of swap_words all_well 0 7 boot_drv ping_cmd 0 3 None ping_pkt ping_core 0 4 ping_buf "Suc (cc_state ping_core)"
      "[respond_bytes 1 4 0 ping_buf]" _ "\<lambda>pkt. [] # [[[respond_bytes 1 4 0 ping_buf]]]" "[[]]" "[]" "[]" "[]" "Some (8, True)" "(FRE_SUCCESS, Some [1, 2, 3, 4])"]
  show ?thesis
    using arg [OF swaps_words_swap] ping_si ping_core_sets(2) ping_call ping_buf_length ping_process ping_result
    by (simp add: all_well_def boot_drv_def ping_cmd_def FRCDRV_CORE_REQ_TIMEOUT_def)
qed

lemma ping_view: "host_view swap_words [respond_bytes 1 4 0 ping_buf] = Some \<lparr>rp_ret = 0, rp_len = 4, rp_seq = 1, rp_data = ping_buf\<rparr>"
  unfolding host_view_def using respond_roundtrip [OF swaps_words_swap ping_buf_length, of "[respond_bytes 1 4 0 ping_buf]" 1 4 0] by simp

text \<open>The command is issued, run, answered and finished.\<close>

lemma ping_run:
  "\<exists>l. (link_step swap_words)\<^sup>*\<^sup>* (start_link ping_core) l \<and> lk_count l = 1 \<and> lk_done l = [(1, Some (8, True), FRE_SUCCESS, Some [1, 2, 3, 4])]"
proof -
  let ?l0 = "start_link ping_core" and ?rsp = "respond_bytes 1 4 0 ping_buf"
  have l0: "lk_drv ?l0 = boot_drv" "pending ?l0 = []" "lk_core ?l0 = ping_core" "lk_done ?l0 = []" "lk_count ?l0 = 0" "lk_in ?l0 = []"
    by (simp_all add: start_link_def frcdrv_cmd_init_def boot_drv_def)
  obtain d1 where d1: "core_cmd_start swap_words all_well 7 3 0 0 None boot_drv = Some (Waits ping_pkt, d1)"
      "waits_at 7 (blank_req\<lparr>rq_seq := 1, rq_state := CORE_REQ_WAITING\<rparr>) [7] d1"
    using start_sends [of all_well 0 7 boot_drv swap_words 0 3 None ping_pkt] ping_si by (auto simp: all_well_def boot_drv_def ping_cmd_def)
  define l1 where "l1 = ?l0\<lparr>lk_drv := d1, lk_out := lk_out ?l0 @ [ping_pkt], lk_count := Suc (lk_count ?l0),
    lk_issued := (lk_issued ?l0)(frcdrv_core_requset_seq d1 \<mapsto> \<lparr>is_addr = 7, is_type = 3, is_cmd = 0, is_len = 0, is_input = None\<rparr>)\<rparr>"
  have s1: "link_step swap_words ?l0 l1"
    unfolding l1_def by (rule link_step.issue_cmd [of _ all_well]) (use d1(1) l0 in simp_all)
  have c1: "lk_core l1 = ping_core" using l0(3) by (simp add: l1_def)
  define l2 where "l2 = l1\<lparr>lk_core := ping_core\<lparr>cc_state := Suc (cc_state ping_core)\<rparr>, lk_out := remove1 ping_pkt (lk_out l1),
    lk_in := (if Some ?rsp = None then lk_in l1 else lk_in l1 @ [[?rsp]]), lk_ran := lk_ran l1 @ [(ping_pkt, lk_core l1, Some ?rsp, ping_core\<lparr>cc_state := Suc (cc_state ping_core)\<rparr>)]\<rparr>"
  have s2: "link_step swap_words l1 l2"
    unfolding l2_def by (rule link_step.run_cmd [of _ _ True]) (use ping_process c1 in \<open>simp_all add: l1_def\<close>)
  have drv2: "lk_drv l2 = d1" by (simp add: l2_def l1_def)
  obtain d3 where d3: "frcdrv_core_respond_dispatch swap_words [?rsp] d1 = Some d3"
      "waits_at 7 (blank_req\<lparr>rq_seq := 1, rq_respond := \<lparr>rp_ret = 0, rp_len = 4, rp_seq = 1, rp_data = ping_buf\<rparr>, rq_state := CORE_REQ_RESPOND\<rparr>) [7] d3"
    using dispatch_total [OF ping_view d1(2)] by (auto simp: answer_def)
  define l3 where "l3 = l2\<lparr>lk_drv := d3, lk_in := remove1 [?rsp] (lk_in l2)\<rparr>"
  have s3: "link_step swap_words l2 l3"
    unfolding l3_def by (rule link_step.deliver) (use d3(1) drv2 in \<open>simp_all add: l2_def\<close>)
  let ?r = "blank_req\<lparr>rq_seq := 1, rq_respond := \<lparr>rp_ret = 0, rp_len = 4, rp_seq = 1, rp_data = ping_buf\<rparr>, rq_state := CORE_REQ_RESPOND\<rparr>"
  have at: "req_at 7 d3 = Some ?r" "map fst (frcdrv_core_req_head d3) = [7]" using d3(2) by (simp_all add: waits_at_def)
  have "(7, ?r) \<in> set (frcdrv_core_req_head d3)" using map_of_SomeD at(1) unfolding req_at_def by fast
  then have mem: "(7, ?r) \<in> set (pending l3)" by (simp add: l3_def)
  have "7 \<in> fst ` set (frcdrv_core_req_head d3)" using at(2) by (metis list.set_intros(1) list.set_map)
  then obtain d4 where d4: "core_cmd_end 7 (Some (8, True)) (lk_drv l3) = Some ((FRE_SUCCESS, Some [1, 2, 3, 4]), d4)"
    using at(1) ping_result unfolding core_cmd_end_result by (simp add: frcdrv_core_req_remove_def l3_def)
  define l4 where "l4 = l3\<lparr>lk_drv := d4, lk_done := lk_done l3 @ [(rq_seq ?r, Some (8, True), FRE_SUCCESS, Some [1, 2, 3, 4])]\<rparr>"
  have s4: "link_step swap_words l3 l4" unfolding l4_def by (rule link_step.finish [OF mem d4])
  have "(link_step swap_words)\<^sup>*\<^sup>* ?l0 l4" using s1 s2 s3 s4 by (meson converse_rtranclp_into_rtranclp r_into_rtranclp)
  moreover have "lk_count l4 = 1" "lk_done l4 = [(1, Some (8, True), FRE_SUCCESS, Some [1, 2, 3, 4])]"
    using l0 by (simp_all add: l4_def l3_def l2_def l1_def)
  ultimately show ?thesis by blast
qed


end
