(* ===== verification/TupleFilter.thy ===== *)
theory TupleFilter
  imports Rule
begin

text \<open>
  The two-tuple filter \<^verbatim>\<open>frcore/frcore_filter.c\<close> and its commands and packet path
  \<^verbatim>\<open>frcore/frcore_twotuple.c\<close>, the alternative to the rules of theory \<open>Rule\<close> for filters that name one
  field (an address or a port) and the protocol.

  The filters are kept twice: in an array by their index, and as cells of a hash table with one part
  for each kind of field. A bucket is the list of the indices in its cells (\<^verbatim>\<open>LIST_HEAD\<close>, of distinct
  objects of the pool \<^verbatim>\<open>CVMX_FPA_ACL_HASH_CELL_POOL\<close>). The allocator of the pool and the CRC unit are parameters.
  \<^verbatim>\<open>gsdata.two_tuple_acl\<close> and \<^verbatim>\<open>gsdata.acl_hash_table\<close> have been allocated at start-up, so that the tests
  of these pointers against \<^verbatim>\<open>NULL\<close> fail. An index outside the array is a fault (\<open>None\<close>).
\<close>

section \<open>Data\<close>

record TwoTupleFilter =
  tt_enable :: u16
  tt_acl_type :: u16
  tt_action :: u16
  tt_op :: u16
  tt_acl_source :: u16
  tt_proto :: u16
  tt_one_tuple :: u32
  tt_index :: u32
  tt_hash :: u32
  tt_pkt_num :: u64
  tt_pkt_bytes :: u64

record acl_hash_bucket =
  bk_head :: "u64 list"
  bk_bucket_depth :: u64
  bk_total_cell :: u64
  bk_del_cell :: u64

datatype filter_stat =
    stat_acl_malformed_packet | stat_acl_type_error | stat_acl_hash_error | stat_acl_entry_exception
  | stat_acl_not_found_index | stat_acl_del_hash_cell | stat_acl_del_rule_num | stat_acl_add_hash_cell
  | stat_acl_add_rule_num | stat_acl_hash_cell_alloc_fail | stat_acl_matched_pkts | stat_acl_matched_bytes
  | stat_acl_not_matched_pkts | stat_acl_not_matched_bytes

text \<open>The parameters: the result of the CRC unit for a word and a half word, and whether the pool grants the
  \<open>k\<close>-th request. \<open>ft_alloc_req\<close> counts the requests.\<close>

record filter_sys =
  fy_crc :: "u32 \<Rightarrow> u16 \<Rightarrow> u32"
  fy_alloc :: "nat \<Rightarrow> bool"

record filter_state =
  acl_enable :: u8
  ft_numFilters :: u32
  ft_filterArr :: "TwoTupleFilter list"
  ft_hash_table :: "acl_hash_bucket list"
  ft_stat :: "filter_stat \<Rightarrow> u64"
  ft_alloc_req :: nat
  ft_chan :: chan_world

definition ACL_MAX :: nat where [c_consts]: "ACL_MAX = 2000"
definition ACL_INDEX_START :: nat where [c_consts]: "ACL_INDEX_START = 1"
definition FRCORE_MAX_FILTERS :: nat where [c_consts]: "FRCORE_MAX_FILTERS = 2048"
definition FRCORE_ACL_HASH_MASK :: u32 where [c_consts]: "FRCORE_ACL_HASH_MASK = 2047"
definition FRCORE_ACL_HASH_TABLE_SIZE :: nat where [c_consts]: "FRCORE_ACL_HASH_TABLE_SIZE = 8192"
definition FRC_ACL_UNKNOWN :: u16 where [c_consts]: "FRC_ACL_UNKNOWN = 0"
definition FRC_ACL_SIP :: u16 where [c_consts]: "FRC_ACL_SIP = 1"
definition FRC_ACL_DP :: u16 where [c_consts]: "FRC_ACL_DP = 4"

definition fstat_add :: "filter_stat \<Rightarrow> u64 \<Rightarrow> filter_state \<Rightarrow> filter_state" where
  "fstat_add x v st = st\<lparr>ft_stat := (ft_stat st)(x := ft_stat st x + v)\<rparr>"

abbreviation fstat_inc :: "filter_stat \<Rightarrow> filter_state \<Rightarrow> filter_state" where
  "fstat_inc x \<equiv> fstat_add x 1"

text \<open>\<^verbatim>\<open>filterArr[index - 1]\<close>, read and updated; the subtraction is done in \<^verbatim>\<open>int\<close>.\<close>

definition filter_at :: "u16 \<Rightarrow> filter_state \<Rightarrow> TwoTupleFilter option" where
  "filter_at index st = (if index = 0 then None else arr_get (ft_filterArr st) (unat index - 1))"

definition filter_put :: "u16 \<Rightarrow> TwoTupleFilter \<Rightarrow> filter_state \<Rightarrow> filter_state option" where
  "filter_put index f st = (if index = 0 then None else do {
     arr \<leftarrow> arr_set (ft_filterArr st) (unat index - 1) f;
     Some (st\<lparr>ft_filterArr := arr\<rparr>)
   })"

section \<open>The table of filters\<close>

definition acl_get_hash_table :: "u16 \<Rightarrow> u32 \<Rightarrow> filter_state \<Rightarrow> nat option \<times> filter_state" where
  "acl_get_hash_table acl_type hash st =
     (if acl_type \<le> FRC_ACL_UNKNOWN \<or> acl_type > FRC_ACL_DP then (None, fstat_inc stat_acl_type_error st)
      else if unat hash \<ge> FRCORE_MAX_FILTERS then (None, fstat_inc stat_acl_hash_error st)
      else (Some (FRCORE_MAX_FILTERS * (unat acl_type - 1) + unat hash), st))"

definition acl_hash_crc :: "filter_sys \<Rightarrow> u32 \<Rightarrow> u16 \<Rightarrow> u32" where
  "acl_hash_crc sys one_tuple proto = fy_crc sys one_tuple proto AND FRCORE_ACL_HASH_MASK"

definition empty_filter :: TwoTupleFilter where
  "empty_filter = \<lparr>tt_enable = 0, tt_acl_type = 0, tt_action = 0, tt_op = 0, tt_acl_source = 0, tt_proto = 0,
     tt_one_tuple = 0, tt_index = 0, tt_hash = 0, tt_pkt_num = 0, tt_pkt_bytes = 0\<rparr>"

definition empty_bucket :: acl_hash_bucket where
  "empty_bucket = \<lparr>bk_head = [], bk_bucket_depth = 0, bk_total_cell = 0, bk_del_cell = 0\<rparr>"

definition frcore_filter_init :: "filter_state \<Rightarrow> int \<times> filter_state" where
  "frcore_filter_init st = (FRE_SUCCESS, st\<lparr>ft_numFilters := 0,
     ft_filterArr := replicate FRCORE_MAX_FILTERS empty_filter,
     ft_hash_table := replicate FRCORE_ACL_HASH_TABLE_SIZE empty_bucket\<rparr>)"

definition filter_statistic_hit :: "u16 \<Rightarrow> filter_state \<Rightarrow> filter_state option" where
  "filter_statistic_hit index st = do {
     f \<leftarrow> filter_at index st;
     filter_put index (f\<lparr>tt_pkt_num := tt_pkt_num f + 1\<rparr>) st
   }"

definition filter_init_statistic_hit :: "u16 \<Rightarrow> filter_state \<Rightarrow> filter_state option" where
  "filter_init_statistic_hit index st = do {
     f \<leftarrow> filter_at index st;
     filter_put index (f\<lparr>tt_pkt_num := 0\<rparr>) st
   }"

definition filter_get_statistic_hit :: "u16 \<Rightarrow> filter_state \<Rightarrow> u64 option" where
  "filter_get_statistic_hit index st = map_option tt_pkt_num (filter_at index st)"

definition filter_pkt_bytes_add :: "u16 \<Rightarrow> u16 \<Rightarrow> filter_state \<Rightarrow> filter_state option" where
  "filter_pkt_bytes_add index pkt_len st = do {
     f \<leftarrow> filter_at index st;
     filter_put index (f\<lparr>tt_pkt_bytes := tt_pkt_bytes f + ucast pkt_len\<rparr>) st
   }"

definition filter_init_pkt_bytes :: "u16 \<Rightarrow> filter_state \<Rightarrow> filter_state option" where
  "filter_init_pkt_bytes index st = do {
     f \<leftarrow> filter_at index st;
     filter_put index (f\<lparr>tt_pkt_bytes := 0\<rparr>) st
   }"

definition filter_get_pkt_bytes :: "u16 \<Rightarrow> filter_state \<Rightarrow> u64 option" where
  "filter_get_pkt_bytes index st = map_option tt_pkt_bytes (filter_at index st)"

definition filter_init_filter_statistics :: "u16 \<Rightarrow> filter_state \<Rightarrow> filter_state option" where
  "filter_init_filter_statistics index st = filter_init_statistic_hit index st \<bind> filter_init_pkt_bytes index"

definition acl_get_filter_count :: "filter_state \<Rightarrow> u16" where
  "acl_get_filter_count st = ucast (ft_numFilters st)"

definition acl_get_hash :: "u16 \<Rightarrow> filter_state \<Rightarrow> u32 option" where
  "acl_get_hash index st = map_option tt_hash (filter_at index st)"

definition acl_get_type :: "u16 \<Rightarrow> filter_state \<Rightarrow> u16 option" where
  "acl_get_type index st = map_option tt_acl_type (filter_at index st)"

definition acl_get_status :: "u16 \<Rightarrow> filter_state \<Rightarrow> u16 option" where
  "acl_get_status index st = map_option tt_enable (filter_at index st)"

definition acl_delete_one_filter :: "u16 \<Rightarrow> filter_state \<Rightarrow> (int \<times> filter_state) option" where
  "acl_delete_one_filter index st = do {
     f \<leftarrow> filter_at index st;
     st \<leftarrow> filter_put index (f\<lparr>tt_enable := 0, tt_acl_type := FRC_ACL_UNKNOWN, tt_action := 0, tt_op := 0,
         tt_acl_source := 0, tt_proto := 0, tt_one_tuple := 0, tt_index := 0, tt_hash := 0\<rparr>)
       (st\<lparr>ft_numFilters := ft_numFilters st - 1\<rparr>);
     st \<leftarrow> filter_init_filter_statistics index st;
     Some (FRE_SUCCESS, fstat_inc stat_acl_del_rule_num st)
   }"

text \<open>The arguments of \<^verbatim>\<open>acl_set_filter\<close> after the index.\<close>

record filter_args =
  fa_one_tuple :: u32
  fa_proto :: u16
  fa_op :: u16
  fa_action :: u16
  fa_acl_type :: u16
  fa_acl_source :: u16

definition acl_add_one_filter :: "u16 \<Rightarrow> filter_args \<Rightarrow> u32 \<Rightarrow> filter_state \<Rightarrow> (int \<times> filter_state) option" where
  "acl_add_one_filter index a hash st = do {
     f \<leftarrow> filter_at index st;
     st \<leftarrow> filter_put index (f\<lparr>tt_acl_type := fa_acl_type a, tt_action := fa_action a, tt_op := fa_op a,
         tt_acl_source := fa_acl_source a, tt_proto := fa_proto a, tt_one_tuple := fa_one_tuple a,
         tt_index := ucast index, tt_hash := hash, tt_enable := 1\<rparr>) st;
     Some (FRE_SUCCESS, fstat_inc stat_acl_add_rule_num (st\<lparr>ft_numFilters := ft_numFilters st + 1\<rparr>))
   }"

text \<open>What \<^verbatim>\<open>acl_get_one_filter\<close> writes; \<^verbatim>\<open>pkt_num\<close> and \<^verbatim>\<open>bytes_num\<close> are 32 bits wide.\<close>

record filter_out =
  fo_args :: filter_args
  fo_pkt_num :: u32
  fo_bytes_num :: u32
  fo_hash :: u32

definition acl_get_one_filter :: "u16 \<Rightarrow> filter_state \<Rightarrow> (int \<times> filter_out option \<times> filter_state) option" where
  "acl_get_one_filter index st = do {
     f \<leftarrow> filter_at index st;
     if tt_enable f = 0 then Some (FRE_INIT, None, st)
     else do {
       hash \<leftarrow> acl_get_hash index st;
       type \<leftarrow> acl_get_type index st;
       case acl_get_hash_table type hash st of
         (None, st) \<Rightarrow> Some (FRE_FAIL, None, st)
       | (Some b, st) \<Rightarrow> do {
           pkts \<leftarrow> filter_get_statistic_hit index st;
           bytes \<leftarrow> filter_get_pkt_bytes index st;
           Some (FRE_SUCCESS, Some \<lparr>fo_args = \<lparr>fa_one_tuple = tt_one_tuple f, fa_proto = tt_proto f, fa_op = tt_op f,
               fa_action = tt_action f, fa_acl_type = tt_acl_type f, fa_acl_source = tt_acl_source f\<rparr>,
             fo_pkt_num = ucast pkts, fo_bytes_num = ucast bytes, fo_hash = tt_hash f\<rparr>, st)
         }
     }
   }"

definition acl_get_one_hash_table :: "u16 \<Rightarrow> u16 \<Rightarrow> filter_state \<Rightarrow> (int \<times> (u32 \<times> u32 \<times> u32) option \<times> filter_state) option" where
  "acl_get_one_hash_table acl_type tagid st =
     (case acl_get_hash_table acl_type (ucast tagid) st of
        (None, st) \<Rightarrow> Some (FRE_FAIL, None, st)
      | (Some b, st) \<Rightarrow> do {
          t \<leftarrow> arr_get (ft_hash_table st) b;
          Some (FRE_SUCCESS, Some (ucast (bk_bucket_depth t), ucast (bk_total_cell t), ucast (bk_del_cell t)), st)
        })"

section \<open>The hash table\<close>

definition put_bucket :: "nat \<Rightarrow> acl_hash_bucket \<Rightarrow> filter_state \<Rightarrow> filter_state option" where
  "put_bucket b t st = do {
     tab \<leftarrow> arr_set (ft_hash_table st) b t;
     Some (st\<lparr>ft_hash_table := tab\<rparr>)
   }"

definition acl_delete_one_filter_from_hash_table :: "u16 \<Rightarrow> nat \<Rightarrow> filter_state \<Rightarrow> (int \<times> filter_state) option" where
  "acl_delete_one_filter_from_hash_table index b st = do {
     t \<leftarrow> arr_get (ft_hash_table st) b;
     if bk_bucket_depth t = 0 \<or> bk_head t = [] then Some (FRE_FAIL, fstat_inc stat_acl_entry_exception st)
     else if ucast index \<in> set (bk_head t) then do {
       st \<leftarrow> put_bucket b (t\<lparr>bk_head := remove1 (ucast index) (bk_head t), bk_bucket_depth := bk_bucket_depth t - 1,
           bk_del_cell := bk_del_cell t + 1\<rparr>) (fstat_inc stat_acl_del_hash_cell st);
       Some (FRE_SUCCESS, st)
     }
     else Some (FRE_FAIL, fstat_inc stat_acl_not_found_index st)
   }"

definition fpa_alloc_cell :: "filter_sys \<Rightarrow> filter_state \<Rightarrow> bool \<times> filter_state" where
  "fpa_alloc_cell sys st = (fy_alloc sys (ft_alloc_req st), st\<lparr>ft_alloc_req := ft_alloc_req st + 1\<rparr>)"

definition acl_add_one_filter_to_hash_table :: "filter_sys \<Rightarrow> u16 \<Rightarrow> filter_state \<Rightarrow> (int \<times> filter_state) option" where
  "acl_add_one_filter_to_hash_table sys index st = do {
     hash \<leftarrow> acl_get_hash index st;
     acl_type \<leftarrow> acl_get_type index st;
     case acl_get_hash_table acl_type hash st of
       (None, st) \<Rightarrow> Some (FRE_FAIL, st)
     | (Some b, st) \<Rightarrow>
         (case fpa_alloc_cell sys st of
            (False, st) \<Rightarrow> Some (FRE_FAIL, fstat_inc stat_acl_hash_cell_alloc_fail st)
          | (True, st) \<Rightarrow> do {
              t \<leftarrow> arr_get (ft_hash_table st) b;
              st \<leftarrow> put_bucket b (t\<lparr>bk_head := bk_head t @ [ucast index], bk_bucket_depth := bk_bucket_depth t + 1,
                  bk_total_cell := bk_total_cell t + 1\<rparr>) st;
              Some (FRE_SUCCESS, fstat_inc stat_acl_add_hash_cell st)
            })
   }"

text \<open>Taking an enabled filter out of the table and the array, the part that \<^verbatim>\<open>acl_set_filter\<close> and
  \<^verbatim>\<open>acl_del_filter\<close> share.\<close>

definition drop_filter :: "u16 \<Rightarrow> filter_state \<Rightarrow> (int \<times> filter_state) option" where
  "drop_filter index st = do {
     hash \<leftarrow> acl_get_hash index st;
     acl_type \<leftarrow> acl_get_type index st;
     case acl_get_hash_table acl_type hash st of
       (None, st) \<Rightarrow> Some (FRE_FAIL, st)
     | (Some b, st) \<Rightarrow> do {
         (rv, st) \<leftarrow> acl_delete_one_filter_from_hash_table index b st;
         if rv \<noteq> 0 then Some (rv, st) else acl_delete_one_filter index st
       }
   }"

definition index_exceeds :: "u16 \<Rightarrow> bool" where
  "index_exceeds index \<longleftrightarrow> unat index < ACL_INDEX_START \<or> unat index > ACL_MAX"

definition acl_set_filter :: "filter_sys \<Rightarrow> u16 \<Rightarrow> filter_args \<Rightarrow> filter_state \<Rightarrow> (int \<times> filter_state) option" where
  "acl_set_filter sys index a st =
     (if index_exceeds index then Some (FRE_PARAM, st)
      else if fa_acl_type a < FRC_ACL_SIP \<or> fa_acl_type a > FRC_ACL_DP then Some (FRE_PARAM, st)
      else do {
        acl_status \<leftarrow> acl_get_status index st;
        (rv, st) \<leftarrow> (if acl_status \<noteq> 0 then drop_filter index st else Some (FRE_SUCCESS, st));
        if rv \<noteq> 0 then Some (rv, st)
        else do {
          let hash = acl_hash_crc sys (fa_one_tuple a) (fa_proto a);
          case acl_get_hash_table (fa_acl_type a) hash st of
            (None, st) \<Rightarrow> Some (FRE_FAIL, st)
          | (Some _, st) \<Rightarrow> do {
              (rv, st) \<leftarrow> acl_add_one_filter index a hash st;
              if rv \<noteq> 0 then Some (rv, st) else acl_add_one_filter_to_hash_table sys index st
            }
        }
      })"

definition acl_del_filter :: "u16 \<Rightarrow> filter_state \<Rightarrow> (int \<times> filter_state) option" where
  "acl_del_filter index st =
     (if index_exceeds index then Some (FRE_PARAM, st)
      else do {
        acl_status \<leftarrow> acl_get_status index st;
        if acl_status = 0 then Some (FRE_INIT, st) else drop_filter index st
      })"

section \<open>Looking a packet up\<close>

definition tuple_field :: "mpp_tuple \<Rightarrow> nat \<Rightarrow> u32" where
  "tuple_field t i = [t_sip t, t_dip t, ucast (t_sp t), ucast (t_dp t)] ! i"

text \<open>\<^verbatim>\<open>LIST_FOREACH\<close> over a bucket: the first cell whose filter names the field and the protocol.\<close>

fun bucket_search :: "filter_state \<Rightarrow> u32 \<Rightarrow> u8 \<Rightarrow> u64 list \<Rightarrow> u64 option option" where
  "bucket_search st one_tuple proto [] = Some None"
| "bucket_search st one_tuple proto (q # qs) = do {
     f \<leftarrow> (if q = 0 then None else arr_get (ft_filterArr st) (unat q - 1));
     if tt_one_tuple f = one_tuple \<and> tt_proto f = ucast proto then Some (Some q)
     else bucket_search st one_tuple proto qs
   }"

text \<open>One round of the loop: a result to return, or \<open>None\<close> to go on.\<close>

definition lookup_round :: "filter_sys \<Rightarrow> mpp_tuple \<Rightarrow> nat \<Rightarrow> filter_state \<Rightarrow> (u16 option \<times> filter_state) option" where
  "lookup_round sys t i st = do {
     let hash = acl_hash_crc sys (tuple_field t i) (ucast (t_proto t));
     case acl_get_hash_table (of_nat (i + 1)) hash st of
       (None, st) \<Rightarrow> Some (Some (of_int FRE_FAIL), st)
     | (Some b, st) \<Rightarrow> do {
         bk \<leftarrow> arr_get (ft_hash_table st) b;
         if bk_head bk = [] \<and> bk_bucket_depth bk = 0 then Some (None, st)
         else do {
           r \<leftarrow> bucket_search st (tuple_field t i) (t_proto t) (bk_head bk);
           Some (map_option ucast r, st)
         }
       }
   }"

fun lookup_rounds :: "filter_sys \<Rightarrow> mpp_tuple \<Rightarrow> nat list \<Rightarrow> filter_state \<Rightarrow> (u16 \<times> filter_state) option" where
  "lookup_rounds sys t [] st = Some (0, st)"
| "lookup_rounds sys t (i # is) st = do {
     (r, st) \<leftarrow> lookup_round sys t i st;
     case r of Some tag \<Rightarrow> Some (tag, st) | None \<Rightarrow> lookup_rounds sys t is st
   }"

definition filter_lookup_by_tuple :: "filter_sys \<Rightarrow> mpp_tuple \<Rightarrow> filter_state \<Rightarrow> (u16 \<times> filter_state) option" where
  "filter_lookup_by_tuple sys t st = lookup_rounds sys t [0..<4] st"

section \<open>What the table promises\<close>

text \<open>
  The abstract filters: the linked filters in the order in which they were set, and the filters that are
  enabled in the array but have no cell because the pool refused one.
\<close>

record filter_ent =
  fe_index :: u16
  fe_type :: u16
  fe_one_tuple :: u32
  fe_proto :: u16

record filters =
  fl_linked :: "filter_ent list"
  fl_stuck :: "filter_ent list"
  fl_req :: nat

definition type_exceeds :: "u16 \<Rightarrow> bool" where
  "type_exceeds t \<longleftrightarrow> t < FRC_ACL_SIP \<or> t > FRC_ACL_DP"

abbreviation indices :: "filter_ent list \<Rightarrow> u16 set" where
  "indices es \<equiv> fe_index ` set es"

abbreviation without :: "u16 \<Rightarrow> filter_ent list \<Rightarrow> filter_ent list" where
  "without i \<equiv> filter (\<lambda>e. fe_index e \<noteq> i)"

definition ent_of :: "u16 \<Rightarrow> filter_args \<Rightarrow> filter_ent" where
  "ent_of i a = \<lparr>fe_index = i, fe_type = fa_acl_type a, fe_one_tuple = fa_one_tuple a, fe_proto = fa_proto a\<rparr>"

definition spec_set :: "filter_sys \<Rightarrow> u16 \<Rightarrow> filter_args \<Rightarrow> filters \<Rightarrow> int \<times> filters" where
  "spec_set sys i a s =
     (if index_exceeds i \<or> type_exceeds (fa_acl_type a) then (FRE_PARAM, s)
      else if i \<in> indices (fl_stuck s) then (FRE_FAIL, s)
      else if fy_alloc sys (fl_req s)
      then (FRE_SUCCESS, s\<lparr>fl_linked := without i (fl_linked s) @ [ent_of i a], fl_req := fl_req s + 1\<rparr>)
      else (FRE_FAIL, s\<lparr>fl_linked := without i (fl_linked s), fl_stuck := ent_of i a # fl_stuck s, fl_req := fl_req s + 1\<rparr>))"

definition spec_del :: "u16 \<Rightarrow> filters \<Rightarrow> int \<times> filters" where
  "spec_del i s =
     (if index_exceeds i then (FRE_PARAM, s)
      else if i \<in> indices (fl_stuck s) then (FRE_FAIL, s)
      else if i \<in> indices (fl_linked s) then (FRE_SUCCESS, s\<lparr>fl_linked := without i (fl_linked s)\<rparr>)
      else (FRE_INIT, s))"

text \<open>A packet hits a filter of type \<open>k + 1\<close> when the filter names its field \<open>k\<close> and its protocol. The search
  goes by type first and by age second.\<close>

definition hits :: "mpp_tuple \<Rightarrow> nat \<Rightarrow> filter_ent \<Rightarrow> bool" where
  "hits t k e \<longleftrightarrow> fe_type e = of_nat (k + 1) \<and> fe_one_tuple e = tuple_field t k \<and> fe_proto e = ucast (t_proto t)"

definition spec_lookup :: "mpp_tuple \<Rightarrow> filters \<Rightarrow> u16" where
  "spec_lookup t s = (case concat (map (\<lambda>k. filter (hits t k) (fl_linked s)) [0..<4]) of [] \<Rightarrow> 0 | e # _ \<Rightarrow> fe_index e)"

section \<open>The table and the filters it stands for\<close>

definition ent_ok :: "filter_ent \<Rightarrow> bool" where
  "ent_ok e \<longleftrightarrow> \<not> index_exceeds (fe_index e) \<and> \<not> type_exceeds (fe_type e)"

definition ent_hash :: "filter_sys \<Rightarrow> filter_ent \<Rightarrow> u32" where
  "ent_hash sys e = acl_hash_crc sys (fe_one_tuple e) (fe_proto e)"

definition ent_bucket :: "filter_sys \<Rightarrow> filter_ent \<Rightarrow> nat" where
  "ent_bucket sys e = 2048 * (unat (fe_type e) - 1) + unat (ent_hash sys e)"

definition stores :: "filter_sys \<Rightarrow> filter_ent \<Rightarrow> TwoTupleFilter \<Rightarrow> bool" where
  "stores sys e f \<longleftrightarrow> tt_enable f = 1 \<and> tt_acl_type f = fe_type e \<and> tt_one_tuple f = fe_one_tuple e \<and>
     tt_proto f = fe_proto e \<and> tt_hash f = ent_hash sys e"

definition slot :: "filter_ent \<Rightarrow> nat" where
  "slot e = unat (fe_index e) - 1"

definition array_rel :: "filter_sys \<Rightarrow> TwoTupleFilter list \<Rightarrow> filter_ent list \<Rightarrow> bool" where
  "array_rel sys arr es \<longleftrightarrow> length arr = 2048 \<and> distinct (map fe_index es) \<and>
     (\<forall>e \<in> set es. ent_ok e \<and> stores sys e (arr ! slot e)) \<and>
     (\<forall>k < 2048. tt_enable (arr ! k) \<noteq> 0 \<longrightarrow> k \<in> slot ` set es)"

definition bucket_rel :: "acl_hash_bucket \<Rightarrow> filter_ent list \<Rightarrow> bool" where
  "bucket_rel t es \<longleftrightarrow> bk_head t = map (\<lambda>e. ucast (fe_index e)) es \<and> bk_bucket_depth t = of_nat (length es) \<and>
     bk_total_cell t = bk_bucket_depth t + bk_del_cell t"

definition table_rel :: "filter_sys \<Rightarrow> acl_hash_bucket list \<Rightarrow> filter_ent list \<Rightarrow> bool" where
  "table_rel sys tab es \<longleftrightarrow> length tab = 8192 \<and> (\<forall>b < 8192. bucket_rel (tab ! b) (filter (\<lambda>e. ent_bucket sys e = b) es))"

definition filter_rel :: "filter_sys \<Rightarrow> filter_state \<Rightarrow> filters \<Rightarrow> bool" where
  "filter_rel sys st s \<longleftrightarrow> array_rel sys (ft_filterArr st) (fl_linked s @ fl_stuck s) \<and>
     table_rel sys (ft_hash_table st) (fl_linked s) \<and> ft_alloc_req st = fl_req s \<and>
     ft_numFilters st = of_nat (length (fl_linked s) + length (fl_stuck s))"

lemma fstat_add_simps [simp]:
  "ft_filterArr (fstat_add x v st) = ft_filterArr st" "ft_hash_table (fstat_add x v st) = ft_hash_table st"
  "ft_numFilters (fstat_add x v st) = ft_numFilters st" "ft_alloc_req (fstat_add x v st) = ft_alloc_req st"
  "ft_chan (fstat_add x v st) = ft_chan st" "acl_enable (fstat_add x v st) = acl_enable st"
  "filter_rel sys (fstat_add x v st) s = filter_rel sys st s" "filter_at i (fstat_add x v st) = filter_at i st"
  by (simp_all add: fstat_add_def filter_rel_def filter_at_def)

lemma index_ok_facts:
  assumes "\<not> index_exceeds i"
  shows "i \<noteq> 0" "unat i - 1 < 2048" "Suc (unat i - 1) = unat i" "unat i \<le> 2000"
  using assms by (auto simp: index_exceeds_def c_consts)

lemma slot_inj:
  assumes "\<not> index_exceeds i" "\<not> index_exceeds j"
  shows "unat i - 1 = unat j - 1 \<longleftrightarrow> i = j"
  using index_ok_facts(3) [OF assms(1)] index_ok_facts(3) [OF assms(2)] by (metis word_unat_eq_iff)

lemma slot_facts:
  assumes "ent_ok e"
  shows "slot e < 2048" "ent_ok x \<Longrightarrow> slot x = slot e \<longleftrightarrow> fe_index x = fe_index e"
  using assms index_ok_facts(2) slot_inj by (simp_all add: ent_ok_def slot_def)

lemma hash_below: "unat (acl_hash_crc sys x p) < 2048"
proof -
  have "acl_hash_crc sys x p \<le> 2047" unfolding acl_hash_crc_def FRCORE_ACL_HASH_MASK_def by (rule word_and_le1)
  then show ?thesis by (simp add: word_le_nat_alt)
qed

lemma type_ok_facts:
  assumes "\<not> type_exceeds t"
  shows "1 \<le> unat t" "unat t \<le> 4" "\<not> (t \<le> FRC_ACL_UNKNOWN \<or> t > FRC_ACL_DP)"
proof -
  have le: "1 \<le> t" "t \<le> 4" using assms unfolding type_exceeds_def c_consts by (simp_all only: not_less de_Morgan_disj)
  then show "1 \<le> unat t" "unat t \<le> 4" by (simp_all add: word_le_nat_alt)
  then show "\<not> (t \<le> FRC_ACL_UNKNOWN \<or> t > FRC_ACL_DP)" using le by (auto simp: c_consts)
qed

lemma ent_bucket_less: "ent_ok e \<Longrightarrow> ent_bucket sys e < 8192"
  using hash_below [of sys "fe_one_tuple e" "fe_proto e"] type_ok_facts(2) [of "fe_type e"]
  by (auto simp: ent_bucket_def ent_ok_def ent_hash_def)

lemma get_hash_table_ent:
  "ent_ok e \<Longrightarrow> acl_get_hash_table (fe_type e) (ent_hash sys e) st = (Some (ent_bucket sys e), st)"
  using hash_below [of sys "fe_one_tuple e" "fe_proto e"] type_ok_facts [of "fe_type e"]
  by (simp add: acl_get_hash_table_def ent_bucket_def ent_ok_def ent_hash_def FRCORE_MAX_FILTERS_def)

lemma ent_bucket_eq:
  assumes "ent_ok e" "ent_ok e'" "ent_bucket sys e = ent_bucket sys e'"
  shows "fe_type e = fe_type e'"
proof -
  have h: "unat (ent_hash sys x) < 2048" for x by (simp add: ent_hash_def hash_below)
  have "(unat (fe_type e) - 1) = ent_bucket sys e div 2048" "(unat (fe_type e') - 1) = ent_bucket sys e' div 2048"
    using h by (simp_all add: ent_bucket_def)
  moreover have "1 \<le> unat (fe_type e)" "1 \<le> unat (fe_type e')"
    using assms type_ok_facts(1) by (simp_all add: ent_ok_def)
  ultimately have "unat (fe_type e) = unat (fe_type e')" using assms(3) by simp
  then show ?thesis by (simp add: word_unat_eq_iff)
qed

lemma ents_few: "distinct (map fe_index es) \<Longrightarrow> length es \<le> 65536"
proof -
  assume d: "distinct (map fe_index es)"
  have "card (set (map fe_index es)) \<le> card (UNIV :: u16 set)" by (rule card_mono) auto
  moreover have "card (UNIV :: u16 set) = 65536" by (simp add: card_word)
  ultimately show ?thesis using distinct_card [OF d] by simp
qed

text \<open>The two halves of the relation under the updates of the operations.\<close>

lemma array_rel_stored:
  assumes "array_rel sys arr es" "e \<in> set es"
  shows "ent_ok e" "stores sys e (arr ! slot e)" "slot e < length arr" "fe_index e \<noteq> 0"
  using assms slot_facts(1) [of e] index_ok_facts(1) [of "fe_index e"] by (auto simp: array_rel_def ent_ok_def)

lemma array_rel_status:
  assumes "array_rel sys arr es" "\<not> index_exceeds i"
  shows "tt_enable (arr ! (unat i - 1)) \<noteq> 0 \<longleftrightarrow> i \<in> indices es"
proof
  assume "tt_enable (arr ! (unat i - 1)) \<noteq> 0"
  then obtain e where e: "e \<in> set es" "unat i - 1 = slot e"
    using assms index_ok_facts(2) [OF assms(2)] by (auto simp: array_rel_def)
  then have "i = fe_index e"
    using slot_inj [OF assms(2), of "fe_index e"] array_rel_stored(1) [OF assms(1) e(1)] unfolding ent_ok_def slot_def by blast
  then show "i \<in> indices es" using e by simp
next
  assume "i \<in> indices es"
  then show "tt_enable (arr ! (unat i - 1)) \<noteq> 0"
    using array_rel_stored(2) [OF assms(1)] by (auto simp: stores_def slot_def)
qed

lemma array_relI:
  assumes "length arr = 2048" "distinct (map fe_index es)" "\<And>e. e \<in> set es \<Longrightarrow> ent_ok e \<and> stores sys e (arr ! slot e)"
    and "\<And>k. k < 2048 \<Longrightarrow> tt_enable (arr ! k) \<noteq> 0 \<Longrightarrow> k \<in> slot ` set es"
  shows "array_rel sys arr es"
  using assms by (simp add: array_rel_def)

lemma array_rel_delete:
  assumes rel: "array_rel sys arr es" and e: "e \<in> set es" and f: "tt_enable f = 0"
  shows "array_rel sys (arr[slot e := f]) (without (fe_index e) es)"
proof (rule array_relI)
  have ok: "ent_ok e" and len: "length arr = 2048" using array_rel_stored(1) [OF rel e] rel by (auto simp: array_rel_def)
  show "length (arr[slot e := f]) = 2048" using len by simp
  show "distinct (map fe_index (without (fe_index e) es))" using rel by (simp add: array_rel_def distinct_map_filter)
  show "ent_ok x \<and> stores sys x (arr[slot e := f] ! slot x)" if "x \<in> set (without (fe_index e) es)" for x
    using that slot_facts(2) [OF ok, of x] array_rel_stored(1,2) [OF rel, of x] by (simp add: nth_list_update)
  fix k assume k: "k < 2048" "tt_enable (arr[slot e := f] ! k) \<noteq> 0"
  then have ke: "k \<noteq> slot e" using f len by auto
  then obtain x where "x \<in> set es" "k = slot x" using k rel by (auto simp: array_rel_def)
  with ke show "k \<in> slot ` set (without (fe_index e) es)" by (auto simp: slot_def)
qed

lemma array_rel_insert:
  assumes rel: "array_rel sys arr es" and e: "fe_index e \<notin> indices es" "ent_ok e" "stores sys e f"
    and es': "set es' = insert e (set es)" "distinct (map fe_index es')"
  shows "array_rel sys (arr[slot e := f]) es'"
proof (rule array_relI)
  have len: "length arr = 2048" using rel by (simp add: array_rel_def)
  show "length (arr[slot e := f]) = 2048" using len by simp
  show "distinct (map fe_index es')" by fact
  show "ent_ok x \<and> stores sys x (arr[slot e := f] ! slot x)" if x: "x \<in> set es'" for x
  proof (cases "x = e")
    case False
    then have xs: "x \<in> set es" using x es' by simp
    then have "fe_index x \<noteq> fe_index e" using e(1) by (metis imageI)
    then show ?thesis using slot_facts(2) [OF e(2), of x] array_rel_stored(1,2) [OF rel xs] by simp
  qed (use e slot_facts(1) [OF e(2)] len in simp)
  show "k \<in> slot ` set es'" if "k < 2048" "tt_enable (arr[slot e := f] ! k) \<noteq> 0" for k
    using that rel es'(1) by (cases "k = slot e") (auto simp: array_rel_def)
qed

lemma bucket_rel_depth:
  assumes "bucket_rel t es" "length es \<le> 65536"
  shows "bk_bucket_depth t = 0 \<longleftrightarrow> es = []"
proof -
  have "unat (bk_bucket_depth t) = length es"
    using assms by (simp add: bucket_rel_def unat_of_nat)
  then show ?thesis by (metis length_0_conv unat_eq_zero)
qed

lemma cell_inj: "ucast i = (ucast j :: u64) \<longleftrightarrow> i = j" for i j :: u16
proof
  assume "ucast i = (ucast j :: u64)"
  then have "unat (ucast i :: u64) = unat (ucast j :: u64)" by simp
  then show "i = j" by (simp add: word_unat_eq_iff)
qed simp

lemma cell_back: "ucast (ucast i :: u64) = (i :: u16)"
proof -
  have "unat (ucast (ucast i :: u64) :: u16) = unat i" using unat_u16 [of i] by (simp add: unat_ucast_mod)
  then show ?thesis by (simp add: word_unat_eq_iff)
qed

lemma cells_index:
  "ucast (i :: u16) \<in> (\<lambda>e. ucast (fe_index e) :: u64) ` set es \<longleftrightarrow> i \<in> indices es"
  by (auto simp: cell_inj)

lemma remove1_cells:
  assumes "distinct (map fe_index es)"
  shows "remove1 (ucast i :: u64) (map (\<lambda>e. ucast (fe_index e)) es) = map (\<lambda>e. ucast (fe_index e)) (without i es)"
  using assms
proof (induction es)
  case (Cons e es)
  have "without i es = es" if "fe_index e = i" using Cons.prems that by (auto simp: filter_id_conv rev_image_eqI)
  with Cons show ?case by (auto simp: cell_inj)
qed simp

lemma bucket_rel_delete:
  assumes "bucket_rel t es" "e \<in> set es" "distinct (map fe_index es)"
  shows "bucket_rel (t\<lparr>bk_head := remove1 (ucast (fe_index e)) (bk_head t), bk_bucket_depth := bk_bucket_depth t - 1,
    bk_del_cell := bk_del_cell t + 1\<rparr>) (without (fe_index e) es)"
proof -
  have "length (bk_head t) = length es" "remove1 (ucast (fe_index e)) (bk_head t) = map (\<lambda>e. ucast (fe_index e)) (without (fe_index e) es)"
    using assms by (simp_all add: bucket_rel_def remove1_cells)
  moreover have "ucast (fe_index e) \<in> set (bk_head t)" using assms by (auto simp: bucket_rel_def)
  moreover have "0 < length es" using assms(2) by (rule length_pos_if_in_set)
  ultimately have "length es = Suc (length (without (fe_index e) es))"
    using length_remove1 [of "ucast (fe_index e)" "bk_head t"] by simp
  then show ?thesis using assms by (simp add: bucket_rel_def remove1_cells)
qed

lemma bucket_rel_append:
  "bucket_rel t es \<Longrightarrow> bucket_rel (t\<lparr>bk_head := bk_head t @ [ucast (fe_index e)], bk_bucket_depth := bk_bucket_depth t + 1,
    bk_total_cell := bk_total_cell t + 1\<rparr>) (es @ [e])"
  by (simp add: bucket_rel_def)

lemma filter_swap: "filter p (filter q xs) = filter q (filter p xs)"
  by (simp add: conj_commute)

lemma table_rel_delete:
  assumes rel: "table_rel sys tab es" and e: "e \<in> set es" and t: "bucket_rel t (without (fe_index e) (filter (\<lambda>x. ent_bucket sys x = ent_bucket sys e) es))"
    and d: "distinct (map fe_index es)"
  shows "table_rel sys (tab[ent_bucket sys e := t]) (without (fe_index e) es)"
  unfolding table_rel_def
proof (intro conjI allI impI)
  show "length (tab[ent_bucket sys e := t]) = 8192" using rel by (simp add: table_rel_def)
  fix b :: nat assume b: "b < 8192"
  show "bucket_rel (tab[ent_bucket sys e := t] ! b) (filter (\<lambda>x. ent_bucket sys x = b) (without (fe_index e) es))"
  proof (cases "b = ent_bucket sys e")
    case True
    then show ?thesis using t b rel by (simp add: table_rel_def filter_swap del: filter_filter)
  next
    case False
    have "fe_index x \<noteq> fe_index e" if "x \<in> set es" "ent_bucket sys x = b" for x
      using that False d e by (metis distinct_map inj_on_eq_iff)
    then have "filter (\<lambda>x. ent_bucket sys x = b) (without (fe_index e) es) = filter (\<lambda>x. ent_bucket sys x = b) es"
      by (auto intro: filter_cong)
    then show ?thesis using False rel b by (simp add: table_rel_def)
  qed
qed

lemma table_rel_append:
  assumes rel: "table_rel sys tab es" and t: "bucket_rel t (filter (\<lambda>x. ent_bucket sys x = ent_bucket sys e) es @ [e])"
  shows "table_rel sys (tab[ent_bucket sys e := t]) (es @ [e])"
  using assms by (auto simp: table_rel_def nth_list_update)

section \<open>The operations implement the abstract ones\<close>

lemma filter_at_ent: "fe_index e \<noteq> 0 \<Longrightarrow> slot e < length (ft_filterArr st) \<Longrightarrow> filter_at (fe_index e) st = Some (ft_filterArr st ! slot e)"
  by (simp add: filter_at_def slot_def)

lemma filter_put_ent: "fe_index e \<noteq> 0 \<Longrightarrow> slot e < length (ft_filterArr st) \<Longrightarrow>
    filter_put (fe_index e) f st = Some (st\<lparr>ft_filterArr := (ft_filterArr st)[slot e := f]\<rparr>)"
  by (simp add: filter_put_def slot_def)

lemma delete_one_filter_eq:
  assumes "fe_index e \<noteq> 0" "slot e < length (ft_filterArr st)"
  shows "\<exists>f. acl_delete_one_filter (fe_index e) st = Some (FRE_SUCCESS, fstat_inc stat_acl_del_rule_num
      (st\<lparr>ft_numFilters := ft_numFilters st - 1, ft_filterArr := (ft_filterArr st)[slot e := f]\<rparr>)) \<and> tt_enable f = 0"
  using assms by (intro exI [of _ "(ft_filterArr st ! slot e)\<lparr>tt_enable := 0, tt_acl_type := FRC_ACL_UNKNOWN, tt_action := 0, tt_op := 0,
         tt_acl_source := 0, tt_proto := 0, tt_one_tuple := 0, tt_index := 0, tt_hash := 0, tt_pkt_num := 0, tt_pkt_bytes := 0\<rparr>"])
    (simp add: acl_delete_one_filter_def filter_init_filter_statistics_def filter_init_statistic_hit_def
      filter_init_pkt_bytes_def filter_at_ent filter_put_ent)

lemma rel_stored:
  assumes "filter_rel sys st s" "e \<in> set (fl_linked s @ fl_stuck s)"
  shows "ent_ok e" "fe_index e \<noteq> 0" "slot e < length (ft_filterArr st)" "stores sys e (ft_filterArr st ! slot e)"
    "ent_bucket sys e < length (ft_hash_table st)"
    "bucket_rel (ft_hash_table st ! ent_bucket sys e) (filter (\<lambda>x. ent_bucket sys x = ent_bucket sys e) (fl_linked s))"
  using assms array_rel_stored [of sys "ft_filterArr st" "fl_linked s @ fl_stuck s" e] ent_bucket_less [of e sys]
  by (auto simp: filter_rel_def table_rel_def)

lemma rel_distinct:
  assumes "filter_rel sys st s"
  shows "distinct (map fe_index (fl_linked s))" "distinct (map fe_index (fl_stuck s))"
    "e \<in> set (fl_linked s) \<Longrightarrow> fe_index e \<notin> indices (fl_stuck s)"
    "length (filter p (fl_linked s)) \<le> 65536"
  using assms ents_few [of "filter p (fl_linked s)"]
  by (auto simp: filter_rel_def array_rel_def distinct_map_filter)

lemma drop_filter_at:
  assumes "filter_rel sys st s" "e \<in> set (fl_linked s @ fl_stuck s)"
  shows "drop_filter (fe_index e) st = do {
     (rv, st) \<leftarrow> acl_delete_one_filter_from_hash_table (fe_index e) (ent_bucket sys e) st;
     if rv \<noteq> 0 then Some (rv, st) else acl_delete_one_filter (fe_index e) st }"
  using rel_stored [OF assms] get_hash_table_ent [of e sys st]
  by (simp add: drop_filter_def acl_get_hash_def acl_get_type_def filter_at_ent stores_def)

lemma drop_linked:
  assumes rel: "filter_rel sys st s" and e: "e \<in> set (fl_linked s)"
  shows "\<exists>st'. drop_filter (fe_index e) st = Some (FRE_SUCCESS, st') \<and>
    filter_rel sys st' (s\<lparr>fl_linked := without (fe_index e) (fl_linked s)\<rparr>)"
proof -
  let ?b = "ent_bucket sys e" and ?i = "fe_index e"
  let ?es = "filter (\<lambda>x. ent_bucket sys x = ?b) (fl_linked s)"
  let ?t = "ft_hash_table st ! ?b"
  let ?t' = "?t\<lparr>bk_head := remove1 (ucast ?i) (bk_head ?t), bk_bucket_depth := bk_bucket_depth ?t - 1, bk_del_cell := bk_del_cell ?t + 1\<rparr>"
  have e': "e \<in> set (fl_linked s @ fl_stuck s)" "e \<in> set ?es" using e by auto
  note st = rel_stored [OF rel e'(1)] and d = rel_distinct [OF rel]
  have cell: "ucast ?i \<in> set (bk_head ?t)" using st(6) e'(2) by (auto simp: bucket_rel_def)
  have "bk_bucket_depth ?t \<noteq> 0" using bucket_rel_depth [OF st(6)] e'(2) d(4) by fastforce
  then have del: "acl_delete_one_filter_from_hash_table ?i ?b st =
      Some (FRE_SUCCESS, (fstat_inc stat_acl_del_hash_cell st)\<lparr>ft_hash_table := (ft_hash_table st)[?b := ?t']\<rparr>)"
    using st(5) cell by (auto simp: acl_delete_one_filter_from_hash_table_def put_bucket_def)
  define st1 where "st1 = (fstat_inc stat_acl_del_hash_cell st)\<lparr>ft_hash_table := (ft_hash_table st)[?b := ?t']\<rparr>"
  have st1: "ft_filterArr st1 = ft_filterArr st" "ft_numFilters st1 = ft_numFilters st" "ft_alloc_req st1 = ft_alloc_req st"
    "ft_hash_table st1 = (ft_hash_table st)[?b := ?t']"
    by (simp_all add: st1_def)
  obtain f where f: "acl_delete_one_filter ?i st1 = Some (FRE_SUCCESS, fstat_inc stat_acl_del_rule_num
      (st1\<lparr>ft_numFilters := ft_numFilters st1 - 1, ft_filterArr := (ft_filterArr st1)[slot e := f]\<rparr>))" "tt_enable f = 0"
    using delete_one_filter_eq [of e st1] st st1(1) by auto
  have split: "without ?i (fl_linked s @ fl_stuck s) = without ?i (fl_linked s) @ fl_stuck s"
    using d(3) [OF e] by (auto simp: filter_id_conv rev_image_eqI)
  have arr: "array_rel sys ((ft_filterArr st)[slot e := f]) (without ?i (fl_linked s) @ fl_stuck s)"
    using array_rel_delete [OF _ e'(1) f(2)] rel unfolding split by (auto simp: filter_rel_def)
  have "bucket_rel ?t' (without ?i ?es)"
    by (rule bucket_rel_delete [OF st(6) e'(2)]) (simp add: d(1) distinct_map_filter)
  then have tab: "table_rel sys ((ft_hash_table st)[?b := ?t']) (without ?i (fl_linked s))"
    using table_rel_delete [OF _ e _ d(1)] rel by (auto simp: filter_rel_def)
  have "length (fl_linked s) = Suc (length (without ?i (fl_linked s)))"
    using remove1_cells [OF d(1), of ?i] length_remove1 [of "ucast ?i :: u64" "map (\<lambda>e. ucast (fe_index e)) (fl_linked s)"] e
      length_pos_if_in_set [OF e] by (simp add: cells_index split: if_splits)
  then have "ft_numFilters st - 1 = of_nat (length (without ?i (fl_linked s)) + length (fl_stuck s))"
    using rel by (simp add: filter_rel_def)
  then show ?thesis
    unfolding drop_filter_at [OF rel e'(1)] del
    using f arr tab rel by (simp add: st1 FRE_SUCCESS_def flip: st1_def) (simp add: filter_rel_def st1)
qed

lemma drop_stuck:
  assumes rel: "filter_rel sys st s" and e: "e \<in> set (fl_stuck s)"
  shows "\<exists>st'. drop_filter (fe_index e) st = Some (FRE_FAIL, st') \<and> filter_rel sys st' s"
proof -
  have e': "e \<in> set (fl_linked s @ fl_stuck s)" using e by simp
  note st = rel_stored [OF rel e']
  have "fe_index e \<notin> indices (fl_linked s)" using rel_distinct(3) [OF rel] e by (metis imageE imageI)
  then have no: "ucast (fe_index e) \<notin> set (bk_head (ft_hash_table st ! ent_bucket sys e))"
    using st(6) cells_index [of "fe_index e" "filter (\<lambda>x. ent_bucket sys x = ent_bucket sys e) (fl_linked s)"]
    by (auto simp: bucket_rel_def)
  show ?thesis
    unfolding drop_filter_at [OF rel e'] using st(5) no rel
    by (auto simp: acl_delete_one_filter_from_hash_table_def FRE_FAIL_def)
qed

lemma add_filter:
  assumes rel: "filter_rel sys st s" and i: "\<not> index_exceeds i" "i \<notin> indices (fl_linked s @ fl_stuck s)"
    and a: "\<not> type_exceeds (fa_acl_type a)"
  shows "\<exists>st'. do { (rv, st) \<leftarrow> acl_add_one_filter i a (acl_hash_crc sys (fa_one_tuple a) (fa_proto a)) st;
      if rv \<noteq> 0 then Some (rv, st) else acl_add_one_filter_to_hash_table sys i st } =
    Some (if fy_alloc sys (fl_req s) then FRE_SUCCESS else FRE_FAIL, st') \<and>
    filter_rel sys st' (if fy_alloc sys (fl_req s) then s\<lparr>fl_linked := fl_linked s @ [ent_of i a], fl_req := fl_req s + 1\<rparr>
      else s\<lparr>fl_stuck := ent_of i a # fl_stuck s, fl_req := fl_req s + 1\<rparr>)"
proof -
  define e where "e = ent_of i a"
  have ie: "i = fe_index e" "ent_hash sys e = acl_hash_crc sys (fa_one_tuple a) (fa_proto a)" "ent_ok e" "fe_type e = fa_acl_type a"
    using i a by (simp_all add: e_def ent_of_def ent_hash_def ent_ok_def)
  have len: "length (ft_filterArr st) = 2048" "length (ft_hash_table st) = 8192"
    using rel by (auto simp: filter_rel_def array_rel_def table_rel_def)
  have sl: "fe_index e \<noteq> 0" "slot e < length (ft_filterArr st)" "ent_bucket sys e < length (ft_hash_table st)"
    using index_ok_facts(1) [OF i(1)] slot_facts(1) [OF ie(3)] ent_bucket_less [OF ie(3)] len by (simp_all add: ie(1))
  define f where "f = (ft_filterArr st ! slot e)\<lparr>tt_acl_type := fa_acl_type a, tt_action := fa_action a, tt_op := fa_op a,
     tt_acl_source := fa_acl_source a, tt_proto := fa_proto a, tt_one_tuple := fa_one_tuple a, tt_index := ucast i,
     tt_hash := ent_hash sys e, tt_enable := 1\<rparr>"
  define st1 where "st1 = fstat_inc stat_acl_add_rule_num
     (st\<lparr>ft_filterArr := (ft_filterArr st)[slot e := f], ft_numFilters := ft_numFilters st + 1\<rparr>)"
  have add: "acl_add_one_filter i a (ent_hash sys e) st = Some (FRE_SUCCESS, st1)"
    using sl by (simp add: acl_add_one_filter_def ie(1) filter_at_ent filter_put_ent f_def st1_def)
  have st1: "ft_filterArr st1 = (ft_filterArr st)[slot e := f]" "ft_hash_table st1 = ft_hash_table st"
    "ft_alloc_req st1 = fl_req s" "ft_numFilters st1 = of_nat (Suc (length (fl_linked s) + length (fl_stuck s)))"
    using rel by (simp_all add: st1_def filter_rel_def)
  have stores: "stores sys e f" by (simp add: f_def stores_def e_def ent_of_def)
  then have at: "filter_at i st1 = Some f" using sl st1(1) by (simp add: ie(1) filter_at_ent)
  let ?t = "ft_hash_table st ! ent_bucket sys e"
  let ?t' = "?t\<lparr>bk_head := bk_head ?t @ [ucast i], bk_bucket_depth := bk_bucket_depth ?t + 1, bk_total_cell := bk_total_cell ?t + 1\<rparr>"
  have run: "acl_add_one_filter_to_hash_table sys i st1 = Some (if fy_alloc sys (fl_req s)
      then (FRE_SUCCESS, fstat_inc stat_acl_add_hash_cell (st1\<lparr>ft_alloc_req := fl_req s + 1, ft_hash_table := (ft_hash_table st)[ent_bucket sys e := ?t']\<rparr>))
      else (FRE_FAIL, fstat_inc stat_acl_hash_cell_alloc_fail (st1\<lparr>ft_alloc_req := fl_req s + 1\<rparr>)))"
    using at stores sl(3) get_hash_table_ent [OF ie(3), of sys st1] st1(2,3)
    by (simp add: acl_add_one_filter_to_hash_table_def acl_get_hash_def acl_get_type_def stores_def fpa_alloc_cell_def put_bucket_def)
  have ins: "array_rel sys ((ft_filterArr st)[slot e := f]) es'"
    if "set es' = insert e (set (fl_linked s @ fl_stuck s))" "distinct (map fe_index es')" for es'
    using array_rel_insert [OF _ _ ie(3) stores that] rel i(2) by (auto simp: filter_rel_def ie(1))
  have dist: "distinct (map fe_index (fl_linked s @ fl_stuck s))" using rel by (simp add: filter_rel_def array_rel_def)
  have "array_rel sys ((ft_filterArr st)[slot e := f]) ((fl_linked s @ [e]) @ fl_stuck s)"
    "array_rel sys ((ft_filterArr st)[slot e := f]) (fl_linked s @ e # fl_stuck s)"
    using dist i(2) by (intro ins; auto simp: ie(1))+
  moreover have "table_rel sys ((ft_hash_table st)[ent_bucket sys e := ?t']) (fl_linked s @ [e])"
    using rel sl(3) len bucket_rel_append [of ?t _ e] by (intro table_rel_append) (auto simp: filter_rel_def table_rel_def ie(1))
  ultimately show ?thesis
    unfolding ie(2) [symmetric] add using run rel st1
    by (auto simp: FRE_SUCCESS_def filter_rel_def simp flip: e_def)
qed

lemma rel_status:
  assumes "filter_rel sys st s" "\<not> index_exceeds i"
  obtains v where "acl_get_status i st = Some v" "v \<noteq> 0 \<longleftrightarrow> i \<in> indices (fl_linked s) \<or> i \<in> indices (fl_stuck s)"
proof
  have arr: "array_rel sys (ft_filterArr st) (fl_linked s @ fl_stuck s)" using assms(1) by (simp add: filter_rel_def)
  then have "length (ft_filterArr st) = 2048" by (simp add: array_rel_def)
  then show "acl_get_status i st = Some (tt_enable (ft_filterArr st ! (unat i - 1)))"
    using index_ok_facts(1,2) [OF assms(2)] by (simp add: acl_get_status_def filter_at_def)
  show "tt_enable (ft_filterArr st ! (unat i - 1)) \<noteq> 0 \<longleftrightarrow> i \<in> indices (fl_linked s) \<or> i \<in> indices (fl_stuck s)"
    unfolding array_rel_status [OF arr assms(2)] by auto
qed

lemma set_step:
  assumes rel: "filter_rel sys st s"
  shows "\<exists>st'. acl_set_filter sys i a st = Some (fst (spec_set sys i a s), st') \<and> filter_rel sys st' (snd (spec_set sys i a s))"
proof (cases "index_exceeds i \<or> type_exceeds (fa_acl_type a)")
  case True
  then show ?thesis using rel by (auto simp: acl_set_filter_def spec_set_def type_exceeds_def)
next
  case False
  then have i: "\<not> index_exceeds i" and t: "\<not> type_exceeds (fa_acl_type a)" by simp_all
  obtain v where at: "acl_get_status i st = Some v" and on: "v \<noteq> 0 \<longleftrightarrow> i \<in> indices (fl_linked s) \<or> i \<in> indices (fl_stuck s)"
    by (rule rel_status [OF rel i])
  have bucket: "acl_get_hash_table (fa_acl_type a) (acl_hash_crc sys (fa_one_tuple a) (fa_proto a)) st1 =
      (Some (ent_bucket sys (ent_of i a)), st1)" for st1
    using get_hash_table_ent [of "ent_of i a" sys st1] i t by (auto simp: ent_ok_def ent_of_def ent_hash_def)
  define rest where "rest st1 = do { (rv, st) \<leftarrow> acl_add_one_filter i a (acl_hash_crc sys (fa_one_tuple a) (fa_proto a)) st1;
      if rv \<noteq> 0 then Some (rv, st) else acl_add_one_filter_to_hash_table sys i st }" for st1
  have run: "acl_set_filter sys i a st = (if v \<noteq> 0
      then drop_filter i st \<bind> (\<lambda>(rv, st1). if rv \<noteq> 0 then Some (rv, st1) else rest st1) else rest st)"
    using i t at unfolding acl_set_filter_def rest_def type_exceeds_def Let_def bucket prod.case option.case
    by (simp add: FRE_SUCCESS_def)
  have added: "\<exists>st'. rest st1 = Some (fst (spec_set sys i a s), st') \<and> filter_rel sys st' (snd (spec_set sys i a s))"
    if "filter_rel sys st1 (s\<lparr>fl_linked := without i (fl_linked s)\<rparr>)" "i \<notin> indices (fl_stuck s)" for st1
  proof -
    have "i \<notin> indices (without i (fl_linked s) @ fl_stuck s)" using that(2) by auto
    then show ?thesis using add_filter [OF that(1) i _ t] that(2) i t unfolding rest_def by (auto simp: spec_set_def)
  qed
  show ?thesis
  proof (cases "i \<in> indices (fl_stuck s)")
    case True
    then obtain st' where "drop_filter i st = Some (FRE_FAIL, st')" "filter_rel sys st' s"
      using drop_stuck [OF rel] by auto
    then show ?thesis using True i t on by (simp add: run spec_set_def FRE_FAIL_def)
  next
    case False
    show ?thesis
    proof (cases "i \<in> indices (fl_linked s)")
      case True
      then obtain st1 where "drop_filter i st = Some (FRE_SUCCESS, st1)" "filter_rel sys st1 (s\<lparr>fl_linked := without i (fl_linked s)\<rparr>)"
        using drop_linked [OF rel] by auto
      then show ?thesis using added [of st1] False True on by (simp add: run FRE_SUCCESS_def)
    next
      case no: False
      then have "without i (fl_linked s) = fl_linked s" by (auto simp: filter_id_conv)
      then show ?thesis using added [of st] False no on rel by (simp add: run)
    qed
  qed
qed

lemma del_step:
  assumes rel: "filter_rel sys st s"
  shows "\<exists>st'. acl_del_filter i st = Some (fst (spec_del i s), st') \<and> filter_rel sys st' (snd (spec_del i s))"
proof (cases "index_exceeds i")
  case True
  then show ?thesis using rel by (simp add: acl_del_filter_def spec_del_def)
next
  case False
  obtain v where at: "acl_get_status i st = Some v" and on: "v \<noteq> 0 \<longleftrightarrow> i \<in> indices (fl_linked s) \<or> i \<in> indices (fl_stuck s)"
    by (rule rel_status [OF rel False])
  have run: "acl_del_filter i st = (if v \<noteq> 0 then drop_filter i st else Some (FRE_INIT, st))"
    using False at by (simp add: acl_del_filter_def)
  consider "i \<in> indices (fl_stuck s)" | "i \<notin> indices (fl_stuck s)" "i \<in> indices (fl_linked s)"
    | "i \<notin> indices (fl_stuck s)" "i \<notin> indices (fl_linked s)"
    by blast
  then show ?thesis
  proof cases
    case 1
    then show ?thesis using drop_stuck [OF rel] on False by (auto simp: run spec_del_def)
  next
    case 2
    then show ?thesis using drop_linked [OF rel] on False by (auto simp: run spec_del_def)
  next
    case 3
    then show ?thesis using on False rel by (simp add: run spec_del_def)
  qed
qed

section \<open>The lookup is the abstract search\<close>

lemma bucket_search_find:
  assumes "\<forall>e \<in> set es. fe_index e \<noteq> 0 \<and> slot e < length (ft_filterArr st) \<and> stores sys e (ft_filterArr st ! slot e)"
  shows "bucket_search st x p (map (\<lambda>e. ucast (fe_index e)) es) =
    Some (map_option (\<lambda>e. ucast (fe_index e)) (List.find (\<lambda>e. fe_one_tuple e = x \<and> fe_proto e = ucast p) es))"
  using assms
proof (induction es)
  case (Cons e es)
  have "(ucast (fe_index e) :: u64) \<noteq> 0" using Cons.prems cell_inj [of "fe_index e" 0] by auto
  then show ?case using Cons by (simp add: stores_def slot_def)
qed simp

lemma find_filter_hd: "List.find p xs = (case filter p xs of [] \<Rightarrow> None | x # _ \<Rightarrow> Some x)"
  by (induction xs) auto

lemma unat_round: "k < 4 \<Longrightarrow> unat (of_nat (k + 1) :: u16) = k + 1"
  unfolding unat_of_nat by simp

lemma hits_bucket:
  assumes "ent_ok e" "k < 4" and b: "b = 2048 * k + unat (acl_hash_crc sys (tuple_field t k) (ucast (t_proto t)))"
  shows "hits t k e \<longleftrightarrow> ent_bucket sys e = b \<and> fe_one_tuple e = tuple_field t k \<and> fe_proto e = ucast (t_proto t)"
proof -
  have type: "fe_type e = of_nat (k + 1) \<longleftrightarrow> unat (fe_type e) - 1 = k"
    unfolding word_unat_eq_iff unat_round [OF assms(2)] using assms(1) type_ok_facts(1) [of "fe_type e"] by (auto simp: ent_ok_def)
  show ?thesis unfolding hits_def type ent_bucket_def ent_hash_def b by auto
qed

lemma lookup_round_find:
  assumes rel: "filter_rel sys st s" and k: "k < 4"
  shows "lookup_round sys t k st = Some (map_option fe_index (List.find (hits t k) (fl_linked s)), st)"
proof -
  let ?h = "acl_hash_crc sys (tuple_field t k) (ucast (t_proto t))"
  define b where "b = 2048 * k + unat ?h"
  let ?es = "filter (\<lambda>e. ent_bucket sys e = b) (fl_linked s)"
  have kt: "unat (of_nat (k + 1) :: u16) = k + 1" using k by (rule unat_round)
  have "\<not> type_exceeds (of_nat (k + 1))"
    using k kt by (simp add: type_exceeds_def c_consts word_less_nat_alt del: of_nat_Suc of_nat_add)
  note t_ok = type_ok_facts(3) [OF this]
  have tab: "acl_get_hash_table (of_nat (k + 1)) ?h st = (Some b, st)"
    unfolding acl_get_hash_table_def if_not_P [OF t_ok] kt b_def
    using hash_below [of sys "tuple_field t k" "ucast (t_proto t)"] by (simp add: FRCORE_MAX_FILTERS_def)
  have "b < 8192" using k hash_below [of sys "tuple_field t k" "ucast (t_proto t)"] by (simp add: b_def)
  then have bk: "b < length (ft_hash_table st)" "bucket_rel (ft_hash_table st ! b) ?es"
    using rel by (auto simp: filter_rel_def table_rel_def)
  then have empty: "bk_head (ft_hash_table st ! b) = [] \<and> bk_bucket_depth (ft_hash_table st ! b) = 0 \<longleftrightarrow> ?es = []"
    by (auto simp: bucket_rel_def)
  have ok: "ent_ok e" if "e \<in> set (fl_linked s)" for e using rel_stored(1) [OF rel] that by simp
  have same: "List.find (\<lambda>e. fe_one_tuple e = tuple_field t k \<and> fe_proto e = ucast (t_proto t)) ?es = List.find (hits t k) (fl_linked s)"
    unfolding find_filter_hd filter_filter using hits_bucket [OF ok k b_def] by (auto intro!: arg_cong [where f = "case_list _ _"] filter_cong)
  have "bucket_search st (tuple_field t k) (t_proto t) (map (\<lambda>e. ucast (fe_index e)) ?es) =
      Some (map_option (\<lambda>e. ucast (fe_index e)) (List.find (hits t k) (fl_linked s)))"
    unfolding same [symmetric] by (rule bucket_search_find) (use rel_stored [OF rel] in auto)
  moreover have "List.find (hits t k) (fl_linked s) = None" if "?es = []" unfolding same [symmetric] that by simp
  ultimately show ?thesis
    unfolding lookup_round_def Let_def tab using bk empty
    by (auto simp: bucket_rel_def option.map_comp comp_def cell_back split: if_splits)
qed

lemma lookup_rounds_find:
  assumes "filter_rel sys st s" "\<forall>k \<in> set ks. k < 4"
  shows "lookup_rounds sys t ks st =
    Some (case concat (map (\<lambda>k. filter (hits t k) (fl_linked s)) ks) of [] \<Rightarrow> 0 | e # _ \<Rightarrow> fe_index e, st)"
  using assms(2)
proof (induction ks)
  case (Cons k ks)
  then show ?case using lookup_round_find [OF assms(1), of k t] by (auto simp: find_filter_hd split: list.splits)
qed simp

lemma lookup_step:
  assumes "filter_rel sys st s"
  shows "filter_lookup_by_tuple sys t st = Some (spec_lookup t s, st)"
  unfolding filter_lookup_by_tuple_def spec_lookup_def by (rule lookup_rounds_find [OF assms]) simp

section \<open>Sequences of operations\<close>

datatype filter_op = Set_filter u16 filter_args | Del_filter u16 | Lookup_filter mpp_tuple

fun filter_step :: "filter_sys \<Rightarrow> filter_op \<Rightarrow> filter_state \<Rightarrow> (int \<times> filter_state) option" where
  "filter_step sys (Set_filter i a) st = acl_set_filter sys i a st"
| "filter_step sys (Del_filter i) st = acl_del_filter i st"
| "filter_step sys (Lookup_filter t) st = map_option (apfst uint) (filter_lookup_by_tuple sys t st)"

fun filter_spec :: "filter_sys \<Rightarrow> filter_op \<Rightarrow> filters \<Rightarrow> int \<times> filters" where
  "filter_spec sys (Set_filter i a) s = spec_set sys i a s"
| "filter_spec sys (Del_filter i) s = spec_del i s"
| "filter_spec sys (Lookup_filter t) s = (uint (spec_lookup t s), s)"

lemma filter_step_sim:
  assumes "filter_rel sys st s"
  shows "\<exists>st'. filter_step sys x st = Some (fst (filter_spec sys x s), st') \<and> filter_rel sys st' (snd (filter_spec sys x s))"
  using set_step [OF assms] del_step [OF assms] lookup_step [OF assms] assms by (cases x) simp_all

interpretation flt: machine_refinement "filter_step sys" "filter_spec sys" "filter_rel sys"
  by unfold_locales (rule filter_step_sim)

definition no_filters :: "nat \<Rightarrow> filters" where
  "no_filters k = \<lparr>fl_linked = [], fl_stuck = [], fl_req = k\<rparr>"

abbreviation filter_start :: "filter_state \<Rightarrow> filter_state" where
  "filter_start st \<equiv> snd (frcore_filter_init st)"

lemma start_rel: "filter_rel sys (filter_start st) (no_filters (ft_alloc_req st))"
  by (simp add: filter_rel_def array_rel_def table_rel_def bucket_rel_def frcore_filter_init_def no_filters_def
      empty_filter_def empty_bucket_def c_consts)

text \<open>A filter that lost its cell stays so.\<close>

lemma stuck_kept: "set (fl_stuck s) \<subseteq> set (fl_stuck (snd (filter_spec sys x s)))"
  by (cases x) (auto simp: spec_set_def spec_del_def)

lemma stuck_answer:
  assumes "i \<in> indices (fl_stuck s)" "\<not> index_exceeds i"
  shows "\<not> type_exceeds (fa_acl_type a) \<Longrightarrow> fst (filter_spec sys (Set_filter i a) s) = FRE_FAIL"
    "fst (filter_spec sys (Del_filter i) s) = FRE_FAIL"
  using assms by (auto simp: spec_set_def spec_del_def)

lemma spec_lookup_cases:
  obtains "spec_lookup t s = 0" "\<forall>k < 4. \<forall>e \<in> set (fl_linked s). \<not> hits t k e"
  | e k where "spec_lookup t s = fe_index e" "e \<in> set (fl_linked s)" "k < 4" "hits t k e"
      "\<forall>j < k. \<forall>x \<in> set (fl_linked s). \<not> hits t j x"
proof (cases "concat (map (\<lambda>k. filter (hits t k) (fl_linked s)) [0..<4])")
  case Nil
  have "spec_lookup t s = 0" unfolding spec_lookup_def Nil by simp
  moreover have "\<forall>k < 4. \<forall>e \<in> set (fl_linked s). \<not> hits t k e" using Nil by (auto simp: filter_empty_conv)
  ultimately show ?thesis by (rule that(1))
next
  case (Cons e es)
  define p where "p k \<longleftrightarrow> (\<exists>x \<in> set (fl_linked s). hits t k x)" for k
  have "e \<in> set (concat (map (\<lambda>k. filter (hits t k) (fl_linked s)) [0..<4]))" by (simp only: Cons list.set_intros)
  then have "\<exists>k. k < 4 \<and> p k" by (auto simp: p_def)
  then obtain k where k: "k < 4" "p k" "\<forall>j < k. \<not> p j" using exists_least_iff [of "\<lambda>k. k < 4 \<and> p k"] by auto
  have "[0..<4] = [0..<k] @ k # [Suc k..<4]" using upt_add_eq_append [of 0 k "4 - k"] upt_conv_Cons [OF k(1)] k(1) by simp
  then have "filter (hits t k) (fl_linked s) @ concat (map (\<lambda>k. filter (hits t k) (fl_linked s)) [Suc k..<4]) = e # es"
  proof -
    have none: "concat (map (\<lambda>k. filter (hits t k) (fl_linked s)) [0..<k]) = []" using k(3) by (auto simp: p_def filter_empty_conv)
    show ?thesis using Cons unfolding \<open>[0..<4] = _\<close> map_append concat_append none by simp
  qed
  then have "e \<in> set (filter (hits t k) (fl_linked s))"
    using k(2) by (cases "filter (hits t k) (fl_linked s)") (auto simp: p_def filter_empty_conv)
  moreover have "spec_lookup t s = fe_index e" unfolding spec_lookup_def Cons by simp
  ultimately show ?thesis using that(2) [of e k] k by (auto simp: p_def)
qed

lemma lookup_not_stuck:
  assumes "filter_rel sys st s" "i \<in> indices (fl_stuck s)"
  shows "spec_lookup t s \<noteq> i"
proof (rule spec_lookup_cases [of t s])
  assume "spec_lookup t s = 0"
  then show ?thesis using rel_stored(2) [OF assms(1)] assms(2) by auto
next
  fix e k assume "spec_lookup t s = fe_index e" "e \<in> set (fl_linked s)"
  then show ?thesis using rel_distinct(3) [OF assms(1)] assms(2) by metis
qed

text \<open>The operations on index \<open>i\<close> that go as far as the table.\<close>

fun aims_at :: "u16 \<Rightarrow> filter_op \<Rightarrow> bool" where
  "aims_at i (Set_filter j a) \<longleftrightarrow> j = i \<and> \<not> type_exceeds (fa_acl_type a)"
| "aims_at i (Del_filter j) \<longleftrightarrow> j = i"
| "aims_at i (Lookup_filter t) \<longleftrightarrow> False"

fun looks_up :: "filter_op \<Rightarrow> bool" where
  "looks_up (Lookup_filter t) \<longleftrightarrow> True"
| "looks_up x \<longleftrightarrow> False"

lemma stuck_run:
  assumes "filter_rel sys st s" "i \<in> indices (fl_stuck s)"
  shows "\<exists>st'. run_ops (filter_step sys) xs st = Some (fst (run_spec (filter_spec sys) xs s), st') \<and>
    (\<forall>(x, r) \<in> set (zip xs (fst (run_spec (filter_spec sys) xs s))). (aims_at i x \<longrightarrow> r = FRE_FAIL) \<and> (looks_up x \<longrightarrow> r \<noteq> uint i))"
  using assms
proof (induction xs arbitrary: st s)
  case (Cons x xs)
  obtain st1 where st1: "filter_step sys x st = Some (fst (filter_spec sys x s), st1)" "filter_rel sys st1 (snd (filter_spec sys x s))"
    using filter_step_sim [OF Cons.prems(1)] by blast
  have ok: "\<not> index_exceeds i" using Cons.prems rel_stored(1) [OF Cons.prems(1)] by (auto simp: ent_ok_def)
  have ans: "(aims_at i x \<longrightarrow> fst (filter_spec sys x s) = FRE_FAIL) \<and> (looks_up x \<longrightarrow> fst (filter_spec sys x s) \<noteq> uint i)"
    using stuck_answer [OF Cons.prems(2) ok, where sys = sys] lookup_not_stuck [OF Cons.prems] by (cases x) (auto simp flip: word_uint_eq_iff)
  have "i \<in> indices (fl_stuck (snd (filter_spec sys x s)))" using stuck_kept [of s sys x] Cons.prems(2) by blast
  from Cons.IH [OF st1(2) this] show ?case using st1(1) ans by auto
qed simp

section \<open>Properties\<close>

text \<open>
  C11. From the initialised table, every sequence of settings, deletions and lookups runs without a fault and
  gives exactly the answers of the abstract filters: a set filter replaces the one of its index, a lookup
  returns the oldest filter on the source address, then on the destination address, then on the ports,
  that names the packet's field and protocol, or 0. The array, the buckets, their depths and the number of filters
  agree with the abstract filters at the end.
\<close>

theorem filter_ops_refine:
  "\<exists>st'. run_ops (filter_step sys) xs (filter_start st) =
      Some (fst (run_spec (filter_spec sys) xs (no_filters (ft_alloc_req st))), st') \<and>
    filter_rel sys st' (snd (run_spec (filter_spec sys) xs (no_filters (ft_alloc_req st))))"
  by (rule flt.run_sim [OF start_rel])

text \<open>
  C36. When the pool refuses a cell for a filter, the setting fails after the array entry was enabled. From
  then on the index is lost: whatever operations follow, every setting and every deletion of it fails,
  and no lookup returns it.
\<close>

theorem filter_refused_cell_sticks:
  assumes "run_ops (filter_step sys) ys (filter_start st0) = Some (rs, st)"
    and "\<not> index_exceeds i" "\<not> type_exceeds (fa_acl_type a)" "\<not> fy_alloc sys (ft_alloc_req st)"
  shows "\<exists>st1. acl_set_filter sys i a st = Some (FRE_FAIL, st1) \<and>
    (\<forall>xs. \<exists>rs st2. run_ops (filter_step sys) xs st1 = Some (rs, st2) \<and>
      (\<forall>(x, r) \<in> set (zip xs rs). (aims_at i x \<longrightarrow> r = FRE_FAIL) \<and> (looks_up x \<longrightarrow> r \<noteq> uint i)))"
proof -
  obtain s where rel: "filter_rel sys st s" using flt.run_related [OF start_rel assms(1)] by blast
  then have "fl_req s = ft_alloc_req st" by (simp add: filter_rel_def)
  then have spec: "fst (spec_set sys i a s) = FRE_FAIL" "i \<in> indices (fl_stuck (snd (spec_set sys i a s)))"
    using assms(2-4) by (auto simp: spec_set_def ent_of_def)
  obtain st1 where "acl_set_filter sys i a st = Some (FRE_FAIL, st1)" "filter_rel sys st1 (snd (spec_set sys i a s))"
    using set_step [OF rel, of i a] spec(1) by auto
  then show ?thesis using stuck_run [OF _ spec(2)] by blast
qed

text \<open>For the examples: a pool that grants one cell, and a CRC unit that returns the word.\<close>

definition one_cell :: filter_sys where
  "one_cell = \<lparr>fy_crc = \<lambda>x p. x, fy_alloc = \<lambda>k. k = 0\<rparr>"

definition fresh_filters :: "env \<Rightarrow> filter_state" where
  "fresh_filters env = \<lparr>acl_enable = 1, ft_numFilters = 0, ft_filterArr = [], ft_hash_table = [], ft_stat = \<lambda>_. 0,
     ft_alloc_req = 0, ft_chan = chan_start env []\<rparr>"

definition port_filter :: "u16 \<Rightarrow> filter_args" where
  "port_filter p = \<lparr>fa_one_tuple = ucast p, fa_proto = 17, fa_op = 0, fa_action = 0, fa_acl_type = 4, fa_acl_source = 0\<rparr>"

theorem filter_refused_cell_sticks_witness:
  "\<exists>st st1 rs st2. acl_set_filter one_cell 7 (port_filter 80) (filter_start (fresh_filters quiet_env)) = Some (FRE_SUCCESS, st) \<and>
     acl_set_filter one_cell 8 (port_filter 81) st = Some (FRE_FAIL, st1) \<and>
     run_ops (filter_step one_cell) [Del_filter 8] st1 = Some (rs, st2) \<and> rs = [FRE_FAIL]"
proof -
  let ?s0 = "no_filters 0"
  have ok: "\<not> index_exceeds 7" "\<not> index_exceeds 8" "\<not> type_exceeds (fa_acl_type (port_filter p))" for p
    by (simp_all add: index_exceeds_def type_exceeds_def port_filter_def c_consts)
  have r: "ft_alloc_req (fresh_filters quiet_env) = 0" by (simp add: fresh_filters_def)
  have "spec_set one_cell 7 (port_filter 80) ?s0 = (FRE_SUCCESS, \<lparr>fl_linked = [ent_of 7 (port_filter 80)], fl_stuck = [], fl_req = 1\<rparr>)"
    using ok by (simp add: spec_set_def no_filters_def one_cell_def)
  then obtain st where st: "acl_set_filter one_cell 7 (port_filter 80) (filter_start (fresh_filters quiet_env)) = Some (FRE_SUCCESS, st)"
      "filter_rel one_cell st \<lparr>fl_linked = [ent_of 7 (port_filter 80)], fl_stuck = [], fl_req = 1\<rparr>"
    using set_step [OF start_rel [of one_cell "fresh_filters quiet_env", unfolded r], of 7 "port_filter 80"] by auto
  have run: "run_ops (filter_step one_cell) [Set_filter 7 (port_filter 80)] (filter_start (fresh_filters quiet_env)) = Some ([FRE_SUCCESS], st)"
    using st(1) by simp
  have "\<not> fy_alloc one_cell (ft_alloc_req st)" using st(2) by (simp add: filter_rel_def one_cell_def)
  from filter_refused_cell_sticks [OF run ok(2,3) this] obtain st1 where st1: "acl_set_filter one_cell 8 (port_filter 81) st = Some (FRE_FAIL, st1)"
      and all: "\<forall>xs. \<exists>rs st2. run_ops (filter_step one_cell) xs st1 = Some (rs, st2) \<and>
        (\<forall>(x, r) \<in> set (zip xs rs). (aims_at 8 x \<longrightarrow> r = FRE_FAIL) \<and> (looks_up x \<longrightarrow> r \<noteq> uint (8 :: u16)))"
    by blast
  from all obtain rs st2 where "run_ops (filter_step one_cell) [Del_filter 8] st1 = Some (rs, st2)"
      "\<forall>(x, r) \<in> set (zip [Del_filter 8] rs). aims_at 8 x \<longrightarrow> r = FRE_FAIL"
    by blast
  then have "run_ops (filter_step one_cell) [Del_filter 8] st1 = Some (rs, st2)" "rs = [FRE_FAIL]"
    by (auto split: bind_splits)
  then show ?thesis using st(1) st1 by blast
qed

end
