(* ===== verification/TwoTuple.thy ===== *)
theory TwoTuple
  imports TupleFilter
begin

text \<open>
  The commands and the packet path of the two-tuple filter, \<^verbatim>\<open>frcore/frcore_twotuple.c\<close>, without its test
  configuration. A handler returns its return code, what it wrote to \<^verbatim>\<open>outbuf\<close>, and the new state.
\<close>

section \<open>Command handlers\<close>

record frc_acl =
  ac_op :: u16
  ac_action :: u16
  ac_acl_type :: u16
  ac_acl_source :: u16
  ac_index :: u16
  ac_proto :: u16
  ac_one_tuple :: u32
  ac_hash :: u32

record frc_acl_stat =
  as_acl :: frc_acl
  as_pkts :: u32
  as_bytes :: u32

record frc_acl_stat_out =
  ao_num :: u32
  ao_acl_stat :: "frc_acl_stat list"

record frc_acl_hash_table_op_in =
  hi_acl_type :: u32
  hi_index :: u32
  hi_num :: u32

record frc_acl_hash_table =
  ht_hash :: u32
  ht_bucket_depth :: u32
  ht_total_cell :: u32
  ht_del_cell :: u32

record frc_acl_hash_table_stat_out =
  ho_num :: u64
  ho_acl_hash_stat :: "frc_acl_hash_table list"

definition frcore_cmd_acl_enable :: "u8 \<Rightarrow> filter_state \<Rightarrow> int \<times> filter_state" where
  "frcore_cmd_acl_enable enable st = (FRE_SUCCESS, st\<lparr>acl_enable := enable\<rparr>)"

definition frcore_cmd_acl_status_get :: "filter_state \<Rightarrow> int \<times> u8 \<times> filter_state" where
  "frcore_cmd_acl_status_get st = (FRE_SUCCESS, acl_enable st, st)"

definition acl_args :: "frc_acl \<Rightarrow> filter_args" where
  "acl_args acl = \<lparr>fa_one_tuple = ac_one_tuple acl, fa_proto = ac_proto acl, fa_op = ac_op acl, fa_action = ac_action acl,
     fa_acl_type = ac_acl_type acl, fa_acl_source = ac_acl_source acl\<rparr>"

text \<open>The result of \<^verbatim>\<open>acl_set_filter\<close> is ignored.\<close>

definition frcore_cmd_acl_add :: "filter_sys \<Rightarrow> frc_acl \<Rightarrow> filter_state \<Rightarrow> (int \<times> filter_state) option" where
  "frcore_cmd_acl_add sys acl st = do {
     (_, st) \<leftarrow> acl_set_filter sys (ac_index acl) (acl_args acl) st;
     Some (FRE_SUCCESS, st)
   }"

text \<open>\<^verbatim>\<open>frc_acl_op_in_t\<close> has the fields of \<^verbatim>\<open>frc_rule_op_in_t\<close>, and the loops go over the same tags. As in theory
  \<open>Rule\<close>, the length \<^verbatim>\<open>*olen\<close> of the output stays what the dispatcher set.\<close>

definition frcore_cmd_acl_del :: "frc_rule_op_in \<Rightarrow> u16 \<Rightarrow> filter_state \<Rightarrow> (int \<times> u16 \<times> u16 \<times> filter_state) option" where
  "frcore_cmd_acl_del del olen st = map_option (\<lambda>(rv, num, st). (rv, olen, num, st))
     (for_each (tag_range del) (\<lambda>tagid (rv, num, st). do {
         (rv, st) \<leftarrow> acl_del_filter tagid st;
         Some (rv, if rv = 0 then num + 1 else num, st)
       }) (0, 0, st))"

definition frcore_cmd_acl_clear_all :: "frc_rule_op_in \<Rightarrow> u16 \<Rightarrow> filter_state \<Rightarrow> (int \<times> u16 \<times> u16 option \<times> filter_state) option" where
  "frcore_cmd_acl_clear_all del olen st = do {
     let num_old = acl_get_filter_count st;
     st \<leftarrow> for_each (tag_range del) (\<lambda>tagid st. map_option snd (acl_del_filter tagid st)) st;
     let num_new = acl_get_filter_count st;
     if num_new = 0 then Some (FRE_SUCCESS, olen, Some num_old, st) else Some (FRE_FAIL, olen, None, st)
   }"

text \<open>The output arrays have \<open>MAX_RULE\<close> entries and the code does not check \<^verbatim>\<open>j\<close> against it.\<close>

definition acl_stat_entry :: "u16 \<Rightarrow> filter_out \<Rightarrow> frc_acl_stat" where
  "acl_stat_entry tagid o1 = \<lparr>as_acl = \<lparr>ac_op = fa_op (fo_args o1), ac_action = fa_action (fo_args o1),
       ac_acl_type = fa_acl_type (fo_args o1), ac_acl_source = fa_acl_source (fo_args o1), ac_index = tagid,
       ac_proto = fa_proto (fo_args o1), ac_one_tuple = fa_one_tuple (fo_args o1), ac_hash = fo_hash o1\<rparr>,
     as_pkts = fo_pkt_num o1, as_bytes = fo_bytes_num o1\<rparr>"

definition acl_stat_step :: "u16 \<Rightarrow> frc_acl_stat_out \<times> filter_state \<Rightarrow> (frc_acl_stat_out \<times> filter_state) option" where
  "acl_stat_step tagid = (\<lambda>(output, st). do {
     (rv, info, st) \<leftarrow> acl_get_one_filter tagid st;
     case info of
       None \<Rightarrow> Some (output, st)
     | Some o1 \<Rightarrow>
         if length (ao_acl_stat output) < MAX_RULE
         then Some (output\<lparr>ao_acl_stat := ao_acl_stat output @ [acl_stat_entry tagid o1], ao_num := ao_num output + 1\<rparr>, st)
         else None
   })"

definition frcore_cmd_acl_stat_get :: "frc_rule_op_in \<Rightarrow> filter_state \<Rightarrow> (int \<times> frc_acl_stat_out \<times> filter_state) option" where
  "frcore_cmd_acl_stat_get input st = do {
     (output, st) \<leftarrow> for_each (tag_range input) acl_stat_step (\<lparr>ao_num = 0, ao_acl_stat = []\<rparr>, st);
     Some (FRE_SUCCESS, output, st)
   }"

definition acl_hash_step :: "u16 \<Rightarrow> u16 \<Rightarrow> frc_acl_hash_table_stat_out \<times> filter_state \<Rightarrow>
    (frc_acl_hash_table_stat_out \<times> filter_state) option" where
  "acl_hash_step acl_type tagid = (\<lambda>(output, st). do {
     (rv, info, st) \<leftarrow> acl_get_one_hash_table acl_type tagid st;
     case info of
       None \<Rightarrow> Some (output, st)
     | Some (bucket_depth, total_cell, del_cell) \<Rightarrow>
         if length (ho_acl_hash_stat output) < MAX_RULE
         then Some (output\<lparr>ho_acl_hash_stat := ho_acl_hash_stat output @ [\<lparr>ht_hash = ucast tagid,
             ht_bucket_depth = bucket_depth, ht_total_cell = total_cell, ht_del_cell = del_cell\<rparr>], ho_num := ho_num output + 1\<rparr>, st)
         else None
   })"

definition frcore_cmd_acl_hash_table_get :: "frc_acl_hash_table_op_in \<Rightarrow> filter_state \<Rightarrow>
    (int \<times> frc_acl_hash_table_stat_out \<times> filter_state) option" where
  "frcore_cmd_acl_hash_table_get input st = do {
     (output, st) \<leftarrow> for_each (tag_range \<lparr>op_index = hi_index input, op_num = hi_num input\<rparr>) (acl_hash_step (ucast (hi_acl_type input)))
       (\<lparr>ho_num = 0, ho_acl_hash_stat = []\<rparr>, st);
     Some (FRE_SUCCESS, output, st)
   }"

definition frcore_cmd_acl_stat_clear :: "frc_rule_op_in \<Rightarrow> filter_state \<Rightarrow> (int \<times> u16 \<times> filter_state) option" where
  "frcore_cmd_acl_stat_clear input st = do {
     st \<leftarrow> for_each (tag_range input) filter_init_filter_statistics st;
     Some (FRE_SUCCESS, of_nat (length (tag_range input)), st)
   }"

definition frcore_cmd_acl_get_num :: "filter_state \<Rightarrow> int \<times> u16 \<times> filter_state" where
  "frcore_cmd_acl_get_num st = (FRE_SUCCESS, acl_get_filter_count st, st)"

section \<open>The packet path\<close>

definition submit_hit :: "env \<Rightarrow> cvmx_wqe \<Rightarrow> u8 list \<Rightarrow> nat \<Rightarrow> u16 \<Rightarrow> u64 \<Rightarrow> u64 \<Rightarrow> mpp_tuple \<Rightarrow> u16 \<Rightarrow>
    filter_state \<Rightarrow> (int \<times> filter_state) option" where
  "submit_hit env work eth udp ip_paylen smac dmac t tag st = do {
     let st = fstat_add stat_acl_matched_bytes (ucast (wqe_len work)) (fstat_inc stat_acl_matched_pkts st);
     st \<leftarrow> filter_statistic_hit tag st;
     st \<leftarrow> filter_pkt_bytes_add tag (wqe_len work) st;
     info \<leftarrow> packet_info eth udp (t_proto t) ip_paylen smac dmac;
     (rv, w) \<leftarrow> frcore_forward_rule_pkt_to_fifo env tag (hdr_bytes t (wqe_tag work AND 0xffffff) (wqe_len work)) info eth
                 (wqe_len work) (ft_chan st);
     Some (rv, st\<lparr>ft_chan := w\<rparr>)
   }"

definition frcore_acl_process :: "filter_sys \<Rightarrow> env \<Rightarrow> cvmx_wqe \<Rightarrow> u8 list \<Rightarrow> nat \<Rightarrow> nat \<Rightarrow> u16 \<Rightarrow> u64 \<Rightarrow> u64 \<Rightarrow>
    filter_state \<Rightarrow> (int \<times> filter_state) option" where
  "frcore_acl_process sys env work eth ip udp ip_paylen smac dmac st =
     (if acl_enable st = 0 then Some (0, st)
      else do {
        t \<leftarrow> read_tuple eth ip udp;
        malformed \<leftarrow> (if t_proto t = PROTO_TCP then tcp_malformed eth ip udp else Some False);
        if malformed then Some (FRCORE_ACT_DROP, fstat_inc stat_acl_malformed_packet st)
        else do {
          (tag, st) \<leftarrow> filter_lookup_by_tuple sys t st;
          if tag \<noteq> 0 then submit_hit env work eth udp ip_paylen smac dmac t tag st
          else Some (0, fstat_add stat_acl_not_matched_bytes (ucast (wqe_len work)) (fstat_inc stat_acl_not_matched_pkts st))
        }
      })"

section \<open>Clearing a range\<close>

lemma del_loop:
  assumes "filter_rel sys st s"
  shows "\<exists>st'. for_each tags (\<lambda>i st. map_option snd (acl_del_filter i st)) st = Some st' \<and>
    filter_rel sys st' (s\<lparr>fl_linked := filter (\<lambda>e. fe_index e \<notin> set tags) (fl_linked s)\<rparr>)"
  using assms
proof (induction tags arbitrary: st s)
  case (Cons i tags)
  obtain st1 where st1: "acl_del_filter i st = Some (fst (spec_del i s), st1)" "filter_rel sys st1 (snd (spec_del i s))"
    using del_step [OF Cons.prems] by blast
  have linked: "\<not> index_exceeds (fe_index e) \<and> fe_index e \<notin> indices (fl_stuck s)" if "e \<in> set (fl_linked s)" for e
    using that rel_stored(1) [OF Cons.prems, of e] rel_distinct(3) [OF Cons.prems that] by (simp add: ent_ok_def)
  have "snd (spec_del i s) = s\<lparr>fl_linked := without i (fl_linked s)\<rparr>"
  proof (cases "i \<in> indices (fl_linked s)")
    case True
    then show ?thesis using linked by (auto simp: spec_del_def)
  next
    case False
    then have "without i (fl_linked s) = fl_linked s" by (auto simp: filter_id_conv)
    then show ?thesis using False by (simp add: spec_del_def)
  qed
  then have "(snd (spec_del i s))\<lparr>fl_linked := filter (\<lambda>e. fe_index e \<notin> set tags) (fl_linked (snd (spec_del i s)))\<rparr> =
      s\<lparr>fl_linked := filter (\<lambda>e. fe_index e \<notin> set (i # tags)) (fl_linked s)\<rparr>"
    by (auto simp: conj_commute intro: filter_cong)
  then show ?case using st1 Cons.IH [OF st1(2)] by auto
qed simp

lemma rel_few:
  assumes "filter_rel sys st s"
  shows "length (fl_linked s @ fl_stuck s) \<le> 2000"
proof -
  let ?es = "fl_linked s @ fl_stuck s"
  have d: "distinct (map fe_index ?es)" using assms by (simp add: filter_rel_def array_rel_def)
  have "1 \<le> unat (fe_index e) \<and> unat (fe_index e) \<le> 2000" if "e \<in> set ?es" for e
    using rel_stored(1) [OF assms that] by (auto simp: ent_ok_def index_exceeds_def c_consts not_less)
  then have "unat ` set (map fe_index ?es) \<subseteq> {1..2000}" by auto
  then have "card (unat ` set (map fe_index ?es)) \<le> card {1..2000 :: nat}" by (rule card_mono [rotated]) simp
  moreover have "card (unat ` set (map fe_index ?es)) = card (set (map fe_index ?es))"
    by (rule card_image) (auto simp: inj_on_def word_unat_eq_iff)
  ultimately show ?thesis using distinct_card [OF d] by simp
qed

lemma rel_count:
  assumes "filter_rel sys st s"
  shows "acl_get_filter_count st = of_nat (length (fl_linked s @ fl_stuck s))"
    "acl_get_filter_count st = 0 \<longleftrightarrow> fl_linked s @ fl_stuck s = []"
proof -
  let ?n = "length (fl_linked s @ fl_stuck s)"
  have n: "?n \<le> 2000" by (rule rel_few [OF assms])
  have "ft_numFilters st = of_nat ?n" using assms by (simp add: filter_rel_def)
  moreover have "unat (of_nat ?n :: u32) = ?n" using n unfolding unat_of_nat by simp
  ultimately have "unat (ft_numFilters st) = ?n" by (simp only:)
  then have "unat (acl_get_filter_count st) = ?n mod 65536" unfolding acl_get_filter_count_def unat_ucast_mod by simp
  moreover have "unat (of_nat ?n :: u16) = ?n mod 65536" unfolding unat_of_nat by simp
  ultimately show eq: "acl_get_filter_count st = of_nat ?n" by (simp only: word_unat_eq_iff)
  have "unat (of_nat ?n :: u16) = ?n" using n unfolding unat_of_nat by simp
  then show "acl_get_filter_count st = 0 \<longleftrightarrow> fl_linked s @ fl_stuck s = []"
    unfolding eq word_unat_eq_iff by simp
qed

section \<open>Counting and forwarding a packet\<close>

text \<open>The filters that a sequence of operations leaves, as the abstract machine computes them.\<close>

abbreviation filters_after :: "filter_sys \<Rightarrow> filter_op list \<Rightarrow> filter_state \<Rightarrow> filters" where
  "filters_after sys xs st \<equiv> snd (run_spec (filter_spec sys) xs (no_filters (ft_alloc_req st)))"

lemma count_hit:
  assumes "fe_index e \<noteq> 0" "slot e < length (ft_filterArr st)"
  shows "do { st \<leftarrow> filter_statistic_hit (fe_index e) st; filter_pkt_bytes_add (fe_index e) len st } =
    Some (st\<lparr>ft_filterArr := (ft_filterArr st)[slot e := (ft_filterArr st ! slot e)
      \<lparr>tt_pkt_num := tt_pkt_num (ft_filterArr st ! slot e) + 1, tt_pkt_bytes := tt_pkt_bytes (ft_filterArr st ! slot e) + ucast len\<rparr>]\<rparr>)"
  using assms by (simp add: filter_statistic_hit_def filter_pkt_bytes_add_def filter_at_ent filter_put_ent)

lemma counted_rel:
  assumes rel: "filter_rel sys st s" and e: "e \<in> set (fl_linked s)" and f: "stores sys e f"
  shows "filter_rel sys (st\<lparr>ft_filterArr := (ft_filterArr st)[slot e := f]\<rparr>) s"
proof -
  let ?es = "fl_linked s @ fl_stuck s"
  have arr: "array_rel sys (ft_filterArr st) ?es" and e': "e \<in> set ?es" using rel e by (simp_all add: filter_rel_def)
  have "array_rel sys ((ft_filterArr st)[slot e := f]) ?es"
  proof (rule array_relI)
    show "length ((ft_filterArr st)[slot e := f]) = 2048" "distinct (map fe_index ?es)" using arr by (simp_all add: array_rel_def)
    show "ent_ok x \<and> stores sys x ((ft_filterArr st)[slot e := f] ! slot x)" if x: "x \<in> set ?es" for x
    proof (cases "slot x = slot e")
      case True
      then have "fe_index x = fe_index e" using slot_facts(2) array_rel_stored(1) [OF arr] x e' by blast
      then have "x = e" using arr x e' by (metis array_rel_def distinct_map inj_onD)
      then show ?thesis using f array_rel_stored(1,3) [OF arr e'] by simp
    qed (use array_rel_stored(1,2) [OF arr x] in simp)
    show "k \<in> slot ` set ?es" if "k < 2048" "tt_enable ((ft_filterArr st)[slot e := f] ! k) \<noteq> 0" for k
      using that arr e' by (cases "k = slot e") (auto simp: array_rel_def)
  qed
  then show ?thesis using rel by (simp add: filter_rel_def)
qed

lemma submit_hit_outcome:
  assumes rel: "filter_rel sys st s" and e: "e \<in> set (fl_linked s)" and fifo: "fifo_ok env (ft_chan st)"
    and nowrap: "unat (local_widx (w_fifo (ft_chan st))) + 1 < 2 ^ 64"
    and len: "unat (wqe_len work) \<le> length eth" "unat (wqe_len work) \<le> 1934" "udp + 20 \<le> length eth"
  shows "\<exists>inf q rv st'. submit_hit env work eth udp paylen smac dmac t (fe_index e) st = Some (rv, st') \<and>
    packet_info eth udp (t_proto t) paylen smac dmac = Some inf \<and>
    room_made env (ft_chan st) (ft_chan st') q \<and> queued env q (rule_packet work eth t (fe_index e) inf) rv (ft_chan st') \<and>
    ft_filterArr st' = (ft_filterArr st)[slot e := (ft_filterArr st ! slot e)\<lparr>tt_pkt_num := tt_pkt_num (ft_filterArr st ! slot e) + 1,
      tt_pkt_bytes := tt_pkt_bytes (ft_filterArr st ! slot e) + ucast (wqe_len work)\<rparr>] \<and> filter_rel sys st' s"
proof -
  let ?f = "(ft_filterArr st ! slot e)\<lparr>tt_pkt_num := tt_pkt_num (ft_filterArr st ! slot e) + 1,
      tt_pkt_bytes := tt_pkt_bytes (ft_filterArr st ! slot e) + ucast (wqe_len work)\<rparr>"
  let ?hdr = "hdr_bytes t (wqe_tag work AND 0xffffff) (wqe_len work)"
  have e': "e \<in> set (fl_linked s @ fl_stuck s)" using e by simp
  define st1 where "st1 = fstat_add stat_acl_matched_bytes (ucast (wqe_len work)) (fstat_inc stat_acl_matched_pkts st)"
  have st1: "ft_filterArr st1 = ft_filterArr st" "ft_chan st1 = ft_chan st" "filter_rel sys st1 s" using rel by (simp_all add: st1_def)
  obtain inf where inf: "packet_info eth udp (t_proto t) paylen smac dmac = Some inf" "length inf = 32"
    using packet_info_total [OF len(3)] by blast
  have "parts_ok ?hdr inf eth (wqe_len work)" using inf len by (simp add: parts_ok_def hdr_info_lengths)
  from forward_rule_outcome [OF fifo this len(2) nowrap, of "fe_index e"]
  obtain q rv w where fwd: "room_made env (ft_chan st) w q"
    "frcore_forward_rule_pkt_to_fifo env (fe_index e) ?hdr inf eth (wqe_len work) (ft_chan st) = Some (rv, w)"
    "queued env q (rule_packet work eth t (fe_index e) inf) rv w"
    unfolding queued_def rule_packet_def by blast
  obtain st2 where st2: "filter_statistic_hit (fe_index e) st1 = Some st2"
      "filter_pkt_bytes_add (fe_index e) (wqe_len work) st2 = Some (st1\<lparr>ft_filterArr := (ft_filterArr st)[slot e := ?f]\<rparr>)"
    using count_hit [of e st1 "wqe_len work"] rel_stored(2,3) [OF rel e'] st1(1) by (auto split: bind_splits)
  have "filter_rel sys (st1\<lparr>ft_filterArr := (ft_filterArr st)[slot e := ?f]\<rparr>) s"
    using counted_rel [OF st1(3) e, of ?f] rel_stored(4) [OF rel e'] st1(1) by (simp add: stores_def)
  then have "filter_rel sys (st1\<lparr>ft_filterArr := (ft_filterArr st)[slot e := ?f], ft_chan := w\<rparr>) s" by (simp add: filter_rel_def)
  moreover have "submit_hit env work eth udp paylen smac dmac t (fe_index e) st =
      Some (rv, st1\<lparr>ft_filterArr := (ft_filterArr st)[slot e := ?f], ft_chan := w\<rparr>)"
    using st2 inf fwd(2) st1(2) by (simp add: submit_hit_def Let_def flip: st1_def)
  ultimately show ?thesis using inf(1) fwd(1,3) by (intro exI [of _ inf] exI [of _ q] exI [of _ rv]) simp
qed

section \<open>What the filter operations leave alone\<close>

text \<open>No operation on the filters touches the switch or the channel.\<close>

definition same_side :: "filter_state \<Rightarrow> filter_state \<Rightarrow> bool" where
  "same_side st st' \<longleftrightarrow> acl_enable st' = acl_enable st \<and> ft_chan st' = ft_chan st"

lemma same_side_basic:
  "same_side st st" "same_side st (fstat_add x v st1) = same_side st st1" "same_side st (st1\<lparr>ft_numFilters := n\<rparr>) = same_side st st1"
  "filter_put i f st = Some st' \<Longrightarrow> same_side st st'" "put_bucket b t st = Some st' \<Longrightarrow> same_side st st'"
  "acl_get_hash_table ty h st = (r, st') \<Longrightarrow> same_side st st'" "fpa_alloc_cell sys st = (ok, st') \<Longrightarrow> same_side st st'"
  "same_side st st1 \<Longrightarrow> same_side st1 st2 \<Longrightarrow> same_side st st2"
  by (auto simp: same_side_def filter_put_def put_bucket_def acl_get_hash_table_def fpa_alloc_cell_def split: bind_splits if_splits)

lemma same_side_stat: "filter_init_filter_statistics i st = Some st' \<Longrightarrow> same_side st st'"
  by (auto simp: filter_init_filter_statistics_def filter_init_statistic_hit_def filter_init_pkt_bytes_def
      split: bind_splits dest!: same_side_basic(4) elim: same_side_basic(8))

lemma same_side_delete: "acl_delete_one_filter i st = Some (rv, st') \<Longrightarrow> same_side st st'"
  by (auto simp: acl_delete_one_filter_def same_side_basic(2) split: bind_splits dest!: same_side_basic(4) same_side_stat
      simp: same_side_def)

lemma same_side_add: "acl_add_one_filter i a h st = Some (rv, st') \<Longrightarrow> same_side st st'"
  by (auto simp: acl_add_one_filter_def same_side_basic(2,3) split: bind_splits dest!: same_side_basic(4))

lemma same_side_unlink: "acl_delete_one_filter_from_hash_table i b st = Some (rv, st') \<Longrightarrow> same_side st st'"
  by (auto simp: acl_delete_one_filter_from_hash_table_def same_side_basic(1,2) split: bind_splits if_splits
      dest!: same_side_basic(5) simp: same_side_def)

lemma same_side_link: "acl_add_one_filter_to_hash_table sys i st = Some (rv, st') \<Longrightarrow> same_side st st'"
  by (auto simp: acl_add_one_filter_to_hash_table_def same_side_basic(2) split: bind_splits prod.splits option.splits bool.splits
      dest!: same_side_basic(5-7) simp: same_side_def)

lemma same_side_drop: "drop_filter i st = Some (rv, st') \<Longrightarrow> same_side st st'"
  by (auto simp: drop_filter_def split: bind_splits prod.splits option.splits if_splits
      dest!: same_side_basic(6) same_side_unlink same_side_delete simp: same_side_def)

lemma same_side_set:
  assumes "acl_set_filter sys i a st = Some (rv, st')"
  shows "same_side st st'"
proof (cases "index_exceeds i \<or> fa_acl_type a < FRC_ACL_SIP \<or> fa_acl_type a > FRC_ACL_DP")
  case True
  then show ?thesis using assms by (auto simp: acl_set_filter_def same_side_basic(1) split: if_splits)
next
  case False
  define first where "first v = (if v \<noteq> 0 then drop_filter i st else Some (FRE_SUCCESS, st))" for v :: u16
  define rest where "rest rv1 st1 = (if rv1 \<noteq> 0 then Some (rv1, st1) else
      (case acl_get_hash_table (fa_acl_type a) (acl_hash_crc sys (fa_one_tuple a) (fa_proto a)) st1 of
         (None, st) \<Rightarrow> Some (FRE_FAIL, st)
       | (Some _, st) \<Rightarrow> do {
           (rv, st) \<leftarrow> acl_add_one_filter i a (acl_hash_crc sys (fa_one_tuple a) (fa_proto a)) st;
           if rv \<noteq> 0 then Some (rv, st) else acl_add_one_filter_to_hash_table sys i st }))" for rv1 st1
  have "acl_get_status i st \<bind> (\<lambda>v. first v \<bind> (\<lambda>(rv1, st1). rest rv1 st1)) = Some (rv, st')"
    using assms False unfolding acl_set_filter_def first_def rest_def Let_def by simp
  then obtain v rv1 st1 where "first v = Some (rv1, st1)" and rest: "rest rv1 st1 = Some (rv, st')"
    by (auto simp: bind_eq_Some_conv)
  then have st1: "same_side st st1" using same_side_drop by (auto simp: first_def same_side_basic(1) split: if_splits)
  have "same_side st1 st'"
    using rest by (auto simp: rest_def same_side_basic(1) split: bind_splits prod.splits option.splits if_splits
      dest!: same_side_basic(6) same_side_add same_side_link simp: same_side_def)
  with st1 show ?thesis by (rule same_side_basic(8))
qed

lemma same_side_del: "acl_del_filter i st = Some (rv, st') \<Longrightarrow> same_side st st'"
  by (auto simp: acl_del_filter_def same_side_basic(1) split: bind_splits if_splits dest: same_side_drop)

lemma same_side_lookup: "filter_rel sys st s \<Longrightarrow> filter_lookup_by_tuple sys t st = Some (tag, st') \<Longrightarrow> same_side st st'"
  by (simp add: lookup_step same_side_basic(1))

lemma same_side_run:
  assumes "filter_rel sys st s" "run_ops (filter_step sys) xs st = Some (rs, st')"
  shows "same_side st st'"
  using assms
proof (induction xs arbitrary: st s rs)
  case (Cons x xs)
  obtain st1 where st1: "filter_step sys x st = Some (fst (filter_spec sys x s), st1)" "filter_rel sys st1 (snd (filter_spec sys x s))"
    using filter_step_sim [OF Cons.prems(1)] by blast
  have "same_side st st1"
    using st1(1) lookup_step [OF Cons.prems(1)] by (cases x) (auto simp: same_side_basic(1) dest: same_side_set same_side_del)
  moreover have "\<exists>rs. run_ops (filter_step sys) xs st1 = Some (rs, st')" using Cons.prems(2) st1(1) by (auto split: bind_splits)
  ultimately show ?case using Cons.IH [OF st1(2)] same_side_basic(8) by blast
qed (simp add: same_side_basic(1))

section \<open>Properties\<close>

text \<open>
  C37. The packet path after any sequence of filter operations: a well-formed packet is forwarded under the
  filter that the abstract search finds. Exactly this filter's counters go up, by one packet and the length of the
  frame, every other filter entry stays as it was, and the fifo holds one more packet (or refuses it because it is full). The queue
  it is appended to is the old one, or the empty one when the old one was full and its blocks were returned to the host.
\<close>

theorem acl_packet_forwarded:
  assumes "run_ops (filter_step sys) xs (filter_start st0) = Some (rs, st)" "acl_enable st \<noteq> 0"
    and "read_tuple eth ip udp = Some t" "t_proto t = PROTO_TCP \<longrightarrow> tcp_malformed eth ip udp = Some False"
    and tag: "spec_lookup t (filters_after sys xs st0) = tag" "tag \<noteq> 0"
    and "fifo_ok env (ft_chan st)" "unat (local_widx (w_fifo (ft_chan st))) + 1 < 2 ^ 64"
    and "unat (wqe_len work) \<le> length eth" "unat (wqe_len work) \<le> 1934" "udp + 20 \<le> length eth"
  shows "\<exists>inf q rv st'. frcore_acl_process sys env work eth ip udp paylen smac dmac st = Some (rv, st') \<and>
    packet_info eth udp (t_proto t) paylen smac dmac = Some inf \<and>
    room_made env (ft_chan st) (ft_chan st') q \<and> queued env q (rule_packet work eth t tag inf) rv (ft_chan st') \<and>
    ft_filterArr st' = (ft_filterArr st)[unat tag - 1 := (ft_filterArr st ! (unat tag - 1))
      \<lparr>tt_pkt_num := tt_pkt_num (ft_filterArr st ! (unat tag - 1)) + 1,
       tt_pkt_bytes := tt_pkt_bytes (ft_filterArr st ! (unat tag - 1)) + ucast (wqe_len work)\<rparr>]"
proof -
  let ?s = "filters_after sys xs st0"
  have rel: "filter_rel sys st ?s" using flt.run_related [OF start_rel assms(1)] by blast
  obtain e where e: "tag = fe_index e" "e \<in> set (fl_linked ?s)"
    by (rule spec_lookup_cases [of t ?s]) (use tag in auto)
  have run: "frcore_acl_process sys env work eth ip udp paylen smac dmac st = submit_hit env work eth udp paylen smac dmac t tag st"
    using assms(2-4) tag lookup_step [OF rel, of t] by (simp add: frcore_acl_process_def)
  show ?thesis
    using submit_hit_outcome [OF rel e(2) assms(7-11), of paylen smac dmac t] unfolding run e(1) slot_def
    by (elim exE conjE) (intro exI conjI, assumption+)
qed

text \<open>
  The command that deletes all filters: for the range from 1 to 2000 it takes every linked filter out. It writes their
  number to the output buffer when no filter has lost its cell, and fails otherwise, with the lost filters still counted.
\<close>

theorem acl_clear_all_outcome:
  assumes "run_ops (filter_step sys) xs (filter_start st0) = Some (rs, st)"
  shows "\<exists>st'. frcore_cmd_acl_clear_all \<lparr>op_index = 1, op_num = 2000\<rparr> olen st =
      Some (if fl_stuck (filters_after sys xs st0) = [] then FRE_SUCCESS else FRE_FAIL, olen,
        if fl_stuck (filters_after sys xs st0) = [] then Some (of_nat (length (fl_linked (filters_after sys xs st0)))) else None, st') \<and>
    filter_rel sys st' ((filters_after sys xs st0)\<lparr>fl_linked := []\<rparr>)"
proof -
  let ?s = "filters_after sys xs st0" and ?op = "\<lparr>op_index = 1, op_num = 2000\<rparr> :: frc_rule_op_in"
  have rel: "filter_rel sys st ?s" using flt.run_related [OF start_rel assms] by blast
  have all: "fe_index e \<in> set (tag_range ?op)" if "e \<in> set (fl_linked ?s)" for e
  proof -
    let ?i = "fe_index e"
    have i: "unat ?i - 1 < 2000" "Suc (unat ?i - 1) = unat ?i"
      using rel_stored(1) [OF rel, of e] that by (auto simp: ent_ok_def index_exceeds_def c_consts)
    have "?i = of_nat (Suc (unat ?i - 1))" unfolding i(2) by simp
    then have "?i = ucast (1 :: u32) + of_nat (unat ?i - 1)" by (simp del: One_nat_def)
    then show ?thesis using i(1) unfolding tag_range_def by auto
  qed
  then have none: "filter (\<lambda>e. fe_index e \<notin> set (tag_range ?op)) (fl_linked ?s) = []" by (simp add: filter_empty_conv)
  obtain st' where st': "for_each (tag_range ?op) (\<lambda>i st. map_option snd (acl_del_filter i st)) st = Some st'"
      "filter_rel sys st' (?s\<lparr>fl_linked := []\<rparr>)"
    using del_loop [OF rel, of "tag_range ?op"] unfolding none by blast
  have "acl_get_filter_count st' = 0 \<longleftrightarrow> fl_stuck ?s = []" using rel_count(2) [OF st'(2)] by simp
  moreover have "fl_stuck ?s = [] \<Longrightarrow> acl_get_filter_count st = of_nat (length (fl_linked ?s))" using rel_count(1) [OF rel] by simp
  ultimately show ?thesis using st' by (simp add: frcore_cmd_acl_clear_all_def Let_def)
qed

text \<open>For the examples: two filters that a packet of theory \<open>Rule\<close> hits, on its destination port and on its
  source address, and one on another port.\<close>

definition all_cells :: filter_sys where
  "all_cells = \<lparr>fy_crc = \<lambda>x p. x, fy_alloc = \<lambda>k. True\<rparr>"

definition demo_ops :: "filter_op list" where
  "demo_ops = [Set_filter 5 (port_filter 80), Set_filter 6 (port_filter 81),
     Set_filter 9 \<lparr>fa_one_tuple = 0x0A000001, fa_proto = 17, fa_op = 0, fa_action = 0, fa_acl_type = 1, fa_acl_source = 0\<rparr>]"

lemma demo_filters:
  "filters_after all_cells demo_ops (fresh_filters env) = \<lparr>fl_linked = [ent_of 5 (port_filter 80), ent_of 6 (port_filter 81),
     \<lparr>fe_index = 9, fe_type = 1, fe_one_tuple = 0x0A000001, fe_proto = 17\<rparr>], fl_stuck = [], fl_req = 3\<rparr>"
  by (simp add: demo_ops_def spec_set_def no_filters_def all_cells_def index_exceeds_def type_exceeds_def port_filter_def
      ent_of_def fresh_filters_def c_consts)

lemma acl_demo_lookup: "spec_lookup udp_tuple (filters_after all_cells demo_ops (fresh_filters env)) = 9"
  by (simp add: demo_filters spec_lookup_def hits_def tuple_field_def udp_tuple_def port_filter_def ent_of_def upt_rec)

lemma demo_run:
  obtains rs st where "run_ops (filter_step all_cells) demo_ops (filter_start (fresh_filters quiet_env)) = Some (rs, st)"
    "acl_enable st = 1" "ft_chan st = chan_start quiet_env []"
proof -
  let ?st = "filter_start (fresh_filters quiet_env)"
  obtain rs st where run: "run_ops (filter_step all_cells) demo_ops ?st = Some (rs, st)"
    using flt.run_sim [OF start_rel] by blast
  then have "same_side ?st st" using same_side_run [OF start_rel] by blast
  then have "acl_enable st = 1" "ft_chan st = chan_start quiet_env []"
    by (simp_all add: same_side_def frcore_filter_init_def fresh_filters_def)
  with run show ?thesis by (rule that)
qed

theorem acl_packet_forwarded_witness:
  "\<exists>rs st inf rv st'. run_ops (filter_step all_cells) demo_ops (filter_start (fresh_filters quiet_env)) = Some (rs, st) \<and>
     frcore_acl_process all_cells quiet_env \<lparr>wqe_len = 60, wqe_tag = 7\<rparr> udp_frame 14 34 20 1 2 st = Some (rv, st') \<and>
     fifo_queue quiet_env (ft_chan st') = [rule_packet \<lparr>wqe_len = 60, wqe_tag = 7\<rparr> udp_frame udp_tuple 9 inf]"
proof -
  obtain rs st where st: "run_ops (filter_step all_cells) demo_ops (filter_start (fresh_filters quiet_env)) = Some (rs, st)"
      "acl_enable st = 1" "ft_chan st = chan_start quiet_env []"
    by (rule demo_run)
  have chan: "fifo_ok quiet_env (ft_chan st)" "fifo_queue quiet_env (ft_chan st) = []" "local_widx (w_fifo (ft_chan st)) = 0"
    using start_state_ok(5-7) by (simp_all add: st(3) start_state_def)
  show ?thesis
    using acl_packet_forwarded [OF st(1) _ udp_frame_tuple _ acl_demo_lookup, of quiet_env "\<lparr>wqe_len = 60, wqe_tag = 7\<rparr>" 20 1 2] st chan
    by (auto simp: udp_frame_length udp_tuple_def PROTO_TCP_def queued_def room_made_def)
qed

theorem acl_clear_all_outcome_witness:
  "\<exists>rs st st'. run_ops (filter_step all_cells) demo_ops (filter_start (fresh_filters quiet_env)) = Some (rs, st) \<and>
     frcore_cmd_acl_clear_all \<lparr>op_index = 1, op_num = 2000\<rparr> 0 st = Some (FRE_SUCCESS, 0, Some 3, st')"
proof -
  obtain rs st where st: "run_ops (filter_step all_cells) demo_ops (filter_start (fresh_filters quiet_env)) = Some (rs, st)"
    by (rule demo_run)
  show ?thesis using acl_clear_all_outcome [OF st] st by (auto simp: demo_filters)
qed

end
