(* ===== verification/ApiTypes.thy ===== *)
theory ApiTypes
  imports CmdPath TwoTuple Ipc
begin

text \<open>
  The structures that a command carries from the host to the core (\<^verbatim>\<open>include/frc_types.h\<close>). Their fields are declared in one
  order for a little-endian and in another for a big-endian machine, and the driver turns the bytes of each word of eight
  around (\<^verbatim>\<open>octeon_swap_8B_data\<close> in \<^verbatim>\<open>frcdrv_alloc_cmd_si\<close>); together this lets the core read the values that the
  host wrote.

  A structure is a list of words, a word a list of fields in the order of the host, a field the list of its bytes from the most
  significant on.
\<close>

section \<open>Memory\<close>

type_synonym struct_words = "u8 list list list"

definition le_mem :: "struct_words \<Rightarrow> u8 list" where
  "le_mem ws = concat (map (\<lambda>w. concat (map rev w)) ws)"

definition be_mem :: "struct_words \<Rightarrow> u8 list" where
  "be_mem ws = concat (map (\<lambda>w. concat (rev w)) ws)"

definition words_ok :: "struct_words \<Rightarrow> bool" where
  "words_ok ws \<longleftrightarrow> (\<forall>w \<in> set ws. length (concat w) = 8)"

lemma rev_word: "rev (concat (map rev w)) = concat (rev w)"
  by (induction w) simp_all

lemma length_host_word: "length (concat (map rev w)) = length (concat w)"
  by (induction w) simp_all

lemma length_le_mem: "words_ok ws \<Longrightarrow> length (le_mem ws) = 8 * length ws"
proof (induction ws)
  case (Cons w ws)
  then have "length (concat w) = 8" "length (le_mem ws) = 8 * length ws" by (auto simp: words_ok_def)
  moreover have "le_mem (w # ws) = concat (map rev w) @ le_mem ws" by (simp add: le_mem_def)
  ultimately show ?case by (simp add: length_host_word del: length_concat)
qed (simp add: le_mem_def)

lemma le_mem_word:
  assumes "words_ok ws" "k < length ws"
  shows "take 8 (drop (8 * k) (le_mem ws)) = concat (map rev (ws ! k))"
  using assms
proof (induction ws arbitrary: k)
  case (Cons w ws)
  have w: "length (concat (map rev w)) = 8" "words_ok ws" using Cons.prems(1) length_host_word [of w] by (auto simp: words_ok_def)
  have split: "le_mem (w # ws) = concat (map rev w) @ le_mem ws" by (simp add: le_mem_def)
  show ?case
  proof (cases k)
    case 0
    then show ?thesis using w(1) by (simp add: split)
  next
    case (Suc j)
    then show ?thesis using Cons.IH [OF w(2), of j] Cons.prems(2) w(1) by (simp add: split)
  qed
qed simp

text \<open>Turning the words around gives the memory of the core.\<close>

lemma swap_le_mem:
  assumes "swaps_words swap" "words_ok ws"
  shows "swap (le_mem ws) (length (le_mem ws) div 8) = be_mem ws"
proof -
  have len: "length (le_mem ws) = 8 * length ws" by (rule length_le_mem [OF assms(2)])
  have "swap (le_mem ws) (length ws) = concat (map (\<lambda>k. rev (take 8 (drop (8 * k) (le_mem ws)))) [0..<length ws]) @ drop (8 * length ws) (le_mem ws)"
    using assms(1) len unfolding swaps_words_def by simp
  also have "map (\<lambda>k. rev (take 8 (drop (8 * k) (le_mem ws)))) [0..<length ws] = map (\<lambda>k. concat (rev (ws ! k))) [0..<length ws]"
    using le_mem_word [OF assms(2)] by (simp add: rev_word)
  also have "\<dots> = map (\<lambda>w. concat (rev w)) ws" by (rule nth_equalityI) simp_all
  finally show ?thesis using len by (simp add: be_mem_def)
qed

definition UNPACK_U64 :: "u8 list \<Rightarrow> (u64 \<times> u8 list) option" where
  "UNPACK_U64 b = do {
     (hi, b) \<leftarrow> UNPACK_U32 b; (lo, b) \<leftarrow> UNPACK_U32 b;
     Some (push_bit 32 (ucast hi) OR ucast lo, b)
   }"

lemma unpack_be64 [simp]: "UNPACK_U64 (be64 v @ rest) = Some (v, rest)"
proof -
  have hi: "bit (drop_bit 32 v) n \<Longrightarrow> n < 32" for n using bit_imp_le_length [of v "n + 32"] by (auto simp: bit_drop_bit_eq add.commute)
  have "push_bit 32 (ucast (ucast (drop_bit 32 v) :: u32)) OR ucast (ucast v :: u32) = v"
    by (rule bit_word_eqI) (auto simp: bit_simps)
  then show ?thesis by (simp add: UNPACK_U64_def be64_def)
qed

lemma unpack_pack_nil [simp]:
  "UNPACK_U8 (PACK_U8 a) = Some (a, [])" "UNPACK_U16 (PACK_U16 b) = Some (b, [])" "UNPACK_U32 (PACK_U32 c) = Some (c, [])" "UNPACK_U64 (be64 d) = Some (d, [])"
  using unpack_pack_u8 [of a "[]"] unpack_pack_u16 [of b "[]"] unpack_pack_u32 [of c "[]"] unpack_be64 [of d "[]"] by simp_all

section \<open>Rules, filters and sessions\<close>

definition rule_words :: "frc_rule \<Rightarrow> struct_words" where
  "rule_words r = [[PACK_U16 (r_rule_source r), PACK_U16 (r_rule_type r), PACK_U16 (r_action r), PACK_U16 (r_op r)],
     [PACK_U32 (r_sip r), PACK_U32 (r_dip r)], [PACK_U16 (r_sp r), PACK_U16 (r_dp r), PACK_U16 (r_proto r), PACK_U16 (r_index r)]]"

definition core_rule :: "u8 list \<Rightarrow> frc_rule option" where
  "core_rule b = do {
     (op, b) \<leftarrow> UNPACK_U16 b; (action, b) \<leftarrow> UNPACK_U16 b; (type, b) \<leftarrow> UNPACK_U16 b; (source, b) \<leftarrow> UNPACK_U16 b;
     (dip, b) \<leftarrow> UNPACK_U32 b; (sip, b) \<leftarrow> UNPACK_U32 b;
     (index, b) \<leftarrow> UNPACK_U16 b; (proto, b) \<leftarrow> UNPACK_U16 b; (dp, b) \<leftarrow> UNPACK_U16 b; (sp, b) \<leftarrow> UNPACK_U16 b;
     Some \<lparr>r_sip = sip, r_dip = dip, r_sp = sp, r_dp = dp, r_proto = proto, r_index = index,
       r_rule_source = source, r_rule_type = type, r_action = action, r_op = op\<rparr>
   }"

text \<open>\<^verbatim>\<open>frc_rule_op_in_t\<close>, and \<^verbatim>\<open>frc_acl_op_in_t\<close> and \<^verbatim>\<open>frc_stat_op_in_t\<close> with the same fields.\<close>

definition op_in_words :: "frc_rule_op_in \<Rightarrow> struct_words" where
  "op_in_words x = [[PACK_U32 (op_index x), PACK_U32 (op_num x)]]"

definition core_op_in :: "u8 list \<Rightarrow> frc_rule_op_in option" where
  "core_op_in b = do {
     (num, b) \<leftarrow> UNPACK_U32 b; (index, b) \<leftarrow> UNPACK_U32 b;
     Some \<lparr>op_index = index, op_num = num\<rparr>
   }"

text \<open>The last argument is the reserved field.\<close>

definition acl_words :: "frc_acl \<Rightarrow> u32 \<Rightarrow> struct_words" where
  "acl_words a resv = [[PACK_U16 (ac_acl_source a), PACK_U16 (ac_acl_type a), PACK_U16 (ac_action a), PACK_U16 (ac_op a)],
     [PACK_U32 (ac_one_tuple a), PACK_U16 (ac_proto a), PACK_U16 (ac_index a)], [PACK_U32 (ac_hash a), PACK_U32 resv]]"

definition core_acl :: "u8 list \<Rightarrow> frc_acl option" where
  "core_acl b = do {
     (op, b) \<leftarrow> UNPACK_U16 b; (action, b) \<leftarrow> UNPACK_U16 b; (type, b) \<leftarrow> UNPACK_U16 b; (source, b) \<leftarrow> UNPACK_U16 b;
     (index, b) \<leftarrow> UNPACK_U16 b; (proto, b) \<leftarrow> UNPACK_U16 b; (one_tuple, b) \<leftarrow> UNPACK_U32 b;
     (resv, b) \<leftarrow> UNPACK_U32 b; (hash, b) \<leftarrow> UNPACK_U32 b;
     Some \<lparr>ac_op = op, ac_action = action, ac_acl_type = type, ac_acl_source = source, ac_index = index, ac_proto = proto,
       ac_one_tuple = one_tuple, ac_hash = hash\<rparr>
   }"

definition hash_op_words :: "frc_acl_hash_table_op_in \<Rightarrow> u32 \<Rightarrow> struct_words" where
  "hash_op_words x resv = [[PACK_U32 (hi_acl_type x), PACK_U32 resv], [PACK_U32 (hi_index x), PACK_U32 (hi_num x)]]"

definition core_hash_op :: "u8 list \<Rightarrow> frc_acl_hash_table_op_in option" where
  "core_hash_op b = do {
     (resv, b) \<leftarrow> UNPACK_U32 b; (type, b) \<leftarrow> UNPACK_U32 b; (num, b) \<leftarrow> UNPACK_U32 b; (index, b) \<leftarrow> UNPACK_U32 b;
     Some \<lparr>hi_acl_type = type, hi_index = index, hi_num = num\<rparr>
   }"

record frc_fr_tuple =
  frt_sip :: u32
  frt_dip :: u32
  frt_sp :: u16
  frt_dp :: u16
  frt_proto :: u16
  frt_reserve :: u16

definition fr_tuple_words :: "frc_fr_tuple \<Rightarrow> struct_words" where
  "fr_tuple_words t = [[PACK_U32 (frt_sip t), PACK_U32 (frt_dip t)],
     [PACK_U16 (frt_sp t), PACK_U16 (frt_dp t), PACK_U16 (frt_proto t), PACK_U16 (frt_reserve t)]]"

definition core_fr_tuple :: "u8 list \<Rightarrow> (frc_fr_tuple \<times> u8 list) option" where
  "core_fr_tuple b = do {
     (dip, b) \<leftarrow> UNPACK_U32 b; (sip, b) \<leftarrow> UNPACK_U32 b;
     (reserve, b) \<leftarrow> UNPACK_U16 b; (proto, b) \<leftarrow> UNPACK_U16 b; (dp, b) \<leftarrow> UNPACK_U16 b; (sp, b) \<leftarrow> UNPACK_U16 b;
     Some (\<lparr>frt_sip = sip, frt_dip = dip, frt_sp = sp, frt_dp = dp, frt_proto = proto, frt_reserve = reserve\<rparr>, b)
   }"

text \<open>\<^verbatim>\<open>frc_ssn_match_t\<close>: a tuple and a number.\<close>

definition ssn_match_words :: "frc_fr_tuple \<times> u64 \<Rightarrow> struct_words" where
  "ssn_match_words x = fr_tuple_words (fst x) @ [[be64 (snd x)]]"

definition core_ssn_match :: "u8 list \<Rightarrow> (frc_fr_tuple \<times> u64) option" where
  "core_ssn_match b = do {
     (t, b) \<leftarrow> core_fr_tuple b; (num, b) \<leftarrow> UNPACK_U64 b;
     Some (t, num)
   }"

section \<open>The tag check and the probe check\<close>

definition vlan_para_words :: "vlan_check_para \<Rightarrow> u8 \<Rightarrow> u16 \<Rightarrow> struct_words" where
  "vlan_para_words x r0 r = [[PACK_U16 (vp_start_id x), PACK_U8 (vp_type x), PACK_U8 r0, PACK_U16 (vp_num x), PACK_U16 r]]"

definition core_vlan_para :: "u8 list \<Rightarrow> vlan_check_para option" where
  "core_vlan_para b = do {
     (r, b) \<leftarrow> UNPACK_U16 b; (num, b) \<leftarrow> UNPACK_U16 b; (r0, b) \<leftarrow> UNPACK_U8 b; (type, b) \<leftarrow> UNPACK_U8 b; (start, b) \<leftarrow> UNPACK_U16 b;
     Some \<lparr>vp_type = type, vp_start_id = start, vp_num = num\<rparr>
   }"

text \<open>\<^verbatim>\<open>frc_vlan_op_in_t\<close>, and \<^verbatim>\<open>frc_timestamp_op_in_t\<close> with the same fields.\<close>

definition vlan_op_words :: "vlan_op_in \<Rightarrow> u32 \<Rightarrow> struct_words" where
  "vlan_op_words x resv = [[PACK_U32 (vo_index x), PACK_U32 (vo_num x)], [PACK_U32 (vo_port x), PACK_U32 resv]]"

definition core_vlan_op :: "u8 list \<Rightarrow> vlan_op_in option" where
  "core_vlan_op b = do {
     (num, b) \<leftarrow> UNPACK_U32 b; (index, b) \<leftarrow> UNPACK_U32 b; (resv, b) \<leftarrow> UNPACK_U32 b; (port, b) \<leftarrow> UNPACK_U32 b;
     Some \<lparr>vo_index = index, vo_num = num, vo_port = port\<rparr>
   }"

text \<open>An array of bytes is turned around like everything else; the handlers turn it back.\<close>

fun byte_words :: "u8 list \<Rightarrow> struct_words" where
  "byte_words (a # b # c # d # e # f # g # h # rest) = [[a], [b], [c], [d], [e], [f], [g], [h]] # byte_words rest"
| "byte_words _ = []"

definition hash_mask_words :: "vlan_hash_mask \<Rightarrow> struct_words" where
  "hash_mask_words x = [[PACK_U32 (hm_hash_type x), PACK_U32 (hm_ip4 x)]] @ byte_words (hm_ip6 x)"

definition core_hash_mask :: "u8 list \<Rightarrow> vlan_hash_mask option" where
  "core_hash_mask b = do {
     (ip4, b) \<leftarrow> UNPACK_U32 b; (type, b) \<leftarrow> UNPACK_U32 b;
     if 16 \<le> length b then Some \<lparr>hm_hash_type = type, hm_ip4 = ip4, hm_ip6 = take 16 b\<rparr> else None
   }"

definition ipc_exp_words :: "ipc_exp \<Rightarrow> struct_words" where
  "ipc_exp_words x = [[PACK_U16 (ouid x), PACK_U16 (ouim x), PACK_U16 (iifd x), PACK_U16 (iifm x)], [be64 (pidd x)], [be64 (pidm x)]]"

definition core_ipc_exp :: "u8 list \<Rightarrow> ipc_exp option" where
  "core_ipc_exp b = do {
     (im, b) \<leftarrow> UNPACK_U16 b; (id, b) \<leftarrow> UNPACK_U16 b; (om, b) \<leftarrow> UNPACK_U16 b; (od, b) \<leftarrow> UNPACK_U16 b;
     (pd, b) \<leftarrow> UNPACK_U64 b; (pm, b) \<leftarrow> UNPACK_U64 b;
     Some \<lparr>ouid = od, ouim = om, iifd = id, iifm = im, pidd = pd, pidm = pm\<rparr>
   }"

definition ipc_misc_words :: "ipc_misc \<Rightarrow> u8 \<Rightarrow> u16 \<Rightarrow> struct_words" where
  "ipc_misc_words x r1 r2 = [[PACK_U8 (smac_check x), PACK_U8 (pktid_check x), PACK_U8 (exp_check x), PACK_U8 (invalid_dump x),
     PACK_U8 (instr_send x), PACK_U8 r1, PACK_U16 r2]]"

definition core_ipc_misc :: "u8 list \<Rightarrow> ipc_misc option" where
  "core_ipc_misc b = do {
     (r2, b) \<leftarrow> UNPACK_U16 b; (r1, b) \<leftarrow> UNPACK_U8 b; (send, b) \<leftarrow> UNPACK_U8 b; (dump, b) \<leftarrow> UNPACK_U8 b;
     (exp, b) \<leftarrow> UNPACK_U8 b; (pktid, b) \<leftarrow> UNPACK_U8 b; (smac, b) \<leftarrow> UNPACK_U8 b;
     Some \<lparr>smac_check = smac, pktid_check = pktid, exp_check = exp, invalid_dump = dump, instr_send = send\<rparr>
   }"

definition instr_cfg_words :: "ipc_instr_cfg \<Rightarrow> struct_words" where
  "instr_cfg_words x = [[PACK_U32 (tx_port x), PACK_U32 (ic_action x)], [PACK_U32 (ic_type x), PACK_U32 (ic_ip_len x)],
     [PACK_U32 (ic_sip_data x), PACK_U32 (ic_sip_mask x)], [PACK_U32 (ic_dip_data x), PACK_U32 (ic_dip_mask x)]]"

definition core_instr_cfg :: "u8 list \<Rightarrow> ipc_instr_cfg option" where
  "core_instr_cfg b = do {
     (action, b) \<leftarrow> UNPACK_U32 b; (port, b) \<leftarrow> UNPACK_U32 b; (len, b) \<leftarrow> UNPACK_U32 b; (type, b) \<leftarrow> UNPACK_U32 b;
     (smask, b) \<leftarrow> UNPACK_U32 b; (sdata, b) \<leftarrow> UNPACK_U32 b; (dmask, b) \<leftarrow> UNPACK_U32 b; (ddata, b) \<leftarrow> UNPACK_U32 b;
     Some \<lparr>tx_port = port, ic_action = action, ic_type = type, ic_ip_len = len, ic_sip_data = sdata, ic_sip_mask = smask,
       ic_dip_data = ddata, ic_dip_mask = dmask\<rparr>
   }"

definition ipc_cur_words :: "u64 \<times> u64 \<Rightarrow> struct_words" where
  "ipc_cur_words x = [[be64 (fst x)], [be64 (snd x)]]"

definition core_ipc_cur :: "u8 list \<Rightarrow> (u64 \<times> u64) option" where
  "core_ipc_cur b = do { (smac, b) \<leftarrow> UNPACK_U64 b; (pktid, b) \<leftarrow> UNPACK_U64 b; Some (smac, pktid) }"

text \<open>\<^verbatim>\<open>ipc_payload_set_in_t\<close>: 32 bytes and an index.\<close>

definition payload_words :: "u8 list \<times> u64 \<Rightarrow> struct_words" where
  "payload_words x = byte_words (fst x) @ [[be64 (snd x)]]"

definition core_payload :: "u8 list \<Rightarrow> (u8 list \<times> u64) option" where
  "core_payload b = do { (index, rest) \<leftarrow> UNPACK_U64 (drop 32 b); Some (take 32 b, index) }"

section \<open>Registers and memory\<close>

record frc_phy_op =
  phy_port :: u16
  phy_devad :: u16
  phy_addr :: u16
  phy_value :: u16

definition phy_words :: "frc_phy_op \<Rightarrow> struct_words" where
  "phy_words x = [[PACK_U16 (phy_port x), PACK_U16 (phy_devad x), PACK_U16 (phy_addr x), PACK_U16 (phy_value x)]]"

definition core_phy :: "u8 list \<Rightarrow> frc_phy_op option" where
  "core_phy b = do {
     (v, b) \<leftarrow> UNPACK_U16 b; (a, b) \<leftarrow> UNPACK_U16 b; (d, b) \<leftarrow> UNPACK_U16 b; (p, b) \<leftarrow> UNPACK_U16 b;
     Some \<lparr>phy_port = p, phy_devad = d, phy_addr = a, phy_value = v\<rparr>
   }"

record frc_cpld_op =
  cpld_addr :: u32
  cpld_data :: u32

definition cpld_words :: "frc_cpld_op \<Rightarrow> struct_words" where
  "cpld_words x = [[PACK_U32 (cpld_addr x), PACK_U32 (cpld_data x)]]"

definition core_cpld :: "u8 list \<Rightarrow> frc_cpld_op option" where
  "core_cpld b = do { (d, b) \<leftarrow> UNPACK_U32 b; (a, b) \<leftarrow> UNPACK_U32 b; Some \<lparr>cpld_addr = a, cpld_data = d\<rparr> }"

record frc_bdd_dma_read_in =
  dr_addr :: u32
  dr_size :: u32

definition dma_read_words :: "frc_bdd_dma_read_in \<Rightarrow> struct_words" where
  "dma_read_words x = [[PACK_U32 (dr_addr x), PACK_U32 (dr_size x)]]"

definition core_dma_read :: "u8 list \<Rightarrow> frc_bdd_dma_read_in option" where
  "core_dma_read b = do { (n, b) \<leftarrow> UNPACK_U32 b; (a, b) \<leftarrow> UNPACK_U32 b; Some \<lparr>dr_addr = a, dr_size = n\<rparr> }"

section \<open>What the core reads\<close>

definition at_core :: "swap \<Rightarrow> struct_words \<Rightarrow> u8 list" where
  "at_core swap ws = swap (le_mem ws) (length (le_mem ws) div 8)"

lemma at_be_mem: "swaps_words swap \<Longrightarrow> words_ok ws \<Longrightarrow> at_core swap ws = be_mem ws"
  unfolding at_core_def by (rule swap_le_mem)

lemmas rule_structs = rule_words_def op_in_words_def acl_words_def hash_op_words_def fr_tuple_words_def ssn_match_words_def
  core_rule_def core_op_in_def core_acl_def core_hash_op_def core_fr_tuple_def core_ssn_match_def

lemmas check_structs = vlan_para_words_def vlan_op_words_def ipc_exp_words_def ipc_misc_words_def instr_cfg_words_def ipc_cur_words_def
  core_vlan_para_def core_vlan_op_def core_ipc_exp_def core_ipc_misc_def core_instr_cfg_def core_ipc_cur_def

lemmas board_structs = phy_words_def cpld_words_def dma_read_words_def core_phy_def core_cpld_def core_dma_read_def

lemma rule_structs_read:
  "core_rule (be_mem (rule_words r)) = Some r" "core_op_in (be_mem (op_in_words x)) = Some x" "core_acl (be_mem (acl_words a v)) = Some a"
  "core_hash_op (be_mem (hash_op_words h v)) = Some h" "core_ssn_match (be_mem (ssn_match_words m)) = Some m"
  by (simp_all add: rule_structs be_mem_def prod_eq_iff)

lemma check_structs_read:
  "core_vlan_para (be_mem (vlan_para_words p r0 r)) = Some p" "core_vlan_op (be_mem (vlan_op_words y v)) = Some y"
  "core_ipc_exp (be_mem (ipc_exp_words e)) = Some e" "core_ipc_misc (be_mem (ipc_misc_words i r1 r2)) = Some i"
  "core_instr_cfg (be_mem (instr_cfg_words c)) = Some c" "core_ipc_cur (be_mem (ipc_cur_words u)) = Some u"
  by (simp_all add: check_structs be_mem_def)

lemma board_structs_read:
  "core_phy (be_mem (phy_words p)) = Some p" "core_cpld (be_mem (cpld_words c)) = Some c" "core_dma_read (be_mem (dma_read_words d)) = Some d"
  by (simp_all add: board_structs be_mem_def)

lemma structs_ok:
  "words_ok (rule_words r)" "words_ok (op_in_words x)" "words_ok (acl_words a v)" "words_ok (hash_op_words h v)" "words_ok (ssn_match_words m)"
  "words_ok (vlan_para_words p r0 r1)" "words_ok (vlan_op_words y v)" "words_ok (ipc_exp_words e)" "words_ok (ipc_misc_words i r0 r1)"
  "words_ok (instr_cfg_words c)" "words_ok (ipc_cur_words u)" "words_ok (phy_words q)" "words_ok (cpld_words k)" "words_ok (dma_read_words d)"
  by (simp_all add: rule_structs check_structs board_structs words_ok_def be64_def)

text \<open>Two and four words of bytes.\<close>

lemma bytes16: "length b = 16 \<Longrightarrow> \<exists>w. byte_words b = w \<and> words_ok w \<and> length (be_mem w) = 16 \<and> swap_buff2 (be_mem w) = b"
  by (auto simp: length_Suc_conv numeral_eq_Suc be_mem_def words_ok_def swap_buff2_def)

lemma byte_words_append: "length a = 16 \<Longrightarrow> byte_words (a @ b) = byte_words a @ byte_words b"
  by (auto simp: length_Suc_conv numeral_eq_Suc)

lemma be_mem_append: "be_mem (v @ w) = be_mem v @ be_mem w"
  by (simp add: be_mem_def)

lemma words_ok_append: "words_ok (v @ w) \<longleftrightarrow> words_ok v \<and> words_ok w"
  by (auto simp: words_ok_def)

lemma hash_mask_arrives:
  assumes "swaps_words swap" "length (hm_ip6 x) = 16"
  shows "\<exists>ip6. core_hash_mask (at_core swap (hash_mask_words x)) = Some (x\<lparr>hm_ip6 := ip6\<rparr>) \<and> swap_buff2 ip6 = hm_ip6 x"
proof -
  let ?w = "byte_words (hm_ip6 x)"
  have w: "words_ok ?w" "length (be_mem ?w) = 16" "swap_buff2 (be_mem ?w) = hm_ip6 x" using bytes16 [OF assms(2)] by auto
  let ?h = "[[PACK_U32 (hm_hash_type x), PACK_U32 (hm_ip4 x)]]"
  have "words_ok ?h" "be_mem ?h = PACK_U32 (hm_ip4 x) @ PACK_U32 (hm_hash_type x)" by (simp_all add: words_ok_def be_mem_def)
  then have "at_core swap (hash_mask_words x) = PACK_U32 (hm_ip4 x) @ PACK_U32 (hm_hash_type x) @ be_mem ?w"
    using at_be_mem [OF assms(1), of "?h @ ?w"] w(1) unfolding hash_mask_words_def words_ok_append be_mem_append by simp
  then have "core_hash_mask (at_core swap (hash_mask_words x)) = Some (x\<lparr>hm_ip6 := be_mem ?w\<rparr>)"
    using w(2) by (simp add: core_hash_mask_def)
  with w(3) show ?thesis by blast
qed

lemma payload_arrives:
  assumes "swaps_words swap" "length p = 32"
  shows "\<exists>b. core_payload (at_core swap (payload_words (p, n))) = Some (b, n) \<and> swap_payload b = p"
proof -
  let ?a = "byte_words (take 16 p)" and ?b = "byte_words (drop 16 p)"
  have ab: "words_ok ?a" "length (be_mem ?a) = 16" "swap_buff2 (be_mem ?a) = take 16 p"
      "words_ok ?b" "length (be_mem ?b) = 16" "swap_buff2 (be_mem ?b) = drop 16 p"
    using bytes16 [of "take 16 p"] bytes16 [of "drop 16 p"] assms(2) by auto
  have split: "byte_words p = ?a @ ?b" using byte_words_append [of "take 16 p" "drop 16 p"] assms(2) by simp
  have num: "words_ok [[be64 n]]" "be_mem [[be64 n]] = be64 n" by (simp_all add: words_ok_def be_mem_def be64_def)
  have mem: "at_core swap (payload_words (p, n)) = be_mem ?a @ be_mem ?b @ be64 n"
    using at_be_mem [OF assms(1), of "payload_words (p, n)"] ab num by (simp add: payload_words_def split words_ok_append be_mem_append)
  have "swap_buff2 (be_mem ?a @ be_mem ?b) = swap_buff2 (be_mem ?a)" using ab(2) by (simp add: swap_buff2_def)
  then have "swap_payload (be_mem ?a @ be_mem ?b) = p" using ab by (simp add: swap_payload_def)
  moreover have "core_payload (at_core swap (payload_words (p, n))) = Some (be_mem ?a @ be_mem ?b, n)"
    using ab(2,5) unpack_pack_nil(4) [of n] by (simp add: mem core_payload_def)
  ultimately show ?thesis by blast
qed


definition sample_rule :: frc_rule where
  "sample_rule = \<lparr>r_sip = 0x0a000001, r_dip = 2, r_sp = 80, r_dp = 443, r_proto = 6, r_index = 3, r_rule_source = 1, r_rule_type = 0, r_action = 2, r_op = 1\<rparr>"


end
