(* ===== verification/DrvChan.thy ===== *)
theory DrvChan
  imports SsnChan
begin

text \<open>
  The driver's side of the channels, \<^verbatim>\<open>frcdrv/frcdrv_chan.c\<close> with \<^verbatim>\<open>frcdrv_udp.c\<close>, \<^verbatim>\<open>frcdrv_rule.c\<close>
  and \<^verbatim>\<open>frcdrv_tcp.c\<close>: the pools of host memory, the rings, the descriptor that tells the core
  where they are, and their release. The host is little-endian.

  An area of \<^verbatim>\<open>FRC_DMA_POOL_SIZE\<close> bytes from \<^verbatim>\<open>frcdrv_dma_pool_alloc\<close> is named by its physical address, and the answer
  to the \<open>k\<close>-th request is an argument. The state counts the requests and lists the areas given back.
\<close>

section \<open>Data\<close>

definition FRC_DMA_POOL_SIZE :: u64 where [c_consts]: "FRC_DMA_POOL_SIZE = 4194304"
definition FRC_DMA_SIMPLE_PACKAGE_BLOCK_SIZE :: nat where [c_consts]: "FRC_DMA_SIMPLE_PACKAGE_BLOCK_SIZE = 2048"
definition FRC_DMA_SIMPLE_PACKAGE_POOL_NUM_MAX :: u64 where [c_consts]: "FRC_DMA_SIMPLE_PACKAGE_POOL_NUM_MAX = 10"
definition FRC_DMA_SIMPLE_PACKAGE_CHAN_NUM :: nat where [c_consts]: "FRC_DMA_SIMPLE_PACKAGE_CHAN_NUM = 2"
definition FRC_DMA_SSN_POOL_NUM_MAX :: u64 where [c_consts]: "FRC_DMA_SSN_POOL_NUM_MAX = 783"
definition FRC_WORK_MAX :: nat where [c_consts]: "FRC_WORK_MAX = 3"
definition sizeof_simple_ctrl :: u64 where [c_consts]: "sizeof_simple_ctrl = 327712"
definition sizeof_ssn_ring :: u64 where [c_consts]: "sizeof_ssn_ring = 3207184"

record dma_pool =
  pool_num :: u64
  pool_addr :: "u64 list"

record frc_dma_chan_desc =
  cd_type :: u64
  cd_ctrl_addr :: u64
  cd_ctrl_size :: u64
  cd_pool_addr :: u64
  cd_pool_size :: u64

record frc_dma_simple_package_chan_ctrl =
  available_ring :: ring_buff
  completed_ring :: ring_buff

text \<open>A pointer is the address of what it points to, with the contents.\<close>

record frc_dma_simple_package_chan =
  sp_desc :: frc_dma_chan_desc
  sp_dma_ctrl :: "(u64 \<times> frc_dma_simple_package_chan_ctrl) option"
  sp_pool :: "(u64 \<times> dma_pool) option"

record frc_dma_ssn_chan_desc =
  sd_type :: u64
  sd_avail_addr :: u64
  sd_avail_size :: u64
  sd_compl_addr :: u64
  sd_compl_size :: u64
  sd_pool_addr :: u64
  sd_pool_size :: u64

record frc_dma_ssn_chan =
  sn_desc :: frc_dma_ssn_chan_desc
  sn_available_ring :: "(u64 \<times> ring_buff) option"
  sn_completed_ring :: "(u64 \<times> ring_buff) option"
  sn_pool :: "(u64 \<times> dma_pool) option"

record dma_mem =
  dm_req :: nat
  dm_freed :: "u64 list"

type_synonym pool_source = "nat \<Rightarrow> u64 option"

definition frcdrv_dma_pool_alloc :: "pool_source \<Rightarrow> dma_mem \<Rightarrow> u64 option \<times> dma_mem" where
  "frcdrv_dma_pool_alloc src m = (src (dm_req m), m\<lparr>dm_req := Suc (dm_req m)\<rparr>)"

definition frcdrv_dma_pool_free :: "u64 \<Rightarrow> dma_mem \<Rightarrow> dma_mem" where
  "frcdrv_dma_pool_free a m = m\<lparr>dm_freed := dm_freed m @ [a]\<rparr>"

section \<open>The pool of a channel\<close>

text \<open>The loop that allocates the areas; \<open>True\<close> if one is refused.\<close>

definition pool_fill :: "pool_source \<Rightarrow> dma_pool \<Rightarrow> dma_mem \<Rightarrow> (bool \<times> dma_pool \<times> dma_mem) option" where
  "pool_fill src pool m =
     for_ret [0..<unat (pool_num pool)] (\<lambda>i (pool, m).
       case frcdrv_dma_pool_alloc src m of
         (None, m) \<Rightarrow> Some (True, pool, m)
       | (Some buff, m) \<Rightarrow> do { a \<leftarrow> arr_set (pool_addr pool) i buff; Some (False, pool\<lparr>pool_addr := a\<rparr>, m) }) (pool, m)"

text \<open>The smallest and the largest address.\<close>

definition pool_range :: "dma_pool \<Rightarrow> (u64 \<times> u64) option" where
  "pool_range pool = do {
     a0 \<leftarrow> arr_get (pool_addr pool) 0;
     for_each [1..<unat (pool_num pool)] (\<lambda>i (addr_min, addr_max). do {
       a \<leftarrow> arr_get (pool_addr pool) i;
       Some (if addr_min > a then a else addr_min, if addr_max < a then a else addr_max)
     }) (a0, a0)
   }"

definition pool_init :: "pool_source \<Rightarrow> nat \<Rightarrow> u64 \<Rightarrow> dma_mem \<Rightarrow> (int \<times> (u64 \<times> dma_pool) option \<times> (u64 \<times> u64) option \<times> dma_mem) option" where
  "pool_init src room num m =
     (case frcdrv_dma_pool_alloc src m of
        (None, m) \<Rightarrow> Some (FRE_MEMORY, None, None, m)
      | (Some p, m) \<Rightarrow> do {
          (refused, pool, m) \<leftarrow> pool_fill src \<lparr>pool_num = num, pool_addr = replicate room 0\<rparr> m;
          if refused then Some (FRE_MEMORY, Some (p, pool), None, m)
          else do {
            (addr_min, addr_max) \<leftarrow> pool_range pool;
            Some (FRE_SUCCESS, Some (p, pool), Some (addr_min, addr_max - addr_min + FRC_DMA_POOL_SIZE), m)
          }
        })"

text \<open>The addresses of the blocks, in the order of the loops over the pool and over the offsets.\<close>

definition block_addrs :: "nat \<Rightarrow> dma_pool \<Rightarrow> u64 list option" where
  "block_addrs block pool = do {
     as \<leftarrow> those (map (arr_get (pool_addr pool)) [0..<unat (pool_num pool)]);
     Some (concat (map (\<lambda>a. map (\<lambda>k. a + of_nat (k * block)) [0..<unat FRC_DMA_POOL_SIZE div block]) as))
   }"

text \<open>Putting them on the available ring; \<open>True\<close> if the ring refuses one.\<close>

definition avail_put :: "(ring_buff \<Rightarrow> u64 \<Rightarrow> (u64 \<times> ring_buff) option) \<Rightarrow> u64 list \<Rightarrow> ring_buff \<Rightarrow> (bool \<times> ring_buff) option" where
  "avail_put put addrs = for_ret addrs (\<lambda>a r. do { (k, r) \<leftarrow> put r a; Some (k \<noteq> 1, r) })"

section \<open>The simple-package channel\<close>

definition frcdrv_simple_package_chan_pool_init ::
    "pool_source \<Rightarrow> frc_dma_simple_package_chan \<Rightarrow> u64 \<Rightarrow> dma_mem \<Rightarrow> (int \<times> frc_dma_simple_package_chan \<times> dma_mem) option" where
  "frcdrv_simple_package_chan_pool_init src chan num m = do {
     (rv, pool, range, m) \<leftarrow> pool_init src (unat FRC_DMA_SIMPLE_PACKAGE_POOL_NUM_MAX) num m;
     let chan = (case pool of Some p \<Rightarrow> chan\<lparr>sp_pool := Some p\<rparr> | None \<Rightarrow> chan);
     let chan = (case range of Some (a, n) \<Rightarrow> chan\<lparr>sp_desc := (sp_desc chan)\<lparr>cd_pool_addr := a, cd_pool_size := n\<rparr>\<rparr> | None \<Rightarrow> chan);
     Some (rv, chan, m)
   }"

definition frcdrv_simple_package_chan_dma_ctrl_init ::
    "pool_source \<Rightarrow> frc_dma_simple_package_chan \<Rightarrow> dma_mem \<Rightarrow> int \<times> frc_dma_simple_package_chan \<times> dma_mem" where
  "frcdrv_simple_package_chan_dma_ctrl_init src chan m =
     (if sp_pool chan = None then (FRE_INIT, chan, m)
      else case frcdrv_dma_pool_alloc src m of
        (None, m) \<Rightarrow> (FRE_MEMORY, chan\<lparr>sp_dma_ctrl := None\<rparr>, m)
      | (Some a, m) \<Rightarrow>
          (FRE_SUCCESS, chan\<lparr>sp_dma_ctrl := Some (a, \<lparr>available_ring = ring_init FRC_DMA_SIMPLE_PACKAGE_RING_BUFF_SIZE,
               completed_ring = ring_init FRC_DMA_SIMPLE_PACKAGE_RING_BUFF_SIZE\<rparr>),
             sp_desc := (sp_desc chan)\<lparr>cd_ctrl_size := sizeof_simple_ctrl, cd_ctrl_addr := a\<rparr>\<rparr>, m))"

definition frcdrv_simple_package_chan_avail_init :: "frc_dma_simple_package_chan \<Rightarrow> (int \<times> frc_dma_simple_package_chan) option" where
  "frcdrv_simple_package_chan_avail_init chan =
     (case sp_pool chan of
        None \<Rightarrow> Some (FRE_INIT, chan)
      | Some (p, pool) \<Rightarrow> do {
          (a, ctrl) \<leftarrow> sp_dma_ctrl chan;
          addrs \<leftarrow> block_addrs FRC_DMA_SIMPLE_PACKAGE_BLOCK_SIZE pool;
          (refused, r) \<leftarrow> avail_put (simple_package_ring_put LITTLE_ENDIAN) addrs (available_ring ctrl);
          Some (if refused then FRE_INIT else FRE_SUCCESS, chan\<lparr>sp_dma_ctrl := Some (a, ctrl\<lparr>available_ring := r\<rparr>)\<rparr>)
        })"

definition frcdrv_simple_package_chan_setup ::
    "pool_source \<Rightarrow> frc_dma_simple_package_chan \<Rightarrow> u32 \<Rightarrow> u64 \<Rightarrow> dma_mem \<Rightarrow> (int \<times> frc_dma_simple_package_chan \<times> dma_mem) option" where
  "frcdrv_simple_package_chan_setup src chan type num m =
     (if num > FRC_DMA_SIMPLE_PACKAGE_POOL_NUM_MAX then Some (FRE_PARAM, chan, m)
      else do {
        (rv, chan, m) \<leftarrow> frcdrv_simple_package_chan_pool_init src chan num m;
        if rv \<noteq> 0 then Some (FRE_FAIL, chan, m)
        else do {
          let (rv, chan, m) = frcdrv_simple_package_chan_dma_ctrl_init src chan m;
          if rv \<noteq> 0 then Some (FRE_FAIL, chan, m)
          else do {
            (rv, chan) \<leftarrow> frcdrv_simple_package_chan_avail_init chan;
            if rv \<noteq> 0 then Some (FRE_FAIL, chan, m)
            else Some (FRE_SUCCESS, chan\<lparr>sp_desc := (sp_desc chan)\<lparr>cd_type := ucast type\<rparr>\<rparr>, m)
          }
        }
      })"

text \<open>Release: every address of the pool, the pool, the rings.\<close>

definition free_pool :: "(u64 \<times> dma_pool) option \<Rightarrow> dma_mem \<Rightarrow> dma_mem option" where
  "free_pool p m =
     (case p of
        None \<Rightarrow> Some m
      | Some (p, pool) \<Rightarrow> do {
          m \<leftarrow> for_each [0..<unat (pool_num pool)] (\<lambda>i m. do { a \<leftarrow> arr_get (pool_addr pool) i; Some (frcdrv_dma_pool_free a m) }) m;
          Some (frcdrv_dma_pool_free p m)
        })"

definition frcdrv_simple_package_chans_free :: "frc_dma_simple_package_chan \<Rightarrow> dma_mem \<Rightarrow> (frc_dma_simple_package_chan \<times> dma_mem) option" where
  "frcdrv_simple_package_chans_free chan m = do {
     m \<leftarrow> free_pool (sp_pool chan) m;
     let m = (case sp_dma_ctrl chan of Some (a, _) \<Rightarrow> frcdrv_dma_pool_free a m | None \<Rightarrow> m);
     Some (chan\<lparr>sp_pool := None, sp_dma_ctrl := None\<rparr>, m)
   }"

text \<open>The array of channels, \<open>None\<close> before it is allocated.\<close>

record chan_state =
  frcdrv_dma_simple_package_chans :: "frc_dma_simple_package_chan list option"
  frcdrv_dma_ssn_chans :: "frc_dma_ssn_chan list option"
  cs_mem :: dma_mem

definition blank_chan :: frc_dma_simple_package_chan where
  "blank_chan = \<lparr>sp_desc = \<lparr>cd_type = 0, cd_ctrl_addr = 0, cd_ctrl_size = 0, cd_pool_addr = 0, cd_pool_size = 0\<rparr>, sp_dma_ctrl = None, sp_pool = None\<rparr>"

definition frcdrv_simple_package_chan_init :: "bool \<Rightarrow> chan_state \<Rightarrow> int \<times> chan_state" where
  "frcdrv_simple_package_chan_init ok st =
     (if \<not> ok then (FRE_MEMORY, st\<lparr>frcdrv_dma_simple_package_chans := None\<rparr>)
      else (FRE_SUCCESS, st\<lparr>frcdrv_dma_simple_package_chans := Some
        [blank_chan\<lparr>sp_desc := (sp_desc blank_chan)\<lparr>cd_type := of_nat FRC_WORK_UDP\<rparr>\<rparr>,
         blank_chan\<lparr>sp_desc := (sp_desc blank_chan)\<lparr>cd_type := of_nat FRC_WORK_RULE\<rparr>\<rparr>]\<rparr>))"

definition frcdrv_simple_package_chan_destroy :: "chan_state \<Rightarrow> chan_state option" where
  "frcdrv_simple_package_chan_destroy st =
     (case frcdrv_dma_simple_package_chans st of
        None \<Rightarrow> Some st
      | Some chans \<Rightarrow> do {
          m \<leftarrow> for_each [0..<FRC_DMA_SIMPLE_PACKAGE_CHAN_NUM] (\<lambda>i m. do {
            chan \<leftarrow> arr_get chans i;
            (_, m) \<leftarrow> frcdrv_simple_package_chans_free chan m;
            Some m
          }) (cs_mem st);
          Some (st\<lparr>frcdrv_dma_simple_package_chans := None, cs_mem := m\<rparr>)
        })"

definition frcdrv_simple_pakcage_chan_get :: "nat \<Rightarrow> chan_state \<Rightarrow> frc_dma_simple_package_chan option" where
  "frcdrv_simple_pakcage_chan_get chan_id st =
     (if chan_id \<ge> FRC_DMA_SIMPLE_PACKAGE_CHAN_NUM then None
      else case frcdrv_dma_simple_package_chans st of None \<Rightarrow> None | Some chans \<Rightarrow> Some (chans ! chan_id))"

text \<open>\<^verbatim>\<open>frcdrv_udp_chan_init\<close> and \<^verbatim>\<open>frcdrv_rule_chan_init\<close>.\<close>

definition work_chan_init :: "nat \<Rightarrow> pool_source \<Rightarrow> chan_state \<Rightarrow> (int \<times> chan_state) option" where
  "work_chan_init work src st =
     (case frcdrv_simple_pakcage_chan_get work st of
        None \<Rightarrow> Some (FRE_FAIL, st)
      | Some chan \<Rightarrow> do {
          (rv, chan, m) \<leftarrow> frcdrv_simple_package_chan_setup src chan (of_nat work) FRC_DMA_SIMPLE_PACKAGE_POOL_NUM_MAX (cs_mem st);
          Some (if rv \<noteq> 0 then FRE_FAIL else FRE_SUCCESS,
            st\<lparr>frcdrv_dma_simple_package_chans := map_option (\<lambda>cs. cs[work := chan]) (frcdrv_dma_simple_package_chans st), cs_mem := m\<rparr>)
        })"

definition frcdrv_udp_chan_init :: "pool_source \<Rightarrow> chan_state \<Rightarrow> (int \<times> chan_state) option" where
  "frcdrv_udp_chan_init = work_chan_init FRC_WORK_UDP"

definition frcdrv_rule_chan_init :: "pool_source \<Rightarrow> chan_state \<Rightarrow> (int \<times> chan_state) option" where
  "frcdrv_rule_chan_init = work_chan_init FRC_WORK_RULE"

section \<open>The session channel\<close>

definition frcdrv_ssn_chan_pool_init ::
    "pool_source \<Rightarrow> frc_dma_ssn_chan \<Rightarrow> u64 \<Rightarrow> dma_mem \<Rightarrow> (int \<times> frc_dma_ssn_chan \<times> dma_mem) option" where
  "frcdrv_ssn_chan_pool_init src chan num m = do {
     (rv, pool, range, m) \<leftarrow> pool_init src (unat FRC_DMA_SSN_POOL_NUM_MAX) num m;
     let chan = (case pool of Some p \<Rightarrow> chan\<lparr>sn_pool := Some p\<rparr> | None \<Rightarrow> chan);
     let chan = (case range of Some (a, n) \<Rightarrow> chan\<lparr>sn_desc := (sn_desc chan)\<lparr>sd_pool_addr := a, sd_pool_size := n\<rparr>\<rparr> | None \<Rightarrow> chan);
     Some (rv, chan, m)
   }"

definition frcdrv_ssn_chan_dma_ctrl_init ::
    "pool_source \<Rightarrow> frc_dma_ssn_chan \<Rightarrow> dma_mem \<Rightarrow> int \<times> frc_dma_ssn_chan \<times> dma_mem" where
  "frcdrv_ssn_chan_dma_ctrl_init src chan m =
     (if sn_pool chan = None then (FRE_INIT, chan, m)
      else case frcdrv_dma_pool_alloc src m of
        (None, m) \<Rightarrow> (FRE_MEMORY, chan\<lparr>sn_available_ring := None\<rparr>, m)
      | (Some a, m) \<Rightarrow>
          (let chan = chan\<lparr>sn_available_ring := Some (a, ring_init FRC_DMA_SSN_RING_BUFF_SIZE),
                 sn_desc := (sn_desc chan)\<lparr>sd_avail_size := sizeof_ssn_ring, sd_avail_addr := a\<rparr>\<rparr>
           in case frcdrv_dma_pool_alloc src m of
             (None, m) \<Rightarrow> (FRE_MEMORY, chan\<lparr>sn_completed_ring := None\<rparr>, m)
           | (Some b, m) \<Rightarrow>
               (FRE_SUCCESS, chan\<lparr>sn_completed_ring := Some (b, ring_init FRC_DMA_SSN_RING_BUFF_SIZE),
                  sn_desc := (sn_desc chan)\<lparr>sd_compl_size := sizeof_ssn_ring, sd_compl_addr := b\<rparr>\<rparr>, m)))"

definition frcdrv_ssn_chan_avail_init :: "frc_dma_ssn_chan \<Rightarrow> (int \<times> frc_dma_ssn_chan) option" where
  "frcdrv_ssn_chan_avail_init chan =
     (case sn_pool chan of
        None \<Rightarrow> Some (FRE_INIT, chan)
      | Some (p, pool) \<Rightarrow> do {
          (a, ring) \<leftarrow> sn_available_ring chan;
          addrs \<leftarrow> block_addrs FRC_DMA_SSN_BLOCK_SIZE pool;
          (refused, r) \<leftarrow> avail_put (ssn_ring_put LITTLE_ENDIAN) addrs ring;
          Some (if refused then FRE_INIT else FRE_SUCCESS, chan\<lparr>sn_available_ring := Some (a, r)\<rparr>)
        })"

definition frcdrv_ssn_chan_setup ::
    "pool_source \<Rightarrow> frc_dma_ssn_chan \<Rightarrow> u32 \<Rightarrow> u64 \<Rightarrow> dma_mem \<Rightarrow> (int \<times> frc_dma_ssn_chan \<times> dma_mem) option" where
  "frcdrv_ssn_chan_setup src chan type num m =
     (if num > FRC_DMA_SSN_POOL_NUM_MAX then Some (FRE_PARAM, chan, m)
      else do {
        (rv, chan, m) \<leftarrow> frcdrv_ssn_chan_pool_init src chan num m;
        if rv \<noteq> 0 then Some (FRE_FAIL, chan, m)
        else do {
          let (rv, chan, m) = frcdrv_ssn_chan_dma_ctrl_init src chan m;
          if rv \<noteq> 0 then Some (FRE_FAIL, chan, m)
          else do {
            (rv, chan) \<leftarrow> frcdrv_ssn_chan_avail_init chan;
            if rv \<noteq> 0 then Some (FRE_FAIL, chan, m)
            else Some (FRE_SUCCESS, chan\<lparr>sn_desc := (sn_desc chan)\<lparr>sd_type := ucast type\<rparr>\<rparr>, m)
          }
        }
      })"

definition frcdrv_ssn_chans_free :: "frc_dma_ssn_chan \<Rightarrow> dma_mem \<Rightarrow> (frc_dma_ssn_chan \<times> dma_mem) option" where
  "frcdrv_ssn_chans_free chan m = do {
     m \<leftarrow> free_pool (sn_pool chan) m;
     let m = (case sn_available_ring chan of Some (a, _) \<Rightarrow> frcdrv_dma_pool_free a m | None \<Rightarrow> m);
     let m = (case sn_completed_ring chan of Some (a, _) \<Rightarrow> frcdrv_dma_pool_free a m | None \<Rightarrow> m);
     Some (chan\<lparr>sn_pool := None, sn_available_ring := None, sn_completed_ring := None\<rparr>, m)
   }"

definition blank_ssn_chan :: frc_dma_ssn_chan where
  "blank_ssn_chan = \<lparr>sn_desc = \<lparr>sd_type = 0, sd_avail_addr = 0, sd_avail_size = 0, sd_compl_addr = 0, sd_compl_size = 0, sd_pool_addr = 0, sd_pool_size = 0\<rparr>,
     sn_available_ring = None, sn_completed_ring = None, sn_pool = None\<rparr>"

definition frcdrv_ssn_chan_init :: "bool \<Rightarrow> chan_state \<Rightarrow> int \<times> chan_state" where
  "frcdrv_ssn_chan_init ok st =
     (if \<not> ok then (FRE_MEMORY, st\<lparr>frcdrv_dma_ssn_chans := None\<rparr>)
      else (FRE_SUCCESS, st\<lparr>frcdrv_dma_ssn_chans := Some [blank_ssn_chan\<lparr>sn_desc := (sn_desc blank_ssn_chan)\<lparr>sd_type := of_nat FRC_WORK_SSN\<rparr>\<rparr>]\<rparr>))"

definition frcdrv_ssn_chan_destroy :: "chan_state \<Rightarrow> chan_state option" where
  "frcdrv_ssn_chan_destroy st =
     (case frcdrv_dma_ssn_chans st of
        None \<Rightarrow> Some st
      | Some chans \<Rightarrow> do {
          chan \<leftarrow> arr_get chans 0;
          (_, m) \<leftarrow> frcdrv_ssn_chans_free chan (cs_mem st);
          Some (st\<lparr>frcdrv_dma_ssn_chans := None, cs_mem := m\<rparr>)
        })"

text \<open>The index \<^verbatim>\<open>chan_id - FRC_WORK_SSN\<close> is outside the array for a smaller identifier.\<close>

definition frcdrv_ssn_chan_get :: "nat \<Rightarrow> chan_state \<Rightarrow> frc_dma_ssn_chan option option" where
  "frcdrv_ssn_chan_get chan_id st =
     (if chan_id > FRC_WORK_MAX - 1 then Some None
      else case frcdrv_dma_ssn_chans st of
        None \<Rightarrow> Some None
      | Some chans \<Rightarrow> if chan_id < FRC_WORK_SSN then None else map_option Some (arr_get chans (chan_id - FRC_WORK_SSN)))"

definition frcdrv_ssn_init :: "pool_source \<Rightarrow> chan_state \<Rightarrow> (int \<times> chan_state) option" where
  "frcdrv_ssn_init src st = do {
     c \<leftarrow> frcdrv_ssn_chan_get FRC_WORK_SSN st;
     case c of
       None \<Rightarrow> Some (FRE_FAIL, st)
     | Some chan \<Rightarrow> do {
         (rv, chan, m) \<leftarrow> frcdrv_ssn_chan_setup src chan (of_nat FRC_WORK_SSN) FRC_DMA_SSN_POOL_NUM_MAX (cs_mem st);
         Some (if rv \<noteq> 0 then FRE_FAIL else FRE_SUCCESS,
           st\<lparr>frcdrv_dma_ssn_chans := map_option (\<lambda>cs. cs[0 := chan]) (frcdrv_dma_ssn_chans st), cs_mem := m\<rparr>)
       }
   }"

section \<open>Filling the pool and the ring\<close>

context bounded_queue
begin

lemma put_loop:
  "invar r \<Longrightarrow> length (contents r) + length xs \<le> cap \<Longrightarrow> fresh r (length xs) \<Longrightarrow>
     \<exists>r'. for_ret xs (\<lambda>a r. do { (k, r) \<leftarrow> put r a; Some (k \<noteq> 1, r) }) r = Some (False, r') \<and> invar r' \<and> contents r' = contents r @ xs"
proof (induction xs arbitrary: r)
  case Nil
  then show ?case by simp
next
  case (Cons x xs)
  obtain r1 where r1: "put r x = Some (1, r1)" "invar r1" "contents r1 = contents r @ [x]" "fresh r1 (length xs)"
    using put_room [of r "length xs" x] Cons.prems by auto
  obtain r2 where "for_ret xs (\<lambda>a r. do { (k, r) \<leftarrow> put r a; Some (k \<noteq> 1, r) }) r1 = Some (False, r2)" "invar r2" "contents r2 = contents r1 @ xs"
    using Cons.IH [OF r1(2) _ r1(4)] r1(3) Cons.prems(2) by auto
  then show ?case using r1 by auto
qed

end

text \<open>The answers of the allocator from the \<open>k\<close>-th request on.\<close>

definition granted :: "pool_source \<Rightarrow> nat \<Rightarrow> u64 list \<Rightarrow> bool" where
  "granted src k as \<longleftrightarrow> (\<forall>i < length as. src (k + i) = Some (as ! i))"

lemma granted_Nil [simp]: "granted src k []"
  by (simp add: granted_def)

lemma granted_Cons: "granted src k (a # as) \<longleftrightarrow> src k = Some a \<and> granted src (Suc k) as"
  unfolding granted_def by (auto simp: All_less_Suc2)

lemma granted_append: "granted src k (as @ bs) \<longleftrightarrow> granted src k as \<and> granted src (k + length as) bs"
  by (induction as arbitrary: k) (auto simp: granted_Cons)

lemma pool_fill_loop:
  "granted src (dm_req m) as \<Longrightarrow> i + length as \<le> length (pool_addr pool) \<Longrightarrow>
     for_ret [i..<i + length as] (\<lambda>i (pool, m).
       case frcdrv_dma_pool_alloc src m of
         (None, m) \<Rightarrow> Some (True, pool, m)
       | (Some buff, m) \<Rightarrow> do { a \<leftarrow> arr_set (pool_addr pool) i buff; Some (False, pool\<lparr>pool_addr := a\<rparr>, m) }) (pool, m) =
     Some (False, pool\<lparr>pool_addr := take i (pool_addr pool) @ as @ drop (i + length as) (pool_addr pool)\<rparr>, m\<lparr>dm_req := dm_req m + length as\<rparr>)"
proof (induction as arbitrary: i pool m)
  case Nil
  then show ?case by simp
next
  case (Cons a as)
  have up: "[i..<i + length (a # as)] = i # [Suc i..<Suc i + length as]" using upt_conv_Cons [of i "i + length (a # as)"] by simp
  let ?pool = "pool\<lparr>pool_addr := (pool_addr pool)[i := a]\<rparr>" and ?m = "m\<lparr>dm_req := Suc (dm_req m)\<rparr>"
  have i: "i < length (pool_addr pool)" using Cons.prems(2) by simp
  have cut: "take (Suc i) ((pool_addr pool)[i := a]) = take i (pool_addr pool) @ [a]"
    using i by (simp add: take_Suc_conv_app_nth)
  show ?case
    using Cons.IH [of ?m "Suc i" ?pool] Cons.prems i cut unfolding up
    by (simp add: granted_Cons frcdrv_dma_pool_alloc_def)
qed

lemma pool_range_bounds:
  assumes "pool_addr pool = as @ rest" "length as = unat (pool_num pool)" "as \<noteq> []"
  shows "\<exists>lo hi. pool_range pool = Some (lo, hi) \<and> lo \<in> set as \<and> hi \<in> set as \<and> (\<forall>a \<in> set as. lo \<le> a \<and> a \<le> hi)"
proof -
  let ?n = "unat (pool_num pool)"
  let ?P = "\<lambda>k (lo, hi). lo \<in> set as \<and> hi \<in> set as \<and> (\<forall>i \<le> k. lo \<le> as ! i \<and> as ! i \<le> hi)"
  let ?f = "\<lambda>i (addr_min, addr_max). do {
       a \<leftarrow> arr_get (pool_addr pool) i;
       Some (if addr_min > a then a else addr_min, if addr_max < a then a else addr_max)
     }"
  have n: "0 < ?n" using assms(3) unfolding assms(2) [symmetric] by simp
  have "\<exists>t. for_each [1..<?n] ?f (as ! 0, as ! 0) = Some t \<and> ?P (length [1..<?n]) t"
  proof (rule for_each_total [where P = ?P])
    show "?P 0 (as ! 0, as ! 0)" using assms(3) by simp
    show "\<exists>y. ?f ([1..<?n] ! k) x = Some y \<and> ?P (Suc k) y" if "k < length [1..<?n]" "?P k x" for k x
    proof -
      obtain lo hi where x: "x = (lo, hi)" by (cases x)
      have k: "Suc k < ?n" using that(1) by simp
      then have at: "arr_get (pool_addr pool) (Suc k) = Some (as ! Suc k)" "as ! Suc k \<in> set as"
        using assms(1,2) by (simp_all add: nth_append)
      show ?thesis using that at k unfolding x by (auto simp: le_Suc_eq nth_append not_less)
    qed
  qed
  moreover have "arr_get (pool_addr pool) 0 = Some (as ! 0)" using assms(1,3) by (cases as) (simp_all add: arr_get_def)
  ultimately obtain lo hi where r: "pool_range pool = Some (lo, hi)" "?P (?n - 1) (lo, hi)"
    unfolding pool_range_def by (auto simp del: for_each.simps)
  have "lo \<le> a \<and> a \<le> hi" if "a \<in> set as" for a
    using that r(2) assms(2) by (auto simp: in_set_conv_nth)
  then show ?thesis using r by auto
qed

text \<open>Areas of the host: they end below \<open>2^64\<close> and do not overlap.\<close>

definition area_ok :: "u64 \<Rightarrow> bool" where
  "area_ok a \<longleftrightarrow> unat a + 4194304 < 2 ^ 64"

definition apart :: "nat \<Rightarrow> u64 \<Rightarrow> u64 \<Rightarrow> bool" where
  "apart n a b \<longleftrightarrow> unat a + n \<le> unat b \<or> unat b + n \<le> unat a"

definition areas_ok :: "u64 list \<Rightarrow> bool" where
  "areas_ok as \<longleftrightarrow> (\<forall>a \<in> set as. area_ok a) \<and> sorted_wrt (apart 4194304) as"

definition blocks_of :: "nat \<Rightarrow> u64 list \<Rightarrow> u64 list" where
  "blocks_of block as = concat (map (\<lambda>a. map (\<lambda>k. a + of_nat (k * block)) [0..<unat FRC_DMA_POOL_SIZE div block]) as)"

lemma pool_init_granted:
  assumes "granted src (dm_req m) (p # as)" "length as = unat num" "as \<noteq> []" "unat num \<le> room"
  shows "\<exists>pool lo hi. pool_init src room num m =
      Some (FRE_SUCCESS, Some (p, pool), Some (lo, hi - lo + FRC_DMA_POOL_SIZE), m\<lparr>dm_req := dm_req m + Suc (length as)\<rparr>) \<and>
    pool_num pool = num \<and> pool_addr pool = as @ replicate (room - length as) 0 \<and>
    lo \<in> set as \<and> hi \<in> set as \<and> (\<forall>a \<in> set as. lo \<le> a \<and> a \<le> hi)"
proof -
  let ?m = "m\<lparr>dm_req := Suc (dm_req m)\<rparr>" and ?blank = "\<lparr>pool_num = num, pool_addr = replicate room 0\<rparr>"
  let ?pool = "\<lparr>pool_num = num, pool_addr = as @ replicate (room - length as) 0\<rparr>"
  have p: "frcdrv_dma_pool_alloc src m = (Some p, ?m)" using assms(1) by (simp add: granted_Cons frcdrv_dma_pool_alloc_def)
  have "granted src (dm_req ?m) as" using assms(1) by (simp add: granted_Cons)
  then have fill: "pool_fill src ?blank ?m = Some (False, ?pool, m\<lparr>dm_req := dm_req m + Suc (length as)\<rparr>)"
    using pool_fill_loop [of src ?m as 0 ?blank] assms(2,4) unfolding pool_fill_def by simp
  obtain lo hi where "pool_range ?pool = Some (lo, hi)" "lo \<in> set as" "hi \<in> set as" "\<forall>a \<in> set as. lo \<le> a \<and> a \<le> hi"
    using pool_range_bounds [of ?pool as] assms(2,3) by auto
  then show ?thesis unfolding pool_init_def p using fill by (intro exI [of _ ?pool] exI [of _ lo] exI [of _ hi]) simp
qed

lemma those_Some: "those (map Some xs) = Some xs"
  by (induction xs) auto

lemma block_addrs_of:
  assumes "pool_addr pool = as @ rest" "length as = unat (pool_num pool)"
  shows "block_addrs block pool = Some (blocks_of block as)"
proof -
  have "map (arr_get (pool_addr pool)) [0..<unat (pool_num pool)] = map Some as"
    using assms by (intro nth_equalityI) (auto simp: nth_append)
  then show ?thesis by (simp add: block_addrs_def blocks_of_def those_Some)
qed

text \<open>The blocks lie in their areas one behind the other.\<close>

lemma block_place:
  assumes "area_ok a" "k < 4194304 div block"
  shows "unat (a + of_nat (k * block)) = unat a + k * block" "k * block + block \<le> 4194304"
proof -
  have "Suc k * block \<le> 4194304 div block * block" using assms(2) by (intro mult_le_mono1) simp
  also have "\<dots> \<le> 4194304" by (rule div_times_less_eq_dividend)
  finally show le: "k * block + block \<le> 4194304" by simp
  have small: "unat (of_nat (k * block) :: u64) = k * block" unfolding unat_of_nat using le by simp
  show "unat (a + of_nat (k * block)) = unat a + k * block"
    unfolding unat_word_ariths(1) small using assms(1) le by (simp add: area_ok_def)
qed

lemma pool_size_nat: "unat FRC_DMA_POOL_SIZE = 4194304"
  by (simp add: FRC_DMA_POOL_SIZE_def)

lemma blocks_of_mem: "b \<in> set (blocks_of block as) \<longleftrightarrow> (\<exists>a \<in> set as. \<exists>k < 4194304 div block. b = a + of_nat (k * block))"
  unfolding blocks_of_def pool_size_nat by (auto simp del: of_nat_mult) (blast, rule bexI, rule imageI, simp_all)

lemma length_blocks_of: "length (blocks_of block as) = length as * (4194304 div block)"
  by (simp add: blocks_of_def pool_size_nat length_concat comp_def sum_list_triv)

lemma apart_mono: "apart n a b \<Longrightarrow> unat a \<le> unat a' \<Longrightarrow> unat a' + k \<le> unat a + n \<Longrightarrow> unat b \<le> unat b' \<Longrightarrow> unat b' + k \<le> unat b + n \<Longrightarrow> apart k a' b'"
  unfolding apart_def by arith

lemma blocks_apart: "areas_ok as \<Longrightarrow> sorted_wrt (apart block) (blocks_of block as)"
proof (induction as)
  case Nil
  then show ?case by (simp add: blocks_of_def)
next
  case (Cons a as)
  have a: "area_ok a" "areas_ok as" "\<And>b. b \<in> set as \<Longrightarrow> area_ok b \<and> apart 4194304 a b" using Cons.prems by (auto simp: areas_ok_def)
  let ?row = "map (\<lambda>k. a + of_nat (k * block)) [0..<4194304 div block]"
  have split: "blocks_of block (a # as) = ?row @ blocks_of block as" by (simp add: blocks_of_def pool_size_nat)
  have row: "sorted_wrt (apart block) ?row"
  proof (simp add: sorted_wrt_map sorted_wrt_iff_nth_less, intro allI impI)
    fix i j :: nat
    assume "i < j" "j < 4194304 div block"
    moreover from this have "Suc i * block \<le> j * block" by (intro mult_le_mono1) simp
    ultimately show "apart block (a + of_nat i * of_nat block) (a + of_nat j * of_nat block)"
      using block_place(1) [OF a(1), of i block] block_place(1) [OF a(1), of j block] unfolding apart_def by simp
  qed
  have "apart block x y" if x: "x \<in> set ?row" and y: "y \<in> set (blocks_of block as)" for x y
  proof -
    obtain k where k: "k < 4194304 div block" "x = a + of_nat (k * block)" using x by auto
    obtain b j where j: "b \<in> set as" "j < 4194304 div block" "y = b + of_nat (j * block)" using y blocks_of_mem by blast
    note pk = block_place [OF a(1) k(1)] and pj = block_place [OF conjunct1 [OF a(3) [OF j(1)]] j(2)]
    show ?thesis
      using apart_mono [OF conjunct2 [OF a(3) [OF j(1)]], of x block y] pk pj k(2) j(3) by simp
  qed
  then show ?case unfolding split using row Cons.IH [OF a(2)] by (simp add: sorted_wrt_append)
qed

lemma blocks_inside:
  assumes "areas_ok as" "lo \<in> set as" "hi \<in> set as" "\<forall>a \<in> set as. lo \<le> a \<and> a \<le> hi" "b \<in> set (blocks_of block as)"
  shows "unat lo \<le> unat b \<and> unat b + block \<le> unat lo + unat (hi - lo + FRC_DMA_POOL_SIZE)"
proof -
  obtain a k where a: "a \<in> set as" "k < 4194304 div block" "b = a + of_nat (k * block)" using assms(5) blocks_of_mem by blast
  have ok: "area_ok a" "area_ok hi" using assms(1,3) a(1) by (auto simp: areas_ok_def)
  note place = block_place [OF ok(1) a(2)]
  have le: "unat lo \<le> unat a" "unat a \<le> unat hi" "lo \<le> hi" using assms(2,3,4) a(1) by (auto simp: word_le_nat_alt)
  have "unat (hi - lo) = unat hi - unat lo" using le(3) by (rule unat_sub)
  then have "unat (hi - lo + FRC_DMA_POOL_SIZE) = unat hi - unat lo + 4194304"
    using ok(2) unfolding unat_word_ariths(1) pool_size_nat by (simp add: area_ok_def)
  then show ?thesis using place le a(3) by simp
qed

text \<open>The available ring as the core reads it.\<close>

lemma ring_contents_view:
  assumes "ring_ok sz LITTLE_ENDIAN r"
  shows "ring_contents sz BIG_ENDIAN (ring_view r) = ring_contents sz LITTLE_ENDIAN r"
proof -
  have "0 < unat sz" "length (rb_buff r) = unat sz" using assms by (auto simp: ring_ok_def unat_gt_0 word_greater_zero_iff)
  then have "map SWAP_8_BYTE (rb_buff r) ! (k mod unat sz) = SWAP_8_BYTE (rb_buff r ! (k mod unat sz))" for k by simp
  then show ?thesis by (simp add: ring_contents_def ring_view_def ring_ridx_def ring_widx_def be_word_def)
qed

definition offers :: "u64 \<Rightarrow> nat \<Rightarrow> u64 \<Rightarrow> u64 \<Rightarrow> u64 list \<Rightarrow> ring_buff \<Rightarrow> bool" where
  "offers sz block lo len bs r \<longleftrightarrow> ring_contents sz BIG_ENDIAN (ring_view r) = bs \<and> sorted_wrt (apart block) bs \<and>
     (\<forall>b \<in> set bs. unat lo \<le> unat b \<and> unat b + block \<le> unat lo + unat len)"

lemma simple_avail_filled:
  assumes "length bs \<le> 20480"
  shows "\<exists>r. avail_put (simple_package_ring_put LITTLE_ENDIAN) bs (ring_init FRC_DMA_SIMPLE_PACKAGE_RING_BUFF_SIZE) = Some (False, r) \<and>
    ring_contents FRC_DMA_SIMPLE_PACKAGE_RING_BUFF_SIZE BIG_ENDIAN (ring_view r) = bs"
proof -
  let ?sz = FRC_DMA_SIMPLE_PACKAGE_RING_BUFF_SIZE
  have sz: "0 < ?sz" "unat ?sz = 20480" by (simp_all add: c_consts)
  obtain r where "avail_put (simple_package_ring_put LITTLE_ENDIAN) bs (ring_init ?sz) = Some (False, r)" "ring_ok ?sz LITTLE_ENDIAN r"
      "ring_contents ?sz LITTLE_ENDIAN r = bs"
    using simple_ring.put_loop [of LITTLE_ENDIAN "ring_init ?sz" bs] ring_init_ok(1,2) [of ?sz LITTLE_ENDIAN] ring_init_ok(3) [of "length bs" LITTLE_ENDIAN ?sz]
      assms sz unfolding avail_put_def by auto
  then show ?thesis using ring_contents_view by auto
qed

lemma ssn_avail_filled:
  assumes "length bs \<le> 400896"
  shows "\<exists>r. avail_put (ssn_ring_put LITTLE_ENDIAN) bs (ring_init FRC_DMA_SSN_RING_BUFF_SIZE) = Some (False, r) \<and>
    ring_contents FRC_DMA_SSN_RING_BUFF_SIZE BIG_ENDIAN (ring_view r) = bs"
proof -
  let ?sz = FRC_DMA_SSN_RING_BUFF_SIZE
  have sz: "0 < ?sz" "unat ?sz = 400896" by (simp_all add: c_consts)
  obtain r where "avail_put (ssn_ring_put LITTLE_ENDIAN) bs (ring_init ?sz) = Some (False, r)" "ring_ok ?sz LITTLE_ENDIAN r"
      "ring_contents ?sz LITTLE_ENDIAN r = bs"
    using ssn_ring.put_loop [of LITTLE_ENDIAN "ring_init ?sz" bs] ring_init_ok(1,2) [of ?sz LITTLE_ENDIAN] ring_init_ok(3) [of "length bs" LITTLE_ENDIAN ?sz]
      assms sz unfolding avail_put_def by auto
  then show ?thesis using ring_contents_view by auto
qed

section \<open>Set-up\<close>

text \<open>C14. When the areas that the kernel grants do not overlap, setting up a simple-package channel with up to ten of them succeeds: the
  available ring, as the core reads it, holds the address of every block of every area once, no two blocks overlap, each lies within
  the range that the descriptor names, the completed ring is empty, and the descriptor holds the type and the address and size of
  the rings. With ten areas the ring is exactly full.\<close>

theorem simple_chan_ready:
  assumes "granted src (dm_req m) (p # as @ [ctrl])" "areas_ok as" "as \<noteq> []" "length as = unat num" "num \<le> FRC_DMA_SIMPLE_PACKAGE_POOL_NUM_MAX"
  shows "\<exists>chan' m' c. frcdrv_simple_package_chan_setup src chan type num m = Some (FRE_SUCCESS, chan', m') \<and>
    cd_type (sp_desc chan') = ucast type \<and> cd_ctrl_addr (sp_desc chan') = ctrl \<and> cd_ctrl_size (sp_desc chan') = sizeof_simple_ctrl \<and>
    sp_dma_ctrl chan' = Some (ctrl, c) \<and>
    offers FRC_DMA_SIMPLE_PACKAGE_RING_BUFF_SIZE FRC_DMA_SIMPLE_PACKAGE_BLOCK_SIZE (cd_pool_addr (sp_desc chan')) (cd_pool_size (sp_desc chan'))
      (blocks_of FRC_DMA_SIMPLE_PACKAGE_BLOCK_SIZE as) (available_ring c) \<and>
    length (blocks_of FRC_DMA_SIMPLE_PACKAGE_BLOCK_SIZE as) = 2048 * unat num \<and>
    ring_contents FRC_DMA_SIMPLE_PACKAGE_RING_BUFF_SIZE BIG_ENDIAN (ring_view (completed_ring c)) = []"
proof -
  let ?sz = FRC_DMA_SIMPLE_PACKAGE_RING_BUFF_SIZE and ?bs = "blocks_of FRC_DMA_SIMPLE_PACKAGE_BLOCK_SIZE as"
  have num: "unat num \<le> 10" "\<not> FRC_DMA_SIMPLE_PACKAGE_POOL_NUM_MAX < num" using assms(5) by (simp add: word_le_nat_alt c_consts, simp add: not_less)
  have g: "granted src (dm_req m) (p # as)" "src (dm_req m + Suc (length as)) = Some ctrl"
    using assms(1) granted_append [of src "dm_req m" "p # as" "[ctrl]"] by (simp_all add: granted_Cons)
  obtain pool lo hi where pool: "pool_init src (unat FRC_DMA_SIMPLE_PACKAGE_POOL_NUM_MAX) num m =
      Some (FRE_SUCCESS, Some (p, pool), Some (lo, hi - lo + FRC_DMA_POOL_SIZE), m\<lparr>dm_req := dm_req m + Suc (length as)\<rparr>)"
      "pool_num pool = num" "pool_addr pool = as @ replicate (10 - length as) 0"
      "lo \<in> set as" "hi \<in> set as" "\<forall>a \<in> set as. lo \<le> a \<and> a \<le> hi"
    using pool_init_granted [OF g(1) assms(4,3), of "unat FRC_DMA_SIMPLE_PACKAGE_POOL_NUM_MAX"] num(1) by (auto simp: c_consts)
  have len: "length ?bs = 2048 * unat num" using assms(4) by (simp add: length_blocks_of c_consts)
  obtain r where r: "avail_put (simple_package_ring_put LITTLE_ENDIAN) ?bs (ring_init ?sz) = Some (False, r)" "ring_contents ?sz BIG_ENDIAN (ring_view r) = ?bs"
    using simple_avail_filled [of ?bs] len num(1) by auto
  have addrs: "block_addrs FRC_DMA_SIMPLE_PACKAGE_BLOCK_SIZE pool = Some ?bs" using block_addrs_of [OF pool(3)] pool(2) assms(4) by simp
  have off: "offers ?sz FRC_DMA_SIMPLE_PACKAGE_BLOCK_SIZE lo (hi - lo + FRC_DMA_POOL_SIZE) ?bs r"
    unfolding offers_def using r(2) blocks_apart [OF assms(2)] blocks_inside [OF assms(2) pool(4-6)] by blast
  have sz: "0 < ?sz" by (simp add: c_consts)
  have empty: "ring_contents ?sz BIG_ENDIAN (ring_view (ring_init ?sz)) = []"
    using ring_contents_view [OF ring_init_ok(1) [OF sz]] ring_init_ok(2) by simp
  show ?thesis
    using num(2) g(2) addrs off len empty r(1) pool(1)
    by (simp add: frcdrv_simple_package_chan_setup_def frcdrv_simple_package_chan_pool_init_def frcdrv_simple_package_chan_dma_ctrl_init_def
        frcdrv_simple_package_chan_avail_init_def frcdrv_dma_pool_alloc_def FRE_SUCCESS_def)
qed

theorem simple_chan_ready_witness:
  "\<exists>chan' m' c. frcdrv_simple_package_chan_setup (\<lambda>k. Some (of_nat k * 4194304)) blank_chan 1 2 \<lparr>dm_req = 1, dm_freed = []\<rparr> = Some (FRE_SUCCESS, chan', m') \<and>
    sp_dma_ctrl chan' = Some (16777216, c) \<and>
    offers FRC_DMA_SIMPLE_PACKAGE_RING_BUFF_SIZE FRC_DMA_SIMPLE_PACKAGE_BLOCK_SIZE (cd_pool_addr (sp_desc chan')) (cd_pool_size (sp_desc chan'))
      (blocks_of FRC_DMA_SIMPLE_PACKAGE_BLOCK_SIZE [8388608, 12582912]) (available_ring c)"
proof -
  let ?src = "\<lambda>k. Some (of_nat k * 4194304) :: u64 option" and ?m = "\<lparr>dm_req = 1, dm_freed = []\<rparr>"
  have "granted ?src (dm_req ?m) (4194304 # [8388608, 12582912] @ [16777216])" by (simp add: granted_Cons)
  moreover have "areas_ok [8388608, 12582912]" by (simp add: areas_ok_def area_ok_def apart_def)
  ultimately show ?thesis
    using simple_chan_ready [of ?src ?m 4194304 "[8388608, 12582912]" 16777216 2 blank_chan 1] by (fastforce simp: FRC_DMA_SIMPLE_PACKAGE_POOL_NUM_MAX_def)
qed

text \<open>The session channel in the same way, with up to 783 areas.\<close>

lemma ssn_chan_ready:
  assumes "granted src (dm_req m) (p # as @ [avail, compl])" "areas_ok as" "as \<noteq> []" "length as = unat num" "num \<le> FRC_DMA_SSN_POOL_NUM_MAX"
  shows "\<exists>chan' m' r. frcdrv_ssn_chan_setup src chan type num m = Some (FRE_SUCCESS, chan', m') \<and>
    sd_type (sn_desc chan') = ucast type \<and> sd_avail_addr (sn_desc chan') = avail \<and> sd_compl_addr (sn_desc chan') = compl \<and>
    sn_available_ring chan' = Some (avail, r) \<and> sn_completed_ring chan' = Some (compl, ring_init FRC_DMA_SSN_RING_BUFF_SIZE) \<and>
    offers FRC_DMA_SSN_RING_BUFF_SIZE FRC_DMA_SSN_BLOCK_SIZE (sd_pool_addr (sn_desc chan')) (sd_pool_size (sn_desc chan')) (blocks_of FRC_DMA_SSN_BLOCK_SIZE as) r"
proof -
  let ?sz = FRC_DMA_SSN_RING_BUFF_SIZE and ?bs = "blocks_of FRC_DMA_SSN_BLOCK_SIZE as"
  have num: "unat num \<le> 783" "\<not> FRC_DMA_SSN_POOL_NUM_MAX < num" using assms(5) by (simp add: word_le_nat_alt c_consts, simp add: not_less)
  have g: "granted src (dm_req m) (p # as)" "src (dm_req m + Suc (length as)) = Some avail" "src (Suc (dm_req m + Suc (length as))) = Some compl"
    using assms(1) granted_append [of src "dm_req m" "p # as" "[avail, compl]"] by (simp_all add: granted_Cons)
  obtain pool lo hi where pool: "pool_init src (unat FRC_DMA_SSN_POOL_NUM_MAX) num m =
      Some (FRE_SUCCESS, Some (p, pool), Some (lo, hi - lo + FRC_DMA_POOL_SIZE), m\<lparr>dm_req := dm_req m + Suc (length as)\<rparr>)"
      "pool_num pool = num" "pool_addr pool = as @ replicate (783 - length as) 0"
      "lo \<in> set as" "hi \<in> set as" "\<forall>a \<in> set as. lo \<le> a \<and> a \<le> hi"
    using pool_init_granted [OF g(1) assms(4,3), of "unat FRC_DMA_SSN_POOL_NUM_MAX"] num(1) by (auto simp: c_consts)
  have "length ?bs = 512 * unat num" using assms(4) by (simp add: length_blocks_of c_consts)
  then obtain r where r: "avail_put (ssn_ring_put LITTLE_ENDIAN) ?bs (ring_init ?sz) = Some (False, r)" "ring_contents ?sz BIG_ENDIAN (ring_view r) = ?bs"
    using ssn_avail_filled [of ?bs] num(1) by auto
  have addrs: "block_addrs FRC_DMA_SSN_BLOCK_SIZE pool = Some ?bs" using block_addrs_of [OF pool(3)] pool(2) assms(4) by simp
  have off: "offers ?sz FRC_DMA_SSN_BLOCK_SIZE lo (hi - lo + FRC_DMA_POOL_SIZE) ?bs r"
    unfolding offers_def using r(2) blocks_apart [OF assms(2)] blocks_inside [OF assms(2) pool(4-6)] by blast
  show ?thesis
    using num(2) g(2,3) addrs off r(1) pool(1)
    by (simp add: frcdrv_ssn_chan_setup_def frcdrv_ssn_chan_pool_init_def frcdrv_ssn_chan_dma_ctrl_init_def Let_def
        frcdrv_ssn_chan_avail_init_def frcdrv_dma_pool_alloc_def FRE_SUCCESS_def)
qed

section \<open>Release\<close>

lemma free_pool_all:
  assumes "pool_addr pool = as @ rest" "length as = unat (pool_num pool)"
  shows "free_pool (Some (p, pool)) m = Some (m\<lparr>dm_freed := dm_freed m @ as @ [p]\<rparr>)"
proof -
  let ?f = "\<lambda>i m. do { a \<leftarrow> arr_get (pool_addr pool) i; Some (frcdrv_dma_pool_free a m) }"
  have "for_each [0..<k] ?f m = Some (m\<lparr>dm_freed := dm_freed m @ take k as\<rparr>)" if "k \<le> length as" for k
    using that
  proof (induction k)
    case (Suc k)
    then show ?case using assms
      by (simp add: for_each_append take_Suc_conv_app_nth frcdrv_dma_pool_free_def nth_append)
  qed simp
  then show ?thesis unfolding free_pool_def using assms(2) by (simp add: frcdrv_dma_pool_free_def)
qed

lemma for_ret_append:
  "for_ret (xs @ ys) f s = (case for_ret xs f s of Some (False, t) \<Rightarrow> for_ret ys f t | r \<Rightarrow> r)"
  by (induction xs arbitrary: s) (auto split: option.split bool.split)

text \<open>When an area is refused, the set-up fails and leaves zeros behind the areas it got; releasing the channel then gives back the
  address zero for each that is missing.\<close>

lemma refused_area_frees_zero:
  assumes "granted src (dm_req m) (p # as)" "src (dm_req m + Suc (length as)) = None" "length as < unat num" "num \<le> FRC_DMA_SIMPLE_PACKAGE_POOL_NUM_MAX"
  shows "\<exists>chan m'. frcdrv_simple_package_chan_setup src blank_chan type num m = Some (FRE_FAIL, chan, m') \<and> dm_freed m' = dm_freed m \<and>
    map_option (dm_freed \<circ> snd) (frcdrv_simple_package_chans_free chan m') = Some (dm_freed m @ as @ replicate (unat num - length as) 0 @ [p])"
proof -
  have num: "unat num \<le> 10" "\<not> FRC_DMA_SIMPLE_PACKAGE_POOL_NUM_MAX < num" using assms(4) by (simp add: word_le_nat_alt c_consts, simp add: not_less)
  let ?m1 = "m\<lparr>dm_req := Suc (dm_req m)\<rparr>" and ?blank = "\<lparr>pool_num = num, pool_addr = replicate 10 0\<rparr>"
  let ?pool = "\<lparr>pool_num = num, pool_addr = as @ replicate (10 - length as) 0\<rparr>" and ?m2 = "m\<lparr>dm_req := Suc (dm_req m + Suc (length as))\<rparr>"
  have up: "[0..<unat num] = [0..<length as] @ length as # [Suc (length as)..<unat num]"
    using assms(3) upt_add_eq_append [of 0 "length as" "unat num - length as"] upt_conv_Cons [of "length as" "unat num"] by simp
  have "granted src (dm_req ?m1) as" using assms(1) by (simp add: granted_Cons)
  from pool_fill_loop [OF this, of 0 ?blank]
  have "pool_fill src ?blank ?m1 = Some (True, ?pool, ?m2)"
    unfolding pool_fill_def using assms(2,3) num(1) by (simp add: up for_ret_append frcdrv_dma_pool_alloc_def)
  then have init: "pool_init src (unat FRC_DMA_SIMPLE_PACKAGE_POOL_NUM_MAX) num m = Some (FRE_MEMORY, Some (p, ?pool), None, ?m2)"
    using assms(1) by (simp add: pool_init_def frcdrv_dma_pool_alloc_def granted_Cons c_consts)
  have "as @ replicate (10 - length as) (0 :: u64) = (as @ replicate (unat num - length as) 0) @ replicate (10 - unat num) 0"
    using assms(3) num(1) by (simp flip: replicate_add)
  then have "free_pool (Some (p, ?pool)) ?m2 = Some (?m2\<lparr>dm_freed := dm_freed ?m2 @ (as @ replicate (unat num - length as) 0) @ [p]\<rparr>)"
    by (intro free_pool_all [where rest = "replicate (10 - unat num) 0"]) (use assms(3) in simp_all)
  then show ?thesis
    using num(2) init by (simp add: frcdrv_simple_package_chan_setup_def frcdrv_simple_package_chan_pool_init_def
        frcdrv_simple_package_chans_free_def blank_chan_def FRE_MEMORY_def)
qed

end
