(* ===== verification/ChanSetup.thy ===== *)
theory ChanSetup
  imports ApiTypes DrvChan
begin

text \<open>
  Opening the channels. The driver tells the core where its rings are, by the commands \<^verbatim>\<open>CTRL_CMD_SETUP_SIMPLE_PACKAGE_CHAN\<close> and
  \<^verbatim>\<open>CTRL_CMD_SETUP_SSN_CHAN\<close>; the handlers of \<^verbatim>\<open>frcore/frcore_chan.c\<close> read the counters of the rings by DMA and
  start one timer per fifo. Also the driver's start and stop, \<^verbatim>\<open>frcdrv/frcdrv_dev.c\<close>.

  Outside the sources: whether a transfer or a timer fails and what the host's memory holds, as the core sees it
  (\<open>chan_env\<close>).
\<close>

section \<open>The descriptors\<close>

definition chan_desc_words :: "frc_dma_chan_desc \<Rightarrow> struct_words" where
  "chan_desc_words d = [[be64 (cd_type d)], [be64 (cd_ctrl_addr d)], [be64 (cd_ctrl_size d)], [be64 (cd_pool_addr d)], [be64 (cd_pool_size d)]]"

definition core_chan_desc :: "u8 list \<Rightarrow> frc_dma_chan_desc option" where
  "core_chan_desc b = do {
     (type, b) \<leftarrow> UNPACK_U64 b; (ca, b) \<leftarrow> UNPACK_U64 b; (cs, b) \<leftarrow> UNPACK_U64 b; (pa, b) \<leftarrow> UNPACK_U64 b; (ps, b) \<leftarrow> UNPACK_U64 b;
     Some \<lparr>cd_type = type, cd_ctrl_addr = ca, cd_ctrl_size = cs, cd_pool_addr = pa, cd_pool_size = ps\<rparr>
   }"

definition ssn_desc_words :: "frc_dma_ssn_chan_desc \<Rightarrow> struct_words" where
  "ssn_desc_words d = [[be64 (sd_type d)], [be64 (sd_avail_addr d)], [be64 (sd_avail_size d)], [be64 (sd_compl_addr d)], [be64 (sd_compl_size d)],
     [be64 (sd_pool_addr d)], [be64 (sd_pool_size d)]]"

definition core_ssn_desc :: "u8 list \<Rightarrow> frc_dma_ssn_chan_desc option" where
  "core_ssn_desc b = do {
     (type, b) \<leftarrow> UNPACK_U64 b; (aa, b) \<leftarrow> UNPACK_U64 b; (as, b) \<leftarrow> UNPACK_U64 b; (ca, b) \<leftarrow> UNPACK_U64 b; (cs, b) \<leftarrow> UNPACK_U64 b;
     (pa, b) \<leftarrow> UNPACK_U64 b; (ps, b) \<leftarrow> UNPACK_U64 b;
     Some \<lparr>sd_type = type, sd_avail_addr = aa, sd_avail_size = as, sd_compl_addr = ca, sd_compl_size = cs, sd_pool_addr = pa, sd_pool_size = ps\<rparr>
   }"

section \<open>The core\<close>

definition CTRL_CMD_PORT_ENABLE :: u16 where [c_consts]: "CTRL_CMD_PORT_ENABLE = 3"
definition CTRL_CMD_SETUP_SIMPLE_PACKAGE_CHAN :: u16 where [c_consts]: "CTRL_CMD_SETUP_SIMPLE_PACKAGE_CHAN = 4"
definition CTRL_CMD_SETUP_SSN_CHAN :: u16 where [c_consts]: "CTRL_CMD_SETUP_SSN_CHAN = 5"
definition FRC_SIMPLE_PACKAGE_SIMPLE_CHAN_FIFO_NUM :: nat where [c_consts]: "FRC_SIMPLE_PACKAGE_SIMPLE_CHAN_FIFO_NUM = 10"
definition FRC_SIMPLE_PACKAGE_FIFO_NUM :: nat where [c_consts]: "FRC_SIMPLE_PACKAGE_FIFO_NUM = 20"
definition FRC_SSN_SIMPLE_CHAN_FIFO_NUM :: nat where [c_consts]: "FRC_SSN_SIMPLE_CHAN_FIFO_NUM = 10"
definition FRC_DMA_SIMPLE_CHAN_COMPL_OFFSET :: u64 where [c_consts]: "FRC_DMA_SIMPLE_CHAN_COMPL_OFFSET = 163856"

record chan_env =
  ce_dma_fails :: "nat \<Rightarrow> bool"
  ce_timer_ok :: "nat \<Rightarrow> bool"
  ce_host :: "u64 \<Rightarrow> u64"

record frcore_simple_chan =
  kc_type :: u64
  kc_ctrl_addr :: u64
  kc_idx :: simple_package_chan

text \<open>The arrays, \<open>None\<close> for a null pointer; of the fifos only their timer entries. \<open>ks_timers\<close> are the entries that were added.\<close>

record core_chans =
  frcore_simple_package_chans :: "frcore_simple_chan list option"
  frcore_simple_package_fifos :: "chan_wqe list option"
  frcore_ssn_chans :: "ssn_chan list option"
  frcore_ssn_fifos :: "chan_wqe list option"
  ks_dma :: nat
  ks_tim :: nat
  ks_timers :: "chan_wqe list"
  ks_dma_errors :: u64

text \<open>Filling in and adding the timer entries of the fifos behind \<open>base\<close>; \<open>True\<close> if a timer is refused.\<close>

definition fifo_timers :: "chan_env \<Rightarrow> nat \<Rightarrow> nat \<Rightarrow> (nat \<Rightarrow> nat) \<Rightarrow> u64 \<Rightarrow> chan_wqe list \<times> nat \<times> chan_wqe list \<Rightarrow>
    (bool \<times> chan_wqe list \<times> nat \<times> chan_wqe list) option" where
  "fifo_timers env base n grp type =
     for_ret [0..<n] (\<lambda>i (fifos, k, timers). do {
       let wqe = \<lparr>wqe_grp = of_nat (grp i), wqe_type = ucast type, wqe_fifo_id = of_nat i\<rparr>;
       fifos \<leftarrow> arr_set fifos (base + i) wqe;
       if ce_timer_ok env k then Some (False, fifos, Suc k, timers @ [wqe]) else Some (True, fifos, Suc k, timers)
     })"

definition frcore_cmd_setup_simple_package_chans :: "chan_env \<Rightarrow> core_chans handler" where
  "frcore_cmd_setup_simple_package_chans env plen param outbuf s = do {
     p \<leftarrow> param; desc \<leftarrow> core_chan_desc p;
     case frcore_simple_package_chans s of
       None \<Rightarrow> Some (FRE_INIT, 0, outbuf, s)
     | Some chans \<Rightarrow>
         if unat (cd_type desc) \<ge> FRC_DMA_SIMPLE_PACKAGE_CHAN_NUM then Some (FRE_EXCEED, 0, outbuf, s)
         else if cd_type desc \<noteq> of_nat FRC_WORK_UDP \<and> cd_type desc \<noteq> of_nat FRC_WORK_RULE then Some (FRE_PARAM, 0, outbuf, s)
         else do {
           let fails = ce_dma_fails env (ks_dma s);
           let s = s\<lparr>ks_dma := Suc (ks_dma s)\<rparr>;
           if fails then Some (FRE_DMA, 0, outbuf, s\<lparr>ks_dma_errors := ks_dma_errors s + 1\<rparr>)
           else do {
             let a = cd_ctrl_addr desc;
             let idx = \<lparr>avail_widx = ce_host env a, avail_ridx = ce_host env (a + 8),
               compl_widx = ce_host env (a + FRC_DMA_SIMPLE_CHAN_COMPL_OFFSET), compl_ridx = ce_host env (a + FRC_DMA_SIMPLE_CHAN_COMPL_OFFSET + 8)\<rparr>;
             chans \<leftarrow> arr_set chans (unat (cd_type desc)) \<lparr>kc_type = cd_type desc, kc_ctrl_addr = a, kc_idx = idx\<rparr>;
             fifos \<leftarrow> frcore_simple_package_fifos s;
             (refused, fifos, k, timers) \<leftarrow> fifo_timers env (unat (cd_type desc) * FRC_SIMPLE_PACKAGE_SIMPLE_CHAN_FIFO_NUM)
               FRC_SIMPLE_PACKAGE_SIMPLE_CHAN_FIFO_NUM (\<lambda>i. i + 1) (cd_type desc) (fifos, ks_tim s, ks_timers s);
             Some (if refused then FRE_FAIL else FRE_SUCCESS, 0, outbuf,
               s\<lparr>frcore_simple_package_chans := Some chans, frcore_simple_package_fifos := Some fifos, ks_tim := k, ks_timers := timers\<rparr>)
           }
         }
   }"

definition frcore_cmd_setup_ssn_chans :: "chan_env \<Rightarrow> core_chans handler" where
  "frcore_cmd_setup_ssn_chans env plen param outbuf s = do {
     p \<leftarrow> param; desc \<leftarrow> core_ssn_desc p;
     case frcore_ssn_chans s of
       None \<Rightarrow> Some (FRE_INIT, 0, outbuf, s)
     | Some chans \<Rightarrow>
         if unat (sd_type desc) > FRC_WORK_SSN then Some (FRE_EXCEED, 0, outbuf, s)
         else if sd_type desc \<noteq> of_nat FRC_WORK_SSN then Some (FRE_PARAM, 0, outbuf, s)
         else do {
           let fails = ce_dma_fails env (ks_dma s);
           let s = s\<lparr>ks_dma := Suc (ks_dma s)\<rparr>;
           if fails then Some (FRE_DMA, 0, outbuf, s\<lparr>ks_dma_errors := ks_dma_errors s + 1\<rparr>)
           else do {
             let k = unat (sd_type desc) - FRC_WORK_SSN;
             chan \<leftarrow> arr_get chans k;
             let a = sd_avail_addr desc; let c = sd_compl_addr desc;
             let chan = chan\<lparr>sc_type := sd_type desc, sc_avail_addr := a, sc_compl_addr := c,
               sc_avail_widx := ce_host env a, sc_avail_ridx := ce_host env (a + 8),
               sc_compl_widx := ce_host env c, sc_compl_ridx := ce_host env (c + 8)\<rparr>;
             fifos \<leftarrow> frcore_ssn_fifos s;
             (refused, fifos, t, timers) \<leftarrow> fifo_timers env (k * FRC_SSN_SIMPLE_CHAN_FIFO_NUM)
               FRC_SSN_FIFO_NUM (\<lambda>i. i mod FRC_DAT_CORE_NUM + 1) (sd_type desc) (fifos, ks_tim s, ks_timers s);
             Some (if refused then FRE_FAIL else FRE_SUCCESS, 0, outbuf,
               s\<lparr>frcore_ssn_chans := Some (chans[k := chan]), frcore_ssn_fifos := Some fifos, ks_tim := t, ks_timers := timers\<rparr>)
           }
         }
   }"

text \<open>The initialisation: the two allocations succeed or not. A command that cannot be registered ends it.\<close>

definition blank_wqe :: chan_wqe where
  "blank_wqe = \<lparr>wqe_grp = 0, wqe_type = 0, wqe_fifo_id = 0\<rparr>"

definition frcore_simple_package_chan_init :: "bool \<Rightarrow> bool \<Rightarrow> chan_env \<Rightarrow> core_chans core_cmds \<Rightarrow> (int \<times> core_chans core_cmds) option" where
  "frcore_simple_package_chan_init ok1 ok2 env c =
     (if \<not> ok1 then Some (FRE_MEMORY, c\<lparr>cc_state := (cc_state c)\<lparr>frcore_simple_package_chans := None\<rparr>\<rparr>)
      else
        let blank = \<lparr>kc_type = 0, kc_ctrl_addr = 0, kc_idx = \<lparr>avail_widx = 0, avail_ridx = 0, compl_widx = 0, compl_ridx = 0\<rparr>\<rparr>;
            c = c\<lparr>cc_state := (cc_state c)\<lparr>frcore_simple_package_chans :=
              Some [blank\<lparr>kc_type := of_nat FRC_WORK_UDP\<rparr>, blank\<lparr>kc_type := of_nat FRC_WORK_RULE\<rparr>]\<rparr>\<rparr>
        in if \<not> ok2 then Some (FRE_MEMORY, c\<lparr>cc_state := (cc_state c)\<lparr>frcore_simple_package_fifos := None\<rparr>\<rparr>)
        else do {
          let c = c\<lparr>cc_state := (cc_state c)\<lparr>frcore_simple_package_fifos := Some (replicate FRC_SIMPLE_PACKAGE_FIFO_NUM blank_wqe)\<rparr>\<rparr>;
          frcore_cmd_register (of_nat CMD_TYPE_CTRL) CTRL_CMD_SETUP_SIMPLE_PACKAGE_CHAN (frcore_cmd_setup_simple_package_chans env) c
        })"

definition frcore_ssn_chan_init :: "bool \<Rightarrow> bool \<Rightarrow> chan_env \<Rightarrow> core_chans core_cmds \<Rightarrow> (int \<times> core_chans core_cmds) option" where
  "frcore_ssn_chan_init ok1 ok2 env c =
     (if \<not> ok1 then Some (FRE_MEMORY, c\<lparr>cc_state := (cc_state c)\<lparr>frcore_ssn_chans := None\<rparr>\<rparr>)
      else
        let chan = \<lparr>sc_type = of_nat FRC_WORK_SSN, sc_avail_addr = 0, sc_compl_addr = 0, sc_avail_widx = 0, sc_avail_ridx = 0, sc_compl_widx = 0, sc_compl_ridx = 0,
              sc_avail_buff = replicate FRCORE_SSN_AVAIL_BUFF_GET_SIZE 0, sc_compl_buff = replicate FRCORE_SSN_AVAIL_BUFF_GET_SIZE 0\<rparr>;
            c = c\<lparr>cc_state := (cc_state c)\<lparr>frcore_ssn_chans := Some [chan]\<rparr>\<rparr>
        in if \<not> ok2 then Some (FRE_MEMORY, c\<lparr>cc_state := (cc_state c)\<lparr>frcore_ssn_fifos := None\<rparr>\<rparr>)
        else do {
          let c = c\<lparr>cc_state := (cc_state c)\<lparr>frcore_ssn_fifos := Some (replicate FRC_SSN_FIFO_NUM blank_wqe)\<rparr>\<rparr>;
          frcore_cmd_register (of_nat CMD_TYPE_CTRL) CTRL_CMD_SETUP_SSN_CHAN (frcore_cmd_setup_ssn_chans env) c
        })"

section \<open>The driver\<close>

text \<open>What a command of the driver meets: the vendor's byte swap, the outcome of its allocations, the responses, the address of its request.\<close>

record drv_env =
  de_swap :: swap
  de_send :: send_outcome
  de_arrive :: "u8 list \<Rightarrow> u8 list list list list"
  de_addr :: nat

definition frcore_set :: "drv_env \<Rightarrow> u16 \<Rightarrow> u16 \<Rightarrow> u8 list option \<Rightarrow> drv_cmds \<Rightarrow> (int \<times> drv_cmds) option" where
  "frcore_set e type cmd input d = do {
     ((rv, _), d) \<leftarrow> frcdrv_core_cmd (de_swap e) (de_send e) (de_arrive e) (de_addr e) type cmd
       (case input of Some b \<Rightarrow> of_nat (length b) | None \<Rightarrow> 0) input None d;
     Some (rv, d)
   }"

definition frcdrv_simple_package_chan_set_core :: "drv_env \<Rightarrow> frc_dma_simple_package_chan \<Rightarrow> drv_cmds \<Rightarrow> (int \<times> drv_cmds) option" where
  "frcdrv_simple_package_chan_set_core e chan d =
     frcore_set e (of_nat CMD_TYPE_CTRL) CTRL_CMD_SETUP_SIMPLE_PACKAGE_CHAN (Some (le_mem (chan_desc_words (sp_desc chan)))) d"

definition frcdrv_ssn_chan_set_core :: "drv_env \<Rightarrow> frc_dma_ssn_chan \<Rightarrow> drv_cmds \<Rightarrow> (int \<times> drv_cmds) option" where
  "frcdrv_ssn_chan_set_core e chan d =
     frcore_set e (of_nat CMD_TYPE_CTRL) CTRL_CMD_SETUP_SSN_CHAN (Some (le_mem (ssn_desc_words (sn_desc chan)))) d"

text \<open>\<^verbatim>\<open>frcdrv_udp_chan_start\<close> and \<^verbatim>\<open>frcdrv_rule_chan_start\<close>.\<close>

definition work_chan_start :: "nat \<Rightarrow> drv_env \<Rightarrow> chan_state \<Rightarrow> drv_cmds \<Rightarrow> (int \<times> drv_cmds) option" where
  "work_chan_start work e st d =
     (case frcdrv_simple_pakcage_chan_get work st of
        None \<Rightarrow> Some (FRE_FAIL, d)
      | Some chan \<Rightarrow> do {
          (rv, d) \<leftarrow> frcdrv_simple_package_chan_set_core e chan d;
          Some (if rv \<noteq> 0 then FRE_FAIL else FRE_SUCCESS, d)
        })"

definition frcdrv_udp_chan_start :: "drv_env \<Rightarrow> chan_state \<Rightarrow> drv_cmds \<Rightarrow> (int \<times> drv_cmds) option" where
  "frcdrv_udp_chan_start = work_chan_start FRC_WORK_UDP"

definition frcdrv_rule_chan_start :: "drv_env \<Rightarrow> chan_state \<Rightarrow> drv_cmds \<Rightarrow> (int \<times> drv_cmds) option" where
  "frcdrv_rule_chan_start = work_chan_start FRC_WORK_RULE"

definition frcdrv_ssn_start :: "drv_env \<Rightarrow> chan_state \<Rightarrow> drv_cmds \<Rightarrow> (int \<times> drv_cmds) option" where
  "frcdrv_ssn_start e st d = do {
     chan \<leftarrow> frcdrv_ssn_chan_get FRC_WORK_SSN st;
     case chan of
       None \<Rightarrow> Some (FRE_FAIL, d)
     | Some chan \<Rightarrow> do {
         (rv, d) \<leftarrow> frcdrv_ssn_chan_set_core e chan d;
         Some (if rv \<noteq> 0 then FRE_FAIL else FRE_SUCCESS, d)
       }
   }"

definition frcdrv_port_start :: "drv_env \<Rightarrow> drv_cmds \<Rightarrow> (int \<times> drv_cmds) option" where
  "frcdrv_port_start e d = frcore_set e (of_nat CMD_TYPE_CTRL) CTRL_CMD_PORT_ENABLE None d"

text \<open>The steps of \<^verbatim>\<open>frcdrv_start\<close>, in which each command meets an environment of its own; the first that fails ends it. The
  build's switches choose among the channels.\<close>

record chan_switches =
  FRC_CONFIG_SIMPLE_PACKAGE :: bool
  FRC_CONFIG_UDP :: bool
  FRC_CONFIG_RULE :: bool
  FRC_CONFIG_SSN_CHAN :: bool
  FRC_CONFIG_SSN :: bool

fun run_steps :: "('s \<Rightarrow> (int \<times> 's) option) list \<Rightarrow> 's \<Rightarrow> (int \<times> 's) option" where
  "run_steps [] s = Some (0, s)"
| "run_steps (f # fs) s = do { (rv, s) \<leftarrow> f s; if rv \<noteq> 0 then Some (1, s) else run_steps fs s }"

definition frcdrv_start :: "chan_switches \<Rightarrow> bool \<Rightarrow> (nat \<Rightarrow> drv_env) \<Rightarrow> chan_state \<Rightarrow> drv_cmds \<Rightarrow> (int \<times> drv_cmds) option" where
  "frcdrv_start sw registered e st =
     run_steps ([\<lambda>d. Some (frcdrv_cmd_init registered d)] @
       (if FRC_CONFIG_SIMPLE_PACKAGE sw \<and> FRC_CONFIG_UDP sw then [frcdrv_udp_chan_start (e 0) st] else []) @
       (if FRC_CONFIG_SIMPLE_PACKAGE sw \<and> FRC_CONFIG_RULE sw then [frcdrv_rule_chan_start (e 1) st] else []) @
       (if FRC_CONFIG_SSN_CHAN sw \<and> FRC_CONFIG_SSN sw then [frcdrv_ssn_start (e 2) st] else []) @
       [frcdrv_port_start (e 3)])"

text \<open>\<^verbatim>\<open>frcdrv_base_init_module\<close> after the device is registered, and \<^verbatim>\<open>frcdrv_base_exit_module\<close>. \<open>ok1\<close> and \<open>ok2\<close> are the allocations of
  the arrays of channels. A step that fails leaves what the earlier ones allocated.\<close>

definition frcdrv_base_init_module :: "chan_switches \<Rightarrow> int \<Rightarrow> bool \<Rightarrow> bool \<Rightarrow> pool_source \<Rightarrow> chan_state \<Rightarrow> (int \<times> chan_state) option" where
  "frcdrv_base_init_module sw major ok1 ok2 src st =
     (if major < 0 then Some (major, st)
      else run_steps (
        (if FRC_CONFIG_SIMPLE_PACKAGE sw then [\<lambda>st. Some (frcdrv_simple_package_chan_init ok1 st)] @
           (if FRC_CONFIG_UDP sw then [frcdrv_udp_chan_init src] else []) @
           (if FRC_CONFIG_RULE sw then [frcdrv_rule_chan_init src] else []) else []) @
        (if FRC_CONFIG_SSN_CHAN sw then [\<lambda>st. Some (frcdrv_ssn_chan_init ok2 st)] @
           (if FRC_CONFIG_SSN sw then [frcdrv_ssn_init src] else []) else [])) st)"

definition frcdrv_base_exit_module :: "chan_switches \<Rightarrow> chan_state \<Rightarrow> chan_state option" where
  "frcdrv_base_exit_module sw st = do {
     st \<leftarrow> (if FRC_CONFIG_SIMPLE_PACKAGE sw then frcdrv_simple_package_chan_destroy st else Some st);
     if FRC_CONFIG_SSN_CHAN sw then frcdrv_ssn_chan_destroy st else Some st
   }"

section \<open>A command answered by the core\<close>

text \<open>The core \<open>c\<close> gets the packet at once and its response arrives after \<open>k\<close> polls.\<close>

definition core_answer :: "'s core_cmds \<Rightarrow> nat \<Rightarrow> u8 list \<Rightarrow> u8 list list list list" where
  "core_answer c k pkt = (case frcore_process_frc_cmd True pkt c of
     Some (Some resp, _) \<Rightarrow> replicate k [] @ [[[resp]]]
   | _ \<Rightarrow> [])"

text \<open>The packet that carries the structure \<open>ws\<close>, and the argument that the handler gets.\<close>

lemma words_packet:
  assumes sw: "swaps_words swap" and ws: "words_ok ws" "length ws \<le> 8" and len: "cm_len hdr = of_nat (8 * length ws)"
  shows "\<exists>pkt. cmd_si_data swap hdr (Some (le_mem ws)) = Some pkt \<and> (ws \<noteq> [] \<longrightarrow> drop 8 pkt = be_mem ws)"
proof -
  have n: "unat (cm_len hdr) = 8 * length ws" using ws(2) unfolding len unat_of_nat by simp
  have mem: "length (le_mem ws) = 8 * length ws" by (rule length_le_mem [OF ws(1)])
  have h: "length (host_cmd hdr) = 8" by (simp add: host_cmd_def)
  then have hdr: "length (swap (host_cmd hdr) 1) = 8" using swap_one [OF sw, of "host_cmd hdr"] by simp
  have "swap (le_mem ws) (length ws) = be_mem ws" using swap_le_mem [OF sw ws(1)] mem by simp
  then show ?thesis using hdr n mem unfolding cmd_si_data_def Let_def by simp
qed

definition words_hdr :: "u16 \<Rightarrow> u16 \<Rightarrow> struct_words \<Rightarrow> drv_cmds \<Rightarrow> frcore_cmd" where
  "words_hdr type cmd ws d = \<lparr>cm_cmd = cmd, cm_type = type, cm_len = of_nat (8 * length ws), cm_seq = frcdrv_core_requset_seq d + 1\<rparr>"

text \<open>A command that is answered in time: the caller gets the result of the handler.\<close>

lemma command_run:
  fixes c :: "'s core_cmds"
  assumes sw: "swaps_words swap" and k: "k < FRCDRV_CORE_REQ_TIMEOUT" and fresh: "addr \<notin> fst ` set (frcdrv_core_req_head d)"
    and hdr: "hdr = \<lparr>cm_cmd = cmd, cm_type = type, cm_len = ilen, cm_seq = frcdrv_core_requset_seq d + 1\<rparr>" "unat ilen \<le> 64"
    and pkt: "cmd_si_data swap hdr input = Some pkt"
    and core: "frcore_cmd_respond_buf c" "call_handler (cut_cmd hdr) (if ilen \<noteq> 0 then Some (drop 8 pkt) else None) c = Some (ret, len, buf, st)" "length buf = 1024"
    and res: "\<And>s. result_of out \<lparr>rp_ret = of_int ret, rp_len = len, rp_seq = s, rp_data = buf\<rparr> = Some res"
  shows "\<exists>resp d'. frcore_process_frc_cmd True pkt c = Some (Some resp, c\<lparr>cc_state := st\<rparr>) \<and>
    frcdrv_core_cmd swap all_well (core_answer c k) addr type cmd ilen input out d = Some (res, d') \<and>
    map fst (frcdrv_core_req_head d') = map fst (frcdrv_core_req_head d)"
proof -
  let ?resp = "respond_bytes (cm_seq hdr) len ret buf"
  have p: "frcore_process_frc_cmd True pkt c = Some (Some ?resp, c\<lparr>cc_state := st\<rparr>)"
    using core unfolding process_handler [OF sw pkt] by (simp add: hdr(1))
  have a: "core_answer c k pkt = replicate k [] @ ([] @ [?resp] # []) # []" by (simp add: core_answer_def p)
  have "\<exists>d'. frcdrv_core_cmd swap all_well (core_answer c k) addr type cmd ilen input out d = Some (res, d') \<and>
    map fst (frcdrv_core_req_head d') = map fst (frcdrv_core_req_head d)"
    by (rule command_answered_in_time [of swap all_well ilen addr d hdr cmd type input pkt c ret len buf st
          "[?resp]" "c\<lparr>cc_state := st\<rparr>" "core_answer c k" "replicate k []" "[]" "[]" "[]" out res])
      (use sw fresh pkt core k hdr p a res in \<open>simp_all add: all_well_def FRCORE_CMD_INPUT_MAX_def\<close>)
  with p show ?thesis by blast
qed

text \<open>The same for a structure of up to eight words; the handler gets it as the core sees it.\<close>

lemma command_served:
  fixes c :: "'s core_cmds"
  assumes sw: "swaps_words swap" and k: "k < FRCDRV_CORE_REQ_TIMEOUT" and fresh: "addr \<notin> fst ` set (frcdrv_core_req_head d)"
    and ws: "words_ok ws" "ws \<noteq> []" "length ws \<le> 8"
    and core: "frcore_cmd_respond_buf c" "call_handler (cut_cmd (words_hdr type cmd ws d)) (Some (be_mem ws)) c = Some (ret, len, buf, st)" "length buf = 1024"
    and res: "\<And>s. result_of out \<lparr>rp_ret = of_int ret, rp_len = len, rp_seq = s, rp_data = buf\<rparr> = Some res"
  shows "\<exists>pkt resp d'. cmd_si_data swap (words_hdr type cmd ws d) (Some (le_mem ws)) = Some pkt \<and> frcore_process_frc_cmd True pkt c = Some (Some resp, c\<lparr>cc_state := st\<rparr>) \<and>
    frcdrv_core_cmd swap all_well (core_answer c k) addr type cmd (of_nat (8 * length ws)) (Some (le_mem ws)) out d = Some (res, d') \<and>
    map fst (frcdrv_core_req_head d') = map fst (frcdrv_core_req_head d)"
proof -
  have len16: "unat (of_nat (8 * length ws) :: u16) = 8 * length ws" using ws(3) unfolding unat_of_nat by simp
  then have nz: "(of_nat (8 * length ws) :: u16) \<noteq> 0" using ws(2) by (metis length_0_conv mult_is_0 unat_0 zero_neq_numeral)
  obtain pkt where pkt: "cmd_si_data swap (words_hdr type cmd ws d) (Some (le_mem ws)) = Some pkt" "drop 8 pkt = be_mem ws"
    using words_packet [OF sw ws(1,3), of "words_hdr type cmd ws d"] ws(2) by (auto simp: words_hdr_def)
  have small: "unat (of_nat (8 * length ws) :: u16) \<le> 64" using len16 ws(3) by simp
  have "call_handler (cut_cmd (words_hdr type cmd ws d)) (if (of_nat (8 * length ws) :: u16) \<noteq> 0 then Some (drop 8 pkt) else None) c = Some (ret, len, buf, st)"
    using core(2) nz pkt(2) by simp
  from command_run [OF sw k fresh words_hdr_def small pkt(1) core(1) this core(3) res] pkt(1) show ?thesis by blast
qed

section \<open>Opening a channel\<close>

definition timer_entry :: "(nat \<Rightarrow> nat) \<Rightarrow> u64 \<Rightarrow> nat \<Rightarrow> chan_wqe" where
  "timer_entry grp type i = \<lparr>wqe_grp = of_nat (grp i), wqe_type = ucast type, wqe_fifo_id = of_nat i\<rparr>"

lemma fifo_timers_all:
  assumes "\<forall>k. ce_timer_ok env k" "base + n \<le> length fifos"
  shows "\<exists>fifos'. fifo_timers env base n grp type (fifos, k, timers) = Some (False, fifos', k + n, timers @ map (timer_entry grp type) [0..<n]) \<and>
    length fifos' = length fifos"
  using assms(2)
proof (induction n)
  case (Suc n)
  then obtain fifos' where "fifo_timers env base n grp type (fifos, k, timers) = Some (False, fifos', k + n, timers @ map (timer_entry grp type) [0..<n])"
    "length fifos' = length fifos"
    by auto
  then show ?case using Suc.prems assms(1)
    by (auto simp: fifo_timers_def for_ret_append arr_set_def Let_def timer_entry_def [abs_def])
qed (simp add: fifo_timers_def)

text \<open>The host's memory as the core sees it: the counters of the two rings behind the address \<open>a\<close>.\<close>

definition shows_rings :: "chan_env \<Rightarrow> u64 \<Rightarrow> frc_dma_simple_package_chan_ctrl \<Rightarrow> bool" where
  "shows_rings env a ctrl \<longleftrightarrow>
     ce_host env a = rb_widx (ring_view (available_ring ctrl)) \<and> ce_host env (a + 8) = rb_ridx (ring_view (available_ring ctrl)) \<and>
     ce_host env (a + FRC_DMA_SIMPLE_CHAN_COMPL_OFFSET) = rb_widx (ring_view (completed_ring ctrl)) \<and>
     ce_host env (a + FRC_DMA_SIMPLE_CHAN_COMPL_OFFSET + 8) = rb_ridx (ring_view (completed_ring ctrl))"

definition counters_of :: "frc_dma_simple_package_chan_ctrl \<Rightarrow> simple_package_chan" where
  "counters_of ctrl = \<lparr>avail_widx = ring_widx BIG_ENDIAN (ring_view (available_ring ctrl)), avail_ridx = ring_ridx BIG_ENDIAN (ring_view (available_ring ctrl)),
     compl_widx = ring_widx BIG_ENDIAN (ring_view (completed_ring ctrl)), compl_ridx = ring_ridx BIG_ENDIAN (ring_view (completed_ring ctrl))\<rparr>"

lemma desc_read: "core_chan_desc (be_mem (chan_desc_words d)) = Some d" "words_ok (chan_desc_words d)"
  "core_ssn_desc (be_mem (ssn_desc_words e)) = Some e" "words_ok (ssn_desc_words e)"
  by (simp_all add: chan_desc_words_def core_chan_desc_def ssn_desc_words_def core_ssn_desc_def be_mem_def words_ok_def be64_def
      unpack_be64 [unfolded be64_def append_assoc] unpack_pack_nil(4) [unfolded be64_def])

lemma setup_simple:
  assumes env: "\<forall>k. \<not> ce_dma_fails env k" "\<forall>k. ce_timer_ok env k" "shows_rings env (cd_ctrl_addr dsc) ctrl"
    and type: "cd_type dsc = of_nat work" "work < 2"
    and s: "frcore_simple_package_chans s = Some chans" "length chans = 2" "frcore_simple_package_fifos s = Some fifos" "length fifos = 20"
  shows "\<exists>s'. frcore_cmd_setup_simple_package_chans env plen (Some (be_mem (chan_desc_words dsc))) buf s = Some (FRE_SUCCESS, 0, buf, s') \<and>
    frcore_simple_package_chans s' = Some (chans[work := \<lparr>kc_type = of_nat work, kc_ctrl_addr = cd_ctrl_addr dsc, kc_idx = counters_of ctrl\<rparr>]) \<and>
    ks_timers s' = ks_timers s @ map (timer_entry Suc (of_nat work)) [0..<10]"
proof -
  have u: "unat (of_nat work :: u64) = work" using type(2) unfolding unat_of_nat by simp
  obtain fifos' where "fifo_timers env (work * 10) 10 (\<lambda>i. i + 1) (of_nat work) (fifos, ks_tim s, ks_timers s) =
      Some (False, fifos', ks_tim s + 10, ks_timers s @ map (timer_entry (\<lambda>i. i + 1) (of_nat work)) [0..<10])"
    using fifo_timers_all [OF env(2), of "work * 10" 10 fifos "\<lambda>i. i + 1" "of_nat work" "ks_tim s" "ks_timers s"] type(2) s(4) by auto
  moreover have "(of_nat work :: u64) = 0 \<or> (of_nat work :: u64) = 1" using type(2) by (cases work) auto
  ultimately show ?thesis
    using env(1,3) s u type(2)
    by (simp add: frcore_cmd_setup_simple_package_chans_def desc_read type(1) Let_def arr_set_def shows_rings_def counters_of_def ring_widx_def ring_ridx_def
        be_word_def FRC_DMA_SIMPLE_PACKAGE_CHAN_NUM_def FRC_WORK_UDP_def FRC_WORK_RULE_def FRC_SIMPLE_PACKAGE_SIMPLE_CHAN_FIFO_NUM_def)
qed

lemma simple_init:
  assumes ok: "cmds_ok c0" and init: "frcore_simple_package_chan_init True True env c0 = Some (FRE_SUCCESS, c)"
  shows "cmds_ok c" "handlers c (CMD_TYPE_CTRL, 4) = Some (frcore_cmd_setup_simple_package_chans env)"
    "\<exists>chans. frcore_simple_package_chans (cc_state c) = Some chans \<and> length chans = 2"
    "\<exists>fifos. frcore_simple_package_fifos (cc_state c) = Some fifos \<and> length fifos = 20" "ks_timers (cc_state c) = ks_timers (cc_state c0)"
proof -
  obtain chans :: "frcore_simple_chan list" and fifos :: "chan_wqe list" where n: "length chans = 2" "length fifos = 20"
    and reg: "frcore_cmd_register (of_nat CMD_TYPE_CTRL) 4 (frcore_cmd_setup_simple_package_chans env)
      (c0\<lparr>cc_state := (cc_state c0)\<lparr>frcore_simple_package_chans := Some chans, frcore_simple_package_fifos := Some fifos\<rparr>\<rparr>) = Some (FRE_SUCCESS, c)"
    using init that [of "[_, _]" "replicate FRC_SIMPLE_PACKAGE_FIFO_NUM blank_wqe"]
    by (simp add: frcore_simple_package_chan_init_def Let_def CTRL_CMD_SETUP_SIMPLE_PACKAGE_CHAN_def FRC_SIMPLE_PACKAGE_FIFO_NUM_def)
  let ?c1 = "c0\<lparr>cc_state := (cc_state c0)\<lparr>frcore_simple_package_chans := Some chans, frcore_simple_package_fifos := Some fifos\<rparr>\<rparr>"
  have "cmds_ok ?c1" using ok by (simp add: cmds_ok_def)
  then obtain rv c' where "frcore_cmd_register (of_nat CMD_TYPE_CTRL) 4 (frcore_cmd_setup_simple_package_chans env) ?c1 = Some (rv, c')" "cmds_ok c'" "cc_state c' = cc_state ?c1"
    "rv = FRE_SUCCESS \<longrightarrow> handlers c' (CMD_TYPE_CTRL, 4) = Some (frcore_cmd_setup_simple_package_chans env)"
    using register_outcome [of ?c1 "of_nat CMD_TYPE_CTRL" 4 "frcore_cmd_setup_simple_package_chans env"]
    by (auto simp: c_consts split: if_splits)
  then show "cmds_ok c" "handlers c (CMD_TYPE_CTRL, 4) = Some (frcore_cmd_setup_simple_package_chans env)"
    "\<exists>chans. frcore_simple_package_chans (cc_state c) = Some chans \<and> length chans = 2"
    "\<exists>fifos. frcore_simple_package_fifos (cc_state c) = Some fifos \<and> length fifos = 20" "ks_timers (cc_state c) = ks_timers (cc_state c0)"
    using reg n by simp_all
qed


text \<open>An example: three blocks in the available ring of the rule channel, at address 4096.\<close>

definition three_blocks :: frc_dma_simple_package_chan_ctrl where
  "three_blocks = \<lparr>available_ring = \<lparr>rb_widx = SWAP_8_BYTE 3, rb_ridx = 0, rb_buff = []\<rparr>, completed_ring = \<lparr>rb_widx = 0, rb_ridx = 0, rb_buff = []\<rparr>\<rparr>"

definition three_env :: chan_env where
  "three_env = \<lparr>ce_dma_fails = \<lambda>_. False, ce_timer_ok = \<lambda>_. True, ce_host = \<lambda>a. if a = 4096 then 3 else 0\<rparr>"

definition three_chan :: frc_dma_simple_package_chan where
  "three_chan = blank_chan\<lparr>sp_desc := (sp_desc blank_chan)\<lparr>cd_type := 1, cd_ctrl_addr := 4096\<rparr>, sp_dma_ctrl := Some (4096, three_blocks)\<rparr>"

definition three_state :: chan_state where
  "three_state = \<lparr>frcdrv_dma_simple_package_chans = Some [blank_chan, three_chan], frcdrv_dma_ssn_chans = None, cs_mem = \<lparr>dm_req = 0, dm_freed = []\<rparr>\<rparr>"

definition no_chans :: core_chans where
  "no_chans = \<lparr>frcore_simple_package_chans = None, frcore_simple_package_fifos = None, frcore_ssn_chans = None, frcore_ssn_fifos = None,
     ks_dma = 0, ks_tim = 0, ks_timers = [], ks_dma_errors = 0\<rparr>"

definition fresh_core :: "core_chans core_cmds" where
  "fresh_core = snd (frcore_cmd_init (\<lambda>_. True) (replicate 5 \<lparr>cs_max = 0, cs_num = 0, cs_vector = []\<rparr>) no_chans)"

lemma fresh_core_ok: "cmds_ok fresh_core" "handlers fresh_core = Map.empty" "cc_state fresh_core = no_chans"
  using init_ok [of "replicate 5 \<lparr>cs_max = 0, cs_num = 0, cs_vector = []\<rparr>" "\<lambda>_. True" no_chans] by (auto simp: fresh_core_def)

lemma three_rings: "shows_rings three_env 4096 three_blocks" "avail_widx (counters_of three_blocks) = 3"
  by (simp_all add: shows_rings_def three_env_def three_blocks_def ring_view_def counters_of_def ring_widx_def be_word_def SWAP_8_BYTE_def [of 0] FRC_DMA_SIMPLE_CHAN_COMPL_OFFSET_def)

lemma three_init: "\<exists>c. frcore_simple_package_chan_init True True three_env fresh_core = Some (FRE_SUCCESS, c)"
proof -
  have "\<exists>c'. frcore_cmd_register (of_nat CMD_TYPE_CTRL) 4 fn (fresh_core\<lparr>cc_state := s\<rparr>) = Some (FRE_SUCCESS, c')" for fn s
    using register_outcome [of "fresh_core\<lparr>cc_state := s\<rparr>" "of_nat CMD_TYPE_CTRL" 4 fn] fresh_core_ok
    by (auto simp: cmds_ok_def handlers_def fun_eq_iff cmd_limit_def c_consts split: if_splits)
  then show ?thesis by (simp add: frcore_simple_package_chan_init_def Let_def CTRL_CMD_SETUP_SIMPLE_PACKAGE_CHAN_def)
qed


end
