(* ===== verification/HostApi.thy ===== *)
theory HostApi
  imports ChanSetup
begin

text \<open>
  The host's library, \<^verbatim>\<open>frcapi/frc_api.c\<close>, and the driver's ioctl interface, \<^verbatim>\<open>frcdrv/frcdrv_dev.c\<close>. A call of the library fills in
  a \<^verbatim>\<open>frc_ioctl_t\<close>, opens the device, and hands it to the driver, which answers it or sends a command to the core.

  A buffer is a list of bytes, \<open>None\<close> for a null pointer; writing behind its end is a fault. Structures are in the byte order of
  the host (\<open>ApiTypes\<close>). Outside the sources (\<open>api_env\<close>): the driver's environment, which devices there are, whether the device file opens, and
  the value of an uninitialised variable.
\<close>

section \<open>Commands\<close>

definition FRE_IOCTL :: int where [c_consts]: "FRE_IOCTL = 9"
definition FRE_OPEN :: int where [c_consts]: "FRE_OPEN = 10"
definition ENOTTY :: int where [c_consts]: "ENOTTY = 25"
definition DRV_CMD_GET_VERSION :: u16 where [c_consts]: "DRV_CMD_GET_VERSION = 1"
definition DRV_CMD_GET_FEATURE :: u16 where [c_consts]: "DRV_CMD_GET_FEATURE = 6"
definition DRV_CMD_GET_POOL_AND_RING_ADDR :: u16 where [c_consts]: "DRV_CMD_GET_POOL_AND_RING_ADDR = 7"
definition TEST_CMD_SIMPLE_PACKET_CHAN :: u16 where [c_consts]: "TEST_CMD_SIMPLE_PACKET_CHAN = 5"

text \<open>The numbers of the commands, \<^verbatim>\<open>frcore_user_cmd_e\<close>.\<close>

definition USER_CMD_GET_BDD_STATUS :: u16 where [c_consts]: "USER_CMD_GET_BDD_STATUS = 1"
definition USER_CMD_BDD_PORT_ENABLE :: u16 where [c_consts]: "USER_CMD_BDD_PORT_ENABLE = 3"
definition USER_CMD_CONFIG_LOG_SW :: u16 where [c_consts]: "USER_CMD_CONFIG_LOG_SW = 4"
definition USER_CMD_GET_BDD_INFO :: u16 where [c_consts]: "USER_CMD_GET_BDD_INFO = 5"
definition USER_CMD_GET_STAT :: u16 where [c_consts]: "USER_CMD_GET_STAT = 6"
definition USER_CMD_CLEAR_STAT :: u16 where [c_consts]: "USER_CMD_CLEAR_STAT = 7"
definition USER_CMD_GET_PHY :: u16 where [c_consts]: "USER_CMD_GET_PHY = 12"
definition USER_CMD_SET_PHY :: u16 where [c_consts]: "USER_CMD_SET_PHY = 13"
definition USER_CMD_SET_CPLD :: u16 where [c_consts]: "USER_CMD_SET_CPLD = 14"
definition USER_CMD_GET_CPLD :: u16 where [c_consts]: "USER_CMD_GET_CPLD = 15"
definition USER_CMD_SET_LOOPBACK_MODE :: u16 where [c_consts]: "USER_CMD_SET_LOOPBACK_MODE = 17"
definition USER_CMD_SET_WORK_MODE :: u16 where [c_consts]: "USER_CMD_SET_WORK_MODE = 18"
definition USER_CMD_FORCE_LINK :: u16 where [c_consts]: "USER_CMD_FORCE_LINK = 19"
definition USER_CMD_GET_SYSINFO :: u16 where [c_consts]: "USER_CMD_GET_SYSINFO = 20"
definition USER_CMD_SET_AGE_TIME :: u16 where [c_consts]: "USER_CMD_SET_AGE_TIME = 21"
definition USER_CMD_POWEROFF :: u16 where [c_consts]: "USER_CMD_POWEROFF = 22"
definition USER_CMD_SET_DISORDER_DEPTH :: u16 where [c_consts]: "USER_CMD_SET_DISORDER_DEPTH = 24"
definition USER_CMD_GET_FR_STATUS :: u16 where [c_consts]: "USER_CMD_GET_FR_STATUS = 25"
definition USER_CMD_FR_ENABLE :: u16 where [c_consts]: "USER_CMD_FR_ENABLE = 26"
definition USER_CMD_SSN_GET_FIVETUPLE :: u16 where [c_consts]: "USER_CMD_SSN_GET_FIVETUPLE = 27"
definition USER_CMD_SSN_BUCKET_GET :: u16 where [c_consts]: "USER_CMD_SSN_BUCKET_GET = 28"
definition USER_CMD_SSN_MATCH :: u16 where [c_consts]: "USER_CMD_SSN_MATCH = 29"
definition USER_CMD_GET_RULE_STATUS :: u16 where [c_consts]: "USER_CMD_GET_RULE_STATUS = 30"
definition USER_CMD_RULE_ENABLE :: u16 where [c_consts]: "USER_CMD_RULE_ENABLE = 31"
definition USER_CMD_ADD_RULE :: u16 where [c_consts]: "USER_CMD_ADD_RULE = 32"
definition USER_CMD_CLEAN_ALL_RULE :: u16 where [c_consts]: "USER_CMD_CLEAN_ALL_RULE = 33"
definition USER_CMD_DEL_RULE :: u16 where [c_consts]: "USER_CMD_DEL_RULE = 36"
definition USER_CMD_GET_RULE :: u16 where [c_consts]: "USER_CMD_GET_RULE = 37"
definition USER_CMD_CLEAN_RULE_STAT :: u16 where [c_consts]: "USER_CMD_CLEAN_RULE_STAT = 38"
definition USER_CMD_UPDATE_RULE :: u16 where [c_consts]: "USER_CMD_UPDATE_RULE = 39"
definition USER_CMD_GET_RULE_NUM :: u16 where [c_consts]: "USER_CMD_GET_RULE_NUM = 40"
definition USER_CMD_GET_ACL_STATUS :: u16 where [c_consts]: "USER_CMD_GET_ACL_STATUS = 41"
definition USER_CMD_ACL_ENABLE :: u16 where [c_consts]: "USER_CMD_ACL_ENABLE = 42"
definition USER_CMD_ADD_ACL :: u16 where [c_consts]: "USER_CMD_ADD_ACL = 43"
definition USER_CMD_CLEAN_ALL_ACL :: u16 where [c_consts]: "USER_CMD_CLEAN_ALL_ACL = 44"
definition USER_CMD_DEL_ACL :: u16 where [c_consts]: "USER_CMD_DEL_ACL = 47"
definition USER_CMD_GET_ACL :: u16 where [c_consts]: "USER_CMD_GET_ACL = 48"
definition USER_CMD_CLEAN_ACL_STAT :: u16 where [c_consts]: "USER_CMD_CLEAN_ACL_STAT = 49"
definition USER_CMD_GET_ACL_NUM :: u16 where [c_consts]: "USER_CMD_GET_ACL_NUM = 50"
definition USER_CMD_GET_ACL_HASH_TABLE :: u16 where [c_consts]: "USER_CMD_GET_ACL_HASH_TABLE = 51"

record cmd_switches =
  cf_two_tuple :: bool
  cf_udp :: bool
  cf_vlan_check :: bool
  cf_vlan_iv :: bool
  cf_timestamp :: bool
  cf_mac_stat :: bool
  cf_ipc :: bool

text \<open>The first command behind each group that the build's switches may leave out.\<close>

definition dma_cmds :: "cmd_switches \<Rightarrow> u16" where "dma_cmds cf = 41 + (if cf_two_tuple cf then 11 else 0)"
definition udp_cmds :: "cmd_switches \<Rightarrow> u16" where "udp_cmds cf = dma_cmds cf + 2"
definition vlan_cmds :: "cmd_switches \<Rightarrow> u16" where "vlan_cmds cf = udp_cmds cf + (if cf_udp cf then 2 else 0)"
definition iv_cmds :: "cmd_switches \<Rightarrow> u16" where "iv_cmds cf = vlan_cmds cf + (if cf_vlan_check cf then 4 else 0)"
definition timestamp_cmds :: "cmd_switches \<Rightarrow> u16" where "timestamp_cmds cf = iv_cmds cf + (if cf_vlan_iv cf then 2 else 0)"
definition mac_cmds :: "cmd_switches \<Rightarrow> u16" where "mac_cmds cf = timestamp_cmds cf + (if cf_timestamp cf then 2 else 0)"
definition ipc_cmds :: "cmd_switches \<Rightarrow> u16" where "ipc_cmds cf = mac_cmds cf + (if cf_mac_stat cf then 10 else 0)"
definition user_cmd_max :: "cmd_switches \<Rightarrow> u16" where "user_cmd_max cf = ipc_cmds cf + (if cf_ipc cf then 9 else 0)"

definition shipped_switches :: cmd_switches where
  "shipped_switches = \<lparr>cf_two_tuple = False, cf_udp = False, cf_vlan_check = True, cf_vlan_iv = True, cf_timestamp = False, cf_mac_stat = False, cf_ipc = True\<rparr>"

lemmas cmd_bases = dma_cmds_def udp_cmds_def vlan_cmds_def iv_cmds_def timestamp_cmds_def mac_cmds_def ipc_cmds_def user_cmd_max_def

lemma shipped_max: "unat (user_cmd_max shipped_switches) = USER_CMD_MAX"
  by (simp add: cmd_bases shipped_switches_def USER_CMD_MAX_def)

definition USER_CMD_SET_DMA_BLOCK_SIZE :: "cmd_switches \<Rightarrow> u16" where "USER_CMD_SET_DMA_BLOCK_SIZE cf = dma_cmds cf"
definition USER_CMD_READ_DMA :: "cmd_switches \<Rightarrow> u16" where "USER_CMD_READ_DMA cf = dma_cmds cf + 1"
definition USER_CMD_GET_UDP_STATUS :: "cmd_switches \<Rightarrow> u16" where "USER_CMD_GET_UDP_STATUS cf = udp_cmds cf"
definition USER_CMD_UDP_ENABLE :: "cmd_switches \<Rightarrow> u16" where "USER_CMD_UDP_ENABLE cf = udp_cmds cf + 1"
definition USER_CMD_SET_VLAN_CHECK_PARAMETER :: "cmd_switches \<Rightarrow> u16" where "USER_CMD_SET_VLAN_CHECK_PARAMETER cf = vlan_cmds cf"
definition USER_CMD_GET_VLAN_CHECK_PARAMETER :: "cmd_switches \<Rightarrow> u16" where "USER_CMD_GET_VLAN_CHECK_PARAMETER cf = vlan_cmds cf + 1"
definition USER_CMD_GET_VLAN_CHECK_STAT :: "cmd_switches \<Rightarrow> u16" where "USER_CMD_GET_VLAN_CHECK_STAT cf = vlan_cmds cf + 2"
definition USER_CMD_CLEAR_VLAN_CHECK_STAT :: "cmd_switches \<Rightarrow> u16" where "USER_CMD_CLEAR_VLAN_CHECK_STAT cf = vlan_cmds cf + 3"
definition USER_CMD_VLAN_V4_HASH_MASK_SET :: "cmd_switches \<Rightarrow> u16" where "USER_CMD_VLAN_V4_HASH_MASK_SET cf = iv_cmds cf"
definition USER_CMD_VLAN_V6_HASH_MASK_SET :: "cmd_switches \<Rightarrow> u16" where "USER_CMD_VLAN_V6_HASH_MASK_SET cf = iv_cmds cf + 1"
definition USER_CMD_GET_TIMESTAMP_CHECK_STAT :: "cmd_switches \<Rightarrow> u16" where "USER_CMD_GET_TIMESTAMP_CHECK_STAT cf = timestamp_cmds cf"
definition USER_CMD_CLEAR_TIMESTAMP_CHECK_STAT :: "cmd_switches \<Rightarrow> u16" where "USER_CMD_CLEAR_TIMESTAMP_CHECK_STAT cf = timestamp_cmds cf + 1"
definition USER_CMD_IPC_CUR_GET :: "cmd_switches \<Rightarrow> u16" where "USER_CMD_IPC_CUR_GET cf = ipc_cmds cf"
definition USER_CMD_IPC_CUR_SET :: "cmd_switches \<Rightarrow> u16" where "USER_CMD_IPC_CUR_SET cf = ipc_cmds cf + 1"
definition USER_CMD_IPC_MISC_GET :: "cmd_switches \<Rightarrow> u16" where "USER_CMD_IPC_MISC_GET cf = ipc_cmds cf + 2"
definition USER_CMD_IPC_MISC_SET :: "cmd_switches \<Rightarrow> u16" where "USER_CMD_IPC_MISC_SET cf = ipc_cmds cf + 3"
definition USER_CMD_IPC_EXP_GET :: "cmd_switches \<Rightarrow> u16" where "USER_CMD_IPC_EXP_GET cf = ipc_cmds cf + 4"
definition USER_CMD_IPC_EXP_SET :: "cmd_switches \<Rightarrow> u16" where "USER_CMD_IPC_EXP_SET cf = ipc_cmds cf + 5"
definition USER_CMD_IPC_INSTR_GET :: "cmd_switches \<Rightarrow> u16" where "USER_CMD_IPC_INSTR_GET cf = ipc_cmds cf + 6"
definition USER_CMD_IPC_INSTR_SET :: "cmd_switches \<Rightarrow> u16" where "USER_CMD_IPC_INSTR_SET cf = ipc_cmds cf + 7"
definition USER_CMD_IPC_INSTR_PAYLOAD_SET :: "cmd_switches \<Rightarrow> u16" where "USER_CMD_IPC_INSTR_PAYLOAD_SET cf = ipc_cmds cf + 8"

section \<open>The driver\<close>

record frc_ioctl =
  io_did :: u32
  io_rv :: u32
  io_type :: u16
  io_cmd :: u16
  io_ilen :: u16
  io_olen :: u16
  io_input :: "u8 list option"
  io_output :: "u8 list option"

record host =
  ho_drv :: drv_cmds
  ho_chans :: chan_state
  ho_version :: "u8 list"

record api_env =
  ae_drv :: drv_env
  ae_device :: "u32 \<Rightarrow> bool"
  ae_open :: bool
  ae_rv :: int
  ae_cf :: cmd_switches

text \<open>Copying \<open>data\<close> to the output buffer and setting \<^verbatim>\<open>olen\<close>.\<close>

definition put_output :: "u8 list \<Rightarrow> frc_ioctl \<Rightarrow> frc_ioctl option" where
  "put_output data arg = do {
     b \<leftarrow> io_output arg;
     if length data \<le> length b then Some (arg\<lparr>io_output := Some (data @ drop (length data) b), io_olen := of_nat (length data)\<rparr>) else None
   }"

definition frcdrv_cmd_get_version :: "host \<Rightarrow> frc_ioctl \<Rightarrow> (int \<times> frc_ioctl) option" where
  "frcdrv_cmd_get_version h arg =
     (if io_olen arg \<noteq> 4 then Some (FRE_PARAM, arg)
      else do { arg \<leftarrow> put_output (ho_version h) arg; Some (FRE_SUCCESS, arg) })"

text \<open>\<^verbatim>\<open>FEATURE_TCP_SINGLE\<close>, \<^verbatim>\<open>FEATURE_OCT1_NETNIC\<close> and \<^verbatim>\<open>REATURE_LOCK_XMIT\<close> are the bits 1, 2 and 4.\<close>

definition features :: u64 where
  "features = push_bit 1 1 OR push_bit 2 1 OR push_bit 4 1"

definition frcdrv_cmd_get_feature :: "frc_ioctl \<Rightarrow> (int \<times> frc_ioctl) option" where
  "frcdrv_cmd_get_feature arg =
     (if io_olen arg \<noteq> 8 then Some (FRE_PARAM, arg)
      else do { arg \<leftarrow> put_output (rev (be64 features)) arg; Some (FRE_SUCCESS, arg) })"

definition frcdrv_cmd_pool_and_ring_addr_get :: "host \<Rightarrow> frc_ioctl \<Rightarrow> (int \<times> frc_ioctl) option" where
  "frcdrv_cmd_pool_and_ring_addr_get h arg =
     (if io_olen arg \<noteq> 40 \<and> io_olen arg \<noteq> 56 then Some (FRE_PARAM, arg)
      else do {
        b \<leftarrow> io_input arg;
        (type, _) \<leftarrow> UNPACK_U64 (rev (take 8 b));
        if unat type > FRC_WORK_MAX then Some (FRE_PARAM, arg)
        else if unat type = FRC_WORK_UDP \<or> unat type = FRC_WORK_RULE then
          (case frcdrv_dma_simple_package_chans (ho_chans h) of
             None \<Rightarrow> Some (FRE_INIT, arg)
           | Some chans \<Rightarrow> do {
               chan \<leftarrow> arr_get chans (unat type);
               arg \<leftarrow> put_output (le_mem (chan_desc_words (sp_desc chan))) arg;
               Some (FRE_SUCCESS, arg)
             })
        else if unat type = FRC_WORK_SSN then
          (case frcdrv_dma_ssn_chans (ho_chans h) of
             None \<Rightarrow> Some (FRE_INIT, arg)
           | Some chans \<Rightarrow> do {
               chan \<leftarrow> arr_get chans (unat type - FRC_WORK_SSN);
               arg \<leftarrow> put_output (le_mem (ssn_desc_words (sn_desc chan))) arg;
               Some (FRE_SUCCESS, arg)
             })
        else Some (FRE_SUCCESS, arg)
      })"

definition frcdrv_ioctl_frcdrv :: "host \<Rightarrow> frc_ioctl \<Rightarrow> (int \<times> frc_ioctl) option" where
  "frcdrv_ioctl_frcdrv h arg = do {
     (ret, arg) \<leftarrow> (if io_cmd arg = DRV_CMD_GET_VERSION then frcdrv_cmd_get_version h arg
       else if io_cmd arg = DRV_CMD_GET_FEATURE then frcdrv_cmd_get_feature arg
       else if io_cmd arg = DRV_CMD_GET_POOL_AND_RING_ADDR then frcdrv_cmd_pool_and_ring_addr_get h arg
       else Some (- ENOTTY, arg));
     Some (0, arg\<lparr>io_rv := of_int ret\<rparr>)
   }"

definition frcdrv_ioctl_frcore :: "api_env \<Rightarrow> frc_ioctl \<Rightarrow> host \<Rightarrow> (int \<times> frc_ioctl \<times> host) option" where
  "frcdrv_ioctl_frcore e arg h =
     (if \<not> ae_device e (io_did arg) then Some (- ENOTTY, arg, h)
      else do {
        let de = ae_drv e;
        ((rv, data), d) \<leftarrow> frcdrv_core_cmd (de_swap de) (de_send de) (de_arrive de) (de_addr de) (io_type arg) (io_cmd arg) (io_ilen arg) (io_input arg)
          (Some (io_olen arg, io_output arg \<noteq> None)) (ho_drv h);
        arg \<leftarrow> (case data of None \<Rightarrow> Some arg | Some b \<Rightarrow> put_output b arg);
        Some (0, arg\<lparr>io_rv := of_int rv\<rparr>, h\<lparr>ho_drv := d\<rparr>)
      })"

datatype ioctl_request = IOCTL_FRCDRV_REQUEST | IOCTL_FRCORE_REQUEST | other_request

definition frcdrv_ioctl :: "api_env \<Rightarrow> ioctl_request \<Rightarrow> frc_ioctl \<Rightarrow> host \<Rightarrow> (int \<times> frc_ioctl \<times> host) option" where
  "frcdrv_ioctl e cmd arg h =
     (case cmd of
        IOCTL_FRCDRV_REQUEST \<Rightarrow> map_option (\<lambda>(rv, arg). (rv, arg, h)) (frcdrv_ioctl_frcdrv h arg)
      | IOCTL_FRCORE_REQUEST \<Rightarrow> frcdrv_ioctl_frcore e arg h
      | other_request \<Rightarrow> Some (- ENOTTY, arg, h))"

section \<open>The library\<close>

text \<open>A negative result of the driver becomes \<open>-1\<close> at the caller of \<^verbatim>\<open>ioctl\<close>.\<close>

definition ioctl :: "api_env \<Rightarrow> ioctl_request \<Rightarrow> frc_ioctl \<Rightarrow> host \<Rightarrow> (int \<times> frc_ioctl \<times> host) option" where
  "ioctl e cmd arg h = map_option (\<lambda>(rv, arg, h). (if rv < 0 then -1 else rv, arg, h)) (frcdrv_ioctl e cmd arg h)"

definition frcapi_ioctl :: "api_env \<Rightarrow> frc_ioctl \<Rightarrow> host \<Rightarrow> (int \<times> frc_ioctl \<times> host) option" where
  "frcapi_ioctl e arg h =
     (if \<not> ae_open e then Some (FRE_OPEN, arg, h)
      else do {
        (rv, arg, h) \<leftarrow> (if unat (io_type arg) = CMD_TYPE_USER then ioctl e IOCTL_FRCORE_REQUEST arg h
          else if unat (io_type arg) = CMD_TYPE_DRV then ioctl e IOCTL_FRCDRV_REQUEST arg h
          else Some (ae_rv e, arg, h));
        Some (if rv \<noteq> FRE_SUCCESS then FRE_IOCTL else if sint (io_rv arg) \<noteq> FRE_SUCCESS then sint (io_rv arg) else FRE_SUCCESS, arg, h)
      })"

text \<open>The inline function \<^verbatim>\<open>frcapi\<close> of \<^verbatim>\<open>include/frcapi.h\<close>. \<open>olen\<close> is \<^verbatim>\<open>*olen\<close>, \<open>None\<close> for a null pointer.\<close>

definition frcapi :: "u16 \<Rightarrow> u16 \<Rightarrow> u16 \<Rightarrow> u8 list option \<Rightarrow> u16 option \<Rightarrow> u8 list option \<Rightarrow> api_env \<Rightarrow> host \<Rightarrow>
    (int \<times> u16 option \<times> u8 list option \<times> host) option" where
  "frcapi type cmd ilen input olen output e h =
     (if \<not> ae_open e then Some (FRE_OPEN, olen, output, h)
      else do {
        let arg = \<lparr>io_did = 0, io_rv = 0, io_type = type, io_cmd = cmd, io_ilen = ilen, io_olen = 0, io_input = input, io_output = None\<rparr>;
        let arg = (case olen of Some n \<Rightarrow> if output \<noteq> None then arg\<lparr>io_olen := n, io_output := output\<rparr> else arg | None \<Rightarrow> arg);
        (rv, arg, h) \<leftarrow> (if unat type = CMD_TYPE_DRV then ioctl e IOCTL_FRCDRV_REQUEST arg h
          else if unat type = CMD_TYPE_TEST \<or> unat type = CMD_TYPE_CTRL \<or> unat type = CMD_TYPE_USER then ioctl e IOCTL_FRCORE_REQUEST arg h
          else Some (FRE_UNSUPPORT, arg, h));
        let output = (if io_output arg \<noteq> None then io_output arg else output);
        if rv \<noteq> FRE_SUCCESS then Some (FRE_IOCTL, olen, output, h)
        else if sint (io_rv arg) \<noteq> FRE_SUCCESS then Some (sint (io_rv arg), olen, output, h)
        else Some (FRE_SUCCESS, map_option (\<lambda>_. io_olen arg) olen, output, h)
      })"

text \<open>\<^verbatim>\<open>output\<close> is a null pointer here, so that no result is asked for.\<close>

definition frcapi_chan_test_start :: "u8 list option \<Rightarrow> u16 option \<Rightarrow> api_env \<Rightarrow> host \<Rightarrow> (int \<times> u16 option \<times> u8 list option \<times> host) option" where
  "frcapi_chan_test_start chan olen = frcapi (of_nat CMD_TYPE_TEST) TEST_CMD_SIMPLE_PACKET_CHAN 8 chan olen None"

text \<open>What all the other functions do: clear the argument, fill it in, call. The result is the return code and the output buffer.\<close>

type_synonym api_call = "api_env \<Rightarrow> host \<Rightarrow> (int \<times> u8 list option \<times> host) option"

definition api_call :: "nat \<Rightarrow> u16 \<Rightarrow> u8 list option \<Rightarrow> u8 list option \<Rightarrow> u16 \<Rightarrow> api_call" where
  "api_call type cmd input output olen e h = do {
     (rv, arg, h) \<leftarrow> frcapi_ioctl e \<lparr>io_did = 0, io_rv = 0, io_type = of_nat type, io_cmd = cmd,
       io_ilen = (case input of Some b \<Rightarrow> of_nat (length b) | None \<Rightarrow> 0), io_olen = olen, io_input = input, io_output = output\<rparr> h;
     Some (rv, io_output arg, h)
   }"

abbreviation user_call :: "u16 \<Rightarrow> u8 list option \<Rightarrow> u8 list option \<Rightarrow> u16 \<Rightarrow> api_call" where
  "user_call \<equiv> api_call CMD_TYPE_USER"

text \<open>The macro \<^verbatim>\<open>UP16\<close> and the assignment behind it: the number in \<^verbatim>\<open>*num\<close>, written by the core, in the byte order of the host.\<close>

definition up16_num :: "(int \<times> u8 list option \<times> host) option \<Rightarrow> (int \<times> u8 list option \<times> host) option" where
  "up16_num r = do {
     (rv, out, h) \<leftarrow> r;
     b \<leftarrow> out;
     case b of x # y # rest \<Rightarrow> Some (rv, Some (y # x # rest), h) | _ \<Rightarrow> None
   }"

subsection \<open>Sessions\<close>

definition frcapi_fr_status_get :: "u8 list option \<Rightarrow> api_call" where
  "frcapi_fr_status_get status = user_call USER_CMD_GET_FR_STATUS None status 4"

definition frcapi_fr_enable :: "u8 \<Rightarrow> api_call" where
  "frcapi_fr_enable enable = user_call USER_CMD_FR_ENABLE (Some [enable]) None 0"

definition frcapi_fr_age_time_set :: "u8 \<Rightarrow> api_call" where
  "frcapi_fr_age_time_set age = user_call USER_CMD_SET_AGE_TIME (Some [age]) None 0"

definition frcapi_fr_disorder_depth_set :: "u8 \<Rightarrow> api_call" where
  "frcapi_fr_disorder_depth_set disorder = user_call USER_CMD_SET_DISORDER_DEPTH (Some [disorder]) None 0"

definition frcapi_ssn_get :: "frc_fr_tuple \<Rightarrow> u8 list option \<Rightarrow> api_call" where
  "frcapi_ssn_get fr_tuple fr_stat = user_call USER_CMD_SSN_GET_FIVETUPLE (Some (le_mem (fr_tuple_words fr_tuple))) fr_stat 8"

definition frcapi_ssn_bucket_get :: "u32 \<Rightarrow> u8 list option \<Rightarrow> api_call" where
  "frcapi_ssn_bucket_get hash hash_session = user_call USER_CMD_SSN_BUCKET_GET (Some (rev (PACK_U32 hash))) hash_session 100"

definition frcapi_ssn_match :: "frc_fr_tuple \<times> u64 \<Rightarrow> u8 list option \<Rightarrow> api_call" where
  "frcapi_ssn_match ssn_match num = user_call USER_CMD_SSN_MATCH (Some (le_mem (ssn_match_words ssn_match))) num 8"

subsection \<open>Rules\<close>

definition frcapi_rule_status_get :: "u8 list option \<Rightarrow> api_call" where
  "frcapi_rule_status_get enable = user_call USER_CMD_GET_RULE_STATUS None enable 1"

definition frcapi_rule_enable :: "u8 \<Rightarrow> api_call" where
  "frcapi_rule_enable enable = user_call USER_CMD_RULE_ENABLE (Some [enable]) None 0"

definition frcapi_rule_add :: "frc_rule \<Rightarrow> api_call" where
  "frcapi_rule_add rule = user_call USER_CMD_ADD_RULE (Some (le_mem (rule_words rule))) None 0"

definition frcapi_rule_del :: "frc_rule_op_in \<Rightarrow> u8 list option \<Rightarrow> api_call" where
  "frcapi_rule_del rule_del_in num = user_call USER_CMD_DEL_RULE (Some (le_mem (op_in_words rule_del_in))) num 2"

definition frcapi_rule_stat_get :: "frc_rule_op_in \<Rightarrow> u8 list option \<Rightarrow> api_call" where
  "frcapi_rule_stat_get stat_in stat_out = user_call USER_CMD_GET_RULE (Some (le_mem (op_in_words stat_in))) stat_out 132"

definition frcapi_rule_stat_clear :: "frc_rule_op_in \<Rightarrow> u8 list option \<Rightarrow> api_call" where
  "frcapi_rule_stat_clear clear_stat_in num e h = up16_num (user_call USER_CMD_CLEAN_RULE_STAT (Some (le_mem (op_in_words clear_stat_in))) num 2 e h)"

definition frcapi_rule_clear :: "frc_rule_op_in \<Rightarrow> u8 list option \<Rightarrow> api_call" where
  "frcapi_rule_clear rule_del_in num e h = up16_num (user_call USER_CMD_CLEAN_ALL_RULE (Some (le_mem (op_in_words rule_del_in))) num 2 e h)"

text \<open>Waiting half a minute is taken for success.\<close>

definition frcapi_rule_update :: "api_call" where
  "frcapi_rule_update e h = do {
     (rv, out, h) \<leftarrow> user_call USER_CMD_UPDATE_RULE None None 0 e h;
     Some (if rv = FRE_TIMEOUT then FRE_SUCCESS else rv, out, h)
   }"

definition frcapi_rule_num_get :: "u8 list option \<Rightarrow> api_call" where
  "frcapi_rule_num_get num e h = up16_num (user_call USER_CMD_GET_RULE_NUM None num 2 e h)"

definition frcapi_rule_match :: "frc_rule_stat list \<Rightarrow> frc_rule \<Rightarrow> u16 \<Rightarrow> u16 \<Rightarrow> (int \<times> u16) option" where
  "frcapi_rule_match rule_stat rule rule_num match_num = do {
     (found, _) \<leftarrow> for_ret [0..<unat rule_num] (\<lambda>i u. do {
       s \<leftarrow> arr_get rule_stat i;
       let r = rst_rule s;
       Some (r_sip rule = r_sip r \<and> r_dip rule = r_dip r \<and> r_sp rule = r_sp r \<and> r_dp rule = r_dp r \<and> r_proto rule = r_proto r, u)
     }) ();
     Some (FRE_SUCCESS, if found then match_num + 1 else match_num)
   }"

subsection \<open>Two-tuple filters\<close>

definition frcapi_acl_status_get :: "u8 list option \<Rightarrow> api_call" where
  "frcapi_acl_status_get enable = user_call USER_CMD_GET_ACL_STATUS None enable 1"

definition frcapi_acl_enable :: "u8 \<Rightarrow> api_call" where
  "frcapi_acl_enable enable = user_call USER_CMD_ACL_ENABLE (Some [enable]) None 0"

definition frcapi_acl_add :: "frc_acl \<Rightarrow> u32 \<Rightarrow> api_call" where
  "frcapi_acl_add acl resv = user_call USER_CMD_ADD_ACL (Some (le_mem (acl_words acl resv))) None 0"

definition frcapi_acl_del :: "frc_rule_op_in \<Rightarrow> u8 list option \<Rightarrow> api_call" where
  "frcapi_acl_del acl_del_in num = user_call USER_CMD_DEL_ACL (Some (le_mem (op_in_words acl_del_in))) num 2"

definition frcapi_acl_stat_get :: "frc_rule_op_in \<Rightarrow> u8 list option \<Rightarrow> api_call" where
  "frcapi_acl_stat_get stat_in stat_out = user_call USER_CMD_GET_ACL (Some (le_mem (op_in_words stat_in))) stat_out 132"

definition frcapi_acl_hash_table_stat_get :: "frc_acl_hash_table_op_in \<Rightarrow> u32 \<Rightarrow> u8 list option \<Rightarrow> api_call" where
  "frcapi_acl_hash_table_stat_get stat_in resv stat_out = user_call USER_CMD_GET_ACL_HASH_TABLE (Some (le_mem (hash_op_words stat_in resv))) stat_out 72"

definition frcapi_acl_stat_clear :: "frc_rule_op_in \<Rightarrow> u8 list option \<Rightarrow> api_call" where
  "frcapi_acl_stat_clear clear_stat_in num e h = up16_num (user_call USER_CMD_CLEAN_ACL_STAT (Some (le_mem (op_in_words clear_stat_in))) num 2 e h)"

definition frcapi_acl_clear :: "frc_rule_op_in \<Rightarrow> u8 list option \<Rightarrow> api_call" where
  "frcapi_acl_clear acl_del_in num e h = up16_num (user_call USER_CMD_CLEAN_ALL_ACL (Some (le_mem (op_in_words acl_del_in))) num 2 e h)"

definition frcapi_acl_num_get :: "u8 list option \<Rightarrow> api_call" where
  "frcapi_acl_num_get num e h = up16_num (user_call USER_CMD_GET_ACL_NUM None num 2 e h)"

definition frcapi_acl_match :: "frc_acl list \<Rightarrow> frc_acl \<Rightarrow> u16 \<Rightarrow> u16 \<Rightarrow> (int \<times> u16) option" where
  "frcapi_acl_match acl_stat acl acl_num match_num = do {
     (found, _) \<leftarrow> for_ret [0..<unat acl_num] (\<lambda>i u. do {
       a \<leftarrow> arr_get acl_stat i;
       Some (ac_one_tuple acl = ac_one_tuple a \<and> ac_proto acl = ac_proto a, u)
     }) ();
     Some (FRE_SUCCESS, if found then match_num + 1 else match_num)
   }"

subsection \<open>The board\<close>

definition frcapi_bdd_info_get :: "u8 list option \<Rightarrow> api_call" where
  "frcapi_bdd_info_get bdd_info = user_call USER_CMD_GET_BDD_INFO None bdd_info 28"

definition frcapi_frcdrv_version_get :: "u8 list option \<Rightarrow> api_call" where
  "frcapi_frcdrv_version_get frcdrv = api_call CMD_TYPE_DRV DRV_CMD_GET_VERSION None frcdrv 4"

definition frcapi_bdd_status_get :: "u8 list option \<Rightarrow> api_call" where
  "frcapi_bdd_status_get bdd_status = user_call USER_CMD_GET_BDD_STATUS None bdd_status 80"

definition frcapi_bdd_poweroff :: "api_call" where
  "frcapi_bdd_poweroff = user_call USER_CMD_POWEROFF None None 0"

text \<open>The arguments of the next five are structures of two bytes.\<close>

definition frcapi_bdd_port_enable :: "u8 \<Rightarrow> u8 \<Rightarrow> api_call" where
  "frcapi_bdd_port_enable port enable = user_call USER_CMD_BDD_PORT_ENABLE (Some [port, enable]) None 0"

definition frcapi_bdd_port_loopback_set :: "u8 \<Rightarrow> u8 \<Rightarrow> api_call" where
  "frcapi_bdd_port_loopback_set port loopback = user_call USER_CMD_SET_LOOPBACK_MODE (Some [port, loopback]) None 0"

definition frcapi_bdd_log_config_set :: "u8 \<Rightarrow> u8 \<Rightarrow> api_call" where
  "frcapi_bdd_log_config_set log enable = user_call USER_CMD_CONFIG_LOG_SW (Some [log, enable]) None 0"

definition frcapi_bdd_workmode_set :: "u8 \<Rightarrow> u8 \<Rightarrow> api_call" where
  "frcapi_bdd_workmode_set oct mode = user_call USER_CMD_SET_WORK_MODE (Some [oct, mode]) None 0"

definition frcapi_bdd_force_link :: "u8 \<Rightarrow> u8 \<Rightarrow> api_call" where
  "frcapi_bdd_force_link oct link = user_call USER_CMD_FORCE_LINK (Some [oct, link]) None 0"

definition frcapi_bdd_phy :: "u8 \<Rightarrow> frc_phy_op \<Rightarrow> u8 list option \<Rightarrow> api_call" where
  "frcapi_bdd_phy op phy output = (let input = Some (le_mem (phy_words phy)) in
      if op = 0 then user_call USER_CMD_GET_PHY input output 8 else user_call USER_CMD_SET_PHY input None 0)"

definition frcapi_bdd_cpld :: "u8 \<Rightarrow> frc_cpld_op \<Rightarrow> u8 list option \<Rightarrow> api_call" where
  "frcapi_bdd_cpld op cpld output = (let input = Some (le_mem (cpld_words cpld)) in
      if op = 0 then user_call USER_CMD_GET_CPLD input output 8 else user_call USER_CMD_SET_CPLD input None 0)"

definition frcapi_dma_block_set :: "u8 \<Rightarrow> api_call" where
  "frcapi_dma_block_set sz e = user_call (USER_CMD_SET_DMA_BLOCK_SIZE (ae_cf e)) (Some [sz]) None 0 e"

definition frcapi_dma_mem_read :: "frc_bdd_dma_read_in \<Rightarrow> u8 list option \<Rightarrow> api_call" where
  "frcapi_dma_mem_read dma_in data e = user_call (USER_CMD_READ_DMA (ae_cf e)) (Some (le_mem (dma_read_words dma_in))) data (ucast (dr_size dma_in)) e"

definition frcapi_stat_clear :: "api_call" where
  "frcapi_stat_clear = user_call USER_CMD_CLEAR_STAT None None 0"

definition frcapi_pkt_stat_get :: "frc_rule_op_in \<Rightarrow> u8 list option \<Rightarrow> api_call" where
  "frcapi_pkt_stat_get input stat = user_call USER_CMD_GET_STAT (Some (le_mem (op_in_words input))) stat (ucast (8 * op_num input))"

definition frcapi_chan_or_pr_ssn_start :: "u64 \<Rightarrow> u8 list option \<Rightarrow> api_call" where
  "frcapi_chan_or_pr_ssn_start type desc_out = api_call CMD_TYPE_DRV DRV_CMD_GET_POOL_AND_RING_ADDR (Some (rev (be64 type))) desc_out 56"

definition frcapi_chan_or_pr_rule_or_udp_start :: "u64 \<Rightarrow> u8 list option \<Rightarrow> api_call" where
  "frcapi_chan_or_pr_rule_or_udp_start type desc_out = api_call CMD_TYPE_DRV DRV_CMD_GET_POOL_AND_RING_ADDR (Some (rev (be64 type))) desc_out 40"

definition frcapi_sysinfo_get :: "u8 list option \<Rightarrow> api_call" where
  "frcapi_sysinfo_get output = user_call USER_CMD_GET_SYSINFO None output 112"

subsection \<open>The checks\<close>

definition frcapi_udp_status_get :: "u8 list option \<Rightarrow> api_call" where
  "frcapi_udp_status_get enable e = user_call (USER_CMD_GET_UDP_STATUS (ae_cf e)) None enable 1 e"

definition frcapi_udp_enable :: "u8 \<Rightarrow> api_call" where
  "frcapi_udp_enable enable e = user_call (USER_CMD_UDP_ENABLE (ae_cf e)) (Some [enable]) None 0 e"

definition frcapi_vlan_check_status_get :: "u8 list option \<Rightarrow> api_call" where
  "frcapi_vlan_check_status_get para e = user_call (USER_CMD_GET_VLAN_CHECK_PARAMETER (ae_cf e)) None para 8 e"

definition frcapi_vlan_check_set_parameter :: "vlan_check_para \<Rightarrow> u8 \<Rightarrow> u16 \<Rightarrow> api_call" where
  "frcapi_vlan_check_set_parameter para r0 r e = user_call (USER_CMD_SET_VLAN_CHECK_PARAMETER (ae_cf e)) (Some (le_mem (vlan_para_words para r0 r))) None 0 e"

definition frcapi_vlan_check_stat_clear :: "api_call" where
  "frcapi_vlan_check_stat_clear e = user_call (USER_CMD_CLEAR_VLAN_CHECK_STAT (ae_cf e)) None None 0 e"

definition frcapi_vlan_check_stat_get :: "vlan_op_in \<Rightarrow> u32 \<Rightarrow> u8 list option \<Rightarrow> api_call" where
  "frcapi_vlan_check_stat_get input resv stat e = user_call (USER_CMD_GET_VLAN_CHECK_STAT (ae_cf e)) (Some (le_mem (vlan_op_words input resv))) stat (ucast (8 * vo_num input)) e"

definition frcapi_mac_stat_set :: "u64 \<Rightarrow> u64 \<Rightarrow> u16 \<Rightarrow> api_call" where
  "frcapi_mac_stat_set mac counter cmd = user_call cmd (Some (le_mem [[be64 mac], [be64 counter]])) None 0"

definition frcapi_mac_stat_get :: "u64 \<Rightarrow> u64 \<Rightarrow> u8 list option \<Rightarrow> u16 \<Rightarrow> api_call" where
  "frcapi_mac_stat_get mac counter stat cmd = user_call cmd (Some (le_mem [[be64 mac], [be64 counter]])) stat 24"

definition frcapi_mac_stat_get_all :: "u64 \<Rightarrow> u64 \<Rightarrow> u8 list option \<Rightarrow> u16 \<Rightarrow> u16 \<Rightarrow> api_call" where
  "frcapi_mac_stat_get_all mac counter stat num cmd = user_call cmd (Some (le_mem [[be64 mac], [be64 counter]])) stat 24"

definition frcapi_timestamp_check_stat_clear :: "api_call" where
  "frcapi_timestamp_check_stat_clear e = user_call (USER_CMD_CLEAR_TIMESTAMP_CHECK_STAT (ae_cf e)) None None 0 e"

definition frcapi_timestamp_check_stat_get :: "vlan_op_in \<Rightarrow> u32 \<Rightarrow> u8 list option \<Rightarrow> api_call" where
  "frcapi_timestamp_check_stat_get input resv stat e = user_call (USER_CMD_GET_TIMESTAMP_CHECK_STAT (ae_cf e)) (Some (le_mem (vlan_op_words input resv))) stat (ucast (8 * vo_num input)) e"

definition frcapi_ipc_misc_get :: "u8 list option \<Rightarrow> api_call" where
  "frcapi_ipc_misc_get misc_out e = user_call (USER_CMD_IPC_MISC_GET (ae_cf e)) None misc_out 8 e"

definition frcapi_ipc_misc_set :: "ipc_misc \<Rightarrow> u8 \<Rightarrow> u16 \<Rightarrow> api_call" where
  "frcapi_ipc_misc_set m r1 r2 e = user_call (USER_CMD_IPC_MISC_SET (ae_cf e)) (Some (le_mem (ipc_misc_words m r1 r2))) None 0 e"

definition frcapi_ipc_cur_get :: "u8 list option \<Rightarrow> api_call" where
  "frcapi_ipc_cur_get cur_out e = user_call (USER_CMD_IPC_CUR_GET (ae_cf e)) None cur_out 16 e"

definition frcapi_ipc_cur_set :: "u64 \<times> u64 \<Rightarrow> api_call" where
  "frcapi_ipc_cur_set c e = user_call (USER_CMD_IPC_CUR_SET (ae_cf e)) (Some (le_mem (ipc_cur_words c))) None 0 e"

definition frcapi_ipc_exp_get :: "u8 list option \<Rightarrow> api_call" where
  "frcapi_ipc_exp_get exp_out e = user_call (USER_CMD_IPC_EXP_GET (ae_cf e)) None exp_out 24 e"

definition frcapi_ipc_exp_set :: "ipc_exp \<Rightarrow> api_call" where
  "frcapi_ipc_exp_set x e = user_call (USER_CMD_IPC_EXP_SET (ae_cf e)) (Some (le_mem (ipc_exp_words x))) None 0 e"

definition frcapi_ipc_instr_get :: "u8 list option \<Rightarrow> api_call" where
  "frcapi_ipc_instr_get instr_out e = user_call (USER_CMD_IPC_INSTR_GET (ae_cf e)) None instr_out 32 e"

definition frcapi_ipc_instr_set :: "ipc_instr_cfg \<Rightarrow> api_call" where
  "frcapi_ipc_instr_set i e = user_call (USER_CMD_IPC_INSTR_SET (ae_cf e)) (Some (le_mem (instr_cfg_words i))) None 0 e"

definition frcapi_ipc_instr_payload_set :: "u8 list \<Rightarrow> u64 \<Rightarrow> api_call" where
  "frcapi_ipc_instr_payload_set payload index e = user_call (USER_CMD_IPC_INSTR_PAYLOAD_SET (ae_cf e)) (Some (le_mem (payload_words (payload, index)))) None 0 e"

definition frctweak_ipc_hash4_mask_set :: "vlan_hash_mask \<Rightarrow> api_call" where
  "frctweak_ipc_hash4_mask_set m e = user_call (USER_CMD_VLAN_V4_HASH_MASK_SET (ae_cf e)) (Some (le_mem (hash_mask_words m))) None 0 e"

definition frctweak_ipc_hash6_mask_set :: "vlan_hash_mask \<Rightarrow> api_call" where
  "frctweak_ipc_hash6_mask_set m e = user_call (USER_CMD_VLAN_V6_HASH_MASK_SET (ae_cf e)) (Some (le_mem (hash_mask_words m))) None 0 e"

section \<open>The handlers of the rule commands\<close>

text \<open>The handlers of \<^verbatim>\<open>frcore/frcore_rule.c\<close> with the structures they read and write; a null \<^verbatim>\<open>param\<close> is a fault, and \<^verbatim>\<open>*olen\<close> is 0 unless it
  is set. \<open>junk\<close> is what the local variable \<^verbatim>\<open>output\<close> holds.\<close>

definition put_num :: "u16 \<Rightarrow> u8 list \<Rightarrow> u8 list" where
  "put_num n buf = PACK_U16 n @ drop 2 buf"

definition rule_enable_cmd :: "rule_state handler" where
  "rule_enable_cmd plen param buf s = do {
     p \<leftarrow> param; enable \<leftarrow> arr_get p 0;
     (rv, s) \<leftarrow> frcore_cmd_rule_enable enable s;
     Some (rv, 0, buf, s)
   }"

definition rule_status_get_cmd :: "rule_state handler" where
  "rule_status_get_cmd plen param buf s = do {
     (rv, enable, s) \<leftarrow> frcore_cmd_rule_status_get s;
     Some (rv, 1, enable # drop 1 buf, s)
   }"

definition rule_add_cmd :: "rule_state handler" where
  "rule_add_cmd plen param buf s = do {
     p \<leftarrow> param; rule \<leftarrow> core_rule p;
     (rv, s) \<leftarrow> frcore_cmd_rule_add rule s;
     Some (rv, 0, buf, s)
   }"

definition rule_del_cmd :: "rule_state handler" where
  "rule_del_cmd plen param buf s = do {
     p \<leftarrow> param; del \<leftarrow> core_op_in p;
     (rv, olen, num, s) \<leftarrow> frcore_cmd_rule_del del 0 s;
     Some (rv, olen, put_num num buf, s)
   }"

definition rule_clear_all_cmd :: "rule_state handler" where
  "rule_clear_all_cmd plen param buf s = do {
     p \<leftarrow> param; del \<leftarrow> core_op_in p;
     (rv, olen, num, s) \<leftarrow> frcore_cmd_rule_clear_all del 0 s;
     Some (rv, olen, (case num of Some n \<Rightarrow> put_num n buf | None \<Rightarrow> buf), s)
   }"

definition rule_update_cmd :: "rule_state handler" where
  "rule_update_cmd plen param buf s = do {
     (rv, s) \<leftarrow> frcore_cmd_rule_update s;
     Some (rv, 0, buf, s)
   }"

definition stat_entry_bytes :: "frc_rule_stat \<Rightarrow> u8 list" where
  "stat_entry_bytes x = be_mem (rule_words (rst_rule x)) @ PACK_U32 (rst_bytes x) @ PACK_U32 (rst_pkts x)"

definition stat_out_bytes :: "u8 list \<Rightarrow> frc_rule_stat_out \<Rightarrow> u8 list" where
  "stat_out_bytes junk out = (let b = PACK_U32 (so_num out) @ concat (map stat_entry_bytes (so_rule_stat out)) in b @ drop (length b) junk)"

definition rule_stat_get_cmd :: "u8 list \<Rightarrow> rule_state handler" where
  "rule_stat_get_cmd junk plen param buf s = do {
     p \<leftarrow> param; input \<leftarrow> core_op_in p;
     (rv, out, s) \<leftarrow> frcore_cmd_rule_stat_get input s;
     Some (rv, 132, stat_out_bytes junk out @ drop 132 buf, s)
   }"

definition rule_stat_clear_cmd :: "rule_state handler" where
  "rule_stat_clear_cmd plen param buf s = do {
     p \<leftarrow> param; input \<leftarrow> core_op_in p;
     (rv, num, s) \<leftarrow> frcore_cmd_rule_stat_clear input s;
     Some (rv, 2, put_num num buf, s)
   }"

definition rule_get_num_cmd :: "rule_state handler" where
  "rule_get_num_cmd plen param buf s = do {
     (rv, num, s) \<leftarrow> frcore_cmd_rule_get_num s;
     Some (rv, 2, put_num num buf, s)
   }"

text \<open>A sequence of \<^verbatim>\<open>FRCORE_REGISTER_CMD\<close>: the first refusal ends the function.\<close>

fun register_cmds :: "(u16 \<times> 's handler) list \<Rightarrow> 's core_cmds \<Rightarrow> (int \<times> 's core_cmds) option" where
  "register_cmds [] c = Some (0, c)"
| "register_cmds ((cmd, fn) # regs) c = do {
     (rv, c) \<leftarrow> frcore_cmd_register (of_nat CMD_TYPE_USER) cmd fn c;
     if rv \<noteq> 0 then Some (rv, c) else register_cmds regs c
   }"

definition rule_cmds :: "u8 list \<Rightarrow> (u16 \<times> rule_state handler) list" where
  "rule_cmds junk = [(USER_CMD_RULE_ENABLE, rule_enable_cmd), (USER_CMD_GET_RULE_STATUS, rule_status_get_cmd), (USER_CMD_ADD_RULE, rule_add_cmd),
     (USER_CMD_DEL_RULE, rule_del_cmd), (USER_CMD_CLEAN_ALL_RULE, rule_clear_all_cmd), (USER_CMD_UPDATE_RULE, rule_update_cmd),
     (USER_CMD_GET_RULE, rule_stat_get_cmd junk), (USER_CMD_CLEAN_RULE_STAT, rule_stat_clear_cmd), (USER_CMD_GET_RULE_NUM, rule_get_num_cmd)]"

definition frcore_rule_init :: "u8 list \<Rightarrow> rule_state core_cmds \<Rightarrow> (int \<times> rule_state core_cmds) option" where
  "frcore_rule_init junk c = register_cmds (rule_cmds junk) c"

lemma register_cmds_all:
  assumes "cmds_ok c" "register_cmds regs c = Some (0, c')"
  shows "cmds_ok c' \<and> cc_state c' = cc_state c \<and> (\<forall>(cmd, fn) \<in> set regs. handlers c' (CMD_TYPE_USER, unat cmd) = Some fn) \<and>
    (\<forall>k fn. handlers c k = Some fn \<longrightarrow> handlers c' k = Some fn)"
  using assms
proof (induction regs arbitrary: c)
  case (Cons r regs)
  obtain cmd fn where r: "r = (cmd, fn)" by (cases r)
  have t: "unat (of_nat CMD_TYPE_USER :: u16) = CMD_TYPE_USER" "CMD_TYPE_USER < CMD_TYPE_DRV" by (simp_all add: c_consts)
  obtain rv c1 where c1: "frcore_cmd_register (of_nat CMD_TYPE_USER) cmd fn c = Some (rv, c1)" "cmds_ok c1" "cc_state c1 = cc_state c"
      "rv = 0 \<longrightarrow> handlers c (CMD_TYPE_USER, unat cmd) = None \<and> handlers c1 = (handlers c)((CMD_TYPE_USER, unat cmd) \<mapsto> fn)"
    using register_outcome [OF Cons.prems(1), of "of_nat CMD_TYPE_USER" cmd fn] t
    by (auto simp: FRE_SUCCESS_def FRE_UNSUPPORT_def FRE_EXIST_def split: if_splits)
  then have "rv = 0" "register_cmds regs c1 = Some (0, c')" using Cons.prems(2) by (auto simp: r split: if_splits)
  moreover have "handlers c1 k = Some f" if "handlers c k = Some f" for k f
    using that c1(4) \<open>rv = 0\<close> by (cases "k = (CMD_TYPE_USER, unat cmd)") auto
  moreover have "handlers c1 (CMD_TYPE_USER, unat cmd) = Some fn" using c1(4) \<open>rv = 0\<close> by simp
  ultimately show ?case using Cons.IH [OF c1(2)] c1(3) by (simp add: r)
qed simp

lemma rule_handlers:
  assumes "cmds_ok c0" "frcore_rule_init junk c0 = Some (0, c)"
  shows "cmds_ok c" "cc_state c = cc_state c0" "handlers c (CMD_TYPE_USER, 32) = Some rule_add_cmd" "handlers c (CMD_TYPE_USER, 36) = Some rule_del_cmd"
    "handlers c (CMD_TYPE_USER, 38) = Some rule_stat_clear_cmd" "handlers c (CMD_TYPE_USER, 40) = Some rule_get_num_cmd"
  using register_cmds_all [OF assms(1) assms(2) [unfolded frcore_rule_init_def]] by (simp_all add: rule_cmds_def c_consts)

section \<open>A call of the library\<close>

definition answers :: "swap \<Rightarrow> nat \<Rightarrow> nat \<Rightarrow> 's core_cmds \<Rightarrow> api_env \<Rightarrow> bool" where
  "answers swap k addr c e \<longleftrightarrow> ae_open e \<and> ae_device e 0 \<and> ae_drv e = \<lparr>de_swap = swap, de_send = all_well, de_arrive = core_answer c k, de_addr = addr\<rparr>"

text \<open>A handler that succeeds and answers with \<open>n\<close> bytes.\<close>

lemma user_call_run:
  fixes c :: "'s core_cmds"
  assumes sw: "swaps_words swap" and k: "k < FRCDRV_CORE_REQ_TIMEOUT" and fresh: "addr \<notin> fst ` set (frcdrv_core_req_head (ho_drv h))"
    and env: "answers swap k addr c e" and ok: "cmds_ok c" and fn: "handlers c (CMD_TYPE_USER, unat cmd) = Some fn" "cmd AND 0xfff = cmd"
    and ilen: "ilen = (case input of Some b \<Rightarrow> of_nat (length b) | None \<Rightarrow> 0)" "unat ilen \<le> 64"
    and pkt: "cmd_si_data swap \<lparr>cm_cmd = cmd, cm_type = of_nat CMD_TYPE_USER, cm_len = ilen, cm_seq = frcdrv_core_requset_seq (ho_drv h) + 1\<rparr> input = Some pkt"
    and run: "fn ilen (if ilen \<noteq> 0 then Some (drop 8 pkt) else None) (replicate 1024 0) (cc_state c) = Some (FRE_SUCCESS, n, buf, st)" "length buf = 1024"
    and room: "unat n \<le> unat olen" "unat n \<le> 1024" "\<forall>b. output = Some b \<longrightarrow> unat n \<le> length b"
  shows "\<exists>resp h'. frcore_process_frc_cmd True pkt c = Some (Some resp, c\<lparr>cc_state := st\<rparr>) \<and>
    user_call cmd input output olen e h = Some (FRE_SUCCESS, map_option (\<lambda>b. take (unat n) buf @ drop (unat n) b) output, h')"
proof -
  let ?h = "\<lparr>cm_cmd = cmd, cm_type = of_nat CMD_TYPE_USER, cm_len = ilen, cm_seq = frcdrv_core_requset_seq (ho_drv h) + 1\<rparr>"
  have cut: "unat (cm_type (cut_cmd ?h)) = CMD_TYPE_USER" "cm_cmd (cut_cmd ?h) = cmd" "unat (cm_type (cut_cmd ?h)) < CMD_TYPE_DRV"
    using fn(2) by (simp_all add: cut_cmd_def c_consts)
  have call: "call_handler (cut_cmd ?h) (if ilen \<noteq> 0 then Some (drop 8 pkt) else None) c = Some (FRE_SUCCESS, n, buf, st)"
    using call_handler_outcome [OF ok cut(3)] cut(1,2) fn(1) run(1) by simp
  let ?data = "if output = None then None else Some (take (unat n) buf)"
  have res: "result_of (Some (olen, output \<noteq> None)) \<lparr>rp_ret = of_int FRE_SUCCESS, rp_len = n, rp_seq = q, rp_data = buf\<rparr> = Some (FRE_SUCCESS, ?data)" for q
    using room(1,2) run(2) by (auto simp: result_of_def FRE_SUCCESS_def)
  obtain resp d' where r: "frcore_process_frc_cmd True pkt c = Some (Some resp, c\<lparr>cc_state := st\<rparr>)"
      "frcdrv_core_cmd swap all_well (core_answer c k) addr (of_nat CMD_TYPE_USER) cmd ilen input (Some (olen, output \<noteq> None)) (ho_drv h) = Some ((FRE_SUCCESS, ?data), d')"
    using command_run [OF sw k fresh refl ilen(2) pkt _ call run(2) res] ok by (auto simp: cmds_ok_def)
  have "user_call cmd input output olen e h = Some (FRE_SUCCESS, map_option (\<lambda>b. take (unat n) buf @ drop (unat n) b) output, h\<lparr>ho_drv := d'\<rparr>)"
    using r(2) env room run(2)
    by (cases "output") (simp_all add: api_call_def frcapi_ioctl_def ioctl_def frcdrv_ioctl_def frcdrv_ioctl_frcore_def answers_def put_output_def
        flip: ilen(1), simp_all add: FRE_SUCCESS_def CMD_TYPE_USER_def min_def)
  with r(1) show ?thesis by blast
qed

text \<open>The packet that a call sends.\<close>

definition sent_packet :: "swap \<Rightarrow> u16 \<Rightarrow> u8 list option \<Rightarrow> host \<Rightarrow> u8 list option" where
  "sent_packet swap cmd input h = cmd_si_data swap \<lparr>cm_cmd = cmd, cm_type = of_nat CMD_TYPE_USER,
     cm_len = (case input of Some b \<Rightarrow> of_nat (length b) | None \<Rightarrow> 0), cm_seq = frcdrv_core_requset_seq (ho_drv h) + 1\<rparr> input"

text \<open>The core runs this packet and goes to the state \<open>st\<close>.\<close>

definition core_ran :: "swap \<Rightarrow> u16 \<Rightarrow> u8 list option \<Rightarrow> host \<Rightarrow> 's core_cmds \<Rightarrow> 's \<Rightarrow> bool" where
  "core_ran swap cmd input h c st \<longleftrightarrow>
     (\<exists>pkt resp. sent_packet swap cmd input h = Some pkt \<and> frcore_process_frc_cmd True pkt c = Some (Some resp, c\<lparr>cc_state := st\<rparr>))"

text \<open>The same with a structure of words as input, and without input.\<close>

lemma user_call_words:
  fixes c :: "'s core_cmds"
  assumes sw: "swaps_words swap" and k: "k < FRCDRV_CORE_REQ_TIMEOUT" and fresh: "addr \<notin> fst ` set (frcdrv_core_req_head (ho_drv h))"
    and env: "answers swap k addr c e" and ok: "cmds_ok c" and fn: "handlers c (CMD_TYPE_USER, unat cmd) = Some fn" "cmd AND 0xfff = cmd"
    and ws: "words_ok ws" "ws \<noteq> []" "length ws \<le> 8"
    and run: "\<And>n. fn n (Some (be_mem ws)) (replicate 1024 0) (cc_state c) = Some (FRE_SUCCESS, m, buf, st)" "length buf = 1024"
    and room: "unat m \<le> unat olen" "unat m \<le> 1024" "\<forall>b. output = Some b \<longrightarrow> unat m \<le> length b"
  shows "\<exists>h'. core_ran swap cmd (Some (le_mem ws)) h c st \<and>
    user_call cmd (Some (le_mem ws)) output olen e h = Some (FRE_SUCCESS, map_option (\<lambda>b. take (unat m) buf @ drop (unat m) b) output, h')"
proof -
  let ?n = "of_nat (8 * length ws) :: u16"
  let ?h = "\<lparr>cm_cmd = cmd, cm_type = of_nat CMD_TYPE_USER, cm_len = ?n, cm_seq = frcdrv_core_requset_seq (ho_drv h) + 1\<rparr>"
  have n: "unat ?n = 8 * length ws" using ws(3) unfolding unat_of_nat by simp
  have nz: "?n \<noteq> 0" using n ws(2) by (metis length_0_conv mult_is_0 unat_0 zero_neq_numeral)
  obtain pkt where pkt: "cmd_si_data swap ?h (Some (le_mem ws)) = Some pkt" "drop 8 pkt = be_mem ws" using words_packet [OF sw ws(1,3), of ?h] ws(2) by auto
  have len: "?n = (case Some (le_mem ws) of Some b \<Rightarrow> of_nat (length b) | None \<Rightarrow> 0)" using length_le_mem [OF ws(1)] by simp
  have small: "unat ?n \<le> 64" using n ws(3) by simp
  have "fn ?n (if ?n \<noteq> 0 then Some (drop 8 pkt) else None) (replicate 1024 0) (cc_state c) = Some (FRE_SUCCESS, m, buf, st)"
    using run(1) nz pkt(2) by simp
  from user_call_run [OF sw k fresh env ok fn len small pkt(1) this run(2) room] pkt(1) len show ?thesis
    unfolding core_ran_def sent_packet_def by auto
qed

lemma user_call_plain:
  fixes c :: "'s core_cmds"
  assumes sw: "swaps_words swap" and k: "k < FRCDRV_CORE_REQ_TIMEOUT" and fresh: "addr \<notin> fst ` set (frcdrv_core_req_head (ho_drv h))"
    and env: "answers swap k addr c e" and ok: "cmds_ok c" and fn: "handlers c (CMD_TYPE_USER, unat cmd) = Some fn" "cmd AND 0xfff = cmd"
    and run: "fn 0 None (replicate 1024 0) (cc_state c) = Some (FRE_SUCCESS, m, buf, st)" "length buf = 1024"
    and room: "unat m \<le> unat olen" "unat m \<le> 1024" "\<forall>b. output = Some b \<longrightarrow> unat m \<le> length b"
  shows "\<exists>h'. core_ran swap cmd None h c st \<and>
    user_call cmd None output olen e h = Some (FRE_SUCCESS, map_option (\<lambda>b. take (unat m) buf @ drop (unat m) b) output, h')"
proof -
  have none: "(0 :: u16) = (case (None :: u8 list option) of Some b \<Rightarrow> of_nat (length b) | None \<Rightarrow> 0)" "unat (0 :: u16) \<le> 64" by simp_all
  have "fn 0 (if (0 :: u16) \<noteq> 0 then Some (drop 8 pkt) else None) (replicate 1024 0) (cc_state c) = Some (FRE_SUCCESS, m, buf, st)" for pkt
    using run(1) by simp
  then show ?thesis
    using user_call_run [OF sw k fresh env ok fn none _ _ run(2) room, of "swap (host_cmd \<lparr>cm_cmd = cmd, cm_type = of_nat CMD_TYPE_USER, cm_len = 0, cm_seq = frcdrv_core_requset_seq (ho_drv h) + 1\<rparr>) 1"]
    by (auto simp: cmd_si_data_def Let_def core_ran_def sent_packet_def)
qed

lemma put_num_num: "length (put_num n (replicate 1024 0)) = 1024" "take 2 (put_num n buf) = PACK_U16 n"
  by (simp_all add: put_num_def del: replicate.simps)

lemma up16_put: "up16_num (Some (rv, Some (PACK_U16 n), h)) = Some (rv, Some (rev (PACK_U16 n)), h)"
  by (simp add: up16_num_def PACK_U16_def)

text \<open>C12. Once the core has registered its rule commands and answers in time, the library's calls do at the host what the handlers do at the
  core: adding a rule changes the core's rules as \<^verbatim>\<open>frcore_cmd_rule_add\<close> does with this rule; clearing statistics and asking for the
  number of rules give the caller the number that the core computed, in the byte order of the host. Deleting rules changes the
  core's rules but leaves the caller's number as it was.\<close>

theorem rule_calls_reach_core:
  assumes "swaps_words swap" "k < FRCDRV_CORE_REQ_TIMEOUT" "addr \<notin> fst ` set (frcdrv_core_req_head (ho_drv h))"
    and "cmds_ok c0" "frcore_rule_init junk c0 = Some (0, c)" "answers swap k addr c e"
  shows "(frcore_cmd_rule_add rule (cc_state c0) = Some (FRE_SUCCESS, s1) \<longrightarrow> (\<exists>h'.
      core_ran swap USER_CMD_ADD_RULE (Some (le_mem (rule_words rule))) h c s1 \<and> frcapi_rule_add rule e h = Some (FRE_SUCCESS, None, h'))) \<and>
    (frcore_cmd_rule_del op 0 (cc_state c0) = Some (FRE_SUCCESS, 0, num, s2) \<longrightarrow> (\<exists>h'.
      core_ran swap USER_CMD_DEL_RULE (Some (le_mem (op_in_words op))) h c s2 \<and> frcapi_rule_del op (Some [x, y]) e h = Some (FRE_SUCCESS, Some [x, y], h'))) \<and>
    (frcore_cmd_rule_stat_clear op (cc_state c0) = Some (FRE_SUCCESS, num, s3) \<longrightarrow> (\<exists>h'.
      core_ran swap USER_CMD_CLEAN_RULE_STAT (Some (le_mem (op_in_words op))) h c s3 \<and>
      frcapi_rule_stat_clear op (Some [x, y]) e h = Some (FRE_SUCCESS, Some (rev (PACK_U16 num)), h'))) \<and>
    (\<exists>h'. core_ran swap USER_CMD_GET_RULE_NUM None h c (cc_state c0) \<and>
      frcapi_rule_num_get (Some [x, y]) e h = Some (FRE_SUCCESS, Some (rev (PACK_U16 (acl_getfilter_count (rules (cc_state c0))))), h'))"
proof -
  note rh = rule_handlers [OF assms(4,5)]
  note wcall = user_call_words [OF assms(1-3,6) rh(1)]
  let ?z = "replicate 1024 0 :: u8 list"
  have ws: "rule_words rule \<noteq> []" "length (rule_words rule) \<le> 8" "op_in_words op \<noteq> []" "length (op_in_words op) \<le> 8"
    by (simp_all add: rule_words_def op_in_words_def)
  have add: "\<exists>h'. core_ran swap USER_CMD_ADD_RULE (Some (le_mem (rule_words rule))) h c s1 \<and> frcapi_rule_add rule e h = Some (FRE_SUCCESS, None, h')"
    if "frcore_cmd_rule_add rule (cc_state c0) = Some (FRE_SUCCESS, s1)"
    using wcall [of USER_CMD_ADD_RULE rule_add_cmd "rule_words rule" 0 ?z s1 0 None] rh(2,3) that ws(1,2)
    by (simp add: USER_CMD_ADD_RULE_def structs_ok(1) rule_add_cmd_def rule_structs_read(1) frcapi_rule_add_def del: replicate.simps)
  have del: "\<exists>h'. core_ran swap USER_CMD_DEL_RULE (Some (le_mem (op_in_words op))) h c s2 \<and> frcapi_rule_del op (Some [x, y]) e h = Some (FRE_SUCCESS, Some [x, y], h')"
    if "frcore_cmd_rule_del op 0 (cc_state c0) = Some (FRE_SUCCESS, 0, num, s2)"
    using wcall [of USER_CMD_DEL_RULE rule_del_cmd "op_in_words op" 0 "put_num num ?z" s2 2 "Some [x, y]"] rh(2,4) that ws(3,4)
    by (simp add: USER_CMD_DEL_RULE_def structs_ok(2) rule_del_cmd_def rule_structs_read(2) frcapi_rule_del_def put_num_num del: replicate.simps)
  have clear: "\<exists>h'. core_ran swap USER_CMD_CLEAN_RULE_STAT (Some (le_mem (op_in_words op))) h c s3 \<and>
      frcapi_rule_stat_clear op (Some [x, y]) e h = Some (FRE_SUCCESS, Some (rev (PACK_U16 num)), h')"
    if "frcore_cmd_rule_stat_clear op (cc_state c0) = Some (FRE_SUCCESS, num, s3)"
    using wcall [of USER_CMD_CLEAN_RULE_STAT rule_stat_clear_cmd "op_in_words op" 2 "put_num num ?z" s3 2 "Some [x, y]"] rh(2,5) that ws(3,4)
    by (auto simp: USER_CMD_CLEAN_RULE_STAT_def structs_ok(2) rule_stat_clear_cmd_def rule_structs_read(2) frcapi_rule_stat_clear_def put_num_num up16_put
        simp del: replicate.simps)
  have get: "rule_get_num_cmd 0 None ?z (cc_state c) = Some (FRE_SUCCESS, 2, put_num (acl_getfilter_count (rules (cc_state c0))) ?z, cc_state c0)"
    by (simp add: rule_get_num_cmd_def frcore_cmd_rule_get_num_def rh(2))
  have num: "\<exists>h'. core_ran swap USER_CMD_GET_RULE_NUM None h c (cc_state c0) \<and>
      frcapi_rule_num_get (Some [x, y]) e h = Some (FRE_SUCCESS, Some (rev (PACK_U16 (acl_getfilter_count (rules (cc_state c0))))), h')"
    using user_call_plain [OF assms(1-3,6) rh(1), of USER_CMD_GET_RULE_NUM rule_get_num_cmd 2 _ _ 2 "Some [x, y]", OF _ _ get] rh(6)
    by (auto simp: USER_CMD_GET_RULE_NUM_def frcapi_rule_num_get_def put_num_num up16_put simp del: replicate.simps)
  show ?thesis using add del clear num by blast
qed

text \<open>An example: a core whose rule commands are registered, and a host that has just started.\<close>

lemma register_cmds_fresh:
  assumes "cmds_ok c" "distinct (map (unat \<circ> fst) regs)" "\<forall>(cmd, fn) \<in> set regs. unat cmd < USER_CMD_MAX \<and> handlers c (CMD_TYPE_USER, unat cmd) = None"
  shows "\<exists>c'. register_cmds regs c = Some (0, c')"
  using assms
proof (induction regs arbitrary: c)
  case (Cons r regs)
  obtain cmd fn where r: "r = (cmd, fn)" by (cases r)
  have t: "unat (of_nat CMD_TYPE_USER :: u16) = CMD_TYPE_USER" "CMD_TYPE_USER < CMD_TYPE_DRV" "cmd_limit CMD_TYPE_USER = USER_CMD_MAX"
    by (simp_all add: c_consts cmd_limit_def)
  obtain c1 where c1: "frcore_cmd_register (of_nat CMD_TYPE_USER) cmd fn c = Some (0, c1)" "cmds_ok c1" "handlers c1 = (handlers c)((CMD_TYPE_USER, unat cmd) \<mapsto> fn)"
    using register_outcome [OF Cons.prems(1), of "of_nat CMD_TYPE_USER" cmd fn] t Cons.prems(3) by (auto simp: r FRE_SUCCESS_def)
  have "\<exists>c'. register_cmds regs c1 = Some (0, c')"
  proof (rule Cons.IH [OF c1(2)])
    show "distinct (map (unat \<circ> fst) regs)" using Cons.prems(2) by (simp add: comp_def)
    have "unat cmd \<notin> (unat \<circ> fst) ` set regs" using Cons.prems(2) by (simp add: r)
    then show "\<forall>(cmd, fn) \<in> set regs. unat cmd < USER_CMD_MAX \<and> handlers c1 (CMD_TYPE_USER, unat cmd) = None"
      using Cons.prems(3) unfolding c1(3) by (force simp: r)
  qed
  with c1(1) show ?case by (auto simp: r)
qed simp

definition rule_core :: "rule_state core_cmds" where
  "rule_core = snd (frcore_cmd_init (\<lambda>_. True) (replicate 5 \<lparr>cs_max = 0, cs_num = 0, cs_vector = []\<rparr>) (start_state quiet_env))"

lemma rule_core_ok: "cmds_ok rule_core" "handlers rule_core = Map.empty" "cc_state rule_core = start_state quiet_env"
  using init_ok [of "replicate 5 \<lparr>cs_max = 0, cs_num = 0, cs_vector = []\<rparr>" "\<lambda>_. True" "start_state quiet_env"] by (auto simp: rule_core_def)

lemma rule_core_init: "\<exists>c. frcore_rule_init (replicate 132 0) rule_core = Some (0, c)"
  unfolding frcore_rule_init_def
  by (rule register_cmds_fresh [OF rule_core_ok(1)]) (simp_all add: rule_cmds_def rule_core_ok(2) c_consts del: replicate.simps)

definition start_host :: host where
  "start_host = \<lparr>ho_drv = boot_drv, ho_chans = three_state, ho_version = [1, 2, 0, 0]\<rparr>"

definition start_api :: "'s core_cmds \<Rightarrow> api_env" where
  "start_api c = \<lparr>ae_drv = \<lparr>de_swap = swap_words, de_send = all_well, de_arrive = core_answer c 3, de_addr = 7\<rparr>, ae_device = \<lambda>did. did = 0,
     ae_open = True, ae_rv = 0, ae_cf = shipped_switches\<rparr>"

theorem rule_calls_reach_core_witness:
  "\<exists>(c :: rule_state core_cmds) fs h'. core_ran swap_words USER_CMD_ADD_RULE (Some (le_mem (rule_words (rule_for 7 80)))) start_host c (set_filtset fs (start_state quiet_env)) \<and>
     frcapi_rule_add (rule_for 7 80) (start_api c) start_host = Some (FRE_SUCCESS, None, h') \<and> rule_map fs 7 \<noteq> None"
proof -
  obtain c where c: "frcore_rule_init (replicate 132 0) rule_core = Some (0, c)" using rule_core_init by blast
  let ?s = "start_state quiet_env"
  have none: "unat (numFilters (rules ?s)) = 0" by (simp add: start_state_def acl_data_init_def filtset_init_def Let_def)
  have idx: "r_index (rule_for 7 80) = 7" by (simp add: rule_for_def)
  obtain fs where fs: "add_rules [rule_for 7 80] ?s = Some (set_filtset fs ?s)" "rule_map fs 7 \<noteq> None"
    using add_rules_map [OF start_state_ok(1), of "[rule_for 7 80]"] none idx by auto
  then have add: "frcore_cmd_rule_add (rule_for 7 80) (cc_state rule_core) = Some (FRE_SUCCESS, set_filtset fs ?s)"
    by (cases "acl_setfilter (rules ?s) (r_index (rule_for 7 80)) (args_of (rule_for 7 80))")
      (simp_all add: add_rules_def rule_core_ok(3) frcore_cmd_rule_add_def)
  have "3 < FRCDRV_CORE_REQ_TIMEOUT" "7 \<notin> fst ` set (frcdrv_core_req_head (ho_drv start_host))" "answers swap_words 3 7 c (start_api c)"
    by (simp_all add: FRCDRV_CORE_REQ_TIMEOUT_def start_host_def boot_drv_def answers_def start_api_def)
  from rule_calls_reach_core [OF swaps_words_swap this(1,2) rule_core_ok(1) c this(3), of "rule_for 7 80" "set_filtset fs ?s"] add fs(2)
  show ?thesis by blast
qed

end
