(* ===== verification/Spec2Isabelle.thy ===== *)
theory Spec2Isabelle
  imports SsnTable Udp Pkt Timestamp HostApi
begin

text \<open>
  The firmware of a network card (\<^verbatim>\<open>src/code/frcore\<close>) that receives packets from the wire, classifies
  them, and hands the selected ones to a host over PCI, and the host's side of it: the driver (\<^verbatim>\<open>src/code/frcdrv\<close>) that provides the
  memory and sends commands, and the library (\<^verbatim>\<open>src/code/frcapi\<close>) through which programs issue them. What the two machines
  share is in \<^verbatim>\<open>src/code/include\<close>.

  \<^bold>\<open>The program.\<close> A packet arrives as a work item. The firmware reads its headers (\<^verbatim>\<open>frcore_pkt.h\<close>,
  \<^verbatim>\<open>frc_pack.h\<close>) and passes it to the features that are compiled in, chosen by the switches of
  \<^verbatim>\<open>include/frc_config.h\<close>:

  \<^item> the \<^emph>\<open>rule\<close> feature looks the five-tuple up in tables compiled from a set of filters (\<^verbatim>\<open>frcore_rfc.c\<close>,
    \<^verbatim>\<open>frcore_acl.c\<close>) and forwards a packet that matches (\<^verbatim>\<open>frcore_rule.c\<close>) through the simple-package
    channel (\<^verbatim>\<open>frcore_chan.c\<close>);
  \<^item> the \<^emph>\<open>session\<close> feature finds or creates the session of a TCP packet (\<^verbatim>\<open>frcore_ssn.c\<close>), puts its segments
    in order (\<^verbatim>\<open>frcore_tcpflowrec.c\<close>), and submits them through the session channel (\<^verbatim>\<open>frcore_chan.c\<close>);
  \<^item> the \<^emph>\<open>probe check\<close> compares the header that a probe writes over the addresses of a frame with a pattern, watches the order
    of frames, and answers sampled ones (\<^verbatim>\<open>frcore_ipc.c\<close>);
  \<^item> the \<^emph>\<open>VLAN check\<close> computes from the addresses which tag a packet ought to have and counts
    (\<^verbatim>\<open>frcore_vlan_check.c\<close>, \<^verbatim>\<open>frcore_alg.c\<close>);
  \<^item> the \<^emph>\<open>two-tuple filter\<close> looks one address or port and the protocol up in hash chains (\<^verbatim>\<open>frcore_filter.c\<close>) and forwards what
    matches (\<^verbatim>\<open>frcore_twotuple.c\<close>);
  \<^item> the \<^emph>\<open>timestamp check\<close> compares the time that a frame carries with an earlier one (\<^verbatim>\<open>frcore_timestamp_check.c\<close>).

  The dispatch (\<^verbatim>\<open>frcore_pkt.c\<close>) calls them and frees the work item according to the action they return. Both channels take addresses of host memory blocks from a ring that the driver fills, copy data there
  by DMA, and return the addresses through a second ring (\<^verbatim>\<open>frc_dma.h\<close>). Each theory models its feature as
  compiled in; the switches of \<^verbatim>\<open>frc_config.h\<close> enable the probe check and the VLAN check, and \<open>Pkt\<close> models the dispatch with exactly
  these.

  The features are configured by commands. A program calls the library, which passes a structure to the driver by an ioctl; the
  driver numbers the command, turns the bytes of the structure around and sends a packet (\<^verbatim>\<open>frcdrv_cmd.c\<close>); the firmware
  finds the handler in a table and answers with a second packet (\<^verbatim>\<open>frcore_cmd.c\<close>); the driver matches the answer with the request that waits for it.
  By such commands the driver also tells the firmware where the rings of a channel are (\<^verbatim>\<open>frcdrv_chan.c\<close>, \<^verbatim>\<open>frcore_chan.c\<close>).

  \<^bold>\<open>The theories.\<close>

  \<^item> \<^bold>\<open>Prelude\<close>: The machine integers, bounds-checked access to arrays (an access outside one is the value
    \<^const>\<open>None\<close>, a fault), counting loops over a state that may fault, the return codes.

  \<^item> \<^bold>\<open>Rfc\<close>: \<^verbatim>\<open>frcore_rfc.c\<close>, \<^verbatim>\<open>frcore_rfc.h\<close>: the bitmaps, the lists of equivalence classes, the tables of the
    four phases of recursive flow classification and the lookup through them. The lemmas show that a phase
    table represents, for every index, the set of filters that match, and when a class list has room.

  \<^item> \<^bold>\<open>Acl\<close>: \<^verbatim>\<open>frcore_acl.c\<close>: the filter set with its sorted table, inserting, deleting, reading and counting,
    and \<^verbatim>\<open>pre_acl_lookup_by_tuple\<close> and \<^verbatim>\<open>acl_lookup_by_tuple\<close>. The main results: the lookup is the linear search over the filters
    whenever compiling succeeded; with at most nine filters it always succeeds; with at most eleven it never
    leaves an array; set and delete refine the update of a map from tags to rules.

  \<^item> \<^bold>\<open>Ring\<close>: The rings of \<^verbatim>\<open>frc_dma.h\<close> for both byte orders. A locale states a bounded queue; both rings are
    interpretations of it.

  \<^item> \<^bold>\<open>Chan\<close>: The simple-package channel. The outcome of the n-th transfer is an argument, so a theorem
    holds for every pattern of failures. Posting ends, is all or nothing, and without failures delivers the
    queue in order; forwarding refines appending to a bounded queue.

  \<^item> \<^bold>\<open>Bytes\<close>: The pack and unpack macros and their round trip.

  \<^item> \<^bold>\<open>Rule\<close>: Every command handler of \<^verbatim>\<open>frcore_rule.c\<close> and the packet path from the bytes of the frame to
    the fifo of the channel, with the results that compose \<open>Acl\<close>, \<open>Chan\<close> and \<open>Bytes\<close>: the packet is
    forwarded under the smallest matching rule.

  \<^item> \<^bold>\<open>Udp\<close>: \<^verbatim>\<open>frcore_udp.c\<close>: a UDP packet is queued in the simple-package channel.

  \<^item> \<^bold>\<open>SsnChan\<close>: The session channel: a fifo of head, data and tail cells, posted by a loop that is a
    \<^verbatim>\<open>while\<close> in the code and a partial function here. With a finite number of transfer errors it returns;
    a cell without payload makes it run forever, and the model says so.

  \<^item> \<^bold>\<open>TcpFlow\<close>: The queues of TCP segments of a session, their insertion with all cases of overlap, and the
    submission into blocks. Every packet is freed exactly once, the queues hold ordered pieces of the
    stream, every segment lies inside its block.

  \<^item> \<^bold>\<open>Ssn\<close>: The session table as a store: sessions, chains linked through the sessions, buckets, the pool and
    the timers; lookup, creation, aging, removal, the query command, and the path of a TCP packet
    through \<open>TcpFlow\<close> and \<open>SsnChan\<close>. The loops along a chain are partial functions.

  \<^item> \<^bold>\<open>SsnTable\<close>: Chains as lists and the invariant of the table; every event keeps it (an interpretation
    of the locale of event systems), which gives that the loops return, and that the lookup refines a
    finite map. Sessions that were created are found, idle ones go away.

  \<^item> \<^bold>\<open>Vlan\<close>: Both hash algorithms, the check of a packet, and the commands that set its parameters.

  \<^item> \<^bold>\<open>Ipc\<close>: \<^verbatim>\<open>frcore_ipc.c\<close>: the state that the packet handlers share (work items, counters, ports), the commands, the check of
    the probe header, and the instruction packets.

  \<^item> \<^bold>\<open>IpcCheck\<close>: Its properties: the header check is a comparison of bytes under a mask, every frame is handled
    unless an answer leaves its table or buffer (exactly when), the packet number is the maximum seen.

  \<^item> \<^bold>\<open>Pkt\<close>: The dispatch of \<^verbatim>\<open>frcore_pkt.c\<close> with \<^verbatim>\<open>frcore_ip.c\<close>: every work item is freed or handed over
    exactly once, with the one exception that a variable is read before it is written. A locale states what the
    dispatch relies on in a handler; the handlers with and without the probe check are its interpretations.

  \<^item> \<^bold>\<open>TupleFilter\<close>: \<^verbatim>\<open>frcore_filter.c\<close>: the array of filters and the hash chains. Setting, deleting and looking up refine an ordered
    list of filters, for every CRC function and every pattern of refused cells (an interpretation of the locale of refinements of \<open>Prelude\<close>).

  \<^item> \<^bold>\<open>TwoTuple\<close>: \<^verbatim>\<open>frcore_twotuple.c\<close>: the commands and the packet path over \<open>TupleFilter\<close> and \<open>Chan\<close>.

  \<^item> \<^bold>\<open>Timestamp\<close>: \<^verbatim>\<open>frcore_timestamp_check.c\<close>: reading and checking the time, the counters, the commands. What a sequence of frames leaves in
    the state and the counters.

  \<^item> \<^bold>\<open>CoreCmd\<close>: \<^verbatim>\<open>frcore_cmd.c\<close>: the table of handlers, registration, and the processing of a command packet up to the answer.

  \<^item> \<^bold>\<open>DrvCmd\<close>: \<^verbatim>\<open>frcdrv_cmd.c\<close>: the list of requests, the packet of a command, the answers, and the loop that waits.

  \<^item> \<^bold>\<open>CmdPath\<close>: Both together, as a step relation in which any number of commands are under way, packets are lost and
    processes stop waiting: a command returns what its handler computed, or a timeout; and one that is answered in time returns it.

  \<^item> \<^bold>\<open>DrvChan\<close>: \<^verbatim>\<open>frcdrv_chan.c\<close> with \<^verbatim>\<open>frcdrv_udp.c\<close>, \<^verbatim>\<open>frcdrv_rule.c\<close> and \<^verbatim>\<open>frcdrv_tcp.c\<close>: the pool of a channel, its rings, their release. A
    channel that was set up offers every block of its areas once.

  \<^item> \<^bold>\<open>ApiTypes\<close>: The structures of commands (\<^verbatim>\<open>frc_types.h\<close>) as they lie in the memory of the host and of the firmware. Values arrive
    unchanged.

  \<^item> \<^bold>\<open>ChanSetup\<close>: The commands that open a channel, on both sides, and the driver's start and stop (\<^verbatim>\<open>frcdrv_dev.c\<close>).

  \<^item> \<^bold>\<open>HostApi\<close>: The ioctl interface of \<^verbatim>\<open>frcdrv_dev.c\<close> and the functions of \<^verbatim>\<open>frc_api.c\<close>; the rule commands from the call in the library to
    the state of \<open>Rule\<close> and back.

  \<^bold>\<open>Parameters.\<close> What is not in the repository is an argument: the outcome of each DMA transfer and the
  clock (in the channels), the allocator of the pool of sessions and of queue entries, the timer unit
  of the processor (may refuse a timer), its CRC unit (any function of the words of the tuple), the boot memory of the
  instruction table and of the table of commands, the cells of the hash chains, the page allocator of the kernel, the vendor's function that turns bytes
  around (assumed to turn the words it is given, by the predicate \<open>swaps_words\<close>), which packets and answers are lost, and what a local variable or structure holds before it is written. No
  theorem assumes more of them than the calling code checks, except where the statement says so.

  \<^bold>\<open>Bounds.\<close> Lists have the lengths of the C arrays; indices and counters are words of the width the code
  gives them and wrap. Where a counter may wrap and a property depends on it not doing so, the statement
  bounds the number of requests: a packet or timer event makes at most 18 requests to the session
  channel, and a theorem over sequences of events gives the fifo room for that many. Loops that may run
  forever are partial functions into \<^typ>\<open>'a option\<close>, without fuel, and theorems state that they return.

  \<^bold>\<open>Behaviour found by modelling.\<close> Some theorems state what the code does where that is probably not
  what it means to: counters that stay with a tag when a rule is inserted before it, copies
  past a fifo cell, blocks lost or returned twice after a failed transfer, a retransmission that replaces
  bytes, two sessions for a connection of an address with itself, a session count that does not go back,
  a division by zero after a command, answers past their table or buffer, an action that is never assigned, a
  filter that can be neither used nor removed, times that are compared with the first one only, and numbers that never reach the caller of the library.

  \<^bold>\<open>Not modelled.\<close> The rest of the driver (\<^verbatim>\<open>frcdrv_main.c\<close>, \<^verbatim>\<open>frcdrv_network.c\<close>, \<^verbatim>\<open>octeon_nic.c\<close>) is PCI set-up and a network device, calls of kernel
  interfaces; the command-line tool (\<^verbatim>\<open>frctweak\<close>) is parsing of arguments and text output around the library.
  Start-up, PHY and board management (\<^verbatim>\<open>frcore_init.c\<close>, \<^verbatim>\<open>frcore_phy.c\<close>, \<^verbatim>\<open>frcore_bmm.c\<close>) are register accesses and calls of the vendor's library. Text output
  (\<^verbatim>\<open>acl_GetOneFilter_Cmd\<close>, the dump functions) has no state. The spin locks and the interleaving of cores
  are left out: a theory of the firmware follows one core, and the state is what this core works on while it holds the
  lock. The test configurations (\<^verbatim>\<open>FRC_CONFIG_DMA_TEST\<close> and the like) are compiled out.
\<close>

end
